(* ===== verification/Prelude.thy ===== *)
theory Prelude
  imports Main "HOL-Library.Word" "HOL-Library.Monad_Syntax"
begin

text \<open>
  Shared vocabulary of the development: names for the machine types the sources use,
  array primitives (\<open>memcpy\<close>-like block writes), the index arithmetic of ring buffers,
  and the collections of simplification rules the component theories feed.
\<close>

unbundle bit_operations_syntax

section \<open>Machine types\<close>

type_synonym u8 = "8 word"
type_synonym u16 = "16 word"
type_synonym u32 = "32 word"
type_synonym u64 = "64 word"
type_synonym bytes = "u8 list"

text \<open>Facts that unfold the model of a component, and facts that carry its invariant.\<close>

named_theorems model_defs \<open>definitions of operations\<close>
named_theorems inv_defs \<open>definitions of invariants\<close>

lemma bit_unat: "bit (unat w) n \<longleftrightarrow> bit w n" for w :: "'a::len word"
  unfolding unat_eq_nat_uint bit_nat_iff bit_uint_iff using bit_imp_le_length [of w n] by auto

lemma and_mask_mod: "x AND (2 ^ k - 1) = x mod 2 ^ k" for x :: nat
  by (simp add: take_bit_eq_mask mask_eq_exp_minus_1 flip: take_bit_eq_mod)

section \<open>Block writes\<close>

text \<open>\<open>blit dst k src\<close> overwrites \<open>dst[k ..< k + length src]\<close>, as \<open>memcpy\<close> into an array does.\<close>

definition blit :: "'a list \<Rightarrow> nat \<Rightarrow> 'a list \<Rightarrow> 'a list" where
  "blit dst k src = take k dst @ src @ drop (k + length src) dst"

lemma length_blit [simp]: "k + length src \<le> length dst \<Longrightarrow> length (blit dst k src) = length dst"
  by (simp add: blit_def)

lemma blit_Nil [simp]: "blit dst k [] = dst"
  by (simp add: blit_def)

lemma nth_blit:
  assumes "k + length src \<le> length dst" "i < length dst"
  shows "blit dst k src ! i = (if k \<le> i \<and> i < k + length src then src ! (i - k) else dst ! i)"
  using assms by (auto simp: blit_def nth_append min_def)

lemma take_blit_end: "k + length src \<le> length dst \<Longrightarrow> take (k + length src) (blit dst k src) = take k dst @ src"
  by (simp add: blit_def)

text \<open>Clearing a list of positions, as a loop of assignments does.\<close>

lemma length_fold_update [simp]: "length (fold (\<lambda>i b. b[i := v]) is b) = length b"
  by (induction "is" arbitrary: b) auto

lemma nth_fold_update:
  "j < length b \<Longrightarrow> fold (\<lambda>i b. b[i := v]) is b ! j = (if j \<in> set is then v else b ! j)"
  by (induction "is" arbitrary: b) (auto simp: nth_list_update)

section \<open>Ring buffers\<close>

lemma ring_mod_less: "h < c \<Longrightarrow> k < c \<Longrightarrow> (h + k) mod c = (if h + k < c then h + k else h + k - c)" for c :: nat
  by (simp add: mod_if)

lemma ring_inj: "h < c \<Longrightarrow> i < c \<Longrightarrow> j < c \<Longrightarrow> (h + i) mod c = (h + j) mod c \<longleftrightarrow> i = j" for c :: nat
  by (auto simp: ring_mod_less split: if_splits)

lemma ring_surj: "h < c \<Longrightarrow> p < c \<Longrightarrow> \<exists>i<c. p = (h + i) mod c" for c :: nat
  by (rule exI [of _ "(p + (c - h)) mod c"]) (auto simp: mod_simps)

lemma ring_slices:
  assumes "length b = c" "h < c" "n \<le> c"
  shows "take (min n (c - h)) (drop h b) @ take (n - min n (c - h)) b
       = map (\<lambda>i. b ! ((h + i) mod c)) [0..<n]"
proof (rule nth_equalityI)
  show "length (take (min n (c - h)) (drop h b) @ take (n - min n (c - h)) b)
      = length (map (\<lambda>i. b ! ((h + i) mod c)) [0..<n])"
    using assms by auto
next
  fix i assume "i < length (take (min n (c - h)) (drop h b) @ take (n - min n (c - h)) b)"
  then have i: "i < n" using assms by (auto simp: min_def split: if_splits)
  show "(take (min n (c - h)) (drop h b) @ take (n - min n (c - h)) b) ! i
      = map (\<lambda>i. b ! ((h + i) mod c)) [0..<n] ! i"
  proof (cases "h + i < c")
    case True
    then have "i < c - h" by simp
    with True show ?thesis using assms i by (simp add: nth_append)
  next
    case False
    then have "\<not> i < c - h" "n - (c - h) \<le> c" "c - h \<le> n" using i assms by auto
    with False show ?thesis using assms i by (auto simp: nth_append ring_mod_less min_def add.commute)
  qed
qed

lemma ring_window:
  "h < c \<Longrightarrow> n \<le> c \<Longrightarrow> p < c \<Longrightarrow>
   (\<exists>k<n. p = (h + k) mod c) \<longleftrightarrow> (h \<le> p \<and> p < h + min n (c - h)) \<or> p < n - min n (c - h)" for c :: nat
proof (rule iffI)
  assume "h < c" "n \<le> c" "p < c" "\<exists>k<n. p = (h + k) mod c"
  then show "(h \<le> p \<and> p < h + min n (c - h)) \<or> p < n - min n (c - h)"
    by (auto simp: ring_mod_less min_def split: if_splits)
next
  assume a: "h < c" "n \<le> c" "p < c" and "(h \<le> p \<and> p < h + min n (c - h)) \<or> p < n - min n (c - h)"
  then show "\<exists>k<n. p = (h + k) mod c"
  proof (elim disjE)
    assume "h \<le> p \<and> p < h + min n (c - h)"
    then show ?thesis using a by (intro exI [of _ "p - h"]) auto
  next
    assume "p < n - min n (c - h)"
    then show ?thesis using a by (intro exI [of _ "p + (c - h)"]) (auto simp: mod_if min_def split: if_splits)
  qed
qed

section \<open>Sequences of operations and data refinement\<close>

text \<open>
  A component is a state with operations that return an output or fail. \<open>run_ops\<close> performs a
  list of operations and stops at the first failure.
\<close>

fun run_ops :: "('op \<Rightarrow> 's \<Rightarrow> 'e + 'o \<times> 's) \<Rightarrow> 'op list \<Rightarrow> 's \<Rightarrow> 'e + 'o list \<times> 's" where
  "run_ops step [] s = Inr ([], s)"
| "run_ops step (x # xs) s =
     (case step x s of
        Inl e \<Rightarrow> Inl e
      | Inr (r, s') \<Rightarrow> (case run_ops step xs s' of Inl e \<Rightarrow> Inl e | Inr (rs, t) \<Rightarrow> Inr (r # rs, t)))"

text \<open>
  The contract between a container and its abstract value: every operation that returns keeps
  the invariant and returns what the specification returns, and every failure is either the
  specification's own failure or a lack of resources.
\<close>

locale data_refinement =
  fixes step :: "'op \<Rightarrow> 's \<Rightarrow> 'e + 'o \<times> 's"
    and spec :: "'op \<Rightarrow> 'a \<Rightarrow> 'e + 'o \<times> 'a"
    and abs :: "'s \<Rightarrow> 'a"
    and inv :: "'s \<Rightarrow> bool"
    and resource :: "'e \<Rightarrow> bool"
  assumes sim_ok: "inv s \<Longrightarrow> step x s = Inr (r, s') \<Longrightarrow> inv s' \<and> spec x (abs s) = Inr (r, abs s')"
    and sim_err: "inv s \<Longrightarrow> step x s = Inl e \<Longrightarrow> resource e \<or> spec x (abs s) = Inl e"
begin

lemma run_ok:
  "inv s \<Longrightarrow> run_ops step xs s = Inr (rs, t) \<Longrightarrow> inv t \<and> run_ops spec xs (abs s) = Inr (rs, abs t)"
proof (induction xs arbitrary: s rs)
  case Nil
  then show ?case by simp
next
  case (Cons x xs)
  from Cons.prems(2) obtain r s' rs' where st: "step x s = Inr (r, s')" "run_ops step xs s' = Inr (rs', t)" "rs = r # rs'"
    by (auto split: sum.splits)
  with sim_ok [OF Cons.prems(1) st(1)] Cons.IH [of s' rs'] show ?case by simp
qed

lemma run_err:
  "inv s \<Longrightarrow> run_ops step xs s = Inl e \<Longrightarrow> resource e \<or> run_ops spec xs (abs s) = Inl e"
proof (induction xs arbitrary: s)
  case Nil
  then show ?case by simp
next
  case (Cons x xs)
  show ?case
  proof (cases "step x s")
    case (Inl e')
    with Cons.prems sim_err [OF Cons.prems(1) Inl] show ?thesis by auto
  next
    case (Inr rs')
    then obtain r s' where st: "step x s = Inr (r, s')" by (cases rs') auto
    with Cons.prems(2) have "run_ops step xs s' = Inl e" by (auto split: sum.splits prod.splits)
    with Cons.IH [of s'] sim_ok [OF Cons.prems(1) st] show ?thesis by auto
  qed
qed

end

text \<open>
  The contract of a container whose operations never fail within a budget: the invariant is
  indexed by the number of operations performed so far, and each of the first \<open>limit\<close>
  operations returns what the specification returns.
\<close>

locale counted_refinement =
  fixes step :: "'op \<Rightarrow> 's \<Rightarrow> 'e + 'o \<times> 's"
    and spec :: "'op \<Rightarrow> 'a \<Rightarrow> 'o \<times> 'a"
    and abs :: "'s \<Rightarrow> 'a"
    and inv :: "nat \<Rightarrow> 's \<Rightarrow> bool"
    and limit :: nat
  assumes sim: "inv n s \<Longrightarrow> n < limit \<Longrightarrow> \<exists>s'. step x s = Inr (fst (spec x (abs s)), s') \<and> inv (Suc n) s' \<and> abs s' = snd (spec x (abs s))"
begin

lemma run:
  "inv n s \<Longrightarrow> n + length xs \<le> limit \<Longrightarrow>
   \<exists>rs t. run_ops step xs s = Inr (rs, t) \<and> inv (n + length xs) t \<and>
     run_ops (\<lambda>x a. Inr (spec x a)) xs (abs s) = (Inr (rs, abs t) :: 'e + 'o list \<times> 'a)"
proof (induction xs arbitrary: n s)
  case Nil
  then show ?case by simp
next
  case (Cons x xs)
  obtain s' where s': "step x s = Inr (fst (spec x (abs s)), s')" "inv (Suc n) s'" "abs s' = snd (spec x (abs s))"
    using sim [of n s x] Cons.prems by auto
  obtain rs t where r: "run_ops step xs s' = Inr (rs, t)" "inv (Suc n + length xs) t"
    "run_ops (\<lambda>x a. Inr (spec x a)) xs (abs s') = (Inr (rs, abs t) :: 'e + 'o list \<times> 'a)"
    using Cons.IH [OF s'(2)] Cons.prems(2) by auto
  obtain o' a where sp: "spec x (abs s) = (o', a)" by (cases "spec x (abs s)")
  have "run_ops step (x # xs) s = Inr (o' # rs, t)" using s'(1) r(1) sp by simp
  moreover have "run_ops (\<lambda>x a. Inr (spec x a)) (x # xs) (abs s) = (Inr (o' # rs, abs t) :: 'e + 'o list \<times> 'a)"
    using s'(3) r(3) sp by simp
  ultimately show ?case using r(2) by auto
qed

end

end
