(* ===== verification/VecDeque.thy ===== *)
theory VecDeque
  imports Prelude
begin

text \<open>
  The growable ring buffer of \<^verbatim>\<open>Common/include/Luau/VecDeque.h\<close>, refined to lists. A buffer cell is
  \<open>None\<close> while it is raw memory and \<open>Some x\<close> while it holds a constructed element, so the
  invariant also says that exactly the cells inside the queue's window are constructed:
  every element is destroyed once and no operation reads raw memory. Thrown exceptions
  and failing assertions are values of \<open>vd_error\<close>.
\<close>

section \<open>State\<close>

record 'a vecdeque =
  buffer :: "'a option list"
  buffer_capacity :: nat
  head :: nat
  queue_size :: nat

datatype vd_error = BadArrayNewLength | LengthError | OutOfRange | AssertFailed

definition vd_default :: "'a vecdeque" where
  "vd_default = \<lparr>buffer = [], buffer_capacity = 0, head = 0, queue_size = 0\<rparr>"

section \<open>Operations\<close>

definition vd_capacity :: "'a vecdeque \<Rightarrow> nat" where
  "vd_capacity q = buffer_capacity q"

definition vd_size :: "'a vecdeque \<Rightarrow> nat" where
  "vd_size q = queue_size q"

definition vd_empty :: "'a vecdeque \<Rightarrow> bool" where
  "vd_empty q \<longleftrightarrow> queue_size q = 0"

text \<open>\<open>max_size\<close> depends on \<open>sizeof(T)\<close>, the parameter \<open>sz\<close> below.\<close>

definition vd_max_size :: "nat \<Rightarrow> nat" where
  "vd_max_size sz = (2 ^ 64 - 1) div sz"

definition vd_head_size :: "'a vecdeque \<Rightarrow> nat" where
  "vd_head_size q = min (queue_size q) (vd_capacity q - head q)"

definition vd_tail_size :: "'a vecdeque \<Rightarrow> nat" where
  "vd_tail_size q = queue_size q - vd_head_size q"

definition vd_destroyElements :: "'a vecdeque \<Rightarrow> 'a vecdeque" where
  "vd_destroyElements q =
     (let b1 = fold (\<lambda>i b. b[i := None]) [head q ..< head q + vd_head_size q] (buffer q);
          b2 = fold (\<lambda>i b. b[i := None]) [0 ..< vd_tail_size q] b1
      in q\<lparr>buffer := b2\<rparr>)"

definition vd_is_full :: "'a vecdeque \<Rightarrow> bool" where
  "vd_is_full q \<longleftrightarrow> queue_size q = vd_capacity q"

text \<open>
  The move of both portions into a fresh allocation, shared by \<open>grow\<close>, \<open>reserve\<close> and
  \<open>shrink_to_fit\<close>: the head portion at index 0, the tail portion right after it.
\<close>

definition vd_relocate :: "'a vecdeque \<Rightarrow> nat \<Rightarrow> 'a option list" where
  "vd_relocate q new_capacity =
     (let hs = vd_head_size q; ts = vd_tail_size q;
          nb0 = replicate new_capacity None;
          nb1 = (if hs \<noteq> 0 then blit nb0 0 (take hs (drop (head q) (buffer q))) else nb0)
      in if ts \<noteq> 0 then blit nb1 hs (take ts (buffer q)) else nb1)"

text \<open>
  \<open>old_capacity * 3\<close> is an unsigned 64-bit product; the wrap-around is written out.
\<close>

definition vd_grow :: "nat \<Rightarrow> 'a vecdeque \<Rightarrow> vd_error + 'a vecdeque" where
  "vd_grow sz q =
     (let old_capacity = vd_capacity q;
          new_capacity = (if old_capacity > 0 then (old_capacity * 3) mod 2 ^ 64 div 2 + 1 else 4)
      in if new_capacity > vd_max_size sz then Inl BadArrayNewLength
         else if old_capacity \<noteq> queue_size q then Inl AssertFailed
         else Inr (q\<lparr>buffer := vd_relocate q new_capacity, buffer_capacity := new_capacity, head := 0\<rparr>))"

definition vd_logicalToPhysical :: "'a vecdeque \<Rightarrow> nat \<Rightarrow> nat" where
  "vd_logicalToPhysical q pos = (head q + pos) mod vd_capacity q"

text \<open>Reading a cell: raw memory and an index beyond the allocation are not values.\<close>

definition vd_cell :: "'a vecdeque \<Rightarrow> nat \<Rightarrow> vd_error + 'a" where
  "vd_cell q i = (if i < length (buffer q)
     then (case buffer q ! i of Some x \<Rightarrow> Inr x | None \<Rightarrow> Inl AssertFailed) else Inl AssertFailed)"

definition vd_at :: "'a vecdeque \<Rightarrow> nat \<Rightarrow> vd_error + 'a" where
  "vd_at q pos = (if pos \<ge> queue_size q then Inl OutOfRange else vd_cell q (vd_logicalToPhysical q pos))"

definition vd_index :: "'a vecdeque \<Rightarrow> nat \<Rightarrow> vd_error + 'a" where
  "vd_index q pos = (if \<not> pos < queue_size q then Inl AssertFailed else vd_cell q (vd_logicalToPhysical q pos))"

definition vd_front :: "'a vecdeque \<Rightarrow> vd_error + 'a" where
  "vd_front q = (if vd_empty q then Inl AssertFailed else vd_cell q (head q))"

definition vd_back :: "'a vecdeque \<Rightarrow> vd_error + 'a" where
  "vd_back q = (if vd_empty q then Inl AssertFailed
     else vd_cell q (vd_logicalToPhysical q (queue_size q - 1)))"

definition vd_reserve :: "nat \<Rightarrow> nat \<Rightarrow> 'a vecdeque \<Rightarrow> vd_error + 'a vecdeque" where
  "vd_reserve sz new_capacity q =
     (if new_capacity > vd_max_size sz then Inl LengthError
      else if new_capacity \<le> vd_capacity q then Inr q
      else Inr (q\<lparr>buffer := vd_relocate q new_capacity, buffer_capacity := new_capacity, head := 0\<rparr>))"

definition vd_shrink_to_fit :: "'a vecdeque \<Rightarrow> 'a vecdeque" where
  "vd_shrink_to_fit q =
     (if vd_capacity q = queue_size q then q
      else q\<lparr>buffer := vd_relocate q (queue_size q), buffer_capacity := queue_size q, head := 0\<rparr>)"

definition vd_is_contiguous :: "'a vecdeque \<Rightarrow> bool" where
  "vd_is_contiguous q \<longleftrightarrow> head q \<le> vd_capacity q - queue_size q"

definition vd_clear :: "'a vecdeque \<Rightarrow> 'a vecdeque" where
  "vd_clear q = (vd_destroyElements q)\<lparr>head := 0, queue_size := 0\<rparr>"

definition vd_push_back :: "nat \<Rightarrow> 'a \<Rightarrow> 'a vecdeque \<Rightarrow> vd_error + 'a vecdeque" where
  "vd_push_back sz v q =
     (case (if vd_is_full q then vd_grow sz q else Inr q) of
        Inl e \<Rightarrow> Inl e
      | Inr q \<Rightarrow> (let next_back = vd_logicalToPhysical q (queue_size q)
                   in Inr (q\<lparr>buffer := (buffer q)[next_back := Some v], queue_size := queue_size q + 1\<rparr>)))"

definition vd_pop_back :: "'a vecdeque \<Rightarrow> vd_error + 'a vecdeque" where
  "vd_pop_back q =
     (if vd_empty q then Inl AssertFailed
      else (let q' = q\<lparr>queue_size := queue_size q - 1\<rparr>;
                next_back = vd_logicalToPhysical q' (queue_size q')
            in Inr (q'\<lparr>buffer := (buffer q')[next_back := None]\<rparr>)))"

definition vd_push_front :: "nat \<Rightarrow> 'a \<Rightarrow> 'a vecdeque \<Rightarrow> vd_error + 'a vecdeque" where
  "vd_push_front sz v q =
     (case (if vd_is_full q then vd_grow sz q else Inr q) of
        Inl e \<Rightarrow> Inl e
      | Inr q \<Rightarrow> (let h = (if head q = 0 then vd_capacity q - 1 else head q - 1)
                   in Inr (q\<lparr>head := h, buffer := (buffer q)[h := Some v], queue_size := queue_size q + 1\<rparr>)))"

definition vd_pop_front :: "'a vecdeque \<Rightarrow> vd_error + 'a vecdeque" where
  "vd_pop_front q =
     (if vd_empty q then Inl AssertFailed
      else (let h = head q + 1
            in Inr (q\<lparr>buffer := (buffer q)[head q := None],
                      head := (if h = vd_capacity q then 0 else h),
                      queue_size := queue_size q - 1\<rparr>)))"

text \<open>Construction, copying and moving. A move returns the new object and the emptied source.\<close>

definition vd_of_list :: "'a list \<Rightarrow> 'a vecdeque" where
  "vd_of_list init = \<lparr>buffer = blit (replicate (length init) None) 0 (map Some init),
     buffer_capacity = length init, head = 0, queue_size = length init\<rparr>"

definition vd_copy :: "'a vecdeque \<Rightarrow> 'a vecdeque" where
  "vd_copy other =
     (let hs = vd_head_size other; ts = vd_tail_size other;
          b0 = replicate (buffer_capacity other) None;
          b1 = (if hs \<noteq> 0 then blit b0 (head other) (take hs (drop (head other) (buffer other))) else b0);
          b2 = (if ts \<noteq> 0 then blit b1 0 (take ts (buffer other)) else b1)
      in \<lparr>buffer = b2, buffer_capacity = buffer_capacity other, head = head other,
          queue_size = queue_size other\<rparr>)"

definition vd_move :: "'a vecdeque \<Rightarrow> 'a vecdeque \<times> 'a vecdeque" where
  "vd_move other = (\<lparr>buffer = buffer other, buffer_capacity = buffer_capacity other,
     head = head other, queue_size = queue_size other\<rparr>, vd_default)"

definition vd_assign :: "'a vecdeque \<Rightarrow> 'a vecdeque \<Rightarrow> 'a vecdeque" where
  "vd_assign self other =
     (let d = vd_destroyElements self;
          (b, c) = (if buffer_capacity d < vd_size other
                    then (replicate (buffer_capacity other) None, buffer_capacity other)
                    else (buffer d, buffer_capacity d));
          hs = vd_head_size other; ts = vd_tail_size other;
          b1 = (if hs \<noteq> 0 then blit b 0 (take hs (drop (head other) (buffer other))) else b);
          b2 = (if ts \<noteq> 0 then blit b1 hs (take ts (buffer other)) else b1)
      in \<lparr>buffer = b2, buffer_capacity = c, head = 0, queue_size = queue_size other\<rparr>)"

lemmas vd_ops [model_defs] = vd_default_def vd_capacity_def vd_size_def vd_empty_def vd_is_full_def
  vd_logicalToPhysical_def vd_head_size_def vd_tail_size_def

section \<open>Invariant and abstraction\<close>

definition vd_window :: "'a vecdeque \<Rightarrow> nat set" where
  "vd_window q = {p. \<exists>k < queue_size q. p = (head q + k) mod buffer_capacity q}"

definition vd_inv :: "'a vecdeque \<Rightarrow> bool" where
  "vd_inv q \<longleftrightarrow>
     length (buffer q) = buffer_capacity q \<and> queue_size q \<le> buffer_capacity q \<and>
     (if buffer_capacity q = 0 then head q = 0 else head q < buffer_capacity q) \<and>
     (\<forall>i < buffer_capacity q. buffer q ! i \<noteq> None \<longleftrightarrow> i \<in> vd_window q)"

definition vd_list :: "'a vecdeque \<Rightarrow> 'a list" where
  "vd_list q = map (\<lambda>i. the (buffer q ! ((head q + i) mod buffer_capacity q))) [0 ..< queue_size q]"

lemma vd_invD:
  assumes "vd_inv q"
  shows "length (buffer q) = buffer_capacity q" "queue_size q \<le> buffer_capacity q"
    "0 < queue_size q \<Longrightarrow> head q < buffer_capacity q"
    "buffer_capacity q \<noteq> 0 \<Longrightarrow> head q < buffer_capacity q"
    "buffer_capacity q = 0 \<Longrightarrow> head q = 0"
    "\<And>i. i < buffer_capacity q \<Longrightarrow> buffer q ! i = None \<longleftrightarrow> i \<notin> vd_window q"
  using assms by (auto simp: vd_inv_def split: if_splits)

lemma vd_invI:
  assumes "length (buffer q) = buffer_capacity q" "queue_size q \<le> buffer_capacity q"
    "buffer_capacity q = 0 \<Longrightarrow> head q = 0" "buffer_capacity q \<noteq> 0 \<Longrightarrow> head q < buffer_capacity q"
    "\<And>i. i < buffer_capacity q \<Longrightarrow> buffer q ! i = None \<longleftrightarrow> i \<notin> vd_window q"
  shows "vd_inv q"
  using assms unfolding vd_inv_def by simp

lemma vd_list_length [simp]: "length (vd_list q) = queue_size q"
  by (simp add: vd_list_def)

lemma vd_list_nth: "i < queue_size q \<Longrightarrow> vd_list q ! i = the (buffer q ! ((head q + i) mod buffer_capacity q))"
  by (simp add: vd_list_def)

lemma vd_live:
  assumes "vd_inv q" "i < queue_size q"
  shows "buffer q ! ((head q + i) mod buffer_capacity q) = Some (vd_list q ! i)"
proof -
  have c: "0 < buffer_capacity q" using assms by (auto simp: vd_inv_def)
  then have "(head q + i) mod buffer_capacity q \<in> vd_window q" using assms by (auto simp: vd_window_def)
  then have "buffer q ! ((head q + i) mod buffer_capacity q) \<noteq> None"
    using vd_invD(6) [OF assms(1), of "(head q + i) mod buffer_capacity q"] c by auto
  then show ?thesis using assms by (auto simp: vd_list_nth)
qed

text \<open>A buffer laid out from index 0, as every reallocation produces.\<close>

definition vd_linear :: "'a list \<Rightarrow> nat \<Rightarrow> 'a option list" where
  "vd_linear xs n = map Some xs @ replicate (n - length xs) None"

lemma vd_linear_inv:
  assumes "length xs \<le> n"
  shows "vd_inv \<lparr>buffer = vd_linear xs n, buffer_capacity = n, head = 0, queue_size = length xs\<rparr>"
    and "vd_list \<lparr>buffer = vd_linear xs n, buffer_capacity = n, head = 0, queue_size = length xs\<rparr> = xs"
proof -
  have w: "i \<in> vd_window \<lparr>buffer = vd_linear xs n, buffer_capacity = n, head = 0, queue_size = length xs\<rparr>
      \<longleftrightarrow> i < length xs" if "i < n" for i
    using that assms by (auto simp: vd_window_def intro: exI [of _ i])
  have c: "vd_linear xs n ! i = None \<longleftrightarrow> \<not> i < length xs" if "i < n" for i
    using that assms by (auto simp: vd_linear_def nth_append)
  show "vd_inv \<lparr>buffer = vd_linear xs n, buffer_capacity = n, head = 0, queue_size = length xs\<rparr>"
    using assms w c unfolding vd_inv_def by (auto simp: vd_linear_def)
  show "vd_list \<lparr>buffer = vd_linear xs n, buffer_capacity = n, head = 0, queue_size = length xs\<rparr> = xs"
    using assms by (intro nth_equalityI) (auto simp: vd_list_nth vd_linear_def nth_append)
qed

lemma vd_list_slices:
  assumes "vd_inv q"
  shows "take (vd_head_size q) (drop (head q) (buffer q)) @ take (vd_tail_size q) (buffer q) = map Some (vd_list q)"
proof (cases "queue_size q = 0")
  case True
  then show ?thesis by (simp add: vd_ops vd_list_def)
next
  case False
  have "take (vd_head_size q) (drop (head q) (buffer q)) @ take (vd_tail_size q) (buffer q)
      = map (\<lambda>i. buffer q ! ((head q + i) mod buffer_capacity q)) [0..<queue_size q]"
    unfolding vd_ops using False assms by (intro ring_slices) (auto dest: vd_invD)
  also have "\<dots> = map Some (vd_list q)"
    using assms by (intro nth_equalityI) (auto simp: vd_live)
  finally show ?thesis .
qed

lemma blit_pair:
  "length xs + length ys \<le> n \<Longrightarrow>
   blit (blit (replicate n v) 0 xs) (length xs) ys = xs @ ys @ replicate (n - length xs - length ys) v"
  by (simp add: blit_def)

lemma vd_head_slice_length:
  "vd_inv q \<Longrightarrow> length (take (vd_head_size q) (drop (head q) (buffer q))) = vd_head_size q"
  "vd_inv q \<Longrightarrow> length (take (vd_tail_size q) (buffer q)) = vd_tail_size q"
  using vd_invD(1,2) [of q] by (auto simp: vd_ops)

lemma vd_two_blits:
  assumes "vd_inv q" "queue_size q \<le> n"
  shows "blit (blit (replicate n None) 0 (take (vd_head_size q) (drop (head q) (buffer q)))) (vd_head_size q)
           (take (vd_tail_size q) (buffer q)) = vd_linear (vd_list q) n"
proof -
  let ?h = "take (vd_head_size q) (drop (head q) (buffer q))" and ?t = "take (vd_tail_size q) (buffer q)"
  note l = vd_head_slice_length [OF assms(1)]
  have s: "vd_head_size q + vd_tail_size q = queue_size q" by (simp add: vd_ops)
  have "blit (blit (replicate n None) 0 ?h) (length ?h) ?t = ?h @ ?t @ replicate (n - length ?h - length ?t) None"
    using s assms(2) l by (intro blit_pair) linarith
  moreover have "n - length ?h - length ?t = n - queue_size q" using s l by linarith
  ultimately show ?thesis using l vd_list_slices [OF assms(1)]
    by (metis append_assoc vd_linear_def vd_list_length)
qed

lemma vd_relocate_linear:
  assumes "vd_inv q" "queue_size q \<le> n"
  shows "vd_relocate q n = vd_linear (vd_list q) n"
proof -
  have "vd_relocate q n
      = blit (blit (replicate n None) 0 (take (vd_head_size q) (drop (head q) (buffer q)))) (vd_head_size q)
           (take (vd_tail_size q) (buffer q))"
    by (auto simp: vd_relocate_def Let_def)
  then show ?thesis using vd_two_blits [OF assms] by simp
qed

lemma vd_relocated:
  assumes "vd_inv q" "queue_size q \<le> n"
  shows "vd_inv (q\<lparr>buffer := vd_relocate q n, buffer_capacity := n, head := 0\<rparr>)"
    and "vd_list (q\<lparr>buffer := vd_relocate q n, buffer_capacity := n, head := 0\<rparr>) = vd_list q"
proof -
  have "q\<lparr>buffer := vd_relocate q n, buffer_capacity := n, head := 0\<rparr>
      = \<lparr>buffer = vd_linear (vd_list q) n, buffer_capacity = n, head = 0, queue_size = length (vd_list q), \<dots> = vecdeque.more q\<rparr>"
    using vd_relocate_linear [OF assms] by simp
  then show "vd_inv (q\<lparr>buffer := vd_relocate q n, buffer_capacity := n, head := 0\<rparr>)"
    and "vd_list (q\<lparr>buffer := vd_relocate q n, buffer_capacity := n, head := 0\<rparr>) = vd_list q"
    using vd_linear_inv [of "vd_list q" n] assms(2) by simp_all
qed


section \<open>Each operation against the list\<close>

lemma vd_destroyElements_all_raw:
  assumes "vd_inv q"
  shows "buffer (vd_destroyElements q) = replicate (buffer_capacity q) None"
proof (rule nth_equalityI)
  show l: "length (buffer (vd_destroyElements q)) = length (replicate (buffer_capacity q) None)"
    using assms by (simp add: vd_destroyElements_def vd_invD)
  fix i assume "i < length (buffer (vd_destroyElements q))"
  then have i: "i < buffer_capacity q" using l by simp
  then have h: "head q < buffer_capacity q" using assms by (auto dest: vd_invD(4))
  have "i \<in> vd_window q \<longleftrightarrow> i \<in> set [head q ..< head q + vd_head_size q] \<or> i \<in> set [0 ..< vd_tail_size q]"
    using ring_window [OF h vd_invD(2) [OF assms] i] by (simp add: vd_window_def vd_ops)
  then show "buffer (vd_destroyElements q) ! i = replicate (buffer_capacity q) None ! i"
    using assms i vd_invD(6) [OF assms i]
    by (auto simp: vd_destroyElements_def nth_fold_update vd_invD)
qed

lemma vd_clear_spec:
  assumes "vd_inv q"
  shows "vd_inv (vd_clear q)" "vd_list (vd_clear q) = []" "vd_capacity (vd_clear q) = vd_capacity q"
proof -
  have "vd_clear q = \<lparr>buffer = vd_linear [] (buffer_capacity q), buffer_capacity = buffer_capacity q,
      head = 0, queue_size = length []\<rparr>"
    using vd_destroyElements_all_raw [OF assms]
    by (simp add: vd_clear_def vd_linear_def vd_destroyElements_def Let_def)
  then show "vd_inv (vd_clear q)" "vd_list (vd_clear q) = []" "vd_capacity (vd_clear q) = vd_capacity q"
    using vd_linear_inv [of "[]" "buffer_capacity q"] by (simp_all add: vd_capacity_def)
qed

lemma vd_default_spec: "vd_inv vd_default" "vd_list vd_default = []"
  by (auto simp: vd_inv_def vd_list_def vd_default_def)

lemma vd_of_list_spec: "vd_inv (vd_of_list xs)" "vd_list (vd_of_list xs) = xs"
  using vd_linear_inv [of xs "length xs"] by (simp_all add: vd_of_list_def vd_linear_def blit_def)

lemma vd_grow_spec:
  assumes "vd_inv q" "vd_is_full q" "3 * buffer_capacity q < 2 ^ 64" "vd_grow sz q = Inr q'"
  shows "vd_inv q'" "vd_list q' = vd_list q" "queue_size q' = queue_size q" "queue_size q < buffer_capacity q'"
proof -
  define n where "n = (if buffer_capacity q > 0 then buffer_capacity q * 3 div 2 + 1 else 4)"
  have q': "q' = q\<lparr>buffer := vd_relocate q n, buffer_capacity := n, head := 0\<rparr>"
    using assms by (auto simp: vd_grow_def vd_ops n_def Let_def algebra_simps split: if_splits)
  have n: "queue_size q < n" using assms(2) by (auto simp: n_def vd_ops)
  show "vd_inv q'" "vd_list q' = vd_list q" "queue_size q' = queue_size q" "queue_size q < buffer_capacity q'"
    using vd_relocated [OF assms(1), of n] n unfolding q' by simp_all
qed

lemma vd_grow_total:
  assumes "vd_is_full q" "3 * buffer_capacity q div 2 + 4 \<le> vd_max_size sz"
  shows "\<exists>q'. vd_grow sz q = Inr q'"
proof -
  have "(buffer_capacity q * 3) mod 2 ^ 64 div 2 \<le> buffer_capacity q * 3 div 2"
    by (intro div_le_mono mod_less_eq_dividend)
  then show ?thesis using assms by (auto simp: vd_grow_def vd_ops Let_def)
qed

text \<open>Writing one cell at the end of the window, the step both push operations share.\<close>

lemma vd_snoc:
  fixes q :: "'a vecdeque" and v :: 'a
  assumes "vd_inv q" "queue_size q < buffer_capacity q"
  defines "q' \<equiv> q\<lparr>buffer := (buffer q)[vd_logicalToPhysical q (queue_size q) := Some v], queue_size := queue_size q + 1\<rparr>"
  shows "vd_inv q'" "vd_list q' = vd_list q @ [v]"
proof -
  let ?c = "buffer_capacity q" and ?h = "head q" and ?n = "queue_size q"
  have h: "?h < ?c" and l: "length (buffer q) = ?c" using assms by (auto dest: vd_invD)
  have w: "i \<in> vd_window q' \<longleftrightarrow> i \<in> vd_window q \<or> i = (?h + ?n) mod ?c" for i
    by (auto simp: vd_window_def q'_def less_Suc_eq)
  have len: "length (buffer q') = ?c" using l by (simp add: q'_def)
  show "vd_inv q'"
    by (rule vd_invI, unfold w) (use h l assms(2) vd_invD(6) [OF assms(1)] in
      \<open>auto simp: q'_def nth_list_update vd_ops\<close>)
  have nth: "vd_list q' ! i = (vd_list q @ [v]) ! i" if "i < Suc ?n" for i
    using that assms(2) h l ring_inj [of ?h ?c i ?n]
    by (auto simp: vd_list_nth nth_append q'_def vd_ops nth_list_update less_Suc_eq)
  show "vd_list q' = vd_list q @ [v]"
    by (rule nth_equalityI) (use nth in \<open>auto simp: q'_def\<close>)
qed

lemma vd_cons:
  fixes q :: "'a vecdeque" and v :: 'a
  assumes "vd_inv q" "queue_size q < buffer_capacity q"
  defines "h' \<equiv> (if head q = 0 then vd_capacity q - 1 else head q - 1)"
  defines "q' \<equiv> q\<lparr>head := h', buffer := (buffer q)[h' := Some v], queue_size := queue_size q + 1\<rparr>"
  shows "vd_inv q'" "vd_list q' = v # vd_list q"
proof -
  let ?c = "buffer_capacity q" and ?h = "head q" and ?n = "queue_size q"
  have h: "?h < ?c" and l: "length (buffer q) = ?c" using assms by (auto dest: vd_invD)
  have h': "h' < ?c" and s: "(h' + Suc k) mod ?c = (?h + k) mod ?c" for k
    using h by (auto simp: h'_def vd_ops)
  have free: "(?h + k) mod ?c \<noteq> h'" if "k < ?n" for k
    using ring_inj [OF h', of "Suc k" 0] that assms(2) h' by (auto simp: s [symmetric])
  have w: "i \<in> vd_window q' \<longleftrightarrow> i \<in> vd_window q \<or> i = h'" if "i < ?c" for i
  proof -
    have "i \<in> vd_window q' \<longleftrightarrow> (\<exists>k < Suc ?n. i = (h' + k) mod ?c)" by (simp add: vd_window_def q'_def)
    also have "\<dots> \<longleftrightarrow> i = h' \<or> (\<exists>k < ?n. i = (h' + Suc k) mod ?c)"
      using h' by (auto simp: Ex_less_Suc2)
    finally show ?thesis using s by (auto simp: vd_window_def)
  qed
  have cells: "buffer q' ! i = (if i = h' then Some v else buffer q ! i)" if "i < ?c" for i
    using that l by (simp add: q'_def nth_list_update)
  have "buffer q' ! i = None \<longleftrightarrow> i \<notin> vd_window q'" if "i < ?c" for i
    using that w cells vd_invD(6) [OF assms(1)] by simp
  then show "vd_inv q'"
    by (intro vd_invI) (use h h' l assms(2) in \<open>auto simp: q'_def\<close>)
  have nth: "vd_list q' ! i = (v # vd_list q) ! i" if "i < Suc ?n" for i
  proof (cases i)
    case 0
    then show ?thesis using that h' cells [of h'] by (simp add: vd_list_nth q'_def)
  next
    case (Suc k)
    then have k: "k < ?n" using that by simp
    moreover have "(?h + k) mod ?c < ?c" using h by simp
    ultimately have "buffer q' ! ((?h + k) mod ?c) = buffer q ! ((?h + k) mod ?c)"
      using cells free by simp
    then show ?thesis using that Suc k s [of k] by (simp add: vd_list_nth q'_def)
  qed
  show "vd_list q' = v # vd_list q"
    by (rule nth_equalityI) (use nth in \<open>auto simp: q'_def\<close>)
qed


lemma vd_push_back_spec:
  assumes "vd_inv q" "3 * buffer_capacity q < 2 ^ 64" "vd_push_back sz v q = Inr q'"
  shows "vd_inv q' \<and> vd_list q' = vd_list q @ [v]"
proof (cases "vd_is_full q")
  case True
  then obtain g where g: "vd_grow sz q = Inr g" using assms(3) by (auto simp: vd_push_back_def split: sum.splits)
  note G = vd_grow_spec [OF assms(1) True assms(2) g]
  have "queue_size g < buffer_capacity g" using G by simp
  from vd_snoc [OF G(1) this, of v] G(2) show ?thesis
    using assms(3) True g by (auto simp: vd_push_back_def Let_def)
next
  case False
  then have "queue_size q < buffer_capacity q" using vd_invD(2) [OF assms(1)] by (simp add: vd_ops)
  from vd_snoc [OF assms(1) this, of v] show ?thesis
    using assms(3) False by (auto simp: vd_push_back_def Let_def)
qed

lemma vd_push_front_spec:
  assumes "vd_inv q" "3 * buffer_capacity q < 2 ^ 64" "vd_push_front sz v q = Inr q'"
  shows "vd_inv q' \<and> vd_list q' = v # vd_list q"
proof (cases "vd_is_full q")
  case True
  then obtain g where g: "vd_grow sz q = Inr g" using assms(3) by (auto simp: vd_push_front_def split: sum.splits)
  note G = vd_grow_spec [OF assms(1) True assms(2) g]
  have "queue_size g < buffer_capacity g" using G by simp
  from vd_cons [OF G(1) this, of v] G(2) show ?thesis
    using assms(3) True g by (auto simp: vd_push_front_def Let_def)
next
  case False
  then have "queue_size q < buffer_capacity q" using vd_invD(2) [OF assms(1)] by (simp add: vd_ops)
  from vd_cons [OF assms(1) this, of v] show ?thesis
    using assms(3) False by (auto simp: vd_push_front_def Let_def)
qed

text \<open>Destroying one cell: the window loses its last or its first position.\<close>

lemma vd_pop_back_spec:
  assumes "vd_inv q" "vd_pop_back q = Inr q'"
  shows "vd_inv q' \<and> vd_list q' = butlast (vd_list q) \<and> vd_list q \<noteq> []"
proof -
  obtain n where n: "queue_size q = Suc n" using assms(2) by (cases "queue_size q") (auto simp: vd_pop_back_def vd_ops)
  let ?c = "buffer_capacity q" and ?h = "head q"
  have h: "?h < ?c" and l: "length (buffer q) = ?c" and nc: "n < ?c" using assms(1) n by (auto dest: vd_invD)
  have q': "q' = q\<lparr>queue_size := n, buffer := (buffer q)[(?h + n) mod ?c := None]\<rparr>"
    using assms(2) n by (auto simp: vd_pop_back_def vd_ops Let_def)
  have w: "i \<in> vd_window q \<longleftrightarrow> i \<in> vd_window q' \<or> i = (?h + n) mod ?c" for i
    by (auto simp: vd_window_def q' n less_Suc_eq)
  have out: "(?h + n) mod ?c \<notin> vd_window q'"
  proof
    assume "(?h + n) mod ?c \<in> vd_window q'"
    then obtain k where "k < n" "(?h + n) mod ?c = (?h + k) mod ?c" by (auto simp: vd_window_def q')
    then show False using ring_inj [OF h nc, of k] nc by simp
  qed
  have "vd_inv q'"
    by (rule vd_invI) (use h l nc out w vd_invD(6) [OF assms(1)] in \<open>auto simp: q' nth_list_update\<close>)
  moreover have "vd_list q' ! i = vd_list q ! i" if "i < n" for i
    using that ring_inj [OF h, of i n] nc l n by (simp add: vd_list_nth q' nth_list_update)
  then have "vd_list q' = butlast (vd_list q)"
    by (intro nth_equalityI) (simp_all add: q' n nth_butlast)
  ultimately show ?thesis using n by (metis length_0_conv nat.distinct(1) vd_list_length)
qed

lemma vd_pop_front_spec:
  assumes "vd_inv q" "vd_pop_front q = Inr q'"
  shows "vd_inv q' \<and> vd_list q' = tl (vd_list q) \<and> vd_list q \<noteq> []"
proof -
  obtain n where n: "queue_size q = Suc n" using assms(2) by (cases "queue_size q") (auto simp: vd_pop_front_def vd_ops)
  let ?c = "buffer_capacity q" and ?h = "head q"
  define h' where "h' = (if ?h + 1 = ?c then 0 else ?h + 1)"
  have h: "?h < ?c" and l: "length (buffer q) = ?c" and nc: "n < ?c" using assms(1) n by (auto dest: vd_invD)
  have q': "q' = q\<lparr>buffer := (buffer q)[?h := None], head := h', queue_size := n\<rparr>"
    using assms(2) n by (auto simp: vd_pop_front_def vd_ops Let_def h'_def)
  have h': "h' < ?c" using h by (auto simp: h'_def)
  have h'': "h' = Suc ?h mod ?c" using h by (auto simp: h'_def)
  have s: "(h' + k) mod ?c = (?h + Suc k) mod ?c" for k by (simp add: h'' mod_simps)
  have w: "i \<in> vd_window q \<longleftrightarrow> i = ?h \<or> i \<in> vd_window q'" for i
    using h by (auto simp: vd_window_def q' n s Ex_less_Suc2)
  have out: "?h \<notin> vd_window q'"
  proof
    assume "?h \<in> vd_window q'"
    then obtain k where "k < n" "(?h + 0) mod ?c = (?h + Suc k) mod ?c" using h by (auto simp: vd_window_def q' s)
    then show False using ring_inj [OF h, of 0 "Suc k"] nc by simp
  qed
  have "vd_inv q'"
    by (rule vd_invI) (use h h' l nc out w vd_invD(6) [OF assms(1)] in \<open>auto simp: q' nth_list_update\<close>)
  moreover have "vd_list q' ! i = vd_list q ! Suc i" if "i < n" for i
    using that ring_inj [OF h, of "Suc i" 0] nc l n h s [of i] by (simp add: vd_list_nth q' nth_list_update)
  then have "vd_list q' = tl (vd_list q)"
    by (intro nth_equalityI) (simp_all add: q' n nth_tl)
  ultimately show ?thesis using n by (metis length_0_conv nat.distinct(1) vd_list_length)
qed

lemma vd_reserve_spec:
  assumes "vd_inv q" "vd_reserve sz n q = Inr q'"
  shows "vd_inv q' \<and> vd_list q' = vd_list q \<and> vd_capacity q' = max n (vd_capacity q)"
  using assms vd_relocated [OF assms(1), of n] vd_invD(2) [OF assms(1)]
  by (auto simp: vd_reserve_def vd_ops split: if_splits)

lemma vd_shrink_to_fit_spec:
  assumes "vd_inv q"
  shows "vd_inv (vd_shrink_to_fit q) \<and> vd_list (vd_shrink_to_fit q) = vd_list q
    \<and> vd_capacity (vd_shrink_to_fit q) = queue_size q"
  using assms vd_relocated [OF assms, of "queue_size q"] by (auto simp: vd_shrink_to_fit_def vd_ops)

lemma vd_assign_spec:
  assumes "vd_inv self" "vd_inv other"
  shows "vd_inv (vd_assign self other) \<and> vd_list (vd_assign self other) = vd_list other"
proof -
  define c where "c = (if buffer_capacity self < queue_size other then buffer_capacity other else buffer_capacity self)"
  have c: "queue_size other \<le> c" using vd_invD(2) [OF assms(2)] by (auto simp: c_def)
  have d: "buffer (vd_destroyElements self) = replicate (buffer_capacity self) None"
    "buffer_capacity (vd_destroyElements self) = buffer_capacity self"
    using vd_destroyElements_all_raw [OF assms(1)] by (auto simp: vd_destroyElements_def Let_def)
  have "vd_assign self other = \<lparr>buffer = vd_relocate other c, buffer_capacity = c, head = 0, queue_size = queue_size other\<rparr>"
    using d by (auto simp: vd_assign_def vd_relocate_def c_def vd_size_def Let_def)
  then show ?thesis using vd_relocate_linear [OF assms(2) c] vd_linear_inv [of "vd_list other" c] c by simp
qed


lemma vd_copy_eq:
  assumes "vd_inv q"
  shows "vd_copy q = q"
proof -
  let ?c = "buffer_capacity q" and ?h = "head q"
  let ?b1 = "blit (replicate ?c None) ?h (take (vd_head_size q) (drop ?h (buffer q)))"
  note I = vd_invD [OF assms]
  have hs: "?h + vd_head_size q \<le> ?c" using I(2,4,5) by (cases "?c = 0") (auto simp: vd_ops min_def)
  have ts: "vd_tail_size q \<le> ?c" using I(2) by (simp add: vd_ops)
  have b1: "length ?b1 = ?c" using hs I(1) by simp
  have "blit ?b1 0 (take (vd_tail_size q) (buffer q)) = buffer q"
  proof (rule nth_equalityI)
    show "length (blit ?b1 0 (take (vd_tail_size q) (buffer q))) = length (buffer q)"
      using b1 ts I(1) by simp
    fix i assume "i < length (blit ?b1 0 (take (vd_tail_size q) (buffer q)))"
    then have i: "i < ?c" using b1 ts I(1) by simp
    then have w: "i \<in> vd_window q \<longleftrightarrow> (?h \<le> i \<and> i < ?h + vd_head_size q) \<or> i < vd_tail_size q"
      using ring_window [of ?h ?c "queue_size q" i] I(2,4) by (simp add: vd_window_def vd_ops)
    show "blit ?b1 0 (take (vd_tail_size q) (buffer q)) ! i = buffer q ! i"
      using i b1 hs ts I(1) I(6) [OF i] w by (auto simp: nth_blit)
  qed
  then show ?thesis using I(1) by (auto simp: vd_copy_def Let_def)
qed

section \<open>The deque contract\<close>

datatype 'a vd_op = PushBack 'a | PushFront 'a | PopBack | PopFront | Front | Back | At nat | Index nat
  | Size | Empty | Clear | Reserve nat | ShrinkToFit

datatype 'a vd_out = Done | Elem 'a | Count nat | Flag bool

definition vd_upd :: "'e + 's \<Rightarrow> 'e + 'a vd_out \<times> 's" where
  "vd_upd r = (case r of Inl e \<Rightarrow> Inl e | Inr s \<Rightarrow> Inr (Done, s))"

definition vd_qry :: "'s \<Rightarrow> 'e + 'a \<Rightarrow> 'e + 'a vd_out \<times> 's" where
  "vd_qry s r = (case r of Inl e \<Rightarrow> Inl e | Inr x \<Rightarrow> Inr (Elem x, s))"

fun vd_step :: "nat \<Rightarrow> 'a vd_op \<Rightarrow> 'a vecdeque \<Rightarrow> vd_error + 'a vd_out \<times> 'a vecdeque" where
  "vd_step sz (PushBack x) q = vd_upd (vd_push_back sz x q)"
| "vd_step sz (PushFront x) q = vd_upd (vd_push_front sz x q)"
| "vd_step sz PopBack q = vd_upd (vd_pop_back q)"
| "vd_step sz PopFront q = vd_upd (vd_pop_front q)"
| "vd_step sz Front q = vd_qry q (vd_front q)"
| "vd_step sz Back q = vd_qry q (vd_back q)"
| "vd_step sz (At i) q = vd_qry q (vd_at q i)"
| "vd_step sz (Index i) q = vd_qry q (vd_index q i)"
| "vd_step sz Size q = Inr (Count (vd_size q), q)"
| "vd_step sz Empty q = Inr (Flag (vd_empty q), q)"
| "vd_step sz Clear q = Inr (Done, vd_clear q)"
| "vd_step sz (Reserve n) q = vd_upd (vd_reserve sz n q)"
| "vd_step sz ShrinkToFit q = Inr (Done, vd_shrink_to_fit q)"

text \<open>
  The specification: a deque is a list with a capacity. The assertions and the bounds check fail on the list alone; an
  allocation fails exactly when the capacity it asks for exceeds \<open>max_size\<close>. A push asks for one only when the list fills its capacity.
\<close>

definition grown :: "nat \<Rightarrow> nat" where
  "grown c = (if c = 0 then 4 else 3 * c div 2 + 1)"

definition list_push :: "nat \<Rightarrow> 'a list \<Rightarrow> 'a list \<times> nat \<Rightarrow> vd_error + 'a vd_out \<times> 'a list \<times> nat" where
  "list_push sz xs' s =
     (let (xs, c) = s; c' = (if length xs = c then grown c else c)
      in if c' > vd_max_size sz then Inl BadArrayNewLength else Inr (Done, xs', c'))"

fun list_step :: "nat \<Rightarrow> 'a vd_op \<Rightarrow> 'a list \<times> nat \<Rightarrow> vd_error + 'a vd_out \<times> 'a list \<times> nat" where
  "list_step sz (PushBack x) (xs, c) = list_push sz (xs @ [x]) (xs, c)"
| "list_step sz (PushFront x) (xs, c) = list_push sz (x # xs) (xs, c)"
| "list_step sz PopBack (xs, c) = (if xs = [] then Inl AssertFailed else Inr (Done, butlast xs, c))"
| "list_step sz PopFront (xs, c) = (if xs = [] then Inl AssertFailed else Inr (Done, tl xs, c))"
| "list_step sz Front (xs, c) = (if xs = [] then Inl AssertFailed else Inr (Elem (hd xs), xs, c))"
| "list_step sz Back (xs, c) = (if xs = [] then Inl AssertFailed else Inr (Elem (last xs), xs, c))"
| "list_step sz (At i) (xs, c) = (if i < length xs then Inr (Elem (xs ! i), xs, c) else Inl OutOfRange)"
| "list_step sz (Index i) (xs, c) = (if i < length xs then Inr (Elem (xs ! i), xs, c) else Inl AssertFailed)"
| "list_step sz Size (xs, c) = Inr (Count (length xs), xs, c)"
| "list_step sz Empty (xs, c) = Inr (Flag (xs = []), xs, c)"
| "list_step sz Clear (xs, c) = Inr (Done, [], c)"
| "list_step sz (Reserve n) (xs, c) = (if n > vd_max_size sz then Inl LengthError else Inr (Done, xs, max n c))"
| "list_step sz ShrinkToFit (xs, c) = Inr (Done, xs, length xs)"

text \<open>
  Capacity never exceeds \<open>max_size\<close>. For elements of at least three bytes this also keeps the
  product \<open>old_capacity * 3\<close> of \<open>grow\<close> below \<open>2 ^ 64\<close>.
\<close>

definition vd_ok :: "nat \<Rightarrow> 'a vecdeque \<Rightarrow> bool" where
  "vd_ok sz q \<longleftrightarrow> vd_inv q \<and> 3 \<le> sz \<and> buffer_capacity q \<le> vd_max_size sz"

definition vd_abs :: "'a vecdeque \<Rightarrow> 'a list \<times> nat" where
  "vd_abs q = (vd_list q, buffer_capacity q)"

lemma vd_ok_room:
  assumes "vd_ok sz q"
  shows "3 * buffer_capacity q < 2 ^ 64"
proof -
  have "buffer_capacity q \<le> (2 ^ 64 - 1) div sz" "3 \<le> sz" using assms by (auto simp: vd_ok_def vd_max_size_def)
  then have "buffer_capacity q \<le> (2 ^ 64 - 1) div 3" by (meson div_le_mono2 le_trans zero_less_numeral)
  then show ?thesis by simp
qed

lemma vd_cell_live: "vd_inv q \<Longrightarrow> i < queue_size q \<Longrightarrow> vd_cell q (vd_logicalToPhysical q i) = Inr (vd_list q ! i)"
  using vd_invD(1,3) [of q] vd_live [of q i] by (simp add: vd_cell_def vd_ops mod_less_divisor split: option.split)

lemma vd_list_Nil: "vd_list q = [] \<longleftrightarrow> queue_size q = 0"
  by (metis length_0_conv vd_list_length)

lemma vd_reads:
  assumes "vd_inv q"
  shows "vd_at q i = (if i < length (vd_list q) then Inr (vd_list q ! i) else Inl OutOfRange)"
    and "vd_index q i = (if i < length (vd_list q) then Inr (vd_list q ! i) else Inl AssertFailed)"
    and "vd_front q = (if vd_list q = [] then Inl AssertFailed else Inr (hd (vd_list q)))"
    and "vd_back q = (if vd_list q = [] then Inl AssertFailed else Inr (last (vd_list q)))"
proof -
  show "vd_at q i = (if i < length (vd_list q) then Inr (vd_list q ! i) else Inl OutOfRange)"
    and "vd_index q i = (if i < length (vd_list q) then Inr (vd_list q ! i) else Inl AssertFailed)"
    using vd_cell_live [OF assms, of i] by (auto simp: vd_at_def vd_index_def)
  have z: "vd_logicalToPhysical q 0 = head q" if "0 < queue_size q"
    using vd_invD(3) [OF assms that] by (simp add: vd_ops)
  show "vd_front q = (if vd_list q = [] then Inl AssertFailed else Inr (hd (vd_list q)))"
    using vd_cell_live [OF assms, of 0] z by (auto simp: vd_front_def vd_empty_def vd_list_Nil hd_conv_nth)
  show "vd_back q = (if vd_list q = [] then Inl AssertFailed else Inr (last (vd_list q)))"
    using vd_cell_live [OF assms, of "queue_size q - 1"]
    by (auto simp: vd_back_def vd_empty_def vd_list_Nil last_conv_nth)
qed


lemma vd_grow_eq:
  assumes "vd_is_full q" "3 * buffer_capacity q < 2 ^ 64"
  shows "vd_grow sz q =
    (let n = grown (buffer_capacity q)
     in if n > vd_max_size sz then Inl BadArrayNewLength
        else Inr (q\<lparr>buffer := vd_relocate q n, buffer_capacity := n, head := 0\<rparr>))"
  using assms by (simp add: vd_grow_def grown_def vd_ops Let_def mult.commute)

lemma vd_push_abs:
  assumes "vd_ok sz q"
  shows "map_sum id vd_abs (vd_push_back sz v q) = map_sum id snd (list_push sz (vd_list q @ [v]) (vd_abs q))"
    and "map_sum id vd_abs (vd_push_front sz v q) = map_sum id snd (list_push sz (v # vd_list q) (vd_abs q))"
proof -
  note I = assms [unfolded vd_ok_def, THEN conjunct1] and room = vd_ok_room [OF assms]
  have cap: "buffer_capacity q \<le> vd_max_size sz" using assms by (simp add: vd_ok_def)
  note full = vd_grow_eq [OF _ room]
  show "map_sum id vd_abs (vd_push_back sz v q) = map_sum id snd (list_push sz (vd_list q @ [v]) (vd_abs q))"
  proof (cases "vd_push_back sz v q")
    case (Inl e)
    then show ?thesis
      by (auto simp: vd_push_back_def full list_push_def vd_abs_def vd_is_full_def vd_capacity_def Let_def split: if_splits sum.splits)
  next
    case (Inr q')
    then have "buffer_capacity q' = (if queue_size q = buffer_capacity q then grown (buffer_capacity q) else buffer_capacity q)"
      "queue_size q = buffer_capacity q \<Longrightarrow> grown (buffer_capacity q) \<le> vd_max_size sz"
      by (auto simp: vd_push_back_def full vd_is_full_def vd_capacity_def Let_def split: if_splits sum.splits)
    then show ?thesis using Inr vd_push_back_spec [OF I room Inr] cap by (auto simp: list_push_def vd_abs_def Let_def)
  qed
  show "map_sum id vd_abs (vd_push_front sz v q) = map_sum id snd (list_push sz (v # vd_list q) (vd_abs q))"
  proof (cases "vd_push_front sz v q")
    case (Inl e)
    then show ?thesis
      by (auto simp: vd_push_front_def full list_push_def vd_abs_def vd_is_full_def vd_capacity_def Let_def split: if_splits sum.splits)
  next
    case (Inr q')
    then have "buffer_capacity q' = (if queue_size q = buffer_capacity q then grown (buffer_capacity q) else buffer_capacity q)"
      "queue_size q = buffer_capacity q \<Longrightarrow> grown (buffer_capacity q) \<le> vd_max_size sz"
      by (auto simp: vd_push_front_def full vd_is_full_def vd_capacity_def Let_def split: if_splits sum.splits)
    then show ?thesis using Inr vd_push_front_spec [OF I room Inr] cap by (auto simp: list_push_def vd_abs_def Let_def)
  qed
qed

lemma vd_push_ok:
  assumes "vd_ok sz q"
  shows "vd_push_back sz v q = Inr q' \<Longrightarrow> vd_ok sz q'" "vd_push_front sz v q = Inr q' \<Longrightarrow> vd_ok sz q'"
proof -
  note I = assms [unfolded vd_ok_def, THEN conjunct1] and room = vd_ok_room [OF assms]
  show "vd_ok sz q'" if "vd_push_back sz v q = Inr q'"
    using that vd_push_abs(1) [OF assms, of v] vd_push_back_spec [OF I room that] assms
    by (auto simp: vd_ok_def list_push_def vd_abs_def Let_def split: if_splits)
  show "vd_ok sz q'" if "vd_push_front sz v q = Inr q'"
    using that vd_push_abs(2) [OF assms, of v] vd_push_front_spec [OF I room that] assms
    by (auto simp: vd_ok_def list_push_def vd_abs_def Let_def split: if_splits)
qed

lemma vd_pop_capacity:
  "vd_pop_back q = Inr q' \<Longrightarrow> buffer_capacity q' = buffer_capacity q"
  "vd_pop_front q = Inr q' \<Longrightarrow> buffer_capacity q' = buffer_capacity q"
  by (auto simp: vd_pop_back_def vd_pop_front_def Let_def split: if_splits)

lemma vd_pop_error:
  "vd_pop_back q = Inl e \<longleftrightarrow> vd_list q = [] \<and> e = AssertFailed"
  "vd_pop_front q = Inl e \<longleftrightarrow> vd_list q = [] \<and> e = AssertFailed"
  by (auto simp: vd_pop_back_def vd_pop_front_def Let_def vd_list_Nil vd_empty_def)

lemma list_push_Done: "map_sum id vd_abs r = map_sum id snd (list_push sz xs s) \<Longrightarrow> map_sum id (map_prod id vd_abs) (vd_upd r) = list_push sz xs s"
  by (cases r) (auto simp: list_push_def vd_upd_def Let_def split: prod.splits if_splits)

text \<open>One operation, on the deque and on its list and capacity.\<close>

lemma vd_step_abs:
  assumes "vd_ok sz q"
  shows "map_sum id (map_prod id vd_abs) (vd_step sz x q) = list_step sz x (vd_abs q)"
    and "vd_step sz x q = Inr (r, q') \<Longrightarrow> vd_ok sz q'"
proof -
  note ok = assms [unfolded vd_ok_def]
  note I = ok [THEN conjunct1]
  have "map_sum id (map_prod id vd_abs) (vd_step sz x q) = list_step sz x (vd_abs q) \<and> (\<forall>r q'. vd_step sz x q = Inr (r, q') \<longrightarrow> vd_ok sz q')"
  proof (cases x)
    case (PushBack v)
    then show ?thesis using list_push_Done [OF vd_push_abs(1) [OF assms, of v]] vd_push_ok(1) [OF assms, of v]
      by (auto simp: vd_abs_def vd_upd_def split: sum.splits)
  next
    case (PushFront v)
    then show ?thesis using list_push_Done [OF vd_push_abs(2) [OF assms, of v]] vd_push_ok(2) [OF assms, of v]
      by (auto simp: vd_abs_def vd_upd_def split: sum.splits)
  next
    case PopBack
    show ?thesis
    proof (cases "vd_pop_back q")
      case (Inl e) then show ?thesis using PopBack vd_pop_error(1) [of q e] by (simp add: vd_abs_def vd_upd_def)
    next
      case (Inr q')
      moreover have "vd_list q \<noteq> []" using Inr vd_pop_error(1) [of q AssertFailed] by auto
      ultimately show ?thesis using PopBack vd_pop_back_spec [OF I Inr] vd_pop_capacity(1) [OF Inr] ok by (simp add: vd_ok_def vd_abs_def vd_upd_def)
    qed
  next
    case PopFront
    show ?thesis
    proof (cases "vd_pop_front q")
      case (Inl e) then show ?thesis using PopFront vd_pop_error(2) [of q e] by (simp add: vd_abs_def vd_upd_def)
    next
      case (Inr q')
      moreover have "vd_list q \<noteq> []" using Inr vd_pop_error(2) [of q AssertFailed] by auto
      ultimately show ?thesis using PopFront vd_pop_front_spec [OF I Inr] vd_pop_capacity(2) [OF Inr] ok by (simp add: vd_ok_def vd_abs_def vd_upd_def)
    qed
  next
    case (Reserve n)
    show ?thesis
    proof (cases "vd_reserve sz n q")
      case (Inl e) then show ?thesis using Reserve by (simp add: vd_reserve_def vd_abs_def vd_upd_def split: if_splits)
    next
      case (Inr q')
      then have "n \<le> vd_max_size sz" by (simp add: vd_reserve_def split: if_splits)
      then show ?thesis using Inr Reserve vd_reserve_spec [OF I Inr] ok by (simp add: vd_ok_def vd_abs_def vd_upd_def vd_capacity_def max.commute)
    qed
  next
    case Clear
    then show ?thesis using vd_clear_spec [OF I] ok by (simp add: vd_ok_def vd_abs_def vd_capacity_def)
  next
    case ShrinkToFit
    then show ?thesis using vd_shrink_to_fit_spec [OF I] vd_invD(2) [OF I] ok
      by (simp add: vd_ok_def vd_abs_def vd_capacity_def)
  qed (auto simp: vd_reads [OF I] vd_qry_def vd_size_def vd_empty_def vd_list_Nil vd_abs_def ok vd_ok_def split: sum.splits if_splits)
  then show "map_sum id (map_prod id vd_abs) (vd_step sz x q) = list_step sz x (vd_abs q)"
    and "vd_step sz x q = Inr (r, q') \<Longrightarrow> vd_ok sz q'" by blast+
qed

interpretation vd: data_refinement "vd_step sz" "list_step sz" vd_abs "vd_ok sz" "\<lambda>e. False" for sz
proof
  fix q x r q' assume q: "vd_ok sz q" "vd_step sz x q = Inr (r, q')"
  then show "vd_ok sz q' \<and> list_step sz x (vd_abs q) = Inr (r, vd_abs q')"
    using vd_step_abs(1) [OF q(1), of x] vd_step_abs(2) [OF q] by simp
next
  fix q x e assume q: "vd_ok sz q" "vd_step sz x q = Inl e"
  then show "False \<or> list_step sz x (vd_abs q) = Inl e" using vd_step_abs(1) [OF q(1), of x] by simp
qed

section \<open>Properties\<close>

text \<open>
  C5. Any sequence of operations on a well-formed deque, of elements of at least three bytes, is the same sequence on a list with a
  capacity: it has the same outputs, final contents and capacity and leaves a well-formed ring buffer (exactly the
  window's cells are constructed), or it fails with the same exception or assertion. In particular an allocation fails
  exactly when the capacity \<open>grow\<close> or \<open>reserve\<close> asks for exceeds \<open>max_size\<close>.
\<close>

theorem vecdeque_refines_list:
  assumes "vd_ok sz q"
  shows "case run_ops (vd_step sz) ops q of
           Inr (outs, q') \<Rightarrow> vd_ok sz q' \<and> run_ops (list_step sz) ops (vd_list q, buffer_capacity q) = Inr (outs, vd_list q', buffer_capacity q')
         | Inl e \<Rightarrow> run_ops (list_step sz) ops (vd_list q, buffer_capacity q) = Inl e"
  using vd.run_ok [OF assms] vd.run_err [OF assms] by (auto simp: vd_abs_def split: sum.splits)

theorem vecdeque_refines_list_witness:
  "vd_ok 8 (vd_of_list [1, 2, 3 :: nat]) \<and>
   (\<exists>q'. run_ops (vd_step 8) [PopFront, PushBack 4, PushBack 5, PushFront 9, Back] (vd_of_list [1, 2, 3 :: nat])
       = Inr ([Done, Done, Done, Done, Elem 5], q') \<and> vd_ok 8 q' \<and> vd_list q' = [9, 2, 3, 4, 5] \<and> buffer_capacity q' = 5)"
proof -
  let ?q = "vd_of_list [1, 2, 3 :: nat]" and ?ops = "[PopFront, PushBack 4, PushBack 5, PushFront 9, Back] :: nat vd_op list"
  have ok: "vd_ok 8 ?q"
    using vd_of_list_spec(1) [of "[1, 2, 3 :: nat]"] by (simp add: vd_ok_def vd_of_list_def vd_max_size_def)
  have l: "vd_list ?q = [1, 2, 3]" "buffer_capacity ?q = 3" using vd_of_list_spec [of "[1, 2, 3 :: nat]"] by (simp_all add: vd_of_list_def)
  have "run_ops (list_step 8) ?ops ([1, 2, 3], 3) = Inr ([Done, Done, Done, Done, Elem 5], [9, 2, 3, 4, 5], 5)"
    by (simp add: list_push_def grown_def vd_max_size_def)
  then show ?thesis using ok vecdeque_refines_list [OF ok, of ?ops] unfolding l by (auto split: sum.splits)
qed

text \<open>
  Copying: the copy constructor produces an equal ring buffer (same layout), and copy
  assignment into any well-formed deque produces a well-formed deque with the source's
  contents, laid out from index 0; the move constructor hands the contents over and leaves an
  empty well-formed deque behind.
\<close>

theorem vecdeque_copy_move:
  assumes "vd_inv self" "vd_inv other"
  shows "vd_copy other = other
    \<and> vd_inv (vd_assign self other) \<and> vd_list (vd_assign self other) = vd_list other \<and> head (vd_assign self other) = 0
    \<and> fst (vd_move other) = other \<and> vd_inv (snd (vd_move other)) \<and> vd_list (snd (vd_move other)) = []"
proof -
  have "head (vd_assign self other) = 0" by (auto simp: vd_assign_def Let_def split: prod.splits)
  moreover have "fst (vd_move other) = other" by (simp add: vd_move_def)
  ultimately show ?thesis
    using vd_copy_eq [OF assms(2)] vd_assign_spec [OF assms] vd_default_spec by (simp add: vd_move_def)
qed

theorem vecdeque_copy_move_witness:
  "vd_inv (vd_of_list [7 :: nat]) \<and> vd_inv (vd_of_list [1, 2 :: nat])
   \<and> vd_list (vd_assign (vd_of_list [7]) (vd_of_list [1, 2 :: nat])) = [1, 2]"
  using vecdeque_copy_move [OF vd_of_list_spec(1) [of "[7 :: nat]"] vd_of_list_spec(1) [of "[1, 2]"]]
    vd_of_list_spec by metis

end
