(* ===== verification/BitSet.thy ===== *)
theory BitSet
  imports Prelude
begin

text \<open>
  The occupancy bitset of \<^verbatim>\<open>DenseHashTable2\<close> (\<^verbatim>\<open>Common/include/Luau/DenseHash2.h\<close>): an array of
  64-bit words, the operations \<open>contains\<close>, \<open>set\<close> and \<open>clear\<close>, and the iterator that walks the
  set bits with \<open>word &= word - 1\<close> and a count of trailing zeroes. Shown: the word operations
  implement a set of indices, and the iterator enumerates it completely and in order.
\<close>

section \<open>State and operations\<close>

record bitset =
  bs_capacity :: nat
  bs_count :: nat
  bs_data :: "u64 list"

text \<open>
  The portable branch of \<open>countTrailingZeroes\<close>; the loop stops within 64 rounds because the
  caller ensures that the word is not 0.
\<close>

fun ctz_loop :: "nat \<Rightarrow> u64 \<Rightarrow> nat \<Rightarrow> nat" where
  "ctz_loop 0 word n = n"
| "ctz_loop (Suc fuel) word n = (if word AND 1 = 0 then ctz_loop fuel (drop_bit 1 word) (n + 1) else n)"

definition countTrailingZeroes :: "u64 \<Rightarrow> nat" where
  "countTrailingZeroes word = ctz_loop 64 word 0"

definition bs_new :: "nat \<Rightarrow> bitset" where
  "bs_new cap =
     (if cap \<noteq> 0 then (let n = (if cap < 64 then 1 else drop_bit 6 cap)
                       in \<lparr>bs_capacity = cap, bs_count = n, bs_data = replicate n 0\<rparr>)
      else \<lparr>bs_capacity = cap, bs_count = 0, bs_data = []\<rparr>)"

definition bs_contains :: "bitset \<Rightarrow> nat \<Rightarrow> bool" where
  "bs_contains s bucket =
     (let whichBitvec = drop_bit 6 bucket; bvOffset = bucket AND 63
      in drop_bit bvOffset (bs_data s ! whichBitvec) AND 1 = 1)"

definition bs_set :: "bitset \<Rightarrow> nat \<Rightarrow> bool \<Rightarrow> bitset" where
  "bs_set s bucket v =
     (let whichBitvec = drop_bit 6 bucket; offset = bucket AND 63; w = bs_data s ! whichBitvec
      in s\<lparr>bs_data := (bs_data s)[whichBitvec :=
             (if v then w OR push_bit offset 1 else w AND NOT (push_bit offset 1))]\<rparr>)"

definition bs_clear :: "bitset \<Rightarrow> bitset" where
  "bs_clear s = (if bs_count s \<noteq> 0 then s\<lparr>bs_data := replicate (bs_count s) 0\<rparr> else s)"

text \<open>The iterator: \<open>wordIdx\<close> and the part of the current word not yet visited.\<close>

function bs_skip :: "u64 list \<Rightarrow> nat \<Rightarrow> nat \<times> u64" where
  "bs_skip data i = (if i < length data then (if data ! i = 0 then bs_skip data (i + 1) else (i, data ! i)) else (i, 0))"
  by pat_completeness auto
termination
  by (relation "measure (\<lambda>(data, i). length data - i)") auto

declare bs_skip.simps [simp del]

definition bs_begin :: "bitset \<Rightarrow> nat \<times> u64" where
  "bs_begin s = bs_skip (bs_data s) 0"

definition bs_next :: "u64 list \<Rightarrow> nat \<times> u64 \<Rightarrow> nat \<times> u64" where
  "bs_next data it = (case it of (i, w) \<Rightarrow>
     (let w' = w AND (w - 1) in if w' = 0 then bs_skip data (i + 1) else (i, w')))"

definition bs_deref :: "nat \<times> u64 \<Rightarrow> nat" where
  "bs_deref it = (case it of (i, w) \<Rightarrow> i * 64 + countTrailingZeroes w)"

text \<open>
  The range-for loop \<open>for (size_t bucket : usedTable)\<close>: the buckets it visits, in order. The loop
  ends at \<open>wordIdx = count\<close>; the test \<open>word \<noteq> 0\<close> holds at every earlier position.
\<close>

lemma bs_skip_ge: "i \<le> fst (bs_skip data i)"
proof (induction data i rule: bs_skip.induct)
  case (1 data i)
  then show ?case by (subst bs_skip.simps) auto
qed

lemma word_and_dec_less: "w \<noteq> 0 \<Longrightarrow> unat (w AND (w - 1)) < unat w" for w :: "'a::len word"
proof -
  assume "w \<noteq> 0"
  have "w AND (w - 1) \<le> w - 1" by (rule word_and_le1)
  moreover have "w - 1 < w" using \<open>w \<noteq> 0\<close> by (simp add: word_less_nat_alt unat_minus_one unat_gt_0)
  ultimately show ?thesis by (meson order_le_less_trans word_less_nat_alt)
qed

function bs_buckets_from :: "u64 list \<Rightarrow> nat \<times> u64 \<Rightarrow> nat list" where
  "bs_buckets_from data it =
     (if fst it < length data \<and> snd it \<noteq> 0 then bs_deref it # bs_buckets_from data (bs_next data it) else [])"
  by pat_completeness auto
termination
proof (relation "measures [\<lambda>(data, it). length data - fst it, \<lambda>(data, it). unat (snd it)]", goal_cases)
  case 1
  then show ?case by simp
next
  case (2 data it)
  obtain i w where it: "it = (i, w)" by (cases it)
  show ?case
  proof (cases "w AND (w - 1) = 0")
    case True
    then show ?thesis using 2 bs_skip_ge [of "i + 1" data] by (auto simp: it bs_next_def)
  next
    case False
    then show ?thesis using 2 word_and_dec_less [of w] by (auto simp: it bs_next_def)
  qed
qed

declare bs_buckets_from.simps [simp del]

definition bs_buckets :: "bitset \<Rightarrow> nat list" where
  "bs_buckets s = bs_buckets_from (bs_data s) (bs_begin s)"

section \<open>Words as sets of bits\<close>

definition bs_inv :: "bitset \<Rightarrow> bool" where
  "bs_inv s \<longleftrightarrow> length (bs_data s) = bs_count s \<and> bs_capacity s \<le> 64 * bs_count s"

definition bs_members :: "bitset \<Rightarrow> nat set" where
  "bs_members s = {p. p < 64 * bs_count s \<and> bs_contains s p}"

lemma and_63: "p AND 63 = p mod 64" for p :: nat
  using and_exp_eq_0_iff_not_bit take_bit_eq_mask [of 6 p] by (simp add: mask_eq_exp_minus_1 take_bit_eq_mod)

lemma bs_contains_bit: "bs_contains s p \<longleftrightarrow> bit (bs_data s ! (p div 64)) (p mod 64)"
  unfolding bs_contains_def Let_def and_63
  by (simp add: and_one_eq odd_iff_mod_2_eq_one [symmetric] bit_iff_odd_drop_bit drop_bit_eq_div)

lemma bs_set_contains:
  assumes "bs_inv s" "p < 64 * bs_count s" "b < 64 * bs_count s"
  shows "bs_contains (bs_set s b v) p \<longleftrightarrow> (if p = b then v else bs_contains s p)"
proof -
  have l: "p div 64 < length (bs_data s)" "b div 64 < length (bs_data s)" using assms by (auto simp: bs_inv_def)
  have eq: "p = b \<longleftrightarrow> p div 64 = b div 64 \<and> p mod 64 = b mod 64" by (metis div_mult_mod_eq)
  show ?thesis
    using l eq
    by (auto simp: bs_contains_bit bs_set_def Let_def and_63 drop_bit_eq_div nth_list_update
        bit_or_iff bit_and_iff bit_not_iff bit_push_bit_iff bit_1_iff bit_exp_iff)
qed


lemma bs_set_inv [simp]: "bs_inv s \<Longrightarrow> bs_inv (bs_set s b v)" "bs_count (bs_set s b v) = bs_count s"
  "bs_capacity (bs_set s b v) = bs_capacity s"
  by (auto simp: bs_inv_def bs_set_def Let_def)

lemma bs_new_inv: "bs_inv (bs_new (2 ^ k))" "p < 64 * bs_count (bs_new (2 ^ k)) \<Longrightarrow> \<not> bs_contains (bs_new (2 ^ k)) p"
proof -
  have "(2::nat) ^ k \<le> 64 * ((2 ^ k) div 64)" if "\<not> (2::nat) ^ k < 64"
  proof -
    have "6 \<le> k" using that power_strict_increasing [of k 6 "2::nat"] by (cases "k < 6") auto
    then obtain m where "k = 6 + m" using le_Suc_ex by blast
    then show ?thesis by (simp add: power_add)
  qed
  then show "bs_inv (bs_new (2 ^ k))" by (auto simp: bs_inv_def bs_new_def Let_def drop_bit_eq_div)
  show "\<not> bs_contains (bs_new (2 ^ k)) p" if "p < 64 * bs_count (bs_new (2 ^ k))"
    using that by (auto simp: bs_contains_bit bs_new_def Let_def split: if_splits)
qed

lemma bs_new_0: "bs_inv (bs_new 0)" "bs_count (bs_new 0) = 0"
  by (auto simp: bs_inv_def bs_new_def)

lemma bs_clear_spec: "bs_inv s \<Longrightarrow> bs_inv (bs_clear s)" "bs_count (bs_clear s) = bs_count s"
  "p < 64 * bs_count s \<Longrightarrow> \<not> bs_contains (bs_clear s) p"
  by (auto simp: bs_clear_def bs_inv_def bs_contains_bit)

section \<open>Trailing zeroes and the lowest set bit\<close>

lemma ctz_loop_spec:
  assumes "bit w k" "\<And>j. j < k \<Longrightarrow> \<not> bit w j" "k < fuel"
  shows "ctz_loop fuel w n = n + k"
  using assms
proof (induction fuel arbitrary: w k n)
  case 0
  then show ?case by simp
next
  case (Suc fuel)
  show ?case
  proof (cases k)
    case 0
    then have "w AND 1 \<noteq> 0" using Suc.prems(1) by (simp add: and_one_eq bit_0 odd_iff_mod_2_eq_one)
    then show ?thesis using 0 by simp
  next
    case (Suc j)
    then have "w AND 1 = 0" using Suc.prems(2) [of 0] by (simp add: and_one_eq bit_0 even_iff_mod_2_eq_zero)
    moreover have "ctz_loop fuel (drop_bit 1 w) (n + 1) = n + 1 + j"
      using Suc.prems Suc by (intro Suc.IH) (auto simp: bit_drop_bit_eq)
    ultimately show ?thesis using Suc by simp
  qed
qed

lemma lowest_bit:
  assumes "w \<noteq> (0 :: u64)"
  obtains k where "bit w k" "\<And>j. j < k \<Longrightarrow> \<not> bit w j" "k < 64" "countTrailingZeroes w = k"
proof -
  have ex: "\<exists>k. bit w k" using assms by (auto simp: bit_eq_iff)
  define k where "k = (LEAST k. bit w k)"
  have k: "bit w k" unfolding k_def using ex by (rule LeastI_ex)
  moreover have low: "\<not> bit w j" if "j < k" for j using that not_less_Least k_def by blast
  moreover have "k < 64" using bit_imp_le_length [OF k] by simp
  ultimately show ?thesis using that ctz_loop_spec [of w k 64 0] by (simp add: countTrailingZeroes_def)
qed


lemma nat_dec_bit_high:
  fixes x :: nat
  assumes "\<not> 2 ^ j dvd x"
  shows "bit (x - 1) j \<longleftrightarrow> bit x j"
proof -
  have "x mod 2 ^ j > 0" using assms by (simp add: dvd_eq_mod_eq_0)
  then have "(x - 1) div 2 ^ j = x div 2 ^ j"
    by (metis Suc_diff_1 Suc_pred' assms div_Suc dvd_0_right gr0I mod_0_imp_dvd)
  then show ?thesis by (simp add: bit_iff_odd)
qed

lemma bit_and_dec:
  fixes w :: u64
  assumes "bit w k" "\<And>j. j < k \<Longrightarrow> \<not> bit w j"
  shows "bit (w AND (w - 1)) j \<longleftrightarrow> bit w j \<and> j \<noteq> k"
proof -
  define x where "x = unat w"
  have b: "bit w i \<longleftrightarrow> bit x i" for i by (simp add: x_def bit_unat)
  have "w \<noteq> 0" using assms(1) by auto
  then have d: "bit (w - 1) i \<longleftrightarrow> bit (x - 1) i" for i
    by (metis bit_unat unat_minus_one x_def)
  have dvd: "2 ^ k dvd x"
  proof -
    have "take_bit k x = 0" using assms(2) b by (auto simp: bit_eq_iff bit_take_bit_iff)
    then show ?thesis by (simp add: take_bit_eq_0_iff)
  qed
  consider "j < k" | "j = k" | "k < j" by linarith
  then show ?thesis
  proof cases
    case 1
    then show ?thesis using assms(2) [of j] by (simp add: bit_and_iff)
  next
    case 2
    have odd: "odd (x div 2 ^ k)" using assms(1) b by (simp add: bit_iff_odd)
    obtain m where m: "x = 2 ^ k * m" using dvd by blast
    then have "odd m" using odd by simp
    then obtain m' where m': "m = Suc m'" "even m'" by (cases m) auto
    have "x - 1 = 2 ^ k * m' + (2 ^ k - 1)" using m m' by (simp add: algebra_simps)
    then have "(x - 1) div 2 ^ k = m'" using div_mult_self4 [of "2 ^ k" m' "2 ^ k - 1"] by simp
    then have "\<not> bit (w - 1) k" using m'(2) unfolding d by (simp add: bit_iff_odd)
    then show ?thesis using 2 by (simp add: bit_and_iff)
  next
    case 3
    have "\<not> 2 ^ j dvd x"
    proof
      assume "2 ^ j dvd x"
      then have "take_bit j x = 0" by (simp add: take_bit_eq_0_iff)
      then have "\<not> bit (take_bit j x) k" by simp
      then show False using 3 assms(1) b by (simp add: bit_take_bit_iff)
    qed
    then show ?thesis using 3 d b nat_dec_bit_high by (auto simp: bit_and_iff)
  qed
qed

section \<open>The iterator enumerates the set\<close>

text \<open>What is still to come at an iterator position.\<close>

definition bs_rest :: "u64 list \<Rightarrow> nat \<Rightarrow> nat set" where
  "bs_rest data i = {p. i * 64 \<le> p \<and> p < 64 * length data \<and> bit (data ! (p div 64)) (p mod 64)}"

definition word_members :: "nat \<Rightarrow> u64 \<Rightarrow> nat set" where
  "word_members i w = {p. p div 64 = i \<and> bit w (p mod 64)}"

lemma bs_rest_split:
  assumes "i < length data"
  shows "bs_rest data i = word_members i (data ! i) \<union> bs_rest data (i + 1)"
proof -
  have d: "i * 64 \<le> p \<longleftrightarrow> p div 64 = i \<or> (i + 1) * 64 \<le> p" for p
    using less_eq_div_iff_mult_less_eq [of 64 i p] less_eq_div_iff_mult_less_eq [of 64 "i + 1" p] by auto
  have "\<not> (i + 1) * 64 \<le> p" "p < 64 * length data" if "p div 64 = i" for p using assms that by auto
  then show ?thesis unfolding bs_rest_def word_members_def d by blast
qed

lemma bs_rest_end: "length data \<le> i \<Longrightarrow> bs_rest data i = {}"
  by (auto simp: bs_rest_def)

definition it_rest :: "u64 list \<Rightarrow> nat \<times> u64 \<Rightarrow> nat set" where
  "it_rest data it = (if fst it < length data then word_members (fst it) (snd it) \<union> bs_rest data (fst it + 1) else {})"

definition it_ok :: "u64 list \<Rightarrow> nat \<times> u64 \<Rightarrow> bool" where
  "it_ok data it \<longleftrightarrow> (fst it < length data \<longrightarrow> snd it \<noteq> 0)"

lemma bs_skip_rest: "it_ok data (bs_skip data i) \<and> it_rest data (bs_skip data i) = bs_rest data i"
proof (induction data i rule: bs_skip.induct)
  case (1 data i)
  consider "\<not> i < length data" | "i < length data" "data ! i = 0" | "i < length data" "data ! i \<noteq> 0" by blast
  then show ?case
  proof cases
    case 1
    then show ?thesis by (subst (1 2) bs_skip.simps) (simp add: it_ok_def it_rest_def bs_rest_end)
  next
    case 2
    have "word_members i (0 :: u64) = {}" by (simp add: word_members_def)
    then show ?thesis using 1 2 bs_rest_split [OF 2(1)] by (simp add: bs_skip.simps [of data i])
  next
    case 3
    then show ?thesis using bs_rest_split [OF 3(1)] by (simp add: bs_skip.simps [of data i] it_ok_def it_rest_def)
  qed
qed


lemma bs_next_rest:
  assumes "fst it < length data" "snd it \<noteq> 0"
  shows "it_ok data (bs_next data it) \<and> it_rest data (bs_next data it) = it_rest data it - {bs_deref it}
    \<and> bs_deref it \<in> it_rest data it \<and> (\<forall>p \<in> it_rest data (bs_next data it). bs_deref it < p)"
proof -
  obtain i w where it: "it = (i, w)" by (cases it)
  obtain k where k: "bit w k" "\<And>j. j < k \<Longrightarrow> \<not> bit w j" "k < 64" "countTrailingZeroes w = k"
    using lowest_bit assms(2) it by auto
  have e: "bs_deref it = i * 64 + k" by (simp add: it bs_deref_def k(4))
  have m: "word_members i (w AND (w - 1)) = word_members i w - {i * 64 + k}"
  proof -
    have "p = i * 64 + k \<longleftrightarrow> p div 64 = i \<and> p mod 64 = k" for p using k(3) by auto
    then show ?thesis using bit_and_dec [OF k(1,2)] unfolding word_members_def by blast
  qed
  have above: "i * 64 + k < p" if "p \<in> word_members i (w AND (w - 1)) \<union> bs_rest data (i + 1)" for p
  proof (cases "p \<in> bs_rest data (i + 1)")
    case True
    then show ?thesis using k(3) by (auto simp: bs_rest_def)
  next
    case False
    with that have p: "p div 64 = i" "bit w (p mod 64)" "p mod 64 \<noteq> k"
      using bit_and_dec [OF k(1,2)] by (auto simp: word_members_def)
    then have "k < p mod 64" using k(2) [of "p mod 64"] by (cases "p mod 64" k rule: linorder_cases) auto
    then show ?thesis using p(1) div_mult_mod_eq [of p 64] by linarith
  qed
  have r: "it_rest data (bs_next data it) = word_members i (w AND (w - 1)) \<union> bs_rest data (i + 1)
      \<and> it_ok data (bs_next data it)"
  proof (cases "w AND (w - 1) = 0")
    case True
    then have "word_members i (w AND (w - 1)) = {}" by (simp add: word_members_def)
    then show ?thesis using True bs_skip_rest [of data "i + 1"] by (simp add: it bs_next_def)
  next
    case False
    then show ?thesis using assms(1) by (simp add: it bs_next_def it_rest_def it_ok_def)
  qed
  have "i * 64 + k \<in> word_members i w" using k by (simp add: word_members_def)
  moreover have "i * 64 + k \<notin> bs_rest data (i + 1)" using k(3) by (auto simp: bs_rest_def)
  moreover have "it_rest data it = word_members i w \<union> bs_rest data (i + 1)"
    using assms(1) by (simp add: it_rest_def it)
  ultimately show ?thesis using r m above unfolding e by blast
qed

lemma bs_buckets_from_spec:
  "it_ok data it \<Longrightarrow> set (bs_buckets_from data it) = it_rest data it \<and> sorted_wrt (<) (bs_buckets_from data it)"
proof (induction data it rule: bs_buckets_from.induct)
  case (1 data it)
  show ?case
  proof (cases "fst it < length data \<and> snd it \<noteq> 0")
    case True
    note n = bs_next_rest [OF conjunct1 [OF True] conjunct2 [OF True]]
    with 1 True have IH: "set (bs_buckets_from data (bs_next data it)) = it_rest data (bs_next data it)"
      "sorted_wrt (<) (bs_buckets_from data (bs_next data it))" by simp_all
    then show ?thesis using True n by (subst (1 2) bs_buckets_from.simps) auto
  next
    case False
    then have "it_rest data it = {}" using 1(2) by (auto simp: it_ok_def it_rest_def)
    then show ?thesis using False by (subst (1 2) bs_buckets_from.simps) auto
  qed
qed

lemma bs_buckets_spec:
  assumes "bs_inv s"
  shows "set (bs_buckets s) = bs_members s" "sorted_wrt (<) (bs_buckets s)" "distinct (bs_buckets s)"
proof -
  have b: "it_ok (bs_data s) (bs_begin s)" "it_rest (bs_data s) (bs_begin s) = bs_rest (bs_data s) 0"
    using bs_skip_rest by (auto simp: bs_begin_def)
  have "bs_rest (bs_data s) 0 = bs_members s"
    using assms by (auto simp: bs_rest_def bs_members_def bs_contains_bit bs_inv_def)
  then show "set (bs_buckets s) = bs_members s" "sorted_wrt (<) (bs_buckets s)"
    using bs_buckets_from_spec [OF b(1)] b(2) by (auto simp: bs_buckets_def)
  then show "distinct (bs_buckets s)" using strict_sorted_iff by blast
qed

section \<open>Properties\<close>

text \<open>
  C6. Iterating over the bitset visits exactly the indices that \<open>contains\<close> reports, each once
  and in increasing order, for any bitset whose word array has its declared length.
\<close>

theorem bitset_iterator_complete:
  assumes "bs_inv s"
  shows "bs_buckets s = sorted_list_of_set {p. p < 64 * bs_count s \<and> bs_contains s p}"
proof -
  have "sorted (bs_buckets s)" "distinct (bs_buckets s)"
    using bs_buckets_spec(2,3) [OF assms] strict_sorted_iff by blast+
  then have "sorted_list_of_set (set (bs_buckets s)) = bs_buckets s"
    by (rule sorted_list_of_set.idem_if_sorted_distinct)
  then show ?thesis using bs_buckets_spec(1) [OF assms] by (simp add: bs_members_def)
qed

theorem bitset_iterator_complete_witness:
  "bs_inv (bs_set (bs_set (bs_new 128) 70 True) 3 True) \<and> bs_buckets (bs_set (bs_set (bs_new 128) 70 True) 3 True) = [3, 70]
   \<and> bs_buckets (bs_set (bs_set (bs_new 128) 70 True) 3 True)
     = sorted_list_of_set {p. p < 64 * bs_count (bs_set (bs_set (bs_new 128) 70 True) 3 True)
         \<and> bs_contains (bs_set (bs_set (bs_new 128) 70 True) 3 True) p}"
proof -
  let ?s = "bs_set (bs_set (bs_new 128) 70 True) 3 True"
  have i: "bs_inv ?s" using bs_new_inv(1) [of 7] by simp
  have n: "bs_count (bs_new 128) = 2" by (simp add: bs_new_def)
  have "{p. p < 64 * bs_count ?s \<and> bs_contains ?s p} = {3, 70}"
    using bs_new_inv(1) [of 7] bs_new_inv(2) [of _ 7] n by (auto simp: bs_set_contains split: if_splits)
  then show ?thesis using i bitset_iterator_complete [OF i] by simp
qed

end
