(* ===== verification/Probing.thy ===== *)
theory Probing
  imports Prelude
begin

text \<open>
  Linear probing with backward-shift deletion, as an interface: \<open>c\<close> cells, a home position for
  every item, and the laws that \<open>DenseHashTable2\<close> relies on. A table is seen as a function from
  cells to optional items. The lemmas say that filling the first free cell of a probe path
  and each step of algorithm R keep every item reachable from its home.
\<close>

text \<open>The number of steps from cell \<open>a\<close> to cell \<open>b\<close>, probing upwards and around.\<close>

definition cdist :: "nat \<Rightarrow> nat \<Rightarrow> nat \<Rightarrow> nat" where
  "cdist c a b = (if a \<le> b then b - a else c + b - a)"

lemma cdist_less: "a < c \<Longrightarrow> b < c \<Longrightarrow> cdist c a b < c"
  by (auto simp: cdist_def)

lemma cdist_self [simp]: "cdist c a a = 0"
  by (simp add: cdist_def)

lemma cdist_0: "a < c \<Longrightarrow> b < c \<Longrightarrow> cdist c a b = 0 \<longleftrightarrow> a = b"
  by (auto simp: cdist_def)

lemma cdist_inj: "a < c \<Longrightarrow> b < c \<Longrightarrow> b' < c \<Longrightarrow> cdist c a b = cdist c a b' \<longleftrightarrow> b = b'"
  by (auto simp: cdist_def)

lemma Suc_mod_cell: "p < c \<Longrightarrow> Suc p mod c = (if Suc p = c then 0 else Suc p)"
  by auto

lemma cdist_Suc: "a < c \<Longrightarrow> b < c \<Longrightarrow> Suc b mod c \<noteq> a \<Longrightarrow> cdist c a (Suc b mod c) = Suc (cdist c a b)"
  by (auto simp: cdist_def Suc_mod_cell)

lemma cdist_back: "a < c \<Longrightarrow> b < c \<Longrightarrow> a \<noteq> b \<Longrightarrow> cdist c (Suc a mod c) b = cdist c a b - 1"
  by (auto simp: cdist_def Suc_mod_cell)

text \<open>Distances measured from another origin \<open>e\<close>.\<close>

lemma cdist_shift:
  assumes "e < c" "a < c" "b < c"
  shows "cdist c a b = (if cdist c e a \<le> cdist c e b then cdist c e b - cdist c e a else c + cdist c e b - cdist c e a)"
proof (cases "e \<le> a")
  case True
  then show ?thesis using assms by (cases "e \<le> b"; cases "a \<le> b") (auto simp: cdist_def)
next
  case False
  then show ?thesis using assms by (cases "e \<le> b"; cases "a \<le> b") (auto simp: cdist_def)
qed

lemma cdist_minus: "c = 2 ^ k \<Longrightarrow> k < 64 \<Longrightarrow> a < c \<Longrightarrow> b < c \<Longrightarrow> (b + (2 ^ 64 - a)) mod c = cdist c a b"
proof -
  assume a: "c = 2 ^ k" "k < 64" "a < c" "b < c"
  obtain m where m: "(2::nat) ^ 64 = c * Suc m"
  proof -
    have "(2::nat) ^ 64 = 2 ^ k * 2 ^ (64 - k)" using a(2) by (simp flip: power_add)
    moreover obtain m where "(2::nat) ^ (64 - k) = Suc m" using gr0_implies_Suc [of "2 ^ (64 - k)"] by auto
    ultimately show ?thesis using that a(1) by metis
  qed
  have "b + (2 ^ 64 - a) = (b + (c - a)) + c * m" using a m by simp
  then have "(b + (2 ^ 64 - a)) mod c = (b + (c - a)) mod c" by (metis mod_mult_self2)
  also have "\<dots> = cdist c a b"
  proof (cases "a \<le> b")
    case True
    then have "b + (c - a) = c + (b - a)" using a(3) by linarith
    then have "(b + (c - a)) mod c = (b - a) mod c" by (metis mod_add_self1)
    then show ?thesis using True a(4) by (simp add: cdist_def)
  next
    case False
    then show ?thesis using a by (simp add: cdist_def)
  qed
  finally show ?thesis .
qed

locale probing =
  fixes c :: nat and home :: "'i \<Rightarrow> nat"
  assumes home_less: "home x < c"
begin

definition placed :: "(nat \<Rightarrow> 'i option) \<Rightarrow> bool" where
  "placed m \<longleftrightarrow> (\<forall>p<c. \<forall>x. m p = Some x \<longrightarrow>
     (\<forall>q<c. cdist c (home x) q < cdist c (home x) p \<longrightarrow> m q \<noteq> None))"

lemma placedD:
  "placed m \<Longrightarrow> p < c \<Longrightarrow> m p = Some x \<Longrightarrow> q < c \<Longrightarrow> cdist c (home x) q < cdist c (home x) p \<Longrightarrow> m q \<noteq> None"
  unfolding placed_def by blast

lemma placed_empty: "placed (\<lambda>_. None)"
  by (simp add: placed_def)

lemma placed_insert:
  assumes "placed m" "b < c" "\<And>q. q < c \<Longrightarrow> cdist c (home x) q < cdist c (home x) b \<Longrightarrow> m q \<noteq> None"
  shows "placed (m(b \<mapsto> x))"
  using assms unfolding placed_def by (auto simp del: not_None_eq)

text \<open>
  Positions relative to a free cell \<open>e\<close>: no probe path crosses \<open>e\<close>, so along this coordinate every
  home lies at or before its item.
\<close>

definition hole_inv :: "(nat \<Rightarrow> 'i option) \<Rightarrow> nat \<Rightarrow> nat \<Rightarrow> nat \<Rightarrow> bool" where
  "hole_inv m e i j \<longleftrightarrow> i < c \<and> j < c \<and> e < c \<and> m e = None \<and> e \<noteq> i \<and> m i = None \<and> cdist c e i \<le> cdist c e j \<and>
     (\<forall>p<c. \<forall>x. m p = Some x \<longrightarrow> home x \<noteq> e \<and> cdist c e (home x) \<le> cdist c e p \<and>
       (\<forall>q<c. cdist c e (home x) \<le> cdist c e q \<and> cdist c e q < cdist c e p \<longrightarrow>
          m q \<noteq> None \<or> (q = i \<and> cdist c e j < cdist c e p)))"

lemma hole_invD:
  assumes "hole_inv m e i j" "p < c" "m p = Some x"
  shows "home x \<noteq> e" "cdist c e (home x) \<le> cdist c e p"
    "\<And>q. q < c \<Longrightarrow> cdist c e (home x) \<le> cdist c e q \<Longrightarrow> cdist c e q < cdist c e p \<Longrightarrow>
       m q \<noteq> None \<or> (q = i \<and> cdist c e j < cdist c e p)"
  using assms unfolding hole_inv_def by blast+

lemma path_linear:
  assumes "h < c" "p < c" "q < c" "e < c" "cdist c e h \<le> cdist c e p" "h \<noteq> e"
  shows "cdist c h q < cdist c h p \<longleftrightarrow> cdist c e h \<le> cdist c e q \<and> cdist c e q < cdist c e p"
  using assms cdist_less [OF assms(4,1)] cdist_less [OF assms(4,3)] cdist_less [OF assms(4,2)]
  by (auto simp: cdist_shift [OF assms(4,1)])

lemma home_before:
  assumes "placed m" "m e = None" "e < c" "p < c" "m p = Some x"
  shows "home x \<noteq> e \<and> cdist c e (home x) \<le> cdist c e p"
proof -
  let ?h = "home x"
  have h: "?h < c" by (rule home_less)
  have nc: "\<not> cdist c ?h e < cdist c ?h p" using placedD [OF assms(1,4,5,3)] assms(2) by blast
  have "p \<noteq> e" using assms by auto
  then have p0: "0 < cdist c e p" using cdist_0 [OF assms(3,4)] by auto
  have e0: "cdist c e e = 0" by (simp add: cdist_def)
  have "?h \<noteq> e" using nc p0 e0 by auto
  then show ?thesis using nc e0 p0 cdist_less [OF assms(3,4)] cdist_less [OF assms(3) h]
    by (auto simp: cdist_shift [OF assms(3) h assms(3)] cdist_shift [OF assms(3) h assms(4)] split: if_splits)
qed

lemma hole_init:
  assumes "placed m" "m e = None" "e < c" "i < c" "m i \<noteq> None"
  shows "hole_inv (m(i := None)) e i i"
proof -
  have "e \<noteq> i" using assms by auto
  moreover have "m q \<noteq> None" if "p < c" "m p = Some x" "q < c" "cdist c e (home x) \<le> cdist c e q" "cdist c e q < cdist c e p" for p x q
    using home_before [OF assms(1-3) that(1,2)] path_linear [OF home_less that(1,3) assms(3)] that assms(1)
    by (auto simp: placed_def)
  ultimately show ?thesis
    unfolding hole_inv_def using assms home_before [OF assms(1-3)] by (auto simp del: not_None_eq split: if_splits)
qed

lemma hole_next:
  assumes "hole_inv m e i j" "Suc j mod c \<noteq> e"
  shows "cdist c e (Suc j mod c) = Suc (cdist c e j)" "Suc j mod c \<noteq> i"
proof -
  show n: "cdist c e (Suc j mod c) = Suc (cdist c e j)" using assms by (auto simp: hole_inv_def cdist_Suc)
  have "cdist c e i \<le> cdist c e j" using assms by (simp add: hole_inv_def)
  then show "Suc j mod c \<noteq> i" using n by auto
qed

lemma hole_stop:
  assumes "hole_inv m e i j" "m (Suc j mod c) = None"
  shows "placed m"
  unfolding placed_def
proof (intro allI impI)
  fix p x q
  assume p: "p < c" "m p = Some x" and q: "q < c" "cdist c (home x) q < cdist c (home x) p"
  let ?j = "Suc j mod c"
  have I: "home x \<noteq> e" "cdist c e (home x) \<le> cdist c e p" "i < c" "j < c" "e < c"
    and P: "\<And>q. q < c \<Longrightarrow> cdist c e (home x) \<le> cdist c e q \<Longrightarrow> cdist c e q < cdist c e p \<Longrightarrow>
        m q \<noteq> None \<or> (q = i \<and> cdist c e j < cdist c e p)"
    using hole_invD [OF assms(1) p] assms(1) by (auto simp: hole_inv_def)
  have l: "cdist c e (home x) \<le> cdist c e q" "cdist c e q < cdist c e p"
    using path_linear [OF home_less p(1) q(1) I(5,2,1)] q(2) by auto
  show "m q \<noteq> None"
  proof (rule ccontr)
    assume "\<not> m q \<noteq> None"
    then have qi: "q = i" "cdist c e j < cdist c e p" using P [OF q(1) l] by auto
    show False
    proof (cases "?j = e")
      case True
      then have "cdist c e j = c - 1" using I by (auto simp: cdist_def Suc_mod_cell split: if_splits)
      then show False using qi(2) cdist_less [OF I(5) p(1)] by linarith
    next
      case False
      note n = hole_next [OF assms(1) False]
      have "?j \<noteq> p" using assms(2) p(2) by auto
      moreover have "?j < c" using I(4) by simp
      ultimately have "cdist c e ?j < cdist c e p"
        using n(1) qi(2) cdist_inj [OF I(5) \<open>?j < c\<close> p(1)] by linarith
      moreover have "cdist c e (home x) \<le> cdist c e ?j"
        using l(1) qi(1) n(1) assms(1) by (auto simp: hole_inv_def)
      ultimately show False using P [OF \<open>?j < c\<close>] assms(2) n(2) by auto
    qed
  qed
qed

lemma hole_test:
  assumes "hole_inv m e i j" "m (Suc j mod c) = Some x"
  shows "cdist c (home x) i < cdist c (home x) (Suc j mod c) \<longleftrightarrow> cdist c e (home x) \<le> cdist c e i"
    and "cdist c e (Suc j mod c) = Suc (cdist c e j)" and "Suc j mod c \<noteq> i" and "Suc j mod c < c"
proof -
  let ?j = "Suc j mod c"
  have I: "i < c" "j < c" "e < c" "m e = None" "cdist c e i \<le> cdist c e j" using assms(1) by (auto simp: hole_inv_def)
  show j: "?j < c" using I(2) by simp
  have "?j \<noteq> e" using assms(2) I(4) by auto
  then show n: "cdist c e ?j = Suc (cdist c e j)" "?j \<noteq> i" using hole_next [OF assms(1)] by auto
  have "home x \<noteq> e" "cdist c e (home x) \<le> cdist c e ?j" using hole_invD [OF assms(1) j assms(2)] by auto
  then show "cdist c (home x) i < cdist c (home x) ?j \<longleftrightarrow> cdist c e (home x) \<le> cdist c e i"
    using path_linear [OF home_less j I(1,3)] n(1) I(5) by auto
qed

lemma hole_skip:
  assumes "hole_inv m e i j" "m (Suc j mod c) = Some x"
    "\<not> cdist c (home x) i < cdist c (home x) (Suc j mod c)"
  shows "hole_inv m e i (Suc j mod c)"
proof -
  let ?j = "Suc j mod c"
  note t = hole_test [OF assms(1,2)]
  have "m q \<noteq> None \<or> q = i \<and> cdist c e ?j < cdist c e p"
    if p: "p < c" "m p = Some y" and q: "q < c" "cdist c e (home y) \<le> cdist c e q" "cdist c e q < cdist c e p" for p y q
  proof -
    have d: "m q \<noteq> None \<or> q = i \<and> cdist c e j < cdist c e p" using hole_invD(3) [OF assms(1) p q] by blast
    have "p \<noteq> ?j" if "q = i" using that assms(2,3) p(2) q t(1) by auto
    moreover have "e < c" using assms(1) by (simp add: hole_inv_def)
    ultimately show ?thesis using d t(2) cdist_inj [of e c p ?j] p(1) t(4) by (metis Suc_leI nat_less_le)
  qed
  then show ?thesis using assms(1) t(2,4) unfolding hole_inv_def by (auto simp del: not_None_eq)
qed

lemma hole_move:
  assumes "hole_inv m e i j" "m (Suc j mod c) = Some x"
    "cdist c (home x) i < cdist c (home x) (Suc j mod c)"
  shows "hole_inv (m(i \<mapsto> x, Suc j mod c := None)) e (Suc j mod c) (Suc j mod c)"
proof -
  let ?j = "Suc j mod c" and ?m = "m(i \<mapsto> x, Suc j mod c := None)"
  note t = hole_test [OF assms(1,2)]
  have I: "i < c" "e < c" "m e = None" "e \<noteq> i" "cdist c e i \<le> cdist c e j" "m i = None" "home x \<noteq> e"
    using assms(1) hole_invD(1) [OF assms(1) t(4) assms(2)] by (auto simp: hole_inv_def)
  have je: "?j \<noteq> e" using assms(2) I(3) by auto
  have xi: "cdist c e (home x) \<le> cdist c e i" using t(1) assms(3) by simp
  have H: "home y \<noteq> e \<and> cdist c e (home y) \<le> cdist c e p \<and>
      (\<forall>q<c. cdist c e (home y) \<le> cdist c e q \<and> cdist c e q < cdist c e p \<longrightarrow>
         ?m q \<noteq> None \<or> q = ?j \<and> cdist c e ?j < cdist c e p)"
    if p: "p < c" "?m p = Some y" for p y
  proof (cases "p = i")
    case True
    then have y: "y = x" using p t(3) by auto
    have "?m q \<noteq> None" if q: "q < c" "cdist c e (home x) \<le> cdist c e q" "cdist c e q < cdist c e i" for q
    proof -
      have "cdist c e q < cdist c e ?j" using q(3) t(2) I(5) by linarith
      then have "m q \<noteq> None \<or> q = i" using hole_invD(3) [OF assms(1) t(4) assms(2) q(1,2)] by blast
      then show ?thesis using q(3) t(2) I(5) by auto
    qed
    then show ?thesis using True y I xi by auto
  next
    case False
    then have m: "m p = Some y" "p \<noteq> ?j" using p by (auto split: if_splits)
    then have "home y \<noteq> e" "cdist c e (home y) \<le> cdist c e p"
      and P: "\<And>q. q < c \<Longrightarrow> cdist c e (home y) \<le> cdist c e q \<Longrightarrow> cdist c e q < cdist c e p \<Longrightarrow>
        m q \<noteq> None \<or> (q = i \<and> cdist c e j < cdist c e p)"
      using hole_invD [OF assms(1) p(1) m(1)] by auto
    then show ?thesis by (auto simp del: not_None_eq)
  qed
  show ?thesis unfolding hole_inv_def using I je t(4) H by simp
qed

end

end
