(* ===== verification/DenseHash.thy ===== *)
theory DenseHash
  imports BitSet Probing
begin

text \<open>
  The open-addressing hash table of \<^verbatim>\<open>Common/include/Luau/DenseHash2.h\<close>: Fibonacci hashing, linear
  probing, growth by doubling at three quarters full, and backward-shift deletion, with its
  two clients \<open>DenseHashSet2\<close> and \<open>DenseHashMap2\<close>. The template parameters \<open>Hash\<close>, \<open>Eq\<close> and
  \<open>ItemInterface\<close> are arguments (\<open>hasher\<close>, \<open>eq\<close>, \<open>getKey\<close>, \<open>mk\<close>). A cell is raw memory, a
  live item or a moved-from item. \<open>None\<close> as the result of an operation stands for a failing
  assertion, a read of a cell that is not live, or a loop that does not stop.
\<close>

section \<open>State\<close>

datatype 'i cell = Raw | Live 'i | MovedFrom

record 'i dense_table =
  dt_data :: "'i cell list"
  dt_used :: bitset
  dt_capacity :: nat
  dt_count :: nat
  dt_hashShift :: nat

text \<open>The constructor; \<open>buckets\<close> is zero or a power of two (the source asserts it).\<close>

definition dt_new :: "nat \<Rightarrow> 'i dense_table" where
  "dt_new buckets =
     (if buckets \<noteq> 0
      then \<lparr>dt_data = replicate buckets Raw, dt_used = bs_new buckets, dt_capacity = buckets, dt_count = 0,
            dt_hashShift = 64 - countTrailingZeroes (of_nat buckets)\<rparr>
      else \<lparr>dt_data = [], dt_used = bs_new buckets, dt_capacity = 0, dt_count = 0, dt_hashShift = 64\<rparr>)"

section \<open>Table operations\<close>

definition dt_doHash :: "('k \<Rightarrow> u64) \<Rightarrow> 'i dense_table \<Rightarrow> 'k \<Rightarrow> nat" where
  "dt_doHash hasher t key = unat (drop_bit (dt_hashShift t) (hasher key * 11400714819323198485))"

text \<open>The \<open>for(;;)\<close> of \<open>getBucket\<close>; each of the \<open>capacity\<close> cells is visited at most once.\<close>

fun dt_probe :: "('k \<Rightarrow> 'k \<Rightarrow> bool) \<Rightarrow> ('i \<Rightarrow> 'k) \<Rightarrow> 'i dense_table \<Rightarrow> 'k \<Rightarrow> nat \<Rightarrow> nat \<Rightarrow> (nat \<times> bool) option" where
  "dt_probe eq getKey t key 0 bucket = None"
| "dt_probe eq getKey t key (Suc fuel) bucket =
     (if \<not> bs_contains (dt_used t) bucket then Some (bucket, False)
      else (case dt_data t ! bucket of
              Live item \<Rightarrow>
                if eq (getKey item) key then Some (bucket, True)
                else dt_probe eq getKey t key fuel ((bucket + 1) AND (dt_capacity t - 1))
            | _ \<Rightarrow> None))"

definition dt_getBucket :: "('k \<Rightarrow> u64) \<Rightarrow> ('k \<Rightarrow> 'k \<Rightarrow> bool) \<Rightarrow> ('i \<Rightarrow> 'k) \<Rightarrow> 'i dense_table \<Rightarrow> 'k \<Rightarrow> (nat \<times> bool) option" where
  "dt_getBucket hasher eq getKey t key =
     (if \<not> dt_count t < dt_capacity t then None
      else dt_probe eq getKey t key (dt_capacity t) (dt_doHash hasher t key))"

definition dt_find :: "('k \<Rightarrow> u64) \<Rightarrow> ('k \<Rightarrow> 'k \<Rightarrow> bool) \<Rightarrow> ('i \<Rightarrow> 'k) \<Rightarrow> 'i dense_table \<Rightarrow> 'k \<Rightarrow> 'i option option" where
  "dt_find hasher eq getKey t key =
     (if dt_count t = 0 then Some None
      else (case dt_getBucket hasher eq getKey t key of
              None \<Rightarrow> None
            | Some (bucket, found) \<Rightarrow>
                if found then (case dt_data t ! bucket of Live item \<Rightarrow> Some (Some item) | _ \<Rightarrow> None)
                else Some None))"

definition dt_insert_unsafe ::
    "('k \<Rightarrow> u64) \<Rightarrow> ('k \<Rightarrow> 'k \<Rightarrow> bool) \<Rightarrow> ('i \<Rightarrow> 'k) \<Rightarrow> ('k \<Rightarrow> 'i) \<Rightarrow> 'i dense_table \<Rightarrow> 'k \<Rightarrow> (nat \<times> 'i dense_table) option" where
  "dt_insert_unsafe hasher eq getKey mk t key =
     (case dt_getBucket hasher eq getKey t key of
        None \<Rightarrow> None
      | Some (bucket, found) \<Rightarrow>
          if \<not> found
          then Some (bucket, t\<lparr>dt_used := bs_set (dt_used t) bucket True,
                               dt_data := (dt_data t)[bucket := Live (mk key)],
                               dt_count := dt_count t + 1\<rparr>)
          else Some (bucket, t))"

text \<open>The loop of \<open>grow\<close>: every occupied bucket of the old table moves into the new one.\<close>

fun dt_migrate ::
    "('k \<Rightarrow> u64) \<Rightarrow> ('k \<Rightarrow> 'k \<Rightarrow> bool) \<Rightarrow> ('i \<Rightarrow> 'k) \<Rightarrow> 'i cell list \<Rightarrow> nat list \<Rightarrow> 'i dense_table \<Rightarrow> 'i dense_table option" where
  "dt_migrate hasher eq getKey data [] newtable = Some newtable"
| "dt_migrate hasher eq getKey data (bucket # rest) newtable =
     (case data ! bucket of
        Live item \<Rightarrow>
          (case dt_getBucket hasher eq getKey newtable (getKey item) of
             None \<Rightarrow> None
           | Some (dest, found) \<Rightarrow>
               if found then None
               else dt_migrate hasher eq getKey data rest
                      (newtable\<lparr>dt_used := bs_set (dt_used newtable) dest True,
                                dt_data := (dt_data newtable)[dest := Live item],
                                dt_count := dt_count newtable + 1\<rparr>))
      | _ \<Rightarrow> None)"

definition dt_grow :: "('k \<Rightarrow> u64) \<Rightarrow> ('k \<Rightarrow> 'k \<Rightarrow> bool) \<Rightarrow> ('i \<Rightarrow> 'k) \<Rightarrow> 'i dense_table \<Rightarrow> 'i dense_table option" where
  "dt_grow hasher eq getKey t =
     (let newsize = (if dt_capacity t = 0 then 16 else dt_capacity t * 2)
      in case dt_migrate hasher eq getKey (dt_data t) (bs_buckets (dt_used t)) (dt_new newsize) of
           None \<Rightarrow> None
         | Some newtable \<Rightarrow>
             if dt_count t \<noteq> dt_count newtable then None
             else Some (t\<lparr>dt_data := dt_data newtable, dt_used := dt_used newtable,
                          dt_capacity := dt_capacity newtable, dt_hashShift := dt_hashShift newtable\<rparr>))"

definition dt_rehash_if_full :: "('k \<Rightarrow> u64) \<Rightarrow> ('k \<Rightarrow> 'k \<Rightarrow> bool) \<Rightarrow> ('i \<Rightarrow> 'k) \<Rightarrow> 'i dense_table \<Rightarrow> 'k \<Rightarrow> 'i dense_table option" where
  "dt_rehash_if_full hasher eq getKey t key =
     (if dt_count t \<ge> dt_capacity t * 3 div 4
      then (case dt_find hasher eq getKey t key of
              None \<Rightarrow> None
            | Some None \<Rightarrow> dt_grow hasher eq getKey t
            | Some (Some _) \<Rightarrow> Some t)
      else Some t)"

text \<open>
  \<open>doErase\<close>: the differences \<open>i - r\<close> and \<open>j - r\<close> are 64-bit subtractions that may wrap; the model
  adds \<open>2 ^ 64\<close> first. Moving an item out of cell \<open>j\<close> leaves a moved-from object there, and the
  object it is constructed over in cell \<open>i\<close> is not destroyed first. The last component of the
  result is the cell content the final destructor call sees.
\<close>

fun dt_eraseLoop ::
    "('k \<Rightarrow> u64) \<Rightarrow> ('i \<Rightarrow> 'k) \<Rightarrow> nat \<Rightarrow> nat \<Rightarrow> nat \<Rightarrow> 'i dense_table \<Rightarrow> (nat \<times> 'i dense_table) option" where
  "dt_eraseLoop hasher getKey 0 i j t = None"
| "dt_eraseLoop hasher getKey (Suc fuel) i j t =
     (let hashmod = dt_capacity t - 1; j' = (j + 1) AND hashmod
      in if \<not> bs_contains (dt_used t) j' then Some (i, t)
         else (case dt_data t ! j' of
                 Live item \<Rightarrow>
                   (let r = dt_doHash hasher t (getKey item);
                        left = (i + (2 ^ 64 - r)) AND hashmod;
                        right = (j' + (2 ^ 64 - r)) AND hashmod
                    in if left < right
                       then dt_eraseLoop hasher getKey fuel j' j'
                              (t\<lparr>dt_used := bs_set (bs_set (dt_used t) i True) j' False,
                                 dt_data := (dt_data t)[i := Live item, j' := MovedFrom]\<rparr>)
                       else dt_eraseLoop hasher getKey fuel i j' t)
               | _ \<Rightarrow> None))"

definition dt_doErase :: "('k \<Rightarrow> u64) \<Rightarrow> ('i \<Rightarrow> 'k) \<Rightarrow> 'i dense_table \<Rightarrow> nat \<Rightarrow> ('i dense_table \<times> 'i cell) option" where
  "dt_doErase hasher getKey t bucket =
     (case dt_eraseLoop hasher getKey (dt_capacity t) bucket bucket t of
        None \<Rightarrow> None
      | Some (i, t') \<Rightarrow> Some (t'\<lparr>dt_used := bs_set (dt_used t') i False, dt_data := (dt_data t')[i := Raw],
                                dt_count := dt_count t' - 1\<rparr>, dt_data t' ! i))"

definition dt_erase :: "('k \<Rightarrow> u64) \<Rightarrow> ('k \<Rightarrow> 'k \<Rightarrow> bool) \<Rightarrow> ('i \<Rightarrow> 'k) \<Rightarrow> 'i dense_table \<Rightarrow> 'k \<Rightarrow> 'i dense_table option" where
  "dt_erase hasher eq getKey t key =
     (if dt_count t = 0 then Some t
      else (case dt_getBucket hasher eq getKey t key of
              None \<Rightarrow> None
            | Some (bucket, found) \<Rightarrow> if found then map_option fst (dt_doErase hasher getKey t bucket) else Some t))"

definition dt_destroy :: "'i dense_table \<Rightarrow> 'i dense_table" where
  "dt_destroy t = t\<lparr>dt_data := [], dt_used := bs_new 0, dt_capacity := 0, dt_hashShift := 64\<rparr>"

definition dt_clear :: "nat \<Rightarrow> 'i dense_table \<Rightarrow> 'i dense_table" where
  "dt_clear thresholdToDestroy t =
     (if dt_count t = 0 then t
      else (if dt_capacity t > thresholdToDestroy then dt_destroy t
            else t\<lparr>dt_data := fold (\<lambda>b d. d[b := Raw]) (bs_buckets (dt_used t)) (dt_data t),
                   dt_used := bs_clear (dt_used t)\<rparr>)\<lparr>dt_count := 0\<rparr>)"

text \<open>The copy constructor: occupied cells are copied to the same positions of a new table.\<close>

definition dt_copy :: "'i dense_table \<Rightarrow> 'i dense_table" where
  "dt_copy other =
     (if dt_capacity other \<noteq> 0
      then \<lparr>dt_data = fold (\<lambda>b d. d[b := dt_data other ! b]) (bs_buckets (dt_used other)) (replicate (dt_capacity other) Raw),
            dt_used = fold (\<lambda>b u. bs_set u b True) (bs_buckets (dt_used other)) (bs_new (dt_capacity other)),
            dt_capacity = dt_capacity other, dt_count = dt_count other, dt_hashShift = dt_hashShift other\<rparr>
      else \<lparr>dt_data = [], dt_used = bs_new 0, dt_capacity = 0, dt_count = dt_count other,
            dt_hashShift = dt_hashShift other\<rparr>)"

text \<open>
  The move constructor hands the table over and empties the source (first component: the new
  table, second: what is left of the source); move assignment destroys the target's items
  first, and copy assignment copies and then moves.
\<close>

definition dt_move :: "'i dense_table \<Rightarrow> 'i dense_table \<times> 'i dense_table" where
  "dt_move other = (other, \<lparr>dt_data = [], dt_used = bs_new 0, dt_capacity = 0, dt_count = 0, dt_hashShift = 64\<rparr>)"

definition dt_move_assign :: "'i dense_table \<Rightarrow> 'i dense_table \<Rightarrow> 'i dense_table \<times> 'i dense_table" where
  "dt_move_assign self other =
     (let self' = (if dt_data self \<noteq> [] then dt_destroy self else self)
      in (self'\<lparr>dt_data := dt_data other, dt_used := dt_used other, dt_capacity := dt_capacity other,
                dt_count := dt_count other, dt_hashShift := dt_hashShift other\<rparr>,
          \<lparr>dt_data = [], dt_used = bs_new 0, dt_capacity = 0, dt_count = 0, dt_hashShift = 64\<rparr>))"

definition dt_assign :: "'i dense_table \<Rightarrow> 'i dense_table \<Rightarrow> 'i dense_table" where
  "dt_assign self other = fst (dt_move_assign self (dt_copy other))"

text \<open>Iteration over the items: \<open>begin\<close>, \<open>operator++\<close> and the range-\<open>for\<close> over them.\<close>

function dt_scan :: "'i dense_table \<Rightarrow> nat \<Rightarrow> nat" where
  "dt_scan t i = (if i < dt_capacity t \<and> \<not> bs_contains (dt_used t) i then dt_scan t (i + 1) else i)"
  by pat_completeness auto
termination by (relation "measure (\<lambda>(t, i). dt_capacity t - i)") auto

declare dt_scan.simps [simp del]

definition dt_begin :: "'i dense_table \<Rightarrow> nat" where
  "dt_begin t = dt_scan t 0"

definition dt_next :: "'i dense_table \<Rightarrow> nat \<Rightarrow> nat" where
  "dt_next t index = dt_scan t (index + 1)"

lemma dt_scan_ge: "i \<le> dt_scan t i"
  by (induction t i rule: dt_scan.induct) (subst dt_scan.simps, auto)

function dt_iterate :: "'i dense_table \<Rightarrow> nat \<Rightarrow> 'i cell list" where
  "dt_iterate t i = (if i < dt_capacity t then dt_data t ! i # dt_iterate t (dt_next t i) else [])"
  by pat_completeness auto
termination
proof (relation "measure (\<lambda>(t, i). dt_capacity t - i)", goal_cases)
  case (2 t i)
  then show ?case using dt_scan_ge [of "i + 1" t] by (simp add: dt_next_def)
qed simp

declare dt_iterate.simps [simp del]

section \<open>Clients: sets and maps\<close>

definition set_insert :: "('k \<Rightarrow> u64) \<Rightarrow> ('k \<Rightarrow> 'k \<Rightarrow> bool) \<Rightarrow> 'k dense_table \<Rightarrow> 'k \<Rightarrow> (nat \<times> 'k dense_table) option" where
  "set_insert hasher eq t key =
     Option.bind (dt_rehash_if_full hasher eq id t key) (\<lambda>t'. dt_insert_unsafe hasher eq id id t' key)"

definition set_try_insert :: "('k \<Rightarrow> u64) \<Rightarrow> ('k \<Rightarrow> 'k \<Rightarrow> bool) \<Rightarrow> 'k dense_table \<Rightarrow> 'k \<Rightarrow> (bool \<times> 'k dense_table) option" where
  "set_try_insert hasher eq t key =
     map_option (\<lambda>(b, t'). (dt_count t' \<noteq> dt_count t, t')) (set_insert hasher eq t key)"

definition set_contains :: "('k \<Rightarrow> u64) \<Rightarrow> ('k \<Rightarrow> 'k \<Rightarrow> bool) \<Rightarrow> 'k dense_table \<Rightarrow> 'k \<Rightarrow> bool option" where
  "set_contains hasher eq t key = map_option (\<lambda>r. r \<noteq> None) (dt_find hasher eq id t key)"

text \<open>\<open>operator==\<close> of the set: equal sizes, and every item of one is contained in the other.\<close>

fun set_all_contained :: "('k \<Rightarrow> u64) \<Rightarrow> ('k \<Rightarrow> 'k \<Rightarrow> bool) \<Rightarrow> 'k dense_table \<Rightarrow> 'k cell list \<Rightarrow> bool option" where
  "set_all_contained hasher eq other [] = Some True"
| "set_all_contained hasher eq other (Live k # rest) =
     (case set_contains hasher eq other k of
        None \<Rightarrow> None
      | Some b \<Rightarrow> if \<not> b then Some False else set_all_contained hasher eq other rest)"
| "set_all_contained hasher eq other (_ # rest) = None"

definition set_equal :: "('k \<Rightarrow> u64) \<Rightarrow> ('k \<Rightarrow> 'k \<Rightarrow> bool) \<Rightarrow> 'k dense_table \<Rightarrow> 'k dense_table \<Rightarrow> bool option" where
  "set_equal hasher eq t other =
     (if dt_count t \<noteq> dt_count other then Some False
      else set_all_contained hasher eq other (dt_iterate t (dt_begin t)))"

text \<open>\<open>operator[]\<close> of the map: the value slot of the key, fresh slots hold \<open>Value()\<close> (here \<open>dflt\<close>).\<close>

definition map_slot ::
    "('k \<Rightarrow> u64) \<Rightarrow> ('k \<Rightarrow> 'k \<Rightarrow> bool) \<Rightarrow> 'v \<Rightarrow> ('k \<times> 'v) dense_table \<Rightarrow> 'k \<Rightarrow> (nat \<times> ('k \<times> 'v) dense_table) option" where
  "map_slot hasher eq dflt t key =
     Option.bind (dt_rehash_if_full hasher eq fst t key) (\<lambda>t'. dt_insert_unsafe hasher eq fst (\<lambda>k. (k, dflt)) t' key)"

text \<open>Assigning through the reference \<open>operator[]\<close> returns: \<open>m[key] = v\<close>.\<close>

definition map_store :: "nat \<Rightarrow> 'v \<Rightarrow> ('k \<times> 'v) dense_table \<Rightarrow> ('k \<times> 'v) dense_table" where
  "map_store slot v t = (case dt_data t ! slot of
     Live (k, _) \<Rightarrow> t\<lparr>dt_data := (dt_data t)[slot := Live (k, v)]\<rparr> | _ \<Rightarrow> t)"

definition map_assign ::
    "('k \<Rightarrow> u64) \<Rightarrow> ('k \<Rightarrow> 'k \<Rightarrow> bool) \<Rightarrow> 'v \<Rightarrow> ('k \<times> 'v) dense_table \<Rightarrow> 'k \<Rightarrow> 'v \<Rightarrow> ('k \<times> 'v) dense_table option" where
  "map_assign hasher eq dflt t key v = map_option (\<lambda>(slot, t'). map_store slot v t') (map_slot hasher eq dflt t key)"

definition map_find :: "('k \<Rightarrow> u64) \<Rightarrow> ('k \<Rightarrow> 'k \<Rightarrow> bool) \<Rightarrow> ('k \<times> 'v) dense_table \<Rightarrow> 'k \<Rightarrow> 'v option option" where
  "map_find hasher eq t key = map_option (map_option snd) (dt_find hasher eq fst t key)"

definition map_try_insert ::
    "('k \<Rightarrow> u64) \<Rightarrow> ('k \<Rightarrow> 'k \<Rightarrow> bool) \<Rightarrow> 'v \<Rightarrow> ('k \<times> 'v) dense_table \<Rightarrow> 'k \<Rightarrow> 'v \<Rightarrow> (bool \<times> ('k \<times> 'v) dense_table) option" where
  "map_try_insert hasher eq dflt t key v =
     Option.bind (dt_rehash_if_full hasher eq fst t key) (\<lambda>t'.
       map_option (\<lambda>(slot, t''). let fresh = dt_count t'' > dt_count t'
                                 in (fresh, if fresh then map_store slot v t'' else t''))
         (dt_insert_unsafe hasher eq fst (\<lambda>k. (k, dflt)) t' key))"


section \<open>Invariant\<close>

definition dt_item :: "'i dense_table \<Rightarrow> nat \<Rightarrow> 'i option" where
  "dt_item t p = (if p < dt_capacity t \<and> bs_contains (dt_used t) p
     then (case dt_data t ! p of Live x \<Rightarrow> Some x | _ \<Rightarrow> None) else None)"

definition dt_items :: "'i dense_table \<Rightarrow> 'i set" where
  "dt_items t = {x. \<exists>p. dt_item t p = Some x}"

definition dt_home :: "nat \<Rightarrow> ('k \<Rightarrow> u64) \<Rightarrow> ('i \<Rightarrow> 'k) \<Rightarrow> 'i \<Rightarrow> nat" where
  "dt_home k hasher getKey x = unat (drop_bit (64 - k) (hasher (getKey x) * 11400714819323198485))"

lemma hash_bound: "unat (drop_bit (64 - k) (w :: u64)) < 2 ^ k"
proof -
  have w: "unat w < 2 ^ 64" using unsigned_less [of w] by simp
  have "unat (drop_bit (64 - k) w) = unat w div 2 ^ (64 - k)"
    by (metis unat_drop_bit_eq drop_bit_eq_div)
  also have "\<dots> < 2 ^ k"
  proof (cases "k \<le> 64")
    case True
    then have "(2::nat) ^ 64 = 2 ^ k * 2 ^ (64 - k)" by (simp flip: power_add)
    then show ?thesis using w by (simp add: less_mult_imp_div_less)
  next
    case False
    then have "(2::nat) ^ 64 \<le> 2 ^ k" by (intro power_increasing) auto
    then show ?thesis using w False by simp
  qed
  finally show ?thesis .
qed

interpretation pb: probing "2 ^ k" "dt_home k hasher getKey" for k hasher getKey
  by unfold_locales (simp add: dt_home_def hash_bound)

abbreviation dt_placed :: "nat \<Rightarrow> ('k \<Rightarrow> u64) \<Rightarrow> ('i \<Rightarrow> 'k) \<Rightarrow> (nat \<Rightarrow> 'i option) \<Rightarrow> bool" where
  "dt_placed k hasher getKey \<equiv> probing.placed (2 ^ k) (dt_home k hasher getKey)"

text \<open>The shape of a table of \<open>2 ^ k\<close> cells: bitset, cells and the number of members agree.\<close>

definition dt_wf :: "nat \<Rightarrow> 'i dense_table \<Rightarrow> bool" where
  "dt_wf k t \<longleftrightarrow> k < 64 \<and> dt_capacity t = 2 ^ k \<and> dt_hashShift t = 64 - k \<and> bs_inv (dt_used t) \<and>
     bs_capacity (dt_used t) = 2 ^ k \<and> length (dt_data t) = 2 ^ k \<and>
     bs_members (dt_used t) \<subseteq> {..<2 ^ k} \<and>
     (\<forall>p < 2 ^ k. if bs_contains (dt_used t) p then (\<exists>x. dt_data t ! p = Live x) else dt_data t ! p = Raw)"

definition distinct_keys :: "('k \<Rightarrow> 'k \<Rightarrow> bool) \<Rightarrow> ('i \<Rightarrow> 'k) \<Rightarrow> (nat \<Rightarrow> 'i option) \<Rightarrow> bool" where
  "distinct_keys eq getKey m \<longleftrightarrow> (\<forall>p q x y. m p = Some x \<and> m q = Some y \<and> eq (getKey x) (getKey y) \<longrightarrow> p = q)"

definition dt_inv :: "('k \<Rightarrow> u64) \<Rightarrow> ('k \<Rightarrow> 'k \<Rightarrow> bool) \<Rightarrow> ('i \<Rightarrow> 'k) \<Rightarrow> 'i dense_table \<Rightarrow> bool" where
  "dt_inv hasher eq getKey t \<longleftrightarrow>
     (dt_capacity t = 0 \<and> dt_count t = 0 \<and> dt_data t = [] \<and> dt_used t = bs_new 0 \<and> dt_hashShift t = 64) \<or>
     (\<exists>k. dt_wf k t \<and> dt_placed k hasher getKey (dt_item t) \<and> distinct_keys eq getKey (dt_item t) \<and>
        dt_count t = card (bs_members (dt_used t)) \<and> dt_count t \<le> dt_capacity t * 3 div 4)"

lemma dt_wf_bit:
  assumes "dt_wf k t" "p < 2 ^ k"
  shows "p < 64 * bs_count (dt_used t)" "bs_contains (dt_used t) p \<longleftrightarrow> dt_item t p \<noteq> None"
    "dt_item t p = Some x \<Longrightarrow> dt_data t ! p = Live x" "dt_item t p = None \<Longrightarrow> dt_data t ! p = Raw"
proof -
  show b: "p < 64 * bs_count (dt_used t)" using assms by (auto simp: dt_wf_def bs_inv_def)
  show "bs_contains (dt_used t) p \<longleftrightarrow> dt_item t p \<noteq> None"
    "dt_item t p = Some x \<Longrightarrow> dt_data t ! p = Live x" "dt_item t p = None \<Longrightarrow> dt_data t ! p = Raw"
    using assms by (auto simp: dt_wf_def dt_item_def split: cell.splits if_splits)
qed

lemma dt_item_range: "dt_wf k t \<Longrightarrow> dt_item t p = Some x \<Longrightarrow> p < 2 ^ k"
  by (auto simp: dt_item_def dt_wf_def split: if_splits)

lemma dt_members_item:
  assumes "dt_wf k t"
  shows "bs_members (dt_used t) = {p. dt_item t p \<noteq> None}"
proof -
  have "p \<in> bs_members (dt_used t) \<longleftrightarrow> dt_item t p \<noteq> None" for p
  proof (cases "p < 2 ^ k")
    case True
    then show ?thesis using dt_wf_bit(1,2) [OF assms True] by (simp add: bs_members_def)
  next
    case False
    then have "p \<notin> bs_members (dt_used t)" using assms by (auto simp: dt_wf_def)
    then show ?thesis using False dt_item_range [OF assms] by fastforce
  qed
  then show ?thesis by blast
qed

text \<open>Storing an item in a cell.\<close>

lemma dt_put:
  fixes t :: "'i dense_table" and x :: 'i and n :: nat
  assumes "dt_wf k t" "b < 2 ^ k"
  defines "t' \<equiv> t\<lparr>dt_used := bs_set (dt_used t) b True, dt_data := (dt_data t)[b := Live x], dt_count := n\<rparr>"
  shows "dt_wf k t'" "dt_item t' = (dt_item t)(b \<mapsto> x)" "bs_members (dt_used t') = insert b (bs_members (dt_used t))"
proof -
  have I: "bs_inv (dt_used t)" "length (dt_data t) = 2 ^ k" "dt_capacity t = 2 ^ k" using assms(1) by (auto simp: dt_wf_def)
  have bc: "p < 64 * bs_count (dt_used t)" if "p < 2 ^ k" for p using dt_wf_bit(1) [OF assms(1) that] .
  have c: "bs_contains (dt_used t') p \<longleftrightarrow> p = b \<or> bs_contains (dt_used t) p" if "p < 64 * bs_count (dt_used t)" for p
    using bs_set_contains [OF I(1) that bc [OF assms(2)]] by (simp add: t'_def)
  show m: "bs_members (dt_used t') = insert b (bs_members (dt_used t))"
    using c bc [OF assms(2)] by (auto simp: bs_members_def t'_def)
  have "if bs_contains (dt_used t') p then \<exists>y. dt_data t' ! p = Live y else dt_data t' ! p = Raw" if "p < 2 ^ k" for p
    using c [OF bc [OF that]] dt_wf_bit [OF assms(1) that] that I(2) by (cases "p = b"; cases "dt_item t p") (auto simp: t'_def)
  then show "dt_wf k t'" using assms(1,2) m by (simp add: dt_wf_def) (simp add: t'_def)
  show "dt_item t' = (dt_item t)(b \<mapsto> x)"
    using c bc assms(2) I by (auto simp: fun_eq_iff dt_item_def t'_def nth_list_update)
qed


section \<open>Lookup\<close>

text \<open>What the table relies on of its template arguments: an equality compatible with the hash.\<close>

locale hash_key =
  fixes hasher :: "'k \<Rightarrow> u64" and eq :: "'k \<Rightarrow> 'k \<Rightarrow> bool"
  assumes eq_refl: "eq a a"
    and eq_sym: "eq a b \<Longrightarrow> eq b a"
    and eq_trans: "eq a b \<Longrightarrow> eq b d \<Longrightarrow> eq a d"
    and eq_hash: "eq a b \<Longrightarrow> hasher a = hasher b"
begin

lemma probe_spec:
  assumes wf: "dt_wf k t" and f: "f < 2 ^ k" "dt_item t f = None"
  shows "b < 2 ^ k \<Longrightarrow> cdist (2 ^ k) b f < fuel \<Longrightarrow>
    \<exists>b' found. dt_probe eq getKey t key fuel b = Some (b', found) \<and> b' < 2 ^ k \<and>
      (\<forall>q < 2 ^ k. cdist (2 ^ k) b q < cdist (2 ^ k) b b' \<longrightarrow> (\<exists>x. dt_item t q = Some x \<and> \<not> eq (getKey x) key)) \<and>
      (if found then \<exists>x. dt_item t b' = Some x \<and> eq (getKey x) key else dt_item t b' = None)"
proof (induction fuel arbitrary: b)
  case 0
  then show ?case by simp
next
  case (Suc fuel)
  let ?c = "2 ^ k :: nat" and ?b = "Suc b mod 2 ^ k"
  note bit = dt_wf_bit [OF wf Suc.prems(1)]
  have cap: "dt_capacity t = ?c" using wf by (simp add: dt_wf_def)
  show ?case
  proof (cases "dt_item t b")
    case None
    then show ?thesis using bit Suc.prems(1) by (intro exI [of _ b] exI [of _ False]) (simp add: cdist_def)
  next
    case (Some x)
    show ?thesis
    proof (cases "eq (getKey x) key")
      case True
      then show ?thesis using Some bit Suc.prems(1) by (intro exI [of _ b] exI [of _ True]) (simp add: cdist_def)
    next
      case False
      have bf: "b \<noteq> f" using Some f by auto
      have lt: "?b < ?c" by simp
      have "cdist ?c ?b f < fuel"
        using cdist_back [OF Suc.prems(1) f(1) bf] Suc.prems(2) cdist_0 [OF Suc.prems(1) f(1)] bf by simp
      from Suc.IH [OF lt this] obtain b' found where
        r: "dt_probe eq getKey t key fuel ?b = Some (b', found)" "b' < ?c"
          "if found then \<exists>x. dt_item t b' = Some x \<and> eq (getKey x) key else dt_item t b' = None"
        and path: "\<And>q. q < ?c \<Longrightarrow> cdist ?c ?b q < cdist ?c ?b b' \<Longrightarrow> \<exists>x. dt_item t q = Some x \<and> \<not> eq (getKey x) key"
        by blast
      have "dt_probe eq getKey t key (Suc fuel) b = Some (b', found)"
        using Some False bit r(1) cap and_mask_mod [of "Suc b" k] by simp
      moreover have "\<exists>x. dt_item t q = Some x \<and> \<not> eq (getKey x) key"
        if q: "q < ?c" "cdist ?c b q < cdist ?c b b'" for q
      proof (cases "q = b")
        case True
        then show ?thesis using Some False by blast
      next
        case neq: False
        have "b \<noteq> b'" using q by auto
        then have "cdist ?c ?b q < cdist ?c ?b b'"
          using cdist_back [OF Suc.prems(1) q(1)] cdist_back [OF Suc.prems(1) r(2)] q cdist_0 [OF Suc.prems(1) q(1)] neq by auto
        then show ?thesis using path q by blast
      qed
      ultimately show ?thesis using r by blast
    qed
  qed
qed

lemma free_cell:
  assumes "dt_wf k t" "card (bs_members (dt_used t)) < 2 ^ k"
  obtains f where "f < 2 ^ k" "dt_item t f = None"
proof -
  have "\<not> {..<2 ^ k} \<subseteq> bs_members (dt_used t)"
  proof
    assume "{..<2 ^ k} \<subseteq> bs_members (dt_used t)"
    moreover have "finite (bs_members (dt_used t))" by (simp add: bs_members_def)
    ultimately have "card {..<2 ^ k :: nat} \<le> card (bs_members (dt_used t))" by (intro card_mono)
    then show False using assms(2) by simp
  qed
  then show ?thesis using that dt_members_item [OF assms(1)] by auto
qed

lemma doHash_home: "dt_wf k t \<Longrightarrow> eq (getKey x) key \<Longrightarrow> dt_doHash hasher t key = dt_home k hasher getKey x"
  using eq_hash [of "getKey x" key] by (simp add: dt_doHash_def dt_home_def dt_wf_def)

lemma doHash_less: "dt_wf k t \<Longrightarrow> dt_doHash hasher t key < 2 ^ k"
  using hash_bound [of k] by (simp add: dt_doHash_def dt_wf_def)

lemma getBucket_spec:
  assumes wf: "dt_wf k t" and pl: "dt_placed k hasher getKey (dt_item t)"
    and n: "dt_count t = card (bs_members (dt_used t))" "dt_count t < 2 ^ k"
  obtains b found where "dt_getBucket hasher eq getKey t key = Some (b, found)" "b < 2 ^ k"
    "found \<Longrightarrow> \<exists>x. dt_item t b = Some x \<and> eq (getKey x) key"
    "\<not> found \<Longrightarrow> dt_item t b = None \<and> (\<forall>x \<in> dt_items t. \<not> eq (getKey x) key) \<and>
       (\<forall>q < 2 ^ k. cdist (2 ^ k) (dt_doHash hasher t key) q < cdist (2 ^ k) (dt_doHash hasher t key) b \<longrightarrow> dt_item t q \<noteq> None)"
proof -
  let ?c = "2 ^ k :: nat" and ?h = "dt_doHash hasher t key"
  have h: "?h < ?c" by (rule doHash_less [OF wf])
  have cap: "dt_capacity t = ?c" using wf by (simp add: dt_wf_def)
  obtain f where f: "f < ?c" "dt_item t f = None" using free_cell [OF wf] n by auto
  from probe_spec [OF wf f h cdist_less [OF h f(1)], of getKey key] obtain b found where
    r: "dt_probe eq getKey t key ?c ?h = Some (b, found)" "b < ?c"
      "if found then \<exists>x. dt_item t b = Some x \<and> eq (getKey x) key else dt_item t b = None"
    and path: "\<And>q. q < ?c \<Longrightarrow> cdist ?c ?h q < cdist ?c ?h b \<Longrightarrow> \<exists>x. dt_item t q = Some x \<and> \<not> eq (getKey x) key"
    by blast
  have absent: "\<not> eq (getKey x) key" if nf: "\<not> found" and x: "x \<in> dt_items t" for x
  proof
    assume e: "eq (getKey x) key"
    obtain p where p: "dt_item t p = Some x" using x by (auto simp: dt_items_def)
    have pc: "p < ?c" by (rule dt_item_range [OF wf p])
    have hx: "dt_home k hasher getKey x = ?h" using doHash_home [where getKey = getKey, OF wf e] by simp
    have bn: "dt_item t b = None" using r(3) nf by simp
    then have "\<not> cdist ?c ?h b < cdist ?c ?h p" using pb.placedD [OF pl pc p r(2)] hx by auto
    moreover have "b \<noteq> p" using p bn by auto
    ultimately have "cdist ?c ?h p < cdist ?c ?h b" using cdist_inj [OF h r(2) pc] by linarith
    then show False using path [OF pc] p e by auto
  qed
  show ?thesis
  proof (rule that [of b found])
    show "dt_getBucket hasher eq getKey t key = Some (b, found)" using r(1) n(2) cap by (simp add: dt_getBucket_def)
  qed (use r absent path in auto)
qed


section \<open>Insertion and growth\<close>

text \<open>A table in use: the part of the invariant that holds while a larger table is being filled too.\<close>

definition dt_part :: "nat \<Rightarrow> ('i \<Rightarrow> 'k) \<Rightarrow> 'i dense_table \<Rightarrow> bool" where
  "dt_part k getKey t \<longleftrightarrow> dt_wf k t \<and> dt_placed k hasher getKey (dt_item t) \<and>
     distinct_keys eq getKey (dt_item t) \<and> dt_count t = card (bs_members (dt_used t))"

lemma part_put:
  assumes "dt_part k getKey t" "b < 2 ^ k" "dt_item t b = None" "\<forall>y \<in> dt_items t. \<not> eq (getKey y) (getKey x)"
    "\<forall>q < 2 ^ k. cdist (2 ^ k) (dt_home k hasher getKey x) q < cdist (2 ^ k) (dt_home k hasher getKey x) b \<longrightarrow> dt_item t q \<noteq> None"
  defines "t' \<equiv> t\<lparr>dt_used := bs_set (dt_used t) b True, dt_data := (dt_data t)[b := Live x], dt_count := dt_count t + 1\<rparr>"
  shows "dt_part k getKey t'" "dt_items t' = insert x (dt_items t)"
proof -
  have wf: "dt_wf k t" and pl: "dt_placed k hasher getKey (dt_item t)" and d: "distinct_keys eq getKey (dt_item t)"
    and n: "dt_count t = card (bs_members (dt_used t))" using assms(1) by (auto simp: dt_part_def)
  note P = dt_put [OF wf assms(2), where x = x and n = "dt_count t + 1", folded t'_def]
  have pl': "dt_placed k hasher getKey (dt_item t')"
    unfolding P(2) using pl assms(2,5) by (intro pb.placed_insert) auto
  have nx: "\<not> eq (getKey y) (getKey x)" "\<not> eq (getKey x) (getKey y)" if "dt_item t p = Some y" for p y
    using assms(4) that eq_sym by (auto simp: dt_items_def)
  have d': "distinct_keys eq getKey (dt_item t')"
    unfolding P(2) distinct_keys_def using d nx by (auto simp: distinct_keys_def)
  have "b \<notin> bs_members (dt_used t)" using assms(3) dt_members_item [OF wf] by auto
  moreover have "finite (bs_members (dt_used t))" by (simp add: bs_members_def)
  ultimately have "dt_count t' = card (bs_members (dt_used t'))" using P(3) n by (simp add: t'_def)
  then show "dt_part k getKey t'" using P(1) pl' d' by (simp add: dt_part_def)
  show "dt_items t' = insert x (dt_items t)" unfolding dt_items_def P(2) using assms(3) by (auto split: if_splits) (metis option.distinct(1))
qed

lemma part_new:
  fixes getKey :: "'i \<Rightarrow> 'k"
  assumes "k < 64"
  shows "dt_part k getKey (dt_new (2 ^ k))" "dt_items (dt_new (2 ^ k) :: 'i dense_table) = {}"
    "dt_count (dt_new (2 ^ k) :: 'i dense_table) = 0" "dt_capacity (dt_new (2 ^ k) :: 'i dense_table) = 2 ^ k"
proof -
  let ?t = "dt_new (2 ^ k) :: 'i dense_table"
  have ctz: "countTrailingZeroes (of_nat (2 ^ k)) = k"
  proof -
    have "bit (2 ^ k :: u64) j \<longleftrightarrow> j = k" for j using assms by (auto simp: bit_exp_iff)
    then show ?thesis using ctz_loop_spec [of "2 ^ k" k 64 0] assms by (simp add: countTrailingZeroes_def)
  qed
  have m: "bs_members (bs_new (2 ^ k)) = {}" using bs_new_inv(2) by (auto simp: bs_members_def)
  have c: "bs_capacity (bs_new (2 ^ k)) = 2 ^ k" by (simp add: bs_new_def Let_def)
  have nc: "\<not> bs_contains (bs_new (2 ^ k)) p" if "p < 2 ^ k" for p
    using bs_new_inv(2) [of p k] bs_new_inv(1) [of k] that c by (auto simp: bs_inv_def)
  have wf: "dt_wf k ?t" using assms bs_new_inv(1) [of k] ctz m c nc by (simp add: dt_wf_def dt_new_def)
  have it: "dt_item ?t = (\<lambda>_. None)" using nc by (auto simp: fun_eq_iff dt_item_def dt_new_def)
  show "dt_part k getKey ?t" using wf it m pb.placed_empty by (simp add: dt_part_def distinct_keys_def dt_new_def)
  show "dt_items ?t = {}" using it by (simp add: dt_items_def)
  show "dt_count ?t = 0" "dt_capacity ?t = 2 ^ k" by (simp_all add: dt_new_def)
qed

lemma part_getBucket:
  assumes "dt_part k getKey t" "dt_count t < 2 ^ k"
  obtains b found where "dt_getBucket hasher eq getKey t key = Some (b, found)" "b < 2 ^ k"
    "found \<Longrightarrow> \<exists>x. dt_item t b = Some x \<and> eq (getKey x) key"
    "\<not> found \<Longrightarrow> dt_item t b = None \<and> (\<forall>x \<in> dt_items t. \<not> eq (getKey x) key) \<and>
       (\<forall>q < 2 ^ k. cdist (2 ^ k) (dt_doHash hasher t key) q < cdist (2 ^ k) (dt_doHash hasher t key) b \<longrightarrow> dt_item t q \<noteq> None)"
  using assms getBucket_spec [of k t getKey key] unfolding dt_part_def by blast

lemma migrate_spec:
  assumes "dt_part k getKey nt" "dt_count nt + length bs < 2 ^ k"
    "\<And>b. b \<in> set bs \<Longrightarrow> \<exists>x. data ! b = Live x \<and> (\<forall>y \<in> dt_items nt. \<not> eq (getKey y) (getKey x))"
    "distinct bs"
    "\<And>b b' x y. b \<in> set bs \<Longrightarrow> b' \<in> set bs \<Longrightarrow> data ! b = Live x \<Longrightarrow> data ! b' = Live y \<Longrightarrow> eq (getKey x) (getKey y) \<Longrightarrow> b = b'"
  shows "\<exists>nt'. dt_migrate hasher eq getKey data bs nt = Some nt' \<and> dt_part k getKey nt' \<and>
    dt_items nt' = dt_items nt \<union> {x. \<exists>b \<in> set bs. data ! b = Live x} \<and> dt_count nt' = dt_count nt + length bs"
  using assms
proof (induction bs arbitrary: nt)
  case Nil
  then show ?case by simp
next
  case (Cons b bs)
  obtain x where x: "data ! b = Live x" "\<forall>y \<in> dt_items nt. \<not> eq (getKey y) (getKey x)" using Cons.prems(3) [of b] by auto
  obtain d found where g: "dt_getBucket hasher eq getKey nt (getKey x) = Some (d, found)" "d < 2 ^ k"
    "found \<Longrightarrow> \<exists>y. dt_item nt d = Some y \<and> eq (getKey y) (getKey x)"
    "\<not> found \<Longrightarrow> dt_item nt d = None \<and> (\<forall>y \<in> dt_items nt. \<not> eq (getKey y) (getKey x)) \<and>
       (\<forall>q < 2 ^ k. cdist (2 ^ k) (dt_doHash hasher nt (getKey x)) q < cdist (2 ^ k) (dt_doHash hasher nt (getKey x)) d \<longrightarrow> dt_item nt q \<noteq> None)"
    using part_getBucket [OF Cons.prems(1), of "getKey x"] Cons.prems(2) by (metis add_lessD1)
  have nf: "\<not> found" using g(3) x(2) by (auto simp: dt_items_def)
  define nt1 where "nt1 = nt\<lparr>dt_used := bs_set (dt_used nt) d True, dt_data := (dt_data nt)[d := Live x], dt_count := dt_count nt + 1\<rparr>"
  have hx: "dt_doHash hasher nt (getKey x) = dt_home k hasher getKey x"
    using doHash_home [of k nt getKey x "getKey x"] Cons.prems(1) eq_refl by (simp add: dt_part_def)
  note p = part_put [OF Cons.prems(1) g(2), of x, folded nt1_def]
  have p1: "dt_part k getKey nt1" "dt_items nt1 = insert x (dt_items nt)" using p g(4) nf x(2) hx by auto
  have "\<exists>nt'. dt_migrate hasher eq getKey data bs nt1 = Some nt' \<and> dt_part k getKey nt' \<and>
    dt_items nt' = dt_items nt1 \<union> {x. \<exists>b \<in> set bs. data ! b = Live x} \<and> dt_count nt' = dt_count nt1 + length bs"
  proof (rule Cons.IH [OF p1(1)])
    show "dt_count nt1 + length bs < 2 ^ k" using Cons.prems(2) by (simp add: nt1_def)
    show "\<exists>y. data ! b' = Live y \<and> (\<forall>z \<in> dt_items nt1. \<not> eq (getKey z) (getKey y))" if "b' \<in> set bs" for b'
      using Cons.prems(3) [of b'] Cons.prems(5) [of b b' x] Cons.prems(4) that x p1(2) by fastforce
  qed (use Cons.prems in auto)
  then obtain nt' where r: "dt_migrate hasher eq getKey data bs nt1 = Some nt'" "dt_part k getKey nt'"
    "dt_items nt' = dt_items nt1 \<union> {x. \<exists>b \<in> set bs. data ! b = Live x}" "dt_count nt' = dt_count nt1 + length bs" by blast
  have "dt_migrate hasher eq getKey data (b # bs) nt = Some nt'" using r(1) x(1) g(1) nf by (simp add: nt1_def)
  moreover have "dt_items nt' = dt_items nt \<union> {y. \<exists>b' \<in> set (b # bs). data ! b' = Live y}"
    using r(3) p1(2) x(1) by auto
  moreover have "dt_count nt' = dt_count nt + length (b # bs)" using r(4) by (simp add: nt1_def)
  ultimately show ?case using r(2) by blast
qed


lemma inv_cases:
  assumes "dt_inv hasher eq getKey t"
  obtains (zero) "dt_capacity t = 0" "dt_count t = 0" "dt_items t = {}" "dt_data t = []" "dt_used t = bs_new 0" "dt_hashShift t = 64"
    | (part) k where "dt_part k getKey t" "dt_capacity t = 2 ^ k" "dt_count t \<le> 2 ^ k * 3 div 4" "dt_count t < 2 ^ k" "k < 64"
proof -
  from assms consider (a) "dt_capacity t = 0" "dt_count t = 0" "dt_data t = []" "dt_used t = bs_new 0" "dt_hashShift t = 64"
    | (b) k where "dt_part k getKey t" "dt_count t \<le> dt_capacity t * 3 div 4"
    unfolding dt_inv_def dt_part_def by auto
  then show ?thesis
  proof cases
    case a
    then show ?thesis using zero by (simp add: dt_items_def dt_item_def)
  next
    case b
    then have c: "dt_capacity t = 2 ^ k" "k < 64" by (auto simp: dt_part_def dt_wf_def)
    have "(2::nat) ^ k * 3 div 4 < 2 ^ k" using zero_less_power [of "2::nat" k] by linarith
    then show ?thesis using part [of k] b c by simp
  qed
qed

lemma inv_part: "dt_part k getKey t \<Longrightarrow> dt_count t \<le> 2 ^ k * 3 div 4 \<Longrightarrow> dt_inv hasher eq getKey t"
  unfolding dt_inv_def dt_part_def by (auto simp: dt_wf_def)

lemma find_spec:
  assumes "dt_inv hasher eq getKey t"
  obtains (hit) x where "x \<in> dt_items t" "eq (getKey x) key" "dt_find hasher eq getKey t key = Some (Some x)"
    | (miss) "\<forall>x \<in> dt_items t. \<not> eq (getKey x) key" "dt_find hasher eq getKey t key = Some None"
  using assms
proof (cases rule: inv_cases)
  case zero
  then show ?thesis using miss by (simp add: dt_find_def)
next
  case (part k)
  obtain b found where g: "dt_getBucket hasher eq getKey t key = Some (b, found)" "b < 2 ^ k"
    "found \<Longrightarrow> \<exists>x. dt_item t b = Some x \<and> eq (getKey x) key" "\<not> found \<Longrightarrow> \<forall>x \<in> dt_items t. \<not> eq (getKey x) key"
    using part_getBucket [OF part(1,4), of key] by metis
  have wf: "dt_wf k t" using part(1) by (simp add: dt_part_def)
  show ?thesis
  proof (cases "dt_count t = 0")
    case True
    then have "bs_members (dt_used t) = {}" using part(1) by (simp add: dt_part_def bs_members_def)
    then have "dt_items t = {}" using dt_members_item [OF wf] by (auto simp: dt_items_def)
    then show ?thesis using miss True by (simp add: dt_find_def)
  next
    case n: False
    show ?thesis
    proof (cases found)
      case True
      then obtain x where x: "dt_item t b = Some x" "eq (getKey x) key" using g(3) by blast
      then have "dt_data t ! b = Live x" using dt_wf_bit(3) [OF wf g(2)] by simp
      then show ?thesis using hit [of x] x True g(1) n by (auto simp: dt_find_def dt_items_def)
    next
      case False
      then show ?thesis using miss g(1,4) n by (simp add: dt_find_def)
    qed
  qed
qed

lemma items_unique:
  assumes "dt_inv hasher eq getKey t" "x \<in> dt_items t" "y \<in> dt_items t" "eq (getKey x) (getKey y)"
  shows "x = y"
  using assms(1)
proof (cases rule: inv_cases)
  case zero
  then show ?thesis using assms by simp
next
  case (part k)
  then show ?thesis using assms unfolding dt_part_def distinct_keys_def dt_items_def
    by (smt (verit, ccfv_threshold) mem_Collect_eq option.inject)
qed

lemma find_iff:
  assumes "dt_inv hasher eq getKey t"
  shows "dt_find hasher eq getKey t key = Some (Some x) \<longleftrightarrow> x \<in> dt_items t \<and> eq (getKey x) key"
    and "dt_find hasher eq getKey t key = Some None \<longleftrightarrow> (\<forall>x \<in> dt_items t. \<not> eq (getKey x) key)"
proof -
  show "dt_find hasher eq getKey t key = Some (Some x) \<longleftrightarrow> x \<in> dt_items t \<and> eq (getKey x) key"
    using assms
  proof (cases rule: find_spec [of getKey t key])
    case (hit y)
    then have "x = y" if "x \<in> dt_items t" "eq (getKey x) key"
      using items_unique [OF assms that(1) hit(1)] eq_trans [OF that(2) eq_sym [OF hit(2)]] by simp
    then show ?thesis using hit by auto
  next
    case miss
    then show ?thesis by auto
  qed
  show "dt_find hasher eq getKey t key = Some None \<longleftrightarrow> (\<forall>x \<in> dt_items t. \<not> eq (getKey x) key)"
    using assms by (cases rule: find_spec [of getKey t key]) auto
qed

text \<open>Two tables whose contents differ by one item answer every lookup alike elsewhere.\<close>

lemma find_cong:
  assumes "dt_inv hasher eq getKey t" "dt_inv hasher eq getKey t'"
    "\<And>x. eq (getKey x) key \<Longrightarrow> x \<in> dt_items t' \<longleftrightarrow> x \<in> dt_items t"
  shows "dt_find hasher eq getKey t' key = dt_find hasher eq getKey t key"
  using assms(1)
proof (cases rule: find_spec [of getKey t key])
  case (hit x)
  then have "dt_find hasher eq getKey t' key = Some (Some x)" using find_iff(1) [OF assms(2)] assms(3) by simp
  then show ?thesis using hit by simp
next
  case miss
  then have "dt_find hasher eq getKey t' key = Some None" using find_iff(2) [OF assms(2)] assms(3) by blast
  then show ?thesis using miss by simp
qed

lemma grow_spec:
  assumes "dt_inv hasher eq getKey t" "dt_capacity t < 2 ^ 63"
  obtains t' k where "dt_grow hasher eq getKey t = Some t'" "dt_part k getKey t'" "dt_items t' = dt_items t"
    "dt_count t' = dt_count t" "dt_capacity t' = 2 ^ k" "dt_count t' < 2 ^ k * 3 div 4"
    "dt_capacity t' = (if dt_capacity t = 0 then 16 else 2 * dt_capacity t)"
  using assms(1)
proof (cases rule: inv_cases)
  case zero
  have b: "bs_buckets (bs_new 0) = []" using bs_buckets_spec(1) [of "bs_new 0"] bs_new_0 by (simp add: bs_members_def)
  have n: "dt_part 4 getKey (dt_new 16)" "dt_items (dt_new 16 :: 'a dense_table) = {}"
    "dt_count (dt_new 16 :: 'a dense_table) = 0" "dt_capacity (dt_new 16 :: 'a dense_table) = 16"
    using part_new(1) [of 4 getKey] part_new(2-) [of 4, where 'i = 'a] by simp_all
  have "dt_grow hasher eq getKey t = Some (t\<lparr>dt_data := dt_data (dt_new 16), dt_used := dt_used (dt_new 16 :: 'a dense_table),
      dt_capacity := dt_capacity (dt_new 16 :: 'a dense_table), dt_hashShift := dt_hashShift (dt_new 16 :: 'a dense_table)\<rparr>)"
    using zero b n by (simp add: dt_grow_def)
  moreover have "t\<lparr>dt_data := dt_data (dt_new 16), dt_used := dt_used (dt_new 16 :: 'a dense_table),
      dt_capacity := dt_capacity (dt_new 16 :: 'a dense_table), dt_hashShift := dt_hashShift (dt_new 16 :: 'a dense_table)\<rparr> = dt_new 16"
    using zero n by simp
  ultimately show ?thesis using that [of "dt_new 16" 4] n zero by simp
next
  case (part k)
  have k: "Suc k < 64"
  proof -
    have "(2::nat) ^ k < 2 ^ 63" using assms(2) part(2) by simp
    then show ?thesis using power_less_imp_less_exp [of "2 :: nat" k 63] by simp
  qed
  have wf: "dt_wf k t" and d: "distinct_keys eq getKey (dt_item t)" using part(1) by (auto simp: dt_part_def)
  let ?bs = "bs_buckets (dt_used t)" and ?nt = "dt_new (2 ^ Suc k) :: 'a dense_table"
  have n: "dt_part (Suc k) getKey ?nt" "dt_items ?nt = {}" "dt_count ?nt = 0"
    using part_new(1) [OF k] part_new(2-) [OF k, where 'i = 'a] by blast+
  have bs: "set ?bs = {p. dt_item t p \<noteq> None}" "distinct ?bs"
    using bs_buckets_spec [of "dt_used t"] wf dt_members_item [OF wf] by (auto simp: dt_wf_def)
  have len: "length ?bs = dt_count t"
    using distinct_card [OF bs(2)] bs(1) dt_members_item [OF wf] part(1) by (simp add: dt_part_def)
  have live: "dt_data t ! b = Live x \<longleftrightarrow> dt_item t b = Some x" if "b \<in> set ?bs" for b x
    using that bs(1) dt_wf_bit(3) [OF wf] dt_item_range [OF wf, of b] by auto
  have "\<exists>nt'. dt_migrate hasher eq getKey (dt_data t) ?bs ?nt = Some nt' \<and> dt_part (Suc k) getKey nt' \<and>
    dt_items nt' = dt_items ?nt \<union> {x. \<exists>b \<in> set ?bs. dt_data t ! b = Live x} \<and> dt_count nt' = dt_count ?nt + length ?bs"
  proof (rule migrate_spec [OF n(1)])
    show "dt_count ?nt + length ?bs < 2 ^ Suc k" using n(3) len part(4) by simp
    show "\<exists>x. dt_data t ! b = Live x \<and> (\<forall>y \<in> dt_items ?nt. \<not> eq (getKey y) (getKey x))" if "b \<in> set ?bs" for b
      using that bs(1) live [OF that] n(2) by auto
    show "b = b'" if "b \<in> set ?bs" "b' \<in> set ?bs" "dt_data t ! b = Live x" "dt_data t ! b' = Live y" "eq (getKey x) (getKey y)" for b b' x y
      using that live d unfolding distinct_keys_def by blast
  qed (rule bs(2))
  then obtain nt' where r: "dt_migrate hasher eq getKey (dt_data t) ?bs ?nt = Some nt'" "dt_part (Suc k) getKey nt'"
    "dt_items nt' = {x. \<exists>b \<in> set ?bs. dt_data t ! b = Live x}" "dt_count nt' = dt_count t"
    using n(2,3) len by auto
  have it: "dt_items nt' = dt_items t" unfolding r(3) using live bs(1) by (auto simp: dt_items_def)
  have t': "t\<lparr>dt_data := dt_data nt', dt_used := dt_used nt', dt_capacity := dt_capacity nt', dt_hashShift := dt_hashShift nt'\<rparr> = nt'"
    using r(4) by simp
  have "dt_grow hasher eq getKey t = Some nt'" using r(1,4) t' part(2) by (simp add: dt_grow_def mult.commute)
  moreover have c': "dt_capacity nt' = 2 ^ Suc k" using r(2) by (simp add: dt_part_def dt_wf_def)
  moreover have "dt_count nt' < 2 ^ Suc k * 3 div 4" using r(4) part(3,4) by simp
  ultimately show ?thesis using that [of nt' "Suc k"] r(2,4) it part(2) by simp
qed


lemma rehash_spec:
  assumes "dt_inv hasher eq getKey t" "dt_capacity t < 2 ^ 63"
  obtains t' k where "dt_rehash_if_full hasher eq getKey t key = Some t'" "dt_part k getKey t'" "dt_items t' = dt_items t"
    "dt_count t' \<le> 2 ^ k * 3 div 4" "dt_count t' < 2 ^ k"
    "(\<forall>x \<in> dt_items t. \<not> eq (getKey x) key) \<longrightarrow> dt_count t' < 2 ^ k * 3 div 4"
    "dt_count t' = dt_count t"
proof -
  obtain t' k where g: "dt_grow hasher eq getKey t = Some t'" "dt_part k getKey t'" "dt_items t' = dt_items t"
    "dt_count t' = dt_count t" "dt_count t' < 2 ^ k * 3 div 4"
    using grow_spec [OF assms] by metis
  have lt: "(2::nat) ^ k * 3 div 4 < 2 ^ k" for k using zero_less_power [of "2::nat" k] by linarith
  show ?thesis
    using assms(1)
  proof (cases rule: find_spec [of getKey t key])
    case (hit x)
    show ?thesis using assms(1)
    proof (cases rule: inv_cases)
      case zero
      then show ?thesis using hit by simp
    next
      case (part j)
      have "dt_rehash_if_full hasher eq getKey t key = Some t" using hit(3) by (simp add: dt_rehash_if_full_def)
      then show ?thesis using that [of t j] part hit(1,2) by blast
    qed
  next
    case miss
    show ?thesis
    proof (cases "dt_count t \<ge> dt_capacity t * 3 div 4")
      case True
      then show ?thesis using that [of t' k] g miss lt [of k] by (simp add: dt_rehash_if_full_def)
    next
      case False
      show ?thesis using assms(1)
      proof (cases rule: inv_cases)
        case zero
        then show ?thesis using False by simp
      next
        case (part j)
        then show ?thesis using that [of t j] False by (simp add: dt_rehash_if_full_def)
      qed
    qed
  qed
qed

text \<open>The insertion path both clients use: \<open>rehash_if_full\<close> and then \<open>insert_unsafe\<close>.\<close>

lemma insert_spec:
  assumes inv: "dt_inv hasher eq getKey t" and cap: "dt_capacity t < 2 ^ 63" and mk: "getKey (mk key) = key"
  obtains t1 b t' x where "dt_rehash_if_full hasher eq getKey t key = Some t1" "dt_insert_unsafe hasher eq getKey mk t1 key = Some (b, t')"
    "dt_inv hasher eq getKey t'" "dt_item t' b = Some x" "eq (getKey x) key"
    "dt_items t' = insert x (dt_items t)" "x \<in> dt_items t \<or> (x = mk key \<and> (\<forall>y \<in> dt_items t. \<not> eq (getKey y) key))"
    "dt_count t1 = dt_count t" "dt_count t' = (if x \<in> dt_items t then dt_count t else dt_count t + 1)"
    "b < dt_capacity t'"
proof -
  obtain t1 k where r: "dt_rehash_if_full hasher eq getKey t key = Some t1" "dt_part k getKey t1" "dt_items t1 = dt_items t"
    "dt_count t1 \<le> 2 ^ k * 3 div 4" "dt_count t1 < 2 ^ k"
    "(\<forall>x \<in> dt_items t. \<not> eq (getKey x) key) \<longrightarrow> dt_count t1 < 2 ^ k * 3 div 4" "dt_count t1 = dt_count t"
    using rehash_spec [OF inv cap, of key] by blast
  have wf: "dt_wf k t1" using r(2) by (simp add: dt_part_def)
  obtain b found where g: "dt_getBucket hasher eq getKey t1 key = Some (b, found)" "b < 2 ^ k"
    "found \<Longrightarrow> \<exists>x. dt_item t1 b = Some x \<and> eq (getKey x) key"
    "\<not> found \<Longrightarrow> dt_item t1 b = None \<and> (\<forall>x \<in> dt_items t1. \<not> eq (getKey x) key) \<and>
       (\<forall>q < 2 ^ k. cdist (2 ^ k) (dt_doHash hasher t1 key) q < cdist (2 ^ k) (dt_doHash hasher t1 key) b \<longrightarrow> dt_item t1 q \<noteq> None)"
    using part_getBucket [OF r(2,5), of key] by metis
  show ?thesis
  proof (cases found)
    case True
    then obtain x where x: "dt_item t1 b = Some x" "eq (getKey x) key" using g(3) by blast
    then have "x \<in> dt_items t" using r(3) by (auto simp: dt_items_def)
    then show ?thesis
      using that [of t1 b t1 x] x True g(1,2) r inv_part [OF r(2,4)] wf
      by (simp add: dt_insert_unsafe_def insert_absorb dt_wf_def)
  next
    case False
    note nf = g(4) [OF False]
    define t' where "t' = t1\<lparr>dt_used := bs_set (dt_used t1) b True, dt_data := (dt_data t1)[b := Live (mk key)], dt_count := dt_count t1 + 1\<rparr>"
    have hx: "dt_doHash hasher t1 key = dt_home k hasher getKey (mk key)"
      using doHash_home [of k t1 getKey "mk key" key] wf eq_refl mk by simp
    have p: "dt_part k getKey t'" "dt_items t' = insert (mk key) (dt_items t1)"
      using part_put [OF r(2) g(2), of "mk key", folded t'_def] nf mk hx by simp_all
    have it: "dt_item t' b = Some (mk key)"
      using dt_put(2) [OF wf g(2), where x = "mk key" and n = "dt_count t1 + 1", folded t'_def] by simp
    have none: "\<forall>y \<in> dt_items t. \<not> eq (getKey y) key" using nf r(3) by simp
    then have new: "mk key \<notin> dt_items t" using mk eq_refl by metis
    have "dt_count t' \<le> 2 ^ k * 3 div 4" using r(6) none by (simp add: t'_def)
    then have "dt_inv hasher eq getKey t'" using inv_part [OF p(1)] by simp
    moreover have "dt_insert_unsafe hasher eq getKey mk t1 key = Some (b, t')" using g(1) False by (simp add: dt_insert_unsafe_def t'_def)
    moreover have "dt_capacity t' = 2 ^ k" using p(1) by (simp add: dt_part_def dt_wf_def)
    ultimately show ?thesis
      using that [of t1 b t' "mk key"] r(1,3,7) it mk eq_refl p(2) none new g(2) by (simp add: t'_def)
  qed
qed


section \<open>Erasure\<close>

text \<open>
  The table during \<open>doErase\<close>: \<open>m\<close> holds the items other than the hole \<open>i\<close>; the bit of the hole is
  set before the first shift and cleared after it.
\<close>

definition erasing :: "nat \<Rightarrow> 'i dense_table \<Rightarrow> (nat \<Rightarrow> 'i option) \<Rightarrow> nat \<Rightarrow> bool" where
  "erasing k t m i \<longleftrightarrow> k < 64 \<and> dt_capacity t = 2 ^ k \<and> dt_hashShift t = 64 - k \<and> bs_inv (dt_used t) \<and>
     bs_capacity (dt_used t) = 2 ^ k \<and> length (dt_data t) = 2 ^ k \<and> i < 2 ^ k \<and>
     bs_members (dt_used t) \<subseteq> {..<2 ^ k} \<and> (\<forall>p. 2 ^ k \<le> p \<longrightarrow> m p = None) \<and> m i = None \<and>
     (\<forall>p < 2 ^ k. p \<noteq> i \<longrightarrow> (bs_contains (dt_used t) p \<longleftrightarrow> m p \<noteq> None) \<and>
        dt_data t ! p = (case m p of Some x \<Rightarrow> Live x | None \<Rightarrow> Raw))"

lemma erasing_bits: "erasing k t m i \<Longrightarrow> p < 2 ^ k \<Longrightarrow> p < 64 * bs_count (dt_used t)"
  by (auto simp: erasing_def bs_inv_def)

lemma erasing_init:
  assumes "dt_wf k t" "b < 2 ^ k"
  shows "erasing k t ((dt_item t)(b := None)) b"
proof -
  have "dt_item t p = None" if "2 ^ k \<le> p" for p
    using dt_item_range [OF assms(1), of p] that by (cases "dt_item t p") auto
  moreover have "(bs_contains (dt_used t) p \<longleftrightarrow> dt_item t p \<noteq> None) \<and>
      dt_data t ! p = (case dt_item t p of Some x \<Rightarrow> Live x | None \<Rightarrow> Raw)" if "p < 2 ^ k" for p
    using dt_wf_bit [OF assms(1) that] by (cases "dt_item t p") auto
  ultimately show ?thesis using assms by (auto simp: erasing_def dt_wf_def)
qed

lemma erasing_move:
  assumes "erasing k t m i" "j < 2 ^ k" "j \<noteq> i" "m j = Some x"
  shows "erasing k (t\<lparr>dt_used := bs_set (bs_set (dt_used t) i True) j False, dt_data := (dt_data t)[i := Live x, j := MovedFrom]\<rparr>)
    (m(i \<mapsto> x, j := None)) j"
proof -
  let ?u = "bs_set (bs_set (dt_used t) i True) j False"
  have I: "bs_inv (dt_used t)" "i < 2 ^ k" "length (dt_data t) = 2 ^ k" "bs_members (dt_used t) \<subseteq> {..<2 ^ k}"
    using assms(1) by (auto simp: erasing_def)
  have c: "bs_contains ?u p \<longleftrightarrow> p \<noteq> j \<and> (p = i \<or> bs_contains (dt_used t) p)" if "p < 64 * bs_count (dt_used t)" for p
    using that I(1) erasing_bits [OF assms(1)] I(2) assms(2) by (simp add: bs_set_contains)
  have "bs_members ?u \<subseteq> {..<2 ^ k}" using I(2,4) c by (auto simp: bs_members_def)
  moreover have "(bs_contains ?u p \<longleftrightarrow> (m(i \<mapsto> x)) p \<noteq> None) \<and>
      (dt_data t)[i := Live x] ! p = (case (m(i \<mapsto> x)) p of Some x \<Rightarrow> Live x | None \<Rightarrow> Raw)" if "p < 2 ^ k" "p \<noteq> j" for p
    using c [OF erasing_bits [OF assms(1) that(1)]] assms(1) that I(3) by (auto simp: erasing_def)
  ultimately show ?thesis using assms(1,2) by (auto simp: erasing_def)
qed

lemma same_items_move:
  assumes "m i = None" "m j = Some x" "i \<noteq> j"
  shows "ran (m(i \<mapsto> x, j := None)) = ran m" "distinct_keys eq getKey m \<Longrightarrow> distinct_keys eq getKey (m(i \<mapsto> x, j := None))"
    "card {p. (m(i \<mapsto> x, j := None)) p \<noteq> None} = card {p. m p \<noteq> None}"
proof -
  let ?m = "m(i \<mapsto> x, j := None)"
  show "ran ?m = ran m"
  proof (intro equalityI subsetI)
    fix y assume "y \<in> ran ?m"
    then show "y \<in> ran m" using assms by (auto simp: ran_def split: if_splits)
  next
    fix y assume "y \<in> ran m"
    then obtain p where "m p = Some y" by (auto simp: ran_def)
    then have "?m (if p = j then i else p) = Some y" using assms by auto
    then show "y \<in> ran ?m" by (rule ranI)
  qed
  show "distinct_keys eq getKey ?m" if d: "distinct_keys eq getKey m"
  proof -
    let ?s = "\<lambda>p. if p = i then j else p"
    have s: "m (?s p) = Some y" if "?m p = Some y" for p y using that assms by (auto split: if_splits)
    show ?thesis unfolding distinct_keys_def
    proof (intro allI impI, elim conjE)
      fix p q y z assume a: "?m p = Some y" "?m q = Some z" "eq (getKey y) (getKey z)"
      then have "?s p = ?s q" using d s [OF a(1)] s [OF a(2)] by (auto simp: distinct_keys_def)
      then show "p = q" using a assms by (auto split: if_splits)
    qed
  qed
  have "{p. ?m p \<noteq> None} = insert i ({p. m p \<noteq> None} - {j})" using assms by auto
  moreover have "i \<notin> {p. m p \<noteq> None} - {j}" "j \<in> {p. m p \<noteq> None}" using assms by auto
  ultimately show "card {p. ?m p \<noteq> None} = card {p. m p \<noteq> None}"
    by (cases "finite {p. m p \<noteq> None}") (metis card_insert_disjoint card_Suc_Diff1 finite_Diff, simp)
qed

lemma eraseLoop_spec:
  assumes "erasing k t m i" "pb.hole_inv TYPE('k) k hasher getKey m e i j" "2 ^ k \<le> fuel + cdist (2 ^ k) e j" "0 < fuel"
    "distinct_keys eq getKey m"
  shows "\<exists>i' t' m'. dt_eraseLoop hasher getKey fuel i j t = Some (i', t') \<and> erasing k t' m' i' \<and>
    dt_placed k hasher getKey m' \<and> ran m' = ran m \<and> distinct_keys eq getKey m' \<and>
    card {p. m' p \<noteq> None} = card {p. m p \<noteq> None} \<and> dt_count t' = dt_count t"
  using assms
proof (induction fuel arbitrary: t m i j)
  case 0
  then show ?case by simp
next
  case (Suc fuel)
  let ?c = "2 ^ k :: nat" and ?j = "Suc j mod 2 ^ k"
  note E = Suc.prems(1) and H = Suc.prems(2)
  have I: "k < 64" "dt_capacity t = ?c" "dt_hashShift t = 64 - k" "i < ?c" using E by (auto simp: erasing_def)
  have jc: "?j < ?c" by simp
  have j: "(j + 1) AND (dt_capacity t - 1) = ?j" using and_mask_mod [of "Suc j" k] I(2) by simp
  have ji: "?j \<noteq> i" using H pb.hole_next(2) [OF H] by (cases "?j = e") (auto simp: pb.hole_inv_def)
  have cell: "bs_contains (dt_used t) ?j \<longleftrightarrow> m ?j \<noteq> None" "dt_data t ! ?j = (case m ?j of Some x \<Rightarrow> Live x | None \<Rightarrow> Raw)"
    using E jc ji unfolding erasing_def by blast+
  show ?case
  proof (cases "m ?j")
    case None
    then have "dt_eraseLoop hasher getKey (Suc fuel) i j t = Some (i, t)" using cell(1) j by simp
    moreover have "dt_placed k hasher getKey m" by (rule pb.hole_stop [OF H None])
    ultimately show ?thesis using E Suc.prems(5) by blast
  next
    case (Some x)
    note T = pb.hole_test [OF H Some]
    let ?r = "dt_doHash hasher t (getKey x)"
    have r: "?r = dt_home k hasher getKey x" using I(3) by (simp add: dt_doHash_def dt_home_def)
    have rl: "?r < ?c" unfolding r by (rule pb.home_less)
    have left: "(i + (2 ^ 64 - ?r)) AND (dt_capacity t - 1) = cdist ?c ?r i"
      and right: "(?j + (2 ^ 64 - ?r)) AND (dt_capacity t - 1) = cdist ?c ?r ?j"
      using cdist_minus [OF refl I(1) rl I(4)] cdist_minus [OF refl I(1) rl jc] and_mask_mod I(2) by simp_all
    have fuel: "?c \<le> fuel + cdist ?c e ?j" using Suc.prems(3) T(2) by simp
    have e: "e < ?c" using H by (simp add: pb.hole_inv_def)
    have fuel0: "0 < fuel" using fuel cdist_less [OF e jc] by linarith
    show ?thesis
    proof (cases "cdist ?c ?r i < cdist ?c ?r ?j")
      case True
      let ?m = "m(i \<mapsto> x, ?j := None)"
      let ?t = "t\<lparr>dt_used := bs_set (bs_set (dt_used t) i True) ?j False, dt_data := (dt_data t)[i := Live x, ?j := MovedFrom]\<rparr>"
      have st: "dt_eraseLoop hasher getKey (Suc fuel) i j t = dt_eraseLoop hasher getKey fuel ?j ?j ?t"
        using True Some cell j left right by (simp add: Let_def)
      have mi: "m i = None" using E by (simp add: erasing_def)
      note same = same_items_move [OF mi Some ji [symmetric]]
      from Suc.IH [OF erasing_move [OF E jc ji Some] pb.hole_move [OF H Some] fuel fuel0 same(2) [OF Suc.prems(5)]] True
      show ?thesis unfolding st same r by simp
    next
      case False
      have st: "dt_eraseLoop hasher getKey (Suc fuel) i j t = dt_eraseLoop hasher getKey fuel i ?j t"
        using False Some cell j left right by (simp add: Let_def)
      from Suc.IH [OF E pb.hole_skip [OF H Some] fuel fuel0 Suc.prems(5)] False show ?thesis unfolding st r by simp
    qed
  qed
qed

lemma erasing_finish:
  fixes t :: "'i dense_table" and m :: "nat \<Rightarrow> 'i option" and n :: nat
  assumes "erasing k t m i"
  defines "t' \<equiv> t\<lparr>dt_used := bs_set (dt_used t) i False, dt_data := (dt_data t)[i := Raw], dt_count := n\<rparr>"
  shows "dt_wf k t'" "dt_item t' = m"
proof -
  have I: "bs_inv (dt_used t)" "i < 2 ^ k" "length (dt_data t) = 2 ^ k" "bs_members (dt_used t) \<subseteq> {..<2 ^ k}" "m i = None"
    "dt_capacity t = 2 ^ k"
    and M: "\<And>p. p < 2 ^ k \<Longrightarrow> p \<noteq> i \<Longrightarrow> (bs_contains (dt_used t) p \<longleftrightarrow> m p \<noteq> None) \<and>
        dt_data t ! p = (case m p of Some x \<Rightarrow> Live x | None \<Rightarrow> Raw)"
    and R: "\<And>p. 2 ^ k \<le> p \<Longrightarrow> m p = None"
    using assms(1) by (auto simp: erasing_def)
  have c: "bs_contains (dt_used t') p \<longleftrightarrow> p \<noteq> i \<and> bs_contains (dt_used t) p" if "p < 64 * bs_count (dt_used t)" for p
    using bs_set_contains [OF I(1) that erasing_bits [OF assms(1) I(2)]] by (simp add: t'_def)
  have cell: "(bs_contains (dt_used t') p \<longleftrightarrow> m p \<noteq> None) \<and> dt_data t' ! p = (case m p of Some x \<Rightarrow> Live x | None \<Rightarrow> Raw)"
    if "p < 2 ^ k" for p
    using M [OF that] c [OF erasing_bits [OF assms(1) that]] that I(2,3,5) by (cases "p = i") (auto simp: t'_def)
  have "bs_members (dt_used t') \<subseteq> {..<2 ^ k}" using I(4) c by (auto simp: bs_members_def t'_def)
  moreover have "if bs_contains (dt_used t') p then \<exists>x. dt_data t' ! p = Live x else dt_data t' ! p = Raw" if "p < 2 ^ k" for p
    using cell [OF that] by (cases "m p") auto
  moreover have "k < 64 \<and> dt_capacity t' = 2 ^ k \<and> dt_hashShift t' = 64 - k \<and> bs_inv (dt_used t') \<and>
     bs_capacity (dt_used t') = 2 ^ k \<and> length (dt_data t') = 2 ^ k" using assms(1) by (simp add: erasing_def t'_def)
  ultimately show wf: "dt_wf k t'" by (simp add: dt_wf_def)
  show "dt_item t' = m"
  proof
    fix p show "dt_item t' p = m p"
      using cell [of p] R [of p] I(6) by (cases "p < 2 ^ k"; cases "m p") (auto simp: dt_item_def t'_def)
  qed
qed

lemma items_ran: "dt_items t = ran (dt_item t)"
  by (auto simp: dt_items_def ran_def)

lemma ran_delete:
  assumes "m b = Some x" "\<And>p. m p = Some x \<Longrightarrow> p = b"
  shows "ran (m(b := None)) = ran m - {x}"
proof (intro equalityI subsetI)
  fix y assume "y \<in> ran (m(b := None))"
  then obtain p where "m p = Some y" "p \<noteq> b" by (auto simp: ran_def split: if_splits)
  then show "y \<in> ran m - {x}" using assms(2) [of p] by (auto intro: ranI)
next
  fix y assume "y \<in> ran m - {x}"
  then obtain p where "m p = Some y" "y \<noteq> x" by (auto simp: ran_def)
  then have "(m(b := None)) p = Some y" using assms(1) by auto
  then show "y \<in> ran (m(b := None))" by (rule ranI)
qed

lemma erase_hit:
  assumes part: "dt_part k getKey t" "dt_count t \<le> 2 ^ k * 3 div 4" "dt_count t < 2 ^ k"
    and b: "b < 2 ^ k" "dt_item t b = Some x"
  obtains t' c where "dt_doErase hasher getKey t b = Some (t', c)" "dt_part k getKey t'" "dt_items t' = dt_items t - {x}"
    "dt_count t' = dt_count t - 1" "dt_count t \<noteq> 0"
proof -
  let ?m = "(dt_item t)(b := None)"
  have wf: "dt_wf k t" and pl: "dt_placed k hasher getKey (dt_item t)" and d: "distinct_keys eq getKey (dt_item t)"
    and n: "dt_count t = card (bs_members (dt_used t))" using part(1) by (auto simp: dt_part_def)
  obtain e where e: "e < 2 ^ k" "dt_item t e = None" using free_cell [OF wf] n part(3) by auto
  have hole: "pb.hole_inv TYPE('k) k hasher getKey ?m e b b"
    by (rule pb.hole_init [OF pl e(2,1) b(1)]) (simp add: b(2))
  have d': "distinct_keys eq getKey ?m" using d by (auto simp: distinct_keys_def)
  have cap: "dt_capacity t = 2 ^ k" using wf by (simp add: dt_wf_def)
  obtain i t1 m' where l: "dt_eraseLoop hasher getKey (2 ^ k) b b t = Some (i, t1)" "erasing k t1 m' i" "dt_placed k hasher getKey m'"
    "ran m' = ran ?m" "distinct_keys eq getKey m'" "card {p. m' p \<noteq> None} = card {p. ?m p \<noteq> None}" "dt_count t1 = dt_count t"
    using eraseLoop_spec [OF erasing_init [OF wf b(1)] hole le_add1 zero_less_power [OF zero_less_numeral] d'] by blast
  define t' where "t' = t1\<lparr>dt_used := bs_set (dt_used t1) i False, dt_data := (dt_data t1)[i := Raw], dt_count := dt_count t1 - 1\<rparr>"
  note f = erasing_finish [OF l(2), where n = "dt_count t1 - 1", folded t'_def]
  have mem: "{p. dt_item t p \<noteq> None} = insert b {p. ?m p \<noteq> None}" "b \<notin> {p. ?m p \<noteq> None}" using b(2) by auto
  have fin: "finite {p. dt_item t p \<noteq> None}" unfolding dt_members_item [OF wf, symmetric] by (simp add: bs_members_def)
  have "card {p. dt_item t p \<noteq> None} = Suc (card {p. ?m p \<noteq> None})" using mem fin by (metis card_insert_disjoint finite_insert)
  then have cnt: "dt_count t = Suc (card {p. m' p \<noteq> None})" using n dt_members_item [OF wf] l(6) by simp
  have "dt_part k getKey t'"
    using f l(3,5,7) dt_members_item [OF f(1)] cnt by (simp add: dt_part_def) (simp add: t'_def)
  moreover have "dt_items t' = dt_items t - {x}"
  proof -
    have "dt_items t' = ran ?m" using f(2) l(4) by (simp add: items_ran)
    moreover have "p = b" if "dt_item t p = Some x" for p
      using d b(2) that eq_refl unfolding distinct_keys_def by blast
    ultimately show ?thesis unfolding items_ran [of t] using ran_delete [of "dt_item t", OF b(2)] by simp
  qed
  moreover have "dt_doErase hasher getKey t b = Some (t', dt_data t1 ! i)"
    using l(1) cap by (simp add: dt_doErase_def t'_def)
  ultimately show ?thesis using that [of t' "dt_data t1 ! i"] cnt l(7) by (simp add: t'_def)
qed

lemma erase_spec:
  assumes inv: "dt_inv hasher eq getKey t"
  obtains t' where "dt_erase hasher eq getKey t key = Some t'" "dt_inv hasher eq getKey t'"
    "dt_items t' = {x \<in> dt_items t. \<not> eq (getKey x) key}" "dt_capacity t' = dt_capacity t"
    "dt_count t' = (if \<exists>x \<in> dt_items t. eq (getKey x) key then dt_count t - 1 else dt_count t)"
  using inv
proof (cases rule: inv_cases)
  case zero
  then show ?thesis using that [of t] inv by (simp add: dt_erase_def)
next
  case (part k)
  have wf: "dt_wf k t" using part(1) by (simp add: dt_part_def)
  obtain b found where g: "dt_getBucket hasher eq getKey t key = Some (b, found)" "b < 2 ^ k"
    "found \<Longrightarrow> \<exists>x. dt_item t b = Some x \<and> eq (getKey x) key" "\<not> found \<Longrightarrow> \<forall>x \<in> dt_items t. \<not> eq (getKey x) key"
    using part_getBucket [OF part(1,4), of key] by metis
  show ?thesis
  proof (cases found)
    case True
    then obtain x where x: "dt_item t b = Some x" "eq (getKey x) key" using g(3) by blast
    obtain t' c where r: "dt_doErase hasher getKey t b = Some (t', c)" "dt_part k getKey t'" "dt_items t' = dt_items t - {x}"
      "dt_count t' = dt_count t - 1" "dt_count t \<noteq> 0" using erase_hit [OF part(1,3,4) g(2) x(1)] by metis
    have xi: "x \<in> dt_items t" using x(1) by (auto simp: dt_items_def)
    have "y = x" if "y \<in> dt_items t" "eq (getKey y) key" for y
      using items_unique [OF inv that(1) xi] eq_trans [OF that(2) eq_sym [OF x(2)]] by simp
    then have "dt_items t - {x} = {y \<in> dt_items t. \<not> eq (getKey y) key}" using x(2) by auto
    moreover have "dt_inv hasher eq getKey t'" using inv_part [OF r(2)] r(4) part(3) by simp
    moreover have "dt_capacity t' = dt_capacity t" using r(2) part(2) by (simp add: dt_part_def dt_wf_def)
    moreover have "dt_erase hasher eq getKey t key = Some t'" using r(1,5) g(1) True by (simp add: dt_erase_def)
    moreover have "\<exists>x \<in> dt_items t. eq (getKey x) key" using xi x(2) by blast
    ultimately show ?thesis using that [of t'] r(3,4) by simp
  next
    case False
    then have "dt_erase hasher eq getKey t key = Some t" using g(1) by (simp add: dt_erase_def)
    moreover have "{x \<in> dt_items t. \<not> eq (getKey x) key} = dt_items t" using g(4) [OF False] by blast
    moreover have "\<not> (\<exists>x \<in> dt_items t. eq (getKey x) key)" using g(4) [OF False] by blast
    ultimately show ?thesis using that [of t] inv by simp
  qed
qed

section \<open>Clearing and copying\<close>

lemma clear_spec:
  assumes inv: "dt_inv hasher eq getKey t"
  shows "dt_inv hasher eq getKey (dt_clear n t)" "dt_items (dt_clear n t) = {}" "dt_count (dt_clear n t) = 0"
proof -
  have "dt_inv hasher eq getKey (dt_clear n t) \<and> dt_items (dt_clear n t) = {}"
    using inv
  proof (cases rule: inv_cases)
    case zero
    then show ?thesis using inv by (simp add: dt_clear_def)
  next
    case (part k)
    have wf: "dt_wf k t" and n: "dt_count t = card (bs_members (dt_used t))" using part(1) by (auto simp: dt_part_def)
    consider "dt_count t = 0" | "dt_count t \<noteq> 0" "dt_capacity t > n" | "dt_count t \<noteq> 0" "\<not> dt_capacity t > n" by blast
    then show ?thesis
    proof cases
      case 1
      then have "bs_members (dt_used t) = {}" using n by (simp add: bs_members_def)
      then show ?thesis using 1 inv dt_members_item [OF wf] by (auto simp: dt_clear_def dt_items_def)
    next
      case 2
      then show ?thesis by (simp add: dt_clear_def dt_destroy_def dt_inv_def dt_items_def dt_item_def)
    next
      case 3
      let ?t = "dt_clear n t"
      have t: "?t = t\<lparr>dt_data := fold (\<lambda>b d. d[b := Raw]) (bs_buckets (dt_used t)) (dt_data t), dt_used := bs_clear (dt_used t), dt_count := 0\<rparr>"
        using 3 by (simp add: dt_clear_def)
      have b: "bs_inv (dt_used t)" "length (dt_data t) = 2 ^ k" "bs_capacity (dt_used t) = 2 ^ k" using wf by (auto simp: dt_wf_def)
      note cl = bs_clear_spec [where s = "dt_used t"]
      have m: "bs_members (dt_used ?t) = {}" using cl(2,3) by (auto simp: bs_members_def t)
      have nc: "\<not> bs_contains (dt_used ?t) p" if "p < 2 ^ k" for p using cl(3) dt_wf_bit(1) [OF wf that] by (simp add: t)
      have "set (bs_buckets (dt_used t)) = bs_members (dt_used t)" using bs_buckets_spec(1) b by blast
      then have "dt_data ?t ! p = Raw" if "p < 2 ^ k" for p
        using dt_wf_bit(4) [OF wf that] that b(2) dt_members_item [OF wf] by (simp add: t nth_fold_update)
      then have wf': "dt_wf k ?t" using wf cl(1) m nc by (simp add: dt_wf_def) (simp add: t bs_clear_def)
      have it: "dt_item ?t = (\<lambda>_. None)" using nc part(2) by (auto simp: fun_eq_iff dt_item_def) (simp add: t)
      have "dt_part k getKey ?t" using wf' it m pb.placed_empty by (simp add: dt_part_def distinct_keys_def) (simp add: t)
      then show ?thesis using inv_part [of k getKey ?t] it by (auto simp: dt_items_def t)
    qed
  qed
  then show "dt_inv hasher eq getKey (dt_clear n t)" "dt_items (dt_clear n t) = {}" by blast+
  show "dt_count (dt_clear n t) = 0" by (simp add: dt_clear_def)
qed

lemma fold_bs_set:
  assumes "bs_inv u" "\<forall>b \<in> set bs. b < 64 * bs_count u"
  shows "bs_inv (fold (\<lambda>b u. bs_set u b True) bs u) \<and> bs_count (fold (\<lambda>b u. bs_set u b True) bs u) = bs_count u \<and>
    bs_capacity (fold (\<lambda>b u. bs_set u b True) bs u) = bs_capacity u \<and>
    (\<forall>p < 64 * bs_count u. bs_contains (fold (\<lambda>b u. bs_set u b True) bs u) p \<longleftrightarrow> p \<in> set bs \<or> bs_contains u p)"
  using assms
proof (induction bs arbitrary: u)
  case (Cons b bs)
  then show ?case using Cons.IH [of "bs_set u b True"] bs_set_contains [of u _ b True] by auto
qed simp

lemma nth_fold_copy:
  "j < length d \<Longrightarrow> fold (\<lambda>b d. d[b := f b]) bs d ! j = (if j \<in> set bs then f j else d ! j)"
  "length (fold (\<lambda>b d. d[b := f b]) bs d) = length d"
  by (induction bs arbitrary: d) (auto simp: nth_list_update)

lemma copy_part:
  assumes "dt_part k getKey t"
  shows "dt_part k getKey (dt_copy t)" "dt_item (dt_copy t) = dt_item t"
proof -
  let ?c = "2 ^ k :: nat" and ?bs = "bs_buckets (dt_used t)" and ?t = "dt_copy t"
  have wf: "dt_wf k t" using assms by (simp add: dt_part_def)
  then have I: "bs_inv (dt_used t)" "dt_capacity t = ?c" "length (dt_data t) = ?c" "dt_hashShift t = 64 - k" "k < 64"
    by (auto simp: dt_wf_def)
  have bs: "set ?bs = {p. dt_item t p \<noteq> None}" using bs_buckets_spec(1) I(1) wf dt_members_item [OF wf] by (simp add: dt_wf_def)
  have lt: "p < ?c" if "p \<in> set ?bs" for p using that bs dt_item_range [OF wf] by auto
  have nb: "p < 64 * bs_count (bs_new ?c)" if "p < ?c" for p using bs_new_inv(1) [of k] that by (auto simp: bs_inv_def bs_new_def Let_def)
  note F = fold_bs_set [OF bs_new_inv(1) [of k], of ?bs]
  have u: "bs_inv (dt_used ?t)" "bs_capacity (dt_used ?t) = ?c" "bs_count (dt_used ?t) = bs_count (bs_new ?c)"
    "\<And>p. p < 64 * bs_count (bs_new ?c) \<Longrightarrow> bs_contains (dt_used ?t) p \<longleftrightarrow> p \<in> set ?bs"
    using F lt nb bs_new_inv(2) [of _ k] I(2) by (auto simp: dt_copy_def) (simp add: bs_new_def Let_def)
  have d: "dt_data ?t ! p = (if p \<in> set ?bs then dt_data t ! p else Raw)" if "p < ?c" for p
    using that I(2) by (simp add: dt_copy_def nth_fold_copy)
  have sh: "dt_capacity ?t = ?c" "dt_hashShift ?t = 64 - k" "length (dt_data ?t) = ?c" "dt_count ?t = dt_count t"
    using I by (auto simp: dt_copy_def nth_fold_copy)
  have mem: "bs_members (dt_used ?t) = set ?bs" using u(3,4) lt nb by (auto simp: bs_members_def)
  have c: "(bs_contains (dt_used ?t) p \<longleftrightarrow> dt_item t p \<noteq> None) \<and>
      dt_data ?t ! p = (case dt_item t p of Some x \<Rightarrow> Live x | None \<Rightarrow> Raw)" if "p < ?c" for p
    using u(4) [OF nb [OF that]] d [OF that] bs dt_wf_bit [OF wf that] by (cases "dt_item t p") auto
  have "if bs_contains (dt_used ?t) p then \<exists>x. dt_data ?t ! p = Live x else dt_data ?t ! p = Raw" if "p < ?c" for p
    using c [OF that] by (cases "dt_item t p") auto
  moreover have "bs_members (dt_used ?t) \<subseteq> {..<?c}" using mem lt by auto
  ultimately have wf': "dt_wf k ?t" using I(5) sh u(1,2) by (simp add: dt_wf_def)
  show it: "dt_item ?t = dt_item t"
  proof
    fix p show "dt_item ?t p = dt_item t p"
      using c [of p] dt_item_range [OF wf, of p] sh(1) by (cases "p < ?c"; cases "dt_item t p") (auto simp: dt_item_def [of ?t])
  qed
  show "dt_part k getKey ?t" using assms wf' it sh(4) dt_members_item [OF wf'] dt_members_item [OF wf] by (simp add: dt_part_def)
qed

lemma copy_spec:
  assumes inv: "dt_inv hasher eq getKey t"
  shows "dt_inv hasher eq getKey (dt_copy t)" "dt_items (dt_copy t) = dt_items t" "dt_count (dt_copy t) = dt_count t"
proof -
  have "dt_inv hasher eq getKey (dt_copy t) \<and> dt_items (dt_copy t) = dt_items t"
    using inv
  proof (cases rule: inv_cases)
    case zero
    then show ?thesis by (simp add: dt_copy_def dt_inv_def dt_items_def dt_item_def)
  next
    case (part k)
    have "dt_count (dt_copy t) = dt_count t" by (simp add: dt_copy_def)
    then show ?thesis using copy_part [OF part(1)] inv_part [of k getKey "dt_copy t"] part(3) by (simp add: items_ran)
  qed
  then show "dt_inv hasher eq getKey (dt_copy t)" "dt_items (dt_copy t) = dt_items t" by blast+
  show "dt_count (dt_copy t) = dt_count t" by (simp add: dt_copy_def)
qed

section \<open>Iteration\<close>

lemma count_items:
  assumes inv: "dt_inv hasher eq getKey t"
  shows "finite (dt_items t)" "dt_count t = card (dt_items t)"
proof -
  have "finite (dt_items t) \<and> dt_count t = card (dt_items t)"
    using inv
  proof (cases rule: inv_cases)
    case (part k)
    let ?P = "{p. dt_item t p \<noteq> None}"
    have wf: "dt_wf k t" and d: "distinct_keys eq getKey (dt_item t)" and n: "dt_count t = card ?P"
      using part(1) dt_members_item [of k t] by (auto simp: dt_part_def)
    have im: "dt_items t = (\<lambda>p. the (dt_item t p)) ` ?P" by (force simp: dt_items_def)
    have "inj_on (\<lambda>p. the (dt_item t p)) ?P"
      using d eq_refl by (auto simp: inj_on_def distinct_keys_def)
    moreover have "finite ?P" unfolding dt_members_item [OF wf, symmetric] by (simp add: bs_members_def)
    ultimately show ?thesis using n card_image [of "\<lambda>p. the (dt_item t p)" ?P] unfolding im by simp
  qed simp
  then show "finite (dt_items t)" "dt_count t = card (dt_items t)" by blast+
qed

lemma iterate_scan:
  "dt_iterate t (dt_scan t i) = map ((!) (dt_data t)) (filter (bs_contains (dt_used t)) [i..<dt_capacity t])"
proof (induction "dt_capacity t - i" arbitrary: i)
  case 0
  then show ?case by (subst dt_scan.simps, subst dt_iterate.simps) simp
next
  case (Suc n)
  then have i: "i < dt_capacity t" "n = dt_capacity t - (i + 1)" by auto
  show ?case
  proof (cases "bs_contains (dt_used t) i")
    case True
    then show ?thesis using i(1) Suc(1) [OF i(2)]
      by (subst dt_scan.simps, subst dt_iterate.simps) (simp add: upt_rec [of i] dt_next_def)
  next
    case False
    then show ?thesis using i(1) Suc(1) [OF i(2)] by (subst dt_scan.simps) (simp add: upt_rec [of i])
  qed
qed

lemma iterate_items:
  assumes inv: "dt_inv hasher eq getKey t"
  obtains xs where "dt_iterate t (dt_begin t) = map Live xs" "set xs = dt_items t" "distinct xs"
  using inv
proof (cases rule: inv_cases)
  case zero
  then show ?thesis using that [of "[]"] iterate_scan [of t 0] by (simp add: dt_begin_def)
next
  case (part k)
  let ?ps = "filter (bs_contains (dt_used t)) [0..<2 ^ k]" and ?f = "\<lambda>p. the (dt_item t p)"
  have wf: "dt_wf k t" and d: "distinct_keys eq getKey (dt_item t)" using part(1) by (auto simp: dt_part_def)
  have ps: "set ?ps = {p. dt_item t p \<noteq> None}" using dt_wf_bit(2) [OF wf] dt_item_range [OF wf] by auto
  have "dt_data t ! p = Live (?f p)" if "p \<in> set ?ps" for p
    using that dt_wf_bit(2,3) [OF wf, of p] by auto
  then have "map ((!) (dt_data t)) ?ps = map Live (map ?f ?ps)" by simp
  moreover have "set (map ?f ?ps) = dt_items t" unfolding set_map ps by (force simp: dt_items_def)
  moreover have "inj_on ?f (set ?ps)" unfolding ps using d eq_refl by (auto simp: inj_on_def distinct_keys_def)
  then have "distinct (map ?f ?ps)" by (simp add: distinct_map)
  ultimately show ?thesis using that [of "map ?f ?ps"] iterate_scan [of t 0] part(2) by (simp add: dt_begin_def)
qed

lemma capacity_growth:
  assumes inv: "dt_inv hasher eq getKey t" and cap: "dt_capacity t < 2 ^ 63"
    and r: "dt_rehash_if_full hasher eq getKey t key = Some t1" and i: "dt_insert_unsafe hasher eq getKey mk t1 key = Some (b, t')"
  shows "dt_capacity t' = dt_capacity t \<or>
    (dt_capacity t * 3 div 4 \<le> dt_count t \<and> dt_capacity t' = (if dt_capacity t = 0 then 16 else 2 * dt_capacity t))"
proof -
  have "dt_capacity t' = dt_capacity t1" using i by (auto simp: dt_insert_unsafe_def split: option.splits if_splits)
  moreover obtain t2 where "dt_grow hasher eq getKey t = Some t2"
    "dt_capacity t2 = (if dt_capacity t = 0 then 16 else 2 * dt_capacity t)" using grow_spec [OF inv cap] by metis
  ultimately show ?thesis using r by (auto simp: dt_rehash_if_full_def split: if_splits option.splits)
qed

text \<open>Overwriting the value part of an item through the reference the map hands out.\<close>

lemma replace_item:
  assumes inv: "dt_inv hasher eq getKey t" and it: "dt_item t b = Some x" and key: "getKey y = getKey x"
  defines "t' \<equiv> t\<lparr>dt_data := (dt_data t)[b := Live y]\<rparr>"
  shows "dt_inv hasher eq getKey t'" "dt_items t' = insert y (dt_items t - {x})"
proof -
  obtain k where p: "dt_part k getKey t" "dt_count t \<le> 2 ^ k * 3 div 4"
    using inv it by (cases rule: inv_cases) (auto simp: dt_item_def)
  have wf: "dt_wf k t" and d: "distinct_keys eq getKey (dt_item t)" and pl: "dt_placed k hasher getKey (dt_item t)"
    using p(1) by (auto simp: dt_part_def)
  have b: "b < 2 ^ k" by (rule dt_item_range [OF wf it])
  have I: "length (dt_data t) = 2 ^ k" "dt_capacity t = 2 ^ k" "bs_contains (dt_used t) b" using wf it dt_wf_bit(2) [OF wf b] by (auto simp: dt_wf_def)
  have it': "dt_item t' = (dt_item t)(b \<mapsto> y)"
    using I b by (auto simp: fun_eq_iff dt_item_def t'_def nth_list_update)
  have "dt_wf k t'" using wf I b by (auto simp: dt_wf_def t'_def nth_list_update)
  moreover have "dt_placed k hasher getKey (dt_item t')"
    unfolding it'
  proof (rule pb.placed_insert [OF pl b])
    fix q assume q: "q < 2 ^ k" "cdist (2 ^ k) (dt_home k hasher getKey y) q < cdist (2 ^ k) (dt_home k hasher getKey y) b"
    then show "dt_item t q \<noteq> None" using pb.placedD [OF pl b it q(1)] key by (simp add: dt_home_def)
  qed
  moreover have "distinct_keys eq getKey (dt_item t')"
    unfolding distinct_keys_def it'
  proof (intro allI impI, elim conjE)
    fix p q v w
    assume a: "((dt_item t)(b \<mapsto> y)) p = Some v" "((dt_item t)(b \<mapsto> y)) q = Some w" "eq (getKey v) (getKey w)"
    have "\<exists>v'. dt_item t p = Some v' \<and> getKey v' = getKey v" "\<exists>w'. dt_item t q = Some w' \<and> getKey w' = getKey w"
      using a it key by (auto split: if_splits)
    then show "p = q" using a(3) d unfolding distinct_keys_def by metis
  qed
  moreover have "dt_count t' = card (bs_members (dt_used t'))" using p(1) by (simp add: dt_part_def t'_def)
  ultimately have "dt_part k getKey t'" by (simp add: dt_part_def)
  then show "dt_inv hasher eq getKey t'" using inv_part [of k getKey t'] p(2) by (simp add: t'_def)
  have u: "p = b" if "dt_item t p = Some x" for p using d it that eq_refl unfolding distinct_keys_def by blast
  have "ran ((dt_item t)(b \<mapsto> y)) = insert y (ran ((dt_item t)(b := None)))"
    using ran_map_upd [of "(dt_item t)(b := None)" b y] by simp
  then show "dt_items t' = insert y (dt_items t - {x})"
    unfolding items_ran it' using ran_delete [of "dt_item t", OF it u] by simp
qed

end

text \<open>The default instance, \<open>std::equal_to\<close> with any hash function.\<close>

interpretation eqk: hash_key hasher "(=)" for hasher
  by unfold_locales auto

section \<open>Sets\<close>

datatype 'k set_op = SInsert 'k | STryInsert 'k | SContains 'k | SErase 'k | SSize | SClear

datatype set_out = SUnit | SBool bool | SNat nat

text \<open>One call on \<open>DenseHashSet2<Key, Hash>\<close>; \<open>Inl ()\<close> is a failed assertion or a stuck loop.\<close>

definition opt_result :: "'a option \<Rightarrow> unit + 'a" where
  "opt_result r = (case r of None \<Rightarrow> Inl () | Some x \<Rightarrow> Inr x)"

fun set_step :: "('k \<Rightarrow> u64) \<Rightarrow> 'k set_op \<Rightarrow> 'k dense_table \<Rightarrow> unit + set_out \<times> 'k dense_table" where
  "set_step h (SInsert k) t = opt_result (map_option (\<lambda>(_, t'). (SUnit, t')) (set_insert h (=) t k))"
| "set_step h (STryInsert k) t = opt_result (map_option (\<lambda>(b, t'). (SBool b, t')) (set_try_insert h (=) t k))"
| "set_step h (SContains k) t = opt_result (map_option (\<lambda>b. (SBool b, t)) (set_contains h (=) t k))"
| "set_step h (SErase k) t = opt_result (map_option (\<lambda>t'. (SUnit, t')) (dt_erase h (=) id t k))"
| "set_step h SSize t = Inr (SNat (dt_count t), t)"
| "set_step h SClear t = Inr (SUnit, dt_clear 32 t)"

text \<open>The same call on a mathematical set.\<close>

fun set_spec :: "'k set_op \<Rightarrow> 'k set \<Rightarrow> set_out \<times> 'k set" where
  "set_spec (SInsert k) S = (SUnit, insert k S)"
| "set_spec (STryInsert k) S = (SBool (k \<notin> S), insert k S)"
| "set_spec (SContains k) S = (SBool (k \<in> S), S)"
| "set_spec (SErase k) S = (SUnit, S - {k})"
| "set_spec SSize S = (SNat (card S), S)"
| "set_spec SClear S = (SUnit, {})"

text \<open>The invariant after \<open>n\<close> operations: the capacity is at most 16 or \<open>8/3\<close> of them.\<close>

definition dt_after :: "('k \<Rightarrow> u64) \<Rightarrow> ('i \<Rightarrow> 'k) \<Rightarrow> nat \<Rightarrow> 'i dense_table \<Rightarrow> bool" where
  "dt_after h getKey n t \<longleftrightarrow> dt_inv h (=) getKey t \<and> dt_count t \<le> n \<and> dt_capacity t * 3 \<le> 8 * n + 48"

lemma dt_afterI:
  assumes "dt_after h getKey n t" "dt_inv h (=) getKey t'" "dt_count t' \<le> dt_count t" "dt_capacity t' \<le> dt_capacity t"
  shows "dt_after h getKey (Suc n) t'"
  using assms by (simp add: dt_after_def)

lemma dt_after_cap: "dt_after h getKey n t \<Longrightarrow> n < 2 ^ 61 \<Longrightarrow> dt_capacity t < 2 ^ 63"
  by (simp add: dt_after_def)

lemma dt_after_insert:
  assumes "dt_after h getKey n t" "n < 2 ^ 61" "getKey (mk key) = key"
  obtains t1 b t' x where "dt_rehash_if_full h (=) getKey t key = Some t1" "dt_insert_unsafe h (=) getKey mk t1 key = Some (b, t')"
    "dt_after h getKey (Suc n) t'" "dt_item t' b = Some x" "getKey x = key" "dt_items t' = insert x (dt_items t)"
    "x \<in> dt_items t \<or> (x = mk key \<and> (\<forall>y \<in> dt_items t. getKey y \<noteq> key))" "dt_count t1 = dt_count t"
    "dt_count t' = (if x \<in> dt_items t then dt_count t else dt_count t + 1)"
proof -
  have inv: "dt_inv h (=) getKey t" and cap: "dt_capacity t < 2 ^ 63" and n: "dt_count t \<le> n" "dt_capacity t * 3 \<le> 8 * n + 48"
    using assms dt_after_cap [OF assms(1,2)] by (auto simp: dt_after_def)
  from eqk.insert_spec [where mk = mk and key = key, OF inv cap assms(3)] obtain t1 b t' x where
    r: "dt_rehash_if_full h (=) getKey t key = Some t1" "dt_insert_unsafe h (=) getKey mk t1 key = Some (b, t')"
    "dt_inv h (=) getKey t'" "dt_item t' b = Some x" "getKey x = key" "dt_items t' = insert x (dt_items t)"
    "x \<in> dt_items t \<or> (x = mk key \<and> (\<forall>y \<in> dt_items t. getKey y \<noteq> key))" "dt_count t1 = dt_count t"
    "dt_count t' = (if x \<in> dt_items t then dt_count t else dt_count t + 1)" by metis
  have "dt_capacity t' * 3 \<le> 8 * Suc n + 48"
    using eqk.capacity_growth [OF inv cap r(1,2)] n by (auto split: if_splits)
  then have "dt_after h getKey (Suc n) t'" using r(3,9) n(1) by (simp add: dt_after_def)
  then show ?thesis using that r by blast
qed

lemma dt_after_erase:
  assumes "dt_after h getKey n t"
  obtains t' where "dt_erase h (=) getKey t k = Some t'" "dt_after h getKey (Suc n) t'" "dt_items t' = {x \<in> dt_items t. getKey x \<noteq> k}"
proof -
  have inv: "dt_inv h (=) getKey t" using assms by (simp add: dt_after_def)
  show ?thesis
  proof (rule eqk.erase_spec [OF inv, of k], goal_cases)
    case (1 t')
    then have "dt_after h getKey (Suc n) t'" using dt_afterI [OF assms 1(2)] by (simp split: if_splits)
    then show ?case using that 1 by blast
  qed
qed

lemma dt_after_clear:
  assumes "dt_after h getKey n t"
  shows "dt_after h getKey (Suc n) (dt_clear c t)"
proof -
  have "dt_inv h (=) getKey t" using assms by (simp add: dt_after_def)
  from eqk.clear_spec(1) [OF this] show ?thesis
    by (rule dt_afterI [OF assms]) (auto simp: dt_clear_def dt_destroy_def)
qed

lemma set_step_sim:
  assumes "dt_after h id n t" "n < 2 ^ 61"
  shows "\<exists>t'. set_step h x t = Inr (fst (set_spec x (dt_items t)), t') \<and> dt_after h id (Suc n) t' \<and>
    dt_items t' = snd (set_spec x (dt_items t))"
proof -
  have inv: "dt_inv h (=) id t" using assms by (simp add: dt_after_def)
  have ins: "\<exists>b t'. set_insert h (=) t k = Some (b, t') \<and> dt_after h id (Suc n) t' \<and> dt_items t' = insert k (dt_items t) \<and>
    (dt_count t' \<noteq> dt_count t \<longleftrightarrow> k \<notin> dt_items t)" for k
  proof (rule dt_after_insert [OF assms, where mk = id and key = k], goal_cases)
    case (2 t1 b t' x)
    then show ?case by (cases "x \<in> dt_items t") (simp_all add: set_insert_def)
  qed simp
  have same: "dt_after h id (Suc n) t" using dt_afterI [OF assms(1) inv] by simp
  show ?thesis
  proof (cases x)
    case (SInsert k)
    then show ?thesis using ins [of k] by (auto simp: opt_result_def)
  next
    case (STryInsert k)
    then show ?thesis using ins [of k] by (auto simp: opt_result_def set_try_insert_def)
  next
    case (SContains k)
    have "set_contains h (=) t k = Some (k \<in> dt_items t)"
      using inv by (cases rule: eqk.find_spec [of h id t k]) (auto simp: set_contains_def)
    then show ?thesis using SContains same by (simp add: opt_result_def)
  next
    case (SErase k)
    show ?thesis by (rule dt_after_erase [OF assms(1), of k]) (auto simp: SErase opt_result_def)
  next
    case SSize
    then show ?thesis using same eqk.count_items(2) [OF inv] by simp
  next
    case SClear
    then show ?thesis using eqk.clear_spec(2) [OF inv, of 32] dt_after_clear [OF assms(1), of 32] by simp
  qed
qed

interpretation dset: counted_refinement "set_step h" set_spec dt_items "dt_after h id" "2 ^ 61" for h
  by unfold_locales (rule set_step_sim)

section \<open>Maps\<close>

datatype ('k, 'v) map_op = MAssign 'k 'v | MIndex 'k | MTryInsert 'k 'v | MFind 'k | MErase 'k | MSize | MClear nat

datatype 'v map_out = MUnit | MBool bool | MNat nat | MValue "'v option"

text \<open>One call on \<open>DenseHashMap2<Key, Value, Hash>\<close>: \<open>m[k] = v\<close>, \<open>m[k]\<close>, \<open>m.try_insert(k, v)\<close> and so on.\<close>

fun map_step :: "('k \<Rightarrow> u64) \<Rightarrow> 'v \<Rightarrow> ('k, 'v) map_op \<Rightarrow> ('k \<times> 'v) dense_table \<Rightarrow> unit + 'v map_out \<times> ('k \<times> 'v) dense_table" where
  "map_step h dflt (MAssign k v) t = opt_result (map_option (\<lambda>t'. (MUnit, t')) (map_assign h (=) dflt t k v))"
| "map_step h dflt (MIndex k) t = opt_result (map_option (\<lambda>(slot, t').
     (MValue (case dt_data t' ! slot of Live (_, v) \<Rightarrow> Some v | _ \<Rightarrow> None), t')) (map_slot h (=) dflt t k))"
| "map_step h dflt (MTryInsert k v) t = opt_result (map_option (\<lambda>(b, t'). (MBool b, t')) (map_try_insert h (=) dflt t k v))"
| "map_step h dflt (MFind k) t = opt_result (map_option (\<lambda>r. (MValue r, t)) (map_find h (=) t k))"
| "map_step h dflt (MErase k) t = opt_result (map_option (\<lambda>t'. (MUnit, t')) (dt_erase h (=) fst t k))"
| "map_step h dflt MSize t = Inr (MNat (dt_count t), t)"
| "map_step h dflt (MClear n) t = Inr (MUnit, dt_clear n t)"

fun map_spec :: "'v \<Rightarrow> ('k, 'v) map_op \<Rightarrow> ('k \<rightharpoonup> 'v) \<Rightarrow> 'v map_out \<times> ('k \<rightharpoonup> 'v)" where
  "map_spec dflt (MAssign k v) m = (MUnit, m(k \<mapsto> v))"
| "map_spec dflt (MIndex k) m = (let v = (case m k of Some v \<Rightarrow> v | None \<Rightarrow> dflt) in (MValue (Some v), m(k \<mapsto> v)))"
| "map_spec dflt (MTryInsert k v) m = (if m k = None then (MBool True, m(k \<mapsto> v)) else (MBool False, m))"
| "map_spec dflt (MFind k) m = (MValue (m k), m)"
| "map_spec dflt (MErase k) m = (MUnit, m(k := None))"
| "map_spec dflt MSize m = (MNat (card (dom m)), m)"
| "map_spec dflt (MClear n) m = (MUnit, Map.empty)"

definition map_abs :: "('k \<Rightarrow> u64) \<Rightarrow> ('k \<times> 'v) dense_table \<Rightarrow> ('k \<rightharpoonup> 'v)" where
  "map_abs h t k = (case map_find h (=) t k of Some r \<Rightarrow> r | None \<Rightarrow> None)"

lemma map_abs_iff: "dt_inv h (=) fst t \<Longrightarrow> map_abs h t k = Some v \<longleftrightarrow> (k, v) \<in> dt_items t"
proof -
  assume inv: "dt_inv h (=) fst t"
  show ?thesis using inv
  proof (cases rule: eqk.find_spec [of h fst t k])
    case (hit x)
    then show ?thesis using eqk.items_unique [OF inv hit(1), of "(k, v)"] by (cases x) (auto simp: map_abs_def map_find_def)
  next
    case miss
    then show ?thesis by (auto simp: map_abs_def map_find_def)
  qed
qed

lemma map_abs_None: "dt_inv h (=) fst t \<Longrightarrow> map_abs h t k = None \<longleftrightarrow> (\<forall>v. (k, v) \<notin> dt_items t)"
  using map_abs_iff [of h t k] by (metis not_None_eq)

lemma map_abs_eqI:
  assumes "dt_inv h (=) fst t" "\<And>k v. m k = Some v \<longleftrightarrow> (k, v) \<in> dt_items t"
  shows "map_abs h t = m"
  by (rule ext) (metis assms map_abs_iff not_None_eq)

lemma card_dom_map_abs:
  assumes inv: "dt_inv h (=) fst t"
  shows "card (dom (map_abs h t)) = dt_count t"
proof -
  have "dom (map_abs h t) = fst ` dt_items t" using map_abs_iff [OF inv] by (force simp: dom_def)
  moreover have "inj_on fst (dt_items t)" using eqk.items_unique [OF inv] by (auto simp: inj_on_def)
  ultimately show ?thesis using eqk.count_items(2) [OF inv] by (simp add: card_image)
qed

text \<open>The slot \<open>operator[]\<close> and \<open>try_insert\<close> obtain, and a store through it.\<close>

lemma map_slot_spec:
  assumes "dt_after h fst n t" "n < 2 ^ 61"
  obtains t1 b t' v where "dt_rehash_if_full h (=) fst t k = Some t1" "dt_insert_unsafe h (=) fst (\<lambda>k. (k, dflt)) t1 k = Some (b, t')"
    "dt_after h fst (Suc n) t'" "dt_data t' ! b = Live (k, v)" "v = (case map_abs h t k of Some v \<Rightarrow> v | None \<Rightarrow> dflt)"
    "map_abs h t' = (map_abs h t)(k \<mapsto> v)" "dt_count t1 < dt_count t' \<longleftrightarrow> map_abs h t k = None"
    "\<And>w. dt_after h fst (Suc n) (map_store b w t') \<and> map_abs h (map_store b w t') = (map_abs h t)(k \<mapsto> w)"
proof -
  have inv: "dt_inv h (=) fst t" using assms(1) by (simp add: dt_after_def)
  from dt_after_insert [where mk = "\<lambda>k. (k, dflt)" and key = k, OF assms] obtain t1 b t' x where
    r: "dt_rehash_if_full h (=) fst t k = Some t1" "dt_insert_unsafe h (=) fst (\<lambda>k. (k, dflt)) t1 k = Some (b, t')"
    "dt_after h fst (Suc n) t'" "dt_item t' b = Some x" "fst x = k" "dt_items t' = insert x (dt_items t)"
    "x \<in> dt_items t \<or> (x = (k, dflt) \<and> (\<forall>y \<in> dt_items t. fst y \<noteq> k))" "dt_count t1 = dt_count t"
    "dt_count t' = (if x \<in> dt_items t then dt_count t else dt_count t + 1)" by (metis fst_conv)
  obtain v where x: "x = (k, v)" using r(5) by (cases x) auto
  have inv': "dt_inv h (=) fst t'" using r(3) by (simp add: dt_after_def)
  have d: "dt_data t' ! b = Live (k, v)" using r(4) x by (auto simp: dt_item_def split: if_splits cell.splits)
  have uniq: "w = v" if "(k, w) \<in> dt_items t" for w
    using eqk.items_unique [OF inv', of "(k, w)" "(k, v)"] that r(6) x by auto
  have old: "map_abs h t k = Some v \<longleftrightarrow> x \<in> dt_items t" using map_abs_iff [OF inv] x by simp
  have v: "v = (case map_abs h t k of Some v \<Rightarrow> v | None \<Rightarrow> dflt)"
    using r(7) x old map_abs_None [OF inv, of k] by (auto split: option.splits)
  have m: "map_abs h t' = (map_abs h t)(k \<mapsto> v)"
    by (rule map_abs_eqI [OF inv']) (use r(6) x uniq map_abs_iff [OF inv] in auto)
  have c: "dt_count t1 < dt_count t' \<longleftrightarrow> map_abs h t k = None"
    using r(7,8,9) old x map_abs_None [OF inv, of k] by auto
  have st: "dt_after h fst (Suc n) (map_store b w t') \<and> map_abs h (map_store b w t') = (map_abs h t)(k \<mapsto> w)" for w
  proof -
    let ?t = "t'\<lparr>dt_data := (dt_data t')[b := Live (k, w)]\<rparr>"
    have s: "map_store b w t' = ?t" using d by (simp add: map_store_def)
    note rp = eqk.replace_item [OF inv' r(4), of "(k, w)"]
    have i: "dt_inv h (=) fst ?t" "dt_items ?t = insert (k, w) (dt_items t' - {(k, v)})" using rp x by auto
    have "map_abs h ?t = (map_abs h t)(k \<mapsto> w)"
      by (rule map_abs_eqI [OF i(1)]) (use i(2) r(6) x uniq map_abs_iff [OF inv] in auto)
    then show ?thesis using r(3) i(1) by (simp add: s dt_after_def)
  qed
  show ?thesis using that [OF r(1,2,3) d v m c] st by blast
qed

lemma map_step_sim:
  assumes "dt_after h fst n t" "n < 2 ^ 61"
  shows "\<exists>t'. map_step h dflt x t = Inr (fst (map_spec dflt x (map_abs h t)), t') \<and> dt_after h fst (Suc n) t' \<and>
    map_abs h t' = snd (map_spec dflt x (map_abs h t))"
proof -
  have inv: "dt_inv h (=) fst t" using assms by (simp add: dt_after_def)
  have same: "dt_after h fst (Suc n) t" using dt_afterI [OF assms(1) inv] by simp
  note slot = map_slot_spec [OF assms, of _ dflt thesis for thesis]
  show ?thesis
  proof (cases x)
    case (MAssign k v)
    show ?thesis by (rule slot [of k]) (auto simp: MAssign map_assign_def map_slot_def opt_result_def)
  next
    case (MIndex k)
    show ?thesis by (rule slot [of k]) (auto simp: MIndex map_slot_def opt_result_def Let_def)
  next
    case (MTryInsert k v)
    show ?thesis
    proof (rule slot [of k], goal_cases)
      case (1 t1 b t' w)
      then show ?case by (cases "map_abs h t k") (auto simp: MTryInsert map_try_insert_def opt_result_def)
    qed
  next
    case (MFind k)
    have "map_find h (=) t k = Some (map_abs h t k)"
      using inv by (cases rule: eqk.find_spec [of h fst t k]) (auto simp: map_find_def map_abs_def)
    then show ?thesis using MFind same by (simp add: opt_result_def)
  next
    case (MErase k)
    show ?thesis
    proof (rule dt_after_erase [OF assms(1), of k], goal_cases)
      case (1 t')
      then have i: "dt_inv h (=) fst t'" by (simp add: dt_after_def)
      have "map_abs h t' = (map_abs h t)(k := None)"
        by (rule map_abs_eqI [OF i]) (use 1(3) map_abs_iff [OF inv] in auto)
      then show ?case using MErase 1 by (simp add: opt_result_def)
    qed
  next
    case MSize
    then show ?thesis using same card_dom_map_abs [OF inv] by simp
  next
    case (MClear c)
    have "map_abs h (dt_clear c t) = Map.empty"
      by (rule map_abs_eqI [OF eqk.clear_spec(1) [OF inv]]) (simp add: eqk.clear_spec(2) [OF inv])
    then show ?thesis using MClear dt_after_clear [OF assms(1), of c] by simp
  qed
qed

interpretation dmap: counted_refinement "map_step h dflt" "map_spec dflt" "map_abs h" "dt_after h fst" "2 ^ 61" for h dflt
  by unfold_locales (rule map_step_sim)

section \<open>Properties\<close>

text \<open>
  C3. A \<open>DenseHashSet2\<close> is a set: for every hash function, any sequence of up to \<open>2 ^ 61\<close>
  operations on a fresh set runs to the end (no assertion fails, no probe or shift loop spins)
  and returns exactly the answers a mathematical set gives; the table is well formed at the
  end, its items are the elements of the set, and its \<open>count\<close> is their number.
\<close>

theorem dense_set_refines_set:
  assumes "length ops \<le> 2 ^ 61"
  shows "\<exists>outs t. run_ops (set_step h) ops (dt_new 0) = Inr (outs, t)
    \<and> run_ops (\<lambda>x S. Inr (set_spec x S)) ops {} = (Inr (outs, dt_items t) :: unit + _)
    \<and> dt_inv h (=) id t \<and> dt_count t = card (dt_items t)"
proof -
  have "dt_after h id 0 (dt_new 0)" "dt_items (dt_new 0 :: 'a dense_table) = {}"
    by (auto simp: dt_after_def dt_inv_def dt_new_def dt_items_def dt_item_def)
  then show ?thesis
    using dset.run [of h 0 "dt_new 0" ops] assms eqk.count_items(2) [of h id] by (auto simp: dt_after_def)
qed

theorem dense_set_refines_set_witness:
  "\<exists>outs t. run_ops (set_step (\<lambda>n. of_nat n)) [SInsert 3, STryInsert 3, SErase 3, SContains (3::nat)] (dt_new 0) = Inr (outs, t)
    \<and> outs = [SUnit, SBool False, SUnit, SBool False]"
  using dense_set_refines_set [of "[SInsert 3, STryInsert 3, SErase 3, SContains (3::nat)]" "\<lambda>n. of_nat n"] by auto

text \<open>
  C4. A \<open>DenseHashMap2\<close> is a finite map: any sequence of up to \<open>2 ^ 61\<close> calls (\<open>m[k] = v\<close>,
  \<open>m[k]\<close>, \<open>try_insert\<close>, \<open>find\<close>, \<open>erase\<close>, \<open>size\<close>, \<open>clear\<close>) on a fresh map runs to the end and
  returns what the finite map returns, where \<open>m[k]\<close> of an absent key inserts the default value
  and \<open>try_insert\<close> keeps the value of a present key.
\<close>

theorem dense_map_refines_map:
  assumes "length ops \<le> 2 ^ 61"
  shows "\<exists>outs t. run_ops (map_step h dflt) ops (dt_new 0) = Inr (outs, t)
    \<and> run_ops (\<lambda>x m. Inr (map_spec dflt x m)) ops Map.empty = (Inr (outs, map_abs h t) :: unit + _)
    \<and> dt_inv h (=) fst t"
proof -
  have i: "dt_after h fst 0 (dt_new 0 :: ('a \<times> 'b) dense_table)"
    by (auto simp: dt_after_def dt_inv_def dt_new_def)
  moreover have "map_abs h (dt_new 0 :: ('a \<times> 'b) dense_table) = Map.empty"
    by (simp add: map_abs_def map_find_def dt_find_def dt_new_def fun_eq_iff)
  ultimately show ?thesis using dmap.run [OF i, of ops dflt] assms by (auto simp: dt_after_def)
qed

theorem dense_map_refines_map_witness:
  "\<exists>outs t. run_ops (map_step (\<lambda>n. of_nat n) 0) [MAssign 5 7, MTryInsert 5 8, MFind (5::nat), MIndex 6] (dt_new 0) = Inr (outs, t)
    \<and> outs = [MUnit, MBool False, MValue (Some (7::nat)), MValue (Some 0)]"
  using dense_map_refines_map [of "[MAssign 5 7, MTryInsert 5 8, MFind (5::nat), MIndex 6]" "\<lambda>n. of_nat n" "0 :: nat"]
  by (auto simp: Let_def)

text \<open>
  Iteration, equality and copying: iterating a well-formed table visits every item exactly
  once, \<open>operator==\<close> of two sets decides equality of their elements, copy construction and
  copy assignment yield a well-formed table with the same items, and a move leaves a
  well-formed empty table behind.
\<close>

theorem dense_set_iteration_equality:
  assumes inv: "dt_inv h (=) id t" "dt_inv h (=) id other"
  shows "(\<exists>xs. dt_iterate t (dt_begin t) = map Live xs \<and> distinct xs \<and> set xs = dt_items t)
    \<and> set_equal h (=) t other = Some (dt_items t = dt_items other)
    \<and> dt_inv h (=) id (dt_copy t) \<and> dt_items (dt_copy t) = dt_items t
    \<and> dt_assign other t = dt_copy t
    \<and> fst (dt_move_assign other t) = t \<and> dt_inv h (=) id (snd (dt_move t)) \<and> dt_items (snd (dt_move t)) = {}"
proof -
  obtain xs where xs: "dt_iterate t (dt_begin t) = map Live xs" "set xs = dt_items t" "distinct xs"
    using eqk.iterate_items [OF inv(1)] by metis
  have c: "set_contains h (=) other k = Some (k \<in> dt_items other)" for k
    using inv(2) by (cases rule: eqk.find_spec [of h id other k]) (auto simp: set_contains_def)
  have all: "set_all_contained h (=) other (map Live ys) = Some (set ys \<subseteq> dt_items other)" for ys
    by (induction ys) (auto simp: c)
  have n: "dt_count t = card (dt_items t)" "dt_count other = card (dt_items other)" "finite (dt_items other)"
    using eqk.count_items [OF inv(1)] eqk.count_items [OF inv(2)] by auto
  have "dt_items t \<subseteq> dt_items other \<longleftrightarrow> dt_items t = dt_items other" if "dt_count t = dt_count other"
    using that n card_subset_eq [of "dt_items other" "dt_items t"] by auto
  then have "set_equal h (=) t other = Some (dt_items t = dt_items other)"
    using n xs all by (auto simp: set_equal_def)
  moreover have "dt_assign other t = dt_copy t" "fst (dt_move_assign other t) = t"
    by (simp_all add: dt_assign_def dt_move_assign_def Let_def dt_destroy_def)
  moreover have "dt_inv h (=) id (snd (dt_move t))" "dt_items (snd (dt_move t)) = {}"
    by (simp_all add: dt_move_def dt_inv_def dt_items_def dt_item_def)
  ultimately show ?thesis using xs eqk.copy_spec [OF inv(1)] by blast
qed

theorem dense_set_iteration_equality_witness:
  "set_equal (\<lambda>n :: nat. of_nat n) (=) (dt_new 0) (dt_new 16) = Some True"
proof -
  have e: "dt_inv (\<lambda>n :: nat. of_nat n) (=) id (dt_new 0)" by (simp add: dt_inv_def dt_new_def)
  have f: "dt_inv (\<lambda>n :: nat. of_nat n) (=) id (dt_new 16)"
    using eqk.inv_part [where t = "dt_new 16" and getKey = "id :: nat \<Rightarrow> nat" and k = 4]
      eqk.part_new(1) [where k = 4 and getKey = "id :: nat \<Rightarrow> nat"] eqk.part_new(3) [of 4, where 'i = nat] by simp
  have "dt_items (dt_new 0 :: nat dense_table) = dt_items (dt_new 16)"
    using eqk.part_new(2) [of 4, where 'i = nat] by (simp add: dt_items_def dt_item_def dt_new_def)
  then show ?thesis using dense_set_iteration_equality [OF e f] by simp
qed

lemma and_le_right: "x AND y \<le> y" for x y :: nat
proof -
  have "int (x AND y) \<le> int y" unfolding of_nat_and_eq by (rule AND_upper2) simp
  then show ?thesis by simp
qed

lemma eraseLoop_cell:
  assumes "dt_eraseLoop hasher getKey fuel i j t = Some (i', t')"
    and "length (dt_data t) = dt_capacity t" "0 < dt_capacity t"
  shows "(i' = i \<and> t' = t) \<or> dt_data t' ! i' = MovedFrom"
  using assms
proof (induction fuel arbitrary: i j t)
  case (Suc fuel)
  let ?j = "(j + 1) AND (dt_capacity t - 1)"
  have j: "?j < length (dt_data t)" using Suc.prems(2,3) and_le_right [of "j + 1" "dt_capacity t - 1"] by linarith
  show ?case
  proof (cases "bs_contains (dt_used t) ?j")
    case True
    then obtain item where it: "dt_data t ! ?j = Live item"
      using Suc.prems(1) by (auto simp: Let_def split: cell.splits)
    let ?t = "t\<lparr>dt_used := bs_set (bs_set (dt_used t) i True) ?j False, dt_data := (dt_data t)[i := Live item, ?j := MovedFrom]\<rparr>"
    consider "dt_eraseLoop hasher getKey fuel i ?j t = Some (i', t')" | "dt_eraseLoop hasher getKey fuel ?j ?j ?t = Some (i', t')"
      using Suc.prems(1) True it by (auto simp: Let_def split: if_splits)
    then show ?thesis
    proof cases
      case 1
      then show ?thesis using Suc.IH Suc.prems(2,3) by blast
    next
      case 2
      have "dt_data ?t ! ?j = MovedFrom" using j by simp
      then show ?thesis using Suc.IH [OF 2] Suc.prems(2,3) by auto
    qed
  next
    case False
    then show ?thesis using Suc.prems(1) by (simp add: Let_def)
  qed
qed simp

lemmas dt_eraseLoop_numeral = dt_eraseLoop.simps(2) [where fuel = "pred_numeral v" for v, folded numeral_eq_Suc]

text \<open>
  \<open>doErase\<close> destroys the erased object only when nothing is shifted over it: if a later
  item of the cluster moves, the destructor call at the end runs on a moved-from cell, the
  moved item is constructed over the erased one, and the erased object is never destroyed.
\<close>

theorem erase_shift_skips_destructor:
  assumes "dt_doErase hasher getKey t b = Some (t', c)" "dt_data t ! b = Live x" "length (dt_data t) = dt_capacity t" "0 < dt_capacity t"
  shows "(c = Live x \<and> dt_data t' = (dt_data t)[b := Raw]) \<or> c = MovedFrom"
proof -
  obtain i t1 where l: "dt_eraseLoop hasher getKey (dt_capacity t) b b t = Some (i, t1)"
    "dt_data t' = (dt_data t1)[i := Raw]" "c = dt_data t1 ! i"
    using assms(1) by (auto simp: dt_doErase_def split: option.splits)
  show ?thesis using eraseLoop_cell [OF l(1) assms(3,4)] l(2,3) assms(2) by auto
qed

theorem erase_shift_skips_destructor_witness:
  "\<exists>t'. dt_doErase (\<lambda>_. 0) id
     \<lparr>dt_data = [Live 1, Live (2::nat), Raw, Raw], dt_used = \<lparr>bs_capacity = 4, bs_count = 1, bs_data = [3]\<rparr>,
      dt_capacity = 4, dt_count = 2, dt_hashShift = 62\<rparr> 0 = Some (t', MovedFrom)"
proof -
  let ?t = "\<lparr>dt_data = [Live 1, Live (2::nat), Raw, Raw], dt_used = \<lparr>bs_capacity = 4, bs_count = 1, bs_data = [3]\<rparr>,
      dt_capacity = 4, dt_count = 2, dt_hashShift = 62\<rparr>"
  have "dt_eraseLoop (\<lambda>_. 0) id (dt_capacity ?t) 0 0 ?t = Some (1, ?t\<lparr>dt_data := [Live 2, MovedFrom, Raw, Raw], dt_used := (dt_used ?t)\<lparr>bs_data := [1]\<rparr>\<rparr>)"
    by (simp add: dt_eraseLoop_numeral Let_def bs_contains_def bs_set_def dt_doHash_def flip: numeral_2_eq_2)
  then obtain t' c where e: "dt_doErase (\<lambda>_. 0) id ?t 0 = Some (t', c)" "dt_data t' = [Live 2, Raw, Raw, Raw]"
    by (simp add: dt_doErase_def)
  show ?thesis using erase_shift_skips_destructor [OF e(1)] e by simp
qed

end
