(* ===== verification/Wire.thy ===== *)
theory Wire
  imports Prelude
begin

text \<open>
  The byte-level wire format the bytecode writer and the loader share: little-endian integers
  and variable-length integers (\<^verbatim>\<open>Bytecode/src/BytecodeBuilder.cpp\<close>: \<open>writeByte\<close>, \<open>writeInt\<close>,
  \<open>writeDouble\<close>, \<open>writeVarInt\<close>; \<^verbatim>\<open>VM/src/lvmload.cpp\<close> and \<^verbatim>\<open>Common/src/BytecodeWire.cpp\<close>: \<open>read\<close>,
  \<open>readVarInt\<close>, \<open>readVarInt64\<close>). A reader takes the bytes from the current offset on and
  returns the value with the bytes after it; \<open>None\<close> stands for a read past the end of the data
  or for a shift by at least the width of the operand.
\<close>

section \<open>Fixed-width integers\<close>

text \<open>\<open>memcpy\<close> of an integer of \<open>n\<close> bytes to and from memory, least significant byte first.\<close>

primrec put_le :: "nat \<Rightarrow> 'a::len word \<Rightarrow> bytes" where
  "put_le 0 w = []"
| "put_le (Suc n) w = ucast w # put_le n (drop_bit 8 w)"

primrec get_le :: "nat \<Rightarrow> bytes \<Rightarrow> ('a::len word \<times> bytes) option" where
  "get_le 0 data = Some (0, data)"
| "get_le (Suc n) data =
     (case data of [] \<Rightarrow> None
      | b # rest \<Rightarrow> map_option (\<lambda>(w, rest'). (ucast b OR push_bit 8 w, rest')) (get_le n rest))"

definition writeByte :: "u8 \<Rightarrow> bytes" where
  "writeByte value = [value]"

definition writeInt :: "u32 \<Rightarrow> bytes" where
  "writeInt value = put_le 4 value"

definition writeFloat :: "u32 \<Rightarrow> bytes" where
  "writeFloat value = put_le 4 value"

definition writeDouble :: "u64 \<Rightarrow> bytes" where
  "writeDouble value = put_le 8 value"

definition read_u8 :: "bytes \<Rightarrow> (u8 \<times> bytes) option" where
  "read_u8 data = (case data of [] \<Rightarrow> None | b # rest \<Rightarrow> Some (b, rest))"

definition read_u32 :: "bytes \<Rightarrow> (u32 \<times> bytes) option" where
  "read_u32 data = get_le 4 data"

definition read_u64 :: "bytes \<Rightarrow> (u64 \<times> bytes) option" where
  "read_u64 data = get_le 8 data"

section \<open>Variable-length integers\<close>

function writeVarInt :: "u64 \<Rightarrow> bytes" where
  "writeVarInt value =
     (let b = ucast (value AND 127) OR (if value > 127 then 128 else 0);
          value' = drop_bit 7 value
      in writeByte b @ (if value' \<noteq> 0 then writeVarInt value' else []))"
  by pat_completeness auto
termination
proof (relation "measure unat", goal_cases)
  case (2 v b v')
  have "v \<noteq> 0" using 2 by auto
  then have "0 < unat v" by (simp add: unat_gt_0)
  moreover have "unat v' = unat v div 128" unfolding 2 unat_drop_bit_eq by (simp add: drop_bit_eq_div)
  ultimately show ?case by simp
qed simp

declare writeVarInt.simps [simp del]

text \<open>The loop of the readers, at the width of its accumulator.\<close>

fun readVar :: "'a::len word \<Rightarrow> nat \<Rightarrow> bytes \<Rightarrow> ('a word \<times> bytes) option" where
  "readVar result shift [] = None"
| "readVar result shift (byte # rest) =
     (if shift \<ge> LENGTH('a) then None
      else let result' = result OR push_bit shift (ucast (byte AND 127))
           in if byte AND 128 \<noteq> 0 then readVar result' (shift + 7) rest else Some (result', rest))"

definition readVarInt64 :: "bytes \<Rightarrow> (u64 \<times> bytes) option" where
  "readVarInt64 data = readVar 0 0 data"

text \<open>The loader's 32-bit reader, and the one of \<open>BytecodeWire.cpp\<close>, which truncates.\<close>

definition readVarInt :: "bytes \<Rightarrow> (u32 \<times> bytes) option" where
  "readVarInt data = readVar 0 0 data"

definition wire_readVarInt :: "bytes \<Rightarrow> (u32 \<times> bytes) option" where
  "wire_readVarInt data = map_option (\<lambda>(v, rest). (ucast v, rest)) (readVarInt64 data)"

section \<open>Round trips\<close>

lemma unat_of_nat_small:
  "n < 2 ^ 32 \<Longrightarrow> unat (of_nat n :: u32) = n" "n < 2 ^ 8 \<Longrightarrow> unat (of_nat n :: u8) = n" "n < 2 ^ 64 \<Longrightarrow> unat (of_nat n :: u64) = n"
  by (simp_all only: unat_of_nat) (simp_all add: take_bit_nat_eq_self)

lemma get_put_le: "get_le n (put_le n w @ rest) = Some (take_bit (8 * n) w, rest)"
proof (induction n arbitrary: w)
  case (Suc n)
  have "ucast (ucast w :: u8) OR push_bit 8 (take_bit (8 * n) (drop_bit 8 w)) = take_bit (8 * Suc n) w" for w :: "'a word"
    by (rule bit_word_eqI) (auto simp: bit_simps)
  with Suc show ?case by simp
qed simp

lemma unat_le_put:
  "read_u8 (writeByte b @ rest) = Some (b, rest)" "read_u32 (writeInt w @ rest) = Some (w, rest)"
  "read_u32 (writeFloat w @ rest) = Some (w, rest)" "read_u64 (writeDouble d @ rest) = Some (d, rest)"
proof -
  have "take_bit 32 w = w" "take_bit 64 d = d" for w :: u32 and d :: u64 by (simp_all add: take_bit_word_eq_self)
  then show "read_u32 (writeInt w @ rest) = Some (w, rest)" "read_u32 (writeFloat w @ rest) = Some (w, rest)"
    "read_u64 (writeDouble d @ rest) = Some (d, rest)"
    by (simp_all add: read_u32_def writeInt_def writeFloat_def read_u64_def writeDouble_def get_put_le)
qed (simp add: read_u8_def writeByte_def)

lemma varint_byte:
  fixes v :: u64
  defines "b \<equiv> ucast (v AND 127) OR (if v > 127 then 128 else 0) :: u8"
  shows "b AND 127 = ucast (take_bit 7 v)" "b AND 128 \<noteq> 0 \<longleftrightarrow> drop_bit 7 v \<noteq> 0"
proof -
  have m: "v AND 127 = take_bit 7 v" by (simp add: take_bit_eq_mask mask_eq_exp_minus_1)
  have bits: "bit (128 :: u8) n \<longleftrightarrow> n = 7" "bit (127 :: u8) n \<longleftrightarrow> n < 7" for n
    using bit_exp_iff [of 7 n, where 'a = u8] bit_mask_iff [of 7 n, where 'a = u8] by (auto simp: mask_eq_exp_minus_1)
  have bb: "bit b n \<longleftrightarrow> n < 8 \<and> (n < 7 \<and> bit v n \<or> 127 < v \<and> n = 7)" for n
    unfolding b_def m by (cases "127 < v") (auto simp only: if_True if_False bit_or_iff bit_unsigned_iff bit_take_bit_iff bits bit_0_eq possible_bit_word, auto)
  show "b AND 127 = ucast (take_bit 7 v)"
    by (rule bit_word_eqI) (simp only: bit_and_iff bb bits, auto simp: bit_unsigned_iff bit_take_bit_iff)
  have "b AND 128 \<noteq> 0 \<longleftrightarrow> bit b 7"
    by (simp only: bit_eq_iff [where 'a = u8] bit_and_iff bits) auto
  also have "\<dots> \<longleftrightarrow> v > 127" unfolding bb by auto
  also have "\<dots> \<longleftrightarrow> drop_bit 7 v \<noteq> 0"
  proof -
    have "drop_bit 7 v = 0 \<longleftrightarrow> unat v div 128 = 0"
      unfolding unat_eq_0 [symmetric] unat_drop_bit_eq by (simp add: drop_bit_eq_div)
    also have "\<dots> \<longleftrightarrow> unat v \<le> 127" by auto
    also have "\<dots> \<longleftrightarrow> v \<le> 127" by (simp add: word_le_nat_alt)
    finally show ?thesis by auto
  qed
  finally show "b AND 128 \<noteq> 0 \<longleftrightarrow> drop_bit 7 v \<noteq> 0" .
qed

lemma readVar_writeVarInt:
  fixes acc :: "'a::len word"
  assumes "unat v < 2 ^ (LENGTH('a) - shift)" "shift < LENGTH('a)" "LENGTH('a) \<le> 64"
  shows "readVar acc shift (writeVarInt v @ rest) = Some (acc OR push_bit shift (ucast v), rest)"
  using assms
proof (induction v arbitrary: acc shift rule: writeVarInt.induct)
  case (1 v)
  let ?b = "ucast (v AND 127) OR (if v > 127 then 128 else 0) :: u8" and ?v = "drop_bit 7 v"
  note b = varint_byte [of v]
  have split: "push_bit shift (ucast (take_bit 7 v)) OR push_bit (shift + 7) (ucast ?v :: 'a word) = push_bit shift (ucast v :: 'a word)"
  proof (rule bit_word_eqI)
    fix n assume n: "n < LENGTH('a)"
    have "7 + (n - (shift + 7)) = n - shift" if "shift + 7 \<le> n" using that by simp
    then show "bit (push_bit shift (ucast (take_bit 7 v)) OR push_bit (shift + 7) (ucast ?v :: 'a word)) n = bit (push_bit shift (ucast v :: 'a word)) n"
      using n by (cases "shift + 7 \<le> n") (auto simp: bit_simps)
  qed
  show ?case
  proof (cases "?v = 0")
    case True
    then have v: "v = take_bit 7 v" by (metis bits_ident mult_zero_left add_0 push_bit_of_0)
    have "writeVarInt v = [?b]" using True by (subst writeVarInt.simps) (simp add: writeByte_def Let_def)
    moreover have "push_bit shift (ucast (ucast (take_bit 7 v) :: u8)) = push_bit shift (ucast v :: 'a word)"
      by (subst (2) v, rule bit_word_eqI) (auto simp: bit_simps)
    ultimately show ?thesis using 1 b True by (simp add: Let_def)
  next
    case False
    have w: "writeVarInt v = ?b # writeVarInt ?v" using False by (subst writeVarInt.simps) (simp add: writeByte_def Let_def)
    have v': "unat ?v = unat v div 128" unfolding unat_drop_bit_eq by (simp add: drop_bit_eq_div)
    have "128 \<le> unat v" using False v' by (metis div_less not_le unat_eq_0)
    then have "(2::nat) ^ 7 < 2 ^ (LENGTH('a) - shift)" using 1(2) by simp
    then have s: "7 < LENGTH('a) - shift" by (rule power_less_imp_less_exp [rotated]) simp
    then have "(2::nat) ^ (LENGTH('a) - shift) = 2 ^ (LENGTH('a) - (shift + 7)) * 128" 
      using power_add [of "2 :: nat" "LENGTH('a) - (shift + 7)" 7] by simp
    then have u: "unat ?v < 2 ^ (LENGTH('a) - (shift + 7))" using 1(2) v' by (simp add: less_mult_imp_div_less)
    have t: "push_bit shift (ucast (ucast (take_bit 7 v) :: u8)) = push_bit shift (ucast (take_bit 7 v) :: 'a word)"
      by (rule bit_word_eqI) (auto simp: bit_simps)
    show ?thesis using 1(1) [OF refl refl False u] s 1(3,4) b False split t by (simp add: w Let_def or.assoc)
  qed
qed

lemma readVarInt64_write [simp]: "readVarInt64 (writeVarInt v @ rest) = Some (v, rest)"
  using readVar_writeVarInt [of v 0, where 'a = 64] unsigned_less [of v, where 'a = nat] by (simp add: readVarInt64_def)

lemma readVarInt_write: "unat v < 2 ^ 32 \<Longrightarrow> readVarInt (writeVarInt v @ rest) = Some (ucast v, rest)"
  using readVar_writeVarInt [of v 0, where 'a = 32] by (simp add: readVarInt_def)

lemma readVarInt_u32 [simp]: "readVarInt (writeVarInt (ucast (x :: u32)) @ rest) = Some (x, rest)"
proof -
  have "unat (ucast x :: u64) < 2 ^ 32" using unsigned_less [of x, where 'a = nat] le_less_trans [OF take_bit_nat_less_eq_self]
    by (fastforce simp: unsigned_ucast_eq)
  moreover have "ucast (ucast x :: u64) = x" by (rule bit_word_eqI) (auto simp: bit_simps)
  ultimately show ?thesis using readVarInt_write [of "ucast x"] by simp
qed

lemma wire_readVarInt_write: "wire_readVarInt (writeVarInt v @ rest) = Some (ucast v, rest)"
  by (simp add: wire_readVarInt_def)

lemma readVarInt_0: "readVarInt (writeVarInt 0 @ rest) = Some (0, rest)"
  using readVarInt_u32 [of 0 rest] by simp

lemma writeVarInt_small: "v < 128 \<Longrightarrow> writeVarInt v = [ucast v]"
proof -
  assume v: "v < 128"
  have "drop_bit 7 v = 0" unfolding unat_eq_0 [symmetric] unat_drop_bit_eq using v by (simp add: drop_bit_eq_div word_less_nat_alt)
  moreover have "v AND 127 = take_bit 7 v" by (simp add: take_bit_eq_mask mask_eq_exp_minus_1)
  moreover have "take_bit 7 v = v" using \<open>drop_bit 7 v = 0\<close> by (simp only: take_bit_eq_self_iff_drop_bit_eq_0)
  moreover have "\<not> v > 127" using v by (simp add: word_less_nat_alt)
  ultimately show ?thesis by (subst writeVarInt.simps) (simp add: writeByte_def Let_def)
qed

lemma writeVarInt_nonempty: "writeVarInt v \<noteq> []"
  by (subst writeVarInt.simps) (simp add: writeByte_def Let_def)

lemmas read_write [simp] = unat_le_put readVarInt64_write readVarInt_u32 readVarInt_0 writeVarInt_nonempty

section \<open>Sequences\<close>

primrec read_n :: "nat \<Rightarrow> (bytes \<Rightarrow> ('b \<times> bytes) option) \<Rightarrow> bytes \<Rightarrow> ('b list \<times> bytes) option" where
  "read_n 0 get data = Some ([], data)"
| "read_n (Suc n) get data =
     (case get data of None \<Rightarrow> None
      | Some (x, rest) \<Rightarrow> map_option (\<lambda>(xs, rest'). (x # xs, rest')) (read_n n get rest))"

text \<open>A writer and a reader that understand each other.\<close>

locale wire_codec =
  fixes put :: "'a \<Rightarrow> bytes" and get :: "bytes \<Rightarrow> ('b \<times> bytes) option" and val :: "'a \<Rightarrow> 'b" and ok :: "'a \<Rightarrow> bool"
  assumes get_put: "ok x \<Longrightarrow> get (put x @ rest) = Some (val x, rest)"
begin

lemma read_all:
  "\<forall>x \<in> set xs. ok x \<Longrightarrow> read_n (length xs) get (concat (map put xs) @ rest) = Some (map val xs, rest)"
  by (induction xs) (auto simp: get_put)

end

interpretation w_u32: wire_codec writeInt read_u32 id "\<lambda>_. True"
  by unfold_locales simp

interpretation w_byte: wire_codec writeByte read_u8 id "\<lambda>_. True"
  by unfold_locales simp

interpretation w_var: wire_codec "\<lambda>x :: u32. writeVarInt (ucast x)" readVarInt id "\<lambda>_. True"
  by unfold_locales simp

section \<open>Properties\<close>

lemma length_writeVarInt: "unat v < 128 ^ n \<Longrightarrow> 0 < n \<Longrightarrow> length (writeVarInt v) \<le> n"
proof (induction n arbitrary: v)
  case (Suc n)
  let ?v = "drop_bit 7 v"
  have v': "unat ?v = unat v div 128" unfolding unat_drop_bit_eq by (simp add: drop_bit_eq_div)
  show ?case
  proof (cases "?v = 0")
    case True
    then have "length (writeVarInt v) = 1" by (subst writeVarInt.simps) (simp add: writeByte_def Let_def)
    then show ?thesis by simp
  next
    case False
    then have "length (writeVarInt v) = Suc (length (writeVarInt ?v))" by (subst writeVarInt.simps) (simp add: writeByte_def Let_def)
    moreover have u: "unat ?v < 128 ^ n" using Suc.prems(1) v' by (simp add: less_mult_imp_div_less mult.commute)
    moreover have "0 < n" using u False unat_eq_0 [of ?v] by (cases n) auto
    ultimately show ?thesis using Suc.IH [of ?v] by simp
  qed
qed simp

text \<open>
  Variable-length integers: what \<open>writeVarInt\<close> writes, the 64-bit readers of the loader and of
  \<open>BytecodeWire\<close> read back exactly and stop right after it, the 32-bit reader does so for values
  below \<open>2 ^ 32\<close>, and no encoding is longer than ten bytes (five for 32-bit values).
\<close>

theorem varint_roundtrip:
  "readVarInt64 (writeVarInt v @ rest) = Some (v, rest)
   \<and> wire_readVarInt (writeVarInt v @ rest) = Some (ucast v, rest)
   \<and> readVarInt (writeVarInt (ucast (x :: u32)) @ rest) = Some (x, rest)
   \<and> length (writeVarInt v) \<le> 10 \<and> length (writeVarInt (ucast x)) \<le> 5"
proof -
  have "unat v < 128 ^ 10" using unsigned_less [of v, where 'a = nat] by simp
  then have a: "length (writeVarInt v) \<le> 10" by (rule length_writeVarInt) simp
  have "unat (ucast x :: u64) < 2 ^ 32"
    using unsigned_less [of x, where 'a = nat] le_less_trans [OF take_bit_nat_less_eq_self] by (fastforce simp: unsigned_ucast_eq)
  then have "length (writeVarInt (ucast x)) \<le> 5" by (intro length_writeVarInt) simp_all
  then show ?thesis using a wire_readVarInt_write by simp
qed

end
