(* ===== verification/Instruction.thy ===== *)
theory Instruction
  imports Wire
begin

text \<open>
  Instruction words: the field macros of \<^verbatim>\<open>Common/include/Luau/Bytecode.h\<close>, the opcode classes of
  \<^verbatim>\<open>Common/include/Luau/BytecodeUtils.h\<close>, the packed import identifiers, and the string hash the
  compiler embeds for the VM (\<open>BytecodeBuilder::getStringHash\<close> against \<open>luaS_hash\<close>).
\<close>

section \<open>Opcodes\<close>

abbreviation "LOP_LOADB \<equiv> (3 :: u8)"
abbreviation "LOP_GETGLOBAL \<equiv> (7 :: u8)"
abbreviation "LOP_SETGLOBAL \<equiv> (8 :: u8)"
abbreviation "LOP_GETIMPORT \<equiv> (12 :: u8)"
abbreviation "LOP_GETTABLEKS \<equiv> (15 :: u8)"
abbreviation "LOP_SETTABLEKS \<equiv> (16 :: u8)"
abbreviation "LOP_NAMECALL \<equiv> (20 :: u8)"
abbreviation "LOP_RETURN \<equiv> (22 :: u8)"
abbreviation "LOP_JUMP \<equiv> (23 :: u8)"
abbreviation "LOP_JUMPBACK \<equiv> (24 :: u8)"
abbreviation "LOP_JUMPIF \<equiv> (25 :: u8)"
abbreviation "LOP_JUMPIFNOT \<equiv> (26 :: u8)"
abbreviation "LOP_JUMPIFEQ \<equiv> (27 :: u8)"
abbreviation "LOP_JUMPIFLE \<equiv> (28 :: u8)"
abbreviation "LOP_JUMPIFLT \<equiv> (29 :: u8)"
abbreviation "LOP_JUMPIFNOTEQ \<equiv> (30 :: u8)"
abbreviation "LOP_JUMPIFNOTLE \<equiv> (31 :: u8)"
abbreviation "LOP_JUMPIFNOTLT \<equiv> (32 :: u8)"
abbreviation "LOP_NEWTABLE \<equiv> (53 :: u8)"
abbreviation "LOP_SETLIST \<equiv> (55 :: u8)"
abbreviation "LOP_FORNPREP \<equiv> (56 :: u8)"
abbreviation "LOP_FORNLOOP \<equiv> (57 :: u8)"
abbreviation "LOP_FORGLOOP \<equiv> (58 :: u8)"
abbreviation "LOP_FORGPREP_INEXT \<equiv> (59 :: u8)"
abbreviation "LOP_FASTCALL3 \<equiv> (60 :: u8)"
abbreviation "LOP_FORGPREP_NEXT \<equiv> (61 :: u8)"
abbreviation "LOP_LOADKX \<equiv> (66 :: u8)"
abbreviation "LOP_JUMPX \<equiv> (67 :: u8)"
abbreviation "LOP_FASTCALL \<equiv> (68 :: u8)"
abbreviation "LOP_FASTCALL1 \<equiv> (73 :: u8)"
abbreviation "LOP_FASTCALL2 \<equiv> (74 :: u8)"
abbreviation "LOP_FASTCALL2K \<equiv> (75 :: u8)"
abbreviation "LOP_FORGPREP \<equiv> (76 :: u8)"
abbreviation "LOP_JUMPXEQKNIL \<equiv> (77 :: u8)"
abbreviation "LOP_JUMPXEQKB \<equiv> (78 :: u8)"
abbreviation "LOP_JUMPXEQKN \<equiv> (79 :: u8)"
abbreviation "LOP_JUMPXEQKS \<equiv> (80 :: u8)"
abbreviation "LOP_GETUDATAKS \<equiv> (83 :: u8)"
abbreviation "LOP_SETUDATAKS \<equiv> (84 :: u8)"
abbreviation "LOP_NAMECALLUDATA \<equiv> (85 :: u8)"
abbreviation "LOP_NEWCLASSMEMBER \<equiv> (86 :: u8)"
abbreviation "LOP_CALLFB \<equiv> (87 :: u8)"
abbreviation "LOP_CMPPROTO \<equiv> (88 :: u8)"
abbreviation "LOP_NEWCLASS \<equiv> (89 :: u8)"

definition getOpLength :: "u8 \<Rightarrow> nat" where
  "getOpLength op =
     (if op \<in> {LOP_GETGLOBAL, LOP_SETGLOBAL, LOP_GETIMPORT, LOP_GETTABLEKS, LOP_SETTABLEKS, LOP_NAMECALL, LOP_JUMPIFEQ,
         LOP_JUMPIFLE, LOP_JUMPIFLT, LOP_JUMPIFNOTEQ, LOP_JUMPIFNOTLE, LOP_JUMPIFNOTLT, LOP_NEWTABLE, LOP_SETLIST,
         LOP_FORGLOOP, LOP_LOADKX, LOP_FASTCALL2, LOP_FASTCALL2K, LOP_FASTCALL3, LOP_JUMPXEQKNIL, LOP_JUMPXEQKB,
         LOP_JUMPXEQKN, LOP_JUMPXEQKS, LOP_GETUDATAKS, LOP_SETUDATAKS, LOP_NAMECALLUDATA, LOP_NEWCLASSMEMBER,
         LOP_CALLFB, LOP_CMPPROTO, LOP_NEWCLASS}
      then 2 else 1)"

definition isFastCall :: "u8 \<Rightarrow> bool" where
  "isFastCall op \<longleftrightarrow> op \<in> {LOP_FASTCALL, LOP_FASTCALL1, LOP_FASTCALL2, LOP_FASTCALL2K, LOP_FASTCALL3}"

definition isJumpD :: "u8 \<Rightarrow> bool" where
  "isJumpD op \<longleftrightarrow> op \<in> {LOP_JUMP, LOP_JUMPIF, LOP_JUMPIFNOT, LOP_JUMPIFEQ, LOP_JUMPIFLE, LOP_JUMPIFLT, LOP_JUMPIFNOTEQ,
     LOP_JUMPIFNOTLE, LOP_JUMPIFNOTLT, LOP_FORNPREP, LOP_FORNLOOP, LOP_FORGPREP, LOP_FORGLOOP, LOP_FORGPREP_INEXT,
     LOP_FORGPREP_NEXT, LOP_JUMPBACK, LOP_JUMPXEQKNIL, LOP_JUMPXEQKB, LOP_JUMPXEQKN, LOP_JUMPXEQKS, LOP_CMPPROTO}"

definition isSkipC :: "u8 \<Rightarrow> bool" where
  "isSkipC op \<longleftrightarrow> op = LOP_LOADB"

definition isFallthrough :: "u8 \<Rightarrow> bool" where
  "isFallthrough op \<longleftrightarrow> op \<notin> {LOP_RETURN, LOP_JUMP, LOP_JUMPBACK, LOP_JUMPX}"

definition isLoopJump :: "u8 \<Rightarrow> bool" where
  "isLoopJump op \<longleftrightarrow> op \<in> {LOP_JUMPBACK, LOP_FORGLOOP, LOP_FORNLOOP}"

section \<open>Fields\<close>

definition LUAU_INSN_OP :: "u32 \<Rightarrow> u8" where
  "LUAU_INSN_OP insn = ucast (insn AND 255)"

definition LUAU_INSN_A :: "u32 \<Rightarrow> u8" where
  "LUAU_INSN_A insn = ucast (drop_bit 8 insn AND 255)"

definition LUAU_INSN_B :: "u32 \<Rightarrow> u8" where
  "LUAU_INSN_B insn = ucast (drop_bit 16 insn AND 255)"

definition LUAU_INSN_C :: "u32 \<Rightarrow> u8" where
  "LUAU_INSN_C insn = ucast (drop_bit 24 insn AND 255)"

definition LUAU_INSN_D :: "u32 \<Rightarrow> int" where
  "LUAU_INSN_D insn = sint (signed_drop_bit 16 insn)"

definition LUAU_INSN_E :: "u32 \<Rightarrow> int" where
  "LUAU_INSN_E insn = sint (signed_drop_bit 8 insn)"

definition insn_ABC :: "u8 \<Rightarrow> u8 \<Rightarrow> u8 \<Rightarrow> u8 \<Rightarrow> u32" where
  "insn_ABC op a b c = ucast op OR push_bit 8 (ucast a) OR push_bit 16 (ucast b) OR push_bit 24 (ucast c)"

definition insn_AD :: "u8 \<Rightarrow> u8 \<Rightarrow> u16 \<Rightarrow> u32" where
  "insn_AD op a d = ucast op OR push_bit 8 (ucast a) OR push_bit 16 (ucast d)"

definition insn_E :: "u8 \<Rightarrow> u32 \<Rightarrow> u32" where
  "insn_E op e = ucast op OR push_bit 8 e"

definition getJumpTarget :: "u32 \<Rightarrow> nat \<Rightarrow> int" where
  "getJumpTarget insn pc =
     (let op = LUAU_INSN_OP insn
      in if isJumpD op then int pc + LUAU_INSN_D insn + 1
         else if isFastCall op then int pc + uint (LUAU_INSN_C insn) + 2
         else if isSkipC op \<and> LUAU_INSN_C insn \<noteq> 0 then int pc + uint (LUAU_INSN_C insn) + 1
         else if op = LOP_JUMPX then int pc + LUAU_INSN_E insn + 1
         else - 1)"

section \<open>Import identifiers\<close>

text \<open>\<open>None\<close> when the range assertion fails.\<close>

definition getImportId1 :: "u32 \<Rightarrow> u32 option" where
  "getImportId1 id0 = (if id0 < 1024 then Some (push_bit 30 1 OR push_bit 20 id0) else None)"

definition getImportId2 :: "u32 \<Rightarrow> u32 \<Rightarrow> u32 option" where
  "getImportId2 id0 id1 =
     (if id0 OR id1 < 1024 then Some (push_bit 30 2 OR push_bit 20 id0 OR push_bit 10 id1) else None)"

definition getImportId3 :: "u32 \<Rightarrow> u32 \<Rightarrow> u32 \<Rightarrow> u32 option" where
  "getImportId3 id0 id1 id2 =
     (if id0 OR id1 OR id2 < 1024 then Some (push_bit 30 3 OR push_bit 20 id0 OR push_bit 10 id1 OR id2) else None)"

text \<open>The components, \<open>None\<close> for the source's \<open>-1\<close>.\<close>

definition decomposeImportId :: "u32 \<Rightarrow> nat \<times> u32 option \<times> u32 option \<times> u32 option" where
  "decomposeImportId ids =
     (let count = unat (drop_bit 30 ids)
      in (count,
          if count > 0 then Some (drop_bit 20 ids AND 1023) else None,
          if count > 1 then Some (drop_bit 10 ids AND 1023) else None,
          if count > 2 then Some (ids AND 1023) else None))"

section \<open>String hashes\<close>










section \<open>Properties\<close>

lemma mask_255: "(x :: u32) AND 255 = take_bit 8 x"
  by (simp add: take_bit_eq_mask mask_eq_exp_minus_1)

lemma mask_1023: "(x :: u32) AND 1023 = take_bit 10 x"
  by (simp add: take_bit_eq_mask mask_eq_exp_minus_1)

lemma insn_op: "LUAU_INSN_OP (insn_ABC op a b c) = op" "LUAU_INSN_OP (insn_AD op a d) = op" "LUAU_INSN_OP (insn_E op e) = op"
  unfolding LUAU_INSN_OP_def insn_ABC_def insn_AD_def insn_E_def mask_255
  by (rule bit_word_eqI; auto simp: bit_simps)+

lemma insn_fields:
  "LUAU_INSN_A (insn_ABC op a b c) = a" "LUAU_INSN_B (insn_ABC op a b c) = b" "LUAU_INSN_C (insn_ABC op a b c) = c"
  "LUAU_INSN_A (insn_AD op a d) = a"
  unfolding LUAU_INSN_A_def LUAU_INSN_B_def LUAU_INSN_C_def insn_ABC_def insn_AD_def mask_255
  by (rule bit_word_eqI; auto simp: bit_simps dest: bit_imp_le_length)+

lemma insn_D: "LUAU_INSN_D (insn_AD op a d) = sint d"
  unfolding LUAU_INSN_D_def insn_AD_def
proof (rule bit_eqI)
  fix n :: nat
  consider "n < 15" | "n = 15" | "16 \<le> n" by linarith
  then show "bit (sint (signed_drop_bit 16 (ucast op OR push_bit 8 (ucast a) OR push_bit 16 (ucast d) :: u32))) n \<longleftrightarrow> bit (sint d) n"
    by cases (auto simp: bit_simps min_def dest: bit_imp_le_length)
qed

lemma sint_high_bits:
  assumes "- (2 ^ k) \<le> sint (e :: u32)" "sint e < 2 ^ k" "k \<le> n" "n < 32"
  shows "bit e n \<longleftrightarrow> bit e k"
proof -
  have s: "signed_take_bit k (sint e) = sint e" using assms(1,2) by (rule signed_take_bit_int_eq_self)
  have "bit (sint e) n \<longleftrightarrow> bit (signed_take_bit k (sint e)) n" unfolding s ..
  also have "\<dots> \<longleftrightarrow> bit (sint e) k" using assms(3) by (simp add: bit_signed_take_bit_iff min_def)
  finally show ?thesis using assms(3,4) by (auto simp: bit_sint_iff)
qed

lemma insn_E_field:
  assumes "- (2 ^ 23) \<le> sint e" "sint e < 2 ^ 23"
  shows "LUAU_INSN_E (insn_E op e) = sint e"
proof (rule bit_eqI)
  fix n
  have h: "bit e n \<longleftrightarrow> bit e 23" if "23 \<le> n" "n < 32" for n by (rule sint_high_bits [OF assms that])
  show "bit (LUAU_INSN_E (insn_E op e)) n \<longleftrightarrow> bit (sint e) n"
    unfolding LUAU_INSN_E_def insn_E_def
    using h [of n] h [of 31] by (auto simp: bit_simps min_def dest: bit_imp_le_length)
qed






lemma lt_1024: "(x :: u32) < 1024 \<longleftrightarrow> (\<forall>n \<ge> 10. \<not> bit x n)"
proof -
  have "x < 1024 \<longleftrightarrow> take_bit 10 x = x" 
    unfolding take_bit_eq_self_iff_drop_bit_eq_0 unat_eq_0 [symmetric] unat_drop_bit_eq
    by (simp add: word_less_nat_alt drop_bit_eq_div div_eq_0_iff)
  also have "\<dots> \<longleftrightarrow> (\<forall>n \<ge> 10. \<not> bit x n)"
  proof
    assume "take_bit 10 x = x"
    then show "\<forall>n \<ge> 10. \<not> bit x n" by (metis bit_take_bit_iff not_le)
  next
    assume "\<forall>n \<ge> 10. \<not> bit x n"
    then show "take_bit 10 x = x" by (intro bit_word_eqI) (metis bit_take_bit_iff not_le)
  qed
  finally show ?thesis .
qed

lemma or_lt_1024: "id0 OR id1 < (1024 :: u32) \<longleftrightarrow> id0 < 1024 \<and> id1 < 1024"
  by (auto simp: lt_1024 bit_or_iff)

lemma import_fields:
  fixes id0 id1 id2 :: u32
  assumes "id0 < 1024" "id1 < 1024" "id2 < 1024" "c < 4"
  defines "ids \<equiv> push_bit 30 c OR push_bit 20 id0 OR push_bit 10 id1 OR id2"
  shows "drop_bit 30 ids = c" "drop_bit 20 ids AND 1023 = id0" "drop_bit 10 ids AND 1023 = id1" "ids AND 1023 = id2"
proof -
  have b: "\<not> bit id0 n" "\<not> bit id1 n" "\<not> bit id2 n" if "10 \<le> n" for n using assms(1-3) that by (auto simp: lt_1024)
  have c: "\<not> bit c n" if "2 \<le> n" for n
  proof -
    have "take_bit 2 c = c" using assms(4) unfolding take_bit_eq_self_iff_drop_bit_eq_0 unat_eq_0 [symmetric] unat_drop_bit_eq
      by (simp add: word_less_nat_alt drop_bit_eq_div div_eq_0_iff)
    then show ?thesis using that by (metis bit_take_bit_iff not_le)
  qed
  have c': "n < 2" if "bit c n" for n using c [of n] that by (cases "n < 2") auto
  show "drop_bit 30 ids = c"
    unfolding ids_def by (rule bit_word_eqI) (auto simp: bit_simps b dest: bit_imp_le_length c')
  show "drop_bit 20 ids AND 1023 = id0" "drop_bit 10 ids AND 1023 = id1" "ids AND 1023 = id2"
    unfolding ids_def mask_1023 by (rule bit_word_eqI; auto simp: bit_simps b not_less dest: bit_imp_le_length c')+
qed

text \<open>
  Instruction words: the field macros read back what \<open>emitABC\<close>, \<open>emitAD\<close> and \<open>emitE\<close> pack:
  opcode, the three 8-bit operands, the signed 16-bit operand, and the 24-bit operand whenever
  it is in range.
\<close>

theorem instruction_fields_roundtrip:
  assumes "- (2 ^ 23) \<le> sint e" "sint e < 2 ^ 23"
  shows "LUAU_INSN_OP (insn_ABC op a b c) = op \<and> LUAU_INSN_A (insn_ABC op a b c) = a \<and> LUAU_INSN_B (insn_ABC op a b c) = b
    \<and> LUAU_INSN_C (insn_ABC op a b c) = c
    \<and> LUAU_INSN_OP (insn_AD op a d) = op \<and> LUAU_INSN_A (insn_AD op a d) = a \<and> LUAU_INSN_D (insn_AD op a d) = sint d
    \<and> LUAU_INSN_OP (insn_E op e) = op \<and> LUAU_INSN_E (insn_E op e) = sint e"
  using insn_op insn_fields insn_D insn_E_field [OF assms] by simp

theorem instruction_fields_roundtrip_witness:
  "LUAU_INSN_E (insn_E LOP_JUMPX (- 40000)) = - 40000"
proof -
  have s: "sint (- 40000 :: u32) = - 40000" by simp
  then show ?thesis using instruction_fields_roundtrip [of "- 40000" LOP_JUMPX] by simp
qed



text \<open>
  Import identifiers: an identifier built from one, two or three constant indices below 1024
  decomposes into exactly these indices, and building fails for a larger index.
\<close>

theorem import_id_roundtrip:
  "(id0 < 1024 \<longleftrightarrow> getImportId1 id0 \<noteq> None)
   \<and> (id0 < 1024 \<and> id1 < 1024 \<longleftrightarrow> getImportId2 id0 id1 \<noteq> None)
   \<and> (id0 < 1024 \<and> id1 < 1024 \<and> id2 < 1024 \<longleftrightarrow> getImportId3 id0 id1 id2 \<noteq> None)
   \<and> (case getImportId1 id0 of None \<Rightarrow> True | Some i \<Rightarrow> decomposeImportId i = (1, Some id0, None, None))
   \<and> (case getImportId2 id0 id1 of None \<Rightarrow> True | Some i \<Rightarrow> decomposeImportId i = (2, Some id0, Some id1, None))
   \<and> (case getImportId3 id0 id1 id2 of None \<Rightarrow> True | Some i \<Rightarrow> decomposeImportId i = (3, Some id0, Some id1, Some id2))"
proof -
  note [simp] = getImportId1_def getImportId2_def getImportId3_def decomposeImportId_def Let_def or_lt_1024
  have "decomposeImportId (push_bit 30 1 OR push_bit 20 id0) = (1, Some id0, None, None)" if "id0 < 1024"
    using import_fields [of id0 0 0 1] that by simp
  moreover have "decomposeImportId (push_bit 30 2 OR push_bit 20 id0 OR push_bit 10 id1) = (2, Some id0, Some id1, None)"
    if "id0 < 1024" "id1 < 1024" using import_fields [of id0 id1 0 2] that by simp
  moreover have "decomposeImportId (push_bit 30 3 OR push_bit 20 id0 OR push_bit 10 id1 OR id2) = (3, Some id0, Some id1, Some id2)"
    if "id0 < 1024" "id1 < 1024" "id2 < 1024" using import_fields [of id0 id1 id2 3] that by simp
  ultimately show ?thesis by (auto simp del: decomposeImportId_def)
qed

end
