(* ===== verification/LineInfo.thy ===== *)
theory LineInfo
  imports Wire
begin

text \<open>
  Line tables: the writer's compression of one line number per instruction into 8-bit deltas
  over span baselines (\<^verbatim>\<open>Bytecode/src/BytecodeBuilder.cpp\<close>: \<open>log2\<close>, \<open>calcLinesSpan\<close>,
  \<open>fillBaselineInfo\<close>, \<open>writeLineInfo\<close>), the loader's decompression (\<^verbatim>\<open>VM/src/lvmload.cpp\<close>) and the
  lookup (\<^verbatim>\<open>VM/src/ldebug.cpp\<close>: \<open>luaG_getline\<close>). Line numbers are integers; they stay below
  \<open>2 ^ 31\<close>, so the differences the source takes in \<open>int\<close> do not overflow.
\<close>

section \<open>Writer\<close>

function log2_from :: "nat \<Rightarrow> nat \<Rightarrow> nat" where
  "log2_from v r = (if v \<ge> 2 * 2 ^ r then log2_from v (r + 1) else r)"
  by pat_completeness auto
termination
proof (relation "measure (\<lambda>(v, r). v - 2 ^ r)", goal_cases)
  case (2 v r)
  have "(2::nat) ^ r > 0" by simp
  then have "v - 2 * 2 ^ r < v - 2 ^ r" using 2 by linarith
  then show ?case by simp
qed simp

declare log2_from.simps [simp del]

definition log2 :: "nat \<Rightarrow> nat" where
  "log2 v = log2_from v 0"

text \<open>The inner loop of the first pass: the first index whose line does not fit the span.\<close>

function lines_next :: "int list \<Rightarrow> nat \<Rightarrow> nat \<Rightarrow> int \<Rightarrow> int \<Rightarrow> nat" where
  "lines_next lines limit next mn mx =
     (if next < length lines \<and> next < limit
      then let mn' = min mn (lines ! next); mx' = max mx (lines ! next)
           in if mx' - mn' > 255 then next else lines_next lines limit (next + 1) mn' mx'
      else next)"
  by pat_completeness auto
termination by (relation "measure (\<lambda>(lines, limit, next, mn, mx). length lines - next)") auto

declare lines_next.simps [simp del]

definition shrink_span :: "int list \<Rightarrow> nat \<Rightarrow> nat \<Rightarrow> nat" where
  "shrink_span lines offset span =
     (let next = lines_next lines (offset + span) offset (lines ! offset) (lines ! offset)
      in if next < length lines \<and> next - offset < span then 2 ^ log2 (next - offset) else span)"

lemma shrink_span_pos: "0 < span \<Longrightarrow> 0 < shrink_span lines offset span"
  by (simp add: shrink_span_def Let_def)

text \<open>The span is positive at every iteration; the guard makes the recursion total.\<close>

function calcLinesSpan_from :: "int list \<Rightarrow> nat \<Rightarrow> nat \<Rightarrow> nat" where
  "calcLinesSpan_from lines offset span =
     (if offset < length lines \<and> 0 < span
      then let span' = shrink_span lines offset span in calcLinesSpan_from lines (offset + span') span'
      else span)"
  by pat_completeness auto
termination
proof (relation "measure (\<lambda>(lines, offset, span). length lines - offset)", goal_cases)
  case (2 lines offset span span')
  then show ?case using shrink_span_pos [of span lines offset] by auto
qed simp

declare calcLinesSpan_from.simps [simp del]

definition calcLinesSpan :: "int list \<Rightarrow> nat" where
  "calcLinesSpan lines = calcLinesSpan_from lines 0 (2 ^ 24)"

text \<open>The second pass: \<open>baseline[offset / span]\<close> is the least line of the span.\<close>

function block_min :: "int list \<Rightarrow> nat \<Rightarrow> nat \<Rightarrow> int \<Rightarrow> int" where
  "block_min lines limit next mn =
     (if next < length lines \<and> next < limit then block_min lines limit (next + 1) (min mn (lines ! next)) else mn)"
  by pat_completeness auto
termination by (relation "measure (\<lambda>(lines, limit, next, mn). length lines - next)") auto

declare block_min.simps [simp del]

function fillBaselineInfo_from :: "int list \<Rightarrow> nat \<Rightarrow> nat \<Rightarrow> int list \<Rightarrow> int list" where
  "fillBaselineInfo_from lines span offset baseline =
     (if offset < length lines \<and> 0 < span
      then fillBaselineInfo_from lines span (offset + span)
             (baseline[offset div span := block_min lines (offset + span) offset (lines ! offset)])
      else baseline)"
  by pat_completeness auto
termination by (relation "measure (\<lambda>(lines, span, offset, baseline). length lines - offset)") auto

declare fillBaselineInfo_from.simps [simp del]

definition fillBaselineInfo :: "int list \<Rightarrow> nat \<Rightarrow> nat \<Rightarrow> int list" where
  "fillBaselineInfo lines span baselineSize = fillBaselineInfo_from lines span 0 (replicate baselineSize 0)"

text \<open>The third pass; \<open>None\<close> when the assertion on the delta fails.\<close>

fun write_deltas :: "int list \<Rightarrow> nat \<Rightarrow> int list \<Rightarrow> nat \<Rightarrow> u8 \<Rightarrow> bytes option" where
  "write_deltas baseline logspan [] i lastOffset = Some []"
| "write_deltas baseline logspan (line # lines) i lastOffset =
     (let delta = line - baseline ! (drop_bit logspan i)
      in if \<not> (delta \<ge> 0 \<and> delta \<le> 255) then None
         else map_option (\<lambda>ss. writeByte (of_int delta - lastOffset) @ ss)
                (write_deltas baseline logspan lines (i + 1) (of_int delta)))"

fun write_baselines :: "int list \<Rightarrow> int \<Rightarrow> bytes" where
  "write_baselines [] lastLine = []"
| "write_baselines (b # bs) lastLine = writeInt (of_int (b - lastLine)) @ write_baselines bs b"

definition writeLineInfo :: "int list \<Rightarrow> bytes option" where
  "writeLineInfo lines =
     (if lines = [] then None
      else let span = calcLinesSpan lines;
               baselineSize = (length lines - 1) div span + 1;
               baseline = fillBaselineInfo lines span baselineSize;
               logspan = log2 span
           in map_option (\<lambda>ss. writeByte (of_nat logspan) @ ss @ write_baselines baseline 0)
                (write_deltas baseline logspan lines 0 0))"

section \<open>Reader\<close>

record lineinfo =
  linegaplog2 :: nat
  lineinfo_delta :: "u8 list"
  abslineinfo :: "u32 list"

fun read_deltas :: "nat \<Rightarrow> u8 \<Rightarrow> bytes \<Rightarrow> (u8 list \<times> bytes) option" where
  "read_deltas 0 lastoffset data = Some ([], data)"
| "read_deltas (Suc n) lastoffset data =
     (case read_u8 data of None \<Rightarrow> None
      | Some (b, rest) \<Rightarrow>
          map_option (\<lambda>(xs, rest'). ((lastoffset + b) # xs, rest')) (read_deltas n (lastoffset + b) rest))"

fun read_abslines :: "nat \<Rightarrow> u32 \<Rightarrow> bytes \<Rightarrow> (u32 list \<times> bytes) option" where
  "read_abslines 0 lastline data = Some ([], data)"
| "read_abslines (Suc n) lastline data =
     (case read_u32 data of None \<Rightarrow> None
      | Some (d, rest) \<Rightarrow>
          map_option (\<lambda>(xs, rest'). ((lastline + d) # xs, rest')) (read_abslines n (lastline + d) rest))"

definition readLineInfo :: "nat \<Rightarrow> bytes \<Rightarrow> (lineinfo \<times> bytes) option" where
  "readLineInfo sizecode data =
     (case read_u8 data of None \<Rightarrow> None
      | Some (gap, rest) \<Rightarrow>
          let intervals = (if sizecode = 0 then 0 else drop_bit (unat gap) (sizecode - 1) + 1)
          in if unat gap \<ge> 32 then None
             else (case read_deltas sizecode 0 rest of None \<Rightarrow> None
                 | Some (ds, rest') \<Rightarrow>
                  map_option (\<lambda>(abs, rest''). (\<lparr>linegaplog2 = unat gap, lineinfo_delta = ds, abslineinfo = abs\<rparr>, rest''))
                    (read_abslines intervals 0 rest')))"

definition luaG_getline :: "lineinfo option \<Rightarrow> nat \<Rightarrow> int" where
  "luaG_getline p pc =
     (case p of None \<Rightarrow> 0
      | Some li \<Rightarrow> sint (abslineinfo li ! drop_bit (linegaplog2 li) pc + ucast (lineinfo_delta li ! pc)))"

section \<open>Logarithms and spans\<close>

lemma log2_from_spec: "2 ^ r \<le> v \<Longrightarrow> r \<le> log2_from v r \<and> 2 ^ log2_from v r \<le> v \<and> v < 2 * 2 ^ log2_from v r"
proof (induction v r rule: log2_from.induct)
  case (1 v r)
  then show ?case by (subst (1 2 3) log2_from.simps) auto
qed

lemma log2_spec:
  assumes "0 < v"
  shows "2 ^ log2 v \<le> v" "v < 2 * 2 ^ log2 v"
  using log2_from_spec [of 0 v] assms by (simp_all add: log2_def)

lemma log2_pow: "log2 (2 ^ k) = k"
proof -
  have "(2::nat) ^ log2 (2 ^ k) \<le> 2 ^ k" using log2_spec(1) [of "2 ^ k"] by simp
  then have "log2 (2 ^ k) \<le> k" by (rule power_le_imp_le_exp [rotated]) simp
  moreover have "(2::nat) ^ k < 2 ^ Suc (log2 (2 ^ k))" using log2_spec(2) [of "2 ^ k"] by simp
  then have "k < Suc (log2 (2 ^ k))" by (rule power_less_imp_less_exp [rotated]) simp
  ultimately show ?thesis by simp
qed

text \<open>Lines of the same span differ by at most 255, up to index \<open>m\<close>.\<close>

definition spans_fit :: "int list \<Rightarrow> nat \<Rightarrow> nat \<Rightarrow> bool" where
  "spans_fit lines span m \<longleftrightarrow>
     (\<forall>i j. i < m \<and> j < m \<and> i < length lines \<and> j < length lines \<and> i div span = j div span \<longrightarrow> lines ! i - lines ! j \<le> 255)"

lemma lines_next_spec:
  assumes "\<And>i. offset \<le> i \<Longrightarrow> i < next \<Longrightarrow> mn \<le> lines ! i \<and> lines ! i \<le> mx" "mx - mn \<le> 255" "offset \<le> next"
    "offset = next \<Longrightarrow> mn = lines ! next \<and> mx = lines ! next" "next \<le> limit"
  defines "r \<equiv> lines_next lines limit next mn mx"
  shows "next \<le> r \<and> r \<le> limit \<and> (offset = next \<and> next < length lines \<and> next < limit \<longrightarrow> next < r) \<and>
    (\<forall>i j. offset \<le> i \<and> i < r \<and> offset \<le> j \<and> j < r \<longrightarrow> lines ! i - lines ! j \<le> 255)"
  using assms(1-5) unfolding r_def
proof (induction lines limit "next" mn mx rule: lines_next.induct)
  case (1 lines limit "next" mn mx)
  let ?mn = "min mn (lines ! next)" and ?mx = "max mx (lines ! next)"
  have here: "lines ! i - lines ! j \<le> 255" if "offset \<le> i" "i < next" "offset \<le> j" "j < next" for i j
    using 1(2) [OF that(1,2)] 1(2) [OF that(3,4)] 1(3) by linarith
  show ?case
  proof (cases "next < length lines \<and> next < limit \<and> ?mx - ?mn \<le> 255")
    case True
    have b: "?mn \<le> lines ! i \<and> lines ! i \<le> ?mx" if "offset \<le> i" "i < next + 1" for i
      using 1(2) [of i] that by (cases "i = next") (auto simp: min_def max_def)
    have "lines_next lines limit next mn mx = lines_next lines limit (next + 1) ?mn ?mx"
      using True by (subst lines_next.simps) (simp add: Let_def)
    moreover have "next + 1 \<le> lines_next lines limit (next + 1) ?mn ?mx \<and> lines_next lines limit (next + 1) ?mn ?mx \<le> limit \<and>
      (\<forall>i j. offset \<le> i \<and> i < lines_next lines limit (next + 1) ?mn ?mx \<and> offset \<le> j \<and> j < lines_next lines limit (next + 1) ?mn ?mx \<longrightarrow> lines ! i - lines ! j \<le> 255)"
      using 1(1) [OF _ refl refl] b True 1(4) by auto
    ultimately show ?thesis by auto
  next
    case False
    then have "lines_next lines limit next mn mx = next" by (subst lines_next.simps) (auto simp: Let_def)
    moreover have "\<not> (offset = next \<and> next < length lines \<and> next < limit)" using False 1(5) by auto
    ultimately show ?thesis using here 1(4,6) by auto
  qed
qed

lemma shrink_span_spec:
  assumes "offset < length lines" "span = 2 ^ k"
  obtains k' where "shrink_span lines offset span = 2 ^ k'" "k' \<le> k"
    "\<And>i j. offset \<le> i \<Longrightarrow> i < offset + 2 ^ k' \<Longrightarrow> i < length lines \<Longrightarrow> offset \<le> j \<Longrightarrow> j < offset + 2 ^ k' \<Longrightarrow> j < length lines \<Longrightarrow>
       lines ! i - lines ! j \<le> 255"
proof -
  define r where "r = lines_next lines (offset + span) offset (lines ! offset) (lines ! offset)"
  have r: "offset < r" "r \<le> offset + span" "\<And>i j. offset \<le> i \<Longrightarrow> i < r \<Longrightarrow> offset \<le> j \<Longrightarrow> j < r \<Longrightarrow> lines ! i - lines ! j \<le> 255"
    using lines_next_spec [of offset offset "lines ! offset" lines "lines ! offset" "offset + span"] assms by (auto simp: r_def)
  show ?thesis
  proof (cases "r < length lines \<and> r - offset < span")
    case True
    let ?k = "log2 (r - offset)"
    have l: "(2::nat) ^ ?k \<le> r - offset" using log2_spec [of "r - offset"] r(1) by auto
    then have "(2::nat) ^ ?k < 2 ^ k" using True assms(2) by linarith
    then have "?k < k" by (rule power_less_imp_less_exp [rotated]) simp
    moreover have "shrink_span lines offset span = 2 ^ ?k" using True by (simp add: shrink_span_def Let_def flip: r_def)
    moreover have "i < r" if "i < offset + 2 ^ ?k" for i using that l r(1) by linarith
    ultimately show ?thesis using that [of ?k] r(3) by auto
  next
    case False
    then have "shrink_span lines offset span = span" unfolding shrink_span_def r_def Let_def by (simp only: if_False)
    then have "shrink_span lines offset span = 2 ^ k" using assms(2) by simp
    moreover have "i < r" if "offset \<le> i" "i < offset + 2 ^ k" "i < length lines" for i using that False assms(2) r(2) by linarith
    ultimately show ?thesis using that [of k] r(3) by blast
  qed
qed

lemma calcLinesSpan_from_spec:
  assumes "span = 2 ^ k" "span dvd offset" "spans_fit lines span offset"
  shows "\<exists>k'. calcLinesSpan_from lines offset span = 2 ^ k' \<and> k' \<le> k \<and> spans_fit lines (2 ^ k') (length lines)"
  using assms
proof (induction lines offset span arbitrary: k rule: calcLinesSpan_from.induct)
  case (1 lines offset span)
  show ?case
  proof (cases "offset < length lines")
    case True
    obtain k' where s: "shrink_span lines offset span = 2 ^ k'" "k' \<le> k"
      and w: "\<And>i j. offset \<le> i \<Longrightarrow> i < offset + 2 ^ k' \<Longrightarrow> i < length lines \<Longrightarrow> offset \<le> j \<Longrightarrow> j < offset + 2 ^ k' \<Longrightarrow> j < length lines \<Longrightarrow>
       lines ! i - lines ! j \<le> 255"
      using shrink_span_spec [OF True 1(2)] by metis
    have d: "(2::nat) ^ k' dvd span" using s(2) 1(2) by (simp add: le_imp_power_dvd)
    then have d': "2 ^ k' dvd offset" using 1(3) dvd_trans by blast
    obtain q where q: "span = 2 ^ k' * q" using d by auto
    obtain a where a: "offset = 2 ^ k' * a" using d' by auto
    have "spans_fit lines (2 ^ k') (offset + 2 ^ k')"
      unfolding spans_fit_def
    proof (intro allI impI, elim conjE)
      fix i j assume ij: "i < offset + 2 ^ k'" "j < offset + 2 ^ k'" "i < length lines" "j < length lines" "i div 2 ^ k' = j div 2 ^ k'"
      have "i < offset \<longleftrightarrow> i div 2 ^ k' < a" "j < offset \<longleftrightarrow> j div 2 ^ k' < a"
        unfolding a by (simp_all add: div_less_iff_less_mult mult.commute)
      then consider "i < offset" "j < offset" | "offset \<le> i" "offset \<le> j" using ij(5) by force
      then show "lines ! i - lines ! j \<le> 255"
      proof cases
        case 1
        have "i div span = j div span" using ij(5) by (metis q div_mult2_eq)
        then show ?thesis using \<open>spans_fit lines span offset\<close> 1 ij unfolding spans_fit_def by blast
      next
        case 2
        then show ?thesis using w ij by blast
      qed
    qed
    moreover have "calcLinesSpan_from lines offset span = calcLinesSpan_from lines (offset + 2 ^ k') (2 ^ k')"
      using True 1(2) s(1) by (subst calcLinesSpan_from.simps) (simp add: Let_def)
    moreover have "(2::nat) ^ k' dvd offset + 2 ^ k'" using d' by simp
    ultimately show ?thesis using 1(1) [of "2 ^ k'" k'] s True 1(2) by (metis le_trans zero_less_numeral zero_less_power)
  next
    case False
    then have "calcLinesSpan_from lines offset span = span" by (subst calcLinesSpan_from.simps) simp
    moreover have "spans_fit lines span (length lines)" using 1(4) False by (simp add: spans_fit_def)
    ultimately show ?thesis using 1(2) by auto
  qed
qed

lemma calcLinesSpan_spec:
  obtains k where "calcLinesSpan lines = 2 ^ k" "k \<le> 24" "spans_fit lines (2 ^ k) (length lines)"
  using calcLinesSpan_from_spec [of "2 ^ 24" 24 0 lines] unfolding calcLinesSpan_def spans_fit_def by auto

section \<open>Baselines\<close>

lemma block_min_spec:
  "offset \<le> next \<Longrightarrow> offset < length lines \<Longrightarrow> offset < limit \<Longrightarrow> (\<forall>i. offset \<le> i \<and> i < next \<longrightarrow> mn \<le> lines ! i) \<Longrightarrow>
   (\<exists>i. offset \<le> i \<and> i < limit \<and> i < length lines \<and> lines ! i = mn) \<Longrightarrow>
   (\<forall>i. offset \<le> i \<and> i < limit \<and> i < length lines \<longrightarrow> block_min lines limit next mn \<le> lines ! i) \<and>
   (\<exists>i. offset \<le> i \<and> i < limit \<and> i < length lines \<and> lines ! i = block_min lines limit next mn)"
proof (induction lines limit "next" mn rule: block_min.induct)
  case (1 lines limit "next" mn)
  show ?case
  proof (cases "next < length lines \<and> next < limit")
    case True
    have e: "block_min lines limit next mn = block_min lines limit (next + 1) (min mn (lines ! next))"
      using True by (subst block_min.simps) simp
    have le: "\<forall>i. offset \<le> i \<and> i < next + 1 \<longrightarrow> min mn (lines ! next) \<le> lines ! i"
    proof (intro allI impI, elim conjE)
      fix i assume "offset \<le> i" "i < next + 1"
      then show "min mn (lines ! next) \<le> lines ! i" using 1(5) by (cases "i = next") (auto simp: min.coboundedI1)
    qed
    have ex: "\<exists>i. offset \<le> i \<and> i < limit \<and> i < length lines \<and> lines ! i = min mn (lines ! next)"
      using 1(2,6) True by (cases "mn \<le> lines ! next") (auto simp: min_def)
    show ?thesis unfolding e using 1(1) [OF True] 1(2-4) le ex by auto
  next
    case False
    then have "block_min lines limit next mn = mn" by (subst block_min.simps) auto
    then show ?thesis using False 1(5,6) by auto
  qed
qed

lemma fillBaselineInfo_from_spec:
  assumes "0 < span" "span dvd offset"
  shows "length (fillBaselineInfo_from lines span offset bl) = length bl \<and>
    (\<forall>q < length bl. fillBaselineInfo_from lines span offset bl ! q =
       (if offset \<le> q * span \<and> q * span < length lines then block_min lines (q * span + span) (q * span) (lines ! (q * span)) else bl ! q))"
  using assms
proof (induction lines span offset bl rule: fillBaselineInfo_from.induct)
  case (1 lines span offset bl)
  show ?case
  proof (cases "offset < length lines")
    case True
    obtain a where a: "offset = span * a" using 1(3) by auto
    let ?bl = "bl[offset div span := block_min lines (offset + span) offset (lines ! offset)]"
    have e: "fillBaselineInfo_from lines span offset bl = fillBaselineInfo_from lines span (offset + span) ?bl"
      using True 1(2) by (subst fillBaselineInfo_from.simps) simp
    have IH: "length (fillBaselineInfo_from lines span (offset + span) ?bl) = length ?bl \<and>
      (\<forall>q < length ?bl. fillBaselineInfo_from lines span (offset + span) ?bl ! q =
       (if offset + span \<le> q * span \<and> q * span < length lines then block_min lines (q * span + span) (q * span) (lines ! (q * span)) else ?bl ! q))"
      using 1(1) True 1(2,3) by simp
    have cases3: "q * span = offset \<and> q = a \<or> q * span < offset \<and> q \<noteq> a \<or> offset + span \<le> q * span \<and> q \<noteq> a" for q
    proof (cases q a rule: linorder_cases)
      case less
      then show ?thesis using 1(2) a by (simp add: mult.commute)
    next
      case greater
      then have "Suc a * span \<le> q * span" by (intro mult_le_mono1) simp
      then show ?thesis using greater a by (simp add: mult.commute)
    qed (simp add: a mult.commute)
    have da: "offset div span = a" using a 1(2) by simp
    have "fillBaselineInfo_from lines span (offset + span) ?bl ! q =
       (if offset \<le> q * span \<and> q * span < length lines then block_min lines (q * span + span) (q * span) (lines ! (q * span)) else bl ! q)"
      if q: "q < length bl" for q
    proof -
      have i: "fillBaselineInfo_from lines span (offset + span) ?bl ! q =
       (if offset + span \<le> q * span \<and> q * span < length lines then block_min lines (q * span + span) (q * span) (lines ! (q * span)) else ?bl ! q)"
        using IH q by simp
      from cases3 [of q] show ?thesis
      proof (elim disjE conjE)
        assume "q * span = offset" "q = a"
        then show ?thesis using i da q True 1(2) by simp
      next
        assume "q * span < offset" "q \<noteq> a"
        then show ?thesis using i da by simp
      next
        assume "offset + span \<le> q * span" "q \<noteq> a"
        then show ?thesis using i da by simp
      qed
    qed
    then show ?thesis unfolding e using IH by simp
  next
    case False
    then have "fillBaselineInfo_from lines span offset bl = bl" by (subst fillBaselineInfo_from.simps) simp
    then show ?thesis using False by auto
  qed
qed

section \<open>Round trip\<close>

lemma read_write_deltas:
  assumes "write_deltas bl ls lines i lo = Some ss"
  shows "read_deltas (length lines) lo (ss @ rest) =
    Some (map (\<lambda>j. of_int (lines ! j - bl ! drop_bit ls (i + j))) [0..<length lines], rest)"
  using assms
proof (induction bl ls lines i lo arbitrary: ss rule: write_deltas.induct)
  case (2 bl ls line lines i lo)
  let ?d = "line - bl ! drop_bit ls i"
  obtain ss' where s: "write_deltas bl ls lines (i + 1) (of_int ?d) = Some ss'" "ss = writeByte (of_int ?d - lo) @ ss'"
    and ok: "0 \<le> ?d \<and> ?d \<le> 255"
    using 2(2) by (auto simp: Let_def split: if_splits)
  have "[0..<length (line # lines)] = 0 # map Suc [0..<length lines]" by (simp add: map_Suc_upt upt_conv_Cons del: upt_Suc)
  then show ?case using 2(1) [OF refl _ s(1)] ok s(2) by (simp add: Let_def del: upt_Suc)
qed simp

lemma read_write_baselines:
  "read_abslines (length bl) (of_int lo) (write_baselines bl lo @ rest) = Some (map of_int bl, rest)"
  by (induction bl lo rule: write_baselines.induct) auto

lemma write_deltas_ok:
  assumes "\<And>j. j < length lines \<Longrightarrow> 0 \<le> lines ! j - bl ! drop_bit ls (i + j) \<and> lines ! j - bl ! drop_bit ls (i + j) \<le> 255"
  shows "write_deltas bl ls lines i lo \<noteq> None"
  using assms
proof (induction bl ls lines i lo rule: write_deltas.induct)
  case (2 bl ls line lines i lo)
  have "0 \<le> line - bl ! drop_bit ls i \<and> line - bl ! drop_bit ls i \<le> 255" using 2(2) [of 0] by simp
  moreover have "write_deltas bl ls lines (i + 1) (of_int (line - bl ! drop_bit ls i)) \<noteq> None"
    using 2(1) [OF refl] calculation 2(2) [of "Suc _"] by force
  ultimately show ?case by (simp add: Let_def)
qed simp

lemma baseline_spec:
  assumes "lines \<noteq> []" "spans_fit lines (2 ^ k) (length lines)" "i < length lines"
  defines "bl \<equiv> fillBaselineInfo lines (2 ^ k) ((length lines - 1) div 2 ^ k + 1)"
  shows "0 \<le> lines ! i - bl ! drop_bit k i" "lines ! i - bl ! drop_bit k i \<le> 255" "drop_bit k i < length bl"
    "\<exists>j. bl ! drop_bit k i = lines ! j \<and> j < length lines"
proof -
  let ?s = "2 ^ k :: nat"
  define q where "q = i div ?s"
  have q: "drop_bit k i = q" by (simp add: q_def drop_bit_eq_div)
  have lt: "q * ?s \<le> i" "i < q * ?s + ?s"
    unfolding q_def using div_times_less_eq_dividend [of i ?s] dividend_less_div_times [of ?s i] by auto
  have "q \<le> (length lines - 1) div ?s" unfolding q_def using assms(3) by (intro div_le_mono) simp
  then have q': "q < (length lines - 1) div ?s + 1" by simp
  have qs: "q * ?s < length lines" using lt(1) assms(3) by simp
  have F: "length bl = (length lines - 1) div ?s + 1"
    "\<forall>q < (length lines - 1) div ?s + 1. bl ! q = (if 0 \<le> q * ?s \<and> q * ?s < length lines
       then block_min lines (q * ?s + ?s) (q * ?s) (lines ! (q * ?s)) else replicate ((length lines - 1) div ?s + 1) 0 ! q)"
    using fillBaselineInfo_from_spec [of ?s 0 lines "replicate ((length lines - 1) div ?s + 1) 0"]
    unfolding bl_def fillBaselineInfo_def by simp_all
  have l: "q < length bl" using q' F(1) by simp
  have e: "bl ! q = block_min lines (q * ?s + ?s) (q * ?s) (lines ! (q * ?s))" using F(2) q' qs by simp
  have B: "(\<forall>i. q * ?s \<le> i \<and> i < q * ?s + ?s \<and> i < length lines \<longrightarrow> bl ! q \<le> lines ! i) \<and>
    (\<exists>i. q * ?s \<le> i \<and> i < q * ?s + ?s \<and> i < length lines \<and> lines ! i = bl ! q)"
    unfolding e
  proof (rule block_min_spec)
    show "\<exists>i. q * ?s \<le> i \<and> i < q * ?s + ?s \<and> i < length lines \<and> lines ! i = lines ! (q * ?s)"
      using qs by (intro exI [of _ "q * ?s"]) simp
  qed (use qs in simp_all)
  then obtain j where j: "q * ?s \<le> j" "j < q * ?s + ?s" "j < length lines" "lines ! j = bl ! q" by blast
  have "j div ?s = q" by (rule div_nat_eqI) (use j in \<open>simp_all add: mult.commute\<close>)
  then have jq: "i div ?s = j div ?s" by (simp add: q_def)
  have "lines ! i - lines ! j \<le> 255" using assms(2) [unfolded spans_fit_def, rule_format, of i j] assms(3) j(3) jq by blast
  then show "lines ! i - bl ! drop_bit k i \<le> 255" unfolding q j(4) .
  have "bl ! q \<le> lines ! i" using B [THEN conjunct1, rule_format, of i] lt assms(3) by blast
  then show "0 \<le> lines ! i - bl ! drop_bit k i" unfolding q by simp
  show "drop_bit k i < length bl" unfolding q by (rule l)
  show "\<exists>j. bl ! drop_bit k i = lines ! j \<and> j < length lines" unfolding q using j(3,4) by metis
qed

lemma ucast_small: "0 \<le> d \<Longrightarrow> d \<le> 255 \<Longrightarrow> ucast (of_int d :: u8) = (of_int d :: u32)"
  by (simp add: unsigned_of_int take_bit_int_eq_self)

text \<open>What the loader reconstructs from the writer's output.\<close>

lemma lineinfo_roundtrip:
  assumes "lines \<noteq> []" "\<forall>l \<in> set lines. 0 \<le> l \<and> l < 2 ^ 31"
  obtains ss li where "writeLineInfo lines = Some ss" "\<And>rest. readLineInfo (length lines) (ss @ rest) = Some (li, rest)"
    "\<And>pc. pc < length lines \<Longrightarrow> luaG_getline (Some li) pc = lines ! pc"
proof -
  obtain k where k: "calcLinesSpan lines = 2 ^ k" "k \<le> 24" "spans_fit lines (2 ^ k) (length lines)" by (rule calcLinesSpan_spec)
  define n where "n = (length lines - 1) div 2 ^ k + 1"
  define bl where "bl = fillBaselineInfo lines (2 ^ k) n"
  note B = baseline_spec [OF assms(1) k(3), folded n_def, folded bl_def]
  obtain ss where d: "write_deltas bl k lines 0 0 = Some ss" using write_deltas_ok [of lines bl k 0 0] B(1,2) by fastforce
  have len: "length bl = n" using fillBaselineInfo_from_spec [of "2 ^ k" 0 lines "replicate n 0"] by (simp add: bl_def fillBaselineInfo_def)
  define li where "li = \<lparr>linegaplog2 = k, lineinfo_delta = map (\<lambda>j. of_int (lines ! j - bl ! drop_bit k j)) [0..<length lines],
    abslineinfo = map of_int bl\<rparr>"
  have w: "writeLineInfo lines = Some (writeByte (of_nat k) @ ss @ write_baselines bl 0)"
    using assms(1) k(1) d by (simp add: writeLineInfo_def Let_def log2_pow bl_def n_def)
  have g: "unat (of_nat k :: u8) = k" using k(2) by (simp add: unat_of_nat take_bit_nat_eq_self)
  have "readLineInfo (length lines) ((writeByte (of_nat k) @ ss @ write_baselines bl 0) @ rest) = Some (li, rest)" for rest
    using read_write_deltas [OF d, of "write_baselines bl 0 @ rest"] read_write_baselines [of bl 0 rest] g len k(2) assms(1)
    by (simp add: readLineInfo_def Let_def li_def n_def drop_bit_eq_div)
  moreover have "luaG_getline (Some li) pc = lines ! pc" if pc: "pc < length lines" for pc
  proof -
    let ?b = "bl ! drop_bit k pc" and ?d = "lines ! pc - bl ! drop_bit k pc"
    have D: "0 \<le> ?d" "?d \<le> 255" "drop_bit k pc < length bl" using B [OF pc] by auto
    have "ucast (of_int ?d :: u8) = (of_int ?d :: u32)" using ucast_small [OF D(1,2)] .
    then have "luaG_getline (Some li) pc = sint (of_int ?b + of_int ?d :: u32)"
      using pc D by (simp add: luaG_getline_def li_def)
    also have "(of_int ?b + of_int ?d :: u32) = of_int (lines ! pc)" by (simp flip: of_int_add)
    also have "sint (of_int (lines ! pc) :: u32) = lines ! pc"
      using bspec [OF assms(2) nth_mem [OF pc]] by (simp add: signed_of_int signed_take_bit_int_eq_self)
    finally show ?thesis .
  qed
  ultimately show ?thesis using that w by blast
qed

section \<open>Properties\<close>

text \<open>
  C7. Line tables: for any non-empty list of line numbers below \<open>2 ^ 31\<close>, the choice of the span
  terminates, no delta assertion fails, the loader reads the encoded table back and stops right
  after it, and \<open>luaG_getline\<close> returns for every instruction the line it was emitted with.
\<close>

theorem line_table_roundtrip:
  assumes "lines \<noteq> []" "\<forall>l \<in> set lines. 0 \<le> l \<and> l < 2 ^ 31"
  shows "\<exists>ss li. writeLineInfo lines = Some ss \<and> (\<forall>rest. readLineInfo (length lines) (ss @ rest) = Some (li, rest))
    \<and> (\<forall>pc < length lines. luaG_getline (Some li) pc = lines ! pc)"
  using lineinfo_roundtrip [OF assms] by metis

theorem line_table_roundtrip_witness:
  "\<exists>ss li. writeLineInfo [7, 1000, 3] = Some ss \<and> (\<forall>rest. readLineInfo 3 (ss @ rest) = Some (li, rest))
    \<and> luaG_getline (Some li) 1 = 1000"
proof -
  obtain ss li where r: "writeLineInfo [7, 1000, 3] = Some ss" "\<forall>rest. readLineInfo (length [7, 1000, 3 :: int]) (ss @ rest) = Some (li, rest)"
    "\<forall>pc < length [7, 1000, 3 :: int]. luaG_getline (Some li) pc = [7, 1000, 3] ! pc"
    using line_table_roundtrip [of "[7, 1000, 3]"] by auto
  then have "luaG_getline (Some li) 1 = 1000" by (auto dest: spec [of _ 1])
  then show ?thesis using r(1,2) by (intro exI [of _ ss] exI [of _ li]) (simp add: eval_nat_numeral)
qed

end
