(* ===== verification/Numbers.thy ===== *)
theory Numbers
  imports Prelude
begin

text \<open>
  The numbers of the VM: doubles as their IEEE bit patterns, with the comparison and the conversions
  between doubles and integers that \<^verbatim>\<open>VM/src/ltable.cpp\<close> uses (\<^verbatim>\<open>VM/src/lnumutils.h\<close>), and the
  logarithm \<open>luaO_log2\<close> of \<^verbatim>\<open>VM/src/lobject.cpp\<close>.
\<close>

section \<open>Doubles\<close>

definition is_nan64 :: "u64 \<Rightarrow> bool" where
  "is_nan64 w \<longleftrightarrow> take_bit 11 (drop_bit 52 w) = 2047 \<and> take_bit 52 w \<noteq> 0"

definition is_nan32 :: "u32 \<Rightarrow> bool" where
  "is_nan32 w \<longleftrightarrow> take_bit 8 (drop_bit 23 w) = 255 \<and> take_bit 23 w \<noteq> 0"

definition luai_numeq :: "u64 \<Rightarrow> u64 \<Rightarrow> bool" where
  "luai_numeq a b \<longleftrightarrow> \<not> is_nan64 a \<and> \<not> is_nan64 b \<and> (a = b \<or> take_bit 63 a = 0 \<and> take_bit 63 b = 0)"

definition numeq32 :: "u32 \<Rightarrow> u32 \<Rightarrow> bool" where
  "numeq32 a b \<longleftrightarrow> \<not> is_nan32 a \<and> \<not> is_nan32 b \<and> (a = b \<or> take_bit 31 a = 0 \<and> take_bit 31 b = 0)"

text \<open>Sign, biased exponent and mantissa of a bit pattern.\<close>

definition dbl_neg :: "u64 \<Rightarrow> bool" where
  "dbl_neg x \<longleftrightarrow> unat x div 2 ^ 63 = 1"

definition dbl_exp :: "u64 \<Rightarrow> nat" where
  "dbl_exp x = unat x div 2 ^ 52 mod 2 ^ 11"

definition dbl_man :: "u64 \<Rightarrow> nat" where
  "dbl_man x = unat x mod 2 ^ 52"

definition mk_dbl :: "bool \<Rightarrow> nat \<Rightarrow> nat \<Rightarrow> u64" where
  "mk_dbl s e m = of_nat ((if s then 2 ^ 63 else 0) + e * 2 ^ 52 + m)"

text \<open>The value of a double that is an integer.\<close>

definition dbl_int :: "u64 \<Rightarrow> int option" where
  "dbl_int x =
     (let e = dbl_exp x; f = 2 ^ 52 + dbl_man x; sgn = (if dbl_neg x then - 1 else 1)
      in if e = 0 then (if dbl_man x = 0 then Some 0 else None)
         else if e < 1023 \<or> e = 2047 then None
         else if e \<le> 1075 then (if f mod 2 ^ (1075 - e) = 0 then Some (sgn * int (f div 2 ^ (1075 - e))) else None)
         else Some (sgn * int (f * 2 ^ (e - 1075))))"

fun bit_length :: "nat \<Rightarrow> nat" where
  "bit_length n = (if n = 0 then 0 else Suc (bit_length (n div 2)))"

declare bit_length.simps [simp del]

text \<open>Conversion of an \<open>int\<close> to a double, exact for 32-bit integers.\<close>

definition cast_num :: "int \<Rightarrow> u64" where
  "cast_num i =
     (let a = nat (abs i); k = bit_length a - 1
      in if a = 0 then 0 else mk_dbl (i < 0) (1023 + k) ((a - 2 ^ k) * 2 ^ (52 - k)))"

text \<open>
  The conversion \<open>float(double)\<close>, rounding to nearest with ties to even: the 52 bits of the mantissa
  are rounded to 23 (fewer for a result below the smallest normal \<open>float\<close>), a carry runs into the exponent,
  and what exceeds the largest \<open>float\<close> is an infinity. A NaN stays one, made quiet, with the upper bits of
  its payload.
\<close>

definition round_even :: "nat \<Rightarrow> nat \<Rightarrow> nat" where
  "round_even n k =
     (let q = n div 2 ^ k; r = n mod 2 ^ k
      in if 2 * r > 2 ^ k \<or> 2 * r = 2 ^ k \<and> odd q then q + 1 else q)"

definition narrow_magnitude :: "nat \<Rightarrow> nat \<Rightarrow> nat" where
  "narrow_magnitude e m =
     (if e = 2047 then 255 * 2 ^ 23 + (if m = 0 then 0 else 2 ^ 22 + m div 2 ^ 29 mod 2 ^ 22)
      else if e \<ge> 897 then min ((e - 897) * 2 ^ 23 + round_even (2 ^ 52 + m) 29) (255 * 2 ^ 23)
      else if e = 0 then 0
      else round_even (2 ^ 52 + m) (29 + (897 - e)))"

definition double_to_float :: "u64 \<Rightarrow> u32" where
  "double_to_float x = of_nat ((if dbl_neg x then 2 ^ 31 else 0) + narrow_magnitude (dbl_exp x) (dbl_man x))"

text \<open>
  \<open>luai_num2int\<close> truncates; the callers compare the result with the double they started from, so only
  doubles that are integers in the range of \<open>int\<close> matter.
\<close>

definition arrayindex :: "u64 \<Rightarrow> int" where
  "arrayindex key = (case dbl_int key of Some i \<Rightarrow> if - (2 ^ 31) \<le> i \<and> i < 2 ^ 31 then i else - 1 | None \<Rightarrow> - 1)"

section \<open>Logarithm\<close>

definition log_2 :: "nat list" where
  "log_2 = 0 # concat (map (\<lambda>k. replicate (2 ^ k) (k + 1)) [0..<8])"

fun luaO_log2_from :: "int \<Rightarrow> nat \<Rightarrow> int" where
  "luaO_log2_from l x = (if x \<ge> 256 then luaO_log2_from (l + 8) (x div 256) else l + int (log_2 ! x))"

declare luaO_log2_from.simps [simp del]

definition luaO_log2 :: "nat \<Rightarrow> int" where
  "luaO_log2 x = luaO_log2_from (- 1) x"

definition ceillog2 :: "nat \<Rightarrow> nat" where
  "ceillog2 x = nat (luaO_log2 (x - 1) + 1)"

section \<open>Properties of doubles\<close>

lemma bit_length_bounds: "n < 2 ^ bit_length n" "0 < n \<Longrightarrow> 2 ^ (bit_length n - 1) \<le> n"
proof (induction n rule: bit_length.induct)
  case (1 n)
  { case 1 then show ?case using "1.IH" by (subst bit_length.simps) auto }
  { case 2
    show ?case
    proof (cases "n = 1")
      case False
      then have h: "0 < n div 2" "0 < n" using 2 by auto
      then have "2 ^ (bit_length (n div 2) - 1) \<le> n div 2" using "1.IH" by simp
      moreover have "bit_length (n div 2) \<noteq> 0" using h by (subst bit_length.simps) simp
      then have "2 * 2 ^ (bit_length (n div 2) - 1) = (2 :: nat) ^ bit_length (n div 2)" by (cases "bit_length (n div 2)") auto
      moreover have "bit_length n = Suc (bit_length (n div 2))" using h by (subst bit_length.simps) simp
      ultimately show ?thesis by simp
    qed (simp add: bit_length.simps) }
qed

lemma bit_length_unique:
  assumes "2 ^ k \<le> n" "n < 2 ^ Suc k"
  shows "bit_length n = Suc k"
proof -
  have n: "0 < n" using assms(1) by (cases n) auto
  note b = bit_length_bounds(1) [of n] bit_length_bounds(2) [OF n]
  have "(2 :: nat) ^ k < 2 ^ bit_length n" using assms(1) b(1) by (rule le_less_trans)
  moreover have "(2 :: nat) ^ (bit_length n - 1) < 2 ^ Suc k" using b(2) assms(2) by (rule le_less_trans)
  ultimately have "k < bit_length n" "bit_length n - 1 < Suc k" by (simp_all only: power_strict_increasing_iff one_less_numeral_iff semiring_norm)
  then show ?thesis by simp
qed

lemma unat_of_nat_u64: "n < 2 ^ 64 \<Longrightarrow> unat (of_nat n :: u64) = n"
  by (simp add: unat_of_nat take_bit_nat_eq_self)

lemma dbl_fields:
  assumes "e < 2 ^ 11" "m < 2 ^ 52"
  shows "dbl_neg (mk_dbl s e m) = s" "dbl_exp (mk_dbl s e m) = e" "dbl_man (mk_dbl s e m) = m"
proof -
  have b: "e * 2 ^ 52 + m < 2 ^ 63" using assms by simp
  have u: "unat (mk_dbl s e m) = (if s then 2 ^ 63 else 0) + e * 2 ^ 52 + m"
    unfolding mk_dbl_def by (rule unat_of_nat_u64) (use b in auto)
  then have v: "unat (mk_dbl s e m) = ((if s then 2 ^ 11 else 0) + e) * 2 ^ 52 + m" by (simp add: add_mult_distrib)
  show "dbl_man (mk_dbl s e m) = m" unfolding dbl_man_def v using assms(2) by (simp only: mod_mult_self3 mod_less)
  show "dbl_neg (mk_dbl s e m) = s" unfolding dbl_neg_def u using b by auto
  have "(((if s then 2 ^ 11 else 0) + e) * 2 ^ 52 + m) div 2 ^ 52 = (if s then 2 ^ 11 else 0) + e" using assms(2) by simp
  then show "dbl_exp (mk_dbl s e m) = e" unfolding dbl_exp_def v using assms(1) by simp
qed

lemma dbl_bounds: "dbl_exp x < 2 ^ 11" "dbl_man x < 2 ^ 52"
  by (simp_all add: dbl_exp_def dbl_man_def)

lemma mk_dbl_fields: "mk_dbl (dbl_neg x) (dbl_exp x) (dbl_man x) = x"
proof -
  have "unat x < 2 ^ 64" using unsigned_less [of x] by simp
  then have s: "unat x div 2 ^ 63 = (if dbl_neg x then 1 else 0)" unfolding dbl_neg_def by auto
  have "unat x div 2 ^ 52 div 2 ^ 11 = unat x div 2 ^ 63" unfolding div_mult2_eq [symmetric] by simp
  then have "unat x div 2 ^ 52 = unat x div 2 ^ 63 * 2 ^ 11 + unat x div 2 ^ 52 mod 2 ^ 11" by (metis div_mult_mod_eq)
  moreover have "unat x = unat x div 2 ^ 52 * 2 ^ 52 + unat x mod 2 ^ 52" by (simp only: div_mult_mod_eq)
  ultimately have "unat x = (unat x div 2 ^ 63 * 2 ^ 11 + unat x div 2 ^ 52 mod 2 ^ 11) * 2 ^ 52 + unat x mod 2 ^ 52" by metis
  also have "\<dots> = unat x div 2 ^ 63 * 2 ^ 63 + unat x div 2 ^ 52 mod 2 ^ 11 * 2 ^ 52 + unat x mod 2 ^ 52"
    by (simp add: add_mult_distrib)
  also have "\<dots> = (if dbl_neg x then 2 ^ 63 else 0) + dbl_exp x * 2 ^ 52 + dbl_man x"
    unfolding s dbl_exp_def dbl_man_def by simp
  finally have "mk_dbl (dbl_neg x) (dbl_exp x) (dbl_man x) = of_nat (unat x)" unfolding mk_dbl_def by metis
  then show ?thesis by simp
qed

lemma dbl_int_normal:
  assumes "1023 \<le> dbl_exp x" "dbl_exp x \<le> 1075"
  shows "dbl_int x = (let f = 2 ^ 52 + dbl_man x; d = 2 ^ (1075 - dbl_exp x)
    in if f mod d = 0 then Some ((if dbl_neg x then - 1 else 1) * int (f div d)) else None)"
  using assms by (simp add: dbl_int_def Let_def)

lemma cast_num_fields:
  assumes "i \<noteq> 0" "abs i < 2 ^ 32"
  defines "a \<equiv> nat (abs i)" and "k \<equiv> bit_length (nat (abs i)) - 1"
  shows "k < 32" "2 ^ k \<le> a" "a < 2 ^ Suc k" "cast_num i = mk_dbl (i < 0) (1023 + k) ((a - 2 ^ k) * 2 ^ (52 - k))"
    "(a - 2 ^ k) * 2 ^ (52 - k) < 2 ^ 52" "2 ^ 52 + (a - 2 ^ k) * 2 ^ (52 - k) = a * 2 ^ (52 - k)"
proof -
  have a: "0 < a" "a < 2 ^ 32" using assms by auto
  note b = bit_length_bounds(1) [of a] bit_length_bounds(2) [OF a(1)]
  have bl: "bit_length a \<noteq> 0" using a(1) by (subst bit_length.simps) simp
  show k: "2 ^ k \<le> a" "a < 2 ^ Suc k" using b bl by (simp_all add: k_def a_def)
  have "(2 :: nat) ^ k < 2 ^ 32" using k(1) a(2) by linarith
  then show k32: "k < 32" by (simp only: power_strict_increasing_iff one_less_numeral_iff semiring_norm)
  show "cast_num i = mk_dbl (i < 0) (1023 + k) ((a - 2 ^ k) * 2 ^ (52 - k))"
    using a by (simp add: cast_num_def Let_def a_def k_def)
  have p: "(2 :: nat) ^ k * 2 ^ (52 - k) = 2 ^ 52" using k32 by (simp flip: power_add)
  have "a - 2 ^ k < 2 ^ k" using k by simp
  then have "(a - 2 ^ k) * 2 ^ (52 - k) < 2 ^ k * 2 ^ (52 - k)" by simp
  then show "(a - 2 ^ k) * 2 ^ (52 - k) < 2 ^ 52" unfolding p .
  have "a * 2 ^ (52 - k) = (2 ^ k + (a - 2 ^ k)) * 2 ^ (52 - k)" using k(1) by simp
  then show "2 ^ 52 + (a - 2 ^ k) * 2 ^ (52 - k) = a * 2 ^ (52 - k)" unfolding add_mult_distrib p by simp
qed

lemma dbl_int_cast_num:
  assumes "abs i < 2 ^ 32"
  shows "dbl_int (cast_num i) = Some i"
proof (cases "i = 0")
  case True
  then show ?thesis by (simp add: cast_num_def dbl_int_def dbl_exp_def dbl_man_def)
next
  case False
  define a k where "a = nat (abs i)" and "k = bit_length (nat (abs i)) - 1"
  note c = cast_num_fields [OF False assms, folded a_def k_def]
  have f: "dbl_neg (cast_num i) = (i < 0)" "dbl_exp (cast_num i) = 1023 + k" "dbl_man (cast_num i) = (a - 2 ^ k) * 2 ^ (52 - k)"
    unfolding c(4) by (rule dbl_fields; use c(1,5) in simp)+
  have e: "1075 - (1023 + k) = 52 - k" by simp
  have "dbl_int (cast_num i) = (let f = a * 2 ^ (52 - k); d = 2 ^ (52 - k)
      in if f mod d = 0 then Some ((if i < 0 then - 1 else 1) * int (f div d)) else None)"
    using dbl_int_normal [of "cast_num i"] c(1) unfolding f e c(6) by simp
  then have "dbl_int (cast_num i) = Some ((if i < 0 then - 1 else 1) * int a)" by (simp add: Let_def)
  then show ?thesis by (simp add: a_def)
qed

lemma dbl_int_unique:
  assumes "dbl_int x = Some i" "i \<noteq> 0" "abs i < 2 ^ 32"
  shows "x = cast_num i"
proof -
  define a k where "a = nat (abs i)" and "k = bit_length (nat (abs i)) - 1"
  note c = cast_num_fields [OF assms(2,3), folded a_def k_def]
  let ?f = "2 ^ 52 + dbl_man x" and ?e = "dbl_exp x"
  have f53: "2 ^ 52 \<le> ?f" "?f < 2 ^ 53" using dbl_bounds(2) [of x] by auto
  have small: "a < 2 ^ 32" using assms(3) by (simp add: a_def)
  have e: "1023 \<le> ?e \<and> ?e \<le> 1075"
  proof (rule ccontr)
    assume "\<not> (1023 \<le> ?e \<and> ?e \<le> 1075)"
    then have "i = (if dbl_neg x then - 1 else 1) * int (?f * 2 ^ (?e - 1075))"
      using assms(1,2) by (auto simp: dbl_int_def Let_def split: if_splits)
    then have "a = ?f * 2 ^ (?e - 1075)" by (simp add: a_def nat_mult_distrib nat_add_distrib nat_power_eq split: if_splits)
    moreover have "?f \<le> ?f * 2 ^ (?e - 1075)" by simp
    ultimately have "2 ^ 52 \<le> a" using f53(1) by linarith
    then show False using small by simp
  qed
  define sh where "sh = 1075 - ?e"
  have i: "?f mod 2 ^ sh = 0" "i = (if dbl_neg x then - 1 else 1) * int (?f div 2 ^ sh)"
    using assms(1) dbl_int_normal [of x] e by (auto simp: sh_def Let_def split: if_splits)
  have a: "a = ?f div 2 ^ sh" unfolding a_def i(2) by simp
  then have fa: "?f = a * 2 ^ sh" using i(1) by (metis div_mult_mod_eq add.right_neutral)
  have sh: "sh \<le> 52" using e unfolding sh_def by linarith
  have p: "(2 :: nat) ^ 52 = 2 ^ (52 - sh) * 2 ^ sh" "(2 :: nat) ^ 53 = 2 ^ Suc (52 - sh) * 2 ^ sh"
    using sh by (simp_all flip: power_add power_Suc)
  have "2 ^ (52 - sh) * 2 ^ sh \<le> a * 2 ^ sh" "a * 2 ^ sh < 2 ^ Suc (52 - sh) * 2 ^ sh"
    using f53 unfolding fa p(1) [symmetric] p(2) [symmetric] .
  then have "2 ^ (52 - sh) \<le> a" "a < 2 ^ Suc (52 - sh)" by simp_all
  then have "bit_length a = Suc (52 - sh)" by (rule bit_length_unique)
  then have k: "k = 52 - sh" by (simp add: k_def a_def)
  then have ek: "?e = 1023 + k" "52 - k = sh" using e sh by (simp_all add: sh_def)
  have "dbl_man x = (a - 2 ^ k) * 2 ^ (52 - k)" using c(6) fa unfolding ek(2) by linarith
  moreover have "dbl_neg x = (i < 0)" using i(2) assms(2) by (auto simp: a_def split: if_splits)
  ultimately show ?thesis unfolding c(4) using mk_dbl_fields [of x] ek(1) by simp
qed

lemma is_nan64_fields: "is_nan64 x \<longleftrightarrow> dbl_exp x = 2047 \<and> dbl_man x \<noteq> 0"
proof -
  have "unat (take_bit 11 (drop_bit 52 x)) = dbl_exp x" "unat (take_bit 52 x) = dbl_man x"
    unfolding dbl_exp_def dbl_man_def unsigned_take_bit_eq unat_drop_bit_eq by (simp_all add: take_bit_eq_mod drop_bit_eq_div)
  moreover have "unat (2047 :: u64) = 2047" by simp
  ultimately show ?thesis unfolding is_nan64_def by (metis unat_eq_0 unsigned_word_eqI)
qed

lemma zero_fields: "take_bit 63 x = 0 \<longleftrightarrow> dbl_exp x = 0 \<and> dbl_man x = 0"
proof -
  have "unat (take_bit 63 x) = dbl_exp x * 2 ^ 52 + dbl_man x"
  proof -
    have "unat x mod 2 ^ 63 = unat x mod 2 ^ 52 + 2 ^ 52 * (unat x div 2 ^ 52 mod 2 ^ 11)"
      using mod_mult2_eq [of "unat x" "2 ^ 52" "2 ^ 11"] by (simp add: add.commute)
    then show ?thesis unfolding dbl_exp_def dbl_man_def unsigned_take_bit_eq by (simp add: take_bit_eq_mod)
  qed
  then show ?thesis by (simp flip: unat_eq_0)
qed

lemma dbl_int_not_nan: "dbl_int x = Some i \<Longrightarrow> \<not> is_nan64 x"
  by (auto simp: dbl_int_def is_nan64_fields Let_def split: if_splits)

lemma dbl_int_zero: "dbl_int x = Some 0 \<longleftrightarrow> take_bit 63 x = 0"
proof
  assume z: "dbl_int x = Some 0"
  show "take_bit 63 x = 0"
  proof (cases "dbl_exp x = 0")
    case False
    then consider "1023 \<le> dbl_exp x" "dbl_exp x \<le> 1075" | "1075 < dbl_exp x"
      using z by (auto simp: dbl_int_def Let_def split: if_splits)
    then show ?thesis
    proof cases
      case 1
      have "(2 :: nat) ^ (1075 - dbl_exp x) \<le> 2 ^ 52" using 1 by (intro power_increasing) auto
      also have "\<dots> \<le> 2 ^ 52 + dbl_man x" by simp
      finally have "(2 ^ 52 + dbl_man x) div 2 ^ (1075 - dbl_exp x) \<noteq> 0" by (simp add: div_eq_0_iff)
      moreover have "(2 ^ 52 + dbl_man x) div 2 ^ (1075 - dbl_exp x) = 0"
        using z 1 by (simp only: dbl_int_normal Let_def split: if_splits) auto
      ultimately show ?thesis by simp
    qed (use z in \<open>auto simp: dbl_int_def Let_def split: if_splits\<close>)
  qed (use z in \<open>auto simp: dbl_int_def zero_fields split: if_splits\<close>)
qed (simp add: dbl_int_def zero_fields)

lemma arrayindex_cast_num: "- (2 ^ 31) \<le> i \<Longrightarrow> i < 2 ^ 31 \<Longrightarrow> arrayindex (cast_num i) = i"
  using dbl_int_cast_num [of i] by (auto simp: arrayindex_def)

lemma arrayindex_pos: "0 < arrayindex x \<Longrightarrow> x = cast_num (arrayindex x) \<and> arrayindex x < 2 ^ 31"
  using dbl_int_unique [of x] by (auto simp: arrayindex_def split: option.splits if_splits)

lemma cast_num_not_nan: "abs i < 2 ^ 32 \<Longrightarrow> \<not> is_nan64 (cast_num i)"
  using dbl_int_cast_num dbl_int_not_nan by blast

lemma numeq_dbl_int: "luai_numeq a b \<Longrightarrow> dbl_int a = dbl_int b"
  unfolding luai_numeq_def by (metis dbl_int_zero)

lemma numeq_arrayindex: "luai_numeq a b \<Longrightarrow> arrayindex a = arrayindex b"
  using numeq_dbl_int by (simp add: arrayindex_def)

lemma numeq_cast_num:
  assumes "abs i < 2 ^ 32"
  shows "luai_numeq x (cast_num i) \<longleftrightarrow> dbl_int x = Some i"
proof
  assume "luai_numeq x (cast_num i)"
  then show "dbl_int x = Some i" using numeq_dbl_int dbl_int_cast_num [OF assms] by metis
next
  assume x: "dbl_int x = Some i"
  show "luai_numeq x (cast_num i)"
  proof (cases "i = 0")
    case True
    then show ?thesis using x dbl_int_zero [of x] dbl_int_zero [of "cast_num 0"] dbl_int_cast_num [of 0] dbl_int_not_nan
      by (auto simp: luai_numeq_def)
  next
    case False
    then show ?thesis using dbl_int_unique [OF x] dbl_int_not_nan [OF x] assms by (auto simp: luai_numeq_def)
  qed
qed

section \<open>Properties of the logarithm\<close>

lemma log_2_table: "x < 256 \<Longrightarrow> log_2 ! x = bit_length x"
proof -
  have "map bit_length [0..<256] = log_2" by code_simp
  moreover assume "x < 256"
  ultimately show ?thesis by (metis add_0 diff_zero length_upt nth_map nth_upt)
qed

lemma bit_length_256:
  assumes "256 \<le> x"
  shows "bit_length x = 8 + bit_length (x div 256)"
proof -
  let ?y = "x div 256"
  have y: "0 < ?y" using assms by (simp add: div_greater_zero_iff)
  note b = bit_length_bounds(1) [of ?y] bit_length_bounds(2) [OF y]
  have bl: "bit_length ?y \<noteq> 0" using y by (subst bit_length.simps) simp
  have "2 ^ (7 + bit_length ?y) \<le> x"
  proof -
    have "2 ^ (7 + bit_length ?y) = 2 ^ (bit_length ?y - 1) * (256 :: nat)" using bl by (cases "bit_length ?y") (simp_all add: power_add)
    also have "\<dots> \<le> ?y * 256" using b(2) by simp
    also have "\<dots> \<le> x" by simp
    finally show ?thesis .
  qed
  moreover have "x < 2 ^ Suc (7 + bit_length ?y)"
  proof -
    have "x < (?y + 1) * 256" by simp
    also have "\<dots> \<le> 2 ^ bit_length ?y * 256" using b(1) by (intro mult_le_mono1) simp
    also have "\<dots> = 2 ^ Suc (7 + bit_length ?y)" by (simp add: power_add)
    finally show ?thesis .
  qed
  ultimately show ?thesis using bit_length_unique by fastforce
qed

lemma luaO_log2_eq: "luaO_log2 x = int (bit_length x) - 1"
proof -
  have "luaO_log2_from l x = l + int (bit_length x)" for l
    by (induction l x rule: luaO_log2_from.induct)
      (subst luaO_log2_from.simps, auto simp: log_2_table bit_length_256)
  then show ?thesis by (simp add: luaO_log2_def)
qed

lemma ceillog2_eq: "ceillog2 x = bit_length (x - 1)"
  by (simp add: ceillog2_def luaO_log2_eq)

lemma ceillog2_upper: "x \<le> 2 ^ ceillog2 x"
  using bit_length_bounds(1) [of "x - 1"] unfolding ceillog2_eq by linarith

lemma ceillog2_least: "x \<le> 2 ^ j \<Longrightarrow> ceillog2 x \<le> j"
proof (cases "x \<le> 1")
  case True
  then show "ceillog2 x \<le> j" by (simp add: ceillog2_eq bit_length.simps)
next
  case False
  assume "x \<le> 2 ^ j"
  then have "2 ^ (bit_length (x - 1) - 1) < (2 :: nat) ^ j" using False bit_length_bounds(2) [of "x - 1"] by linarith
  then have "bit_length (x - 1) - 1 < j" by (simp only: power_strict_increasing_iff one_less_numeral_iff semiring_norm)
  then show "ceillog2 x \<le> j" by (simp add: ceillog2_eq)
qed

section \<open>Narrowing to float\<close>

lemma round_even_nearest: "2 * \<bar>int n - int (round_even n k) * 2 ^ k\<bar> \<le> 2 ^ k"
proof -
  define q r where "q = n div 2 ^ k" and "r = n mod 2 ^ k"
  have "n = q * 2 ^ k + r" unfolding q_def r_def by (simp only: div_mult_mod_eq)
  then have n: "int n = int q * 2 ^ k + int r" by simp
  have "r < 2 ^ k" unfolding r_def by simp
  then have r: "int r < 2 ^ k" by (metis of_nat_less_iff of_nat_numeral of_nat_power)
  have e: "round_even n k = (if 2 * r > 2 ^ k \<or> 2 * r = 2 ^ k \<and> odd q then q + 1 else q)"
    by (simp add: round_even_def q_def r_def Let_def)
  show ?thesis
  proof (cases "2 * r > 2 ^ k \<or> 2 * r = 2 ^ k \<and> odd q")
    case True
    then have "2 ^ k \<le> 2 * r" by auto
    then have "2 ^ k \<le> 2 * int r" by (metis of_nat_le_iff of_nat_mult of_nat_numeral of_nat_power)
    then show ?thesis using True e n r by (simp add: distrib_right)
  next
    case False
    then have "2 * r \<le> 2 ^ k" by auto
    then have "2 * int r \<le> 2 ^ k" by (metis of_nat_le_iff of_nat_mult of_nat_numeral of_nat_power)
    then show ?thesis using False e n by auto
  qed
qed

lemma round_even_le:
  assumes "n \<le> c * 2 ^ k"
  shows "round_even n k \<le> c"
proof (cases "n div 2 ^ k < c")
  case True then show ?thesis by (simp add: round_even_def Let_def)
next
  case False
  then have "c * 2 ^ k \<le> n" by (meson linorder_not_less div_times_less_eq_dividend le_trans mult_le_mono1)
  then have "n = c * 2 ^ k" using assms by simp
  then show ?thesis by (simp add: round_even_def Let_def)
qed

lemma narrow_magnitude_finite:
  assumes "e \<noteq> 2047" "m < 2 ^ 52"
  shows "narrow_magnitude e m \<le> 255 * 2 ^ 23"
proof -
  have "(1 :: nat) \<le> 2 ^ (897 - e)" by simp
  then have "2 ^ 53 * 1 \<le> 2 ^ 53 * (2 :: nat) ^ (897 - e)" by (rule mult_le_mono2)
  moreover have "2 ^ 52 + m \<le> 2 ^ 53 * 1" using assms(2) by simp
  ultimately have "2 ^ 52 + m \<le> 2 ^ 53 * 2 ^ (897 - e)" by (rule order_trans [rotated])
  then have "2 ^ 52 + m \<le> 2 ^ 24 * 2 ^ (29 + (897 - e))" by (simp add: power_add)
  from round_even_le [OF this] show ?thesis using assms by (auto simp: narrow_magnitude_def)
qed

lemma is_nan32_fields: "is_nan32 x \<longleftrightarrow> 255 * 2 ^ 23 < unat x mod 2 ^ 31"
proof -
  have e: "unat (take_bit 8 (drop_bit 23 x)) = unat x div 2 ^ 23 mod 2 ^ 8" and m: "unat (take_bit 23 x) = unat x mod 2 ^ 23"
    unfolding unsigned_take_bit_eq unat_drop_bit_eq by (simp_all add: take_bit_eq_mod drop_bit_eq_div)
  have "unat x mod 2 ^ 31 = unat x div 2 ^ 23 mod 2 ^ 8 * 2 ^ 23 + unat x mod 2 ^ 23"
    using mod_mult2_eq [of "unat x" "2 ^ 23" "2 ^ 8"] by simp
  moreover have "unat x mod 2 ^ 23 < 2 ^ 23" "unat x div 2 ^ 23 mod 2 ^ 8 < 2 ^ 8" by simp_all
  ultimately have c: "255 * 2 ^ 23 < unat x mod 2 ^ 31 \<longleftrightarrow> unat x div 2 ^ 23 mod 2 ^ 8 = 255 \<and> unat x mod 2 ^ 23 \<noteq> 0" by auto
  have d: "take_bit 8 (drop_bit 23 x) = 255 \<longleftrightarrow> unat x div 2 ^ 23 mod 2 ^ 8 = 255" unfolding e [symmetric]
    using unsigned_word_eqI [of "take_bit 8 (drop_bit 23 x)" 255] by auto
  have f: "take_bit 23 x = 0 \<longleftrightarrow> unat x mod 2 ^ 23 = 0" unfolding m [symmetric] by (simp add: unat_eq_0)
  show ?thesis unfolding is_nan32_def c d f ..
qed

lemma double_to_float_nan: "is_nan32 (double_to_float x) = is_nan64 x"
proof -
  define M where "M = narrow_magnitude (dbl_exp x) (dbl_man x)"
  have fin: "dbl_exp x \<noteq> 2047 \<Longrightarrow> M \<le> 255 * 2 ^ 23" using narrow_magnitude_finite dbl_bounds [of x] by (simp add: M_def)
  have spec: "dbl_exp x = 2047 \<Longrightarrow> M = 255 * 2 ^ 23 + (if dbl_man x = 0 then 0 else 2 ^ 22 + dbl_man x div 2 ^ 29 mod 2 ^ 22)"
    by (simp add: M_def narrow_magnitude_def)
  have "dbl_man x div 2 ^ 29 mod 2 ^ 22 < 2 ^ 22" by simp
  then have b: "M < 2 ^ 31" using fin spec by (cases "dbl_exp x = 2047") (auto split: if_splits)
  then have "unat (double_to_float x) = (if dbl_neg x then 2 ^ 31 else 0) + M"
    unfolding double_to_float_def M_def [symmetric] unat_of_nat by (intro mod_less) simp
  then have "unat (double_to_float x) mod 2 ^ 31 = M" using b by simp
  then show ?thesis unfolding is_nan32_fields is_nan64_fields using fin spec by (cases "dbl_exp x = 2047") auto
qed

lemma double_to_float_values:
  "double_to_float 0x3FF0000000000000 = 0x3F800000" "double_to_float 0xBFB999999999999A = 0xBDCCCCCD"
  "double_to_float 0x47EFFFFFF0000000 = 0x7F800000" "double_to_float 0x36A0000000000000 = 1"
  by (simp_all add: double_to_float_def narrow_magnitude_def round_even_def dbl_exp_def dbl_man_def dbl_neg_def Let_def)

end
