(* ===== verification/BytecodeBuilder.thy ===== *)
theory BytecodeBuilder
  imports Instruction LineInfo Numbers
begin

text \<open>
  The bytecode writer, \<^verbatim>\<open>Bytecode/src/BytecodeBuilder.cpp\<close>: the builder's state, the operations the
  compiler calls, and the serialization of functions and of the whole module. Operations that
  assert return \<open>None\<close> when the assertion fails. Floating-point numbers are their bit patterns
  (the builder only copies them); the hash maps are maps or association lists (searched with the
  key's equality), which is what the hash table theory shows they implement; feature flags are
  fields of a record. Dumping, validation of instruction operands in debug builds, and remarks are
  not modelled.
\<close>

section \<open>Data\<close>

record fflags =
  LuauEmitCallFeedback :: bool
  LuauBytecodeCostModel :: bool
  LuauCompileEmitVectorDouble :: bool
  DebugLuauUserDefinedClasses :: bool

abbreviation sized_protos :: "fflags \<Rightarrow> bool" where
  "sized_protos fl \<equiv> LuauBytecodeCostModel fl \<or> LuauCompileEmitVectorDouble fl \<or> DebugLuauUserDefinedClasses fl"

datatype bconstant =
    Type_Nil
  | Type_Boolean bool
  | Type_Number u64
  | Type_Integer u64
  | Type_Vectorf u32 u32 u32 u32
  | Type_Vectord u64 u64 u64 u64
  | Type_String u32
  | Type_Import u32
  | Type_Table nat
  | Type_Closure u32
  | Type_ClassShape nat

datatype constant_type =
  KNil | KBoolean | KNumber | KInteger | KVectorf | KVectord | KString | KImport | KClosure

record constant_key =
  ck_type :: constant_type
  ck_value :: u64
  ck_extra1 :: u64
  ck_extra2 :: u64
  ck_extra3 :: u64

record table_shape =
  ts_keys :: "u32 list"
  ts_constants :: "u32 list"
  ts_hasConstants :: bool

text \<open>\<open>TableShape::operator==\<close>: the constants take part only when \<open>hasConstants\<close> is set.\<close>

definition table_shape_eq :: "table_shape \<Rightarrow> table_shape \<Rightarrow> bool" where
  "table_shape_eq s other \<longleftrightarrow>
     ts_keys s = ts_keys other \<and> ts_hasConstants s = ts_hasConstants other \<and>
     (ts_hasConstants s \<longrightarrow> ts_constants s = ts_constants other)"

record class_shape =
  cs_className :: u32
  cs_propertyNames :: "u32 list"
  cs_methodNames :: "u32 list"

record bfunction =
  f_data :: bytes
  f_maxstacksize :: u8
  f_numparams :: u8
  f_numupvalues :: u8
  f_isvararg :: bool
  f_debugname :: u32
  f_debuglinedefined :: u32
  f_typeinfo :: bytes

record debug_local =
  dl_name :: u32
  dl_reg :: u8
  dl_startpc :: u32
  dl_endpc :: u32

record typed_local =
  tl_type :: u8
  tl_reg :: u8
  tl_startpc :: u32
  tl_endpc :: u32

record userdata_type =
  ut_name :: bytes
  ut_nameRef :: u32
  ut_used :: bool

record builder =
  b_functions :: "bfunction list"
  b_currentFunction :: "nat option"
  b_mainFunction :: "nat option"
  b_totalInstructionCount :: nat
  b_insns :: "u32 list"
  b_lines :: "int list"
  b_constants :: "bconstant list"
  b_protos :: "u32 list"
  b_jumps :: "(nat \<times> nat) list"
  b_tableShapes :: "table_shape list"
  b_classShapes :: "class_shape list"
  b_fbSlots :: "u32 list"
  b_hasLongJumps :: bool
  b_constantMap :: "constant_key \<rightharpoonup> int"
  b_tableShapeMap :: "(table_shape \<times> int) list"
  b_protoMap :: "u32 \<rightharpoonup> int"
  b_debugLine :: int
  b_debugLocals :: "debug_local list"
  b_debugUpvals :: "u32 list"
  b_typedLocals :: "typed_local list"
  b_typedUpvals :: "u8 list"
  b_userdataTypes :: "userdata_type list"
  b_stringTable :: "(bytes \<times> u32) list"
  b_bytecode :: bytes

definition builder_new :: builder where
  "builder_new = \<lparr>b_functions = [], b_currentFunction = None, b_mainFunction = None, b_totalInstructionCount = 0,
     b_insns = [], b_lines = [], b_constants = [], b_protos = [], b_jumps = [], b_tableShapes = [], b_classShapes = [],
     b_fbSlots = [], b_hasLongJumps = False, b_constantMap = Map.empty, b_tableShapeMap = [], b_protoMap = Map.empty,
     b_debugLine = 0, b_debugLocals = [], b_debugUpvals = [], b_typedLocals = [], b_typedUpvals = [],
     b_userdataTypes = [], b_stringTable = [], b_bytecode = []\<rparr>"

section \<open>Functions\<close>

definition beginFunction :: "u8 \<Rightarrow> bool \<Rightarrow> builder \<Rightarrow> (nat \<times> builder) option" where
  "beginFunction numparams isvararg b =
     (if b_currentFunction b \<noteq> None then None
      else let ident = length (b_functions b);
               func = \<lparr>f_data = [], f_maxstacksize = 0, f_numparams = numparams, f_numupvalues = 0, f_isvararg = isvararg,
                       f_debugname = 0, f_debuglinedefined = 0, f_typeinfo = []\<rparr>
           in Some (ident, b\<lparr>b_functions := b_functions b @ [func], b_currentFunction := Some ident,
                          b_hasLongJumps := False, b_debugLine := 0\<rparr>))"

definition clearState :: "builder \<Rightarrow> builder" where
  "clearState b = b\<lparr>b_insns := [], b_lines := [], b_constants := [], b_protos := [], b_jumps := [], b_fbSlots := [],
     b_tableShapes := [], b_debugLocals := [], b_debugUpvals := [], b_typedLocals := [], b_typedUpvals := [],
     b_constantMap := Map.empty, b_tableShapeMap := [], b_protoMap := Map.empty\<rparr>"

definition setMainFunction :: "nat \<Rightarrow> builder \<Rightarrow> builder option" where
  "setMainFunction fid b = (if fid < length (b_functions b) then Some (b\<lparr>b_mainFunction := Some fid\<rparr>) else None)"

definition update_current :: "(bfunction \<Rightarrow> bfunction) \<Rightarrow> builder \<Rightarrow> builder option" where
  "update_current g b =
     (case b_currentFunction b of None \<Rightarrow> None
      | Some cur \<Rightarrow> if cur < length (b_functions b)
                     then Some (b\<lparr>b_functions := (b_functions b)[cur := g (b_functions b ! cur)]\<rparr>) else None)"

section \<open>Constants\<close>

definition kMaxConstantCount :: nat where
  "kMaxConstantCount = 2 ^ 23"

definition kMaxClosureCount :: nat where
  "kMaxClosureCount = 2 ^ 15"

definition kMaxJumpDistance :: int where
  "kMaxJumpDistance = 2 ^ 23"

definition addConstant :: "constant_key \<Rightarrow> bconstant \<Rightarrow> builder \<Rightarrow> int \<times> builder" where
  "addConstant key v b =
     (case b_constantMap b key of
        Some cache \<Rightarrow> (cache, b)
      | None \<Rightarrow>
          let ident = length (b_constants b)
          in if ident \<ge> kMaxConstantCount then (- 1, b)
             else (int ident, b\<lparr>b_constantMap := (b_constantMap b)(key \<mapsto> int ident), b_constants := b_constants b @ [v]\<rparr>))"

text \<open>\<open>stringTable[value]\<close> creates an entry 0 first, so the size already counts the new entry.\<close>

definition addStringTableEntry :: "bytes \<Rightarrow> builder \<Rightarrow> u32 \<times> builder" where
  "addStringTableEntry v b =
     (case map_of (b_stringTable b) v of
        Some index \<Rightarrow>
          if index = 0
          then let index' = of_nat (length (b_stringTable b))
               in (index', b\<lparr>b_stringTable := map (\<lambda>(s, i). if s = v then (s, index') else (s, i)) (b_stringTable b)\<rparr>)
          else (index, b)
      | None \<Rightarrow>
          let index = of_nat (length (b_stringTable b) + 1)
          in (index, b\<lparr>b_stringTable := b_stringTable b @ [(v, index)]\<rparr>))"

abbreviation ckey :: "constant_type \<Rightarrow> u64 \<Rightarrow> constant_key" where
  "ckey ty v \<equiv> \<lparr>ck_type = ty, ck_value = v, ck_extra1 = 0, ck_extra2 = 0, ck_extra3 = 0\<rparr>"

definition addConstantNil :: "builder \<Rightarrow> int \<times> builder" where
  "addConstantNil b = addConstant (ckey KNil 0) Type_Nil b"

definition addConstantBoolean :: "bool \<Rightarrow> builder \<Rightarrow> int \<times> builder" where
  "addConstantBoolean v b = addConstant (ckey KBoolean (if v then 1 else 0)) (Type_Boolean v) b"

definition addConstantNumber :: "u64 \<Rightarrow> builder \<Rightarrow> int \<times> builder" where
  "addConstantNumber v b = addConstant (ckey KNumber v) (Type_Number v) b"

definition addConstantInteger :: "u64 \<Rightarrow> builder \<Rightarrow> int \<times> builder" where
  "addConstantInteger v b = addConstant (ckey KInteger v) (Type_Integer v) b"

definition addConstantVectorf :: "u32 \<Rightarrow> u32 \<Rightarrow> u32 \<Rightarrow> u32 \<Rightarrow> builder \<Rightarrow> int \<times> builder" where
  "addConstantVectorf x y z w b =
     addConstant \<lparr>ck_type = KVectorf, ck_value = ucast x OR push_bit 32 (ucast y), ck_extra1 = ucast z OR push_bit 32 (ucast w),
                  ck_extra2 = 0, ck_extra3 = 0\<rparr> (Type_Vectorf x y z w) b"

definition addConstantVectord :: "u64 \<Rightarrow> u64 \<Rightarrow> u64 \<Rightarrow> u64 \<Rightarrow> builder \<Rightarrow> int \<times> builder" where
  "addConstantVectord x y z w b =
     addConstant \<lparr>ck_type = KVectord, ck_value = x, ck_extra1 = y, ck_extra2 = z, ck_extra3 = w\<rparr> (Type_Vectord x y z w) b"

definition addConstantString :: "bytes \<Rightarrow> builder \<Rightarrow> int \<times> builder" where
  "addConstantString v b =
     (let (index, b') = addStringTableEntry v b in addConstant (ckey KString (ucast index)) (Type_String index) b')"

definition addImport :: "u32 \<Rightarrow> builder \<Rightarrow> int \<times> builder" where
  "addImport iid b = addConstant (ckey KImport (ucast iid)) (Type_Import iid) b"

fun find_shape :: "table_shape \<Rightarrow> (table_shape \<times> int) list \<Rightarrow> int option" where
  "find_shape s [] = None"
| "find_shape s ((s', i) # rest) = (if table_shape_eq s' s then Some i else find_shape s rest)"

definition addConstantTable :: "table_shape \<Rightarrow> builder \<Rightarrow> int \<times> builder" where
  "addConstantTable shape b =
     (case find_shape shape (b_tableShapeMap b) of
        Some cache \<Rightarrow> (cache, b)
      | None \<Rightarrow>
          let ident = length (b_constants b)
          in if ident \<ge> kMaxConstantCount then (- 1, b)
             else (int ident, b\<lparr>b_tableShapeMap := (shape, int ident) # b_tableShapeMap b,
                             b_tableShapes := b_tableShapes b @ [shape],
                             b_constants := b_constants b @ [Type_Table (length (b_tableShapes b))]\<rparr>))"

definition addConstantClosure :: "u32 \<Rightarrow> builder \<Rightarrow> int \<times> builder" where
  "addConstantClosure fid b = addConstant (ckey KClosure (ucast fid)) (Type_Closure fid) b"

definition addFbSlot :: "builder \<Rightarrow> nat \<times> builder" where
  "addFbSlot b = (length (b_fbSlots b), b\<lparr>b_fbSlots := b_fbSlots b @ [of_nat (length (b_insns b))]\<rparr>)"

definition addChildFunction :: "u32 \<Rightarrow> builder \<Rightarrow> int \<times> builder" where
  "addChildFunction fid b =
     (case b_protoMap b fid of
        Some cache \<Rightarrow> (cache, b)
      | None \<Rightarrow>
          let ident = length (b_protos b)
          in if ident \<ge> kMaxClosureCount then (- 1, b)
             else (int ident, b\<lparr>b_protoMap := (b_protoMap b)(fid \<mapsto> int ident), b_protos := b_protos b @ [fid]\<rparr>))"

definition addClassShape :: "class_shape \<Rightarrow> builder \<Rightarrow> int \<times> builder" where
  "addClassShape shape b =
     (let ident = length (b_constants b)
      in if ident \<ge> kMaxConstantCount then (- 1, b)
         else (int ident, b\<lparr>b_classShapes := b_classShapes b @ [shape],
                         b_constants := b_constants b @ [Type_ClassShape (length (b_classShapes b))]\<rparr>))"

section \<open>Instructions\<close>

definition push_insn :: "u32 \<Rightarrow> builder \<Rightarrow> builder" where
  "push_insn insn b = b\<lparr>b_insns := b_insns b @ [insn], b_lines := b_lines b @ [b_debugLine b]\<rparr>"

definition emitABC :: "u8 \<Rightarrow> u8 \<Rightarrow> u8 \<Rightarrow> u8 \<Rightarrow> builder \<Rightarrow> builder" where
  "emitABC op a b' c b = push_insn (insn_ABC op a b' c) b"

definition emitAD :: "u8 \<Rightarrow> u8 \<Rightarrow> u16 \<Rightarrow> builder \<Rightarrow> builder" where
  "emitAD op a d b = push_insn (insn_AD op a d) b"

definition emitE :: "u8 \<Rightarrow> u32 \<Rightarrow> builder \<Rightarrow> builder" where
  "emitE op e b = push_insn (insn_E op e) b"

definition emitAux :: "u32 \<Rightarrow> builder \<Rightarrow> builder" where
  "emitAux aux b = push_insn aux b"

definition undoEmit :: "u8 \<Rightarrow> builder \<Rightarrow> builder option" where
  "undoEmit op b =
     (if b_insns b = [] \<or> last (b_insns b) AND 255 \<noteq> ucast op then None
      else Some (b\<lparr>b_insns := butlast (b_insns b), b_lines := butlast (b_lines b)\<rparr>))"

definition emitLabel :: "builder \<Rightarrow> nat" where
  "emitLabel b = length (b_insns b)"

definition patchJumpD :: "nat \<Rightarrow> nat \<Rightarrow> builder \<Rightarrow> (bool \<times> builder) option" where
  "patchJumpD jumpLabel targetLabel b =
     (if \<not> jumpLabel < length (b_insns b) \<or> \<not> isJumpD (LUAU_INSN_OP (b_insns b ! jumpLabel))
         \<or> LUAU_INSN_D (b_insns b ! jumpLabel) \<noteq> 0 \<or> \<not> targetLabel \<le> length (b_insns b)
      then None
      else let offset = int targetLabel - int jumpLabel - 1;
               add = (\<lambda>b. b\<lparr>b_jumps := b_jumps b @ [(jumpLabel, targetLabel)]\<rparr>)
           in if - (2 ^ 15) \<le> offset \<and> offset < 2 ^ 15
              then Some (True, add (b\<lparr>b_insns := (b_insns b)[jumpLabel :=
                     b_insns b ! jumpLabel OR push_bit 16 (ucast (of_int offset :: u16))]\<rparr>))
              else if abs offset < kMaxJumpDistance then Some (True, add (b\<lparr>b_hasLongJumps := True\<rparr>))
              else Some (False, b))"

definition patchSkipC :: "nat \<Rightarrow> nat \<Rightarrow> builder \<Rightarrow> (bool \<times> builder) option" where
  "patchSkipC jumpLabel targetLabel b =
     (if \<not> jumpLabel < length (b_insns b)
         \<or> \<not> (isSkipC (LUAU_INSN_OP (b_insns b ! jumpLabel)) \<or> isFastCall (LUAU_INSN_OP (b_insns b ! jumpLabel)))
         \<or> LUAU_INSN_C (b_insns b ! jumpLabel) \<noteq> 0
      then None
      else let offset = int targetLabel - int jumpLabel - 1
           in if \<not> (0 \<le> offset \<and> offset < 256) then Some (False, b)
              else Some (True, b\<lparr>b_insns := (b_insns b)[jumpLabel := b_insns b ! jumpLabel OR push_bit 24 (of_int offset)]\<rparr>))"

definition patchAux :: "nat \<Rightarrow> u32 \<Rightarrow> builder \<Rightarrow> builder option" where
  "patchAux targetAux newValue b =
     (if targetAux < length (b_insns b) then Some (b\<lparr>b_insns := (b_insns b)[targetAux := newValue]\<rparr>) else None)"

section \<open>Types and debug information\<close>

definition setFunctionTypeInfo :: "bytes \<Rightarrow> builder \<Rightarrow> builder option" where
  "setFunctionTypeInfo v b = update_current (\<lambda>f. f\<lparr>f_typeinfo := v\<rparr>) b"

definition pushLocalTypeInfo :: "u8 \<Rightarrow> u8 \<Rightarrow> u32 \<Rightarrow> u32 \<Rightarrow> builder \<Rightarrow> builder" where
  "pushLocalTypeInfo ty reg startpc endpc b =
     b\<lparr>b_typedLocals := b_typedLocals b @ [\<lparr>tl_type = ty, tl_reg = reg, tl_startpc = startpc, tl_endpc = endpc\<rparr>]\<rparr>"

definition pushUpvalTypeInfo :: "u8 \<Rightarrow> builder \<Rightarrow> builder" where
  "pushUpvalTypeInfo ty b = b\<lparr>b_typedUpvals := b_typedUpvals b @ [ty]\<rparr>"

definition addUserdataType :: "bytes \<Rightarrow> builder \<Rightarrow> nat \<times> builder" where
  "addUserdataType name b =
     (length (b_userdataTypes b),
      b\<lparr>b_userdataTypes := b_userdataTypes b @ [\<lparr>ut_name = name, ut_nameRef = 0, ut_used = False\<rparr>]\<rparr>)"

definition useUserdataType :: "nat \<Rightarrow> builder \<Rightarrow> builder option" where
  "useUserdataType index b =
     (if index < length (b_userdataTypes b)
      then Some (b\<lparr>b_userdataTypes := (b_userdataTypes b)[index := (b_userdataTypes b ! index)\<lparr>ut_used := True\<rparr>]\<rparr>) else None)"

definition setDebugFunctionName :: "bytes \<Rightarrow> builder \<Rightarrow> builder option" where
  "setDebugFunctionName name b =
     (let (index, b') = addStringTableEntry name b in update_current (\<lambda>f. f\<lparr>f_debugname := index\<rparr>) b')"

definition setDebugFunctionLineDefined :: "u32 \<Rightarrow> builder \<Rightarrow> builder option" where
  "setDebugFunctionLineDefined line b = update_current (\<lambda>f. f\<lparr>f_debuglinedefined := line\<rparr>) b"

definition setDebugLine :: "int \<Rightarrow> builder \<Rightarrow> builder" where
  "setDebugLine line b = b\<lparr>b_debugLine := line\<rparr>"

definition pushDebugLocal :: "bytes \<Rightarrow> u8 \<Rightarrow> u32 \<Rightarrow> u32 \<Rightarrow> builder \<Rightarrow> builder" where
  "pushDebugLocal name reg startpc endpc b =
     (let (index, b') = addStringTableEntry name b
      in b'\<lparr>b_debugLocals := b_debugLocals b' @ [\<lparr>dl_name = index, dl_reg = reg, dl_startpc = startpc, dl_endpc = endpc\<rparr>]\<rparr>)"

definition pushDebugUpval :: "bytes \<Rightarrow> builder \<Rightarrow> builder" where
  "pushDebugUpval name b =
     (let (index, b') = addStringTableEntry name b in b'\<lparr>b_debugUpvals := b_debugUpvals b' @ [index]\<rparr>)"

section \<open>Serialization\<close>

abbreviation write_size :: "'a list \<Rightarrow> bytes" where
  "write_size xs \<equiv> writeVarInt (ucast (of_nat (length xs) :: u32))"

definition typeinfo_blob :: "bytes \<Rightarrow> u8 list \<Rightarrow> typed_local list \<Rightarrow> bytes" where
  "typeinfo_blob typeinfo upvals locals =
     write_size typeinfo @ write_size upvals @ write_size locals @ typeinfo @ concat (map writeByte upvals) @
     concat (map (\<lambda>l. writeByte (tl_type l) @ writeByte (tl_reg l) @ writeVarInt (ucast (tl_startpc l)) @
                      writeVarInt (ucast (tl_endpc l - tl_startpc l))) locals)"

definition write_typeinfo :: "bytes \<Rightarrow> u8 list \<Rightarrow> typed_local list \<Rightarrow> bytes option" where
  "write_typeinfo typeinfo upvals locals =
     (if typeinfo \<noteq> [] \<or> upvals \<noteq> [] \<or> locals \<noteq> []
      then if \<forall>l \<in> set locals. tl_startpc l \<le> tl_endpc l
           then let tempTypeInfo = typeinfo_blob typeinfo upvals locals in Some (write_size tempTypeInfo @ tempTypeInfo)
           else None
      else Some (writeVarInt 0))"

definition writeClassShape :: "class_shape \<Rightarrow> bytes" where
  "writeClassShape cs =
     writeVarInt (scast (cs_className cs)) @ writeVarInt (of_nat (length (cs_propertyNames cs))) @
     writeVarInt (of_nat (length (cs_methodNames cs))) @
     concat (map (\<lambda>n. writeVarInt (scast n)) (cs_propertyNames cs)) @
     concat (map (\<lambda>n. writeVarInt (scast n)) (cs_methodNames cs))"

abbreviation "LBC_CONSTANT_NIL \<equiv> (0 :: u8)"
abbreviation "LBC_CONSTANT_BOOLEAN \<equiv> (1 :: u8)"
abbreviation "LBC_CONSTANT_NUMBER \<equiv> (2 :: u8)"
abbreviation "LBC_CONSTANT_STRING \<equiv> (3 :: u8)"
abbreviation "LBC_CONSTANT_IMPORT \<equiv> (4 :: u8)"
abbreviation "LBC_CONSTANT_TABLE \<equiv> (5 :: u8)"
abbreviation "LBC_CONSTANT_CLOSURE \<equiv> (6 :: u8)"
abbreviation "LBC_CONSTANT_VECTOR \<equiv> (7 :: u8)"
abbreviation "LBC_CONSTANT_TABLE_WITH_CONSTANTS \<equiv> (8 :: u8)"
abbreviation "LBC_CONSTANT_INTEGER \<equiv> (9 :: u8)"
abbreviation "LBC_CONSTANT_CLASS_SHAPE \<equiv> (10 :: u8)"
abbreviation "LBC_CONSTANT_VECTORD \<equiv> (11 :: u8)"

definition write_shape :: "table_shape \<Rightarrow> bytes" where
  "write_shape shape =
     (if ts_hasConstants shape
      then writeByte LBC_CONSTANT_TABLE_WITH_CONSTANTS @ write_size (ts_keys shape) @
           concat (map (\<lambda>(k, c). writeVarInt (scast k) @ writeInt c) (zip (ts_keys shape) (ts_constants shape)))
      else writeByte LBC_CONSTANT_TABLE @ write_size (ts_keys shape) @
           concat (map (\<lambda>k. writeVarInt (scast k)) (ts_keys shape)))"

fun write_constant :: "fflags \<Rightarrow> table_shape list \<Rightarrow> class_shape list \<Rightarrow> bconstant \<Rightarrow> bytes option" where
  "write_constant fl shapes classes Type_Nil = Some (writeByte LBC_CONSTANT_NIL)"
| "write_constant fl shapes classes (Type_Boolean v) = Some (writeByte LBC_CONSTANT_BOOLEAN @ writeByte (if v then 1 else 0))"
| "write_constant fl shapes classes (Type_Number v) = Some (writeByte LBC_CONSTANT_NUMBER @ writeDouble v)"
| "write_constant fl shapes classes (Type_Integer v) =
     Some (writeByte LBC_CONSTANT_INTEGER @
           (if sint v < 0 then writeByte 1 @ writeVarInt (NOT v + 1) else writeByte 0 @ writeVarInt v))"
| "write_constant fl shapes classes (Type_Vectorf x y z w) =
     Some (writeByte LBC_CONSTANT_VECTOR @ writeFloat x @ writeFloat y @ writeFloat z @ writeFloat w)"
| "write_constant fl shapes classes (Type_Vectord x y z w) =
     Some (if LuauCompileEmitVectorDouble fl
           then writeByte LBC_CONSTANT_VECTORD @ writeDouble x @ writeDouble y @ writeDouble z @ writeDouble w
           else writeByte LBC_CONSTANT_VECTOR @ writeFloat (double_to_float x) @ writeFloat (double_to_float y) @
                writeFloat (double_to_float z) @ writeFloat (double_to_float w))"
| "write_constant fl shapes classes (Type_String v) = Some (writeByte LBC_CONSTANT_STRING @ writeVarInt (ucast v))"
| "write_constant fl shapes classes (Type_Import v) = Some (writeByte LBC_CONSTANT_IMPORT @ writeInt v)"
| "write_constant fl shapes classes (Type_Table i) = (if i < length shapes then Some (write_shape (shapes ! i)) else None)"
| "write_constant fl shapes classes (Type_Closure v) = Some (writeByte LBC_CONSTANT_CLOSURE @ writeVarInt (ucast v))"
| "write_constant fl shapes classes (Type_ClassShape i) =
     (if i < length classes then Some (writeByte LBC_CONSTANT_CLASS_SHAPE @ writeClassShape (classes ! i)) else None)"

fun write_constants :: "fflags \<Rightarrow> table_shape list \<Rightarrow> class_shape list \<Rightarrow> bconstant list \<Rightarrow> bytes option" where
  "write_constants fl shapes classes [] = Some []"
| "write_constants fl shapes classes (c # cs) =
     (case (write_constant fl shapes classes c, write_constants fl shapes classes cs) of
        (Some x, Some y) \<Rightarrow> Some (x @ y) | _ \<Rightarrow> None)"

definition write_lines :: "int list \<Rightarrow> bytes option" where
  "write_lines lines =
     (if \<forall>line \<in> set lines. line \<noteq> 0 then map_option (\<lambda>ss. writeByte 1 @ ss) (writeLineInfo lines) else Some (writeByte 0))"

definition write_debug :: "debug_local list \<Rightarrow> u32 list \<Rightarrow> bytes" where
  "write_debug locals upvals =
     (if locals \<noteq> [] \<or> upvals \<noteq> []
      then writeByte 1 @ write_size locals @
           concat (map (\<lambda>l. writeVarInt (ucast (dl_name l)) @ writeVarInt (ucast (dl_startpc l)) @
                            writeVarInt (ucast (dl_endpc l)) @ writeByte (dl_reg l)) locals) @
           write_size upvals @ concat (map (\<lambda>u. writeVarInt (ucast u)) upvals)
      else writeByte 0)"

definition write_feedback :: "fflags \<Rightarrow> u32 list \<Rightarrow> bytes" where
  "write_feedback fl fbSlots =
     (if LuauEmitCallFeedback fl
      then writeVarInt (of_nat (length fbSlots)) @ concat (map (\<lambda>pc. writeByte 0 @ writeVarInt (ucast pc)) fbSlots)
      else if sized_protos fl then writeVarInt 0 else [])"

definition write_cost :: "fflags \<Rightarrow> u8 \<Rightarrow> u64 \<Rightarrow> bytes" where
  "write_cost fl flags cost = (if sized_protos fl \<and> flags AND 8 \<noteq> 0 then writeVarInt cost else [])"

definition writeFunction :: "fflags \<Rightarrow> builder \<Rightarrow> nat \<Rightarrow> u8 \<Rightarrow> u64 \<Rightarrow> bytes option" where
  "writeFunction fl b ident flags cost =
     (if \<not> ident < length (b_functions b) then None
      else let func = b_functions b ! ident
           in case (write_typeinfo (f_typeinfo func) (b_typedUpvals b) (b_typedLocals b),
                    write_constants fl (b_tableShapes b) (b_classShapes b) (b_constants b),
                    write_lines (b_lines b)) of
                (Some types, Some ks, Some ls) \<Rightarrow>
                  Some (writeByte (f_maxstacksize func) @ writeByte (f_numparams func) @ writeByte (f_numupvalues func) @
                        writeByte (if f_isvararg func then 1 else 0) @ writeByte flags @ types @
                        write_size (b_insns b) @ concat (map writeInt (b_insns b)) @
                        write_size (b_constants b) @ ks @
                        write_size (b_protos b) @ concat (map (\<lambda>c. writeVarInt (ucast c)) (b_protos b)) @
                        writeVarInt (scast (f_debuglinedefined func)) @ writeVarInt (ucast (f_debugname func)) @ ls @
                        write_debug (b_debugLocals b) (b_debugUpvals b) @ write_feedback fl (b_fbSlots b) @
                        write_cost fl flags cost)
              | _ \<Rightarrow> None)"

text \<open>\<open>endFunction\<close>; \<open>encode\<close> is the optional \<open>BytecodeEncoder\<close> (the identity when there is none).\<close>

definition endFunction ::
    "fflags \<Rightarrow> (u32 list \<Rightarrow> u32 list) \<Rightarrow> u8 \<Rightarrow> u8 \<Rightarrow> u8 \<Rightarrow> u64 \<Rightarrow> builder \<Rightarrow> builder option" where
  "endFunction fl encode maxstacksize numupvalues flags cost b =
     (case b_currentFunction b of None \<Rightarrow> None
      | Some cur \<Rightarrow>
          case update_current (\<lambda>f. f\<lparr>f_maxstacksize := maxstacksize, f_numupvalues := numupvalues\<rparr>) b of None \<Rightarrow> None
          | Some b1 \<Rightarrow>
              let b2 = b1\<lparr>b_insns := encode (b_insns b1)\<rparr>
              in case writeFunction fl b2 cur flags cost of None \<Rightarrow> None
                 | Some ss \<Rightarrow>
                     map_option (\<lambda>b3. clearState (b3\<lparr>b_currentFunction := None,
                                        b_totalInstructionCount := b_totalInstructionCount b3 + length (b_insns b3)\<rparr>))
                       (update_current (\<lambda>f. f\<lparr>f_data := ss\<rparr>) b2))"

text \<open>The strings at their index; \<open>None\<close> when an index is out of range.\<close>

fun place_strings :: "(bytes \<times> u32) list \<Rightarrow> bytes list \<Rightarrow> bytes list option" where
  "place_strings [] strings = Some strings"
| "place_strings ((s, i) # rest) strings =
     (if i > 0 \<and> unat i \<le> length strings then place_strings rest (strings[unat i - 1 := s]) else None)"

definition writeStringTable :: "(bytes \<times> u32) list \<Rightarrow> bytes option" where
  "writeStringTable stringTable =
     map_option (\<lambda>strings. write_size strings @ concat (map (\<lambda>s. write_size s @ s) strings))
       (place_strings stringTable (replicate (length stringTable) []))"

abbreviation "LBC_VERSION_TARGET \<equiv> (9 :: u8)"
abbreviation "LBC_VERSION_CLASSES \<equiv> (100 :: u8)"

definition getVersion :: "fflags \<Rightarrow> u8" where
  "getVersion fl =
     (if DebugLuauUserDefinedClasses fl then LBC_VERSION_CLASSES
      else if LuauCompileEmitVectorDouble fl then 13
      else if LuauBytecodeCostModel fl then 12
      else if LuauEmitCallFeedback fl then 11
      else LBC_VERSION_TARGET)"

definition getTypeEncodingVersion :: u8 where
  "getTypeEncodingVersion = 3"

definition getError :: "bytes \<Rightarrow> bytes" where
  "getError message = 0 # message"

text \<open>Used userdata types get their names into the string table first.\<close>

fun name_userdata :: "userdata_type list \<Rightarrow> builder \<Rightarrow> userdata_type list \<times> builder" where
  "name_userdata [] b = ([], b)"
| "name_userdata (ty # tys) b =
     (if ut_used ty
      then let (index, b1) = addStringTableEntry (ut_name ty) b; (rest, b2) = name_userdata tys b1
           in (ty\<lparr>ut_nameRef := index\<rparr> # rest, b2)
      else let (rest, b1) = name_userdata tys b in (ty # rest, b1))"

definition write_userdata :: "userdata_type list \<Rightarrow> bytes" where
  "write_userdata tys =
     concat (map (\<lambda>(i, ty). if ut_used ty then writeByte (of_nat (i + 1)) @ writeVarInt (ucast (ut_nameRef ty)) else [])
       (enumerate 0 tys)) @ writeByte 0"

definition finalize :: "fflags \<Rightarrow> builder \<Rightarrow> builder option" where
  "finalize fl b =
     (if b_bytecode b \<noteq> [] then None
      else let (tys, b1) = name_userdata (b_userdataTypes b) b; b2 = b1\<lparr>b_userdataTypes := tys\<rparr>
           in case (writeStringTable (b_stringTable b2), b_mainFunction b2) of
                (Some st, Some main) \<Rightarrow>
                  if main < length (b_functions b2)
                  then Some (b2\<lparr>b_bytecode :=
                         writeByte (getVersion fl) @ writeByte getTypeEncodingVersion @ st @ write_userdata tys @
                         write_size (b_functions b2) @
                         concat (map (\<lambda>func. (if sized_protos fl then writeVarInt (of_nat (length (f_data func))) else []) @ f_data func)
                           (b_functions b2)) @
                         writeVarInt (of_nat main)\<rparr>)
                  else None
              | _ \<Rightarrow> None)"

end
