(* ===== verification/Interning.thy ===== *)
theory Interning
  imports BytecodeBuilder
begin

text \<open>
  The builder's interning tables (\<^verbatim>\<open>Bytecode/src/BytecodeBuilder.cpp\<close>): the cache of constants by key, the
  table of strings and the cache of table shapes. Their common invariant, and that every operation
  which adds a constant keeps it and answers with the index of that constant.
\<close>

section \<open>The constant cache\<close>

text \<open>The key under which a constant is interned.\<close>

fun key_of :: "bconstant \<Rightarrow> constant_key option" where
  "key_of Type_Nil = Some (ckey KNil 0)"
| "key_of (Type_Boolean v) = Some (ckey KBoolean (if v then 1 else 0))"
| "key_of (Type_Number v) = Some (ckey KNumber v)"
| "key_of (Type_Integer v) = Some (ckey KInteger v)"
| "key_of (Type_Vectorf x y z w) = Some \<lparr>ck_type = KVectorf, ck_value = ucast x OR push_bit 32 (ucast y),
     ck_extra1 = ucast z OR push_bit 32 (ucast w), ck_extra2 = 0, ck_extra3 = 0\<rparr>"
| "key_of (Type_Vectord x y z w) = Some \<lparr>ck_type = KVectord, ck_value = x, ck_extra1 = y, ck_extra2 = z, ck_extra3 = w\<rparr>"
| "key_of (Type_String i) = Some (ckey KString (ucast i))"
| "key_of (Type_Import i) = Some (ckey KImport (ucast i))"
| "key_of (Type_Table t) = None"
| "key_of (Type_Closure f) = Some (ckey KClosure (ucast f))"
| "key_of (Type_ClassShape c) = None"

lemma ucast_inj: "ucast (x :: u32) = (ucast y :: u64) \<longleftrightarrow> x = y"
proof -
  have "ucast (ucast x :: u64) = x" for x :: u32 by (rule bit_word_eqI) (auto simp: bit_simps)
  then show ?thesis by metis
qed

lemma pack_inj: "ucast x OR push_bit 32 (ucast y) = (ucast x' OR push_bit 32 (ucast y') :: u64) \<longleftrightarrow> x = x' \<and> y = y'" for x y x' y' :: u32
proof -
  have "take_bit 32 (ucast x OR push_bit 32 (ucast y) :: u64) = ucast x" "drop_bit 32 (ucast x OR push_bit 32 (ucast y) :: u64) = ucast y" for x y :: u32
    by (rule bit_word_eqI; auto simp: bit_simps dest: bit_imp_le_length)+
  then show ?thesis by (metis ucast_inj)
qed

lemma key_of_inj: "key_of c = Some k \<Longrightarrow> key_of c' = Some k \<Longrightarrow> c = c'"
  by (cases c; cases c') (auto simp: pack_inj ucast_inj split: if_splits)

text \<open>The cache maps exactly the keys of the interned constants to their positions.\<close>

definition cache_inv :: "builder \<Rightarrow> bool" where
  "cache_inv b \<longleftrightarrow> length (b_constants b) \<le> kMaxConstantCount \<and>
     (\<forall>key i. b_constantMap b key = Some i \<longleftrightarrow> 0 \<le> i \<and> nat i < length (b_constants b) \<and> key_of (b_constants b ! nat i) = Some key)"

lemma cache_inv_append:
  assumes "cache_inv b" "length (b_constants b) < kMaxConstantCount" "b_constants b' = b_constants b @ [v]"
    "b_constantMap b' = (case key_of v of None \<Rightarrow> b_constantMap b | Some key \<Rightarrow> (b_constantMap b)(key \<mapsto> int (length (b_constants b))))"
    "\<And>key. key_of v = Some key \<Longrightarrow> b_constantMap b key = None"
  shows "cache_inv b'"
  unfolding cache_inv_def
proof (intro conjI allI)
  let ?n = "length (b_constants b)"
  show "length (b_constants b') \<le> kMaxConstantCount" using assms(2,3) by simp
  fix key i
  have old: "b_constantMap b key = Some i \<longleftrightarrow> 0 \<le> i \<and> nat i < ?n \<and> key_of (b_constants b ! nat i) = Some key"
    using assms(1) by (simp add: cache_inv_def)
  have none: "b_constantMap b key = None \<Longrightarrow> i' < ?n \<Longrightarrow> key_of (b_constants b ! i') \<noteq> Some key" for i'
  proof
    assume "b_constantMap b key = None" "i' < ?n" "key_of (b_constants b ! i') = Some key"
    moreover have "b_constantMap b key = Some (int i') \<longleftrightarrow> 0 \<le> int i' \<and> nat (int i') < ?n \<and> key_of (b_constants b ! nat (int i')) = Some key"
      using assms(1) unfolding cache_inv_def by blast
    ultimately show False by simp
  qed
  show "b_constantMap b' key = Some i \<longleftrightarrow> 0 \<le> i \<and> nat i < length (b_constants b') \<and> key_of (b_constants b' ! nat i) = Some key"
  proof (cases "key_of v = Some key")
    case True
    then show ?thesis using assms(3,4) none [OF assms(5) [OF True], of "nat i"] by (auto simp: nth_append)
  next
    case False
    then have "b_constantMap b' key = b_constantMap b key" using assms(4) by (auto split: option.splits)
    then show ?thesis using old False assms(3) by (auto simp: nth_append less_Suc_eq)
  qed
qed

section \<open>The string table\<close>

text \<open>The string table: distinct strings, numbered from 1 in insertion order.\<close>

definition st_inv :: "(bytes \<times> u32) list \<Rightarrow> bool" where
  "st_inv st \<longleftrightarrow> distinct (map fst st) \<and> map snd st = map (\<lambda>i. of_nat (Suc i)) [0..<length st] \<and> length st < 2 ^ 32"

lemma st_inv_nth:
  assumes "st_inv st" "i < length st"
  shows "snd (st ! i) = of_nat (Suc i)" "unat (snd (st ! i)) = Suc i" "snd (st ! i) > 0"
proof -
  have "map snd st ! i = map (\<lambda>i. of_nat (Suc i)) [0..<length st] ! i" using assms(1) by (simp add: st_inv_def)
  then show s: "snd (st ! i) = of_nat (Suc i)" using assms(2) by simp
  have "Suc i < 2 ^ 32" using assms by (simp add: st_inv_def)
  then show u: "unat (snd (st ! i)) = Suc i" unfolding s by (rule unat_of_nat_small(1))
  show "snd (st ! i) > 0" using u by (auto simp: word_gt_0)
qed

lemma st_inv_lookup:
  assumes "st_inv st"
  shows "map_of st v = Some i \<longleftrightarrow> (\<exists>n < length st. st ! n = (v, of_nat (Suc n)) \<and> i = of_nat (Suc n))"
proof -
  have "map_of st v = Some i \<longleftrightarrow> (v, i) \<in> set st" using assms by (simp add: st_inv_def)
  also have "\<dots> \<longleftrightarrow> (\<exists>n < length st. st ! n = (v, i))" by (auto simp: in_set_conv_nth)
  also have "\<dots> \<longleftrightarrow> (\<exists>n < length st. st ! n = (v, of_nat (Suc n)) \<and> i = of_nat (Suc n))"
    using st_inv_nth(1) [OF assms] by (metis snd_conv)
  finally show ?thesis .
qed

lemma st_inv_append:
  assumes "st_inv st" "v \<notin> fst ` set st" "Suc (length st) < 2 ^ 32"
  shows "st_inv (st @ [(v, of_nat (Suc (length st)))])"
  using assms by (auto simp: st_inv_def)

lemma addStringTableEntry_spec:
  assumes "st_inv (b_stringTable b)" "Suc (length (b_stringTable b)) < 2 ^ 32"
  obtains idx ext where "addStringTableEntry v b = (idx, b\<lparr>b_stringTable := b_stringTable b @ ext\<rparr>)" "length ext \<le> 1"
    "st_inv (b_stringTable b @ ext)" "0 < unat idx" "unat idx \<le> length (b_stringTable b @ ext)" "fst ((b_stringTable b @ ext) ! (unat idx - 1)) = v"
    "set (map fst ext) \<subseteq> {v}"
proof (cases "map_of (b_stringTable b) v")
  case None
  let ?i = "of_nat (Suc (length (b_stringTable b))) :: u32" and ?ext = "[(v, of_nat (Suc (length (b_stringTable b))) :: u32)]"
  have u: "unat ?i = Suc (length (b_stringTable b))" using assms(2) by (rule unat_of_nat_small(1))
  have "v \<notin> fst ` set (b_stringTable b)" using None by (simp add: map_of_eq_None_iff)
  from st_inv_append [OF assms(1) this assms(2)] have inv: "st_inv (b_stringTable b @ ?ext)" .
  have "addStringTableEntry v b = (?i, b\<lparr>b_stringTable := b_stringTable b @ ?ext\<rparr>)" using None by (simp add: addStringTableEntry_def Let_def)
  then show ?thesis by (rule that [of ?i ?ext]) (use u inv in \<open>simp_all only: length_append, simp_all\<close>)
next
  case (Some i)
  then obtain n where n: "n < length (b_stringTable b)" "b_stringTable b ! n = (v, of_nat (Suc n))" "i = of_nat (Suc n)"
    using st_inv_lookup [OF assms(1)] by blast
  have u: "unat i = Suc n" using st_inv_nth(2) [OF assms(1) n(1)] n(2,3) by simp
  have "i \<noteq> 0" using u by auto
  then have "addStringTableEntry v b = (i, b\<lparr>b_stringTable := b_stringTable b @ []\<rparr>)" using Some by (simp add: addStringTableEntry_def)
  then show ?thesis by (rule that [of i "[]"]) (use u n assms(1) in simp_all)
qed

section \<open>The cache of table shapes\<close>

lemma table_shape_eq_equiv:
  "table_shape_eq s s" "table_shape_eq s s' = table_shape_eq s' s"
  "table_shape_eq s s' \<Longrightarrow> table_shape_eq s' s'' \<Longrightarrow> table_shape_eq s s''"
  by (auto simp: table_shape_eq_def)

lemma find_shape_Some: "find_shape s m = Some i \<Longrightarrow> \<exists>s'. (s', i) \<in> set m \<and> table_shape_eq s' s"
  by (induction m) (auto split: if_splits)

lemma find_shape_None: "find_shape s m = None \<Longrightarrow> (s', i) \<in> set m \<Longrightarrow> \<not> table_shape_eq s' s"
  by (induction m) (auto split: if_splits)

text \<open>The cache holds the shape of exactly the table constants, and equal shapes once.\<close>

definition shape_inv :: "builder \<Rightarrow> bool" where
  "shape_inv b \<longleftrightarrow>
     (\<forall>(s, i) \<in> set (b_tableShapeMap b). \<forall>(s', i') \<in> set (b_tableShapeMap b). table_shape_eq s s' \<longrightarrow> i = i') \<and>
     (\<forall>(s, i) \<in> set (b_tableShapeMap b). \<exists>j t. i = int j \<and> j < length (b_constants b) \<and> b_constants b ! j = Type_Table t \<and>
        t < length (b_tableShapes b) \<and> b_tableShapes b ! t = s) \<and>
     (\<forall>j t. j < length (b_constants b) \<longrightarrow> b_constants b ! j = Type_Table t \<longrightarrow>
        t < length (b_tableShapes b) \<and> (b_tableShapes b ! t, int j) \<in> set (b_tableShapeMap b))"

lemma shape_invD:
  assumes "shape_inv b"
  shows "(s, i) \<in> set (b_tableShapeMap b) \<Longrightarrow> (s', i') \<in> set (b_tableShapeMap b) \<Longrightarrow> table_shape_eq s s' \<Longrightarrow> i = i'"
    "(s, i) \<in> set (b_tableShapeMap b) \<Longrightarrow> \<exists>j t. i = int j \<and> j < length (b_constants b) \<and> b_constants b ! j = Type_Table t \<and>
       t < length (b_tableShapes b) \<and> b_tableShapes b ! t = s"
    "j < length (b_constants b) \<Longrightarrow> b_constants b ! j = Type_Table t \<Longrightarrow>
       t < length (b_tableShapes b) \<and> (b_tableShapes b ! t, int j) \<in> set (b_tableShapeMap b)"
  using assms unfolding shape_inv_def by (fast, fast, fast)

section \<open>Adding constants\<close>

text \<open>What the compiler asks the builder to add, and the operation that adds it.\<close>

datatype wanted = Scalar bconstant | StringConstant bytes | TableConstant table_shape | ClassConstant class_shape

fun add_wanted :: "wanted \<Rightarrow> builder \<Rightarrow> (int \<times> builder) option" where
  "add_wanted (Scalar Type_Nil) b = Some (addConstantNil b)"
| "add_wanted (Scalar (Type_Boolean v)) b = Some (addConstantBoolean v b)"
| "add_wanted (Scalar (Type_Number v)) b = Some (addConstantNumber v b)"
| "add_wanted (Scalar (Type_Integer v)) b = Some (addConstantInteger v b)"
| "add_wanted (Scalar (Type_Vectorf x y z w)) b = Some (addConstantVectorf x y z w b)"
| "add_wanted (Scalar (Type_Vectord x y z w)) b = Some (addConstantVectord x y z w b)"
| "add_wanted (Scalar (Type_Import i)) b = Some (addImport i b)"
| "add_wanted (Scalar (Type_Closure f)) b = Some (addConstantClosure f b)"
| "add_wanted (Scalar _) b = None"
| "add_wanted (StringConstant s) b = Some (addConstantString s b)"
| "add_wanted (TableConstant shape) b = Some (addConstantTable shape b)"
| "add_wanted (ClassConstant shape) b = Some (addClassShape shape b)"

text \<open>Whether a constant of the builder is the wanted one; table shapes are compared with their own equality.\<close>

fun denotes :: "builder \<Rightarrow> wanted \<Rightarrow> bconstant \<Rightarrow> bool" where
  "denotes b (Scalar v) c = (c = v)"
| "denotes b (StringConstant s) (Type_String i) = (map_of (b_stringTable b) s = Some i)"
| "denotes b (TableConstant shape) (Type_Table t) = (t < length (b_tableShapes b) \<and> table_shape_eq (b_tableShapes b ! t) shape)"
| "denotes b (ClassConstant shape) (Type_ClassShape t) = (t < length (b_classShapes b) \<and> b_classShapes b ! t = shape)"
| "denotes b _ _ = False"

definition intern_inv :: "builder \<Rightarrow> bool" where
  "intern_inv b \<longleftrightarrow> cache_inv b \<and> st_inv (b_stringTable b) \<and> shape_inv b \<and>
     (\<forall>i. Type_String i \<in> set (b_constants b) \<longrightarrow> i \<in> snd ` set (b_stringTable b))"

text \<open>The tables only grow.\<close>

definition extends :: "builder \<Rightarrow> builder \<Rightarrow> bool" where
  "extends b b' \<longleftrightarrow> (\<exists>cs ts ks. b_constants b' = b_constants b @ cs \<and> b_tableShapes b' = b_tableShapes b @ ts \<and>
     b_classShapes b' = b_classShapes b @ ks) \<and> map_of (b_stringTable b) \<subseteq>\<^sub>m map_of (b_stringTable b')"

lemma builder_extends_refl: "extends b b"
  by (simp add: extends_def)

lemma denotes_extends: "extends b b' \<Longrightarrow> denotes b w c \<Longrightarrow> denotes b' w c"
  by (cases "(b, w, c)" rule: denotes.cases) (auto simp: extends_def nth_append map_le_def dom_def)

lemma add_scalar_addConstant:
  assumes "add_wanted (Scalar v) b = Some r"
  obtains key where "key_of v = Some key" "\<And>b. add_wanted (Scalar v) b = Some (addConstant key v b)"
  using assms that by (cases v) (auto simp: addConstantNil_def addConstantBoolean_def addConstantNumber_def addConstantInteger_def
      addConstantVectorf_def addConstantVectord_def addImport_def addConstantClosure_def)

lemma addConstant_hit:
  assumes "cache_inv b" "key_of v = Some key" "j < length (b_constants b)" "b_constants b ! j = v"
  shows "addConstant key v b = (int j, b)"
proof -
  have "b_constantMap b key = Some (int j)" using assms by (simp add: cache_inv_def)
  then show ?thesis by (simp add: addConstant_def)
qed

lemma addConstant_miss:
  assumes "cache_inv b" "key_of v = Some key" "v \<notin> set (b_constants b)"
  shows "addConstant key v b = (if length (b_constants b) \<ge> kMaxConstantCount then (- 1, b)
     else (int (length (b_constants b)), b\<lparr>b_constantMap := (b_constantMap b)(key \<mapsto> int (length (b_constants b))), b_constants := b_constants b @ [v]\<rparr>))"
proof -
  have "b_constantMap b key = None"
  proof (rule ccontr)
    assume "b_constantMap b key \<noteq> None"
    then obtain i where "nat i < length (b_constants b)" "key_of (b_constants b ! nat i) = Some key"
      using assms(1) by (auto simp: cache_inv_def)
    then show False using key_of_inj [OF assms(2)] assms(3) by (metis nth_mem)
  qed
  then show ?thesis by (simp add: addConstant_def Let_def)
qed

text \<open>A constant that is there is found, and only one is.\<close>

lemma add_wanted_hit:
  assumes "intern_inv b" "add_wanted w b = Some r" "j < length (b_constants b)" "denotes b w (b_constants b ! j)"
    "\<And>shape. w \<noteq> ClassConstant shape"
  shows "add_wanted w b = Some (int j, b)"
proof (cases w)
  case (Scalar v)
  obtain key where key: "key_of v = Some key" "add_wanted (Scalar v) b = Some (addConstant key v b)"
    using add_scalar_addConstant assms(2) unfolding Scalar by metis
  then show ?thesis using addConstant_hit [OF _ key(1) assms(3)] assms(1,4) Scalar by (simp add: intern_inv_def)
next
  case (StringConstant s)
  then obtain i where i: "b_constants b ! j = Type_String i" "map_of (b_stringTable b) s = Some i"
    using assms(4) by (cases "b_constants b ! j") auto
  have "i \<noteq> 0" using i(2) assms(1) st_inv_lookup [of "b_stringTable b" s i] st_inv_nth(3) [of "b_stringTable b"]
    unfolding intern_inv_def by (metis snd_conv word_not_simps(1))
  then have "addStringTableEntry s b = (i, b)" using i(2) by (simp add: addStringTableEntry_def)
  then show ?thesis using addConstant_hit [of b "Type_String i", OF _ _ assms(3) i(1)] assms(1) StringConstant
    by (simp add: addConstantString_def intern_inv_def)
next
  case (TableConstant shape)
  then obtain t where t: "b_constants b ! j = Type_Table t" "table_shape_eq (b_tableShapes b ! t) shape"
    using assms(4) by (cases "b_constants b ! j") auto
  have m: "(b_tableShapes b ! t, int j) \<in> set (b_tableShapeMap b)" using assms(1,3) t(1) by (simp add: intern_inv_def shape_inv_def)
  then obtain i where i: "find_shape shape (b_tableShapeMap b) = Some i" using find_shape_None t(2) by blast
  then obtain s where s: "(s, i) \<in> set (b_tableShapeMap b)" "table_shape_eq s shape" using find_shape_Some by blast
  have "table_shape_eq s (b_tableShapes b ! t)" using s(2) t(2) table_shape_eq_equiv by metis
  then have "i = int j" using assms(1) s(1) m unfolding intern_inv_def shape_inv_def by fast
  then show ?thesis using i TableConstant by (simp add: addConstantTable_def)
qed (use assms(5) in auto)

lemma intern_inv_push:
  assumes "intern_inv b" "cache_inv b'" "b_constants b' = b_constants b @ [c]" "b_tableShapes b' = b_tableShapes b"
    "b_tableShapeMap b' = b_tableShapeMap b" "b_stringTable b' = b_stringTable b" "\<And>t. c \<noteq> Type_Table t"
    "\<And>i. c = Type_String i \<Longrightarrow> i \<in> snd ` set (b_stringTable b)"
  shows "intern_inv b'"
proof -
  have s: "shape_inv b" using assms(1) by (simp add: intern_inv_def)
  have "shape_inv b'" unfolding shape_inv_def
  proof (intro conjI)
    show "\<forall>(s, i)\<in>set (b_tableShapeMap b'). \<forall>(s', i')\<in>set (b_tableShapeMap b'). table_shape_eq s s' \<longrightarrow> i = i'"
      using s unfolding shape_inv_def assms(5) by (rule conjunct1)
    show "\<forall>(s, i)\<in>set (b_tableShapeMap b'). \<exists>j t. i = int j \<and> j < length (b_constants b') \<and> b_constants b' ! j = Type_Table t \<and>
        t < length (b_tableShapes b') \<and> b_tableShapes b' ! t = s"
      using s unfolding shape_inv_def assms(3-5) by (fastforce simp: nth_append)
    show "\<forall>j t. j < length (b_constants b') \<longrightarrow> b_constants b' ! j = Type_Table t \<longrightarrow>
        t < length (b_tableShapes b') \<and> (b_tableShapes b' ! t, int j) \<in> set (b_tableShapeMap b')"
      using s assms(7) unfolding shape_inv_def assms(3-5) by (auto simp: nth_append less_Suc_eq)
  qed
  then show ?thesis using assms by (auto simp: intern_inv_def)
qed

lemma addConstant_interned:
  assumes "intern_inv b" "key_of v = Some key" "v \<notin> set (b_constants b)" "addConstant key v b = (i, b')"
    "\<And>i. v = Type_String i \<Longrightarrow> i \<in> snd ` set (b_stringTable b)"
  shows "intern_inv b' \<and> extends b b' \<and> b_stringTable b' = b_stringTable b \<and>
    (if kMaxConstantCount \<le> length (b_constants b) then i = - 1 \<and> b_constants b' = b_constants b
     else i = int (length (b_constants b)) \<and> b_constants b' = b_constants b @ [v])"
proof (cases "kMaxConstantCount \<le> length (b_constants b)")
  case True
  then show ?thesis using addConstant_miss [OF _ assms(2,3)] assms(1,4) by (simp add: intern_inv_def builder_extends_refl)
next
  case False
  have c: "cache_inv b" using assms(1) by (simp add: intern_inv_def)
  have e: "i = int (length (b_constants b))"
    "b' = b\<lparr>b_constantMap := (b_constantMap b)(key \<mapsto> int (length (b_constants b))), b_constants := b_constants b @ [v]\<rparr>"
    using addConstant_miss [OF c assms(2,3)] assms(4) False by auto
  have "b_constantMap b key = None"
    using c assms(2,3) key_of_inj [OF assms(2)] by (metis cache_inv_def not_Some_eq nth_mem)
  then have "cache_inv b'" using cache_inv_append [OF c, of b' v] False assms(2) e(2) by simp
  then have "intern_inv b'" by (rule intern_inv_push [OF assms(1), of b' v]) (use e(2) assms(2,5) in auto)
  then show ?thesis using e False by (simp add: extends_def)
qed

lemma intern_inv_strings:
  assumes "intern_inv b" "st_inv (b_stringTable b @ ext)"
  shows "intern_inv (b\<lparr>b_stringTable := b_stringTable b @ ext\<rparr>)" "extends b (b\<lparr>b_stringTable := b_stringTable b @ ext\<rparr>)"
  using assms by (auto simp: intern_inv_def cache_inv_def shape_inv_def extends_def map_le_def)

lemma builder_extends_trans: "extends b b' \<Longrightarrow> extends b' b'' \<Longrightarrow> extends b b''"
  unfolding extends_def by (auto intro: map_le_trans)

text \<open>What adding a constant that is not there does.\<close>

abbreviation added :: "wanted \<Rightarrow> builder \<Rightarrow> int \<Rightarrow> builder \<Rightarrow> bool" where
  "added w b i b' \<equiv> intern_inv b' \<and> extends b b' \<and>
     (if kMaxConstantCount \<le> length (b_constants b) then i = - 1 \<and> b_constants b' = b_constants b
      else i = int (length (b_constants b)) \<and> (\<exists>c. b_constants b' = b_constants b @ [c] \<and> denotes b' w c))"

lemma addConstantString_miss:
  assumes "intern_inv b" "Suc (length (b_stringTable b)) < 2 ^ 32" "addConstantString s b = (i, b')"
    "\<And>c. c \<in> set (b_constants b) \<Longrightarrow> \<not> denotes b (StringConstant s) c"
  shows "added (StringConstant s) b i b'"
proof -
  have st: "st_inv (b_stringTable b)" using assms(1) by (simp add: intern_inv_def)
  obtain idx ext where a: "addStringTableEntry s b = (idx, b\<lparr>b_stringTable := b_stringTable b @ ext\<rparr>)"
    "st_inv (b_stringTable b @ ext)" "0 < unat idx" "unat idx \<le> length (b_stringTable b @ ext)"
    "fst ((b_stringTable b @ ext) ! (unat idx - 1)) = s"
    using addStringTableEntry_spec [OF st assms(2)] by metis
  let ?st = "b_stringTable b @ ext" and ?b1 = "b\<lparr>b_stringTable := b_stringTable b @ ext\<rparr>" and ?n = "unat idx - 1"
  have n: "?n < length ?st" using a(3,4) by linarith
  have "Suc ?n = unat idx" using a(3) by linarith
  then have idx: "snd (?st ! ?n) = idx" using st_inv_nth(2) [OF a(2) n] by (metis unsigned_word_eqI)
  then have at: "?st ! ?n = (s, idx)" using a(5) idx by (simp add: prod_eq_iff)
  then have lookup: "map_of ?st s = Some idx" using st_inv_lookup [OF a(2), of s idx] n st_inv_nth(1) [OF a(2) n] by auto
  have new: "Type_String idx \<notin> set (b_constants b)"
  proof
    assume m: "Type_String idx \<in> set (b_constants b)"
    then have "idx \<in> snd ` set (b_stringTable b)" using assms(1) by (simp add: intern_inv_def)
    then obtain k where k: "k < length (b_stringTable b)" "snd (b_stringTable b ! k) = idx" by (auto simp: in_set_conv_nth)
    then have "?n = k" using st_inv_nth(2) [OF st k(1)] by simp
    then have "b_stringTable b ! k = (s, idx)" using at k(1) by (simp add: nth_append)
    then have "map_of (b_stringTable b) s = Some idx" using st_inv_lookup [OF st] k st_inv_nth(1) [OF st k(1)] by auto
    then show False using assms(4) [OF m] by simp
  qed
  have "addConstant (ckey KString (ucast idx)) (Type_String idx) ?b1 = (i, b')" using assms(3) a(1) by (simp add: addConstantString_def)
  moreover have "(s, idx) \<in> set ?st" using nth_mem [OF n] at by simp
  then have "idx \<in> snd ` set (b_stringTable ?b1)" by force
  ultimately show ?thesis
    using addConstant_interned [OF intern_inv_strings(1) [OF assms(1) a(2)], of "Type_String idx" "ckey KString (ucast idx)" i b'] new lookup
      builder_extends_trans [OF intern_inv_strings(2) [OF assms(1) a(2)], of b'] by auto
qed

lemma shape_inv_add:
  assumes sh: "shape_inv b" and none: "find_shape shape (b_tableShapeMap b) = None"
    and b': "b' = b\<lparr>b_tableShapeMap := (shape, int (length (b_constants b))) # b_tableShapeMap b, b_tableShapes := b_tableShapes b @ [shape],
        b_constants := b_constants b @ [Type_Table (length (b_tableShapes b))]\<rparr>"
  shows "shape_inv b'"
proof -
  let ?n = "length (b_constants b)" and ?t = "length (b_tableShapes b)"
  have m: "set (b_tableShapeMap b') = insert (shape, int ?n) (set (b_tableShapeMap b))" "b_constants b' = b_constants b @ [Type_Table ?t]"
    "b_tableShapes b' = b_tableShapes b @ [shape]" using b' by simp_all
  have differ: "(s, i) \<in> set (b_tableShapeMap b) \<Longrightarrow> \<not> table_shape_eq s shape \<and> \<not> table_shape_eq shape s" for s i
    using find_shape_None [OF none] table_shape_eq_equiv(2) by metis
  have "i = i'" if "(s, i) \<in> set (b_tableShapeMap b')" "(s', i') \<in> set (b_tableShapeMap b')" "table_shape_eq s s'" for s i s' i'
    using that shape_invD(1) [OF sh, of s i s' i'] differ unfolding m by blast
  moreover have "\<exists>j t. i = int j \<and> j < length (b_constants b') \<and> b_constants b' ! j = Type_Table t \<and> t < length (b_tableShapes b') \<and> b_tableShapes b' ! t = s"
    if h: "(s, i) \<in> set (b_tableShapeMap b')" for s i
  proof (cases "(s, i) = (shape, int ?n)")
    case True
    then show ?thesis unfolding m by (intro exI [of _ ?n] exI [of _ ?t]) simp
  next
    case False
    then obtain j t where "i = int j" "j < ?n" "b_constants b ! j = Type_Table t" "t < ?t" "b_tableShapes b ! t = s"
      using h shape_invD(2) [OF sh, of s i] unfolding m by blast
    then show ?thesis unfolding m by (intro exI [of _ j] exI [of _ t]) (simp add: nth_append)
  qed
  moreover have "t < length (b_tableShapes b') \<and> (b_tableShapes b' ! t, int j) \<in> set (b_tableShapeMap b')"
    if "j < length (b_constants b')" "b_constants b' ! j = Type_Table t" for j t
    using that shape_invD(3) [OF sh, of j t] unfolding m by (auto simp: nth_append less_Suc_eq split: if_splits)
  ultimately show ?thesis unfolding shape_inv_def by blast
qed

lemma addConstantTable_miss:
  assumes "intern_inv b" "addConstantTable shape b = (i, b')"
    "\<And>c. c \<in> set (b_constants b) \<Longrightarrow> \<not> denotes b (TableConstant shape) c"
  shows "added (TableConstant shape) b i b'"
proof -
  have sh: "shape_inv b" and c: "cache_inv b" using assms(1) by (simp_all add: intern_inv_def)
  have none: "find_shape shape (b_tableShapeMap b) = None"
  proof (rule ccontr)
    assume "find_shape shape (b_tableShapeMap b) \<noteq> None"
    then obtain s k where "(s, k) \<in> set (b_tableShapeMap b)" "table_shape_eq s shape" using find_shape_Some by blast
    then obtain j t where j: "j < length (b_constants b)" "b_constants b ! j = Type_Table t" "t < length (b_tableShapes b)"
      "table_shape_eq (b_tableShapes b ! t) shape" using shape_invD(2) [OF sh] by blast
    then show False using assms(3) [of "Type_Table t"] nth_mem [OF j(1)] by simp
  qed
  show ?thesis
  proof (cases "kMaxConstantCount \<le> length (b_constants b)")
    case True
    then show ?thesis using assms(1,2) none by (simp add: addConstantTable_def builder_extends_refl)
  next
    case False
    let ?n = "length (b_constants b)" and ?t = "length (b_tableShapes b)"
    have e: "i = int ?n" "b' = b\<lparr>b_tableShapeMap := (shape, int ?n) # b_tableShapeMap b, b_tableShapes := b_tableShapes b @ [shape],
        b_constants := b_constants b @ [Type_Table ?t]\<rparr>"
      using assms(2) none False by (auto simp: addConstantTable_def Let_def)
    have "cache_inv b'" using cache_inv_append [OF c, of b' "Type_Table ?t"] False e(2) by simp
    moreover have "shape_inv b'" by (rule shape_inv_add [OF sh none e(2)])
    ultimately have "intern_inv b'" using assms(1) e(2) by (auto simp: intern_inv_def)
    then show ?thesis using False e by (auto simp: extends_def nth_append table_shape_eq_equiv(1))
  qed
qed

lemma addClassShape_added:
  assumes "intern_inv b" "addClassShape shape b = (i, b')"
  shows "added (ClassConstant shape) b i b'"
proof (cases "kMaxConstantCount \<le> length (b_constants b)")
  case True
  then show ?thesis using assms by (simp add: addClassShape_def builder_extends_refl)
next
  case False
  let ?c = "Type_ClassShape (length (b_classShapes b))"
  have e: "i = int (length (b_constants b))" "b' = b\<lparr>b_classShapes := b_classShapes b @ [shape], b_constants := b_constants b @ [?c]\<rparr>"
    using assms(2) False by (auto simp: addClassShape_def Let_def)
  have "cache_inv b'" using cache_inv_append [of b b' ?c] assms(1) False e(2) by (simp add: intern_inv_def)
  then have "intern_inv b'" by (rule intern_inv_push [OF assms(1), of b' ?c]) (use e(2) in auto)
  then show ?thesis using False e by (auto simp: extends_def)
qed

lemma add_wanted_miss:
  assumes "intern_inv b" "Suc (length (b_stringTable b)) < 2 ^ 32" "add_wanted w b = Some (i, b')"
    "(\<exists>shape. w = ClassConstant shape) \<or> (\<forall>c \<in> set (b_constants b). \<not> denotes b w c)"
  shows "added w b i b'"
proof (cases w)
  case (Scalar v)
  obtain key where key: "key_of v = Some key" "add_wanted (Scalar v) b = Some (addConstant key v b)"
    using add_scalar_addConstant assms(3) unfolding Scalar by metis
  have "v \<noteq> Type_String k" for k using assms(3) Scalar by auto
  then show ?thesis using addConstant_interned [OF assms(1) key(1), of i b'] key(2) assms(3,4) Scalar by auto
next
  case (StringConstant s)
  then show ?thesis using addConstantString_miss [OF assms(1,2), of s i b'] assms(3,4) by simp
next
  case (TableConstant shape)
  then show ?thesis using addConstantTable_miss [OF assms(1), of shape i b'] assms(3,4) by simp
next
  case (ClassConstant shape)
  then show ?thesis using addClassShape_added [OF assms(1), of shape i b'] assms(3) by simp
qed

lemma intern_inv_initial: "intern_inv builder_new" "st_inv (b_stringTable b) \<Longrightarrow> intern_inv (clearState b)"
  by (simp_all add: intern_inv_def cache_inv_def shape_inv_def st_inv_def builder_new_def clearState_def)

section \<open>Properties\<close>

text \<open>
  C8. Constant interning: adding any constant (nil, boolean, number, integer, vector, import, closure,
  string, table shape or class) keeps the interning tables consistent and every constant added
  before at its index with its meaning. It fails with \<open>-1\<close> exactly when the constant is not there yet
  and the table is full; otherwise the index returned is that of the constant asked for, and, classes
  apart, it is the only constant that stands for it (bit patterns compared, so distinct NaNs and
  signed zeros stay distinct), a repeated request returns the same index and changes nothing, and
  so does a request for a constant already there. A class is always added at the end.
\<close>

theorem constant_interning:
  assumes "intern_inv b" "Suc (length (b_stringTable b)) < 2 ^ 32" "add_wanted w b = Some (i, b')"
  shows "intern_inv b' \<and> (\<exists>ext. b_constants b' = b_constants b @ ext)
    \<and> (\<forall>w' c. denotes b w' c \<longrightarrow> denotes b' w' c)
    \<and> (i = - 1 \<longleftrightarrow> length (b_constants b) = kMaxConstantCount \<and>
         ((\<exists>shape. w = ClassConstant shape) \<or> (\<forall>c \<in> set (b_constants b). \<not> denotes b w c)))
    \<and> (if i = - 1 then b_constants b' = b_constants b
       else 0 \<le> i \<and> nat i < length (b_constants b') \<and> denotes b' w (b_constants b' ! nat i))
    \<and> (case w of
         ClassConstant _ \<Rightarrow> i = - 1 \<or> i = int (length (b_constants b))
       | _ \<Rightarrow> (i \<noteq> - 1 \<longrightarrow> add_wanted w b' = Some (i, b') \<and> (\<forall>j < length (b_constants b'). denotes b' w (b_constants b' ! j) \<longrightarrow> int j = i))
           \<and> (\<forall>j < length (b_constants b). denotes b w (b_constants b ! j) \<longrightarrow> b' = b \<and> i = int j))"
proof (cases "(\<exists>shape. w = ClassConstant shape) \<or> (\<forall>c \<in> set (b_constants b). \<not> denotes b w c)")
  case True
  have max: "length (b_constants b) \<le> kMaxConstantCount" using assms(1) by (simp add: intern_inv_def cache_inv_def)
  note add = add_wanted_miss [OF assms True]
  have ext: "intern_inv b'" "extends b b'" using add by blast+
  then have keep: "denotes b w' c \<Longrightarrow> denotes b' w' c" for w' c using denotes_extends by blast
  show ?thesis
  proof (cases "kMaxConstantCount \<le> length (b_constants b)")
    case full: True
    then show ?thesis using add ext keep max True by (auto split: wanted.splits)
  next
    case False
    then obtain c where c: "i = int (length (b_constants b))" "b_constants b' = b_constants b @ [c]" "denotes b' w c" using add by auto
    have hit: "add_wanted w b' = Some (int j, b')" if "j < length (b_constants b')" "denotes b' w (b_constants b' ! j)"
      "\<And>shape. w \<noteq> ClassConstant shape" for j
      using add_wanted_hit [OF ext(1) _ that] assms(3) by (cases "(w, b)" rule: add_wanted.cases) auto
    have again: "add_wanted w b' = Some (i, b')" if "\<And>shape. w \<noteq> ClassConstant shape"
      using hit [of "length (b_constants b)"] c that by simp
    have unique: "int j = i" if "j < length (b_constants b')" "denotes b' w (b_constants b' ! j)" "\<And>shape. w \<noteq> ClassConstant shape" for j
      using hit [OF that] again [OF that(3)] by simp
    have old: "j < length (b_constants b) \<Longrightarrow> denotes b w (b_constants b ! j) \<Longrightarrow> \<exists>shape. w = ClassConstant shape" for j
      using True nth_mem by blast
    have pos: "i \<noteq> - 1" "0 \<le> i" "nat i < length (b_constants b')" "denotes b' w (b_constants b' ! nat i)" using c by simp_all
    have "case w of ClassConstant _ \<Rightarrow> i = - 1 \<or> i = int (length (b_constants b))
       | _ \<Rightarrow> (i \<noteq> - 1 \<longrightarrow> add_wanted w b' = Some (i, b') \<and> (\<forall>j < length (b_constants b'). denotes b' w (b_constants b' ! j) \<longrightarrow> int j = i))
           \<and> (\<forall>j < length (b_constants b). denotes b w (b_constants b ! j) \<longrightarrow> b' = b \<and> i = int j)"
      using again unique old c(1) by (cases w; simp only: wanted.case) blast+
    moreover have "length (b_constants b) \<noteq> kMaxConstantCount" using False by simp
    ultimately show ?thesis using pos ext(1) c(2) keep by metis
  qed
next
  case False
  then obtain j where j: "j < length (b_constants b)" "denotes b w (b_constants b ! j)" by (auto simp: in_set_conv_nth)
  have nc: "w \<noteq> ClassConstant shape" for shape using False by blast
  have hit: "k < length (b_constants b) \<Longrightarrow> denotes b w (b_constants b ! k) \<Longrightarrow> i = int k \<and> b' = b" for k
    using add_wanted_hit [OF assms(1,3) _ _ nc] assms(3) by simp
  then have e: "i = int j" "b' = b" using j by auto
  have "case w of ClassConstant _ \<Rightarrow> i = - 1 \<or> i = int (length (b_constants b))
     | _ \<Rightarrow> (i \<noteq> - 1 \<longrightarrow> add_wanted w b' = Some (i, b') \<and> (\<forall>j < length (b_constants b'). denotes b' w (b_constants b' ! j) \<longrightarrow> int j = i))
         \<and> (\<forall>j < length (b_constants b). denotes b w (b_constants b ! j) \<longrightarrow> b' = b \<and> i = int j)"
    using hit assms(3) nc unfolding e(2) by (cases w; simp only: wanted.case) blast+
  then show ?thesis using False assms(1) j e by simp
qed

theorem constant_interning_witness:
  "\<exists>i b'. add_wanted (StringConstant [104, 105]) builder_new = Some (i, b') \<and> i = 0 \<and> intern_inv b' \<and>
     denotes b' (StringConstant [104, 105]) (b_constants b' ! 0) \<and> add_wanted (StringConstant [104, 105]) b' = Some (0, b')"
proof -
  obtain b' where r: "add_wanted (StringConstant [104, 105]) builder_new = Some (0, b')"
    by (simp add: addConstantString_def addStringTableEntry_def addConstant_def builder_new_def kMaxConstantCount_def)
  have "Suc (length (b_stringTable builder_new)) < 2 ^ 32" by (simp add: builder_new_def)
  from constant_interning [OF intern_inv_initial(1) this r] show ?thesis using r by auto
qed

end
