(* ===== verification/BytecodeLoader.thy ===== *)
theory BytecodeLoader
  imports BytecodeBuilder Numbers
begin

text \<open>
  The bytecode loader, \<^verbatim>\<open>VM/src/lvmload.cpp\<close>: \<open>loadsafe\<close> and its helpers. A reader consumes the bytes
  from the current offset on; \<open>None\<close> stands for a failing assertion, a read outside the data or
  outside an array, or an operation the VM reports as an internal error. Garbage-collected
  objects are values: a string is its bytes (\<open>None\<close> for a null pointer), a closure the index of
  its prototype, and a table constant the sequence of stores the loader performs on it. Vectors are
  those of the default build, three \<open>float\<close>s. What the
  loader asks of the rest of the VM is a parameter: \<open>import\<close> (the value an import resolves to,
  given the constants loaded so far), \<open>atom\<close> (whether the string has a non-negative atom) and
  \<open>typemap\<close> (the embedder's userdata type callback).
\<close>

section \<open>Values\<close>

datatype tvalue =
    TNil
  | TBoolean u8
  | TNumber u64
  | TInteger u64
  | TVector u32 u32 u32
  | TString "bytes option"
  | TImport u32
  | TTable "(tvalue \<times> tvalue) list"
  | TClosure nat
  | TClass "bytes option" "bytes option list" nat nat

record locvar =
  lv_varname :: "bytes option"
  lv_startpc :: u32
  lv_endpc :: u32
  lv_reg :: u8

record proto =
  p_maxstacksize :: u8
  p_numparams :: u8
  p_nups :: u8
  p_is_vararg :: u8
  p_flags :: u8
  p_typeinfo :: bytes
  p_code :: "u32 list"
  p_k :: "tvalue list"
  p_p :: "nat list"
  p_linedefined :: u32
  p_debugname :: "bytes option"
  p_lineinfo :: "lineinfo option"
  p_locvars :: "locvar list"
  p_upvalues :: "bytes option list"
  p_feedback :: "u32 list"
  p_cost :: u64

record vm_env =
  vm_import :: "tvalue list \<Rightarrow> u32 \<Rightarrow> tvalue"
  vm_atom :: "bytes \<Rightarrow> bool"
  vm_typemap :: "(bytes \<Rightarrow> u8) option"

section \<open>Primitive readers\<close>

definition readString :: "bytes list \<Rightarrow> bytes \<Rightarrow> (bytes option \<times> bytes) option" where
  "readString strings data = do {
     (ident, data) \<leftarrow> readVarInt data;
     if ident = 0 then Some (None, data)
     else if unat ident - 1 < length strings then Some (Some (strings ! (unat ident - 1)), data)
     else None
   }"

text \<open>An array size read into an \<open>int\<close>: allocation fails when it is negative.\<close>

definition read_size :: "bytes \<Rightarrow> (nat \<times> bytes) option" where
  "read_size data = do {
     (n, data) \<leftarrow> readVarInt data;
     if sint n < 0 then None else Some (unat n, data)
   }"

fun read_strings :: "nat \<Rightarrow> bytes \<Rightarrow> (bytes list \<times> bytes) option" where
  "read_strings 0 data = Some ([], data)"
| "read_strings (Suc n) data = do {
     (len, data) \<leftarrow> readVarInt data;
     if unat len \<le> length data
     then map_option (\<lambda>(ss, rest). (take (unat len) data # ss, rest)) (read_strings n (drop (unat len) data))
     else None
   }"

section \<open>Userdata types\<close>

abbreviation "LBC_TYPE_USERDATA \<equiv> (7 :: u8)"
abbreviation "LBC_TYPE_FUNCTION \<equiv> (5 :: u8)"

text \<open>The remapping table of tagged userdata types, filled until a zero index.\<close>

fun read_remapping :: "nat \<Rightarrow> (bytes \<Rightarrow> u8) option \<Rightarrow> bytes list \<Rightarrow> u8 list \<Rightarrow> bytes \<Rightarrow> (u8 list \<times> bytes) option" where
  "read_remapping 0 typemap strings table data = None"
| "read_remapping (Suc fuel) typemap strings table data = do {
     (index, data) \<leftarrow> read_u8 data;
     if index = 0 then Some (table, data)
     else do {
       (name, data) \<leftarrow> readString strings data;
       if unat index - 1 < 32 \<and> typemap \<noteq> None
       then (case name of
               None \<Rightarrow> None
             | Some s \<Rightarrow> read_remapping fuel typemap strings (table[unat index - 1 := the typemap s]) data)
       else read_remapping fuel typemap strings table data
     }
   }"

definition remap_type :: "u8 list \<Rightarrow> u8 \<Rightarrow> u8" where
  "remap_type table ty = (if 64 \<le> ty \<and> unat ty - 64 < length table then table ! (unat ty - 64) else ty)"

fun remap_locals :: "u8 list \<Rightarrow> nat \<Rightarrow> bytes \<Rightarrow> (bytes \<times> bytes) option" where
  "remap_locals table 0 data = Some ([], data)"
| "remap_locals table (Suc n) data =
     (case data of
        ty # reg # rest \<Rightarrow> do {
          (startpc, rest') \<leftarrow> readVarInt rest;
          (span, rest'') \<leftarrow> readVarInt rest';
          (out, rest''') \<leftarrow> remap_locals table n rest'';
          Some (remap_type table ty # reg # take (length rest - length rest'') rest @ out, rest''')
        }
      | _ \<Rightarrow> None)"

definition remapUserdataTypes :: "u8 list \<Rightarrow> bytes \<Rightarrow> bytes option" where
  "remapUserdataTypes table data = do {
     (typeSize, d1) \<leftarrow> readVarInt data;
     (upvalCount, d2) \<leftarrow> readVarInt d1;
     (localCount, d3) \<leftarrow> readVarInt d2;
     if unat typeSize + unat upvalCount \<le> length d3
     then do {
       let types = take (unat typeSize) d3;
       let upvals = take (unat upvalCount) (drop (unat typeSize) d3);
       (locals, rest) \<leftarrow> remap_locals table (unat localCount) (drop (unat typeSize + unat upvalCount) d3);
       if rest = []
       then Some (take (length data - length d3) data @ take 2 types @ map (remap_type table) (drop 2 types) @
                  map (remap_type table) upvals @ locals)
       else None
     }
     else None
   }"

definition read_typeinfo :: "u8 \<Rightarrow> u8 \<Rightarrow> u8 list \<Rightarrow> bytes \<Rightarrow> (bytes \<times> bytes) option" where
  "read_typeinfo typesversion numparams table data =
     (if typesversion = 1
      then do {
        (typesize, data) \<leftarrow> readVarInt data;
        let n = unat typesize;
        if n = 0 then Some ([], data)
        else if n \<le> length data \<and> n = 2 + unat numparams \<and> data ! 0 = LBC_TYPE_FUNCTION \<and> data ! 1 = numparams
        then Some ((if n > 127 then [ucast (typesize AND 127) OR 128, ucast (drop_bit 7 typesize), 0, 0] else [ucast typesize, 0, 0])
                   @ take n data, drop n data)
        else None
      }
      else if typesversion = 2 \<or> typesversion = 3
      then do {
        (typesize, data) \<leftarrow> readVarInt data;
        let n = unat typesize;
        if n = 0 then Some ([], data)
        else if n \<le> length data
        then do {
          info \<leftarrow> (if typesversion = 3 then remapUserdataTypes table (take n data) else Some (take n data));
          Some (info, drop n data)
        }
        else None
      }
      else Some ([], data))"

section \<open>Constants\<close>

text \<open>
  \<open>setvvalue\<close> of the default build (\<open>LUA_VECTOR_SIZE\<close> 3, \<open>LUA_VECTOR_DOUBLE\<close> 0), on \<open>float\<close> and on \<open>double\<close>
  arguments: the value holds \<open>float(x)\<close>, \<open>float(y)\<close> and \<open>float(z)\<close>, and \<open>w\<close> is dropped.
\<close>

definition setvvalue :: "u32 \<Rightarrow> u32 \<Rightarrow> u32 \<Rightarrow> u32 \<Rightarrow> tvalue" where
  "setvvalue x y z w = TVector x y z"

definition setvvalued :: "u64 \<Rightarrow> u64 \<Rightarrow> u64 \<Rightarrow> u64 \<Rightarrow> tvalue" where
  "setvvalued x y z w = TVector (double_to_float x) (double_to_float y) (double_to_float z)"

text \<open>The keys \<open>luaH_set\<close> accepts for a new entry.\<close>

fun table_key :: "tvalue \<Rightarrow> bool" where
  "table_key TNil = False"
| "table_key (TNumber w) = (\<not> is_nan64 w)"
| "table_key (TVector x y z) = (\<not> (is_nan32 x \<or> is_nan32 y \<or> is_nan32 z))"
| "table_key _ = True"

definition key_at :: "tvalue list \<Rightarrow> u32 \<Rightarrow> tvalue option" where
  "key_at k key = (if unat key < length k \<and> table_key (k ! unat key) then Some (k ! unat key) else None)"

fun read_table_keys :: "nat \<Rightarrow> tvalue list \<Rightarrow> bytes \<Rightarrow> ((tvalue \<times> tvalue) list \<times> bytes) option" where
  "read_table_keys 0 k data = Some ([], data)"
| "read_table_keys (Suc n) k data = do {
     (key, data) \<leftarrow> readVarInt data;
     kv \<leftarrow> key_at k key;
     (stores, data) \<leftarrow> read_table_keys n k data;
     Some ((kv, TNumber 0) # stores, data)
   }"

text \<open>Second component: the keys whose constant is nil; they are set to nil after the loop.\<close>

fun read_table_consts :: "nat \<Rightarrow> tvalue list \<Rightarrow> bytes \<Rightarrow> ((tvalue \<times> tvalue) list \<times> tvalue list \<times> bytes) option" where
  "read_table_consts 0 k data = Some ([], [], data)"
| "read_table_consts (Suc n) k data = do {
     (key, data) \<leftarrow> readVarInt data;
     kv \<leftarrow> key_at k key;
     (constantIdx, data) \<leftarrow> read_u32 data;
     (v, isnil) \<leftarrow> (if sint constantIdx \<ge> 0
        then (if unat constantIdx < length k
              then Some (if k ! unat constantIdx = TNil then (TNumber 0, True) else (k ! unat constantIdx, False))
              else None)
        else Some (TNumber 0, False));
     (stores, nils, data) \<leftarrow> read_table_consts n k data;
     Some ((kv, v) # stores, if isnil then kv # nils else nils, data)
   }"

fun read_members :: "nat \<Rightarrow> tvalue list \<Rightarrow> bytes \<Rightarrow> (bytes option list \<times> bytes) option" where
  "read_members 0 k data = Some ([], data)"
| "read_members (Suc n) k data = do {
     (mid, data) \<leftarrow> readVarInt data;
     (case (if unat mid < length k then k ! unat mid else TNil) of
        TString s \<Rightarrow> do { (ms, data) \<leftarrow> read_members n k data; Some (s # ms, data) }
      | _ \<Rightarrow> None)
   }"

definition read_constant :: "vm_env \<Rightarrow> bytes list \<Rightarrow> nat \<Rightarrow> tvalue list \<Rightarrow> bytes \<Rightarrow> (tvalue \<times> bytes) option" where
  "read_constant vm strings nprotos k data = do {
     (kind, data) \<leftarrow> read_u8 data;
     if kind = LBC_CONSTANT_NIL then Some (TNil, data)
     else if kind = LBC_CONSTANT_BOOLEAN then do { (v, data) \<leftarrow> read_u8 data; Some (TBoolean v, data) }
     else if kind = LBC_CONSTANT_NUMBER then do { (v, data) \<leftarrow> read_u64 data; Some (TNumber v, data) }
     else if kind = LBC_CONSTANT_VECTOR then do {
       (x, data) \<leftarrow> read_u32 data; (y, data) \<leftarrow> read_u32 data; (z, data) \<leftarrow> read_u32 data; (w, data) \<leftarrow> read_u32 data;
       Some (setvvalue x y z w, data) }
     else if kind = LBC_CONSTANT_VECTORD then do {
       (x, data) \<leftarrow> read_u64 data; (y, data) \<leftarrow> read_u64 data; (z, data) \<leftarrow> read_u64 data; (w, data) \<leftarrow> read_u64 data;
       Some (setvvalued x y z w, data) }
     else if kind = LBC_CONSTANT_STRING then do { (s, data) \<leftarrow> readString strings data; Some (TString s, data) }
     else if kind = LBC_CONSTANT_IMPORT then do { (iid, data) \<leftarrow> read_u32 data; Some (vm_import vm k iid, data) }
     else if kind = LBC_CONSTANT_TABLE then do {
       (keys, data) \<leftarrow> readVarInt data;
       (stores, data) \<leftarrow> read_table_keys (nat (sint keys)) k data;
       Some (TTable stores, data) }
     else if kind = LBC_CONSTANT_TABLE_WITH_CONSTANTS then do {
       (keys, data) \<leftarrow> readVarInt data;
       (stores, nils, data) \<leftarrow> read_table_consts (unat keys) k data;
       Some (TTable (stores @ map (\<lambda>key. (key, TNil)) nils), data) }
     else if kind = LBC_CONSTANT_CLOSURE then do {
       (fid, data) \<leftarrow> readVarInt data;
       if unat fid < nprotos then Some (TClosure (unat fid), data) else None }
     else if kind = LBC_CONSTANT_CLASS_SHAPE then do {
       (cnid, data) \<leftarrow> readVarInt data;
       (numProperties, data) \<leftarrow> readVarInt data;
       (numMethods, data) \<leftarrow> readVarInt data;
       (case (if unat cnid < length k then k ! unat cnid else TNil) of
          TString classname \<Rightarrow> do {
            (members, data) \<leftarrow> read_members (unat (numMethods + numProperties)) k data;
            Some (TClass classname members (unat numProperties) (unat numMethods), data) }
        | _ \<Rightarrow> None) }
     else if kind = LBC_CONSTANT_INTEGER then do {
       (isNegative, data) \<leftarrow> read_u8 data;
       (magnitude, data) \<leftarrow> readVarInt64 data;
       Some (TInteger (if isNegative \<noteq> 0 then NOT magnitude + 1 else magnitude), data) }
     else None
   }"

fun read_constants :: "vm_env \<Rightarrow> bytes list \<Rightarrow> nat \<Rightarrow> nat \<Rightarrow> nat \<Rightarrow> tvalue list \<Rightarrow> bytes \<Rightarrow> (tvalue list \<times> bytes) option" where
  "read_constants vm strings nprotos 0 j k data = Some (k, data)"
| "read_constants vm strings nprotos (Suc n) j k data = do {
     (v, data) \<leftarrow> read_constant vm strings nprotos k data;
     read_constants vm strings nprotos n (j + 1) (k[j := v]) data
   }"

section \<open>Instruction specialization\<close>

definition udata_target :: "u8 \<Rightarrow> u8 option" where
  "udata_target op = (if op = LOP_GETTABLEKS then Some LOP_GETUDATAKS
     else if op = LOP_SETTABLEKS then Some LOP_SETUDATAKS
     else if op = LOP_NAMECALL then Some LOP_NAMECALLUDATA else None)"

text \<open>The new first word of an instruction with auxiliary word \<open>aux\<close>.\<close>

definition specialize :: "vm_env \<Rightarrow> tvalue list \<Rightarrow> u32 \<Rightarrow> u8 \<Rightarrow> u32 \<Rightarrow> u32 option" where
  "specialize vm k insn targetOp aux =
     (if \<not> unat aux < length k then None
      else if aux < 0x10000
      then (case k ! unat aux of
              TString (Some s) \<Rightarrow> Some (if vm_atom vm s then insn AND 0xffffff00 OR ucast targetOp else insn)
            | _ \<Rightarrow> None)
      else Some insn)"

fun rewrite_code :: "vm_env \<Rightarrow> tvalue list \<Rightarrow> u32 list \<Rightarrow> u32 list option" where
  "rewrite_code vm k [] = Some []"
| "rewrite_code vm k [insn] = (if udata_target (LUAU_INSN_OP insn) = None then Some [insn] else None)"
| "rewrite_code vm k (insn # aux # rest) =
     (case udata_target (LUAU_INSN_OP insn) of
        Some targetOp \<Rightarrow> do {
          insn' \<leftarrow> specialize vm k insn targetOp aux;
          out \<leftarrow> rewrite_code vm k rest;
          Some (insn' # aux # out)
        }
      | None \<Rightarrow>
          if getOpLength (LUAU_INSN_OP insn) = 2 then map_option (\<lambda>out. insn # aux # out) (rewrite_code vm k rest)
          else map_option ((#) insn) (rewrite_code vm k (aux # rest)))"

section \<open>Prototypes\<close>

definition read_locvar :: "bytes list \<Rightarrow> bytes \<Rightarrow> (locvar \<times> bytes) option" where
  "read_locvar strings data = do {
     (varname, data) \<leftarrow> readString strings data;
     (startpc, data) \<leftarrow> readVarInt data;
     (endpc, data) \<leftarrow> readVarInt data;
     (reg, data) \<leftarrow> read_u8 data;
     Some (\<lparr>lv_varname = varname, lv_startpc = startpc, lv_endpc = endpc, lv_reg = reg\<rparr>, data)
   }"

definition read_debuginfo :: "bytes list \<Rightarrow> u8 \<Rightarrow> bytes \<Rightarrow> (locvar list \<times> bytes option list \<times> bytes) option" where
  "read_debuginfo strings nups data = do {
     (debuginfo, data) \<leftarrow> read_u8 data;
     if debuginfo = 0 then Some ([], [], data)
     else do {
       (sizelocvars, data) \<leftarrow> read_size data;
       (locvars, data) \<leftarrow> read_n sizelocvars (read_locvar strings) data;
       (sizeupvalues, data) \<leftarrow> read_size data;
       if sizeupvalues \<noteq> unat nups then None
       else do {
         (upvalues, data) \<leftarrow> read_n sizeupvalues (readString strings) data;
         Some (locvars, upvalues, data)
       }
     }
   }"

definition read_fbslot :: "bytes \<Rightarrow> (u32 \<times> bytes) option" where
  "read_fbslot data = do {
     (slottype, data) \<leftarrow> read_u8 data;
     if slottype \<noteq> 0 then None else readVarInt data
   }"

definition read_feedback :: "u8 \<Rightarrow> bytes \<Rightarrow> (u32 list \<times> bytes) option" where
  "read_feedback version data =
     (if version \<ge> 11 then do { (n, data) \<leftarrow> readVarInt data; read_n (unat n) read_fbslot data } else Some ([], data))"

definition read_lines :: "nat \<Rightarrow> bytes \<Rightarrow> (lineinfo option \<times> bytes) option" where
  "read_lines sizecode data = do {
     (flag, data) \<leftarrow> read_u8 data;
     if flag = 0 then Some (None, data)
     else map_option (\<lambda>(li, data). (Some li, data)) (readLineInfo sizecode data)
   }"

definition read_child :: "nat \<Rightarrow> bytes \<Rightarrow> (nat \<times> bytes) option" where
  "read_child nprotos data = do {
     (fid, data) \<leftarrow> readVarInt data;
     if unat fid < nprotos then Some (unat fid, data) else None
   }"

definition read_proto :: "vm_env \<Rightarrow> u8 \<Rightarrow> u8 \<Rightarrow> bytes list \<Rightarrow> u8 list \<Rightarrow> nat \<Rightarrow> bytes \<Rightarrow> (proto \<times> bytes) option" where
  "read_proto vm version typesversion strings table nprotos data = do {
     (maxstacksize, data) \<leftarrow> read_u8 data;
     (numparams, data) \<leftarrow> read_u8 data;
     (nups, data) \<leftarrow> read_u8 data;
     (is_vararg, data) \<leftarrow> read_u8 data;
     (flags, typeinfo, data) \<leftarrow>
       (if version \<ge> 4
        then do {
          (flags, data) \<leftarrow> read_u8 data;
          (info, data) \<leftarrow> read_typeinfo typesversion numparams table data;
          Some (flags, info, data)
        }
        else Some (0, [], data));
     (sizecode, data) \<leftarrow> read_size data;
     (code, data) \<leftarrow> read_n sizecode read_u32 data;
     (sizek, data) \<leftarrow> read_size data;
     (k, data) \<leftarrow> read_constants vm strings nprotos sizek 0 (replicate sizek TNil) data;
     code' \<leftarrow> rewrite_code vm k code;
     (sizep, data) \<leftarrow> read_size data;
     (p, data) \<leftarrow> read_n sizep (read_child nprotos) data;
     (linedefined, data) \<leftarrow> readVarInt data;
     (debugname, data) \<leftarrow> readString strings data;
     (lineinfo, data) \<leftarrow> read_lines sizecode data;
     (locvars, upvalues, data) \<leftarrow> read_debuginfo strings nups data;
     (feedback, data) \<leftarrow> read_feedback version data;
     (cost, data) \<leftarrow> (if version \<ge> 12 \<and> flags AND 8 \<noteq> 0 then readVarInt64 data else Some (0, data));
     Some (\<lparr>p_maxstacksize = maxstacksize, p_numparams = numparams, p_nups = nups, p_is_vararg = is_vararg, p_flags = flags,
            p_typeinfo = typeinfo, p_code = code', p_k = k, p_p = p, p_linedefined = linedefined, p_debugname = debugname,
            p_lineinfo = lineinfo, p_locvars = locvars, p_upvalues = upvalues, p_feedback = feedback, p_cost = cost\<rparr>, data)
   }"

text \<open>From version 12 on each prototype carries its size, and the loader continues after it.\<close>

fun read_protos :: "vm_env \<Rightarrow> u8 \<Rightarrow> u8 \<Rightarrow> bytes list \<Rightarrow> u8 list \<Rightarrow> nat \<Rightarrow> nat \<Rightarrow> bytes \<Rightarrow> (proto list \<times> bytes) option" where
  "read_protos vm version typesversion strings table 0 i data = Some ([], data)"
| "read_protos vm version typesversion strings table (Suc n) i data = do {
     (protoSize, start) \<leftarrow> (if version \<ge> 12 then readVarInt data else Some (0, data));
     (p, data) \<leftarrow> read_proto vm version typesversion strings table i start;
     (ps, data) \<leftarrow> read_protos vm version typesversion strings table n (i + 1)
                     (if version \<ge> 12 then drop (unat protoSize) start else data);
     Some (p # ps, data)
   }"

section \<open>Modules\<close>

datatype load_error = CompileError bytes | VersionMismatch u8 | TypeVersionMismatch u8

definition loadsafe :: "vm_env \<Rightarrow> bytes \<Rightarrow> (load_error + proto list \<times> nat) option" where
  "loadsafe vm data = do {
     (version, data) \<leftarrow> read_u8 data;
     if version = 0 then Some (Inl (CompileError data))
     else if (version < 3 \<or> version > 13) \<and> version \<noteq> LBC_VERSION_CLASSES then Some (Inl (VersionMismatch version))
     else do {
       (typesversion, data) \<leftarrow> (if version \<ge> 4 then read_u8 data else Some (0, data));
       if version \<ge> 4 \<and> (typesversion < 1 \<or> typesversion > 3) then Some (Inl (TypeVersionMismatch typesversion))
       else do {
         (stringCount, data) \<leftarrow> readVarInt data;
         (strings, data) \<leftarrow> read_strings (unat stringCount) data;
         (table, data) \<leftarrow> (if typesversion = 3
            then read_remapping (length data) (vm_typemap vm) strings (replicate 32 LBC_TYPE_USERDATA) data
            else Some ([], data));
         (protoCount, data) \<leftarrow> readVarInt data;
         (protos, data) \<leftarrow> read_protos vm version typesversion strings table (unat protoCount) 0 data;
         (mainid, data) \<leftarrow> readVarInt data;
         if unat mainid < length protos then Some (Inr (protos, unat mainid)) else None
       }
     }
   }"

section \<open>Properties\<close>

text \<open>
  Error reports: the blob \<open>getError\<close> makes of a compiler message is reported by the loader as
  exactly that message, and a blob with an unsupported version or type version is rejected
  with the version found, before anything else of it is read.
\<close>

theorem load_errors_reported:
  "loadsafe vm (getError message) = Some (Inl (CompileError message))
   \<and> (version \<noteq> 0 \<and> (version < 3 \<or> 13 < version) \<and> version \<noteq> LBC_VERSION_CLASSES \<longrightarrow>
        loadsafe vm (version # rest) = Some (Inl (VersionMismatch version)))
   \<and> (4 \<le> version \<and> (version \<le> 13 \<or> version = LBC_VERSION_CLASSES) \<and> (typesversion < 1 \<or> 3 < typesversion) \<longrightarrow>
        loadsafe vm (version # typesversion # rest) = Some (Inl (TypeVersionMismatch typesversion)))"
proof -
  have v4: "version \<noteq> 0" "\<not> version < 3" if "4 \<le> version"
    using that by (auto simp: word_less_nat_alt word_le_nat_alt)
  show ?thesis using v4 by (auto simp: loadsafe_def getError_def read_u8_def not_less word_le_nat_alt word_less_nat_alt)
qed

theorem load_errors_reported_witness:
  "loadsafe \<lparr>vm_import = \<lambda>_ _. TNil, vm_atom = \<lambda>_. False, vm_typemap = None\<rparr> [14, 7] = Some (Inl (VersionMismatch 14))"
  using load_errors_reported [of "\<lparr>vm_import = \<lambda>_ _. TNil, vm_atom = \<lambda>_. False, vm_typemap = None\<rparr>" "[]" 14 "[7]"] by simp

end
