(* ===== verification/BytecodeRoundtrip.thy ===== *)
theory BytecodeRoundtrip
  imports BytecodeLoader Interning
begin

text \<open>
  What the loader reconstructs from the writer's output: string table, type information, constants,
  line tables, debug information, whole functions and whole modules.
\<close>

section \<open>Sizes and strings\<close>

lemma read_size_write:
  assumes "length xs < 2 ^ 31"
  shows "read_size (write_size xs @ rest) = Some (length xs, rest)"
proof -
  have u: "unat (of_nat (length xs) :: u32) = length xs" using assms by (simp add: unat_of_nat take_bit_nat_eq_self)
  have "\<not> sint (of_nat (length xs) :: u32) < 0"
    using assms by (simp add: signed_of_nat signed_take_bit_int_eq_self)
  then show ?thesis using u by (simp add: read_size_def)
qed

lemma readVarInt_size:
  "length xs < 2 ^ 32 \<Longrightarrow> readVarInt (write_size xs @ rest) = Some (of_nat (length xs), rest) \<and> unat (of_nat (length xs) :: u32) = length xs"
  by (simp add: unat_of_nat take_bit_nat_eq_self)

lemma readVarInt_of_nat:
  assumes "n < 2 ^ 32"
  shows "readVarInt (writeVarInt (of_nat n) @ rest) = Some (of_nat n, rest)" "unat (of_nat n :: u32) = n"
proof -
  have "unat (of_nat n :: u64) = n" using assms unat_of_nat_small(3) [of n] by simp
  then show "readVarInt (writeVarInt (of_nat n) @ rest) = Some (of_nat n, rest)"
    using readVarInt_write [of "of_nat n"] assms by (simp add: unsigned_of_nat take_bit_nat_eq_self)
  show "unat (of_nat n :: u32) = n" using assms by (rule unat_of_nat_small(1))
qed

lemma readVarInt_scast:
  assumes "0 \<le> sint (x :: u32)"
  shows "readVarInt (writeVarInt (scast x) @ rest) = Some (x, rest)"
proof -
  have nb: "\<not> bit x 31" using assms bit_last_iff [of x] by simp
  have "scast x = (ucast x :: u64)"
  proof (rule bit_word_eqI)
    fix n assume "n < LENGTH(64)"
    have "\<not> bit x n" if "31 \<le> n" using nb that bit_imp_le_length [of x n] by (cases "n = 31") auto
    then show "bit (scast x :: u64) n = bit (ucast x :: u64) n"
      using nb \<open>n < LENGTH(64)\<close> by (cases "31 \<le> n") (auto simp: bit_simps min_def)
  qed
  then show ?thesis by simp
qed

lemma read_strings_write:
  "\<forall>s \<in> set ss. length s < 2 ^ 32 \<Longrightarrow>
   read_strings (length ss) (concat (map (\<lambda>s. write_size s @ s) ss) @ rest) = Some (ss, rest)"
proof (induction ss)
  case (Cons s ss)
  have "unat (of_nat (length s) :: u32) = length s" using Cons.prems by (simp add: unat_of_nat take_bit_nat_eq_self)
  then show ?case using Cons by simp
qed simp

lemma place_strings_from:
  assumes "n + length st \<le> length acc" "length acc < 2 ^ 32"
  shows "map snd st = map (\<lambda>i. of_nat (Suc i)) [n..<n + length st] \<Longrightarrow>
    place_strings st acc = Some (take n acc @ map fst st @ drop (n + length st) acc)"
  using assms
proof (induction st arbitrary: n acc)
  case (Cons e st)
  obtain s i where e: "e = (s, i)" by (cases e)
  have l: "[n..<n + length (e # st)] = n # [Suc n..<Suc n + length st]" by (simp add: upt_conv_Cons del: upt_Suc)
  have i: "i = of_nat (Suc n)" and rest: "map snd st = map (\<lambda>i. of_nat (Suc i)) [Suc n..<Suc n + length st]"
    using Cons.prems(1) unfolding l by (simp_all add: e)
  have "Suc n < 2 ^ 32" using Cons.prems(2,3) by simp
  then have u: "unat i = Suc n" unfolding i by (rule unat_of_nat_small(1))
  then have "i > 0" by (auto simp: word_gt_0)
  then show ?case
    using Cons.IH [OF rest, of "acc[n := s]"] Cons.prems(2,3) u
    by (simp add: e take_Suc_conv_app_nth take_update_swap drop_update_cancel list_update_append)
qed simp

lemma writeStringTable_spec:
  assumes "st_inv st"
  shows "writeStringTable st = Some (write_size (map fst st) @ concat (map (\<lambda>s. write_size s @ s) (map fst st)))"
  using place_strings_from [of 0 st "replicate (length st) []"] assms by (simp add: writeStringTable_def st_inv_def)

lemma writeStringTable_read:
  assumes "st_inv st" "\<forall>s \<in> set (map fst st). length s < 2 ^ 32"
  obtains ss where "writeStringTable st = Some ss"
    "\<And>rest. (do { (n, data) \<leftarrow> readVarInt (ss @ rest); read_strings (unat n) data }) = Some (map fst st, rest)"
proof -
  let ?strs = "map fst st"
  have "length ?strs < 2 ^ 32" using assms(1) by (simp add: st_inv_def)
  then have "unat (of_nat (length ?strs) :: u32) = length ?strs" by (rule unat_of_nat_small(1))
  then show ?thesis
    using that [OF writeStringTable_spec [OF assms(1)]] read_strings_write [OF assms(2)] by simp
qed

lemma readString_ref:
  "unat (i :: u32) \<le> length strings \<Longrightarrow>
   readString strings (writeVarInt (ucast i) @ rest) = Some (if i = 0 then None else Some (strings ! (unat i - 1)), rest)"
  using unat_eq_0 [of i] by (auto simp: readString_def)

section \<open>Type information\<close>

lemma remap_locals_write:
  "remap_locals table (length ls)
     (concat (map (\<lambda>l. writeByte (tl_type l) @ writeByte (tl_reg l) @ writeVarInt (ucast (tl_startpc l)) @
                      writeVarInt (ucast (tl_endpc l - tl_startpc l))) ls) @ rest)
   = Some (concat (map (\<lambda>l. writeByte (tl_type l) @ writeByte (tl_reg l) @ writeVarInt (ucast (tl_startpc l)) @
                      writeVarInt (ucast (tl_endpc l - tl_startpc l))) (map (\<lambda>l. l\<lparr>tl_type := remap_type table (tl_type l)\<rparr>) ls)), rest)"
  by (induction ls) (simp_all add: writeByte_def)

definition remap_typeinfo :: "u8 list \<Rightarrow> bytes \<Rightarrow> bytes" where
  "remap_typeinfo table ti = take 2 ti @ map (remap_type table) (drop 2 ti)"

lemma length_remap_typeinfo [simp]: "length (remap_typeinfo table ti) = length ti"
  by (simp add: remap_typeinfo_def)

lemma concat_writeByte [simp]: "concat (map writeByte xs) = xs" "concat (map (writeByte \<circ> f) ys) = map f ys"
  by (induction xs) (auto simp: writeByte_def, induction ys, auto simp: writeByte_def)

lemma remapUserdataTypes_blob:
  assumes "length ti < 2 ^ 32" "length up < 2 ^ 32" "length ls < 2 ^ 32"
  shows "remapUserdataTypes table (typeinfo_blob ti up ls) =
    Some (typeinfo_blob (remap_typeinfo table ti) (map (remap_type table) up) (map (\<lambda>l. l\<lparr>tl_type := remap_type table (tl_type l)\<rparr>) ls))"
proof -
  let ?L = "concat (map (\<lambda>l. writeByte (tl_type l) @ writeByte (tl_reg l) @ writeVarInt (ucast (tl_startpc l)) @
                      writeVarInt (ucast (tl_endpc l - tl_startpc l))) ls)"
  let ?H = "write_size ti @ write_size up @ write_size ls"
  have b: "typeinfo_blob ti up ls = write_size ti @ write_size up @ write_size ls @ ti @ up @ ?L"
    by (simp add: typeinfo_blob_def)
  have n: "unat (of_nat (length ti) :: u32) = length ti" "unat (of_nat (length up) :: u32) = length up"
    "unat (of_nat (length ls) :: u32) = length ls" using assms unat_of_nat_small(1) by auto
  show ?thesis
    using remap_locals_write [of table ls "[]"]
    unfolding remapUserdataTypes_def b by (simp add: n typeinfo_blob_def) (simp add: remap_typeinfo_def)
qed

text \<open>What is left of the type information when the remapping table is applied.\<close>

definition loaded_typeinfo :: "u8 list \<Rightarrow> bytes \<Rightarrow> u8 list \<Rightarrow> typed_local list \<Rightarrow> bytes" where
  "loaded_typeinfo table ti up ls =
     (if ti \<noteq> [] \<or> up \<noteq> [] \<or> ls \<noteq> []
      then typeinfo_blob (remap_typeinfo table ti) (map (remap_type table) up) (map (\<lambda>l. l\<lparr>tl_type := remap_type table (tl_type l)\<rparr>) ls)
      else [])"

lemma read_typeinfo_write:
  assumes "write_typeinfo ti up ls = Some ss" "length (typeinfo_blob ti up ls) < 2 ^ 32"
  shows "read_typeinfo 3 numparams table (ss @ rest) = Some (loaded_typeinfo table ti up ls, rest)"
proof (cases "ti \<noteq> [] \<or> up \<noteq> [] \<or> ls \<noteq> []")
  case True
  let ?b = "typeinfo_blob ti up ls"
  have ss: "ss = write_size ?b @ ?b" using assms(1) True by (auto simp: write_typeinfo_def Let_def split: if_splits)
  have L: "length ls \<le> length (concat (map (\<lambda>l. writeByte (tl_type l) @ writeByte (tl_reg l) @ writeVarInt (ucast (tl_startpc l)) @
                      writeVarInt (ucast (tl_endpc l - tl_startpc l))) ls))"
    by (induction ls) (auto simp: writeByte_def)
  have l: "length ti < 2 ^ 32" "length up < 2 ^ 32" "length ls < 2 ^ 32"
    using assms(2) L unfolding typeinfo_blob_def length_append concat_writeByte by linarith+
  have n: "unat (of_nat (length ?b) :: u32) = length ?b" using assms(2) by (rule unat_of_nat_small(1))
  have "?b \<noteq> []" using True L by (auto simp: typeinfo_blob_def)
  then show ?thesis using n True remapUserdataTypes_blob [OF l, of table] by (simp add: read_typeinfo_def ss loaded_typeinfo_def)
next
  case False
  then have "ss = writeVarInt (ucast (0 :: u32))" using assms(1) by (simp add: write_typeinfo_def)
  then show ?thesis using False by (simp add: read_typeinfo_def loaded_typeinfo_def)
qed

section \<open>Constants\<close>

definition string_at :: "bytes list \<Rightarrow> u32 \<Rightarrow> bytes option" where
  "string_at strings i = (if i = 0 then None else Some (strings ! (unat i - 1)))"

text \<open>The stores a table shape stands for, given the constants loaded before it.\<close>

definition shape_value :: "tvalue list \<Rightarrow> u32 \<Rightarrow> tvalue" where
  "shape_value k c = (if sint c \<ge> 0 then (if k ! unat c = TNil then TNumber 0 else k ! unat c) else TNumber 0)"

definition shape_stores :: "tvalue list \<Rightarrow> table_shape \<Rightarrow> (tvalue \<times> tvalue) list" where
  "shape_stores k shape =
     (if ts_hasConstants shape
      then map (\<lambda>(key, c). (k ! unat key, shape_value k c)) (zip (ts_keys shape) (ts_constants shape)) @
           map (\<lambda>(key, c). (k ! unat key, TNil))
             (filter (\<lambda>(key, c). sint c \<ge> 0 \<and> k ! unat c = TNil) (zip (ts_keys shape) (ts_constants shape)))
      else map (\<lambda>key. (k ! unat key, TNumber 0)) (ts_keys shape))"

definition member_string :: "tvalue list \<Rightarrow> u32 \<Rightarrow> bytes option" where
  "member_string k m = (case k ! unat m of TString s \<Rightarrow> s | _ \<Rightarrow> None)"

fun const_value ::
    "vm_env \<Rightarrow> bytes list \<Rightarrow> table_shape list \<Rightarrow> class_shape list \<Rightarrow> tvalue list \<Rightarrow> bconstant \<Rightarrow> tvalue" where
  "const_value vm strings shapes classes k Type_Nil = TNil"
| "const_value vm strings shapes classes k (Type_Boolean v) = TBoolean (if v then 1 else 0)"
| "const_value vm strings shapes classes k (Type_Number v) = TNumber v"
| "const_value vm strings shapes classes k (Type_Integer v) = TInteger v"
| "const_value vm strings shapes classes k (Type_Vectorf x y z w) = TVector x y z"
| "const_value vm strings shapes classes k (Type_Vectord x y z w) =
     TVector (double_to_float x) (double_to_float y) (double_to_float z)"
| "const_value vm strings shapes classes k (Type_String i) = TString (string_at strings i)"
| "const_value vm strings shapes classes k (Type_Import iid) = vm_import vm k iid"
| "const_value vm strings shapes classes k (Type_Table i) = TTable (shape_stores k (shapes ! i))"
| "const_value vm strings shapes classes k (Type_Closure fid) = TClosure (unat fid)"
| "const_value vm strings shapes classes k (Type_ClassShape i) =
     TClass (member_string k (cs_className (classes ! i)))
       (map (member_string k) (cs_propertyNames (classes ! i) @ cs_methodNames (classes ! i)))
       (length (cs_propertyNames (classes ! i))) (length (cs_methodNames (classes ! i)))"

text \<open>A reference to a string constant that precedes position \<open>j\<close>.\<close>

definition string_ref :: "bconstant list \<Rightarrow> nat \<Rightarrow> u32 \<Rightarrow> bool" where
  "string_ref cs j key \<longleftrightarrow> 0 \<le> sint key \<and> unat key < j \<and> (\<exists>i. cs ! unat key = Type_String i)"

definition shape_wf :: "bconstant list \<Rightarrow> nat \<Rightarrow> table_shape \<Rightarrow> bool" where
  "shape_wf cs j shape \<longleftrightarrow> length (ts_keys shape) \<le> 32 \<and> (\<forall>key \<in> set (ts_keys shape). string_ref cs j key) \<and>
     (ts_hasConstants shape \<longrightarrow> length (ts_constants shape) = length (ts_keys shape) \<and>
        (\<forall>c \<in> set (ts_constants shape). 0 \<le> sint c \<longrightarrow> unat c < length cs))"

fun const_wf :: "nat \<Rightarrow> nat \<Rightarrow> table_shape list \<Rightarrow> class_shape list \<Rightarrow> bconstant list \<Rightarrow> nat \<Rightarrow> bconstant \<Rightarrow> bool" where
  "const_wf nstrings nprotos shapes classes cs j (Type_String i) = (unat i \<le> nstrings)"
| "const_wf nstrings nprotos shapes classes cs j (Type_Table t) = (t < length shapes \<and> shape_wf cs j (shapes ! t))"
| "const_wf nstrings nprotos shapes classes cs j (Type_Closure fid) = (unat fid < nprotos)"
| "const_wf nstrings nprotos shapes classes cs j (Type_ClassShape t) =
     (t < length classes \<and> string_ref cs j (cs_className (classes ! t)) \<and>
      (\<forall>n \<in> set (cs_propertyNames (classes ! t) @ cs_methodNames (classes ! t)). string_ref cs j n) \<and>
      length (cs_propertyNames (classes ! t)) + length (cs_methodNames (classes ! t)) < 2 ^ 32)"
| "const_wf nstrings nprotos shapes classes cs j _ = True"

text \<open>Every string constant before position \<open>j\<close> is loaded as a string.\<close>

definition strings_loaded :: "bconstant list \<Rightarrow> nat \<Rightarrow> tvalue list \<Rightarrow> bool" where
  "strings_loaded cs j k \<longleftrightarrow> length k = length cs \<and> (\<forall>i < j. \<forall>s. i < length cs \<and> cs ! i = Type_String s \<longrightarrow> (\<exists>t. k ! i = TString t))"

lemma string_ref_at:
  assumes "strings_loaded cs j k" "string_ref cs j key" "j \<le> length cs"
  obtains t where "k ! unat key = TString t" "unat key < length k" "key_at k key = Some (k ! unat key)"
  using assms unfolding strings_loaded_def string_ref_def key_at_def by (auto; metis table_key.simps(5) order_less_le_trans)

lemma read_table_keys_write:
  assumes "strings_loaded cs j k" "j \<le> length cs" "\<forall>key \<in> set keys. string_ref cs j key"
  shows "read_table_keys (length keys) k (concat (map (\<lambda>k. writeVarInt (scast k)) keys) @ rest)
    = Some (map (\<lambda>key. (k ! unat key, TNumber 0)) keys, rest)"
  using assms(3)
proof (induction keys)
  case (Cons key keys)
  then have r: "string_ref cs j key" by simp
  obtain t where "key_at k key = Some (k ! unat key)" by (rule string_ref_at [OF assms(1) r assms(2)])
  moreover have "0 \<le> sint key" using r by (simp add: string_ref_def)
  ultimately show ?case using Cons by (simp add: readVarInt_scast)
qed simp

lemma read_table_consts_write:
  assumes "strings_loaded cs j k" "j \<le> length cs" "\<forall>(key, c) \<in> set kcs. string_ref cs j key \<and> (0 \<le> sint c \<longrightarrow> unat c < length cs)"
  shows "read_table_consts (length kcs) k (concat (map (\<lambda>(k, c). writeVarInt (scast k) @ writeInt c) kcs) @ rest)
    = Some (map (\<lambda>(key, c). (k ! unat key, shape_value k c)) kcs,
            map (\<lambda>(key, c). k ! unat key) (filter (\<lambda>(key, c). sint c \<ge> 0 \<and> k ! unat c = TNil) kcs), rest)"
  using assms(3)
proof (induction kcs)
  case (Cons kc kcs)
  obtain key c where kc: "kc = (key, c)" by (cases kc)
  then have r: "string_ref cs j key" and c: "0 \<le> sint c \<longrightarrow> unat c < length k" using Cons.prems assms(1) by (auto simp: strings_loaded_def)
  obtain t where "key_at k key = Some (k ! unat key)" by (rule string_ref_at [OF assms(1) r assms(2)])
  moreover have "0 \<le> sint key" using r by (simp add: string_ref_def)
  ultimately show ?case using Cons c by (simp add: kc readVarInt_scast shape_value_def)
qed simp

lemma read_members_write:
  assumes "strings_loaded cs j k" "j \<le> length cs" "\<forall>m \<in> set ms. string_ref cs j m"
  shows "read_members (length ms) k (concat (map (\<lambda>n. writeVarInt (scast n)) ms) @ rest) = Some (map (member_string k) ms, rest)"
  using assms(3)
proof (induction ms)
  case (Cons m ms)
  then have r: "string_ref cs j m" by simp
  obtain t where "k ! unat m = TString t" "unat m < length k" by (rule string_ref_at [OF assms(1) r assms(2)])
  moreover have "0 \<le> sint m" using r by (simp add: string_ref_def)
  ultimately show ?case using Cons by (simp add: readVarInt_scast member_string_def)
qed simp

lemma read_shape_write:
  assumes "strings_loaded cs j k" "j \<le> length cs" "shape_wf cs j shape"
  shows "read_constant vm strings np k (write_shape shape @ rest) = Some (TTable (shape_stores k shape), rest)"
proof -
  have keys: "\<forall>key \<in> set (ts_keys shape). string_ref cs j key" and len: "length (ts_keys shape) \<le> 32" using assms(3) by (auto simp: shape_wf_def)
  have u: "unat (of_nat (length (ts_keys shape)) :: u32) = length (ts_keys shape)" using len by (intro unat_of_nat_small(1)) simp
  have s: "sint (of_nat (length (ts_keys shape)) :: u32) = int (length (ts_keys shape))"
    using len by (simp add: signed_of_nat signed_take_bit_int_eq_self)
  show ?thesis
  proof (cases "ts_hasConstants shape")
    case True
    let ?kcs = "zip (ts_keys shape) (ts_constants shape)"
    have l: "length (ts_constants shape) = length (ts_keys shape)" and "\<forall>c \<in> set (ts_constants shape). 0 \<le> sint c \<longrightarrow> unat c < length cs"
      using assms(3) True by (auto simp: shape_wf_def)
    then have ok: "\<forall>(key, c) \<in> set ?kcs. string_ref cs j key \<and> (0 \<le> sint c \<longrightarrow> unat c < length cs)"
      using keys by (auto dest: set_zip_leftD set_zip_rightD)
    have len': "length ?kcs = length (ts_keys shape)" using l by simp
    show ?thesis
      using read_table_consts_write [OF assms(1,2) ok, of rest, unfolded len'] True u
      by (simp add: read_constant_def write_shape_def shape_stores_def case_prod_unfold)
  next
    case False
    then show ?thesis using read_table_keys_write [OF assms(1,2) keys, of rest] s
      by (simp add: read_constant_def write_shape_def shape_stores_def)
  qed
qed

lemma read_class_write:
  assumes "strings_loaded cs j k" "j \<le> length cs" "string_ref cs j (cs_className c)"
    "\<forall>n \<in> set (cs_propertyNames c @ cs_methodNames c). string_ref cs j n"
    "length (cs_propertyNames c) + length (cs_methodNames c) < 2 ^ 32"
  shows "read_constant vm strings np k (writeByte LBC_CONSTANT_CLASS_SHAPE @ writeClassShape c @ rest) =
    Some (TClass (member_string k (cs_className c)) (map (member_string k) (cs_propertyNames c @ cs_methodNames c))
       (length (cs_propertyNames c)) (length (cs_methodNames c)), rest)"
proof -
  let ?ms = "cs_propertyNames c @ cs_methodNames c"
  obtain t where t: "k ! unat (cs_className c) = TString t" "unat (cs_className c) < length k"
    by (rule string_ref_at [OF assms(1,3,2)])
  have s: "0 \<le> sint (cs_className c)" using assms(3) by (simp add: string_ref_def)
  have l: "length (cs_propertyNames c) < 2 ^ 32" "length (cs_methodNames c) < 2 ^ 32" using assms(5) by auto
  note n = readVarInt_of_nat [OF l(1)] readVarInt_of_nat [OF l(2)]
  have "of_nat (length (cs_methodNames c)) + of_nat (length (cs_propertyNames c)) = (of_nat (length ?ms) :: u32)" by simp
  then have m: "unat (of_nat (length (cs_methodNames c)) + of_nat (length (cs_propertyNames c)) :: u32) = length ?ms"
    using unat_of_nat_small(1) [of "length ?ms"] assms(5) by (simp add: add.commute)
  show ?thesis using read_members_write [OF assms(1,2,4), of rest] t s n m
    by (simp add: read_constant_def writeClassShape_def readVarInt_scast member_string_def)
qed

lemma read_constant_write:
  assumes "write_constant fl shapes classes c = Some ss" "strings_loaded cs j k" "j \<le> length cs"
    "const_wf (length strings) np shapes classes cs j c"
  shows "read_constant vm strings np k (ss @ rest) = Some (const_value vm strings shapes classes k c, rest)"
proof (cases c)
  case (Type_Integer v)
  have "NOT (NOT v + 1) + 1 = v" by (simp add: not_eq_complement)
  then show ?thesis using assms(1) Type_Integer by (auto simp: read_constant_def)
next
  case (Type_String i)
  then show ?thesis using assms(1,4) readString_ref [of i strings rest] by (auto simp: read_constant_def string_at_def)
next
  case (Type_Table t)
  then show ?thesis using assms(1,4) read_shape_write [OF assms(2,3), of "shapes ! t"] by auto
next
  case (Type_ClassShape t)
  then show ?thesis using assms(1,4) read_class_write [OF assms(2,3), of "classes ! t" vm strings np rest] by auto
qed (use assms in \<open>auto simp: read_constant_def setvvalue_def setvvalued_def\<close>)

fun load_values ::
    "vm_env \<Rightarrow> bytes list \<Rightarrow> table_shape list \<Rightarrow> class_shape list \<Rightarrow> bconstant list \<Rightarrow> nat \<Rightarrow> tvalue list \<Rightarrow> tvalue list" where
  "load_values vm strings shapes classes [] j k = k"
| "load_values vm strings shapes classes (c # cs) j k =
     load_values vm strings shapes classes cs (j + 1) (k[j := const_value vm strings shapes classes k c])"

definition loaded_constants ::
    "vm_env \<Rightarrow> bytes list \<Rightarrow> table_shape list \<Rightarrow> class_shape list \<Rightarrow> bconstant list \<Rightarrow> tvalue list" where
  "loaded_constants vm strings shapes classes cs =
     load_values vm strings shapes classes cs 0 (replicate (length cs) TNil)"

lemma read_constants_write:
  assumes "write_constants fl shapes classes cs2 = Some ss" "strings_loaded cs (length cs1) k" "cs = cs1 @ cs2"
    "\<forall>j < length cs. const_wf (length strings) np shapes classes cs j (cs ! j)"
  shows "read_constants vm strings np (length cs2) (length cs1) k (ss @ rest)
    = Some (load_values vm strings shapes classes cs2 (length cs1) k, rest)"
  using assms
proof (induction cs2 arbitrary: cs1 k ss)
  case (Cons c cs2)
  obtain x y where w: "write_constant fl shapes classes c = Some x" "write_constants fl shapes classes cs2 = Some y" "ss = x @ y"
    using Cons.prems(1) by (auto split: option.splits)
  let ?j = "length cs1" and ?v = "const_value vm strings shapes classes k c"
  have j: "?j < length cs" "cs ! ?j = c" using Cons.prems(3) by auto
  then have wf: "const_wf (length strings) np shapes classes cs ?j c" using Cons.prems(4) by metis
  have r: "read_constant vm strings np k (x @ y @ rest) = Some (?v, y @ rest)"
    by (rule read_constant_write [OF w(1) Cons.prems(2) _ wf]) (use j in simp)
  have "strings_loaded cs (length (cs1 @ [c])) (k[?j := ?v])"
    unfolding strings_loaded_def
  proof (intro conjI allI impI, goal_cases)
    case 1
    then show ?case using Cons.prems(2) by (simp add: strings_loaded_def)
  next
    case (2 i s)
    then show ?case using Cons.prems(2) j by (cases "i = ?j") (auto simp: strings_loaded_def)
  qed
  from Cons.IH [OF w(2) this] Cons.prems(3,4) show ?case using r w(3) by simp
qed simp

lemma loaded_constants_read:
  assumes "write_constants fl shapes classes cs = Some ss"
    "\<forall>j < length cs. const_wf (length strings) np shapes classes cs j (cs ! j)"
  shows "read_constants vm strings np (length cs) 0 (replicate (length cs) TNil) (ss @ rest)
    = Some (loaded_constants vm strings shapes classes cs, rest)"
  using read_constants_write [where ?cs1.0 = "[]" and k = "replicate (length cs) TNil", OF assms(1) _ _ assms(2)]
  by (simp add: strings_loaded_def loaded_constants_def)

section \<open>Debug information\<close>

definition loaded_locvar :: "bytes list \<Rightarrow> debug_local \<Rightarrow> locvar" where
  "loaded_locvar strings l =
     \<lparr>lv_varname = string_at strings (dl_name l), lv_startpc = dl_startpc l, lv_endpc = dl_endpc l, lv_reg = dl_reg l\<rparr>"

interpretation w_locvar: wire_codec
  "\<lambda>l. writeVarInt (ucast (dl_name l)) @ writeVarInt (ucast (dl_startpc l)) @ writeVarInt (ucast (dl_endpc l)) @ writeByte (dl_reg l)"
  "read_locvar strings" "loaded_locvar strings" "\<lambda>l. unat (dl_name l) \<le> length strings" for strings
  by unfold_locales (simp add: read_locvar_def readString_ref loaded_locvar_def string_at_def)

interpretation w_string: wire_codec "\<lambda>i :: u32. writeVarInt (ucast i)" "readString strings" "string_at strings"
  "\<lambda>i. unat i \<le> length strings" for strings
  by unfold_locales (simp add: readString_ref string_at_def)

interpretation w_slot: wire_codec "\<lambda>pc :: u32. writeByte 0 @ writeVarInt (ucast pc)" read_fbslot id "\<lambda>_. True"
  by unfold_locales (simp add: read_fbslot_def)

interpretation w_child: wire_codec "\<lambda>c :: u32. writeVarInt (ucast c)" "read_child np" unat "\<lambda>c. unat c < np" for np
  by unfold_locales (simp add: read_child_def)

lemma read_debuginfo_write:
  assumes "length locals < 2 ^ 31" "\<forall>l \<in> set locals. unat (dl_name l) \<le> length strings" "\<forall>u \<in> set upvals. unat u \<le> length strings"
    "(locals \<noteq> [] \<or> upvals \<noteq> []) \<longrightarrow> length upvals = unat nups"
  shows "read_debuginfo strings nups (write_debug locals upvals @ rest)
    = Some (map (loaded_locvar strings) locals, map (string_at strings) upvals, rest)"
proof (cases "locals \<noteq> [] \<or> upvals \<noteq> []")
  case True
  have n: "length upvals = unat nups" using assms(4) True by simp
  then have u: "length upvals < 2 ^ 31" using unsigned_less [of nups, where 'a = nat] by simp
  show ?thesis
    using True w_locvar.read_all [OF assms(2)] w_string.read_all [OF assms(3)] read_size_write [OF assms(1)] read_size_write [OF u] n
    by (simp add: read_debuginfo_def write_debug_def)
next
  case False
  then show ?thesis by (simp add: read_debuginfo_def write_debug_def)
qed

lemma version_flags:
  "getVersion fl \<ge> 4" "getVersion fl \<ge> 11 \<longleftrightarrow> LuauEmitCallFeedback fl \<or> sized_protos fl" "getVersion fl \<ge> 12 \<longleftrightarrow> sized_protos fl"
  "getVersion fl \<noteq> 0" "\<not> ((getVersion fl < 3 \<or> getVersion fl > 13) \<and> getVersion fl \<noteq> LBC_VERSION_CLASSES)"
  by (auto simp: getVersion_def)

lemma read_feedback_write:
  assumes "length slots < 2 ^ 32"
  shows "read_feedback (getVersion fl) (write_feedback fl slots @ rest) =
    Some (if LuauEmitCallFeedback fl then slots else [], rest)"
  using readVarInt_of_nat [OF assms] w_slot.read_all [of slots rest]
  by (auto simp: read_feedback_def write_feedback_def version_flags)

section \<open>Loaded constants by position\<close>

lemma load_values_frame:
  "length (load_values vm strings shapes classes cs j k) = length k \<and>
   (\<forall>i < j. load_values vm strings shapes classes cs j k ! i = k ! i)"
  by (induction cs arbitrary: j k) auto

lemma load_values_nth:
  assumes "i < length cs" "j + length cs \<le> length k"
  shows "\<exists>k'. load_values vm strings shapes classes cs j k ! (j + i) = const_value vm strings shapes classes k' (cs ! i)"
  using assms
proof (induction cs arbitrary: i j k)
  case (Cons c cs)
  let ?k = "k[j := const_value vm strings shapes classes k c]"
  show ?case
  proof (cases i)
    case 0
    have "load_values vm strings shapes classes (c # cs) j k ! j = ?k ! j"
      using load_values_frame [of vm strings shapes classes cs "j + 1" ?k] by simp
    then show ?thesis using 0 Cons.prems by auto
  next
    case (Suc i')
    then show ?thesis using Cons.IH [of i' "j + 1" ?k] Cons.prems by simp
  qed
qed simp

lemma loaded_constants_nth:
  assumes "i < length cs"
  shows "length (loaded_constants vm strings shapes classes cs) = length cs"
    "\<exists>k. loaded_constants vm strings shapes classes cs ! i = const_value vm strings shapes classes k (cs ! i)"
  using load_values_frame [of vm strings shapes classes cs 0 "replicate (length cs) TNil"]
    load_values_nth [OF assms, of 0 "replicate (length cs) TNil"] by (simp_all add: loaded_constants_def)

text \<open>Instructions whose auxiliary word names a string constant.\<close>

fun aux_wf :: "bconstant list \<Rightarrow> u32 list \<Rightarrow> bool" where
  "aux_wf cs [] = True"
| "aux_wf cs [insn] = (udata_target (LUAU_INSN_OP insn) = None)"
| "aux_wf cs (insn # aux # rest) =
     (if udata_target (LUAU_INSN_OP insn) \<noteq> None
      then unat aux < length cs \<and> (\<exists>i. i \<noteq> 0 \<and> cs ! unat aux = Type_String i) \<and> aux_wf cs rest
      else if getOpLength (LUAU_INSN_OP insn) = 2 then aux_wf cs rest else aux_wf cs (aux # rest))"

text \<open>The code after specialization, from the builder's constants.\<close>

fun specialized_code :: "(bytes \<Rightarrow> bool) \<Rightarrow> bytes list \<Rightarrow> bconstant list \<Rightarrow> u32 list \<Rightarrow> u32 list" where
  "specialized_code atom strings cs [] = []"
| "specialized_code atom strings cs [insn] = [insn]"
| "specialized_code atom strings cs (insn # aux # rest) =
     (case udata_target (LUAU_INSN_OP insn) of
        Some targetOp \<Rightarrow>
          (if aux < 0x10000 \<and> (case cs ! unat aux of Type_String i \<Rightarrow> atom (strings ! (unat i - 1)) | _ \<Rightarrow> False)
           then insn AND 0xffffff00 OR ucast targetOp else insn) # aux # specialized_code atom strings cs rest
      | None \<Rightarrow>
          if getOpLength (LUAU_INSN_OP insn) = 2 then insn # aux # specialized_code atom strings cs rest
          else insn # specialized_code atom strings cs (aux # rest))"

lemma rewrite_code_ok:
  assumes "aux_wf cs code" "length k = length cs"
    "\<And>i s. i < length cs \<Longrightarrow> cs ! i = Type_String s \<Longrightarrow> k ! i = TString (string_at strings s)"
  shows "rewrite_code vm k code = Some (specialized_code (vm_atom vm) strings cs code)"
  using assms
proof (induction cs code rule: aux_wf.induct)
  case (3 cs insn aux rest)
  show ?case
  proof (cases "udata_target (LUAU_INSN_OP insn)")
    case None
    then show ?thesis using 3 by (auto split: if_splits)
  next
    case (Some t)
    then obtain i where i: "unat aux < length cs" "i \<noteq> 0" "cs ! unat aux = Type_String i" "aux_wf cs rest" using 3(4) by auto
    have "k ! unat aux = TString (Some (strings ! (unat i - 1)))" using 3(6) [OF i(1,3)] i(2) by (simp add: string_at_def)
    then show ?thesis using 3 Some i by (simp add: specialize_def)
  qed
qed simp_all

section \<open>Functions\<close>

text \<open>
  A function the writer can serialize and the loader can read back: sizes fit the wire format,
  references point to existing strings, constants, earlier prototypes and shapes, and there is
  one line per instruction.
\<close>

definition fn_wf :: "bytes list \<Rightarrow> nat \<Rightarrow> builder \<Rightarrow> nat \<Rightarrow> bool" where
  "fn_wf strings np b ident \<longleftrightarrow> ident < length (b_functions b) \<and>
     length (typeinfo_blob (f_typeinfo (b_functions b ! ident)) (b_typedUpvals b) (b_typedLocals b)) < 2 ^ 32 \<and>
     (\<forall>l \<in> set (b_typedLocals b). tl_startpc l \<le> tl_endpc l) \<and>
     length (b_insns b) < 2 ^ 31 \<and> aux_wf (b_constants b) (b_insns b) \<and>
     length (b_constants b) < 2 ^ 31 \<and>
     (\<forall>j < length (b_constants b). const_wf (length strings) np (b_tableShapes b) (b_classShapes b) (b_constants b) j (b_constants b ! j)) \<and>
     length (b_protos b) < 2 ^ 31 \<and> (\<forall>c \<in> set (b_protos b). unat c < np) \<and>
     0 \<le> sint (f_debuglinedefined (b_functions b ! ident)) \<and> unat (f_debugname (b_functions b ! ident)) \<le> length strings \<and>
     b_lines b \<noteq> [] \<and> length (b_lines b) = length (b_insns b) \<and> (\<forall>l \<in> set (b_lines b). 0 \<le> l \<and> l < 2 ^ 31) \<and>
     length (b_debugLocals b) < 2 ^ 31 \<and> (\<forall>l \<in> set (b_debugLocals b). unat (dl_name l) \<le> length strings) \<and>
     (\<forall>u \<in> set (b_debugUpvals b). unat u \<le> length strings) \<and>
     (b_debugLocals b \<noteq> [] \<or> b_debugUpvals b \<noteq> [] \<longrightarrow> length (b_debugUpvals b) = unat (f_numupvalues (b_functions b ! ident))) \<and>
     length (b_fbSlots b) < 2 ^ 32"

text \<open>The prototype is the image of the builder's current function.\<close>

definition represents ::
    "vm_env \<Rightarrow> fflags \<Rightarrow> bytes list \<Rightarrow> u8 list \<Rightarrow> builder \<Rightarrow> nat \<Rightarrow> u8 \<Rightarrow> u64 \<Rightarrow> proto \<Rightarrow> bool" where
  "represents vm fl strings table b ident flags cost p \<longleftrightarrow>
     p_maxstacksize p = f_maxstacksize (b_functions b ! ident) \<and>
     p_numparams p = f_numparams (b_functions b ! ident) \<and>
     p_nups p = f_numupvalues (b_functions b ! ident) \<and>
     (p_is_vararg p \<noteq> 0 \<longleftrightarrow> f_isvararg (b_functions b ! ident)) \<and>
     p_flags p = flags \<and>
     p_typeinfo p = loaded_typeinfo table (f_typeinfo (b_functions b ! ident)) (b_typedUpvals b) (b_typedLocals b) \<and>
     p_code p = specialized_code (vm_atom vm) strings (b_constants b) (b_insns b) \<and>
     p_k p = loaded_constants vm strings (b_tableShapes b) (b_classShapes b) (b_constants b) \<and>
     p_p p = map unat (b_protos b) \<and>
     p_linedefined p = f_debuglinedefined (b_functions b ! ident) \<and>
     p_debugname p = string_at strings (f_debugname (b_functions b ! ident)) \<and>
     (\<forall>pc < length (b_insns b). luaG_getline (p_lineinfo p) pc = (if \<forall>l \<in> set (b_lines b). l \<noteq> 0 then b_lines b ! pc else 0)) \<and>
     p_locvars p = map (loaded_locvar strings) (b_debugLocals b) \<and>
     p_upvalues p = map (string_at strings) (b_debugUpvals b) \<and>
     p_feedback p = (if LuauEmitCallFeedback fl then b_fbSlots b else []) \<and>
     p_cost p = (if sized_protos fl \<and> flags AND 8 \<noteq> 0 then cost else 0)"

lemma write_constants_ok:
  assumes "\<forall>c \<in> set cs. \<exists>j. const_wf ns np shapes classes all j c"
  shows "\<exists>ss. write_constants fl shapes classes cs = Some ss"
  using assms
proof (induction cs)
  case (Cons c cs)
  have "\<exists>x. write_constant fl shapes classes c = Some x" using Cons.prems by (cases c) auto
  then show ?case using Cons by auto
qed simp

lemma write_lines_read:
  assumes "lines \<noteq> []" "\<forall>l \<in> set lines. 0 \<le> l \<and> l < 2 ^ 31"
  obtains ss li where "write_lines lines = Some ss" "\<And>rest. read_lines (length lines) (ss @ rest) = Some (li, rest)"
    "\<And>pc. pc < length lines \<Longrightarrow> luaG_getline li pc = (if \<forall>l \<in> set lines. l \<noteq> 0 then lines ! pc else 0)"
proof (cases "\<forall>l \<in> set lines. l \<noteq> 0")
  case True
  obtain ss li where r: "writeLineInfo lines = Some ss" "\<And>rest. readLineInfo (length lines) (ss @ rest) = Some (li, rest)"
    "\<And>pc. pc < length lines \<Longrightarrow> luaG_getline (Some li) pc = lines ! pc"
    using lineinfo_roundtrip [OF assms] by metis
  have "write_lines lines = Some (writeByte 1 @ ss)" using True r(1) by (simp add: write_lines_def)
  moreover have "read_lines (length lines) ((writeByte 1 @ ss) @ rest) = Some (Some li, rest)" for rest
    using r(2) by (simp add: read_lines_def)
  ultimately show ?thesis using that [of "writeByte 1 @ ss" "Some li"] r(3) True by simp
next
  case False
  then have w: "write_lines lines = Some (writeByte 0)" by (auto simp: write_lines_def)
  have r: "read_lines (length lines) (writeByte 0 @ rest) = Some (None, rest)" for rest by (simp add: read_lines_def)
  show ?thesis by (rule that [OF w r]) (simp only: False luaG_getline_def option.case if_False)
qed

lemma read_proto_write:
  assumes wf: "fn_wf strings np b ident"
  obtains ss p where "writeFunction fl b ident flags cost = Some ss" "represents vm fl strings table b ident flags cost p"
    "\<And>rest. read_proto vm (getVersion fl) 3 strings table np (ss @ rest) = Some (p, rest)"
proof -
  let ?f = "b_functions b ! ident" and ?cs = "b_constants b"
  note W = wf [unfolded fn_wf_def]
  have "\<exists>types. write_typeinfo (f_typeinfo ?f) (b_typedUpvals b) (b_typedLocals b) = Some types"
    using W by (simp add: write_typeinfo_def Let_def)
  then obtain types where types: "write_typeinfo (f_typeinfo ?f) (b_typedUpvals b) (b_typedLocals b) = Some types" ..
  have "\<exists>ks. write_constants fl (b_tableShapes b) (b_classShapes b) ?cs = Some ks"
    by (rule write_constants_ok [where ns = "length strings" and np = np and all = ?cs]) (use W in \<open>metis in_set_conv_nth\<close>)
  then obtain ks where ks: "write_constants fl (b_tableShapes b) (b_classShapes b) ?cs = Some ks" ..
  obtain ls li where ls: "write_lines (b_lines b) = Some ls" "\<And>rest. read_lines (length (b_lines b)) (ls @ rest) = Some (li, rest)"
    "\<And>pc. pc < length (b_lines b) \<Longrightarrow> luaG_getline li pc = (if \<forall>l \<in> set (b_lines b). l \<noteq> 0 then b_lines b ! pc else 0)"
    using write_lines_read [of "b_lines b"] W by metis
  define k where "k = loaded_constants vm strings (b_tableShapes b) (b_classShapes b) ?cs"
  have rk: "read_constants vm strings np (length ?cs) 0 (replicate (length ?cs) TNil) (ks @ rest) = Some (k, rest)" for rest
    unfolding k_def by (rule loaded_constants_read [OF ks]) (use W in blast)
  have lk: "length k = length ?cs" unfolding k_def loaded_constants_def using load_values_frame by (metis length_replicate)
  have code: "rewrite_code vm k (b_insns b) = Some (specialized_code (vm_atom vm) strings ?cs (b_insns b))"
  proof (rule rewrite_code_ok [OF _ lk])
    fix i s assume "i < length ?cs" "?cs ! i = Type_String s"
    then show "k ! i = TString (string_at strings s)" using loaded_constants_nth(2) [of i ?cs] unfolding k_def by fastforce
  qed (use W in blast)
  have rt: "read_typeinfo 3 n table (types @ rest) = Some (loaded_typeinfo table (f_typeinfo ?f) (b_typedUpvals b) (b_typedLocals b), rest)" for n rest
    by (rule read_typeinfo_write [OF types]) (use W in blast)
  have sizes: "read_size (write_size (b_insns b) @ rest) = Some (length (b_insns b), rest)"
    "read_size (write_size ?cs @ rest) = Some (length ?cs, rest)"
    "read_size (write_size (b_protos b) @ rest) = Some (length (b_protos b), rest)" for rest
    using W by (simp_all only: read_size_write)
  have insns: "read_n (length (b_insns b)) read_u32 (concat (map writeInt (b_insns b)) @ rest) = Some (b_insns b, rest)" for rest
    using w_u32.read_all [of "b_insns b" rest] by simp
  have protos: "read_n (length (b_protos b)) (read_child np) (concat (map (\<lambda>c. writeVarInt (ucast c)) (b_protos b)) @ rest) = Some (map unat (b_protos b), rest)" for rest
    by (rule w_child.read_all) (use W in blast)
  have dbg: "read_debuginfo strings (f_numupvalues ?f) (write_debug (b_debugLocals b) (b_debugUpvals b) @ rest) =
      Some (map (loaded_locvar strings) (b_debugLocals b), map (string_at strings) (b_debugUpvals b), rest)" for rest
    by (rule read_debuginfo_write) (use W in blast)+
  have name: "readString strings (writeVarInt (ucast (f_debugname ?f)) @ rest) = Some (string_at strings (f_debugname ?f), rest)" for rest
    using readString_ref [of "f_debugname ?f" strings rest] W by (simp add: string_at_def)
  have ld: "readVarInt (writeVarInt (scast (f_debuglinedefined ?f)) @ rest) = Some (f_debuglinedefined ?f, rest)" for rest
    by (rule readVarInt_scast) (use W in blast)
  have fb: "read_feedback (getVersion fl) (write_feedback fl (b_fbSlots b) @ rest) = Some (if LuauEmitCallFeedback fl then b_fbSlots b else [], rest)" for rest
    by (rule read_feedback_write) (use W in blast)
  define ss where "ss = writeByte (f_maxstacksize ?f) @ writeByte (f_numparams ?f) @ writeByte (f_numupvalues ?f) @
    writeByte (if f_isvararg ?f then 1 else 0) @ writeByte flags @ types @ write_size (b_insns b) @ concat (map writeInt (b_insns b)) @
    write_size ?cs @ ks @ write_size (b_protos b) @ concat (map (\<lambda>c. writeVarInt (ucast c)) (b_protos b)) @
    writeVarInt (scast (f_debuglinedefined ?f)) @ writeVarInt (ucast (f_debugname ?f)) @ ls @
    write_debug (b_debugLocals b) (b_debugUpvals b) @ write_feedback fl (b_fbSlots b) @ write_cost fl flags cost"
  define p where "p = \<lparr>p_maxstacksize = f_maxstacksize ?f, p_numparams = f_numparams ?f, p_nups = f_numupvalues ?f,
    p_is_vararg = (if f_isvararg ?f then 1 else 0), p_flags = flags,
    p_typeinfo = loaded_typeinfo table (f_typeinfo ?f) (b_typedUpvals b) (b_typedLocals b),
    p_code = specialized_code (vm_atom vm) strings ?cs (b_insns b), p_k = k, p_p = map unat (b_protos b),
    p_linedefined = f_debuglinedefined ?f, p_debugname = string_at strings (f_debugname ?f), p_lineinfo = li,
    p_locvars = map (loaded_locvar strings) (b_debugLocals b), p_upvalues = map (string_at strings) (b_debugUpvals b),
    p_feedback = (if LuauEmitCallFeedback fl then b_fbSlots b else []),
    p_cost = (if sized_protos fl \<and> flags AND 8 \<noteq> 0 then cost else 0)\<rparr>"
  have w: "writeFunction fl b ident flags cost = Some ss"
    using W types ks ls(1) unfolding writeFunction_def ss_def by (simp add: Let_def)
  have ln: "length (b_lines b) = length (b_insns b)" using W by blast
  have r: "represents vm fl strings table b ident flags cost p"
    using ls(3) unfolding ln by (simp add: represents_def p_def k_def)
  have "read_proto vm (getVersion fl) 3 strings table np (ss @ rest) = Some (p, rest)" for rest
    unfolding ss_def read_proto_def
    by (simp add: version_flags rt sizes insns rk code protos ld name ls(2) [unfolded ln] dbg fb p_def write_cost_def)
  then show ?thesis using that [OF w r] by blast
qed

section \<open>Userdata types\<close>

definition named_ok :: "bytes list \<Rightarrow> userdata_type \<Rightarrow> bool" where
  "named_ok strings ty \<longleftrightarrow> (ut_used ty \<longrightarrow> 0 < unat (ut_nameRef ty) \<and> unat (ut_nameRef ty) \<le> length strings \<and>
     strings ! (unat (ut_nameRef ty) - 1) = ut_name ty)"

lemma named_ok_append: "named_ok strings ty \<Longrightarrow> named_ok (strings @ ext) ty"
  by (auto simp: named_ok_def nth_append)

lemma name_userdata_spec:
  assumes "st_inv (b_stringTable b)" "length (b_stringTable b) + length tys < 2 ^ 32"
  shows "\<exists>tys' ext. name_userdata tys b = (tys', b\<lparr>b_stringTable := b_stringTable b @ ext\<rparr>) \<and> st_inv (b_stringTable b @ ext) \<and>
    length ext \<le> length tys \<and> set (map fst ext) \<subseteq> ut_name ` set tys \<and>
    map ut_name tys' = map ut_name tys \<and> map ut_used tys' = map ut_used tys \<and>
    (\<forall>ty \<in> set tys'. named_ok (map fst (b_stringTable b @ ext)) ty)"
  using assms
proof (induction tys arbitrary: b)
  case Nil
  then show ?case by (intro exI [of _ "[]"]) simp
next
  case (Cons ty tys)
  show ?case
  proof (cases "ut_used ty")
    case True
    have "Suc (length (b_stringTable b)) < 2 ^ 32" using Cons.prems(2) by simp
    then obtain idx ext where a: "addStringTableEntry (ut_name ty) b = (idx, b\<lparr>b_stringTable := b_stringTable b @ ext\<rparr>)" "length ext \<le> 1"
      "st_inv (b_stringTable b @ ext)" "0 < unat idx" "unat idx \<le> length (b_stringTable b @ ext)"
      "fst ((b_stringTable b @ ext) ! (unat idx - 1)) = ut_name ty" "set (map fst ext) \<subseteq> {ut_name ty}"
      using addStringTableEntry_spec [OF Cons.prems(1), of "ut_name ty"] by metis
    let ?b = "b\<lparr>b_stringTable := b_stringTable b @ ext\<rparr>"
    obtain tys' ext' where r: "name_userdata tys ?b = (tys', ?b\<lparr>b_stringTable := (b_stringTable b @ ext) @ ext'\<rparr>)"
      "st_inv ((b_stringTable b @ ext) @ ext')" "length ext' \<le> length tys" "set (map fst ext') \<subseteq> ut_name ` set tys"
      "map ut_name tys' = map ut_name tys" "map ut_used tys' = map ut_used tys"
      "\<forall>ty \<in> set tys'. named_ok (map fst ((b_stringTable b @ ext) @ ext')) ty"
      using Cons.IH [of ?b] a(2,3) Cons.prems(2) by auto
    have n: "name_userdata (ty # tys) b = (ty\<lparr>ut_nameRef := idx\<rparr> # tys', b\<lparr>b_stringTable := b_stringTable b @ ext @ ext'\<rparr>)"
      using True a(1) r(1) by simp
    have "unat idx - 1 < length (map fst (b_stringTable b @ ext))" using a(4,5) unfolding length_map by linarith
    then have "map fst (b_stringTable b @ ext) ! (unat idx - 1) = ut_name ty" using a(6) by (simp only: nth_map length_map)
    then have "named_ok (map fst (b_stringTable b @ ext)) (ty\<lparr>ut_nameRef := idx\<rparr>)" using a(4,5) by (simp add: named_ok_def)
    from named_ok_append [OF this, of "map fst ext'"] have "named_ok (map fst (b_stringTable b @ ext @ ext')) (ty\<lparr>ut_nameRef := idx\<rparr>)" by simp
    then show ?thesis
      using n r(2-) a(2,7) by (intro exI [of _ "ty\<lparr>ut_nameRef := idx\<rparr> # tys'"] exI [of _ "ext @ ext'"]) auto
  next
    case False
    obtain tys' ext where "name_userdata tys b = (tys', b\<lparr>b_stringTable := b_stringTable b @ ext\<rparr>)" "st_inv (b_stringTable b @ ext)"
      "length ext \<le> length tys" "set (map fst ext) \<subseteq> ut_name ` set tys" "map ut_name tys' = map ut_name tys" "map ut_used tys' = map ut_used tys"
      "\<forall>ty \<in> set tys'. named_ok (map fst (b_stringTable b @ ext)) ty"
      using Cons.IH [of b] Cons.prems by auto
    then show ?thesis using False by (intro exI [of _ "ty # tys'"] exI [of _ ext]) (auto simp: named_ok_def)
  qed
qed

text \<open>The remapping table the loader builds from the used userdata types.\<close>

fun remap_table :: "(bytes \<Rightarrow> u8) option \<Rightarrow> userdata_type list \<Rightarrow> nat \<Rightarrow> u8 list \<Rightarrow> u8 list" where
  "remap_table typemap [] i table = table"
| "remap_table typemap (ty # tys) i table =
     remap_table typemap tys (i + 1)
       (if ut_used ty \<and> i < 32 \<and> typemap \<noteq> None then table[i := the typemap (ut_name ty)] else table)"

lemma remap_table_names:
  "map ut_name tys' = map ut_name tys \<Longrightarrow> map ut_used tys' = map ut_used tys \<Longrightarrow> remap_table tm tys' i table = remap_table tm tys i table"
proof (induction tys arbitrary: tys' i table)
  case (Cons ty tys)
  then obtain ty' tys'' where t: "tys' = ty' # tys''" by (cases tys') auto
  then show ?case using Cons.IH [of tys''] Cons.prems by (cases tm) simp_all
qed simp

lemma read_remapping_write:
  assumes "\<forall>ty \<in> set tys. named_ok strings ty" "i + length tys \<le> 255" "length (filter ut_used tys) < fuel"
  shows "read_remapping fuel tm strings table
    (concat (map (\<lambda>(i, ty). if ut_used ty then writeByte (of_nat (i + 1)) @ writeVarInt (ucast (ut_nameRef ty)) else []) (enumerate i tys)) @
      writeByte 0 @ rest) = Some (remap_table tm tys i table, rest)"
  using assms
proof (induction tys arbitrary: i fuel table)
  case Nil
  then show ?case by (cases fuel) auto
next
  case (Cons ty tys)
  obtain f where f: "fuel = Suc f" using Cons.prems(3) by (cases fuel) auto
  show ?case
  proof (cases "ut_used ty")
    case True
    have ok: "0 < unat (ut_nameRef ty)" "unat (ut_nameRef ty) \<le> length strings" "strings ! (unat (ut_nameRef ty) - 1) = ut_name ty"
      using Cons.prems(1) True by (auto simp: named_ok_def)
    have i: "unat (of_nat (i + 1) :: u8) = i + 1" using Cons.prems(2) by (intro unat_of_nat_small(2)) simp
    then have i0: "(of_nat (i + 1) :: u8) \<noteq> 0" by (metis add_is_0 one_neq_zero unat_0)
    have rs: "readString strings (writeVarInt (ucast (ut_nameRef ty)) @ d) = Some (Some (ut_name ty), d)" for d
      using readString_ref [OF ok(2), of d] ok by (simp split: if_splits)
    have IH: "read_remapping f tm strings table'
      (concat (map (\<lambda>(i, ty). if ut_used ty then writeByte (of_nat (i + 1)) @ writeVarInt (ucast (ut_nameRef ty)) else []) (enumerate (Suc i) tys)) @
        writeByte 0 @ rest) = Some (remap_table tm tys (Suc i) table', rest)" for table'
      using Cons.IH [of "Suc i" f table'] Cons.prems f True by simp
    show ?thesis
      unfolding f enumerate_simps list.map concat.simps append_assoc prod.case if_P [OF True]
      unfolding read_remapping.simps
      using i i0 rs IH True by (cases tm) (simp_all del: of_nat_add of_nat_Suc)
  next
    case False
    then show ?thesis using Cons.IH [of "Suc i" fuel table] Cons.prems by simp
  qed
qed

lemma length_write_userdata: "length (filter ut_used tys) < length (write_userdata tys)"
proof -
  have "length (filter ut_used tys) \<le> length (concat (map (\<lambda>(i, ty). if ut_used ty then writeByte (of_nat (i + 1)) @ writeVarInt (ucast (ut_nameRef ty)) else [])
       (enumerate i tys)))" for i
    by (induction tys arbitrary: i) (auto simp: writeByte_def trans_le_add2)
  then show ?thesis by (simp add: write_userdata_def writeByte_def less_Suc_eq_le)
qed

section \<open>Modules\<close>

lemma const_wf_mono: "const_wf ns np shapes classes cs j c \<Longrightarrow> ns \<le> ns' \<Longrightarrow> const_wf ns' np shapes classes cs j c"
  by (cases c) auto

lemma fn_wf_mono: "fn_wf strings np b i \<Longrightarrow> length strings \<le> length strings' \<Longrightarrow> fn_wf strings' np b i"
  unfolding fn_wf_def using const_wf_mono [of "length strings" _ _ _ _ _ _ "length strings'"] by (auto intro: order_trans)

text \<open>
  \<open>snaps\<close> holds, for every function of the module, the builder state \<open>endFunction\<close> serialized it
  from, with its flags and cost.
\<close>

definition module_wf :: "fflags \<Rightarrow> builder \<Rightarrow> (builder \<times> u8 \<times> u64) list \<Rightarrow> bool" where
  "module_wf fl b snaps \<longleftrightarrow>
     b_bytecode b = [] \<and> st_inv (b_stringTable b) \<and> length (b_stringTable b) + length (b_userdataTypes b) < 2 ^ 32 \<and>
     (\<forall>s \<in> set (map fst (b_stringTable b)). length s < 2 ^ 32) \<and>
     (\<forall>ty \<in> set (b_userdataTypes b). length (ut_name ty) < 2 ^ 32) \<and> length (b_userdataTypes b) \<le> 255 \<and>
     length (b_functions b) < 2 ^ 32 \<and> length snaps = length (b_functions b) \<and>
     (\<forall>i < length snaps. case snaps ! i of (bi, flags, cost) \<Rightarrow>
        fn_wf (map fst (b_stringTable b)) i bi i \<and>
        writeFunction fl bi i flags cost = Some (f_data (b_functions b ! i)) \<and> length (f_data (b_functions b ! i)) < 2 ^ 32)"

lemma read_protos_write:
  assumes "\<And>j. j < length fs \<Longrightarrow> \<exists>p. P (i + j) p \<and> length (f_data (fs ! j)) < 2 ^ 32 \<and>
      (\<forall>rest. read_proto vm (getVersion fl) 3 strings table (i + j) (f_data (fs ! j) @ rest) = Some (p, rest))"
  shows "\<exists>ps. length ps = length fs \<and> (\<forall>j < length fs. P (i + j) (ps ! j)) \<and>
    (\<forall>rest. read_protos vm (getVersion fl) 3 strings table (length fs) i
      (concat (map (\<lambda>func. (if sized_protos fl then writeVarInt (of_nat (length (f_data func))) else []) @ f_data func) fs) @ rest) = Some (ps, rest))"
  using assms
proof (induction fs arbitrary: i)
  case (Cons f fs)
  obtain p where p: "P i p" "length (f_data f) < 2 ^ 32" "\<And>rest. read_proto vm (getVersion fl) 3 strings table i (f_data f @ rest) = Some (p, rest)"
    using Cons.prems [of 0] by auto
  have "\<exists>ps. length ps = length fs \<and> (\<forall>j < length fs. P (i + 1 + j) (ps ! j)) \<and>
    (\<forall>rest. read_protos vm (getVersion fl) 3 strings table (length fs) (i + 1)
      (concat (map (\<lambda>func. (if sized_protos fl then writeVarInt (of_nat (length (f_data func))) else []) @ f_data func) fs) @ rest) = Some (ps, rest))"
    by (rule Cons.IH) (use Cons.prems [of "Suc _"] in auto)
  then obtain ps where ps: "length ps = length fs" "\<forall>j < length fs. P (i + 1 + j) (ps ! j)"
    "\<And>rest. read_protos vm (getVersion fl) 3 strings table (length fs) (i + 1)
      (concat (map (\<lambda>func. (if sized_protos fl then writeVarInt (of_nat (length (f_data func))) else []) @ f_data func) fs) @ rest) = Some (ps, rest)"
    by blast
  note n = readVarInt_of_nat [OF p(2)]
  have "read_protos vm (getVersion fl) 3 strings table (length (f # fs)) i
      (concat (map (\<lambda>func. (if sized_protos fl then writeVarInt (of_nat (length (f_data func))) else []) @ f_data func) (f # fs)) @ rest) = Some (p # ps, rest)" for rest
    using ps(3) p(3) n by (cases "sized_protos fl") (auto simp: version_flags)
  moreover have "\<forall>j < length (f # fs). P (i + j) ((p # ps) ! j)"
    using ps(2) p(1) by (auto simp: nth_Cons split: nat.splits)
  ultimately show ?case using ps(1) by (intro exI [of _ "p # ps"]) simp
qed simp

section \<open>Properties\<close>

text \<open>
  C1. Bytecode round trip: for a module whose functions were serialized by \<open>writeFunction\<close> from
  well-formed builder states, \<open>finalize\<close> succeeds for every setting of the feature flags, and the
  VM's \<open>loadsafe\<close> accepts its output and returns one prototype per function that represents the
  builder state it came from (header bytes, remapped type information, instructions, constants
  with all table, closure, import and class constants resolved, child prototypes, line numbers,
  local and upvalue names, feedback slots and cost), with the main function's index.
\<close>

theorem bytecode_module_roundtrip:
  assumes wf: "module_wf fl b snaps" and main: "b_mainFunction b = Some main" "main < length (b_functions b)"
  shows "\<exists>b' protos. finalize fl b = Some b' \<and> loadsafe vm (b_bytecode b') = Some (Inr (protos, main)) \<and>
    length protos = length (b_functions b) \<and>
    (\<forall>i < length protos. case snaps ! i of (bi, flags, cost) \<Rightarrow>
       represents vm fl (map fst (b_stringTable b'))
         (remap_table (vm_typemap vm) (b_userdataTypes b) 0 (replicate 32 LBC_TYPE_USERDATA)) bi i flags cost (protos ! i))"
proof -
  note W = wf [unfolded module_wf_def]
  obtain tys ext where n: "name_userdata (b_userdataTypes b) b = (tys, b\<lparr>b_stringTable := b_stringTable b @ ext\<rparr>)"
    "st_inv (b_stringTable b @ ext)" "length ext \<le> length (b_userdataTypes b)" "set (map fst ext) \<subseteq> ut_name ` set (b_userdataTypes b)"
    "map ut_name tys = map ut_name (b_userdataTypes b)" "map ut_used tys = map ut_used (b_userdataTypes b)"
    "\<forall>ty \<in> set tys. named_ok (map fst (b_stringTable b @ ext)) ty"
    using name_userdata_spec [of b "b_userdataTypes b"] W by blast
  define strings where "strings = map fst (b_stringTable b @ ext)"
  define table where "table = remap_table (vm_typemap vm) (b_userdataTypes b) 0 (replicate 32 LBC_TYPE_USERDATA)"
  define b2 where "b2 = b\<lparr>b_stringTable := b_stringTable b @ ext, b_userdataTypes := tys\<rparr>"
  have "\<forall>s \<in> set (map fst (b_stringTable b @ ext)). length s < 2 ^ 32" using W n(4) by auto
  from writeStringTable_read [OF n(2) this] obtain st where st: "writeStringTable (b_stringTable b @ ext) = Some st"
    "\<And>rest. (do { (n, data) \<leftarrow> readVarInt (st @ rest); read_strings (unat n) data }) = Some (strings, rest)"
    unfolding strings_def by metis
  let ?fs = "concat (map (\<lambda>func. (if sized_protos fl then writeVarInt (of_nat (length (f_data func))) else []) @ f_data func) (b_functions b))"
  have lt: "length tys = length (b_userdataTypes b)" using n(5) by (metis length_map)
  define out where "out = writeByte (getVersion fl) @ writeByte getTypeEncodingVersion @ st @ write_userdata tys @
    write_size (b_functions b) @ ?fs @ writeVarInt (of_nat main)"
  have fin: "finalize fl b = Some (b2\<lparr>b_bytecode := out\<rparr>)"
    using W n(1) st(1) main by (simp add: finalize_def b2_def out_def)
  let ?P = "\<lambda>i p. case snaps ! i of (bi, flags, cost) \<Rightarrow> represents vm fl strings table bi i flags cost p"
  have "\<exists>p. ?P (0 + j) p \<and> length (f_data (b_functions b ! j)) < 2 ^ 32 \<and>
      (\<forall>rest. read_proto vm (getVersion fl) 3 strings table (0 + j) (f_data (b_functions b ! j) @ rest) = Some (p, rest))"
    if j: "j < length (b_functions b)" for j
  proof -
    obtain bj flags cost where sj: "snaps ! j = (bj, flags, cost)" by (cases "snaps ! j")
    then have w: "fn_wf (map fst (b_stringTable b)) j bj j" "writeFunction fl bj j flags cost = Some (f_data (b_functions b ! j))"
      "length (f_data (b_functions b ! j)) < 2 ^ 32" using W j by fastforce+
    have "fn_wf strings j bj j" by (rule fn_wf_mono [OF w(1)]) (simp add: strings_def)
    from read_proto_write [OF this, of fl flags cost vm table] w(2,3) sj show ?thesis by fastforce
  qed
  from read_protos_write [where P = ?P and i = 0, OF this] obtain ps where ps: "length ps = length (b_functions b)"
    "\<forall>j < length (b_functions b). ?P j (ps ! j)"
    "\<And>rest. read_protos vm (getVersion fl) 3 strings table (length (b_functions b)) 0 (?fs @ rest) = Some (ps, rest)" by auto
  have un: "unat (of_nat (length (b_functions b)) :: u32) = length (b_functions b)" "unat (of_nat main :: u32) = main"
    using W main(2) by (auto intro: unat_of_nat_small(1))
  have m: "readVarInt (writeVarInt (of_nat main) @ []) = Some (of_nat main, [])" by (rule readVarInt_of_nat) (use W main(2) in linarith)
  let ?rest = "write_size (b_functions b) @ ?fs @ writeVarInt (of_nat main)"
  have rm: "read_remapping (length (write_userdata tys @ ?rest)) (vm_typemap vm) strings (replicate 32 LBC_TYPE_USERDATA) (write_userdata tys @ ?rest) = Some (table, ?rest)"
    using read_remapping_write [of tys strings 0 "length (write_userdata tys @ ?rest)" "vm_typemap vm" "replicate 32 LBC_TYPE_USERDATA" ?rest]
      n(7) [folded strings_def] lt W length_write_userdata [of tys] remap_table_names [OF n(5,6)]
    by (simp add: write_userdata_def table_def)
  let ?data = "write_userdata tys @ ?rest"
  obtain sn sd where sd: "readVarInt (st @ ?data) = Some (sn, sd)" "read_strings (unat sn) sd = Some (strings, ?data)"
    using st(2) [of ?data] by (auto simp: bind_eq_Some_conv)
  have "loadsafe vm out = Some (Inr (ps, main))"
    unfolding loadsafe_def out_def
    using version_flags [of fl] sd rm ps(1,3) m un main(2)
    by (simp add: getTypeEncodingVersion_def)
  then show ?thesis using fin ps by (intro exI [of _ "b2\<lparr>b_bytecode := out\<rparr>"] exI [of _ ps]) (simp add: b2_def strings_def table_def)
qed

text \<open>A one-instruction function (\<open>return\<close>) with a string constant.\<close>

definition demo_flags :: fflags where
  "demo_flags = \<lparr>LuauEmitCallFeedback = False, LuauBytecodeCostModel = True, LuauCompileEmitVectorDouble = False,
     DebugLuauUserDefinedClasses = False\<rparr>"

definition demo_state :: builder where
  "demo_state = builder_new\<lparr>
     b_functions := [\<lparr>f_data = [], f_maxstacksize = 2, f_numparams = 0, f_numupvalues = 0, f_isvararg = True,
                      f_debugname = 1, f_debuglinedefined = 1, f_typeinfo = []\<rparr>],
     b_insns := [insn_ABC LOP_RETURN 0 1 0], b_lines := [0], b_constants := [Type_String 1],
     b_stringTable := [([104, 105], 1)], b_mainFunction := Some 0\<rparr>"

definition demo_module :: builder where
  "demo_module = demo_state\<lparr>b_functions := map (\<lambda>f. f\<lparr>f_data := the (writeFunction demo_flags demo_state 0 0 0)\<rparr>) (b_functions demo_state),
     b_insns := [], b_lines := [], b_constants := []\<rparr>"

lemma demo_wf: "module_wf demo_flags demo_module [(demo_state, 0, 0)]"
proof -
  have op: "LUAU_INSN_OP (insn_ABC LOP_RETURN 0 1 0) = LOP_RETURN" by (rule insn_op)
  have v: "writeVarInt 0 = [0]" "writeVarInt 1 = [1]" by (simp_all add: writeVarInt_small)
  have w: "writeFunction demo_flags demo_state 0 0 0 = Some (the (writeFunction demo_flags demo_state 0 0 0))"
    "length (the (writeFunction demo_flags demo_state 0 0 0)) = 20"
    by (simp_all add: writeFunction_def demo_state_def builder_new_def demo_flags_def write_typeinfo_def write_lines_def writeByte_def
        write_debug_def write_feedback_def write_cost_def v writeInt_def eval_nat_numeral Let_def)
  have f: "fn_wf (map fst (b_stringTable demo_module)) 0 demo_state 0"
    by (simp add: fn_wf_def demo_state_def demo_module_def builder_new_def op udata_target_def typeinfo_blob_def v)
  show ?thesis using w f
    by (simp add: module_wf_def demo_module_def) (simp add: demo_state_def builder_new_def st_inv_def)
qed

theorem bytecode_module_roundtrip_witness:
  "\<exists>b' protos. finalize demo_flags demo_module = Some b' \<and>
     loadsafe \<lparr>vm_import = \<lambda>_ _. TNil, vm_atom = \<lambda>_. False, vm_typemap = None\<rparr> (b_bytecode b') = Some (Inr (protos, 0)) \<and>
     length protos = 1"
  using bytecode_module_roundtrip [OF demo_wf, of 0 "\<lparr>vm_import = \<lambda>_ _. TNil, vm_atom = \<lambda>_. False, vm_typemap = None\<rparr>"]
  by (auto simp: demo_module_def demo_state_def builder_new_def)

end
