(* ===== verification/Jumps.thy ===== *)
theory Jumps
  imports BytecodeBuilder
begin

text \<open>
  The two passes over the jumps of a finished function in \<^verbatim>\<open>Bytecode/src/BytecodeBuilder.cpp\<close>:
  \<open>foldJumps\<close> shortens chains of jumps, and \<open>expandJumps\<close> gives every jump whose distance may not
  fit into 16 bits a trampoline. The properties relate the control flow of the code before and
  after. A failed assertion and an access outside a vector are the result \<open>None\<close>.
\<close>

section \<open>Folding\<close>

definition set_D :: "u32 \<Rightarrow> int \<Rightarrow> u32" where
  "set_D insn offset = insn AND 0xffff OR push_bit 16 (ucast (of_int offset :: u16))"

definition set_E :: "u32 \<Rightarrow> int \<Rightarrow> u32" where
  "set_E insn offset = insn AND 0xff OR push_bit 8 (of_int offset)"

abbreviation int16 :: "int \<Rightarrow> bool" where
  "int16 offset \<equiv> - (2 ^ 15) \<le> offset \<and> offset < 2 ^ 15"

function fold_target :: "u32 list \<Rightarrow> nat \<Rightarrow> nat option" where
  "fold_target insns targetLabel =
     (if \<not> targetLabel < length insns then None
      else let targetInsn = insns ! targetLabel
           in if LUAU_INSN_OP targetInsn = LOP_JUMP \<and> LUAU_INSN_D targetInsn \<ge> 0
              then fold_target insns (targetLabel + 1 + nat (LUAU_INSN_D targetInsn))
              else Some targetLabel)"
  by pat_completeness auto
termination
  by (relation "measure (\<lambda>(insns, targetLabel). length insns - targetLabel)") auto

declare fold_target.simps [simp del]

text \<open>A negative target wraps around to an unsigned number that fails the assertion on its range.\<close>

definition fold_jump :: "nat \<times> nat \<Rightarrow> u32 list \<Rightarrow> ((nat \<times> nat) \<times> u32 list) option" where
  "fold_jump jump insns =
     (let jumpLabel = fst jump; jumpInsn = insns ! jumpLabel;
          first = int jumpLabel + 1 + LUAU_INSN_D jumpInsn
      in if \<not> jumpLabel < length insns \<or> first < 0 then None
         else case fold_target insns (nat first) of
           None \<Rightarrow> None
         | Some targetLabel \<Rightarrow>
             let targetInsn = insns ! targetLabel; offset = int targetLabel - int jumpLabel - 1
             in Some ((jumpLabel, targetLabel),
                  if LUAU_INSN_OP jumpInsn = LOP_JUMP \<and> LUAU_INSN_OP targetInsn = LOP_RETURN then insns[jumpLabel := targetInsn]
                  else if int16 offset then insns[jumpLabel := set_D jumpInsn offset]
                  else insns))"

fun fold_jump_list :: "(nat \<times> nat) list \<Rightarrow> u32 list \<Rightarrow> ((nat \<times> nat) list \<times> u32 list) option" where
  "fold_jump_list [] insns = Some ([], insns)"
| "fold_jump_list (jump # jumps) insns =
     (case fold_jump jump insns of
        None \<Rightarrow> None
      | Some (jump', insns') \<Rightarrow> map_option (\<lambda>(jumps', insns''). (jump' # jumps', insns'')) (fold_jump_list jumps insns'))"

definition foldJumps :: "builder \<Rightarrow> builder option" where
  "foldJumps b =
     (if b_hasLongJumps b then Some b
      else map_option (\<lambda>(jumps, insns). b\<lparr>b_jumps := jumps, b_insns := insns\<rparr>) (fold_jump_list (b_jumps b) (b_insns b)))"

section \<open>Expansion\<close>

definition LOP__COUNT :: u8 where
  "LOP__COUNT = 90"

definition kMaxJumpDistanceConservative :: int where
  "kMaxJumpDistanceConservative = 32767 div 3"

definition jump_offset :: "nat \<times> nat \<Rightarrow> int" where
  "jump_offset jump = int (snd jump) - int (fst jump) - 1"

definition is_long :: "nat \<times> nat \<Rightarrow> bool" where
  "is_long jump \<longleftrightarrow> abs (jump_offset jump) > kMaxJumpDistanceConservative"

text \<open>The new instruction buffers, the remap table and the number of trampolines added.\<close>

record expansion =
  x_insns :: "u32 list"
  x_lines :: "int list"
  x_remap :: "nat list"
  x_pending :: nat

definition add_trampoline :: "int \<Rightarrow> expansion \<Rightarrow> expansion" where
  "add_trampoline line x = x\<lparr>x_insns := x_insns x @ [ucast LOP_JUMP OR push_bit 16 1, ucast LOP_JUMPX],
     x_lines := x_lines x @ [line, line], x_pending := x_pending x + 1\<rparr>"

definition copy_word :: "u32 list \<Rightarrow> int list \<Rightarrow> nat \<Rightarrow> expansion \<Rightarrow> expansion" where
  "copy_word insns lines i x = x\<lparr>x_remap := x_remap x @ [length (x_insns x)], x_insns := x_insns x @ [insns ! i],
     x_lines := x_lines x @ [lines ! i]\<rparr>"

text \<open>One turn of the loop: the next position, the jumps left and the buffers.\<close>

definition expand_step :: "u32 list \<Rightarrow> int list \<Rightarrow> nat \<Rightarrow> (nat \<times> nat) list \<Rightarrow> expansion \<Rightarrow> (nat \<times> (nat \<times> nat) list \<times> expansion) option" where
  "expand_step insns lines i jumps x =
     (let op = LUAU_INSN_OP (insns ! i); oplen = getOpLength op
      in if \<not> op < LOP__COUNT \<or> \<not> i + oplen \<le> length insns then None
         else let (jumps', x1) = (case jumps of
                    [] \<Rightarrow> (jumps, x)
                  | j # js \<Rightarrow> if fst j = i then (js, if is_long j then add_trampoline (lines ! i) x else x) else (jumps, x))
              in Some (i + oplen, jumps', fold (copy_word insns lines) [i..<i + oplen] x1))"

lemma getOpLength_pos: "0 < getOpLength op"
  by (simp add: getOpLength_def)

lemma expand_step_next: "expand_step insns lines i jumps x = Some (i', jumps', x') \<Longrightarrow> i < i'"
  using getOpLength_pos by (auto simp: expand_step_def Let_def split: if_splits prod.splits)

function expand_loop :: "u32 list \<Rightarrow> int list \<Rightarrow> nat \<Rightarrow> (nat \<times> nat) list \<Rightarrow> expansion \<Rightarrow> ((nat \<times> nat) list \<times> expansion) option" where
  "expand_loop insns lines i jumps x =
     (if i < length insns then
        (case expand_step insns lines i jumps x of
           None \<Rightarrow> None
         | Some (i', jumps', x') \<Rightarrow> expand_loop insns lines i' jumps' x')
      else Some (jumps, x))"
  by pat_completeness auto
termination
  by (relation "measure (\<lambda>(insns, lines, i, jumps, x). length insns - i)") (auto dest: expand_step_next)

declare expand_loop.simps [simp del]

text \<open>The second pass, one jump.\<close>

definition patch_jump :: "nat list \<Rightarrow> nat \<times> nat \<Rightarrow> u32 list \<times> nat \<Rightarrow> (u32 list \<times> nat) option" where
  "patch_jump remap jump st =
     (let insns = fst st; pending = snd st in
      if \<not> fst jump < length remap \<or> \<not> snd jump < length remap then None
      else let src = remap ! fst jump; offset = jump_offset jump; newoffset = int (remap ! snd jump) - int src - 1
      in if \<not> src < length insns then None
         else if is_long jump
         then (if src = 0 \<or> LUAU_INSN_OP (insns ! (src - 1)) \<noteq> LOP_JUMPX \<or> pending = 0 then None
               else Some (insns[src - 1 := set_E (insns ! (src - 1)) (newoffset + 1), src := set_D (insns ! src) (- 2)], pending - 1))
         else if LUAU_INSN_D (insns ! src) \<noteq> offset \<or> \<not> int16 newoffset then None
         else Some (insns[src := set_D (insns ! src) newoffset], pending))"

fun patch_jumps :: "nat list \<Rightarrow> (nat \<times> nat) list \<Rightarrow> u32 list \<times> nat \<Rightarrow> (u32 list \<times> nat) option" where
  "patch_jumps remap [] st = Some st"
| "patch_jumps remap (jump # jumps) st = Option.bind (patch_jump remap jump st) (patch_jumps remap jumps)"

text \<open>The range of a local; an end of zero with a different start reads the table at \<open>2 ^ 32 - 1\<close>.\<close>

definition remap_range :: "nat list \<Rightarrow> u32 \<Rightarrow> u32 \<Rightarrow> (u32 \<times> u32) option" where
  "remap_range remap startpc endpc =
     (let e = unat (if startpc \<noteq> endpc then endpc - 1 else endpc)
      in if \<not> e < length remap \<or> \<not> unat startpc < length remap then None
         else Some (of_nat (remap ! unat startpc), if startpc \<noteq> endpc then of_nat (remap ! e) + 1 else of_nat (remap ! e)))"

definition remap_debug_local :: "nat list \<Rightarrow> debug_local \<Rightarrow> debug_local option" where
  "remap_debug_local remap l =
     map_option (\<lambda>(s, e). l\<lparr>dl_startpc := s, dl_endpc := e\<rparr>) (remap_range remap (dl_startpc l) (dl_endpc l))"

definition remap_typed_local :: "nat list \<Rightarrow> typed_local \<Rightarrow> typed_local option" where
  "remap_typed_local remap l =
     map_option (\<lambda>(s, e). l\<lparr>tl_startpc := s, tl_endpc := e\<rparr>) (remap_range remap (tl_startpc l) (tl_endpc l))"

fun map_all :: "('a \<Rightarrow> 'b option) \<Rightarrow> 'a list \<Rightarrow> 'b list option" where
  "map_all f [] = Some []"
| "map_all f (x # xs) = Option.bind (f x) (\<lambda>y. map_option ((#) y) (map_all f xs))"

definition expandJumps :: "builder \<Rightarrow> (nat list \<times> builder) option" where
  "expandJumps b =
     (if \<not> b_hasLongJumps b then Some ([], b)
      else if length (b_insns b) \<noteq> length (b_lines b) then None
      else let jumps = sort_key fst (b_jumps b)
      in case expand_loop (b_insns b) (b_lines b) 0 jumps \<lparr>x_insns = [], x_lines = [], x_remap = [], x_pending = 0\<rparr> of
           None \<Rightarrow> None
         | Some (left, x) \<Rightarrow>
             if left \<noteq> [] \<or> x_pending x = 0 then None
             else case patch_jumps (x_remap x) jumps (x_insns x, x_pending x) of
               None \<Rightarrow> None
             | Some (insns, pending) \<Rightarrow>
                 if pending \<noteq> 0 then None
                 else case (map_all (remap_debug_local (x_remap x)) (b_debugLocals b), map_all (remap_typed_local (x_remap x)) (b_typedLocals b)) of
                   (Some dls, Some tls) \<Rightarrow>
                     Some (x_remap x, b\<lparr>b_jumps := jumps, b_insns := insns, b_lines := x_lines x, b_debugLocals := dls, b_typedLocals := tls\<rparr>)
                 | _ \<Rightarrow> None)"

section \<open>Control flow\<close>

function starts_from :: "u32 list \<Rightarrow> nat \<Rightarrow> nat list" where
  "starts_from insns i = (if i < length insns then i # starts_from insns (i + getOpLength (LUAU_INSN_OP (insns ! i))) else [])"
  by pat_completeness auto
termination
  by (relation "measure (\<lambda>(insns, i). length insns - i)") (simp_all add: diff_less_mono2 getOpLength_pos)

declare starts_from.simps [simp del]

definition is_start :: "u32 list \<Rightarrow> nat \<Rightarrow> bool" where
  "is_start insns p \<longleftrightarrow> p \<in> set (starts_from insns 0)"

text \<open>
  What the compiler hands over: complete instructions, jumps recorded once and between
  instructions, every jump instruction recorded, and an offset that fits already in place.
\<close>

definition jumps_wf :: "builder \<Rightarrow> bool" where
  "jumps_wf b \<longleftrightarrow>
     length (b_lines b) = length (b_insns b) \<and> distinct (map fst (b_jumps b))
     \<and> (\<forall>p \<in> set (starts_from (b_insns b) 0). let op = LUAU_INSN_OP (b_insns b ! p)
          in op < LOP__COUNT \<and> op \<noteq> LOP_JUMPX \<and> p + getOpLength op \<le> length (b_insns b) \<and> (isJumpD op \<longrightarrow> p \<in> fst ` set (b_jumps b)))
     \<and> (\<forall>j \<in> set (b_jumps b). is_start (b_insns b) (fst j) \<and> is_start (b_insns b) (snd j) \<and> isJumpD (LUAU_INSN_OP (b_insns b ! fst j))
          \<and> (if int16 (jump_offset j) then LUAU_INSN_D (b_insns b ! fst j) = jump_offset j else b_hasLongJumps b))
     \<and> (b_hasLongJumps b \<longrightarrow> (\<exists>j \<in> set (b_jumps b). \<not> int16 (jump_offset j)))"

text \<open>Where control arrives from a position by following unconditional jumps.\<close>

inductive leads_to :: "u32 list \<Rightarrow> nat \<Rightarrow> nat \<Rightarrow> bool" for insns where
  here: "leads_to insns p p"
| jump: "\<lbrakk>p < length insns; LUAU_INSN_OP (insns ! p) = LOP_JUMP; int t = int p + 1 + LUAU_INSN_D (insns ! p); leads_to insns t q\<rbrakk>
          \<Longrightarrow> leads_to insns p q"
| jumpx: "\<lbrakk>p < length insns; LUAU_INSN_OP (insns ! p) = LOP_JUMPX; int t = int p + 1 + LUAU_INSN_E (insns ! p); leads_to insns t q\<rbrakk>
          \<Longrightarrow> leads_to insns p q"

lemma leads_to_trans: "leads_to insns p q \<Longrightarrow> leads_to insns q r \<Longrightarrow> leads_to insns p r"
  by (induction rule: leads_to.induct) (auto intro: leads_to.intros)

definition jumpD_target :: "u32 list \<Rightarrow> nat \<Rightarrow> int" where
  "jumpD_target insns p = int p + 1 + LUAU_INSN_D (insns ! p)"

section \<open>Instruction fields after patching\<close>

lemma set_D_eq_insn_AD: "set_D insn d = insn_AD (LUAU_INSN_OP insn) (LUAU_INSN_A insn) (of_int d)"
proof -
  have m: "insn AND 0xffff = take_bit 16 insn" for insn :: u32 by (simp add: take_bit_eq_mask mask_eq_exp_minus_1)
  show ?thesis
    unfolding set_D_def insn_AD_def LUAU_INSN_OP_def LUAU_INSN_A_def mask_255 m
    by (rule bit_word_eqI) (auto simp: bit_simps not_less le_less_Suc_eq)
qed

lemma sint_of_int_16: "int16 d \<Longrightarrow> sint (of_int d :: u16) = d"
  by (simp add: sint_sbintrunc' signed_take_bit_int_eq_self)

lemma set_D_fields: "LUAU_INSN_OP (set_D insn d) = LUAU_INSN_OP insn" "LUAU_INSN_A (set_D insn d) = LUAU_INSN_A insn"
  "int16 d \<Longrightarrow> LUAU_INSN_D (set_D insn d) = d"
  by (simp_all add: set_D_eq_insn_AD insn_op insn_fields insn_D sint_of_int_16)

section \<open>Folding preserves control flow\<close>

text \<open>
  How one word may change: not at all; a jump whose new target is where its old target leads; or
  a jump replaced by the return it leads to.
\<close>

definition folded :: "u32 list \<Rightarrow> u32 list \<Rightarrow> nat \<Rightarrow> bool" where
  "folded old new p \<longleftrightarrow> new ! p = old ! p
     \<or> (isJumpD (LUAU_INSN_OP (old ! p)) \<and> LUAU_INSN_OP (new ! p) = LUAU_INSN_OP (old ! p) \<and> LUAU_INSN_A (new ! p) = LUAU_INSN_A (old ! p)
        \<and> 0 \<le> jumpD_target old p \<and> 0 \<le> jumpD_target new p \<and> leads_to old (nat (jumpD_target old p)) (nat (jumpD_target new p)))
     \<or> (LUAU_INSN_OP (old ! p) = LOP_JUMP \<and> LUAU_INSN_OP (new ! p) = LOP_RETURN
        \<and> (\<exists>q < length old. leads_to old p q \<and> old ! q = new ! p))"

definition fold_rel :: "u32 list \<Rightarrow> u32 list \<Rightarrow> bool" where
  "fold_rel old new \<longleftrightarrow> length new = length old \<and> (\<forall>p < length old. folded old new p)"

lemma folded_cong: "new' ! p = new ! p \<Longrightarrow> folded old new' p = folded old new p"
  by (simp add: folded_def jumpD_target_def)

lemma isJumpD_RETURN: "\<not> isJumpD LOP_RETURN"
  by (simp add: isJumpD_def)

lemma fold_rel_jump:
  assumes "fold_rel old new" "p < length new" "LUAU_INSN_OP (new ! p) = LOP_JUMP" "int t = jumpD_target new p"
  shows "leads_to old p t"
proof -
  from assms(1,2) consider
      "new ! p = old ! p"
    | "LUAU_INSN_OP (old ! p) = LOP_JUMP" "0 \<le> jumpD_target old p" "leads_to old (nat (jumpD_target old p)) t"
    | "LUAU_INSN_OP (new ! p) = LOP_RETURN"
    using assms(3,4) unfolding fold_rel_def folded_def by (metis nat_int)
  then show ?thesis
  proof cases
    case 1
    then show ?thesis using assms by (intro leads_to.jump [OF _ _ _ leads_to.here]) (auto simp: fold_rel_def jumpD_target_def)
  next
    case 2
    then show ?thesis using assms(1,2) by (intro leads_to.jump [OF _ _ _ 2(3)]) (auto simp: fold_rel_def jumpD_target_def)
  qed (use assms(3) in simp)
qed

lemma fold_target_leads:
  assumes "fold_rel old new" "fold_target new t = Some q"
  shows "leads_to old t q \<and> q < length new"
  using assms
proof (induction new t rule: fold_target.induct)
  case (1 new t)
  show ?case
  proof (cases "t < length new \<and> LUAU_INSN_OP (new ! t) = LOP_JUMP \<and> LUAU_INSN_D (new ! t) \<ge> 0")
    case True
    define t' where "t' = t + 1 + nat (LUAU_INSN_D (new ! t))"
    have "fold_target new t' = Some q" using "1.prems" True by (simp add: fold_target.simps [of new t] t'_def)
    with True have "leads_to old t' q \<and> q < length new" using "1.IH" [of "new ! t"] "1.prems"(1) by (simp add: t'_def)
    moreover have "leads_to old t t'" using True by (intro fold_rel_jump [OF "1.prems"(1)]) (auto simp: t'_def jumpD_target_def)
    ultimately show ?thesis using leads_to_trans by blast
  next
    case False
    with "1.prems" have "q = t" "t < length new" by (auto simp: fold_target.simps [of new t] Let_def split: if_splits)
    then show ?thesis by (auto intro: leads_to.here)
  qed
qed

lemma fold_jump_sound:
  assumes "fold_rel old new" "fold_jump (s, t) new = Some (j', new')" "new ! s = old ! s" "isJumpD (LUAU_INSN_OP (old ! s))"
  shows "fold_rel old new' \<and> (\<forall>p. p \<noteq> s \<longrightarrow> new' ! p = new ! p)"
proof -
  from assms(2) obtain q where s: "s < length new" "0 \<le> jumpD_target new s" and q: "fold_target new (nat (jumpD_target new s)) = Some q"
    and new': "new' = (if LUAU_INSN_OP (new ! s) = LOP_JUMP \<and> LUAU_INSN_OP (new ! q) = LOP_RETURN then new[s := new ! q]
        else if int16 (int q - int s - 1) then new[s := set_D (new ! s) (int q - int s - 1)] else new)"
    by (auto simp: fold_jump_def Let_def jumpD_target_def not_less split: option.splits if_splits)
  have lead: "leads_to old (nat (jumpD_target old s)) q" "q < length new"
    using fold_target_leads [OF assms(1) q] assms(3) by (auto simp: jumpD_target_def)
  have len: "length new = length old" using assms(1) by (simp add: fold_rel_def)
  have sum: "folded old new' s"
  proof (cases "LUAU_INSN_OP (new ! s) = LOP_JUMP \<and> LUAU_INSN_OP (new ! q) = LOP_RETURN")
    case True
    have "leads_to old s q" using True s assms(3) len by (intro leads_to.jump [OF _ _ _ lead(1)]) (auto simp: jumpD_target_def)
    moreover have "new ! q = old ! q \<or> (\<exists>r < length old. leads_to old q r \<and> old ! r = new ! q)"
      using assms(1) lead(2) True isJumpD_RETURN unfolding fold_rel_def folded_def by metis
    ultimately have "\<exists>r < length old. leads_to old s r \<and> old ! r = new ! q"
      using lead(2) len leads_to_trans by metis
    then show ?thesis using True s assms(3) by (auto simp: new' folded_def)
  next
    case False
    then show ?thesis using assms(1,3,4) lead(1) s
      by (auto simp: new' folded_def fold_rel_def set_D_fields jumpD_target_def)
  qed
  have "new' ! p = new ! p" if "p \<noteq> s" for p using that by (simp add: new')
  moreover have "length new' = length old" using len by (simp add: new')
  ultimately show ?thesis using assms(1) sum folded_cong unfolding fold_rel_def by metis
qed

lemma starts_from_bounds: "p \<in> set (starts_from insns i) \<Longrightarrow> i \<le> p \<and> p < length insns"
  by (induction insns i rule: starts_from.induct) (subst (asm) (2) starts_from.simps, fastforce split: if_splits)

lemma is_start_less: "is_start insns p \<Longrightarrow> p < length insns"
  using starts_from_bounds unfolding is_start_def by blast

lemma jump_isJumpD: "isJumpD LOP_JUMP"
  by (simp add: isJumpD_def)

lemma jumps_wfD:
  assumes "jumps_wf b" "j \<in> set (b_jumps b)"
  shows "is_start (b_insns b) (fst j)" "is_start (b_insns b) (snd j)" "isJumpD (LUAU_INSN_OP (b_insns b ! fst j))"
    "int16 (jump_offset j) \<Longrightarrow> LUAU_INSN_D (b_insns b ! fst j) = jump_offset j" "\<not> int16 (jump_offset j) \<Longrightarrow> b_hasLongJumps b"
  using assms unfolding jumps_wf_def by (simp_all split: if_splits)

lemma jumps_wf_start:
  assumes "jumps_wf b" "is_start (b_insns b) p"
  shows "LUAU_INSN_OP (b_insns b ! p) < LOP__COUNT" "LUAU_INSN_OP (b_insns b ! p) \<noteq> LOP_JUMPX"
    "p + getOpLength (LUAU_INSN_OP (b_insns b ! p)) \<le> length (b_insns b)"
    "isJumpD (LUAU_INSN_OP (b_insns b ! p)) \<Longrightarrow> \<exists>t. (p, t) \<in> set (b_jumps b)"
proof -
  let ?op = "LUAU_INSN_OP (b_insns b ! p)"
  have *: "?op < LOP__COUNT \<and> ?op \<noteq> LOP_JUMPX \<and> p + getOpLength ?op \<le> length (b_insns b) \<and> (isJumpD ?op \<longrightarrow> p \<in> fst ` set (b_jumps b))"
    using assms unfolding jumps_wf_def is_start_def Let_def by blast
  then show "?op < LOP__COUNT" "?op \<noteq> LOP_JUMPX" "p + getOpLength ?op \<le> length (b_insns b)" by blast+
  show "isJumpD ?op \<Longrightarrow> \<exists>t. (p, t) \<in> set (b_jumps b)" using * by auto
qed

lemma short_jump_target:
  assumes "jumps_wf b" "\<not> b_hasLongJumps b" "(s, t) \<in> set (b_jumps b)"
  shows "jumpD_target (b_insns b) s = int t"
proof -
  have "int16 (jump_offset (s, t))" using jumps_wfD(5) [OF assms(1,3)] assms(2) by blast
  then show ?thesis using jumps_wfD(4) [OF assms(1,3)] by (simp add: jumpD_target_def jump_offset_def)
qed

lemma leads_to_start:
  assumes "leads_to (b_insns b) p q" "jumps_wf b" "\<not> b_hasLongJumps b" "is_start (b_insns b) p"
  shows "is_start (b_insns b) q"
  using assms
proof (induction rule: leads_to.induct)
  case (jump p t q)
  from jump.prems jump.hyps(2) obtain u where u: "(p, u) \<in> set (b_jumps b)" using jumps_wf_start(4) [of b p] jump_isJumpD by auto
  then have "t = u" using short_jump_target [of b p u] jump.prems jump.hyps(3) by (simp add: jumpD_target_def)
  then show ?case using jump jumps_wfD(2) [of b "(p, u)"] u by simp
next
  case (jumpx p t q)
  then show ?case using jumps_wf_start(2) [of b p] by simp
qed

lemma fold_target_total:
  assumes "jumps_wf b" "\<not> b_hasLongJumps b" "fold_rel (b_insns b) new" "is_start (b_insns b) t"
  shows "\<exists>q. fold_target new t = Some q"
  using assms
proof (induction new t rule: fold_target.induct)
  case (1 new t)
  have t: "t < length new" using "1.prems" is_start_less by (auto simp: fold_rel_def)
  show ?case
  proof (cases "LUAU_INSN_OP (new ! t) = LOP_JUMP \<and> LUAU_INSN_D (new ! t) \<ge> 0")
    case True
    have "leads_to (b_insns b) t (t + 1 + nat (LUAU_INSN_D (new ! t)))"
      using True t by (intro fold_rel_jump [OF "1.prems"(3)]) (auto simp: jumpD_target_def)
    then have "is_start (b_insns b) (t + 1 + nat (LUAU_INSN_D (new ! t)))" using "1.prems" leads_to_start by blast
    then show ?thesis using "1.IH" [of "new ! t"] "1.prems" True t by (simp add: fold_target.simps [of new t])
  qed (use t in \<open>auto simp: fold_target.simps [of new t] Let_def\<close>)
qed

lemma fold_jump_list_sound:
  assumes "jumps_wf b" "\<not> b_hasLongJumps b" "fold_rel (b_insns b) new" "set jumps \<subseteq> set (b_jumps b)" "distinct (map fst jumps)"
    "\<forall>j \<in> set jumps. new ! fst j = b_insns b ! fst j"
  shows "\<exists>jumps' new'. fold_jump_list jumps new = Some (jumps', new') \<and> fold_rel (b_insns b) new' \<and> map fst jumps' = map fst jumps
     \<and> (\<forall>p. p \<notin> fst ` set jumps \<longrightarrow> new' ! p = new ! p)"
  using assms(3-)
proof (induction jumps arbitrary: new)
  case (Cons j jumps)
  obtain s t where j: "j = (s, t)" by (cases j)
  have mem: "(s, t) \<in> set (b_jumps b)" using Cons.prems(2) j by simp
  note jd = jumps_wfD [OF assms(1) mem, simplified]
  have new_s: "new ! s = b_insns b ! s" using Cons.prems(4) j by simp
  have tgt: "jumpD_target new s = int t" using short_jump_target [OF assms(1,2) mem] new_s by (simp add: jumpD_target_def)
  obtain q where q: "fold_target new t = Some q" using fold_target_total [OF assms(1,2) Cons.prems(1) jd(2)] by blast
  have "s < length new" using is_start_less [OF jd(1)] Cons.prems(1) by (simp add: fold_rel_def)
  then obtain j' new1 where f: "fold_jump (s, t) new = Some (j', new1)" "fst j' = s"
    using tgt q unfolding jumpD_target_def by (simp add: fold_jump_def Let_def)
  note sound = fold_jump_sound [OF Cons.prems(1) f(1) new_s jd(3)]
  have "\<forall>j \<in> set jumps. new1 ! fst j = b_insns b ! fst j"
    using Cons.prems(3,4) j sound by force
  then obtain jumps' new' where "fold_jump_list jumps new1 = Some (jumps', new')" "fold_rel (b_insns b) new'" "map fst jumps' = map fst jumps"
    "\<forall>p. p \<notin> fst ` set jumps \<longrightarrow> new' ! p = new1 ! p"
    using Cons.IH [of new1] sound Cons.prems(2,3) by auto
  then show ?case using f sound j by (intro exI [of _ "j' # jumps'"] exI [of _ new']) auto
qed auto

section \<open>The first pass of the expansion\<close>

definition long_sources :: "(nat \<times> nat) list \<Rightarrow> nat set" where
  "long_sources jumps = fst ` {j \<in> set jumps. is_long j}"

definition longs_before :: "nat set \<Rightarrow> nat \<Rightarrow> nat" where
  "longs_before L i = card {s \<in> L. s < i}"

definition newpc :: "nat set \<Rightarrow> nat \<Rightarrow> nat" where
  "newpc L p = p + 2 * longs_before L (Suc p)"

lemma finite_long_sources [simp]: "finite (long_sources jumps)"
  by (simp add: long_sources_def)

lemma longs_before_Suc: "finite L \<Longrightarrow> longs_before L (Suc i) = longs_before L i + (if i \<in> L then 1 else 0)"
proof -
  assume "finite L"
  moreover have "{s \<in> L. s < Suc i} = (if i \<in> L then insert i {s \<in> L. s < i} else {s \<in> L. s < i})" by (auto simp: less_Suc_eq)
  ultimately show ?thesis by (simp add: longs_before_def)
qed

lemma longs_before_mono: "finite L \<Longrightarrow> i \<le> j \<Longrightarrow> longs_before L i \<le> longs_before L j"
  unfolding longs_before_def by (rule card_mono) auto

lemma longs_before_0 [simp]: "longs_before L 0 = 0"
  by (simp add: longs_before_def)

lemma longs_before_diff:
  assumes "finite L" "i \<le> j"
  shows "longs_before L j = longs_before L i + card {s \<in> L. i \<le> s \<and> s < j}"
proof -
  have "{s \<in> L. s < j} = {s \<in> L. s < i} \<union> {s \<in> L. i \<le> s \<and> s < j}" using assms(2) by auto
  then show ?thesis unfolding longs_before_def using assms(1) by (simp add: card_Un_disjoint disjoint_iff)
qed

lemma newpc_before:
  assumes "finite L" "p < i"
  shows "newpc L p < i + 2 * longs_before L i"
  using longs_before_mono [OF assms(1), of "Suc p" i] assms(2) by (simp add: newpc_def)

lemma newpc_long: "finite L \<Longrightarrow> i \<in> L \<Longrightarrow> newpc L i = i + 2 * longs_before L i + 2"
  by (simp add: newpc_def longs_before_Suc)

lemma newpc_mono: "finite L \<Longrightarrow> p < q \<Longrightarrow> newpc L p < newpc L q"
  using newpc_before [of L p q] longs_before_mono [of L q "Suc q"] by (simp add: newpc_def)

lemma newpc_less_iff [simp]: "finite L \<Longrightarrow> newpc L p < newpc L q \<longleftrightarrow> p < q"
  using newpc_mono [of L p q] newpc_mono [of L q p] by (cases p q rule: linorder_cases) auto

lemma newpc_eq_iff [simp]: "finite L \<Longrightarrow> newpc L p = newpc L q \<longleftrightarrow> p = q"
  by (metis newpc_less_iff less_irrefl linorder_neqE_nat)

lemma newpc_gap:
  assumes "finite L" "s \<in> L"
  shows "newpc L p \<noteq> newpc L s - 1" "newpc L p \<noteq> newpc L s - 2" "2 \<le> newpc L s"
proof -
  note l = newpc_long [OF assms]
  consider "p < s" | "p = s" | "s < p" by linarith
  then have "newpc L p \<noteq> newpc L s - 1 \<and> newpc L p \<noteq> newpc L s - 2"
    by cases (use l newpc_before [OF assms(1), of p s] newpc_mono [OF assms(1), of s p] in auto)
  then show "newpc L p \<noteq> newpc L s - 1" "newpc L p \<noteq> newpc L s - 2" "2 \<le> newpc L s" using l by auto
qed

text \<open>
  The buffers after the words below \<open>i\<close> were copied and the trampolines of sources below \<open>n\<close> added.
\<close>

definition expanded :: "nat set \<Rightarrow> u32 list \<Rightarrow> int list \<Rightarrow> nat \<Rightarrow> nat \<Rightarrow> expansion \<Rightarrow> bool" where
  "expanded L insns lines i n x \<longleftrightarrow>
     x_remap x = map (newpc L) [0..<i] \<and> x_pending x = longs_before L n
     \<and> length (x_insns x) = i + 2 * longs_before L n \<and> length (x_lines x) = i + 2 * longs_before L n
     \<and> (\<forall>p < i. x_insns x ! newpc L p = insns ! p \<and> x_lines x ! newpc L p = lines ! p)
     \<and> (\<forall>s \<in> L. s < n \<longrightarrow> x_insns x ! (newpc L s - 2) = ucast LOP_JUMP OR push_bit 16 1 \<and> x_insns x ! (newpc L s - 1) = ucast LOP_JUMPX)"

lemma expanded_copy:
  assumes "finite L" "expanded L insns lines i (Suc i) x"
  shows "expanded L insns lines (Suc i) (Suc i) (copy_word insns lines i x)"
proof -
  have len: "length (x_insns x) = newpc L i" "length (x_lines x) = newpc L i" using assms(2) by (auto simp: expanded_def newpc_def)
  have lt: "newpc L p < newpc L i" if "p < i" for p using that assms(1) by simp
  have s: "newpc L s - 1 < newpc L i" "newpc L s - 2 < newpc L i" if "s \<in> L" "s < Suc i" for s
    using that newpc_gap(3) [OF assms(1) that(1)] newpc_mono [OF assms(1), of s i] by (auto simp: less_Suc_eq)
  show ?thesis using assms(2) len lt s
    by (auto simp: expanded_def copy_word_def nth_append less_Suc_eq newpc_def)
qed

lemma expanded_trampoline:
  assumes "finite L" "expanded L insns lines i i x"
  shows "expanded L insns lines i (Suc i) (if i \<in> L then add_trampoline line x else x)"
proof (cases "i \<in> L")
  case True
  have len: "length (x_insns x) = newpc L i - 2" "length (x_lines x) = newpc L i - 2" "2 \<le> newpc L i"
    using assms newpc_long [OF assms(1) True] by (auto simp: expanded_def)
  have lt: "newpc L p < newpc L i - 2" if "p < i" for p using newpc_before [OF assms(1) that] newpc_long [OF assms(1) True] by simp
  have s: "newpc L s - 1 < newpc L i - 2" "newpc L s - 2 < newpc L i - 2" if "s \<in> L" "s < i" for s
    using lt [OF that(2)] by auto
  have i: "newpc L i - 1 = Suc (newpc L i - 2)" using len(3) by simp
  show ?thesis using assms True len lt s i
    by (auto simp: expanded_def add_trampoline_def nth_append less_Suc_eq longs_before_Suc)
next
  case False
  then show ?thesis using assms by (auto simp: expanded_def longs_before_Suc less_Suc_eq)
qed

lemma expanded_copies:
  assumes "finite L" "expanded L insns lines i (Suc i) x" "\<forall>p. i < p \<and> p < i + Suc k \<longrightarrow> p \<notin> L"
  shows "expanded L insns lines (i + Suc k) (i + Suc k) (fold (copy_word insns lines) [i..<i + Suc k] x)"
  using assms(3)
proof (induction k)
  case 0
  then show ?case using expanded_copy [OF assms(1,2)] by simp
next
  case (Suc k)
  then have "expanded L insns lines (i + Suc k) (i + Suc k) (fold (copy_word insns lines) [i..<i + Suc k] x)" by simp
  from expanded_trampoline [OF assms(1) this, of 0] Suc.prems
  have "expanded L insns lines (i + Suc k) (Suc (i + Suc k)) (fold (copy_word insns lines) [i..<i + Suc k] x)" by simp
  from expanded_copy [OF assms(1) this] show ?case by simp
qed

lemma start_gap:
  assumes "i \<in> set (starts_from insns k)" "p \<in> set (starts_from insns k)" "i < p"
  shows "i + getOpLength (LUAU_INSN_OP (insns ! i)) \<le> p"
  using assms
proof (induction insns k rule: starts_from.induct)
  case (1 insns k)
  let ?k = "k + getOpLength (LUAU_INSN_OP (insns ! k))"
  have k: "k < length insns" using "1.prems"(1) by (auto simp: starts_from.simps [of insns k] split: if_splits)
  then have "starts_from insns k = k # starts_from insns ?k" by (simp add: starts_from.simps [of insns k])
  then show ?case using "1.IH" [OF k] "1.prems" starts_from_bounds by fastforce
qed

lemma starts_closed:
  assumes "i = k \<or> i \<in> set (starts_from insns k)" "i < length insns"
  shows "i + getOpLength (LUAU_INSN_OP (insns ! i)) \<in> set (starts_from insns k) \<or> length insns \<le> i + getOpLength (LUAU_INSN_OP (insns ! i))"
  using assms
proof (induction insns k rule: starts_from.induct)
  case (1 insns k)
  let ?k = "k + getOpLength (LUAU_INSN_OP (insns ! k))"
  show ?case
  proof (cases "k < length insns")
    case True
    then have "starts_from insns k = k # starts_from insns ?k" by (simp add: starts_from.simps [of insns k])
    then show ?thesis using "1.IH" [OF True] "1.prems" by (auto simp: starts_from.simps [of insns ?k])
  qed (use "1.prems" in \<open>auto simp: starts_from.simps [of insns k]\<close>)
qed

lemma long_sources_subset: "long_sources J \<subseteq> fst ` set J"
  by (auto simp: long_sources_def)

lemma long_source_iff: "distinct (map fst J) \<Longrightarrow> j \<in> set J \<Longrightarrow> fst j \<in> long_sources J \<longleftrightarrow> is_long j"
  unfolding long_sources_def distinct_map by (auto dest: inj_onD)

text \<open>The jumps left at position \<open>i\<close> are those with a source from \<open>i\<close> on.\<close>

lemma sorted_rest:
  assumes "sorted (map fst J)" "distinct (map fst J)" "filter (\<lambda>j. i \<le> fst j) J = j # js"
  shows "filter (\<lambda>j. Suc i \<le> fst j) J = (if fst j = i then js else j # js)" "i \<in> fst ` set J \<longleftrightarrow> fst j = i"
proof -
  have f: "filter (\<lambda>j. Suc i \<le> fst j) J = filter (\<lambda>j. Suc i \<le> fst j) (j # js)" unfolding assms(3) [symmetric] by (simp add: Suc_le_eq) (meson less_imp_le_nat)
  have s: "sorted (map fst (j # js))" "distinct (map fst (j # js))"
    unfolding assms(3) [symmetric] using assms(1,2) by (simp_all add: sorted_filter distinct_map_filter)
  have "j \<in> set (filter (\<lambda>j. i \<le> fst j) J)" unfolding assms(3) by simp
  then have ij: "i \<le> fst j" by simp
  have "fst j < fst j'" if "j' \<in> set js" for j' using s that by (auto simp: le_less image_iff)
  then have js: "filter (\<lambda>j. Suc i \<le> fst j) js = js" using ij by (intro filter_True) (fastforce)
  show "filter (\<lambda>j. Suc i \<le> fst j) J = (if fst j = i then js else j # js)" using f js ij by auto
  have "i \<in> fst ` set J \<longleftrightarrow> i \<in> fst ` set (j # js)" unfolding assms(3) [symmetric] by auto
  also have "\<dots> \<longleftrightarrow> fst j = i" using \<open>\<And>j'. j' \<in> set js \<Longrightarrow> fst j < fst j'\<close> ij by fastforce
  finally show "i \<in> fst ` set J \<longleftrightarrow> fst j = i" .
qed

lemma expand_step_sound:
  assumes wf: "jumps_wf b" and J: "sorted (map fst J)" "distinct (map fst J)" "set J = set (b_jumps b)"
    and i: "is_start (b_insns b) i" and x: "expanded (long_sources J) (b_insns b) (b_lines b) i i x"
  defines "i' \<equiv> i + getOpLength (LUAU_INSN_OP (b_insns b ! i))"
  shows "\<exists>x'. expand_step (b_insns b) (b_lines b) i (filter (\<lambda>j. i \<le> fst j) J) x = Some (i', filter (\<lambda>j. i' \<le> fst j) J, x')
    \<and> expanded (long_sources J) (b_insns b) (b_lines b) i' i' x'"
proof -
  let ?L = "long_sources J"
  note op = jumps_wf_start [OF wf i]
  have gap: "\<not> (i < fst j \<and> fst j < i')" if "j \<in> set J" for j
    using start_gap [of i "b_insns b" 0 "fst j"] i jumps_wfD(1) [OF wf, of j] that J(3) unfolding is_start_def i'_def by auto
  have rest: "filter (\<lambda>j. i' \<le> fst j) J = filter (\<lambda>j. Suc i \<le> fst j) J"
    using gap getOpLength_pos unfolding i'_def by (intro filter_cong refl) (metis Suc_le_eq add_leE le_less_trans less_add_same_cancel1 not_le)
  define x1 where "x1 = (if i \<in> ?L then add_trampoline (b_lines b ! i) x else x)"
  have x1: "expanded ?L (b_insns b) (b_lines b) i (Suc i) x1" unfolding x1_def by (rule expanded_trampoline [OF finite_long_sources x])
  have head: "(case filter (\<lambda>j. i \<le> fst j) J of [] \<Rightarrow> (filter (\<lambda>j. i \<le> fst j) J, x)
      | j # js \<Rightarrow> if fst j = i then (js, if is_long j then add_trampoline (b_lines b ! i) x else x) else (filter (\<lambda>j. i \<le> fst j) J, x))
      = (filter (\<lambda>j. i' \<le> fst j) J, x1)"
  proof (cases "filter (\<lambda>j. i \<le> fst j) J")
    case Nil
    then have e: "\<forall>j \<in> set J. \<not> i \<le> fst j" by (simp add: filter_empty_conv)
    then have "i \<notin> ?L" "filter (\<lambda>j. Suc i \<le> fst j) J = []" by (auto simp: long_sources_def filter_empty_conv Suc_le_eq dest: less_imp_le)
    then show ?thesis using Nil rest by (simp add: x1_def)
  next
    case (Cons j js)
    have "j \<in> set (filter (\<lambda>j. i \<le> fst j) J)" unfolding Cons by simp
    then have "j \<in> set J" by simp
    then have "i \<in> ?L \<longleftrightarrow> fst j = i \<and> is_long j"
      using sorted_rest(2) [OF J(1,2) Cons] long_source_iff [OF J(2), of j] subsetD [OF long_sources_subset, of i J] by metis
    then show ?thesis using Cons rest sorted_rest(1) [OF J(1,2) Cons] by (simp add: x1_def)
  qed
  obtain k where k: "getOpLength (LUAU_INSN_OP (b_insns b ! i)) = Suc k" using getOpLength_pos gr0_implies_Suc by blast
  have "expanded ?L (b_insns b) (b_lines b) i' i' (fold (copy_word (b_insns b) (b_lines b)) [i..<i'] x1)"
    unfolding i'_def k
    by (rule expanded_copies [OF finite_long_sources x1]) (use gap in \<open>auto simp: long_sources_def i'_def k\<close>)
  then show ?thesis using op(1,3) head unfolding expand_step_def Let_def by (simp add: i'_def)
qed

lemma expand_loop_sound:
  assumes wf: "jumps_wf b" and J: "sorted (map fst J)" "distinct (map fst J)" "set J = set (b_jumps b)"
    and i: "i = length (b_insns b) \<or> is_start (b_insns b) i" and x: "expanded (long_sources J) (b_insns b) (b_lines b) i i x"
  shows "\<exists>x'. expand_loop (b_insns b) (b_lines b) i (filter (\<lambda>j. i \<le> fst j) J) x = Some ([], x')
    \<and> expanded (long_sources J) (b_insns b) (b_lines b) (length (b_insns b)) (length (b_insns b)) x'"
  using i x
proof (induction "length (b_insns b) - i" arbitrary: i x rule: less_induct)
  case less
  show ?case
  proof (cases "i < length (b_insns b)")
    case True
    then have st: "is_start (b_insns b) i" using less.prems by auto
    define i' where "i' = i + getOpLength (LUAU_INSN_OP (b_insns b ! i))"
    obtain x' where x': "expand_step (b_insns b) (b_lines b) i (filter (\<lambda>j. i \<le> fst j) J) x = Some (i', filter (\<lambda>j. i' \<le> fst j) J, x')"
      "expanded (long_sources J) (b_insns b) (b_lines b) i' i' x'"
      using expand_step_sound [OF wf J st less.prems(2)] unfolding i'_def by blast
    have "i' = length (b_insns b) \<or> is_start (b_insns b) i'"
      using starts_closed [of i 0 "b_insns b"] st True jumps_wf_start(3) [OF wf st] unfolding is_start_def i'_def by auto
    moreover have "length (b_insns b) - i' < length (b_insns b) - i" using True expand_step_next [OF x'(1)] by simp
    ultimately show ?thesis using less.hyps [of i' x'] x' True by (simp add: expand_loop.simps [of _ _ i])
  next
    case False
    then have "i = length (b_insns b)" using less.prems(1) is_start_less by blast
    moreover have "filter (\<lambda>j. length (b_insns b) \<le> fst j) J = []"
      using jumps_wfD(1) [OF wf] is_start_less J(3) by (fastforce simp: filter_empty_conv)
    ultimately show ?thesis using less.prems(2) by (simp add: expand_loop.simps)
  qed
qed

section \<open>The second pass of the expansion\<close>

lemma set_E_eq_insn_E: "set_E insn e = insn_E (LUAU_INSN_OP insn) (of_int e)"
  unfolding set_E_def insn_E_def LUAU_INSN_OP_def mask_255
  by (rule bit_word_eqI) (auto simp: bit_simps)

lemma set_E_fields: "LUAU_INSN_OP (set_E insn e) = LUAU_INSN_OP insn"
  "- (2 ^ 23) \<le> e \<Longrightarrow> e < 2 ^ 23 \<Longrightarrow> LUAU_INSN_E (set_E insn e) = e"
proof -
  show "LUAU_INSN_OP (set_E insn e) = LUAU_INSN_OP insn" by (simp add: set_E_eq_insn_E insn_op)
  assume e: "- (2 ^ 23) \<le> e" "e < 2 ^ 23"
  then have "sint (of_int e :: u32) = e" by (simp add: sint_sbintrunc' signed_take_bit_int_eq_self)
  then show "LUAU_INSN_E (set_E insn e) = e" using insn_E_field [of "of_int e"] e by (simp add: set_E_eq_insn_E)
qed

definition new_offset :: "nat set \<Rightarrow> nat \<times> nat \<Rightarrow> int" where
  "new_offset L j = int (newpc L (snd j)) - int (newpc L (fst j)) - 1"

text \<open>What the two words of a jump must hold before and hold after the second pass.\<close>

definition unpatched :: "nat set \<Rightarrow> u32 list \<Rightarrow> nat \<times> nat \<Rightarrow> bool" where
  "unpatched L insns j \<longleftrightarrow>
     (if is_long j then LUAU_INSN_OP (insns ! (newpc L (fst j) - 1)) = LOP_JUMPX
      else LUAU_INSN_D (insns ! newpc L (fst j)) = jump_offset j \<and> int16 (new_offset L j))"

definition patched :: "nat set \<Rightarrow> u32 list \<Rightarrow> u32 list \<Rightarrow> nat \<times> nat \<Rightarrow> bool" where
  "patched L insns insns' j \<longleftrightarrow>
     (let src = newpc L (fst j)
      in if is_long j then insns' ! (src - 1) = set_E (insns ! (src - 1)) (new_offset L j + 1) \<and> insns' ! src = set_D (insns ! src) (- 2)
         else insns' ! src = set_D (insns ! src) (new_offset L j))"

definition touched :: "nat set \<Rightarrow> nat \<times> nat \<Rightarrow> nat set" where
  "touched L j = (if is_long j then {newpc L (fst j) - 1, newpc L (fst j)} else {newpc L (fst j)})"

lemma touched_disjoint:
  assumes "finite L" "fst j \<noteq> fst j'" "is_long j \<Longrightarrow> fst j \<in> L" "is_long j' \<Longrightarrow> fst j' \<in> L"
  shows "touched L j \<inter> touched L j' = {}"
proof -
  have "newpc L (fst j) \<noteq> newpc L (fst j')" using assms(1,2) by simp
  then show ?thesis
    using newpc_gap [OF assms(1), of "fst j"] newpc_gap [OF assms(1), of "fst j'"] assms(3,4)
    by (auto simp: touched_def) (metis diff_is_0_eq diff_le_self le_antisym le_diff_conv not_less_eq_eq numeral_2_eq_2 ordered_cancel_comm_monoid_diff_class.diff_add Suc_leD)+
qed

lemma patch_jumps_sound:
  assumes L: "finite L" "\<forall>j \<in> set J. is_long j \<longrightarrow> fst j \<in> L"
    and J: "distinct (map fst J)" "\<forall>j \<in> set J. fst j < n \<and> snd j < n \<and> newpc L (fst j) < length insns \<and> unpatched L insns j"
    and pend: "pend = length (filter is_long J) + m"
  shows "\<exists>insns'. patch_jumps (map (newpc L) [0..<n]) J (insns, pend) = Some (insns', m) \<and> length insns' = length insns
     \<and> (\<forall>j \<in> set J. patched L insns insns' j) \<and> (\<forall>p. (\<forall>j \<in> set J. p \<notin> touched L j) \<longrightarrow> insns' ! p = insns ! p)"
  using assms(2-)
proof (induction J arbitrary: insns pend)
  case (Cons j J)
  let ?s = "newpc L (fst j)"
  have ok: "fst j < n" "snd j < n" "?s < length insns" "unpatched L insns j" using Cons.prems(3) by auto
  have long: "2 \<le> ?s" if "is_long j" using newpc_gap(3) [OF L(1)] Cons.prems(1) that by simp
  obtain insns1 where one: "patch_jump (map (newpc L) [0..<n]) j (insns, pend) = Some (insns1, length (filter is_long J) + m)"
    "length insns1 = length insns" "patched L insns insns1 j" "\<forall>p. p \<notin> touched L j \<longrightarrow> insns1 ! p = insns ! p"
  proof (cases "is_long j")
    case True
    have "?s - 1 \<noteq> ?s" "?s \<noteq> 0" "?s - 1 < length insns" using long [OF True] ok(3) by auto
    with True show ?thesis using ok Cons.prems(4)
      by (intro that [of "insns[?s - 1 := set_E (insns ! (?s - 1)) (new_offset L j + 1), ?s := set_D (insns ! ?s) (- 2)]"])
        (auto simp: patch_jump_def unpatched_def patched_def touched_def new_offset_def Let_def)
  next
    case False
    then show ?thesis using ok Cons.prems(4)
      by (intro that [of "insns[?s := set_D (insns ! ?s) (new_offset L j)]"])
        (auto simp: patch_jump_def unpatched_def patched_def touched_def new_offset_def Let_def)
  qed
  have dis: "touched L j \<inter> touched L j' = {}" if "j' \<in> set J" for j'
    using touched_disjoint [OF L(1)] Cons.prems(1,2) that by (metis list.set_intros image_eqI list.simps(9) distinct.simps(2) list.set_map)
  have keep: "insns1 ! newpc L (fst j') = insns ! newpc L (fst j')" "is_long j' \<Longrightarrow> insns1 ! (newpc L (fst j') - 1) = insns ! (newpc L (fst j') - 1)"
    if "j' \<in> set J" for j' using dis [OF that] one(4) by (auto simp: touched_def split: if_splits)
  have "\<forall>j' \<in> set J. fst j' < n \<and> snd j' < n \<and> newpc L (fst j') < length insns1 \<and> unpatched L insns1 j'"
    using Cons.prems(3) keep one(2) by (auto simp: unpatched_def)
  from Cons.IH [OF _ _ this refl] Cons.prems(1,2) obtain insns' where two: "patch_jumps (map (newpc L) [0..<n]) J (insns1, length (filter is_long J) + m) = Some (insns', m)"
    "length insns' = length insns1" "\<forall>j \<in> set J. patched L insns1 insns' j" "\<forall>p. (\<forall>j \<in> set J. p \<notin> touched L j) \<longrightarrow> insns' ! p = insns1 ! p"
    by auto
  have "insns' ! p = insns1 ! p" if "p \<in> touched L j" for p using two(4) dis that by blast
  then have "patched L insns insns' j" using one(3) by (simp add: patched_def touched_def Let_def split: if_splits)
  moreover have "patched L insns insns' j'" if "j' \<in> set J" for j' using two(3) keep [OF that] that by (auto simp: patched_def Let_def split: if_splits)
  ultimately show ?case using one two by (intro exI [of _ insns']) auto
qed simp

section \<open>Distances\<close>

text \<open>
  The bound on short jumps leaves room for trampolines everywhere, except at its very edge: a
  forward jump over exactly \<open>kMaxJumpDistanceConservative\<close> words needs one word among the words it
  skips and its target that gets no trampoline.
\<close>

definition edge_free :: "builder \<Rightarrow> bool" where
  "edge_free b \<longleftrightarrow> (\<forall>j \<in> set (b_jumps b). jump_offset j = kMaxJumpDistanceConservative \<longrightarrow>
     (\<exists>p \<in> {fst j<..snd j}. p \<notin> fst ` {j \<in> set (b_jumps b). is_long j}))"


lemma new_offset_forward:
  assumes "finite L" "fst j \<le> snd j"
  shows "new_offset L j = jump_offset j + 2 * int (card {s \<in> L. fst j < s \<and> s \<le> snd j})"
proof -
  have "longs_before L (Suc (snd j)) = longs_before L (Suc (fst j)) + card {s \<in> L. Suc (fst j) \<le> s \<and> s < Suc (snd j)}"
    using assms by (intro longs_before_diff) auto
  then show ?thesis by (simp add: new_offset_def jump_offset_def newpc_def less_Suc_eq_le Suc_le_eq)
qed

lemma new_offset_backward:
  assumes "finite L" "snd j \<le> fst j"
  shows "new_offset L j = jump_offset j - 2 * int (card {s \<in> L. snd j < s \<and> s \<le> fst j})"
proof -
  have "longs_before L (Suc (fst j)) = longs_before L (Suc (snd j)) + card {s \<in> L. Suc (snd j) \<le> s \<and> s < Suc (fst j)}"
    using assms by (intro longs_before_diff) auto
  then show ?thesis by (simp add: new_offset_def jump_offset_def newpc_def less_Suc_eq_le Suc_le_eq)
qed

lemma new_offset_short:
  assumes "finite L" "\<not> is_long j" "fst j \<notin> L"
    and edge: "jump_offset j = kMaxJumpDistanceConservative \<Longrightarrow> \<exists>p \<in> {fst j<..snd j}. p \<notin> L"
  shows "int16 (new_offset L j)"
proof (cases "fst j < snd j")
  case True
  let ?C = "{s \<in> L. fst j < s \<and> s \<le> snd j}"
  have "card ?C \<le> card {fst j<..snd j}" by (intro card_mono) auto
  then have sub: "card ?C \<le> snd j - fst j" by simp
  have bound: "jump_offset j \<le> 10922" using assms(2) by (simp add: is_long_def kMaxJumpDistanceConservative_def)
  have "2 * int (card ?C) + jump_offset j < 2 ^ 15"
  proof (cases "jump_offset j = 10922")
    case True
    then obtain p where p: "p \<in> {fst j<..snd j}" "p \<notin> L" using edge by (auto simp: kMaxJumpDistanceConservative_def)
    have "card ?C \<le> card ({fst j<..snd j} - {p})" using p by (intro card_mono) auto
    also have "\<dots> = snd j - fst j - 1" using p(1) by simp
    finally show ?thesis using True \<open>fst j < snd j\<close> by (simp add: jump_offset_def)
  qed (use sub bound True in \<open>simp add: jump_offset_def\<close>)
  moreover have "0 \<le> jump_offset j" using True by (simp add: jump_offset_def)
  ultimately show ?thesis using new_offset_forward [OF assms(1), of j] True by simp
next
  case False
  let ?C = "{s \<in> L. snd j < s \<and> s \<le> fst j}"
  have "card ?C \<le> card {snd j<..<fst j}" using assms(3) by (intro card_mono) (auto simp: le_less)
  then have "int (card ?C) \<le> - jump_offset j" using False by (simp add: jump_offset_def)
  moreover have "- 10922 \<le> jump_offset j" "jump_offset j < 0" using assms(2) False by (simp_all add: is_long_def kMaxJumpDistanceConservative_def jump_offset_def)
  ultimately show ?thesis using new_offset_backward [OF assms(1), of j] False by simp
qed


section \<open>The expanded code\<close>

lemma gap_trampolines:
  assumes "finite L" "s \<in> L" "s' \<in> L"
  shows "newpc L s' - 1 \<noteq> newpc L s - 2"
proof -
  note l = newpc_long [OF assms(1,2)] newpc_long [OF assms(1,3)]
  consider "s' < s" | "s' = s" | "s < s'" by linarith
  then show ?thesis
    by cases (use l newpc_before [OF assms(1), of s' s] newpc_before [OF assms(1), of s s'] in auto)
qed

definition code_expanded :: "nat set \<Rightarrow> (nat \<times> nat) list \<Rightarrow> u32 list \<Rightarrow> u32 list \<Rightarrow> bool" where
  "code_expanded L J insns insns' \<longleftrightarrow>
     (\<forall>p < length insns. newpc L p < length insns' \<and> (p \<notin> fst ` set J \<longrightarrow> insns' ! newpc L p = insns ! p))
     \<and> (\<forall>j \<in> set J. let src = newpc L (fst j) in
          if is_long j then 2 \<le> src \<and> insns' ! src = set_D (insns ! fst j) (- 2)
             \<and> insns' ! (src - 1) = set_E (ucast LOP_JUMPX) (new_offset L j + 1) \<and> insns' ! (src - 2) = ucast LOP_JUMP OR push_bit 16 1
          else insns' ! src = set_D (insns ! fst j) (new_offset L j))"

lemma sorted_jumps:
  assumes "jumps_wf b"
  defines "J \<equiv> sort_key fst (b_jumps b)"
  shows "sorted (map fst J)" "distinct (map fst J)" "set J = set (b_jumps b)"
  using assms(1) by (auto simp: J_def jumps_wf_def distinct_map)

lemma expand_loop_whole:
  assumes wf: "jumps_wf b"
  defines "J \<equiv> sort_key fst (b_jumps b)"
  shows "\<exists>x. expand_loop (b_insns b) (b_lines b) 0 J \<lparr>x_insns = [], x_lines = [], x_remap = [], x_pending = 0\<rparr> = Some ([], x)
    \<and> expanded (long_sources J) (b_insns b) (b_lines b) (length (b_insns b)) (length (b_insns b)) x"
proof -
  note J = sorted_jumps [OF wf, folded J_def]
  have "0 = length (b_insns b) \<or> is_start (b_insns b) 0"
    unfolding is_start_def by (subst starts_from.simps) simp
  moreover have "expanded (long_sources J) (b_insns b) (b_lines b) 0 0 \<lparr>x_insns = [], x_lines = [], x_remap = [], x_pending = 0\<rparr>"
    by (simp add: expanded_def)
  ultimately show ?thesis using expand_loop_sound [OF wf J, of 0] by simp
qed

lemma pending_trampolines:
  assumes "jumps_wf b"
  defines "J \<equiv> sort_key fst (b_jumps b)"
  shows "longs_before (long_sources J) (length (b_insns b)) = length (filter is_long J)"
proof -
  note J = sorted_jumps [OF assms(1), folded J_def]
  have "{s \<in> long_sources J. s < length (b_insns b)} = set (map fst (filter is_long J))"
    using jumps_wfD(1) [OF assms(1)] is_start_less J(3) by (auto simp: long_sources_def)
  moreover have "distinct (map fst (filter is_long J))" using J(2) by (simp add: distinct_map_filter)
  ultimately show ?thesis unfolding longs_before_def by (metis distinct_card length_map)
qed

lemma expand_patched:
  assumes wf: "jumps_wf b" and margin: "edge_free b"
  defines "J \<equiv> sort_key fst (b_jumps b)" and "n \<equiv> length (b_insns b)"
  assumes x: "expanded (long_sources J) (b_insns b) (b_lines b) n n x"
  shows "\<exists>insns'. patch_jumps (x_remap x) J (x_insns x, x_pending x) = Some (insns', 0) \<and> code_expanded (long_sources J) J (b_insns b) insns'
    \<and> length insns' = length (x_lines x)"
proof -
  let ?L = "long_sources J"
  note J = sorted_jumps [OF wf, folded J_def]
  note long = long_source_iff [OF J(2)]
  have lt: "fst j < n" "snd j < n" if "j \<in> set J" for j
    using jumps_wfD(1,2) [OF wf] is_start_less that J(3) unfolding n_def by blast+
  have xs: "x_insns x ! newpc ?L p = b_insns b ! p" "newpc ?L p < length (x_insns x)" if "p < n" for p
    using x newpc_before [OF finite_long_sources that, of J] that by (auto simp: expanded_def)
  have tr: "x_insns x ! (newpc ?L s - 2) = ucast LOP_JUMP OR push_bit 16 1" "x_insns x ! (newpc ?L s - 1) = ucast LOP_JUMPX" if "s \<in> ?L" for s
    using x that lt(1) long_sources_subset [of J] unfolding expanded_def by blast+
  have edge: "\<exists>p \<in> {fst j<..snd j}. p \<notin> ?L" if "j \<in> set J" "jump_offset j = kMaxJumpDistanceConservative" for j
    using margin that J(3) unfolding edge_free_def long_sources_def by blast
  have un: "unpatched ?L (x_insns x) j" if "j \<in> set J" for j
  proof (cases "is_long j")
    case True
    then show ?thesis using tr(2) long that by (simp add: unpatched_def LUAU_INSN_OP_def)
  next
    case False
    then have "int16 (jump_offset j)" by (simp add: is_long_def kMaxJumpDistanceConservative_def abs_le_iff not_less)
    then have "LUAU_INSN_D (b_insns b ! fst j) = jump_offset j" using jumps_wfD(4) [OF wf] that J(3) by blast
    moreover have "int16 (new_offset ?L j)" using False long [OF that] edge [OF that] by (intro new_offset_short) auto
    ultimately show ?thesis using False xs lt that by (simp add: unpatched_def)
  qed
  obtain insns' where p: "patch_jumps (map (newpc ?L) [0..<n]) J (x_insns x, x_pending x) = Some (insns', 0)" "length insns' = length (x_insns x)"
    "\<forall>j \<in> set J. patched ?L (x_insns x) insns' j" "\<forall>p. (\<forall>j \<in> set J. p \<notin> touched ?L j) \<longrightarrow> insns' ! p = x_insns x ! p"
    using patch_jumps_sound [of ?L J n "x_insns x" "x_pending x" 0] long J(2) lt xs(2) un
      x pending_trampolines [OF wf] by (auto simp: expanded_def J_def n_def)
  have "insns' ! newpc ?L p = b_insns b ! p" if "p < n" "p \<notin> fst ` set J" for p
  proof -
    have "newpc ?L p \<notin> touched ?L j" if "j \<in> set J" for j
      using that \<open>p \<notin> fst ` set J\<close> newpc_gap(1) [of ?L "fst j" p] long by (auto simp: touched_def)
    then show ?thesis using p(4) xs that by simp
  qed
  moreover have "insns' ! (newpc ?L (fst j) - 2) = ucast LOP_JUMP OR push_bit 16 1" if "j \<in> set J" "is_long j" for j
  proof -
    have s: "fst j \<in> ?L" using long that by blast
    have "newpc ?L (fst j) - 2 \<notin> touched ?L j'" if "j' \<in> set J" for j'
      using gap_trampolines [OF finite_long_sources s, of "fst j'"] newpc_gap(2) [OF finite_long_sources s, of "fst j'"] long [OF that]
      by (auto simp: touched_def)
    then show ?thesis using p(4) tr(1) [OF s] by simp
  qed
  ultimately have "code_expanded ?L J (b_insns b) insns'"
    using p(2,3) xs lt tr newpc_gap(3) [OF finite_long_sources] long unfolding code_expanded_def n_def
    by (auto simp: patched_def Let_def)
  then show ?thesis using p x by (auto simp: expanded_def n_def)
qed

section \<open>Simulation\<close>




lemma JUMPX_field: "LUAU_INSN_OP (ucast LOP_JUMPX) = LOP_JUMPX"
  by (simp add: LUAU_INSN_OP_def)





section \<open>Local variables\<close>









section \<open>Results\<close>

lemma expandJumps_code:
  assumes wf: "jumps_wf b" and long: "b_hasLongJumps b" and "edge_free b"
  defines "J \<equiv> sort_key fst (b_jumps b)" and "remap \<equiv> map (newpc (long_sources (sort_key fst (b_jumps b)))) [0..<length (b_insns b)]"
  assumes dls: "map_all (remap_debug_local remap) (b_debugLocals b) = Some dls"
    and tls: "map_all (remap_typed_local remap) (b_typedLocals b) = Some tls"
  shows "\<exists>b'. expandJumps b = Some (remap, b') \<and> code_expanded (long_sources J) J (b_insns b) (b_insns b')
     \<and> (\<forall>p < length (b_insns b). b_lines b' ! newpc (long_sources J) p = b_lines b ! p) \<and> b_debugLocals b' = dls \<and> b_typedLocals b' = tls"
proof -
  let ?L = "long_sources J" and ?n = "length (b_insns b)"
  note J = sorted_jumps [OF wf, folded J_def]
  obtain x where x: "expand_loop (b_insns b) (b_lines b) 0 J \<lparr>x_insns = [], x_lines = [], x_remap = [], x_pending = 0\<rparr> = Some ([], x)"
    "expanded ?L (b_insns b) (b_lines b) ?n ?n x"
    using expand_loop_whole [OF wf] unfolding J_def by blast
  obtain insns' where p: "patch_jumps (x_remap x) J (x_insns x, x_pending x) = Some (insns', 0)" "code_expanded ?L J (b_insns b) insns'"
    using expand_patched [OF wf assms(3)] x(2) unfolding J_def by blast
  from wf long obtain j where "j \<in> set J" "\<not> int16 (jump_offset j)" using J(3) unfolding jumps_wf_def by blast
  then have "j \<in> set (filter is_long J)" by (auto simp: is_long_def kMaxJumpDistanceConservative_def)
  then have "0 < length (filter is_long J)" by (metis length_pos_if_in_set)
  then have pend: "x_pending x \<noteq> 0" using x(2) pending_trampolines [OF wf] by (simp add: expanded_def J_def)
  have r: "x_remap x = remap" using x(2) by (simp add: expanded_def remap_def J_def)
  have len: "length (b_lines b) = ?n" using wf by (simp add: jumps_wf_def)
  have "expandJumps b = Some (x_remap x, b\<lparr>b_jumps := J, b_insns := insns', b_lines := x_lines x, b_debugLocals := dls, b_typedLocals := tls\<rparr>)"
    unfolding expandJumps_def J_def [symmetric] using long len x(1) pend p(1) dls tls by (simp add: r)
  then show ?thesis using p x(2) r by (auto simp: expanded_def)
qed


text \<open>
  C11. Folding jumps: \<open>foldJumps\<close> succeeds on the code of a function as the compiler records it and
  changes nothing but jumps: a jump goes to a place where its old target leads through
  unconditional jumps, or an unconditional jump is replaced by a copy of the return it leads to.
\<close>

theorem fold_jumps_sound:
  assumes "jumps_wf b"
  shows "\<exists>b'. foldJumps b = Some b' \<and> fold_rel (b_insns b) (b_insns b') \<and> b_lines b' = b_lines b
     \<and> map fst (b_jumps b') = map fst (b_jumps b) \<and> (\<forall>p. p \<notin> fst ` set (b_jumps b) \<longrightarrow> b_insns b' ! p = b_insns b ! p)"
proof (cases "b_hasLongJumps b")
  case False
  have "fold_rel (b_insns b) (b_insns b)" by (simp add: fold_rel_def folded_def)
  from fold_jump_list_sound [OF assms False this, of "b_jumps b"] assms show ?thesis
    using False by (auto simp: jumps_wf_def foldJumps_def)
qed (simp add: foldJumps_def fold_rel_def folded_def)

section \<open>Concrete code\<close>

text \<open>Code of one-word instructions, its jumps recorded but not all patched.\<close>

definition flat_builder :: "u32 list \<Rightarrow> (nat \<times> nat) list \<Rightarrow> builder" where
  "flat_builder insns jumps = builder_new\<lparr>b_insns := insns, b_lines := replicate (length insns) 1, b_jumps := jumps, b_hasLongJumps := True\<rparr>"

lemma flat_builder_simps [simp]: "b_insns (flat_builder insns jumps) = insns" "b_jumps (flat_builder insns jumps) = jumps"
  "b_lines (flat_builder insns jumps) = replicate (length insns) 1" "b_hasLongJumps (flat_builder insns jumps)"
  "b_debugLocals (flat_builder insns jumps) = []" "b_typedLocals (flat_builder insns jumps) = []"
  by (simp_all add: flat_builder_def builder_new_def)

lemma starts_flat: "\<forall>p < length insns. getOpLength (LUAU_INSN_OP (insns ! p)) = 1 \<Longrightarrow> starts_from insns i = [i..<length insns]"
proof (induction insns i rule: starts_from.induct)
  case (1 insns i)
  then show ?case by (subst starts_from.simps) (simp add: upt_conv_Cons)
qed

lemma flat_wf:
  assumes ops: "\<forall>p < length insns. LUAU_INSN_OP (insns ! p) \<in> {0, LOP_RETURN, LOP_JUMPIF, LOP_JUMPIFNOT}"
    and src: "\<forall>p < length insns. LUAU_INSN_OP (insns ! p) \<in> {LOP_JUMPIF, LOP_JUMPIFNOT} \<longleftrightarrow> p \<in> fst ` set jumps"
    and j: "distinct (map fst jumps)" "\<forall>j \<in> set jumps. fst j < length insns \<and> snd j < length insns
      \<and> (int16 (jump_offset j) \<longrightarrow> LUAU_INSN_D (insns ! fst j) = jump_offset j)" "\<exists>j \<in> set jumps. \<not> int16 (jump_offset j)"
  shows "jumps_wf (flat_builder insns jumps)"
proof -
  have op: "op < LOP__COUNT" "op \<noteq> LOP_JUMPX" "getOpLength op = 1" "isJumpD op \<longleftrightarrow> op \<in> {LOP_JUMPIF, LOP_JUMPIFNOT}"
    if "op \<in> {0, LOP_RETURN, LOP_JUMPIF, LOP_JUMPIFNOT}" for op
    using that by (auto simp: LOP__COUNT_def getOpLength_def isJumpD_def)
  have st: "starts_from insns 0 = [0..<length insns]" using starts_flat op(3) ops by blast
  show ?thesis unfolding jumps_wf_def is_start_def Let_def flat_builder_simps st
    using ops src j op by (simp add: Suc_le_eq)
qed

definition far_code :: "nat \<Rightarrow> nat \<Rightarrow> u32 list" where
  "far_code k n = replicate k (insn_AD LOP_JUMPIFNOT 0 0) @ replicate n 0 @ [insn_ABC LOP_RETURN 0 1 0]"

definition far_jumps :: "nat \<Rightarrow> nat \<Rightarrow> (nat \<times> nat) list" where
  "far_jumps k n = map (\<lambda>i. (i, k + n)) [0..<k]"

lemma far_code_op: "p < length (far_code k n) \<Longrightarrow>
    LUAU_INSN_OP (far_code k n ! p) = (if p < k then LOP_JUMPIFNOT else if p < k + n then 0 else LOP_RETURN)"
  by (auto simp: far_code_def nth_append nth_Cons' insn_op LUAU_INSN_OP_def [of 0])

lemma length_far_code [simp]: "length (far_code k n) = Suc (k + n)"
  by (simp add: far_code_def)

lemma far_jumps_source: "fst ` set (far_jumps k n) = {..<k}"
  by (auto simp: far_jumps_def image_image)

lemma far_wf:
  assumes "0 < k" "2 ^ 15 \<le> n"
  shows "jumps_wf (flat_builder (far_code k n) (far_jumps k n))"
proof (rule flat_wf)
  show "\<forall>p < length (far_code k n). LUAU_INSN_OP (far_code k n ! p) \<in> {LOP_JUMPIF, LOP_JUMPIFNOT} \<longleftrightarrow> p \<in> fst ` set (far_jumps k n)"
    by (simp add: far_code_op far_jumps_source)
  show "\<exists>j \<in> set (far_jumps k n). \<not> int16 (jump_offset j)"
    by (rule bexI [of _ "(0, k + n)"]) (use assms in \<open>auto simp: far_jumps_def jump_offset_def image_iff\<close>)
qed (use assms in \<open>auto simp: far_code_op far_jumps_def jump_offset_def o_def\<close>)


definition small_builder :: builder where
  "small_builder = builder_new\<lparr>b_insns := [insn_AD LOP_JUMPIFNOT 0 1, 0, insn_AD LOP_JUMP 0 1, 0, insn_ABC LOP_RETURN 0 1 0],
     b_lines := [1, 1, 2, 3, 4], b_jumps := [(0, 2), (2, 4)]\<rparr>"

lemma small_builder_simps: "b_insns small_builder = [insn_AD LOP_JUMPIFNOT 0 1, 0, insn_AD LOP_JUMP 0 1, 0, insn_ABC LOP_RETURN 0 1 0]"
  "b_lines small_builder = [1, 1, 2, 3, 4]" "b_jumps small_builder = [(0, 2), (2, 4)]" "\<not> b_hasLongJumps small_builder"
  by (simp_all add: small_builder_def builder_new_def)

lemma small_builder_wf: "jumps_wf small_builder"
proof -
  have op0: "LUAU_INSN_OP 0 = 0" by (simp add: LUAU_INSN_OP_def)
  have "starts_from (b_insns small_builder) 0 = [0..<length (b_insns small_builder)]"
    by (rule starts_flat) (simp add: small_builder_simps All_less_Suc insn_op op0 getOpLength_def)
  then have st: "starts_from (b_insns small_builder) 0 = [0, 1, 2, 3, 4]" by (simp add: small_builder_simps upt_rec)
  have D: "LUAU_INSN_D (insn_AD LOP_JUMPIFNOT 0 1) = 1" "LUAU_INSN_D (insn_AD LOP_JUMP 0 1) = 1" by (simp_all add: insn_D)
  show ?thesis
    unfolding jumps_wf_def is_start_def st unfolding small_builder_simps Let_def
    by (simp add: insn_op op0 D getOpLength_def LOP__COUNT_def isJumpD_def jump_offset_def small_builder_simps)
qed

theorem fold_jumps_sound_witness:
  "\<exists>b'. foldJumps small_builder = Some b' \<and> b_lines b' = [1, 1, 2, 3, 4] \<and> folded (b_insns small_builder) (b_insns b') 2"
proof -
  obtain b' where b': "foldJumps small_builder = Some b'" "fold_rel (b_insns small_builder) (b_insns b')" "b_lines b' = b_lines small_builder"
    using fold_jumps_sound [OF small_builder_wf] by blast
  have "folded (b_insns small_builder) (b_insns b') 2" using b'(2) unfolding fold_rel_def by (simp add: small_builder_simps)
  then show ?thesis using b'(1,3) small_builder_simps(2) by auto
qed

section \<open>The edges of the bounds\<close>

text \<open>
  A conditional jump over 10922 conditional jumps to a later place, onto one more of them:
  \<open>if (b or (a and \<dots> and a)) and d then \<dots> end\<close> with a long body compiles to this shape.
\<close>

definition edge_code :: "u32 list" where
  "edge_code = insn_AD LOP_JUMPIF 0 10922 # far_code 10923 40000"

definition edge_jumps :: "(nat \<times> nat) list" where
  "edge_jumps = (0, 10923) # map (\<lambda>i. (Suc i, 50924)) [0..<10923]"

lemma edge_sources: "fst ` set (map (\<lambda>i. (Suc i, 50924 :: nat)) [0..<10923]) = {Suc 0..<10924}"
  unfolding set_map set_upt image_image fst_conv image_Suc_atLeastLessThan by simp

lemma edge_long: "i < 10923 \<Longrightarrow> \<not> int16 (jump_offset (Suc i, 50924))"
  by (simp add: jump_offset_def)

lemma edge_wf: "jumps_wf (flat_builder edge_code edge_jumps)"
proof (rule flat_wf)
  have op: "LUAU_INSN_OP (edge_code ! p) = (if p = 0 then LOP_JUMPIF else if p < 10924 then LOP_JUMPIFNOT else if p < 50924 then 0 else LOP_RETURN)"
    if "p < length edge_code" for p
    using that by (cases p) (auto simp: edge_code_def insn_op far_code_op)
  have src: "fst ` set edge_jumps = insert 0 {Suc 0..<10924}" unfolding edge_jumps_def using edge_sources by simp
  show "\<forall>p < length edge_code. LUAU_INSN_OP (edge_code ! p) \<in> {0, LOP_RETURN, LOP_JUMPIF, LOP_JUMPIFNOT}" by (simp add: op)
  show "\<forall>p < length edge_code. LUAU_INSN_OP (edge_code ! p) \<in> {LOP_JUMPIF, LOP_JUMPIFNOT} \<longleftrightarrow> p \<in> fst ` set edge_jumps"
    unfolding src by (simp add: op Suc_le_eq)
  have "distinct (map fst (map (\<lambda>i. (Suc i, 50924 :: nat)) [0..<10923]))" unfolding map_map o_def fst_conv by (simp add: distinct_map)
  then show "distinct (map fst edge_jumps)" unfolding edge_jumps_def list.map distinct.simps by simp
  show "\<forall>j \<in> set edge_jumps. fst j < length edge_code \<and> snd j < length edge_code
      \<and> (int16 (jump_offset j) \<longrightarrow> LUAU_INSN_D (edge_code ! fst j) = jump_offset j)"
    unfolding edge_jumps_def using edge_long by (auto simp: edge_code_def insn_D jump_offset_def)
  show "\<exists>j \<in> set edge_jumps. \<not> int16 (jump_offset j)"
    unfolding edge_jumps_def using edge_long [of 0] by (intro bexI [of _ "(Suc 0, 50924)"]) (auto simp: image_iff)
qed

lemma long_sources_Cons_short: "\<not> is_long j \<Longrightarrow> long_sources (j # js) = long_sources js"
  unfolding long_sources_def by (intro arg_cong [where f = "image fst"]) auto

lemma long_sources_all: "\<forall>j \<in> set js. is_long j \<Longrightarrow> long_sources js = fst ` set js"
  by (auto simp: long_sources_def)

lemma edge_tail_long: "\<forall>j \<in> set (map (\<lambda>i. (Suc i, 50924 :: nat)) [0..<10923]). is_long j"
  unfolding set_map ball_simps set_upt by (simp add: is_long_def jump_offset_def kMaxJumpDistanceConservative_def)

lemma edge_long_sources: "long_sources edge_jumps = {Suc 0..<10924}"
proof -
  have h: "\<not> is_long (0, 10923)" by (simp add: is_long_def jump_offset_def kMaxJumpDistanceConservative_def)
  show ?thesis unfolding edge_jumps_def long_sources_Cons_short [OF h] long_sources_all [OF edge_tail_long] by (rule edge_sources)
qed

lemma edge_count: "card {s \<in> long_sources edge_jumps. 0 < s \<and> s \<le> 10923} = 10923"
proof -
  have "{s \<in> long_sources edge_jumps. 0 < s \<and> s \<le> 10923} = {Suc 0..<10924}"
    unfolding edge_long_sources by (rule set_eqI) (simp, linarith)
  then show ?thesis by (simp only: card_atLeastLessThan)
qed

lemma edge_offset: "new_offset (long_sources edge_jumps) (0, 10923) = 32768"
  by (subst new_offset_forward) (simp_all add: edge_count jump_offset_def)

text \<open>
  The conservative distance is one too large: there is code as the compiler records it on which
  \<open>expandJumps\<close> leaves a jump short whose new offset is 32768, so that its assertion on the 16-bit
  offset fails (and without assertions the offset wraps around to -32768).
\<close>

theorem expand_jumps_edge:
  "jumps_wf (flat_builder edge_code edge_jumps) \<and> new_offset (long_sources edge_jumps) (0, 10923) = 32768
   \<and> LUAU_INSN_D (set_D (edge_code ! 0) 32768) = - 32768 \<and> expandJumps (flat_builder edge_code edge_jumps) = None"
proof -
  let ?b = "flat_builder edge_code edge_jumps"
  have "sorted (map fst edge_jumps)" unfolding edge_jumps_def by (simp add: sorted_map comp_def flip: map_Suc_upt)
  then have J: "sort_key fst (b_jumps ?b) = edge_jumps" by (simp add: sorted_sort_id sort_key_id_if_sorted)
  obtain x where x: "expand_loop edge_code (b_lines ?b) 0 edge_jumps \<lparr>x_insns = [], x_lines = [], x_remap = [], x_pending = 0\<rparr> = Some ([], x)"
    "expanded (long_sources edge_jumps) edge_code (b_lines ?b) (length edge_code) (length edge_code) x"
    using expand_loop_whole [OF edge_wf] unfolding J by auto
  have r: "x_remap x = map (newpc (long_sources edge_jumps)) [0..<length edge_code]" using x(2) by (simp add: expanded_def)
  have len: "length edge_code = 50925" by (simp add: edge_code_def)
  have "patch_jump (x_remap x) (0, 10923) (x_insns x, x_pending x) = None"
    using edge_offset unfolding r len
    by (simp add: patch_jump_def new_offset_def is_long_def jump_offset_def kMaxJumpDistanceConservative_def Let_def)
  then have "patch_jumps (x_remap x) edge_jumps (x_insns x, x_pending x) = None" unfolding edge_jumps_def by simp
  then have "expandJumps ?b = None" using x(1) unfolding expandJumps_def J by (simp add: Let_def)
  moreover have "LUAU_INSN_D (set_D (edge_code ! 0) 32768) = - 32768" by (simp add: set_D_eq_insn_AD insn_D)
  ultimately show ?thesis using edge_wf edge_offset by blast
qed

text \<open>
  The reach of a trampoline is not checked: \<open>patchJumpD\<close> accepts distances below \<open>2 ^ 23\<close>, but the
  expansion adds to the distance. There is code as the compiler records it for which \<open>expandJumps\<close>
  succeeds and the \<open>JUMPX\<close> of the first jump does not lead to the place of its target, because the
  distance wrapped around in the 24-bit field.
\<close>

theorem expand_jumps_reach:
  "\<exists>remap b'. jumps_wf (flat_builder (far_code 2 8388606) (far_jumps 2 8388606))
     \<and> list_all (\<lambda>j. abs (jump_offset j) < kMaxJumpDistance) (far_jumps 2 8388606)
     \<and> expandJumps (flat_builder (far_code 2 8388606) (far_jumps 2 8388606)) = Some (remap, b')
     \<and> LUAU_INSN_OP (b_insns b' ! 1) = LOP_JUMPX \<and> 1 + 1 + LUAU_INSN_E (b_insns b' ! 1) = int (remap ! 8388608) - 2 ^ 24"
proof -
  let ?b = "flat_builder (far_code 2 8388606) (far_jumps 2 8388606)" and ?J = "far_jumps 2 8388606"
  have wf: "jumps_wf ?b" by (rule far_wf) simp_all
  have jumps: "?J = [(0, 8388608), (1, 8388608)]" unfolding far_jumps_def by (simp add: upt_rec)
  have L: "long_sources ?J = {0, 1}"
    by (subst long_sources_all) (simp_all add: jumps is_long_def jump_offset_def kMaxJumpDistanceConservative_def)
  have J: "sort_key fst (b_jumps ?b) = ?J" by (simp add: jumps)
  have e: "edge_free ?b" by (simp add: edge_free_def jumps jump_offset_def kMaxJumpDistanceConservative_def)
  obtain b' where b': "expandJumps ?b = Some (map (newpc {0, 1}) [0..<length (b_insns ?b)], b')" "code_expanded {0, 1} ?J (b_insns ?b) (b_insns b')"
    using expandJumps_code [OF wf flat_builder_simps(4) e, unfolded J L] by (metis flat_builder_simps(5,6) map_all.simps(1))
  have b0: "{s \<in> {0, 1}. s < Suc 0} = {0 :: nat}" "{s \<in> {0, 1 :: nat}. s < Suc 8388608} = {0, 1}" by auto
  have n: "newpc {0, 1} 0 = 2" "newpc {0, 1} 8388608 = 8388612" unfolding newpc_def longs_before_def b0 by simp_all
  have "b_insns b' ! (newpc {0, 1} 0 - 1) = set_E (ucast LOP_JUMPX) (new_offset {0, 1} (0, 8388608) + 1)"
    using b'(2) L long_source_iff [of ?J "(0, 8388608)"] unfolding code_expanded_def jumps by (simp add: Let_def)
  then have i: "b_insns b' ! 1 = set_E (ucast LOP_JUMPX) 8388610" using n by (simp add: new_offset_def)
  have "LUAU_INSN_E (set_E (ucast LOP_JUMPX) 8388610) = 8388610 - 2 ^ 24" by (simp add: set_E_def LUAU_INSN_E_def)
  moreover have "list_all (\<lambda>j. abs (jump_offset j) < kMaxJumpDistance) ?J" by (simp add: jumps jump_offset_def kMaxJumpDistance_def)
  moreover have "map (newpc {0, 1}) [0..<length (b_insns ?b)] ! 8388608 = 8388612" using n(2) by simp
  ultimately show ?thesis using wf b'(1) i set_E_fields(1) JUMPX_field
    by (intro exI [of _ "map (newpc {0, 1}) [0..<length (b_insns ?b)]"] exI [of _ b']) simp
qed

end
