(* ===== verification/LuaTable.thy ===== *)
theory LuaTable
  imports Numbers
begin

text \<open>
  The tables of the VM, \<^verbatim>\<open>VM/src/ltable.cpp\<close>: an array part and a hash part that is a chained
  scatter table with Brent's variation. This theory holds the data and the operations; their
  correctness is in the theories after it.

  A value is \<open>'v option\<close> with \<open>None\<close> for nil. The common \<open>dummynode\<close> is the empty node list. A pointer to
  a value slot is a \<open>slot\<close>. The addresses of the two parts, which an assertion compares, are stamps
  that change with every allocation. The hash a string carries is the function \<open>ts_hash\<close> on addresses.
\<close>

section \<open>Keys\<close>

datatype lkey =
    KNumber u64
  | KInteger u64
  | KVector u32 u32 u32
  | KBoolean bool
  | KLightUserdata u64 u32
  | KString u64
  | KObject u8 u64

datatype tkey = NilKey | DeadKey u64 | LiveKey lkey

fun luaO_rawequalKey :: "lkey \<Rightarrow> lkey \<Rightarrow> bool" where
  "luaO_rawequalKey (KNumber a) (KNumber b) = luai_numeq a b"
| "luaO_rawequalKey (KInteger a) (KInteger b) = (a = b)"
| "luaO_rawequalKey (KVector x y z) (KVector x' y' z') = (numeq32 x x' \<and> numeq32 y y' \<and> numeq32 z z')"
| "luaO_rawequalKey (KBoolean a) (KBoolean b) = (a = b)"
| "luaO_rawequalKey (KLightUserdata p tag) (KLightUserdata p' tag') = (p = p' \<and> tag = tag')"
| "luaO_rawequalKey (KString p) (KString p') = (p = p')"
| "luaO_rawequalKey (KObject tt p) (KObject tt' p') = (tt = tt' \<and> p = p')"
| "luaO_rawequalKey _ _ = False"

fun gckey :: "lkey \<Rightarrow> u64 option" where
  "gckey (KString p) = Some p"
| "gckey (KObject tt p) = Some p"
| "gckey _ = None"

definition keyeq :: "tkey \<Rightarrow> lkey \<Rightarrow> bool" where
  "keyeq tk key \<longleftrightarrow> (case tk of LiveKey k \<Rightarrow> luaO_rawequalKey k key | _ \<Rightarrow> False)"

section \<open>Hash functions\<close>

definition hashpointer :: "u64 \<Rightarrow> u32" where
  "hashpointer p =
     (let h = ucast p;
          h = h XOR drop_bit 16 h;
          h = h * 0x85ebca6b;
          h = h XOR drop_bit 13 h;
          h = h * 0xc2b2ae35
      in h XOR drop_bit 16 h)"

definition hash64 :: "u32 \<Rightarrow> u32 \<Rightarrow> u32" where
  "hash64 h1 h2 =
     (let m = 0x5bd1e995;
          h1 = (h1 XOR drop_bit 18 h2) * m;
          h2 = (h2 XOR drop_bit 22 h1) * m;
          h1 = (h1 XOR drop_bit 17 h2) * m
      in (h2 XOR drop_bit 19 h1) * m)"

definition hashnum :: "u64 \<Rightarrow> u32" where
  "hashnum n = hash64 (ucast n) (ucast (drop_bit 32 n) AND 0x7fffffff)"

definition hashint :: "u64 \<Rightarrow> u32" where
  "hashint n = hash64 (ucast n) (ucast (drop_bit 32 n))"

definition hashvec_lane :: "u32 \<Rightarrow> u32" where
  "hashvec_lane i = (let i = (if i = 0x80000000 then 0 else i) in i XOR drop_bit 17 i)"

definition hashvec :: "u32 \<Rightarrow> u32 \<Rightarrow> u32 \<Rightarrow> u32" where
  "hashvec x y z = hashvec_lane x * 73856093 XOR hashvec_lane y * 19349663 XOR hashvec_lane z * 83492791"

fun hashkey :: "(u64 \<Rightarrow> u32) \<Rightarrow> lkey \<Rightarrow> u32" where
  "hashkey ts_hash (KNumber n) = hashnum n"
| "hashkey ts_hash (KInteger n) = hashint n"
| "hashkey ts_hash (KVector x y z) = hashvec x y z"
| "hashkey ts_hash (KString p) = ts_hash p"
| "hashkey ts_hash (KBoolean b) = (if b then 1 else 0)"
| "hashkey ts_hash (KLightUserdata p tag) = hashpointer p"
| "hashkey ts_hash (KObject tt p) = hashpointer p"

section \<open>Tables\<close>

record 'v node =
  n_val :: "'v option"
  n_key :: tkey
  n_next :: int

definition luaH_dummynode :: "'v node" where
  "luaH_dummynode = \<lparr>n_val = None, n_key = NilKey, n_next = 0\<rparr>"

record 'v ltable =
  lt_tmcache :: u8
  lt_readonly :: bool
  lt_safeenv :: bool
  lt_lsizenode :: nat
  lt_nodemask8 :: u8
  lt_lastfree :: int
  lt_metatable :: "u64 option"
  lt_array :: "'v option list"
  lt_node :: "'v node list"
  lt_arrayptr :: nat
  lt_nodeptr :: nat

datatype lt_error = TableOverflow | IndexNil | IndexNaN | IndexVectorNaN | InvalidNextKey | AssertFailed | NoReturn

datatype slot = NilObject | ArraySlot nat | NodeSlot nat

definition bindE :: "'e + 'a \<Rightarrow> ('a \<Rightarrow> 'e + 'b) \<Rightarrow> 'e + 'b" where
  "bindE m f = (case m of Inl e \<Rightarrow> Inl e | Inr x \<Rightarrow> f x)"

definition MAXBITS :: nat where
  "MAXBITS = 26"

definition MAXSIZE :: nat where
  "MAXSIZE = 2 ^ MAXBITS"

abbreviation sizearray :: "'v ltable \<Rightarrow> nat" where
  "sizearray t \<equiv> length (lt_array t)"

definition is_dummy :: "'v ltable \<Rightarrow> bool" where
  "is_dummy t \<longleftrightarrow> lt_node t = []"

definition sizenode :: "'v ltable \<Rightarrow> nat" where
  "sizenode t = 2 ^ lt_lsizenode t"

definition gnode :: "'v ltable \<Rightarrow> nat \<Rightarrow> 'v node" where
  "gnode t i = (if is_dummy t then luaH_dummynode else lt_node t ! i)"

definition upd_node :: "nat \<Rightarrow> ('v node \<Rightarrow> 'v node) \<Rightarrow> 'v ltable \<Rightarrow> 'v ltable" where
  "upd_node i f t = t\<lparr>lt_node := (lt_node t)[i := f (lt_node t ! i)]\<rparr>"

definition hashpow2 :: "'v ltable \<Rightarrow> u32 \<Rightarrow> nat" where
  "hashpow2 t n = unat (n AND (2 ^ lt_lsizenode t - 1))"

definition mainposition :: "(u64 \<Rightarrow> u32) \<Rightarrow> 'v ltable \<Rightarrow> lkey \<Rightarrow> nat" where
  "mainposition ts_hash t key = hashpow2 t (hashkey ts_hash key)"

section \<open>Slots\<close>

fun slot_value :: "'v ltable \<Rightarrow> slot \<Rightarrow> 'v option" where
  "slot_value t NilObject = None"
| "slot_value t (ArraySlot i) = lt_array t ! i"
| "slot_value t (NodeSlot i) = n_val (gnode t i)"

text \<open>An assignment through the pointer an operation returned.\<close>

fun setobj :: "slot \<Rightarrow> 'v option \<Rightarrow> 'v ltable \<Rightarrow> 'v ltable" where
  "setobj NilObject v t = t"
| "setobj (ArraySlot i) v t = t\<lparr>lt_array := (lt_array t)[i := v]\<rparr>"
| "setobj (NodeSlot i) v t = upd_node i (\<lambda>n. n\<lparr>n_val := v\<rparr>) t"

section \<open>Lookup\<close>

text \<open>
  A walk along a chain. It makes at most as many steps as there are nodes; a walk that would be
  longer or leaves the node array has no result.
\<close>

fun chain_find :: "(tkey \<Rightarrow> bool) \<Rightarrow> 'v ltable \<Rightarrow> nat \<Rightarrow> nat \<Rightarrow> nat option option" where
  "chain_find P t 0 n = None"
| "chain_find P t (Suc fuel) n =
     (if P (n_key (gnode t n)) then Some (Some n)
      else let next = n_next (gnode t n); m = int n + next
           in if next = 0 then Some None
              else if m < 0 \<or> int (sizenode t) \<le> m then None
              else chain_find P t fuel (nat m))"

definition find_slot :: "(tkey \<Rightarrow> bool) \<Rightarrow> 'v ltable \<Rightarrow> nat \<Rightarrow> lt_error + slot" where
  "find_slot P t n =
     (case chain_find P t (sizenode t) n of
        None \<Rightarrow> Inl NoReturn
      | Some None \<Rightarrow> Inr NilObject
      | Some (Some m) \<Rightarrow> Inr (NodeSlot m))"

definition luaH_getnum :: "'v ltable \<Rightarrow> int \<Rightarrow> lt_error + slot" where
  "luaH_getnum t key =
     (if 1 \<le> key \<and> key \<le> int (sizearray t) then Inr (ArraySlot (nat key - 1))
      else if is_dummy t then Inr NilObject
      else find_slot (\<lambda>tk. case tk of LiveKey (KNumber n) \<Rightarrow> luai_numeq n (cast_num key) | _ \<Rightarrow> False) t (hashpow2 t (hashnum (cast_num key))))"

definition luaH_getstr :: "(u64 \<Rightarrow> u32) \<Rightarrow> 'v ltable \<Rightarrow> u64 \<Rightarrow> lt_error + slot" where
  "luaH_getstr ts_hash t key =
     (if is_dummy t then Inr NilObject
      else find_slot (\<lambda>tk. tk = LiveKey (KString key)) t (hashpow2 t (ts_hash key)))"

definition luaH_getp :: "'v ltable \<Rightarrow> u64 \<Rightarrow> u32 \<Rightarrow> lt_error + slot" where
  "luaH_getp t key tag =
     (if is_dummy t then Inr NilObject
      else find_slot (\<lambda>tk. tk = LiveKey (KLightUserdata key tag)) t (hashpow2 t (hashpointer key)))"

definition get_generic :: "(u64 \<Rightarrow> u32) \<Rightarrow> 'v ltable \<Rightarrow> lkey \<Rightarrow> lt_error + slot" where
  "get_generic ts_hash t key =
     (if is_dummy t then Inr NilObject else find_slot (\<lambda>tk. keyeq tk key) t (mainposition ts_hash t key))"

text \<open>A nil key is \<open>None\<close>.\<close>

fun luaH_get :: "(u64 \<Rightarrow> u32) \<Rightarrow> 'v ltable \<Rightarrow> lkey option \<Rightarrow> lt_error + slot" where
  "luaH_get ts_hash t None = Inr NilObject"
| "luaH_get ts_hash t (Some (KString key)) = luaH_getstr ts_hash t key"
| "luaH_get ts_hash t (Some (KNumber n)) =
     (case dbl_int n of
        Some k \<Rightarrow> if - (2 ^ 31) \<le> k \<and> k < 2 ^ 31 then luaH_getnum t k else get_generic ts_hash t (KNumber n)
      | None \<Rightarrow> get_generic ts_hash t (KNumber n))"
| "luaH_get ts_hash t (Some key) = get_generic ts_hash t key"

section \<open>Free positions and chains\<close>

fun free_before :: "'v ltable \<Rightarrow> nat \<Rightarrow> nat option \<times> nat" where
  "free_before t 0 = (None, 0)"
| "free_before t (Suc l) = (if n_key (gnode t l) = NilKey then (Some l, l) else free_before t l)"

definition getfreepos :: "'v ltable \<Rightarrow> nat option \<times> 'v ltable" where
  "getfreepos t =
     (if lt_lastfree t > 0
      then let (n, l) = free_before t (nat (lt_lastfree t)) in (n, t\<lparr>lt_lastfree := int l\<rparr>)
      else (None, t))"

fun find_prev :: "'v ltable \<Rightarrow> nat \<Rightarrow> nat \<Rightarrow> nat \<Rightarrow> nat option" where
  "find_prev t mp 0 othern = None"
| "find_prev t mp (Suc fuel) othern =
     (let m = int othern + n_next (gnode t othern)
      in if m = int mp then Some othern
         else if m < 0 \<or> int (sizenode t) \<le> m then None
         else find_prev t mp fuel (nat m))"

text \<open>The colliding node moves to the free position \<open>n\<close>, which takes its place in the chain.\<close>

definition move_node :: "nat \<Rightarrow> nat \<Rightarrow> nat \<Rightarrow> 'v ltable \<Rightarrow> 'v ltable" where
  "move_node prev mp n t =
     (let t = upd_node prev (\<lambda>nd. nd\<lparr>n_next := int n - int prev\<rparr>) t;
          t = upd_node n (\<lambda>_. gnode t mp) t;
          t = (if n_next (gnode t mp) \<noteq> 0
               then upd_node mp (\<lambda>nd. nd\<lparr>n_next := 0\<rparr>) (upd_node n (\<lambda>nd. nd\<lparr>n_next := n_next nd + (int mp - int n)\<rparr>) t)
               else t)
      in upd_node mp (\<lambda>nd. nd\<lparr>n_val := None\<rparr>) t)"

text \<open>The free position \<open>n\<close> is chained right after \<open>mp\<close>.\<close>

definition chain_node :: "nat \<Rightarrow> nat \<Rightarrow> 'v ltable \<Rightarrow> 'v ltable" where
  "chain_node mp n t =
     (let t = (if n_next (gnode t mp) \<noteq> 0 then upd_node n (\<lambda>nd. nd\<lparr>n_next := (int mp + n_next (gnode t mp)) - int n\<rparr>) t else t)
      in upd_node mp (\<lambda>nd. nd\<lparr>n_next := int n - int mp\<rparr>) t)"

definition setnodekey :: "nat \<Rightarrow> lkey \<Rightarrow> 'v ltable \<Rightarrow> lt_error + nat option \<times> 'v ltable" where
  "setnodekey mp key t =
     (if n_val (gnode t mp) \<noteq> None then Inl AssertFailed
      else Inr (Some mp, upd_node mp (\<lambda>nd. nd\<lparr>n_key := LiveKey key\<rparr>) t))"

text \<open>The part of \<open>newkey\<close> that needs no rehash; \<open>None\<close> when there is no free position.\<close>

definition place_key :: "(u64 \<Rightarrow> u32) \<Rightarrow> 'v ltable \<Rightarrow> lkey \<Rightarrow> lt_error + nat option \<times> 'v ltable" where
  "place_key ts_hash t key =
     (let mp = mainposition ts_hash t key
      in if n_val (gnode t mp) \<noteq> None \<or> is_dummy t
         then (case getfreepos t of
                 (None, t1) \<Rightarrow> Inr (None, t1)
               | (Some n, t1) \<Rightarrow>
                   (case n_key (gnode t1 mp) of
                      LiveKey mk \<Rightarrow>
                        let othern = mainposition ts_hash t1 mk
                        in if othern \<noteq> mp
                           then (case find_prev t1 mp (sizenode t1) othern of
                                   None \<Rightarrow> Inl NoReturn
                                 | Some prev \<Rightarrow> setnodekey mp key (move_node prev mp n t1))
                           else if n_next (gnode t1 mp) = 0 \<and> n_next (gnode t1 n) \<noteq> 0 then Inl AssertFailed
                           else setnodekey n key (chain_node mp n t1)
                    | _ \<Rightarrow> Inl AssertFailed))
         else setnodekey mp key t)"

section \<open>Resizing\<close>

definition setarrayvector :: "nat \<Rightarrow> 'v ltable \<Rightarrow> lt_error + 'v ltable" where
  "setarrayvector sz t =
     (if sz > MAXSIZE then Inl TableOverflow
      else Inr (t\<lparr>lt_array := take sz (lt_array t) @ replicate (sz - sizearray t) None, lt_arrayptr := Suc (lt_arrayptr t)\<rparr>))"

definition setnodevector :: "nat \<Rightarrow> 'v ltable \<Rightarrow> lt_error + 'v ltable" where
  "setnodevector sz t =
     (if sz = 0
      then Inr (t\<lparr>lt_node := [], lt_nodeptr := 0, lt_lsizenode := 0, lt_nodemask8 := 0, lt_lastfree := 0\<rparr>)
      else let lsize = ceillog2 sz
           in if lsize > MAXBITS then Inl TableOverflow
              else Inr (t\<lparr>lt_node := replicate (2 ^ lsize) luaH_dummynode, lt_nodeptr := Suc (lt_nodeptr t), lt_lsizenode := lsize,
                          lt_nodemask8 := of_nat (2 ^ lsize - 1), lt_lastfree := 2 ^ lsize\<rparr>))"

type_synonym 'v newkey_fn = "'v ltable \<Rightarrow> lkey \<Rightarrow> lt_error + slot \<times> 'v ltable"

definition arrayornewkey :: "'v newkey_fn \<Rightarrow> 'v newkey_fn" where
  "arrayornewkey newkey t key =
     (case key of
        KNumber n \<Rightarrow>
          let k = arrayindex n in if 1 \<le> k \<and> k \<le> int (sizearray t) then Inr (ArraySlot (nat k - 1), t) else newkey t key
      | _ \<Rightarrow> newkey t key)"

fun migrate_array :: "'v newkey_fn \<Rightarrow> nat \<Rightarrow> 'v option list \<Rightarrow> 'v ltable \<Rightarrow> lt_error + 'v ltable" where
  "migrate_array newkey i [] t = Inr t"
| "migrate_array newkey i (None # vs) t = migrate_array newkey (Suc i) vs t"
| "migrate_array newkey i (Some v # vs) t =
     bindE (newkey t (KNumber (cast_num (int i + 1)))) (\<lambda>(s, t). migrate_array newkey (Suc i) vs (setobj s (Some v) t))"

fun migrate_hash :: "'v newkey_fn \<Rightarrow> 'v node list \<Rightarrow> 'v ltable \<Rightarrow> lt_error + 'v ltable" where
  "migrate_hash newkey [] t = Inr t"
| "migrate_hash newkey (old # olds) t =
     (case n_val old of
        None \<Rightarrow> migrate_hash newkey olds t
      | Some v \<Rightarrow>
          (case n_key old of
             LiveKey key \<Rightarrow> bindE (arrayornewkey newkey t key) (\<lambda>(s, t). migrate_hash newkey olds (setobj s (Some v) t))
           | _ \<Rightarrow> Inl AssertFailed))"

definition resize :: "'v newkey_fn \<Rightarrow> 'v ltable \<Rightarrow> nat \<Rightarrow> nat \<Rightarrow> lt_error + 'v ltable" where
  "resize newkey t nasize nhsize =
     (if nasize > MAXSIZE \<or> nhsize > MAXSIZE then Inl TableOverflow
      else
        let oldasize = sizearray t; nold = lt_node t; oldarray = lt_array t
        in bindE (if nasize > oldasize then setarrayvector nasize t else Inr t) (\<lambda>t.
           bindE (setnodevector nhsize t) (\<lambda>t.
             let nnew = lt_nodeptr t
             in bindE (if nasize < oldasize
                       then map_sum id (\<lambda>t. t\<lparr>lt_arrayptr := Suc (lt_arrayptr t)\<rparr>)
                              (migrate_array newkey nasize (drop nasize oldarray) (t\<lparr>lt_array := take nasize oldarray\<rparr>))
                       else Inr t) (\<lambda>t.
                let anew = lt_arrayptr t
                in bindE (migrate_hash newkey (rev nold) t) (\<lambda>t.
                   if nnew \<noteq> lt_nodeptr t \<or> anew \<noteq> lt_arrayptr t then Inl AssertFailed else Inr t)))))"

section \<open>Rehashing\<close>

fun computesizes_from :: "nat list \<Rightarrow> nat \<Rightarrow> nat \<Rightarrow> nat \<Rightarrow> nat \<Rightarrow> nat \<Rightarrow> (nat \<times> nat) option" where
  "computesizes_from nums narray twotoi a na n =
     (if twotoi div 2 < narray then
        (case nums of
           [] \<Rightarrow> None
         | c # nums' \<Rightarrow>
             let a' = (if c > 0 then a + c else a);
                 better = (c > 0 \<and> a' > twotoi div 2);
                 n' = (if better then twotoi else n);
                 na' = (if better then a' else na)
             in if a' = narray then Some (n', na') else computesizes_from nums' narray (twotoi * 2) a' na' n')
      else Some (n, na))"

declare computesizes_from.simps [simp del]

definition computesizes :: "nat list \<Rightarrow> nat \<Rightarrow> lt_error + nat \<times> nat" where
  "computesizes nums narray =
     (case computesizes_from nums narray 1 0 0 0 of
        None \<Rightarrow> Inl NoReturn
      | Some (n, na) \<Rightarrow> if n div 2 \<le> na \<and> na \<le> n then Inr (n, na) else Inl AssertFailed)"

definition countint :: "u64 \<Rightarrow> nat list \<Rightarrow> nat \<times> nat list" where
  "countint key nums =
     (let k = arrayindex key
      in if 0 < k \<and> k \<le> int MAXSIZE then (1, nums[ceillog2 (nat k) := nums ! ceillog2 (nat k) + 1]) else (0, nums))"

definition count_slots :: "'v ltable \<Rightarrow> nat \<Rightarrow> nat \<Rightarrow> nat" where
  "count_slots t i lim = length (filter (\<lambda>j. lt_array t ! (j - 1) \<noteq> None) [i..<lim + 1])"

function numusearray_from :: "'v ltable \<Rightarrow> nat \<Rightarrow> nat \<Rightarrow> nat list \<Rightarrow> nat \<Rightarrow> nat \<times> nat list" where
  "numusearray_from t lg i nums ause =
     (if lg \<le> MAXBITS then
        let ttlg = 2 ^ lg; lim = min ttlg (sizearray t)
        in if ttlg > sizearray t \<and> i > lim then (ause, nums)
           else let lc = count_slots t i lim
                in numusearray_from t (lg + 1) (max i (lim + 1)) (nums[lg := nums ! lg + lc]) (ause + lc)
      else (ause, nums))"
  by pat_completeness auto
termination
  by (relation "measure (\<lambda>(t, lg, i, nums, ause). MAXBITS + 1 - lg)") auto

declare numusearray_from.simps [simp del]

definition numusearray :: "'v ltable \<Rightarrow> nat list \<Rightarrow> nat \<times> nat list" where
  "numusearray t nums = numusearray_from t 0 1 nums 0"

fun numusehash_from :: "'v node list \<Rightarrow> nat list \<Rightarrow> nat \<Rightarrow> nat \<Rightarrow> nat \<times> nat \<times> nat list" where
  "numusehash_from [] nums totaluse ause = (totaluse, ause, nums)"
| "numusehash_from (n # ns) nums totaluse ause =
     (if n_val n \<noteq> None
      then (case n_key n of
              LiveKey (KNumber k) \<Rightarrow> let (c, nums') = countint k nums in numusehash_from ns nums' (totaluse + 1) (ause + c)
            | _ \<Rightarrow> numusehash_from ns nums (totaluse + 1) ause)
      else numusehash_from ns nums totaluse ause)"

definition numusehash :: "'v ltable \<Rightarrow> nat list \<Rightarrow> nat \<times> nat \<times> nat list" where
  "numusehash t nums = numusehash_from (rev (lt_node t)) nums 0 0"

text \<open>
  Each turn finds another key of the table or the extra key, so the number of keys bounds the turns.
\<close>

fun adjust_loop :: "nat \<Rightarrow> 'v ltable \<Rightarrow> bool \<Rightarrow> int \<Rightarrow> nat \<Rightarrow> lt_error + nat" where
  "adjust_loop 0 t tbound ekindex sz = Inl NoReturn"
| "adjust_loop (Suc fuel) t tbound ekindex sz =
     (if int sz + 1 = ekindex then adjust_loop fuel t tbound ekindex (sz + 1)
      else if tbound
           then bindE (luaH_getnum t (int sz + 1)) (\<lambda>s.
                  if slot_value t s \<noteq> None then adjust_loop fuel t tbound ekindex (sz + 1) else Inr sz)
           else Inr sz)"

definition ek_index :: "lkey option \<Rightarrow> int" where
  "ek_index ek = (case ek of Some (KNumber n) \<Rightarrow> arrayindex n | _ \<Rightarrow> - 1)"

definition adjustasize :: "'v ltable \<Rightarrow> nat \<Rightarrow> lkey option \<Rightarrow> lt_error + nat" where
  "adjustasize t sz ek =
     adjust_loop (sizearray t + sizenode t + 3) t (\<not> is_dummy t \<or> sz < sizearray t) (ek_index ek) sz"

definition rehash :: "'v newkey_fn \<Rightarrow> 'v ltable \<Rightarrow> lkey \<Rightarrow> lt_error + 'v ltable" where
  "rehash newkey t ek =
     (let (ause, nums) = numusearray t (replicate (MAXBITS + 1) 0);
          (hashuse, hause, nums) = numusehash t nums;
          (eause, nums) = (case ek of KNumber n \<Rightarrow> countint n nums | _ \<Rightarrow> (0, nums));
          totaluse = ause + hashuse + 1
      in bindE (computesizes nums (ause + hause + eause)) (\<lambda>(nasize, na).
         let nh = int totaluse - int na
         in bindE (adjustasize t nasize (Some ek)) (\<lambda>nadjusted.
            let aextra = nadjusted - nasize
            in if aextra \<noteq> 0
               then bindE (adjustasize t (nadjusted + aextra) (Some ek)) (\<lambda>nasize.
                      if nh - int aextra < 0 then Inl AssertFailed else resize newkey t nasize (nat (nh - int aextra)))
               else if nh < 0 then Inl AssertFailed else resize newkey t nasize (nat nh))))"

text \<open>
  \<open>newkey\<close>, \<open>rehash\<close> and \<open>resize\<close> call each other; the first argument bounds the depth of these calls.
\<close>

fun newkey :: "nat \<Rightarrow> (u64 \<Rightarrow> u32) \<Rightarrow> 'v newkey_fn" where
  "newkey 0 ts_hash t key = Inl NoReturn"
| "newkey (Suc depth) ts_hash t key =
     (let grow = (\<lambda>t. bindE (rehash (newkey depth ts_hash) t key) (\<lambda>t. arrayornewkey (newkey depth ts_hash) t key))
      in if (case key of KNumber n \<Rightarrow> luai_numeq n (cast_num (int (sizearray t) + 1)) | _ \<Rightarrow> False) then grow t
         else bindE (place_key ts_hash t key) (\<lambda>(p, t). case p of Some mp \<Rightarrow> Inr (NodeSlot mp, t) | None \<Rightarrow> grow t))"

definition rehash_depth :: nat where
  "rehash_depth = 2"

section \<open>Setting keys\<close>

definition invalidateTMcache :: "'v ltable \<Rightarrow> 'v ltable" where
  "invalidateTMcache t = t\<lparr>lt_tmcache := 0\<rparr>"

definition luaH_newkey :: "(u64 \<Rightarrow> u32) \<Rightarrow> 'v ltable \<Rightarrow> lkey option \<Rightarrow> lt_error + slot \<times> 'v ltable" where
  "luaH_newkey ts_hash t key =
     (case key of
        None \<Rightarrow> Inl IndexNil
      | Some (KNumber n) \<Rightarrow> if is_nan64 n then Inl IndexNaN else newkey rehash_depth ts_hash t (KNumber n)
      | Some (KVector x y z) \<Rightarrow>
          if is_nan32 x \<or> is_nan32 y \<or> is_nan32 z then Inl IndexVectorNaN else newkey rehash_depth ts_hash t (KVector x y z)
      | Some k \<Rightarrow> newkey rehash_depth ts_hash t k)"

definition luaH_set :: "(u64 \<Rightarrow> u32) \<Rightarrow> 'v ltable \<Rightarrow> lkey option \<Rightarrow> lt_error + slot \<times> 'v ltable" where
  "luaH_set ts_hash t key =
     bindE (luaH_get ts_hash t key) (\<lambda>p.
       let t = invalidateTMcache t
       in if p \<noteq> NilObject then Inr (p, t) else luaH_newkey ts_hash t key)"

definition luaH_newkeystr :: "(u64 \<Rightarrow> u32) \<Rightarrow> 'v ltable \<Rightarrow> u64 \<Rightarrow> lt_error + slot \<times> 'v ltable" where
  "luaH_newkeystr ts_hash t key =
     (let mp = hashpow2 t (ts_hash key)
      in if \<not> is_dummy t \<and> n_val (gnode t mp) = None \<and> n_key (gnode t mp) = NilKey
         then bindE (setnodekey mp (KString key) t) (\<lambda>(p, t). Inr (NodeSlot mp, t))
         else newkey rehash_depth ts_hash t (KString key))"

definition luaH_setnum :: "(u64 \<Rightarrow> u32) \<Rightarrow> 'v ltable \<Rightarrow> int \<Rightarrow> lt_error + slot \<times> 'v ltable" where
  "luaH_setnum ts_hash t key =
     (if 1 \<le> key \<and> key \<le> int (sizearray t) then Inr (ArraySlot (nat key - 1), t)
      else let t = invalidateTMcache t
      in bindE (luaH_getnum t key) (\<lambda>p.
         if p \<noteq> NilObject then Inr (p, t) else newkey rehash_depth ts_hash t (KNumber (cast_num key))))"

definition luaH_setstr :: "(u64 \<Rightarrow> u32) \<Rightarrow> 'v ltable \<Rightarrow> u64 \<Rightarrow> lt_error + slot \<times> 'v ltable" where
  "luaH_setstr ts_hash t key =
     bindE (luaH_getstr ts_hash t key) (\<lambda>p.
       let t = invalidateTMcache t
       in if p \<noteq> NilObject then Inr (p, t) else luaH_newkeystr ts_hash t key)"

definition luaH_setp :: "(u64 \<Rightarrow> u32) \<Rightarrow> 'v ltable \<Rightarrow> u64 \<Rightarrow> u32 \<Rightarrow> lt_error + slot \<times> 'v ltable" where
  "luaH_setp ts_hash t key tag =
     bindE (luaH_getp t key tag) (\<lambda>p.
       let t = invalidateTMcache t
       in if p \<noteq> NilObject then Inr (p, t) else newkey rehash_depth ts_hash t (KLightUserdata key tag))"

definition luaH_resizearray :: "(u64 \<Rightarrow> u32) \<Rightarrow> 'v ltable \<Rightarrow> nat \<Rightarrow> lt_error + 'v ltable" where
  "luaH_resizearray ts_hash t nasize =
     (let nsize = (if is_dummy t then 0 else sizenode t)
      in bindE (adjustasize t nasize None) (\<lambda>asize. resize (newkey rehash_depth ts_hash) t asize nsize))"

definition luaH_resizehash :: "(u64 \<Rightarrow> u32) \<Rightarrow> 'v ltable \<Rightarrow> nat \<Rightarrow> lt_error + 'v ltable" where
  "luaH_resizehash ts_hash t nhsize = resize (newkey rehash_depth ts_hash) t (sizearray t) nhsize"

section \<open>Creation, copies, clearing\<close>

definition luaH_new :: "nat \<Rightarrow> nat \<Rightarrow> lt_error + 'v ltable" where
  "luaH_new narray nhash =
     (let t = \<lparr>lt_tmcache = 255, lt_readonly = False, lt_safeenv = False, lt_lsizenode = 0, lt_nodemask8 = 0, lt_lastfree = 0,
               lt_metatable = None, lt_array = [], lt_node = [], lt_arrayptr = 0, lt_nodeptr = 0\<rparr>
      in bindE (if narray > 0 then setarrayvector narray t else Inr t) (\<lambda>t.
         if nhash > 0 then setnodevector nhash t else Inr t))"

definition maybesetaboundary :: "nat \<Rightarrow> 'v ltable \<Rightarrow> 'v ltable" where
  "maybesetaboundary boundary t = (if lt_lastfree t \<le> 0 then t\<lparr>lt_lastfree := - int boundary\<rparr> else t)"

definition getaboundary :: "'v ltable \<Rightarrow> nat" where
  "getaboundary t = (if lt_lastfree t < 0 then nat (- lt_lastfree t) else sizearray t)"

definition luaH_clone :: "'v ltable \<Rightarrow> 'v ltable" where
  "luaH_clone tt =
     (let t = \<lparr>lt_tmcache = lt_tmcache tt, lt_readonly = False, lt_safeenv = False, lt_lsizenode = 0, lt_nodemask8 = 0, lt_lastfree = 0,
               lt_metatable = lt_metatable tt, lt_array = [], lt_node = [], lt_arrayptr = 0, lt_nodeptr = 0\<rparr>;
          t = (if sizearray tt \<noteq> 0 then (maybesetaboundary (getaboundary tt) t)\<lparr>lt_array := lt_array tt, lt_arrayptr := 1\<rparr> else t)
      in if \<not> is_dummy tt
         then t\<lparr>lt_node := lt_node tt, lt_nodeptr := 1, lt_lsizenode := lt_lsizenode tt, lt_nodemask8 := lt_nodemask8 tt, lt_lastfree := lt_lastfree tt\<rparr>
         else t)"

definition luaH_clear :: "'v ltable \<Rightarrow> 'v ltable" where
  "luaH_clear tt =
     (let t = maybesetaboundary 0 (tt\<lparr>lt_array := replicate (sizearray tt) None\<rparr>);
          t = (if \<not> is_dummy t then t\<lparr>lt_lastfree := int (sizenode t), lt_node := replicate (sizenode t) luaH_dummynode\<rparr> else t)
      in t\<lparr>lt_tmcache := 255\<rparr>)"

text \<open>The collector turns a collectable key without value into a dead key.\<close>

definition removeentry :: "nat \<Rightarrow> 'v ltable \<Rightarrow> lt_error + 'v ltable" where
  "removeentry i t =
     (if n_val (gnode t i) \<noteq> None then Inl AssertFailed
      else case n_key (gnode t i) of
             LiveKey k \<Rightarrow> (case gckey k of Some p \<Rightarrow> Inr (upd_node i (\<lambda>n. n\<lparr>n_key := DeadKey p\<rparr>) t) | None \<Rightarrow> Inr t)
           | _ \<Rightarrow> Inr t)"

section \<open>Length\<close>

definition updateaboundary :: "'v ltable \<Rightarrow> nat \<Rightarrow> nat \<times> 'v ltable" where
  "updateaboundary t boundary =
     (if boundary < sizearray t \<and> lt_array t ! (boundary - 1) = None
      then if boundary \<ge> 2 \<and> lt_array t ! (boundary - 2) \<noteq> None then (boundary - 1, maybesetaboundary (boundary - 1) t) else (0, t)
      else if boundary + 1 < sizearray t \<and> lt_array t ! boundary \<noteq> None \<and> lt_array t ! (boundary + 1) = None
           then (boundary + 1, maybesetaboundary (boundary + 1) t) else (0, t))"

fun boundary_search :: "'v option list \<Rightarrow> nat \<Rightarrow> nat \<Rightarrow> nat" where
  "boundary_search array base rest =
     (let half = rest div 2
      in if half = 0 then base
         else boundary_search array (if array ! (base + half) = None then base else base + half) (rest - half))"

declare boundary_search.simps [simp del]

definition getn_search :: "'v ltable \<Rightarrow> lt_error + nat \<times> 'v ltable" where
  "getn_search t =
     (let j = sizearray t
      in if j > 0 \<and> lt_array t ! (j - 1) = None
         then let base = boundary_search (lt_array t) 0 j;
                  boundary = (if lt_array t ! base \<noteq> None then 1 else 0) + base
              in Inr (boundary, maybesetaboundary boundary t)
         else if is_dummy t then Inr (j, t)
         else bindE (luaH_getnum t (int j + 1)) (\<lambda>s. if slot_value t s = None then Inr (j, t) else Inl AssertFailed))"

definition luaH_getn :: "'v ltable \<Rightarrow> lt_error + nat \<times> 'v ltable" where
  "luaH_getn t =
     (let boundary = getaboundary t
      in if boundary > 0 then
           if lt_array t ! (sizearray t - 1) \<noteq> None \<and> is_dummy t then Inr (sizearray t, t)
           else if boundary < sizearray t \<and> lt_array t ! (boundary - 1) \<noteq> None \<and> lt_array t ! boundary = None then Inr (boundary, t)
           else let (foundboundary, t') = updateaboundary t boundary
                in if foundboundary > 0 then Inr (foundboundary, t') else getn_search t'
         else getn_search t)"

section \<open>Traversal\<close>

definition next_match :: "lkey \<Rightarrow> tkey \<Rightarrow> bool" where
  "next_match key tk \<longleftrightarrow> keyeq tk key \<or> (case tk of DeadKey p \<Rightarrow> gckey key = Some p | _ \<Rightarrow> False)"

definition findindex :: "(u64 \<Rightarrow> u32) \<Rightarrow> 'v ltable \<Rightarrow> lkey option \<Rightarrow> lt_error + int" where
  "findindex ts_hash t key =
     (case key of
        None \<Rightarrow> Inr (- 1)
      | Some k \<Rightarrow>
          let i = ek_index (Some k)
          in if 0 < i \<and> i \<le> int (sizearray t) then Inr (i - 1)
             else bindE (find_slot (next_match k) t (mainposition ts_hash t k)) (\<lambda>s.
                    case s of NodeSlot n \<Rightarrow> Inr (int n + int (sizearray t)) | _ \<Rightarrow> Inl InvalidNextKey))"

fun next_array :: "'v ltable \<Rightarrow> nat list \<Rightarrow> (lkey \<times> 'v) option" where
  "next_array t [] = None"
| "next_array t (i # is) =
     (case lt_array t ! i of Some v \<Rightarrow> Some (KNumber (cast_num (int i + 1)), v) | None \<Rightarrow> next_array t is)"

fun next_node :: "'v ltable \<Rightarrow> nat list \<Rightarrow> lt_error + (lkey \<times> 'v) option" where
  "next_node t [] = Inr None"
| "next_node t (i # is) =
     (case n_val (gnode t i) of
        Some v \<Rightarrow> (case n_key (gnode t i) of LiveKey k \<Rightarrow> Inr (Some (k, v)) | _ \<Rightarrow> Inl AssertFailed)
      | None \<Rightarrow> next_node t is)"

definition luaH_next :: "(u64 \<Rightarrow> u32) \<Rightarrow> 'v ltable \<Rightarrow> lkey option \<Rightarrow> lt_error + (lkey \<times> 'v) option" where
  "luaH_next ts_hash t key =
     bindE (findindex ts_hash t key) (\<lambda>i.
       let i = nat (i + 1)
       in case next_array t [i..<sizearray t] of
            Some kv \<Rightarrow> Inr (Some kv)
          | None \<Rightarrow> next_node t [i - sizearray t..<sizenode t])"

end
