(* ===== verification/LuaTableNodes.thy ===== *)
theory LuaTableNodes
  imports LuaTable
begin

text \<open>
  The hash part of a table: keys up to raw equality, chains of nodes, the invariant of the chained
  scatter table, and what lookup and the placement of a new key do to it.
\<close>

section \<open>Keys up to raw equality\<close>

definition norm64 :: "u64 \<Rightarrow> u64" where
  "norm64 x = (if take_bit 63 x = 0 then 0 else x)"

definition norm32 :: "u32 \<Rightarrow> u32" where
  "norm32 x = (if take_bit 31 x = 0 then 0 else x)"

fun norm_key :: "lkey \<Rightarrow> lkey" where
  "norm_key (KNumber n) = KNumber (norm64 n)"
| "norm_key (KVector x y z) = KVector (norm32 x) (norm32 y) (norm32 z)"
| "norm_key k = k"

fun valid_key :: "lkey \<Rightarrow> bool" where
  "valid_key (KNumber n) \<longleftrightarrow> \<not> is_nan64 n"
| "valid_key (KVector x y z) \<longleftrightarrow> \<not> (is_nan32 x \<or> is_nan32 y \<or> is_nan32 z)"
| "valid_key k \<longleftrightarrow> True"

lemma numeq_norm: "luai_numeq a b \<longleftrightarrow> \<not> is_nan64 a \<and> \<not> is_nan64 b \<and> norm64 a = norm64 b"
  by (auto simp: luai_numeq_def norm64_def)

lemma numeq32_norm: "numeq32 a b \<longleftrightarrow> \<not> is_nan32 a \<and> \<not> is_nan32 b \<and> norm32 a = norm32 b"
  by (auto simp: numeq32_def norm32_def)

lemma rawequal_norm: "luaO_rawequalKey k k' \<longleftrightarrow> valid_key k \<and> valid_key k' \<and> norm_key k = norm_key k'"
  by (induction k k' rule: luaO_rawequalKey.induct) (auto simp: numeq_norm numeq32_norm)

lemma zero_halves:
  assumes "take_bit 63 (x :: u64) = 0"
  shows "(ucast x :: u32) = 0" "(ucast (drop_bit 32 x) :: u32) AND 0x7fffffff = 0"
proof -
  have b: "\<not> bit x n" if "n < 63" for n using assms that by (metis bit_take_bit_iff bit_0_eq bot_apply bot_bool_def)
  show "(ucast x :: u32) = 0" by (rule bit_word_eqI) (simp add: bit_simps b)
  have m: "(y :: u32) AND 0x7fffffff = take_bit 31 y" for y by (simp add: take_bit_eq_mask mask_eq_exp_minus_1)
  show "(ucast (drop_bit 32 x) :: u32) AND 0x7fffffff = 0"
    unfolding m by (rule bit_word_eqI) (auto simp: bit_simps b)
qed

lemma hashnum_norm: "hashnum (norm64 n) = hashnum n"
  using zero_halves [of n] by (simp add: hashnum_def norm64_def)

lemma lane_norm: "hashvec_lane (norm32 i) = hashvec_lane i"
proof (cases "take_bit 31 i = 0")
  case True
  have "i = 0 \<or> i = 0x80000000"
  proof -
    have b: "\<not> bit i n" if "n < 31" for n using True that by (metis bit_take_bit_iff bit_0_eq bot_apply bot_bool_def)
    have "i = push_bit 31 (of_bool (bit i 31))"
    proof (rule bit_word_eqI)
      fix n assume "n < LENGTH(32)"
      then show "bit i n \<longleftrightarrow> bit (push_bit 31 (of_bool (bit i 31)) :: u32) n" using b [of n] by (cases "n = 31") (auto simp: bit_simps)
    qed
    then show ?thesis by (cases "bit i 31") auto
  qed
  then show ?thesis using True by (auto simp: hashvec_lane_def norm32_def)
qed (simp add: norm32_def)

lemma hashkey_norm: "hashkey ts_hash (norm_key k) = hashkey ts_hash k"
  by (cases k) (simp_all add: hashnum_norm hashvec_def lane_norm)

lemma norm_key_idem [simp]: "norm_key (norm_key k) = norm_key k"
  by (cases k) (simp_all add: norm64_def norm32_def)

lemma mainposition_norm: "norm_key k = norm_key k' \<Longrightarrow> mainposition ts_hash t k = mainposition ts_hash t k'"
  unfolding mainposition_def by (metis hashkey_norm)

text \<open>The index of a key in the array part; \<open>-1\<close> for keys that are no integer.\<close>

definition key_index :: "lkey \<Rightarrow> int" where
  "key_index k = ek_index (Some k)"

lemma key_index_simps [simp]: "key_index (KNumber n) = arrayindex n"
  by (simp add: key_index_def ek_index_def)

lemma key_index_norm [simp]: "key_index (norm_key k) = key_index k"
proof (cases k)
  case (KNumber n)
  have "dbl_int (norm64 n) = dbl_int n"
  proof (cases "take_bit 63 n = 0")
    case True
    then have "dbl_int n = Some 0" "dbl_int 0 = Some 0" using dbl_int_zero by auto
    then show ?thesis using True by (simp add: norm64_def)
  qed (simp add: norm64_def)
  then show ?thesis using KNumber by (simp add: arrayindex_def)
qed (simp_all add: key_index_def ek_index_def)

lemma key_index_pos:
  assumes "0 < key_index k"
  shows "k = KNumber (cast_num (key_index k))" "key_index k < 2 ^ 31"
  using assms arrayindex_pos by (auto simp: key_index_def ek_index_def split: lkey.splits)

lemma key_index_num [simp]: "- (2 ^ 31) \<le> i \<Longrightarrow> i < 2 ^ 31 \<Longrightarrow> key_index (KNumber (cast_num i)) = i"
  by (simp add: arrayindex_cast_num)

section \<open>Chains\<close>

definition nxt :: "'v node list \<Rightarrow> nat \<Rightarrow> nat \<Rightarrow> bool" where
  "nxt ns i j \<longleftrightarrow> i < length ns \<and> n_next (ns ! i) \<noteq> 0 \<and> int j = int i + n_next (ns ! i)"

abbreviation reach :: "'v node list \<Rightarrow> nat \<Rightarrow> nat \<Rightarrow> bool" where
  "reach ns \<equiv> (nxt ns)\<^sup>*\<^sup>*"

lemma nxt_det: "nxt ns i j \<Longrightarrow> nxt ns i k \<Longrightarrow> j = k"
  by (auto simp: nxt_def)

text \<open>
  Chains: links stay inside the array, every node has at most one predecessor, and a rank that
  grows along the links rules out cycles.
\<close>

definition chains :: "'v node list \<Rightarrow> bool" where
  "chains ns \<longleftrightarrow> (\<forall>i < length ns. 0 \<le> int i + n_next (ns ! i) \<and> int i + n_next (ns ! i) < int (length ns))
     \<and> (\<forall>i j k. nxt ns i k \<and> nxt ns j k \<longrightarrow> i = j)
     \<and> (\<exists>f :: nat \<Rightarrow> nat. \<forall>i j. nxt ns i j \<longrightarrow> f i < f j)"

lemma chainsI:
  fixes f :: "nat \<Rightarrow> nat"
  assumes "\<And>i. i < length ns \<Longrightarrow> 0 \<le> int i + n_next (ns ! i) \<and> int i + n_next (ns ! i) < int (length ns)"
    "\<And>i j k. nxt ns i k \<Longrightarrow> nxt ns j k \<Longrightarrow> i = j" "\<And>i j. nxt ns i j \<Longrightarrow> f i < f j"
  shows "chains ns"
  unfolding chains_def using assms by (intro conjI exI [of _ f]) blast+

lemma chains_range: "chains ns \<Longrightarrow> nxt ns i j \<Longrightarrow> i < length ns \<and> j < length ns"
  unfolding chains_def nxt_def by (metis of_nat_less_iff)

lemma chains_next: "chains ns \<Longrightarrow> i < length ns \<Longrightarrow> n_next (ns ! i) \<noteq> 0 \<Longrightarrow> nxt ns i (nat (int i + n_next (ns ! i)))"
  unfolding chains_def nxt_def by simp

lemma reach_range: "reach ns i j \<Longrightarrow> chains ns \<Longrightarrow> i < length ns \<Longrightarrow> j < length ns"
  by (induction rule: rtranclp_induct) (auto dest: chains_range)

lemma rank_reach:
  fixes f :: "nat \<Rightarrow> nat"
  assumes "\<And>i j. nxt ns i j \<Longrightarrow> f i < f j" "reach ns i j"
  shows "f i \<le> f j"
  using assms(2) by (induction rule: rtranclp_induct) (auto dest: assms(1))

lemma chains_acyclic:
  assumes "chains ns" "nxt ns i j"
  shows "\<not> reach ns j i"
proof
  assume r: "reach ns j i"
  obtain f :: "nat \<Rightarrow> nat" where f: "\<And>i j. nxt ns i j \<Longrightarrow> f i < f j" using assms(1) unfolding chains_def by blast
  have "f j \<le> f i" using rank_reach [of ns f, OF f r] .
  then show False using f [OF assms(2)] by simp
qed

lemma chains_not_self: "chains ns \<Longrightarrow> \<not> nxt ns i i"
  using chains_acyclic by blast

definition reach_set :: "'v node list \<Rightarrow> nat \<Rightarrow> nat set" where
  "reach_set ns i = {j. reach ns i j}"

lemma reach_set_bounds:
  assumes "chains ns" "i < length ns"
  shows "finite (reach_set ns i)" "card (reach_set ns i) \<le> length ns"
proof -
  have s: "reach_set ns i \<subseteq> {..<length ns}" using reach_range assms by (auto simp: reach_set_def)
  then show "finite (reach_set ns i)" by (rule finite_subset) simp
  show "card (reach_set ns i) \<le> length ns" using card_mono [OF _ s] by simp
qed

lemma reach_set_next:
  assumes "chains ns" "nxt ns i j"
  shows "card (reach_set ns j) < card (reach_set ns i)"
proof (rule psubset_card_mono)
  show "finite (reach_set ns i)" using reach_set_bounds(1) chains_range assms by blast
  show "reach_set ns j \<subset> reach_set ns i"
    using assms chains_acyclic [OF assms] by (auto simp: reach_set_def intro: converse_rtranclp_into_rtranclp)
qed

lemma reach_cases:
  assumes "reach ns i j" "nxt ns i k" "i \<noteq> j"
  shows "reach ns k j"
  using assms by (metis converse_rtranclpE nxt_det)

section \<open>Walks\<close>

definition nodes_of :: "'v ltable \<Rightarrow> 'v node list \<Rightarrow> bool" where
  "nodes_of t ns \<longleftrightarrow> lt_node t = ns \<and> ns \<noteq> [] \<and> length ns = sizenode t"

lemma gnode_nodes: "nodes_of t ns \<Longrightarrow> gnode t i = ns ! i"
  by (simp add: gnode_def nodes_of_def is_dummy_def)

lemma chain_find_spec:
  assumes "nodes_of t ns" "chains ns" "n < length ns" "card (reach_set ns n) \<le> fuel"
  shows "\<exists>r. chain_find P t fuel n = Some r \<and>
    (case r of Some m \<Rightarrow> reach ns n m \<and> P (n_key (ns ! m)) | None \<Rightarrow> \<forall>m. reach ns n m \<longrightarrow> \<not> P (n_key (ns ! m)))"
  using assms(3,4)
proof (induction fuel arbitrary: n)
  case 0
  have "n \<in> reach_set ns n" by (simp add: reach_set_def)
  then have "0 < card (reach_set ns n)" using reach_set_bounds(1) [OF assms(2) 0(1)] by (simp add: card_gt_0_iff) blast
  then show ?case using 0 by simp
next
  case (Suc fuel)
  let ?m = "nat (int n + n_next (ns ! n))"
  note g = gnode_nodes [OF assms(1)]
  have sz: "sizenode t = length ns" using assms(1) by (simp add: nodes_of_def)
  consider "P (n_key (ns ! n))" | "\<not> P (n_key (ns ! n))" "n_next (ns ! n) = 0" | "\<not> P (n_key (ns ! n))" "nxt ns n ?m"
    using chains_next [OF assms(2) Suc.prems(1)] by blast
  then show ?case
  proof cases
    case 2
    then have no: "\<not> nxt ns n k" for k by (simp add: nxt_def)
    have "m = n" if "reach ns n m" for m using that by (cases rule: converse_rtranclpE) (use no in auto)
    then show ?thesis using 2 g by auto
  next
    case 3
    have m: "0 \<le> int n + n_next (ns ! n)" "?m < length ns"
      using 3(2) chains_range [OF assms(2) 3(2)] unfolding nxt_def by linarith+
    have "card (reach_set ns ?m) \<le> fuel" using reach_set_next [OF assms(2) 3(2)] Suc.prems(2) by simp
    then obtain r where r: "chain_find P t fuel ?m = Some r"
      "case r of Some k \<Rightarrow> reach ns ?m k \<and> P (n_key (ns ! k)) | None \<Rightarrow> \<forall>k. reach ns ?m k \<longrightarrow> \<not> P (n_key (ns ! k))"
      using Suc.IH m(2) by blast
    have "chain_find P t (Suc fuel) n = Some r"
      using 3 m r(1) sz unfolding chain_find.simps g Let_def nxt_def by simp
    moreover have "reach ns n k" if "reach ns ?m k" for k using 3(2) that by (rule converse_rtranclp_into_rtranclp)
    moreover have "reach ns n k \<Longrightarrow> k = n \<or> reach ns ?m k" for k using reach_cases 3(2) by blast
    ultimately show ?thesis using r(2) 3(1) by (cases r) auto
  qed (auto simp: g)
qed

lemma find_prev_spec:
  assumes "nodes_of t ns" "chains ns" "reach ns othern mp" "othern \<noteq> mp" "othern < length ns" "card (reach_set ns othern) \<le> fuel"
  shows "\<exists>prev. find_prev t mp fuel othern = Some prev \<and> nxt ns prev mp"
  using assms(3-)
proof (induction fuel arbitrary: othern)
  case 0
  have "othern \<in> reach_set ns othern" by (simp add: reach_set_def)
  then have "0 < card (reach_set ns othern)" using reach_set_bounds(1) [OF assms(2) 0(3)] by (simp add: card_gt_0_iff) blast
  then show ?case using 0 by simp
next
  case (Suc fuel)
  note g = gnode_nodes [OF assms(1)]
  have sz: "sizenode t = length ns" using assms(1) by (simp add: nodes_of_def)
  obtain k where k: "nxt ns othern k" "reach ns k mp" using Suc.prems(1,2) by (cases rule: converse_rtranclpE) auto
  have kk: "int k = int othern + n_next (ns ! othern)" "k < length ns" using k(1) chains_range [OF assms(2) k(1)] by (auto simp: nxt_def)
  show ?case
  proof (cases "k = mp")
    case True
    then show ?thesis using kk k by (simp add: g Let_def)
  next
    case False
    have "card (reach_set ns k) \<le> fuel" using reach_set_next [OF assms(2) k(1)] Suc.prems(4) by simp
    with Suc.IH [of k] k(2) False kk obtain prev where "find_prev t mp fuel k = Some prev" "nxt ns prev mp" by auto
    moreover have "int othern + n_next (ns ! othern) \<noteq> int mp" "nat (int othern + n_next (ns ! othern)) = k" using kk(1) False by linarith+
    ultimately show ?thesis using kk sz unfolding find_prev.simps g Let_def by simp
  qed
qed

section \<open>The invariant of the hash part\<close>

definition node_ok :: "(lkey \<Rightarrow> nat) \<Rightarrow> 'v node list \<Rightarrow> nat \<Rightarrow> bool" where
  "node_ok main ns i \<longleftrightarrow>
     (case n_key (ns ! i) of
        NilKey \<Rightarrow> n_next (ns ! i) = 0 \<and> n_val (ns ! i) = None \<and> (\<forall>j. \<not> nxt ns j i)
      | DeadKey p \<Rightarrow> n_val (ns ! i) = None
      | LiveKey k \<Rightarrow> valid_key k \<and> main k < length ns \<and> reach ns (main k) i
          \<and> (main k \<noteq> i \<longrightarrow> (case n_key (ns ! main k) of LiveKey k' \<Rightarrow> main k' = main k | _ \<Rightarrow> True)))"

definition keys_distinct :: "'v node list \<Rightarrow> bool" where
  "keys_distinct ns \<longleftrightarrow> (\<forall>i < length ns. \<forall>j < length ns. \<forall>k k'.
     n_key (ns ! i) = LiveKey k \<and> n_key (ns ! j) = LiveKey k' \<and> norm_key k = norm_key k' \<longrightarrow> i = j)"

definition node_inv :: "(lkey \<Rightarrow> nat) \<Rightarrow> 'v node list \<Rightarrow> bool" where
  "node_inv main ns \<longleftrightarrow> chains ns \<and> (\<forall>i < length ns. node_ok main ns i) \<and> keys_distinct ns"

lemma node_inv_ok: "node_inv main ns \<Longrightarrow> i < length ns \<Longrightarrow> node_ok main ns i"
  by (simp add: node_inv_def)

lemma node_inv_chains: "node_inv main ns \<Longrightarrow> chains ns"
  by (simp add: node_inv_def)

lemma node_inv_nil:
  assumes "node_inv main ns" "i < length ns" "n_key (ns ! i) = NilKey"
  shows "n_next (ns ! i) = 0" "n_val (ns ! i) = None" "\<not> nxt ns j i" "\<not> nxt ns i j"
  using node_inv_ok [OF assms(1,2)] assms(3) by (auto simp: node_ok_def nxt_def)

lemma node_inv_live:
  assumes "node_inv main ns" "i < length ns" "n_key (ns ! i) = LiveKey k"
  shows "valid_key k" "main k < length ns" "reach ns (main k) i"
    "main k \<noteq> i \<Longrightarrow> n_key (ns ! main k) = LiveKey k' \<Longrightarrow> main k' = main k"
  using node_inv_ok [OF assms(1,2)] assms(3) by (auto simp: node_ok_def)

lemma node_inv_distinct:
  assumes "node_inv main ns" "i < length ns" "j < length ns" "n_key (ns ! i) = LiveKey k" "n_key (ns ! j) = LiveKey k'" "norm_key k = norm_key k'"
  shows "i = j"
  using assms unfolding node_inv_def keys_distinct_def by blast

lemma node_inv_value_key:
  assumes "node_inv main ns" "i < length ns" "n_val (ns ! i) \<noteq> None"
  obtains k where "n_key (ns ! i) = LiveKey k"
  using node_inv_ok [OF assms(1,2)] assms(3) by (cases "n_key (ns ! i)") (auto simp: node_ok_def)

definition absent :: "'v node list \<Rightarrow> lkey \<Rightarrow> bool" where
  "absent ns key \<longleftrightarrow> (\<forall>i < length ns. \<forall>k. n_key (ns ! i) = LiveKey k \<longrightarrow> norm_key k \<noteq> norm_key key)"

text \<open>Two node arrays with the same links.\<close>

definition same_links :: "'v node list \<Rightarrow> 'w node list \<Rightarrow> bool" where
  "same_links ns ns' \<longleftrightarrow> length ns' = length ns \<and> (\<forall>i < length ns. n_next (ns' ! i) = n_next (ns ! i))"

lemma same_links_nxt: "same_links ns ns' \<Longrightarrow> nxt ns' = nxt ns"
  by (auto simp: same_links_def nxt_def fun_eq_iff)

lemma same_links_chains: "same_links ns ns' \<Longrightarrow> chains ns' = chains ns"
  unfolding chains_def using same_links_nxt [of ns ns'] by (simp add: same_links_def)

lemma same_links_update: "n_next nd = n_next (ns ! i) \<Longrightarrow> same_links ns (ns[i := nd])"
  by (cases "i < length ns") (auto simp: same_links_def nth_list_update)

lemma node_inv_value:
  assumes "node_inv main ns" "i < length ns" "n_key (ns ! i) = LiveKey k"
  shows "node_inv main (ns[i := (ns ! i)\<lparr>n_val := v\<rparr>])"
proof -
  let ?ns = "ns[i := (ns ! i)\<lparr>n_val := v\<rparr>]"
  have l: "same_links ns ?ns" by (rule same_links_update) simp
  have key: "n_key (?ns ! j) = n_key (ns ! j)" for j by (cases "i = j") (use assms(2) in auto)
  have nx: "n_next (?ns ! j) = n_next (ns ! j)" for j by (cases "i = j") (use assms(2) in auto)
  have "node_ok main ?ns j" if "j < length ns" for j
    using node_inv_ok [OF assms(1) that] assms(2,3) that
    unfolding node_ok_def same_links_nxt [OF l] key nx
    by (cases "i = j") (auto split: tkey.splits)
  moreover have "keys_distinct ?ns" using assms(1) unfolding node_inv_def keys_distinct_def key by simp
  ultimately show ?thesis using assms(1) unfolding node_inv_def same_links_chains [OF l] by simp
qed

text \<open>A new key takes a node without value at its own main position.\<close>

lemma node_inv_in_place:
  assumes inv: "node_inv main ns" and mp: "mp < length ns" "main key = mp" "n_val (ns ! mp) = None"
    and key: "valid_key key" "absent ns key"
    and main: "\<And>k k'. norm_key k = norm_key k' \<Longrightarrow> main k = main k'"
  shows "node_inv main (ns[mp := (ns ! mp)\<lparr>n_key := LiveKey key\<rparr>])"
proof -
  let ?ns = "ns[mp := (ns ! mp)\<lparr>n_key := LiveKey key\<rparr>]"
  have l: "same_links ns ?ns" by (rule same_links_update) simp
  have other: "?ns ! j = ns ! j" if "j \<noteq> mp" for j using that by simp
  have at: "n_key (?ns ! mp) = LiveKey key" using mp(1) by simp
  have "node_ok main ?ns j" if j: "j < length ns" for j
  proof (cases "j = mp")
    case True
    then show ?thesis using mp key by (simp add: node_ok_def)
  next
    case False
    have head: "n_key (?ns ! main k) = (if main k = mp then LiveKey key else n_key (ns ! main k))" for k using at other by simp
    show ?thesis
      using node_inv_ok [OF inv j] mp(2) unfolding node_ok_def same_links_nxt [OF l] other [OF False] length_list_update head
      by (cases "n_key (ns ! j)") simp_all
  qed
  moreover have "keys_distinct ?ns"
    unfolding keys_distinct_def length_list_update
  proof (intro allI impI)
    fix i j k k' assume "i < length ns" "j < length ns" and eq: "n_key (?ns ! i) = LiveKey k \<and> n_key (?ns ! j) = LiveKey k' \<and> norm_key k = norm_key k'"
    then show "i = j" using node_inv_distinct [OF inv, of i j k k'] key(2) at other [of i] other [of j] unfolding absent_def
      by (cases "i = mp"; cases "j = mp") auto
  qed
  ultimately show ?thesis using inv unfolding node_inv_def same_links_chains [OF l] by simp
qed

section \<open>A new key in the chain of its main position\<close>

definition chained :: "nat \<Rightarrow> nat \<Rightarrow> lkey \<Rightarrow> 'v node list \<Rightarrow> 'v node list \<Rightarrow> bool" where
  "chained mp n key ns ns' \<longleftrightarrow> length ns' = length ns \<and> ns' ! mp = (ns ! mp)\<lparr>n_next := int n - int mp\<rparr>
     \<and> n_key (ns' ! n) = LiveKey key \<and> n_val (ns' ! n) = None
     \<and> n_next (ns' ! n) = (if n_next (ns ! mp) \<noteq> 0 then int mp + n_next (ns ! mp) - int n else 0)
     \<and> (\<forall>i. i \<noteq> mp \<and> i \<noteq> n \<longrightarrow> ns' ! i = ns ! i)"

lemma chained_nxt:
  assumes "node_inv main ns" "mp < length ns" "n < length ns" "n \<noteq> mp" "n_key (ns ! n) = NilKey" "chained mp n key ns ns'"
  shows "nxt ns' i j \<longleftrightarrow> i = mp \<and> j = n \<or> i = n \<and> nxt ns mp j \<or> i \<noteq> mp \<and> i \<noteq> n \<and> nxt ns i j"
proof -
  note c = assms(6) [unfolded chained_def]
  have "\<not> nxt ns mp n" by (rule node_inv_nil(3) [OF assms(1,3,5)])
  then have "int mp + n_next (ns ! mp) \<noteq> int n" if "n_next (ns ! mp) \<noteq> 0" using that assms(2) by (auto simp: nxt_def)
  then show ?thesis using c assms(2-4) by (cases "i = mp"; cases "i = n") (auto simp: nxt_def)
qed

lemma chained_chains:
  assumes "node_inv main ns" "mp < length ns" "n < length ns" "n \<noteq> mp" "n_key (ns ! n) = NilKey" "chained mp n key ns ns'"
  shows "chains ns'"
proof -
  note nx = chained_nxt [OF assms]
  note iso = node_inv_nil(3,4) [OF assms(1,3,5)]
  have ch: "chains ns" by (rule node_inv_chains [OF assms(1)])
  then obtain f :: "nat \<Rightarrow> nat" where f: "\<And>i j. nxt ns i j \<Longrightarrow> f i < f j" unfolding chains_def by blast
  show ?thesis
  proof (rule chainsI [where f = "\<lambda>i. if i = n then 2 * f mp + 1 else 2 * f i"])
    fix i j assume "nxt ns' i j"
    then consider "i = mp" "j = n" | "i = n" "nxt ns mp j" | "i \<noteq> mp" "i \<noteq> n" "nxt ns i j" unfolding nx by blast
    then show "(if i = n then 2 * f mp + 1 else 2 * f i) < (if j = n then 2 * f mp + 1 else 2 * f j)"
    proof cases
      case 2
      then have "j \<noteq> n" "f mp < f j" using iso f by auto
      then show ?thesis using 2 by simp
    next
      case 3
      then have "j \<noteq> n" "f i < f j" using iso f by auto
      then show ?thesis using 3 by simp
    qed (use assms(4) in simp)
  next
    fix i j k assume "nxt ns' i k" "nxt ns' j k"
    then show "i = j" using iso ch unfolding nx chains_def by metis
  next
    fix i assume "i < length ns'"
    then show "0 \<le> int i + n_next (ns' ! i) \<and> int i + n_next (ns' ! i) < int (length ns')"
      using assms(2-6) ch unfolding chained_def chains_def by (cases "i = mp"; cases "i = n") auto
  qed
qed

lemma chained_reach:
  assumes "node_inv main ns" "mp < length ns" "n < length ns" "n \<noteq> mp" "n_key (ns ! n) = NilKey" "chained mp n key ns ns'"
    and "reach ns i j"
  shows "reach ns' i j"
  using assms(7)
proof (induction rule: rtranclp_induct)
  case (step j k)
  note nx = chained_nxt [OF assms(1-6)]
  have "j \<noteq> n" using step(2) node_inv_nil(4) [OF assms(1,3,5)] by blast
  then have "reach ns' j k" using step(2) nx by (cases "j = mp") (blast intro: converse_rtranclp_into_rtranclp)+
  then show ?case using step.IH by (rule rtranclp_trans [rotated])
qed simp

lemma node_inv_chained:
  assumes inv: "node_inv main ns" "mp < length ns" "n < length ns" "n \<noteq> mp" "n_key (ns ! n) = NilKey" "chained mp n key ns ns'"
    and mk: "n_key (ns ! mp) = LiveKey mk" "main mk = mp" and key: "valid_key key" "absent ns key" "main key = mp"
  shows "node_inv main ns'"
proof -
  note nx = chained_nxt [OF inv] and re = chained_reach [OF inv] and iso = node_inv_nil(3,4) [OF inv(1,3,5)]
  note c = inv(6) [unfolded chained_def]
  have keys: "n_key (ns' ! i) = (if i = n then LiveKey key else n_key (ns ! i))" for i using c by (cases "i = mp") auto
  have vals: "n_val (ns' ! i) = n_val (ns ! i)" for i using c node_inv_nil(2) [OF inv(1,3,5)] by (cases "i = mp"; cases "i = n") auto
  have not_n: "main k \<noteq> n" if "i < length ns" "n_key (ns ! i) = LiveKey k" for i k
  proof
    assume "main k = n"
    then have "reach ns n i" using node_inv_live(3) [OF inv(1) that] by simp
    then have "i = n" by (cases rule: converse_rtranclpE) (use iso in auto)
    then show False using that inv(5) by simp
  qed
  have "node_ok main ns' i" if i: "i < length ns'" for i
  proof (cases "i = n")
    case True
    have "nxt ns' mp n" by (simp add: nx)
    then have "reach ns' mp n" by (rule r_into_rtranclp)
    then show ?thesis unfolding node_ok_def keys using True mk key inv(2,4) c by simp
  next
    case False
    then show ?thesis
    proof (cases "n_key (ns ! i)")
      case NilKey
      then have ne: "i \<noteq> mp" using mk by auto
      have il: "i < length ns" using i c by simp
      note nil = node_inv_nil [OF inv(1) il NilKey]
      have "\<not> nxt ns' j i" for j using nil(3) False unfolding nx by blast
      moreover have "ns' ! i = ns ! i" using c ne False by blast
      ultimately show ?thesis unfolding node_ok_def using NilKey nil(1,2) by simp
    next
      case (DeadKey p)
      have "i < length ns" using i c by simp
      then have "n_val (ns ! i) = None" using node_inv_ok [OF inv(1), of i] DeadKey by (simp add: node_ok_def)
      then show ?thesis unfolding node_ok_def keys vals using DeadKey False by simp
    next
      case (LiveKey k)
      have il: "i < length ns" using i c by simp
      note lv = node_inv_live [OF inv(1) il LiveKey]
      have "n_key (ns' ! main k) = n_key (ns ! main k)" using keys not_n [OF il LiveKey] by simp
      moreover have "length ns' = length ns" using c by blast
      moreover have "main k \<noteq> i \<longrightarrow> (case n_key (ns ! main k) of LiveKey k' \<Rightarrow> main k' = main k | _ \<Rightarrow> True)"
        using node_inv_ok [OF inv(1) il] LiveKey unfolding node_ok_def by simp
      ultimately show ?thesis unfolding node_ok_def keys [of i] using lv(1,2) re [OF lv(3)] LiveKey False by simp
    qed
  qed
  moreover have "keys_distinct ns'"
    unfolding keys_distinct_def
  proof (intro allI impI)
    fix i j k k' assume "i < length ns'" "j < length ns'" and "n_key (ns' ! i) = LiveKey k \<and> n_key (ns' ! j) = LiveKey k' \<and> norm_key k = norm_key k'"
    then show "i = j" using node_inv_distinct [OF inv(1), of i j k k'] key(2) c unfolding keys absent_def
      by (cases "i = n"; cases "j = n") auto
  qed
  ultimately show ?thesis using chained_chains [OF inv] unfolding node_inv_def by blast
qed

section \<open>A colliding key moves to a free node\<close>

definition moved :: "nat \<Rightarrow> nat \<Rightarrow> nat \<Rightarrow> lkey \<Rightarrow> 'v node list \<Rightarrow> 'v node list \<Rightarrow> bool" where
  "moved prev mp n key ns ns' \<longleftrightarrow> length ns' = length ns
     \<and> ns' ! prev = (ns ! prev)\<lparr>n_next := int n - int prev\<rparr>
     \<and> ns' ! n = (ns ! mp)\<lparr>n_next := (if n_next (ns ! mp) \<noteq> 0 then n_next (ns ! mp) + (int mp - int n) else 0)\<rparr>
     \<and> ns' ! mp = \<lparr>n_val = None, n_key = LiveKey key, n_next = 0\<rparr>
     \<and> (\<forall>i. i \<noteq> prev \<and> i \<noteq> mp \<and> i \<noteq> n \<longrightarrow> ns' ! i = ns ! i)"

definition swap_pos :: "nat \<Rightarrow> nat \<Rightarrow> nat \<Rightarrow> nat" where
  "swap_pos a b i = (if i = a then b else if i = b then a else i)"

lemma swap_pos_swap [simp]: "swap_pos a b (swap_pos a b i) = i"
  by (simp add: swap_pos_def)

lemma swap_pos_simps [simp]: "swap_pos a b a = b" "swap_pos a b b = a" "i \<noteq> a \<Longrightarrow> i \<noteq> b \<Longrightarrow> swap_pos a b i = i"
  by (simp_all add: swap_pos_def)

lemma moved_fields:
  assumes "moved prev mp n key ns ns'" "n \<noteq> mp" "prev \<noteq> mp" "prev \<noteq> n"
  shows "n_key (ns' ! i) = (if i = mp then LiveKey key else n_key (ns ! swap_pos mp n i))"
    "n_val (ns' ! i) = (if i = mp then None else n_val (ns ! swap_pos mp n i))"
proof -
  note c = assms(1) [unfolded moved_def]
  have "n_key (ns' ! i) = (if i = mp then LiveKey key else n_key (ns ! swap_pos mp n i))
    \<and> n_val (ns' ! i) = (if i = mp then None else n_val (ns ! swap_pos mp n i))"
  proof -
    consider "i = prev" | "i = mp" | "i = n" | "i \<noteq> prev" "i \<noteq> mp" "i \<noteq> n" by blast
    then show ?thesis
    proof cases
      case 1
      have "ns' ! prev = (ns ! prev)\<lparr>n_next := int n - int prev\<rparr>" using c by blast
      then show ?thesis using 1 assms(3,4) by simp
    next
      case 2
      have "ns' ! mp = \<lparr>n_val = None, n_key = LiveKey key, n_next = 0\<rparr>" using c by blast
      then show ?thesis using 2 by simp
    next
      case 3
      have "n_key (ns' ! n) = n_key (ns ! mp) \<and> n_val (ns' ! n) = n_val (ns ! mp)" using c by simp
      then show ?thesis using 3 assms(2) by simp
    next
      case 4
      then have "ns' ! i = ns ! i" using c by blast
      then show ?thesis using 4 by simp
    qed
  qed
  then show "n_key (ns' ! i) = (if i = mp then LiveKey key else n_key (ns ! swap_pos mp n i))"
    "n_val (ns' ! i) = (if i = mp then None else n_val (ns ! swap_pos mp n i))" by blast+
qed

lemma moved_nxt:
  assumes "node_inv main ns" "mp < length ns" "n < length ns" "n \<noteq> mp" "n_key (ns ! n) = NilKey" "nxt ns prev mp" "moved prev mp n key ns ns'"
  shows "nxt ns' i j \<longleftrightarrow> nxt ns (swap_pos mp n i) (swap_pos mp n j)"
proof -
  note c = assms(7) [unfolded moved_def]
  note iso = node_inv_nil(3,4) [OF assms(1,3,5)]
  have ch: "chains ns" by (rule node_inv_chains [OF assms(1)])
  have pm: "prev \<noteq> mp" "prev \<noteq> n" "prev < length ns" using assms(6) chains_not_self [OF ch] iso chains_range [OF ch assms(6)] by auto
  have uniq: "nxt ns i mp \<Longrightarrow> i = prev" for i using ch assms(6) unfolding chains_def by blast
  consider "i = prev" | "i = mp" | "i = n" | "i \<noteq> prev" "i \<noteq> mp" "i \<noteq> n" by blast
  then show ?thesis
  proof cases
    case 1
    have l: "nxt ns' prev j \<longleftrightarrow> j = n" using c pm by (auto simp: nxt_def)
    have "nxt ns prev (swap_pos mp n j) \<longleftrightarrow> swap_pos mp n j = mp" using assms(6) nxt_det [of ns prev] by metis
    also have "\<dots> \<longleftrightarrow> j = n" using assms(4) by (simp add: swap_pos_def)
    finally show ?thesis using 1 l pm by simp
  next
    case 2
    then show ?thesis using c iso by (auto simp: nxt_def [of ns'])
  next
    case 3
    have l: "nxt ns' n j \<longleftrightarrow> nxt ns mp j"
    proof -
      have "\<not> nxt ns mp n" using iso by blast
      then have "n_next (ns ! mp) \<noteq> 0 \<Longrightarrow> n_next (ns ! mp) + (int mp - int n) \<noteq> 0" using assms(2) by (auto simp: nxt_def)
      then show ?thesis using c assms(2,3) by (auto simp: nxt_def)
    qed
    have "nxt ns mp j \<longleftrightarrow> nxt ns mp (swap_pos mp n j)"
      using iso chains_not_self [OF ch] by (cases "j = mp"; cases "j = n") auto
    then show ?thesis using 3 l by simp
  next
    case 4
    have "nxt ns' i j \<longleftrightarrow> nxt ns i j" using c 4 by (simp add: nxt_def)
    also have "\<dots> \<longleftrightarrow> nxt ns i (swap_pos mp n j)"
      using iso uniq [of i] 4 by (cases "j = mp"; cases "j = n") auto
    finally show ?thesis using 4 by simp
  qed
qed

lemma moved_reach:
  assumes "node_inv main ns" "mp < length ns" "n < length ns" "n \<noteq> mp" "n_key (ns ! n) = NilKey" "nxt ns prev mp" "moved prev mp n key ns ns'"
    and "reach ns i j"
  shows "reach ns' (swap_pos mp n i) (swap_pos mp n j)"
  using assms(8)
proof (induction rule: rtranclp_induct)
  case (step j k)
  have "nxt ns' (swap_pos mp n j) (swap_pos mp n k)" unfolding moved_nxt [OF assms(1-7)] using step(2) by simp
  then show ?case using step.IH by (rule rtranclp.rtrancl_into_rtrancl [rotated])
qed simp

lemma moved_chains:
  assumes "node_inv main ns" "mp < length ns" "n < length ns" "n \<noteq> mp" "n_key (ns ! n) = NilKey" "nxt ns prev mp" "moved prev mp n key ns ns'"
  shows "chains ns'"
proof -
  note nx = moved_nxt [OF assms]
  have ch: "chains ns" by (rule node_inv_chains [OF assms(1)])
  then obtain f :: "nat \<Rightarrow> nat" where f: "\<And>i j. nxt ns i j \<Longrightarrow> f i < f j" unfolding chains_def by blast
  show ?thesis
  proof (rule chainsI [where f = "\<lambda>i. f (swap_pos mp n i)"])
    fix i j k assume "nxt ns' i k" "nxt ns' j k"
    then have "swap_pos mp n i = swap_pos mp n j" using ch unfolding nx chains_def by blast
    then show "i = j" by (metis swap_pos_swap)
  next
    fix i assume i: "i < length ns'"
    have pl: "prev < length ns" using chains_range [OF ch assms(6)] by simp
    have r: "0 \<le> int k + n_next (ns ! k) \<and> int k + n_next (ns ! k) < int (length ns)" if "k < length ns" for k
      using ch that unfolding chains_def by blast
    note c = assms(7) [unfolded moved_def]
    consider "i = prev" | "i = mp" | "i = n" | "i \<noteq> prev" "i \<noteq> mp" "i \<noteq> n" by blast
    then show "0 \<le> int i + n_next (ns' ! i) \<and> int i + n_next (ns' ! i) < int (length ns')"
      by cases (use c i r [of mp] r [of i] assms(2,3) in auto)
  qed (use nx f in blast)
qed

lemma node_inv_moved:
  assumes inv: "node_inv main ns" "mp < length ns" "n < length ns" "n \<noteq> mp" "n_key (ns ! n) = NilKey" "nxt ns prev mp" "moved prev mp n key ns ns'"
    and mk: "n_key (ns ! mp) = LiveKey mk" "main mk \<noteq> mp" and key: "valid_key key" "absent ns key" "main key = mp"
  shows "node_inv main ns'"
proof -
  note iso = node_inv_nil(3,4) [OF inv(1,3,5)]
  note c = inv(7) [unfolded moved_def]
  have len: "length ns' = length ns" using c by blast
  have ch: "chains ns" by (rule node_inv_chains [OF inv(1)])
  have pm: "prev \<noteq> mp" "prev \<noteq> n" using inv(6) chains_not_self [OF ch] iso by auto
  have keys: "n_key (ns' ! i) = (if i = n then LiveKey mk else if i = mp then LiveKey key else n_key (ns ! i))" for i
    using moved_fields(1) [OF inv(7,4) pm, of i] mk(1) inv(4) by (simp add: swap_pos_def)
  have not_n: "main k \<noteq> n \<and> main k \<noteq> mp" if il: "i < length ns" and ik: "n_key (ns ! i) = LiveKey k" "i \<noteq> mp \<or> k = mk" for i k
  proof
    show "main k \<noteq> n"
    proof
      assume "main k = n"
      then have "reach ns n i" using node_inv_live(3) [OF inv(1) il ik(1)] by simp
      then have "i = n" by (cases rule: converse_rtranclpE) (use iso in auto)
      then show False using ik(1) inv(5) by simp
    qed
    show "main k \<noteq> mp"
    proof
      assume k: "main k = mp"
      then have "i \<noteq> mp" using ik(2) mk(2) by auto
      then show False using node_inv_live(4) [OF inv(1) il ik(1), of mk] mk k by simp
    qed
  qed
  have live: "node_ok main ns' (swap_pos mp n i)" if i: "i < length ns" "n_key (ns ! i) = LiveKey k" for i k
  proof -
    have ne: "i \<noteq> n" using i(2) inv(5) by auto
    have sk: "n_key (ns' ! swap_pos mp n i) = LiveKey k" using keys i(2) mk ne inv(4) by (auto simp: swap_pos_def)
    have mi: "i \<noteq> mp \<or> k = mk" using i(2) mk by auto
    note lv = node_inv_live [OF inv(1) i] and nn = not_n [OF i mi]
    have "reach ns' (main k) (swap_pos mp n i)" using moved_reach [OF inv lv(3)] nn by simp
    moreover have "n_key (ns' ! main k) = n_key (ns ! main k)" using keys nn by simp
    moreover have "main k \<noteq> swap_pos mp n i \<longrightarrow> main k \<noteq> i" using nn by (auto simp: swap_pos_def)
    moreover have "main k \<noteq> i \<longrightarrow> (case n_key (ns ! main k) of LiveKey k' \<Rightarrow> main k' = main k | _ \<Rightarrow> True)"
      using node_inv_ok [OF inv(1) i(1)] i(2) unfolding node_ok_def by simp
    ultimately show ?thesis unfolding node_ok_def sk using lv(1,2) len by simp
  qed
  have "node_ok main ns' i" if i: "i < length ns'" for i
  proof -
    consider "i = mp" | "i = n" | "i \<noteq> mp" "i \<noteq> n" by blast
    then show ?thesis
    proof cases
      case 1
      then show ?thesis unfolding node_ok_def keys using key inv(2,4) len by simp
    next
      case 2
      then show ?thesis using live [OF inv(2) mk(1)] by simp
    next
      case 3
      have il: "i < length ns" using i len by simp
      show ?thesis
      proof (cases "n_key (ns ! i)")
        case NilKey
        note nil = node_inv_nil [OF inv(1) il NilKey]
        have "i \<noteq> prev" using nil(4) inv(6) by blast
        then have "ns' ! i = ns ! i" using c 3 by blast
        moreover have "\<not> nxt ns' j i" for j unfolding moved_nxt [OF inv] using nil(3) 3 by simp
        ultimately show ?thesis unfolding node_ok_def using NilKey nil(1,2) by simp
      next
        case (DeadKey p)
        have "n_val (ns' ! i) = n_val (ns ! i)" using c 3 by (cases "i = prev") auto
        then show ?thesis using node_inv_ok [OF inv(1) il] DeadKey 3 unfolding node_ok_def keys by simp
      next
        case (LiveKey k)
        then show ?thesis using live [OF il LiveKey] 3 by simp
      qed
    qed
  qed
  moreover have "keys_distinct ns'"
    unfolding keys_distinct_def
  proof (intro allI impI)
    fix i j k k' assume ij: "i < length ns'" "j < length ns'" and kk: "n_key (ns' ! i) = LiveKey k \<and> n_key (ns' ! j) = LiveKey k' \<and> norm_key k = norm_key k'"
    have *: "x = mp \<and> kx = key \<or> swap_pos mp n x < length ns \<and> n_key (ns ! swap_pos mp n x) = LiveKey kx"
      if "x < length ns'" "n_key (ns' ! x) = LiveKey kx" for x kx
      using that len inv(2) mk unfolding keys by (auto simp: swap_pos_def split: if_splits)
    have ab: "norm_key kx \<noteq> norm_key key" if "x < length ns" "n_key (ns ! x) = LiveKey kx" for x kx using key(2) that unfolding absent_def by blast
    consider "i = mp" "k = key" "j = mp" | "swap_pos mp n i < length ns" "n_key (ns ! swap_pos mp n i) = LiveKey k"
        "swap_pos mp n j < length ns" "n_key (ns ! swap_pos mp n j) = LiveKey k'"
      using * [OF ij(1), of k] * [OF ij(2), of k'] ab kk by metis
    then show "i = j"
    proof cases
      case 2
      then have "swap_pos mp n i = swap_pos mp n j" using node_inv_distinct [OF inv(1)] kk by blast
      then show ?thesis by (metis swap_pos_swap)
    qed simp
  qed
  ultimately show ?thesis using moved_chains [OF inv] unfolding node_inv_def by blast
qed

end
