(* ===== verification/LuaTablePlace.thy ===== *)
theory LuaTablePlace
  imports LuaTableNodes
begin

text \<open>
  Lookup and placement in the hash part of a table: the invariant with the free pointer, what a walk
  finds, and that placing a new key keeps the invariant and the stored pairs.
\<close>

section \<open>Placing a key\<close>

lemma upd_node_simps [simp]: "lt_node (upd_node i f t) = (lt_node t)[i := f (lt_node t ! i)]" "lt_array (upd_node i f t) = lt_array t"
  "lt_lsizenode (upd_node i f t) = lt_lsizenode t" "lt_lastfree (upd_node i f t) = lt_lastfree t" "sizenode (upd_node i f t) = sizenode t"
  "is_dummy (upd_node i f t) = is_dummy t"
  by (simp_all add: upd_node_def sizenode_def is_dummy_def)

lemma gnode_eq: "\<not> is_dummy t \<Longrightarrow> gnode t i = lt_node t ! i"
  by (simp add: gnode_def)

lemma mainposition_cong: "lt_lsizenode t = lt_lsizenode t' \<Longrightarrow> mainposition ts_hash t = mainposition ts_hash t'"
  by (simp add: mainposition_def hashpow2_def fun_eq_iff)

lemma hashpow2_less:
  assumes "lt_lsizenode t \<le> MAXBITS"
  shows "hashpow2 t h < sizenode t"
proof -
  let ?k = "lt_lsizenode t"
  have k: "?k < 32" using assms by (simp add: MAXBITS_def)
  have "h AND (2 ^ ?k - 1) = take_bit ?k h" by (simp add: take_bit_eq_mask mask_eq_exp_minus_1)
  then have "unat (h AND (2 ^ ?k - 1)) = take_bit ?k (unat h)" by (simp add: unsigned_take_bit_eq)
  then show ?thesis by (simp add: hashpow2_def sizenode_def)
qed

lemma mainposition_less: "lt_lsizenode t \<le> MAXBITS \<Longrightarrow> mainposition ts_hash t k < sizenode t"
  by (simp add: mainposition_def hashpow2_less)

definition hash_inv :: "(u64 \<Rightarrow> u32) \<Rightarrow> 'v ltable \<Rightarrow> bool" where
  "hash_inv ts_hash t \<longleftrightarrow> lt_lsizenode t \<le> MAXBITS \<and>
     (if is_dummy t then lt_lsizenode t = 0 \<and> lt_lastfree t \<le> 0
      else length (lt_node t) = sizenode t \<and> node_inv (mainposition ts_hash t) (lt_node t) \<and> lt_lastfree t \<le> int (sizenode t)
        \<and> (\<forall>i < sizenode t. lt_lastfree t \<le> int i \<longrightarrow> n_key (lt_node t ! i) \<noteq> NilKey))"

lemma hash_invD:
  assumes "hash_inv ts_hash t" "\<not> is_dummy t"
  shows "length (lt_node t) = sizenode t" "node_inv (mainposition ts_hash t) (lt_node t)" "nodes_of t (lt_node t)"
    "lt_lastfree t \<le> int (sizenode t)" "\<And>i. i < sizenode t \<Longrightarrow> lt_lastfree t \<le> int i \<Longrightarrow> n_key (lt_node t ! i) \<noteq> NilKey"
    "mainposition ts_hash t k < sizenode t"
  using assms mainposition_less [of t ts_hash k] unfolding hash_inv_def nodes_of_def is_dummy_def by auto

lemma free_before_spec:
  assumes "free_before t l = (r, l')"
  shows "l' \<le> l \<and> (\<forall>i. (case r of None \<Rightarrow> 0 \<le> i | Some n \<Rightarrow> n < i) \<and> i < l \<longrightarrow> n_key (gnode t i) \<noteq> NilKey)
    \<and> (case r of None \<Rightarrow> l' = 0 | Some n \<Rightarrow> n < l \<and> l' = n \<and> n_key (gnode t n) = NilKey)"
  using assms
proof (induction l)
  case (Suc l)
  show ?case
  proof (cases "n_key (gnode t l) = NilKey")
    case False
    then have "free_before t l = (r, l')" using Suc.prems by simp
    from Suc.IH [OF this] False show ?thesis by (cases r) (auto simp: less_Suc_eq)
  qed (use Suc.prems in auto)
qed auto

lemma getfreepos_spec:
  assumes "hash_inv ts_hash t" "\<not> is_dummy t"
  obtains (full) l where "getfreepos t = (None, t\<lparr>lt_lastfree := l\<rparr>)" "l \<le> 0" "l < 0 \<longrightarrow> l = lt_lastfree t" "\<forall>i < sizenode t. n_key (lt_node t ! i) \<noteq> NilKey"
    | (free) n where "getfreepos t = (Some n, t\<lparr>lt_lastfree := int n\<rparr>)" "n < sizenode t" "n_key (lt_node t ! n) = NilKey"
      "\<forall>i < sizenode t. n < i \<longrightarrow> n_key (lt_node t ! i) \<noteq> NilKey"
proof (cases "lt_lastfree t > 0")
  case True
  note h = hash_invD [OF assms]
  obtain r l' where fb: "free_before t (nat (lt_lastfree t)) = (r, l')" by (cases "free_before t (nat (lt_lastfree t))")
  note s = free_before_spec [OF fb, unfolded gnode_eq [OF assms(2)]]
  have g: "getfreepos t = (r, t\<lparr>lt_lastfree := int l'\<rparr>)" using True fb by (simp add: getfreepos_def)
  show ?thesis
  proof (cases r)
    case None
    have "n_key (lt_node t ! i) \<noteq> NilKey" if "i < sizenode t" for i
      using s None h(5) [OF that] that by (cases "i < nat (lt_lastfree t)") auto
    then show ?thesis using full [of 0] g s None by auto
  next
    case (Some n)
    have "n_key (lt_node t ! i) \<noteq> NilKey" if "i < sizenode t" "n < i" for i
      using s Some h(5) [OF that(1)] that by (cases "i < nat (lt_lastfree t)") auto
    moreover have "n < sizenode t" using s Some h(4) by auto
    ultimately show ?thesis using free [of n] g s Some by auto
  qed
next
  case False
  note h = hash_invD [OF assms]
  show ?thesis using full [of "lt_lastfree t"] False h(5) by (auto simp: getfreepos_def)
qed

section \<open>Stored pairs\<close>

definition entries :: "'v node list \<Rightarrow> (lkey \<times> 'v) set" where
  "entries ns = {(norm_key k, v) | i k v. i < length ns \<and> n_key (ns ! i) = LiveKey k \<and> n_val (ns ! i) = Some v}"

definition live_keys :: "'v node list \<Rightarrow> lkey set" where
  "live_keys ns = {k. \<exists>i < length ns. n_key (ns ! i) = LiveKey k}"

definition used :: "'v node list \<Rightarrow> nat" where
  "used ns = card {i. i < length ns \<and> n_key (ns ! i) \<noteq> NilKey}"

lemma used_le: "used ns \<le> length ns"
proof -
  have "used ns \<le> card {..<length ns}" unfolding used_def by (rule card_mono) auto
  then show ?thesis by simp
qed

lemma used_full: "used ns = length ns \<Longrightarrow> i < length ns \<Longrightarrow> n_key (ns ! i) \<noteq> NilKey"
proof
  assume u: "used ns = length ns" and i: "i < length ns" "n_key (ns ! i) = NilKey"
  have "used ns \<le> card ({..<length ns} - {i})" unfolding used_def using i by (intro card_mono) auto
  then show False using u i(1) by simp
qed

lemma used_all: "\<forall>i < length ns. n_key (ns ! i) \<noteq> NilKey \<Longrightarrow> used ns = length ns"
proof -
  assume "\<forall>i < length ns. n_key (ns ! i) \<noteq> NilKey"
  then have "{i. i < length ns \<and> n_key (ns ! i) \<noteq> NilKey} = {..<length ns}" by auto
  then show ?thesis by (simp add: used_def)
qed

lemma used_step:
  assumes "length ns' = length ns" "\<And>i. i < length ns \<Longrightarrow> i \<noteq> n \<Longrightarrow> n_key (ns' ! i) \<noteq> NilKey \<Longrightarrow> n_key (ns ! i) \<noteq> NilKey"
  shows "used ns' \<le> Suc (used ns)"
proof -
  have "used ns' \<le> card (insert n {i. i < length ns \<and> n_key (ns ! i) \<noteq> NilKey})"
    unfolding used_def using assms by (intro card_mono) auto
  also have "\<dots> \<le> Suc (used ns)" unfolding used_def by (rule card_insert_le_m1) auto
  finally show ?thesis .
qed

section \<open>Node arrays after placing a key\<close>

lemma chain_node_chained:
  assumes "\<not> is_dummy t" "mp < length (lt_node t)" "n < length (lt_node t)" "n \<noteq> mp" "n_val (lt_node t ! n) = None" "n_next (lt_node t ! n) = 0"
  shows "chained mp n key (lt_node t) (lt_node (upd_node n (\<lambda>nd. nd\<lparr>n_key := LiveKey key\<rparr>) (chain_node mp n t)))"
    "chain_node mp n t = t\<lparr>lt_node := lt_node (chain_node mp n t)\<rparr>" "n_val (gnode (chain_node mp n t) n) = None"
    "is_dummy (chain_node mp n t) = is_dummy t"
  using assms by (auto simp: chained_def chain_node_def Let_def gnode_eq upd_node_def nth_list_update gnode_def is_dummy_def)

lemma move_node_moved:
  assumes "\<not> is_dummy t" "mp < length (lt_node t)" "n < length (lt_node t)" "prev < length (lt_node t)" "n \<noteq> mp" "prev \<noteq> mp" "prev \<noteq> n"
  shows "moved prev mp n key (lt_node t) (lt_node (upd_node mp (\<lambda>nd. nd\<lparr>n_key := LiveKey key\<rparr>) (move_node prev mp n t)))"
    "move_node prev mp n t = t\<lparr>lt_node := lt_node (move_node prev mp n t)\<rparr>" "n_val (gnode (move_node prev mp n t) mp) = None"
    "is_dummy (move_node prev mp n t) = is_dummy t"
  using assms by (auto simp: moved_def move_node_def Let_def gnode_eq upd_node_def nth_list_update gnode_def is_dummy_def)

lemma entries_chained:
  assumes "chained mp n key ns ns'" "n < length ns" "mp < length ns" "n \<noteq> mp" "n_key (ns ! n) = NilKey"
  shows "entries ns' = entries ns" "live_keys ns' \<subseteq> insert key (live_keys ns)" "used ns' \<le> Suc (used ns)"
proof -
  note c = assms(1) [unfolded chained_def]
  have keys: "n_key (ns' ! i) = (if i = n then LiveKey key else n_key (ns ! i))" for i using c by (cases "i = mp") auto
  have vals: "n_val (ns' ! i) = n_val (ns ! i)" if "i \<noteq> n" for i using c that by (cases "i = mp") auto
  have len: "length ns' = length ns" and vn: "n_val (ns' ! n) = None" using c by auto
  have "i < length ns' \<and> n_key (ns' ! i) = LiveKey k \<and> n_val (ns' ! i) = Some v \<longleftrightarrow>
      i < length ns \<and> n_key (ns ! i) = LiveKey k \<and> n_val (ns ! i) = Some v" for i k v
    using len vn assms(5) keys vals by (cases "i = n") simp_all
  then show "entries ns' = entries ns" unfolding entries_def by simp
  show "live_keys ns' \<subseteq> insert key (live_keys ns)" unfolding live_keys_def keys len by auto
  show "used ns' \<le> Suc (used ns)" by (rule used_step [OF len, of n]) (simp add: keys)
qed

lemma entries_moved:
  assumes "moved prev mp n key ns ns'" "n < length ns" "mp < length ns" "n \<noteq> mp" "prev \<noteq> mp" "prev \<noteq> n" "n_key (ns ! n) = NilKey"
    "n_key (ns ! mp) = LiveKey mk"
  shows "entries ns' = entries ns" "live_keys ns' \<subseteq> insert key (live_keys ns)" "used ns' \<le> Suc (used ns)"
proof -
  note c = assms(1) [unfolded moved_def]
  have len: "length ns' = length ns" using c by auto
  note keys = moved_fields(1) [OF assms(1,4-6)] and vals = moved_fields(2) [OF assms(1,4-6)]
  have sl: "swap_pos mp n i < length ns \<longleftrightarrow> i < length ns" for i using assms(2,3) by (simp add: swap_pos_def)
  have iff: "i < length ns' \<and> n_key (ns' ! i) = LiveKey k \<and> n_val (ns' ! i) = Some v \<longleftrightarrow>
      swap_pos mp n i < length ns \<and> n_key (ns ! swap_pos mp n i) = LiveKey k \<and> n_val (ns ! swap_pos mp n i) = Some v" for i k v
    using len sl assms(7) unfolding keys vals by (cases "i = mp") simp_all
  show "entries ns' = entries ns"
    unfolding entries_def iff by (auto, metis swap_pos_swap)
  show "live_keys ns' \<subseteq> insert key (live_keys ns)"
    unfolding live_keys_def keys len using sl by (auto split: if_splits)
  show "used ns' \<le> Suc (used ns)"
  proof (rule used_step [OF len, of n])
    fix i assume "i \<noteq> n" "n_key (ns' ! i) \<noteq> NilKey"
    then show "n_key (ns ! i) \<noteq> NilKey" using assms(8) unfolding keys by (cases "i = mp") simp_all
  qed
qed

lemma entries_in_place:
  fixes ns :: "'v node list" and key :: lkey
  assumes "mp < length ns" "n_val (ns ! mp) = None"
  defines "ns' \<equiv> ns[mp := (ns ! mp)\<lparr>n_key := LiveKey key\<rparr>]"
  shows "entries ns' = entries ns" "live_keys ns' \<subseteq> insert key (live_keys ns)" "used ns' \<le> Suc (used ns)"
proof -
  have iff: "i < length ns' \<and> n_key (ns' ! i) = LiveKey k \<and> n_val (ns' ! i) = Some v \<longleftrightarrow>
      i < length ns \<and> n_key (ns ! i) = LiveKey k \<and> n_val (ns ! i) = Some v" for i k v
    using assms by (cases "i = mp") auto
  show "entries ns' = entries ns" unfolding entries_def iff by simp
  show "live_keys ns' \<subseteq> insert key (live_keys ns)"
    using assms(1) by (auto simp: live_keys_def ns'_def nth_list_update split: if_splits)
  show "used ns' \<le> Suc (used ns)" by (rule used_step [of _ _ mp]) (use assms in auto)
qed

lemma hash_inv_replace:
  assumes "hash_inv ts_hash t" "\<not> is_dummy t" "length ns' = sizenode t" "node_inv (mainposition ts_hash t) ns'" "l \<le> int (sizenode t)"
    "\<forall>i < sizenode t. l \<le> int i \<longrightarrow> n_key (ns' ! i) \<noteq> NilKey"
  shows "hash_inv ts_hash (t\<lparr>lt_node := ns', lt_lastfree := l\<rparr>)"
proof -
  have "ns' \<noteq> []" using assms(3) by (auto simp: sizenode_def)
  moreover have "mainposition ts_hash (t\<lparr>lt_node := ns', lt_lastfree := l\<rparr>) = mainposition ts_hash t" by (rule mainposition_cong) simp
  ultimately show ?thesis using assms by (simp add: hash_inv_def is_dummy_def sizenode_def)
qed

text \<open>What placing a key did when it succeeded.\<close>

definition placed :: "(u64 \<Rightarrow> u32) \<Rightarrow> 'v ltable \<Rightarrow> lkey \<Rightarrow> nat \<Rightarrow> 'v ltable \<Rightarrow> bool" where
  "placed ts_hash t key n t' \<longleftrightarrow> \<not> is_dummy t \<and> \<not> is_dummy t' \<and> t' = t\<lparr>lt_node := lt_node t', lt_lastfree := lt_lastfree t'\<rparr>
     \<and> (lt_lastfree t' < 0 \<longrightarrow> lt_lastfree t' = lt_lastfree t) \<and> hash_inv ts_hash t' \<and> n < sizenode t \<and> n_key (lt_node t' ! n) = LiveKey key \<and> n_val (lt_node t' ! n) = None
     \<and> entries (lt_node t') = entries (lt_node t) \<and> live_keys (lt_node t') \<subseteq> insert key (live_keys (lt_node t))
     \<and> used (lt_node t') \<le> Suc (used (lt_node t))"

lemma place_key_in_place:
  assumes inv: "hash_inv ts_hash t" and key: "valid_key key" "absent (lt_node t) key"
    and mp: "n_val (gnode t (mainposition ts_hash t key)) = None" "\<not> is_dummy t"
  shows "\<exists>t'. place_key ts_hash t key = Inr (Some (mainposition ts_hash t key), t') \<and> placed ts_hash t key (mainposition ts_hash t key) t'"
proof -
  let ?mp = "mainposition ts_hash t key" and ?ns = "lt_node t"
  note h = hash_invD [OF inv mp(2)]
  let ?ns' = "?ns[?mp := (?ns ! ?mp)\<lparr>n_key := LiveKey key\<rparr>]"
  have m: "?mp < length ?ns" "n_val (?ns ! ?mp) = None" using h(1,6) mp by (simp_all add: gnode_eq [OF mp(2)])
  have "node_inv (mainposition ts_hash t) ?ns'" by (rule node_inv_in_place [OF h(2) m(1) refl m(2) key]) (rule mainposition_norm)
  moreover have "n_key (?ns' ! i) \<noteq> NilKey" if "i < sizenode t" "lt_lastfree t \<le> int i" for i
    using h(5) [OF that] h(1) that by (cases "i = ?mp") auto
  ultimately have "hash_inv ts_hash (t\<lparr>lt_node := ?ns', lt_lastfree := lt_lastfree t\<rparr>)"
    using h(1,4) by (intro hash_inv_replace [OF inv mp(2)]) auto
  moreover have "place_key ts_hash t key = Inr (Some ?mp, t\<lparr>lt_node := ?ns', lt_lastfree := lt_lastfree t\<rparr>)"
    using mp by (simp add: place_key_def setnodekey_def upd_node_def Let_def)
  ultimately show ?thesis
    using entries_in_place [OF m, of key] m h(1) mp(2) by (auto simp: placed_def is_dummy_def)
qed

lemma place_key_chain:
  assumes inv: "hash_inv ts_hash t" and key: "valid_key key" "absent (lt_node t) key" and nd: "\<not> is_dummy t"
    and mk: "n_key (lt_node t ! mainposition ts_hash t key) = LiveKey mk" "mainposition ts_hash t mk = mainposition ts_hash t key"
    and free: "n < sizenode t" "n_key (lt_node t ! n) = NilKey" "\<forall>i < sizenode t. n < i \<longrightarrow> n_key (lt_node t ! i) \<noteq> NilKey"
  shows "\<exists>t'. setnodekey n key (chain_node (mainposition ts_hash t key) n (t\<lparr>lt_lastfree := int n\<rparr>)) = Inr (Some n, t') \<and> placed ts_hash t key n t'"
proof -
  let ?mp = "mainposition ts_hash t key" and ?ns = "lt_node t" and ?t1 = "t\<lparr>lt_lastfree := int n\<rparr>"
  note h = hash_invD [OF inv nd]
  have l: "?mp < length ?ns" "n < length ?ns" "n \<noteq> ?mp" using h(1,6) free mk by auto
  note nil = node_inv_nil [OF h(2) l(2) free(2)]
  define ns' where "ns' = lt_node (upd_node n (\<lambda>nd. nd\<lparr>n_key := LiveKey key\<rparr>) (chain_node ?mp n ?t1))"
  have c: "chained ?mp n key ?ns ns'" "chain_node ?mp n ?t1 = ?t1\<lparr>lt_node := lt_node (chain_node ?mp n ?t1)\<rparr>"
    "n_val (gnode (chain_node ?mp n ?t1) n) = None" "is_dummy (chain_node ?mp n ?t1) = is_dummy ?t1"
    unfolding ns'_def using chain_node_chained [where t = ?t1 and mp = ?mp and n = n] l nil(1,2) nd by (auto simp: is_dummy_def)
  have inv': "node_inv (mainposition ts_hash t) ns'"
    by (rule node_inv_chained [OF h(2) l free(2) c(1) mk(1,2) key refl])
  have keys: "n_key (ns' ! i) = (if i = n then LiveKey key else n_key (?ns ! i))" for i
    using c(1) unfolding chained_def by (cases "i = ?mp") auto
  have hi: "hash_inv ts_hash (t\<lparr>lt_node := ns', lt_lastfree := int n\<rparr>)"
    using inv' free c(1) h(1) by (intro hash_inv_replace [OF inv nd]) (auto simp: keys chained_def)
  have "setnodekey n key (chain_node ?mp n ?t1) = Inr (Some n, t\<lparr>lt_node := ns', lt_lastfree := int n\<rparr>)"
    unfolding setnodekey_def c(3) using arg_cong [OF c(2), where f = "upd_node n (\<lambda>nd. nd\<lparr>n_key := LiveKey key\<rparr>)"]
    by (simp add: upd_node_def ns'_def)
  then show ?thesis using hi entries_chained [OF c(1) l(2,1,3) free(2)] l h(1) nd c(1) by (auto simp: placed_def chained_def is_dummy_def)
qed

lemma place_key_move:
  assumes inv: "hash_inv ts_hash t" and key: "valid_key key" "absent (lt_node t) key" and nd: "\<not> is_dummy t"
    and mk: "n_key (lt_node t ! mainposition ts_hash t key) = LiveKey mk" "mainposition ts_hash t mk \<noteq> mainposition ts_hash t key"
    and free: "n < sizenode t" "n_key (lt_node t ! n) = NilKey" "\<forall>i < sizenode t. n < i \<longrightarrow> n_key (lt_node t ! i) \<noteq> NilKey"
    and prev: "nxt (lt_node t) prev (mainposition ts_hash t key)"
  shows "\<exists>t'. setnodekey (mainposition ts_hash t key) key (move_node prev (mainposition ts_hash t key) n (t\<lparr>lt_lastfree := int n\<rparr>))
      = Inr (Some (mainposition ts_hash t key), t') \<and> placed ts_hash t key (mainposition ts_hash t key) t'"
proof -
  let ?mp = "mainposition ts_hash t key" and ?ns = "lt_node t" and ?t1 = "t\<lparr>lt_lastfree := int n\<rparr>"
  note h = hash_invD [OF inv nd]
  have l: "?mp < length ?ns" "n < length ?ns" "n \<noteq> ?mp" using h(1,6) free mk by auto
  note nil = node_inv_nil [OF h(2) l(2) free(2)]
  have ch: "chains ?ns" by (rule node_inv_chains [OF h(2)])
  have pr: "prev < length ?ns" "prev \<noteq> ?mp" "prev \<noteq> n"
    using chains_range [OF ch prev] chains_not_self [OF ch] prev nil(4) by auto
  define ns' where "ns' = lt_node (upd_node ?mp (\<lambda>nd. nd\<lparr>n_key := LiveKey key\<rparr>) (move_node prev ?mp n ?t1))"
  have c: "moved prev ?mp n key ?ns ns'" "move_node prev ?mp n ?t1 = ?t1\<lparr>lt_node := lt_node (move_node prev ?mp n ?t1)\<rparr>"
    "n_val (gnode (move_node prev ?mp n ?t1) ?mp) = None"
    unfolding ns'_def using move_node_moved [where t = ?t1 and mp = ?mp and n = n and prev = prev] l pr nd by (auto simp: is_dummy_def)
  have inv': "node_inv (mainposition ts_hash t) ns'"
    by (rule node_inv_moved [OF h(2) l free(2) prev c(1) mk(1,2) key refl])
  have keys: "n_key (ns' ! i) \<noteq> NilKey" if "i = n \<or> i = ?mp \<or> n_key (?ns ! i) \<noteq> NilKey" for i
    using c(1) that mk(1) pr unfolding moved_def by (cases "i = prev"; cases "i = ?mp"; cases "i = n") auto
  have hi: "hash_inv ts_hash (t\<lparr>lt_node := ns', lt_lastfree := int n\<rparr>)"
    using inv' free c(1) h(1) keys by (intro hash_inv_replace [OF inv nd]) (auto simp: moved_def le_less)
  have "setnodekey ?mp key (move_node prev ?mp n ?t1) = Inr (Some ?mp, t\<lparr>lt_node := ns', lt_lastfree := int n\<rparr>)"
    unfolding setnodekey_def c(3) using arg_cong [OF c(2), where f = "upd_node ?mp (\<lambda>nd. nd\<lparr>n_key := LiveKey key\<rparr>)"]
    by (simp add: upd_node_def ns'_def)
  then show ?thesis using hi entries_moved [OF c(1) l(2,1,3) pr(2,3) free(2) mk(1)] l h(1) nd c(1) by (auto simp: placed_def moved_def is_dummy_def)
qed

lemma place_key_spec:
  assumes inv: "hash_inv ts_hash t" and key: "valid_key key" "absent (lt_node t) key"
  obtains (full) l where "place_key ts_hash t key = Inr (None, t\<lparr>lt_lastfree := l\<rparr>)" "l < 0 \<longrightarrow> l = lt_lastfree t" "l \<le> 0"
      "is_dummy t \<or> used (lt_node t) = sizenode t"
    | (place) n t' where "place_key ts_hash t key = Inr (Some n, t')" "placed ts_hash t key n t'"
proof -
  let ?mp = "mainposition ts_hash t key"
  consider (dummy) "is_dummy t" | (in_place) "\<not> is_dummy t" "n_val (gnode t ?mp) = None" | (collide) "\<not> is_dummy t" "n_val (gnode t ?mp) \<noteq> None" by blast
  then show thesis
  proof cases
    case dummy
    then have "lt_lastfree t \<le> 0" using inv by (simp add: hash_inv_def)
    then show thesis using full [of "lt_lastfree t"] dummy by (simp add: place_key_def getfreepos_def Let_def)
  next
    case in_place
    then show thesis using place_key_in_place [OF inv key in_place(2,1)] place by blast
  next
    case collide
    note h = hash_invD [OF inv collide(1)]
    have v: "n_val (lt_node t ! ?mp) \<noteq> None" using collide by (simp add: gnode_eq)
    obtain mk where mk: "n_key (lt_node t ! ?mp) = LiveKey mk" using node_inv_value_key [OF h(2) _ v] h(1,6) by auto
    show thesis
    proof (cases rule: getfreepos_spec [OF inv collide(1)])
      case (1 l)
      note full = 1
      have "used (lt_node t) = sizenode t" using used_all [of "lt_node t"] full(4) h(1) by simp
      then show thesis using that(1) [of l] full(1-3) collide by (simp add: place_key_def Let_def)
    next
      case (2 n)
      note free = 2
      let ?t1 = "t\<lparr>lt_lastfree := int n\<rparr>"
      have t1: "\<not> is_dummy ?t1" "mainposition ts_hash ?t1 = mainposition ts_hash t" "sizenode ?t1 = sizenode t"
        using collide(1) by (auto simp: is_dummy_def sizenode_def intro: mainposition_cong)
      have ch: "chains (lt_node t)" by (rule node_inv_chains [OF h(2)])
      have g1: "gnode ?t1 i = lt_node t ! i" for i using t1(1) by (simp add: gnode_eq)
      show thesis
      proof (cases "mainposition ts_hash t mk = ?mp")
        case True
        have "n_next (lt_node t ! n) = 0" using node_inv_nil(1) [OF h(2) _ free(3)] free(2) h(1) by simp
        then have "place_key ts_hash t key = setnodekey n key (chain_node ?mp n ?t1)"
          using collide free(1) mk True by (simp add: place_key_def Let_def g1 t1)
        then show thesis using place_key_chain [OF inv key collide(1) mk True free(2-4)] place by metis
      next
        case False
        have ml: "mainposition ts_hash t mk < length (lt_node t)" "reach (lt_node t) (mainposition ts_hash t mk) ?mp"
          using node_inv_live(2,3) [OF h(2) _ mk] h(1,6) by auto
        have nof: "nodes_of ?t1 (lt_node t)" using h(1) collide(1) t1(3) by (simp add: nodes_of_def is_dummy_def)
        obtain prev where prev: "find_prev ?t1 ?mp (sizenode ?t1) (mainposition ts_hash t mk) = Some prev" "nxt (lt_node t) prev ?mp"
          using find_prev_spec [OF nof ch ml(2) False ml(1)] reach_set_bounds(2) [OF ch ml(1)] h(1) t1(3) by metis
        then have "place_key ts_hash t key = setnodekey ?mp key (move_node prev ?mp n ?t1)"
          using collide free(1) mk False by (simp add: place_key_def Let_def g1 t1)
        then show thesis using place_key_move [OF inv key collide(1) mk False free(2-4) prev(2)] place by metis
      qed
    qed
  qed
qed

section \<open>Lookup\<close>

lemma find_slot_spec:
  assumes inv: "hash_inv ts_hash t" "\<not> is_dummy t" and valid: "valid_key key"
    and P: "\<And>tk. P tk \<longleftrightarrow> (\<exists>k. tk = LiveKey k \<and> valid_key k \<and> norm_key k = norm_key key)"
  obtains (found) n k where "find_slot P t (mainposition ts_hash t key) = Inr (NodeSlot n)" "n < sizenode t" "n_key (lt_node t ! n) = LiveKey k" "norm_key k = norm_key key"
    | (missing) "find_slot P t (mainposition ts_hash t key) = Inr NilObject" "absent (lt_node t) key"
proof -
  note h = hash_invD [OF inv]
  let ?mp = "mainposition ts_hash t key"
  have ch: "chains (lt_node t)" by (rule node_inv_chains [OF h(2)])
  have mp: "?mp < length (lt_node t)" using h(1,6) by simp
  obtain r where r: "chain_find P t (sizenode t) ?mp = Some r"
    "case r of Some m \<Rightarrow> reach (lt_node t) ?mp m \<and> P (n_key (lt_node t ! m)) | None \<Rightarrow> \<forall>m. reach (lt_node t) ?mp m \<longrightarrow> \<not> P (n_key (lt_node t ! m))"
    using chain_find_spec [OF h(3) ch mp, of "sizenode t" P] reach_set_bounds(2) [OF ch mp] h(1) by auto
  show thesis
  proof (cases r)
    case (Some m)
    then have "m < length (lt_node t)" using r(2) reach_range [OF _ ch mp] by simp
    then show thesis using found [of m] r Some h(1) P by (auto simp: find_slot_def)
  next
    case None
    have "absent (lt_node t) key"
      unfolding absent_def
    proof (intro allI impI notI)
      fix i k assume i: "i < length (lt_node t)" and k: "n_key (lt_node t ! i) = LiveKey k" and n: "norm_key k = norm_key key"
      note lv = node_inv_live [OF h(2) i k]
      have "mainposition ts_hash t k = ?mp" using n by (rule mainposition_norm)
      then have "\<not> P (n_key (lt_node t ! i))" using r(2) None lv(3) by simp
      then show False using P k n lv(1) by blast
    qed
    then show thesis using missing r(1) None by (simp add: find_slot_def)
  qed
qed

end
