(* ===== verification/LuaTableMap.thy ===== *)
theory LuaTableMap
  imports LuaTablePlace
begin

text \<open>
  Whole tables: the pairs a table stores, the invariant that ties array part and hash part together,
  and what lookup, assignment and insertion without growth do to the stored pairs.
\<close>

declare newkey.simps [simp del]

section \<open>Stored pairs\<close>

definition num_key :: "nat \<Rightarrow> lkey" where
  "num_key i = KNumber (cast_num (int i))"

definition array_pairs :: "'v option list \<Rightarrow> (lkey \<times> 'v) set" where
  "array_pairs arr = {(num_key (Suc i), v) | i v. i < length arr \<and> arr ! i = Some v}"

definition stored :: "'v ltable \<Rightarrow> (lkey \<times> 'v) set" where
  "stored t = array_pairs (lt_array t) \<union> entries (lt_node t)"

definition in_array :: "'v ltable \<Rightarrow> lkey \<Rightarrow> bool" where
  "in_array t key \<longleftrightarrow> 1 \<le> key_index key \<and> key_index key \<le> int (sizearray t)"

definition tab_inv :: "(u64 \<Rightarrow> u32) \<Rightarrow> 'v ltable \<Rightarrow> bool" where
  "tab_inv ts_hash t \<longleftrightarrow> hash_inv ts_hash t \<and> sizearray t \<le> MAXSIZE
     \<and> (lt_lastfree t < 0 \<longrightarrow> - lt_lastfree t \<le> int (sizearray t))
     \<and> (\<forall>k \<in> live_keys (lt_node t). \<not> (1 \<le> key_index k \<and> key_index k \<le> int (sizearray t) + 1))"

lemma tab_invD:
  assumes "tab_inv ts_hash t"
  shows "hash_inv ts_hash t" "sizearray t \<le> MAXSIZE" "lt_lastfree t < 0 \<Longrightarrow> - lt_lastfree t \<le> int (sizearray t)"
    "k \<in> live_keys (lt_node t) \<Longrightarrow> \<not> (1 \<le> key_index k \<and> key_index k \<le> int (sizearray t) + 1)"
  using assms by (auto simp: tab_inv_def)

lemma MAXSIZE_value: "MAXSIZE = 67108864"
  by (simp add: MAXSIZE_def MAXBITS_def)

lemma num_key_index: "i < 2 ^ 31 \<Longrightarrow> key_index (num_key i) = int i"
  unfolding num_key_def by (rule key_index_num) auto

lemma num_key_valid: "i < 2 ^ 31 \<Longrightarrow> valid_key (num_key i)"
  unfolding num_key_def using cast_num_not_nan [of "int i"] by simp

lemma num_key_norm: "0 < i \<Longrightarrow> i < 2 ^ 31 \<Longrightarrow> norm_key (num_key i) = num_key i"
proof -
  assume i: "0 < i" "i < 2 ^ 31"
  have "dbl_int (cast_num (int i)) = Some (int i)" using i by (intro dbl_int_cast_num) simp
  then have "take_bit 63 (cast_num (int i)) \<noteq> 0" using dbl_int_zero [of "cast_num (int i)"] i by auto
  then show ?thesis by (simp add: num_key_def norm64_def)
qed

lemma norm_index_key: "0 < key_index k \<Longrightarrow> norm_key k = num_key (nat (key_index k)) \<and> k = num_key (nat (key_index k))"
proof -
  assume p: "0 < key_index k"
  have k: "k = num_key (nat (key_index k))" "key_index k < 2 ^ 31" using key_index_pos [OF p] p unfolding num_key_def by auto
  then have "norm_key (num_key (nat (key_index k))) = num_key (nat (key_index k))" using p by (intro num_key_norm) auto
  then show ?thesis using k(1) by metis
qed

lemma entriesI: "i < length ns \<Longrightarrow> n_key (ns ! i) = LiveKey k \<Longrightarrow> n_val (ns ! i) = Some v \<Longrightarrow> (norm_key k, v) \<in> entries ns"
  by (auto simp: entries_def)

lemma entries_key:
  assumes "(q, v) \<in> entries ns"
  obtains k where "k \<in> live_keys ns" "q = norm_key k"
  using assms by (auto simp: entries_def live_keys_def)

lemma entries_not_in_array:
  assumes "tab_inv ts_hash t" "(q, v) \<in> entries (lt_node t)"
  shows "\<not> (1 \<le> key_index q \<and> key_index q \<le> int (sizearray t) + 1)"
  using entries_key [OF assms(2)] tab_invD(4) [OF assms(1)] by (metis key_index_norm)

lemma array_pairsI: "i < length arr \<Longrightarrow> arr ! i = Some v \<Longrightarrow> (num_key (Suc i), v) \<in> array_pairs arr"
  by (auto simp: array_pairs_def)

lemma array_pairs_iff:
  assumes "length arr \<le> MAXSIZE" "1 \<le> key_index q" "key_index q \<le> int (length arr)"
  shows "(norm_key q, v) \<in> array_pairs arr \<longleftrightarrow> arr ! (nat (key_index q) - 1) = Some v"
proof -
  have q: "norm_key q = num_key (nat (key_index q))" using norm_index_key [of q] assms(2) by simp
  have *: "num_key (nat (key_index q)) = num_key (Suc i) \<longleftrightarrow> i = nat (key_index q) - 1" if "i < length arr" for i
  proof
    assume "num_key (nat (key_index q)) = num_key (Suc i)"
    then have "key_index (num_key (nat (key_index q))) = key_index (num_key (Suc i))" by simp
    then show "i = nat (key_index q) - 1" using assms that by (simp add: num_key_index MAXSIZE_value)
  qed (use assms(2) in simp)
  have n: "nat (key_index q) = Suc (nat (key_index q) - 1)" "nat (key_index q) - 1 < length arr" using assms(2,3) by auto
  show ?thesis
  proof
    assume "(norm_key q, v) \<in> array_pairs arr"
    then obtain i where "num_key (nat (key_index q)) = num_key (Suc i)" "i < length arr" "arr ! i = Some v" unfolding q array_pairs_def by auto
    then show "arr ! (nat (key_index q) - 1) = Some v" using * by simp
  next
    assume "arr ! (nat (key_index q) - 1) = Some v"
    then show "(norm_key q, v) \<in> array_pairs arr" unfolding q using array_pairsI [OF n(2)] n(1) by metis
  qed
qed

lemma array_pairs_index:
  assumes "length arr \<le> MAXSIZE" "(q, v) \<in> array_pairs arr"
  shows "1 \<le> key_index q" "key_index q \<le> int (length arr)" "norm_key q = q"
  using assms by (auto simp: array_pairs_def num_key_index num_key_norm MAXSIZE_value)

lemma entries_single:
  assumes "hash_inv ts_hash t" "(q, v) \<in> entries (lt_node t)" "(q, w) \<in> entries (lt_node t)"
  shows "v = w"
proof (cases "is_dummy t")
  case False
  obtain i k j k' where *: "i < length (lt_node t)" "n_key (lt_node t ! i) = LiveKey k" "n_val (lt_node t ! i) = Some v" "q = norm_key k"
    "j < length (lt_node t)" "n_key (lt_node t ! j) = LiveKey k'" "n_val (lt_node t ! j) = Some w" "q = norm_key k'"
    using assms(2,3) by (auto simp: entries_def)
  then have "i = j" using node_inv_distinct [OF hash_invD(2) [OF assms(1) False]] by metis
  then show ?thesis using * by simp
qed (use assms in \<open>simp add: is_dummy_def entries_def\<close>)

lemma stored_single:
  assumes "tab_inv ts_hash t" "(q, v) \<in> stored t" "(q, w) \<in> stored t"
  shows "v = w"
proof -
  note i = tab_invD(1,2) [OF assms(1)]
  consider "(q, v) \<in> array_pairs (lt_array t)" "(q, w) \<in> array_pairs (lt_array t)" | "(q, v) \<in> entries (lt_node t)" "(q, w) \<in> entries (lt_node t)"
    using assms(2,3) entries_not_in_array [OF assms(1)] array_pairs_index(1,2) [OF i(2)] unfolding stored_def by force
  then show ?thesis
  proof cases
    case 1
    note q = array_pairs_index [OF i(2) 1(1)]
    show ?thesis using array_pairs_iff [OF i(2) q(1,2), of v] array_pairs_iff [OF i(2) q(1,2), of w] 1 q(3) by simp
  next
    case 2
    then show ?thesis by (rule entries_single [OF i(1)])
  qed
qed

text \<open>The value of a key, read off the slot a lookup returns.\<close>

definition slot_for :: "'v ltable \<Rightarrow> lkey \<Rightarrow> slot \<Rightarrow> bool" where
  "slot_for t key s \<longleftrightarrow>
     (if in_array t key then s = ArraySlot (nat (key_index key) - 1)
      else (\<exists>n k. s = NodeSlot n \<and> n < sizenode t \<and> \<not> is_dummy t \<and> n_key (lt_node t ! n) = LiveKey k \<and> norm_key k = norm_key key)
           \<or> s = NilObject \<and> absent (lt_node t) key)"

lemma slot_for_value:
  assumes inv: "tab_inv ts_hash t" and s: "slot_for t key s"
  shows "slot_value t s = Some v \<longleftrightarrow> (norm_key key, v) \<in> stored t"
proof (cases "in_array t key")
  case True
  have "(norm_key key, v) \<notin> entries (lt_node t)" using entries_not_in_array [OF inv, of "norm_key key" v] True by (auto simp: in_array_def)
  then show ?thesis using s True array_pairs_iff [OF tab_invD(2) [OF inv], of key v] by (auto simp: slot_for_def stored_def in_array_def)
next
  case False
  have na: "(norm_key key, v) \<notin> array_pairs (lt_array t)"
    using array_pairs_index(1,2) [OF tab_invD(2) [OF inv], of "norm_key key" v] False by (auto simp: in_array_def)
  show ?thesis
  proof (cases "s = NilObject")
    case True
    have "absent (lt_node t) key" using s False True by (auto simp: slot_for_def)
    then have "(norm_key key, v) \<notin> entries (lt_node t)" by (auto simp: absent_def entries_def)
    then show ?thesis using na True by (simp add: stored_def)
  next
    case nn: False
    obtain n k where n: "s = NodeSlot n" "n < sizenode t" "\<not> is_dummy t" "n_key (lt_node t ! n) = LiveKey k" "norm_key k = norm_key key"
      using s False nn by (auto simp: slot_for_def)
    note h = hash_invD [OF tab_invD(1) [OF inv] n(3)]
    have "n_val (lt_node t ! n) = Some v \<longleftrightarrow> (norm_key key, v) \<in> entries (lt_node t)"
    proof
      assume "(norm_key key, v) \<in> entries (lt_node t)"
      then obtain i k' where i: "i < length (lt_node t)" "n_key (lt_node t ! i) = LiveKey k'" "n_val (lt_node t ! i) = Some v" "norm_key key = norm_key k'"
        by (auto simp: entries_def)
      then have "i = n" using node_inv_distinct [OF h(2) i(1) _ i(2) n(4)] n(2,5) h(1) by simp
      then show "n_val (lt_node t ! n) = Some v" using i by simp
    next
      assume v: "n_val (lt_node t ! n) = Some v"
      have "(norm_key k, v) \<in> entries (lt_node t)" by (rule entriesI [OF _ n(4) v]) (use n(2) h(1) in simp)
      then show "(norm_key key, v) \<in> entries (lt_node t)" using n(5) by simp
    qed
    then show ?thesis using na n by (simp add: stored_def gnode_eq)
  qed
qed

section \<open>Lookup\<close>

lemma slot_for_norm:
  assumes "norm_key k = norm_key k'"
  shows "slot_for t k s = slot_for t k' s"
proof -
  have "key_index k = key_index k'" using assms by (metis key_index_norm)
  then show ?thesis using assms by (simp add: slot_for_def in_array_def absent_def)
qed

lemma hashed_slot:
  assumes inv: "tab_inv ts_hash t" and key: "valid_key key" "\<not> in_array t key"
    and P: "\<And>tk. P tk \<longleftrightarrow> (\<exists>k. tk = LiveKey k \<and> valid_key k \<and> norm_key k = norm_key key)"
  shows "\<exists>s. (if is_dummy t then Inr NilObject else find_slot P t (mainposition ts_hash t key)) = Inr s \<and> slot_for t key s"
proof (cases "is_dummy t")
  case True
  then have "absent (lt_node t) key" by (simp add: is_dummy_def absent_def)
  then show ?thesis using True key by (simp add: slot_for_def)
next
  case False
  show ?thesis
    by (rule find_slot_spec [OF tab_invD(1) [OF inv] False key(1) P]) (use False key in \<open>auto simp: slot_for_def\<close>)
qed

lemma no_slot:
  assumes inv: "tab_inv ts_hash t" and P: "\<And>tk. \<not> P tk"
  shows "(if is_dummy t then Inr NilObject else find_slot P t (mainposition ts_hash t key)) = Inr NilObject"
proof (cases "is_dummy t")
  case False
  note h = hash_invD [OF tab_invD(1) [OF inv] False]
  have ch: "chains (lt_node t)" by (rule node_inv_chains [OF h(2)])
  have mp: "mainposition ts_hash t key < length (lt_node t)" using h(1,6) by simp
  obtain r where r: "chain_find P t (sizenode t) (mainposition ts_hash t key) = Some r" "r = None"
    using chain_find_spec [OF h(3) ch mp, of "sizenode t" P] reach_set_bounds(2) [OF ch mp] h(1) P
    by (auto split: option.splits)
  then show ?thesis using False by (simp add: find_slot_def)
qed simp

lemma keyeq_norm: "valid_key key \<Longrightarrow> keyeq tk key \<longleftrightarrow> (\<exists>k. tk = LiveKey k \<and> valid_key k \<and> norm_key k = norm_key key)"
  by (auto simp: keyeq_def rawequal_norm split: tkey.splits)

lemma keyeq_nan: "\<not> valid_key key \<Longrightarrow> \<not> keyeq tk key"
  by (auto simp: keyeq_def rawequal_norm split: tkey.splits)

lemma norm_key_number: "norm_key k = KNumber m \<longleftrightarrow> (\<exists>n. k = KNumber n \<and> norm64 n = m)"
  by (cases k) auto

lemma luaH_getnum_spec:
  assumes inv: "tab_inv ts_hash t" and key: "- (2 ^ 31) \<le> key" "key < 2 ^ 31"
  shows "\<exists>s. luaH_getnum t key = Inr s \<and> slot_for t (KNumber (cast_num key)) s"
proof (cases "1 \<le> key \<and> key \<le> int (sizearray t)")
  case True
  then show ?thesis using key by (simp add: luaH_getnum_def slot_for_def in_array_def arrayindex_cast_num)
next
  case False
  let ?k = "KNumber (cast_num key)"
  have v: "valid_key ?k" using cast_num_not_nan [of key] key by auto
  have "luaH_getnum t key = (if is_dummy t then Inr NilObject
      else find_slot (\<lambda>tk. case tk of LiveKey (KNumber n) \<Rightarrow> luai_numeq n (cast_num key) | _ \<Rightarrow> False) t (mainposition ts_hash t ?k))"
    using False by (auto simp: luaH_getnum_def mainposition_def)
  then show ?thesis
    by (simp only:, intro hashed_slot [OF inv v])
      (use False key v in \<open>auto simp: in_array_def arrayindex_cast_num numeq_norm norm_key_number split: tkey.splits lkey.splits\<close>)
qed

lemma get_generic_spec:
  assumes "tab_inv ts_hash t" "valid_key key" "\<not> in_array t key"
  shows "\<exists>s. get_generic ts_hash t key = Inr s \<and> slot_for t key s"
  unfolding get_generic_def by (rule hashed_slot [OF assms]) (rule keyeq_norm [OF assms(2)])

lemma luaH_getstr_spec:
  assumes "tab_inv ts_hash t"
  shows "\<exists>s. luaH_getstr ts_hash t p = Inr s \<and> slot_for t (KString p) s"
proof -
  have k: "norm_key k = KString p \<longleftrightarrow> k = KString p" for k by (cases k) auto
  have "luaH_getstr ts_hash t p = (if is_dummy t then Inr NilObject else find_slot (\<lambda>tk. tk = LiveKey (KString p)) t (mainposition ts_hash t (KString p)))"
    by (simp add: luaH_getstr_def mainposition_def)
  then show ?thesis by (simp only:, intro hashed_slot [OF assms]) (auto simp: in_array_def key_index_def ek_index_def k)
qed

lemma luaH_getp_spec:
  assumes "tab_inv ts_hash t"
  shows "\<exists>s. luaH_getp t p tag = Inr s \<and> slot_for t (KLightUserdata p tag) s"
proof -
  have k: "norm_key k = KLightUserdata p tag \<longleftrightarrow> k = KLightUserdata p tag" for k by (cases k) auto
  have "luaH_getp t p tag = (if is_dummy t then Inr NilObject else find_slot (\<lambda>tk. tk = LiveKey (KLightUserdata p tag)) t (mainposition ts_hash t (KLightUserdata p tag)))"
    by (simp add: luaH_getp_def mainposition_def)
  then show ?thesis by (simp only:, intro hashed_slot [OF assms]) (auto simp: in_array_def key_index_def ek_index_def k)
qed

lemma luaH_get_spec:
  assumes inv: "tab_inv ts_hash t" and valid: "valid_key key"
  shows "\<exists>s. luaH_get ts_hash t (Some key) = Inr s \<and> slot_for t key s"
proof (cases key)
  case (KNumber n)
  show ?thesis
  proof (cases "\<exists>k. dbl_int n = Some k \<and> - (2 ^ 31) \<le> k \<and> k < 2 ^ 31")
    case True
    then obtain k where k: "dbl_int n = Some k" "- (2 ^ 31) \<le> k" "k < 2 ^ 31" by blast
    have "luai_numeq n (cast_num k)" using numeq_cast_num [of k n] k by auto
    then have "norm_key key = norm_key (KNumber (cast_num k))" using KNumber by (simp add: numeq_norm)
    then show ?thesis using luaH_getnum_spec [OF inv k(2,3)] slot_for_norm [of key "KNumber (cast_num k)"] KNumber k by auto
  next
    case False
    then have "\<not> in_array t key" using KNumber by (auto simp: in_array_def arrayindex_def split: option.splits)
    then show ?thesis using get_generic_spec [OF inv valid] KNumber False by (auto split: option.splits)
  qed
next
  case (KString p)
  then show ?thesis using luaH_getstr_spec [OF inv] by simp
qed (use get_generic_spec [OF inv valid] in \<open>simp_all add: in_array_def key_index_def ek_index_def\<close>)

lemma luaH_get_nan:
  assumes inv: "tab_inv ts_hash t" and nan: "\<not> valid_key key"
  shows "luaH_get ts_hash t (Some key) = Inr NilObject"
proof -
  have g: "get_generic ts_hash t key = Inr NilObject"
    unfolding get_generic_def by (rule no_slot [OF inv]) (rule keyeq_nan [OF nan])
  then show ?thesis
    using nan dbl_int_not_nan by (cases key) (auto split: option.splits)
qed

section \<open>Assignment\<close>

definition upd_pairs :: "(lkey \<times> 'v) set \<Rightarrow> lkey \<Rightarrow> 'v option \<Rightarrow> (lkey \<times> 'v) set" where
  "upd_pairs S q v = {p \<in> S. fst p \<noteq> q} \<union> (case v of None \<Rightarrow> {} | Some w \<Rightarrow> {(q, w)})"

text \<open>Only the contents of the two parts and the free pointer changed.\<close>

definition frame :: "'v ltable \<Rightarrow> 'v ltable \<Rightarrow> bool" where
  "frame t t' \<longleftrightarrow> t' = t\<lparr>lt_node := lt_node t', lt_lastfree := lt_lastfree t', lt_array := lt_array t'\<rparr>
     \<and> sizearray t' = sizearray t \<and> length (lt_node t') = length (lt_node t)"

lemma frame_refl [simp]: "frame t t"
  by (simp add: frame_def)

lemma frame_fields:
  assumes "frame t t'"
  shows "sizearray t' = sizearray t" "length (lt_node t') = length (lt_node t)" "lt_lsizenode t' = lt_lsizenode t" "lt_arrayptr t' = lt_arrayptr t"
    "lt_nodeptr t' = lt_nodeptr t" "is_dummy t' = is_dummy t" "sizenode t' = sizenode t" "lt_metatable t' = lt_metatable t"
    "lt_readonly t' = lt_readonly t" "lt_safeenv t' = lt_safeenv t" "lt_tmcache t' = lt_tmcache t" "lt_nodemask8 t' = lt_nodemask8 t"
    "in_array t' = in_array t" "mainposition ts_hash t' = mainposition ts_hash t"
proof -
  obtain nd lf ar where t': "t' = t\<lparr>lt_node := nd, lt_lastfree := lf, lt_array := ar\<rparr>" and l: "length ar = sizearray t" "length nd = length (lt_node t)"
    using assms unfolding frame_def by blast
  show "sizearray t' = sizearray t" "length (lt_node t') = length (lt_node t)" "lt_lsizenode t' = lt_lsizenode t" "lt_arrayptr t' = lt_arrayptr t"
    "lt_nodeptr t' = lt_nodeptr t" "is_dummy t' = is_dummy t" "sizenode t' = sizenode t" "lt_metatable t' = lt_metatable t"
    "lt_readonly t' = lt_readonly t" "lt_safeenv t' = lt_safeenv t" "lt_tmcache t' = lt_tmcache t" "lt_nodemask8 t' = lt_nodemask8 t"
    "in_array t' = in_array t"
    using l by (auto simp: t' is_dummy_def sizenode_def in_array_def fun_eq_iff)
  show "mainposition ts_hash t' = mainposition ts_hash t" by (rule mainposition_cong) (simp add: t')
qed

lemma frame_trans: "frame t t' \<Longrightarrow> frame t' t'' \<Longrightarrow> frame t t''"
proof -
  assume f: "frame t t'" "frame t' t''"
  then have "t'' = t\<lparr>lt_node := lt_node t', lt_lastfree := lt_lastfree t', lt_array := lt_array t'\<rparr>
      \<lparr>lt_node := lt_node t'', lt_lastfree := lt_lastfree t'', lt_array := lt_array t''\<rparr>"
    unfolding frame_def by metis
  then have "t'' = t\<lparr>lt_node := lt_node t'', lt_lastfree := lt_lastfree t'', lt_array := lt_array t''\<rparr>" by simp
  then show ?thesis using f unfolding frame_def by metis
qed

lemma array_pairs_update:
  assumes "i < length arr" "length arr \<le> MAXSIZE"
  shows "array_pairs (arr[i := v]) = upd_pairs (array_pairs arr) (num_key (Suc i)) v"
proof -
  have inj: "num_key (Suc j) = num_key (Suc i) \<longleftrightarrow> j = i" if "j < length arr" for j
    using num_key_index [of "Suc i"] num_key_index [of "Suc j"] assms that by (auto simp: MAXSIZE_value)
  have "(q, w) \<in> array_pairs (arr[i := v]) \<longleftrightarrow> (q, w) \<in> upd_pairs (array_pairs arr) (num_key (Suc i)) v" for q w
  proof
    assume "(q, w) \<in> array_pairs (arr[i := v])"
    then obtain j where j: "q = num_key (Suc j)" "j < length arr" "arr[i := v] ! j = Some w" by (auto simp: array_pairs_def)
    show "(q, w) \<in> upd_pairs (array_pairs arr) (num_key (Suc i)) v"
    proof (cases "j = i")
      case False
      then show ?thesis using j inj array_pairsI [of j arr w] by (simp add: upd_pairs_def)
    qed (use j assms in \<open>simp add: upd_pairs_def\<close>)
  next
    assume *: "(q, w) \<in> upd_pairs (array_pairs arr) (num_key (Suc i)) v"
    show "(q, w) \<in> array_pairs (arr[i := v])"
    proof (cases "q = num_key (Suc i)")
      case True
      then show ?thesis using * assms array_pairsI [of i "arr[i := v]" w] by (auto simp: upd_pairs_def split: option.splits)
    next
      case False
      then obtain j where j: "q = num_key (Suc j)" "j < length arr" "arr ! j = Some w" using * by (auto simp: upd_pairs_def array_pairs_def split: option.splits)
      then have "i \<noteq> j" using False by auto
      then show ?thesis using j array_pairsI [of j "arr[i := v]" w] by simp
    qed
  qed
  then show ?thesis by auto
qed

lemma entries_update:
  assumes "node_inv main ns" "i < length ns" "n_key (ns ! i) = LiveKey k"
  shows "entries (ns[i := (ns ! i)\<lparr>n_val := v\<rparr>]) = upd_pairs (entries ns) (norm_key k) v"
proof -
  let ?ns = "ns[i := (ns ! i)\<lparr>n_val := v\<rparr>]"
  have key: "n_key (?ns ! j) = n_key (ns ! j)" for j by (cases "i = j") (use assms(2) in auto)
  have "(q, w) \<in> entries ?ns \<longleftrightarrow> (q, w) \<in> upd_pairs (entries ns) (norm_key k) v" for q w
  proof
    assume "(q, w) \<in> entries ?ns"
    then obtain j k' where j: "j < length ns" "n_key (ns ! j) = LiveKey k'" "n_val (?ns ! j) = Some w" "q = norm_key k'" by (auto simp: entries_def key)
    show "(q, w) \<in> upd_pairs (entries ns) (norm_key k) v"
    proof (cases "j = i")
      case False
      then have "q \<noteq> norm_key k" using node_inv_distinct [OF assms(1) j(1) assms(2) j(2) assms(3)] j(4) by auto
      then show ?thesis using entriesI [OF j(1,2)] j False by (simp add: upd_pairs_def)
    qed (use j assms in \<open>simp add: upd_pairs_def\<close>)
  next
    assume *: "(q, w) \<in> upd_pairs (entries ns) (norm_key k) v"
    show "(q, w) \<in> entries ?ns"
    proof (cases "q = norm_key k")
      case True
      then show ?thesis using * assms entriesI [of i ?ns k w] by (auto simp: upd_pairs_def split: option.splits)
    next
      case False
      then obtain j k' where j: "j < length ns" "n_key (ns ! j) = LiveKey k'" "n_val (ns ! j) = Some w" "q = norm_key k'"
        using * by (auto simp: upd_pairs_def entries_def split: option.splits)
      then have "i \<noteq> j" using False assms(3) by auto
      then show ?thesis using entriesI [of j ?ns k' w] j by simp
    qed
  qed
  then show ?thesis by auto
qed

lemma setobj_spec:
  assumes inv: "tab_inv ts_hash t" and s: "slot_for t key s" "s \<noteq> NilObject"
  shows "tab_inv ts_hash (setobj s v t)" "stored (setobj s v t) = upd_pairs (stored t) (norm_key key) v" "frame t (setobj s v t)"
    "used (lt_node (setobj s v t)) = used (lt_node t)" "lt_lastfree (setobj s v t) = lt_lastfree t"
    "live_keys (lt_node (setobj s v t)) = live_keys (lt_node t)"
proof -
  let ?t = "setobj s v t"
  have "tab_inv ts_hash ?t \<and> stored ?t = upd_pairs (stored t) (norm_key key) v \<and> frame t ?t
    \<and> used (lt_node ?t) = used (lt_node t) \<and> lt_lastfree ?t = lt_lastfree t \<and> live_keys (lt_node ?t) = live_keys (lt_node t)"
  proof (cases "in_array t key")
    case True
    define i where "i = nat (key_index key) - 1"
    have si: "s = ArraySlot i" "i < sizearray t" "norm_key key = num_key (Suc i)"
      using s True norm_index_key [of key] by (auto simp: slot_for_def i_def in_array_def)
    have "(norm_key key, w) \<notin> entries (lt_node t)" for w using entries_not_in_array [OF inv, of "norm_key key" w] True by (auto simp: in_array_def)
    then have e: "upd_pairs (entries (lt_node t)) (norm_key key) None = entries (lt_node t)" by (auto simp: upd_pairs_def)
    have "stored ?t = upd_pairs (array_pairs (lt_array t)) (norm_key key) v \<union> upd_pairs (entries (lt_node t)) (norm_key key) None"
      unfolding e using array_pairs_update [OF si(2) tab_invD(2) [OF inv], of v] si by (simp add: stored_def)
    then have "stored ?t = upd_pairs (stored t) (norm_key key) v" by (auto simp: upd_pairs_def stored_def)
    moreover have "hash_inv ts_hash (t\<lparr>lt_array := a\<rparr>) = hash_inv ts_hash t" for a
    proof -
      have "mainposition ts_hash (t\<lparr>lt_array := a\<rparr>) = mainposition ts_hash t" by (rule mainposition_cong) simp
      then show ?thesis by (simp add: hash_inv_def is_dummy_def sizenode_def)
    qed
    ultimately show ?thesis using inv si by (simp add: tab_inv_def frame_def)
  next
    case False
    obtain n k where n: "s = NodeSlot n" "n < sizenode t" "\<not> is_dummy t" "n_key (lt_node t ! n) = LiveKey k" "norm_key k = norm_key key"
      using s False by (auto simp: slot_for_def)
    note h = hash_invD [OF tab_invD(1) [OF inv] n(3)]
    let ?ns = "(lt_node t)[n := (lt_node t ! n)\<lparr>n_val := v\<rparr>]"
    have key: "n_key (?ns ! j) = n_key (lt_node t ! j)" for j by (cases "n = j") (use n(2) h(1) in auto)
    have lk: "live_keys ?ns = live_keys (lt_node t)" "used ?ns = used (lt_node t)" by (simp_all add: live_keys_def used_def key)
    have "hash_inv ts_hash (t\<lparr>lt_node := ?ns, lt_lastfree := lt_lastfree t\<rparr>)"
      using h node_inv_value [OF h(2) _ n(4)] n(2) by (intro hash_inv_replace [OF tab_invD(1) [OF inv] n(3)]) (simp_all add: key)
    moreover have st: "?t = t\<lparr>lt_node := ?ns\<rparr>" using n(1) by (simp add: upd_node_def)
    moreover have "(norm_key key, w) \<notin> array_pairs (lt_array t)" for w
      using array_pairs_index(1,2) [OF tab_invD(2) [OF inv], of "norm_key key" w] False by (auto simp: in_array_def)
    then have "stored ?t = upd_pairs (stored t) (norm_key key) v"
      using entries_update [OF h(2) _ n(4), of v] n(2,5) h(1) st by (auto simp: stored_def upd_pairs_def)
    ultimately show ?thesis using inv lk by (simp add: tab_inv_def frame_def)
  qed
  then show "tab_inv ts_hash (setobj s v t)" "stored (setobj s v t) = upd_pairs (stored t) (norm_key key) v" "frame t (setobj s v t)"
    "used (lt_node (setobj s v t)) = used (lt_node t)" "lt_lastfree (setobj s v t) = lt_lastfree t"
    "live_keys (lt_node (setobj s v t)) = live_keys (lt_node t)"
    by blast+
qed

section \<open>Insertion without growth\<close>

definition on_boundary :: "'v ltable \<Rightarrow> lkey \<Rightarrow> bool" where
  "on_boundary t key \<longleftrightarrow> key_index key = int (sizearray t) + 1"

lemma boundary_key:
  assumes "sizearray t \<le> MAXSIZE"
  shows "(case key of KNumber n \<Rightarrow> luai_numeq n (cast_num (int (sizearray t) + 1)) | _ \<Rightarrow> False) \<longleftrightarrow> on_boundary t key"
proof (cases key)
  case (KNumber n)
  have "luai_numeq n (cast_num (int (sizearray t) + 1)) \<longleftrightarrow> dbl_int n = Some (int (sizearray t) + 1)"
    using assms by (intro numeq_cast_num) (simp add: MAXSIZE_value)
  also have "\<dots> \<longleftrightarrow> arrayindex n = int (sizearray t) + 1" using assms by (auto simp: arrayindex_def MAXSIZE_value split: option.splits)
  finally show ?thesis using KNumber by (simp add: on_boundary_def)
qed (auto simp: on_boundary_def key_index_def ek_index_def)

lemma arrayornewkey_eq:
  "arrayornewkey nk t key = (if in_array t key then Inr (ArraySlot (nat (key_index key) - 1), t) else nk t key)"
  by (cases key) (auto simp: arrayornewkey_def in_array_def key_index_def ek_index_def Let_def)

lemma placed_tab:
  assumes inv: "tab_inv ts_hash t" and pl: "placed ts_hash t key n t'" and key: "\<not> in_array t key" "\<not> on_boundary t key"
  shows "tab_inv ts_hash t'" "stored t' = stored t" "slot_for t' key (NodeSlot n)" "frame t t'" "used (lt_node t') \<le> Suc (used (lt_node t))"
    "live_keys (lt_node t') \<subseteq> insert key (live_keys (lt_node t))"
proof -
  have nd: "\<not> is_dummy t" and nd': "\<not> is_dummy t'" and hi: "hash_inv ts_hash t'" and n: "n < sizenode t" "n_key (lt_node t' ! n) = LiveKey key"
    and lf: "lt_lastfree t' < 0 \<longrightarrow> lt_lastfree t' = lt_lastfree t" and t': "t' = t\<lparr>lt_node := lt_node t', lt_lastfree := lt_lastfree t'\<rparr>"
    and e: "entries (lt_node t') = entries (lt_node t)" "live_keys (lt_node t') \<subseteq> insert key (live_keys (lt_node t))"
    and u: "used (lt_node t') \<le> Suc (used (lt_node t))"
    using pl by (simp_all add: placed_def)
  have ar: "lt_array t' = lt_array t" "lt_lsizenode t' = lt_lsizenode t" using arg_cong [OF t', where f = lt_array] arg_cong [OF t', where f = lt_lsizenode] by simp_all
  have sz: "sizenode t' = sizenode t" "length (lt_node t) = sizenode t" using ar hash_invD(1) [OF tab_invD(1) [OF inv] nd] by (simp_all add: sizenode_def)
  show "frame t t'" unfolding frame_def using t' ar hash_invD(1) [OF hi nd'] sz by (metis ltable.surjective ltable.update_convs(8))
  show "tab_inv ts_hash t'"
    using inv hi lf e(2) key unfolding tab_inv_def ar in_array_def on_boundary_def by force
  show "stored t' = stored t" by (simp add: stored_def ar e)
  show "slot_for t' key (NodeSlot n)" using key n sz nd' by (simp add: slot_for_def in_array_def ar)
  show "used (lt_node t') \<le> Suc (used (lt_node t))" "live_keys (lt_node t') \<subseteq> insert key (live_keys (lt_node t))" by (fact u e(2))+
qed

lemma newkey_place:
  assumes inv: "tab_inv ts_hash t" and key: "valid_key key" "absent (lt_node t) key" "\<not> on_boundary t key"
    and room: "\<not> is_dummy t" "used (lt_node t) < sizenode t"
  obtains n t' where "newkey (Suc d) ts_hash t key = Inr (NodeSlot n, t')" "placed ts_hash t key n t'"
proof (cases rule: place_key_spec [OF tab_invD(1) [OF inv] key(1,2)])
  case (1 l)
  then show thesis using room by simp
next
  case (2 n t')
  have "newkey (Suc d) ts_hash t key = Inr (NodeSlot n, t')"
    unfolding newkey.simps Let_def boundary_key [OF tab_invD(2) [OF inv]] using key(3) 2 by (simp add: bindE_def)
  then show thesis using that 2 by blast
qed

text \<open>
  Storing a pair under a key the table does not have: a key of the array part takes its slot, another
  one a free node.
\<close>

definition room_for :: "'v ltable \<Rightarrow> lkey \<Rightarrow> bool" where
  "room_for t key \<longleftrightarrow> in_array t key \<or> \<not> is_dummy t \<and> used (lt_node t) < sizenode t"

lemma arrayornewkey_spec:
  assumes inv: "tab_inv ts_hash t" and key: "valid_key key" "absent (lt_node t) key" "\<not> on_boundary t key" and room: "room_for t key"
  obtains s t1 where "arrayornewkey (newkey (Suc d) ts_hash) t key = Inr (s, t1)" "tab_inv ts_hash t1" "stored t1 = stored t" "slot_for t1 key s" "s \<noteq> NilObject"
    "frame t t1" "used (lt_node t1) \<le> (if in_array t key then used (lt_node t) else Suc (used (lt_node t)))"
    "live_keys (lt_node t1) \<subseteq> insert key (live_keys (lt_node t))"
proof (cases "in_array t key")
  case True
  then show thesis using that [of "ArraySlot (nat (key_index key) - 1)" t] inv by (auto simp: arrayornewkey_eq slot_for_def)
next
  case False
  then have r: "\<not> is_dummy t" "used (lt_node t) < sizenode t" using room by (auto simp: room_for_def)
  obtain n t' where n: "newkey (Suc d) ts_hash t key = Inr (NodeSlot n, t')" "placed ts_hash t key n t'"
    by (rule newkey_place [OF inv key r])
  note p = placed_tab [OF inv n(2) False key(3)]
  show thesis using that [of "NodeSlot n" t'] n(1) p False by (simp add: arrayornewkey_eq)
qed

end
