(* ===== verification/LuaTableResize.thy ===== *)
theory LuaTableResize
  imports LuaTableMap
begin

text \<open>
  Resizing: \<open>resize\<close> moves every pair into the new parts without growing again, keeps the stored pairs
  and gives the array part the size it was asked for.
\<close>

section \<open>Migrating a list of pairs\<close>

fun migrate_list :: "'v newkey_fn \<Rightarrow> (lkey \<times> 'v) list \<Rightarrow> 'v ltable \<Rightarrow> lt_error + 'v ltable" where
  "migrate_list nk [] t = Inr t"
| "migrate_list nk ((key, v) # ps) t =
     bindE (arrayornewkey nk t key) (\<lambda>(s, t). migrate_list nk ps (setobj s (Some v) t))"

definition norm_pair :: "lkey \<times> 'v \<Rightarrow> lkey \<times> 'v" where
  "norm_pair p = (norm_key (fst p), snd p)"

definition outside :: "nat \<Rightarrow> lkey \<Rightarrow> bool" where
  "outside n key \<longleftrightarrow> \<not> (1 \<le> key_index key \<and> key_index key \<le> int n)"

lemma in_array_outside: "in_array t key \<longleftrightarrow> \<not> outside (sizearray t) key"
  by (simp add: in_array_def outside_def)

definition hashed_pairs :: "nat \<Rightarrow> (lkey \<times> 'v) list \<Rightarrow> nat" where
  "hashed_pairs n ps = length (filter (\<lambda>p. outside n (fst p)) ps)"

text \<open>
  The keys of the list are new and there are enough nodes for those that do not go to the array part.
\<close>

definition can_migrate :: "'v ltable \<Rightarrow> (lkey \<times> 'v) list \<Rightarrow> bool" where
  "can_migrate t ps \<longleftrightarrow> distinct (map (norm_key \<circ> fst) ps)
     \<and> (\<forall>k \<in> fst ` set ps. valid_key k \<and> \<not> on_boundary t k \<and> norm_key k \<notin> fst ` stored t \<and> absent (lt_node t) k)
     \<and> used (lt_node t) + hashed_pairs (sizearray t) ps \<le> length (lt_node t)"

lemma absent_live: "absent ns k \<longleftrightarrow> (\<forall>k' \<in> live_keys ns. norm_key k' \<noteq> norm_key k)"
  by (auto simp: absent_def live_keys_def)

lemma upd_pairs_new: "q \<notin> fst ` S \<Longrightarrow> upd_pairs S q (Some v) = insert (q, v) S"
  by (force simp: upd_pairs_def)

lemma migrate_step:
  assumes inv: "tab_inv ts_hash t" and c: "can_migrate t ((key, v) # ps)"
  obtains s t1 where "arrayornewkey (newkey (Suc d) ts_hash) t key = Inr (s, t1)" "tab_inv ts_hash (setobj s (Some v) t1)"
    "stored (setobj s (Some v) t1) = insert (norm_pair (key, v)) (stored t)" "frame t (setobj s (Some v) t1)"
    "used (lt_node (setobj s (Some v) t1)) \<le> used (lt_node t) + hashed_pairs (sizearray t) [(key, v)]" "can_migrate (setobj s (Some v) t1) ps"
    "live_keys (lt_node (setobj s (Some v) t1)) \<subseteq> insert key (live_keys (lt_node t))"
proof -
  have key: "valid_key key" "absent (lt_node t) key" "\<not> on_boundary t key" "norm_key key \<notin> fst ` stored t" using c by (simp_all add: can_migrate_def)
  have "\<not> in_array t key \<Longrightarrow> used (lt_node t) < length (lt_node t)" using c by (simp add: can_migrate_def hashed_pairs_def in_array_outside)
  then have room: "room_for t key" using hash_invD(1) [OF tab_invD(1) [OF inv]] by (cases "is_dummy t") (auto simp: room_for_def is_dummy_def)
  obtain s t1 where s: "arrayornewkey (newkey (Suc d) ts_hash) t key = Inr (s, t1)" "tab_inv ts_hash t1" "stored t1 = stored t" "slot_for t1 key s" "s \<noteq> NilObject"
    "frame t t1" "used (lt_node t1) \<le> (if in_array t key then used (lt_node t) else Suc (used (lt_node t)))"
    "live_keys (lt_node t1) \<subseteq> insert key (live_keys (lt_node t))"
    by (rule arrayornewkey_spec [OF inv key(1-3) room])
  let ?t2 = "setobj s (Some v) t1"
  note o = setobj_spec [OF s(2,4,5), of "Some v"]
  have fr: "frame t ?t2" by (rule frame_trans [OF s(6) o(3)])
  have st: "stored ?t2 = insert (norm_pair (key, v)) (stored t)" using o(2) s(3) upd_pairs_new [OF key(4)] by (simp add: norm_pair_def)
  have us: "used (lt_node ?t2) \<le> used (lt_node t) + hashed_pairs (sizearray t) [(key, v)]"
    using s(7) o(4) by (simp add: hashed_pairs_def in_array_outside split: if_splits)
  have ps: "norm_key key \<noteq> norm_key k" "absent (lt_node t) k" "norm_key k \<notin> fst ` stored t" if "k \<in> fst ` set ps" for k
    using c that by (auto simp: can_migrate_def)
  have "absent (lt_node ?t2) k" if "k \<in> fst ` set ps" for k
    using ps [OF that] s(8) o(6) unfolding absent_live by auto
  moreover have "norm_key k \<notin> fst ` stored ?t2" if "k \<in> fst ` set ps" for k
    using ps [OF that] st by (auto simp: norm_pair_def)
  moreover have "used (lt_node ?t2) + hashed_pairs (sizearray t) ps \<le> length (lt_node t)"
    using c us unfolding can_migrate_def by (simp add: hashed_pairs_def split: if_splits)
  ultimately have "can_migrate ?t2 ps"
    using c frame_fields(1,2) [OF fr] unfolding can_migrate_def on_boundary_def by simp
  then show thesis using that [OF s(1) o(1) st fr us] s(8) o(6) by simp
qed

lemma migrate_list_spec:
  assumes "tab_inv ts_hash t" "can_migrate t (ps @ qs)"
  shows "\<exists>t'. migrate_list (newkey (Suc d) ts_hash) ps t = Inr t' \<and> tab_inv ts_hash t' \<and> stored t' = stored t \<union> norm_pair ` set ps
    \<and> frame t t' \<and> used (lt_node t') \<le> used (lt_node t) + hashed_pairs (sizearray t) ps
    \<and> live_keys (lt_node t') \<subseteq> live_keys (lt_node t) \<union> fst ` set ps \<and> can_migrate t' qs"
  using assms
proof (induction ps arbitrary: t)
  case (Cons p ps)
  obtain key v where p: "p = (key, v)" by (cases p)
  obtain s t1 where s: "arrayornewkey (newkey (Suc d) ts_hash) t key = Inr (s, t1)" "tab_inv ts_hash (setobj s (Some v) t1)"
    "stored (setobj s (Some v) t1) = insert (norm_pair (key, v)) (stored t)" "frame t (setobj s (Some v) t1)"
    "used (lt_node (setobj s (Some v) t1)) \<le> used (lt_node t) + hashed_pairs (sizearray t) [(key, v)]" "can_migrate (setobj s (Some v) t1) (ps @ qs)"
    "live_keys (lt_node (setobj s (Some v) t1)) \<subseteq> insert key (live_keys (lt_node t))"
    by (rule migrate_step [OF Cons.prems(1) Cons.prems(2) [unfolded p append_Cons]])
  obtain t' where t': "migrate_list (newkey (Suc d) ts_hash) ps (setobj s (Some v) t1) = Inr t'" "tab_inv ts_hash t'"
    "stored t' = stored (setobj s (Some v) t1) \<union> norm_pair ` set ps" "frame (setobj s (Some v) t1) t'"
    "used (lt_node t') \<le> used (lt_node (setobj s (Some v) t1)) + hashed_pairs (sizearray t) ps"
    "live_keys (lt_node t') \<subseteq> live_keys (lt_node (setobj s (Some v) t1)) \<union> fst ` set ps" "can_migrate t' qs"
    using Cons.IH [OF s(2,6)] frame_fields(1) [OF s(4)] by auto
  have "used (lt_node t') \<le> used (lt_node t) + hashed_pairs (sizearray t) (p # ps)"
    using s(5) t'(5) by (simp add: p hashed_pairs_def split: if_splits)
  moreover have "migrate_list (newkey (Suc d) ts_hash) (p # ps) t = Inr t'" using p s(1) t'(1) by (simp add: bindE_def)
  moreover have "stored t' = stored t \<union> norm_pair ` set (p # ps)" using s(3) t'(3) by (simp add: p)
  moreover have "live_keys (lt_node t') \<subseteq> live_keys (lt_node t) \<union> fst ` set (p # ps)" using s(7) t'(6) by (auto simp: p)
  ultimately show ?case using t'(2,7) frame_trans [OF s(4) t'(4)] by blast
qed (simp add: hashed_pairs_def)

section \<open>The pairs of a table as a list\<close>

fun arr_list :: "nat \<Rightarrow> 'v option list \<Rightarrow> (lkey \<times> 'v) list" where
  "arr_list i [] = []"
| "arr_list i (None # vs) = arr_list (Suc i) vs"
| "arr_list i (Some v # vs) = (num_key (Suc i), v) # arr_list (Suc i) vs"

fun node_list :: "'v node list \<Rightarrow> (lkey \<times> 'v) list" where
  "node_list [] = []"
| "node_list (n # ns) = (case (n_key n, n_val n) of (LiveKey k, Some v) \<Rightarrow> [(k, v)] | _ \<Rightarrow> []) @ node_list ns"

definition all_pairs :: "'v ltable \<Rightarrow> (lkey \<times> 'v) list" where
  "all_pairs t = arr_list 0 (lt_array t) @ node_list (lt_node t)"

lemma arr_list_append: "arr_list i (xs @ ys) = arr_list i xs @ arr_list (i + length xs) ys"
  by (induction i xs rule: arr_list.induct) auto

lemma arr_list_replicate [simp]: "arr_list i (replicate n None) = []"
  by (induction n arbitrary: i) auto

lemma arr_list_set: "set (arr_list i vs) = {(num_key (Suc (i + j)), v) | j v. j < length vs \<and> vs ! j = Some v}"
proof (induction i vs rule: arr_list.induct)
  case (2 i vs)
  then show ?case by (fastforce simp: nth_Cons split: nat.splits)
next
  case (3 i v vs)
  have "{(num_key (Suc (i + j)), w) | j w. j < length (Some v # vs) \<and> (Some v # vs) ! j = Some w}
    = insert (num_key (Suc i), v) {(num_key (Suc (Suc i + j)), w) | j w. j < length vs \<and> vs ! j = Some w}"
    by (fastforce simp: nth_Cons split: nat.splits)
  then show ?case using 3 by simp
qed simp

lemma arr_list_index:
  assumes "(k, v) \<in> set (arr_list i vs)" "i + length vs \<le> MAXSIZE"
  shows "int i < key_index k" "key_index k \<le> int (i + length vs)" "norm_key k = k" "valid_key k"
  using assms by (auto simp: arr_list_set num_key_index num_key_norm num_key_valid MAXSIZE_value)

lemma arr_list_distinct: "i + length vs \<le> MAXSIZE \<Longrightarrow> distinct (map (norm_key \<circ> fst) (arr_list i vs))"
proof (induction i vs rule: arr_list.induct)
  case (3 i v vs)
  have "norm_key k \<noteq> norm_key (num_key (Suc i))" if "(k, w) \<in> set (arr_list (Suc i) vs)" for k w
  proof
    assume "norm_key k = norm_key (num_key (Suc i))"
    then have "key_index k = key_index (num_key (Suc i))" by (metis key_index_norm)
    then show False using arr_list_index(1) [OF that] 3 by (simp add: num_key_index MAXSIZE_value)
  qed
  then show ?case using 3 by force
qed simp_all

lemma arr_list_pairs: "set (arr_list 0 arr) = array_pairs arr"
  by (simp add: arr_list_set array_pairs_def)

lemma node_list_append: "node_list (xs @ ys) = node_list xs @ node_list ys"
  by (induction xs) auto

lemma node_list_rev: "node_list (rev ns) = rev (node_list ns)"
  by (induction ns) (auto simp: node_list_append split: tkey.splits option.splits)

lemma node_list_set: "(k, v) \<in> set (node_list ns) \<longleftrightarrow> (\<exists>n \<in> set ns. n_key n = LiveKey k \<and> n_val n = Some v)"
  by (induction ns) (auto split: tkey.splits option.splits)

lemma node_list_entries: "norm_pair ` set (node_list ns) = entries ns"
proof -
  have "(q, v) \<in> norm_pair ` set (node_list ns) \<longleftrightarrow> (q, v) \<in> entries ns" for q v
  proof -
    have "(q, v) \<in> norm_pair ` set (node_list ns) \<longleftrightarrow> (\<exists>k. q = norm_key k \<and> (k, v) \<in> set (node_list ns))" by (force simp: norm_pair_def)
    also have "\<dots> \<longleftrightarrow> (q, v) \<in> entries ns" unfolding node_list_set entries_def using nth_mem by (fastforce simp: in_set_conv_nth)
    finally show ?thesis .
  qed
  then show ?thesis by auto
qed

lemma keys_distinct_Cons:
  assumes "keys_distinct (n # ns)"
  shows "keys_distinct ns" "n_key n = LiveKey k \<Longrightarrow> m \<in> set ns \<Longrightarrow> n_key m = LiveKey k' \<Longrightarrow> norm_key k \<noteq> norm_key k'"
proof -
  have *: "i = j" if "i < Suc (length ns)" "j < Suc (length ns)" "n_key ((n # ns) ! i) = LiveKey k" "n_key ((n # ns) ! j) = LiveKey k'" "norm_key k = norm_key k'" for i j k k'
    using assms that unfolding keys_distinct_def by (metis length_Cons)
  show "keys_distinct ns" unfolding keys_distinct_def
  proof (intro allI impI)
    fix i j k k' assume "i < length ns" "j < length ns" "n_key (ns ! i) = LiveKey k \<and> n_key (ns ! j) = LiveKey k' \<and> norm_key k = norm_key k'"
    then show "i = j" using * [of "Suc i" "Suc j" k k'] by simp
  qed
  assume k: "n_key n = LiveKey k" and m: "m \<in> set ns" "n_key m = LiveKey k'"
  obtain j where "j < length ns" "ns ! j = m" using m(1) by (auto simp: in_set_conv_nth)
  then show "norm_key k \<noteq> norm_key k'" using * [of 0 "Suc j" k k'] k m(2) by auto
qed

lemma node_list_distinct: "keys_distinct ns \<Longrightarrow> distinct (map (norm_key \<circ> fst) (node_list ns))"
proof (induction ns)
  case (Cons n ns)
  show ?case
  proof (cases "n_key n")
    case (LiveKey k)
    have "norm_key k \<notin> (norm_key \<circ> fst) ` set (node_list ns)"
    proof
      assume "norm_key k \<in> (norm_key \<circ> fst) ` set (node_list ns)"
      then obtain k' v m where "norm_key k = norm_key k'" "m \<in> set ns" "n_key m = LiveKey k'" by (auto simp: node_list_set)
      then show False using keys_distinct_Cons(2) [OF Cons.prems LiveKey] by blast
    qed
    then show ?thesis using Cons.IH [OF keys_distinct_Cons(1) [OF Cons.prems]] LiveKey by (cases "n_val n") auto
  qed (use Cons.IH [OF keys_distinct_Cons(1) [OF Cons.prems]] in auto)
qed simp

lemma norm_pair_array:
  assumes "i + length vs \<le> MAXSIZE"
  shows "norm_pair ` set (arr_list i vs) = set (arr_list i vs)"
proof -
  have "norm_pair p = p" if "p \<in> set (arr_list i vs)" for p
    using arr_list_index(3) [of "fst p" "snd p" i vs] that assms by (simp add: norm_pair_def prod_eq_iff)
  then show ?thesis by force
qed

lemma keys_distinct_inv: "hash_inv ts_hash t \<Longrightarrow> keys_distinct (lt_node t)"
  by (cases "is_dummy t") (auto simp: hash_inv_def node_inv_def is_dummy_def keys_distinct_def)

lemma node_list_live: "(k, v) \<in> set (node_list ns) \<Longrightarrow> k \<in> live_keys ns"
  unfolding node_list_set live_keys_def by (auto simp: in_set_conv_nth)

lemma live_keys_valid: "hash_inv ts_hash t \<Longrightarrow> k \<in> live_keys (lt_node t) \<Longrightarrow> valid_key k"
  using node_inv_live(1) hash_invD(2) [of ts_hash t] by (cases "is_dummy t") (auto simp: live_keys_def is_dummy_def)

lemma stored_all_pairs:
  assumes "tab_inv ts_hash t"
  shows "norm_pair ` set (all_pairs t) = stored t"
  using norm_pair_array [of 0 "lt_array t"] tab_invD(2) [OF assms] by (simp add: all_pairs_def image_Un node_list_entries arr_list_pairs stored_def)

lemma all_pairs_distinct:
  assumes "tab_inv ts_hash t"
  shows "distinct (map (norm_key \<circ> fst) (all_pairs t))"
proof -
  note i = tab_invD [OF assms]
  have "norm_key k \<noteq> norm_key k'" if "(k, v) \<in> set (arr_list 0 (lt_array t))" "(k', w) \<in> set (node_list (lt_node t))" for k v k' w
  proof
    assume "norm_key k = norm_key k'"
    then have "key_index k = key_index k'" by (metis key_index_norm)
    then show False using arr_list_index(1,2) [OF that(1)] i(2) i(4) [OF node_list_live [OF that(2)]] by simp
  qed
  then show ?thesis
    using arr_list_distinct [of 0 "lt_array t"] node_list_distinct [OF keys_distinct_inv [OF i(1)]] i(2) by (auto simp: all_pairs_def)
qed

lemma all_pairs_valid:
  assumes "tab_inv ts_hash t" "(k, v) \<in> set (all_pairs t)"
  shows "valid_key k"
  using assms(2) arr_list_index(4) [of k v 0 "lt_array t"] tab_invD(2) [OF assms(1)] live_keys_valid [OF tab_invD(1) [OF assms(1)] node_list_live]
  by (auto simp: all_pairs_def)

lemma finite_stored: "tab_inv ts_hash t \<Longrightarrow> finite (stored t)"
  using stored_all_pairs [of ts_hash t] by (metis finite_imageI finite_set)

lemma outside_norm [simp]: "outside n (norm_key k) = outside n k"
  by (simp add: outside_def)

lemma hashed_pairs_card:
  assumes "distinct (map (norm_key \<circ> fst) ps)"
  shows "hashed_pairs n ps = card {p \<in> norm_pair ` set ps. outside n (fst p)}"
proof -
  have "distinct (map norm_pair ps)" using assms by (auto simp: distinct_map inj_on_def norm_pair_def)
  then have d: "distinct (filter (\<lambda>p. outside n (fst p)) (map norm_pair ps))" by simp
  have "card {p \<in> norm_pair ` set ps. outside n (fst p)} = length (filter (\<lambda>p. outside n (fst p)) (map norm_pair ps))"
    using distinct_card [OF d] by simp
  also have "\<dots> = hashed_pairs n ps" by (simp add: hashed_pairs_def filter_map o_def norm_pair_def)
  finally show ?thesis by simp
qed

section \<open>Migration loops\<close>

lemma migrate_array_list:
  assumes "tab_inv ts_hash t" "can_migrate t (arr_list i vs)" "sizearray t \<le> i" "i + length vs \<le> MAXSIZE"
  shows "migrate_array (newkey (Suc d) ts_hash) i vs t = migrate_list (newkey (Suc d) ts_hash) (arr_list i vs) t"
  using assms
proof (induction i vs arbitrary: t rule: arr_list.induct)
  case (3 i v vs)
  obtain s t1 where s: "arrayornewkey (newkey (Suc d) ts_hash) t (num_key (Suc i)) = Inr (s, t1)" "tab_inv ts_hash (setobj s (Some v) t1)"
    "frame t (setobj s (Some v) t1)" "can_migrate (setobj s (Some v) t1) (arr_list (Suc i) vs)"
    using migrate_step [OF 3(2), of "num_key (Suc i)" v "arr_list (Suc i) vs"] 3(3) by (metis arr_list.simps(3))
  have "\<not> in_array t (num_key (Suc i))" using 3(4,5) by (simp add: in_array_def num_key_index MAXSIZE_value)
  then have n: "newkey (Suc d) ts_hash t (KNumber (cast_num (int i + 1))) = Inr (s, t1)"
    using s(1) by (simp add: arrayornewkey_eq num_key_def add.commute)
  show ?case using 3(1) [OF s(2,4)] frame_fields(1) [OF s(3)] 3(4,5) s(1) n by (simp add: bindE_def)
qed simp_all

lemma migrate_hash_list:
  assumes "\<And>n. n \<in> set ns \<Longrightarrow> n_val n \<noteq> None \<Longrightarrow> \<exists>k. n_key n = LiveKey k"
  shows "migrate_hash nk ns t = migrate_list nk (node_list ns) t"
  using assms
proof (induction ns arbitrary: t)
  case (Cons n ns)
  then have IH: "migrate_hash nk ns = migrate_list nk (node_list ns)" by auto
  show ?case using Cons.prems [of n] by (cases "n_val n"; cases "n_key n") (simp_all add: IH)
qed simp

section \<open>New parts\<close>

definition same_meta :: "'v ltable \<Rightarrow> 'v ltable \<Rightarrow> bool" where
  "same_meta t t' \<longleftrightarrow> lt_tmcache t' = lt_tmcache t \<and> lt_readonly t' = lt_readonly t \<and> lt_safeenv t' = lt_safeenv t \<and> lt_metatable t' = lt_metatable t"

lemma same_meta_frame: "frame t t' \<Longrightarrow> same_meta t t'"
  by (simp add: same_meta_def frame_fields)

definition fresh_nodes :: "'v node list \<Rightarrow> bool" where
  "fresh_nodes ns \<longleftrightarrow> (\<forall>n \<in> set ns. n = luaH_dummynode)"

lemma fresh_nodes_facts:
  assumes "fresh_nodes ns"
  shows "live_keys ns = {}" "entries ns = {}" "used ns = 0" "node_inv main ns"
proof -
  have n: "ns ! i = luaH_dummynode" if "i < length ns" for i using assms that by (simp add: fresh_nodes_def)
  show "live_keys ns = {}" "entries ns = {}" "used ns = 0"
    using n by (auto simp: live_keys_def entries_def used_def luaH_dummynode_def)
  have nx: "\<not> nxt ns i j" for i j using n by (auto simp: nxt_def luaH_dummynode_def)
  have "chains ns" by (rule chainsI) (use n nx in \<open>auto simp: luaH_dummynode_def\<close>)
  moreover have "node_ok main ns i" if "i < length ns" for i using n [OF that] nx by (simp add: node_ok_def luaH_dummynode_def)
  moreover have "keys_distinct ns" using n by (auto simp: keys_distinct_def luaH_dummynode_def)
  ultimately show "node_inv main ns" by (simp add: node_inv_def)
qed

lemma ceillog2_MAXBITS: "n \<le> MAXSIZE \<Longrightarrow> ceillog2 n \<le> MAXBITS"
  unfolding MAXSIZE_def by (rule ceillog2_least)

lemma hash_inv_fresh:
  assumes "fresh_nodes (lt_node t)" "lt_lsizenode t \<le> MAXBITS"
    "if is_dummy t then lt_lsizenode t = 0 \<and> lt_lastfree t \<le> 0 else length (lt_node t) = sizenode t \<and> lt_lastfree t = int (sizenode t)"
  shows "hash_inv ts_hash t"
  unfolding hash_inv_def using assms fresh_nodes_facts(4) [OF assms(1)] by (auto split: if_splits)

lemma setnodevector_spec:
  assumes "nh \<le> MAXSIZE"
  obtains t1 where "setnodevector nh t = Inr t1" "hash_inv ts_hash t1" "fresh_nodes (lt_node t1)" "nh \<le> length (lt_node t1)" "is_dummy t1 = (nh = 0)"
    "0 \<le> lt_lastfree t1" "lt_array t1 = lt_array t" "lt_arrayptr t1 = lt_arrayptr t" "same_meta t t1"
proof (cases "nh = 0")
  case True
  let ?t1 = "t\<lparr>lt_node := [], lt_nodeptr := 0, lt_lsizenode := 0, lt_nodemask8 := 0, lt_lastfree := 0\<rparr>"
  have "hash_inv ts_hash ?t1" by (rule hash_inv_fresh) (simp_all add: fresh_nodes_def is_dummy_def)
  then show thesis using that [of ?t1] True by (simp add: setnodevector_def fresh_nodes_def is_dummy_def same_meta_def)
next
  case False
  let ?l = "ceillog2 nh"
  let ?t1 = "t\<lparr>lt_node := replicate (2 ^ ?l) luaH_dummynode, lt_nodeptr := Suc (lt_nodeptr t), lt_lsizenode := ?l, lt_nodemask8 := of_nat (2 ^ ?l - 1), lt_lastfree := 2 ^ ?l\<rparr>"
  have l: "?l \<le> MAXBITS" by (rule ceillog2_MAXBITS [OF assms])
  have "hash_inv ts_hash ?t1" by (rule hash_inv_fresh) (use l in \<open>simp_all add: fresh_nodes_def is_dummy_def sizenode_def\<close>)
  moreover have "setnodevector nh t = Inr ?t1" using False l by (simp add: setnodevector_def Let_def)
  ultimately show thesis using that [of ?t1] False ceillog2_upper [of nh] by (simp add: fresh_nodes_def is_dummy_def same_meta_def)
qed

section \<open>Resize\<close>

definition hash_need :: "nat \<Rightarrow> 'v ltable \<Rightarrow> nat" where
  "hash_need n t = card {p \<in> stored t. outside n (fst p)}"

text \<open>The table right after the new parts were allocated.\<close>

lemma resize_start:
  assumes inv: "tab_inv ts_hash t" and na: "nasize \<le> MAXSIZE" and hole: "num_key (Suc nasize) \<notin> fst ` stored t"
    and need: "hash_need nasize t \<le> length (lt_node t0)"
    and t0: "hash_inv ts_hash t0" "fresh_nodes (lt_node t0)" "0 \<le> lt_lastfree t0"
      "lt_array t0 = take nasize (lt_array t) @ replicate (nasize - sizearray t) None"
  shows "tab_inv ts_hash t0" "can_migrate t0 (arr_list nasize (drop nasize (lt_array t)) @ node_list (rev (lt_node t)))"
    "stored t0 \<union> norm_pair ` set (arr_list nasize (drop nasize (lt_array t)) @ node_list (rev (lt_node t))) = stored t"
proof -
  let ?arr = "lt_array t" and ?ps = "arr_list nasize (drop nasize (lt_array t)) @ node_list (rev (lt_node t))"
  note f = fresh_nodes_facts(1-3) [OF t0(2)] and i = tab_invD [OF inv]
  have sz: "sizearray t0 = nasize" using t0(4) by simp
  show "tab_inv ts_hash t0" using t0 f(1) na sz by (simp add: tab_inv_def)
  have split: "arr_list 0 ?arr = arr_list 0 (lt_array t0) @ arr_list nasize (drop nasize ?arr)"
  proof (cases "nasize \<le> sizearray t")
    case True
    have "arr_list 0 (take nasize ?arr @ drop nasize ?arr) = arr_list 0 (take nasize ?arr) @ arr_list nasize (drop nasize ?arr)"
      unfolding arr_list_append using True by simp
    then show ?thesis using True t0(4) by simp
  qed (simp add: t0(4) arr_list_append)
  have st0: "stored t0 = set (arr_list 0 (lt_array t0))" using f(2) by (simp add: stored_def arr_list_pairs)
  have all: "set (all_pairs t) = set (arr_list 0 (lt_array t0) @ ?ps)" by (simp add: all_pairs_def split node_list_rev Un_assoc)
  have nst0: "norm_pair ` set (arr_list 0 (lt_array t0)) = set (arr_list 0 (lt_array t0))" using na sz by (intro norm_pair_array) simp
  show all': "stored t0 \<union> norm_pair ` set ?ps = stored t"
    using stored_all_pairs [OF inv] nst0 unfolding all st0 by (simp only: set_append image_Un)
  have d: "distinct (map (norm_key \<circ> fst) (arr_list 0 (lt_array t0) @ ?ps))"
    using all_pairs_distinct [OF inv] unfolding all_pairs_def split by (simp add: node_list_rev rev_map [symmetric] Int_Un_distrib Un_commute)
  then have dps: "distinct (map (norm_key \<circ> fst) ?ps)" unfolding map_append distinct_append by blast
  have "hashed_pairs nasize ?ps \<le> hash_need nasize t"
    unfolding hashed_pairs_card [OF dps] hash_need_def by (rule card_mono) (use finite_stored [OF inv] all' in auto)
  moreover have "valid_key k \<and> \<not> on_boundary t0 k \<and> norm_key k \<notin> fst ` stored t0 \<and> absent (lt_node t0) k" if kps: "k \<in> fst ` set ?ps" for k
  proof -
    obtain p where p: "p \<in> set ?ps" "k = fst p" using kps by blast
    have "norm_pair p \<in> stored t" using p(1) all' by blast
    then have st: "norm_key k \<in> fst ` stored t" using p(2) by (force simp: norm_pair_def)
    have "\<not> on_boundary t0 k"
    proof
      assume "on_boundary t0 k"
      then have "key_index k = int (Suc nasize)" using sz by (simp add: on_boundary_def)
      then have "0 < key_index k" "nat (key_index k) = Suc nasize" by (simp, simp only: nat_int)
      then have "norm_key k = num_key (Suc nasize)" using norm_index_key [of k] by metis
      then show False using st hole by simp
    qed
    moreover have "norm_key k \<notin> fst ` stored t0"
    proof
      assume "norm_key k \<in> fst ` stored t0"
      then have "norm_key k \<in> fst ` norm_pair ` set (arr_list 0 (lt_array t0))" unfolding nst0 st0 .
      then have "norm_key k \<in> set (map (norm_key \<circ> fst) (arr_list 0 (lt_array t0)))" by (auto simp: norm_pair_def image_iff)
      moreover have "norm_key k \<in> set (map (norm_key \<circ> fst) ?ps)" using kps by auto
      ultimately show False using d unfolding map_append distinct_append by blast
    qed
    ultimately show ?thesis using all_pairs_valid [OF inv, of k "snd p"] p all f(1) by (auto simp: absent_live)
  qed
  ultimately show "can_migrate t0 ?ps" using dps need f(3) sz unfolding can_migrate_def by auto
qed

lemma array_address [simp]:
  "tab_inv ts_hash (t\<lparr>lt_arrayptr := p\<rparr>) = tab_inv ts_hash t" "stored (t\<lparr>lt_arrayptr := p\<rparr>) = stored t" "can_migrate (t\<lparr>lt_arrayptr := p\<rparr>) ps = can_migrate t ps"
  "same_meta (t\<lparr>lt_arrayptr := p\<rparr>) t' = same_meta t t'" "is_dummy (t\<lparr>lt_arrayptr := p\<rparr>) = is_dummy t"
proof -
  have "mainposition ts_hash (t\<lparr>lt_arrayptr := p\<rparr>) = mainposition ts_hash t" by (rule mainposition_cong) simp
  then show "tab_inv ts_hash (t\<lparr>lt_arrayptr := p\<rparr>) = tab_inv ts_hash t" by (simp add: tab_inv_def hash_inv_def is_dummy_def sizenode_def)
qed (simp_all add: stored_def can_migrate_def on_boundary_def same_meta_def is_dummy_def)

lemma hash_inv_array [simp]: "hash_inv ts_hash (t\<lparr>lt_array := a\<rparr>) = hash_inv ts_hash t"
proof -
  have "mainposition ts_hash (t\<lparr>lt_array := a\<rparr>) = mainposition ts_hash t" by (rule mainposition_cong) simp
  then show ?thesis by (simp add: hash_inv_def is_dummy_def sizenode_def)
qed

lemma same_meta_trans: "same_meta t t' \<Longrightarrow> same_meta t' t'' \<Longrightarrow> same_meta t t''"
  by (simp add: same_meta_def)

text \<open>The two migration loops, from the table with the new parts.\<close>

lemma resize_migrate:
  assumes inv: "tab_inv ts_hash t0" and c: "can_migrate t0 (arr_list nasize vs @ node_list ns)" and sz: "sizearray t0 = nasize" "nasize + length vs \<le> MAXSIZE"
    and ns: "\<And>n. n \<in> set ns \<Longrightarrow> n_val n \<noteq> None \<Longrightarrow> \<exists>k. n_key n = LiveKey k"
  obtains t1 t' where "migrate_array (newkey (Suc d) ts_hash) nasize vs t0 = Inr t1" "lt_nodeptr t1 = lt_nodeptr t0"
    "\<And>p. migrate_hash (newkey (Suc d) ts_hash) ns (t1\<lparr>lt_arrayptr := p\<rparr>) = Inr (t' p)" "\<And>p. tab_inv ts_hash (t' p)"
    "\<And>p. stored (t' p) = stored t0 \<union> norm_pair ` set (arr_list nasize vs @ node_list ns)" "\<And>p. frame (t0\<lparr>lt_arrayptr := p\<rparr>) (t' p)"
    "\<And>p. used (lt_node (t' p)) \<le> used (lt_node t0) + hashed_pairs nasize (arr_list nasize vs @ node_list ns)"
    "\<And>p. live_keys (lt_node (t' p)) \<subseteq> live_keys (lt_node t0) \<union> fst ` set (arr_list nasize vs @ node_list ns)"
proof -
  let ?nk = "newkey (Suc d) ts_hash" and ?ps = "arr_list nasize vs" and ?qs = "node_list ns"
  have c1: "can_migrate t0 ?ps" using c by (auto simp: can_migrate_def hashed_pairs_def)
  obtain t1 where t1: "migrate_list ?nk ?ps t0 = Inr t1" "tab_inv ts_hash t1" "stored t1 = stored t0 \<union> norm_pair ` set ?ps" "frame t0 t1"
    "used (lt_node t1) \<le> used (lt_node t0) + hashed_pairs nasize ?ps" "live_keys (lt_node t1) \<subseteq> live_keys (lt_node t0) \<union> fst ` set ?ps" "can_migrate t1 ?qs"
    using migrate_list_spec [OF inv c] sz(1) by metis
  have "\<exists>t'. migrate_list ?nk ?qs (t1\<lparr>lt_arrayptr := p\<rparr>) = Inr t' \<and> tab_inv ts_hash t' \<and> stored t' = stored t1 \<union> norm_pair ` set ?qs
    \<and> frame (t1\<lparr>lt_arrayptr := p\<rparr>) t' \<and> used (lt_node t') \<le> used (lt_node t1) + hashed_pairs nasize ?qs
    \<and> live_keys (lt_node t') \<subseteq> live_keys (lt_node t1) \<union> fst ` set ?qs" for p
    using migrate_list_spec [of ts_hash "t1\<lparr>lt_arrayptr := p\<rparr>" ?qs "[]" d] t1(2,7) frame_fields(1) [OF t1(4)] sz(1) by auto
  then obtain t' where t': "\<And>p. migrate_list ?nk ?qs (t1\<lparr>lt_arrayptr := p\<rparr>) = Inr (t' p)" "\<And>p. tab_inv ts_hash (t' p)"
    "\<And>p. stored (t' p) = stored t1 \<union> norm_pair ` set ?qs" "\<And>p. frame (t1\<lparr>lt_arrayptr := p\<rparr>) (t' p)"
    "\<And>p. used (lt_node (t' p)) \<le> used (lt_node t1) + hashed_pairs nasize ?qs" "\<And>p. live_keys (lt_node (t' p)) \<subseteq> live_keys (lt_node t1) \<union> fst ` set ?qs"
    by metis
  have fr: "frame (t0\<lparr>lt_arrayptr := p\<rparr>) (t1\<lparr>lt_arrayptr := p\<rparr>)" for p
  proof -
    obtain nd lf ar where "t1 = t0\<lparr>lt_node := nd, lt_lastfree := lf, lt_array := ar\<rparr>" using t1(4) unfolding frame_def by blast
    then show ?thesis using t1(4) by (simp add: frame_def)
  qed
  show thesis
  proof (rule that [of t1 t'])
    show "migrate_array ?nk nasize vs t0 = Inr t1" using migrate_array_list [OF inv c1 _ sz(2)] t1(1) sz(1) by simp
    show "migrate_hash ?nk ns (t1\<lparr>lt_arrayptr := p\<rparr>) = Inr (t' p)" for p using migrate_hash_list [OF ns] t'(1) by simp
    show "frame (t0\<lparr>lt_arrayptr := p\<rparr>) (t' p)" for p by (rule frame_trans [OF fr t'(4)])
    show "used (lt_node (t' p)) \<le> used (lt_node t0) + hashed_pairs nasize (?ps @ ?qs)" for p using t1(5) t'(5) [of p] by (simp add: hashed_pairs_def)
    show "live_keys (lt_node (t' p)) \<subseteq> live_keys (lt_node t0) \<union> fst ` set (?ps @ ?qs)" for p using t1(6) t'(6) [of p] by auto
    show "stored (t' p) = stored t0 \<union> norm_pair ` set (?ps @ ?qs)" for p using t1(3) t'(3) [of p] by auto
  qed (use t'(2) frame_fields(5) [OF t1(4)] in auto)
qed

lemma resize_spec:
  assumes inv: "tab_inv ts_hash t" and na: "nasize \<le> MAXSIZE" "nh \<le> MAXSIZE" and hole: "num_key (Suc nasize) \<notin> fst ` stored t"
    and need: "hash_need nasize t \<le> nh"
  obtains t' where "resize (newkey (Suc d) ts_hash) t nasize nh = Inr t'" "tab_inv ts_hash t'" "stored t' = stored t" "sizearray t' = nasize"
    "used (lt_node t') \<le> hash_need nasize t" "nh \<le> length (lt_node t')" "is_dummy t' = (nh = 0)" "same_meta t t'"
    "norm_key ` live_keys (lt_node t') \<subseteq> fst ` stored t"
proof -
  define ta where "ta = (if nasize > sizearray t then t\<lparr>lt_array := lt_array t @ replicate (nasize - sizearray t) None, lt_arrayptr := Suc (lt_arrayptr t)\<rparr> else t)"
  have ta: "(if nasize > sizearray t then setarrayvector nasize t else Inr t) = Inr ta" "same_meta t ta"
    using na by (auto simp: ta_def setarrayvector_def same_meta_def)
  obtain tb where tb: "setnodevector nh ta = Inr tb" "hash_inv ts_hash tb" "fresh_nodes (lt_node tb)" "nh \<le> length (lt_node tb)" "is_dummy tb = (nh = 0)"
    "0 \<le> lt_lastfree tb" "lt_array tb = lt_array ta" "lt_arrayptr tb = lt_arrayptr ta" "same_meta ta tb"
    using setnodevector_spec [OF na(2), of ta ts_hash] by metis
  define t0 where "t0 = (if nasize < sizearray t then tb\<lparr>lt_array := take nasize (lt_array t)\<rparr> else tb)"
  let ?vs = "drop nasize (lt_array t)" and ?ns = "rev (lt_node t)"
  have t0: "hash_inv ts_hash t0" "fresh_nodes (lt_node t0)" "0 \<le> lt_lastfree t0" "lt_array t0 = take nasize (lt_array t) @ replicate (nasize - sizearray t) None"
    "lt_node t0 = lt_node tb" "lt_nodeptr t0 = lt_nodeptr tb" "same_meta t t0" "lt_arrayptr t0 = lt_arrayptr tb" "is_dummy t0 = (nh = 0)"
    using tb ta(2) by (auto simp: t0_def ta_def same_meta_def is_dummy_def)
  have sz: "sizearray t0 = nasize" using t0(4) by simp
  have szv: "nasize + length ?vs \<le> MAXSIZE" using na(1) tab_invD(2) [OF inv] by simp
  have nt: "hash_need nasize t \<le> length (lt_node t0)" using need tb(4) t0(5) by simp
  note st = resize_start [OF inv na(1) hole nt t0(1-4)]
  have live: "\<exists>k. n_key n = LiveKey k" if n: "n \<in> set ?ns" "n_val n \<noteq> None" for n
  proof -
    obtain i where i: "i < length (lt_node t)" "lt_node t ! i = n" using n(1) by (auto simp: in_set_conv_nth)
    then have "\<not> is_dummy t" by (auto simp: is_dummy_def)
    from node_inv_value_key [OF hash_invD(2) [OF tab_invD(1) [OF inv] this] i(1)] i(2) n(2) show ?thesis by metis
  qed
  obtain t1 t' where m: "migrate_array (newkey (Suc d) ts_hash) nasize ?vs t0 = Inr t1" "lt_nodeptr t1 = lt_nodeptr t0"
    "\<And>p. migrate_hash (newkey (Suc d) ts_hash) ?ns (t1\<lparr>lt_arrayptr := p\<rparr>) = Inr (t' p)" "\<And>p. tab_inv ts_hash (t' p)"
    "\<And>p. stored (t' p) = stored t0 \<union> norm_pair ` set (arr_list nasize ?vs @ node_list ?ns)" "\<And>p. frame (t0\<lparr>lt_arrayptr := p\<rparr>) (t' p)"
    "\<And>p. used (lt_node (t' p)) \<le> used (lt_node t0) + hashed_pairs nasize (arr_list nasize ?vs @ node_list ?ns)"
    "\<And>p. live_keys (lt_node (t' p)) \<subseteq> live_keys (lt_node t0) \<union> fst ` set (arr_list nasize ?vs @ node_list ?ns)"
    using resize_migrate [where d = d, OF st(1,2) sz szv live] by blast
  define p where "p = (if nasize < sizearray t then Suc (lt_arrayptr t1) else lt_arrayptr t1)"
  note fr = frame_fields [OF m(6) [of p]]
  have "resize (newkey (Suc d) ts_hash) t nasize nh = Inr (t' p)"
  proof (cases "nasize < sizearray t")
    case True
    then show ?thesis using na ta tb(1) m(1-3) fr(4,5) t0(6) unfolding resize_def Let_def p_def by (simp add: bindE_def t0_def)
  next
    case False
    then have "t1 = t0" using m(1) by simp
    then show ?thesis using False na ta tb(1) m(3) [of p] fr(4,5) t0(6) unfolding resize_def Let_def p_def by (simp add: bindE_def t0_def)
  qed
  moreover have "hashed_pairs nasize (arr_list nasize ?vs @ node_list ?ns) \<le> hash_need nasize t"
  proof -
    have d: "distinct (map (norm_key \<circ> fst) (arr_list nasize ?vs @ node_list ?ns))" using st(2) by (simp add: can_migrate_def)
    show ?thesis unfolding hashed_pairs_card [OF d] hash_need_def by (rule card_mono) (use finite_stored [OF inv] st(3) in auto)
  qed
  moreover have "norm_key ` live_keys (lt_node (t' p)) \<subseteq> fst ` stored t"
    using m(8) [of p] fresh_nodes_facts(1) [OF t0(2)] unfolding st(3) [symmetric] image_Un image_image norm_pair_def by force
  moreover have "same_meta t (t' p)" using same_meta_trans [OF t0(7)] same_meta_frame [OF m(6) [of p]] by simp
  ultimately show thesis
    using that [of "t' p"] m(4) [of p] m(5) [of p] st(3) m(7) [of p] fresh_nodes_facts(3) [OF t0(2)] fr(1,2,6) sz t0(5,9) tb(4) by simp
qed

end
