(* ===== verification/LuaTableRehash.thy ===== *)
theory LuaTableRehash
  imports LuaTableResize
begin

text \<open>
  Growing a table: the counts that decide the new sizes, the adjustment that keeps the boundary in the
  array part, and that \<open>newkey\<close> finds room after at most one rehash.
\<close>

section \<open>The optimal size of the array part\<close>

text \<open>\<open>js\<close> lists the integer keys; slice \<open>g\<close> holds those above \<open>2 ^ (g - 1)\<close> and up to \<open>2 ^ g\<close>.\<close>

definition slice_count :: "nat list \<Rightarrow> nat \<Rightarrow> nat" where
  "slice_count js g = length (filter (\<lambda>j. ceillog2 j = g) js)"

definition slices :: "nat list \<Rightarrow> nat list" where
  "slices js = map (slice_count js) [0..<MAXBITS + 1]"

definition upto_count :: "nat list \<Rightarrow> nat \<Rightarrow> nat" where
  "upto_count js n = length (filter (\<lambda>j. j \<le> n) js)"

lemma ceillog2_le_iff: "ceillog2 j \<le> g \<longleftrightarrow> j \<le> 2 ^ g"
proof
  assume "ceillog2 j \<le> g"
  then have "(2 :: nat) ^ ceillog2 j \<le> 2 ^ g" by simp
  then show "j \<le> 2 ^ g" using ceillog2_upper [of j] by linarith
qed (rule ceillog2_least)

lemma slice_upto: "upto_count js (2 ^ Suc g) = upto_count js (2 ^ g) + slice_count js (Suc g)"
proof -
  have "j \<le> 2 ^ Suc g \<longleftrightarrow> j \<le> 2 ^ g \<or> ceillog2 j = Suc g" "ceillog2 j = Suc g \<Longrightarrow> \<not> j \<le> 2 ^ g" for j
    using ceillog2_le_iff [of j "Suc g"] ceillog2_le_iff [of j g] by auto
  then show ?thesis unfolding upto_count_def slice_count_def by (induction js) auto
qed

lemma slice_first: "list_all (\<lambda>j. 1 \<le> j) js \<Longrightarrow> upto_count js 1 = slice_count js 0"
proof -
  assume "list_all (\<lambda>j. 1 \<le> j) js"
  moreover have "ceillog2 j = 0 \<longleftrightarrow> j \<le> 1" for j using ceillog2_le_iff [of j 0] by simp
  ultimately show ?thesis unfolding upto_count_def slice_count_def by simp
qed

lemma upto_count_le:
  assumes "distinct js" "list_all (\<lambda>j. 1 \<le> j) js"
  shows "upto_count js n \<le> n"
proof -
  have "upto_count js n = card (set (filter (\<lambda>j. j \<le> n) js))" unfolding upto_count_def by (rule distinct_card [symmetric]) (use assms(1) in simp)
  also have "\<dots> \<le> card {1..n}" using assms(2) by (intro card_mono) (auto simp: list_all_iff)
  finally show ?thesis by simp
qed

lemma upto_count_mono: "m \<le> n \<Longrightarrow> upto_count js m \<le> upto_count js n"
  unfolding upto_count_def by (induction js) auto

definition fits :: "nat list \<Rightarrow> nat \<Rightarrow> nat \<Rightarrow> bool" where
  "fits js n na \<longleftrightarrow> na = upto_count js n \<and> n div 2 \<le> na \<and> n \<le> MAXSIZE"

lemma computesizes_from_spec:
  assumes "distinct js" "list_all (\<lambda>j. 1 \<le> j \<and> j \<le> MAXSIZE) js"
    and "i \<le> MAXBITS" "a + slice_count js i = upto_count js (2 ^ i)" "fits js n na" "i = 0 \<or> a \<noteq> length js"
  shows "\<exists>n' na'. computesizes_from (drop i (slices js)) (length js) (2 ^ i) a na n = Some (n', na') \<and> fits js n' na'"
  using assms(3-)
proof (induction "MAXBITS - i" arbitrary: i a n na)
  case 0
  then have i: "i = MAXBITS" by simp
  have "upto_count js (2 ^ i) = length js" unfolding upto_count_def i using assms(2) by (simp add: list_all_iff MAXSIZE_def)
  then have a: "a + slice_count js i = length js" using 0 by simp
  have d: "drop i (slices js) = [slice_count js i]" unfolding slices_def i by (simp add: drop_map del: upt_Suc) simp
  have f: "fits js (2 ^ i) (length js)" if "length js > 2 ^ i div 2"
    using that a 0 i by (simp add: fits_def MAXSIZE_def)
  show ?case unfolding d computesizes_from.simps [of "[slice_count js i]"] using a f 0 by (auto simp: Let_def)
next
  case (Suc m)
  then have i: "i < MAXBITS" and m: "m = MAXBITS - Suc i" by simp_all
  have d: "drop i (slices js) = slice_count js i # drop (Suc i) (slices js)"
    using Cons_nth_drop_Suc [of i "slices js"] i by (simp add: slices_def del: upt_Suc)
  let ?a = "a + slice_count js i" and ?b = "0 < slice_count js i \<and> 2 ^ i div 2 < a + slice_count js i"
  have f: "fits js (if ?b then 2 ^ i else n) (if ?b then ?a else na)"
  proof (cases ?b)
    case True
    have "(2 :: nat) ^ i \<le> 2 ^ MAXBITS" using i by simp
    then show ?thesis using True Suc.prems(2) by (simp add: fits_def MAXSIZE_def)
  next
    case False
    then show ?thesis using Suc.prems(3) by (simp only: if_False)
  qed
  show ?case
  proof (cases "2 ^ i div 2 < length js \<and> ?a \<noteq> length js")
    case True
    have "?a + slice_count js (Suc i) = upto_count js (2 ^ Suc i)" unfolding slice_upto Suc.prems(2) ..
    then obtain n' na' where "computesizes_from (drop (Suc i) (slices js)) (length js) (2 ^ Suc i) ?a (if ?b then ?a else na) (if ?b then 2 ^ i else n) = Some (n', na')" "fits js n' na'"
      using Suc.hyps(1) [of "Suc i" ?a _ _, OF m _ _ f] i True by auto
    then show ?thesis unfolding d computesizes_from.simps [of "slice_count js i # drop (Suc i) (slices js)"] using True by (auto simp: Let_def mult.commute)
  next
    case False
    then show ?thesis unfolding d computesizes_from.simps [of "slice_count js i # drop (Suc i) (slices js)"] using f Suc.prems(3) by (auto simp: Let_def)
  qed
qed

lemma computesizes_spec:
  assumes "distinct js" "list_all (\<lambda>j. 1 \<le> j \<and> j \<le> MAXSIZE) js"
  obtains n where "computesizes (slices js) (length js) = Inr (n, upto_count js n)" "n \<le> MAXSIZE" "n \<le> 2 * upto_count js n + 1"
proof -
  have p: "list_all (\<lambda>j. 1 \<le> j) js" using assms(2) by (auto simp: list_all_iff)
  have z: "upto_count js 0 = 0" using p by (auto simp: upto_count_def list_all_iff filter_empty_conv)
  obtain n na where n: "computesizes_from (slices js) (length js) 1 0 0 0 = Some (n, na)" "fits js n na"
    using computesizes_from_spec [OF assms, of 0 0 0 0] slice_first [OF p] z by (auto simp: fits_def)
  then have "computesizes (slices js) (length js) = Inr (n, upto_count js n)"
    using upto_count_le [OF assms(1) p, of n] by (simp add: computesizes_def fits_def)
  then show thesis using that [of n] n(2) by (auto simp: fits_def)
qed

section \<open>Counting the integer keys\<close>

text \<open>Counting adds the keys of a list to the counters.\<close>

definition add_slices :: "nat list \<Rightarrow> nat list \<Rightarrow> nat list" where
  "add_slices nums js = map (\<lambda>g. nums ! g + slice_count js g) [0..<MAXBITS + 1]"

lemma add_slices_Nil: "length nums = MAXBITS + 1 \<Longrightarrow> add_slices nums [] = nums"
  unfolding add_slices_def slice_count_def by (rule nth_equalityI) (simp_all del: upt_Suc)

lemma add_slices_append: "add_slices (add_slices nums js) ks = add_slices nums (js @ ks)"
  unfolding add_slices_def slice_count_def by (simp del: upt_Suc)

lemma add_slices_length [simp]: "length (add_slices nums js) = MAXBITS + 1"
  by (simp add: add_slices_def)

lemma add_slices_zero: "add_slices (replicate (MAXBITS + 1) 0) js = slices js"
  unfolding add_slices_def slices_def by (rule nth_equalityI) (simp_all del: upt_Suc replicate.simps)

lemma add_slices_update:
  assumes "length nums = MAXBITS + 1" "g \<le> MAXBITS" "list_all (\<lambda>j. ceillog2 j = g) js"
  shows "nums[g := nums ! g + length js] = add_slices nums js"
proof (rule nth_equalityI)
  fix i assume i: "i < length (nums[g := nums ! g + length js])"
  have "slice_count js i = (if i = g then length js else 0)"
    using assms(3) by (auto simp: slice_count_def list_all_iff filter_id_conv filter_empty_conv)
  then show "nums[g := nums ! g + length js] ! i = add_slices nums js ! i"
    using i assms(1,2) by (auto simp: add_slices_def nth_list_update simp del: upt_Suc)
qed (use assms in simp)

definition int_keys :: "lkey list \<Rightarrow> nat list" where
  "int_keys ks = map (nat \<circ> key_index) (filter (\<lambda>k. 0 < key_index k \<and> key_index k \<le> int MAXSIZE) ks)"

lemma int_keys_append: "int_keys (xs @ ys) = int_keys xs @ int_keys ys"
  by (simp add: int_keys_def)

lemma countint_spec:
  assumes "length nums = MAXBITS + 1"
  shows "countint n nums = (length (int_keys [KNumber n]), add_slices nums (int_keys [KNumber n]))"
proof (cases "0 < arrayindex n \<and> arrayindex n \<le> int MAXSIZE")
  case True
  have "ceillog2 (nat (arrayindex n)) \<le> MAXBITS" using True by (intro ceillog2_MAXBITS) linarith
  then show ?thesis using True add_slices_update [OF assms, of "ceillog2 (nat (arrayindex n))" "[nat (arrayindex n)]"]
    by (simp add: countint_def int_keys_def Let_def)
qed (use assms in \<open>auto simp: countint_def int_keys_def add_slices_Nil\<close>)

lemma int_keys_other: "(\<And>n. k \<noteq> KNumber n) \<Longrightarrow> int_keys [k] = []"
  by (cases k) (auto simp: int_keys_def key_index_def ek_index_def)

lemma numusehash_from_spec:
  assumes "length nums = MAXBITS + 1" "\<And>n. n \<in> set ns \<Longrightarrow> n_val n \<noteq> None \<Longrightarrow> \<exists>k. n_key n = LiveKey k"
  shows "numusehash_from ns nums tot ause = (tot + length (node_list ns), ause + length (int_keys (map fst (node_list ns))), add_slices nums (int_keys (map fst (node_list ns))))"
  using assms
proof (induction ns arbitrary: nums tot ause)
  case (Cons n ns)
  show ?case
  proof (cases "n_val n")
    case None
    then show ?thesis using Cons by (cases "n_key n") auto
  next
    case (Some v)
    then obtain k where k: "n_key n = LiveKey k" using Cons.prems(2) [of n] by auto
    have app: "int_keys (k # map fst (node_list ns)) = int_keys [k] @ int_keys (map fst (node_list ns))"
      using int_keys_append [of "[k]" "map fst (node_list ns)"] by simp
    show ?thesis
    proof (cases "\<exists>m. k = KNumber m")
      case True
      then obtain m where m: "k = KNumber m" by blast
      have "numusehash_from ns (add_slices nums (int_keys [k])) (tot + 1) (ause + length (int_keys [k]))
        = (tot + 1 + length (node_list ns), ause + length (int_keys [k]) + length (int_keys (map fst (node_list ns))),
           add_slices (add_slices nums (int_keys [k])) (int_keys (map fst (node_list ns))))"
        by (rule Cons.IH) (use Cons.prems in auto)
      then show ?thesis using Some k m countint_spec [OF Cons.prems(1), of m] app by (simp add: add_slices_append)
    next
      case False
      then have "int_keys [k] = []" by (intro int_keys_other) auto
      moreover have "numusehash_from ns nums (tot + 1) ause = (tot + 1 + length (node_list ns), ause + length (int_keys (map fst (node_list ns))), add_slices nums (int_keys (map fst (node_list ns))))"
        by (rule Cons.IH) (use Cons.prems in auto)
      ultimately show ?thesis using Some k app False by (auto split: lkey.split)
    qed
  qed
qed (simp add: int_keys_def add_slices_Nil)

definition used_slots :: "'v ltable \<Rightarrow> nat \<Rightarrow> nat list" where
  "used_slots t i = filter (\<lambda>j. lt_array t ! (j - 1) \<noteq> None) [i..<sizearray t + 1]"

lemma numusearray_from_spec:
  assumes "sizearray t \<le> MAXSIZE"
    and "length nums = MAXBITS + 1" "1 \<le> i" "i \<le> sizearray t + 1" "\<And>j. 1 \<le> j \<Longrightarrow> j \<le> sizearray t \<Longrightarrow> i \<le> j \<longleftrightarrow> lg \<le> ceillog2 j"
  shows "numusearray_from t lg i nums ause = (ause + length (used_slots t i), add_slices nums (used_slots t i))"
  using assms(2-)
proof (induction "MAXBITS + 1 - lg" arbitrary: lg i nums ause)
  case 0
  have "\<not> i \<le> sizearray t"
  proof
    assume "i \<le> sizearray t"
    then have "lg \<le> ceillog2 i" "ceillog2 i \<le> MAXBITS" using 0 assms(1) by (auto intro: ceillog2_MAXBITS)
    then show False using 0(1) by simp
  qed
  then show ?case using 0 by (simp add: numusearray_from.simps used_slots_def add_slices_Nil)
next
  case (Suc m)
  have lg: "lg \<le> MAXBITS" "m = MAXBITS + 1 - (lg + 1)" using Suc.hyps(2) by simp_all
  let ?lim = "min (2 ^ lg) (sizearray t)" and ?P = "\<lambda>j. lt_array t ! (j - 1) \<noteq> None"
  let ?i = "max i (?lim + 1)"
  show ?case
  proof (cases "2 ^ lg > sizearray t \<and> i > ?lim")
    case True
    then have i: "sizearray t < i" by auto
    then have "used_slots t i = []" by (simp add: used_slots_def del: upt_Suc)
    with i show ?thesis using conjunct1 [OF True] lg Suc.prems(1) by (simp add: numusearray_from.simps [of t lg] add_slices_Nil Let_def)
  next
    case False
    define new where "new = filter ?P [i..<?lim + 1]"
    have split: "used_slots t i = new @ used_slots t ?i"
    proof -
      have "[i..<sizearray t + 1] = [i..<?lim + 1] @ [?i..<sizearray t + 1]"
      proof (cases "i \<le> ?lim + 1")
        case True
        moreover have "?lim + 1 + (sizearray t - ?lim) = sizearray t + 1" "?i = ?lim + 1" using True by auto
        ultimately show ?thesis using upt_add_eq_append [of i "?lim + 1" "sizearray t - ?lim"] by metis
      next
        case False
        then have "[i..<?lim + 1] = []" "?i = i" by auto
        then show ?thesis by simp
      qed
      then show ?thesis unfolding used_slots_def new_def by (metis filter_append)
    qed
    have sl: "list_all (\<lambda>j. ceillog2 j = lg) new"
    proof -
      have "ceillog2 j = lg" if "i \<le> j" "j \<le> 2 ^ lg" "j \<le> sizearray t" for j
        using Suc.prems(2) Suc.prems(4) [of j] that ceillog2_le_iff [of j lg] by auto
      then show ?thesis by (auto simp: list_all_iff new_def)
    qed
    have upd: "nums[lg := nums ! lg + length new] = add_slices nums new" by (rule add_slices_update [OF Suc.prems(1) lg(1) sl])
    have next_i: "?i \<le> j \<longleftrightarrow> lg + 1 \<le> ceillog2 j" if "1 \<le> j" "j \<le> sizearray t" for j
      using Suc.prems(4) [OF that] ceillog2_le_iff [of j lg] that by auto
    have "numusearray_from t (lg + 1) ?i (add_slices nums new) (ause + length new)
      = (ause + length new + length (used_slots t ?i), add_slices (add_slices nums new) (used_slots t ?i))"
      by (rule Suc.hyps(1) [OF lg(2)]) (use Suc.prems(2,3) next_i in auto)
    moreover have "count_slots t i ?lim = length new" by (simp add: count_slots_def new_def)
    moreover have "numusearray_from t lg i nums ause
      = numusearray_from t (lg + 1) ?i (nums[lg := nums ! lg + count_slots t i ?lim]) (ause + count_slots t i ?lim)"
      by (subst numusearray_from.simps) (simp only: Let_def lg(1) False if_True if_False)
    ultimately show ?thesis using upd split by (simp add: add_slices_append)
  qed
qed

lemma numusearray_spec:
  assumes "sizearray t \<le> MAXSIZE"
  shows "numusearray t (replicate (MAXBITS + 1) 0) = (length (used_slots t 1), slices (used_slots t 1))"
  unfolding numusearray_def add_slices_zero [symmetric]
  using numusearray_from_spec [OF assms, of "replicate (MAXBITS + 1) 0" 1 0 0] by simp

section \<open>Keeping the boundary in the array part\<close>

text \<open>The positive integer keys of a table, and the index \<open>e\<close> of an extra key.\<close>

definition index_keys :: "'v ltable \<Rightarrow> int \<Rightarrow> nat set" where
  "index_keys t e = {j. 1 \<le> j \<and> (int j \<in> key_index ` fst ` stored t \<or> int j = e)}"

lemma stored_norm: "tab_inv ts_hash t \<Longrightarrow> p \<in> stored t \<Longrightarrow> norm_key (fst p) = fst p"
  using array_pairs_index(3) [OF tab_invD(2), of ts_hash t "fst p" "snd p"] by (auto simp: stored_def entries_def)

lemma index_stored:
  assumes "tab_inv ts_hash t" "1 \<le> j" "j < 2 ^ 31"
  shows "int j \<in> key_index ` fst ` stored t \<longleftrightarrow> num_key j \<in> fst ` stored t"
proof
  assume "int j \<in> key_index ` fst ` stored t"
  then obtain p where p: "p \<in> stored t" "int j = key_index (fst p)" by blast
  then have "0 < key_index (fst p)" "nat (key_index (fst p)) = j" using assms(2) by linarith+
  then have "norm_key (fst p) = num_key j" using norm_index_key [of "fst p"] by metis
  then show "num_key j \<in> fst ` stored t" using stored_norm [OF assms(1) p(1)] p(1) by (metis imageI)
next
  assume "num_key j \<in> fst ` stored t"
  then show "int j \<in> key_index ` fst ` stored t" using num_key_index [OF assms(3)] by (metis imageI)
qed

lemma finite_index_keys: "tab_inv ts_hash t \<Longrightarrow> finite (index_keys t e)"
proof -
  assume "tab_inv ts_hash t"
  then have "finite (nat ` insert e (key_index ` fst ` stored t))" using finite_stored by blast
  moreover have "index_keys t e \<subseteq> nat ` insert e (key_index ` fst ` stored t)" unfolding index_keys_def by (force simp: image_iff)
  ultimately show ?thesis by (rule rev_finite_subset)
qed

lemma card_index_keys:
  assumes "tab_inv ts_hash t"
  shows "card (index_keys t e) \<le> card (stored t) + 1"
proof -
  note f = finite_stored [OF assms]
  have "card (index_keys t e) \<le> card (nat ` insert e (key_index ` fst ` stored t))"
    by (rule card_mono) (use f in \<open>force simp: index_keys_def image_iff\<close>)+
  also have "\<dots> \<le> card (insert e (key_index ` fst ` stored t))" by (rule card_image_le) (use f in simp)
  also have "\<dots> \<le> Suc (card (key_index ` fst ` stored t))" by (rule card_insert_le_m1) (use f in auto)
  also have "card (key_index ` fst ` stored t) \<le> card (stored t)" using card_image_le [of "stored t" "key_index \<circ> fst"] f by (simp add: image_comp)
  finally show ?thesis by simp
qed

lemma card_stored:
  assumes "tab_inv ts_hash t"
  shows "card (stored t) \<le> sizearray t + length (lt_node t)"
proof -
  have "length (arr_list i vs) \<le> length vs" for i and vs :: "'a option list" by (induction i vs rule: arr_list.induct) auto
  moreover have "length (node_list ns) \<le> length ns" for ns :: "'a node list" by (induction ns) (auto split: tkey.splits option.splits)
  ultimately have "length (all_pairs t) \<le> sizearray t + length (lt_node t)" by (simp add: all_pairs_def add_mono)
  moreover have "card (stored t) \<le> length (all_pairs t)"
    unfolding stored_all_pairs [OF assms, symmetric] by (metis card_image_le card_length finite_set le_trans)
  ultimately show ?thesis by simp
qed

lemma getnum_nil:
  assumes inv: "tab_inv ts_hash t" and sz: "Suc sz < 2 ^ 31"
  obtains s where "luaH_getnum t (int sz + 1) = Inr s" "slot_value t s \<noteq> None \<longleftrightarrow> int (Suc sz) \<in> key_index ` fst ` stored t"
proof -
  obtain s where s: "luaH_getnum t (int (Suc sz)) = Inr s" "slot_for t (num_key (Suc sz)) s"
    using luaH_getnum_spec [OF inv, of "int (Suc sz)"] sz unfolding num_key_def by auto
  have "slot_value t s \<noteq> None \<longleftrightarrow> num_key (Suc sz) \<in> fst ` stored t"
    using slot_for_value [OF inv s(2)] num_key_norm [of "Suc sz"] sz by (force simp: image_iff)
  then show thesis using that [of s] s(1) index_stored [OF inv _ sz] by (simp add: add.commute)
qed

definition adjusted :: "nat set \<Rightarrow> nat \<Rightarrow> nat \<Rightarrow> bool" where
  "adjusted J sz sz' \<longleftrightarrow> sz \<le> sz' \<and> {sz<..sz'} \<subseteq> J \<and> Suc sz' \<notin> J"

lemma adjust_loop_spec:
  assumes inv: "tab_inv ts_hash t" and tb: "tbound \<or> (\<forall>j. sz < j \<and> j \<in> index_keys t e \<longrightarrow> int j = e)"
    and fuel: "card {j \<in> index_keys t e. sz < j} < fuel" "sz + card {j \<in> index_keys t e. sz < j} + 1 < 2 ^ 31"
  shows "\<exists>sz'. adjust_loop fuel t tbound e sz = Inr sz' \<and> adjusted (index_keys t e) sz sz'"
  using tb fuel
proof (induction fuel arbitrary: sz)
  case (Suc fuel)
  let ?J = "index_keys t e"
  show ?case
  proof (cases "Suc sz \<in> ?J")
    case True
    have "{j \<in> ?J. sz < j} = insert (Suc sz) {j \<in> ?J. Suc sz < j}" using True by auto
    then have c: "card {j \<in> ?J. sz < j} = Suc (card {j \<in> ?J. Suc sz < j})" using finite_index_keys [OF inv] by simp
    then obtain sz' where sz': "adjust_loop fuel t tbound e (Suc sz) = Inr sz'" "adjusted ?J (Suc sz) sz'"
      using Suc.IH [of "Suc sz"] Suc.prems by auto
    have "adjust_loop (Suc fuel) t tbound e sz = Inr sz'"
    proof (cases "int sz + 1 = e")
      case False
      have k: "int (Suc sz) \<in> key_index ` fst ` stored t" using True False by (auto simp: index_keys_def)
      have t: "tbound" using Suc.prems(1) True False by force
      obtain s where s: "luaH_getnum t (int sz + 1) = Inr s" "slot_value t s \<noteq> None \<longleftrightarrow> int (Suc sz) \<in> key_index ` fst ` stored t"
        using getnum_nil [OF inv, of sz] Suc.prems(3) by auto
      then show ?thesis using False t k sz'(1) by (simp add: bindE_def)
    qed (use sz'(1) in simp)
    moreover have "adjusted ?J sz sz'" using sz'(2) True unfolding adjusted_def by (auto simp: subset_iff) (metis Suc_lessI)
    ultimately show ?thesis by blast
  next
    case False
    then have e: "int sz + 1 \<noteq> e" "int (Suc sz) \<notin> key_index ` fst ` stored t" by (auto simp: index_keys_def)
    obtain s where s: "luaH_getnum t (int sz + 1) = Inr s" "slot_value t s \<noteq> None \<longleftrightarrow> int (Suc sz) \<in> key_index ` fst ` stored t"
      using getnum_nil [OF inv, of sz] Suc.prems(3) by auto
    then have "adjust_loop (Suc fuel) t tbound e sz = Inr sz" using e by (simp add: bindE_def)
    then show ?thesis using False by (auto simp: adjusted_def)
  qed
qed simp

lemma adjustasize_spec:
  assumes inv: "tab_inv ts_hash t" and sz: "sz \<le> 2 ^ 30"
  shows "\<exists>sz'. adjustasize t sz ek = Inr sz' \<and> adjusted (index_keys t (ek_index ek)) sz sz'"
proof -
  let ?J = "index_keys t (ek_index ek)"
  note h = tab_invD(1) [OF inv]
  have nodes: "length (lt_node t) \<le> sizenode t" "sizenode t \<le> MAXSIZE"
    using h by (auto simp: hash_inv_def sizenode_def MAXSIZE_def is_dummy_def split: if_splits)
  have c: "card {j \<in> ?J. sz < j} \<le> sizearray t + sizenode t + 1"
  proof -
    have "card {j \<in> ?J. sz < j} \<le> card ?J" by (rule card_mono) (use finite_index_keys [OF inv] in auto)
    then show ?thesis using card_index_keys [OF inv, of "ek_index ek"] card_stored [OF inv] nodes(1) by linarith
  qed
  have tb: "(\<not> is_dummy t \<or> sz < sizearray t) \<or> (\<forall>j. sz < j \<and> j \<in> ?J \<longrightarrow> int j = ek_index ek)"
  proof (cases "\<not> is_dummy t \<or> sz < sizearray t")
    case False
    then have "stored t = array_pairs (lt_array t)" "sizearray t \<le> sz" by (auto simp: stored_def entries_def is_dummy_def)
    then have "\<forall>j. sz < j \<and> j \<in> ?J \<longrightarrow> int j = ek_index ek"
      using array_pairs_index(2) [OF tab_invD(2) [OF inv]] by (force simp: index_keys_def)
    then show ?thesis by blast
  qed blast
  have "sz + card {j \<in> ?J. sz < j} + 1 < 2 ^ 31" using c sz nodes(2) tab_invD(2) [OF inv] by (simp add: MAXSIZE_value)
  then show ?thesis unfolding adjustasize_def using c by (intro adjust_loop_spec [OF inv tb]) auto
qed

section \<open>The counts of a rehash\<close>

lemma arr_list_slots:
  assumes "i + length vs \<le> MAXSIZE"
  shows "int_keys (map fst (arr_list i vs)) = filter (\<lambda>j. vs ! (j - 1 - i) \<noteq> None) [Suc i..<Suc i + length vs]"
  using assms
proof (induction i vs rule: arr_list.induct)
  case (2 i vs)
  have "[Suc i..<Suc i + length (None # vs)] = Suc i # [Suc (Suc i)..<Suc (Suc i) + length vs]" by (simp add: upt_conv_Cons del: upt_Suc)
  moreover have "filter (\<lambda>j. (None # vs) ! (j - 1 - i) \<noteq> None) [Suc (Suc i)..<Suc (Suc i) + length vs]
    = filter (\<lambda>j. vs ! (j - 1 - Suc i) \<noteq> None) [Suc (Suc i)..<Suc (Suc i) + length vs]"
    by (rule filter_cong) (auto simp: nth_Cons' )
  ultimately show ?case using 2 by simp
next
  case (3 i v vs)
  have "[Suc i..<Suc i + length (Some v # vs)] = Suc i # [Suc (Suc i)..<Suc (Suc i) + length vs]" by (simp add: upt_conv_Cons del: upt_Suc)
  moreover have "filter (\<lambda>j. (Some v # vs) ! (j - 1 - i) \<noteq> None) [Suc (Suc i)..<Suc (Suc i) + length vs]
    = filter (\<lambda>j. vs ! (j - 1 - Suc i) \<noteq> None) [Suc (Suc i)..<Suc (Suc i) + length vs]"
    by (rule filter_cong) (auto simp: nth_Cons')
  moreover have "int_keys (num_key (Suc i) # ks) = Suc i # int_keys ks" for ks
    using 3(2) num_key_index [of "Suc i"] by (simp add: int_keys_def MAXSIZE_value)
  ultimately show ?case using 3 by simp
qed (simp add: int_keys_def)

lemma used_slots_keys: "sizearray t \<le> MAXSIZE \<Longrightarrow> used_slots t 1 = int_keys (map fst (arr_list 0 (lt_array t)))"
  using arr_list_slots [of 0 "lt_array t"] by (simp add: used_slots_def del: upt_Suc)

lemma int_keys_set: "set (int_keys ks) = {j. 1 \<le> j \<and> j \<le> MAXSIZE \<and> int j \<in> key_index ` set ks}"
proof -
  have "j \<in> set (int_keys ks) \<longleftrightarrow> 1 \<le> j \<and> j \<le> MAXSIZE \<and> int j \<in> key_index ` set ks" for j
  proof
    assume "1 \<le> j \<and> j \<le> MAXSIZE \<and> int j \<in> key_index ` set ks"
    then obtain k where "k \<in> set ks" "key_index k = int j" "1 \<le> j" "j \<le> MAXSIZE" by auto
    then have "k \<in> set (filter (\<lambda>k. 0 < key_index k \<and> key_index k \<le> int MAXSIZE) ks)" "(nat \<circ> key_index) k = j" by auto
    then show "j \<in> set (int_keys ks)" unfolding int_keys_def set_map by blast
  qed (force simp: int_keys_def)
  then show ?thesis by blast
qed

lemma int_keys_distinct: "distinct (map norm_key ks) \<Longrightarrow> distinct (int_keys ks)"
proof (induction ks)
  case (Cons k ks)
  have "nat (key_index k) \<notin> set (int_keys ks)" if "0 < key_index k"
  proof
    assume "nat (key_index k) \<in> set (int_keys ks)"
    then obtain k' where k': "k' \<in> set ks" "key_index k' = key_index k" using that by (auto simp: int_keys_set split: if_splits)
    then have "norm_key k' = norm_key k" using norm_index_key [of k] norm_index_key [of k'] that by metis
    then show False using Cons.prems k'(1) by (metis distinct.simps(2) image_eqI list.map(2) list.set_map)
  qed
  moreover have "int_keys (k # ks) = (if 0 < key_index k \<and> key_index k \<le> int MAXSIZE then [nat (key_index k)] else []) @ int_keys ks"
    by (simp add: int_keys_def)
  ultimately show ?case using Cons by auto
qed (simp add: int_keys_def)

text \<open>The keys a rehash counts, the extra key included.\<close>

definition counted_keys :: "'v ltable \<Rightarrow> lkey \<Rightarrow> lkey list" where
  "counted_keys t ek = map fst (arr_list 0 (lt_array t)) @ map fst (node_list (rev (lt_node t))) @ [ek]"

lemma counted_keys_distinct:
  assumes "tab_inv ts_hash t" "norm_key ek \<notin> fst ` stored t"
  shows "distinct (map norm_key (counted_keys t ek))"
proof -
  have *: "norm_key \<circ> fst = fst \<circ> norm_pair" by (auto simp: norm_pair_def fun_eq_iff)
  have "distinct (map (norm_key \<circ> fst) (all_pairs t))" by (rule all_pairs_distinct [OF assms(1)])
  moreover have "norm_key ek \<notin> set (map (norm_key \<circ> fst) (all_pairs t))"
    using assms(2) unfolding stored_all_pairs [OF assms(1), symmetric] * by (metis image_comp list.set_map)
  ultimately show ?thesis by (auto simp: counted_keys_def all_pairs_def node_list_rev rev_map [symmetric] image_comp)
qed

lemma counted_keys_index:
  assumes "tab_inv ts_hash t"
  shows "set (int_keys (counted_keys t ek)) = {j \<in> index_keys t (key_index ek). j \<le> MAXSIZE}"
proof -
  have "set (counted_keys t ek) = insert ek (fst ` set (all_pairs t))" by (auto simp: counted_keys_def all_pairs_def node_list_rev)
  then have "key_index ` set (counted_keys t ek) = insert (key_index ek) (key_index ` fst ` stored t)"
    unfolding stored_all_pairs [OF assms, symmetric] by (simp add: image_image norm_pair_def)
  then show ?thesis unfolding int_keys_set index_keys_def by auto
qed

lemma counted_upto:
  assumes "tab_inv ts_hash t" "norm_key ek \<notin> fst ` stored t" "n \<le> MAXSIZE"
  shows "upto_count (int_keys (counted_keys t ek)) n = card {j \<in> index_keys t (key_index ek). j \<le> n}"
proof -
  let ?js = "int_keys (counted_keys t ek)"
  have d: "distinct ?js" by (rule int_keys_distinct [OF counted_keys_distinct [OF assms(1,2)]])
  have "upto_count ?js n = card (set (filter (\<lambda>j. j \<le> n) ?js))" unfolding upto_count_def by (rule distinct_card [symmetric]) (use d in simp)
  also have "set (filter (\<lambda>j. j \<le> n) ?js) = {j \<in> index_keys t (key_index ek). j \<le> n}"
    using assms(3) by (auto simp: counted_keys_index [OF assms(1)])
  finally show ?thesis .
qed

lemma all_pairs_card:
  assumes "tab_inv ts_hash t"
  shows "length (all_pairs t) = card (stored t)"
proof -
  have "distinct (map norm_pair (all_pairs t))" using all_pairs_distinct [OF assms] by (auto simp: distinct_map inj_on_def norm_pair_def)
  from distinct_card [OF this] show ?thesis by (simp add: stored_all_pairs [OF assms])
qed

lemma node_values_live:
  assumes "hash_inv ts_hash t" "n \<in> set (lt_node t)" "n_val n \<noteq> None"
  shows "\<exists>k. n_key n = LiveKey k"
proof -
  obtain i where i: "i < length (lt_node t)" "lt_node t ! i = n" using assms(2) by (auto simp: in_set_conv_nth)
  then have "\<not> is_dummy t" by (auto simp: is_dummy_def)
  from node_inv_value_key [OF hash_invD(2) [OF assms(1) this] i(1)] i(2) assms(3) show ?thesis by metis
qed

lemma rehash_counts:
  assumes "tab_inv ts_hash t"
  shows "rehash nk t ek = bindE (computesizes (slices (int_keys (counted_keys t ek))) (length (int_keys (counted_keys t ek)))) (\<lambda>(nasize, na).
         let nh = int (card (stored t) + 1) - int na
         in bindE (adjustasize t nasize (Some ek)) (\<lambda>nadjusted.
            let aextra = nadjusted - nasize
            in if aextra \<noteq> 0
               then bindE (adjustasize t (nadjusted + aextra) (Some ek)) (\<lambda>nasize.
                      if nh - int aextra < 0 then Inl AssertFailed else resize nk t nasize (nat (nh - int aextra)))
               else if nh < 0 then Inl AssertFailed else resize nk t nasize (nat nh)))"
proof -
  note sz = tab_invD(2) [OF assms]
  define us hs es where "us = int_keys (map fst (arr_list 0 (lt_array t)))" and "hs = int_keys (map fst (node_list (rev (lt_node t))))" and "es = int_keys [ek]"
  have js: "int_keys (counted_keys t ek) = us @ hs @ es" by (simp add: counted_keys_def int_keys_append us_def hs_def es_def)
  have len: "length (slices xs) = MAXBITS + 1" for xs by (simp add: slices_def)
  have ap: "add_slices (slices xs) ys = slices (xs @ ys)" for xs ys unfolding add_slices_zero [symmetric] by (rule add_slices_append)
  have a: "numusearray t (replicate (MAXBITS + 1) 0) = (length us, slices us)"
    unfolding us_def using numusearray_spec [OF sz] used_slots_keys [OF sz] by simp
  have h: "numusehash t (slices us) = (length (node_list (lt_node t)), length hs, slices (us @ hs))"
    unfolding numusehash_def hs_def using numusehash_from_spec [OF len, of "rev (lt_node t)"] node_values_live [OF tab_invD(1) [OF assms]] by (auto simp: ap node_list_rev)
  have e: "(case ek of KNumber n \<Rightarrow> countint n (slices (us @ hs)) | _ \<Rightarrow> (0, slices (us @ hs))) = (length es, slices (us @ hs @ es))"
    using countint_spec [OF len] int_keys_other [of ek] by (cases ek) (simp_all add: es_def ap)
  have ul: "length us = length (arr_list 0 (lt_array t))"
  proof -
    have "0 < key_index k \<and> key_index k \<le> int MAXSIZE" if "(k, v) \<in> set (arr_list 0 (lt_array t))" for k v
      using arr_list_index(1,2) [OF that] sz by simp
    then have "filter (\<lambda>k. 0 < key_index k \<and> key_index k \<le> int MAXSIZE) (map fst (arr_list 0 (lt_array t))) = map fst (arr_list 0 (lt_array t))"
      by (intro filter_True) auto
    then show ?thesis by (simp add: us_def int_keys_def)
  qed
  have tot: "length us + length (node_list (lt_node t)) + 1 = card (stored t) + 1"
    using all_pairs_card [OF assms] ul by (simp add: all_pairs_def)
  show ?thesis unfolding rehash_def js a h e Let_def case_prod_conv tot by (simp add: add.assoc)
qed

section \<open>Rehash\<close>

lemma hash_need_count:
  assumes inv: "tab_inv ts_hash t" and ek: "norm_key ek \<notin> fst ` stored t"
  shows "hash_need m t + card {j \<in> index_keys t (key_index ek). j \<le> m} = card (stored t) + (if outside m ek then 0 else 1)"
proof -
  define In where "In = {p \<in> stored t. \<not> outside m (fst p)}"
  note f = finite_stored [OF inv]
  have "stored t = {p \<in> stored t. outside m (fst p)} \<union> In" unfolding In_def by blast
  then have "card (stored t) = card ({p \<in> stored t. outside m (fst p)} \<union> In)" by simp
  also have "\<dots> = hash_need m t + card In" unfolding hash_need_def using f by (intro card_Un_disjoint) (auto simp: In_def)
  finally have c: "card (stored t) = hash_need m t + card In" .
  have "inj_on (nat \<circ> key_index \<circ> fst) In"
  proof (rule inj_onI)
    fix p q assume p: "p \<in> In" and q: "q \<in> In" and e: "(nat \<circ> key_index \<circ> fst) p = (nat \<circ> key_index \<circ> fst) q"
    have "0 < key_index (fst p)" "0 < key_index (fst q)" using p q by (auto simp: In_def outside_def)
    then have pq: "fst p = fst q" using norm_index_key [of "fst p"] norm_index_key [of "fst q"] e by (metis comp_apply)
    have "(fst p, snd p) \<in> stored t" "(fst q, snd q) \<in> stored t" using p q by (simp_all add: In_def)
    then show "p = q" using stored_single [OF inv, of "fst q"] pq by (metis prod_eqI)
  qed
  then have "card In = card ((nat \<circ> key_index \<circ> fst) ` In)" by (rule card_image [symmetric])
  also have "(nat \<circ> key_index \<circ> fst) ` In = {j. 1 \<le> j \<and> j \<le> m \<and> int j \<in> key_index ` fst ` stored t}"
  proof (rule set_eqI, rule iffI)
    fix j assume "j \<in> {j. 1 \<le> j \<and> j \<le> m \<and> int j \<in> key_index ` fst ` stored t}"
    then obtain p where "p \<in> stored t" "key_index (fst p) = int j" "1 \<le> j" "j \<le> m" by auto
    then have "p \<in> In" "(nat \<circ> key_index \<circ> fst) p = j" by (auto simp: In_def outside_def)
    then show "j \<in> (nat \<circ> key_index \<circ> fst) ` In" by blast
  qed (force simp: In_def outside_def)
  finally have ci: "card In = card {j. 1 \<le> j \<and> j \<le> m \<and> int j \<in> key_index ` fst ` stored t}" .
  let ?I = "{j. 1 \<le> j \<and> j \<le> m \<and> int j \<in> key_index ` fst ` stored t}"
  have fI: "finite ?I" by (rule finite_subset [of _ "{..m}"]) auto
  have "card {j \<in> index_keys t (key_index ek). j \<le> m} = card ?I + (if outside m ek then 0 else 1)"
  proof (cases "outside m ek")
    case True
    then have "{j \<in> index_keys t (key_index ek). j \<le> m} = ?I" by (auto simp: index_keys_def outside_def)
    then show ?thesis using True by simp
  next
    case False
    then have j: "1 \<le> key_index ek" "key_index ek \<le> int m" by (auto simp: outside_def)
    have "{j \<in> index_keys t (key_index ek). j \<le> m} = insert (nat (key_index ek)) ?I" using j by (auto simp: index_keys_def)
    moreover have "nat (key_index ek) \<notin> ?I"
    proof
      assume "nat (key_index ek) \<in> ?I"
      then obtain p where p: "p \<in> stored t" "key_index (fst p) = key_index ek" using j by auto
      then have "fst p = norm_key ek" using norm_index_key [of "fst p"] norm_index_key [of ek] j by auto
      then show False using ek p(1) by (metis imageI)
    qed
    ultimately show ?thesis using False fI by simp
  qed
  then show ?thesis using c ci by simp
qed

lemma adjusted_count:
  assumes "adjusted J sz sz'" "finite J" "sz \<le> n" "n \<le> sz'"
  shows "card {j \<in> J. j \<le> n} = card {j \<in> J. j \<le> sz} + (n - sz)"
proof -
  have "{j \<in> J. j \<le> n} = {j \<in> J. j \<le> sz} \<union> {sz<..n}" using assms by (auto simp: adjusted_def)
  then have "card {j \<in> J. j \<le> n} = card {j \<in> J. j \<le> sz} + card {sz<..n}" using assms(2) by (simp only:) (rule card_Un_disjoint, auto)
  then show ?thesis by simp
qed

lemma count_mono: "finite J \<Longrightarrow> m \<le> n \<Longrightarrow> card {j \<in> J. j \<le> m} \<le> card {j \<in> J. j \<le> (n :: nat)}"
  by (rule card_mono) auto

lemma rehash_sizes:
  assumes inv: "tab_inv ts_hash t" and ek: "norm_key ek \<notin> fst ` stored t"
  obtains m h where "\<And>nk. rehash nk t ek = resize nk t m h" "Suc m \<notin> index_keys t (key_index ek)"
    "hash_need m t + (if outside m ek then 1 else 0) \<le> h" "m \<le> 2 * card (stored t) + 3" "h \<le> card (stored t) + 1"
proof -
  let ?J = "index_keys t (key_index ek)" and ?js = "int_keys (counted_keys t ek)"
  let ?cnt = "\<lambda>m. card {j \<in> ?J. j \<le> m}"
  note fJ = finite_index_keys [OF inv, of "key_index ek"]
  have d: "distinct ?js" by (rule int_keys_distinct [OF counted_keys_distinct [OF inv ek]])
  have l: "list_all (\<lambda>j. 1 \<le> j \<and> j \<le> MAXSIZE) ?js" by (simp add: list_all_iff int_keys_set)
  obtain n where n0: "computesizes (slices ?js) (length ?js) = Inr (n, upto_count ?js n)" "n \<le> MAXSIZE" "n \<le> 2 * upto_count ?js n + 1"
    by (rule computesizes_spec [OF d l])
  note n = n0 [unfolded counted_upto [OF inv ek n0(2)]]
  have n30: "n \<le> 2 ^ 30" using n(2) by (simp add: MAXSIZE_value)
  obtain nadj where nadj: "adjustasize t n (Some ek) = Inr nadj" "adjusted ?J n nadj"
    using adjustasize_spec [OF inv n30, of "Some ek"] by (auto simp: key_index_def)
  have le: "n \<le> nadj" using nadj(2) by (simp add: adjusted_def)
  note cadj = adjusted_count [OF nadj(2) fJ le order_refl]
  have cJ: "?cnt m \<le> card (stored t) + 1" for m
  proof -
    have "?cnt m \<le> card ?J" by (rule card_mono) (use fJ in auto)
    then show ?thesis using card_index_keys [OF inv, of "key_index ek"] by linarith
  qed
  define ex where "ex = nadj - n"
  have big: "card (stored t) \<le> 2 ^ 27"
  proof -
    have "length (lt_node t) \<le> MAXSIZE" using tab_invD(1) [OF inv] by (auto simp: hash_inv_def sizenode_def MAXSIZE_def is_dummy_def split: if_splits)
    then show ?thesis using card_stored [OF inv] tab_invD(2) [OF inv] by (simp add: MAXSIZE_value)
  qed
  have "nadj + ex \<le> 2 ^ 30" using n(2) cJ [of nadj] cadj big le by (simp add: ex_def MAXSIZE_value)
  then obtain m' where m': "adjustasize t (nadj + ex) (Some ek) = Inr m'" "adjusted ?J (nadj + ex) m'"
    using adjustasize_spec [OF inv, of "nadj + ex" "Some ek"] by (auto simp: key_index_def)
  define m where "m = (if ex \<noteq> 0 then m' else n)"
  have m: "Suc m \<notin> ?J" "nadj \<le> m" using m' nadj(2) le by (auto simp: m_def adjusted_def ex_def split: if_splits)
  have cm: "?cnt nadj \<le> ?cnt m" by (rule count_mono [OF fJ m(2)])
  have cmx: "m \<le> 2 * ?cnt m + 1"
  proof (cases "ex = 0")
    case False
    have x: "nadj + ex \<le> m'" "m = m'" "nadj = n + ex" using m'(2) False le by (simp_all add: adjusted_def m_def ex_def)
    show ?thesis
      unfolding x(2) using adjusted_count [OF m'(2) fJ x(1) order_refl] count_mono [OF fJ le_add1 [of nadj ex]] cadj [folded ex_def] n(3) x(1,3) by linarith
  qed (use n(3) in \<open>simp add: m_def\<close>)
  define h where "h = card (stored t) + 1 - ?cnt nadj"
  have hi: "int h = int (card (stored t) + 1) - int (?cnt n) - int ex" using cadj cJ [of nadj] le by (simp add: h_def ex_def)
  have "rehash nk t ek = resize nk t m h" for nk
  proof (cases "ex = 0")
    case True
    then have "nat (int (card (stored t) + 1) - int (?cnt n)) = h" "\<not> int (card (stored t) + 1) - int (?cnt n) < 0" "nadj - n = 0" using hi by (auto simp: ex_def)
    then show ?thesis unfolding rehash_counts [OF inv] n(1) using nadj(1) True by (simp add: bindE_def m_def Let_def)
  next
    case False
    then have "nat (int (card (stored t) + 1) - int (?cnt n) - int ex) = h" "\<not> int (card (stored t) + 1) - int (?cnt n) - int ex < 0" "nadj - n = ex" "m = m'"
      using hi by (auto simp: ex_def m_def)
    then show ?thesis unfolding rehash_counts [OF inv] n(1) using nadj(1) m'(1) False
      by (simp only: bindE_def Let_def sum.case prod.case if_True if_False simp_thms)
  qed
  moreover have "hash_need m t + (if outside m ek then 1 else 0) \<le> h"
    using hash_need_count [OF inv ek, of m] cm cJ [of m] by (simp add: h_def split: if_splits)
  moreover have "m \<le> 2 * card (stored t) + 3" using cmx cJ [of m] by simp
  ultimately show thesis using that [of m h] m(1) by (simp add: h_def)
qed

lemma rehash_grows:
  assumes inv: "tab_inv ts_hash t" and ek: "norm_key ek \<notin> fst ` stored t"
  obtains (overflow) "\<And>nk. rehash nk t ek = Inl TableOverflow" "MAXSIZE < 2 * card (stored t) + 3"
    | (grown) t' where "rehash (newkey (Suc d) ts_hash) t ek = Inr t'" "tab_inv ts_hash t'" "stored t' = stored t" "\<not> on_boundary t' ek" "absent (lt_node t') ek"
        "room_for t' ek" "same_meta t t'"
proof -
  obtain m h where r: "\<And>nk. rehash nk t ek = resize nk t m h" "Suc m \<notin> index_keys t (key_index ek)"
    "hash_need m t + (if outside m ek then 1 else 0) \<le> h" "m \<le> 2 * card (stored t) + 3" "h \<le> card (stored t) + 1"
    using rehash_sizes [OF inv ek] by blast
  show thesis
  proof (cases "m > MAXSIZE \<or> h > MAXSIZE")
    case True
    show thesis
    proof (rule overflow)
      show "rehash nk t ek = Inl TableOverflow" for nk :: "'a newkey_fn" using True r(1) by (simp add: resize_def)
      show "MAXSIZE < 2 * card (stored t) + 3" using True r(4,5) by linarith
    qed
  next
    case False
    have m31: "Suc m < 2 ^ 31" using False by (simp add: MAXSIZE_value)
    have e: "int (Suc m) \<noteq> key_index ek" "num_key (Suc m) \<notin> fst ` stored t"
      using r(2) index_stored [OF inv _ m31] by (auto simp: index_keys_def)
    obtain t' where t': "resize (newkey (Suc d) ts_hash) t m h = Inr t'" "tab_inv ts_hash t'" "stored t' = stored t" "sizearray t' = m"
      "used (lt_node t') \<le> hash_need m t" "h \<le> length (lt_node t')" "is_dummy t' = (h = 0)" "same_meta t t'"
      "norm_key ` live_keys (lt_node t') \<subseteq> fst ` stored t"
      using resize_spec [OF inv _ _ e(2), of h d] False r(3) by (metis add_leD1 not_le)
    have "\<not> on_boundary t' ek" using e(1) t'(4) by (auto simp: on_boundary_def)
    moreover have "absent (lt_node t') ek" using t'(9) ek unfolding absent_live image_subset_iff by metis
    moreover have "room_for t' ek"
    proof (cases "outside m ek")
      case True
      then have "hash_need m t < h" using r(3) by simp
      then show ?thesis using t'(5,6,7) hash_invD(1) [OF tab_invD(1) [OF t'(2)]] by (auto simp: room_for_def)
    qed (use t'(4) in \<open>simp add: room_for_def in_array_outside\<close>)
    ultimately show thesis using grown [of t'] t'(1,2,3,8) r(1) by simp
  qed
qed

section \<open>New keys\<close>

text \<open>
  \<open>newkey\<close> rehashes at most once: with a depth of two it never runs out, whatever the table.
\<close>

lemma tab_inv_full:
  assumes inv: "tab_inv ts_hash t" and l: "l \<le> 0" "l < 0 \<longrightarrow> l = lt_lastfree t" "is_dummy t \<or> used (lt_node t) = sizenode t"
  shows "tab_inv ts_hash (t\<lparr>lt_lastfree := l\<rparr>)"
proof -
  let ?t = "t\<lparr>lt_lastfree := l\<rparr>"
  have m: "mainposition ts_hash ?t = mainposition ts_hash t" by (rule mainposition_cong) simp
  have "hash_inv ts_hash ?t"
  proof (cases "is_dummy t")
    case False
    note h = hash_invD [OF tab_invD(1) [OF inv] False]
    have "n_key (lt_node t ! i) \<noteq> NilKey" if "i < sizenode t" for i using used_full [of "lt_node t" i] l(3) False h(1) that by simp
    moreover have "l \<le> 2 ^ lt_lsizenode t" using l(1) by (rule order_trans) simp
    ultimately show ?thesis using tab_invD(1) [OF inv] False m by (simp add: hash_inv_def is_dummy_def sizenode_def)
  qed (use tab_invD(1) [OF inv] l(1) in \<open>simp add: hash_inv_def is_dummy_def\<close>)
  then show ?thesis using inv l(2) by (auto simp: tab_inv_def)
qed

lemma newkey_spec:
  assumes inv: "tab_inv ts_hash t" and key: "valid_key key" "\<not> in_array t key" "absent (lt_node t) key"
  obtains (overflow) "newkey (Suc (Suc d)) ts_hash t key = Inl TableOverflow" "MAXSIZE < 2 * card (stored t) + 3"
    | (new) s t' where "newkey (Suc (Suc d)) ts_hash t key = Inr (s, t')" "tab_inv ts_hash t'" "stored t' = stored t" "slot_for t' key s" "s \<noteq> NilObject" "same_meta t t'"
proof -
  have fresh: "norm_key key \<notin> fst ` stored t'" if "stored t' = stored t" for t'
  proof -
    have "norm_key key \<notin> fst ` array_pairs (lt_array t)"
      using array_pairs_index(1,2) [OF tab_invD(2) [OF inv], of "norm_key key"] key(2) by (auto simp: in_array_def)
    moreover have "norm_key key \<notin> fst ` entries (lt_node t)" using key(3) by (auto simp: absent_def entries_def)
    ultimately show ?thesis using that by (auto simp: stored_def)
  qed
  have grow: thesis if t1: "tab_inv ts_hash t1" "stored t1 = stored t" "same_meta t t1"
    and nk: "newkey (Suc (Suc d)) ts_hash t key = bindE (rehash (newkey (Suc d) ts_hash) t1 key) (\<lambda>t. arrayornewkey (newkey (Suc d) ts_hash) t key)" for t1
  proof (cases rule: rehash_grows [OF t1(1) fresh [OF t1(2)], where d = d])
    case 1
    then show thesis using overflow nk t1(2) by (simp add: bindE_def)
  next
    case (2 t')
    obtain s t2 where "arrayornewkey (newkey (Suc d) ts_hash) t' key = Inr (s, t2)" "tab_inv ts_hash t2" "stored t2 = stored t'" "slot_for t2 key s" "s \<noteq> NilObject" "frame t' t2"
      using arrayornewkey_spec [OF 2(2) key(1) 2(5,4,6), of d] by metis
    moreover from this have "same_meta t t2" using same_meta_trans [OF same_meta_trans [OF t1(3) 2(7)] same_meta_frame] by blast
    ultimately show thesis using new [of s t2] nk 2 t1(2) by (simp add: bindE_def)
  qed
  note unf = newkey.simps(2) [of "Suc d" ts_hash t key, unfolded Let_def boundary_key [OF tab_invD(2) [OF inv]]]
  show thesis
  proof (cases "on_boundary t key")
    case True
    then show thesis using grow [OF inv refl] unf by (simp add: same_meta_def)
  next
    case False
    show thesis
    proof (cases rule: place_key_spec [OF tab_invD(1) [OF inv] key(1,3)])
      case (1 l)
      have "tab_inv ts_hash (t\<lparr>lt_lastfree := l\<rparr>)" by (rule tab_inv_full [OF inv 1(3,2,4)])
      then show thesis using grow [of "t\<lparr>lt_lastfree := l\<rparr>"] unf False 1(1) by (simp add: same_meta_def stored_def bindE_def)
    next
      case (2 n t')
      note p = placed_tab [OF inv 2(2) key(2) False]
      show thesis using new [of "NodeSlot n" t'] unf False 2(1) p same_meta_frame [OF p(4)] by (simp add: bindE_def)
    qed
  qed
qed

end
