(* ===== verification/LuaTableOps.thy ===== *)
theory LuaTableOps
  imports LuaTableRehash
begin

text \<open>
  The operations of a table as the rest of the VM uses them: a table behaves as a finite map on keys
  up to raw equality, whatever sequence of assignments built it.
\<close>

section \<open>Looking up a value\<close>

definition table_get :: "(u64 \<Rightarrow> u32) \<Rightarrow> 'v ltable \<Rightarrow> lkey option \<Rightarrow> lt_error + 'v option" where
  "table_get ts_hash t key = map_sum id (slot_value t) (luaH_get ts_hash t key)"

definition table_set :: "(u64 \<Rightarrow> u32) \<Rightarrow> 'v ltable \<Rightarrow> lkey option \<Rightarrow> 'v option \<Rightarrow> lt_error + 'v ltable" where
  "table_set ts_hash t key v = bindE (luaH_set ts_hash t key) (\<lambda>(s, t). Inr (setobj s v t))"

definition lookup :: "'v ltable \<Rightarrow> lkey \<Rightarrow> 'v option" where
  "lookup t key = map_of (map norm_pair (all_pairs t)) (norm_key key)"

lemma lookup_iff:
  assumes "tab_inv ts_hash t"
  shows "lookup t key = Some v \<longleftrightarrow> (norm_key key, v) \<in> stored t"
proof -
  have *: "fst \<circ> norm_pair = norm_key \<circ> fst" by (auto simp: norm_pair_def fun_eq_iff)
  have "distinct (map fst (map norm_pair (all_pairs t)))" using all_pairs_distinct [OF assms] by (simp add: *)
  from map_of_eq_Some_iff [OF this] show ?thesis unfolding lookup_def stored_all_pairs [OF assms, symmetric] by simp
qed

lemma slot_lookup:
  assumes "tab_inv ts_hash t" "slot_for t key s"
  shows "slot_value t s = lookup t key"
  using slot_for_value [OF assms] lookup_iff [OF assms(1)] by (metis option.exhaust)

lemma lookup_upd:
  assumes "tab_inv ts_hash t" "tab_inv ts_hash t'" "stored t' = upd_pairs (stored t) (norm_key key) v"
  shows "lookup t' k = (if norm_key k = norm_key key then v else lookup t k)"
proof -
  have "lookup t' k = Some w \<longleftrightarrow> (if norm_key k = norm_key key then v else lookup t k) = Some w" for w
    using lookup_iff [OF assms(2)] lookup_iff [OF assms(1)] assms(3) by (auto simp: upd_pairs_def split: option.splits)
  then show ?thesis by (metis option.exhaust)
qed

lemma table_get_spec:
  assumes "tab_inv ts_hash t"
  shows "table_get ts_hash t (Some key) = Inr (if valid_key key then lookup t key else None)" "table_get ts_hash t None = Inr None"
proof -
  show "table_get ts_hash t (Some key) = Inr (if valid_key key then lookup t key else None)"
  proof (cases "valid_key key")
    case True
    then show ?thesis using luaH_get_spec [OF assms True] slot_lookup [OF assms] by (auto simp: table_get_def)
  qed (use luaH_get_nan [OF assms] in \<open>simp add: table_get_def\<close>)
qed (simp add: table_get_def)

section \<open>Assigning a value\<close>

lemma tmcache_inv [simp]: "tab_inv ts_hash (invalidateTMcache t) = tab_inv ts_hash t" "stored (invalidateTMcache t) = stored t"
  "slot_for (invalidateTMcache t) key s = slot_for t key s" "in_array (invalidateTMcache t) = in_array t"
  "lt_node (invalidateTMcache t) = lt_node t" "lt_array (invalidateTMcache t) = lt_array t"
proof -
  have "mainposition ts_hash (invalidateTMcache t) = mainposition ts_hash t" by (rule mainposition_cong) (simp add: invalidateTMcache_def)
  then show "tab_inv ts_hash (invalidateTMcache t) = tab_inv ts_hash t"
    by (simp add: tab_inv_def hash_inv_def is_dummy_def sizenode_def invalidateTMcache_def)
qed (auto simp: stored_def slot_for_def in_array_def is_dummy_def sizenode_def invalidateTMcache_def fun_eq_iff)

definition few_pairs :: "'v ltable \<Rightarrow> bool" where
  "few_pairs t \<longleftrightarrow> 2 * card (stored t) + 3 \<le> MAXSIZE"

text \<open>What every operation that returns a slot for writing guarantees.\<close>

definition set_ok :: "(u64 \<Rightarrow> u32) \<Rightarrow> 'v ltable \<Rightarrow> lkey \<Rightarrow> lt_error + slot \<times> 'v ltable \<Rightarrow> bool" where
  "set_ok ts_hash t key r \<longleftrightarrow>
     (case r of
        Inl e \<Rightarrow> e = TableOverflow \<and> \<not> few_pairs t
      | Inr (s, t') \<Rightarrow> tab_inv ts_hash t' \<and> stored t' = stored t \<and> slot_for t' key s \<and> s \<noteq> NilObject
          \<and> lt_metatable t' = lt_metatable t \<and> lt_readonly t' = lt_readonly t \<and> lt_safeenv t' = lt_safeenv t)"

lemma newkey_ok:
  assumes inv: "tab_inv ts_hash t" and key: "valid_key key" and nil: "slot_for t key NilObject"
  shows "set_ok ts_hash t key (newkey rehash_depth ts_hash t key)"
proof -
  have k: "\<not> in_array t key" "absent (lt_node t) key" using nil by (auto simp: slot_for_def split: if_splits)
  have d: "rehash_depth = Suc (Suc 0)" by (simp add: rehash_depth_def)
  show ?thesis unfolding d
    by (cases rule: newkey_spec [OF inv key k, of 0]) (auto simp: set_ok_def few_pairs_def same_meta_def)
qed

lemma luaH_newkey_valid: "valid_key key \<Longrightarrow> luaH_newkey ts_hash t (Some key) = newkey rehash_depth ts_hash t key"
  by (cases key) (auto simp: luaH_newkey_def)

lemma set_ok_cache: "set_ok ts_hash (invalidateTMcache t) key r = set_ok ts_hash t key r"
  by (auto simp: set_ok_def few_pairs_def split: sum.splits) (auto simp: invalidateTMcache_def)

lemma found_ok:
  assumes "tab_inv ts_hash t" "slot_for t key s" "s \<noteq> NilObject"
  shows "set_ok ts_hash t key (Inr (s, t))" "set_ok ts_hash t key (Inr (s, invalidateTMcache t))"
  using assms by (auto simp: set_ok_def) (auto simp: invalidateTMcache_def)

lemma luaH_set_ok:
  assumes inv: "tab_inv ts_hash t" and key: "valid_key key"
  shows "set_ok ts_hash t key (luaH_set ts_hash t (Some key))"
proof -
  obtain s where s: "luaH_get ts_hash t (Some key) = Inr s" "slot_for t key s" using luaH_get_spec [OF inv key] by blast
  show ?thesis
  proof (cases "s = NilObject")
    case True
    then have "slot_for (invalidateTMcache t) key NilObject" using s(2) by simp
    then have "set_ok ts_hash (invalidateTMcache t) key (newkey rehash_depth ts_hash (invalidateTMcache t) key)" using inv key by (intro newkey_ok) auto
    then show ?thesis using s True by (simp add: luaH_set_def bindE_def luaH_newkey_valid [OF key] set_ok_cache)
  qed (use s found_ok(2) [OF inv s(2)] in \<open>simp add: luaH_set_def bindE_def\<close>)
qed

lemma luaH_setnum_ok:
  assumes inv: "tab_inv ts_hash t" and key: "- (2 ^ 31) \<le> i" "i < 2 ^ 31"
  shows "set_ok ts_hash t (KNumber (cast_num i)) (luaH_setnum ts_hash t i)"
proof (cases "1 \<le> i \<and> i \<le> int (sizearray t)")
  case True
  then have "slot_for t (KNumber (cast_num i)) (ArraySlot (nat i - 1))" using key by (simp add: slot_for_def in_array_def arrayindex_cast_num)
  then show ?thesis using True found_ok(1) [OF inv] by (simp add: luaH_setnum_def)
next
  case False
  let ?t = "invalidateTMcache t"
  have inv': "tab_inv ts_hash ?t" using inv by simp
  have v: "valid_key (KNumber (cast_num i))" using cast_num_not_nan [of i] key by auto
  obtain s where s: "luaH_getnum ?t i = Inr s" "slot_for ?t (KNumber (cast_num i)) s" using luaH_getnum_spec [OF inv' key] by blast
  have "set_ok ts_hash ?t (KNumber (cast_num i)) (if s \<noteq> NilObject then Inr (s, ?t) else newkey rehash_depth ts_hash ?t (KNumber (cast_num i)))"
    using found_ok(1) [OF inv' s(2)] newkey_ok [OF inv' v] s(2) by auto
  moreover have "luaH_setnum ts_hash t i = (if s \<noteq> NilObject then Inr (s, ?t) else newkey rehash_depth ts_hash ?t (KNumber (cast_num i)))"
    using False s(1) unfolding luaH_setnum_def by (auto simp: bindE_def)
  ultimately show ?thesis by (simp add: set_ok_cache)
qed

lemma luaH_setp_ok:
  assumes inv: "tab_inv ts_hash t"
  shows "set_ok ts_hash t (KLightUserdata p tag) (luaH_setp ts_hash t p tag)"
proof -
  obtain s where s: "luaH_getp t p tag = Inr s" "slot_for t (KLightUserdata p tag) s" using luaH_getp_spec [OF inv] by blast
  show ?thesis
  proof (cases "s = NilObject")
    case True
    then have "set_ok ts_hash (invalidateTMcache t) (KLightUserdata p tag) (newkey rehash_depth ts_hash (invalidateTMcache t) (KLightUserdata p tag))"
      using inv s(2) by (intro newkey_ok) auto
    then show ?thesis using s True by (simp add: luaH_setp_def bindE_def set_ok_cache)
  qed (use s found_ok(2) [OF inv s(2)] in \<open>simp add: luaH_setp_def bindE_def\<close>)
qed

lemma luaH_newkeystr_ok:
  assumes inv: "tab_inv ts_hash t" and nil: "slot_for t (KString p) NilObject"
  shows "set_ok ts_hash t (KString p) (luaH_newkeystr ts_hash t p)"
proof (cases "\<not> is_dummy t \<and> n_val (gnode t (hashpow2 t (ts_hash p))) = None \<and> n_key (gnode t (hashpow2 t (ts_hash p))) = NilKey")
  case True
  let ?k = "KString p" and ?mp = "mainposition ts_hash t (KString p)"
  have k: "\<not> in_array t ?k" "absent (lt_node t) ?k" "\<not> on_boundary t ?k" using nil by (auto simp: slot_for_def on_boundary_def key_index_def ek_index_def split: if_splits)
  have mp: "n_val (gnode t ?mp) = None" "\<not> is_dummy t" "?mp = hashpow2 t (ts_hash p)" using True by (auto simp: mainposition_def)
  obtain t' where t': "place_key ts_hash t ?k = Inr (Some ?mp, t')" "placed ts_hash t ?k ?mp t'"
    using place_key_in_place [OF tab_invD(1) [OF inv] _ k(2) mp(1,2)] by auto
  then have "setnodekey ?mp ?k t = Inr (Some ?mp, t')" using mp by (simp add: place_key_def Let_def)
  then have "luaH_newkeystr ts_hash t p = Inr (NodeSlot ?mp, t')" using True mp(3) by (simp add: luaH_newkeystr_def bindE_def Let_def)
  moreover note pt = placed_tab [OF inv t'(2) k(1,3)]
  ultimately show ?thesis using same_meta_frame [OF pt(4)] pt by (simp add: set_ok_def same_meta_def)
next
  case False
  then have "luaH_newkeystr ts_hash t p = newkey rehash_depth ts_hash t (KString p)" by (auto simp: luaH_newkeystr_def Let_def)
  then show ?thesis using newkey_ok [OF inv _ nil] by simp
qed

lemma luaH_setstr_ok:
  assumes inv: "tab_inv ts_hash t"
  shows "set_ok ts_hash t (KString p) (luaH_setstr ts_hash t p)"
proof -
  obtain s where s: "luaH_getstr ts_hash t p = Inr s" "slot_for t (KString p) s" using luaH_getstr_spec [OF inv] by blast
  show ?thesis
  proof (cases "s = NilObject")
    case True
    then have "set_ok ts_hash (invalidateTMcache t) (KString p) (luaH_newkeystr ts_hash (invalidateTMcache t) p)"
      using inv s(2) by (intro luaH_newkeystr_ok) auto
    then show ?thesis using s True by (simp add: luaH_setstr_def bindE_def set_ok_cache)
  qed (use s found_ok(2) [OF inv s(2)] in \<open>simp add: luaH_setstr_def bindE_def\<close>)
qed

text \<open>Writing through a slot that such an operation returned.\<close>

definition store_at :: "lt_error + slot \<times> 'v ltable \<Rightarrow> 'v option \<Rightarrow> lt_error + 'v ltable" where
  "store_at r v = bindE r (\<lambda>(s, t). Inr (setobj s v t))"

lemma table_set_store: "table_set ts_hash t key v = store_at (luaH_set ts_hash t key) v"
  by (simp add: table_set_def store_at_def)

lemma store_at_ok:
  assumes "set_ok ts_hash t key r" "tab_inv ts_hash t"
  shows "case store_at r v of Inl e \<Rightarrow> e = TableOverflow \<and> \<not> few_pairs t
    | Inr t' \<Rightarrow> tab_inv ts_hash t' \<and> (\<forall>k. lookup t' k = (if norm_key k = norm_key key then v else lookup t k)) \<and> card (stored t') \<le> card (stored t) + 1"
proof (cases r)
  case (Inl e)
  then show ?thesis using assms by (simp add: store_at_def bindE_def set_ok_def)
next
  case (Inr p)
  obtain s t1 where p: "p = (s, t1)" by (cases p)
  have t1: "tab_inv ts_hash t1" "stored t1 = stored t" "slot_for t1 key s" "s \<noteq> NilObject" using assms Inr p by (simp_all add: set_ok_def)
  note o = setobj_spec [OF t1(1,3,4), of v]
  have "lookup (setobj s v t1) k = (if norm_key k = norm_key key then v else lookup t k)" for k
    by (rule lookup_upd [OF assms(2) o(1)]) (use o(2) t1(2) in simp)
  moreover have "card (stored (setobj s v t1)) \<le> card (stored t) + 1"
  proof -
    have "stored (setobj s v t1) \<subseteq> stored t \<union> (case v of None \<Rightarrow> {} | Some w \<Rightarrow> {(norm_key key, w)})" using o(2) t1(2) by (auto simp: upd_pairs_def)
    moreover have "finite (stored t)" using assms(2) by (rule finite_stored)
    ultimately have "card (stored (setobj s v t1)) \<le> card (stored t \<union> (case v of None \<Rightarrow> {} | Some w \<Rightarrow> {(norm_key key, w)}))" by (intro card_mono) (auto split: option.splits)
    also have "\<dots> \<le> card (stored t) + 1" by (rule order_trans [OF card_Un_le]) (auto split: option.splits)
    finally show ?thesis .
  qed
  ultimately show ?thesis using Inr p o(1) by (simp add: store_at_def bindE_def)
qed

section \<open>The interface of a table\<close>

text \<open>A sequence of assignments, on the implementation and on a map.\<close>

fun run_puts :: "('t \<Rightarrow> 'k \<Rightarrow> 'v option \<Rightarrow> 'e + 't) \<Rightarrow> ('k \<times> 'v option) list \<Rightarrow> 't \<Rightarrow> 'e + 't" where
  "run_puts put [] t = Inr t"
| "run_puts put ((k, v) # ops) t = bindE (put t k v) (run_puts put ops)"

definition spec_puts :: "('k \<Rightarrow> 'c) \<Rightarrow> ('k \<times> 'v option) list \<Rightarrow> ('c \<Rightarrow> 'v option) \<Rightarrow> 'c \<Rightarrow> 'v option" where
  "spec_puts cls ops m = foldl (\<lambda>m (k, v). m(cls k := v)) m ops"

text \<open>
  What the clients of a table rely on: \<open>get\<close> reads and \<open>put\<close> writes one key of a map on classes of keys, and
  \<open>put\<close> fails only with \<open>full\<close> and only on a table with more than \<open>limit\<close> pairs. \<open>inv\<close> is the invariant, \<open>pairs\<close>
  the number of pairs.
\<close>

locale keyed_store =
  fixes inv :: "'t \<Rightarrow> bool" and pairs :: "'t \<Rightarrow> nat" and cls :: "'k \<Rightarrow> 'c" and ok :: "'k \<Rightarrow> bool"
    and get :: "'t \<Rightarrow> 'k \<Rightarrow> 'v option" and put :: "'t \<Rightarrow> 'k \<Rightarrow> 'v option \<Rightarrow> 'e + 't" and full :: 'e and limit :: nat
  assumes put_full: "inv t \<Longrightarrow> ok k \<Longrightarrow> put t k v = Inl e \<Longrightarrow> e = full \<and> limit < pairs t"
    and put_inv: "inv t \<Longrightarrow> ok k \<Longrightarrow> put t k v = Inr t' \<Longrightarrow> inv t'"
    and put_pairs: "inv t \<Longrightarrow> ok k \<Longrightarrow> put t k v = Inr t' \<Longrightarrow> pairs t' \<le> pairs t + 1"
    and get_put: "inv t \<Longrightarrow> ok k \<Longrightarrow> put t k v = Inr t' \<Longrightarrow> ok k' \<Longrightarrow> get t' k' = (if cls k' = cls k then v else get t k')"
begin

lemma puts_refine:
  assumes "inv t" "list_all (\<lambda>p. ok (fst p)) ops" "\<And>k. ok k \<Longrightarrow> get t k = m (cls k)"
  shows "case run_puts put ops t of Inl e \<Rightarrow> e = full \<and> limit < pairs t + length ops
    | Inr t' \<Rightarrow> inv t' \<and> (\<forall>k. ok k \<longrightarrow> get t' k = spec_puts cls ops m (cls k))"
  using assms
proof (induction ops arbitrary: t m)
  case (Cons op ops)
  obtain k v where op: "op = (k, v)" by (cases op)
  have k: "ok k" "list_all (\<lambda>p. ok (fst p)) ops" using Cons.prems op by auto
  show ?case
  proof (cases "put t k v")
    case (Inl e)
    then show ?thesis using put_full [OF Cons.prems(1) k(1) Inl] op by (simp add: bindE_def)
  next
    case (Inr t1)
    have "get t1 k' = (m(cls k := v)) (cls k')" if "ok k'" for k'
      using get_put [OF Cons.prems(1) k(1) Inr that] Cons.prems(3) [OF that] by simp
    from Cons.IH [OF put_inv [OF Cons.prems(1) k(1) Inr] k(2) this]
    show ?thesis using op Inr put_pairs [OF Cons.prems(1) k(1) Inr] by (auto simp: bindE_def spec_puts_def split: sum.splits)
  qed
qed (simp add: spec_puts_def)

end

lemma store_law:
  assumes inv: "tab_inv ts_hash t" and ok: "set_ok ts_hash t key r"
  shows "store_at r v = Inl e \<Longrightarrow> e = TableOverflow \<and> (MAXSIZE - 3) div 2 < card (stored t)"
    "store_at r v = Inr t' \<Longrightarrow> tab_inv ts_hash t'"
    "store_at r v = Inr t' \<Longrightarrow> card (stored t') \<le> card (stored t) + 1"
    "store_at r v = Inr t' \<Longrightarrow> lookup t' k = (if norm_key k = norm_key key then v else lookup t k)"
  using store_at_ok [OF ok inv, of v] by (auto simp: few_pairs_def MAXSIZE_value split: sum.splits)

lemma keyed_table:
  fixes setter :: "'v ltable \<Rightarrow> 'k \<Rightarrow> lt_error + slot \<times> 'v ltable" and cls :: "'k \<Rightarrow> 'c"
  assumes ok: "\<And>t k. tab_inv ts_hash t \<Longrightarrow> ok k \<Longrightarrow> set_ok ts_hash t (emb k) (setter t k)"
    and cls: "\<And>k k'. ok k \<Longrightarrow> ok k' \<Longrightarrow> norm_key (emb k') = norm_key (emb k) \<longleftrightarrow> cls k' = cls k"
  shows "keyed_store (tab_inv ts_hash) (card \<circ> stored) cls ok (\<lambda>t k. lookup t (emb k)) (\<lambda>t k v. store_at (setter t k) v) TableOverflow ((MAXSIZE - 3) div 2)"
proof
  fix t t' :: "'v ltable" and k k' :: 'k and v e
  assume t: "tab_inv ts_hash t" "ok k"
  note law = store_law [OF t(1) ok [OF t], of v]
  show "store_at (setter t k) v = Inl e \<Longrightarrow> e = TableOverflow \<and> (MAXSIZE - 3) div 2 < (card \<circ> stored) t" using law(1) by simp
  assume s: "store_at (setter t k) v = Inr t'"
  show "tab_inv ts_hash t'" by (rule law(2) [OF s])
  show "(card \<circ> stored) t' \<le> (card \<circ> stored) t + 1" using law(3) [OF s] by simp
  assume "ok k'"
  then show "lookup t' (emb k') = (if cls k' = cls k then v else lookup t (emb k'))" using law(4) [OF s, of "emb k'"] cls [OF t(2)] by simp
qed

interpretation any_key: keyed_store "tab_inv ts_hash" "card \<circ> stored" norm_key valid_key lookup
  "\<lambda>t k v. store_at (luaH_set ts_hash t (Some k)) v" TableOverflow "(MAXSIZE - 3) div 2"
  by (rule keyed_table) (auto intro: luaH_set_ok)

interpretation str_key: keyed_store "tab_inv ts_hash" "card \<circ> stored" id "\<lambda>p. True" "\<lambda>t p. lookup t (KString p)"
  "\<lambda>t p v. store_at (luaH_setstr ts_hash t p) v" TableOverflow "(MAXSIZE - 3) div 2"
  by (rule keyed_table) (auto intro: luaH_setstr_ok)

interpretation ptr_key: keyed_store "tab_inv ts_hash" "card \<circ> stored" id "\<lambda>p. True" "\<lambda>t p. lookup t (KLightUserdata (fst p) (snd p))"
  "\<lambda>t p v. store_at (luaH_setp ts_hash t (fst p) (snd p)) v" TableOverflow "(MAXSIZE - 3) div 2"
  by (rule keyed_table) (auto intro: luaH_setp_ok prod_eqI)

lemma norm_int_key:
  assumes "- (2 ^ 31) \<le> i" "i < 2 ^ 31" "- (2 ^ 31) \<le> j" "j < 2 ^ 31"
  shows "norm_key (KNumber (cast_num i)) = norm_key (KNumber (cast_num j)) \<longleftrightarrow> i = j"
  using key_index_num [OF assms(1,2)] key_index_num [OF assms(3,4)] by (metis key_index_norm)

definition int32 :: "int \<Rightarrow> bool" where
  "int32 i \<longleftrightarrow> - (2 ^ 31) \<le> i \<and> i < 2 ^ 31"

interpretation int_key: keyed_store "tab_inv ts_hash" "card \<circ> stored" id int32 "\<lambda>t i. lookup t (KNumber (cast_num i))"
  "\<lambda>t i v. store_at (luaH_setnum ts_hash t i) v" TableOverflow "(MAXSIZE - 3) div 2"
proof (rule keyed_table)
  fix i j assume "int32 i" "int32 j"
  then show "norm_key (KNumber (cast_num j)) = norm_key (KNumber (cast_num i)) \<longleftrightarrow> id j = id i" using norm_int_key [of j i] by (simp add: int32_def)
qed (simp add: luaH_setnum_ok int32_def)

end
