(* ===== verification/LuaTableLaws.thy ===== *)
theory LuaTableLaws
  imports LuaTableOps
begin

text \<open>
  The remaining operations of a table (creation, copies, clearing, removal of dead keys, explicit
  resizing, length) and the properties of every table they can build.
\<close>

section \<open>Creation, copies, clearing\<close>

lemma luaH_new_spec:
  assumes "narray \<le> MAXSIZE" "nhash \<le> MAXSIZE"
  obtains t where "luaH_new narray nhash = Inr t" "tab_inv ts_hash t" "stored t = {}"
proof -
  let ?t = "\<lparr>lt_tmcache = 255, lt_readonly = False, lt_safeenv = False, lt_lsizenode = 0, lt_nodemask8 = 0, lt_lastfree = 0,
    lt_metatable = None, lt_array = [], lt_node = [], lt_arrayptr = 0, lt_nodeptr = 0\<rparr> :: 'a ltable"
  define ta where "ta = (if narray > 0 then ?t\<lparr>lt_array := replicate narray None, lt_arrayptr := 1\<rparr> else ?t)"
  have a: "(if narray > 0 then setarrayvector narray ?t else Inr ?t) = Inr ta" using assms by (simp add: setarrayvector_def ta_def)
  have inv: "tab_inv ts_hash t'" "stored t' = {}"
    if "hash_inv ts_hash t'" "fresh_nodes (lt_node t')" "0 \<le> lt_lastfree t'" "lt_array t' = lt_array ta" for t'
    using that fresh_nodes_facts(1,2) [OF that(2)] assms by (auto simp: tab_inv_def stored_def ta_def array_pairs_def)
  show thesis
  proof (cases "nhash > 0")
    case True
    obtain t1 where t1: "setnodevector nhash ta = Inr t1" "hash_inv ts_hash t1" "fresh_nodes (lt_node t1)" "0 \<le> lt_lastfree t1" "lt_array t1 = lt_array ta"
      using setnodevector_spec [OF assms(2), of ta ts_hash] by metis
    then show thesis using that [of t1] inv [OF t1(2-5)] True a by (simp add: luaH_new_def Let_def bindE_def)
  next
    case False
    have "hash_inv ts_hash ta" by (rule hash_inv_fresh) (simp_all add: ta_def fresh_nodes_def is_dummy_def)
    then have "tab_inv ts_hash ta" "stored ta = {}" by (rule inv; simp add: ta_def fresh_nodes_def)+
    then show thesis using that [of ta] False a by (simp add: luaH_new_def Let_def bindE_def)
  qed
qed

lemma luaH_new_overflow:
  assumes "narray > MAXSIZE \<or> nhash > MAXSIZE"
  shows "luaH_new narray nhash = (Inl TableOverflow :: lt_error + 'a ltable)"
proof (cases "narray > MAXSIZE")
  case True
  then show ?thesis by (simp add: luaH_new_def Let_def bindE_def setarrayvector_def)
next
  case False
  then have n: "nhash > MAXSIZE" using assms by simp
  then have "ceillog2 nhash > MAXBITS" using ceillog2_le_iff [of nhash MAXBITS] by (simp add: MAXSIZE_def)
  then have "setnodevector nhash t = Inl TableOverflow" for t :: "'a ltable" using n by (simp add: setnodevector_def Let_def)
  then show ?thesis using n by (auto simp: luaH_new_def Let_def bindE_def setarrayvector_def)
qed

lemma luaH_clear_spec:
  assumes "tab_inv ts_hash t"
  shows "tab_inv ts_hash (luaH_clear t)" "stored (luaH_clear t) = {}" "sizearray (luaH_clear t) = sizearray t" "length (lt_node (luaH_clear t)) = length (lt_node t)"
proof -
  let ?t = "luaH_clear t"
  note i = tab_invD [OF assms]
  have arr: "lt_array ?t = replicate (sizearray t) None" by (simp add: luaH_clear_def maybesetaboundary_def Let_def)
  have nodes: "lt_node ?t = (if is_dummy t then [] else replicate (sizenode t) luaH_dummynode)" "lt_lsizenode ?t = lt_lsizenode t"
    "is_dummy ?t = is_dummy t" "sizenode ?t = sizenode t" "lt_lastfree ?t = (if is_dummy t then (if lt_lastfree t \<le> 0 then 0 else lt_lastfree t) else int (sizenode t))"
    by (auto simp: luaH_clear_def maybesetaboundary_def Let_def is_dummy_def sizenode_def)
  have f: "fresh_nodes (lt_node ?t)" by (simp add: nodes fresh_nodes_def)
  have "hash_inv ts_hash ?t"
    by (rule hash_inv_fresh [OF f]) (use i(1) in \<open>auto simp: nodes hash_inv_def\<close>)
  then show "tab_inv ts_hash ?t" using i(1,2) fresh_nodes_facts(1) [OF f] by (auto simp: tab_inv_def arr nodes hash_inv_def)
  show "stored ?t = {}" using fresh_nodes_facts(2) [OF f] by (auto simp: stored_def arr array_pairs_def)
  show "sizearray ?t = sizearray t" "length (lt_node ?t) = length (lt_node t)" using i(1) by (auto simp: arr nodes hash_inv_def is_dummy_def)
qed

lemma luaH_clone_spec:
  assumes "tab_inv ts_hash t"
  shows "tab_inv ts_hash (luaH_clone t)" "stored (luaH_clone t) = stored t" "lt_array (luaH_clone t) = lt_array t" "lt_node (luaH_clone t) = lt_node t"
    "lt_metatable (luaH_clone t) = lt_metatable t" "\<not> lt_readonly (luaH_clone t)" "\<not> lt_safeenv (luaH_clone t)"
proof -
  let ?t = "luaH_clone t"
  note i = tab_invD [OF assms]
  show p: "lt_array ?t = lt_array t" "lt_node ?t = lt_node t"
    by (auto simp: luaH_clone_def maybesetaboundary_def Let_def is_dummy_def)
  have ls: "lt_lsizenode ?t = lt_lsizenode t" using i(1) by (auto simp: luaH_clone_def Let_def maybesetaboundary_def is_dummy_def hash_inv_def)
  have lf: "lt_lastfree ?t = (if is_dummy t then (if sizearray t = 0 then 0 else - int (getaboundary t)) else lt_lastfree t)"
    by (auto simp: luaH_clone_def maybesetaboundary_def Let_def is_dummy_def)
  have gb: "getaboundary t \<le> sizearray t" using i(3) by (auto simp: getaboundary_def)
  have m: "mainposition ts_hash ?t = mainposition ts_hash t" by (rule mainposition_cong) (rule ls)
  show "tab_inv ts_hash ?t" using assms gb unfolding tab_inv_def hash_inv_def p m lf ls is_dummy_def sizenode_def by auto
  show "stored ?t = stored t" by (simp add: stored_def p)
  show "lt_metatable ?t = lt_metatable t" "\<not> lt_readonly ?t" "\<not> lt_safeenv ?t"
    by (auto simp: luaH_clone_def maybesetaboundary_def Let_def)
qed

section \<open>Dead keys\<close>

lemma node_inv_dead:
  assumes inv: "node_inv main ns" and i: "i < length ns" "n_val (ns ! i) = None" "n_key (ns ! i) = LiveKey k"
  shows "node_inv main (ns[i := (ns ! i)\<lparr>n_key := DeadKey p\<rparr>])"
proof -
  let ?ns = "ns[i := (ns ! i)\<lparr>n_key := DeadKey p\<rparr>]"
  have l: "same_links ns ?ns" by (rule same_links_update) simp
  have nx: "n_next (?ns ! j) = n_next (ns ! j)" "n_val (?ns ! j) = n_val (ns ! j)" for j by (cases "i = j"; use i(1) in simp)+
  have key: "n_key (?ns ! j) = (if j = i then DeadKey p else n_key (ns ! j))" for j by (cases "i = j") (use i(1) in auto)
  have "node_ok main ?ns j" if "j < length ns" for j
    using node_inv_ok [OF inv that] i unfolding node_ok_def same_links_nxt [OF l] key nx by (cases "j = i") (auto split: tkey.splits)
  moreover have "keys_distinct ?ns" using inv unfolding node_inv_def keys_distinct_def key by auto
  ultimately show ?thesis using inv unfolding node_inv_def same_links_chains [OF l] by simp
qed

lemma removeentry_spec:
  assumes inv: "tab_inv ts_hash t" and n: "i < sizenode t"
  shows "removeentry i t = Inl AssertFailed \<longleftrightarrow> n_val (gnode t i) \<noteq> None"
    "removeentry i t = Inr t' \<Longrightarrow> tab_inv ts_hash t' \<and> stored t' = stored t"
proof -
  show "removeentry i t = Inl AssertFailed \<longleftrightarrow> n_val (gnode t i) \<noteq> None" by (auto simp: removeentry_def split: tkey.splits option.splits)
  assume r: "removeentry i t = Inr t'"
  show "tab_inv ts_hash t' \<and> stored t' = stored t"
  proof (cases "t' = t")
    case False
    then obtain k p where k: "n_val (gnode t i) = None" "n_key (gnode t i) = LiveKey k" "t' = upd_node i (\<lambda>n. n\<lparr>n_key := DeadKey p\<rparr>) t"
      using r by (auto simp: removeentry_def split: if_splits tkey.splits option.splits)
    have nd: "\<not> is_dummy t" using k(2) by (auto simp: gnode_def luaH_dummynode_def split: if_splits)
    note h = hash_invD [OF tab_invD(1) [OF inv] nd]
    let ?ns = "(lt_node t)[i := (lt_node t ! i)\<lparr>n_key := DeadKey p\<rparr>]"
    have k': "i < length (lt_node t)" "n_val (lt_node t ! i) = None" "n_key (lt_node t ! i) = LiveKey k" using k n h(1) by (simp_all add: gnode_eq [OF nd])
    have key: "n_key (?ns ! j) = (if j = i then DeadKey p else n_key (lt_node t ! j))" "n_val (?ns ! j) = n_val (lt_node t ! j)" for j by (cases "i = j"; use k'(1) in simp)+
    have hi: "hash_inv ts_hash (t\<lparr>lt_node := ?ns, lt_lastfree := lt_lastfree t\<rparr>)"
      using h node_inv_dead [OF h(2) k', of p] by (intro hash_inv_replace [OF tab_invD(1) [OF inv] nd]) (auto simp: key)
    have "live_keys ?ns \<subseteq> live_keys (lt_node t)" by (auto simp: live_keys_def key split: if_splits)
    moreover have "entries ?ns = entries (lt_node t)"
    proof -
      have "j < length ?ns \<and> n_key (?ns ! j) = LiveKey q \<and> n_val (?ns ! j) = Some v \<longleftrightarrow> j < length (lt_node t) \<and> n_key (lt_node t ! j) = LiveKey q \<and> n_val (lt_node t ! j) = Some v" for j q v
        using k'(2) by (auto simp: key)
      then show ?thesis unfolding entries_def by simp
    qed
    ultimately show ?thesis using inv hi unfolding k(3) upd_node_def tab_inv_def stored_def by auto
  qed (use inv in simp)
qed

section \<open>Explicit resizing\<close>

lemma node_list_length: "length (node_list ns) \<le> length ns"
  by (induction ns) (auto split: tkey.splits option.splits)

lemma hash_need_node_list:
  assumes "tab_inv ts_hash t" "sizearray t \<le> n"
  shows "hash_need n t \<le> length (node_list (lt_node t))"
proof -
  have "hash_need n t \<le> card (entries (lt_node t))" unfolding hash_need_def
  proof (rule card_mono)
    show "finite (entries (lt_node t))" using finite_stored [OF assms(1)] by (simp add: stored_def)
    show "{p \<in> stored t. outside n (fst p)} \<subseteq> entries (lt_node t)"
      using array_pairs_index(1,2) [OF tab_invD(2) [OF assms(1)]] assms(2) by (force simp: stored_def outside_def)
  qed
  also have "\<dots> \<le> card (set (node_list (lt_node t)))" unfolding node_list_entries [symmetric] by (rule card_image_le) simp
  also have "\<dots> \<le> length (node_list (lt_node t))" by (rule card_length)
  finally show ?thesis .
qed

lemma hash_need_entries: "tab_inv ts_hash t \<Longrightarrow> sizearray t \<le> n \<Longrightarrow> hash_need n t \<le> length (lt_node t)"
  using hash_need_node_list node_list_length le_trans by metis

definition resized :: "(u64 \<Rightarrow> u32) \<Rightarrow> 'v ltable \<Rightarrow> 'v ltable \<Rightarrow> bool" where
  "resized ts_hash t t' \<longleftrightarrow> tab_inv ts_hash t' \<and> stored t' = stored t \<and> same_meta t t'"

lemma luaH_resizearray_spec:
  assumes inv: "tab_inv ts_hash t" and n: "sizearray t \<le> n" "n \<le> 2 ^ 30"
  shows "case luaH_resizearray ts_hash t n of Inl e \<Rightarrow> e = TableOverflow | Inr t' \<Rightarrow> resized ts_hash t t' \<and> n \<le> sizearray t'"
proof -
  obtain m where m: "adjustasize t n None = Inr m" "adjusted (index_keys t (- 1)) n m"
    using adjustasize_spec [OF inv n(2), of None] by (auto simp: ek_index_def)
  let ?h = "if is_dummy t then 0 else sizenode t"
  have r: "luaH_resizearray ts_hash t n = resize (newkey (Suc 1) ts_hash) t m ?h"
    using m(1) unfolding luaH_resizearray_def Let_def bindE_def rehash_depth_def by (simp add: numeral_2_eq_2)
  have h: "?h = length (lt_node t)" "?h \<le> MAXSIZE" using tab_invD(1) [OF inv] by (auto simp: hash_inv_def is_dummy_def sizenode_def MAXSIZE_def)
  have nm: "n \<le> m" "Suc m \<notin> index_keys t (- 1)" using m(2) by (simp_all add: adjusted_def)
  show ?thesis
  proof (cases "m \<le> MAXSIZE")
    case True
    then have m31: "Suc m < 2 ^ 31" by (simp add: MAXSIZE_value)
    have "num_key (Suc m) \<notin> fst ` stored t" using nm(2) index_stored [OF inv _ m31] by (auto simp: index_keys_def)
    moreover have "hash_need m t \<le> ?h" unfolding h(1) by (rule hash_need_entries [OF inv]) (use n(1) nm(1) in simp)
    ultimately obtain t' where "resize (newkey (Suc 1) ts_hash) t m ?h = Inr t'" "tab_inv ts_hash t'" "stored t' = stored t" "sizearray t' = m" "same_meta t t'"
      using resize_spec [OF inv True h(2), of 1] by metis
    then show ?thesis using r nm(1) by (simp add: resized_def)
  qed (use r in \<open>simp add: resize_def\<close>)
qed

lemma luaH_resizehash_spec:
  assumes inv: "tab_inv ts_hash t" and n: "hash_need (sizearray t) t \<le> n"
  shows "case luaH_resizehash ts_hash t n of Inl e \<Rightarrow> e = TableOverflow \<and> MAXSIZE < n | Inr t' \<Rightarrow> resized ts_hash t t' \<and> sizearray t' = sizearray t \<and> n \<le> length (lt_node t')"
proof (cases "n \<le> MAXSIZE")
  case True
  have d: "rehash_depth = Suc 1" by (simp add: rehash_depth_def)
  note i = tab_invD [OF inv]
  have "num_key (Suc (sizearray t)) \<notin> fst ` stored t"
  proof
    assume "num_key (Suc (sizearray t)) \<in> fst ` stored t"
    then obtain v where v: "(num_key (Suc (sizearray t)), v) \<in> stored t" by auto
    have "key_index (num_key (Suc (sizearray t))) = int (sizearray t) + 1" using num_key_index [of "Suc (sizearray t)"] i(2) by (simp add: MAXSIZE_value)
    then show False using v entries_not_in_array [OF inv] array_pairs_index(2) [OF i(2)] unfolding stored_def by fastforce
  qed
  then obtain t' where "resize (newkey (Suc 1) ts_hash) t (sizearray t) n = Inr t'" "tab_inv ts_hash t'" "stored t' = stored t" "sizearray t' = sizearray t"
    "n \<le> length (lt_node t')" "same_meta t t'"
    using resize_spec [OF inv i(2) True _ n, of 1] by metis
  then show ?thesis by (simp add: luaH_resizehash_def d resized_def)
qed (simp add: luaH_resizehash_def resize_def)

section \<open>Length\<close>

lemma boundary_search_spec:
  assumes "base = 0 \<or> arr ! base \<noteq> None" "1 \<le> rest" "base + rest \<le> length arr"
    "arr ! (base + rest - 1) = None \<or> base + rest < length arr \<and> arr ! (base + rest) = None"
  shows "boundary_search arr base rest < length arr \<and> (boundary_search arr base rest = 0 \<or> arr ! boundary_search arr base rest \<noteq> None)
    \<and> (arr ! boundary_search arr base rest \<noteq> None \<longrightarrow> Suc (boundary_search arr base rest) < length arr \<and> arr ! Suc (boundary_search arr base rest) = None)"
  using assms
proof (induction arr base rest rule: boundary_search.induct)
  case (1 arr base rest)
  let ?half = "rest div 2"
  show ?case
  proof (cases "?half = 0")
    case True
    then have r: "rest = 1" using 1(3) by linarith
    then have "boundary_search arr base rest = base" by (subst boundary_search.simps) simp
    then show ?thesis using 1(2-) r by auto
  next
    case False
    define b' where "b' = (if arr ! (base + ?half) = None then base else base + ?half)"
    have eq: "boundary_search arr base rest = boundary_search arr b' (rest - ?half)"
      using False by (subst boundary_search.simps) (simp add: b'_def Let_def)
    have half: "rest - ?half = ?half \<or> rest - ?half = Suc ?half" "?half < rest" using False by linarith+
    have "b' + (rest - ?half) \<le> length arr" "1 \<le> rest - ?half" "b' = 0 \<or> arr ! b' \<noteq> None" using half 1(2,4) by (auto simp: b'_def)
    moreover have "arr ! (b' + (rest - ?half) - 1) = None \<or> b' + (rest - ?half) < length arr \<and> arr ! (b' + (rest - ?half)) = None"
    proof (cases "arr ! (base + ?half) = None")
      case True
      have b: "b' = base" using True by (simp add: b'_def)
      from half(1) show ?thesis
      proof
        assume "rest - ?half = ?half"
        then have "b' + (rest - ?half) = base + ?half" "base + ?half < length arr" using b half(2) 1(4) by linarith+
        then show ?thesis using True by simp
      next
        assume "rest - ?half = Suc ?half"
        then have "b' + (rest - ?half) - 1 = base + ?half" using b by simp
        then show ?thesis using True by simp
      qed
    next
      case nn: False
      then have "b' = base + ?half" unfolding b'_def by (simp only: if_False)
      then have "b' + (rest - ?half) = base + rest" using half(2) by linarith
      then show ?thesis using 1(5) by simp
    qed
    ultimately show ?thesis unfolding eq using 1(1) [OF refl False] b'_def by simp
  qed
qed

text \<open>A border: the key before it is present (or it is 0) and the key after it is absent.\<close>

definition is_border :: "'v ltable \<Rightarrow> nat \<Rightarrow> bool" where
  "is_border t n \<longleftrightarrow> (n = 0 \<or> lookup t (num_key n) \<noteq> None) \<and> lookup t (num_key (Suc n)) = None"

lemma lookup_array:
  assumes inv: "tab_inv ts_hash t"
  shows "1 \<le> n \<Longrightarrow> n \<le> sizearray t \<Longrightarrow> lookup t (num_key n) = lt_array t ! (n - 1)" "lookup t (num_key (Suc (sizearray t))) = None"
proof -
  note i = tab_invD [OF inv]
  show "lookup t (num_key n) = lt_array t ! (n - 1)" if n: "1 \<le> n" "n \<le> sizearray t"
  proof -
    have "key_index (num_key n) = int n" using n i(2) by (intro num_key_index) (simp add: MAXSIZE_value)
    then have "slot_for t (num_key n) (ArraySlot (n - 1))" using n by (simp add: slot_for_def in_array_def)
    from slot_lookup [OF inv this] show ?thesis by simp
  qed
  have k: "key_index (num_key (Suc (sizearray t))) = int (sizearray t) + 1" using num_key_index [of "Suc (sizearray t)"] i(2) by (simp add: MAXSIZE_value)
  show "lookup t (num_key (Suc (sizearray t))) = None"
  proof (rule ccontr)
    assume "lookup t (num_key (Suc (sizearray t))) \<noteq> None"
    then obtain v where "(norm_key (num_key (Suc (sizearray t))), v) \<in> stored t" using lookup_iff [OF inv] by blast
    then show False using entries_not_in_array [OF inv, of "norm_key (num_key (Suc (sizearray t)))" v] array_pairs_index(2) [OF i(2), of "norm_key (num_key (Suc (sizearray t)))" v] k
      by (auto simp: stored_def)
  qed
qed

lemma border_array:
  assumes inv: "tab_inv ts_hash t" and n: "n \<le> sizearray t" "n = 0 \<or> lt_array t ! (n - 1) \<noteq> None" "n < sizearray t \<Longrightarrow> lt_array t ! n = None"
  shows "is_border t n"
proof -
  have "lookup t (num_key (Suc n)) = None"
    using lookup_array(1) [OF inv, of "Suc n"] lookup_array(2) [OF inv] n by (cases "n < sizearray t") auto
  then show ?thesis using lookup_array(1) [OF inv, of n] n by (cases "n = 0") (auto simp: is_border_def)
qed

definition moved_boundary :: "(u64 \<Rightarrow> u32) \<Rightarrow> 'v ltable \<Rightarrow> 'v ltable \<Rightarrow> bool" where
  "moved_boundary ts_hash t t' \<longleftrightarrow> tab_inv ts_hash t' \<and> t' = t\<lparr>lt_lastfree := lt_lastfree t'\<rparr>"

lemma moved_boundary_refl: "tab_inv ts_hash t \<Longrightarrow> moved_boundary ts_hash t t"
  by (simp add: moved_boundary_def)

lemma maybesetaboundary_ok:
  assumes "tab_inv ts_hash t" "b \<le> sizearray t"
  shows "moved_boundary ts_hash t (maybesetaboundary b t)"
proof (cases "lt_lastfree t \<le> 0")
  case True
  let ?t = "t\<lparr>lt_lastfree := - int b\<rparr>"
  note i = tab_invD [OF assms(1)]
  have m: "mainposition ts_hash ?t = mainposition ts_hash t" by (rule mainposition_cong) simp
  have "hash_inv ts_hash ?t"
  proof (cases "is_dummy t")
    case False
    note h = hash_invD [OF i(1) False]
    have "n_key (lt_node t ! j) \<noteq> NilKey" if "j < sizenode t" for j using h(5) [OF that] True by simp
    moreover have "- int b \<le> 2 ^ lt_lsizenode t" by (rule order_trans [of _ 0]) simp_all
    ultimately show ?thesis using i(1) False m by (simp add: hash_inv_def is_dummy_def sizenode_def)
  qed (use i(1) in \<open>simp add: hash_inv_def is_dummy_def\<close>)
  then show ?thesis using True assms by (simp add: maybesetaboundary_def moved_boundary_def tab_inv_def)
qed (use assms in \<open>simp add: maybesetaboundary_def moved_boundary_def\<close>)

lemma getn_search_spec:
  assumes inv: "tab_inv ts_hash t"
  shows "\<exists>n t'. getn_search t = Inr (n, t') \<and> is_border t n \<and> n \<le> sizearray t \<and> moved_boundary ts_hash t t'"
proof (cases "sizearray t > 0 \<and> lt_array t ! (sizearray t - 1) = None")
  case True
  define b where "b = boundary_search (lt_array t) 0 (sizearray t)"
  define n where "n = (if lt_array t ! b \<noteq> None then 1 else 0) + b"
  have b: "b < sizearray t" "b = 0 \<or> lt_array t ! b \<noteq> None" "lt_array t ! b \<noteq> None \<Longrightarrow> Suc b < sizearray t \<and> lt_array t ! Suc b = None"
    using boundary_search_spec [of 0 "lt_array t" "sizearray t"] True by (auto simp: b_def)
  have n: "n \<le> sizearray t" "n = 0 \<or> lt_array t ! (n - 1) \<noteq> None" "n < sizearray t \<Longrightarrow> lt_array t ! n = None"
    using b by (auto simp: n_def)
  have "getn_search t = Inr (n, maybesetaboundary n t)" using True by (simp add: getn_search_def n_def b_def Let_def)
  then show ?thesis using border_array [OF inv n] maybesetaboundary_ok [OF inv n(1)] n(1) by blast
next
  case False
  have bd: "is_border t (sizearray t)" by (rule border_array [OF inv]) (use False in auto)
  obtain s where s: "luaH_getnum t (int (sizearray t) + 1) = Inr s" "slot_value t s = None"
  proof -
    have k: "KNumber (cast_num (int (sizearray t) + 1)) = num_key (Suc (sizearray t))" by (simp add: num_key_def add.commute)
    obtain s where "luaH_getnum t (int (sizearray t) + 1) = Inr s" "slot_for t (KNumber (cast_num (int (sizearray t) + 1))) s"
      using luaH_getnum_spec [OF inv, of "int (sizearray t) + 1"] tab_invD(2) [OF inv] by (auto simp: MAXSIZE_value)
    then show thesis using that slot_lookup [OF inv] lookup_array(2) [OF inv] k by metis
  qed
  have "getn_search t = Inr (sizearray t, t)" using False s by (auto simp: getn_search_def bindE_def Let_def)
  then show ?thesis using bd moved_boundary_refl [OF inv] by blast
qed

lemma moved_boundary_fields:
  assumes "moved_boundary ts_hash t t'"
  shows "lt_array t' = lt_array t" "lt_node t' = lt_node t" "lookup t' = lookup t" "is_border t' = is_border t"
proof -
  obtain l where t': "t' = t\<lparr>lt_lastfree := l\<rparr>" using assms by (auto simp: moved_boundary_def)
  show "lt_array t' = lt_array t" "lt_node t' = lt_node t" "lookup t' = lookup t" by (simp_all add: t' lookup_def all_pairs_def fun_eq_iff)
  then show "is_border t' = is_border t" by (simp add: is_border_def fun_eq_iff)
qed

lemma moved_boundary_trans: "moved_boundary ts_hash t t' \<Longrightarrow> moved_boundary ts_hash t' t'' \<Longrightarrow> moved_boundary ts_hash t t''"
  unfolding moved_boundary_def by (metis ltable.surjective ltable.update_convs(6))

lemma updateaboundary_spec:
  assumes inv: "tab_inv ts_hash t" and b: "0 < b" "b \<le> sizearray t" "updateaboundary t b = (n, t')"
  shows "moved_boundary ts_hash t t'" "0 < n \<Longrightarrow> is_border t n \<and> n \<le> sizearray t" "n = 0 \<Longrightarrow> t' = t"
proof -
  consider (down) "b < sizearray t" "lt_array t ! (b - 1) = None" "b \<ge> 2" "lt_array t ! (b - 2) \<noteq> None" "n = b - 1" "t' = maybesetaboundary (b - 1) t"
    | (up) "b + 1 < sizearray t" "lt_array t ! b \<noteq> None" "lt_array t ! (b + 1) = None" "n = b + 1" "t' = maybesetaboundary (b + 1) t"
    | (none) "n = 0" "t' = t"
  proof (cases "b < sizearray t \<and> lt_array t ! (b - 1) = None")
    case True
    then have u: "updateaboundary t b = (if b \<ge> 2 \<and> lt_array t ! (b - 2) \<noteq> None then (b - 1, maybesetaboundary (b - 1) t) else (0, t))"
      unfolding updateaboundary_def by (simp only: if_True simp_thms)
    show thesis
    proof (cases "b \<ge> 2 \<and> lt_array t ! (b - 2) \<noteq> None")
      case c: True
      then show thesis using down True b(3) u by (metis prod.inject)
    qed (use none u b(3) in \<open>metis prod.inject\<close>)
  next
    case False
    then have u: "updateaboundary t b = (if b + 1 < sizearray t \<and> lt_array t ! b \<noteq> None \<and> lt_array t ! (b + 1) = None then (b + 1, maybesetaboundary (b + 1) t) else (0, t))"
      unfolding updateaboundary_def by (simp only: if_False simp_thms)
    show thesis
    proof (cases "b + 1 < sizearray t \<and> lt_array t ! b \<noteq> None \<and> lt_array t ! (b + 1) = None")
      case c: True
      then show thesis using up b(3) u by (metis prod.inject)
    qed (use none u b(3) in \<open>metis prod.inject\<close>)
  qed
  then have "moved_boundary ts_hash t t' \<and> (0 < n \<longrightarrow> is_border t n \<and> n \<le> sizearray t) \<and> (n = 0 \<longrightarrow> t' = t)"
  proof cases
    case down
    have "b - 1 - 1 = b - 2" by simp
    then have "is_border t (b - 1)" using down b by (intro border_array [OF inv]) auto
    then show ?thesis using down maybesetaboundary_ok [OF inv, of "b - 1"] by simp
  next
    case up
    have "is_border t (b + 1)" using up b by (intro border_array [OF inv]) auto
    then show ?thesis using up maybesetaboundary_ok [OF inv, of "b + 1"] by simp
  next
    case none
    then show ?thesis using moved_boundary_refl [OF inv] by simp
  qed
  then show "moved_boundary ts_hash t t'" "0 < n \<Longrightarrow> is_border t n \<and> n \<le> sizearray t" "n = 0 \<Longrightarrow> t' = t" by auto
qed

lemma luaH_getn_spec:
  assumes inv: "tab_inv ts_hash t"
  shows "\<exists>n t'. luaH_getn t = Inr (n, t') \<and> is_border t n \<and> n \<le> sizearray t \<and> moved_boundary ts_hash t t'"
proof (cases "getaboundary t > 0")
  case True
  let ?b = "getaboundary t"
  have b: "?b \<le> sizearray t" using tab_invD(3) [OF inv] by (auto simp: getaboundary_def)
  have sz: "0 < sizearray t" using True b by linarith
  consider (whole) "lt_array t ! (sizearray t - 1) \<noteq> None" "is_dummy t"
    | (hit) "\<not> (lt_array t ! (sizearray t - 1) \<noteq> None \<and> is_dummy t)" "?b < sizearray t" "lt_array t ! (?b - 1) \<noteq> None" "lt_array t ! ?b = None"
    | (miss) "\<not> (lt_array t ! (sizearray t - 1) \<noteq> None \<and> is_dummy t)" "\<not> (?b < sizearray t \<and> lt_array t ! (?b - 1) \<noteq> None \<and> lt_array t ! ?b = None)"
    by metis
  then show ?thesis
  proof cases
    case whole
    have "is_border t (sizearray t)" using whole by (intro border_array [OF inv]) auto
    moreover have "luaH_getn t = Inr (sizearray t, t)" using True whole by (simp add: luaH_getn_def Let_def)
    ultimately show ?thesis using moved_boundary_refl [OF inv] by blast
  next
    case hit
    have "is_border t ?b" using hit by (intro border_array [OF inv]) auto
    moreover have "luaH_getn t = Inr (?b, t)" using True hit unfolding luaH_getn_def Let_def by simp
    ultimately show ?thesis using moved_boundary_refl [OF inv] b by blast
  next
    case miss
    obtain n t' where u: "updateaboundary t ?b = (n, t')" by (cases "updateaboundary t ?b")
    note us = updateaboundary_spec [OF inv True b u]
    have g: "luaH_getn t = (if n > 0 then Inr (n, t') else getn_search t')" unfolding luaH_getn_def Let_def u using True miss by (simp only: if_True if_False prod.case)
    show ?thesis
    proof (cases "n > 0")
      case True
      then show ?thesis using g us(1,2) by auto
    qed (use g us(3) getn_search_spec [OF inv] in simp)
  qed
qed (use getn_search_spec [OF inv] in \<open>simp add: luaH_getn_def Let_def\<close>)

section \<open>Every table the VM can build\<close>

text \<open>
  The tables that the operations of \<^verbatim>\<open>ltable.cpp\<close> and the collector's \<open>removeentry\<close> can build. The explicit resizes are
  the ones the callers make: \<open>luaH_resizearray\<close> grows, \<open>luaH_resizehash\<close> leaves room for the pairs of the hash part.
\<close>

inductive vm_table :: "(u64 \<Rightarrow> u32) \<Rightarrow> 'v ltable \<Rightarrow> bool" for ts_hash where
  vm_new: "luaH_new narray nhash = Inr t \<Longrightarrow> vm_table ts_hash t"
| vm_set: "vm_table ts_hash t \<Longrightarrow> luaH_set ts_hash t key = Inr (s, t') \<Longrightarrow> vm_table ts_hash (setobj s v t')"
| vm_setnum: "vm_table ts_hash t \<Longrightarrow> int32 i \<Longrightarrow> luaH_setnum ts_hash t i = Inr (s, t') \<Longrightarrow> vm_table ts_hash (setobj s v t')"
| vm_setstr: "vm_table ts_hash t \<Longrightarrow> luaH_setstr ts_hash t p = Inr (s, t') \<Longrightarrow> vm_table ts_hash (setobj s v t')"
| vm_setp: "vm_table ts_hash t \<Longrightarrow> luaH_setp ts_hash t p tag = Inr (s, t') \<Longrightarrow> vm_table ts_hash (setobj s v t')"
| vm_resizearray: "vm_table ts_hash t \<Longrightarrow> sizearray t \<le> n \<Longrightarrow> n \<le> 2 ^ 30 \<Longrightarrow> luaH_resizearray ts_hash t n = Inr t' \<Longrightarrow> vm_table ts_hash t'"
| vm_resizehash: "vm_table ts_hash t \<Longrightarrow> length (node_list (lt_node t)) \<le> n \<Longrightarrow> luaH_resizehash ts_hash t n = Inr t' \<Longrightarrow> vm_table ts_hash t'"
| vm_getn: "vm_table ts_hash t \<Longrightarrow> luaH_getn t = Inr (n, t') \<Longrightarrow> vm_table ts_hash t'"
| vm_clear: "vm_table ts_hash t \<Longrightarrow> vm_table ts_hash (luaH_clear t)"
| vm_clone: "vm_table ts_hash t \<Longrightarrow> vm_table ts_hash (luaH_clone t)"
| vm_remove: "vm_table ts_hash t \<Longrightarrow> i < sizenode t \<Longrightarrow> removeentry i t = Inr t' \<Longrightarrow> vm_table ts_hash t'"

inductive_cases vm_tableE: "vm_table ts_hash t"

lemma set_ok_inv:
  assumes "tab_inv ts_hash t" "set_ok ts_hash t key (Inr (s, t'))"
  shows "tab_inv ts_hash (setobj s v t')"
  using setobj_spec(1) [of ts_hash t' key s v] assms(2) by (simp add: set_ok_def)

lemma luaH_set_errors:
  assumes "tab_inv ts_hash t"
  shows "luaH_set ts_hash t None = Inl IndexNil" "is_nan64 n \<Longrightarrow> luaH_set ts_hash t (Some (KNumber n)) = Inl IndexNaN"
    "is_nan32 x \<or> is_nan32 y \<or> is_nan32 z \<Longrightarrow> luaH_set ts_hash t (Some (KVector x y z)) = Inl IndexVectorNaN"
proof -
  show "luaH_set ts_hash t None = Inl IndexNil" by (simp add: luaH_set_def luaH_newkey_def bindE_def)
  show "luaH_set ts_hash t (Some (KNumber n)) = Inl IndexNaN" if "is_nan64 n"
    using luaH_get_nan [OF assms, of "KNumber n"] that by (simp add: luaH_set_def luaH_newkey_def bindE_def del: luaH_get.simps)
  show "luaH_set ts_hash t (Some (KVector x y z)) = Inl IndexVectorNaN" if "is_nan32 x \<or> is_nan32 y \<or> is_nan32 z"
    using luaH_get_nan [OF assms, of "KVector x y z"] that by (simp add: luaH_set_def luaH_newkey_def bindE_def del: luaH_get.simps)
qed

lemma luaH_set_valid:
  assumes "tab_inv ts_hash t" "luaH_set ts_hash t key = Inr r"
  obtains k where "key = Some k" "valid_key k"
proof (cases key)
  case (Some k)
  have "valid_key k"
  proof (rule ccontr)
    assume "\<not> valid_key k"
    then show False using luaH_set_errors(2,3) [OF assms(1)] assms(2) Some by (cases k) auto
  qed
  then show thesis using that Some by blast
qed (use luaH_set_errors(1) [OF assms(1)] assms(2) in simp)

lemma luaH_new_inv: "luaH_new narray nhash = Inr t \<Longrightarrow> tab_inv ts_hash t"
proof -
  assume n: "luaH_new narray nhash = Inr t"
  then have "narray \<le> MAXSIZE" "nhash \<le> MAXSIZE" using luaH_new_overflow [of narray nhash] by (metis Inl_Inr_False not_le)+
  from luaH_new_spec [OF this] n show ?thesis by (metis sum.inject(2))
qed

lemma luaH_set_inv: "tab_inv ts_hash t \<Longrightarrow> luaH_set ts_hash t key = Inr (s, t') \<Longrightarrow> tab_inv ts_hash (setobj s v t')"
  using luaH_set_valid [of ts_hash t key "(s, t')"] luaH_set_ok [of ts_hash t] set_ok_inv [of ts_hash t] by metis

lemma luaH_setnum_inv:
  assumes "tab_inv ts_hash t" "int32 i" "luaH_setnum ts_hash t i = Inr (s, t')"
  shows "tab_inv ts_hash (setobj s v t')"
proof -
  have "set_ok ts_hash t (KNumber (cast_num i)) (luaH_setnum ts_hash t i)"
    using assms(2) by (intro luaH_setnum_ok [OF assms(1)]) (simp_all add: int32_def)
  then show ?thesis using assms set_ok_inv by metis
qed

lemma luaH_setstr_inv: "tab_inv ts_hash t \<Longrightarrow> luaH_setstr ts_hash t p = Inr (s, t') \<Longrightarrow> tab_inv ts_hash (setobj s v t')"
  using luaH_setstr_ok set_ok_inv by metis

lemma luaH_setp_inv: "tab_inv ts_hash t \<Longrightarrow> luaH_setp ts_hash t p tag = Inr (s, t') \<Longrightarrow> tab_inv ts_hash (setobj s v t')"
  using luaH_setp_ok set_ok_inv by metis

lemma luaH_resizearray_inv: "tab_inv ts_hash t \<Longrightarrow> sizearray t \<le> n \<Longrightarrow> n \<le> 2 ^ 30 \<Longrightarrow> luaH_resizearray ts_hash t n = Inr t' \<Longrightarrow> tab_inv ts_hash t'"
  using luaH_resizearray_spec [of ts_hash t n] by (simp add: resized_def)

lemma luaH_resizehash_inv:
  assumes "tab_inv ts_hash t" "length (node_list (lt_node t)) \<le> n" "luaH_resizehash ts_hash t n = Inr t'"
  shows "tab_inv ts_hash t'"
proof -
  have "hash_need (sizearray t) t \<le> n" by (rule order_trans [OF hash_need_node_list [OF assms(1) order_refl] assms(2)])
  then show ?thesis using luaH_resizehash_spec [OF assms(1), of n] assms(3) by (simp add: resized_def)
qed

lemma luaH_getn_inv: "tab_inv ts_hash t \<Longrightarrow> luaH_getn t = Inr (n, t') \<Longrightarrow> tab_inv ts_hash t'"
  using luaH_getn_spec [of ts_hash t] by (auto simp: moved_boundary_def)

lemma removeentry_inv: "tab_inv ts_hash t \<Longrightarrow> i < sizenode t \<Longrightarrow> removeentry i t = Inr t' \<Longrightarrow> tab_inv ts_hash t'"
  using removeentry_spec(2) by blast

lemmas table_step_inv = luaH_new_inv luaH_set_inv luaH_setnum_inv luaH_setstr_inv luaH_setp_inv luaH_resizearray_inv luaH_resizehash_inv
  luaH_getn_inv luaH_clear_spec(1) luaH_clone_spec(1) removeentry_inv

lemma vm_table_inv: "vm_table ts_hash t \<Longrightarrow> tab_inv ts_hash t"
  by (induction rule: vm_table.induct) (blast intro: table_step_inv)+

section \<open>A table with a collision\<close>

definition demo_hash :: "u64 \<Rightarrow> u32" where
  "demo_hash p = 1"

definition demo_empty :: "nat ltable" where
  "demo_empty = \<lparr>lt_tmcache = 255, lt_readonly = False, lt_safeenv = False, lt_lsizenode = 1, lt_nodemask8 = 1, lt_lastfree = 2,
     lt_metatable = None, lt_array = [None, None], lt_node = [luaH_dummynode, luaH_dummynode], lt_arrayptr = 1, lt_nodeptr = 1\<rparr>"

definition demo_one :: "nat ltable" where
  "demo_one = demo_empty\<lparr>lt_tmcache := 0, lt_array := [Some 7, None],
     lt_node := [luaH_dummynode, \<lparr>n_val = Some 8, n_key = LiveKey (KBoolean True), n_next = 0\<rparr>]\<rparr>"

definition demo_table :: "nat ltable" where
  "demo_table = demo_one\<lparr>lt_lastfree := 0,
     lt_node := [\<lparr>n_val = Some 9, n_key = LiveKey (KString 8), n_next = 0\<rparr>, \<lparr>n_val = Some 8, n_key = LiveKey (KBoolean True), n_next = -1\<rparr>]\<rparr>"

lemma demo_new: "luaH_new 2 2 = Inr demo_empty"
proof -
  have c: "ceillog2 2 = 1" by (simp add: ceillog2_eq bit_length.simps)
  have r: "replicate 2 x = [x, x]" for x :: 'b by (simp add: numeral_2_eq_2)
  show ?thesis by (simp add: luaH_new_def demo_empty_def setarrayvector_def setnodevector_def c r MAXSIZE_value MAXBITS_def bindE_def Let_def)
qed

lemmas demo_simps = demo_empty_def demo_one_def demo_table_def demo_hash_def luaH_set_def luaH_newkey_def get_generic_def find_slot_def sizenode_def gnode_def is_dummy_def
  mainposition_def hashpow2_def bindE_def Let_def keyeq_def luaH_dummynode_def invalidateTMcache_def rehash_depth_def newkey.simps place_key_def
  setnodekey_def upd_node_def getfreepos_def luaH_setnum_def luaH_setstr_def luaH_newkeystr_def luaH_getstr_def chain_node_def numeral_2_eq_2

lemma demo_set_number: "luaH_setnum demo_hash demo_empty 1 = Inr (ArraySlot 0, demo_empty)"
  by (simp add: demo_simps)

lemma demo_set_boolean:
  "\<exists>t. luaH_set demo_hash (setobj (ArraySlot 0) (Some 7) demo_empty) (Some (KBoolean True)) = Inr (NodeSlot 1, t) \<and> setobj (NodeSlot 1) (Some 8) t = demo_one"
  by (simp add: demo_simps)

lemma demo_set_string: "\<exists>t. luaH_setstr demo_hash demo_one 8 = Inr (NodeSlot 0, t) \<and> setobj (NodeSlot 0) (Some 9) t = demo_table"
  by (simp add: demo_simps)

lemma demo_vm_table: "vm_table demo_hash demo_table"
proof -
  have "vm_table demo_hash demo_empty" by (rule vm_new [OF demo_new])
  then have "vm_table demo_hash (setobj (ArraySlot 0) (Some 7) demo_empty)" by (rule vm_setnum [OF _ _ demo_set_number]) (simp add: int32_def)
  then have "vm_table demo_hash demo_one" using demo_set_boolean vm_set by metis
  then show ?thesis using demo_set_string vm_setstr by metis
qed

section \<open>Properties of tables\<close>

text \<open>The invariant that \<^verbatim>\<open>ltable.cpp\<close> documents: a key outside its main position collides with one that is in its own.\<close>

definition brent :: "(u64 \<Rightarrow> u32) \<Rightarrow> 'v ltable \<Rightarrow> bool" where
  "brent ts_hash t \<longleftrightarrow> list_all (\<lambda>i.
     case n_key (lt_node t ! i) of
       LiveKey k \<Rightarrow> mainposition ts_hash t k = i \<or>
         (case n_key (lt_node t ! mainposition ts_hash t k) of LiveKey k' \<Rightarrow> mainposition ts_hash t k' = mainposition ts_hash t k | _ \<Rightarrow> True)
     | _ \<Rightarrow> True) [0..<length (lt_node t)]"

text \<open>The boundary is in the array part: the hash part never holds the key right after the array part.\<close>

definition boundary_inside :: "'v ltable \<Rightarrow> bool" where
  "boundary_inside t \<longleftrightarrow> list_all (\<lambda>n. case n_key n of LiveKey k \<Rightarrow> \<not> (1 \<le> key_index k \<and> key_index k \<le> int (sizearray t) + 1) | _ \<Rightarrow> True) (lt_node t)"

lemma tab_inv_documented:
  assumes "tab_inv ts_hash t"
  shows "brent ts_hash t" "boundary_inside t" "distinct (map (norm_key \<circ> fst) (all_pairs t))" "sizearray t \<le> MAXSIZE" "length (lt_node t) \<le> MAXSIZE"
proof -
  note i = tab_invD [OF assms]
  show "brent ts_hash t"
  proof (cases "is_dummy t")
    case False
    note h = hash_invD [OF i(1) False]
    show ?thesis unfolding brent_def list_all_iff
      using node_inv_live(4) [OF h(2)] by (auto split: tkey.split) metis
  qed (simp add: brent_def is_dummy_def)
  show "boundary_inside t" unfolding boundary_inside_def list_all_iff
  proof (intro ballI)
    fix n assume "n \<in> set (lt_node t)"
    then obtain j where "j < length (lt_node t)" "lt_node t ! j = n" by (auto simp: in_set_conv_nth)
    then have "k \<in> live_keys (lt_node t)" if "n_key n = LiveKey k" for k using that by (auto simp: live_keys_def)
    then show "case n_key n of LiveKey k \<Rightarrow> \<not> (1 \<le> key_index k \<and> key_index k \<le> int (sizearray t) + 1) | _ \<Rightarrow> True" using i(4) by (auto split: tkey.split)
  qed
  show "distinct (map (norm_key \<circ> fst) (all_pairs t))" by (rule all_pairs_distinct [OF assms])
  show "sizearray t \<le> MAXSIZE" by (rule i(2))
  show "length (lt_node t) \<le> MAXSIZE" using i(1) by (auto simp: hash_inv_def sizenode_def MAXSIZE_def is_dummy_def split: if_splits)
qed

text \<open>
  C12. Every table the VM can build keeps the documented invariants: a key outside its main position
  collides with a key that is in its own main position, the hash part holds no key of the array part nor
  the key right after it (so the boundary is in the array part), no key is stored twice up to raw
  equality, and both parts have at most \<open>2 ^ 26\<close> slots.
\<close>

theorem table_invariants:
  assumes "vm_table ts_hash t"
  shows "brent ts_hash t \<and> boundary_inside t \<and> distinct (map (norm_key \<circ> fst) (all_pairs t)) \<and> sizearray t \<le> MAXSIZE \<and> length (lt_node t) \<le> MAXSIZE"
  using tab_inv_documented [OF vm_table_inv [OF assms]] by blast

theorem table_invariants_witness:
  "brent demo_hash demo_table \<and> boundary_inside demo_table \<and> distinct (map (norm_key \<circ> fst) (all_pairs demo_table))
    \<and> sizearray demo_table \<le> MAXSIZE \<and> length (lt_node demo_table) \<le> MAXSIZE"
  by (rule table_invariants [OF demo_vm_table])

text \<open>
  C2. A table refines a finite map on keys up to raw equality. Any sequence of assignments to a new table
  either ends in "table overflow", which needs more than 33554430 assignments, or gives a table on which
  every lookup returns what the map holds: the value last assigned to a raw-equal key, nil for a key
  assigned nil or never assigned and for a key with a NaN. No assertion fails and no loop runs on.
\<close>

theorem table_refines_map:
  assumes "narray \<le> MAXSIZE" "nhash \<le> MAXSIZE" "list_all (\<lambda>p. valid_key (fst p)) ops"
  shows "\<exists>t0. luaH_new narray nhash = Inr t0 \<and>
    (case run_puts (\<lambda>t k v. table_set ts_hash t (Some k) v) ops t0 of
       Inl e \<Rightarrow> e = TableOverflow \<and> 33554430 < length ops
     | Inr t \<Rightarrow> \<forall>k. table_get ts_hash t (Some k) = Inr (if valid_key k then spec_puts norm_key ops (\<lambda>_. None) (norm_key k) else None))"
proof -
  obtain t0 :: "'a ltable" where t0: "luaH_new narray nhash = Inr t0" "tab_inv ts_hash t0" "stored t0 = {}"
    by (rule luaH_new_spec [OF assms(1,2)])
  have none: "lookup t0 k = None" for k using lookup_iff [OF t0(2), of k] t0(3) by (metis empty_iff not_Some_eq)
  have lim: "(MAXSIZE - 3) div 2 = 33554430" by (simp add: MAXSIZE_value)
  note r = any_key.puts_refine [OF t0(2) assms(3), of "\<lambda>_. None", OF none, folded table_set_store, unfolded lim]
  show ?thesis
  proof (cases "run_puts (\<lambda>t k v. table_set ts_hash t (Some k) v) ops t0")
    case (Inl e)
    then show ?thesis using r t0 by simp
  next
    case (Inr t)
    then have "tab_inv ts_hash t" "\<And>k. valid_key k \<Longrightarrow> lookup t k = spec_puts norm_key ops (\<lambda>_. None) (norm_key k)" using r by auto
    then show ?thesis using t0(1) Inr table_get_spec(1) [of ts_hash t] by auto
  qed
qed

theorem table_refines_map_witness:
  "\<exists>t0 t. luaH_new 2 2 = Inr t0 \<and> run_puts (\<lambda>t k v. table_set demo_hash t (Some k) v) [(KBoolean True, Some 7), (KString 8, Some 9), (KBoolean True, None)] t0 = Inr t
    \<and> table_get demo_hash t (Some (KString 8)) = Inr (Some (9 :: nat)) \<and> table_get demo_hash t (Some (KBoolean True)) = Inr None"
proof -
  let ?ops = "[(KBoolean True, Some (7 :: nat)), (KString 8, Some 9), (KBoolean True, None)]"
  let ?run = "run_puts (\<lambda>t k v. table_set demo_hash t (Some k) v) ?ops"
  obtain t0 where t0: "luaH_new 2 2 = Inr t0" "case ?run t0 of Inl e \<Rightarrow> e = TableOverflow \<and> 33554430 < length ?ops
      | Inr t \<Rightarrow> \<forall>k. table_get demo_hash t (Some k) = Inr (if valid_key k then spec_puts norm_key ?ops (\<lambda>_. None) (norm_key k) else None)"
    using table_refines_map [where narray = 2 and nhash = 2 and ts_hash = demo_hash and ops = ?ops] by (auto simp: MAXSIZE_value)
  then obtain t where "?run t0 = Inr t" by (cases "?run t0") auto
  then show ?thesis using t0 by (auto simp: spec_puts_def)
qed

text \<open>
  C13. Assigning to a key of a table the VM built always returns: the loops end, \<open>newkey\<close> rehashes at most once
  and no assertion fails. The only errors are the ones the code raises on purpose: a nil key, a NaN key, a
  vector key with a NaN, and "table overflow", the last one only beyond 33554430 pairs.
\<close>

theorem table_set_returns:
  assumes "vm_table ts_hash t"
  shows "case luaH_set ts_hash t key of
      Inl e \<Rightarrow> key = None \<and> e = IndexNil \<or> (\<exists>n. key = Some (KNumber n) \<and> is_nan64 n \<and> e = IndexNaN)
        \<or> (\<exists>x y z. key = Some (KVector x y z) \<and> (is_nan32 x \<or> is_nan32 y \<or> is_nan32 z) \<and> e = IndexVectorNaN)
        \<or> e = TableOverflow \<and> 33554430 < length (all_pairs t)
    | Inr (s, t') \<Rightarrow> \<exists>k. key = Some k \<and> valid_key k \<and> s \<noteq> NilObject \<and> slot_value t' s = lookup t k"
proof -
  note inv = vm_table_inv [OF assms]
  note err = luaH_set_errors [OF inv]
  show ?thesis
  proof (cases "\<exists>k. key = Some k \<and> valid_key k")
    case True
    then obtain k where k: "key = Some k" "valid_key k" by blast
    note ok = luaH_set_ok [OF inv k(2)]
    show ?thesis
    proof (cases "luaH_set ts_hash t key")
      case (Inl e)
      then show ?thesis using ok k(1) all_pairs_card [OF inv] by (simp add: set_ok_def few_pairs_def MAXSIZE_value)
    next
      case (Inr r)
      obtain s t' where r: "r = (s, t')" by (cases r)
      then have t': "tab_inv ts_hash t'" "stored t' = stored t" "slot_for t' k s" "s \<noteq> NilObject" using ok k(1) Inr by (simp_all add: set_ok_def)
      have "slot_value t' s = lookup t k" using slot_lookup [OF t'(1,3)] lookup_iff [OF t'(1)] lookup_iff [OF inv] t'(2) by (metis not_Some_eq)
      then show ?thesis using Inr r t'(4) k by simp
    qed
  next
    case False
    then show ?thesis using err by (cases key; cases "the key") auto
  qed
qed

theorem table_set_returns_witness:
  "case luaH_set demo_hash demo_table (Some (KBoolean False)) of Inl e \<Rightarrow> e = TableOverflow \<and> 33554430 < length (all_pairs demo_table)
    | Inr (s, t') \<Rightarrow> s \<noteq> NilObject \<and> slot_value t' s = lookup demo_table (KBoolean False)"
  using table_set_returns [OF demo_vm_table, of "Some (KBoolean False)"] by (auto split: sum.splits prod.splits)

text \<open>
  C15. The length operator: on every table the VM built, \<open>luaH_getn\<close> returns a border (the key before it is
  present or it is 0, the key after it is absent), whatever boundary hint the table carries; its fast
  paths, the hint update and the binary search all agree on that, the assertion that the boundary is in the
  array part never fails, and only the hint changes.
\<close>

theorem table_length_border:
  assumes "vm_table ts_hash t"
  shows "\<exists>n t'. luaH_getn t = Inr (n, t') \<and> is_border t n \<and> n \<le> sizearray t \<and> t' = t\<lparr>lt_lastfree := lt_lastfree t'\<rparr> \<and> vm_table ts_hash t'"
proof -
  obtain n t' where "luaH_getn t = Inr (n, t')" "is_border t n" "n \<le> sizearray t" "moved_boundary ts_hash t t'"
    using luaH_getn_spec [OF vm_table_inv [OF assms]] by blast
  then show ?thesis using vm_getn [OF assms] by (auto simp: moved_boundary_def)
qed

theorem table_length_border_witness:
  "\<exists>n t'. luaH_getn demo_table = Inr (n, t') \<and> is_border demo_table n \<and> n \<le> sizearray demo_table
    \<and> t' = demo_table\<lparr>lt_lastfree := lt_lastfree t'\<rparr> \<and> vm_table demo_hash t'"
  by (rule table_length_border [OF demo_vm_table])

text \<open>
  C40. Every accessor of a table reads and writes the same map: for an integer, a string, a light userdata and any other key
  \<open>luaH_getnum\<close>, \<open>luaH_getstr\<close>, \<open>luaH_getp\<close> and \<open>luaH_get\<close> find the value of the key, and storing through the slot that \<open>luaH_setnum\<close>,
  \<open>luaH_setstr\<close>, \<open>luaH_setp\<close> or \<open>luaH_set\<close> returns changes the value of exactly that key, up to raw equality; a setter only fails with
  "table overflow", in a table of more than 33554430 pairs.
\<close>

theorem table_accessors_agree:
  assumes "vm_table ts_hash t" "int32 i" "valid_key k"
    and "(get, setter, key) \<in> set [(luaH_getnum t i, luaH_setnum ts_hash t i, KNumber (cast_num i)), (luaH_getstr ts_hash t p, luaH_setstr ts_hash t p, KString p),
      (luaH_getp t p tag, luaH_setp ts_hash t p tag, KLightUserdata p tag), (luaH_get ts_hash t (Some k), luaH_set ts_hash t (Some k), k)]"
  shows "map_sum id (slot_value t) get = Inr (lookup t key)
    \<and> (case setter of
         Inl e \<Rightarrow> e = TableOverflow \<and> 33554430 < card (stored t)
       | Inr (s, t') \<Rightarrow> vm_table ts_hash (setobj s v t') \<and> (\<forall>k'. lookup (setobj s v t') k' = (if norm_key k' = norm_key key then v else lookup t k')))"
proof -
  note inv = vm_table_inv [OF assms(1)]
  have i: "- (2 ^ 31) \<le> i" "i < 2 ^ 31" using assms(2) by (simp_all add: int32_def)
  consider (num) "get = luaH_getnum t i" "setter = luaH_setnum ts_hash t i" "key = KNumber (cast_num i)" | (str) "get = luaH_getstr ts_hash t p" "setter = luaH_setstr ts_hash t p" "key = KString p"
    | (ptr) "get = luaH_getp t p tag" "setter = luaH_setp ts_hash t p tag" "key = KLightUserdata p tag"
    | (any) "get = luaH_get ts_hash t (Some k)" "setter = luaH_set ts_hash t (Some k)" "key = k" using assms(4) by auto
  then have "(\<exists>s. get = Inr s \<and> slot_for t key s) \<and> set_ok ts_hash t key setter \<and> (\<forall>s t'. setter = Inr (s, t') \<longrightarrow> vm_table ts_hash (setobj s v t'))"
  proof cases
    case num
    then show ?thesis using luaH_getnum_spec [OF inv i] luaH_setnum_ok [OF inv i] vm_setnum [OF assms(1,2)] by simp
  next
    case str
    then show ?thesis using luaH_getstr_spec [OF inv] luaH_setstr_ok [OF inv] vm_setstr [OF assms(1)] by simp
  next
    case ptr
    then show ?thesis using luaH_getp_spec [OF inv] luaH_setp_ok [OF inv] vm_setp [OF assms(1)] by simp
  next
    case any
    then show ?thesis using luaH_get_spec [OF inv assms(3)] luaH_set_ok [OF inv assms(3)] vm_set [OF assms(1)] by simp
  qed
  then obtain s where s: "get = Inr s" "slot_for t key s" "set_ok ts_hash t key setter" "\<And>s t'. setter = Inr (s, t') \<Longrightarrow> vm_table ts_hash (setobj s v t')" by blast
  show ?thesis using s(1,4) slot_lookup [OF inv s(2)] store_law(1,4) [OF inv s(3), of v]
    by (auto simp: store_at_def bindE_def MAXSIZE_value split: sum.splits prod.splits)
qed

theorem table_accessors_agree_witness:
  "map_sum id (slot_value demo_table) (luaH_getstr demo_hash demo_table 8) = Inr (lookup demo_table (KString 8))
    \<and> (\<exists>s t'. luaH_setstr demo_hash demo_table 8 = Inr (s, t') \<and> lookup (setobj s (Some 5) t') (KString 8) = Some 5)"
proof -
  obtain s t' where r: "luaH_setstr demo_hash demo_table 8 = Inr (s, t')" by (simp add: demo_simps)
  from table_accessors_agree [OF demo_vm_table, of 1 "KBoolean True" "luaH_getstr demo_hash demo_table 8" "luaH_setstr demo_hash demo_table 8" "KString 8" 8 0 "Some 5"]
  show ?thesis using r by (simp add: int32_def)
qed

text \<open>
  Explicit resizing keeps the contents: growing the array part, or reallocating the hash part with room
  for the pairs in it, returns a table with the same lookups (or "table overflow" past \<open>2 ^ 26\<close> slots) and at least
  the size asked for; no element is moved twice or lost and the migration never rehashes again. A copy has
  the same lookups as the original and a cleared table has none.
\<close>

theorem table_resize_preserves:
  assumes "vm_table ts_hash t" "sizearray t \<le> n" "n \<le> 2 ^ 30" "length (node_list (lt_node t)) \<le> h"
  shows "(case luaH_resizearray ts_hash t n of Inl e \<Rightarrow> e = TableOverflow | Inr t' \<Rightarrow> lookup t' = lookup t \<and> n \<le> sizearray t')
    \<and> (case luaH_resizehash ts_hash t h of Inl e \<Rightarrow> e = TableOverflow \<and> MAXSIZE < h | Inr t' \<Rightarrow> lookup t' = lookup t \<and> sizearray t' = sizearray t \<and> h \<le> length (lt_node t'))
    \<and> lookup (luaH_clone t) = lookup t \<and> lookup (luaH_clear t) = (\<lambda>_. None)"
proof -
  note inv = vm_table_inv [OF assms(1)]
  have eq: "lookup t' = lookup t" if "tab_inv ts_hash t'" "stored t' = stored t" for t'
    using lookup_iff [OF that(1)] lookup_iff [OF inv] that(2) by (intro ext) (metis not_Some_eq)
  have need: "hash_need (sizearray t) t \<le> h" using hash_need_node_list [OF inv order_refl] assms(4) by simp
  have "lookup (luaH_clear t) = (\<lambda>_. None)"
    using lookup_iff [OF luaH_clear_spec(1) [OF inv]] luaH_clear_spec(2) [OF inv] by (intro ext) (metis empty_iff not_Some_eq)
  moreover have "lookup (luaH_clone t) = lookup t" by (rule eq [OF luaH_clone_spec(1,2) [OF inv]])
  ultimately show ?thesis
    using luaH_resizearray_spec [OF inv assms(2,3)] luaH_resizehash_spec [OF inv need] eq by (auto simp: resized_def split: sum.splits)
qed

theorem table_resize_preserves_witness:
  "(case luaH_resizearray demo_hash demo_table 8 of Inl e \<Rightarrow> e = TableOverflow | Inr t' \<Rightarrow> lookup t' = lookup demo_table \<and> 8 \<le> sizearray t')
    \<and> lookup (luaH_clear demo_table) = (\<lambda>_. None)"
  using table_resize_preserves [OF demo_vm_table, of 8 2] by (simp add: demo_table_def demo_one_def)

end
