(* ===== verification/LuaTableDead.thy ===== *)
theory LuaTableDead
  imports LuaTableLaws
begin

text \<open>
  Dead keys. The collector leaves the address of a collected key in its node, and the memory may be reused for an
  object that becomes a key of the same table again. A walk from the main position of a live key meets its node
  before any dead key with its address, in every table the VM builds, which is what \<open>findindex\<close> relies on.
\<close>

section \<open>Dead keys in a chain\<close>

definition dead_behind :: "(lkey \<Rightarrow> nat) \<Rightarrow> 'v node list \<Rightarrow> bool" where
  "dead_behind main ns \<longleftrightarrow> (\<forall>i d k p. i < length ns \<longrightarrow> d < length ns \<longrightarrow> n_key (ns ! i) = LiveKey k \<longrightarrow> n_key (ns ! d) = DeadKey p \<longrightarrow>
     gckey k = Some p \<longrightarrow> reach ns (main k) d \<longrightarrow> reach ns i d)"

lemma dead_behindD:
  "dead_behind main ns \<Longrightarrow> i < length ns \<Longrightarrow> d < length ns \<Longrightarrow> n_key (ns ! i) = LiveKey k \<Longrightarrow> n_key (ns ! d) = DeadKey p \<Longrightarrow>
   gckey k = Some p \<Longrightarrow> reach ns (main k) d \<Longrightarrow> reach ns i d"
  unfolding dead_behind_def by blast

lemma dead_behind_none: "(\<And>d p. d < length ns \<Longrightarrow> n_key (ns ! d) \<noteq> DeadKey p) \<Longrightarrow> dead_behind main ns"
  unfolding dead_behind_def by blast

lemma dead_behind_in_place:
  assumes "dead_behind main ns" "mp < length ns" "main key = mp"
  shows "dead_behind main (ns[mp := (ns ! mp)\<lparr>n_key := LiveKey key\<rparr>])"
proof -
  let ?ns = "ns[mp := (ns ! mp)\<lparr>n_key := LiveKey key\<rparr>]"
  have l: "nxt ?ns = nxt ns" by (rule same_links_nxt) (rule same_links_update, simp)
  have key: "n_key (?ns ! j) = (if j = mp then LiveKey key else n_key (ns ! j))" for j using assms(2) by (cases "j = mp") auto
  show ?thesis unfolding dead_behind_def l key length_list_update
    using assms(1,3) unfolding dead_behind_def by (auto split: if_splits)
qed

lemma chained_reach_back:
  assumes "node_inv main ns" "mp < length ns" "n < length ns" "n \<noteq> mp" "n_key (ns ! n) = NilKey" "chained mp n key ns ns'"
    and "reach ns' i j" "i \<noteq> n"
  shows "reach ns i (if j = n then mp else j)"
  using assms(7)
proof (induction rule: rtranclp_induct)
  case (step j k)
  note iso = node_inv_nil(3,4) [OF assms(1,3,5)]
  from step(2) consider "j = mp" "k = n" | "j = n" "nxt ns mp k" | "j \<noteq> mp" "j \<noteq> n" "nxt ns j k" unfolding chained_nxt [OF assms(1-6)] by blast
  then show ?case
  proof cases
    case 2
    then have "k \<noteq> n" using iso by blast
    then show ?thesis using step.IH 2 by (simp add: rtranclp.rtrancl_into_rtrancl)
  next
    case 3
    then have "k \<noteq> n" using iso by blast
    then show ?thesis using step.IH 3 by (simp add: rtranclp.rtrancl_into_rtrancl)
  qed (use step.IH assms(4) in simp)
qed (use assms(8) in simp)

lemma nil_isolated:
  assumes "node_inv main ns" "n < length ns" "n_key (ns ! n) = NilKey" "i < length ns" "n_key (ns ! i) = LiveKey k"
  shows "main k \<noteq> n" "i \<noteq> n"
proof -
  show "i \<noteq> n" using assms(3,5) by auto
  show "main k \<noteq> n"
  proof
    assume "main k = n"
    then have "reach ns n i" using node_inv_live(3) [OF assms(1,4,5)] by simp
    then have "i = n" by (cases rule: converse_rtranclpE) (use node_inv_nil(4) [OF assms(1-3)] in auto)
    then show False using assms(3,5) by simp
  qed
qed

lemma dead_behind_chained:
  assumes db: "dead_behind main ns" and c: "node_inv main ns" "mp < length ns" "n < length ns" "n \<noteq> mp" "n_key (ns ! n) = NilKey" "chained mp n key ns ns'"
    and mk: "n_key (ns ! mp) = LiveKey mk" and key: "main key = mp"
  shows "dead_behind main ns'"
  unfolding dead_behind_def
proof (intro allI impI)
  fix i d k p
  assume a: "i < length ns'" "d < length ns'" "n_key (ns' ! i) = LiveKey k" "n_key (ns' ! d) = DeadKey p" "gckey k = Some p" "reach ns' (main k) d"
  have keys: "n_key (ns' ! i) = (if i = n then LiveKey key else n_key (ns ! i))" for i using c(6) unfolding chained_def by (cases "i = mp") auto
  have len: "length ns' = length ns" using c(6) by (simp add: chained_def)
  have d: "d \<noteq> n" "d \<noteq> mp" "n_key (ns ! d) = DeadKey p" using a(4) mk unfolding keys by (auto split: if_splits)
  show "reach ns' i d"
  proof (cases "i = n")
    case True
    then have "main k = mp" using a(3) key unfolding keys by simp
    moreover have "nxt ns' mp n" unfolding chained_nxt [OF c] by simp
    ultimately show ?thesis using reach_cases [of ns' mp d n] a(6) d(2) True by simp
  next
    case False
    then have i: "n_key (ns ! i) = LiveKey k" "i < length ns" using a(1,3) len unfolding keys by auto
    then have "main k \<noteq> n" using nil_isolated [OF c(1,3,5)] by blast
    then have "reach ns (main k) d" using chained_reach_back [OF c a(6)] d(1) by simp
    then have "reach ns i d" using dead_behindD [OF db i(2) _ i(1) d(3) a(5)] a(2) len by simp
    then show ?thesis by (rule chained_reach [OF c])
  qed
qed

lemma moved_reach_back:
  assumes "node_inv main ns" "mp < length ns" "n < length ns" "n \<noteq> mp" "n_key (ns ! n) = NilKey" "nxt ns prev mp" "moved prev mp n key ns ns'"
    and "reach ns' i j"
  shows "reach ns (swap_pos mp n i) (swap_pos mp n j)"
  using assms(8)
proof (induction rule: rtranclp_induct)
  case (step j k)
  then show ?case unfolding moved_nxt [OF assms(1-7)] by (simp add: rtranclp.rtrancl_into_rtrancl)
qed simp

lemma dead_behind_moved:
  assumes db: "dead_behind main ns"
    and c: "node_inv main ns" "mp < length ns" "n < length ns" "n \<noteq> mp" "n_key (ns ! n) = NilKey" "nxt ns prev mp" "moved prev mp n key ns ns'"
    and mk: "n_key (ns ! mp) = LiveKey mk" "main mk \<noteq> mp" and key: "main key = mp"
  shows "dead_behind main ns'"
  unfolding dead_behind_def
proof (intro allI impI)
  fix i d k p
  assume a: "i < length ns'" "d < length ns'" "n_key (ns' ! i) = LiveKey k" "n_key (ns' ! d) = DeadKey p" "gckey k = Some p" "reach ns' (main k) d"
  have ch: "chains ns" by (rule node_inv_chains [OF c(1)])
  have pm: "prev \<noteq> mp" "prev \<noteq> n" using c(6) chains_not_self [OF ch] node_inv_nil(4) [OF c(1,3,5)] by auto
  have keys: "n_key (ns' ! i) = (if i = n then LiveKey mk else if i = mp then LiveKey key else n_key (ns ! i))" for i
    using moved_fields(1) [OF c(7,4) pm, of i] mk(1) c(4) by (simp add: swap_pos_def)
  have len: "length ns' = length ns" using c(7) by (simp add: moved_def)
  have d: "d \<noteq> n" "d \<noteq> mp" "n_key (ns ! d) = DeadKey p" "d < length ns" using a(2,4) len unfolding keys by (auto split: if_splits)
  show "reach ns' i d"
  proof (cases "i = mp")
    case True
    then show ?thesis using a(3,6) key c(4) unfolding keys by simp
  next
    case False
    let ?i = "swap_pos mp n i"
    have i: "n_key (ns ! ?i) = LiveKey k" "?i < length ns" using a(1,3) False len mk(1) c(2) unfolding keys by (auto simp: swap_pos_def split: if_splits)
    have "main k \<noteq> mp"
    proof
      assume k: "main k = mp"
      then have "?i \<noteq> mp" using i(1) mk by auto
      then show False using node_inv_live(4) [OF c(1) i(2,1), of mk] mk k by simp
    qed
    then have "reach ns (main k) d" using moved_reach_back [OF c a(6)] nil_isolated(1) [OF c(1,3,5) i(2,1)] d by simp
    then have "reach ns ?i d" using dead_behindD [OF db i(2) d(4) i(1) d(3) a(5)] by simp
    from moved_reach [OF c this] show ?thesis using d by simp
  qed
qed

lemma dead_behind_remove:
  assumes "dead_behind main ns" "i < length ns" "n_key (ns ! i) = LiveKey k" "gckey k = Some p"
    and one: "\<And>j k'. j < length ns \<Longrightarrow> n_key (ns ! j) = LiveKey k' \<Longrightarrow> gckey k' = Some p \<Longrightarrow> j = i"
  shows "dead_behind main (ns[i := (ns ! i)\<lparr>n_key := DeadKey p\<rparr>])"
proof -
  let ?ns = "ns[i := (ns ! i)\<lparr>n_key := DeadKey p\<rparr>]"
  have l: "nxt ?ns = nxt ns" by (rule same_links_nxt) (rule same_links_update, simp)
  have key: "n_key (?ns ! j) = (if j = i then DeadKey p else n_key (ns ! j))" for j using assms(2) by (cases "j = i") auto
  show ?thesis unfolding dead_behind_def l key length_list_update
  proof (intro allI impI)
    fix j d k' q
    assume a: "j < length ns" "d < length ns" "(if j = i then DeadKey p else n_key (ns ! j)) = LiveKey k'"
      "(if d = i then DeadKey p else n_key (ns ! d)) = DeadKey q" "gckey k' = Some q" "reach ns (main k') d"
    have j: "j \<noteq> i" "n_key (ns ! j) = LiveKey k'" using a(3) by (auto split: if_splits)
    then have "d \<noteq> i" using a(4,5) one [OF a(1) j(2)] by (auto split: if_splits)
    then show "reach ns j d" using dead_behindD [OF assms(1) a(1,2) j(2) _ a(5,6)] a(4) by simp
  qed
qed

section \<open>Placing a key\<close>

text \<open>What placing a key does to the nodes, in each of its three cases.\<close>

lemma place_key_nodes:
  fixes t :: "'v ltable"
  assumes inv: "hash_inv ts_hash t" and key: "valid_key key" "absent (lt_node t) key" and pk: "place_key ts_hash t key = Inr (Some m, t')"
  defines "mp \<equiv> mainposition ts_hash t key" and "ns \<equiv> lt_node t"
  obtains (in_place) "mp < length ns" "lt_node t' = ns[mp := (ns ! mp)\<lparr>n_key := LiveKey key\<rparr>]"
    | (chain) n mk where "mp < length ns" "n < length ns" "n \<noteq> mp" "n_key (ns ! n) = NilKey" "chained mp n key ns (lt_node t')" "n_key (ns ! mp) = LiveKey mk"
    | (move) n prev mk where "mp < length ns" "n < length ns" "n \<noteq> mp" "n_key (ns ! n) = NilKey" "nxt ns prev mp" "moved prev mp n key ns (lt_node t')"
        "n_key (ns ! mp) = LiveKey mk" "mainposition ts_hash t mk \<noteq> mp"
proof -
  have nd: "\<not> is_dummy t" using pk place_key_spec [OF inv key] by (metis Pair_inject option.distinct(1) placed_def sum.inject(2))
  note h = hash_invD [OF inv nd]
  have mp: "mp < length ns" using h(1,6) by (simp add: mp_def ns_def)
  show thesis
  proof (cases "n_val (gnode t mp) = None")
    case True
    then have "lt_node t' = ns[mp := (ns ! mp)\<lparr>n_key := LiveKey key\<rparr>]"
      using pk nd by (simp add: place_key_def setnodekey_def upd_node_def Let_def flip: mp_def ns_def) auto
    then show thesis using in_place mp by blast
  next
    case False
    then obtain mk where mk: "n_key (ns ! mp) = LiveKey mk" using node_inv_value_key [OF h(2)] mp by (auto simp: gnode_eq [OF nd] ns_def)
    show thesis
    proof (cases rule: getfreepos_spec [OF inv nd])
      case (1 l)
      then show thesis using pk False by (simp add: place_key_def Let_def flip: mp_def)
    next
      case (2 n)
      let ?t1 = "t\<lparr>lt_lastfree := int n\<rparr>"
      have t1: "\<not> is_dummy ?t1" "mainposition ts_hash ?t1 = mainposition ts_hash t" "sizenode ?t1 = sizenode t" "lt_node ?t1 = ns"
        using nd by (auto simp: is_dummy_def sizenode_def ns_def intro: mainposition_cong)
      have g1: "gnode ?t1 i = ns ! i" for i using t1(1) by (simp add: gnode_eq ns_def)
      have n: "n < length ns" "n_key (ns ! n) = NilKey" "n \<noteq> mp" using 2(2,3) h(1) mk by (auto simp: ns_def)
      note nil = node_inv_nil [OF h(2) [folded ns_def] n(1,2)]
      have sn: "lt_node t' = lt_node (upd_node j (\<lambda>nd. nd\<lparr>n_key := LiveKey key\<rparr>) u)" if "setnodekey j key u = Inr (Some m, t')" for j and u :: "'v ltable"
        using that by (auto simp: setnodekey_def split: if_splits)
      show thesis
      proof (cases "mainposition ts_hash t mk = mp")
        case True
        then have "setnodekey n key (chain_node mp n ?t1) = Inr (Some m, t')"
          using pk False 2(1) mk nil(1) by (simp add: place_key_def Let_def g1 t1 flip: mp_def)
        then have "chained mp n key ns (lt_node t')"
          using sn [of n "chain_node mp n ?t1"] chain_node_chained(1) [OF t1(1), of mp n key] mp n nil(1,2) unfolding t1(4) by simp
        then show thesis using chain mp n mk by blast
      next
        case False
        have ch: "chains ns" unfolding ns_def by (rule node_inv_chains [OF h(2)])
        have ml: "mainposition ts_hash t mk < length ns" "reach ns (mainposition ts_hash t mk) mp"
          using node_inv_live(2,3) [OF h(2) [folded ns_def] mp mk] by auto
        have nof: "nodes_of ?t1 ns" using h(1) nd by (simp add: nodes_of_def is_dummy_def ns_def sizenode_def)
        obtain prev where prev: "find_prev ?t1 mp (sizenode ?t1) (mainposition ts_hash t mk) = Some prev" "nxt ns prev mp"
          using find_prev_spec [OF nof ch ml(2) False ml(1)] reach_set_bounds(2) [OF ch ml(1)] h(1) t1(3) by (metis ns_def)
        have pr: "prev < length ns" "prev \<noteq> mp" "prev \<noteq> n" using chains_range [OF ch prev(2)] chains_not_self [OF ch] prev(2) nil(4) by auto
        have "setnodekey mp key (move_node prev mp n ?t1) = Inr (Some m, t')"
          using pk \<open>n_val (gnode t mp) \<noteq> None\<close> 2(1) mk False prev(1) by (simp add: place_key_def Let_def g1 t1 flip: mp_def)
        then have "moved prev mp n key ns (lt_node t')"
          using sn [of mp "move_node prev mp n ?t1"] move_node_moved(1) [OF t1(1), of mp n prev key] mp n pr unfolding t1(4) by simp
        then show thesis using move mp n mk False prev(2) by blast
      qed
    qed
  qed
qed

lemma place_key_dead:
  assumes "hash_inv ts_hash t" "valid_key key" "absent (lt_node t) key" "place_key ts_hash t key = Inr (Some m, t')"
    "dead_behind (mainposition ts_hash t) (lt_node t)"
  shows "dead_behind (mainposition ts_hash t) (lt_node t')"
proof -
  have nd: "\<not> is_dummy t" using assms(4) place_key_spec [OF assms(1-3)] by (metis Pair_inject option.distinct(1) placed_def sum.inject(2))
  note ni = hash_invD(2) [OF assms(1) nd]
  show ?thesis
  proof (cases rule: place_key_nodes [OF assms(1-4)])
    case 1
    then show ?thesis using dead_behind_in_place [OF assms(5)] by simp
  next
    case (2 n mk)
    then show ?thesis using dead_behind_chained [OF assms(5) ni] by blast
  next
    case (3 n prev mk)
    then show ?thesis using dead_behind_moved [OF assms(5) ni] by blast
  qed
qed

section \<open>The keys of the nodes\<close>

text \<open>
  Which keys the nodes can have after an insertion or a resize, whatever the table: a rehash starts from empty nodes, so
  it leaves no dead key.
\<close>

definition keys_ok :: "tkey set \<Rightarrow> 'v ltable \<Rightarrow> bool" where
  "keys_ok K t \<longleftrightarrow> (is_dummy t \<or> lt_lsizenode t \<le> MAXBITS \<and> length (lt_node t) = sizenode t) \<and> n_key ` set (lt_node t) \<subseteq> K"

lemma keys_ok_upd_node:
  assumes "keys_ok K t" "i < length (lt_node t) \<Longrightarrow> n_key (f (lt_node t ! i)) \<in> K"
  shows "keys_ok K (upd_node i f t)"
proof (cases "i < length (lt_node t)")
  case True
  then have "n_key ` set ((lt_node t)[i := f (lt_node t ! i)]) \<subseteq> K"
    using assms set_update_subset_insert [of "lt_node t" i "f (lt_node t ! i)"] by (auto simp: keys_ok_def)
  then show ?thesis using assms(1) by (auto simp: keys_ok_def)
qed (use assms(1) in \<open>simp add: keys_ok_def list_update_beyond\<close>)

lemma keys_ok_same:
  assumes "keys_ok K t" "\<And>n. n_key (f n) = n_key n"
  shows "keys_ok K (upd_node i f t)"
  using assms(1) by (rule keys_ok_upd_node) (use assms in \<open>auto simp: keys_ok_def\<close>)

lemma keys_ok_gnode:
  assumes "keys_ok K t" "NilKey \<in> K"
  shows "n_key (gnode t (mainposition ts_hash t key)) \<in> K"
proof (cases "is_dummy t")
  case False
  then have "mainposition ts_hash t key < length (lt_node t)" using assms(1) mainposition_less [of t ts_hash key] by (simp add: keys_ok_def)
  then show ?thesis using assms(1) False by (auto simp: keys_ok_def gnode_eq)
qed (use assms in \<open>simp add: gnode_def luaH_dummynode_def\<close>)

lemma keys_ok_fields: "lt_node t' = lt_node t \<Longrightarrow> lt_lsizenode t' = lt_lsizenode t \<Longrightarrow> keys_ok K t' = keys_ok K t"
  by (simp add: keys_ok_def is_dummy_def sizenode_def)

lemma keys_ok_setobj: "keys_ok K t \<Longrightarrow> keys_ok K (setobj s v t)"
  by (cases s) (simp_all add: keys_ok_same keys_ok_fields [of "t\<lparr>lt_array := a\<rparr>" t for a])

lemma getfreepos_fields: "getfreepos t = (n, t1) \<Longrightarrow> lt_node t1 = lt_node t \<and> lt_lsizenode t1 = lt_lsizenode t"
  by (auto simp: getfreepos_def split: if_splits prod.splits)

lemma setnodekey_keys:
  "keys_ok K t \<Longrightarrow> LiveKey key \<in> K \<Longrightarrow> setnodekey i key t = Inr (r, t') \<Longrightarrow> keys_ok K t'"
  by (auto simp: setnodekey_def keys_ok_upd_node split: if_splits)

lemma chain_node_keys: "keys_ok K t \<Longrightarrow> keys_ok K (chain_node mp n t)"
  by (simp add: chain_node_def Let_def keys_ok_same)

lemma move_node_keys:
  assumes t: "keys_ok K t" "NilKey \<in> K"
  shows "keys_ok K (move_node prev (mainposition ts_hash t key) n t)"
proof -
  let ?mp = "mainposition ts_hash t key" and ?u = "upd_node prev (\<lambda>nd. nd\<lparr>n_next := int n - int prev\<rparr>) t"
  have u: "keys_ok K ?u" using t(1) by (simp add: keys_ok_same)
  have "mainposition ts_hash ?u key = ?mp" using mainposition_cong [of ?u t ts_hash] by simp
  then have "n_key (gnode ?u ?mp) \<in> K" using keys_ok_gnode [OF u t(2), of ts_hash key] by simp
  then have "keys_ok K (upd_node n (\<lambda>_. gnode ?u ?mp) ?u)" by (rule keys_ok_upd_node [OF u])
  then show ?thesis by (simp add: move_node_def Let_def keys_ok_same)
qed

lemma place_key_keys:
  assumes t: "keys_ok K t" "NilKey \<in> K" "LiveKey key \<in> K" and pk: "place_key ts_hash t key = Inr (r, t')"
  shows "keys_ok K t'"
proof (cases "n_val (gnode t (mainposition ts_hash t key)) \<noteq> None \<or> is_dummy t")
  case False
  then show ?thesis using pk setnodekey_keys [OF t(1,3)] by (auto simp: place_key_def Let_def)
next
  case True
  obtain f t1 where g: "getfreepos t = (f, t1)" by (cases "getfreepos t")
  have t1: "keys_ok K t1" using getfreepos_fields [OF g] t(1) keys_ok_fields [of t1 t K] by simp
  have mp: "mainposition ts_hash t1 key = mainposition ts_hash t key" using getfreepos_fields [OF g] mainposition_cong [of t1 t ts_hash] by simp
  have m: "keys_ok K (move_node prev (mainposition ts_hash t key) n t1)" for prev n using move_node_keys [OF t1 t(2), of prev ts_hash key n] mp by simp
  show ?thesis using pk True g t1 setnodekey_keys [OF m t(3)] setnodekey_keys [OF chain_node_keys [OF t1] t(3)]
    by (auto simp: place_key_def Let_def split: option.splits tkey.splits if_splits)
qed

lemma bindE_Inr: "bindE m f = Inr y \<longleftrightarrow> (\<exists>x. m = Inr x \<and> f x = Inr y)"
  by (cases m) (simp_all add: bindE_def)

text \<open>A function that inserts keys and keeps the keys of the nodes in a set.\<close>

definition keeps_keys :: "tkey set \<Rightarrow> 'v newkey_fn \<Rightarrow> bool" where
  "keeps_keys K nk \<longleftrightarrow> (\<forall>t key s t'. keys_ok K t \<longrightarrow> LiveKey key \<in> K \<longrightarrow> nk t key = Inr (s, t') \<longrightarrow> keys_ok K t')"

lemma keeps_keysD: "keeps_keys K nk \<Longrightarrow> keys_ok K t \<Longrightarrow> LiveKey key \<in> K \<Longrightarrow> nk t key = Inr (s, t') \<Longrightarrow> keys_ok K t'"
  unfolding keeps_keys_def by blast

lemma keeps_keys_arrayornewkey: "keeps_keys K nk \<Longrightarrow> keeps_keys K (arrayornewkey nk)"
  unfolding keeps_keys_def arrayornewkey_eq by (auto split: if_splits)

lemma migrate_array_keys:
  assumes nk: "keeps_keys K nk" "\<And>n. LiveKey (KNumber n) \<in> K"
  shows "keys_ok K t \<Longrightarrow> migrate_array nk i vs t = Inr t' \<Longrightarrow> keys_ok K t'"
proof (induction vs arbitrary: i t)
  case (Cons v vs)
  show ?case
  proof (cases v)
    case (Some w)
    then obtain s t1 where s: "nk t (KNumber (cast_num (int i + 1))) = Inr (s, t1)" "migrate_array nk (Suc i) vs (setobj s (Some w) t1) = Inr t'"
      using Cons.prems(2) by (auto simp: bindE_Inr)
    show ?thesis by (rule Cons.IH [OF keys_ok_setobj [OF keeps_keysD [OF nk(1) Cons.prems(1) nk(2) s(1)]] s(2)])
  qed (use Cons in simp)
qed simp

lemma migrate_hash_keys:
  assumes nk: "keeps_keys K nk"
  shows "keys_ok K t \<Longrightarrow> (\<And>n k. n \<in> set olds \<Longrightarrow> n_key n = LiveKey k \<Longrightarrow> LiveKey k \<in> K) \<Longrightarrow> migrate_hash nk olds t = Inr t' \<Longrightarrow> keys_ok K t'"
proof (induction olds arbitrary: t)
  case (Cons old olds)
  show ?case
  proof (cases "n_val old")
    case (Some v)
    then obtain key s t1 where s: "n_key old = LiveKey key" "arrayornewkey nk t key = Inr (s, t1)" "migrate_hash nk olds (setobj s (Some v) t1) = Inr t'"
      using Cons.prems(3) by (auto simp: bindE_Inr split: tkey.splits)
    have "LiveKey key \<in> K" using Cons.prems(2) [of old] s(1) by simp
    then have t1: "keys_ok K t1" using keeps_keysD [OF keeps_keys_arrayornewkey [OF nk] Cons.prems(1) _ s(2)] by simp
    show ?thesis by (rule Cons.IH [OF keys_ok_setobj [OF t1] _ s(3)]) (use Cons.prems(2) in auto)
  next
    case None
    then show ?thesis using Cons.prems by (intro Cons.IH [OF Cons.prems(1)]) auto
  qed
qed simp

lemma resize_keys:
  assumes nk: "keeps_keys K nk" "NilKey \<in> K" "\<And>n. LiveKey (KNumber n) \<in> K" "\<And>k. k \<in> live_keys (lt_node t) \<Longrightarrow> LiveKey k \<in> K"
    and r: "resize nk t na nh = Inr t'"
  shows "keys_ok K t'"
proof -
  have live: "n \<in> set (lt_node t) \<Longrightarrow> n_key n = LiveKey k \<Longrightarrow> k \<in> live_keys (lt_node t)" for n k
    by (auto simp: live_keys_def in_set_conv_nth)
  define mig where "mig = (\<lambda>tb. if na < sizearray t then map_sum id (\<lambda>t. t\<lparr>lt_arrayptr := Suc (lt_arrayptr t)\<rparr>)
    (migrate_array nk na (drop na (lt_array t)) (tb\<lparr>lt_array := take na (lt_array t)\<rparr>)) else Inr tb)"
  have "\<not> (na > MAXSIZE \<or> nh > MAXSIZE)" using r by (auto simp: resize_def)
  note r' = r [unfolded resize_def if_not_P [OF this] Let_def, folded mig_def]
  obtain ta tb where tb: "setnodevector nh ta = Inr tb"
    and r2: "bindE (mig tb) (\<lambda>t1. bindE (migrate_hash nk (rev (lt_node t)) t1) (\<lambda>t2.
       if lt_nodeptr tb \<noteq> lt_nodeptr t2 \<or> lt_arrayptr t1 \<noteq> lt_arrayptr t2 then Inl AssertFailed else Inr t2)) = Inr t'"
    using r' unfolding mig_def bindE_Inr [of "if na > sizearray t then _ else _"] bindE_Inr [of "setnodevector nh _"] by blast
  then obtain t1 t2 where t1: "mig tb = Inr t1" "migrate_hash nk (rev (lt_node t)) t1 = Inr t2"
    and t2: "(if lt_nodeptr tb \<noteq> lt_nodeptr t2 \<or> lt_arrayptr t1 \<noteq> lt_arrayptr t2 then Inl AssertFailed else Inr t2) = Inr t'"
    unfolding bindE_Inr by blast
  have t2: "t2 = t'" using t2 by (simp split: if_splits)
  have fresh: "keys_ok K tb"
    using tb nk(2) by (auto simp: setnodevector_def keys_ok_def is_dummy_def sizenode_def Let_def luaH_dummynode_def split: if_splits)
  have "keys_ok K t1"
  proof (cases "na < sizearray t")
    case True
    then obtain t2 where t2: "migrate_array nk na (drop na (lt_array t)) (tb\<lparr>lt_array := take na (lt_array t)\<rparr>) = Inr t2"
      "t1 = t2\<lparr>lt_arrayptr := Suc (lt_arrayptr t2)\<rparr>" using t1(1) unfolding mig_def by (cases "migrate_array nk na (drop na (lt_array t)) (tb\<lparr>lt_array := take na (lt_array t)\<rparr>)") auto
    have "keys_ok K (tb\<lparr>lt_array := take na (lt_array t)\<rparr>)" using fresh keys_ok_fields [of "tb\<lparr>lt_array := take na (lt_array t)\<rparr>" tb K] by simp
    from migrate_array_keys [OF nk(1,3) this t2(1)] show ?thesis using t2(2) keys_ok_fields [of t1 t2 K] by simp
  qed (use t1(1) fresh in \<open>simp add: mig_def\<close>)
  then show ?thesis by (rule migrate_hash_keys [OF nk(1) _ _ t1(2) [unfolded t2]]) (use live nk(4) in simp)
qed

lemma rehash_keys:
  assumes "keeps_keys K nk" "NilKey \<in> K" "\<And>n. LiveKey (KNumber n) \<in> K" "\<And>k. k \<in> live_keys (lt_node t) \<Longrightarrow> LiveKey k \<in> K"
    and "rehash nk t ek = Inr t'"
  shows "keys_ok K t'"
proof -
  have "\<exists>na nh. resize nk t na nh = Inr t'"
    using assms(5) unfolding rehash_def Let_def by (auto simp: bindE_Inr split: prod.splits if_splits)
  then show ?thesis using resize_keys [OF assms(1-4)] by blast
qed

text \<open>The path of \<open>newkey\<close> through a rehash, from any table with the keys of \<open>t\<close>.\<close>

lemma grow_keys:
  assumes nk: "keeps_keys K nk" "NilKey \<in> K" "\<And>n. LiveKey (KNumber n) \<in> K" "\<And>k. k \<in> live_keys (lt_node t) \<Longrightarrow> LiveKey k \<in> K" "LiveKey key \<in> K"
    and g: "bindE (rehash nk t key) (\<lambda>t. arrayornewkey nk t key) = Inr (s, t')"
  shows "keys_ok K t'"
proof -
  obtain t1 where "rehash nk t key = Inr t1" "arrayornewkey nk t1 key = Inr (s, t')" using g by (auto simp: bindE_Inr)
  then show ?thesis using keeps_keysD [OF keeps_keys_arrayornewkey [OF nk(1)] _ nk(5)] rehash_keys [OF nk(1-4)] by blast
qed

lemma live_keys_image: "keys_ok K t \<Longrightarrow> k \<in> live_keys (lt_node t) \<Longrightarrow> LiveKey k \<in> K"
proof -
  assume t: "keys_ok K t" and "k \<in> live_keys (lt_node t)"
  then obtain i where i: "i < length (lt_node t)" "n_key (lt_node t ! i) = LiveKey k" by (auto simp: live_keys_def)
  then have "n_key (lt_node t ! i) \<in> n_key ` set (lt_node t)" by (intro imageI nth_mem)
  then show "LiveKey k \<in> K" using t i(2) by (auto simp: keys_ok_def)
qed

lemma newkey_keeps_keys:
  assumes "NilKey \<in> K" "\<And>n. LiveKey (KNumber n) \<in> K"
  shows "keeps_keys K (newkey d ts_hash)"
proof (induction d)
  case (Suc d)
  show ?case unfolding keeps_keys_def
  proof (intro allI impI)
    fix t :: "'a ltable" and key s t' assume t: "keys_ok K t" and key: "LiveKey key \<in> K" and r: "newkey (Suc d) ts_hash t key = Inr (s, t')"
    have grow: "keys_ok K t'" if "keys_ok K t1" "bindE (rehash (newkey d ts_hash) t1 key) (\<lambda>t. arrayornewkey (newkey d ts_hash) t key) = Inr (s, t')" for t1
      by (rule grow_keys [OF Suc assms live_keys_image [OF that(1)] key that(2)])
    show "keys_ok K t'"
    proof (cases "case key of KNumber n \<Rightarrow> luai_numeq n (cast_num (int (sizearray t) + 1)) | _ \<Rightarrow> False")
      case True
      show ?thesis by (rule grow [OF t r [unfolded newkey.simps Let_def if_P [OF True]]])
    next
      case False
      then obtain p t1 where p: "place_key ts_hash t key = Inr (p, t1)"
        "(case p of Some mp \<Rightarrow> Inr (NodeSlot mp, t1) | None \<Rightarrow> bindE (rehash (newkey d ts_hash) t1 key) (\<lambda>t. arrayornewkey (newkey d ts_hash) t key)) = Inr (s, t')"
        using r unfolding newkey.simps Let_def bindE_Inr if_not_P [OF False] by auto
      then show ?thesis using grow place_key_keys [OF t assms(1) key p(1)] by (auto split: option.splits)
    qed
  qed
qed (simp add: keeps_keys_def newkey.simps)

section \<open>Addresses\<close>

text \<open>At most one key per address: objects that exist at the same time have different addresses.\<close>

definition one_per_address :: "lkey set \<Rightarrow> bool" where
  "one_per_address S \<longleftrightarrow> (\<forall>k \<in> S. \<forall>k' \<in> S. gckey k = gckey k' \<and> gckey k \<noteq> None \<longrightarrow> k = k')"

lemma one_per_address_mono: "one_per_address S \<Longrightarrow> S' \<subseteq> S \<Longrightarrow> one_per_address S'"
  unfolding one_per_address_def by blast

definition dead_inv :: "(u64 \<Rightarrow> u32) \<Rightarrow> 'v ltable \<Rightarrow> bool" where
  "dead_inv ts_hash t \<longleftrightarrow> dead_behind (mainposition ts_hash t) (lt_node t) \<and> one_per_address (live_keys (lt_node t))"

lemma dead_inv_same:
  assumes "dead_inv ts_hash t" "lt_lsizenode t' = lt_lsizenode t" "same_links (lt_node t) (lt_node t')"
    "\<And>i. i < length (lt_node t) \<Longrightarrow> n_key (lt_node t' ! i) = n_key (lt_node t ! i)"
  shows "dead_inv ts_hash t'"
proof -
  have l: "length (lt_node t') = length (lt_node t)" using assms(3) by (simp add: same_links_def)
  have "live_keys (lt_node t') = live_keys (lt_node t)" using assms(4) l by (auto simp: live_keys_def)
  moreover have "dead_behind (mainposition ts_hash t') (lt_node t')"
    using assms(1,4) unfolding dead_inv_def dead_behind_def l same_links_nxt [OF assms(3)] mainposition_cong [OF assms(2)] by metis
  ultimately show ?thesis using assms(1) by (simp add: dead_inv_def)
qed

lemma dead_inv_fields: "dead_inv ts_hash t \<Longrightarrow> lt_node t' = lt_node t \<Longrightarrow> lt_lsizenode t' = lt_lsizenode t \<Longrightarrow> dead_inv ts_hash t'"
  by (rule dead_inv_same [of ts_hash t t']) (simp_all add: same_links_def)

lemma dead_inv_setobj: "dead_inv ts_hash t \<Longrightarrow> dead_inv ts_hash (setobj s v t)"
proof (cases s)
  case (NodeSlot i)
  assume t: "dead_inv ts_hash t"
  have "n_key (lt_node (setobj s v t) ! j) = n_key (lt_node t ! j)" if "j < length (lt_node t)" for j
    using that by (cases "i = j") (simp_all add: NodeSlot)
  moreover have "same_links (lt_node t) (lt_node (setobj s v t))" by (simp add: NodeSlot) (rule same_links_update, simp)
  ultimately show ?thesis using dead_inv_same [OF t, of "setobj s v t"] by (simp add: NodeSlot)
qed (simp_all add: dead_inv_fields [of ts_hash t])

lemma dead_inv_no_dead:
  assumes "keys_ok (insert NilKey (LiveKey ` S)) t" "one_per_address S"
  shows "dead_inv ts_hash t"
proof -
  have k: "n_key (lt_node t ! i) \<in> insert NilKey (LiveKey ` S)" if "i < length (lt_node t)" for i
    using assms(1) nth_mem [OF that] by (auto simp: keys_ok_def)
  then have "live_keys (lt_node t) \<subseteq> S" by (fastforce simp: live_keys_def)
  moreover have "n_key (lt_node t ! d) \<noteq> DeadKey p" if "d < length (lt_node t)" for d p using k [OF that] by auto
  then have "dead_behind (mainposition ts_hash t) (lt_node t)" by (rule dead_behind_none)
  ultimately show ?thesis unfolding dead_inv_def using one_per_address_mono [OF assms(2)] by blast
qed

lemma dead_inv_fresh: "(\<And>n. n \<in> set (lt_node t) \<Longrightarrow> n_key n = NilKey) \<Longrightarrow> dead_inv ts_hash t"
  unfolding dead_inv_def by (auto intro!: dead_behind_none simp: live_keys_def one_per_address_def)

section \<open>Operations\<close>

lemma tab_inv_keys_ok: "tab_inv ts_hash t \<Longrightarrow> keys_ok UNIV t"
  using tab_invD(1) [of ts_hash t] by (auto simp: keys_ok_def hash_inv_def split: if_splits)

lemma one_per_address_None: "one_per_address S \<Longrightarrow> (\<And>k. k \<in> N \<Longrightarrow> gckey k = None) \<Longrightarrow> one_per_address (S \<union> N)"
  unfolding one_per_address_def by (metis Un_iff)

text \<open>A key at whose address the table has no other key.\<close>

definition fresh_address :: "'v ltable \<Rightarrow> lkey \<Rightarrow> bool" where
  "fresh_address t key \<longleftrightarrow> one_per_address (insert key (live_keys (lt_node t)))"

lemma fresh_address_None: "dead_inv ts_hash t \<Longrightarrow> gckey key = None \<Longrightarrow> fresh_address t key"
  using one_per_address_None [of "live_keys (lt_node t)" "{key}"] by (simp add: fresh_address_def dead_inv_def)

lemma placed_dead:
  assumes inv: "hash_inv ts_hash t" "dead_inv ts_hash t" and key: "valid_key key" "absent (lt_node t) key" "fresh_address t key"
    and p: "place_key ts_hash t key = Inr (Some n, t')" "placed ts_hash t key n t'"
  shows "dead_inv ts_hash t'"
proof -
  have "t' = t\<lparr>lt_node := lt_node t', lt_lastfree := lt_lastfree t'\<rparr>" using p(2) unfolding placed_def by blast
  from arg_cong [OF this, of lt_lsizenode] have "lt_lsizenode t' = lt_lsizenode t" by simp
  then have "mainposition ts_hash t' = mainposition ts_hash t" by (rule mainposition_cong)
  moreover have "dead_behind (mainposition ts_hash t) (lt_node t')" using place_key_dead [OF inv(1) key(1,2) p(1)] inv(2) by (simp add: dead_inv_def)
  moreover have "live_keys (lt_node t') \<subseteq> insert key (live_keys (lt_node t))" using p(2) by (simp add: placed_def)
  ultimately show ?thesis unfolding dead_inv_def using one_per_address_mono key(3) unfolding fresh_address_def by metis
qed

lemma newkey_dead:
  assumes inv: "tab_inv ts_hash t" "dead_inv ts_hash t" and key: "valid_key key" "absent (lt_node t) key"
    "fresh_address t key" and r: "newkey (Suc d) ts_hash t key = Inr (s, t')"
  shows "dead_inv ts_hash t'"
proof -
  let ?S = "insert key (live_keys (lt_node t)) \<union> range KNumber" and ?nk = "newkey d ts_hash"
  have S: "one_per_address ?S" using key(3) unfolding fresh_address_def by (rule one_per_address_None) auto
  have grow: "dead_inv ts_hash t'" if "lt_node t1 = lt_node t" "bindE (rehash ?nk t1 key) (\<lambda>t. arrayornewkey ?nk t key) = Inr (s, t')" for t1
  proof -
    have "keys_ok (insert NilKey (LiveKey ` ?S)) t'"
      by (rule grow_keys [OF newkey_keeps_keys _ _ _ _ that(2)]) (use that(1) in auto)
    then show ?thesis using dead_inv_no_dead S by blast
  qed
  show ?thesis
  proof (cases "case key of KNumber n \<Rightarrow> luai_numeq n (cast_num (int (sizearray t) + 1)) | _ \<Rightarrow> False")
    case True
    show ?thesis by (rule grow [OF refl r [unfolded newkey.simps Let_def if_P [OF True]]])
  next
    case False
    obtain p t1 where p: "place_key ts_hash t key = Inr (p, t1)"
      "(case p of Some mp \<Rightarrow> Inr (NodeSlot mp, t1) | None \<Rightarrow> bindE (rehash ?nk t1 key) (\<lambda>t. arrayornewkey ?nk t key)) = Inr (s, t')"
      using r unfolding newkey.simps Let_def bindE_Inr if_not_P [OF False] by auto
    show ?thesis
    proof (cases rule: place_key_spec [OF tab_invD(1) [OF inv(1)] key(1,2)])
      case (1 l)
      then show ?thesis using p grow [of t1] by simp
    next
      case (2 n t2)
      then have "t' = t2" using p by simp
      then show ?thesis using placed_dead [OF tab_invD(1) [OF inv(1)] inv(2) key 2] by simp
    qed
  qed
qed

lemma dead_inv_cache: "dead_inv ts_hash (invalidateTMcache t) = dead_inv ts_hash t"
  using dead_inv_fields [of ts_hash t "invalidateTMcache t"] dead_inv_fields [of ts_hash "invalidateTMcache t" t] by (auto simp: invalidateTMcache_def)

lemma new_slot_dead:
  assumes "tab_inv ts_hash t" "dead_inv ts_hash t" "valid_key key" "slot_for t key NilObject" "fresh_address t key"
    and "newkey rehash_depth ts_hash (invalidateTMcache t) key = Inr (s, t')"
  shows "dead_inv ts_hash t'"
proof -
  have "absent (lt_node t) key" using assms(4) by (auto simp: slot_for_def split: if_splits)
  then show ?thesis using newkey_dead [of ts_hash "invalidateTMcache t" key 1 s t'] assms
    by (simp add: dead_inv_cache fresh_address_def rehash_depth_def numeral_2_eq_2)
qed

lemma luaH_set_dead:
  assumes inv: "tab_inv ts_hash t" "dead_inv ts_hash t" and key: "fresh_address t key" and r: "luaH_set ts_hash t (Some key) = Inr (s, t')"
  shows "dead_inv ts_hash t'"
proof -
  have v: "valid_key key" using luaH_set_valid [OF inv(1) r] by blast
  obtain p where p: "luaH_get ts_hash t (Some key) = Inr p" "slot_for t key p" using luaH_get_spec [OF inv(1) v] by blast
  show ?thesis
  proof (cases "p = NilObject")
    case True
    then have "newkey rehash_depth ts_hash (invalidateTMcache t) key = Inr (s, t')"
      using r p(1) by (simp add: luaH_set_def bindE_def luaH_newkey_valid [OF v] del: luaH_get.simps)
    then show ?thesis using new_slot_dead [OF inv v _ key] p(2) True by blast
  qed (use r p(1) inv(2) in \<open>auto simp: luaH_set_def bindE_def dead_inv_cache simp del: luaH_get.simps\<close>)
qed

lemma luaH_setnum_dead:
  assumes inv: "tab_inv ts_hash t" "dead_inv ts_hash t" and i: "int32 i" and r: "luaH_setnum ts_hash t i = Inr (s, t')"
  shows "dead_inv ts_hash t'"
proof (cases "1 \<le> i \<and> i \<le> int (sizearray t)")
  case False
  let ?k = "KNumber (cast_num i)"
  have v: "valid_key ?k" using cast_num_not_nan [of i] i by (simp add: int32_def abs_less_iff)
  have inv': "tab_inv ts_hash (invalidateTMcache t)" using inv(1) by simp
  obtain p where p: "luaH_getnum (invalidateTMcache t) i = Inr p" "slot_for t ?k p" using luaH_getnum_spec [OF inv', of i] i by (auto simp: int32_def)
  show ?thesis
  proof (cases "p = NilObject")
    case True
    then have "newkey rehash_depth ts_hash (invalidateTMcache t) ?k = Inr (s, t')"
      using r p(1) False unfolding luaH_setnum_def by (auto simp: bindE_def)
    then show ?thesis using new_slot_dead [OF inv v _ fresh_address_None [OF inv(2)]] p(2) True by simp
  next
    case new: False
    then have "t' = invalidateTMcache t" using r p(1) False unfolding luaH_setnum_def by (auto simp: bindE_def)
    then show ?thesis using inv(2) by (simp add: dead_inv_cache)
  qed
qed (use r inv(2) in \<open>simp add: luaH_setnum_def\<close>)

lemma luaH_setp_dead:
  assumes inv: "tab_inv ts_hash t" "dead_inv ts_hash t" and r: "luaH_setp ts_hash t p tag = Inr (s, t')"
  shows "dead_inv ts_hash t'"
proof -
  obtain q where q: "luaH_getp t p tag = Inr q" "slot_for t (KLightUserdata p tag) q" using luaH_getp_spec [OF inv(1)] by blast
  show ?thesis
  proof (cases "q = NilObject")
    case True
    then have "newkey rehash_depth ts_hash (invalidateTMcache t) (KLightUserdata p tag) = Inr (s, t')" using r q(1) by (simp add: luaH_setp_def bindE_def)
    then show ?thesis using new_slot_dead [OF inv _ _ fresh_address_None [OF inv(2)], of "KLightUserdata p tag"] q(2) True by simp
  qed (use r q(1) inv(2) in \<open>auto simp: luaH_setp_def bindE_def dead_inv_cache\<close>)
qed

lemma luaH_newkeystr_dead:
  assumes inv: "tab_inv ts_hash t" "dead_inv ts_hash t" and key: "slot_for t (KString p) NilObject" "fresh_address t (KString p)"
    and r: "luaH_newkeystr ts_hash (invalidateTMcache t) p = Inr (s, t')"
  shows "dead_inv ts_hash t'"
proof -
  let ?t = "invalidateTMcache t" and ?k = "KString p"
  have inv': "tab_inv ts_hash ?t" "dead_inv ts_hash ?t" using inv by (simp_all add: dead_inv_cache)
  have k: "absent (lt_node ?t) ?k" "fresh_address ?t ?k" using key by (auto simp: slot_for_def fresh_address_def split: if_splits)
  show ?thesis
  proof (cases "\<not> is_dummy ?t \<and> n_val (gnode ?t (hashpow2 ?t (ts_hash p))) = None \<and> n_key (gnode ?t (hashpow2 ?t (ts_hash p))) = NilKey")
    case True
    let ?mp = "mainposition ts_hash ?t ?k"
    have mp: "n_val (gnode ?t ?mp) = None" "\<not> is_dummy ?t" "?mp = hashpow2 ?t (ts_hash p)" using True by (auto simp: mainposition_def)
    obtain t1 where t1: "place_key ts_hash ?t ?k = Inr (Some ?mp, t1)" "placed ts_hash ?t ?k ?mp t1"
      using place_key_in_place [OF tab_invD(1) [OF inv'(1)] _ k(1) mp(1,2)] by auto
    then have "setnodekey ?mp ?k ?t = Inr (Some ?mp, t1)" using mp by (simp add: place_key_def Let_def)
    then have "t' = t1" using r True mp(3) by (simp add: luaH_newkeystr_def bindE_def Let_def)
    then show ?thesis using placed_dead [OF tab_invD(1) [OF inv'(1)] inv'(2) _ k t1] by simp
  next
    case False
    then have "newkey rehash_depth ts_hash ?t ?k = Inr (s, t')" using r by (auto simp: luaH_newkeystr_def Let_def)
    then show ?thesis using new_slot_dead [OF inv _ key] by simp
  qed
qed

lemma luaH_setstr_dead:
  assumes inv: "tab_inv ts_hash t" "dead_inv ts_hash t" and key: "fresh_address t (KString p)" and r: "luaH_setstr ts_hash t p = Inr (s, t')"
  shows "dead_inv ts_hash t'"
proof -
  obtain q where q: "luaH_getstr ts_hash t p = Inr q" "slot_for t (KString p) q" using luaH_getstr_spec [OF inv(1)] by blast
  show ?thesis
  proof (cases "q = NilObject")
    case True
    then have "luaH_newkeystr ts_hash (invalidateTMcache t) p = Inr (s, t')" using r q(1) by (simp add: luaH_setstr_def bindE_def)
    then show ?thesis using luaH_newkeystr_dead [OF inv _ key] q(2) True by blast
  qed (use r q(1) inv(2) in \<open>auto simp: luaH_setstr_def bindE_def dead_inv_cache\<close>)
qed

lemma resize_dead:
  assumes "dead_inv ts_hash t" "resize (newkey rehash_depth ts_hash) t na nh = Inr t'"
  shows "dead_inv ts_hash t'"
proof -
  let ?S = "live_keys (lt_node t) \<union> range KNumber"
  have "one_per_address ?S" using assms(1) by (intro one_per_address_None) (auto simp: dead_inv_def)
  moreover have "keys_ok (insert NilKey (LiveKey ` ?S)) t'"
    by (rule resize_keys [OF newkey_keeps_keys _ _ _ assms(2)]) auto
  ultimately show ?thesis using dead_inv_no_dead by blast
qed

lemma removeentry_dead:
  assumes inv: "tab_inv ts_hash t" "dead_inv ts_hash t" and i: "i < sizenode t" "removeentry i t = Inr t'"
  shows "dead_inv ts_hash t'"
proof (cases "t' = t")
  case False
  then obtain k p where k: "n_key (gnode t i) = LiveKey k" "gckey k = Some p" "t' = upd_node i (\<lambda>n. n\<lparr>n_key := DeadKey p\<rparr>) t"
    using i(2) by (auto simp: removeentry_def split: if_splits tkey.splits option.splits)
  have nd: "\<not> is_dummy t" using k(1) by (auto simp: gnode_def luaH_dummynode_def split: if_splits)
  note h = hash_invD [OF tab_invD(1) [OF inv(1)] nd]
  have il: "i < length (lt_node t)" "n_key (lt_node t ! i) = LiveKey k" using i(1) h(1) k(1) by (simp_all add: gnode_eq [OF nd])
  have one: "one_per_address (live_keys (lt_node t))" using inv(2) by (simp add: dead_inv_def)
  have only: "j = i" if j: "j < length (lt_node t)" "n_key (lt_node t ! j) = LiveKey k'" "gckey k' = Some p" for j k'
  proof -
    have "k \<in> live_keys (lt_node t)" "k' \<in> live_keys (lt_node t)" using il j by (auto simp: live_keys_def)
    then have "k' = k" using one k(2) j(3) unfolding one_per_address_def by simp
    then show ?thesis using node_inv_distinct [OF h(2) j(1) il(1) j(2) il(2)] by simp
  qed
  let ?ns = "(lt_node t)[i := (lt_node t ! i)\<lparr>n_key := DeadKey p\<rparr>]"
  have "dead_behind (mainposition ts_hash t) ?ns"
    by (rule dead_behind_remove [OF _ il k(2) only]) (use inv(2) in \<open>simp_all add: dead_inv_def\<close>)
  moreover have "mainposition ts_hash t' = mainposition ts_hash t" by (rule mainposition_cong) (simp add: k(3) upd_node_def)
  moreover have "n_key (?ns ! j) = (if j = i then DeadKey p else n_key (lt_node t ! j))" for j using il(1) by (cases "j = i") auto
  then have "live_keys ?ns \<subseteq> live_keys (lt_node t)" by (auto simp: live_keys_def split: if_splits)
  ultimately show ?thesis using one_per_address_mono [OF one] by (simp add: dead_inv_def k(3) upd_node_def)
qed (use inv(2) in simp)

lemma luaH_new_dead: "luaH_new narray nhash = Inr t \<Longrightarrow> dead_inv ts_hash t"
  by (rule dead_inv_fresh) (auto simp: luaH_new_def setarrayvector_def setnodevector_def bindE_Inr Let_def luaH_dummynode_def split: if_splits)

lemma luaH_clear_dead: "dead_inv ts_hash (luaH_clear t)"
  by (rule dead_inv_fresh) (auto simp: luaH_clear_def maybesetaboundary_def is_dummy_def Let_def luaH_dummynode_def split: if_splits)

lemma luaH_clone_dead: "dead_inv ts_hash t \<Longrightarrow> dead_inv ts_hash (luaH_clone t)"
proof (cases "is_dummy t")
  case True
  then show ?thesis by (intro dead_inv_fresh) (auto simp: luaH_clone_def maybesetaboundary_def Let_def split: if_splits)
next
  case False
  assume "dead_inv ts_hash t"
  then show ?thesis by (rule dead_inv_fields) (use False in \<open>simp_all add: luaH_clone_def maybesetaboundary_def Let_def\<close>)
qed

lemma luaH_getn_dead:
  assumes "tab_inv ts_hash t" "dead_inv ts_hash t" "luaH_getn t = Inr (n, t')"
  shows "dead_inv ts_hash t'"
proof -
  obtain l where "t' = t\<lparr>lt_lastfree := l\<rparr>" using luaH_getn_spec [OF assms(1)] assms(3) by (auto simp: moved_boundary_def)
  then show ?thesis using dead_inv_fields [OF assms(2), of t'] by simp
qed

section \<open>The tables of a VM with a collector\<close>

lemma live_keysI: "i < length ns \<Longrightarrow> n_key (ns ! i) = LiveKey k \<Longrightarrow> k \<in> live_keys ns"
  by (auto simp: live_keys_def)

text \<open>
  The hash of a string is a field of the object. When memory is used again the hash at its address changes, and
  the invariants only depend on the hashes of the keys that are in the table.
\<close>

definition same_hashes :: "(u64 \<Rightarrow> u32) \<Rightarrow> (u64 \<Rightarrow> u32) \<Rightarrow> 'v ltable \<Rightarrow> bool" where
  "same_hashes ts_hash ts_hash' t \<longleftrightarrow> (\<forall>k \<in> live_keys (lt_node t). hashkey ts_hash' k = hashkey ts_hash k)"

lemma same_hashes_main:
  "same_hashes ts_hash ts_hash' t \<Longrightarrow> i < length (lt_node t) \<Longrightarrow> n_key (lt_node t ! i) = LiveKey k \<Longrightarrow> mainposition ts_hash' t k = mainposition ts_hash t k"
  using live_keysI [of i "lt_node t" k] by (simp add: same_hashes_def mainposition_def)

lemma node_inv_main:
  assumes inv: "node_inv main ns" and m: "\<And>i k. i < length ns \<Longrightarrow> n_key (ns ! i) = LiveKey k \<Longrightarrow> main' k = main k"
  shows "node_inv main' ns"
proof -
  have "node_ok main' ns i" if i: "i < length ns" for i
  proof (cases "n_key (ns ! i)")
    case (LiveKey k)
    note l = node_inv_live [OF inv i LiveKey]
    have e: "main' k = main k" by (rule m [OF i LiveKey])
    show ?thesis using node_inv_ok [OF inv i] m [OF l(2)] LiveKey unfolding node_ok_def LiveKey by (auto simp: e split: tkey.splits)
  qed (use node_inv_ok [OF inv i] in \<open>simp_all add: node_ok_def\<close>)
  then show ?thesis using inv by (simp add: node_inv_def)
qed

lemma tab_inv_hashes:
  assumes "tab_inv ts_hash t" "same_hashes ts_hash ts_hash' t"
  shows "tab_inv ts_hash' t"
proof -
  have "node_inv (mainposition ts_hash' t) (lt_node t)" if "node_inv (mainposition ts_hash t) (lt_node t)"
    by (rule node_inv_main [OF that]) (rule same_hashes_main [OF assms(2)])
  then show ?thesis using assms(1) unfolding tab_inv_def hash_inv_def by (auto split: if_splits)
qed

lemma dead_inv_hashes:
  assumes "dead_inv ts_hash t" "same_hashes ts_hash ts_hash' t"
  shows "dead_inv ts_hash' t"
proof -
  have "dead_behind (mainposition ts_hash' t) (lt_node t)"
    unfolding dead_behind_def using assms same_hashes_main [OF assms(2)] by (metis dead_behindD dead_inv_def)
  then show ?thesis using assms(1) by (simp add: dead_inv_def)
qed

text \<open>
  The steps of \<open>vm_table\<close>, where a collectable key that is assigned is not at the address of another key of the table,
  and changes of the hashes at addresses that are no keys of the table. Objects that exist at the same time
  have different addresses, and the collector turns a key into a dead key before its object is freed, so every
  assignment of the VM is of this kind. The address of a dead key may be that of a new key.
\<close>

inductive gc_table :: "(u64 \<Rightarrow> u32) \<Rightarrow> 'v ltable \<Rightarrow> bool" where
  gc_new: "luaH_new narray nhash = Inr t \<Longrightarrow> gc_table ts_hash t"
| gc_set: "gc_table ts_hash t \<Longrightarrow> fresh_address t k \<Longrightarrow> luaH_set ts_hash t (Some k) = Inr (s, t') \<Longrightarrow> gc_table ts_hash (setobj s v t')"
| gc_setnum: "gc_table ts_hash t \<Longrightarrow> int32 i \<Longrightarrow> luaH_setnum ts_hash t i = Inr (s, t') \<Longrightarrow> gc_table ts_hash (setobj s v t')"
| gc_setstr: "gc_table ts_hash t \<Longrightarrow> fresh_address t (KString p) \<Longrightarrow> luaH_setstr ts_hash t p = Inr (s, t') \<Longrightarrow> gc_table ts_hash (setobj s v t')"
| gc_setp: "gc_table ts_hash t \<Longrightarrow> luaH_setp ts_hash t p tag = Inr (s, t') \<Longrightarrow> gc_table ts_hash (setobj s v t')"
| gc_resizearray: "gc_table ts_hash t \<Longrightarrow> sizearray t \<le> n \<Longrightarrow> n \<le> 2 ^ 30 \<Longrightarrow> luaH_resizearray ts_hash t n = Inr t' \<Longrightarrow> gc_table ts_hash t'"
| gc_resizehash: "gc_table ts_hash t \<Longrightarrow> length (node_list (lt_node t)) \<le> n \<Longrightarrow> luaH_resizehash ts_hash t n = Inr t' \<Longrightarrow> gc_table ts_hash t'"
| gc_getn: "gc_table ts_hash t \<Longrightarrow> luaH_getn t = Inr (n, t') \<Longrightarrow> gc_table ts_hash t'"
| gc_clear: "gc_table ts_hash t \<Longrightarrow> gc_table ts_hash (luaH_clear t)"
| gc_clone: "gc_table ts_hash t \<Longrightarrow> gc_table ts_hash (luaH_clone t)"
| gc_remove: "gc_table ts_hash t \<Longrightarrow> i < sizenode t \<Longrightarrow> removeentry i t = Inr t' \<Longrightarrow> gc_table ts_hash t'"
| gc_hash: "gc_table ts_hash t \<Longrightarrow> same_hashes ts_hash ts_hash' t \<Longrightarrow> gc_table ts_hash' t"

lemma gc_table_inv: "gc_table ts_hash t \<Longrightarrow> tab_inv ts_hash t"
  by (induction rule: gc_table.induct) (blast intro: table_step_inv tab_inv_hashes)+

lemma gc_table_dead: "gc_table ts_hash t \<Longrightarrow> dead_inv ts_hash t"
proof (induction rule: gc_table.induct)
  case (gc_resizearray ts_hash t n t')
  then obtain na nh where "resize (newkey rehash_depth ts_hash) t na nh = Inr t'" by (auto simp: luaH_resizearray_def bindE_Inr Let_def)
  then show ?case by (rule resize_dead [OF gc_resizearray.IH])
next
  case (gc_resizehash ts_hash t n t')
  then show ?case using resize_dead [OF gc_resizehash.IH] by (simp add: luaH_resizehash_def)
qed (blast intro: luaH_new_dead dead_inv_setobj luaH_set_dead luaH_setnum_dead luaH_setstr_dead luaH_setp_dead luaH_getn_dead luaH_clear_dead
  luaH_clone_dead removeentry_dead dead_inv_hashes gc_table_inv)+

section \<open>Finding a live key\<close>

text \<open>A walk stops at the first match: every match on the chain is reached through the one it finds.\<close>

lemma chain_find_first:
  assumes "chains (lt_node t)" "\<not> is_dummy t" "length (lt_node t) = sizenode t" "n < sizenode t"
    and "chain_find P t fuel n = Some (Some m)" "reach (lt_node t) n j" "P (n_key (lt_node t ! j))"
  shows "reach (lt_node t) m j"
  using assms(4-6)
proof (induction fuel arbitrary: n)
  case (Suc fuel)
  note g = gnode_eq [OF assms(2)]
  show ?case
  proof (cases "P (n_key (lt_node t ! n))")
    case False
    then have "n \<noteq> j" using assms(7) by blast
    then obtain n' where n': "nxt (lt_node t) n n'" "reach (lt_node t) n' j" using Suc.prems(3) by (auto elim: converse_rtranclpE)
    have e: "nat (int n + n_next (lt_node t ! n)) = n'" "n' < sizenode t" using n'(1) chains_range [OF assms(1) n'(1)] assms(3) by (auto simp: nxt_def)
    have "chain_find P t fuel n' = Some (Some m)"
      using Suc.prems(2) False n'(1) e by (auto simp: g Let_def split: if_splits)
    then show ?thesis using Suc.IH [OF e(2) _ n'(2)] by blast
  qed (use Suc.prems in \<open>simp add: g\<close>)
qed simp

end
