(* ===== verification/LuaTableNext.thy ===== *)
theory LuaTableNext
  imports LuaTableDead
begin

text \<open>
  Traversal: repeated calls of \<open>luaH_next\<close> visit the pairs of a table in the order of the array part and then
  of the nodes, each exactly once.
\<close>

section \<open>Finding a position\<close>

text \<open>
  \<open>findindex\<close> accepts a dead key with the address of the key it looks for. It finds the node of a live key:
  the walk stops at a match before which there is no other, and no dead key with its address is before the live key.
\<close>

lemma findindex_node:
  assumes inv: "tab_inv ts_hash t" "dead_inv ts_hash t" and n: "n < length (lt_node t)" "n_key (lt_node t ! n) = LiveKey k"
  shows "findindex ts_hash t (Some k) = Inr (int n + int (sizearray t))"
proof -
  let ?mp = "mainposition ts_hash t k"
  have nd: "\<not> is_dummy t" using n(1) by (auto simp: is_dummy_def)
  note h = hash_invD [OF tab_invD(1) [OF inv(1)] nd]
  have ch: "chains (lt_node t)" by (rule node_inv_chains [OF h(2)])
  have v: "valid_key k" and rn: "reach (lt_node t) ?mp n" by (rule node_inv_live [OF h(2) n])+
  have "k \<in> live_keys (lt_node t)" using n by (auto simp: live_keys_def)
  then have na: "\<not> (0 < key_index k \<and> key_index k \<le> int (sizearray t))" using tab_invD(4) [OF inv(1)] by force
  have mp: "?mp < length (lt_node t)" using h(1,6) by simp
  have pn: "next_match k (n_key (lt_node t ! n))" using keyeq_norm [OF v, of "LiveKey k"] v n(2) by (simp add: next_match_def)
  obtain r where r: "chain_find (next_match k) t (sizenode t) ?mp = Some r"
    "case r of Some m \<Rightarrow> reach (lt_node t) ?mp m \<and> next_match k (n_key (lt_node t ! m)) | None \<Rightarrow> \<forall>m. reach (lt_node t) ?mp m \<longrightarrow> \<not> next_match k (n_key (lt_node t ! m))"
    using chain_find_spec [of t "lt_node t" ?mp "sizenode t" "next_match k"] ch mp nd h(1) reach_set_bounds(2) [OF ch mp] by (auto simp: nodes_of_def is_dummy_def)
  then obtain m where m: "chain_find (next_match k) t (sizenode t) ?mp = Some (Some m)" "reach (lt_node t) ?mp m" "next_match k (n_key (lt_node t ! m))"
    using rn pn by (cases r) auto
  have ml: "m < length (lt_node t)" by (rule reach_range [OF m(2) ch mp])
  have mn: "reach (lt_node t) m n" using chain_find_first [OF ch nd _ _ m(1) rn pn] h(1) mp by simp
  have "m = n"
  proof (cases "n_key (lt_node t ! m)")
    case (DeadKey p)
    then have "gckey k = Some p" using m(3) by (simp add: next_match_def keyeq_def)
    moreover have "dead_behind (mainposition ts_hash t) (lt_node t)" using inv(2) by (simp add: dead_inv_def)
    ultimately have "reach (lt_node t) n m" using dead_behindD [of "mainposition ts_hash t" "lt_node t" n m k p] n ml DeadKey m(2) by blast
    then show ?thesis using mn chains_acyclic [OF ch] by (metis converse_rtranclpE rtranclp_trans)
  next
    case (LiveKey k')
    then have "norm_key k' = norm_key k" using m(3) keyeq_norm [OF v, of "LiveKey k'"] by (simp add: next_match_def)
    then show ?thesis by (rule node_inv_distinct [OF h(2) ml n(1) LiveKey n(2)])
  qed (use m(3) in \<open>simp add: next_match_def keyeq_def\<close>)
  then show ?thesis using m(1) na by (simp add: findindex_def key_index_def find_slot_def bindE_def Let_def)
qed

section \<open>The pairs from a position on\<close>

definition pairs_from :: "'v ltable \<Rightarrow> nat \<Rightarrow> (lkey \<times> 'v) list" where
  "pairs_from t i = arr_list i (drop i (lt_array t)) @ node_list (drop (i - sizearray t) (lt_node t))"

lemma pairs_from_0: "pairs_from t 0 = all_pairs t"
  by (simp add: pairs_from_def all_pairs_def)

definition first :: "'a list \<Rightarrow> 'a option" where
  "first xs = (case xs of [] \<Rightarrow> None | x # _ \<Rightarrow> Some x)"

lemma first_append: "first (xs @ ys) = (case first xs of None \<Rightarrow> first ys | Some x \<Rightarrow> Some x)"
  by (cases xs) (simp_all add: first_def)

lemma next_array_first: "next_array t [i..<sizearray t] = first (arr_list i (drop i (lt_array t)))"
proof (induction "sizearray t - i" arbitrary: i)
  case 0
  then show ?case by (simp add: first_def)
next
  case (Suc m)
  then have i: "i < sizearray t" "m = sizearray t - Suc i" by simp_all
  have d: "drop i (lt_array t) = lt_array t ! i # drop (Suc i) (lt_array t)" "[i..<sizearray t] = i # [Suc i..<sizearray t]"
    using i(1) by (simp_all add: Cons_nth_drop_Suc upt_conv_Cons)
  show ?case unfolding d using Suc.hyps(1) [OF i(2)] by (cases "lt_array t ! i") (simp_all add: first_def num_key_def add.commute)
qed

lemma next_node_first:
  assumes "tab_inv ts_hash t" "\<not> is_dummy t"
  shows "next_node t [i..<sizenode t] = Inr (first (node_list (drop i (lt_node t))))"
proof (induction "sizenode t - i" arbitrary: i)
  case 0
  then show ?case using hash_invD(1) [OF tab_invD(1) [OF assms(1)] assms(2)] by (simp add: first_def)
next
  case (Suc m)
  note h = hash_invD [OF tab_invD(1) [OF assms(1)] assms(2)]
  have i: "i < sizenode t" "m = sizenode t - Suc i" using Suc.hyps(2) by simp_all
  have d: "drop i (lt_node t) = lt_node t ! i # drop (Suc i) (lt_node t)" "[i..<sizenode t] = i # [Suc i..<sizenode t]"
    using i(1) h(1) by (simp_all add: Cons_nth_drop_Suc upt_conv_Cons)
  have live: "\<exists>k. n_key (lt_node t ! i) = LiveKey k" if "n_val (lt_node t ! i) \<noteq> None"
    using node_inv_value_key [OF h(2) _ that] i(1) h(1) by auto
  show ?case unfolding d using Suc.hyps(1) [OF i(2)] live
    by (cases "n_val (lt_node t ! i)"; cases "n_key (lt_node t ! i)") (simp_all add: first_def gnode_eq [OF assms(2)])
qed

lemma luaH_next_from:
  assumes inv: "tab_inv ts_hash t" and i: "findindex ts_hash t key = Inr (int i - 1)"
  shows "luaH_next ts_hash t key = Inr (first (pairs_from t i))"
proof -
  have "luaH_next ts_hash t key = (case next_array t [i..<sizearray t] of Some kv \<Rightarrow> Inr (Some kv) | None \<Rightarrow> next_node t [i - sizearray t..<sizenode t])"
  proof -
    have "nat (int i - 1 + 1) = i" by simp
    then show ?thesis using i unfolding luaH_next_def bindE_def Let_def by (simp only: sum.case)
  qed
  also have "\<dots> = Inr (first (pairs_from t i))"
  proof (cases "is_dummy t")
    case True
    have "next_node t [j..<sizenode t] = Inr None" for j
      using True tab_invD(1) [OF inv] by (cases j) (simp_all add: sizenode_def hash_inv_def gnode_def luaH_dummynode_def)
    then show ?thesis using True by (auto simp: next_array_first pairs_from_def is_dummy_def first_def split: list.splits)
  next
    case False
    then show ?thesis by (simp add: next_array_first next_node_first [OF inv False] pairs_from_def first_append split: option.split)
  qed
  finally show ?thesis .
qed

section \<open>Successors\<close>

lemma split_unique:
  assumes "distinct l" "l = xs @ p # ys" "l = xs' @ p # ys'"
  shows "ys = ys'"
proof -
  have "p \<notin> set xs'" "p \<notin> set ys'" using assms(1,3) by auto
  then show ?thesis using append_Cons_eq_iff [of p xs' ys' xs ys] assms(2,3) by metis
qed

lemma next_array_pair:
  assumes inv: "tab_inv ts_hash t" and p: "(k, v) \<in> set (arr_list 0 (lt_array t))"
  shows "\<exists>i xs. findindex ts_hash t (Some k) = Inr (int i - 1) \<and> all_pairs t = xs @ (k, v) # pairs_from t i"
proof -
  obtain i where i: "k = num_key (Suc i)" "i < sizearray t" "lt_array t ! i = Some v" using p by (auto simp: arr_list_set)
  have "key_index k = int (Suc i)" unfolding i(1) using tab_invD(2) [OF inv] i(2) by (intro num_key_index) (simp add: MAXSIZE_value)
  then have "findindex ts_hash t (Some k) = Inr (int (Suc i) - 1)" using i(2) by (simp add: findindex_def key_index_def Let_def)
  moreover have "lt_array t = take i (lt_array t) @ Some v # drop (Suc i) (lt_array t)" using id_take_nth_drop [OF i(2)] i(3) by simp
  then have "arr_list 0 (lt_array t) = arr_list 0 (take i (lt_array t)) @ (k, v) # arr_list (Suc i) (drop (Suc i) (lt_array t))"
    using i(1,2) arr_list_append [of 0 "take i (lt_array t)" "Some v # drop (Suc i) (lt_array t)"] by simp
  then have "all_pairs t = arr_list 0 (take i (lt_array t)) @ (k, v) # pairs_from t (Suc i)" using i(2) by (simp add: all_pairs_def pairs_from_def)
  ultimately show ?thesis by blast
qed

lemma next_node_pair:
  assumes inv: "tab_inv ts_hash t" "dead_inv ts_hash t" and p: "(k, v) \<in> set (node_list (lt_node t))"
  shows "\<exists>i xs. findindex ts_hash t (Some k) = Inr (int i - 1) \<and> all_pairs t = xs @ (k, v) # pairs_from t i"
proof -
  obtain n where n: "n < length (lt_node t)" "n_key (lt_node t ! n) = LiveKey k" "n_val (lt_node t ! n) = Some v"
    using p unfolding node_list_set by (auto simp: in_set_conv_nth)
  have "findindex ts_hash t (Some k) = Inr (int (Suc (n + sizearray t)) - 1)" using findindex_node [OF inv n(1,2)] by simp
  moreover have "node_list (lt_node t) = node_list (take n (lt_node t)) @ (k, v) # node_list (drop (Suc n) (lt_node t))"
    using node_list_append [of "take n (lt_node t)" "lt_node t ! n # drop (Suc n) (lt_node t)"] id_take_nth_drop [OF n(1)] n(2,3) by simp
  then have "all_pairs t = (arr_list 0 (lt_array t) @ node_list (take n (lt_node t))) @ (k, v) # pairs_from t (Suc (n + sizearray t))"
    by (simp add: all_pairs_def pairs_from_def)
  ultimately show ?thesis by blast
qed

lemma luaH_next_pair:
  assumes inv: "tab_inv ts_hash t" "dead_inv ts_hash t" and p: "all_pairs t = xs @ (k, v) # ys"
  shows "luaH_next ts_hash t (Some k) = Inr (first ys)"
proof -
  have "(k, v) \<in> set (all_pairs t)" using p by simp
  then have "(k, v) \<in> set (arr_list 0 (lt_array t)) \<or> (k, v) \<in> set (node_list (lt_node t))" by (simp add: all_pairs_def)
  then obtain i xs' where i: "findindex ts_hash t (Some k) = Inr (int i - 1)" "all_pairs t = xs' @ (k, v) # pairs_from t i"
    using next_array_pair [OF inv(1)] next_node_pair [OF inv] by blast
  have "distinct (all_pairs t)" using all_pairs_distinct [OF inv(1)] by (simp add: distinct_map)
  from split_unique [OF this p i(2)] show ?thesis using luaH_next_from [OF inv(1) i(1)] by simp
qed

text \<open>A traversal: \<open>next\<close> from nil until there are no more elements.\<close>

fun traverse :: "(u64 \<Rightarrow> u32) \<Rightarrow> 'v ltable \<Rightarrow> nat \<Rightarrow> lkey option \<Rightarrow> lt_error + (lkey \<times> 'v) list" where
  "traverse ts_hash t 0 key = Inl NoReturn"
| "traverse ts_hash t (Suc fuel) key =
     bindE (luaH_next ts_hash t key) (\<lambda>r. case r of None \<Rightarrow> Inr [] | Some (k, v) \<Rightarrow> map_sum id ((#) (k, v)) (traverse ts_hash t fuel (Some k)))"

lemma traverse_rest:
  assumes inv: "tab_inv ts_hash t" "dead_inv ts_hash t" and "all_pairs t = xs @ (k, v) # ys" "length ys < fuel"
  shows "traverse ts_hash t fuel (Some k) = Inr ys"
  using assms(3,4)
proof (induction ys arbitrary: xs k v fuel)
  case Nil
  then obtain f where "fuel = Suc f" by (cases fuel) auto
  then show ?case using luaH_next_pair [OF inv Nil(1)] by (simp add: bindE_def first_def)
next
  case (Cons p ys)
  obtain k' v' where p: "p = (k', v')" by (cases p)
  obtain f where f: "fuel = Suc f" "length ys < f" using Cons.prems(2) by (cases fuel) auto
  have "traverse ts_hash t f (Some k') = Inr ys" using Cons.IH [of "xs @ [(k, v)]" k' v' f] Cons.prems(1) p f by simp
  then show ?case using luaH_next_pair [OF inv Cons.prems(1)] f p by (simp add: bindE_def first_def)
qed

lemma traverse_all:
  assumes inv: "tab_inv ts_hash t" "dead_inv ts_hash t" and "length (all_pairs t) < fuel"
  shows "traverse ts_hash t fuel None = Inr (all_pairs t)"
proof -
  obtain f where f: "fuel = Suc f" using assms(3) by (cases fuel) auto
  have n: "luaH_next ts_hash t None = Inr (first (all_pairs t))"
    using luaH_next_from [OF inv(1), of None 0] by (simp add: findindex_def pairs_from_0)
  show ?thesis
  proof (cases "all_pairs t")
    case (Cons p ys)
    obtain k v where p: "p = (k, v)" by (cases p)
    have "traverse ts_hash t f (Some k) = Inr ys" using traverse_rest [OF inv, of "[]" k v ys f] Cons p assms(3) f by simp
    then show ?thesis using n Cons p f by (simp add: bindE_def first_def)
  qed (use n f in \<open>simp add: bindE_def first_def\<close>)
qed

section \<open>An address that is used again\<close>

text \<open>
  Two strings share a main position; the second loses its value, the collector makes it a dead key, its memory is
  used for another string with the same hash, and that string becomes a key. The table then has the address both in a dead key
  and in a live one.
\<close>

definition reuse_nodes :: "nat node list \<Rightarrow> int \<Rightarrow> nat ltable" where
  "reuse_nodes ns free = \<lparr>lt_tmcache = 0, lt_readonly = False, lt_safeenv = False, lt_lsizenode = 2, lt_nodemask8 = 3, lt_lastfree = free,
     lt_metatable = None, lt_array = [], lt_node = ns, lt_arrayptr = 0, lt_nodeptr = 1\<rparr>"

abbreviation reuse_node :: "nat option \<Rightarrow> tkey \<Rightarrow> int \<Rightarrow> nat node" where
  "reuse_node v k n \<equiv> \<lparr>n_val = v, n_key = k, n_next = n\<rparr>"

definition reuse_empty :: "nat ltable" where
  "reuse_empty = (reuse_nodes (replicate 4 luaH_dummynode) 4)\<lparr>lt_tmcache := 255\<rparr>"

definition reuse_one :: "nat ltable" where
  "reuse_one = reuse_nodes [luaH_dummynode, reuse_node (Some 1) (LiveKey (KString 8)) 0, luaH_dummynode, luaH_dummynode] 4"

definition reuse_two :: "nat option \<Rightarrow> tkey \<Rightarrow> nat ltable" where
  "reuse_two v k = reuse_nodes [luaH_dummynode, reuse_node (Some 1) (LiveKey (KString 8)) 2, luaH_dummynode, reuse_node v k 0] 3"

definition reuse_table :: "nat ltable" where
  "reuse_table = reuse_nodes [luaH_dummynode, reuse_node (Some 1) (LiveKey (KString 8)) 1,
     reuse_node (Some 3) (LiveKey (KString 16)) 1, reuse_node None (DeadKey 16) 0] 2"

lemma four_Suc: "(4 :: nat) = Suc (Suc (Suc (Suc 0)))"
  by simp

lemma reuse_addresses: "(8 :: u64) \<noteq> 16" "(16 :: u64) \<noteq> 8"
  by simp_all

lemmas reuse_simps = reuse_addresses demo_simps reuse_empty_def reuse_one_def reuse_two_def reuse_table_def reuse_nodes_def numeral_3_eq_3 four_Suc

lemma reuse_new: "luaH_new 0 4 = Inr reuse_empty"
proof -
  have c: "ceillog2 4 = 2" by (simp add: ceillog2_eq bit_length.simps)
  show ?thesis by (simp add: luaH_new_def reuse_empty_def reuse_nodes_def setnodevector_def c MAXBITS_def bindE_def Let_def)
qed

lemma reuse_set_first: "\<exists>t. luaH_setstr demo_hash reuse_empty 8 = Inr (NodeSlot 1, t) \<and> setobj (NodeSlot 1) (Some 1) t = reuse_one"
  by (simp add: reuse_simps del: word_eq_numeral_iff_iszero)

lemma reuse_set_second:
  "\<exists>t. luaH_setstr demo_hash reuse_one 16 = Inr (NodeSlot 3, t) \<and> setobj (NodeSlot 3) (Some 2) t = reuse_two (Some 2) (LiveKey (KString 16))"
  by (simp add: reuse_simps del: word_eq_numeral_iff_iszero)

lemma reuse_set_nil:
  "\<exists>t. luaH_setstr demo_hash (reuse_two (Some 2) (LiveKey (KString 16))) 16 = Inr (NodeSlot 3, t) \<and> setobj (NodeSlot 3) None t = reuse_two None (LiveKey (KString 16))"
  by (simp add: reuse_simps del: word_eq_numeral_iff_iszero)

lemma reuse_remove: "removeentry 3 (reuse_two None (LiveKey (KString 16))) = Inr (reuse_two None (DeadKey 16))"
  by (simp add: removeentry_def reuse_simps del: word_eq_numeral_iff_iszero)

lemma reuse_set_again: "\<exists>t. luaH_setstr demo_hash (reuse_two None (DeadKey 16)) 16 = Inr (NodeSlot 2, t) \<and> setobj (NodeSlot 2) (Some 3) t = reuse_table"
  by (simp add: reuse_simps del: word_eq_numeral_iff_iszero)

lemma strings_fresh:
  assumes "list_all (\<lambda>n. case n_key n of LiveKey k \<Rightarrow> (case k of KString q \<Rightarrow> True | _ \<Rightarrow> False) | _ \<Rightarrow> True) (lt_node t)"
  shows "fresh_address t (KString p)"
proof -
  have "\<exists>q. k = KString q" if k: "k \<in> insert (KString p) (live_keys (lt_node t))" for k
  proof (cases "k = KString p")
    case False
    then obtain i where "i < length (lt_node t)" "n_key (lt_node t ! i) = LiveKey k" using k unfolding live_keys_def by blast
    then show ?thesis using assms unfolding list_all_length by (cases k) auto
  qed simp
  then show ?thesis unfolding fresh_address_def one_per_address_def by (metis gckey.simps(1) option.inject)
qed

lemma reuse_gc_table: "gc_table demo_hash reuse_table"
proof -
  have f: "fresh_address reuse_empty (KString 8)" "fresh_address reuse_one (KString 16)"
    "fresh_address (reuse_two (Some 2) (LiveKey (KString 16))) (KString 16)" "fresh_address (reuse_two None (DeadKey 16)) (KString 16)"
    by (rule strings_fresh, simp add: reuse_simps)+
  have "gc_table demo_hash reuse_one" using gc_setstr [OF gc_new [OF reuse_new] f(1)] reuse_set_first by metis
  then have "gc_table demo_hash (reuse_two (Some 2) (LiveKey (KString 16)))" using gc_setstr [OF _ f(2)] reuse_set_second by metis
  then have "gc_table demo_hash (reuse_two None (LiveKey (KString 16)))" using gc_setstr [OF _ f(3)] reuse_set_nil by metis
  then have "gc_table demo_hash (reuse_two None (DeadKey 16))" by (rule gc_remove [OF _ _ reuse_remove]) (simp add: reuse_two_def reuse_nodes_def sizenode_def)
  then show ?thesis using gc_setstr [OF _ f(4)] reuse_set_again by metis
qed

text \<open>
  C14. Traversing a table with \<open>luaH_next\<close> ends and visits every pair exactly once: the keys visited are pairwise
  different up to raw equality, and a pair is visited exactly when a lookup of its key returns its value.
  The number of calls is bounded by the sizes of the two parts. The table is any the VM builds with a collector that
  leaves dead keys in the nodes, also when the address of a dead key belongs to a live key again; a collectable key
  is only assigned while no other key of the table has its address (\<open>gc_table\<close>).
\<close>

theorem table_traversal_complete:
  assumes "gc_table ts_hash t"
  shows "\<exists>ps. traverse ts_hash t (sizearray t + sizenode t + 1) None = Inr ps \<and> distinct (map (norm_key \<circ> fst) ps) \<and>
    (\<forall>k v. table_get ts_hash t (Some k) = Inr (Some v) \<longleftrightarrow> valid_key k \<and> (norm_key k, v) \<in> set (map norm_pair ps))"
proof -
  note inv = gc_table_inv [OF assms]
  have "length (lt_node t) \<le> sizenode t" using tab_invD(1) [OF inv] by (auto simp: hash_inv_def is_dummy_def split: if_splits)
  then have "length (all_pairs t) < sizearray t + sizenode t + 1" using card_stored [OF inv] all_pairs_card [OF inv] by simp
  from traverse_all [OF inv gc_table_dead [OF assms] this]
  have tr: "traverse ts_hash t (sizearray t + sizenode t + 1) None = Inr (all_pairs t)" .
  have "table_get ts_hash t (Some k) = Inr (Some v) \<longleftrightarrow> valid_key k \<and> (norm_key k, v) \<in> set (map norm_pair (all_pairs t))" for k v
    using table_get_spec(1) [OF inv, of k] lookup_iff [OF inv, of k v] stored_all_pairs [OF inv] by auto
  then show ?thesis using tr all_pairs_distinct [OF inv] by blast
qed

theorem table_traversal_complete_witness:
  "DeadKey 16 \<in> n_key ` set (lt_node reuse_table) \<and> LiveKey (KString 16) \<in> n_key ` set (lt_node reuse_table) \<and>
   (\<exists>ps. traverse demo_hash reuse_table (sizearray reuse_table + sizenode reuse_table + 1) None = Inr ps \<and> distinct (map (norm_key \<circ> fst) ps) \<and>
    (\<forall>k v. table_get demo_hash reuse_table (Some k) = Inr (Some v) \<longleftrightarrow> valid_key k \<and> (norm_key k, v) \<in> set (map norm_pair ps)))"
  using table_traversal_complete [OF reuse_gc_table] by (simp add: reuse_table_def reuse_nodes_def)

end
