(* ===== verification/TableSort.thy ===== *)
theory TableSort
  imports LuaTable "HOL-Library.Multiset"
begin

text \<open>
  \<^verbatim>\<open>table.sort\<close>, \<^verbatim>\<open>VM/src/ltablib.cpp\<close>: quicksort with a median of three, and heap sort once the recursion has used
  up its limit.

  The order predicate is a call into the running program. It may raise an error, answer inconsistently and change the
  table: it is a parameter that takes the state, the table and the rest of the world, and returns an answer or an error
  with the state it leaves. Errors keep the state they occur in, since a caller that catches the error sees it. Indices
  are below the array size, which is at most \<open>2 ^ 26\<close>, so the \<^verbatim>\<open>int\<close> arithmetic does not overflow; a decrement below 0, which
  would index outside of the array, is a failed assertion.
\<close>

section \<open>State, errors, sequencing\<close>

datatype 'e sort_error = SortAssert | TableModified | InvalidOrder | SortReadonly | SortLength lt_error | Raised 'e

type_synonym ('v, 'w) sort_state = "'v ltable \<times> 'w"
type_synonym ('a, 'e, 'v, 'w) sort_m = "('v, 'w) sort_state \<Rightarrow> ('e sort_error + 'a) \<times> ('v, 'w) sort_state"
type_synonym ('e, 'v, 'w) SortPredicate = "'v option \<Rightarrow> 'v option \<Rightarrow> ('v, 'w) sort_state \<Rightarrow> ('e + bool) \<times> ('v, 'w) sort_state"

definition ret :: "'a \<Rightarrow> ('a, 'e, 'v, 'w) sort_m" where
  "ret x s = (Inr x, s)"

definition throw :: "'e sort_error \<Rightarrow> ('a, 'e, 'v, 'w) sort_m" where
  "throw e s = (Inl e, s)"

definition sbind :: "('a, 'e, 'v, 'w) sort_m \<Rightarrow> ('a \<Rightarrow> ('b, 'e, 'v, 'w) sort_m) \<Rightarrow> ('b, 'e, 'v, 'w) sort_m" where
  "sbind m f s = (case m s of (Inl e, s') \<Rightarrow> (Inl e, s') | (Inr x, s') \<Rightarrow> f x s')"

lemma sbind_cong [fundef_cong]:
  assumes "m s = m' s'" "\<And>x t. m' s' = (Inr x, t) \<Longrightarrow> f x t = f' x t"
  shows "sbind m f s = sbind m' f' s'"
  using assms by (auto simp: sbind_def split: prod.splits sum.splits)

lemma sbind_Inr: "sbind m f s = (Inr y, s') \<longleftrightarrow> (\<exists>x t. m s = (Inr x, t) \<and> f x t = (Inr y, s'))"
  by (auto simp: sbind_def split: prod.splits sum.splits)

lemma ret_Inr [simp]: "ret x s = (Inr y, s') \<longleftrightarrow> x = y \<and> s = s'" "throw e s \<noteq> (Inr y, s')"
  by (simp_all add: ret_def throw_def)

definition arr :: "('v, 'w) sort_state \<Rightarrow> 'v option list" where
  "arr s = lt_array (fst s)"

definition set_arr :: "'v option list \<Rightarrow> ('v, 'w) sort_state \<Rightarrow> ('v, 'w) sort_state" where
  "set_arr a s = ((fst s)\<lparr>lt_array := a\<rparr>, snd s)"

section \<open>Comparing and swapping\<close>

definition sort_swap :: "nat \<Rightarrow> nat \<Rightarrow> (unit, 'e, 'v, 'w) sort_m" where
  "sort_swap i j s =
     (let a = arr s
      in if i < length a \<and> j < length a then ret () (set_arr (a[i := a ! j, j := a ! i]) s) else throw SortAssert s)"

definition sort_less :: "('e, 'v, 'w) SortPredicate \<Rightarrow> nat \<Rightarrow> nat \<Rightarrow> (bool, 'e, 'v, 'w) sort_m" where
  "sort_less pred i j s =
     (let a = arr s; n = length a
      in if i < n \<and> j < n
         then case pred (a ! i) (a ! j) s of
                (Inl e, s') \<Rightarrow> throw (Raised e) s'
              | (Inr res, s') \<Rightarrow> if length (arr s') \<noteq> n then throw TableModified s' else ret res s'
         else throw SortAssert s)"

section \<open>Heap sort\<close>

text \<open>The position among \<open>root\<close> and its two children that holds the largest value.\<close>

definition sift_next :: "('e, 'v, 'w) SortPredicate \<Rightarrow> nat \<Rightarrow> nat \<Rightarrow> (nat, 'e, 'v, 'w) sort_m" where
  "sift_next pred l root =
     (let left = root * 2 + 1; right = root * 2 + 2
      in sbind (sort_less pred (l + root) (l + left)) (\<lambda>b.
         let nxt = (if b then left else root)
         in sbind (sort_less pred (l + nxt) (l + right)) (\<lambda>b. ret (if b then right else nxt))))"

lemma sift_next_result: "sift_next pred l root s = (Inr nxt, s') \<Longrightarrow> nxt = root \<or> nxt = root * 2 + 1 \<or> nxt = root * 2 + 2"
  by (auto simp: sift_next_def Let_def sbind_def ret_def split: prod.splits sum.splits if_splits)

function sift_loop :: "('e, 'v, 'w) SortPredicate \<Rightarrow> nat \<Rightarrow> nat \<Rightarrow> nat \<Rightarrow> (nat, 'e, 'v, 'w) sort_m" where
  "sift_loop pred l cnt root s =
     (if root * 2 + 2 < cnt
      then sbind (sift_next pred l root) (\<lambda>nxt s.
             if nxt = root then ret root s
             else sbind (sort_swap (l + root) (l + nxt)) (\<lambda>_ s. sift_loop pred l cnt nxt s) s) s
      else ret root s)"
  by pat_completeness auto
termination
  by (relation "measure (\<lambda>(pred, l, cnt, root, s). cnt - root)") (auto dest!: sift_next_result)

declare sift_loop.simps [simp del]

definition sort_siftheap :: "('e, 'v, 'w) SortPredicate \<Rightarrow> nat \<Rightarrow> nat \<Rightarrow> nat \<Rightarrow> (unit, 'e, 'v, 'w) sort_m" where
  "sort_siftheap pred l u root =
     (if l \<le> u
      then let cnt = u - l + 1
           in sbind (sift_loop pred l cnt root) (\<lambda>root.
              let lastleft = root * 2 + 1
              in if lastleft = cnt - 1
                 then sbind (sort_less pred (l + root) (l + lastleft)) (\<lambda>b.
                      if b then sort_swap (l + root) (l + lastleft) else ret ())
                 else ret ())
      else throw SortAssert)"

text \<open>The two loops of the heap sort cnt down: from \<open>k - 1\<close> to 0, and from \<open>k\<close> to 1.\<close>

primrec heapify :: "('e, 'v, 'w) SortPredicate \<Rightarrow> nat \<Rightarrow> nat \<Rightarrow> nat \<Rightarrow> (unit, 'e, 'v, 'w) sort_m" where
  "heapify pred l u 0 = ret ()"
| "heapify pred l u (Suc i) = sbind (sort_siftheap pred l u i) (\<lambda>_. heapify pred l u i)"

primrec extract_max :: "('e, 'v, 'w) SortPredicate \<Rightarrow> nat \<Rightarrow> nat \<Rightarrow> (unit, 'e, 'v, 'w) sort_m" where
  "extract_max pred l 0 = ret ()"
| "extract_max pred l (Suc i) =
     sbind (sort_swap l (l + Suc i)) (\<lambda>_. sbind (sort_siftheap pred l (l + Suc i - 1) 0) (\<lambda>_. extract_max pred l i))"

definition sort_heap :: "('e, 'v, 'w) SortPredicate \<Rightarrow> nat \<Rightarrow> nat \<Rightarrow> (unit, 'e, 'v, 'w) sort_m" where
  "sort_heap pred l u =
     (if l \<le> u
      then let cnt = u - l + 1
           in sbind (heapify pred l u (cnt div 2)) (\<lambda>_. extract_max pred l (cnt - 1))
      else throw SortAssert)"

section \<open>Quicksort\<close>

function scan_up :: "('e, 'v, 'w) SortPredicate \<Rightarrow> nat \<Rightarrow> nat \<Rightarrow> nat \<Rightarrow> (nat, 'e, 'v, 'w) sort_m" where
  "scan_up pred u p i s =
     (let i = i + 1
      in sbind (sort_less pred i p) (\<lambda>b s.
         if b then if i \<ge> u then throw InvalidOrder s else scan_up pred u p i s else ret i s) s)"
  by pat_completeness auto
termination
  by (relation "measure (\<lambda>(pred, u, p, i, s). u - i)") auto

fun scan_down :: "('e, 'v, 'w) SortPredicate \<Rightarrow> nat \<Rightarrow> nat \<Rightarrow> nat \<Rightarrow> (nat, 'e, 'v, 'w) sort_m" where
  "scan_down pred l p 0 s = throw SortAssert s"
| "scan_down pred l p (Suc j) s =
     sbind (sort_less pred p j) (\<lambda>b s.
       if b then if j \<le> l then throw InvalidOrder s else scan_down pred l p j s else ret j s) s"

declare scan_up.simps [simp del] scan_down.simps [simp del]

lemma scan_up_result: "scan_up pred u p i s = (Inr i', s') \<Longrightarrow> i < i' \<and> i' \<le> max u (i + 1)"
proof (induction pred u p i s rule: scan_up.induct)
  case (1 pred u p i s)
  from "1.prems" obtain b t where sl: "sort_less pred (i + 1) p s = (Inr b, t)"
    and rest: "(if b then if i + 1 \<ge> u then throw InvalidOrder t else scan_up pred u p (i + 1) t else ret (i + 1) t) = (Inr i', s')"
    unfolding scan_up.simps [of pred u p i s] Let_def sbind_Inr by blast
  then show ?case using "1.IH" [OF refl sl] by (force split: if_splits)
qed

lemma scan_down_result: "scan_down pred l p j s = (Inr j', s') \<Longrightarrow> j' < j \<and> min l (j - 1) \<le> j'"
proof (induction pred l p j s rule: scan_down.induct)
  case (2 pred l p j s)
  from "2.prems" obtain b t where sl: "sort_less pred p j s = (Inr b, t)"
    and rest: "(if b then if j \<le> l then throw InvalidOrder t else scan_down pred l p j t else ret j t) = (Inr j', s')"
    unfolding scan_down.simps(2) [of pred l p j s] sbind_Inr by blast
  then show ?case using "2.IH" [OF sl] by (force split: if_splits)
qed (simp add: scan_down.simps throw_def)

text \<open>The partition of \<open>l..u\<close> around the pivot at \<open>u - 1\<close>: the index where the scans meet.\<close>

function partition_loop :: "('e, 'v, 'w) SortPredicate \<Rightarrow> nat \<Rightarrow> nat \<Rightarrow> nat \<Rightarrow> nat \<Rightarrow> nat \<Rightarrow> (nat, 'e, 'v, 'w) sort_m" where
  "partition_loop pred l u p i j s =
     sbind (scan_up pred u p i) (\<lambda>i. sbind (scan_down pred l p j) (\<lambda>j s.
       if j < i then ret i s
       else sbind (sort_swap i j) (\<lambda>_ s. partition_loop pred l u p i j s) s)) s"
  by pat_completeness auto
termination
  by (relation "measure (\<lambda>(pred, l, u, p, i, j, s). j - i)") (auto dest!: scan_up_result scan_down_result)

declare partition_loop.simps [simp del]

lemma partition_result:
  "partition_loop pred l u p i j s = (Inr i', s') \<Longrightarrow> j \<le> u \<Longrightarrow> i < u \<Longrightarrow> i < i' \<and> i' \<le> u"
  for pred :: "('e, 'v, 'w) SortPredicate"
proof (induction pred l u p i j s rule: partition_loop.induct)
  case (1 pred l u p i j s)
  from "1.prems"(1) obtain i1 t1 j1 t2 where up: "scan_up pred u p i s = (Inr i1, t1)"
    and down: "scan_down pred l p j t1 = (Inr j1, t2)"
    and rest: "(if j1 < i1 then ret i1 t2 else sbind (sort_swap i1 j1) (\<lambda>_ s. partition_loop pred l u p i1 j1 s) t2) = (Inr i', s')"
    unfolding partition_loop.simps [of pred l u p i j s] sbind_Inr by blast
  note b = scan_up_result [OF up] scan_down_result [OF down]
  show ?case
  proof (cases "j1 < i1")
    case True
    then show ?thesis using rest b "1.prems" by auto
  next
    case False
    then obtain x t3 where "(sort_swap i1 j1 :: (unit, 'e, 'v, 'w) sort_m) t2 = (Inr x, t3)" "partition_loop pred l u p i1 j1 t3 = (Inr i', s')"
      using rest by (simp only: if_False sbind_Inr) blast
    then show ?thesis using "1.IH" [OF up down False] b "1.prems" False by fastforce
  qed
qed

definition order_ends :: "('e, 'v, 'w) SortPredicate \<Rightarrow> nat \<Rightarrow> nat \<Rightarrow> (unit, 'e, 'v, 'w) sort_m" where
  "order_ends pred l u = sbind (sort_less pred u l) (\<lambda>b. if b then sort_swap u l else ret ())"

definition order_middle :: "('e, 'v, 'w) SortPredicate \<Rightarrow> nat \<Rightarrow> nat \<Rightarrow> nat \<Rightarrow> (unit, 'e, 'v, 'w) sort_m" where
  "order_middle pred l m u =
     sbind (sort_less pred m l) (\<lambda>b.
       if b then sort_swap m l
       else sbind (sort_less pred u m) (\<lambda>b. if b then sort_swap m u else ret ()))"

definition partition_step :: "('e, 'v, 'w) SortPredicate \<Rightarrow> nat \<Rightarrow> nat \<Rightarrow> nat \<Rightarrow> (nat, 'e, 'v, 'w) sort_m" where
  "partition_step pred l m u =
     (let p = u - 1
      in sbind (sort_swap m (u - 1)) (\<lambda>_.
         sbind (partition_loop pred l u p l (u - 1)) (\<lambda>i.
         sbind (sort_swap p i) (\<lambda>_. ret i))))"

lemma partition_step_result: "partition_step pred l m u s = (Inr i, s') \<Longrightarrow> l < u \<Longrightarrow> l < i \<and> i \<le> u"
  by (auto simp: partition_step_def Let_def sbind_Inr dest!: partition_result)

function sort_rec :: "('e, 'v, 'w) SortPredicate \<Rightarrow> nat \<Rightarrow> nat \<Rightarrow> nat \<Rightarrow> (unit, 'e, 'v, 'w) sort_m" where
  "sort_rec pred l u limit s =
     (if l < u then
        if limit = 0 then sort_heap pred l u s
        else sbind (order_ends pred l u) (\<lambda>_ s.
          if u - l = 1 then ret () s
          else let m = l + (u - l) div 2
               in sbind (order_middle pred l m u) (\<lambda>_ s.
                  if u - l = 2 then ret () s
                  else sbind (partition_step pred l m u) (\<lambda>i s.
                       let limit = limit div 2 + limit div 4
                       in if i - l < u - i
                          then sbind (sort_rec pred l (i - 1) limit) (\<lambda>_ s. sort_rec pred (i + 1) u limit s) s
                          else sbind (sort_rec pred (i + 1) u limit) (\<lambda>_ s. sort_rec pred l (i - 1) limit s) s) s) s) s
      else ret () s)"
  by pat_completeness auto
termination
  by (relation "measure (\<lambda>(pred, l, u, limit, s). u - l)") (auto dest!: partition_step_result)

declare sort_rec.simps [simp del]

definition tsort :: "('e, 'v, 'w) SortPredicate \<Rightarrow> (unit, 'e, 'v, 'w) sort_m" where
  "tsort pred s =
     (case luaH_getn (fst s) of
        Inl e \<Rightarrow> throw (SortLength e) s
      | Inr (n, t) \<Rightarrow>
          let s = (t, snd s)
          in if lt_readonly t then throw SortReadonly s
             else if n > 0 then sort_rec pred 0 (n - 1) n s else ret () s)"

section \<open>Invariants of the sort\<close>

text \<open>
  \<open>keeps I E m Q\<close>: started in a state with \<open>I\<close>, \<open>m\<close> either returns a result with \<open>Q\<close> in a state with \<open>I\<close>, or stops with
  an error that \<open>E\<close> admits there.
\<close>

definition keeps :: "(('v, 'w) sort_state \<Rightarrow> bool) \<Rightarrow> ('e sort_error \<Rightarrow> ('v, 'w) sort_state \<Rightarrow> bool) \<Rightarrow> ('a, 'e, 'v, 'w) sort_m \<Rightarrow> ('a \<Rightarrow> bool) \<Rightarrow> bool" where
  "keeps I E m Q \<longleftrightarrow> (\<forall>s. I s \<longrightarrow> (case m s of (Inl e, s') \<Rightarrow> E e s' | (Inr x, s') \<Rightarrow> I s' \<and> Q x))"

lemma keeps_ret [intro!]: "Q x \<Longrightarrow> keeps I E (ret x) Q"
  by (simp add: keeps_def ret_def)

lemma keeps_bind:
  assumes "keeps I E m Q" "\<And>x. Q x \<Longrightarrow> keeps I E (f x) R"
  shows "keeps I E (sbind m f) R"
  unfolding keeps_def
proof (intro allI impI)
  fix s assume s: "I s"
  obtain r s' where ms: "m s = (r, s')" by (meson surj_pair)
  note m = assms(1) [unfolded keeps_def, rule_format, OF s]
  show "case sbind m f s of (Inl e, s') \<Rightarrow> E e s' | (Inr x, s') \<Rightarrow> I s' \<and> R x"
  proof (cases r)
    case (Inl e)
    then show ?thesis using m ms by (simp add: sbind_def)
  next
    case (Inr x)
    then have "I s'" "Q x" using m ms by simp_all
    then show ?thesis using assms(2) [unfolded keeps_def, rule_format, of x s'] ms Inr by (simp add: sbind_def)
  qed
qed

lemma keeps_result: "keeps I E m Q \<Longrightarrow> (\<And>s x s'. m s = (Inr x, s') \<Longrightarrow> R x) \<Longrightarrow> keeps I E m (\<lambda>x. Q x \<and> R x)"
  unfolding keeps_def by (fastforce split: prod.splits sum.splits)

lemma keeps_if: "(b \<Longrightarrow> keeps I E m Q) \<Longrightarrow> (\<not> b \<Longrightarrow> keeps I E m' Q) \<Longrightarrow> keeps I E (if b then m else m') Q"
  by simp

text \<open>The recursions as equations between computations.\<close>

lemma sift_loop_unfold:
  "sift_loop pred l cnt root =
     (if root * 2 + 2 < cnt
      then sbind (sift_next pred l root) (\<lambda>nxt.
             if nxt = root then ret root else sbind (sort_swap (l + root) (l + nxt)) (\<lambda>_. sift_loop pred l cnt nxt))
      else ret root)"
  by (rule ext, subst sift_loop.simps) (auto simp: if_distribR intro!: sbind_cong)

lemma scan_up_unfold:
  "scan_up pred u p i =
     sbind (sort_less pred (i + 1) p) (\<lambda>b. if b then if i + 1 \<ge> u then throw InvalidOrder else scan_up pred u p (i + 1) else ret (i + 1))"
  by (rule ext, subst scan_up.simps) (auto simp: Let_def if_distribR intro!: sbind_cong)

lemma scan_down_unfold:
  "scan_down pred l p (Suc j) =
     sbind (sort_less pred p j) (\<lambda>b. if b then if j \<le> l then throw InvalidOrder else scan_down pred l p j else ret j)"
  by (rule ext, subst scan_down.simps) (auto simp: if_distribR intro!: sbind_cong)

lemma partition_loop_unfold:
  "partition_loop pred l u p i j =
     sbind (scan_up pred u p i) (\<lambda>i. sbind (scan_down pred l p j) (\<lambda>j.
       if j < i then ret i else sbind (sort_swap i j) (\<lambda>_. partition_loop pred l u p i j)))"
  by (rule ext, subst partition_loop.simps) (auto simp: if_distribR intro!: sbind_cong)

lemma sort_rec_unfold:
  "sort_rec pred l u limit =
     (if l < u then
        if limit = 0 then sort_heap pred l u
        else sbind (order_ends pred l u) (\<lambda>_.
          if u - l = 1 then ret ()
          else let m = l + (u - l) div 2
               in sbind (order_middle pred l m u) (\<lambda>_.
                  if u - l = 2 then ret ()
                  else sbind (partition_step pred l m u) (\<lambda>i.
                       let limit = limit div 2 + limit div 4
                       in if i - l < u - i
                          then sbind (sort_rec pred l (i - 1) limit) (\<lambda>_. sort_rec pred (i + 1) u limit)
                          else sbind (sort_rec pred (i + 1) u limit) (\<lambda>_. sort_rec pred l (i - 1) limit))))
      else ret ())"
  by (rule ext, subst sort_rec.simps) (auto simp: Let_def if_distribR intro!: sbind_cong)

locale sort_invariant =
  fixes pred :: "('e, 'v, 'w) SortPredicate"
    and lo hi :: nat
    and I :: "('v, 'w) sort_state \<Rightarrow> bool"
    and E :: "'e sort_error \<Rightarrow> ('v, 'w) sort_state \<Rightarrow> bool"
  assumes I_range: "I s \<Longrightarrow> hi < length (arr s)"
    and less_I: "I s \<Longrightarrow> i \<in> {lo..hi} \<Longrightarrow> j \<in> {lo..hi} \<Longrightarrow> sort_less pred i j s = (Inr b, s') \<Longrightarrow> I s'"
    and less_E: "I s \<Longrightarrow> i \<in> {lo..hi} \<Longrightarrow> j \<in> {lo..hi} \<Longrightarrow> sort_less pred i j s = (Inl e, s') \<Longrightarrow> E e s'"
    and swap_I: "I s \<Longrightarrow> i \<in> {lo..hi} \<Longrightarrow> j \<in> {lo..hi} \<Longrightarrow> I (set_arr ((arr s)[i := arr s ! j, j := arr s ! i]) s)"
    and order_E: "I s \<Longrightarrow> E InvalidOrder s"
begin

abbreviation runs :: "('a, 'e, 'v, 'w) sort_m \<Rightarrow> ('a \<Rightarrow> bool) \<Rightarrow> bool" where
  "runs \<equiv> keeps I E"

lemma less_runs: "i \<in> {lo..hi} \<Longrightarrow> j \<in> {lo..hi} \<Longrightarrow> runs (sort_less pred i j) (\<lambda>_. True)"
  unfolding keeps_def using less_I less_E by (fastforce split: prod.splits sum.splits)

lemma swap_runs: "i \<in> {lo..hi} \<Longrightarrow> j \<in> {lo..hi} \<Longrightarrow> runs (sort_swap i j) (\<lambda>_. True)"
  unfolding keeps_def sort_swap_def Let_def ret_def using I_range swap_I by fastforce

lemma order_runs: "runs (throw InvalidOrder) Q"
  by (simp add: keeps_def throw_def order_E)

lemma sift_next_runs:
  "lo \<le> l \<Longrightarrow> l + (root * 2 + 2) \<le> hi \<Longrightarrow>
   runs (sift_next pred l root) (\<lambda>nxt. True \<and> (nxt = root \<or> nxt = root * 2 + 1 \<or> nxt = root * 2 + 2))"
  by (rule keeps_result [OF _ sift_next_result], assumption | unfold sift_next_def Let_def)+
    (intro keeps_bind [OF less_runs] keeps_ret; auto)

lemma sift_loop_runs:
  "lo \<le> l \<Longrightarrow> l + cnt \<le> hi + 1 \<Longrightarrow> root < cnt \<Longrightarrow> runs (sift_loop pred l cnt root) (\<lambda>r. r < cnt)"
proof (induction "cnt - root" arbitrary: root rule: less_induct)
  case less
  show ?case
  proof (subst sift_loop_unfold, intro keeps_if)
    assume c: "root * 2 + 2 < cnt"
    show "runs (sbind (sift_next pred l root) (\<lambda>nxt. if nxt = root then ret root
        else sbind (sort_swap (l + root) (l + nxt)) (\<lambda>_. sift_loop pred l cnt nxt))) (\<lambda>r. r < cnt)"
    proof (rule keeps_bind [OF sift_next_runs], goal_cases)
      case (3 nxt)
      then show ?case using c less.prems
        by (intro keeps_if keeps_ret keeps_bind [OF swap_runs] less.hyps) auto
    qed (use c less.prems in auto)
  qed (use less.prems in auto)
qed

lemma siftheap_runs: "lo \<le> l \<Longrightarrow> l + root \<le> u \<Longrightarrow> u \<le> hi \<Longrightarrow> runs (sort_siftheap pred l u root) (\<lambda>_. True)"
  unfolding sort_siftheap_def Let_def
  by (rule keeps_if, rule keeps_bind [OF sift_loop_runs])
    (auto intro!: keeps_if keeps_ret keeps_bind [OF less_runs] swap_runs)

lemma heapify_runs: "lo \<le> l \<Longrightarrow> l + k \<le> u + 1 \<Longrightarrow> u \<le> hi \<Longrightarrow> runs (heapify pred l u k) (\<lambda>_. True)"
  by (induction k) (auto intro!: keeps_bind [OF siftheap_runs])

lemma extract_runs: "lo \<le> l \<Longrightarrow> l + k \<le> hi \<Longrightarrow> runs (extract_max pred l k) (\<lambda>_. True)"
  by (induction k) (auto intro!: keeps_bind [OF swap_runs] keeps_bind [OF siftheap_runs])

lemma heap_runs: "lo \<le> l \<Longrightarrow> l \<le> u \<Longrightarrow> u \<le> hi \<Longrightarrow> runs (sort_heap pred l u) (\<lambda>_. True)"
  unfolding sort_heap_def Let_def by (simp, intro keeps_bind [OF heapify_runs] extract_runs) auto

lemma scan_up_runs:
  "lo \<le> i + 1 \<Longrightarrow> i < u \<Longrightarrow> u \<le> hi \<Longrightarrow> p \<in> {lo..hi} \<Longrightarrow> runs (scan_up pred u p i) (\<lambda>_. True)"
proof (induction "u - i" arbitrary: i rule: less_induct)
  case less
  then show ?case
    by (subst scan_up_unfold) (auto intro!: keeps_bind [OF less_runs] order_runs keeps_if)
qed

lemma scan_down_runs:
  "lo \<le> l \<Longrightarrow> l < j \<Longrightarrow> j \<le> hi \<Longrightarrow> p \<in> {lo..hi} \<Longrightarrow> runs (scan_down pred l p j) (\<lambda>_. True)"
proof (induction j)
  case (Suc j)
  then show ?case
    by (subst scan_down_unfold) (auto intro!: keeps_bind [OF less_runs] order_runs keeps_if)
qed simp

lemmas scan_up_bounds = keeps_result [OF scan_up_runs scan_up_result]
lemmas scan_down_bounds = keeps_result [OF scan_down_runs scan_down_result]

lemma partition_runs:
  "lo \<le> l \<Longrightarrow> l \<le> i \<Longrightarrow> i < u \<Longrightarrow> l < j \<Longrightarrow> j \<le> u \<Longrightarrow> u \<le> hi \<Longrightarrow> p \<in> {lo..hi} \<Longrightarrow>
   runs (partition_loop pred l u p i j) (\<lambda>_. True)"
proof (induction "j - i" arbitrary: i j rule: less_induct)
  case less
  have up: "runs (scan_up pred u p i) (\<lambda>i'. True \<and> i < i' \<and> i' \<le> max u (i + 1))"
    by (rule scan_up_bounds) (use less.prems in auto)
  have down: "runs (scan_down pred l p j) (\<lambda>j'. True \<and> j' < j \<and> min l (j - 1) \<le> j')"
    by (rule scan_down_bounds) (use less.prems in auto)
  show ?case
  proof (subst partition_loop_unfold, rule keeps_bind [OF up], rule keeps_bind [OF down])
    fix i' j' assume "True \<and> i < i' \<and> i' \<le> max u (i + 1)" "True \<and> j' < j \<and> min l (j - 1) \<le> j'"
    then show "runs (if j' < i' then ret i' else sbind (sort_swap i' j') (\<lambda>_. partition_loop pred l u p i' j')) (\<lambda>_. True)"
      using less.prems by (intro keeps_if keeps_ret keeps_bind [OF swap_runs] less.hyps) auto
  qed
qed

lemma partition_step_runs:
  assumes "lo \<le> l" "l + 1 < u" "m \<in> {l..u}" "u \<le> hi"
  shows "runs (partition_step pred l m u) (\<lambda>_. True)"
proof -
  have "runs (partition_loop pred l u (u - 1) l (u - 1)) (\<lambda>i. True \<and> l < i \<and> i \<le> u)"
    by (rule keeps_result, rule partition_runs) (use assms partition_result [of pred l u "u - 1" l "u - 1"] in auto)
  note part = this
  show ?thesis
    unfolding partition_step_def Let_def
    by (rule keeps_bind [OF swap_runs], use assms in force, use assms in force, rule keeps_bind [OF part], rule keeps_bind [OF swap_runs])
      (use assms in auto)
qed

lemma order_ends_runs: "l \<in> {lo..hi} \<Longrightarrow> u \<in> {lo..hi} \<Longrightarrow> runs (order_ends pred l u) (\<lambda>_. True)"
  unfolding order_ends_def by (intro keeps_bind [OF less_runs] keeps_if swap_runs keeps_ret) auto

lemma order_middle_runs:
  "l \<in> {lo..hi} \<Longrightarrow> m \<in> {lo..hi} \<Longrightarrow> u \<in> {lo..hi} \<Longrightarrow> runs (order_middle pred l m u) (\<lambda>_. True)"
  unfolding order_middle_def by (intro keeps_bind [OF less_runs] keeps_if swap_runs keeps_ret) auto

lemma sort_rec_runs: "lo \<le> l \<Longrightarrow> u \<le> hi \<Longrightarrow> runs (sort_rec pred l u limit) (\<lambda>_. True)"
proof (induction "u - l" arbitrary: l u limit rule: less_induct)
  case less
  have part: "runs (partition_step pred l m u) (\<lambda>i. True \<and> l < i \<and> i \<le> u)" if "l + 1 < u" "m \<in> {l..u}" for m
    by (rule keeps_result, rule partition_step_runs) (use that less.prems partition_step_result [of pred l m u] in auto)
  have halves: "runs (if i - l < u - i
      then sbind (sort_rec pred l (i - 1) k) (\<lambda>_. sort_rec pred (i + 1) u k)
      else sbind (sort_rec pred (i + 1) u k) (\<lambda>_. sort_rec pred l (i - 1) k)) (\<lambda>_. True)" if "l < i" "i \<le> u" for i k
    using that less.prems by (intro keeps_if keeps_bind [OF less.hyps] less.hyps) auto
  show ?case
  proof (subst sort_rec_unfold, unfold Let_def, intro keeps_if keeps_ret)
    show "runs (sort_heap pred l u) (\<lambda>_. True)" if "l < u" by (rule heap_runs) (use that less.prems in auto)
    assume "l < u"
    then show "runs (sbind (order_ends pred l u) (\<lambda>_.
          if u - l = 1 then ret ()
          else sbind (order_middle pred l (l + (u - l) div 2) u) (\<lambda>_.
               if u - l = 2 then ret ()
               else sbind (partition_step pred l (l + (u - l) div 2) u) (\<lambda>i.
                    if i - l < u - i
                    then sbind (sort_rec pred l (i - 1) (limit div 2 + limit div 4)) (\<lambda>_. sort_rec pred (i + 1) u (limit div 2 + limit div 4))
                    else sbind (sort_rec pred (i + 1) u (limit div 2 + limit div 4)) (\<lambda>_. sort_rec pred l (i - 1) (limit div 2 + limit div 4)))))) (\<lambda>_. True)"
      using less.prems
      by (intro keeps_bind [OF order_ends_runs] keeps_if keeps_ret keeps_bind [OF order_middle_runs] keeps_bind [OF part] halves) auto
  qed auto
qed

end

section \<open>Any predicate\<close>

text \<open>Whatever the predicate does, the array keeps its size as long as the sort runs.\<close>

definition in_bounds :: "nat \<Rightarrow> ('v, 'w) sort_state \<Rightarrow> bool" where
  "in_bounds hi s \<longleftrightarrow> hi < length (arr s)"

lemma arr_set_arr [simp]: "arr (set_arr a s) = a"
  by (simp add: arr_def set_arr_def)

text \<open>The errors a sort that started can end with.\<close>

definition proper_error :: "'e sort_error \<Rightarrow> bool" where
  "proper_error e = (case e of TableModified \<Rightarrow> True | InvalidOrder \<Rightarrow> True | Raised _ \<Rightarrow> True | _ \<Rightarrow> False)"

interpretation any_pred: sort_invariant pred 0 hi "in_bounds hi" "\<lambda>e s. proper_error e" for pred hi
  by unfold_locales
    (auto simp: in_bounds_def proper_error_def sort_less_def Let_def ret_def throw_def split: prod.splits sum.splits if_splits)

section \<open>Predicates that leave the table alone\<close>

definition quiet :: "('v option \<Rightarrow> 'v option \<Rightarrow> 'w \<Rightarrow> ('e + bool) \<times> 'w) \<Rightarrow> ('e, 'v, 'w) SortPredicate" where
  "quiet f x y s = (case f x y (snd s) of (r, w) \<Rightarrow> (r, (fst s, w)))"

definition perm_in :: "nat \<Rightarrow> nat \<Rightarrow> 'a list \<Rightarrow> 'a list \<Rightarrow> bool" where
  "perm_in lo hi a b \<longleftrightarrow> mset b = mset a \<and> (\<forall>k. k < lo \<or> hi < k \<longrightarrow> b ! k = a ! k)"

definition permuted :: "nat \<Rightarrow> nat \<Rightarrow> 'v ltable \<Rightarrow> ('v, 'w) sort_state \<Rightarrow> bool" where
  "permuted lo hi t s \<longleftrightarrow> hi < length (lt_array t) \<and> perm_in lo hi (lt_array t) (arr s) \<and> fst s = t\<lparr>lt_array := arr s\<rparr>"

lemma perm_in_length: "perm_in lo hi a b \<Longrightarrow> length b = length a"
  unfolding perm_in_def using mset_eq_length by blast

lemma perm_in_swap:
  "perm_in lo hi a b \<Longrightarrow> i \<in> {lo..hi} \<Longrightarrow> j \<in> {lo..hi} \<Longrightarrow> hi < length a \<Longrightarrow> perm_in lo hi a (b[i := b ! j, j := b ! i])"
  using perm_in_length [of lo hi a b] by (auto simp: perm_in_def mset_swap nth_list_update)

interpretation quiet_pred: sort_invariant "quiet f" lo hi "permuted lo hi t"
  "\<lambda>e s. permuted lo hi t s \<and> e \<noteq> TableModified" for f lo hi t
proof (unfold_locales, goal_cases)
  case (1 s)
  then show ?case using perm_in_length by (fastforce simp: permuted_def)
next
  case (2 s i j b s')
  then show ?case
    by (auto simp: sort_less_def quiet_def Let_def ret_def throw_def arr_def permuted_def split: prod.splits sum.splits if_splits)
next
  case (3 s i j e s')
  then show ?case using perm_in_length [of lo hi "lt_array t" "arr s"]
    by (auto simp: sort_less_def quiet_def Let_def ret_def throw_def arr_def permuted_def split: prod.splits sum.splits if_splits)
next
  case (4 s i j)
  then show ?case using perm_in_swap [of lo hi "lt_array t" "arr s" i j]
    by (simp add: permuted_def) (simp add: set_arr_def)
next
  case (5 s)
  then show ?case by simp
qed

end
