(* ===== verification/TableSortOrder.thy ===== *)
theory TableSortOrder
  imports TableSort
begin

text \<open>
  \<^verbatim>\<open>table.sort\<close> with a predicate that answers like a strict weak order on the values of the array: the sort raises no error and
  leaves the array in order.
\<close>

section \<open>Runs that return\<close>

text \<open>\<open>yields m a Q\<close>: on a table with the array \<open>a\<close>, \<open>m\<close> returns a result and changes only the array, as \<open>Q\<close> says.\<close>

definition yields :: "('a, 'e, 'v, 'w) sort_m \<Rightarrow> 'v option list \<Rightarrow> ('a \<Rightarrow> 'v option list \<Rightarrow> bool) \<Rightarrow> bool" where
  "yields m a Q \<longleftrightarrow> (\<forall>t w. lt_array t = a \<longrightarrow> (\<exists>x b w'. m (t, w) = (Inr x, (t\<lparr>lt_array := b\<rparr>, w')) \<and> Q x b))"

lemma yields_ret: "Q x a \<Longrightarrow> yields (ret x) a Q"
  by (force simp: yields_def ret_def)

lemma yields_bind:
  fixes m :: "('a, 'e, 'v, 'w) sort_m"
  assumes "yields m a Q" "\<And>x b. Q x b \<Longrightarrow> yields (f x) b R"
  shows "yields (sbind m f) a R"
  unfolding yields_def
proof (intro allI impI)
  fix t :: "'v ltable" and w :: 'w assume t: "lt_array t = a"
  from assms(1) t obtain x b w' where m: "m (t, w) = (Inr x, (t\<lparr>lt_array := b\<rparr>, w'))" "Q x b"
    unfolding yields_def by blast
  have "lt_array (t\<lparr>lt_array := b\<rparr>) = b" by simp
  then obtain y c w'' where "f x (t\<lparr>lt_array := b\<rparr>, w') = (Inr y, ((t\<lparr>lt_array := b\<rparr>)\<lparr>lt_array := c\<rparr>, w''))" "R y c"
    using assms(2) [OF m(2)] unfolding yields_def by blast
  then show "\<exists>y c w'. sbind m f (t, w) = (Inr y, (t\<lparr>lt_array := c\<rparr>, w')) \<and> R y c" using m by (auto simp: sbind_def)
qed

lemma yields_conseq: "yields m a Q \<Longrightarrow> (\<And>x b. Q x b \<Longrightarrow> R x b) \<Longrightarrow> yields m a R"
  unfolding yields_def by blast

lemma yields_if: "(c \<Longrightarrow> yields m a Q) \<Longrightarrow> (\<not> c \<Longrightarrow> yields m' a Q) \<Longrightarrow> yields (if c then m else m') a Q"
  by simp

definition swapped :: "'a list \<Rightarrow> nat \<Rightarrow> nat \<Rightarrow> 'a list" where
  "swapped a i j = a[i := a ! j, j := a ! i]"

lemma length_swapped [simp]: "length (swapped a i j) = length a"
  by (simp add: swapped_def)

lemma nth_swapped: "i < length a \<Longrightarrow> j < length a \<Longrightarrow> swapped a i j ! k = (if k = j then a ! i else if k = i then a ! j else a ! k)"
  by (simp add: swapped_def nth_list_update)

lemma perm_swapped: "i \<in> {lo..hi} \<Longrightarrow> j \<in> {lo..hi} \<Longrightarrow> hi < length a \<Longrightarrow> perm_in lo hi a (swapped a i j)"
  unfolding swapped_def by (rule perm_in_swap) (auto simp: perm_in_def)

lemma yields_swap: "i < length a \<Longrightarrow> j < length a \<Longrightarrow> yields (sort_swap i j) a (\<lambda>_ b. b = swapped a i j)"
  by (auto simp: yields_def sort_swap_def arr_def set_arr_def ret_def swapped_def)

definition permuted_dom :: "'v option set \<Rightarrow> nat \<Rightarrow> nat \<Rightarrow> 'v ltable \<Rightarrow> ('v, 'w) sort_state \<Rightarrow> bool" where
  "permuted_dom A lo hi t s \<longleftrightarrow> permuted lo hi t s \<and> (\<forall>k\<in>{lo..hi}. lt_array t ! k \<in> A)"

text \<open>A run that keeps the table a permutation of itself yields a permutation.\<close>

lemma yields_perm:
  fixes m :: "('a, 'e, 'v, 'w) sort_m"
  assumes "yields m a Q" "hi < length a" "\<forall>k\<in>{lo..hi}. a ! k \<in> A" "\<And>t. keeps (permuted_dom A lo hi t) (E t) m R"
  shows "yields m a (\<lambda>x b. Q x b \<and> perm_in lo hi a b)"
  unfolding yields_def
proof (intro allI impI)
  fix t :: "'v ltable" and w :: 'w assume t: "lt_array t = a"
  then have "permuted_dom A lo hi t (t, w)" using assms(2,3) by (simp add: permuted_dom_def permuted_def perm_in_def arr_def)
  moreover obtain x b w' where m: "m (t, w) = (Inr x, (t\<lparr>lt_array := b\<rparr>, w'))" "Q x b"
    using assms(1) t unfolding yields_def by blast
  ultimately have "permuted_dom A lo hi t (t\<lparr>lt_array := b\<rparr>, w')"
    using assms(4) [of t, unfolded keeps_def, rule_format, of "(t, w)"] by simp
  then show "\<exists>x b w'. m (t, w) = (Inr x, (t\<lparr>lt_array := b\<rparr>, w')) \<and> Q x b \<and> perm_in lo hi a b"
    using m t by (auto simp: permuted_dom_def permuted_def arr_def)
qed

section \<open>Permutations of a range\<close>

lemma perm_in_set: "perm_in lo hi a b \<Longrightarrow> set b = set a"
  unfolding perm_in_def using mset_eq_setD by blast

lemma perm_in_mono: "perm_in l u a b \<Longrightarrow> lo \<le> l \<Longrightarrow> u \<le> hi \<Longrightarrow> perm_in lo hi a b"
  by (auto simp: perm_in_def)

lemma perm_in_trans: "perm_in lo hi a b \<Longrightarrow> perm_in lo hi b c \<Longrightarrow> perm_in lo hi a c"
  by (auto simp: perm_in_def)

lemma perm_in_outside: "perm_in lo hi a b \<Longrightarrow> k < lo \<or> hi < k \<Longrightarrow> b ! k = a ! k"
  by (auto simp: perm_in_def)

lemma perm_in_inside:
  assumes p: "perm_in lo hi a b" and k: "lo \<le> k" "k \<le> hi" "hi < length a"
  obtains k' where "lo \<le> k'" "k' \<le> hi" "b ! k = a ! k'"
proof -
  note len = perm_in_length [OF p]
  let ?mid = "\<lambda>c. take (hi + 1 - lo) (drop lo c)"
  have split: "c = take lo c @ ?mid c @ drop (hi + 1) c" for c :: "'a list"
  proof -
    have "drop lo c = ?mid c @ drop (hi + 1) c" using k append_take_drop_id [of "hi + 1 - lo" "drop lo c"] by simp
    then show ?thesis by (metis append_take_drop_id)
  qed
  have "take lo b = take lo a" "drop (hi + 1) b = drop (hi + 1) a"
    using p k len by (auto simp: perm_in_def intro!: nth_equalityI)
  moreover have "mset (take lo b @ ?mid b @ drop (hi + 1) b) = mset (take lo a @ ?mid a @ drop (hi + 1) a)"
    using p split [of a] split [of b] by (metis perm_in_def)
  ultimately have "mset (?mid b) = mset (?mid a)" by simp
  then have "set (?mid b) = set (?mid a)" by (rule mset_eq_setD)
  moreover have "b ! k \<in> set (?mid b)"
    using k len by (auto simp: in_set_conv_nth intro!: exI [of _ "k - lo"])
  ultimately obtain n where "n < hi + 1 - lo" "b ! k = a ! (lo + n)" by (auto simp: in_set_conv_nth)
  then show ?thesis using that [of "lo + n"] by auto
qed

section \<open>Strict weak orders\<close>

locale sort_order =
  fixes pred :: "('e, 'v, 'w) SortPredicate"
    and lt :: "'v option \<Rightarrow> 'v option \<Rightarrow> bool"
    and A :: "'v option set"
  assumes answers: "x \<in> A \<Longrightarrow> y \<in> A \<Longrightarrow> \<exists>w'. pred x y s = (Inr (lt x y), (fst s, w'))"
    and lt_asym: "x \<in> A \<Longrightarrow> y \<in> A \<Longrightarrow> lt x y \<Longrightarrow> \<not> lt y x"
    and le_trans: "x \<in> A \<Longrightarrow> y \<in> A \<Longrightarrow> z \<in> A \<Longrightarrow> \<not> lt y x \<Longrightarrow> \<not> lt z y \<Longrightarrow> \<not> lt z x"
begin

lemma less_answers:
  assumes "permuted_dom A lo hi t s" "i \<in> {lo..hi}" "j \<in> {lo..hi}"
  shows "\<exists>w'. sort_less pred i j s = (Inr (lt (arr s ! i) (arr s ! j)), (fst s, w'))"
proof -
  have p: "perm_in lo hi (lt_array t) (arr s)" "hi < length (lt_array t)" "\<forall>k\<in>{lo..hi}. lt_array t ! k \<in> A"
    using assms(1) by (auto simp: permuted_dom_def permuted_def)
  then have len: "i < length (arr s)" "j < length (arr s)" using perm_in_length [OF p(1)] assms(2,3) by auto
  have "arr s ! k \<in> A" if "k \<in> {lo..hi}" for k
    using perm_in_inside [OF p(1), of k] that p(2,3) by (metis atLeastAtMost_iff)
  then have "arr s ! i \<in> A" "arr s ! j \<in> A" using assms(2,3) by blast+
  then obtain w' where "pred (arr s ! i) (arr s ! j) s = (Inr (lt (arr s ! i) (arr s ! j)), (fst s, w'))" using answers by blast
  then show ?thesis using len by (simp add: sort_less_def Let_def ret_def arr_def)
qed

end

sublocale sort_order \<subseteq> ordered: sort_invariant pred lo hi "permuted_dom A lo hi t" "\<lambda>e s. e = InvalidOrder" for lo hi t
proof (unfold_locales, goal_cases)
  case (1 s)
  then show ?case using perm_in_length by (fastforce simp: permuted_dom_def permuted_def)
next
  case (2 s i j b s')
  then show ?case using less_answers [OF 2(1,2,3)] by (auto simp: permuted_dom_def permuted_def arr_def)
next
  case (3 s i j e s')
  then show ?case using less_answers [OF 3(1,2,3)] by auto
next
  case (4 s i j)
  then show ?case using perm_in_swap [of lo hi "lt_array t" "arr s" i j]
    by (simp add: permuted_dom_def permuted_def) (simp add: set_arr_def)
next
  case (5 s)
  then show ?case by simp
qed

context sort_order
begin

text \<open>An array in the domain of the order, with the range \<open>l..u\<close> inside of it.\<close>

definition dom_arr :: "nat \<Rightarrow> 'v option list \<Rightarrow> bool" where
  "dom_arr u a \<longleftrightarrow> (\<forall>k\<le>u. a ! k \<in> A) \<and> u < length a"

definition le_at :: "'v option list \<Rightarrow> nat \<Rightarrow> nat \<Rightarrow> bool" where
  "le_at a i j \<longleftrightarrow> \<not> lt (a ! j) (a ! i)"

lemma dom_nth: "dom_arr u a \<Longrightarrow> k \<le> u \<Longrightarrow> a ! k \<in> A"
  by (simp add: dom_arr_def)

lemma dom_perm:
  assumes "dom_arr u a" "perm_in lo hi a b" "hi \<le> u"
  shows "dom_arr u b"
proof -
  have "b ! k \<in> A" if "k \<le> u" for k
  proof (cases "k \<in> {lo..hi}")
    case True
    then show ?thesis using perm_in_inside [OF assms(2), of k] assms(1,3) dom_nth [OF assms(1)]
      by (metis atLeastAtMost_iff dom_arr_def le_less_trans order.trans)
  next
    case False
    then show ?thesis using perm_in_outside [OF assms(2), of k] that dom_nth [OF assms(1)] by auto
  qed
  then show ?thesis using assms(1) perm_in_length [OF assms(2)] by (simp add: dom_arr_def)
qed

lemma dom_mono: "dom_arr u a \<Longrightarrow> v \<le> u \<Longrightarrow> dom_arr v a"
  by (simp add: dom_arr_def)

lemma dom_swapped: "dom_arr u a \<Longrightarrow> i \<le> u \<Longrightarrow> j \<le> u \<Longrightarrow> dom_arr u (swapped a i j)"
  by (rule dom_perm [OF _ perm_swapped [of i 0 u j a]]) (simp_all add: dom_arr_def)

lemma yields_less:
  assumes "dom_arr u a" "i \<le> u" "j \<le> u"
  shows "yields (sort_less pred i j) a (\<lambda>r b. b = a \<and> (r \<longleftrightarrow> \<not> le_at a j i))"
  unfolding yields_def
proof (intro allI impI)
  fix t :: "'v ltable" and w :: 'w assume t: "lt_array t = a"
  have "permuted_dom A 0 u t (t, w)"
    using assms(1) t by (simp add: permuted_dom_def permuted_def perm_in_def arr_def dom_arr_def)
  then obtain w' where less: "sort_less pred i j (t, w) = (Inr (lt (a ! i) (a ! j)), (t, w'))"
    using less_answers [of 0 u t "(t, w)" i j] assms(2,3) t by (auto simp: arr_def)
  have "t = t\<lparr>lt_array := a\<rparr>" using t by simp
  then show "\<exists>x b w'. sort_less pred i j (t, w) = (Inr x, t\<lparr>lt_array := b\<rparr>, w') \<and> b = a \<and> x = (\<not> le_at a j i)"
    using less unfolding le_at_def by metis
qed

lemma le_at_trans: "dom_arr u a \<Longrightarrow> i \<le> u \<Longrightarrow> j \<le> u \<Longrightarrow> k \<le> u \<Longrightarrow> le_at a i j \<Longrightarrow> le_at a j k \<Longrightarrow> le_at a i k"
  unfolding le_at_def using le_trans dom_nth by blast

lemma le_at_total: "dom_arr u a \<Longrightarrow> i \<le> u \<Longrightarrow> j \<le> u \<Longrightarrow> \<not> le_at a i j \<Longrightarrow> le_at a j i"
  unfolding le_at_def using lt_asym dom_nth by blast

lemma le_at_refl: "dom_arr u a \<Longrightarrow> i \<le> u \<Longrightarrow> le_at a i i"
  unfolding le_at_def using lt_asym dom_nth by blast

definition sw :: "nat \<Rightarrow> nat \<Rightarrow> nat \<Rightarrow> nat" where
  "sw i j k = (if k = j then i else if k = i then j else k)"

lemma le_at_swapped:
  "dom_arr u a \<Longrightarrow> x \<le> u \<Longrightarrow> y \<le> u \<Longrightarrow> le_at (swapped a x y) i j \<longleftrightarrow> le_at a (sw x y i) (sw x y j)"
  by (simp add: le_at_def dom_arr_def nth_swapped sw_def)

text \<open>The heap order on \<open>cnt\<close> elements from \<open>l\<close>, below the parents from \<open>r\<close> on; and the same but for one root.\<close>

definition heap_on :: "'v option list \<Rightarrow> nat \<Rightarrow> nat \<Rightarrow> nat \<Rightarrow> bool" where
  "heap_on a l cnt r \<longleftrightarrow> (\<forall>k. 0 < k \<and> k < cnt \<and> r \<le> (k - 1) div 2 \<longrightarrow> le_at a (l + k) (l + (k - 1) div 2))"

definition heap_but :: "'v option list \<Rightarrow> nat \<Rightarrow> nat \<Rightarrow> nat \<Rightarrow> nat \<Rightarrow> bool" where
  "heap_but a l cnt r root \<longleftrightarrow>
     (\<forall>k. 0 < k \<and> k < cnt \<and> r \<le> (k - 1) div 2 \<and> (k - 1) div 2 \<noteq> root \<longrightarrow> le_at a (l + k) (l + (k - 1) div 2)) \<and>
     (\<forall>k. 0 < k \<and> k < cnt \<and> (k - 1) div 2 = root \<and> 0 < root \<and> r \<le> (root - 1) div 2 \<longrightarrow> le_at a (l + k) (l + (root - 1) div 2))"

definition tops :: "'v option list \<Rightarrow> nat \<Rightarrow> nat \<Rightarrow> nat \<Rightarrow> nat \<Rightarrow> bool" where
  "tops a l cnt root c \<longleftrightarrow> (\<forall>k. 0 < k \<and> k < cnt \<and> (k - 1) div 2 = root \<longrightarrow> le_at a (l + k) (l + c))"

lemma heap_but_done: "heap_but a l cnt r root \<Longrightarrow> tops a l cnt root root \<Longrightarrow> heap_on a l cnt r"
  unfolding heap_but_def heap_on_def tops_def by blast

lemma heap_but_start: "heap_on a l cnt (Suc r) \<Longrightarrow> heap_but a l cnt r r"
  unfolding heap_but_def heap_on_def by (auto simp: Suc_le_eq)

lemma heap_but_step:
  assumes dom: "dom_arr u a" "l + cnt \<le> u + 1" and J: "heap_but a l cnt r root"
    and c: "0 < c" "c < cnt" "(c - 1) div 2 = root" "r \<le> root" and up: "le_at a (l + root) (l + c)" and best: "tops a l cnt root c"
  shows "heap_but (swapped a (l + root) (l + c)) l cnt r c"
proof -
  have rc: "root < c" using c(1,3) by linarith
  have le: "le_at (swapped a (l + root) (l + c)) i j \<longleftrightarrow> le_at a (sw (l + root) (l + c) i) (sw (l + root) (l + c) j)" for i j
    by (rule le_at_swapped [OF dom(1)]) (use dom(2) c(2) rc in linarith)+
  have J1: "le_at a (l + k) (l + (k - 1) div 2)" if "0 < k" "k < cnt" "r \<le> (k - 1) div 2" "(k - 1) div 2 \<noteq> root" for k
    using J that unfolding heap_but_def by blast
  have J2: "le_at a (l + c) (l + (root - 1) div 2)" if "0 < root" "r \<le> (root - 1) div 2"
    using J that c unfolding heap_but_def by blast
  show ?thesis
    unfolding heap_but_def le
  proof (intro conjI allI impI, goal_cases)
    case (1 k)
    have pk: "(k - 1) div 2 < k" using 1 by linarith
    consider "k = c" | "k \<noteq> c" "(k - 1) div 2 = root" | "k = root" | "k \<noteq> c" "k \<noteq> root" "(k - 1) div 2 \<noteq> root" by blast
    then show ?case
    proof cases
      case 1
      then show ?thesis using up c rc by (simp add: sw_def)
    next
      case 2
      then show ?thesis using best \<open>0 < k \<and> _\<close> pk rc by (simp add: sw_def tops_def)
    next
      case 3
      then show ?thesis using J2 \<open>0 < k \<and> _\<close> pk rc by (simp add: sw_def)
    next
      case 4
      then show ?thesis using J1 [of k] \<open>0 < k \<and> _\<close> by (simp add: sw_def)
    qed
  next
    case (2 k)
    have pk: "(k - 1) div 2 < k" using 2 by linarith
    then show ?case using J1 [of k] 2 c rc by (simp add: sw_def)
  qed
qed

lemma tops_two:
  assumes "root * 2 + 2 < cnt" "le_at a (l + (root * 2 + 1)) (l + c)" "le_at a (l + (root * 2 + 2)) (l + c)"
  shows "tops a l cnt root c"
  unfolding tops_def
proof (intro allI impI)
  fix k assume k: "0 < k \<and> k < cnt \<and> (k - 1) div 2 = root"
  then have "k = root * 2 + 1 \<or> k = root * 2 + 2" by linarith
  then show "le_at a (l + k) (l + c)" using assms by blast
qed

lemma yields_sift_next:
  assumes dom: "dom_arr u a" and c: "l + (root * 2 + 2) \<le> u" "root * 2 + 2 < cnt"
  shows "yields (sift_next pred l root) a (\<lambda>nxt b. b = a \<and> tops a l cnt root nxt \<and>
     (nxt = root \<or> (nxt = root * 2 + 1 \<or> nxt = root * 2 + 2) \<and> le_at a (l + root) (l + nxt)))"
proof -
  let ?L = "l + (root * 2 + 1)" and ?R = "l + (root * 2 + 2)"
  have b: "l + root \<le> u" "?L \<le> u" "?R \<le> u" using c by simp_all
  note tr = le_at_trans [OF dom] and tot = le_at_total [OF dom] and rf = le_at_refl [OF dom]
  have pick: "yields (sort_less pred (l + n) ?R) a (\<lambda>r b. b = a \<and> (r \<longleftrightarrow> \<not> le_at a ?R (l + n)))" if "l + n \<le> u" for n
    by (rule yields_less [OF dom that b(3)])
  show ?thesis
    unfolding sift_next_def Let_def
  proof (rule yields_bind [OF yields_less [OF dom b(1,2)]])
    fix x a' assume x: "a' = a \<and> x = (\<not> le_at a ?L (l + root))"
    define n where "n = (if x then root * 2 + 1 else root)"
    have n: "l + n \<le> u" "n = root \<or> n = root * 2 + 1" "le_at a (l + root) (l + n)" "le_at a ?L (l + n)"
      using x b tot [of ?L "l + root"] rf by (auto simp: n_def)
    have "tops a l cnt root (root * 2 + 2) \<and> le_at a (l + root) ?R" if "\<not> le_at a ?R (l + n)"
      using tops_two [OF c(2)] rf [of ?R] tr [of ?L "l + n" ?R] tr [of "l + root" "l + n" ?R] tot [OF _ _ that] n b by blast
    moreover have "tops a l cnt root n" if "le_at a ?R (l + n)" using tops_two [OF c(2) n(4) that] .
    ultimately show "yields (sbind (sort_less pred (l + (if x then root * 2 + 1 else root)) ?R)
        (\<lambda>r. ret (if r then root * 2 + 2 else if x then root * 2 + 1 else root))) a'
        (\<lambda>nxt b. b = a \<and> tops a l cnt root nxt \<and>
           (nxt = root \<or> (nxt = root * 2 + 1 \<or> nxt = root * 2 + 2) \<and> le_at a (l + root) (l + nxt)))"
      unfolding n_def [symmetric] conjunct1 [OF x]
      by (intro yields_bind [OF pick [OF n(1)]] yields_ret) (use n in auto)
  qed
qed

text \<open>Sifting restores the heap order, moving nothing outside of the heap.\<close>

lemma yields_sift_loop:
  assumes "dom_arr u a" "l + cnt \<le> u + 1" "heap_but a l cnt r root" "r \<le> root" "root < cnt"
  shows "yields (sift_loop pred l cnt root) a (\<lambda>root' b. dom_arr u b \<and> heap_but b l cnt r root' \<and> r \<le> root' \<and> root' < cnt
     \<and> (root' * 2 + 2 < cnt \<longrightarrow> tops b l cnt root' root'))"
  using assms
proof (induction "cnt - root" arbitrary: root a rule: less_induct)
  case less
  show ?case
  proof (subst sift_loop_unfold, intro yields_if)
    assume c: "root * 2 + 2 < cnt"
    then have lu: "l + (root * 2 + 2) \<le> u" using less.prems(2) by linarith
    show "yields (sbind (sift_next pred l root) (\<lambda>nxt. if nxt = root then ret root
        else sbind (sort_swap (l + root) (l + nxt)) (\<lambda>_. sift_loop pred l cnt nxt))) a
      (\<lambda>root' b. dom_arr u b \<and> heap_but b l cnt r root' \<and> r \<le> root' \<and> root' < cnt \<and> (root' * 2 + 2 < cnt \<longrightarrow> tops b l cnt root' root'))"
    proof (rule yields_bind [OF yields_sift_next [OF less.prems(1) lu c]], intro yields_if, goal_cases)
      case (1 nxt b)
      then show ?case using less.prems by (intro yields_ret) auto
    next
      case (2 nxt b)
      then have n: "b = a" "tops a l cnt root nxt" "nxt = root * 2 + 1 \<or> nxt = root * 2 + 2" "le_at a (l + root) (l + nxt)" by auto
      have nxt: "0 < nxt" "nxt < cnt" "(nxt - 1) div 2 = root" "root < nxt" using n(3) c by auto
      have in_range: "l + root \<le> u" "l + nxt \<le> u" using lu n(3) by auto
      then have len: "l + root < length a" "l + nxt < length a" using less.prems(1) by (auto simp: dom_arr_def)
      show ?case
        unfolding n(1)
      proof (rule yields_bind [OF yields_swap [OF len]])
        fix x :: unit and b' assume "b' = swapped a (l + root) (l + nxt)"
        then show "yields (sift_loop pred l cnt nxt) b' (\<lambda>root' b. dom_arr u b \<and> heap_but b l cnt r root' \<and> r \<le> root' \<and> root' < cnt
            \<and> (root' * 2 + 2 < cnt \<longrightarrow> tops b l cnt root' root'))"
          using less.hyps [of nxt b'] nxt less.prems dom_swapped [OF less.prems(1) in_range]
            heap_but_step [OF less.prems(1,2,3) nxt(1,2,3) less.prems(4) n(4,2)] by auto
      qed
    qed
  next
    assume "\<not> root * 2 + 2 < cnt"
    then show "yields (ret root) a (\<lambda>root' b. dom_arr u b \<and> heap_but b l cnt r root' \<and> r \<le> root' \<and> root' < cnt
        \<and> (root' * 2 + 2 < cnt \<longrightarrow> tops b l cnt root' root'))"
      using less.prems by (intro yields_ret) auto
  qed
qed

lemma yields_siftheap:
  assumes dom: "dom_arr u a" and lu: "l \<le> u" and h: "heap_but a l (u - l + 1) r r" "l + r \<le> u"
  shows "yields (sort_siftheap pred l u r) a (\<lambda>_ b. heap_on b l (u - l + 1) r \<and> perm_in l u a b)"
proof (rule yields_perm [OF _ _ _ ordered.siftheap_runs])
  let ?cnt = "u - l + 1"
  show "yields (sort_siftheap pred l u r) a (\<lambda>_ b. heap_on b l ?cnt r)"
    unfolding sort_siftheap_def Let_def
  proof (intro yields_if, rule yields_bind [OF yields_sift_loop [OF dom _ h(1)]])
    fix root b
    assume b: "dom_arr u b \<and> heap_but b l ?cnt r root \<and> r \<le> root \<and> root < ?cnt \<and> (root * 2 + 2 < ?cnt \<longrightarrow> tops b l ?cnt root root)"
    define c where "c = root * 2 + 1"
    note rng = dom_arr_def
    show "yields (if root * 2 + 1 = ?cnt - 1
        then sbind (sort_less pred (l + root) (l + (root * 2 + 1))) (\<lambda>b. if b then sort_swap (l + root) (l + (root * 2 + 1)) else ret ())
        else ret ()) b (\<lambda>_ b. heap_on b l ?cnt r)"
      unfolding c_def [symmetric]
    proof (intro yields_if)
      assume c: "c = ?cnt - 1"
      have in_range: "l + root \<le> u" "l + c \<le> u" "0 < c" "c < ?cnt" "(c - 1) div 2 = root" using c b lu by (auto simp: c_def)
      have only: "k = c" if "0 < k \<and> k < ?cnt \<and> (k - 1) div 2 = root" for k using that c c_def by linarith
      have top: "tops b l ?cnt root x \<longleftrightarrow> le_at b (l + c) (l + x)" for x using only in_range unfolding tops_def by blast
      show "yields (sbind (sort_less pred (l + root) (l + c)) (\<lambda>b. if b then sort_swap (l + root) (l + c) else ret ())) b (\<lambda>_ b. heap_on b l ?cnt r)"
      proof (rule yields_bind [OF yields_less [OF conjunct1 [OF b] in_range(1,2)]], intro yields_if, goal_cases)
        case (1 x b')
        then have b': "b' = b" and gt: "\<not> le_at b (l + c) (l + root)" by auto
        have len: "l + root < length b" "l + c < length b" using b in_range by (auto simp: dom_arr_def)
        have "heap_but (swapped b (l + root) (l + c)) l ?cnt r c"
          using heap_but_step [of u b l ?cnt r root c] b in_range top le_at_total [of u b _ _, OF _ _ _ gt] le_at_refl lu by auto
        moreover have "tops (swapped b (l + root) (l + c)) l ?cnt c c" using c by (auto simp: tops_def)
        ultimately have "heap_on (swapped b (l + root) (l + c)) l ?cnt r" by (rule heap_but_done)
        then show ?case unfolding b' by (intro yields_conseq [OF yields_swap [OF len]]) simp
      next
        case (2 x b')
        then show ?case using b top heap_but_done by (intro yields_ret) auto
      qed
    next
      assume "c \<noteq> ?cnt - 1"
      then have "root * 2 + 2 < ?cnt \<or> ?cnt \<le> c" by (auto simp: c_def)
      then have "tops b l ?cnt root root" using b by (auto simp: tops_def c_def)
      then show "yields (ret ()) b (\<lambda>_ b. heap_on b l ?cnt r)" using b heap_but_done by (intro yields_ret) blast
    qed
  qed (use lu h in auto)
qed (use dom lu h in \<open>auto simp: dom_arr_def\<close>)

text \<open>Heap sort.\<close>

definition sorted_in :: "'v option list \<Rightarrow> nat \<Rightarrow> nat \<Rightarrow> bool" where
  "sorted_in a l u \<longleftrightarrow> (\<forall>i j. l \<le> i \<and> i < j \<and> j \<le> u \<longrightarrow> le_at a i j)"

text \<open>The elements after offset \<open>k\<close> are in order and not below any element before them.\<close>

definition tail_sorted :: "'v option list \<Rightarrow> nat \<Rightarrow> nat \<Rightarrow> nat \<Rightarrow> bool" where
  "tail_sorted a l k u \<longleftrightarrow> (\<forall>i j. l \<le> i \<and> i < j \<and> l + k < j \<and> j \<le> u \<longrightarrow> le_at a i j)"

lemma yields_heapify:
  assumes "dom_arr u a" "l \<le> u" "heap_on a l (u - l + 1) k" "l + k \<le> u + 1"
  shows "yields (heapify pred l u k) a (\<lambda>_ b. heap_on b l (u - l + 1) 0 \<and> perm_in l u a b)"
  using assms
proof (induction k arbitrary: a)
  case 0
  then show ?case by (simp add: yields_ret perm_in_def)
next
  case (Suc k)
  have "yields (sort_siftheap pred l u k) a (\<lambda>_ b. heap_on b l (u - l + 1) k \<and> perm_in l u a b)"
    by (rule yields_siftheap) (use Suc.prems heap_but_start in auto)
  then show ?case unfolding heapify.simps
  proof (rule yields_bind, elim conjE)
    fix b assume b: "heap_on b l (u - l + 1) k" "perm_in l u a b"
    show "yields (heapify pred l u k) b (\<lambda>_ b. heap_on b l (u - l + 1) 0 \<and> perm_in l u a b)"
      by (rule yields_conseq [OF Suc.IH]) (use b Suc.prems dom_perm perm_in_trans in auto)
  qed
qed

lemma heap_max:
  assumes "heap_on a l cnt 0" "dom_arr u a" "l + cnt \<le> u + 1" "k < cnt"
  shows "le_at a (l + k) l"
  using assms(4)
proof (induction k rule: less_induct)
  case (less k)
  show ?case
  proof (cases "k = 0")
    case True
    then show ?thesis using le_at_refl [OF assms(2)] assms(3) less.prems by simp
  next
    case False
    then have p: "(k - 1) div 2 < k" by linarith
    then have "le_at a (l + (k - 1) div 2) l" using less by simp
    moreover have "le_at a (l + k) (l + (k - 1) div 2)" using assms(1) False less.prems by (simp add: heap_on_def)
    ultimately show ?thesis
      using le_at_trans [OF assms(2), of "l + k" "l + (k - 1) div 2" l] assms(3) less.prems p by simp
  qed
qed

lemma extract_tail:
  assumes dom: "dom_arr u a" and k: "l + Suc k \<le> u" and h: "heap_on a l (Suc k + 1) 0" and t: "tail_sorted a l (Suc k) u"
    and p: "perm_in l (l + k) (swapped a l (l + Suc k)) b"
  shows "tail_sorted b l k u"
  unfolding tail_sorted_def
proof (intro allI impI)
  let ?s = "swapped a l (l + Suc k)"
  have len: "l < length a" "l + Suc k < length a" using dom k by (auto simp: dom_arr_def)
  fix i j assume ij: "l \<le> i \<and> i < j \<and> l + k < j \<and> j \<le> u"
  have bj: "b ! j = a ! (if j = l + Suc k then l else j)"
    using perm_in_outside [OF p, of j] ij nth_swapped [OF len, of j] by auto
  obtain i' where i': "b ! i = a ! i'" "l \<le> i'" "i' \<le> max i (l + Suc k)" "l + Suc k < i \<longrightarrow> i' = i"
  proof (cases "i \<le> l + k")
    case True
    then obtain n where n: "l \<le> n" "n \<le> l + k" "b ! i = ?s ! n" using perm_in_inside [OF p, of i] ij len by auto
    then show ?thesis using that [of "if n = l then l + Suc k else n"] True nth_swapped [OF len, of n] by auto
  next
    case False
    then show ?thesis using that [of "if i = l + Suc k then l else i"] perm_in_outside [OF p, of i] nth_swapped [OF len, of i] by auto
  qed
  show "le_at b i j"
  proof (cases "j = l + Suc k")
    case True
    then have "i' - l < Suc k + 1" using i' ij by auto
    then have "le_at a i' l" using heap_max [OF h dom, of "i' - l"] k i'(2) by simp
    then show ?thesis using bj i'(1) True by (simp add: le_at_def)
  next
    case False
    then have "i' < j" "l + Suc k < j" using i' ij by auto
    then have "le_at a i' j" using t i'(2) ij unfolding tail_sorted_def by blast
    then show ?thesis using bj i'(1) False by (simp add: le_at_def)
  qed
qed

lemma yields_extract:
  assumes "dom_arr u a" "l + k \<le> u" "heap_on a l (k + 1) 0" "tail_sorted a l k u"
  shows "yields (extract_max pred l k) a (\<lambda>_ b. sorted_in b l u)"
  using assms
proof (induction k arbitrary: a)
  case 0
  then show ?case by (auto intro!: yields_ret simp: tail_sorted_def sorted_in_def)
next
  case (Suc k)
  let ?s = "swapped a l (l + Suc k)"
  have len: "l < length a" "l + Suc k < length a" using Suc.prems(1,2) by (auto simp: dom_arr_def)
  have ds: "dom_arr u ?s" by (rule dom_swapped [OF Suc.prems(1)]) (use Suc.prems(2) in auto)
  have "heap_but ?s l (k + 1) 0 0"
  proof -
    have "le_at ?s (l + n) (l + (n - 1) div 2)" if "0 < n" "n < k + 1" "(n - 1) div 2 \<noteq> 0" for n
    proof -
      have "(n - 1) div 2 < k + 1" using that by linarith
      then have "?s ! (l + n) = a ! (l + n)" "?s ! (l + (n - 1) div 2) = a ! (l + (n - 1) div 2)"
        using that nth_swapped [OF len] by auto
      then show ?thesis using Suc.prems(3) that by (simp add: heap_on_def le_at_def)
    qed
    then show ?thesis by (auto simp: heap_but_def)
  qed
  then have "yields (sort_siftheap pred l (l + k) 0) ?s (\<lambda>_ b. heap_on b l (l + k - l + 1) 0 \<and> perm_in l (l + k) ?s b)"
    by (intro yields_siftheap dom_mono [OF ds]) (use Suc.prems in auto)
  then have sift: "yields (sort_siftheap pred l (l + Suc k - 1) 0) ?s (\<lambda>_ b. heap_on b l (k + 1) 0 \<and> perm_in l (l + k) ?s b)" by simp
  show ?case unfolding extract_max.simps
  proof (rule yields_bind [OF yields_swap [OF len]])
    fix x :: unit and s assume s: "s = ?s"
    show "yields (sbind (sort_siftheap pred l (l + Suc k - 1) 0) (\<lambda>_. extract_max pred l k)) s (\<lambda>_ b. sorted_in b l u)"
      unfolding s
    proof (rule yields_bind [OF sift])
      fix y b assume b: "heap_on b l (k + 1) 0 \<and> perm_in l (l + k) ?s b"
      show "yields (extract_max pred l k) b (\<lambda>_ b. sorted_in b l u)"
        by (rule Suc.IH) (use b Suc.prems dom_perm [OF ds] extract_tail [OF Suc.prems(1,2) _ Suc.prems(4)] in auto)
    qed
  qed
qed

lemma yields_heap:
  assumes dom: "dom_arr u a" and lu: "l \<le> u"
  shows "yields (sort_heap pred l u) a (\<lambda>_ b. sorted_in b l u \<and> perm_in l u a b)"
proof (rule yields_perm [OF _ _ _ ordered.heap_runs])
  let ?cnt = "u - l + 1"
  have "heap_on a l ?cnt (?cnt div 2)" unfolding heap_on_def
  proof (intro allI impI)
    fix k assume "0 < k \<and> k < ?cnt \<and> ?cnt div 2 \<le> (k - 1) div 2"
    then have False by linarith
    then show "le_at a (l + k) (l + (k - 1) div 2)" ..
  qed
  then have hf: "yields (heapify pred l u (?cnt div 2)) a (\<lambda>_ b. heap_on b l ?cnt 0 \<and> perm_in l u a b)"
    by (intro yields_heapify [OF dom lu]) (use lu in auto)
  have "yields (extract_max pred l (?cnt - 1)) b (\<lambda>_ b. sorted_in b l u)" if "heap_on b l ?cnt 0" "perm_in l u a b" for b
    by (rule yields_extract) (use that dom_perm [OF dom] lu in \<open>auto simp: tail_sorted_def\<close>)
  then show "yields (sort_heap pred l u) a (\<lambda>_ b. sorted_in b l u)"
    unfolding sort_heap_def Let_def by (intro yields_if yields_bind [OF hf]) (use lu in auto)
qed (use dom lu in \<open>auto simp: dom_arr_def\<close>)

text \<open>The scans stop at the first element that is not on their side of the pivot.\<close>

lemma yields_scan_up:
  assumes dom: "dom_arr u a" and "i < s" "s \<le> u" "p \<le> u" "le_at a p s"
  shows "yields (scan_up pred u p i) a (\<lambda>i' b. b = a \<and> i < i' \<and> i' \<le> s \<and> le_at a p i' \<and> (\<forall>k. i < k \<and> k < i' \<longrightarrow> le_at a k p))"
  using assms(2)
proof (induction "s - i" arbitrary: i rule: less_induct)
  case less
  have b: "i + 1 \<le> u" using less.prems assms(3) by simp
  show ?case
  proof (subst scan_up_unfold, rule yields_bind [OF yields_less [OF dom b assms(4)]], goal_cases)
    case (1 r b)
    show ?case
    proof (cases "le_at a p (i + 1)")
      case True
      then show ?thesis using 1 less.prems by (auto intro!: yields_ret simp: less_Suc_eq)
    next
      case False
      then have lt: "i + 1 < s" using assms(5) less.prems by (cases "i + 1 = s") auto
      then have "yields (scan_up pred u p (i + 1)) a (\<lambda>i' b. b = a \<and> i + 1 < i' \<and> i' \<le> s \<and> le_at a p i' \<and> (\<forall>k. i + 1 < k \<and> k < i' \<longrightarrow> le_at a k p))"
        by (intro less.hyps) simp_all
      then have "yields (scan_up pred u p (i + 1)) a (\<lambda>i' b. b = a \<and> i < i' \<and> i' \<le> s \<and> le_at a p i' \<and> (\<forall>k. i < k \<and> k < i' \<longrightarrow> le_at a k p))"
      proof (rule yields_conseq)
        fix i' b' assume i': "b' = a \<and> i + 1 < i' \<and> i' \<le> s \<and> le_at a p i' \<and> (\<forall>k. i + 1 < k \<and> k < i' \<longrightarrow> le_at a k p)"
        have "le_at a k p" if "i < k" "k < i'" for k
          using that i' le_at_total [OF dom assms(4) b False] by (cases "k = i + 1") auto
        then show "b' = a \<and> i < i' \<and> i' \<le> s \<and> le_at a p i' \<and> (\<forall>k. i < k \<and> k < i' \<longrightarrow> le_at a k p)" using i' by auto
      qed
      then show ?thesis using 1 False lt assms(3) by simp
    qed
  qed
qed

lemma yields_scan_down:
  assumes dom: "dom_arr u a" and "s < j" "j \<le> u" "l \<le> s" "p \<le> u" "le_at a s p"
  shows "yields (scan_down pred l p j) a (\<lambda>j' b. b = a \<and> s \<le> j' \<and> j' < j \<and> le_at a j' p \<and> (\<forall>k. j' < k \<and> k < j \<longrightarrow> le_at a p k))"
  using assms(2,3)
proof (induction j)
  case (Suc j)
  have b: "j \<le> u" using Suc.prems by simp
  show ?case
  proof (subst scan_down_unfold, rule yields_bind [OF yields_less [OF dom assms(5) b]], goal_cases)
    case (1 r b)
    show ?case
    proof (cases "le_at a j p")
      case True
      then show ?thesis using 1 Suc.prems by (auto intro!: yields_ret)
    next
      case False
      then have lt: "s < j" using assms(6) Suc.prems by (cases "s = j") auto
      then have "yields (scan_down pred l p j) a (\<lambda>j' b. b = a \<and> s \<le> j' \<and> j' < Suc j \<and> le_at a j' p \<and> (\<forall>k. j' < k \<and> k < Suc j \<longrightarrow> le_at a p k))"
        using le_at_total [OF dom b assms(5) False] b by (intro yields_conseq [OF Suc.IH]) (auto elim: less_SucE)
      then show ?thesis using 1 False lt assms(4) by simp
    qed
  qed
qed simp

text \<open>Between the scans: the elements up to \<open>i\<close> are not above the pivot, those from \<open>j\<close> on are not below it.\<close>

definition split_at :: "'v option list \<Rightarrow> nat \<Rightarrow> nat \<Rightarrow> nat \<Rightarrow> nat \<Rightarrow> bool" where
  "split_at a l u i j \<longleftrightarrow> (\<forall>k. l \<le> k \<and> k \<le> i \<longrightarrow> le_at a k (u - 1)) \<and> (\<forall>k. j \<le> k \<and> k \<le> u \<longrightarrow> le_at a (u - 1) k)"

lemma split_at_swap:
  assumes dom: "dom_arr u a" and ij: "l < i" "i \<le> j" "j < u - 1"
    and below: "\<forall>k. l \<le> k \<and> k < i \<longrightarrow> le_at a k (u - 1)" and above: "\<forall>k. j < k \<and> k \<le> u \<longrightarrow> le_at a (u - 1) k"
    and at: "le_at a (u - 1) i" "le_at a j (u - 1)"
  shows "split_at (swapped a i j) l u i j"
proof -
  have le: "le_at (swapped a i j) x y \<longleftrightarrow> le_at a (sw i j x) (sw i j y)" for x y
    by (rule le_at_swapped [OF dom]) (use ij in auto)
  show ?thesis unfolding split_at_def le
    using below above at ij by (auto simp: sw_def)
qed

lemma yields_partition:
  assumes "dom_arr u a" "l \<le> i" "i < u - 1" "l < j" "i \<le> j" "j \<le> u - 1" "split_at a l u i j"
  shows "yields (partition_loop pred l u (u - 1) i j) a (\<lambda>i' b. l < i' \<and> i' \<le> u - 1 \<and> split_at b l u (i' - 1) i' \<and> b ! (u - 1) = a ! (u - 1))"
  using assms
proof (induction "j - i" arbitrary: i j a rule: less_induct)
  case less
  note pr = less.prems
  let ?p = "u - 1"
  have pu: "?p \<le> u" by simp
  have "yields (scan_up pred u ?p i) a (\<lambda>i' b. b = a \<and> i < i' \<and> i' \<le> max j (i + 1) \<and> le_at a ?p i' \<and> (\<forall>k. i < k \<and> k < i' \<longrightarrow> le_at a k ?p))"
    by (rule yields_scan_up [OF pr(1) _ _ pu]) (use pr in \<open>auto simp: split_at_def max_def\<close>)
  then show ?case
  proof (subst partition_loop_unfold, rule yields_bind, goal_cases)
    case (1 i' b)
    then have i': "b = a" "i < i'" "i' \<le> max j (i + 1)" "le_at a ?p i'" "\<forall>k. i < k \<and> k < i' \<longrightarrow> le_at a k ?p" by auto
    have ip: "i' \<le> ?p" using i' pr by auto
    have below: "\<forall>k. l \<le> k \<and> k < i' \<longrightarrow> le_at a k ?p"
      using i'(5) pr(7) unfolding split_at_def by (metis not_le)
    have s: "min i (j - 1) < j" "l \<le> min i (j - 1)" "le_at a (min i (j - 1)) ?p" using pr by (auto simp: split_at_def min_def)
    have "yields (scan_down pred l ?p j) a (\<lambda>j' b. b = a \<and> min i (j - 1) \<le> j' \<and> j' < j \<and> le_at a j' ?p \<and> (\<forall>k. j' < k \<and> k < j \<longrightarrow> le_at a ?p k))"
      by (rule yields_scan_down [OF pr(1) s(1) _ s(2) pu s(3)]) (use pr in auto)
    then show ?case unfolding i'(1)
    proof (rule yields_bind, intro yields_if, goal_cases)
      case (1 j' b)
      then have "\<forall>k. j' < k \<and> k \<le> u \<longrightarrow> le_at a ?p k" using pr(7) unfolding split_at_def by (metis not_le)
      then have "split_at a l u (i' - 1) i'" using below 1 i'(2) unfolding split_at_def by auto
      then show ?case using 1 ip i'(2) pr(2) by (intro yields_ret) auto
    next
      case (2 j' b)
      then have b: "b = a" "i' \<le> j'" "j' < j" "le_at a j' ?p" by auto
      have above: "\<forall>k. j' < k \<and> k \<le> u \<longrightarrow> le_at a ?p k" using 2 pr(7) unfolding split_at_def by (metis not_le)
      have rng: "l < i'" "j' < ?p" "i' < length a" "j' < length a" using b i' pr by (auto simp: dom_arr_def)
      have ds: "dom_arr u (swapped a i' j')" by (rule dom_swapped [OF pr(1)]) (use rng b in auto)
      have sp: "split_at (swapped a i' j') l u i' j'"
        by (rule split_at_swap [OF pr(1) rng(1) b(2) rng(2) below above i'(4) b(4)])
      have same: "swapped a i' j' ! ?p = a ! ?p" using nth_swapped [OF rng(3,4), of ?p] rng(2) b(2) by auto
      have "yields (partition_loop pred l u ?p i' j') (swapped a i' j')
         (\<lambda>i' b. l < i' \<and> i' \<le> ?p \<and> split_at b l u (i' - 1) i' \<and> b ! ?p = a ! ?p)"
        using less.hyps [of j' i' "swapped a i' j'"] ds sp rng b i' same by auto
      then show ?case unfolding b(1) by (intro yields_bind [OF yields_swap [OF rng(3,4)]]) simp
    qed
  qed
qed

lemma yields_order_ends:
  assumes dom: "dom_arr u a" and lu: "l \<le> u"
  shows "yields (order_ends pred l u) a (\<lambda>_ b. le_at b l u \<and> perm_in l u a b)"
proof -
  have len: "u < length a" "l < length a" using dom lu by (auto simp: dom_arr_def)
  show ?thesis unfolding order_ends_def
  proof (rule yields_bind [OF yields_less [OF dom order.refl lu]], intro yields_if, goal_cases)
    case (1 r b)
    then have "le_at a u l" using le_at_total [OF dom lu order.refl] by blast
    then have "le_at (swapped a u l) l u" by (auto simp: le_at_swapped [OF dom order.refl lu] sw_def)
    moreover have "perm_in l u a (swapped a u l)" by (rule perm_swapped) (use lu len in auto)
    ultimately show ?case using 1 by (auto intro: yields_conseq [OF yields_swap [OF len]])
  next
    case (2 r b)
    then show ?case by (intro yields_ret) (auto simp: perm_in_def)
  qed
qed

lemma yields_order_middle:
  assumes dom: "dom_arr u a" and m: "l < m" "m < u" and lu: "le_at a l u"
  shows "yields (order_middle pred l m u) a (\<lambda>_ b. le_at b l m \<and> le_at b m u \<and> perm_in l u a b)"
proof -
  have b: "l \<le> u" "m \<le> u" using m by auto
  have len: "u < length a" "l < length a" "m < length a" using dom m by (auto simp: dom_arr_def)
  show ?thesis unfolding order_middle_def
  proof (rule yields_bind [OF yields_less [OF dom b(2,1)]], intro yields_if, goal_cases)
    case (1 r c)
    then have "le_at a m l" using le_at_total [OF dom b] by blast
    then have "le_at (swapped a m l) l m" "le_at (swapped a m l) m u" using lu m by (simp_all add: le_at_swapped [OF dom b(2,1)] sw_def)
    moreover have "perm_in l u a (swapped a m l)" by (rule perm_swapped) (use m len in auto)
    ultimately show ?case using 1 by (auto intro: yields_conseq [OF yields_swap [OF len(3,2)]])
  next
    case (2 r c)
    then have lm: "c = a" "le_at a l m" by auto
    show ?case unfolding lm(1)
    proof (rule yields_bind [OF yields_less [OF dom order.refl b(2)]], intro yields_if, goal_cases)
      case (1 r c)
      then have "le_at a u m" using le_at_total [OF dom b(2) order.refl] by blast
      then have "le_at (swapped a m u) l m" "le_at (swapped a m u) m u" using lu m by (simp_all add: le_at_swapped [OF dom b(2) order.refl] sw_def)
      moreover have "perm_in l u a (swapped a m u)" by (rule perm_swapped) (use m len in auto)
      ultimately show ?case using 1 by (auto intro: yields_conseq [OF yields_swap [OF len(3,1)]])
    next
      case (2 r c)
      then show ?case using lm by (intro yields_ret) (auto simp: perm_in_def)
    qed
  qed
qed

definition parted :: "'v option list \<Rightarrow> nat \<Rightarrow> nat \<Rightarrow> nat \<Rightarrow> bool" where
  "parted a l i u \<longleftrightarrow> (\<forall>k. l \<le> k \<and> k < i \<longrightarrow> le_at a k i) \<and> (\<forall>k. i < k \<and> k \<le> u \<longrightarrow> le_at a i k)"

lemma yields_partition_step:
  assumes dom: "dom_arr u a" and m: "l < m" "m < u" "l + 2 < u" and le: "le_at a l m" "le_at a m u"
  shows "yields (partition_step pred l m u) a (\<lambda>i b. (l < i \<and> i \<le> u \<and> parted b l i u) \<and> perm_in l u a b)"
proof (rule yields_perm [OF _ _ _ ordered.partition_step_runs])
  let ?p = "u - 1" and ?a = "swapped a m (u - 1)"
  have b: "m \<le> u" "?p \<le> u" using m by auto
  have len: "m < length a" "?p < length a" using dom m by (auto simp: dom_arr_def)
  have da: "dom_arr u ?a" by (rule dom_swapped [OF dom b])
  have ends: "le_at ?a l ?p" "le_at ?a ?p u" using le m unfolding le_at_swapped [OF dom b] sw_def by auto
  have sp: "split_at ?a l u l ?p" unfolding split_at_def
  proof (intro conjI allI impI)
    show "le_at ?a k ?p" if "l \<le> k \<and> k \<le> l" for k using that ends(1) by (metis order.antisym)
    show "le_at ?a ?p k" if "?p \<le> k \<and> k \<le> u" for k
    proof -
      have "k = ?p \<or> k = u" using that m by auto
      then show ?thesis using ends le_at_refl [OF da b(2)] by auto
    qed
  qed
  have part: "yields (partition_loop pred l u ?p l ?p) ?a (\<lambda>i b. (l < i \<and> i \<le> ?p \<and> split_at b l u (i - 1) i) \<and> perm_in l u ?a b)"
    by (rule yields_perm [OF yields_conseq [OF yields_partition [OF da order.refl _ _ _ order.refl sp]] _ _ ordered.partition_runs])
      (use m da in \<open>auto simp: dom_arr_def\<close>)
  have fin: "parted (swapped c ?p i) l i u" if i: "l < i" "i \<le> ?p" "split_at c l u (i - 1) i" "dom_arr u c" for c i
  proof -
    have "le_at (swapped c ?p i) x y \<longleftrightarrow> le_at c (sw ?p i x) (sw ?p i y)" for x y
      by (rule le_at_swapped [OF i(4)]) (use i(2) b(2) in linarith)+
    then show ?thesis using i(1,2,3) unfolding parted_def split_at_def by (auto simp: sw_def)
  qed
  have rest: "yields (sbind (partition_loop pred l u ?p l ?p) (\<lambda>i. sbind (sort_swap ?p i) (\<lambda>_. ret i))) ?a (\<lambda>i b. l < i \<and> i \<le> u \<and> parted b l i u)"
  proof (rule yields_bind [OF part])
    fix i c assume "(l < i \<and> i \<le> ?p \<and> split_at c l u (i - 1) i) \<and> perm_in l u ?a c"
    then have i: "l < i" "i \<le> ?p" "split_at c l u (i - 1) i" "dom_arr u c" using dom_perm [OF da] by auto
    then have "?p < length c" "i < length c" using m by (auto simp: dom_arr_def)
    then show "yields (sbind (sort_swap ?p i) (\<lambda>_. ret i)) c (\<lambda>i b. l < i \<and> i \<le> u \<and> parted b l i u)"
      using fin [OF i] i by (intro yields_bind [OF yields_swap] yields_ret) auto
  qed
  show "yields (partition_step pred l m u) a (\<lambda>i b. l < i \<and> i \<le> u \<and> parted b l i u)"
    unfolding partition_step_def Let_def by (rule yields_bind [OF yields_swap [OF len]]) (use rest in simp)
qed (use dom m in \<open>auto simp: dom_arr_def\<close>)

lemma parted_low:
  assumes "parted a l i u" "perm_in l (i - 1) a b" "l < i" "i \<le> u" "dom_arr u a"
  shows "parted b l i u"
  unfolding parted_def
proof (intro conjI allI impI)
  have out: "b ! k = a ! k" if "i \<le> k" for k using perm_in_outside [OF assms(2), of k] that assms(3) by auto
  show "le_at b k i" if k: "l \<le> k \<and> k < i" for k
  proof -
    obtain k' where "l \<le> k'" "k' \<le> i - 1" "b ! k = a ! k'"
      by (rule perm_in_inside [OF assms(2), of k]) (use k assms in \<open>auto simp: dom_arr_def\<close>)
    then show ?thesis using assms(1,3) out [of i] by (auto simp: parted_def le_at_def)
  qed
  show "le_at b i k" if "i < k \<and> k \<le> u" for k
    using that assms(1) out [of k] out [of i] by (auto simp: parted_def le_at_def)
qed

lemma parted_high:
  assumes "parted a l i u" "perm_in (i + 1) u a b" "l < i" "i \<le> u" "dom_arr u a"
  shows "parted b l i u"
  unfolding parted_def
proof (intro conjI allI impI)
  have out: "b ! k = a ! k" if "k \<le> i" for k using perm_in_outside [OF assms(2), of k] that by auto
  show "le_at b k i" if "l \<le> k \<and> k < i" for k
    using that assms(1) out [of k] out [of i] by (auto simp: parted_def le_at_def)
  show "le_at b i k" if k: "i < k \<and> k \<le> u" for k
  proof -
    obtain k' where "i + 1 \<le> k'" "k' \<le> u" "b ! k = a ! k'"
      by (rule perm_in_inside [OF assms(2), of k]) (use k assms in \<open>auto simp: dom_arr_def\<close>)
    then show ?thesis using assms(1) out [of i] by (auto simp: parted_def le_at_def)
  qed
qed

lemma sorted_outside: "sorted_in a x y \<Longrightarrow> perm_in l u a b \<Longrightarrow> y < l \<or> u < x \<Longrightarrow> sorted_in b x y"
  unfolding sorted_in_def le_at_def perm_in_def by (metis le_less_trans less_le_trans less_imp_le not_le)

lemma sorted_parted:
  assumes "parted a l i u" "sorted_in a l (i - 1)" "sorted_in a (i + 1) u" "l < i" "i \<le> u" "dom_arr u a"
  shows "sorted_in a l u"
  unfolding sorted_in_def
proof (intro allI impI)
  fix x y assume xy: "l \<le> x \<and> x < y \<and> y \<le> u"
  consider "y < i" | "y = i" | "x < i" "i < y" | "x = i" | "i < x" using xy by linarith
  then show "le_at a x y"
  proof cases
    case 1
    then show ?thesis using assms(2) xy by (auto simp: sorted_in_def)
  next
    case 3
    then have "le_at a x i" "le_at a i y" using assms(1) xy by (auto simp: parted_def)
    then show ?thesis using le_at_trans [OF assms(6), of x i y] xy assms(5) by auto
  next
    case 5
    then show ?thesis using assms(3) xy by (auto simp: sorted_in_def)
  qed (use assms(1) xy in \<open>auto simp: parted_def\<close>)
qed

lemma sorted_short: "u \<le> l \<Longrightarrow> sorted_in a l u"
  by (auto simp: sorted_in_def)

lemma sorted_two: "le_at a l (l + 1) \<Longrightarrow> sorted_in a l (l + 1)"
  unfolding sorted_in_def
proof (intro allI impI)
  fix i j assume l: "le_at a l (l + 1)" and "l \<le> i \<and> i < j \<and> j \<le> l + 1"
  then have "i = l \<and> j = l + 1" by linarith
  then show "le_at a i j" using l by simp
qed

lemma sorted_three:
  assumes "dom_arr (l + 2) a" "le_at a l (l + 1)" "le_at a (l + 1) (l + 2)"
  shows "sorted_in a l (l + 2)"
  unfolding sorted_in_def
proof (intro allI impI)
  fix i j assume "l \<le> i \<and> i < j \<and> j \<le> l + 2"
  then have "i = l \<and> j = l + 1 \<or> i = l \<and> j = l + 2 \<or> i = l + 1 \<and> j = l + 2" by linarith
  then show "le_at a i j" using assms(2,3) le_at_trans [OF assms(1), of l "l + 1" "l + 2"] by auto
qed

text \<open>The two halves around the pivot, in either order.\<close>

lemma yields_halves:
  assumes dom: "dom_arr u a" and i: "l < i" "i \<le> u" "parted a l i u"
    and low: "\<And>b. dom_arr u b \<Longrightarrow> yields mlow b (\<lambda>_ c. sorted_in c l (i - 1) \<and> perm_in l (i - 1) b c)"
    and high: "\<And>b. dom_arr u b \<Longrightarrow> yields mhigh b (\<lambda>_ c. sorted_in c (i + 1) u \<and> perm_in (i + 1) u b c)"
  shows "yields (if i - l < u - i then sbind mlow (\<lambda>_. mhigh) else sbind mhigh (\<lambda>_. mlow)) a (\<lambda>_ b. sorted_in b l u)"
proof (intro yields_if)
  show "yields (sbind mlow (\<lambda>_. mhigh)) a (\<lambda>_ b. sorted_in b l u)"
  proof (rule yields_bind [OF low [OF dom]])
    fix x b assume b: "sorted_in b l (i - 1) \<and> perm_in l (i - 1) a b"
    then have db: "dom_arr u b" and pb: "parted b l i u" using dom_perm [OF dom, of l "i - 1" b] parted_low [OF i(3) _ i(1,2) dom] i(2) by auto
    show "yields mhigh b (\<lambda>_ b. sorted_in b l u)"
    proof (rule yields_conseq [OF high [OF db]])
      fix y c assume c: "sorted_in c (i + 1) u \<and> perm_in (i + 1) u b c"
      show "sorted_in c l u"
        by (rule sorted_parted [of c l i u])
          (use b c i dom_perm [OF db] parted_high [OF pb _ i(1,2) db] sorted_outside [of b l "i - 1" "i + 1" u c] in auto)
    qed
  qed
  show "yields (sbind mhigh (\<lambda>_. mlow)) a (\<lambda>_ b. sorted_in b l u)"
  proof (rule yields_bind [OF high [OF dom]])
    fix x b assume b: "sorted_in b (i + 1) u \<and> perm_in (i + 1) u a b"
    then have db: "dom_arr u b" and pb: "parted b l i u" using dom_perm [OF dom] parted_high [OF i(3) _ i(1,2) dom] by auto
    show "yields mlow b (\<lambda>_ b. sorted_in b l u)"
    proof (rule yields_conseq [OF low [OF db]])
      fix y c assume c: "sorted_in c l (i - 1) \<and> perm_in l (i - 1) b c"
      show "sorted_in c l u"
        by (rule sorted_parted [of c l i u])
          (use b c i dom_perm [OF db, of l "i - 1" c] parted_low [OF pb _ i(1,2) db] sorted_outside [of b "i + 1" u l "i - 1" c] in auto)
    qed
  qed
qed

lemma yields_sort_rec:
  assumes "dom_arr u a"
  shows "yields (sort_rec pred l u limit) a (\<lambda>_ b. sorted_in b l u \<and> perm_in l u a b)"
  using assms
proof (induction "u - l" arbitrary: l u a limit rule: less_induct)
  case less
  note dom = less.prems
  show ?case
  proof (rule yields_perm [OF _ _ _ ordered.sort_rec_runs])
    let ?m = "l + (u - l) div 2" and ?k = "limit div 2 + limit div 4"
    have IH: "yields (sort_rec pred x y k) b (\<lambda>_ c. sorted_in c x y \<and> perm_in x y b c)"
      if "y - x < u - l" "dom_arr u b" "y \<le> u" for x y k b
      using less.hyps [OF that(1) dom_mono [OF that(2,3)]] .
    show "yields (sort_rec pred l u limit) a (\<lambda>_ b. sorted_in b l u)"
    proof (subst sort_rec_unfold, unfold Let_def, intro yields_if)
      show "yields (sort_heap pred l u) a (\<lambda>_ b. sorted_in b l u)" if "l < u"
        by (rule yields_conseq [OF yields_heap [OF dom]]) (use that in auto)
      show "yields (ret ()) a (\<lambda>_ b. sorted_in b l u)" if "\<not> l < u" by (rule yields_ret) (use that sorted_short in auto)
      assume lu: "l < u"
      then have le: "l \<le> u" by simp
      show "yields (sbind (order_ends pred l u) (\<lambda>_.
          if u - l = 1 then ret ()
          else sbind (order_middle pred l ?m u) (\<lambda>_.
               if u - l = 2 then ret ()
               else sbind (partition_step pred l ?m u) (\<lambda>i.
                    if i - l < u - i
                    then sbind (sort_rec pred l (i - 1) ?k) (\<lambda>_. sort_rec pred (i + 1) u ?k)
                    else sbind (sort_rec pred (i + 1) u ?k) (\<lambda>_. sort_rec pred l (i - 1) ?k))))) a (\<lambda>_ b. sorted_in b l u)"
      proof (rule yields_bind [OF yields_order_ends [OF dom le]], intro yields_if, goal_cases)
        case (1 x b)
        then have "u = l + 1" by linarith
        then show ?case using 1 sorted_two [of b l] by (intro yields_ret) auto
      next
        case (2 x b)
        then have db: "dom_arr u b" and lb: "le_at b l u" using dom_perm [OF dom] by auto
        have m: "l < ?m" "?m < u" using 2 lu by linarith+
        show ?case
        proof (rule yields_bind [OF yields_order_middle [OF db m lb]], intro yields_if, goal_cases)
          case (1 y c)
          then have "u = l + 2" "?m = l + 1" by auto
          then show ?case using 1 sorted_three [of l c] dom_perm [OF db] by (intro yields_ret) auto
        next
          case (2 y c)
          then have dc: "dom_arr u c" and c: "le_at c l ?m" "le_at c ?m u" using dom_perm [OF db] by auto
          have u3: "l + 2 < u" using 2 m by linarith
          show ?case
          proof (rule yields_bind [OF yields_partition_step [OF dc m u3 c]], elim conjE)
            fix i d assume i: "l < i" "i \<le> u" "parted d l i u" "perm_in l u c d"
            show "yields (if i - l < u - i
                then sbind (sort_rec pred l (i - 1) ?k) (\<lambda>_. sort_rec pred (i + 1) u ?k)
                else sbind (sort_rec pred (i + 1) u ?k) (\<lambda>_. sort_rec pred l (i - 1) ?k)) d (\<lambda>_ b. sorted_in b l u)"
              by (rule yields_halves [OF dom_perm [OF dc i(4)] i(1,2,3) IH IH]) (use i in auto)
          qed
        qed
      qed
    qed
  qed (use dom in \<open>auto simp: dom_arr_def\<close>)
qed

end

end
