(* ===== verification/TableSortLaws.thy ===== *)
theory TableSortLaws
  imports TableSortOrder LuaTableLaws
begin

text \<open>
  The default order of \<^verbatim>\<open>table.sort\<close> (\<open>luaV_lessthan\<close> and \<open>luaV_strcmp\<close> of \<^verbatim>\<open>VM/src/lvmutils.cpp\<close>) and the properties of the sort
  on the tables of the VM.
\<close>

section \<open>Comparing values\<close>

datatype tvalue =
    VBoolean bool | VLightUserdata u64 u32 | VNumber u64 | VInteger u64 | VVector u32 u32 u32 | VString bytes
  | VTable u64 | VFunction u64 | VUserdata u64 | VThread u64 | VBuffer u64 | VClass u64 | VObject u64

text \<open>The type tags, nil being the absent value; objects other than strings are their addresses.\<close>

definition ttype :: "tvalue option \<Rightarrow> nat" where
  "ttype v =
     (case v of
        None \<Rightarrow> 0
      | Some (VBoolean _) \<Rightarrow> 1 | Some (VLightUserdata _ _) \<Rightarrow> 2 | Some (VNumber _) \<Rightarrow> 3 | Some (VInteger _) \<Rightarrow> 4
      | Some (VVector _ _ _) \<Rightarrow> 5 | Some (VString _) \<Rightarrow> 6 | Some (VTable _) \<Rightarrow> 7 | Some (VFunction _) \<Rightarrow> 8
      | Some (VUserdata _) \<Rightarrow> 9 | Some (VThread _) \<Rightarrow> 10 | Some (VBuffer _) \<Rightarrow> 11 | Some (VClass _) \<Rightarrow> 12 | Some (VObject _) \<Rightarrow> 13)"

text \<open>The comparison of two doubles, which are ordered by sign and magnitude.\<close>

definition dbl_key :: "u64 \<Rightarrow> int" where
  "dbl_key x = (if dbl_neg x then - int (unat x mod 2 ^ 63) else int (unat x mod 2 ^ 63))"

definition luai_numlt :: "u64 \<Rightarrow> u64 \<Rightarrow> bool" where
  "luai_numlt a b \<longleftrightarrow> \<not> is_nan64 a \<and> \<not> is_nan64 b \<and> dbl_key a < dbl_key b"

text \<open>The sign of \<open>memcmp\<close> on two byte strings of the same length.\<close>

fun memcmp :: "bytes \<Rightarrow> bytes \<Rightarrow> int" where
  "memcmp (x # xs) (y # ys) = (if x = y then memcmp xs ys else if x < y then - 1 else 1)"
| "memcmp _ _ = 0"

text \<open>Strings are interned: two strings are the same object when they have the same bytes. A string ends with a 0 byte.\<close>

definition first_char :: "bytes \<Rightarrow> u8" where
  "first_char s = (case s of [] \<Rightarrow> 0 | c # _ \<Rightarrow> c)"

definition luaV_strcmp :: "bytes \<Rightarrow> bytes \<Rightarrow> int" where
  "luaV_strcmp l r =
     (if l = r then 0
      else if first_char l \<noteq> first_char r then int (unat (first_char l)) - int (unat (first_char r))
      else let ll = length l; lr = length r; lmin = min ll lr; res = memcmp (take lmin l) (take lmin r)
           in if res \<noteq> 0 then res else if ll = lr then 0 else if ll < lr then - 1 else 1)"

text \<open>Values that are neither numbers nor strings are compared by a metamethod, which is a call into the program.\<close>

definition luaV_lessthan :: "(tvalue option \<Rightarrow> tvalue option \<Rightarrow> 'e) \<Rightarrow> ('e, tvalue, 'w) SortPredicate \<Rightarrow> ('e, tvalue, 'w) SortPredicate" where
  "luaV_lessthan ordererror call_orderTM l r s =
     (if ttype l \<noteq> ttype r then (Inl (ordererror l r), s)
      else case (l, r) of
        (Some (VNumber a), Some (VNumber b)) \<Rightarrow> (Inr (luai_numlt a b), s)
      | (Some (VString a), Some (VString b)) \<Rightarrow> (Inr (luaV_strcmp a b < 0), s)
      | _ \<Rightarrow> call_orderTM l r s)"

section \<open>The order of strings\<close>

text \<open>The lexicographic order of the bytes.\<close>

fun bytes_less :: "bytes \<Rightarrow> bytes \<Rightarrow> bool" where
  "bytes_less xs [] \<longleftrightarrow> False"
| "bytes_less [] (y # ys) \<longleftrightarrow> True"
| "bytes_less (x # xs) (y # ys) \<longleftrightarrow> x < y \<or> x = y \<and> bytes_less xs ys"

lemma bytes_less_memcmp:
  "bytes_less l r \<longleftrightarrow> (let res = memcmp (take (min (length l) (length r)) l) (take (min (length l) (length r)) r)
     in res < 0 \<or> res = 0 \<and> length l < length r)"
  by (induction l r rule: bytes_less.induct) auto

lemma memcmp_zero: "memcmp xs ys = 0 \<Longrightarrow> length xs = length ys \<Longrightarrow> xs = ys"
  by (induction xs ys rule: memcmp.induct) (auto split: if_splits)

lemma bytes_less_irrefl: "\<not> bytes_less s s"
  by (induction s) auto

lemma uint_gt_0: "0 < uint w \<longleftrightarrow> w \<noteq> 0" for w :: u8
  using word_gt_0 [of w] by (simp add: word_less_def)

lemma luaV_strcmp_less: "luaV_strcmp l r < 0 \<longleftrightarrow> bytes_less l r"
proof -
  consider "l = r" | "l \<noteq> r" "first_char l \<noteq> first_char r" | "l \<noteq> r" "first_char l = first_char r" by blast
  then show ?thesis
  proof cases
    case 1
    then show ?thesis by (simp add: luaV_strcmp_def bytes_less_irrefl)
  next
    case 2
    then show ?thesis
      by (cases l; cases r) (auto simp: luaV_strcmp_def first_char_def word_less_def uint_gt_0)
  next
    case 3
    then show ?thesis by (auto simp: luaV_strcmp_def Let_def bytes_less_memcmp)
  qed
qed

lemma memcmp_neg: "memcmp ys xs = - memcmp xs ys"
  by (induction xs ys rule: memcmp.induct) (auto split: if_splits)

lemma luaV_strcmp_neg: "luaV_strcmp r l = - luaV_strcmp l r"
  using memcmp_neg [of "take (min (length l) (length r)) r" "take (min (length l) (length r)) l"]
  by (auto simp: luaV_strcmp_def Let_def min.commute)

lemma bytes_less_asym: "bytes_less l r \<Longrightarrow> \<not> bytes_less r l"
  by (induction l r rule: bytes_less.induct) auto

lemma bytes_less_Nil: "bytes_less [] xs \<longleftrightarrow> xs \<noteq> []"
  by (cases xs) auto

lemma bytes_less_total: "bytes_less l r \<or> l = r \<or> bytes_less r l"
  by (induction l r rule: bytes_less.induct) (auto simp: bytes_less_Nil)

lemma bytes_less_trans: "bytes_less l m \<Longrightarrow> bytes_less m r \<Longrightarrow> bytes_less l r"
proof (induction l m arbitrary: r rule: bytes_less.induct)
  case (2 y ys)
  then show ?case by (cases r) auto
next
  case (3 x xs y ys)
  then show ?case by (cases r) auto
qed simp

section \<open>The default order on numbers and on strings\<close>

definition order_numbers :: "tvalue option set" where
  "order_numbers = {Some (VNumber a) | a. \<not> is_nan64 a}"

definition order_strings :: "tvalue option set" where
  "order_strings = range (\<lambda>s. Some (VString s))"

definition default_lt :: "tvalue option \<Rightarrow> tvalue option \<Rightarrow> bool" where
  "default_lt x y =
     (case (x, y) of
        (Some (VNumber a), Some (VNumber b)) \<Rightarrow> dbl_key a < dbl_key b
      | (Some (VString a), Some (VString b)) \<Rightarrow> bytes_less a b
      | _ \<Rightarrow> False)"

lemmas default_order_simps = luaV_lessthan_def ttype_def default_lt_def luai_numlt_def luaV_strcmp_less order_numbers_def order_strings_def

interpretation number_order: sort_order "luaV_lessthan ordererror call_orderTM" default_lt order_numbers for ordererror call_orderTM
  by unfold_locales (auto simp: default_order_simps)

interpretation string_order: sort_order "luaV_lessthan ordererror call_orderTM" default_lt order_strings for ordererror call_orderTM
proof (unfold_locales, goal_cases)
  case (3 x y z)
  then show ?case using bytes_less_total bytes_less_trans by (auto simp: default_order_simps) metis
qed (auto simp: default_order_simps bytes_less_asym)

section \<open>The sort of a table\<close>

lemma tsort_eq:
  assumes "vm_table ts_hash t" "luaH_getn t = Inr (n, t1)"
  shows "n \<le> sizearray t" "t1 = t\<lparr>lt_lastfree := lt_lastfree t1\<rparr>"
    "tsort pred (t, w) = (if lt_readonly t then throw SortReadonly (t1, w) else if n > 0 then sort_rec pred 0 (n - 1) n (t1, w) else ret () (t1, w))"
proof -
  have g: "n \<le> sizearray t" "moved_boundary ts_hash t t1"
    using luaH_getn_spec [OF vm_table_inv [OF assms(1)]] assms(2) by auto
  then have t1: "t1 = t\<lparr>lt_lastfree := lt_lastfree t1\<rparr>" by (auto simp: moved_boundary_def)
  then have "lt_readonly t1 = lt_readonly t" by (metis ltable.select_convs(2) ltable.surjective ltable.update_convs(6))
  with assms(2) show "tsort pred (t, w) = (if lt_readonly t then throw SortReadonly (t1, w) else if n > 0 then sort_rec pred 0 (n - 1) n (t1, w) else ret () (t1, w))"
    by (simp add: tsort_def Let_def)
  show "n \<le> sizearray t" "t1 = t\<lparr>lt_lastfree := lt_lastfree t1\<rparr>" by (rule g(1), rule t1)
qed

lemma getn_array:
  assumes "t1 = t\<lparr>lt_lastfree := lt_lastfree t1\<rparr>"
  shows "lt_array t1 = lt_array t"
  using assms by (metis ltable.select_convs(8) ltable.surjective ltable.update_convs(6))

lemma keepsD: "keeps I E m Q \<Longrightarrow> I s \<Longrightarrow> m s = (r, s') \<Longrightarrow> case r of Inl e \<Rightarrow> E e s' | Inr x \<Rightarrow> I s' \<and> Q x"
  unfolding keeps_def by (metis (no_types, lifting) case_prod_conv)

lemma tsort_errors:
  assumes "vm_table ts_hash t"
  shows "case fst (tsort pred (t, w)) of Inl e \<Rightarrow> proper_error e \<or> e = SortReadonly \<and> lt_readonly t | Inr _ \<Rightarrow> True"
proof -
  obtain n t1 where g: "luaH_getn t = Inr (n, t1)" using luaH_getn_spec [OF vm_table_inv [OF assms]] by blast
  note n = tsort_eq(1,2) [OF assms g] and ts = tsort_eq(3) [OF assms g, of pred w]
  have "case fst (sort_rec pred 0 (n - 1) n (t1, w)) of Inl e \<Rightarrow> proper_error e | Inr _ \<Rightarrow> True" if "n > 0"
  proof -
    have "in_bounds (n - 1) (t1, w)" using that n getn_array [OF n(2)] by (simp add: in_bounds_def arr_def)
    moreover obtain r s' where r: "sort_rec pred 0 (n - 1) n (t1, w) = (r, s')" by (meson surj_pair)
    ultimately show ?thesis
      using keepsD [OF any_pred.sort_rec_runs [of 0 "n - 1" "n - 1" pred n] _ r] by (simp split: sum.splits)
  qed
  then show ?thesis by (auto simp: ts throw_def ret_def split: sum.splits)
qed

lemma tsort_permutes:
  assumes "vm_table ts_hash t" "tsort (quiet f) (t, w) = (r, (t', w'))" "luaH_getn t = Inr (n, t1)"
  shows "mset (lt_array t') = mset (lt_array t)" "\<forall>k\<ge>n. lt_array t' ! k = lt_array t ! k"
    "t' = t1\<lparr>lt_array := lt_array t'\<rparr>" "r \<noteq> Inl TableModified"
proof -
  note n = tsort_eq(1,2) [OF assms(1,3)] and ts = tsort_eq(3) [OF assms(1,3), of "quiet f" w]
  note arr = getn_array [OF n(2)]
  have "mset (lt_array t') = mset (lt_array t) \<and> (\<forall>k\<ge>n. lt_array t' ! k = lt_array t ! k) \<and> t' = t1\<lparr>lt_array := lt_array t'\<rparr> \<and> r \<noteq> Inl TableModified"
  proof (cases "\<not> lt_readonly t \<and> n > 0")
    case True
    then have "sort_rec (quiet f) 0 (n - 1) n (t1, w) = (r, (t', w'))" using ts assms(2) by simp
    moreover have "n - 1 < length (lt_array t1)" using n(1) arr True by (simp only: arr) linarith
    then have "permuted 0 (n - 1) t1 (t1, w)" by (simp add: permuted_def perm_in_def arr_def)
    ultimately have "permuted 0 (n - 1) t1 (t', w') \<and> r \<noteq> Inl TableModified"
      using keepsD [OF quiet_pred.sort_rec_runs [of 0 0 "n - 1" "n - 1" t1 f n], of "(t1, w)" r "(t', w')"] by (cases r) auto
    then show ?thesis using True arr by (auto simp: permuted_def perm_in_def arr_def)
  next
    case False
    then have "(r = Inl SortReadonly \<or> r = Inr ()) \<and> t' = t1" using assms(2) ts by (simp add: throw_def ret_def split: if_splits)
    then show ?thesis using arr by auto
  qed
  then show "mset (lt_array t') = mset (lt_array t)" "\<forall>k\<ge>n. lt_array t' ! k = lt_array t ! k"
    "t' = t1\<lparr>lt_array := lt_array t'\<rparr>" "r \<noteq> Inl TableModified" by blast+
qed

lemma tsort_sorts:
  assumes "sort_order pred lt A" "vm_table ts_hash t" "luaH_getn t = Inr (n, t1)" "\<not> lt_readonly t" "\<forall>k<n. lt_array t ! k \<in> A"
  shows "\<exists>b w'. tsort pred (t, w) = (Inr (), (t1\<lparr>lt_array := b\<rparr>, w')) \<and> perm_in 0 (n - 1) (lt_array t) b
    \<and> (\<forall>i j. i < j \<and> j < n \<longrightarrow> \<not> lt (b ! j) (b ! i))"
proof -
  note n = tsort_eq(1,2) [OF assms(2,3)]
  have ts: "tsort pred (t, w) = (if n > 0 then sort_rec pred 0 (n - 1) n (t1, w) else ret () (t1, w))"
    using tsort_eq(3) [OF assms(2,3), of pred w] assms(4) by simp
  note arr = getn_array [OF n(2)]
  show ?thesis
  proof (cases "n > 0")
    case True
    have "sort_order.dom_arr A (n - 1) (lt_array t1)"
      unfolding sort_order.dom_arr_def [OF assms(1)] using True n arr assms(5) by auto
    from sort_order.yields_sort_rec [OF assms(1) this, of 0 n, unfolded yields_def, rule_format, OF refl]
    obtain x b w' where "sort_rec pred 0 (n - 1) n (t1, w) = (Inr x, (t1\<lparr>lt_array := b\<rparr>, w'))"
      "sort_order.sorted_in lt b 0 (n - 1)" "perm_in 0 (n - 1) (lt_array t1) b" by blast
    then show ?thesis using True ts arr
      unfolding sort_order.sorted_in_def [OF assms(1)] sort_order.le_at_def [OF assms(1)] by (auto simp: less_eq_Suc_le)
  next
    case False
    then show ?thesis using ts arr by (intro exI [of _ "lt_array t1"] exI [of _ w]) (auto simp: ret_def perm_in_def)
  qed
qed

section \<open>A table to sort\<close>

definition sort_demo :: "tvalue ltable" where
  "sort_demo = \<lparr>lt_tmcache = 255, lt_readonly = False, lt_safeenv = False, lt_lsizenode = 0, lt_nodemask8 = 0, lt_lastfree = 0,
     lt_metatable = None, lt_array = [Some (VString [98]), Some (VString [97])], lt_node = [], lt_arrayptr = 1, lt_nodeptr = 0\<rparr>"

lemma sort_demo_new: "luaH_new 2 0 = Inr (sort_demo\<lparr>lt_array := [None, None]\<rparr>)"
  by (simp add: luaH_new_def sort_demo_def setarrayvector_def MAXSIZE_value bindE_def Let_def numeral_2_eq_2)

lemma sort_demo_vm: "vm_table demo_hash sort_demo"
proof -
  let ?t0 = "sort_demo\<lparr>lt_array := [None, None]\<rparr>" and ?t1 = "sort_demo\<lparr>lt_array := [Some (VString [98]), None]\<rparr>"
  have s: "luaH_setnum demo_hash ?t0 1 = Inr (ArraySlot 0, ?t0)" "luaH_setnum demo_hash ?t1 2 = Inr (ArraySlot 1, ?t1)"
    by (simp_all add: luaH_setnum_def)
  have "vm_table demo_hash ?t0" by (rule vm_new [OF sort_demo_new])
  then have "vm_table demo_hash (setobj (ArraySlot 0) (Some (VString [98])) ?t0)" by (rule vm_setnum [OF _ _ s(1)]) (simp add: int32_def)
  then have "vm_table demo_hash ?t1" by simp
  then have "vm_table demo_hash (setobj (ArraySlot 1) (Some (VString [97])) ?t1)" by (rule vm_setnum [OF _ _ s(2)]) (simp add: int32_def)
  then show ?thesis by (simp add: sort_demo_def)
qed

lemma sort_demo_getn: "luaH_getn sort_demo = Inr (2, sort_demo)"
  by (simp add: luaH_getn_def getn_search_def getaboundary_def sort_demo_def is_dummy_def Let_def)

abbreviation default_order :: "(unit, tvalue, unit) SortPredicate" where
  "default_order \<equiv> luaV_lessthan (\<lambda>_ _. ()) (\<lambda>_ _ s. (Inl (), s))"

section \<open>Properties of the sort\<close>

text \<open>
  C17. Sorting is memory safe whatever the order function does: on every table the VM built, for every predicate, even one
  that answers inconsistently, raises errors or changes the table, no index leaves the array and the length is found; the
  sort returns, or ends with an error of the predicate, with "table modified during sorting", with "invalid order function
  for sorting" or, on a readonly table, with the readonly error.
\<close>

theorem table_sort_safe:
  assumes "vm_table ts_hash t"
  shows "case fst (tsort pred (t, w)) of Inl e \<Rightarrow> proper_error e \<or> e = SortReadonly \<and> lt_readonly t | Inr _ \<Rightarrow> True"
  by (rule tsort_errors [OF assms])

theorem table_sort_safe_witness:
  "case fst (tsort (\<lambda>x y (t, w). (Inr True, (t\<lparr>lt_array := []\<rparr>, w))) (sort_demo, ())) of
     Inl e \<Rightarrow> proper_error e \<or> e = SortReadonly \<and> lt_readonly sort_demo | Inr _ \<Rightarrow> True"
  by (rule table_sort_safe [OF sort_demo_vm])

text \<open>
  C18. With a predicate that leaves the table alone, however it answers and also when it raises an error in the middle, the
  array stays a permutation of itself, elements from the length on stay in place, nothing else of the table changes but
  the length hint, and the table is never reported as modified.
\<close>

theorem table_sort_permutes:
  assumes "vm_table ts_hash t" "luaH_getn t = Inr (n, t1)"
  shows "case tsort (quiet f) (t, w) of (r, (t', w')) \<Rightarrow>
    mset (lt_array t') = mset (lt_array t) \<and> (\<forall>k. n \<le> k \<longrightarrow> lt_array t' ! k = lt_array t ! k)
    \<and> t' = t1\<lparr>lt_array := lt_array t'\<rparr> \<and> r \<noteq> Inl TableModified"
proof -
  obtain r t' w' where r: "tsort (quiet f) (t, w) = (r, (t', w'))" by (metis prod.exhaust)
  show ?thesis using tsort_permutes [OF assms(1) r assms(2)] by (simp add: r)
qed

theorem table_sort_permutes_witness:
  "mset (lt_array (fst (snd (tsort (quiet (\<lambda>_ _ n. if n = 0 then (Inl (), n) else (Inr True, n - 1))) (sort_demo, 1 :: nat))))) = mset (lt_array sort_demo)"
  using table_sort_permutes [OF sort_demo_vm sort_demo_getn, of "\<lambda>_ _ n. if n = 0 then (Inl (), n) else (Inr True, n - 1)" "1 :: nat"]
  by (simp only: split_beta)

text \<open>
  C16. With a predicate that answers like a strict weak order on the elements of the table and leaves it alone, \<open>table.sort\<close> returns
  without an error, through quicksort or its heap sort fallback, and leaves the array sorted: a permutation of the
  elements in which no element is less than one before it.
\<close>

theorem table_sort_sorts:
  assumes "sort_order pred lt A" "vm_table ts_hash t" "luaH_getn t = Inr (n, t1)" "\<not> lt_readonly t" "\<forall>k<n. lt_array t ! k \<in> A"
  shows "\<exists>b w'. tsort pred (t, w) = (Inr (), (t1\<lparr>lt_array := b\<rparr>, w')) \<and> perm_in 0 (n - 1) (lt_array t) b
    \<and> (\<forall>i j. i < j \<and> j < n \<longrightarrow> \<not> lt (b ! j) (b ! i))"
  by (rule tsort_sorts [OF assms])

theorem table_sort_sorts_witness:
  "\<exists>b w'. tsort default_order (sort_demo, ()) = (Inr (), (sort_demo\<lparr>lt_array := b\<rparr>, w'))
    \<and> perm_in 0 1 (lt_array sort_demo) b \<and> \<not> default_lt (b ! 1) (b ! 0)"
proof -
  have "\<forall>k<2. lt_array sort_demo ! k \<in> order_strings"
    by (auto simp: sort_demo_def order_strings_def less_Suc_eq numeral_2_eq_2)
  then show ?thesis
    using table_sort_sorts [OF string_order.sort_order_axioms sort_demo_vm sort_demo_getn, of "\<lambda>_ _. ()" "\<lambda>_ _ s. (Inl (), s)" "()"]
    by (fastforce simp: sort_demo_def)
qed

text \<open>
  C19. The default order: on a table of numbers other than NaN, or of strings, \<open>table.sort\<close> without a comparison
  function sorts by value, respectively by the bytes of the strings; no metamethod is called.
\<close>

theorem table_sort_default:
  assumes "vm_table ts_hash t" "luaH_getn t = Inr (n, t1)" "\<not> lt_readonly t" "A = order_numbers \<or> A = order_strings" "\<forall>k<n. lt_array t ! k \<in> A"
  shows "\<exists>b w'. tsort (luaV_lessthan ordererror call_orderTM) (t, w) = (Inr (), (t1\<lparr>lt_array := b\<rparr>, w')) \<and> perm_in 0 (n - 1) (lt_array t) b
    \<and> (\<forall>i j. i < j \<and> j < n \<longrightarrow> \<not> default_lt (b ! j) (b ! i))"
proof -
  have "sort_order (luaV_lessthan ordererror call_orderTM) default_lt A"
    using assms(4) number_order.sort_order_axioms string_order.sort_order_axioms by blast
  then show ?thesis by (rule tsort_sorts [OF _ assms(1,2,3,5)])
qed

theorem table_sort_default_witness:
  "\<exists>w'. tsort default_order (sort_demo, ()) = (Inr (), (sort_demo\<lparr>lt_array := [Some (VString [97]), Some (VString [98])]\<rparr>, w'))"
proof -
  have "\<forall>k<2. lt_array sort_demo ! k \<in> order_strings"
    by (auto simp: sort_demo_def order_strings_def less_Suc_eq numeral_2_eq_2)
  then obtain b w' where b: "tsort default_order (sort_demo, ()) = (Inr (), (sort_demo\<lparr>lt_array := b\<rparr>, w'))"
    "perm_in 0 1 (lt_array sort_demo) b" "\<not> default_lt (b ! 1) (b ! 0)"
    using table_sort_default [OF sort_demo_vm sort_demo_getn, of order_strings "\<lambda>_ _. ()" "\<lambda>_ _ s. (Inl (), s)" "()"]
    by (fastforce simp: sort_demo_def)
  then have "length b = 2" using perm_in_length [OF b(2)] by (simp add: sort_demo_def)
  then obtain x y where xy: "b = [x, y]" by (auto simp: length_Suc_conv numeral_2_eq_2)
  then have "b = [Some (VString [97]), Some (VString [98])]"
    using b(2,3) by (auto simp: perm_in_def sort_demo_def add_eq_conv_ex default_lt_def)
  then show ?thesis using b(1) by blast
qed

text \<open>
  \<open>luaV_strcmp\<close>, with its shortcut on the first characters, is the lexicographic order of the bytes, embedded zeros
  included, and returns 0 for equal strings only.
\<close>

theorem strcmp_lexicographic:
  "(luaV_strcmp l r < 0 \<longleftrightarrow> bytes_less l r) \<and> (luaV_strcmp l r = 0 \<longleftrightarrow> l = r) \<and> (luaV_strcmp l r > 0 \<longleftrightarrow> bytes_less r l)"
  using luaV_strcmp_less [of l r] luaV_strcmp_less [of r l] luaV_strcmp_neg [of l r] bytes_less_total [of l r] bytes_less_irrefl
  by (metis neg_0_less_iff_less neg_less_0_iff_less less_irrefl linorder_neqE_linordered_idom luaV_strcmp_def)

end
