(* ===== verification/TableLib.thy ===== *)
theory TableLib
  imports LuaTableLaws
begin

text \<open>
  The table library, \<^verbatim>\<open>VM/src/ltablib.cpp\<close>: moving, inserting and removing elements, packing and unpacking, searching, creating
  and clearing, over the table operations of \<^verbatim>\<open>ltable.cpp\<close> as the API functions of \<^verbatim>\<open>lapi.cpp\<close> call them.

  The arguments are the values the argument checks produce; an \<^verbatim>\<open>int\<close> argument is an integer of that range. A table that is
  both source and destination is one table, so that reads see earlier writes.
\<close>

section \<open>Raw access\<close>

datatype lib_error =
  TableError lt_error | ReadonlyError | TooManyElements | DestinationWrap | TooManyResults | WrongArguments | SizeOutOfRange | IndexOutOfRange | NoEnd

definition int_max :: int where
  "int_max = 2147483647"

definition lua_rawgeti :: "'v ltable \<Rightarrow> int \<Rightarrow> lib_error + 'v option" where
  "lua_rawgeti t n = map_sum TableError (slot_value t) (luaH_getnum t n)"

definition lua_rawseti :: "(u64 \<Rightarrow> u32) \<Rightarrow> 'v ltable \<Rightarrow> int \<Rightarrow> 'v option \<Rightarrow> lib_error + 'v ltable" where
  "lua_rawseti ts_hash t n v =
     (if lt_readonly t then Inl ReadonlyError else map_sum TableError id (bindE (luaH_setnum ts_hash t n) (\<lambda>(s, t). Inr (setobj s v t))))"

definition lua_objlen :: "'v ltable \<Rightarrow> lib_error + nat \<times> 'v ltable" where
  "lua_objlen t = map_sum TableError id (luaH_getn t)"

section \<open>Moving elements\<close>

datatype 'v move_src = SameTable | OtherTable "'v ltable"

definition source_of :: "'v move_src \<Rightarrow> 'v ltable \<Rightarrow> 'v ltable" where
  "source_of s dst = (case s of SameTable \<Rightarrow> dst | OtherTable src \<Rightarrow> src)"

definition in_arrays :: "'v ltable \<Rightarrow> 'v ltable \<Rightarrow> int \<Rightarrow> int \<Rightarrow> int \<Rightarrow> bool" where
  "in_arrays src dst f t n \<longleftrightarrow>
     (of_int f :: u32) - 1 < of_nat (sizearray src) \<and> (of_int t :: u32) - 1 < of_nat (sizearray dst) \<and>
     (of_int f :: u32) - 1 + of_int n \<le> of_nat (sizearray src) \<and> (of_int t :: u32) - 1 + of_int n \<le> of_nat (sizearray dst)"

text \<open>The offsets in the order of the copy loops.\<close>

definition move_offsets :: "'v move_src \<Rightarrow> int \<Rightarrow> int \<Rightarrow> int \<Rightarrow> int list" where
  "move_offsets s f e t =
     (if t > e \<or> t \<le> f \<or> (case s of SameTable \<Rightarrow> False | OtherTable _ \<Rightarrow> True) then [0..e - f] else rev [0..e - f])"

definition copy_slot :: "'v move_src \<Rightarrow> int \<Rightarrow> int \<Rightarrow> int \<Rightarrow> 'v ltable \<Rightarrow> 'v ltable" where
  "copy_slot s f t i dst = dst\<lparr>lt_array := (lt_array dst)[nat (t + i - 1) := lt_array (source_of s dst) ! nat (f + i - 1)]\<rparr>"

primrec copy_raw :: "(u64 \<Rightarrow> u32) \<Rightarrow> 'v move_src \<Rightarrow> int \<Rightarrow> int \<Rightarrow> int list \<Rightarrow> 'v ltable \<Rightarrow> lib_error + 'v ltable" where
  "copy_raw ts_hash s f t [] dst = Inr dst"
| "copy_raw ts_hash s f t (i # is) dst =
     bindE (lua_rawgeti (source_of s dst) (f + i)) (\<lambda>v.
     bindE (lua_rawseti ts_hash dst (t + i) v) (\<lambda>dst. copy_raw ts_hash s f t is dst))"

text \<open>The move without the sparse path, which a flag that is off by default enables.\<close>

definition moveelements :: "(u64 \<Rightarrow> u32) \<Rightarrow> 'v move_src \<Rightarrow> 'v ltable \<Rightarrow> int \<Rightarrow> int \<Rightarrow> int \<Rightarrow> lib_error + 'v ltable" where
  "moveelements ts_hash s dst f e t =
     (if lt_readonly dst then Inl ReadonlyError
      else let n = e - f + 1
           in if in_arrays (source_of s dst) dst f t n
              then Inr (fold (copy_slot s f t) (move_offsets s f e t) dst)
              else copy_raw ts_hash s f t (move_offsets s f e t) dst)"

definition tmove :: "(u64 \<Rightarrow> u32) \<Rightarrow> 'v move_src \<Rightarrow> 'v ltable \<Rightarrow> int \<Rightarrow> int \<Rightarrow> int \<Rightarrow> lib_error + 'v ltable" where
  "tmove ts_hash s dst f e t =
     (if e \<ge> f then
        if \<not> (f > 0 \<or> e < int_max + f) then Inl TooManyElements
        else let n = e - f + 1
             in if \<not> t \<le> int_max - n + 1 then Inl DestinationWrap
                else if lt_readonly dst then Inl ReadonlyError
                else bindE (if t > 0 \<and> t - 1 \<le> int (sizearray dst) \<and> t - 1 + n > int (sizearray dst)
                            then map_sum TableError id (luaH_resizearray ts_hash dst (nat (t - 1 + n))) else Inr dst)
                       (\<lambda>dst. moveelements ts_hash s dst f e t)
      else Inr dst)"

section \<open>Inserting and removing\<close>

text \<open>A call with two arguments, with three of which the second is the position, or with another number of them.\<close>

datatype insert_pos = AtEnd | AtPos int | OtherArgs

definition tinsert :: "(u64 \<Rightarrow> u32) \<Rightarrow> 'v ltable \<Rightarrow> insert_pos \<Rightarrow> 'v option \<Rightarrow> lib_error + 'v ltable" where
  "tinsert ts_hash t p v =
     bindE (lua_objlen t) (\<lambda>(n, t).
       case p of
         AtEnd \<Rightarrow> lua_rawseti ts_hash t (int n + 1) v
       | AtPos pos \<Rightarrow>
           bindE (if 1 \<le> pos \<and> pos \<le> int n then moveelements ts_hash SameTable t pos (int n) (pos + 1) else Inr t) (\<lambda>t.
             lua_rawseti ts_hash t pos v)
       | OtherArgs \<Rightarrow> Inl WrongArguments)"

text \<open>The result is absent when the position is outside of the sequence.\<close>

definition tremove :: "(u64 \<Rightarrow> u32) \<Rightarrow> 'v ltable \<Rightarrow> int option \<Rightarrow> lib_error + 'v option option \<times> 'v ltable" where
  "tremove ts_hash t p =
     bindE (lua_objlen t) (\<lambda>(n, t).
       let pos = (case p of None \<Rightarrow> int n | Some pos \<Rightarrow> pos)
       in if \<not> (1 \<le> pos \<and> pos \<le> int n) then Inr (None, t)
          else bindE (lua_rawgeti t pos) (\<lambda>r.
               bindE (moveelements ts_hash SameTable t (pos + 1) (int n) pos) (\<lambda>t.
               bindE (lua_rawseti ts_hash t (int n) None) (\<lambda>t. Inr (Some r, t)))))"

section \<open>Packing and unpacking\<close>

text \<open>The key "n" and its value are parameters: the address of the interned string and the number value of a length.\<close>

definition tpack :: "(u64 \<Rightarrow> u32) \<Rightarrow> u64 \<Rightarrow> (nat \<Rightarrow> 'v) \<Rightarrow> 'v option list \<Rightarrow> lib_error + 'v ltable" where
  "tpack ts_hash key_n number args =
     map_sum TableError id
       (let n = length args
        in bindE (luaH_new n 1) (\<lambda>t.
           let t = fold (\<lambda>i t. t\<lparr>lt_array := (lt_array t)[i := args ! i]\<rparr>) [0..<n] t
           in bindE (luaH_setstr ts_hash t key_n) (\<lambda>(s, t). Inr (setobj s (Some (number n)) t))))"

primrec get_all :: "'v ltable \<Rightarrow> int list \<Rightarrow> lib_error + 'v option list" where
  "get_all t [] = Inr []"
| "get_all t (i # is) = bindE (lua_rawgeti t i) (\<lambda>v. bindE (get_all t is) (\<lambda>vs. Inr (v # vs)))"

definition tunpack :: "(nat \<Rightarrow> bool) \<Rightarrow> 'v ltable \<Rightarrow> int \<Rightarrow> int option \<Rightarrow> lib_error + 'v option list \<times> 'v ltable" where
  "tunpack checkstack t i e0 =
     bindE (case e0 of None \<Rightarrow> map_sum id (map_prod int id) (lua_objlen t) | Some e \<Rightarrow> Inr (e, t)) (\<lambda>(e, t).
       if i > e then Inr ([], t)
       else let n = (of_int e :: u32) - of_int i
            in if n \<ge> of_int int_max \<or> \<not> checkstack (unat (n + 1)) then Inl TooManyResults
               else let n = n + 1
                    in if i = 1 \<and> unat n \<le> sizearray t then Inr (take (unat n) (lt_array t), t)
                       else bindE (get_all t ([i..e - 1] @ [e])) (\<lambda>vs. Inr (vs, t)))"

section \<open>Searching, creating, clearing\<close>

text \<open>The search goes on to the first nil; \<open>fuel\<close> bounds the model of the loop, \<open>NoEnd\<close> is running out of it.\<close>

primrec find_from :: "nat \<Rightarrow> ('v \<Rightarrow> bool) \<Rightarrow> 'v ltable \<Rightarrow> int \<Rightarrow> lib_error + int option" where
  "find_from 0 equal t i = Inl NoEnd"
| "find_from (Suc fuel) equal t i =
     bindE (lua_rawgeti t i) (\<lambda>e.
       case e of None \<Rightarrow> Inr None | Some v \<Rightarrow> if equal v then Inr (Some i) else find_from fuel equal t (i + 1))"

definition tfind :: "('v \<Rightarrow> bool) \<Rightarrow> 'v ltable \<Rightarrow> int \<Rightarrow> lib_error + int option" where
  "tfind equal t init =
     (if init < 1 then Inl IndexOutOfRange else find_from (Suc (length (all_pairs t))) equal t init)"

definition tcreate :: "int \<Rightarrow> 'v option \<Rightarrow> lib_error + 'v ltable" where
  "tcreate n v =
     (if n < 0 then Inl SizeOutOfRange
      else map_sum TableError id
        (bindE (luaH_new (nat n) 0) (\<lambda>t.
          Inr (if v \<noteq> None then fold (\<lambda>i t. t\<lparr>lt_array := (lt_array t)[i := v]\<rparr>) [0..<nat n] t else t))))"

definition tclear :: "'v ltable \<Rightarrow> lib_error + 'v ltable" where
  "tclear t = (if lt_readonly t then Inl ReadonlyError else Inr (luaH_clear t))"

section \<open>Raw access as a map on integers\<close>

definition imap :: "'v ltable \<Rightarrow> int \<Rightarrow> 'v option" where
  "imap t i = lookup t (KNumber (cast_num i))"

text \<open>Keys that are no integers of the range of \<^verbatim>\<open>int\<close> are not touched.\<close>

definition same_rest :: "'v ltable \<Rightarrow> 'v ltable \<Rightarrow> bool" where
  "same_rest t t' \<longleftrightarrow> (\<forall>k. (\<forall>i. int32 i \<longrightarrow> norm_key k \<noteq> norm_key (KNumber (cast_num i))) \<longrightarrow> lookup t' k = lookup t k)"

lemma same_rest_refl [simp]: "same_rest t t"
  by (simp add: same_rest_def)

lemma same_rest_trans: "same_rest t t' \<Longrightarrow> same_rest t' t'' \<Longrightarrow> same_rest t t''"
  by (simp add: same_rest_def)

text \<open>A table that may be written to, and that is not too full.\<close>

definition usable :: "(u64 \<Rightarrow> u32) \<Rightarrow> 'v ltable \<Rightarrow> bool" where
  "usable ts_hash t \<longleftrightarrow> tab_inv ts_hash t \<and> \<not> lt_readonly t"

definition updated :: "(u64 \<Rightarrow> u32) \<Rightarrow> 'v ltable \<Rightarrow> (int \<Rightarrow> 'v option) \<Rightarrow> nat \<Rightarrow> lib_error + 'v ltable \<Rightarrow> bool" where
  "updated ts_hash t m k r \<longleftrightarrow>
     (case r of
        Inl e \<Rightarrow> e = TableError TableOverflow \<and> 33554430 < card (stored t) + k
      | Inr t' \<Rightarrow> usable ts_hash t' \<and> (\<forall>j. int32 j \<longrightarrow> imap t' j = m j) \<and> same_rest t t' \<and> card (stored t') \<le> card (stored t) + k)"

lemma rawgeti_imap: "tab_inv ts_hash t \<Longrightarrow> int32 i \<Longrightarrow> lua_rawgeti t i = Inr (imap t i)"
  using luaH_getnum_spec [of ts_hash t i] slot_lookup [of ts_hash t "KNumber (cast_num i)"]
  by (auto simp: lua_rawgeti_def imap_def int32_def)

lemma rawseti_updated:
  assumes "usable ts_hash t" "int32 i"
  shows "updated ts_hash t ((imap t)(i := v)) 1 (lua_rawseti ts_hash t i v)"
proof -
  have inv: "tab_inv ts_hash t" and ro: "\<not> lt_readonly t" using assms(1) by (simp_all add: usable_def)
  have ok: "set_ok ts_hash t (KNumber (cast_num i)) (luaH_setnum ts_hash t i)"
    using luaH_setnum_ok [OF inv] assms(2) by (simp add: int32_def)
  note st = store_at_ok [OF ok inv, of v]
  have keep: "\<not> lt_readonly t'" if st': "store_at (luaH_setnum ts_hash t i) v = Inr t'" for t'
  proof -
    obtain s t1 where s: "luaH_setnum ts_hash t i = Inr (s, t1)" "t' = setobj s v t1"
      using st' by (auto simp: store_at_def bindE_def split: sum.splits prod.splits)
    then have "\<not> lt_readonly t1" using ok ro by (simp add: set_ok_def)
    then show ?thesis using s(2) by (cases s) (auto simp: upd_node_def)
  qed
  have eq: "lua_rawseti ts_hash t i v = map_sum TableError id (store_at (luaH_setnum ts_hash t i) v)"
    using ro by (simp add: lua_rawseti_def store_at_def)
  show ?thesis
  proof (cases "store_at (luaH_setnum ts_hash t i) v")
    case (Inl e)
    then show ?thesis using st by (simp add: eq updated_def few_pairs_def MAXSIZE_value)
  next
    case (Inr t')
    have "imap t' j = ((imap t)(i := v)) j" if "int32 j" for j
      using st Inr norm_int_key [of j i] that assms(2) by (simp add: imap_def int32_def)
    then show ?thesis using st Inr keep assms(2) by (auto simp: eq updated_def usable_def same_rest_def)
  qed
qed

lemma updated_bind:
  assumes "updated ts_hash t m k r" "\<And>t'. usable ts_hash t' \<Longrightarrow> (\<And>j. int32 j \<Longrightarrow> imap t' j = m j) \<Longrightarrow> updated ts_hash t' m' k' (f t')"
  shows "updated ts_hash t m' (k + k') (bindE r f)"
proof (cases r)
  case (Inl e)
  then show ?thesis using assms(1) by (simp add: updated_def bindE_def)
next
  case (Inr t1)
  then have t1: "usable ts_hash t1" "\<And>j. int32 j \<Longrightarrow> imap t1 j = m j" "same_rest t t1" "card (stored t1) \<le> card (stored t) + k"
    using assms(1) by (simp_all add: updated_def)
  show ?thesis using assms(2) [OF t1(1,2)] t1(3,4) Inr same_rest_trans by (fastforce simp: updated_def bindE_def split: sum.splits)
qed

lemma updated_cong: "updated ts_hash t m k r \<Longrightarrow> (\<And>j. int32 j \<Longrightarrow> m j = m' j) \<Longrightarrow> updated ts_hash t m' k r"
  by (auto simp: updated_def split: sum.splits)

lemma updated_more: "updated ts_hash t m k r \<Longrightarrow> k \<le> k' \<Longrightarrow> updated ts_hash t m k' r"
  by (auto simp: updated_def split: sum.splits)

section \<open>Moves\<close>

lemma copy_raw_updated:
  assumes "usable ts_hash dst" "\<And>src. s = OtherTable src \<Longrightarrow> tab_inv ts_hash src" "\<forall>i\<in>set is. int32 (f + i) \<and> int32 (t + i)"
    "\<forall>i\<in>set is. imap (source_of s dst) (f + i) = g i" "s = SameTable \<Longrightarrow> sorted_wrt (\<lambda>i i'. t + i \<noteq> f + i') is"
  shows "updated ts_hash dst (\<lambda>j. if j - t \<in> set is then g (j - t) else imap dst j) (length is) (copy_raw ts_hash s f t is dst)"
  using assms
proof (induction "is" arbitrary: dst)
  case Nil
  then show ?case by (simp add: updated_def)
next
  case (Cons i "is")
  have src: "tab_inv ts_hash (source_of s dst)"
    using Cons.prems(1,2) by (cases s) (simp_all add: source_of_def usable_def)
  have r: "lua_rawgeti (source_of s dst) (f + i) = Inr (g i)" using rawgeti_imap [OF src] Cons.prems(3,4) by simp
  have "updated ts_hash dst ((imap dst)(t + i := g i)) 1 (lua_rawseti ts_hash dst (t + i) (g i))"
    by (rule rawseti_updated) (use Cons.prems in auto)
  then have "updated ts_hash dst (\<lambda>j. if j - t \<in> set (i # is) then g (j - t) else imap dst j) (1 + length is)
     (bindE (lua_rawseti ts_hash dst (t + i) (g i)) (copy_raw ts_hash s f t is))"
  proof (rule updated_bind)
    fix t' assume t': "usable ts_hash t'" "\<And>j. int32 j \<Longrightarrow> imap t' j = ((imap dst)(t + i := g i)) j"
    have "updated ts_hash t' (\<lambda>j. if j - t \<in> set is then g (j - t) else imap t' j) (length is) (copy_raw ts_hash s f t is t')"
    proof (rule Cons.IH [OF t'(1) Cons.prems(2)])
      show "\<forall>i'\<in>set is. imap (source_of s t') (f + i') = g i'"
        using Cons.prems(3,4,5) t'(2) by (cases s) (auto simp: source_of_def)
    qed (use Cons.prems in auto)
    then show "updated ts_hash t' (\<lambda>j. if j - t \<in> set (i # is) then g (j - t) else imap dst j) (length is) (copy_raw ts_hash s f t is t')"
      by (rule updated_cong) (use t'(2) in auto)
  qed
  then show ?case by (simp add: r bindE_def)
qed

lemma copy_slot_raw:
  assumes "\<not> lt_readonly dst"
    "\<forall>i\<in>set is. 1 \<le> f + i \<and> f + i \<le> int (sizearray (source_of s dst)) \<and> 1 \<le> t + i \<and> t + i \<le> int (sizearray dst)"
  shows "copy_raw ts_hash s f t is dst = Inr (fold (copy_slot s f t) is dst)"
  using assms
proof (induction "is" arbitrary: dst)
  case (Cons i "is")
  have "lua_rawgeti (source_of s dst) (f + i) = Inr (lt_array (source_of s dst) ! nat (f + i - 1))"
    using Cons.prems by (simp add: lua_rawgeti_def luaH_getnum_def nat_diff_distrib)
  moreover have "lua_rawseti ts_hash dst (t + i) v = Inr (dst\<lparr>lt_array := (lt_array dst)[nat (t + i - 1) := v]\<rparr>)" for v
    using Cons.prems by (simp add: lua_rawseti_def luaH_setnum_def bindE_def nat_diff_distrib)
  moreover have "sizearray (source_of s (copy_slot s f t i dst)) = sizearray (source_of s dst)" "sizearray (copy_slot s f t i dst) = sizearray dst"
    by (cases s; simp add: copy_slot_def source_of_def)+
  ultimately show ?case using Cons by (simp add: bindE_def copy_slot_def)
qed simp

lemma u32_in_array:
  assumes "int32 f" "n \<le> 2 ^ 26"
  shows "(of_int f :: u32) - 1 < of_nat n \<longleftrightarrow> 1 \<le> f \<and> f \<le> int n"
proof -
  have u: "uint ((of_int f :: u32) - 1) = (f - 1) mod 2 ^ 32" by (simp add: uint_word_ariths uint_word_of_int mod_simps)
  have n: "uint (of_nat n :: u32) = int n" using assms(2) by (simp add: uint_nat unat_of_nat take_bit_nat_eq_self)
  show ?thesis
  proof (cases "1 \<le> f")
    case True
    then have "(f - 1) mod 2 ^ 32 = f - 1" using assms(1) by (intro mod_pos_pos_trivial) (auto simp: int32_def)
    then show ?thesis using True u n by (auto simp: word_less_def)
  next
    case False
    have "(f - 1) mod 2 ^ 32 = (f - 1 + 2 ^ 32) mod 2 ^ 32" by (simp only: mod_add_self2)
    also have "\<dots> = f - 1 + 2 ^ 32" using assms(1) False by (intro mod_pos_pos_trivial) (auto simp: int32_def)
    finally show ?thesis using False assms u n by (auto simp: word_less_def int32_def)
  qed
qed

lemma u32_array_end:
  assumes "1 \<le> f" "f \<le> 2 ^ 26" "0 \<le> k" "k < 2 ^ 31" "n \<le> 2 ^ 26"
  shows "(of_int f :: u32) - 1 + of_int k \<le> of_nat n \<longleftrightarrow> f - 1 + k \<le> int n"
proof -
  have "uint ((of_int f :: u32) - 1 + of_int k) = (f - 1 + k) mod 2 ^ 32" by (simp add: uint_word_ariths uint_word_of_int mod_simps)
  also have "\<dots> = f - 1 + k" using assms by (intro mod_pos_pos_trivial) auto
  finally have u: "uint ((of_int f :: u32) - 1 + of_int k) = f - 1 + k" .
  have "uint (of_nat n :: u32) = int n" using assms(5) by (simp add: uint_nat unat_of_nat take_bit_nat_eq_self)
  then show ?thesis using u by (simp add: word_le_def)
qed

text \<open>The effect of a move: a copy through a temporary.\<close>

definition moved_map :: "(int \<Rightarrow> 'v option) \<Rightarrow> (int \<Rightarrow> 'v option) \<Rightarrow> int \<Rightarrow> int \<Rightarrow> int \<Rightarrow> int \<Rightarrow> 'v option" where
  "moved_map src dst f e t j = (if t \<le> j \<and> j \<le> t + (e - f) then src (f + (j - t)) else dst j)"

lemma move_offsets_set: "set (move_offsets s f e t) = {0..e - f}" "length (move_offsets s f e t) = nat (e - f + 1)"
  by (simp_all add: move_offsets_def)

lemma move_offsets_order: "sorted_wrt (\<lambda>i i'. t + i \<noteq> f + i') (move_offsets SameTable f e t)"
proof (cases "t > e \<or> t \<le> f")
  case True
  have "sorted_wrt (<) [0..e - f]" by (rule sorted_wrt_upto)
  then have "sorted_wrt (\<lambda>i i'. t + i \<noteq> f + i') [0..e - f]" by (rule sorted_wrt_mono_rel [rotated]) (use True in auto)
  then show ?thesis using True by (simp add: move_offsets_def)
next
  case False
  have "sorted_wrt (<) [0..e - f]" by (rule sorted_wrt_upto)
  then have "sorted_wrt (\<lambda>i' i. t + i \<noteq> f + i') [0..e - f]" by (rule sorted_wrt_mono_rel [rotated]) (use False in auto)
  then show ?thesis using False by (simp add: move_offsets_def sorted_wrt_rev)
qed

lemma moveelements_updated:
  assumes dst: "usable ts_hash dst" and src: "\<And>src. s = OtherTable src \<Longrightarrow> tab_inv ts_hash src"
    and rng: "int32 f" "int32 e" "int32 t" "int32 (t + (e - f))" "e - f + 1 < 2 ^ 31"
  shows "updated ts_hash dst (moved_map (imap (source_of s dst)) (imap dst) f e t) (nat (e - f + 1)) (moveelements ts_hash s dst f e t)"
proof -
  let ?is = "move_offsets s f e t"
  have sz: "sizearray dst \<le> 2 ^ 26" "sizearray (source_of s dst) \<le> 2 ^ 26"
    using dst src tab_invD(2) by (cases s; fastforce simp: source_of_def usable_def MAXSIZE_value)+
  have "updated ts_hash dst (\<lambda>j. if j - t \<in> set ?is then imap (source_of s dst) (f + (j - t)) else imap dst j) (length ?is) (copy_raw ts_hash s f t ?is dst)"
  proof (rule copy_raw_updated [OF dst src])
    show "\<forall>i\<in>set ?is. int32 (f + i) \<and> int32 (t + i)" using rng by (auto simp: move_offsets_set int32_def)
    show "s = SameTable \<Longrightarrow> sorted_wrt (\<lambda>i i'. t + i \<noteq> f + i') ?is" using move_offsets_order by simp
  qed auto
  then have raw: "updated ts_hash dst (moved_map (imap (source_of s dst)) (imap dst) f e t) (nat (e - f + 1)) (copy_raw ts_hash s f t ?is dst)"
    unfolding move_offsets_set by (rule updated_cong) (auto simp: moved_map_def)
  show ?thesis
  proof (cases "in_arrays (source_of s dst) dst f t (e - f + 1)")
    case True
    have "1 \<le> f \<and> f \<le> int (sizearray (source_of s dst))" "1 \<le> t \<and> t \<le> int (sizearray dst)"
      using True u32_in_array rng sz unfolding in_arrays_def by blast+
    then have "\<forall>i\<in>set ?is. 1 \<le> f + i \<and> f + i \<le> int (sizearray (source_of s dst)) \<and> 1 \<le> t + i \<and> t + i \<le> int (sizearray dst)"
      if "0 \<le> e - f + 1"
      using True u32_array_end [of f "e - f + 1" "sizearray (source_of s dst)"] u32_array_end [of t "e - f + 1" "sizearray dst"] sz rng that
      unfolding in_arrays_def move_offsets_set by auto
    moreover have "?is = []" if "\<not> 0 \<le> e - f + 1" using that by (simp add: move_offsets_def)
    ultimately have "\<forall>i\<in>set ?is. 1 \<le> f + i \<and> f + i \<le> int (sizearray (source_of s dst)) \<and> 1 \<le> t + i \<and> t + i \<le> int (sizearray dst)" by fastforce
    then have "copy_raw ts_hash s f t ?is dst = Inr (fold (copy_slot s f t) ?is dst)"
      by (rule copy_slot_raw [rotated]) (use dst in \<open>simp add: usable_def\<close>)
    then show ?thesis using raw True dst by (simp add: moveelements_def usable_def)
  next
    case False
    then show ?thesis using raw dst by (simp add: moveelements_def usable_def)
  qed
qed

section \<open>Sequences\<close>

text \<open>A table whose positive integer keys hold a list; \<open>list_frame\<close> collects what its list operations leave alone.\<close>

definition is_seq :: "'v ltable \<Rightarrow> 'v list \<Rightarrow> bool" where
  "is_seq t xs \<longleftrightarrow> (\<forall>j. int32 j \<and> 1 \<le> j \<longrightarrow> imap t j = (if j \<le> int (length xs) then Some (xs ! nat (j - 1)) else None))"

definition list_frame :: "'v ltable \<Rightarrow> 'v ltable \<Rightarrow> bool" where
  "list_frame t t' \<longleftrightarrow> same_rest t t' \<and> (\<forall>j. int32 j \<and> j < 1 \<longrightarrow> imap t' j = imap t j)"

datatype 'v list_op = ListInsert 'v | ListInsertAt int 'v | ListRemove | ListRemoveAt int

fun lib_step :: "(u64 \<Rightarrow> u32) \<Rightarrow> 'v list_op \<Rightarrow> 'v ltable \<Rightarrow> lib_error + 'v option option \<times> 'v ltable" where
  "lib_step ts_hash (ListInsert v) t = bindE (tinsert ts_hash t AtEnd (Some v)) (\<lambda>t. Inr (None, t))"
| "lib_step ts_hash (ListInsertAt pos v) t = bindE (tinsert ts_hash t (AtPos pos) (Some v)) (\<lambda>t. Inr (None, t))"
| "lib_step ts_hash ListRemove t = tremove ts_hash t None"
| "lib_step ts_hash (ListRemoveAt pos) t = tremove ts_hash t (Some pos)"

definition remove_at :: "int \<Rightarrow> 'v list \<Rightarrow> 'v option option \<times> 'v list" where
  "remove_at pos xs =
     (if 1 \<le> pos \<and> pos \<le> int (length xs)
      then (Some (Some (xs ! nat (pos - 1))), take (nat (pos - 1)) xs @ drop (nat pos) xs) else (None, xs))"

text \<open>The same on lists; an insertion that would leave a hole or go before the first element is outside of the specification.\<close>

fun list_step :: "'v list_op \<Rightarrow> 'v list \<Rightarrow> unit + 'v option option \<times> 'v list" where
  "list_step (ListInsert v) xs = Inr (None, xs @ [v])"
| "list_step (ListInsertAt pos v) xs =
     (if 1 \<le> pos \<and> pos \<le> int (length xs) + 1 then Inr (None, take (nat (pos - 1)) xs @ v # drop (nat (pos - 1)) xs) else Inl ())"
| "list_step ListRemove xs = Inr (remove_at (int (length xs)) xs)"
| "list_step (ListRemoveAt pos) xs = Inr (remove_at pos xs)"

lemma objlen_seq:
  assumes "usable ts_hash t" "is_seq t xs" "length xs < 2 ^ 30"
  obtains t1 where "lua_objlen t = Inr (length xs, t1)" "usable ts_hash t1" "lookup t1 = lookup t" "stored t1 = stored t"
proof -
  have inv: "tab_inv ts_hash t" using assms(1) by (simp add: usable_def)
  obtain n t1 where g: "luaH_getn t = Inr (n, t1)" "is_border t n" "n \<le> sizearray t" "moved_boundary ts_hash t t1"
    using luaH_getn_spec [OF inv] by blast
  have n: "int32 (int n)" "int32 (int n + 1)" using g(3) tab_invD(2) [OF inv] by (auto simp: int32_def MAXSIZE_value)
  have "n = 0 \<or> imap t (int n) \<noteq> None" "imap t (int n + 1) = None"
    using g(2) by (auto simp: is_border_def imap_def num_key_def add.commute)
  moreover have "imap t (int n + 1) = None \<longrightarrow> length xs \<le> n"
    using assms(2) [unfolded is_seq_def, rule_format, of "int n + 1"] n by (simp split: if_splits)
  moreover have "imap t (int n) \<noteq> None \<longrightarrow> n \<le> length xs" if "n \<noteq> 0"
    using assms(2) [unfolded is_seq_def, rule_format, of "int n"] n that by (simp split: if_splits)
  ultimately have "n = length xs" by (cases "n = 0") auto
  moreover have t1: "t1 = t\<lparr>lt_lastfree := lt_lastfree t1\<rparr>" "tab_inv ts_hash t1" using g(4) by (auto simp: moved_boundary_def)
  have f: "lt_array t1 = lt_array t" "lt_node t1 = lt_node t" "lt_readonly t1 = lt_readonly t"
    using t1(1) by (metis ltable.select_convs ltable.surjective ltable.update_convs(6))+
  have "stored t1 = stored t" "lookup t1 = lookup t" by (auto simp: stored_def lookup_def all_pairs_def f fun_eq_iff)
  moreover have "usable ts_hash t1" using t1(2) assms(1) f(3) by (simp add: usable_def)
  ultimately show thesis using that g(1) by (simp add: lua_objlen_def)
qed

lemma is_seq_lookup: "lookup t' = lookup t \<Longrightarrow> is_seq t' xs = is_seq t xs" "lookup t' = lookup t \<Longrightarrow> imap t' = imap t" "lookup t' = lookup t \<Longrightarrow> same_rest t' t'' = same_rest t t''"
  by (simp_all add: is_seq_def imap_def same_rest_def fun_eq_iff)

text \<open>How many pairs a table has follows from its length and from what the list operations leave alone.\<close>

lemma seq_pairs:
  assumes inv: "tab_inv ts_hash t" "tab_inv ts_hash t'" and seq: "is_seq t xs" "is_seq t' ys" and fr: "list_frame t t'"
    and len: "length xs < 2 ^ 30" "length ys < 2 ^ 30"
  shows "card (stored t') + length xs = card (stored t) + length ys"
proof -
  define pos :: "lkey set" where "pos = {norm_key (KNumber (cast_num j)) | j. int32 j \<and> 1 \<le> j}"
  have part: "card (stored u) = length zs + card {p \<in> stored u. fst p \<notin> pos}"
    if u: "tab_inv ts_hash u" "is_seq u zs" "length zs < 2 ^ 30" for u :: "'a ltable" and zs
  proof -
    have j: "int32 (int i + 1)" if "i < length zs" for i using that u(3) by (simp add: int32_def)
    have inj: "inj_on (\<lambda>i. (norm_key (KNumber (cast_num (int i + 1))), zs ! i)) {..<length zs}"
      using norm_int_key j by (auto simp: inj_on_def int32_def)
    have "{p \<in> stored u. fst p \<in> pos} = (\<lambda>i. (norm_key (KNumber (cast_num (int i + 1))), zs ! i)) ` {..<length zs}" (is "?L = ?R")
    proof (intro equalityI subsetI)
      fix p assume "p \<in> ?L"
      then obtain j where j: "int32 j" "1 \<le> j" "fst p = norm_key (KNumber (cast_num j))" "p \<in> stored u" by (auto simp: pos_def)
      then have "imap u j = Some (snd p)" unfolding imap_def by (subst lookup_iff [OF u(1)]) (metis prod.collapse)
      then have "j \<le> int (length zs)" "snd p = zs ! nat (j - 1)" using u(2) j(1,2) by (auto simp: is_seq_def split: if_splits)
      then show "p \<in> ?R" using j(2,3) by (intro image_eqI [of _ _ "nat (j - 1)"]) (auto simp: prod_eq_iff)
    next
      fix p assume "p \<in> ?R"
      then obtain i where i: "i < length zs" "p = (norm_key (KNumber (cast_num (int i + 1))), zs ! i)" by auto
      have "imap u (int i + 1) = Some (zs ! i)" using u(2) j [OF i(1)] i(1) by (simp add: is_seq_def)
      then have "p \<in> stored u" unfolding imap_def i(2) by (subst (asm) lookup_iff [OF u(1)])
      moreover have "fst p \<in> pos" unfolding pos_def i(2) using j [OF i(1)] by (auto intro!: exI [of _ "int i + 1"])
      ultimately show "p \<in> ?L" by simp
    qed
    then have "card ?L = length zs" using card_image [OF inj] by simp
    moreover have "card (?L \<union> {p \<in> stored u. fst p \<notin> pos}) = card ?L + card {p \<in> stored u. fst p \<notin> pos}"
      using finite_stored [OF u(1)] by (intro card_Un_disjoint) auto
    moreover have "?L \<union> {p \<in> stored u. fst p \<notin> pos} = stored u" by blast
    ultimately show ?thesis by simp
  qed
  have same: "lookup t' k = lookup t k" if "norm_key k \<notin> pos" for k
  proof (cases "\<exists>j. int32 j \<and> norm_key k = norm_key (KNumber (cast_num j))")
    case True
    then obtain j where j: "int32 j" "norm_key k = norm_key (KNumber (cast_num j))" by blast
    then have "j < 1" using that by (auto simp: pos_def)
    then have "imap t' j = imap t j" using fr j(1) by (simp add: list_frame_def)
    then show ?thesis using j(2) by (simp add: imap_def lookup_def)
  next
    case False
    then show ?thesis using fr unfolding list_frame_def same_rest_def by blast
  qed
  have "p \<in> stored t' \<longleftrightarrow> p \<in> stored t" if "fst p \<notin> pos" for p
  proof -
    have "q \<in> stored u \<longleftrightarrow> lookup u (fst q) = Some (snd q) \<and> norm_key (fst q) = fst q" if "tab_inv ts_hash u" for u :: "'a ltable" and q
      using lookup_iff [OF that] stored_norm [OF that] by (metis prod.collapse)
    then show ?thesis using inv same [of "fst p"] that by metis
  qed
  then have "{p \<in> stored t'. fst p \<notin> pos} = {p \<in> stored t. fst p \<notin> pos}" by blast
  then show ?thesis using part [OF inv(1) seq(1) len(1)] part [OF inv(2) seq(2) len(2)] by simp
qed

lemma updated_ok:
  assumes "updated ts_hash t m k r" "card (stored t) + k \<le> 33554430"
  obtains t' where "r = Inr t'" "usable ts_hash t'" "\<And>j. int32 j \<Longrightarrow> imap t' j = m j" "same_rest t t'"
  using assms by (cases r) (auto simp: updated_def)

lemma insert_nth:
  assumes "k \<le> length xs"
  shows "(take k xs @ v # drop k xs) ! i = (if i < k then xs ! i else if i = k then v else xs ! (i - 1))"
  using assms by (auto simp: nth_append nth_Cons' min_def)

lemma remove_nth:
  assumes "k < length xs"
  shows "(take k xs @ drop (Suc k) xs) ! i = (if i < k then xs ! i else xs ! Suc i)"
  using assms by (auto simp: nth_append min_def)

lemma seq_insert:
  assumes "is_seq t xs" "1 \<le> pos" "pos \<le> int (length xs) + 1" "length xs < 2 ^ 30"
    "\<And>j. int32 j \<Longrightarrow> imap t' j = (if j = pos then Some v else if pos < j \<and> j \<le> int (length xs) + 1 then imap t (j - 1) else imap t j)"
  shows "is_seq t' (take (nat (pos - 1)) xs @ v # drop (nat (pos - 1)) xs)"
  unfolding is_seq_def
proof (intro allI impI)
  fix j assume j: "int32 j \<and> 1 \<le> j"
  let ?k = "nat (pos - 1)"
  have k: "?k \<le> length xs" using assms(2,3) by linarith
  have m: "imap t i = (if i \<le> int (length xs) then Some (xs ! nat (i - 1)) else None)" if "1 \<le> i" "i \<le> j" for i
    using assms(1) that j by (auto simp: is_seq_def int32_def)
  have n: "nat (j - 1) < ?k \<longleftrightarrow> j < pos" "nat (j - 1) = ?k \<longleftrightarrow> j = pos" "nat (j - 1) - 1 = nat (j - 1 - 1)" using j assms(2) by auto
  have "imap t' j = (if j = pos then Some v else if pos < j \<and> j \<le> int (length xs) + 1 then imap t (j - 1) else imap t j)" using assms(5) j by blast
  then show "imap t' j = (if j \<le> int (length (take ?k xs @ v # drop ?k xs)) then Some ((take ?k xs @ v # drop ?k xs) ! nat (j - 1)) else None)"
    unfolding insert_nth [OF k] n using m [of j] m [of "j - 1"] j assms(2,3) k by (auto simp: min_def)
qed

lemma tinsert_seq:
  assumes u: "usable ts_hash t" and seq: "is_seq t xs" and room: "card (stored t) + length xs + 2 \<le> 33554430"
    and pos: "1 \<le> pos" "pos \<le> int (length xs) + 1" "p = AtPos pos \<or> p = AtEnd \<and> pos = int (length xs) + 1"
  shows "\<exists>t'. tinsert ts_hash t p (Some v) = Inr t' \<and> usable ts_hash t' \<and> list_frame t t'
    \<and> is_seq t' (take (nat (pos - 1)) xs @ v # drop (nat (pos - 1)) xs)"
proof -
  let ?n = "int (length xs)"
  have len: "length xs < 2 ^ 30" using room by simp
  obtain t1 where t1: "lua_objlen t = Inr (length xs, t1)" "usable ts_hash t1" "lookup t1 = lookup t" "stored t1 = stored t"
    by (rule objlen_seq [OF u seq len])
  have rng: "int32 pos" "int32 (pos + 1)" "int32 ?n" using pos(1,2) len by (auto simp: int32_def)
  define m where "m = (if pos \<le> ?n then moved_map (imap t1) (imap t1) pos ?n (pos + 1) else imap t1)"
  have "updated ts_hash t1 m (length xs) (if 1 \<le> pos \<and> pos \<le> ?n then moveelements ts_hash SameTable t1 pos ?n (pos + 1) else Inr t1)"
  proof (cases "pos \<le> ?n")
    case True
    have "updated ts_hash t1 (moved_map (imap (source_of SameTable t1)) (imap t1) pos ?n (pos + 1)) (nat (?n - pos + 1)) (moveelements ts_hash SameTable t1 pos ?n (pos + 1))"
      by (rule moveelements_updated [OF t1(2)]) (use rng True len pos in \<open>auto simp: int32_def\<close>)
    then have "updated ts_hash t1 m (nat (?n - pos + 1)) (moveelements ts_hash SameTable t1 pos ?n (pos + 1))"
      using True by (simp add: m_def source_of_def)
    then have "updated ts_hash t1 m (length xs) (moveelements ts_hash SameTable t1 pos ?n (pos + 1))"
      by (rule updated_more) (use pos(1) in linarith)
    then show ?thesis using True pos(1) by simp
  next
    case False
    then show ?thesis using t1(2) by (simp add: m_def updated_def)
  qed
  then have "updated ts_hash t1 (m(pos := Some v)) (length xs + 1)
     (bindE (if 1 \<le> pos \<and> pos \<le> ?n then moveelements ts_hash SameTable t1 pos ?n (pos + 1) else Inr t1) (\<lambda>t. lua_rawseti ts_hash t pos (Some v)))"
    by (rule updated_bind) (rule updated_cong [OF rawseti_updated], use rng in auto)
  then obtain t' where r: "bindE (if 1 \<le> pos \<and> pos \<le> ?n then moveelements ts_hash SameTable t1 pos ?n (pos + 1) else Inr t1) (\<lambda>t. lua_rawseti ts_hash t pos (Some v)) = Inr t'"
    and t': "usable ts_hash t'" "\<And>j. int32 j \<Longrightarrow> imap t' j = (m(pos := Some v)) j" "same_rest t1 t'"
    by (rule updated_ok) (use room t1(4) in auto)
  have ins: "tinsert ts_hash t p (Some v) = Inr t'"
    using pos(3) r unfolding tinsert_def t1(1) by (elim disjE) (simp_all add: bindE_def)
  have im: "imap t1 = imap t" using is_seq_lookup(2) [OF t1(3)] .
  have "list_frame t t'" using t'(2,3) is_seq_lookup(3) [OF t1(3)] pos(1) by (auto simp: list_frame_def m_def im moved_map_def)
  moreover have "is_seq t' (take (nat (pos - 1)) xs @ v # drop (nat (pos - 1)) xs)"
  proof (rule seq_insert [OF seq pos(1,2) len])
    fix j :: int assume j: "int32 j"
    show "imap t' j = (if j = pos then Some v else if pos < j \<and> j \<le> ?n + 1 then imap t (j - 1) else imap t j)"
      using t'(2) [OF j] pos(1,2) by (auto simp: m_def im moved_map_def algebra_simps)
  qed
  ultimately show ?thesis using ins t'(1) by blast
qed

lemma seq_remove:
  assumes "is_seq t xs" "1 \<le> pos" "pos \<le> int (length xs)" "length xs < 2 ^ 30"
    "\<And>j. int32 j \<Longrightarrow> imap t' j = (if j = int (length xs) then None else if pos \<le> j \<and> j < int (length xs) then imap t (j + 1) else imap t j)"
  shows "is_seq t' (take (nat (pos - 1)) xs @ drop (nat pos) xs)"
  unfolding is_seq_def
proof (intro allI impI)
  fix j assume j: "int32 j \<and> 1 \<le> j"
  let ?k = "nat (pos - 1)"
  have k: "?k < length xs" "nat pos = Suc ?k" using assms(2,3) by linarith+
  have m: "imap t i = (if i \<le> int (length xs) then Some (xs ! nat (i - 1)) else None)" if "1 \<le> i" "i \<le> j \<or> i \<le> int (length xs)" for i
    using assms(1,4) that j by (auto simp: is_seq_def int32_def)
  have n: "nat (j - 1) < ?k \<longleftrightarrow> j < pos" "Suc (nat (j - 1)) = nat (j + 1 - 1)" using j assms(2) by auto
  have "imap t' j = (if j = int (length xs) then None else if pos \<le> j \<and> j < int (length xs) then imap t (j + 1) else imap t j)" using assms(5) j by blast
  then show "imap t' j = (if j \<le> int (length (take ?k xs @ drop (nat pos) xs)) then Some ((take ?k xs @ drop (nat pos) xs) ! nat (j - 1)) else None)"
    unfolding k(2) remove_nth [OF k(1)] n using m [of j] m [of "j + 1"] j assms(2,3) k by (auto simp: min_def)
qed

lemma tremove_seq:
  assumes u: "usable ts_hash t" and seq: "is_seq t xs" and room: "card (stored t) + length xs + 2 \<le> 33554430"
    and pos: "pos = (case p of None \<Rightarrow> int (length xs) | Some i \<Rightarrow> i)"
  shows "\<exists>t'. tremove ts_hash t p = Inr (fst (remove_at pos xs), t') \<and> usable ts_hash t' \<and> list_frame t t' \<and> is_seq t' (snd (remove_at pos xs))"
proof -
  let ?n = "int (length xs)"
  have len: "length xs < 2 ^ 30" using room by simp
  obtain t1 where t1: "lua_objlen t = Inr (length xs, t1)" "usable ts_hash t1" "lookup t1 = lookup t" "stored t1 = stored t"
    by (rule objlen_seq [OF u seq len])
  have im: "imap t1 = imap t" "is_seq t1 xs" using is_seq_lookup [OF t1(3)] seq by simp_all
  show ?thesis
  proof (cases "1 \<le> pos \<and> pos \<le> ?n")
    case True
    have rng: "int32 pos" "int32 (pos + 1)" "int32 ?n" using True len by (auto simp: int32_def)
    have inv: "tab_inv ts_hash t1" using t1(2) by (simp add: usable_def)
    have r: "lua_rawgeti t1 pos = Inr (Some (xs ! nat (pos - 1)))"
      using rawgeti_imap [OF inv rng(1)] im(2) rng(1) True by (simp add: is_seq_def)
    define m where "m = moved_map (imap t) (imap t) (pos + 1) ?n pos"
    have "updated ts_hash t1 (moved_map (imap (source_of SameTable t1)) (imap t1) (pos + 1) ?n pos) (nat (?n - (pos + 1) + 1)) (moveelements ts_hash SameTable t1 (pos + 1) ?n pos)"
      by (rule moveelements_updated [OF t1(2)]) (use rng True len in \<open>auto simp: int32_def\<close>)
    then have "updated ts_hash t1 m (length xs) (moveelements ts_hash SameTable t1 (pos + 1) ?n pos)"
      unfolding source_of_def move_src.case im m_def by (rule updated_more) (use True in linarith)
    then have "updated ts_hash t1 (m(?n := None)) (length xs + 1)
       (bindE (moveelements ts_hash SameTable t1 (pos + 1) ?n pos) (\<lambda>t. lua_rawseti ts_hash t ?n None))"
      by (rule updated_bind) (rule updated_cong [OF rawseti_updated], use rng in auto)
    then obtain t' where t': "bindE (moveelements ts_hash SameTable t1 (pos + 1) ?n pos) (\<lambda>t. lua_rawseti ts_hash t ?n None) = Inr t'"
      "usable ts_hash t'" "\<And>j. int32 j \<Longrightarrow> imap t' j = (m(?n := None)) j" "same_rest t1 t'"
      by (rule updated_ok) (use room t1(4) in auto)
    have "tremove ts_hash t p = Inr (Some (Some (xs ! nat (pos - 1))), t')"
      using t'(1) True pos r t1(1) by (auto simp: tremove_def Let_def bindE_def split: sum.splits)
    moreover have "list_frame t t'" using t'(3,4) is_seq_lookup(3) [OF t1(3)] True by (auto simp: list_frame_def m_def moved_map_def)
    moreover have "is_seq t' (take (nat (pos - 1)) xs @ drop (nat pos) xs)"
      by (rule seq_remove [OF seq _ _ len]) (use t'(3) True in \<open>auto simp: m_def moved_map_def algebra_simps\<close>)
    ultimately show ?thesis using t'(2) True by (auto simp: remove_at_def)
  next
    case False
    then have "tremove ts_hash t p = Inr (None, t1)" using pos t1(1) by (auto simp: tremove_def bindE_def)
    moreover have "list_frame t t1" using im is_seq_lookup(3) [OF t1(3), of t1] by (simp add: list_frame_def)
    ultimately show ?thesis using False t1(2) im(2) by (auto simp: remove_at_def)
  qed
qed

lemma lib_step_seq:
  assumes u: "usable ts_hash t" and seq: "is_seq t xs" and room: "card (stored t) + length xs + 2 \<le> 33554430"
    and step: "list_step x xs = Inr (r, ys)"
  shows "\<exists>t'. lib_step ts_hash x t = Inr (r, t') \<and> usable ts_hash t' \<and> list_frame t t' \<and> is_seq t' ys
    \<and> card (stored t') + length xs = card (stored t) + length ys \<and> length ys \<le> Suc (length xs)"
proof -
  have len: "length ys \<le> Suc (length xs)"
    using step by (cases x) (auto simp: remove_at_def split: if_splits)
  obtain t' where t': "lib_step ts_hash x t = Inr (r, t')" "usable ts_hash t'" "list_frame t t'" "is_seq t' ys"
  proof (cases x)
    case (ListInsert v)
    then show thesis using tinsert_seq [OF u seq room, of "int (length xs) + 1" AtEnd v] step that by (auto simp: bindE_def)
  next
    case (ListInsertAt pos v)
    then show thesis using tinsert_seq [OF u seq room, of pos "AtPos pos" v] step that by (auto simp: bindE_def split: if_splits)
  next
    case ListRemove
    then show thesis using tremove_seq [OF u seq room, of _ None] step that by auto
  next
    case (ListRemoveAt pos)
    then show thesis using tremove_seq [OF u seq room, of _ "Some pos"] step that by auto
  qed
  moreover have "card (stored t') + length xs = card (stored t) + length ys"
    by (rule seq_pairs [of ts_hash]) (use u seq t' len room in \<open>auto simp: usable_def\<close>)
  ultimately show ?thesis using len by blast
qed

lemma lib_run_seq:
  assumes "usable ts_hash t" "is_seq t xs" "card (stored t) + length xs + 2 * length ops \<le> 33554430" "run_ops list_step ops xs = Inr (rs, ys)"
  shows "\<exists>t'. run_ops (lib_step ts_hash) ops t = Inr (rs, t') \<and> usable ts_hash t' \<and> list_frame t t' \<and> is_seq t' ys"
  using assms
proof (induction ops arbitrary: t xs rs)
  case Nil
  then show ?case by (simp add: list_frame_def)
next
  case (Cons x ops)
  obtain r zs rs' where st: "list_step x xs = Inr (r, zs)" "run_ops list_step ops zs = Inr (rs', ys)" "rs = r # rs'"
    using Cons.prems(4) by (auto split: sum.splits prod.splits)
  obtain t1 where t1: "lib_step ts_hash x t = Inr (r, t1)" "usable ts_hash t1" "list_frame t t1" "is_seq t1 zs"
    "card (stored t1) + length xs = card (stored t) + length zs" "length zs \<le> Suc (length xs)"
    using lib_step_seq [OF Cons.prems(1,2) _ st(1)] Cons.prems(3) by auto
  obtain t' where "run_ops (lib_step ts_hash) ops t1 = Inr (rs', t')" "usable ts_hash t'" "list_frame t1 t'" "is_seq t' ys"
    using Cons.IH [OF t1(2,4) _ st(2)] Cons.prems(3) t1(5,6) by auto
  then show ?case using t1(1,3) st(3) by (auto simp: list_frame_def same_rest_def)
qed

section \<open>Reading a range\<close>

lemma get_all_imap: "tab_inv ts_hash t \<Longrightarrow> \<forall>i\<in>set is. int32 i \<Longrightarrow> get_all t is = Inr (map (imap t) is)"
  by (induction "is") (auto simp: rawgeti_imap bindE_def)

lemma array_imap: "tab_inv ts_hash t \<Longrightarrow> i < sizearray t \<Longrightarrow> imap t (int i + 1) = lt_array t ! i"
  using lookup_array(1) [of ts_hash t "Suc i"] by (simp add: imap_def num_key_def add.commute)

lemma tunpack_range:
  assumes inv: "tab_inv ts_hash t" and rng: "int32 i" "int32 e" "i \<le> e" "e - i + 1 < 2 ^ 31" and stack: "checkstack (nat (e - i + 1))"
  shows "tunpack checkstack t i (Some e) = Inr (map (imap t) [i..e], t)"
proof -
  define n where "n = (of_int e :: u32) - of_int i"
  have "uint n = (e - i) mod 2 ^ 32" by (simp add: n_def uint_word_ariths uint_word_of_int mod_simps)
  also have "\<dots> = e - i" using rng by (intro mod_pos_pos_trivial) auto
  finally have un: "uint n = e - i" .
  have "uint (n + 1) = (e - i + 1) mod 2 ^ 32" by (simp add: uint_word_ariths un)
  also have "\<dots> = e - i + 1" using rng by (intro mod_pos_pos_trivial) auto
  finally have un1: "unat (n + 1) = nat (e - i + 1)" by (simp add: unat_eq_nat_uint)
  have "uint (of_int int_max :: u32) = int_max" by (simp add: int_max_def)
  then have lt: "\<not> of_int int_max \<le> n" using un rng(4) by (simp add: word_le_def int_max_def)
  have all: "get_all t ([i..e - 1] @ [e]) = Inr (map (imap t) [i..e])"
    using get_all_imap [OF inv, of "[i..e]"] rng upto_rec2 [of i e] by (simp add: int32_def)
  have fast: "take (nat (e - i + 1)) (lt_array t) = map (imap t) [i..e]" if "i = 1" "nat (e - i + 1) \<le> sizearray t"
  proof (rule nth_equalityI)
    show "length (take (nat (e - i + 1)) (lt_array t)) = length (map (imap t) [i..e])" using that by simp
    fix k assume "k < length (take (nat (e - i + 1)) (lt_array t))"
    then show "take (nat (e - i + 1)) (lt_array t) ! k = map (imap t) [i..e] ! k"
      using that array_imap [OF inv, of k] by (simp add: nth_upto add.commute)
  qed
  have un: "tunpack checkstack t i (Some e) =
     (if i = 1 \<and> nat (e - i + 1) \<le> sizearray t then Inr (take (nat (e - i + 1)) (lt_array t), t)
      else bindE (get_all t ([i..e - 1] @ [e])) (\<lambda>vs. Inr (vs, t)))"
  proof -
    have c: "(e < i) = False" "(of_int int_max \<le> n \<or> \<not> checkstack (nat (e - i + 1))) = False" using rng(3) lt stack by auto
    show ?thesis unfolding tunpack_def bindE_def option.case sum.case prod.case Let_def n_def [symmetric] un1 c if_False by (rule refl)
  qed
  show ?thesis
  proof (cases "i = 1 \<and> nat (e - i + 1) \<le> sizearray t")
    case True
    show ?thesis unfolding un if_P [OF True] fast [OF conjunct1 [OF True] conjunct2 [OF True]] by (rule refl)
  next
    case False
    show ?thesis unfolding un if_not_P [OF False] all by (simp add: bindE_def)
  qed
qed

section \<open>Packing\<close>

lemma tab_inv_array:
  assumes "tab_inv ts_hash t" "length a = sizearray t"
  shows "tab_inv ts_hash (t\<lparr>lt_array := a\<rparr>)"
proof -
  have "mainposition ts_hash (t\<lparr>lt_array := a\<rparr>) = mainposition ts_hash t"
    by (simp add: fun_eq_iff mainposition_def hashpow2_def sizenode_def)
  moreover have "sizenode (t\<lparr>lt_array := a\<rparr>) = sizenode t" by (simp add: sizenode_def)
  ultimately show ?thesis using assms by (simp add: tab_inv_def hash_inv_def is_dummy_def)
qed

lemma luaH_new_shape: "luaH_new narray nhash = Inr t \<Longrightarrow> sizearray t = narray \<and> \<not> lt_readonly t"
  by (auto simp: luaH_new_def Let_def bindE_def setarrayvector_def setnodevector_def split: sum.splits if_splits)

lemma fill_array:
  assumes "length xs = sizearray t"
  shows "fold (\<lambda>i t. t\<lparr>lt_array := (lt_array t)[i := xs ! i]\<rparr>) [0..<length xs] t = t\<lparr>lt_array := xs\<rparr>"
proof -
  have "k \<le> length xs \<Longrightarrow> fold (\<lambda>i t. t\<lparr>lt_array := (lt_array t)[i := xs ! i]\<rparr>) [0..<k] t = t\<lparr>lt_array := take k xs @ drop k (lt_array t)\<rparr>" for k
  proof (induction k)
    case (Suc k)
    have "(take k xs @ drop k (lt_array t))[k := xs ! k] = take (Suc k) xs @ drop (Suc k) (lt_array t)"
      using Suc.prems assms by (simp add: list_update_append take_Suc_conv_app_nth Cons_nth_drop_Suc [symmetric])
    then show ?case using Suc by simp
  qed simp
  from this [of "length xs"] show ?thesis using assms by simp
qed

lemma arr_list_length: "length (arr_list i xs) \<le> length xs"
  by (induction i xs rule: arr_list.induct) auto

lemma imap_array_only:
  assumes inv: "tab_inv ts_hash t" and empty: "entries (lt_node t) = {}" and j: "int32 j" "\<not> (1 \<le> j \<and> j \<le> int (sizearray t))"
  shows "imap t j = None"
proof (rule ccontr)
  assume "imap t j \<noteq> None"
  then obtain v where "(norm_key (KNumber (cast_num j)), v) \<in> array_pairs (lt_array t)"
    using lookup_iff [OF inv] empty unfolding imap_def stored_def by (metis Un_empty_right not_None_eq)
  then obtain i where i: "i < sizearray t" "norm_key (KNumber (cast_num j)) = num_key (Suc i)" by (auto simp: array_pairs_def)
  have "Suc i < 2 ^ 31" using i(1) tab_invD(2) [OF inv] by (simp add: MAXSIZE_value)
  then have "norm_key (KNumber (cast_num j)) = norm_key (KNumber (cast_num (int (Suc i))))"
    using i(2) num_key_norm [of "Suc i"] by (simp add: num_key_def)
  then have "j = int (Suc i)" using norm_int_key [of j "int (Suc i)"] j(1) \<open>Suc i < 2 ^ 31\<close> by (simp add: int32_def)
  then show False using i(1) j(2) by simp
qed

lemma tpack_spec:
  fixes args :: "'v option list"
  assumes "length args \<le> 33554430"
  shows "\<exists>t. tpack ts_hash key_n number args = Inr t \<and> tab_inv ts_hash t
    \<and> (\<forall>j. int32 j \<longrightarrow> imap t j = (if 1 \<le> j \<and> j \<le> int (length args) then args ! nat (j - 1) else None))
    \<and> lookup t (KString key_n) = Some (number (length args))"
proof -
  let ?n = "length args"
  obtain t0 :: "'v ltable" where t0: "luaH_new ?n 1 = Inr t0" "tab_inv ts_hash t0" "stored t0 = {}"
    by (rule luaH_new_spec [of ?n 1 ts_hash]) (use assms in \<open>simp_all add: MAXSIZE_value\<close>)
  note sh = luaH_new_shape [OF t0(1)]
  define t1 where "t1 = t0\<lparr>lt_array := args\<rparr>"
  have inv: "tab_inv ts_hash t1" unfolding t1_def by (rule tab_inv_array [OF t0(2)]) (use sh in simp)
  have nodes: "entries (lt_node t1) = {}" "node_list (lt_node t1) = []"
    using t0(3) all_pairs_card [OF t0(2)] by (simp_all add: stored_def t1_def all_pairs_def)
  have i1: "imap t1 j = (if 1 \<le> j \<and> j \<le> int ?n then args ! nat (j - 1) else None)" if "int32 j" for j
    using imap_array_only [OF inv nodes(1) that] array_imap [OF inv, of "nat (j - 1)"] by (auto simp: t1_def)
  have "card (stored t1) \<le> 33554430"
    using all_pairs_card [OF inv] arr_list_length [of 0 args] nodes(2) assms by (simp add: all_pairs_def t1_def)
  then have few: "few_pairs t1" by (simp add: few_pairs_def MAXSIZE_value)
  obtain t where t: "store_at (luaH_setstr ts_hash t1 key_n) (Some (number ?n)) = Inr t" "tab_inv ts_hash t"
    "\<And>k. lookup t k = (if norm_key k = norm_key (KString key_n) then Some (number ?n) else lookup t1 k)"
    using store_at_ok [OF luaH_setstr_ok [OF inv, of key_n] inv, of "Some (number ?n)"] few by (auto split: sum.splits)
  have "fold (\<lambda>i t. t\<lparr>lt_array := (lt_array t)[i := args ! i]\<rparr>) [0..<?n] t0 = t1" using fill_array [of args t0] sh by (simp add: t1_def)
  then have "tpack ts_hash key_n number args = Inr t"
    using t(1) t0(1) by (simp add: tpack_def Let_def bindE_def store_at_def)
  moreover have "norm_key (KNumber (cast_num j)) \<noteq> norm_key (KString key_n)" for j by simp
  then have "imap t j = imap t1 j" for j using t(3) by (simp add: imap_def)
  ultimately show ?thesis using t(2,3) i1 by simp
qed

section \<open>Searching\<close>

text \<open>Among as many consecutive keys as the table has pairs, and one more, one is absent.\<close>

lemma absent_key:
  assumes inv: "tab_inv ts_hash t" and rng: "1 \<le> i" "i + int (card (stored t)) \<le> int_max"
  shows "\<exists>k \<le> card (stored t). imap t (i + int k) = None"
proof (rule ccontr)
  assume no: "\<not> (\<exists>k \<le> card (stored t). imap t (i + int k) = None)"
  let ?f = "\<lambda>k. (norm_key (KNumber (cast_num (i + int k))), the (imap t (i + int k)))" and ?K = "{..card (stored t)}"
  have r: "int32 (i + int k)" if "k \<in> ?K" for k using that rng by (auto simp: int32_def int_max_def)
  have "inj_on ?f ?K" using norm_int_key r unfolding inj_on_def int32_def by auto
  moreover have "?f ` ?K \<subseteq> stored t"
  proof
    fix p assume "p \<in> ?f ` ?K"
    then obtain k where k: "k \<le> card (stored t)" "p = ?f k" by auto
    then have "lookup t (KNumber (cast_num (i + int k))) = Some (the (imap t (i + int k)))" using no by (auto simp: imap_def)
    then show "p \<in> stored t" using lookup_iff [OF inv] k(2) by simp
  qed
  ultimately have "card ?K \<le> card (stored t)" using card_inj_on_le finite_stored [OF inv] by blast
  then show False by simp
qed

lemma find_from_spec:
  assumes inv: "tab_inv ts_hash t" and absent: "\<exists>k<fuel. imap t (i + int k) = None" and rng: "1 \<le> i" "i + int fuel \<le> int_max + 1"
  shows "\<exists>r. find_from fuel equal t i = Inr r \<and>
    (case r of
       None \<Rightarrow> \<exists>k\<ge>i. imap t k = None \<and> (\<forall>j. i \<le> j \<and> j < k \<longrightarrow> (\<exists>v. imap t j = Some v \<and> \<not> equal v))
     | Some k \<Rightarrow> i \<le> k \<and> (\<exists>v. imap t k = Some v \<and> equal v) \<and> (\<forall>j. i \<le> j \<and> j < k \<longrightarrow> (\<exists>v. imap t j = Some v \<and> \<not> equal v)))"
  using absent rng
proof (induction fuel arbitrary: i)
  case 0
  then show ?case by simp
next
  case (Suc fuel)
  have get: "lua_rawgeti t i = Inr (imap t i)" by (rule rawgeti_imap [OF inv]) (use Suc.prems in \<open>auto simp: int32_def int_max_def\<close>)
  consider "imap t i = None" | v where "imap t i = Some v" "equal v" | v where "imap t i = Some v" "\<not> equal v" by fastforce
  then show ?case
  proof cases
    case 1
    then show ?thesis using get by (intro exI [of _ None]) (auto simp: bindE_def)
  next
    case 2
    then show ?thesis using get by (intro exI [of _ "Some i"]) (auto simp: bindE_def)
  next
    case 3
    obtain k where k: "k < Suc fuel" "imap t (i + int k) = None" using Suc.prems(1) by blast
    then have "0 < k" using 3 by (cases k) auto
    then have "\<exists>k<fuel. imap t (i + 1 + int k) = None" using k by (intro exI [of _ "k - 1"]) (auto simp: of_nat_diff algebra_simps)
    from Suc.IH [OF this] Suc.prems(2,3) obtain r where r: "find_from fuel equal t (i + 1) = Inr r"
      "case r of
         None \<Rightarrow> \<exists>k\<ge>i + 1. imap t k = None \<and> (\<forall>j. i + 1 \<le> j \<and> j < k \<longrightarrow> (\<exists>v. imap t j = Some v \<and> \<not> equal v))
       | Some k \<Rightarrow> i + 1 \<le> k \<and> (\<exists>v. imap t k = Some v \<and> equal v) \<and> (\<forall>j. i + 1 \<le> j \<and> j < k \<longrightarrow> (\<exists>v. imap t j = Some v \<and> \<not> equal v))" by auto
    have ext: "\<exists>w. imap t j = Some w \<and> \<not> equal w" if "i \<le> j" "j < k" "\<forall>j. i + 1 \<le> j \<and> j < k \<longrightarrow> (\<exists>v. imap t j = Some v \<and> \<not> equal v)" for j k
      using that 3 by (cases "j = i") auto
    have ff: "find_from (Suc fuel) equal t i = Inr r" using get 3 r(1) by (simp add: bindE_def)
    show ?thesis
    proof (cases r)
      case None
      then obtain k where k: "i + 1 \<le> k" "imap t k = None" "\<forall>j. i + 1 \<le> j \<and> j < k \<longrightarrow> (\<exists>v. imap t j = Some v \<and> \<not> equal v)" using r(2) by auto
      have "i \<le> k \<and> imap t k = None \<and> (\<forall>j. i \<le> j \<and> j < k \<longrightarrow> (\<exists>v. imap t j = Some v \<and> \<not> equal v))" using k ext [OF _ _ k(3)] by simp
      then show ?thesis unfolding ff None by (auto intro!: exI [of _ None])
    next
      case (Some k)
      then have k: "i + 1 \<le> k" "\<exists>v. imap t k = Some v \<and> equal v" "\<forall>j. i + 1 \<le> j \<and> j < k \<longrightarrow> (\<exists>v. imap t j = Some v \<and> \<not> equal v)" using r(2) by auto
      have "i \<le> k \<and> (\<exists>v. imap t k = Some v \<and> equal v) \<and> (\<forall>j. i \<le> j \<and> j < k \<longrightarrow> (\<exists>v. imap t j = Some v \<and> \<not> equal v))" using k ext [OF _ _ k(3)] by simp
      then show ?thesis unfolding ff Some by (intro exI [of _ "Some k"]) simp
    qed
  qed
qed

lemma lookup_stored: "tab_inv ts_hash t \<Longrightarrow> tab_inv ts_hash t' \<Longrightarrow> stored t' = stored t \<Longrightarrow> lookup t' = lookup t"
  using lookup_iff [of ts_hash t] lookup_iff [of ts_hash t'] by (metis ext not_Some_eq)

section \<open>A table to work on\<close>

lemma demo_usable: "usable demo_hash demo_table" "length (all_pairs demo_table) = 3"
  using vm_table_inv [OF demo_vm_table] by (simp_all add: usable_def demo_table_def demo_one_def demo_empty_def all_pairs_def)

lemma demo_seq: "is_seq demo_table [7]"
  unfolding is_seq_def
proof (intro allI impI)
  fix j :: int assume j: "int32 j \<and> 1 \<le> j"
  have "norm_key (KNumber (cast_num j)) = norm_key (num_key 1) \<longleftrightarrow> j = 1"
    using norm_int_key [of j 1] j by (simp add: num_key_def int32_def)
  then show "imap demo_table j = (if j \<le> int (length [7 :: nat]) then Some ([7] ! nat (j - 1)) else None)"
    using j by (auto simp: imap_def lookup_def all_pairs_def demo_table_def demo_one_def demo_empty_def norm_pair_def)
qed

section \<open>Properties of the table library\<close>

text \<open>
  C20. A table used as a sequence is a list: any series of \<open>table.insert\<close> and \<open>table.remove\<close>, with or without a position, on a
  table of the VM returns and answers like the same series on the list of its elements, whether elements move inside the
  array part or through raw accesses, and leaves all other keys alone.
\<close>

theorem table_list_refines:
  assumes "vm_table ts_hash t" "\<not> lt_readonly t" "is_seq t xs" "run_ops list_step ops xs = Inr (rs, ys)"
    "length (all_pairs t) + length xs + 2 * length ops \<le> 33554430"
  shows "\<exists>t'. run_ops (lib_step ts_hash) ops t = Inr (rs, t') \<and> is_seq t' ys \<and> list_frame t t'"
proof -
  have inv: "tab_inv ts_hash t" using vm_table_inv [OF assms(1)] .
  then have "usable ts_hash t" using assms(2) by (simp add: usable_def)
  from lib_run_seq [OF this assms(3) _ assms(4)] show ?thesis using assms(5) all_pairs_card [OF inv] by auto
qed

theorem table_list_refines_witness:
  "\<exists>t'. run_ops (lib_step demo_hash) [ListInsertAt 1 5, ListInsert 6, ListRemoveAt 2] demo_table = Inr ([None, None, Some (Some 7)], t')
     \<and> is_seq t' [5, 6]"
  using table_list_refines [OF demo_vm_table _ demo_seq, of "[ListInsertAt 1 5, ListInsert 6, ListRemoveAt 2]" "[None, None, Some (Some 7)]" "[5, 6]"]
    demo_usable by (auto simp: remove_at_def usable_def)

text \<open>
  C21. \<open>table.move\<close> copies as through a temporary: for every pair of ranges, overlapping or not, in one table or between two,
  the destination range gets the values the source range had before, and nothing else changes; the only error beyond the
  argument checks is a table overflow.
\<close>

theorem table_move_copies:
  assumes "vm_table ts_hash dst" "\<not> lt_readonly dst" "s = SameTable \<or> s = OtherTable src \<and> vm_table ts_hash src"
    "int32 f" "int32 e" "int32 t" "f \<le> e" "e - f < int_max" "t + (e - f) \<le> 2 ^ 30"
  shows "case tmove ts_hash s dst f e t of
      Inl err \<Rightarrow> err = TableError TableOverflow
        \<and> (33554430 < int (length (all_pairs dst)) + (e - f + 1) \<or> luaH_resizearray ts_hash dst (nat (t + (e - f))) = Inl TableOverflow)
    | Inr dst' \<Rightarrow> (\<forall>j. int32 j \<longrightarrow> imap dst' j = moved_map (imap (source_of s dst)) (imap dst) f e t j) \<and> same_rest dst dst' \<and> tab_inv ts_hash dst'"
proof -
  have inv: "tab_inv ts_hash dst" using vm_table_inv [OF assms(1)] .
  have u: "usable ts_hash dst" using inv assms(2) by (simp add: usable_def)
  have src: "tab_inv ts_hash src'" if "s = OtherTable src'" for src' using that assms(3) vm_table_inv by auto
  have mv: "updated ts_hash d (moved_map (imap (source_of s d)) (imap d) f e t) (nat (e - f + 1)) (moveelements ts_hash s d f e t)" if "usable ts_hash d" for d
    by (rule moveelements_updated [OF that src]) (use assms in \<open>auto simp: int32_def int_max_def\<close>)
  define grow where "grow \<longleftrightarrow> t > 0 \<and> t - 1 \<le> int (sizearray dst) \<and> t - 1 + (e - f + 1) > int (sizearray dst)"
  have rs: "case luaH_resizearray ts_hash dst (nat (t + (e - f))) of Inl e \<Rightarrow> e = TableOverflow | Inr d \<Rightarrow> resized ts_hash dst d" if grow
  proof -
    have "sizearray dst \<le> nat (t + (e - f))" "nat (t + (e - f)) \<le> 2 ^ 30" using that assms(9) by (auto simp: grow_def)
    from luaH_resizearray_spec [OF inv this] show ?thesis by (simp split: sum.splits)
  qed
  have tm: "tmove ts_hash s dst f e t =
     bindE (if grow then map_sum TableError id (luaH_resizearray ts_hash dst (nat (t + (e - f)))) else Inr dst) (\<lambda>d. moveelements ts_hash s d f e t)"
  proof -
    have "f > 0 \<or> e < int_max + f" "t \<le> int_max - (e - f + 1) + 1" using assms by (auto simp: int_max_def)
    then show ?thesis using assms(2,7) by (simp add: tmove_def Let_def grow_def add.assoc)
  qed
  show ?thesis
  proof (cases "if grow then map_sum TableError id (luaH_resizearray ts_hash dst (nat (t + (e - f)))) else Inr dst")
    case (Inl err)
    then have "luaH_resizearray ts_hash dst (nat (t + (e - f))) = Inl TableOverflow \<and> err = TableError TableOverflow"
      using rs by (cases "luaH_resizearray ts_hash dst (nat (t + (e - f)))") (auto split: if_splits)
    then show ?thesis using Inl tm by (simp add: bindE_def)
  next
    case (Inr d)
    have d: "usable ts_hash d \<and> lookup d = lookup dst \<and> stored d = stored dst"
    proof (cases grow)
      case True
      then have "luaH_resizearray ts_hash dst (nat (t + (e - f))) = Inr d"
        using Inr by (cases "luaH_resizearray ts_hash dst (nat (t + (e - f)))") auto
      then have "resized ts_hash dst d" using rs [OF True] by simp
      then show ?thesis using lookup_stored [OF inv, of d] assms(2) by (simp add: resized_def usable_def same_meta_def)
    next
      case False
      then show ?thesis using Inr u by simp
    qed
    then have "imap d = imap dst" "imap (source_of s d) = imap (source_of s dst)" "same_rest d = same_rest dst"
      by (cases s; auto simp: imap_def source_of_def same_rest_def fun_eq_iff)+
    moreover have "33554430 < card (stored dst) + nat (e - f + 1) \<Longrightarrow> 33554430 < int (length (all_pairs dst)) + (e - f + 1)"
      using assms(7) all_pairs_card [OF inv] by linarith
    moreover have "tmove ts_hash s dst f e t = moveelements ts_hash s d f e t" using Inr tm by (simp add: bindE_def)
    ultimately show ?thesis using mv [of d] d by (auto simp: updated_def usable_def split: sum.splits)
  qed
qed

theorem table_move_copies_witness:
  "case tmove demo_hash SameTable demo_table 1 2 2 of
      Inl err \<Rightarrow> err = TableError TableOverflow
        \<and> (33554430 < int (length (all_pairs demo_table)) + (2 - 1 + 1) \<or> luaH_resizearray demo_hash demo_table (nat (2 + (2 - 1))) = Inl TableOverflow)
    | Inr dst' \<Rightarrow> imap dst' 2 = Some 7 \<and> imap dst' 3 = None"
proof -
  have "imap demo_table 1 = Some 7" "imap demo_table 2 = None" using demo_seq by (simp_all add: is_seq_def int32_def)
  then show ?thesis
    using table_move_copies [OF demo_vm_table, of SameTable undefined 1 2 2] demo_usable(1)
    by (auto simp: usable_def int32_def int_max_def moved_map_def source_of_def split: sum.splits)
qed

text \<open>
  \<open>table.unpack\<close> inverts \<open>table.pack\<close>, nils included: the packed table has the number of arguments in its field \<open>n\<close>, and
  unpacking from 1 to that number gives the arguments back, through the array copy or through raw accesses.
\<close>

theorem table_pack_unpack:
  assumes "length args \<le> 33554430" "checkstack (length args)"
  shows "\<exists>t. tpack ts_hash key_n number args = Inr t \<and> lookup t (KString key_n) = Some (number (length args))
    \<and> tunpack checkstack t 1 (Some (int (length args))) = Inr (args, t)"
proof -
  obtain t where t: "tpack ts_hash key_n number args = Inr t" "tab_inv ts_hash t" "lookup t (KString key_n) = Some (number (length args))"
    "\<And>j. int32 j \<Longrightarrow> imap t j = (if 1 \<le> j \<and> j \<le> int (length args) then args ! nat (j - 1) else None)"
    using tpack_spec [OF assms(1), of ts_hash key_n number] by blast
  have "tunpack checkstack t 1 (Some (int (length args))) = Inr (args, t)"
  proof (cases "args = []")
    case True
    then show ?thesis by (simp add: tunpack_def bindE_def)
  next
    case False
    then have "tunpack checkstack t 1 (Some (int (length args))) = Inr (map (imap t) [1..int (length args)], t)"
      using assms by (intro tunpack_range [OF t(2)]) (auto simp: int32_def Suc_le_eq)
    moreover have "map (imap t) [1..int (length args)] = args"
      using assms(1) t(4) by (intro nth_equalityI) (auto simp: nth_upto int32_def)
    ultimately show ?thesis by simp
  qed
  then show ?thesis using t(1,3) by blast
qed

theorem table_pack_unpack_witness:
  "\<exists>t. tpack demo_hash 9 id [Some 4, None, Some 6] = Inr t \<and> tunpack (\<lambda>n. n \<le> 1000) t 1 (Some 3) = Inr ([Some 4, None, Some 6], t)"
  using table_pack_unpack [of "[Some 4, None, Some 6]" "\<lambda>n. n \<le> 1000" demo_hash 9 id] by auto

text \<open>
  \<open>table.find\<close> ends on every table of the VM, as long as the keys it can reach stay in the range of \<^verbatim>\<open>int\<close>: it returns the first
  index from \<open>init\<close> on whose value is equal, or nil when a nil comes before it.
\<close>

theorem table_find_first:
  assumes "vm_table ts_hash t" "1 \<le> init" "init + int (length (all_pairs t)) \<le> int_max"
  shows "\<exists>r. tfind equal t init = Inr r \<and>
    (case r of
       None \<Rightarrow> \<exists>k\<ge>init. imap t k = None \<and> (\<forall>j. init \<le> j \<and> j < k \<longrightarrow> (\<exists>v. imap t j = Some v \<and> \<not> equal v))
     | Some k \<Rightarrow> init \<le> k \<and> (\<exists>v. imap t k = Some v \<and> equal v) \<and> (\<forall>j. init \<le> j \<and> j < k \<longrightarrow> (\<exists>v. imap t j = Some v \<and> \<not> equal v)))"
proof -
  have inv: "tab_inv ts_hash t" using vm_table_inv [OF assms(1)] .
  have "\<exists>k < Suc (length (all_pairs t)). imap t (init + int k) = None"
    using absent_key [OF inv assms(2)] assms(3) all_pairs_card [OF inv] by (auto simp: less_Suc_eq_le)
  from find_from_spec [OF inv this assms(2)] show ?thesis using assms(2,3) by (simp add: tfind_def)
qed

theorem table_find_first_witness:
  "\<exists>r. tfind (\<lambda>v. v = 7) demo_table 1 = Inr r \<and>
    (case r of None \<Rightarrow> \<exists>k. 1 \<le> k \<and> imap demo_table k = None | Some k \<Rightarrow> 1 \<le> k \<and> imap demo_table k = Some 7)"
  using table_find_first [OF demo_vm_table, of 1 "\<lambda>v. v = 7"] demo_usable(2) by (fastforce simp: int_max_def split: option.splits)

end
