(* ===== verification/Vfs.thy ===== *)
theory Vfs
  imports Wire
begin

text \<open>
  The compressed buffers of the language server and of the single-binary bundles,
  \<^verbatim>\<open>CLI/src/VfsCompress.cpp\<close>: the LZ compressor and its decompressor, the line offset table and the
  buffer that switches between raw and compressed storage.

  A loop that appends to the output is the function that returns the appended bytes.
\<close>

section \<open>Compression\<close>

definition kMinMatch :: nat where
  "kMinMatch = 4"

definition kHashLog :: nat where
  "kHashLog = 13"

definition kHashSize :: nat where
  "kHashSize = 2 ^ kHashLog"

definition hash4 :: "bytes \<Rightarrow> nat" where
  "hash4 p =
     (case get_le 4 p of
        Some (v :: u32, _) \<Rightarrow> unat (drop_bit (32 - kHashLog) (v * 2654435761))
      | None \<Rightarrow> 0)"

function match_len :: "bytes \<Rightarrow> nat \<Rightarrow> nat \<Rightarrow> nat \<Rightarrow> nat" where
  "match_len src ip ref matchLen =
     (if ip + matchLen < length src \<and> src ! (ip + matchLen) = src ! (ref + matchLen)
      then match_len src ip ref (matchLen + 1) else matchLen)"
  by pat_completeness auto
termination
  by (relation "measure (\<lambda>(src, ip, ref, matchLen). length src - (ip + matchLen))") auto

declare match_len.simps [simp del]

lemma match_len_ge: "matchLen \<le> match_len src ip ref matchLen"
proof (induction src ip ref matchLen rule: match_len.induct)
  case (1 src ip ref matchLen)
  show ?case
    by (subst match_len.simps) (use 1 in force)
qed

function emit_literals :: "bytes \<Rightarrow> nat \<Rightarrow> nat \<Rightarrow> bytes" where
  "emit_literals src anchor litLen =
     (if litLen \<ge> 255 then 255 # take 255 (drop anchor src) @ emit_literals src (anchor + 255) (litLen - 255)
      else of_nat litLen # take litLen (drop anchor src))"
  by pat_completeness auto
termination
  by (relation "measure (\<lambda>(src, anchor, litLen). litLen)") auto

declare emit_literals.simps [simp del]

function emit_extension :: "nat \<Rightarrow> bytes" where
  "emit_extension encLen = (if encLen \<ge> 255 then 255 # emit_extension (encLen - 255) else [of_nat encLen])"
  by pat_completeness auto
termination
  by (relation "measure id") auto

declare emit_extension.simps [simp del]

definition emit_match :: "nat \<Rightarrow> nat \<Rightarrow> bytes" where
  "emit_match distance matchLen =
     (let offset = (of_nat distance :: u16); encLen = matchLen - kMinMatch
      in [ucast (offset AND 0xFF), ucast (drop_bit 8 offset AND 0xFF)]
         @ (if encLen < 255 then [of_nat encLen] else 255 # emit_extension (encLen - 255)))"

definition is_match :: "bytes \<Rightarrow> nat \<Rightarrow> nat \<Rightarrow> bool" where
  "is_match src ip ref \<longleftrightarrow> ref < ip \<and> ip - ref < 65535 \<and> take 4 (drop ip src) = take 4 (drop ref src)"

function compress_loop :: "bytes \<Rightarrow> nat \<Rightarrow> nat \<Rightarrow> nat list \<Rightarrow> bytes" where
  "compress_loop src ip anchor hashTable =
     (if ip + kMinMatch + 4 \<le> length src then
        let h = hash4 (drop ip src);
            ref = hashTable ! h;
            hashTable' = hashTable[h := ip mod 2 ^ 32]
        in if is_match src ip ref
           then let matchLen = match_len src ip ref 4
                in emit_literals src anchor (ip - anchor) @ emit_match (ip - ref) matchLen
                   @ compress_loop src (ip + matchLen) (ip + matchLen) hashTable'
           else compress_loop src (ip + 1) anchor hashTable'
      else emit_literals src anchor (length src - anchor))"
  by pat_completeness auto
termination
proof (relation "measure (\<lambda>(src, ip, anchor, hashTable). length src - ip)", goal_cases)
  case (2 src ip anchor hashTable h ref hashTable' matchLen)
  then show ?case using match_len_ge [of 4 src ip ref] by (simp add: kMinMatch_def)
next
  case (3 src ip anchor hashTable h ref hashTable')
  then show ?case by (simp add: kMinMatch_def)
qed simp

declare compress_loop.simps [simp del]

definition compress :: "bytes \<Rightarrow> bytes" where
  "compress input =
     (if input = [] then []
      else if length input < kMinMatch + 4 then 0 # input
      else 1 # compress_loop input 0 0 (replicate kHashSize 0) @ [0, 0])"

section \<open>Decompression\<close>

function read_extension :: "bytes \<Rightarrow> nat \<Rightarrow> nat \<Rightarrow> nat \<times> nat" where
  "read_extension src ip len =
     (if ip < length src \<and> src ! ip = 255 then read_extension src (ip + 1) (len + 255)
      else if ip < length src then (len + unat (src ! ip), ip + 1)
      else (len, ip))"
  by pat_completeness auto
termination
  by (relation "measure (\<lambda>(src, ip, len). length src - ip)") auto

declare read_extension.simps [simp del]

lemma read_extension_ge: "ip \<le> snd (read_extension src ip len)"
proof (induction src ip len rule: read_extension.induct)
  case (1 src ip len)
  show ?case
    by (subst read_extension.simps) (use 1 in force)
qed

definition read_length :: "nat \<Rightarrow> bytes \<Rightarrow> nat \<Rightarrow> nat \<times> nat" where
  "read_length base src ip =
     (let len = base + unat (src ! ip)
      in if len = base + 255 then read_extension src (ip + 1) len else (len, ip + 1))"

lemma read_length_ge: "ip < snd (read_length base src ip)"
  using read_extension_ge [of "ip + 1" src] by (simp add: read_length_def Let_def Suc_le_eq)

text \<open>A byte-wise copy inside the output, which may overlap its own result.\<close>

definition copy_match :: "bytes \<Rightarrow> nat \<Rightarrow> nat \<Rightarrow> nat \<Rightarrow> bytes" where
  "copy_match dst op ref matchLen = fold (\<lambda>i dst. dst[op + i := dst ! (ref + i)]) [0..<matchLen] dst"

function decompress_loop :: "bytes \<Rightarrow> nat \<Rightarrow> nat \<Rightarrow> nat \<Rightarrow> bytes \<Rightarrow> nat \<times> bytes" where
  "decompress_loop src originalSize ip op dst =
     (if ip < length src \<and> op < originalSize then
        let (litLen, ip1) = read_length 0 src ip
        in if litLen > 0 \<and> (ip1 + litLen > length src \<or> op + litLen > originalSize) then (op, dst)
           else let dst1 = blit dst op (take litLen (drop ip1 src));
                    ip2 = ip1 + litLen;
                    op1 = op + litLen
                in if ip2 + 2 > length src then (op1, dst1)
                   else let offset = unat (ucast (src ! ip2) OR push_bit 8 (ucast (src ! (ip2 + 1))) :: u16);
                            ip3 = ip2 + 2
                        in if offset = 0 then (op1, dst1)
                           else if ip3 \<ge> length src then (op1, dst1)
                           else let (matchLen, ip4) = read_length kMinMatch src ip3
                                in if offset > op1 \<or> op1 + matchLen > originalSize then (op1, dst1)
                                   else decompress_loop src originalSize ip4 (op1 + matchLen) (copy_match dst1 op1 (op1 - offset) matchLen)
      else (op, dst))"
  by pat_completeness auto
termination
proof (relation "measure (\<lambda>(src, originalSize, ip, op, dst). length src - ip)", goal_cases)
  case (2 src originalSize ip op dst litLen_ip litLen ip1 dst1 ip2 op1 offset ip3 m_ip matchLen ip4)
  have "ip < ip1" "ip3 < ip4" using read_length_ge [of ip 0 src] read_length_ge [of ip3 kMinMatch src] 2 by (metis snd_conv)+
  then show ?case using 2 by auto
qed simp

declare decompress_loop.simps [simp del]

definition decompress :: "bytes \<Rightarrow> nat \<Rightarrow> bytes" where
  "decompress compressed originalSize =
     (case compressed of
        [] \<Rightarrow> []
      | m # src \<Rightarrow>
          if m = 0 then src
          else let (op, dst) = decompress_loop src originalSize 0 0 (replicate originalSize 0) in take op dst)"

section \<open>Line offsets\<close>

type_synonym line_offsets = "u32 list"

definition build :: "bytes \<Rightarrow> line_offsets" where
  "build text = 0 # map (\<lambda>i. of_nat (i + 1)) (filter (\<lambda>i. text ! i = 10) [0..<length text])"

definition lineCount :: "line_offsets \<Rightarrow> nat" where
  "lineCount offsets = length offsets"

definition getOffset :: "line_offsets \<Rightarrow> int \<Rightarrow> int \<Rightarrow> nat \<Rightarrow> nat" where
  "getOffset offsets line character totalTextSize =
     (if line < 0 \<or> offsets = [] then 0
      else if nat line \<ge> length offsets then totalTextSize
      else let lineStart = unat (offsets ! nat line);
               lineEnd = (if nat line + 1 < length offsets then unat (offsets ! (nat line + 1)) else totalTextSize);
               charOffset = lineStart + nat (max 0 character)
           in min charOffset lineEnd)"

text \<open>\<open>std::upper_bound\<close> on an ascending vector: the index of the first element above the value.\<close>

definition upper_bound :: "line_offsets \<Rightarrow> u32 \<Rightarrow> nat" where
  "upper_bound offsets v = length (takeWhile (\<lambda>x. x \<le> v) offsets)"

definition getPosition :: "line_offsets \<Rightarrow> nat \<Rightarrow> nat \<Rightarrow> int \<times> int" where
  "getPosition offsets offset0 totalTextSize =
     (let offset = (if offset0 > totalTextSize then totalTextSize else offset0)
      in if offsets = [] then (0, 0)
         else let line0 = signed_take_bit 31 (int (upper_bound offsets (of_nat offset)) - 1);
                  line = (if line0 < 0 then 0 else line0)
              in (line, signed_take_bit 31 (int offset - int (unat (offsets ! nat line)))))"

section \<open>The file buffer\<close>

record CompressedFileBuffer =
  data :: bytes
  origSize :: nat
  isComp :: bool

definition empty_buffer :: CompressedFileBuffer where
  "empty_buffer = \<lparr> data = [], origSize = 0, isComp = False \<rparr>"

definition setText :: "bytes \<Rightarrow> bool \<Rightarrow> CompressedFileBuffer \<Rightarrow> CompressedFileBuffer" where
  "setText text autoCompress b =
     (let b = b\<lparr> origSize := length text \<rparr>
      in if autoCompress \<and> origSize b > 512
         then b\<lparr> data := compress text, isComp := True \<rparr>
         else b\<lparr> data := text, isComp := False \<rparr>)"

definition getText :: "CompressedFileBuffer \<Rightarrow> bytes" where
  "getText b = (if isComp b then decompress (data b) (origSize b) else data b)"

definition getRawTextIfUncompressed :: "CompressedFileBuffer \<Rightarrow> bytes" where
  "getRawTextIfUncompressed b = (if \<not> isComp b then data b else [])"

definition buffer_compress :: "CompressedFileBuffer \<Rightarrow> CompressedFileBuffer" where
  "buffer_compress b =
     (if \<not> isComp b \<and> origSize b > 128 then b\<lparr> data := compress (data b), isComp := True \<rparr> else b)"

definition buffer_decompress :: "CompressedFileBuffer \<Rightarrow> CompressedFileBuffer" where
  "buffer_decompress b =
     (if isComp b then b\<lparr> data := decompress (data b) (origSize b), isComp := False \<rparr> else b)"

datatype buffer_op = SetText bytes bool | Compress | Decompress

fun buffer_step :: "buffer_op \<Rightarrow> CompressedFileBuffer \<Rightarrow> CompressedFileBuffer" where
  "buffer_step (SetText text auto) b = setText text auto b"
| "buffer_step Compress b = buffer_compress b"
| "buffer_step Decompress b = buffer_decompress b"

section \<open>Which texts the encoder can represent\<close>

text \<open>The lengths of the literal runs the encoder emits, in order.\<close>

function run_lengths :: "bytes \<Rightarrow> nat \<Rightarrow> nat \<Rightarrow> nat list \<Rightarrow> nat list" where
  "run_lengths src ip anchor hashTable =
     (if ip + kMinMatch + 4 \<le> length src then
        let h = hash4 (drop ip src);
            ref = hashTable ! h;
            hashTable' = hashTable[h := ip mod 2 ^ 32]
        in if is_match src ip ref
           then let matchLen = match_len src ip ref 4
                in (ip - anchor) # run_lengths src (ip + matchLen) (ip + matchLen) hashTable'
           else run_lengths src (ip + 1) anchor hashTable'
      else [length src - anchor])"
  by pat_completeness auto
termination
proof (relation "measure (\<lambda>(src, ip, anchor, hashTable). length src - ip)", goal_cases)
  case (2 src ip anchor hashTable h ref hashTable' matchLen)
  then show ?case using match_len_ge [of 4 src ip ref] by (simp add: kMinMatch_def)
next
  case (3 src ip anchor hashTable h ref hashTable')
  then show ?case by (simp add: kMinMatch_def)
qed simp

declare run_lengths.simps [simp del]

definition literal_runs :: "bytes \<Rightarrow> nat list" where
  "literal_runs input = run_lengths input 0 0 (replicate kHashSize 0)"

definition short_runs :: "bytes \<Rightarrow> bool" where
  "short_runs input \<longleftrightarrow> list_all (\<lambda>r. r < 255) (literal_runs input)"

section \<open>Matches\<close>

lemma match_len_bound: "ip + matchLen \<le> length src \<Longrightarrow> ip + match_len src ip ref matchLen \<le> length src"
proof (induction src ip ref matchLen rule: match_len.induct)
  case (1 src ip ref matchLen)
  show ?case
    by (subst match_len.simps) (use 1 in auto)
qed

lemma match_len_eq:
  "\<forall>i<matchLen. src ! (ip + i) = src ! (ref + i) \<Longrightarrow> i < match_len src ip ref matchLen \<Longrightarrow> src ! (ip + i) = src ! (ref + i)"
proof (induction src ip ref matchLen rule: match_len.induct)
  case (1 src ip ref matchLen)
  show ?case
  proof (cases "ip + matchLen < length src \<and> src ! (ip + matchLen) = src ! (ref + matchLen)")
    case True
    then have "\<forall>i<matchLen + 1. src ! (ip + i) = src ! (ref + i)" using "1.prems"(1) by (auto simp: less_Suc_eq)
    moreover have "i < match_len src ip ref (matchLen + 1)" using "1.prems"(2) True by (simp add: match_len.simps [of src ip ref matchLen])
    ultimately show ?thesis using "1.IH" [OF True] by blast
  next
    case False
    then have "match_len src ip ref matchLen = matchLen" by (subst match_len.simps) (simp only: if_False)
    then show ?thesis using "1.prems" by simp
  qed
qed

lemma is_match_eq:
  assumes "is_match src ip ref" "ip + 4 \<le> length src" "i < match_len src ip ref 4"
  shows "src ! (ip + i) = src ! (ref + i)"
proof (rule match_len_eq [OF _ assms(3)], intro allI impI)
  fix j :: nat assume j: "j < 4"
  have "take 4 (drop ip src) ! j = take 4 (drop ref src) ! j" and "ref < ip" using assms(1) by (simp_all add: is_match_def)
  then show "src ! (ip + j) = src ! (ref + j)" using j assms(2) by simp
qed

lemma length_copy_match [simp]: "length (copy_match dst op ref m) = length dst"
proof -
  have "length (fold (\<lambda>i dst. dst[op + i := dst ! (ref + i)]) xs dst) = length dst" for xs
    by (induction xs arbitrary: dst) auto
  then show ?thesis by (simp add: copy_match_def)
qed

lemma copy_match_Suc: "copy_match dst op ref (Suc m) = (copy_match dst op ref m)[op + m := copy_match dst op ref m ! (ref + m)]"
  by (simp add: copy_match_def)

lemma copy_match_prefix: "j < op \<Longrightarrow> copy_match dst op ref m ! j = dst ! j"
  by (induction m) (auto simp: copy_match_Suc, simp add: copy_match_def)

lemma copy_match_correct:
  assumes "take op dst = take op text" "length dst = length text" "ref < op" "op + m \<le> length text"
    and "\<And>i. i < m \<Longrightarrow> text ! (op + i) = text ! (ref + i)"
  shows "take (op + m) (copy_match dst op ref m) = take (op + m) text"
  using assms(4,5)
proof (induction m)
  case 0
  then show ?case using assms(1) by (simp add: copy_match_def)
next
  case (Suc m)
  then have IH: "take (op + m) (copy_match dst op ref m) = take (op + m) text" by simp
  have "copy_match dst op ref m ! (ref + m) = text ! (ref + m)"
    using arg_cong [OF IH, of "\<lambda>l. l ! (ref + m)"] assms(3) by simp
  then show ?case using IH Suc.prems assms(2)
    by (simp add: copy_match_Suc take_Suc_conv_app_nth)
qed

section \<open>Decoding what was encoded\<close>

lemma drop_Cons_nth: "drop n xs = x # ys \<Longrightarrow> n < length xs \<and> xs ! n = x \<and> drop (Suc n) xs = ys"
  by (metis drop_eq_Nil2 hd_drop_conv_nth leI list.distinct(1) list.sel(1,3) tl_drop drop_Suc)

lemma drop_append_step: "drop n xs = ys @ zs \<Longrightarrow> drop (n + length ys) xs = zs"
  by (metis add.commute append_eq_conv_conj drop_drop)

lemma drop_take_part: "drop n xs = ys @ zs \<Longrightarrow> take (length ys) (drop n xs) = ys"
  by simp

lemma unat_byte: "n < 255 \<Longrightarrow> unat (of_nat n :: u8) = n" "n < 255 \<Longrightarrow> (of_nat n :: u8) \<noteq> 255"
proof -
  assume n: "n < 255"
  then show u: "unat (of_nat n :: u8) = n" by (simp add: unat_of_nat_small)
  have "unat (255 :: u8) = 255" by simp
  then show "(of_nat n :: u8) \<noteq> 255" using u n by (metis less_irrefl)
qed

lemma read_extension_encoded:
  "drop ip src = emit_extension e @ rest \<Longrightarrow>
   read_extension src ip len = (len + e, ip + length (emit_extension e))"
proof (induction e arbitrary: ip len rule: emit_extension.induct)
  case (1 e)
  show ?case
  proof (cases "e \<ge> 255")
    case True
    then have e: "emit_extension e = 255 # emit_extension (e - 255)" by (subst emit_extension.simps) simp
    then have d: "ip < length src" "src ! ip = 255" "drop (Suc ip) src = emit_extension (e - 255) @ rest"
      using "1.prems" drop_Cons_nth by fastforce+
    show ?thesis
      by (subst read_extension.simps) (use d "1.IH" [OF True d(3), of "len + 255"] True in \<open>simp add: e\<close>)
  next
    case False
    then have e: "emit_extension e = [of_nat e]" by (subst emit_extension.simps) simp
    then have d: "ip < length src" "src ! ip = of_nat e" using "1.prems" drop_Cons_nth by fastforce+
    show ?thesis
      by (subst read_extension.simps) (use d False unat_byte [of e] in \<open>simp add: e\<close>)
  qed
qed

lemma read_length_short:
  assumes "drop ip src = of_nat n # rest" "n < 255"
  shows "read_length base src ip = (base + n, ip + 1)"
  using drop_Cons_nth [OF assms(1)] unat_byte [OF assms(2)] assms(2)
  by (simp add: read_length_def Let_def)

lemma read_length_encoded:
  assumes "drop ip src = (if n < 255 then [of_nat n] else 255 # emit_extension (n - 255)) @ rest"
  shows "read_length base src ip = (base + n, ip + length (if n < 255 then [of_nat n :: u8] else 255 # emit_extension (n - 255)))"
proof (cases "n < 255")
  case True
  then show ?thesis using assms read_length_short [of ip src n rest base] by simp
next
  case False
  then have d: "drop ip src = 255 # emit_extension (n - 255) @ rest" using assms by simp
  note c = drop_Cons_nth [OF d]
  then show ?thesis
    using read_extension_encoded [of "Suc ip" src "n - 255" rest "base + 255"] False
    by (simp add: read_length_def Let_def)
qed

lemma offset_bytes:
  assumes "d < 65535"
  shows "unat (ucast (ucast ((of_nat d :: u16) AND 0xFF) :: u8) OR
           push_bit 8 (ucast (ucast (drop_bit 8 (of_nat d :: u16) AND 0xFF) :: u8)) :: u16) = d"
proof -
  have "(ucast (ucast (w AND 0xFF) :: u8) OR push_bit 8 (ucast (ucast (drop_bit 8 w AND 0xFF) :: u8)) :: u16) = w" for w :: u16
  proof (rule bit_eqI, unfold possible_bit_word)
    have m: "(0xFF :: u16) = mask 8" by (simp add: mask_eq_exp_minus_1)
    fix n assume "n < LENGTH(16)"
    then show "bit (ucast (ucast (w AND 0xFF) :: u8) OR push_bit 8 (ucast (ucast (drop_bit 8 w AND 0xFF) :: u8)) :: u16) n = bit w n"
      by (auto simp: m bit_simps)
  qed
  moreover have "unat (of_nat d :: u16) = d" using assms by (simp add: unat_of_nat take_bit_nat_eq_self)
  ultimately show ?thesis by simp
qed

lemma emit_literals_short: "n < 255 \<Longrightarrow> emit_literals src anchor n = of_nat n # take n (drop anchor src)"
  by (subst emit_literals.simps) simp

text \<open>The literals of one token, then what the decoder does after them.\<close>

definition after_literals :: "bytes \<Rightarrow> nat \<Rightarrow> nat \<Rightarrow> nat \<Rightarrow> bytes \<Rightarrow> nat \<times> bytes" where
  "after_literals src originalSize ip2 op1 dst1 =
     (if ip2 + 2 > length src then (op1, dst1)
      else let offset = unat (ucast (src ! ip2) OR push_bit 8 (ucast (src ! (ip2 + 1))) :: u16);
               ip3 = ip2 + 2
           in if offset = 0 then (op1, dst1)
              else if ip3 \<ge> length src then (op1, dst1)
              else let (matchLen, ip4) = read_length kMinMatch src ip3
                   in if offset > op1 \<or> op1 + matchLen > originalSize then (op1, dst1)
                      else decompress_loop src originalSize ip4 (op1 + matchLen) (copy_match dst1 op1 (op1 - offset) matchLen))"

lemma decompress_loop_split:
  "decompress_loop src originalSize ip op dst =
     (if ip < length src \<and> op < originalSize then
        let (litLen, ip1) = read_length 0 src ip
        in if litLen > 0 \<and> (ip1 + litLen > length src \<or> op + litLen > originalSize) then (op, dst)
           else after_literals src originalSize (ip1 + litLen) (op + litLen) (blit dst op (take litLen (drop ip1 src)))
      else (op, dst))"
  by (subst decompress_loop.simps) (simp only: after_literals_def Let_def)

lemma take_blit_text:
  assumes "take a dst = take a text" "length dst = length text" "a + n \<le> length text"
  shows "take (a + n) (blit dst a (take n (drop a text))) = take (a + n) text"
    and "length (blit dst a (take n (drop a text))) = length text"
proof -
  have l: "length (take n (drop a text)) = n" using assms(3) by simp
  show "take (a + n) (blit dst a (take n (drop a text))) = take (a + n) text"
    using assms l take_blit_end [of a "take n (drop a text)" dst] by (simp only: take_add)
  show "length (blit dst a (take n (drop a text))) = length text" using assms l by simp
qed

lemma decode_literals:
  assumes d: "drop ip src = emit_literals text op n @ rest" and n: "n < 255" and op: "op < length text" "op + n \<le> length text"
  shows "decompress_loop src (length text) ip op dst =
     after_literals src (length text) (ip + 1 + n) (op + n) (blit dst op (take n (drop op text)))"
    and "drop (ip + 1 + n) src = rest"
proof -
  have d': "drop ip src = of_nat n # take n (drop op text) @ rest" using d n by (simp add: emit_literals_short)
  note r = read_length_short [OF d' n, of 0] and c = drop_Cons_nth [OF d']
  have len: "length (take n (drop op text)) = n" using op by simp
  have t: "take n (drop (ip + 1) src) = take n (drop op text)" and dr: "drop (ip + 1 + n) src = rest"
    using drop_append_step [of "ip + 1" src "take n (drop op text)" rest] c len by auto
  have "length src - Suc ip = n + length rest" using len c by (metis length_append length_drop)
  then have "ip + 1 + n \<le> length src" using conjunct1 [OF c] by linarith
  then show "decompress_loop src (length text) ip op dst =
     after_literals src (length text) (ip + 1 + n) (op + n) (blit dst op (take n (drop op text)))"
    using r c t op by (subst decompress_loop_split) simp
  show "drop (ip + 1 + n) src = rest" by (rule dr)
qed

lemma decode_match:
  assumes d: "drop ip src = emit_match dist m @ rest" and dist: "0 < dist" "dist < 65535" "dist \<le> op"
    and m: "4 \<le> m" "op + m \<le> n"
  shows "after_literals src n ip op dst =
     decompress_loop src n (ip + length (emit_match dist m)) (op + m) (copy_match dst op (op - dist) m)"
proof -
  define lo hi :: u8 where "lo = ucast ((of_nat dist :: u16) AND 0xFF)" and "hi = ucast (drop_bit 8 (of_nat dist :: u16) AND 0xFF)"
  define e where "e = (if m - 4 < 255 then [of_nat (m - 4) :: u8] else 255 # emit_extension (m - 4 - 255))"
  have em: "emit_match dist m = lo # hi # e"
    by (simp add: emit_match_def Let_def lo_def hi_def e_def kMinMatch_def)
  then have d1: "drop ip src = lo # hi # e @ rest" using d by simp
  note c1 = drop_Cons_nth [OF d1] and c2 = drop_Cons_nth [OF conjunct2 [OF conjunct2 [OF drop_Cons_nth [OF d1]]]]
  have "e \<noteq> []" by (simp add: e_def)
  then have l: "ip + 2 < length src" using c2 by (metis Suc_1 add_2_eq_Suc' append_is_Nil_conv drop_eq_Nil2 leI)
  have off: "unat (ucast (src ! ip) OR push_bit 8 (ucast (src ! (ip + 1))) :: u16) = dist"
    using c1 c2 offset_bytes [OF dist(2)] by (simp add: lo_def hi_def)
  have "drop (ip + 2) src = e @ rest" using c2 by simp
  then have "read_length kMinMatch src (ip + 2) = (m, ip + 2 + length e)"
    using read_length_encoded [of "ip + 2" src "m - 4" rest kMinMatch] m(1) by (simp add: e_def kMinMatch_def)
  then show ?thesis using l off dist m
    by (simp add: after_literals_def em)
qed

lemma decode_end: "drop ip src = [0, 0] \<Longrightarrow> after_literals src n ip op dst = (op, dst)"
  using drop_Cons_nth [of ip src 0 "[0]"] drop_Cons_nth [of "Suc ip" src 0 "[]"]
  by (simp add: after_literals_def)

lemma decompress_loop_correct:
  assumes "list_all (\<lambda>r. r < 255) (run_lengths input ip anchor ht)"
    and "drop k src = compress_loop input ip anchor ht @ [0, 0]"
    and "anchor \<le> ip" "ip \<le> length input"
    and "take anchor dst = take anchor input" "length dst = length input"
  shows "decompress_loop src (length input) k anchor dst = (length input, input)"
  using assms
proof (induction input ip anchor ht arbitrary: k dst rule: compress_loop.induct)
  case (1 input ip anchor ht)
  define h where "h = hash4 (drop ip input)"
  define ref where "ref = ht ! h"
  define ht' where "ht' = ht[h := ip mod 2 ^ 32]"
  note defs = h_def [symmetric] ref_def [symmetric] ht'_def
  consider (finish) "\<not> ip + kMinMatch + 4 \<le> length input"
    | (hit) "ip + kMinMatch + 4 \<le> length input" "is_match input ip ref"
    | (miss) "ip + kMinMatch + 4 \<le> length input" "\<not> is_match input ip ref" by blast
  then show ?case
  proof cases
    case finish
    then have c: "compress_loop input ip anchor ht = emit_literals input anchor (length input - anchor)"
      and n: "length input - anchor < 255"
      using "1.prems"(1) by (simp_all add: compress_loop.simps [of input] run_lengths.simps [of input])
    show ?thesis
    proof (cases "anchor < length input")
      case True
      note d = decode_literals [of k src input anchor "length input - anchor" "[0, 0]", OF _ n True]
      then show ?thesis
        using "1.prems" c True take_blit_text [of anchor dst input "length input - anchor"] decode_end by simp
    next
      case False
      then show ?thesis using "1.prems" by (subst decompress_loop_split) simp
    qed
  next
    case miss
    then have "compress_loop input ip anchor ht = compress_loop input (ip + 1) anchor ht'"
      and "run_lengths input ip anchor ht = run_lengths input (ip + 1) anchor ht'"
      by (simp_all add: compress_loop.simps [of input ip] run_lengths.simps [of input ip] Let_def defs)
    then show ?thesis
      using "1.prems" miss "1.IH"(2) [OF miss(1) h_def ref_def ht'_def miss(2), of k dst] by simp
  next
    case hit
    define m where "m = match_len input ip ref 4"
    have c: "compress_loop input ip anchor ht = emit_literals input anchor (ip - anchor) @ emit_match (ip - ref) m
        @ compress_loop input (ip + m) (ip + m) ht'"
      and r: "run_lengths input ip anchor ht = (ip - anchor) # run_lengths input (ip + m) (ip + m) ht'"
      using hit by (simp_all add: compress_loop.simps [of input ip] run_lengths.simps [of input ip] Let_def defs m_def [symmetric])
    have ip4: "ip + 4 \<le> length input" and ref: "ref < ip" "ip - ref < 65535" using hit by (auto simp: is_match_def kMinMatch_def)
    have m: "4 \<le> m" "ip + m \<le> length input" using match_len_ge match_len_bound [OF ip4] by (simp_all add: m_def)
    note lit = decode_literals [of k src input anchor "ip - anchor"
        "emit_match (ip - ref) m @ compress_loop input (ip + m) (ip + m) ht' @ [0, 0]"]
    define dst1 where "dst1 = blit dst anchor (take (ip - anchor) (drop anchor input))"
    have dst1: "take ip dst1 = take ip input" "length dst1 = length input"
      using take_blit_text [of anchor dst input "ip - anchor"] "1.prems" by (simp_all add: dst1_def)
    have step: "decompress_loop src (length input) k anchor dst =
        after_literals src (length input) (k + 1 + (ip - anchor)) ip dst1"
      and rest: "drop (k + 1 + (ip - anchor)) src = emit_match (ip - ref) m @ compress_loop input (ip + m) (ip + m) ht' @ [0, 0]"
      using lit "1.prems" c r ip4 by (simp_all add: dst1_def)
    define k' where "k' = k + 1 + (ip - anchor) + length (emit_match (ip - ref) m)"
    have step': "after_literals src (length input) (k + 1 + (ip - anchor)) ip dst1 =
        decompress_loop src (length input) k' (ip + m) (copy_match dst1 ip ref m)"
      using decode_match [OF rest, of ip "length input" dst1] ref m by (simp add: k'_def)
    have "take (ip + m) (copy_match dst1 ip ref m) = take (ip + m) input"
      using copy_match_correct [OF dst1 ref(1) m(2)] is_match_eq [OF hit(2) ip4] by (simp add: m_def)
    moreover have "drop k' src = compress_loop input (ip + m) (ip + m) ht' @ [0, 0]"
      using drop_append_step [OF rest] by (simp add: k'_def)
    ultimately show ?thesis
      using "1.IH"(1) [OF hit(1) h_def ref_def ht'_def hit(2) m_def, of k' "copy_match dst1 ip ref m"] "1.prems"(1) r m(2) dst1(2) step step'
      by simp
  qed
qed

lemma decompress_compress:
  assumes "short_runs s"
  shows "decompress (compress s) (length s) = s"
proof -
  consider "s = []" | "s \<noteq> []" "length s < kMinMatch + 4" | "\<not> length s < kMinMatch + 4" by blast
  then show ?thesis
  proof cases
    case 3
    then have ne: "s \<noteq> []" by auto
    have "decompress_loop (compress_loop s 0 0 (replicate kHashSize 0) @ [0, 0]) (length s) 0 0 (replicate (length s) 0) = (length s, s)"
      by (rule decompress_loop_correct [where ip = 0 and ht = "replicate kHashSize 0"])
        (use assms in \<open>simp_all add: short_runs_def literal_runs_def\<close>)
    then show ?thesis using 3 ne by (simp add: compress_def decompress_def)
  qed (simp_all add: compress_def decompress_def)
qed

lemma run_lengths_bound: "list_all (\<lambda>r. r \<le> length src) (run_lengths src ip anchor ht)"
proof (induction src ip anchor ht rule: run_lengths.induct)
  case (1 src ip anchor ht)
  show ?case
    by (subst run_lengths.simps) (use 1 in \<open>auto simp: Let_def\<close>)
qed

lemma short_text_short_runs: "length s < 255 \<Longrightarrow> short_runs s"
  using run_lengths_bound [of s] by (force simp: short_runs_def literal_runs_def list_all_iff)

section \<open>Long literal runs\<close>

text \<open>What the decoder wrote it does not change again.\<close>

definition extends :: "nat \<Rightarrow> nat \<Rightarrow> bytes \<Rightarrow> nat \<times> bytes \<Rightarrow> bool" where
  "extends n op dst r \<longleftrightarrow> op \<le> fst r \<and> fst r \<le> n \<and> length (snd r) = n \<and> take op (snd r) = take op dst"

lemma extends_refl: "op \<le> n \<Longrightarrow> length dst = n \<Longrightarrow> extends n op dst (op, dst)"
  by (simp add: extends_def)

lemma extends_trans:
  "extends n op' dst' r \<Longrightarrow> op \<le> op' \<Longrightarrow> take op dst' = take op dst \<Longrightarrow> extends n op dst r"
  unfolding extends_def by (metis le_trans min.absorb1 take_take)

lemma take_copy_match: "take op (copy_match dst op ref m) = take op dst"
  by (rule nth_equalityI) (simp_all add: copy_match_prefix)

lemma take_blit: "k \<le> length dst \<Longrightarrow> take k (blit dst k xs) = take k dst"
  by (simp add: blit_def)

lemma after_literals_extends:
  assumes "\<And>ip' op' dst'. ip < ip' \<Longrightarrow> length dst' = n \<Longrightarrow> op' \<le> n \<Longrightarrow> extends n op' dst' (decompress_loop src n ip' op' dst')"
    and "length dst = n" "op \<le> n"
  shows "extends n op dst (after_literals src n ip op dst)"
proof -
  obtain m ip4 where r: "read_length kMinMatch src (ip + 2) = (m, ip4)" by (meson surj_pair)
  then have ip4: "ip < ip4" using read_length_ge [of "ip + 2" kMinMatch src] by simp
  have "extends n op dst (decompress_loop src n ip4 (op + m) (copy_match dst op ref m))" if "op + m \<le> n" for ref
    using assms(1) [OF ip4 _ that] assms(2) take_copy_match extends_trans by (metis le_add1 length_copy_match)
  then show ?thesis
    using assms(2,3) by (simp add: after_literals_def Let_def r [simplified] extends_refl not_le not_less)
qed

lemma blit_literals:
  assumes "litLen > 0 \<longrightarrow> ip1 + litLen \<le> length src \<and> op + litLen \<le> n" "length dst = n" "op \<le> n"
  shows "length (blit dst op (take litLen (drop ip1 src))) = n" "op + litLen \<le> n"
    "take op (blit dst op (take litLen (drop ip1 src))) = take op dst"
proof -
  have l: "length (take litLen (drop ip1 src)) = litLen" using assms(1) by (auto simp: min_def)
  show le: "op + litLen \<le> n" using assms(1,3) by (cases "litLen = 0") simp_all
  show "length (blit dst op (take litLen (drop ip1 src))) = n" using length_blit l le assms(2) by metis
  show "take op (blit dst op (take litLen (drop ip1 src))) = take op dst" using assms(2,3) by (simp add: take_blit)
qed

lemma decompress_loop_extends:
  "length dst = n \<Longrightarrow> op \<le> n \<Longrightarrow> extends n op dst (decompress_loop src n ip op dst)"
proof (induction "length src - ip" arbitrary: ip op dst rule: less_induct)
  case less
  obtain litLen ip1 where r: "read_length 0 src ip = (litLen, ip1)" by (meson surj_pair)
  then have ip1: "ip < ip1" using read_length_ge [of ip 0 src] by simp
  show ?case
  proof (cases "ip < length src \<and> op < n \<and> (litLen > 0 \<longrightarrow> ip1 + litLen \<le> length src \<and> op + litLen \<le> n)")
    case True
    define dst1 where "dst1 = blit dst op (take litLen (drop ip1 src))"
    have b: "length dst1 = n" "op + litLen \<le> n" "take op dst1 = take op dst"
      using blit_literals [of litLen ip1 src op n dst] True less.prems by (auto simp: dst1_def)
    have "extends n (op + litLen) dst1 (after_literals src n (ip1 + litLen) (op + litLen) dst1)"
      by (rule after_literals_extends [OF less.hyps]) (use True ip1 b in auto)
    then have "extends n op dst (after_literals src n (ip1 + litLen) (op + litLen) dst1)"
      using extends_trans b(3) le_add1 by blast
    then show ?thesis using True by (subst decompress_loop_split) (auto simp: r dst1_def)
  next
    case False
    then show ?thesis using less.prems by (subst decompress_loop_split) (auto simp: r extends_refl)
  qed
qed

lemma compress_loop_head:
  "\<exists>rest. compress_loop src ip anchor ht = emit_literals src anchor (hd (run_lengths src ip anchor ht)) @ rest"
proof (induction src ip anchor ht rule: compress_loop.induct)
  case (1 src ip anchor ht)
  show ?case
    by (subst compress_loop.simps, subst run_lengths.simps) (use 1 in \<open>simp add: Let_def\<close>)
qed

lemma hd_runs_le: "hd (literal_runs s) \<le> length s"
proof -
  have "run_lengths s ip anchor ht \<noteq> []" for ip anchor ht
  proof (induction s ip anchor ht rule: run_lengths.induct)
    case (1 s ip anchor ht)
    show ?case by (subst run_lengths.simps) (use 1 in \<open>simp add: Let_def\<close>)
  qed
  then show ?thesis
    using run_lengths_bound [of s 0 0 "replicate kHashSize 0"] by (metis list.pred_set list.set_sel(1) literal_runs_def)
qed

lemma decompress_long_run:
  assumes "255 \<le> hd (literal_runs s)" "s ! 0 \<noteq> 255" "s ! 0 \<noteq> s ! 1"
  shows "decompress (compress s) (length s) \<noteq> s"
proof
  assume eq: "decompress (compress s) (length s) = s"
  have len: "255 \<le> length s" using hd_runs_le [of s] assms(1) by simp
  obtain rest where "compress_loop s 0 0 (replicate kHashSize 0) = emit_literals s 0 (hd (literal_runs s)) @ rest"
    using compress_loop_head unfolding literal_runs_def by blast
  then obtain rest' where src: "compress_loop s 0 0 (replicate kHashSize 0) @ [0, 0] = 255 # take 255 s @ rest'"
    using assms(1) by (subst (asm) emit_literals.simps) auto
  define src where "src = 255 # take 255 s @ rest'"
  have nth: "src ! 0 = 255" "src ! 1 = s ! 0" "src ! 2 = s ! 1" and l: "256 \<le> length src"
    using len by (simp_all add: src_def nth_append numeral_2_eq_2)
  define dst0 where "dst0 = replicate (length s) (0 :: u8)"
  obtain op dst where d: "decompress_loop src (length s) 0 0 dst0 = (op, dst)" by fastforce
  have "s \<noteq> []" "\<not> length s < kMinMatch + 4" using len by (auto simp: kMinMatch_def)
  then have tk: "take op dst = s"
    using eq src d by (simp add: compress_def decompress_def src_def dst0_def)
  define L where "L = 255 + unat (s ! 0)"
  have rl: "read_length 0 src 0 = (L, 2)"
    using nth l assms(2) by (simp add: read_length_def read_extension.simps [of src "Suc 0"] L_def)
  have fits: "2 + L \<le> length src" "L \<le> length s"
  proof -
    have "op = 0" if "\<not> (2 + L \<le> length src \<and> L \<le> length s)"
    proof -
      have "0 < length src" "0 < length s" "0 < L" using l len by (linarith, linarith, simp add: L_def)
      then have "decompress_loop src (length s) 0 0 dst0 = (0, dst0)" using that
        by (subst decompress_loop_split) (auto simp: rl)
      then show ?thesis using d by simp
    qed
    then show "2 + L \<le> length src" "L \<le> length s" using tk len by force+
  qed
  define dst1 where "dst1 = blit dst0 0 (take L (drop 2 src))"
  have dst1: "length dst1 = length s" "dst1 ! 0 = s ! 1"
    using fits nth(3) len by (auto simp: dst1_def dst0_def blit_def L_def nth_append)
  have "decompress_loop src (length s) 0 0 dst0 = after_literals src (length s) (2 + L) L dst1"
    using fits l len by (subst decompress_loop_split) (auto simp: rl dst1_def)
  then have "extends (length s) L dst1 (op, dst)"
    using after_literals_extends [OF decompress_loop_extends dst1(1) fits(2)] d by simp
  then have "dst ! 0 = s ! 1" "0 < op"
    using dst1 unfolding extends_def by (auto simp: L_def dest!: arg_cong [of "take _ dst" _ "\<lambda>l. l ! 0"])
  then show False using tk assms(3) by (metis nth_take)
qed

lemma distinct_runs: "distinct src \<Longrightarrow> run_lengths src ip anchor ht = [length src - anchor]"
proof (induction src ip anchor ht rule: run_lengths.induct)
  case (1 src ip anchor ht)
  have "\<not> is_match src ip ref" if "ip + kMinMatch + 4 \<le> length src" for ref
  proof
    assume m: "is_match src ip ref"
    then have "take 4 (drop ip src) ! 0 = take 4 (drop ref src) ! 0" "ref < ip" by (simp_all add: is_match_def)
    then have "src ! ip = src ! ref" "ip < length src" using that by simp_all
    then show False using \<open>ref < ip\<close> 1(3) nth_eq_iff_index_eq by fastforce
  qed
  then show ?case
    by (subst run_lengths.simps) (use 1 in \<open>simp add: Let_def\<close>)
qed

lemma distinct_bytes: "n \<le> 256 \<Longrightarrow> distinct (map of_nat [0..<n] :: bytes)"
  by (auto simp: distinct_map intro!: inj_onI dest!: arg_cong [of "of_nat _ :: u8" _ unat] simp: unat_of_nat_small(2))

section \<open>Positions in a text\<close>

text \<open>The reference: scan the text up to the offset, counting lines and columns.\<close>

definition line_col :: "bytes \<Rightarrow> nat \<times> nat" where
  "line_col prefix = foldl (\<lambda>(l, c) b. if b = 10 then (l + 1, 0) else (l, c + 1)) (0, 0) prefix"

definition newlines :: "bytes \<Rightarrow> nat \<Rightarrow> nat \<Rightarrow> nat list" where
  "newlines s i j = filter (\<lambda>k. s ! k = 10) [i..<j]"

lemma newlines_split: "i \<le> j \<Longrightarrow> j \<le> k \<Longrightarrow> newlines s i k = newlines s i j @ newlines s j k"
  using upt_add_eq_append [of i j "k - j"] by (simp add: newlines_def)

definition starts :: "bytes \<Rightarrow> nat list" where
  "starts s = 0 # map Suc (newlines s 0 (length s))"

lemma build_starts: "build s = map of_nat (starts s)"
  by (simp add: build_def starts_def newlines_def)

lemma starts_split:
  assumes "off \<le> length s"
  shows "starts s = (0 # map Suc (newlines s 0 off)) @ map Suc (newlines s off (length s))"
  using assms newlines_split [of 0 off "length s" s] by (simp add: starts_def)

lemma line_col_scan:
  assumes "off \<le> length s"
  shows "fst (line_col (take off s)) = length (newlines s 0 off)
       \<and> starts s ! fst (line_col (take off s)) + snd (line_col (take off s)) = off"
  using assms
proof (induction off)
  case 0
  then show ?case by (simp add: line_col_def newlines_def starts_def)
next
  case (Suc off)
  obtain l c where lc: "line_col (take off s) = (l, c)" by fastforce
  then have IH: "l = length (newlines s 0 off)" "starts s ! l + c = off" using Suc by auto
  have step: "line_col (take (Suc off) s) = (if s ! off = 10 then (l + 1, 0) else (l, c + 1))"
    using lc Suc.prems by (simp add: line_col_def take_Suc_conv_app_nth)
  have nl: "newlines s 0 (Suc off) = newlines s 0 off @ (if s ! off = 10 then [off] else [])"
    by (simp add: newlines_def)
  have "starts s ! (l + 1) = Suc off" if "s ! off = 10"
    using starts_split [OF Suc.prems] nl that IH(1) by (simp add: nth_append)
  then show ?case using step nl IH by simp
qed

lemma starts_bounds:
  assumes "off \<le> length s"
  shows "\<forall>x\<in>set (0 # map Suc (newlines s 0 off)). x \<le> off"
    and "\<forall>x\<in>set (map Suc (newlines s off (length s))). off < x \<and> x \<le> length s"
  using assms by (auto simp: newlines_def)

lemma upper_bound_build:
  assumes "off \<le> length s" "length s < 2 ^ 31"
  shows "upper_bound (build s) (of_nat off) = Suc (fst (line_col (take off s)))"
proof -
  let ?A = "0 # map Suc (newlines s 0 off)" and ?B = "map Suc (newlines s off (length s))"
  have le: "(of_nat x :: u32) \<le> of_nat off \<longleftrightarrow> x \<le> off" if "x \<le> length s" for x
    using that assms by (simp add: word_le_nat_alt unat_of_nat_small(1))
  have "takeWhile (\<lambda>x. x \<le> of_nat off) (map of_nat ?A @ map of_nat ?B) = (map of_nat ?A :: u32 list)"
  proof -
    have "x \<le> of_nat off" if "x \<in> set (map of_nat ?A)" for x :: u32
      using that starts_bounds(1) [OF assms(1)] le assms(1) by (auto simp del: of_nat_Suc)
    moreover have "takeWhile (\<lambda>x. x \<le> of_nat off) (map of_nat ?B) = ([] :: u32 list)"
      using starts_bounds(2) [OF assms(1)] le by (cases ?B) (auto simp del: of_nat_Suc)
    ultimately show ?thesis by (simp only: takeWhile_append2 append_Nil2)
  qed
  then show ?thesis
    using line_col_scan [OF assms(1)] by (simp add: upper_bound_def build_starts starts_split [OF assms(1)])
qed

lemma build_nth: "k < length (build s) \<Longrightarrow> length s < 2 ^ 31 \<Longrightarrow> unat (build s ! k) = starts s ! k"
proof -
  assume "k < length (build s)" "length s < 2 ^ 31"
  moreover from this have "starts s ! k \<le> length s"
    using starts_bounds(1) [of "length s" s] nth_mem [of k "starts s"] by (fastforce simp: build_starts starts_def)
  ultimately show ?thesis by (simp add: build_starts unat_of_nat_small(1))
qed

lemma int_cast_small: "0 \<le> x \<Longrightarrow> x < 2 ^ 31 \<Longrightarrow> signed_take_bit 31 x = x" for x :: int
  by (simp add: signed_take_bit_int_eq_self)

lemma getPosition_line_col:
  assumes "off \<le> length s" "length s < 2 ^ 31"
  shows "getPosition (build s) off (length s) = map_prod int int (line_col (take off s))"
proof -
  obtain l c where lc: "line_col (take off s) = (l, c)" by fastforce
  note sc = line_col_scan [OF assms(1), unfolded lc fst_conv snd_conv]
  have "length (newlines s 0 off) \<le> off" by (simp add: newlines_def) (metis diff_zero length_filter_le length_upt)
  then have l: "l \<le> off" "c \<le> off" using sc by simp_all
  have "l < length (build s)" using sc starts_split [OF assms(1)] by (simp add: build_starts)
  then have st: "unat (build s ! l) = starts s ! l" using build_nth assms(2) by blast
  have ne: "build s \<noteq> []" by (simp add: build_def)
  have "int off - int (starts s ! l) = int c" using sc by linarith
  then have c: "signed_take_bit 31 (int off - int (unat (build s ! nat (int l)))) = int c"
    using st l assms int_cast_small [of "int c"] by (simp only: nat_int) simp
  have ln: "signed_take_bit 31 (int (Suc l) - 1) = int l" using l assms int_cast_small [of "int l"] by simp
  have "\<not> length s < off" "\<not> int l < 0" using assms(1) by simp_all
  with c ln ne upper_bound_build [OF assms] show ?thesis
    unfolding getPosition_def Let_def by (simp only: lc fst_conv if_False map_prod_simp)
qed

lemma getOffset_line_col:
  assumes "off \<le> length s" "length s < 2 ^ 31"
  shows "getOffset (build s) (int (fst (line_col (take off s)))) (int (snd (line_col (take off s)))) (length s) = off"
proof -
  obtain l c where lc: "line_col (take off s) = (l, c)" by fastforce
  note sc = line_col_scan [OF assms(1), unfolded lc fst_conv snd_conv] and sp = starts_split [OF assms(1)]
  have l: "l < length (build s)" using sc sp by (simp add: build_starts)
  have "off \<le> unat (build s ! (l + 1))" if "l + 1 < length (build s)"
  proof -
    have "starts s ! (l + 1) \<in> set (map Suc (newlines s off (length s)))"
      using that sc by (simp add: build_starts sp nth_append)
    then show ?thesis using starts_bounds(2) [OF assms(1)] build_nth [OF that assms(2)] by fastforce
  qed
  then show ?thesis
    using l sc build_nth [OF l assms(2)] assms(1) by (auto simp: getOffset_def lc Let_def min_def)
qed

section \<open>The buffer\<close>

text \<open>The text a buffer stands for, and the operations whose texts the encoder can represent.\<close>

fun spec_step :: "buffer_op \<Rightarrow> bytes \<Rightarrow> bytes" where
  "spec_step (SetText s auto) t = s"
| "spec_step Compress t = t"
| "spec_step Decompress t = t"

fun op_ok :: "buffer_op \<Rightarrow> bool" where
  "op_ok (SetText s auto) = short_runs s"
| "op_ok _ = True"

definition holds_text :: "CompressedFileBuffer \<Rightarrow> bytes \<Rightarrow> bool" where
  "holds_text b t \<longleftrightarrow> short_runs t \<and> origSize b = length t \<and> data b = (if isComp b then compress t else t)"

lemma buffer_step_holds: "holds_text b t \<Longrightarrow> op_ok x \<Longrightarrow> holds_text (buffer_step x b) (spec_step x t)"
  by (cases x) (auto simp: holds_text_def setText_def Let_def buffer_compress_def buffer_decompress_def decompress_compress)

lemma buffer_run_holds:
  "holds_text b t \<Longrightarrow> list_all op_ok ops \<Longrightarrow> holds_text (fold buffer_step ops b) (fold spec_step ops t)"
  by (induction ops arbitrary: b t) (simp_all add: buffer_step_holds)

lemma holds_getText: "holds_text b t \<Longrightarrow> getText b = t"
  by (simp add: holds_text_def getText_def decompress_compress)

lemma holds_empty: "holds_text empty_buffer []"
  by (simp add: holds_text_def empty_buffer_def short_text_short_runs)

section \<open>Properties\<close>

text \<open>
  C22. Whenever every literal run between matches is shorter than 255 bytes, decompressing the
  output of \<open>compress\<close> with the original size gives the input back.
\<close>

theorem compress_roundtrip:
  "short_runs s \<Longrightarrow> decompress (compress s) (length s) = s"
  by (rule decompress_compress)

theorem compress_roundtrip_witness:
  "short_runs (replicate 20 7 @ [1, 2, 3]) \<and>
   decompress (compress (replicate 20 7 @ [1, 2, 3])) 23 = replicate 20 7 @ [1, 2, 3]"
  using compress_roundtrip [of "replicate 20 7 @ [1, 2, 3]"] short_text_short_runs [of "replicate 20 7 @ [1, 2, 3]"]
  by simp

text \<open>
  A text whose first literal run has 255 bytes or more, and whose first byte is neither 255 nor
  the second byte, does not survive the round trip: the encoder cuts the run into chunks of 255
  raw bytes, the decoder reads the length 255 as the start of an extended length.
\<close>

theorem compress_loses_long_runs:
  assumes "255 \<le> hd (literal_runs s)" "s ! 0 \<noteq> 255" "s ! 0 \<noteq> s ! 1"
  shows "decompress (compress s) (length s) \<noteq> s"
  by (rule decompress_long_run [OF assms])

theorem compress_loses_long_runs_witness:
  "255 \<le> hd (literal_runs (map of_nat [0..<256])) \<and>
   decompress (compress (map of_nat [0..<256])) 256 \<noteq> map of_nat [0..<256]"
proof -
  let ?s = "map of_nat [0..<256] :: bytes"
  have "literal_runs ?s = [256]" using distinct_runs [OF distinct_bytes [of 256]] by (simp add: literal_runs_def)
  moreover have "?s ! 0 = 0" "?s ! 1 = 1" by (simp_all add: nth_append)
  ultimately show ?thesis using compress_loses_long_runs [of ?s] by simp
qed

text \<open>
  C23. A file buffer is its text: after any sequence of \<open>setText\<close>, \<open>compress\<close> and \<open>decompress\<close> whose
  texts the encoder can represent, \<open>getText\<close> returns the text that was set last, whatever form the
  buffer stores it in.
\<close>

theorem file_buffer_refines_text:
  "list_all op_ok ops \<Longrightarrow> getText (fold buffer_step ops empty_buffer) = fold spec_step ops []"
  using buffer_run_holds [OF holds_empty] holds_getText by blast

theorem file_buffer_refines_text_witness:
  "isComp (fold buffer_step [SetText (replicate 200 65) True, Compress] empty_buffer) \<and>
   getText (fold buffer_step [SetText (replicate 200 65) True, Compress] empty_buffer) = replicate 200 65"
proof -
  have "short_runs (replicate 200 65)" by (rule short_text_short_runs) simp
  then show ?thesis
    using file_buffer_refines_text [of "[SetText (replicate 200 65) True, Compress]"]
    by (simp add: setText_def buffer_compress_def)
qed

text \<open>
  The line table of a text of less than 2 GiB: \<open>getPosition\<close> finds the line and column a scan
  of the text counts, and \<open>getOffset\<close> maps that position back to the offset.
\<close>

theorem line_offsets_roundtrip:
  assumes "off \<le> length s" "length s < 2 ^ 31"
  shows "getPosition (build s) off (length s) = map_prod int int (line_col (take off s)) \<and>
    (case getPosition (build s) off (length s) of (line, character) \<Rightarrow> getOffset (build s) line character (length s) = off)"
  using getPosition_line_col [OF assms] getOffset_line_col [OF assms] by (simp add: split_beta)

theorem line_offsets_roundtrip_witness:
  "getPosition (build [104, 105, 10, 120, 10]) 4 5 = (1, 1)"
proof -
  let ?s = "[104, 105, 10, 120, 10] :: bytes"
  have "length ?s = 5" "line_col (take 4 ?s) = (1, 1)" by (simp_all add: line_col_def)
  then show ?thesis using line_offsets_roundtrip [of 4 ?s] by (simp del: list.size)
qed

end
