(* ===== verification/Digest.thy ===== *)
theory Digest
  imports Prelude
begin

text \<open>
  The message digests of \<^verbatim>\<open>VM/src/lhashlib.cpp\<close>: MD5, SHA-1 and the SHA-2 family on machine words, with
  the buffering loop and the padding that the six \<open>compute_\<close> functions share. The digests are proved
  equal to the standards' description, compression folded over the blocks of the padded message.
\<close>

section \<open>Words and bytes\<close>

definition ROTL32 :: "u32 \<Rightarrow> nat \<Rightarrow> u32" where
  "ROTL32 x n = push_bit n x OR drop_bit (32 - n) x"

definition ROTR32 :: "u32 \<Rightarrow> nat \<Rightarrow> u32" where
  "ROTR32 x n = drop_bit n x OR push_bit (32 - n) x"

definition ROTR64 :: "u64 \<Rightarrow> nat \<Rightarrow> u64" where
  "ROTR64 x n = drop_bit n x OR push_bit (64 - n) x"

definition le32 :: "bytes \<Rightarrow> nat \<Rightarrow> u32" where
  "le32 block i = ucast (block ! (i * 4)) OR push_bit 8 (ucast (block ! (i * 4 + 1)))
     OR push_bit 16 (ucast (block ! (i * 4 + 2))) OR push_bit 24 (ucast (block ! (i * 4 + 3)))"

definition be32 :: "bytes \<Rightarrow> nat \<Rightarrow> u32" where
  "be32 block i = push_bit 24 (ucast (block ! (i * 4))) OR push_bit 16 (ucast (block ! (i * 4 + 1)))
     OR push_bit 8 (ucast (block ! (i * 4 + 2))) OR ucast (block ! (i * 4 + 3))"

definition be64 :: "bytes \<Rightarrow> nat \<Rightarrow> u64" where
  "be64 block i = push_bit 56 (ucast (block ! (i * 8))) OR push_bit 48 (ucast (block ! (i * 8 + 1)))
     OR push_bit 40 (ucast (block ! (i * 8 + 2))) OR push_bit 32 (ucast (block ! (i * 8 + 3)))
     OR push_bit 24 (ucast (block ! (i * 8 + 4))) OR push_bit 16 (ucast (block ! (i * 8 + 5)))
     OR push_bit 8 (ucast (block ! (i * 8 + 6))) OR ucast (block ! (i * 8 + 7))"

text \<open>The bytes of a word, least or most significant first, as the output loops store them.\<close>

definition bytes_le32 :: "u32 \<Rightarrow> bytes" where
  "bytes_le32 w = [ucast (w AND 0xFF), ucast (drop_bit 8 w AND 0xFF), ucast (drop_bit 16 w AND 0xFF), ucast (drop_bit 24 w AND 0xFF)]"

definition bytes_be32 :: "u32 \<Rightarrow> bytes" where
  "bytes_be32 w = [ucast (drop_bit 24 w AND 0xFF), ucast (drop_bit 16 w AND 0xFF), ucast (drop_bit 8 w AND 0xFF), ucast (w AND 0xFF)]"

definition bytes_be64 :: "u64 \<Rightarrow> bytes" where
  "bytes_be64 w = map (\<lambda>j. ucast (drop_bit ((7 - j) * 8) w AND 0xFF)) [0..<8]"

section \<open>MD5\<close>

definition md5_F :: "u32 \<Rightarrow> u32 \<Rightarrow> u32 \<Rightarrow> u32" where
  "md5_F x y z = (x AND y) OR (NOT x AND z)"

definition md5_G :: "u32 \<Rightarrow> u32 \<Rightarrow> u32 \<Rightarrow> u32" where
  "md5_G x y z = (x AND z) OR (y AND NOT z)"

definition md5_H :: "u32 \<Rightarrow> u32 \<Rightarrow> u32 \<Rightarrow> u32" where
  "md5_H x y z = x XOR y XOR z"

definition md5_I :: "u32 \<Rightarrow> u32 \<Rightarrow> u32 \<Rightarrow> u32" where
  "md5_I x y z = y XOR (x OR NOT z)"

definition FF :: "u32 list \<Rightarrow> u32 \<Rightarrow> u32 \<Rightarrow> u32 \<Rightarrow> u32 \<Rightarrow> nat \<Rightarrow> nat \<Rightarrow> u32 \<Rightarrow> u32" where
  "FF x a b c d m s t = b + ROTL32 (a + md5_F b c d + x ! m + t) s"

definition GG :: "u32 list \<Rightarrow> u32 \<Rightarrow> u32 \<Rightarrow> u32 \<Rightarrow> u32 \<Rightarrow> nat \<Rightarrow> nat \<Rightarrow> u32 \<Rightarrow> u32" where
  "GG x a b c d m s t = b + ROTL32 (a + md5_G b c d + x ! m + t) s"

definition HH :: "u32 list \<Rightarrow> u32 \<Rightarrow> u32 \<Rightarrow> u32 \<Rightarrow> u32 \<Rightarrow> nat \<Rightarrow> nat \<Rightarrow> u32 \<Rightarrow> u32" where
  "HH x a b c d m s t = b + ROTL32 (a + md5_H b c d + x ! m + t) s"

definition II :: "u32 list \<Rightarrow> u32 \<Rightarrow> u32 \<Rightarrow> u32 \<Rightarrow> u32 \<Rightarrow> nat \<Rightarrow> nat \<Rightarrow> u32 \<Rightarrow> u32" where
  "II x a b c d m s t = b + ROTL32 (a + md5_I b c d + x ! m + t) s"

definition md5_transform :: "u32 list \<Rightarrow> bytes \<Rightarrow> u32 list" where
  "md5_transform state block =
     (let a = state ! 0; b = state ! 1; c = state ! 2; d = state ! 3;
       x = map (le32 block) [0..<16];
       a = FF x a b c d 0 7 0xD76AA478;
       d = FF x d a b c 1 12 0xE8C7B756;
       c = FF x c d a b 2 17 0x242070DB;
       b = FF x b c d a 3 22 0xC1BDCEEE;
       a = FF x a b c d 4 7 0xF57C0FAF;
       d = FF x d a b c 5 12 0x4787C62A;
       c = FF x c d a b 6 17 0xA8304613;
       b = FF x b c d a 7 22 0xFD469501;
       a = FF x a b c d 8 7 0x698098D8;
       d = FF x d a b c 9 12 0x8B44F7AF;
       c = FF x c d a b 10 17 0xFFFF5BB1;
       b = FF x b c d a 11 22 0x895CD7BE;
       a = FF x a b c d 12 7 0x6B901122;
       d = FF x d a b c 13 12 0xFD987193;
       c = FF x c d a b 14 17 0xA679438E;
       b = FF x b c d a 15 22 0x49B40821;
       a = GG x a b c d 1 5 0xF61E2562;
       d = GG x d a b c 6 9 0xC040B340;
       c = GG x c d a b 11 14 0x265E5A51;
       b = GG x b c d a 0 20 0xE9B6C7AA;
       a = GG x a b c d 5 5 0xD62F105D;
       d = GG x d a b c 10 9 0x02441453;
       c = GG x c d a b 15 14 0xD8A1E681;
       b = GG x b c d a 4 20 0xE7D3FBC8;
       a = GG x a b c d 9 5 0x21E1CDE6;
       d = GG x d a b c 14 9 0xC33707D6;
       c = GG x c d a b 3 14 0xF4D50D87;
       b = GG x b c d a 8 20 0x455A14ED;
       a = GG x a b c d 13 5 0xA9E3E905;
       d = GG x d a b c 2 9 0xFCEFA3F8;
       c = GG x c d a b 7 14 0x676F02D9;
       b = GG x b c d a 12 20 0x8D2A4C8A;
       a = HH x a b c d 5 4 0xFFFA3942;
       d = HH x d a b c 8 11 0x8771F681;
       c = HH x c d a b 11 16 0x6D9D6122;
       b = HH x b c d a 14 23 0xFDE5380C;
       a = HH x a b c d 1 4 0xA4BEEA44;
       d = HH x d a b c 4 11 0x4BDECFA9;
       c = HH x c d a b 7 16 0xF6BB4B60;
       b = HH x b c d a 10 23 0xBEBFBC70;
       a = HH x a b c d 13 4 0x289B7EC6;
       d = HH x d a b c 0 11 0xEAA127FA;
       c = HH x c d a b 3 16 0xD4EF3085;
       b = HH x b c d a 6 23 0x04881D05;
       a = HH x a b c d 9 4 0xD9D4D039;
       d = HH x d a b c 12 11 0xE6DB99E5;
       c = HH x c d a b 15 16 0x1FA27CF8;
       b = HH x b c d a 2 23 0xC4AC5665;
       a = II x a b c d 0 6 0xF4292244;
       d = II x d a b c 7 10 0x432AFF97;
       c = II x c d a b 14 15 0xAB9423A7;
       b = II x b c d a 5 21 0xFC93A039;
       a = II x a b c d 12 6 0x655B59C3;
       d = II x d a b c 3 10 0x8F0CCC92;
       c = II x c d a b 10 15 0xFFEFF47D;
       b = II x b c d a 1 21 0x85845DD1;
       a = II x a b c d 8 6 0x6FA87E4F;
       d = II x d a b c 15 10 0xFE2CE6E0;
       c = II x c d a b 6 15 0xA3014314;
       b = II x b c d a 13 21 0x4E0811A1;
       a = II x a b c d 4 6 0xF7537E82;
       d = II x d a b c 11 10 0xBD3AF235;
       c = II x c d a b 2 15 0x2AD7D2BB;
       b = II x b c d a 9 21 0xEB86D391
      in [state ! 0 + a, state ! 1 + b, state ! 2 + c, state ! 3 + d])"

section \<open>SHA-1\<close>

definition sha1_expand :: "nat \<Rightarrow> u32 list \<Rightarrow> u32 list" where
  "sha1_expand i w = w @ [ROTL32 (w ! (i - 3) XOR w ! (i - 8) XOR w ! (i - 14) XOR w ! (i - 16)) 1]"

definition sha1_schedule :: "bytes \<Rightarrow> u32 list" where
  "sha1_schedule block = fold sha1_expand [16..<80] (map (be32 block) [0..<16])"

definition sha1_f :: "nat \<Rightarrow> u32 \<Rightarrow> u32 \<Rightarrow> u32 \<Rightarrow> u32" where
  "sha1_f i b c d =
     (if i < 20 then ((b AND c) OR (NOT b AND d)) + 0x5A827999
      else if i < 40 then (b XOR c XOR d) + 0x6ED9EBA1
      else if i < 60 then ((b AND c) OR (b AND d) OR (c AND d)) + 0x8F1BBCDC
      else (b XOR c XOR d) + 0xCA62C1D6)"

definition sha1_round :: "u32 list \<Rightarrow> nat \<Rightarrow> u32 \<times> u32 \<times> u32 \<times> u32 \<times> u32 \<Rightarrow> u32 \<times> u32 \<times> u32 \<times> u32 \<times> u32" where
  "sha1_round w i = (\<lambda>(a, b, c, d, e). (sha1_f i b c d + (ROTL32 a 5 + e + w ! i), a, ROTL32 b 30, c, d))"

definition sha1_transform :: "u32 list \<Rightarrow> bytes \<Rightarrow> u32 list" where
  "sha1_transform state buffer =
     (let w = sha1_schedule buffer;
          (a, b, c, d, e) = fold (sha1_round w) [0..<80] (state ! 0, state ! 1, state ! 2, state ! 3, state ! 4)
      in [state ! 0 + a, state ! 1 + b, state ! 2 + c, state ! 3 + d, state ! 4 + e])"

section \<open>SHA-224 and SHA-256\<close>

definition CH :: "u32 \<Rightarrow> u32 \<Rightarrow> u32 \<Rightarrow> u32" where
  "CH x y z = (x AND y) XOR (NOT x AND z)"

definition MAJ :: "u32 \<Rightarrow> u32 \<Rightarrow> u32 \<Rightarrow> u32" where
  "MAJ x y z = (x AND y) XOR (x AND z) XOR (y AND z)"

definition EP0 :: "u32 \<Rightarrow> u32" where
  "EP0 x = ROTR32 x 2 XOR ROTR32 x 13 XOR ROTR32 x 22"

definition EP1 :: "u32 \<Rightarrow> u32" where
  "EP1 x = ROTR32 x 6 XOR ROTR32 x 11 XOR ROTR32 x 25"

definition SIG0 :: "u32 \<Rightarrow> u32" where
  "SIG0 x = ROTR32 x 7 XOR ROTR32 x 18 XOR drop_bit 3 x"

definition SIG1 :: "u32 \<Rightarrow> u32" where
  "SIG1 x = ROTR32 x 17 XOR ROTR32 x 19 XOR drop_bit 10 x"

definition k_sha256 :: "u32 list" where
  "k_sha256 = concat
    [[0x428A2F98, 0x71374491, 0xB5C0FBCF, 0xE9B5DBA5, 0x3956C25B, 0x59F111F1, 0x923F82A4, 0xAB1C5ED5],
     [0xD807AA98, 0x12835B01, 0x243185BE, 0x550C7DC3, 0x72BE5D74, 0x80DEB1FE, 0x9BDC06A7, 0xC19BF174],
     [0xE49B69C1, 0xEFBE4786, 0x0FC19DC6, 0x240CA1CC, 0x2DE92C6F, 0x4A7484AA, 0x5CB0A9DC, 0x76F988DA],
     [0x983E5152, 0xA831C66D, 0xB00327C8, 0xBF597FC7, 0xC6E00BF3, 0xD5A79147, 0x06CA6351, 0x14292967],
     [0x27B70A85, 0x2E1B2138, 0x4D2C6DFC, 0x53380D13, 0x650A7354, 0x766A0ABB, 0x81C2C92E, 0x92722C85],
     [0xA2BFE8A1, 0xA81A664B, 0xC24B8B70, 0xC76C51A3, 0xD192E819, 0xD6990624, 0xF40E3585, 0x106AA070],
     [0x19A4C116, 0x1E376C08, 0x2748774C, 0x34B0BCB5, 0x391C0CB3, 0x4ED8AA4A, 0x5B9CCA4F, 0x682E6FF3],
     [0x748F82EE, 0x78A5636F, 0x84C87814, 0x8CC70208, 0x90BEFFFA, 0xA4506CEB, 0xBEF9A3F7, 0xC67178F2]]"

definition sha256_expand :: "nat \<Rightarrow> u32 list \<Rightarrow> u32 list" where
  "sha256_expand i m = m @ [SIG1 (m ! (i - 2)) + m ! (i - 7) + SIG0 (m ! (i - 15)) + m ! (i - 16)]"

definition sha256_schedule :: "bytes \<Rightarrow> u32 list" where
  "sha256_schedule data = fold sha256_expand [16..<64] (map (be32 data) [0..<16])"

type_synonym 'a regs8 = "'a \<times> 'a \<times> 'a \<times> 'a \<times> 'a \<times> 'a \<times> 'a \<times> 'a"

definition sha256_round :: "u32 list \<Rightarrow> nat \<Rightarrow> u32 regs8 \<Rightarrow> u32 regs8" where
  "sha256_round m i = (\<lambda>(a, b, c, d, e, f, g, h).
     let t1 = h + EP1 e + CH e f g + k_sha256 ! i + m ! i;
         t2 = EP0 a + MAJ a b c
     in (t1 + t2, a, b, c, d + t1, e, f, g))"

definition regs_of :: "'a list \<Rightarrow> 'a regs8" where
  "regs_of s = (s ! 0, s ! 1, s ! 2, s ! 3, s ! 4, s ! 5, s ! 6, s ! 7)"

definition sha256_transform :: "u32 list \<Rightarrow> bytes \<Rightarrow> u32 list" where
  "sha256_transform state data =
     (let m = sha256_schedule data;
          (a, b, c, d, e, f, g, h) = fold (sha256_round m) [0..<64] (regs_of state)
      in [state ! 0 + a, state ! 1 + b, state ! 2 + c, state ! 3 + d,
          state ! 4 + e, state ! 5 + f, state ! 6 + g, state ! 7 + h])"

section \<open>SHA-384 and SHA-512\<close>

definition CH64 :: "u64 \<Rightarrow> u64 \<Rightarrow> u64 \<Rightarrow> u64" where
  "CH64 x y z = (x AND y) XOR (NOT x AND z)"

definition MAJ64 :: "u64 \<Rightarrow> u64 \<Rightarrow> u64 \<Rightarrow> u64" where
  "MAJ64 x y z = (x AND y) XOR (x AND z) XOR (y AND z)"

definition EP0_64 :: "u64 \<Rightarrow> u64" where
  "EP0_64 x = ROTR64 x 28 XOR ROTR64 x 34 XOR ROTR64 x 39"

definition EP1_64 :: "u64 \<Rightarrow> u64" where
  "EP1_64 x = ROTR64 x 14 XOR ROTR64 x 18 XOR ROTR64 x 41"

definition SIG0_64 :: "u64 \<Rightarrow> u64" where
  "SIG0_64 x = ROTR64 x 1 XOR ROTR64 x 8 XOR drop_bit 7 x"

definition SIG1_64 :: "u64 \<Rightarrow> u64" where
  "SIG1_64 x = ROTR64 x 19 XOR ROTR64 x 61 XOR drop_bit 6 x"

definition k_sha512 :: "u64 list" where
  "k_sha512 = concat
    [[0x428A2F98D728AE22, 0x7137449123EF65CD, 0xB5C0FBCFEC4D3B2F, 0xE9B5DBA58189DBBC],
     [0x3956C25BF348B538, 0x59F111F1B605D019, 0x923F82A4AF194F9B, 0xAB1C5ED5DA6D8118],
     [0xD807AA98A3030242, 0x12835B0145706FBE, 0x243185BE4EE4B28C, 0x550C7DC3D5FFB4E2],
     [0x72BE5D74F27B896F, 0x80DEB1FE3B1696B1, 0x9BDC06A725C71235, 0xC19BF174CF692694],
     [0xE49B69C19EF14AD2, 0xEFBE4786384F25E3, 0x0FC19DC68B8CD5B5, 0x240CA1CC77AC9C65],
     [0x2DE92C6F592B0275, 0x4A7484AA6EA6E483, 0x5CB0A9DCBD41FBD4, 0x76F988DA831153B5],
     [0x983E5152EE66DFAB, 0xA831C66D2DB43210, 0xB00327C898FB213F, 0xBF597FC7BEEF0EE4],
     [0xC6E00BF33DA88FC2, 0xD5A79147930AA725, 0x06CA6351E003826F, 0x142929670A0E6E70],
     [0x27B70A8546D22FFC, 0x2E1B21385C26C926, 0x4D2C6DFC5AC42AED, 0x53380D139D95B3DF],
     [0x650A73548BAF63DE, 0x766A0ABB3C77B2A8, 0x81C2C92E47EDAEE6, 0x92722C851482353B],
     [0xA2BFE8A14CF10364, 0xA81A664BBC423001, 0xC24B8B70D0F89791, 0xC76C51A30654BE30],
     [0xD192E819D6EF5218, 0xD69906245565A910, 0xF40E35855771202A, 0x106AA07032BBD1B8],
     [0x19A4C116B8D2D0C8, 0x1E376C085141AB53, 0x2748774CDF8EEB99, 0x34B0BCB5E19B48A8],
     [0x391C0CB3C5C95A63, 0x4ED8AA4AE3418ACB, 0x5B9CCA4F7763E373, 0x682E6FF3D6B2B8A3],
     [0x748F82EE5DEFB2FC, 0x78A5636F43172F60, 0x84C87814A1F0AB72, 0x8CC702081A6439EC],
     [0x90BEFFFA23631E28, 0xA4506CEBDE82BDE9, 0xBEF9A3F7B2C67915, 0xC67178F2E372532B],
     [0xCA273ECEEA26619C, 0xD186B8C721C0C207, 0xEADA7DD6CDE0EB1E, 0xF57D4F7FEE6ED178],
     [0x06F067AA72176FBA, 0x0A637DC5A2C898A6, 0x113F9804BEF90DAE, 0x1B710B35131C471B],
     [0x28DB77F523047D84, 0x32CAAB7B40C72493, 0x3C9EBE0A15C9BEBC, 0x431D67C49C100D4C],
     [0x4CC5D4BECB3E42B6, 0x597F299CFC657E2A, 0x5FCB6FAB3AD6FAEC, 0x6C44198C4A475817]]"

definition sha512_expand :: "nat \<Rightarrow> u64 list \<Rightarrow> u64 list" where
  "sha512_expand i m = m @ [SIG1_64 (m ! (i - 2)) + m ! (i - 7) + SIG0_64 (m ! (i - 15)) + m ! (i - 16)]"

definition sha512_schedule :: "bytes \<Rightarrow> u64 list" where
  "sha512_schedule data = fold sha512_expand [16..<80] (map (be64 data) [0..<16])"

definition sha512_round :: "u64 list \<Rightarrow> nat \<Rightarrow> u64 regs8 \<Rightarrow> u64 regs8" where
  "sha512_round m i = (\<lambda>(a, b, c, d, e, f, g, h).
     let t1 = h + EP1_64 e + CH64 e f g + k_sha512 ! i + m ! i;
         t2 = EP0_64 a + MAJ64 a b c
     in (t1 + t2, a, b, c, d + t1, e, f, g))"

definition sha512_transform :: "u64 list \<Rightarrow> bytes \<Rightarrow> u64 list" where
  "sha512_transform state data =
     (let m = sha512_schedule data;
          (a, b, c, d, e, f, g, h) = fold (sha512_round m) [0..<80] (regs_of state)
      in [state ! 0 + a, state ! 1 + b, state ! 2 + c, state ! 3 + d,
          state ! 4 + e, state ! 5 + f, state ! 6 + g, state ! 7 + h])"

section \<open>Buffering and padding\<close>

text \<open>
  The six functions run the same loop on a stack buffer of one block. \<open>buffer0\<close> is what the uninitialised
  buffer holds on entry.
\<close>

record 's hasher =
  hs_state :: 's
  hs_buffer :: bytes
  hs_offset :: nat

definition hash_byte :: "('s \<Rightarrow> bytes \<Rightarrow> 's) \<Rightarrow> nat \<Rightarrow> u8 \<Rightarrow> 's hasher \<Rightarrow> 's hasher" where
  "hash_byte tr blk c h =
     (let buffer = (hs_buffer h)[hs_offset h := c]; offset = hs_offset h + 1
      in if offset = blk then \<lparr>hs_state = tr (hs_state h) buffer, hs_buffer = buffer, hs_offset = 0\<rparr>
         else h\<lparr>hs_buffer := buffer, hs_offset := offset\<rparr>)"

function zero_fill :: "nat \<Rightarrow> bytes \<Rightarrow> nat \<Rightarrow> bytes" where
  "zero_fill limit buffer offset = (if offset < limit then zero_fill limit (buffer[offset := 0]) (offset + 1) else buffer)"
  by pat_completeness auto

termination zero_fill
  by (relation "measure (\<lambda>(limit, buffer, offset). limit - offset)") auto

declare zero_fill.simps [simp del]

definition hash_finish :: "('s \<Rightarrow> bytes \<Rightarrow> 's) \<Rightarrow> nat \<Rightarrow> nat \<Rightarrow> (bytes \<Rightarrow> bytes) \<Rightarrow> 's hasher \<Rightarrow> 's" where
  "hash_finish tr blk lenpos put_length h =
     (let buffer = (hs_buffer h)[hs_offset h := 0x80]; offset = hs_offset h + 1;
          (state, buffer, offset) =
            (if offset > lenpos
             then let buffer = zero_fill blk buffer offset in (tr (hs_state h) buffer, buffer, 0)
             else (hs_state h, buffer, offset));
          buffer = put_length (zero_fill lenpos buffer offset)
      in tr state buffer)"

definition hash_run :: "('s \<Rightarrow> bytes \<Rightarrow> 's) \<Rightarrow> nat \<Rightarrow> nat \<Rightarrow> (nat \<Rightarrow> bytes \<Rightarrow> bytes) \<Rightarrow> 's \<Rightarrow> bytes \<Rightarrow> bytes \<Rightarrow> 's" where
  "hash_run tr blk lenpos put_length state0 buffer0 data =
     hash_finish tr blk lenpos (put_length (length data))
       (fold (hash_byte tr blk) data \<lparr>hs_state = state0, hs_buffer = buffer0, hs_offset = 0\<rparr>)"

text \<open>The length field: the number of bits, in the \<open>uint64_t\<close> the code computes it in.\<close>

definition put_bits_le :: "nat \<Rightarrow> bytes \<Rightarrow> bytes" where
  "put_bits_le len buffer =
     (let bits = of_nat len * 8 :: u64 in fold (\<lambda>i b. b[56 + i := ucast (drop_bit (i * 8) bits AND 0xFF)]) [0..<8] buffer)"

definition put_bits_be :: "nat \<Rightarrow> bytes \<Rightarrow> bytes" where
  "put_bits_be len buffer =
     (let bits = of_nat len * 8 :: u64 in fold (\<lambda>i b. b[56 + i := ucast (drop_bit ((7 - i) * 8) bits AND 0xFF)]) [0..<8] buffer)"

definition put_bits_be128 :: "nat \<Rightarrow> bytes \<Rightarrow> bytes" where
  "put_bits_be128 len buffer =
     (let bits_low = of_nat len * 8 :: u64; bits_high = drop_bit 61 (of_nat len :: u64);
          buffer = fold (\<lambda>i b. b[112 + i := ucast (drop_bit ((7 - i) * 8) bits_high AND 0xFF)]) [0..<8] buffer
      in fold (\<lambda>i b. b[120 + i := ucast (drop_bit ((7 - i) * 8) bits_low AND 0xFF)]) [0..<8] buffer)"

definition md5_init :: "u32 list" where
  "md5_init = [0x67452301, 0xEFCDAB89, 0x98BADCFE, 0x10325476]"

definition compute_md5 :: "bytes \<Rightarrow> bytes \<Rightarrow> bytes" where
  "compute_md5 buffer0 data = concat (map bytes_le32 (hash_run md5_transform 64 56 put_bits_le md5_init buffer0 data))"

definition sha1_init :: "u32 list" where
  "sha1_init = [0x67452301, 0xEFCDAB89, 0x98BADCFE, 0x10325476, 0xC3D2E1F0]"

definition compute_sha1 :: "bytes \<Rightarrow> bytes \<Rightarrow> bytes" where
  "compute_sha1 buffer0 data = concat (map bytes_be32 (hash_run sha1_transform 64 56 put_bits_be sha1_init buffer0 data))"

definition sha256_init :: "u32 list" where
  "sha256_init = [0x6A09E667, 0xBB67AE85, 0x3C6EF372, 0xA54FF53A, 0x510E527F, 0x9B05688C, 0x1F83D9AB, 0x5BE0CD19]"

definition compute_sha256 :: "bytes \<Rightarrow> bytes \<Rightarrow> bytes" where
  "compute_sha256 buffer0 data =
     concat (map bytes_be32 (hash_run sha256_transform 64 56 put_bits_be sha256_init buffer0 data))"

definition sha224_init :: "u32 list" where
  "sha224_init = [0xC1059ED8, 0x367CD507, 0x3070DD17, 0xF70E5939, 0xFFC00B31, 0x68581511, 0x64F98FA7, 0xBEFA4FA4]"

definition compute_sha224 :: "bytes \<Rightarrow> bytes \<Rightarrow> bytes" where
  "compute_sha224 buffer0 data =
     concat (map bytes_be32 (take 7 (hash_run sha256_transform 64 56 put_bits_be sha224_init buffer0 data)))"

definition sha512_init :: "u64 list" where
  "sha512_init =
    [0x6A09E667F3BCC908, 0xBB67AE8584CAA73B, 0x3C6EF372FE94F82B, 0xA54FF53A5F1D36F1,
     0x510E527FADE682D1, 0x9B05688C2B3E6C1F, 0x1F83D9ABFB41BD6B, 0x5BE0CD19137E2179]"

definition compute_sha512 :: "bytes \<Rightarrow> bytes \<Rightarrow> bytes" where
  "compute_sha512 buffer0 data =
     concat (map bytes_be64 (hash_run sha512_transform 128 112 put_bits_be128 sha512_init buffer0 data))"

definition sha384_init :: "u64 list" where
  "sha384_init =
    [0xCBBB9D5DC1059ED8, 0x629A292A367CD507, 0x9159015A3070DD17, 0x152FECD8F70E5939,
     0x67332667FFC00B31, 0x8EB44A8768581511, 0xDB0C2E0D64F98FA7, 0x47B5481DBEFA4FA4]"

definition compute_sha384 :: "bytes \<Rightarrow> bytes \<Rightarrow> bytes" where
  "compute_sha384 buffer0 data =
     concat (map bytes_be64 (take 6 (hash_run sha512_transform 128 112 put_bits_be128 sha384_init buffer0 data)))"

section \<open>The standards' description\<close>

text \<open>A message cut into blocks, and its padding: a \<open>1\<close> bit, zeros and the length field.\<close>

fun blocks :: "nat \<Rightarrow> 'a list \<Rightarrow> 'a list list" where
  "blocks n xs = (if n = 0 \<or> xs = [] then [] else take n xs # blocks n (drop n xs))"

declare blocks.simps [simp del]

definition pad_zeros :: "nat \<Rightarrow> nat \<Rightarrow> nat \<Rightarrow> nat" where
  "pad_zeros blk lenpos n = (blk + lenpos - (n + 1) mod blk) mod blk"

definition pad_message :: "nat \<Rightarrow> nat \<Rightarrow> bytes \<Rightarrow> bytes \<Rightarrow> bytes" where
  "pad_message blk lenpos lenfield data = data @ 0x80 # replicate (pad_zeros blk lenpos (length data)) 0 @ lenfield"

lemma blocks_Nil [simp]: "blocks n [] = []"
  by (simp add: blocks.simps)

lemma blocks_one: "0 < n \<Longrightarrow> length xs = n \<Longrightarrow> blocks n xs = [xs]"
  by (subst blocks.simps) auto

lemma blocks_append: "0 < n \<Longrightarrow> n dvd length xs \<Longrightarrow> blocks n (xs @ ys) = blocks n xs @ blocks n ys"
proof (induction n xs rule: blocks.induct)
  case (1 n xs)
  show ?case
  proof (cases "xs = []")
    case False
    then have n: "n \<le> length xs" "0 < length xs" using "1.prems" by (auto dest: dvd_imp_le)
    then have "blocks n (xs @ ys) = take n xs # blocks n (drop n xs @ ys)"
      using False "1.prems" by (subst blocks.simps) simp
    also have "\<dots> = take n xs # blocks n (drop n xs) @ blocks n ys"
      using "1.IH" False "1.prems" n by (auto simp: dvd_diff_nat)
    finally show ?thesis using False "1.prems" by (subst blocks.simps [of n xs]) simp
  qed simp
qed

lemma pad_zeros_least:
  assumes "lenpos < blk"
  shows "(n + 1 + pad_zeros blk lenpos n) mod blk = lenpos" "pad_zeros blk lenpos n < blk"
    "(n + 1 + k) mod blk = lenpos \<Longrightarrow> pad_zeros blk lenpos n \<le> k"
proof -
  have "(n + 1) mod blk < blk" using assms by simp
  then have e: "(n + 1) mod blk + (blk + lenpos - (n + 1) mod blk) = blk + lenpos" by simp
  have "(n + 1 + pad_zeros blk lenpos n) mod blk = ((n + 1) mod blk + (blk + lenpos - (n + 1) mod blk)) mod blk"
    unfolding pad_zeros_def by (simp only: mod_add_right_eq mod_add_left_eq)
  then show a: "(n + 1 + pad_zeros blk lenpos n) mod blk = lenpos" unfolding e using assms by simp
  show b: "pad_zeros blk lenpos n < blk" unfolding pad_zeros_def using assms by simp
  show "pad_zeros blk lenpos n \<le> k" if "(n + 1 + k) mod blk = lenpos"
  proof (rule ccontr)
    assume "\<not> pad_zeros blk lenpos n \<le> k"
    then have k: "k < pad_zeros blk lenpos n" by simp
    have "blk dvd (n + 1 + pad_zeros blk lenpos n) - (n + 1 + k)" using that a k by (intro mod_eq_dvd_iff_nat [THEN iffD1]) auto
    then show False using k b by (auto dest: dvd_imp_le)
  qed
qed

lemma length_pad_message: "lenpos < blk \<Longrightarrow> length l = blk - lenpos \<Longrightarrow> blk dvd length (pad_message blk lenpos l data)"
proof -
  assume a: "lenpos < blk" "length l = blk - lenpos"
  have "(length data + 1 + pad_zeros blk lenpos (length data) + (blk - lenpos)) mod blk = (lenpos + (blk - lenpos)) mod blk"
    using pad_zeros_least(1) [OF a(1), of "length data"] by (metis mod_add_left_eq)
  then show ?thesis using a by (simp add: pad_message_def dvd_eq_mod_eq_0 add.assoc)
qed

section \<open>The buffering loop\<close>

lemma zero_fill_eq: "limit \<le> length buffer \<Longrightarrow> offset \<le> limit \<Longrightarrow> zero_fill limit buffer offset = take offset buffer @ replicate (limit - offset) 0 @ drop limit buffer"
proof (induction limit buffer offset rule: zero_fill.induct)
  case (1 limit buffer offset)
  show ?case
  proof (cases "offset < limit")
    case True
    have "limit - offset = Suc (limit - Suc offset)" using True by simp
    with 1 True show ?thesis
      by (subst zero_fill.simps) (simp add: take_Suc_conv_app_nth drop_update_cancel)
  next
    case False
    with 1 show ?thesis by (subst zero_fill.simps) simp
  qed
qed

locale block_hash =
  fixes tr :: "'s \<Rightarrow> bytes \<Rightarrow> 's"
    and blk lenpos limit :: nat
    and put_length :: "nat \<Rightarrow> bytes \<Rightarrow> bytes"
    and lenfield :: "nat \<Rightarrow> bytes"
  assumes lenpos: "0 < lenpos" "lenpos < blk"
    and length_lenfield: "length (lenfield n) = blk - lenpos"
    and put_length: "length b = blk \<Longrightarrow> n < limit \<Longrightarrow> put_length n b = take lenpos b @ lenfield n"
begin

definition absorbed :: "'s \<Rightarrow> bytes \<Rightarrow> 's hasher \<Rightarrow> bool" where
  "absorbed s0 data h \<longleftrightarrow> (\<exists>full rest. data = full @ rest \<and> blk dvd length full \<and> length rest < blk \<and>
     length (hs_buffer h) = blk \<and> hs_offset h = length rest \<and> take (hs_offset h) (hs_buffer h) = rest \<and>
     hs_state h = fold (\<lambda>b s. tr s b) (blocks blk full) s0)"

lemma absorbed_byte: "absorbed s0 data h \<Longrightarrow> absorbed s0 (data @ [c]) (hash_byte tr blk c h)"
proof -
  assume "absorbed s0 data h"
  then obtain full rest where d: "data = full @ rest" "blk dvd length full" "length rest < blk" "length (hs_buffer h) = blk"
    "hs_offset h = length rest" "take (hs_offset h) (hs_buffer h) = rest" "hs_state h = fold (\<lambda>b s. tr s b) (blocks blk full) s0"
    unfolding absorbed_def by blast
  have t: "take (Suc (length rest)) ((hs_buffer h)[length rest := c]) = rest @ [c]"
    using d by (simp add: take_Suc_conv_app_nth)
  have pos: "0 < blk" using lenpos by simp
  show ?thesis
  proof (cases "Suc (length rest) = blk")
    case True
    have b: "(hs_buffer h)[length rest := c] = rest @ [c]" using t True d(4) by simp
    have "blocks blk (full @ rest @ [c]) = blocks blk full @ [rest @ [c]]"
      using blocks_append [OF pos d(2)] blocks_one [OF pos, of "rest @ [c]"] True by simp
    moreover have "blk dvd length (full @ rest @ [c])" using dvd_add [OF d(2) dvd_refl] True by simp
    ultimately show ?thesis unfolding absorbed_def
      by (intro exI [of _ "full @ rest @ [c]"] exI [of _ "[]"]) (use d True b pos in \<open>simp add: hash_byte_def Let_def\<close>)
  next
    case False
    then show ?thesis unfolding absorbed_def
      by (intro exI [of _ full] exI [of _ "rest @ [c]"]) (use d t in \<open>auto simp: hash_byte_def Let_def\<close>)
  qed
qed

lemma absorbed_fold: "absorbed s0 data h \<Longrightarrow> absorbed s0 (data @ bs) (fold (hash_byte tr blk) bs h)"
proof (induction bs arbitrary: data h)
  case (Cons c bs)
  from Cons.IH [OF absorbed_byte [OF Cons.prems, of c]] show ?case by simp
qed simp

lemma finish:
  assumes "absorbed s0 data h" and limit: "length data < limit"
  shows "hash_finish tr blk lenpos (put_length (length data)) h
       = fold (\<lambda>b s. tr s b) (blocks blk (pad_message blk lenpos (lenfield (length data)) data)) s0"
proof -
  obtain full rest where d: "data = full @ rest" "blk dvd length full" "length rest < blk" "length (hs_buffer h) = blk"
    "hs_offset h = length rest" "take (hs_offset h) (hs_buffer h) = rest" "hs_state h = fold (\<lambda>b s. tr s b) (blocks blk full) s0"
    using assms(1) unfolding absorbed_def by blast
  define l where "l = lenfield (length data)"
  define buf where "buf = (hs_buffer h)[length rest := 0x80]"
  have pos: "0 < blk" using lenpos by simp
  have buf: "length buf = blk" "take (Suc (length rest)) buf = rest @ [0x80]"
    using d by (simp_all add: buf_def take_Suc_conv_app_nth)
  have l: "length l = blk - lenpos" unfolding l_def by (rule length_lenfield)
  have m: "(length data + 1) mod blk = (length rest + 1) mod blk" using d(1,2) by (auto elim!: dvdE simp: mod_simps)
  show ?thesis
  proof (cases "Suc (length rest) > lenpos")
    case True
    have k: "pad_zeros blk lenpos (length data) = (blk - Suc (length rest)) + lenpos"
    proof (cases "Suc (length rest) = blk")
      case True
      then show ?thesis unfolding pad_zeros_def m using lenpos by simp
    next
      case False
      then have "(length rest + 1) mod blk = length rest + 1" using d(3) by simp
      then show ?thesis unfolding pad_zeros_def m using lenpos True d(3) by simp
    qed
    define one where "one = rest @ 0x80 # replicate (blk - Suc (length rest)) 0"
    have z: "zero_fill blk buf (Suc (length rest)) = one"
      using d(3) buf unfolding one_def by (subst zero_fill_eq) auto
    have o: "length one = blk" unfolding one_def using d(3) by simp
    have two: "put_length (length data) (zero_fill lenpos one 0) = replicate lenpos 0 @ l"
      using o lenpos unfolding l_def by (subst put_length [OF _ limit]) (auto simp: zero_fill_eq)
    have "pad_message blk lenpos l data = full @ one @ replicate lenpos 0 @ l"
      unfolding pad_message_def k unfolding d(1) one_def by (simp add: replicate_add)
    then have "blocks blk (pad_message blk lenpos l data) = blocks blk full @ [one, replicate lenpos 0 @ l]"
      using blocks_append [OF pos d(2)] blocks_append [OF pos, of one] blocks_one [OF pos o]
        blocks_one [OF pos, of "replicate lenpos 0 @ l"] o l lenpos by simp
    then show ?thesis using True z two d(5,7) unfolding hash_finish_def l_def [symmetric] buf_def [symmetric]
      by (simp add: Let_def buf_def)
  next
    case False
    then have "(length rest + 1) mod blk = length rest + 1" using lenpos by simp
    then have k: "pad_zeros blk lenpos (length data) = lenpos - Suc (length rest)"
      unfolding pad_zeros_def m using lenpos False by (simp add: mod_if)
    define last where "last = rest @ 0x80 # replicate (lenpos - Suc (length rest)) 0 @ l"
    have "zero_fill lenpos buf (Suc (length rest)) = rest @ 0x80 # replicate (lenpos - Suc (length rest)) 0 @ drop lenpos buf"
      using False buf lenpos by (subst zero_fill_eq) auto
    then have z: "put_length (length data) (zero_fill lenpos buf (Suc (length rest))) = last"
      using False buf lenpos Suc_diff_Suc [of "length rest" lenpos] unfolding last_def l_def
      by (subst put_length [OF _ limit]) (auto simp flip: Suc_diff_Suc)
    have o: "length last = blk" unfolding last_def using False lenpos l by simp
    have "blocks blk (pad_message blk lenpos l data) = blocks blk full @ [last]"
      unfolding pad_message_def k unfolding d(1) using blocks_append [OF pos d(2)] blocks_one [OF pos o] by (simp add: last_def)
    then show ?thesis using False z d(5,7) unfolding hash_finish_def l_def [symmetric]
      by (simp add: Let_def buf_def)
  qed
qed

lemma run:
  "length buffer0 = blk \<Longrightarrow> length data < limit \<Longrightarrow> hash_run tr blk lenpos put_length s0 buffer0 data
     = fold (\<lambda>b s. tr s b) (blocks blk (pad_message blk lenpos (lenfield (length data)) data)) s0"
proof -
  assume b: "length buffer0 = blk" and n: "length data < limit"
  from b have "absorbed s0 [] \<lparr>hs_state = s0, hs_buffer = buffer0, hs_offset = 0\<rparr>"
    unfolding absorbed_def using lenpos by simp
  from finish [OF absorbed_fold [OF this, of data, simplified] n] show ?thesis unfolding hash_run_def .
qed

end

section \<open>Compression as the standards describe it\<close>

text \<open>MD5 as one loop over 64 rounds with rotating registers (RFC 1321).\<close>

definition md5_table :: "u32 list" where
  "md5_table = concat
    [[0xD76AA478, 0xE8C7B756, 0x242070DB, 0xC1BDCEEE, 0xF57C0FAF, 0x4787C62A, 0xA8304613, 0xFD469501],
     [0x698098D8, 0x8B44F7AF, 0xFFFF5BB1, 0x895CD7BE, 0x6B901122, 0xFD987193, 0xA679438E, 0x49B40821],
     [0xF61E2562, 0xC040B340, 0x265E5A51, 0xE9B6C7AA, 0xD62F105D, 0x02441453, 0xD8A1E681, 0xE7D3FBC8],
     [0x21E1CDE6, 0xC33707D6, 0xF4D50D87, 0x455A14ED, 0xA9E3E905, 0xFCEFA3F8, 0x676F02D9, 0x8D2A4C8A],
     [0xFFFA3942, 0x8771F681, 0x6D9D6122, 0xFDE5380C, 0xA4BEEA44, 0x4BDECFA9, 0xF6BB4B60, 0xBEBFBC70],
     [0x289B7EC6, 0xEAA127FA, 0xD4EF3085, 0x04881D05, 0xD9D4D039, 0xE6DB99E5, 0x1FA27CF8, 0xC4AC5665],
     [0xF4292244, 0x432AFF97, 0xAB9423A7, 0xFC93A039, 0x655B59C3, 0x8F0CCC92, 0xFFEFF47D, 0x85845DD1],
     [0x6FA87E4F, 0xFE2CE6E0, 0xA3014314, 0x4E0811A1, 0xF7537E82, 0xBD3AF235, 0x2AD7D2BB, 0xEB86D391]]"

definition md5_shift :: "nat \<Rightarrow> nat" where
  "md5_shift i = [[7, 12, 17, 22], [5, 9, 14, 20], [4, 11, 16, 23], [6, 10, 15, 21]] ! (i div 16) ! (i mod 4)"

definition md5_index :: "nat \<Rightarrow> nat" where
  "md5_index i = (if i < 16 then i else if i < 32 then (5 * i + 1) mod 16 else if i < 48 then (3 * i + 5) mod 16 else 7 * i mod 16)"

definition md5_mix :: "nat \<Rightarrow> u32 \<Rightarrow> u32 \<Rightarrow> u32 \<Rightarrow> u32" where
  "md5_mix i = (if i < 16 then md5_F else if i < 32 then md5_G else if i < 48 then md5_H else md5_I)"

definition md5_value :: "u32 list \<Rightarrow> nat \<Rightarrow> u32 \<Rightarrow> u32 \<Rightarrow> u32 \<Rightarrow> u32 \<Rightarrow> u32" where
  "md5_value x i a b c d = b + ROTL32 (a + md5_mix i b c d + x ! md5_index i + md5_table ! i) (md5_shift i)"

function md5_loop :: "u32 list \<Rightarrow> nat \<Rightarrow> u32 \<times> u32 \<times> u32 \<times> u32 \<Rightarrow> u32 \<times> u32 \<times> u32 \<times> u32" where
  "md5_loop x i (a, b, c, d) = (if i < 64 then md5_loop x (i + 1) (d, md5_value x i a b c d, b, c) else (a, b, c, d))"
  by pat_completeness auto

termination md5_loop
  by (relation "measure (\<lambda>(x, i, r). 64 - i)") auto

declare md5_loop.simps [simp del]

definition md5_compress :: "u32 list \<Rightarrow> bytes \<Rightarrow> u32 list" where
  "md5_compress state block =
     (let (a, b, c, d) = md5_loop (map (le32 block) [0..<16]) 0 (state ! 0, state ! 1, state ! 2, state ! 3)
      in [state ! 0 + a, state ! 1 + b, state ! 2 + c, state ! 3 + d])"

lemma md5_unroll:
  assumes "i < 64" "E = md5_value x i a b c d" "j = i + 1" "\<And>t. P t = K (md5_loop x j (d, t, b, c))"
  shows "Let E P = K (md5_loop x i (a, b, c, d))"
  using assms by (subst md5_loop.simps) (simp add: Let_def)

lemmas md5_row = md5_value_def md5_mix_def md5_index_def md5_shift_def md5_table_def FF_def GG_def HH_def II_def

lemma md5_transform_loop: "md5_transform state block = md5_compress state block"
proof -
  let ?x = "map (le32 block) [0..<16]"
  define K where "K = (\<lambda>(a, b, c, d). [state ! 0 + a, state ! 1 + b, state ! 2 + c, state ! 3 + d :: u32])"
  have body: "md5_transform state block = K (md5_loop ?x 0 (state ! 0, state ! 1, state ! 2, state ! 3))"
    unfolding md5_transform_def
    apply (subst Let_def [of "state ! 0"], subst Let_def [of "state ! 1"], subst Let_def [of "state ! 2"], subst Let_def [of "state ! 3"], subst Let_def [of ?x])
    by (rule md5_unroll [where K = K], simp, simp add: md5_row, simp only: add_0_left one_add_one numeral_plus_one semiring_norm)+
      (simp add: K_def md5_loop.simps)
  show ?thesis unfolding body md5_compress_def K_def by (simp add: Let_def)
qed

text \<open>The rotation macros are rotations.\<close>

lemma rotate_right: "drop_bit n x OR push_bit (LENGTH('a) - n) x = word_rotr n x" if "n < LENGTH('a)" for x :: "'a::len word"
proof (rule bit_word_eqI)
  fix i assume i: "i < LENGTH('a)"
  show "bit (drop_bit n x OR push_bit (LENGTH('a) - n) x) i = bit (word_rotr n x) i"
  proof (cases "n + i < LENGTH('a)")
    case True
    then show ?thesis using i that by (auto simp: bit_simps ac_simps)
  next
    case False
    then have "(n + i) mod LENGTH('a) = i - (LENGTH('a) - n)" using i that by (subst mod_if) auto
    then show ?thesis using False i that bit_imp_le_length [of x "n + i"] by (auto simp: bit_simps ac_simps)
  qed
qed

lemma rotate_left: "push_bit n x OR drop_bit (LENGTH('a) - n) x = word_rotl n x" if "0 < n" "n < LENGTH('a)" for x :: "'a::len word"
  using rotate_right [of "LENGTH('a) - n" x] that by (simp add: word_rotl_eq_word_rotr or.commute)

lemma ROTL32_eq: "0 < n \<Longrightarrow> n < 32 \<Longrightarrow> ROTL32 x n = word_rotl n x"
  using rotate_left [where 'a = 32] by (simp add: ROTL32_def)

lemma ROTR32_eq: "n < 32 \<Longrightarrow> ROTR32 x n = word_rotr n x"
  using rotate_right [where 'a = 32] by (simp add: ROTR32_def)

lemma ROTR64_eq: "n < 64 \<Longrightarrow> ROTR64 x n = word_rotr n x"
  using rotate_right [where 'a = 64] by (simp add: ROTR64_def)

text \<open>
  A message schedule is a list that starts with the words of the block and is extended by one word at a
  time; a standard gives its words by a recurrence. The contract is that one extension follows it.
\<close>

locale message_schedule =
  fixes expand :: "nat \<Rightarrow> 'w list \<Rightarrow> 'w list"
    and load :: "bytes \<Rightarrow> nat \<Rightarrow> 'w"
    and W :: "bytes \<Rightarrow> nat \<Rightarrow> 'w"
  assumes W_load: "t < 16 \<Longrightarrow> W block t = load block t"
    and W_expand: "16 \<le> t \<Longrightarrow> w = map (W block) [0..<t] \<Longrightarrow> expand t w = w @ [W block t]"
begin

lemma schedule: "16 \<le> n \<Longrightarrow> fold expand [16..<n] (map (load block) [0..<16]) = map (W block) [0..<n]"
proof (induction n rule: dec_induct)
  case base
  show ?case by (auto simp: W_load)
next
  case (step n)
  then show ?case using W_expand [OF step.hyps(1) refl] by simp
qed

end

text \<open>The SHA-1 functions and round of the standard.\<close>

fun sha1_W :: "bytes \<Rightarrow> nat \<Rightarrow> u32" where
  "sha1_W block t =
     (if t < 16 then be32 block t
      else word_rotl 1 (sha1_W block (t - 3) XOR sha1_W block (t - 8) XOR sha1_W block (t - 14) XOR sha1_W block (t - 16)))"

declare sha1_W.simps [simp del]

definition sha1_ft :: "nat \<Rightarrow> u32 \<Rightarrow> u32 \<Rightarrow> u32 \<Rightarrow> u32" where
  "sha1_ft t x y z =
     (if t \<le> 19 then (x AND y) XOR (NOT x AND z)
      else if 40 \<le> t \<and> t \<le> 59 then (x AND y) XOR (x AND z) XOR (y AND z)
      else x XOR y XOR z)"

definition sha1_Kt :: "nat \<Rightarrow> u32" where
  "sha1_Kt t = [0x5A827999, 0x6ED9EBA1, 0x8F1BBCDC, 0xCA62C1D6] ! (t div 20)"

definition sha1_step :: "bytes \<Rightarrow> nat \<Rightarrow> u32 \<times> u32 \<times> u32 \<times> u32 \<times> u32 \<Rightarrow> u32 \<times> u32 \<times> u32 \<times> u32 \<times> u32" where
  "sha1_step block t = (\<lambda>(a, b, c, d, e).
     (word_rotl 5 a + sha1_ft t b c d + e + sha1_Kt t + sha1_W block t, a, word_rotl 30 b, c, d))"

definition sha1_compress :: "u32 list \<Rightarrow> bytes \<Rightarrow> u32 list" where
  "sha1_compress H block =
     (let (a, b, c, d, e) = fold (sha1_step block) [0..<80] (H ! 0, H ! 1, H ! 2, H ! 3, H ! 4)
      in [a + H ! 0, b + H ! 1, c + H ! 2, d + H ! 3, e + H ! 4])"

text \<open>The SHA-2 functions, for either word size.\<close>

definition sha2_Sigma :: "nat \<Rightarrow> nat \<Rightarrow> nat \<Rightarrow> 'a::len word \<Rightarrow> 'a word" where
  "sha2_Sigma i j k x = word_rotr i x XOR word_rotr j x XOR word_rotr k x"

definition sha2_sigma :: "nat \<Rightarrow> nat \<Rightarrow> nat \<Rightarrow> 'a::len word \<Rightarrow> 'a word" where
  "sha2_sigma i j k x = word_rotr i x XOR word_rotr j x XOR drop_bit k x"

fun sha256_W :: "bytes \<Rightarrow> nat \<Rightarrow> u32" where
  "sha256_W block t =
     (if t < 16 then be32 block t
      else sha2_sigma 17 19 10 (sha256_W block (t - 2)) + sha256_W block (t - 7)
         + sha2_sigma 7 18 3 (sha256_W block (t - 15)) + sha256_W block (t - 16))"

fun sha512_W :: "bytes \<Rightarrow> nat \<Rightarrow> u64" where
  "sha512_W block t =
     (if t < 16 then be64 block t
      else sha2_sigma 19 61 6 (sha512_W block (t - 2)) + sha512_W block (t - 7)
         + sha2_sigma 1 8 7 (sha512_W block (t - 15)) + sha512_W block (t - 16))"

declare sha256_W.simps [simp del] sha512_W.simps [simp del]

definition sha2_step :: "('a::len word \<Rightarrow> 'a word) \<Rightarrow> ('a word \<Rightarrow> 'a word) \<Rightarrow> (nat \<Rightarrow> 'a word) \<Rightarrow> (nat \<Rightarrow> 'a word) \<Rightarrow>
    nat \<Rightarrow> 'a word regs8 \<Rightarrow> 'a word regs8" where
  "sha2_step S0 S1 K W t = (\<lambda>(a, b, c, d, e, f, g, h).
     let t1 = h + S1 e + ((e AND f) XOR (NOT e AND g)) + K t + W t;
         t2 = S0 a + ((a AND b) XOR (a AND c) XOR (b AND c))
     in (t1 + t2, a, b, c, d + t1, e, f, g))"

definition add_regs :: "'a::plus list \<Rightarrow> 'a regs8 \<Rightarrow> 'a list" where
  "add_regs H = (\<lambda>(a, b, c, d, e, f, g, h). 
     [H ! 0 + a, H ! 1 + b, H ! 2 + c, H ! 3 + d, H ! 4 + e, H ! 5 + f, H ! 6 + g, H ! 7 + h])"

definition sha256_compress :: "u32 list \<Rightarrow> bytes \<Rightarrow> u32 list" where
  "sha256_compress H block =
     add_regs H (fold (sha2_step (sha2_Sigma 2 13 22) (sha2_Sigma 6 11 25) (nth k_sha256) (sha256_W block)) [0..<64] (regs_of H))"

definition sha512_compress :: "u64 list \<Rightarrow> bytes \<Rightarrow> u64 list" where
  "sha512_compress H block =
     add_regs H (fold (sha2_step (sha2_Sigma 28 34 39) (sha2_Sigma 14 18 41) (nth k_sha512) (sha512_W block)) [0..<80] (regs_of H))"

interpretation sha1_words: message_schedule sha1_expand be32 sha1_W
  by unfold_locales (auto simp: sha1_expand_def ROTL32_eq sha1_W.simps [of _ t for t] ac_simps)

interpretation sha256_words: message_schedule sha256_expand be32 sha256_W
  by unfold_locales (auto simp: sha256_expand_def SIG0_def SIG1_def ROTR32_eq sha2_sigma_def sha256_W.simps [of _ t for t])

interpretation sha512_words: message_schedule sha512_expand be64 sha512_W
  by unfold_locales (auto simp: sha512_expand_def SIG0_64_def SIG1_64_def ROTR64_eq sha2_sigma_def sha512_W.simps [of _ t for t])

lemma choose_or: "(x AND y) OR (NOT x AND z) = (x AND y) XOR (NOT x AND z)" for x :: "'a::len word"
  by (rule bit_word_eqI) (auto simp: bit_simps)

lemma majority_or: "(x AND y) OR (x AND z) OR (y AND z) = (x AND y) XOR (x AND z) XOR (y AND z)" for x :: "'a::len word"
  by (rule bit_word_eqI) (auto simp: bit_simps)

lemma sha1_f_eq: "i < 80 \<Longrightarrow> sha1_f i b c d = sha1_ft i b c d + sha1_Kt i"
proof -
  assume "i < 80"
  then consider "i < 20" | "20 \<le> i" "i < 40" | "40 \<le> i" "i < 60" | "60 \<le> i" "i < 80" by linarith
  then show ?thesis
  proof cases
    case 1 then show ?thesis by (simp add: sha1_f_def sha1_ft_def sha1_Kt_def choose_or)
  next
    case 2 then have "i div 20 = 1" by simp
    with 2 show ?thesis by (simp add: sha1_f_def sha1_ft_def sha1_Kt_def)
  next
    case 3 then have "i div 20 = 2" by simp
    with 3 show ?thesis by (simp add: sha1_f_def sha1_ft_def sha1_Kt_def majority_or)
  next
    case 4 then have "i div 20 = 3" by simp
    with 4 show ?thesis by (simp add: sha1_f_def sha1_ft_def sha1_Kt_def)
  qed
qed

lemma sha1_transform_eq: "sha1_transform state block = sha1_compress state block"
proof -
  have "sha1_round (sha1_schedule block) i r = sha1_step block i r" if "i \<in> set [0..<80]" for i r
    using that sha1_words.schedule [of 80 block]
    by (cases r) (simp add: sha1_round_def sha1_step_def sha1_schedule_def sha1_f_eq ROTL32_eq algebra_simps del: upt_Suc)
  then have "fold (sha1_round (sha1_schedule block)) [0..<80] r = fold (sha1_step block) [0..<80] r" for r
    by (intro fold_cong) auto
  then show ?thesis by (simp add: sha1_transform_def sha1_compress_def Let_def add.commute del: upt_Suc split: prod.split)
qed

lemma sha256_transform_eq: "sha256_transform state block = sha256_compress state block"
proof -
  have "sha256_round (sha256_schedule block) i r
      = sha2_step (sha2_Sigma 2 13 22) (sha2_Sigma 6 11 25) (nth k_sha256) (sha256_W block) i r" if "i \<in> set [0..<64]" for i r
    using that sha256_words.schedule [of 64 block]
    by (cases r) (simp add: sha256_round_def sha2_step_def sha256_schedule_def CH_def MAJ_def EP0_def EP1_def sha2_Sigma_def ROTR32_eq del: upt_Suc)
  then have "fold (sha256_round (sha256_schedule block)) [0..<64] r
      = fold (sha2_step (sha2_Sigma 2 13 22) (sha2_Sigma 6 11 25) (nth k_sha256) (sha256_W block)) [0..<64] r" for r
    by (intro fold_cong) auto
  then show ?thesis by (simp add: sha256_transform_def sha256_compress_def add_regs_def Let_def del: upt_Suc split: prod.split)
qed

lemma sha512_transform_eq: "sha512_transform state block = sha512_compress state block"
proof -
  have "sha512_round (sha512_schedule block) i r
      = sha2_step (sha2_Sigma 28 34 39) (sha2_Sigma 14 18 41) (nth k_sha512) (sha512_W block) i r" if "i \<in> set [0..<80]" for i r
    using that sha512_words.schedule [of 80 block]
    by (cases r) (simp add: sha512_round_def sha2_step_def sha512_schedule_def CH64_def MAJ64_def EP0_64_def EP1_64_def sha2_Sigma_def ROTR64_eq del: upt_Suc)
  then have "fold (sha512_round (sha512_schedule block)) [0..<80] r
      = fold (sha2_step (sha2_Sigma 28 34 39) (sha2_Sigma 14 18 41) (nth k_sha512) (sha512_W block)) [0..<80] r" for r
    by (intro fold_cong) auto
  then show ?thesis by (simp add: sha512_transform_def sha512_compress_def add_regs_def Let_def del: upt_Suc split: prod.split)
qed

section \<open>The length fields\<close>

text \<open>The number of bits of a message of \<open>n\<close> bytes, as the standards store it.\<close>

definition bits_le :: "nat \<Rightarrow> bytes" where
  "bits_le n = map (\<lambda>i. of_nat (8 * n div 256 ^ i)) [0..<8]"

definition bits_be :: "nat \<Rightarrow> nat \<Rightarrow> bytes" where
  "bits_be k n = map (\<lambda>i. of_nat (8 * n div 256 ^ i)) (rev [0..<k])"

lemma bit_of_nat: "bit (of_nat m :: 'a::len word) n \<longleftrightarrow> n < LENGTH('a) \<and> bit m n"
  using bit_unat [of "of_nat m :: 'a word" n] by (simp add: unat_of_nat bit_take_bit_iff flip: take_bit_eq_mod)

lemma byte_of_bits: "i < 8 \<Longrightarrow> ucast (drop_bit (i * 8) (of_nat m :: u64) AND 0xFF) = (of_nat (m div 256 ^ i) :: u8)"
proof (rule bit_word_eqI)
  fix n assume i: "i < 8" and n: "n < LENGTH(8)"
  have "(256 :: nat) ^ i = 2 ^ (8 * i)" by (simp add: power_mult)
  then have "bit (m div 256 ^ i) n = bit m (8 * i + n)" by (simp add: bit_drop_bit_eq flip: drop_bit_eq_div)
  moreover have "bit (0xFF :: u64) n" using n bit_mask_iff [of 8 n, where 'a = u64] by (simp add: mask_numeral)
  ultimately show "bit (ucast (drop_bit (i * 8) (of_nat m :: u64) AND 0xFF) :: u8) n = bit (of_nat (m div 256 ^ i) :: u8) n"
    using i n by (auto simp: bit_simps bit_of_nat ac_simps)
qed

lemma fold_put: "p + k \<le> length b \<Longrightarrow> fold (\<lambda>i b. b[p + i := f i]) [0..<k] b = take p b @ map f [0..<k] @ drop (p + k) b"
proof (induction k)
  case (Suc k)
  then have "fold (\<lambda>i b. b[p + i := f i]) [0..<Suc k] b = (take p b @ map f [0..<k] @ drop (p + k) b)[p + k := f k]" by simp
  also have "\<dots> = take p b @ map f [0..<k] @ (drop (p + k) b)[0 := f k]" using Suc.prems by (simp add: list_update_append min_def)
  also have "drop (p + k) b = b ! (p + k) # drop (p + Suc k) b" using Suc.prems by (simp add: Cons_nth_drop_Suc)
  finally show ?case by simp
qed simp

lemma bits_word: "of_nat len * 8 = (of_nat (8 * len) :: u64)"
  by (simp add: ac_simps)

lemma rev_upt8: "map (\<lambda>i. f (7 - i)) [0..<8] = map f (rev [0..<8])"
  by (simp add: upt_rec numeral_eq_Suc)

lemma put_bits_le_eq: "length b = 64 \<Longrightarrow> put_bits_le n b = take 56 b @ bits_le n"
  unfolding put_bits_le_def Let_def bits_word bits_le_def by (subst fold_put) (auto simp: byte_of_bits simp del: of_nat_mult)

lemma put_bits_be_eq: "length b = 64 \<Longrightarrow> put_bits_be n b = take 56 b @ bits_be 8 n"
  unfolding put_bits_be_def Let_def bits_word bits_be_def rev_upt8 [symmetric]
  by (subst fold_put) (auto simp: byte_of_bits simp del: of_nat_mult)

lemma bits_high: "n < 2 ^ 64 \<Longrightarrow> drop_bit 61 (of_nat n :: u64) = of_nat (8 * n div 256 ^ 8)"
proof -
  assume "n < 2 ^ 64"
  then have "unat (drop_bit 61 (of_nat n :: u64)) = n div 2 ^ 61"
    unfolding unat_drop_bit_eq by (simp add: unat_of_nat take_bit_nat_eq_self drop_bit_eq_div)
  then have "drop_bit 61 (of_nat n :: u64) = of_nat (n div 2 ^ 61)" by (metis of_nat_unat ucast_id)
  moreover have "n div 2 ^ 61 = 8 * n div 256 ^ 8" by simp
  ultimately show ?thesis by simp
qed

lemma put_bits_be128_eq:
  assumes "length b = 128" "n < 2 ^ 64"
  shows "put_bits_be128 n b = take 112 b @ bits_be 16 n"
proof -
  have "rev [0..<16] = map ((+) 8) (rev [0..<8]) @ rev [0..<8]" by (simp add: upt_rec)
  then have s: "bits_be 16 n = map (\<lambda>i. of_nat (8 * n div 256 ^ 8 div 256 ^ i)) (rev [0..<8]) @ bits_be 8 n"
    by (simp add: bits_be_def comp_def power_add div_mult2_eq del: upt_Suc)
  define hi where "hi = map (\<lambda>i. of_nat (8 * n div 256 ^ 8 div 256 ^ (7 - i)) :: u8) [0..<8]"
  define lo where "lo = map (\<lambda>i. of_nat (8 * n div 256 ^ (7 - i)) :: u8) [0..<8]"
  have "fold (\<lambda>i b. b[112 + i := ucast (drop_bit ((7 - i) * 8) (of_nat (8 * n div 256 ^ 8) :: u64) AND 0xFF)]) [0..<8] b
      = take 112 b @ hi @ drop 120 b"
    unfolding hi_def using assms(1) by (subst fold_put) (auto simp: byte_of_bits simp del: of_nat_mult)
  moreover have "fold (\<lambda>i b. b[120 + i := ucast (drop_bit ((7 - i) * 8) (of_nat (8 * n) :: u64) AND 0xFF)]) [0..<8] (take 112 b @ hi @ drop 120 b)
      = take 112 b @ hi @ lo"
    unfolding lo_def using assms(1) by (subst fold_put) (auto simp: byte_of_bits hi_def simp del: of_nat_mult)
  moreover have "hi @ lo = bits_be 16 n"
    unfolding s unfolding hi_def lo_def bits_be_def
    using rev_upt8 [of "\<lambda>i. of_nat (8 * n div 256 ^ 8 div 256 ^ i) :: u8"] rev_upt8 [of "\<lambda>i. of_nat (8 * n div 256 ^ i) :: u8"] by (simp only:)
  ultimately show ?thesis
    unfolding put_bits_be128_def Let_def bits_high [OF assms(2)] bits_word by simp
qed

section \<open>Digests\<close>

interpretation md5_hash: block_hash md5_transform 64 56 "2 ^ 64" put_bits_le bits_le
  by unfold_locales (simp_all add: put_bits_le_eq bits_le_def)

interpretation sha1_hash: block_hash sha1_transform 64 56 "2 ^ 64" put_bits_be "bits_be 8"
  by unfold_locales (simp_all add: put_bits_be_eq bits_be_def)

interpretation sha256_hash: block_hash sha256_transform 64 56 "2 ^ 64" put_bits_be "bits_be 8"
  by unfold_locales (simp_all add: put_bits_be_eq bits_be_def)

interpretation sha512_hash: block_hash sha512_transform 128 112 "2 ^ 64" put_bits_be128 "bits_be 16"
  by unfold_locales (simp_all add: put_bits_be128_eq bits_be_def)

text \<open>A digest in the standards: the initial value compressed with every block of the padded message.\<close>

definition std_digest :: "('s list \<Rightarrow> bytes \<Rightarrow> 's list) \<Rightarrow> ('s \<Rightarrow> bytes) \<Rightarrow> nat \<Rightarrow> nat \<Rightarrow> nat \<Rightarrow> (nat \<Rightarrow> bytes) \<Rightarrow> 's list \<Rightarrow> bytes \<Rightarrow> bytes" where
  "std_digest compress out words blk lenpos lenfield H0 data =
     concat (map out (take words (foldl compress H0 (blocks blk (pad_message blk lenpos (lenfield (length data)) data)))))"

lemma length_foldl_state: "(\<And>s b. length (tr s b) = n) \<Longrightarrow> length s0 = n \<Longrightarrow> length (foldl tr s0 bs) = n"
  by (induction bs arbitrary: s0) auto

lemma length_transforms:
  "length (md5_transform s b) = 4" "length (sha1_transform s b) = 5" "length (sha256_transform s b) = 8" "length (sha512_transform s' b) = 8"
  by (simp_all add: md5_transform_loop md5_compress_def sha1_transform_def sha256_transform_def sha512_transform_def Let_def split: prod.split)

lemma transforms_eq: "md5_transform = md5_compress" "sha1_transform = sha1_compress" "sha256_transform = sha256_compress" "sha512_transform = sha512_compress"
  by (intro ext md5_transform_loop sha1_transform_eq sha256_transform_eq sha512_transform_eq)+

lemmas digest_defs = compute_md5_def compute_sha1_def compute_sha224_def compute_sha256_def compute_sha384_def compute_sha512_def

lemma digest_states:
  assumes "length data < 2 ^ 64" "length b64 = 64" "length b128 = 128"
  shows "hash_run md5_transform 64 56 put_bits_le s4 b64 data = foldl md5_transform s4 (blocks 64 (pad_message 64 56 (bits_le (length data)) data))"
    "hash_run sha1_transform 64 56 put_bits_be s4 b64 data = foldl sha1_transform s4 (blocks 64 (pad_message 64 56 (bits_be 8 (length data)) data))"
    "hash_run sha256_transform 64 56 put_bits_be s4 b64 data = foldl sha256_transform s4 (blocks 64 (pad_message 64 56 (bits_be 8 (length data)) data))"
    "hash_run sha512_transform 128 112 put_bits_be128 s8 b128 data = foldl sha512_transform s8 (blocks 128 (pad_message 128 112 (bits_be 16 (length data)) data))"
  using assms by (simp_all only: md5_hash.run sha1_hash.run sha256_hash.run sha512_hash.run foldl_conv_fold)

text \<open>The first eighty primes, and fractional parts of roots: the first \<open>b\<close> bits of the fractional part of the
  \<open>e\<close>-th root of \<open>p\<close> are \<open>k\<close>.\<close>

definition first_primes :: "int list" where
  "first_primes = [2, 3, 5, 7, 11, 13, 17, 19, 23, 29, 31, 37, 41, 43, 47, 53, 59, 61, 67, 71,
     73, 79, 83, 89, 97, 101, 103, 107, 109, 113, 127, 131, 137, 139, 149, 151, 157, 163, 167, 173,
     179, 181, 191, 193, 197, 199, 211, 223, 227, 229, 233, 239, 241, 251, 257, 263, 269, 271, 277, 281,
     283, 293, 307, 311, 313, 317, 331, 337, 347, 349, 353, 359, 367, 373, 379, 383, 389, 397, 401, 409]"

definition frac_root :: "nat \<Rightarrow> nat \<Rightarrow> int \<Rightarrow> int \<Rightarrow> bool" where
  "frac_root e b p k \<longleftrightarrow>
     (let n = last (filter (\<lambda>n. n ^ e \<le> p) [1, 2, 3, 4, 5, 6, 7]); x = n * 2 ^ b + k; y = p * 2 ^ (b * e)
      in 0 \<le> k \<and> k < 2 ^ b \<and> x ^ e \<le> y \<and> y < (x + 1) ^ e)"

lemma k_sha512_roots: "list_all2 (frac_root 3 64) first_primes (map uint k_sha512)"
  by code_simp

lemma sha512_init_roots: "list_all2 (frac_root 2 64) (take 8 first_primes) (map uint sha512_init)"
  by code_simp

lemma sha384_init_roots: "list_all2 (frac_root 2 64) (take 8 (drop 8 first_primes)) (map uint sha384_init)"
  by code_simp

lemma k_sha256_high: "k_sha256 = map (\<lambda>k. ucast (drop_bit 32 k)) (take 64 k_sha512)"
  by code_simp

lemma sha256_init_high: "sha256_init = map (\<lambda>k. ucast (drop_bit 32 k)) sha512_init"
  by code_simp

lemma sha224_init_low: "sha224_init = map ucast sha384_init"
  by code_simp

lemma digests_std:
  assumes "length data < 2 ^ 64" "length b64 = 64" "length b128 = 128"
  shows "compute_md5 b64 data = std_digest md5_compress bytes_le32 4 64 56 bits_le md5_init data
    \<and> compute_sha1 b64 data = std_digest sha1_compress bytes_be32 5 64 56 (bits_be 8) sha1_init data
    \<and> compute_sha224 b64 data = std_digest sha256_compress bytes_be32 7 64 56 (bits_be 8) sha224_init data
    \<and> compute_sha256 b64 data = std_digest sha256_compress bytes_be32 8 64 56 (bits_be 8) sha256_init data
    \<and> compute_sha384 b128 data = std_digest sha512_compress bytes_be64 6 128 112 (bits_be 16) sha384_init data
    \<and> compute_sha512 b128 data = std_digest sha512_compress bytes_be64 8 128 112 (bits_be 16) sha512_init data"
  unfolding digest_defs digest_states [OF assms] std_digest_def transforms_eq [symmetric]
  by (simp add: length_foldl_state [of md5_transform 4] length_foldl_state [of sha1_transform 5]
      length_foldl_state [of sha256_transform 8] length_foldl_state [of sha512_transform 8] length_transforms
      md5_init_def sha1_init_def sha256_init_def sha512_init_def)

lemma length_hash_run: "(\<And>s b. length (tr s b) = n) \<Longrightarrow> length (hash_run tr blk lenpos put s0 b0 data) = n"
  by (simp add: hash_run_def hash_finish_def Let_def split: prod.split)

lemma length_words: "length (concat (map bytes_le32 ws)) = 4 * length ws" "length (concat (map bytes_be32 ws)) = 4 * length ws"
  "length (concat (map bytes_be64 qs)) = 8 * length qs"
  by (induction ws, simp_all add: bytes_le32_def bytes_be32_def) (induction qs, simp_all add: bytes_be64_def)

lemma length_digests [simp]:
  "length (compute_md5 b data) = 16" "length (compute_sha1 b data) = 20" "length (compute_sha224 b data) = 28"
  "length (compute_sha256 b data) = 32" "length (compute_sha384 b data) = 48" "length (compute_sha512 b data) = 64"
  by (simp_all add: digest_defs length_words length_hash_run length_transforms)

text \<open>C24. Whatever the stack buffer holds on entry, the six digest functions compute the digests of their
  standards: the padded message, cut into blocks, is compressed block by block from the initial value and
  the first words of the result are the digest.\<close>

theorem digests_meet_standard:
  assumes "length data < 2 ^ 64" "length b64 = 64" "length b128 = 128"
  shows "compute_md5 b64 data = std_digest md5_compress bytes_le32 4 64 56 bits_le md5_init data
    \<and> compute_sha1 b64 data = std_digest sha1_compress bytes_be32 5 64 56 (bits_be 8) sha1_init data
    \<and> compute_sha224 b64 data = std_digest sha256_compress bytes_be32 7 64 56 (bits_be 8) sha224_init data
    \<and> compute_sha256 b64 data = std_digest sha256_compress bytes_be32 8 64 56 (bits_be 8) sha256_init data
    \<and> compute_sha384 b128 data = std_digest sha512_compress bytes_be64 6 128 112 (bits_be 16) sha384_init data
    \<and> compute_sha512 b128 data = std_digest sha512_compress bytes_be64 8 128 112 (bits_be 16) sha512_init data"
  by (rule digests_std [OF assms])

theorem digests_meet_standard_witness:
  "compute_sha256 (replicate 64 7) (replicate 60 0x61)
     = std_digest sha256_compress bytes_be32 8 64 56 (bits_be 8) sha256_init (replicate 60 0x61)"
  using digests_meet_standard [of "replicate 60 0x61" "replicate 64 7" "replicate 128 7"] by simp

text \<open>The compression functions are those of the standards: the 64 unrolled MD5 statements are the loop of RFC
  1321 with its index and shift formulas, and the SHA transforms use the message schedules, the logical
  functions and the rotations of FIPS 180-4.\<close>

theorem compression_meets_standard:
  "md5_transform H block = md5_compress H block \<and> sha1_transform H block = sha1_compress H block
   \<and> sha256_transform H block = sha256_compress H block \<and> sha512_transform K data = sha512_compress K data"
  using md5_transform_loop sha1_transform_eq sha256_transform_eq sha512_transform_eq by blast

text \<open>The constants of the SHA-2 functions are the ones the standard derives: fractional parts of the cube roots of
  the first eighty primes, of the square roots of the first and the second eight primes, and their halves.\<close>

theorem sha2_constants:
  "list_all2 (frac_root 3 64) first_primes (map uint k_sha512)
   \<and> k_sha256 = map (\<lambda>k. ucast (drop_bit 32 k)) (take 64 k_sha512)
   \<and> list_all2 (frac_root 2 64) (take 8 first_primes) (map uint sha512_init)
   \<and> sha256_init = map (\<lambda>k. ucast (drop_bit 32 k)) sha512_init
   \<and> list_all2 (frac_root 2 64) (take 8 (drop 8 first_primes)) (map uint sha384_init)
   \<and> sha224_init = map ucast sha384_init"
  by (intro conjI k_sha512_roots k_sha256_high sha512_init_roots sha256_init_high sha384_init_roots sha224_init_low)

end
