(* ===== verification/HashCodec.thy ===== *)
theory HashCodec
  imports Numbers
begin

text \<open>
  The encodings and checksums of \<^verbatim>\<open>VM/src/lhashlib.cpp\<close>: hexadecimal and Base64 text, CRC-32, FNV-1a and the
  comparison in constant time. The codecs are proved to round trip, the decoder of Base64 also through
  inserted line breaks, and CRC-32 to detect every burst of up to four bytes.
\<close>

definition ascii :: "string \<Rightarrow> bytes" where
  "ascii s = map of_char s"

section \<open>Hexadecimal\<close>

definition hex_chars :: bytes where
  "hex_chars = ascii ''0123456789abcdef''"

definition bytes_to_hex :: "bytes \<Rightarrow> bytes" where
  "bytes_to_hex data = concat (map (\<lambda>b. [hex_chars ! unat (drop_bit 4 b), hex_chars ! unat (b AND 0x0F)]) data)"

definition hex_char_to_val :: "u8 \<Rightarrow> int" where
  "hex_char_to_val c =
     (if 0x30 \<le> c \<and> c \<le> 0x39 then uint c - 0x30
      else if 0x61 \<le> c \<and> c \<le> 0x66 then uint c - 0x61 + 10
      else if 0x41 \<le> c \<and> c \<le> 0x46 then uint c - 0x41 + 10
      else - 1)"

datatype hash_error = TypeError nat | ArgError nat | InvalidHexLength | InvalidHexCharacter | OutOfBounds

fun hex_decode_loop :: "bytes \<Rightarrow> hash_error + bytes" where
  "hex_decode_loop (x # y # rest) =
     (let hi = hex_char_to_val x; lo = hex_char_to_val y
      in if hi < 0 \<or> lo < 0 then Inl InvalidHexCharacter
         else case hex_decode_loop rest of Inl e \<Rightarrow> Inl e | Inr out \<Rightarrow> Inr (of_int (push_bit 4 hi OR lo) # out))"
| "hex_decode_loop _ = Inr []"

definition hex_decode :: "bytes \<Rightarrow> hash_error + bytes" where
  "hex_decode data = (if length data mod 2 \<noteq> 0 then Inl InvalidHexLength else hex_decode_loop data)"

section \<open>Base64\<close>

definition b64_table :: bytes where
  "b64_table = ascii ''ABCDEFGHIJKLMNOPQRSTUVWXYZabcdefghijklmnopqrstuvwxyz0123456789+/''"

definition b64_quad :: "bytes \<Rightarrow> bytes" where
  "b64_quad data =
     (let octet_a = ucast (data ! 0) :: u32;
          octet_b = (if 1 < length data then ucast (data ! 1) else 0) :: u32;
          octet_c = (if 2 < length data then ucast (data ! 2) else 0) :: u32;
          triple = push_bit 16 octet_a OR push_bit 8 octet_b OR octet_c
      in [b64_table ! unat (drop_bit 18 triple AND 0x3F),
          b64_table ! unat (drop_bit 12 triple AND 0x3F),
          (if 1 < length data then b64_table ! unat (drop_bit 6 triple AND 0x3F) else 0x3D),
          (if 2 < length data then b64_table ! unat (triple AND 0x3F) else 0x3D)])"

fun base64_encode :: "bytes \<Rightarrow> bytes" where
  "base64_encode data = (if data = [] then [] else b64_quad data @ base64_encode (drop 3 data))"

declare base64_encode.simps [simp del]

definition dtable :: "int list" where
  "dtable = fold (\<lambda>i t. t[unat (b64_table ! i) := int i]) [0..<64] (replicate 256 (- 1))"

fun b64_loop :: "u32 \<Rightarrow> nat \<Rightarrow> bytes \<Rightarrow> bytes" where
  "b64_loop buffer bits_collected [] = []"
| "b64_loop buffer bits_collected (c # data) =
     (if c = 0x3D then []
      else if dtable ! unat c < 0 then b64_loop buffer bits_collected data
      else let buffer = push_bit 6 buffer OR of_int (dtable ! unat c); bits_collected = bits_collected + 6
           in if bits_collected \<ge> 8
              then ucast (drop_bit (bits_collected - 8) buffer AND 0xFF) # b64_loop buffer (bits_collected - 8) data
              else b64_loop buffer bits_collected data)"

definition base64_decode :: "bytes \<Rightarrow> bytes" where
  "base64_decode data = b64_loop 0 0 data"

section \<open>Checksums\<close>

definition crc_shift :: "u32 \<Rightarrow> u32" where
  "crc_shift crc = (if crc AND 1 \<noteq> 0 then drop_bit 1 crc XOR 0xEDB88320 else drop_bit 1 crc)"

definition crc_byte :: "u8 \<Rightarrow> u32 \<Rightarrow> u32" where
  "crc_byte b crc = (crc_shift ^^ 8) (crc XOR ucast b)"

definition crc32 :: "bytes \<Rightarrow> u32" where
  "crc32 data = fold crc_byte data 0xFFFFFFFF XOR 0xFFFFFFFF"

definition fnv1a :: "bytes \<Rightarrow> u64" where
  "fnv1a data = fold (\<lambda>b hash. (hash XOR ucast b) * 0x100000001B3) data 0xCBF29CE484222325"

text \<open>Conversion of an unsigned integer to a double, rounding to nearest and ties to even.\<close>

definition u64_to_double :: "u64 \<Rightarrow> u64" where
  "u64_to_double w =
     (let a = unat w; k = bit_length a
      in if k \<le> 53 then cast_num (int a)
         else let s = k - 53; q = a div 2 ^ s; r = a mod 2 ^ s;
                  q = (if 2 * r > 2 ^ s \<or> 2 * r = 2 ^ s \<and> odd q then q + 1 else q)
              in if q = 2 ^ 53 then mk_dbl False (1023 + k) 0 else mk_dbl False (1022 + k) (q - 2 ^ 52))"

definition timing_safe_equal :: "bytes \<Rightarrow> bytes \<Rightarrow> bool" where
  "timing_safe_equal a b =
     (if length a \<noteq> length b then False else fold (\<lambda>(x, y) diff. diff OR (x XOR y)) (zip a b) 0 = 0)"

section \<open>The hexadecimal codec\<close>

definition hex_lower :: "u8 \<Rightarrow> u8" where
  "hex_lower c = (if 0x41 \<le> c \<and> c \<le> 0x46 then c + 0x20 else c)"

text \<open>Facts on bytes and digits, checked for every value.\<close>

lemma of_nat_unat_mem: "unat c \<in> set ns \<Longrightarrow> c \<in> set (map of_nat ns)" for c :: u8
  unfolding set_map by (rule image_eqI [of _ _ "unat c"]) simp_all

lemma all_bytes: "list_all P (map of_nat [0..<256]) \<Longrightarrow> P (c :: u8)"
proof -
  assume a: "list_all P (map of_nat [0..<256])"
  have "unat c \<in> set [0..<256]" unfolding set_upt using unsigned_less [of c] by simp
  then have "c \<in> set (map of_nat [0..<256])" by (rule of_nat_unat_mem)
  with a show ?thesis unfolding list_all_iff by blast
qed

lemma hex_digit_check: "list_all (\<lambda>n. hex_char_to_val (hex_chars ! n) = int n) [0..<16]"
  by code_simp

lemma hex_char_check:
  "list_all (\<lambda>c. hex_chars ! nat (hex_char_to_val c) = hex_lower c \<and> hex_char_to_val c < 16)
     (map of_nat ([48..<58] @ [65..<71] @ [97..<103]))"
  by code_simp

lemma hex_char:
  assumes "0 \<le> hex_char_to_val c"
  shows "hex_chars ! nat (hex_char_to_val c) = hex_lower c \<and> hex_char_to_val c < 16"
proof -
  have "unat c \<in> set ([48..<58] @ [65..<71] @ [97..<103])"
    unfolding set_append set_upt using assms by (auto simp: hex_char_to_val_def word_le_nat_alt split: if_splits)
  then have "c \<in> set (map of_nat ([48..<58] @ [65..<71] @ [97..<103]))" by (rule of_nat_unat_mem)
  with hex_char_check show ?thesis unfolding list_all_iff by blast
qed

lemma hex_lower_val: "hex_char_to_val (hex_lower c) = hex_char_to_val c"
proof (cases "0x41 \<le> c \<and> c \<le> 0x46")
  case True
  then have "unat c \<in> set [65..<71]" by (auto simp: word_le_nat_alt)
  then have "c \<in> set (map of_nat [65..<71])" by (rule of_nat_unat_mem)
  moreover have "list_all (\<lambda>c. hex_char_to_val (hex_lower c) = hex_char_to_val c) (map of_nat [65..<71])" by code_simp
  ultimately show ?thesis unfolding list_all_iff by blast
next
  case False
  then have "hex_lower c = c" unfolding hex_lower_def by (rule if_not_P)
  then show ?thesis by simp
qed

lemma hex_pair_check:
  "list_all (\<lambda>h. list_all (\<lambda>l. unat (drop_bit 4 (of_int (push_bit 4 (int h) OR int l) :: u8)) = h
     \<and> unat ((of_int (push_bit 4 (int h) OR int l) :: u8) AND 0x0F) = l) [0..<16]) [0..<16]"
  by code_simp

lemma hex_byte_check:
  "list_all (\<lambda>b :: u8. unat (drop_bit 4 b) < 16 \<and> unat (b AND 0x0F) < 16
     \<and> of_int (push_bit 4 (int (unat (drop_bit 4 b))) OR int (unat (b AND 0x0F))) = b) (map of_nat [0..<256])"
  by code_simp

lemma hex_digit: "n < 16 \<Longrightarrow> hex_char_to_val (hex_chars ! n) = int n"
  using hex_digit_check by (simp add: list_all_iff)

lemmas hex_byte = all_bytes [OF hex_byte_check]

lemma hex_pair:
  assumes "0 \<le> h" "h < 16" "0 \<le> l" "l < 16"
  shows "unat (drop_bit 4 (of_int (push_bit 4 h OR l) :: u8)) = nat h" "unat ((of_int (push_bit 4 h OR l) :: u8) AND 0x0F) = nat l"
proof -
  have "nat h \<in> set [0..<16]" "nat l \<in> set [0..<16]" using assms by auto
  with hex_pair_check have "unat (drop_bit 4 (of_int (push_bit 4 (int (nat h)) OR int (nat l)) :: u8)) = nat h
     \<and> unat ((of_int (push_bit 4 (int (nat h)) OR int (nat l)) :: u8) AND 0x0F) = nat l"
    unfolding list_all_iff by blast
  then show "unat (drop_bit 4 (of_int (push_bit 4 h OR l) :: u8)) = nat h" "unat ((of_int (push_bit 4 h OR l) :: u8) AND 0x0F) = nat l"
    using assms by simp_all
qed

lemma bytes_to_hex_Nil [simp]: "bytes_to_hex [] = []"
  by (simp add: bytes_to_hex_def)

lemma bytes_to_hex_Cons: "bytes_to_hex (b # bs) = hex_chars ! unat (drop_bit 4 b) # hex_chars ! unat (b AND 0x0F) # bytes_to_hex bs"
  by (simp add: bytes_to_hex_def)

lemma length_bytes_to_hex [simp]: "length (bytes_to_hex bs) = 2 * length bs"
  by (induction bs) (auto simp: bytes_to_hex_Cons)

lemma hex_loop_encode: "hex_decode_loop (bytes_to_hex bs) = Inr bs"
proof (induction bs)
  case (Cons b bs)
  then show ?case using hex_byte [of b] by (simp add: bytes_to_hex_Cons hex_digit)
qed simp

lemma hex_loop_lower: "hex_decode_loop (map hex_lower s) = hex_decode_loop s"
  by (induction s rule: hex_decode_loop.induct) (simp_all add: hex_lower_val Let_def)

lemma hex_loop_decode: "even (length s) \<Longrightarrow> hex_decode_loop s = Inr bs \<Longrightarrow> bytes_to_hex bs = map hex_lower s"
proof (induction s arbitrary: bs rule: hex_decode_loop.induct)
  case (1 x y rest)
  from "1.prems" obtain out where v: "0 \<le> hex_char_to_val x" "0 \<le> hex_char_to_val y" "hex_decode_loop rest = Inr out"
    "bs = of_int (push_bit 4 (hex_char_to_val x) OR hex_char_to_val y) # out"
    by (auto simp: Let_def split: if_splits sum.splits)
  then show ?case using "1.IH" "1.prems"(1) hex_char [of x] hex_char [of y] by (simp add: bytes_to_hex_Cons hex_pair)
qed auto

lemma hex_loop_error: "hex_decode_loop s = Inl e \<longleftrightarrow> e = InvalidHexCharacter \<and> (\<exists>c \<in> set (take (length s div 2 * 2) s). hex_char_to_val c < 0)"
  by (induction s rule: hex_decode_loop.induct) (auto simp: Let_def split: sum.splits)

section \<open>The Base64 codec\<close>

lemma b64_table_check: "let t = dtable; b64_table = b64_table in list_all (\<lambda>i. b64_table ! i \<noteq> 0x3D \<and> t ! unat (b64_table ! i) = int i) [0..<64]"
  by code_simp

lemma b64_char: "i < 64 \<Longrightarrow> b64_table ! i \<noteq> 0x3D \<and> dtable ! unat (b64_table ! i) = int i"
  using b64_table_check by (simp add: list_all_iff Let_def)

abbreviation b64_sextet :: "u32 \<Rightarrow> nat \<Rightarrow> u32" where
  "b64_sextet triple n \<equiv> drop_bit n triple AND 0x3F"

lemma sextet_less: "unat (w AND 0x3F :: u32) < 64"
proof -
  have "w AND 0x3F = take_bit 6 w" by (simp add: take_bit_eq_mask mask_numeral)
  then show ?thesis by (simp add: take_bit_eq_mod unat_mod)
qed

lemma b64_sextet_step:
  "b64_loop buffer n (b64_table ! unat (w AND 0x3F) # data) =
     (let buffer = push_bit 6 buffer OR (w AND 0x3F :: u32)
      in if n + 6 \<ge> 8 then ucast (drop_bit (n + 6 - 8) buffer AND 0xFF) # b64_loop buffer (n + 6 - 8) data
         else b64_loop buffer (n + 6) data)"
  using b64_char [OF sextet_less, of w] by (simp add: Let_def)

lemma byte_bit: "8 \<le> n \<Longrightarrow> \<not> bit (w :: u8) n"
  using bit_imp_le_length [of w n] by auto

lemma xor_zero: "x XOR y = 0 \<longleftrightarrow> x = y" for x :: "'a::len word"
proof
  assume a: "x XOR y = 0"
  have "bit (x XOR y) n \<longleftrightarrow> bit x n \<noteq> bit y n" for n by (simp add: bit_xor_iff)
  then show "x = y" unfolding a by (intro bit_word_eqI) simp
qed simp

lemma xor_cancel: "x XOR y = x XOR z \<longleftrightarrow> y = z" "y XOR x = z XOR x \<longleftrightarrow> y = z" for x :: "'a::len word"
proof -
  have k: "(x XOR y) XOR (x XOR z) = y XOR z" by (rule bit_word_eqI) (simp only: bit_xor_iff, blast)
  show a: "x XOR y = x XOR z \<longleftrightarrow> y = z" using xor_zero [of "x XOR y" "x XOR z"] xor_zero [of y z] unfolding k by (rule sym [THEN trans])
  show "y XOR x = z XOR x \<longleftrightarrow> y = z" unfolding xor.commute [of _ x] by (rule a)
qed

lemma b64_triple:
  fixes a b c :: u8
  defines "t \<equiv> (push_bit 16 (ucast a) OR push_bit 8 (ucast b) OR ucast c) :: u32"
  shows "ucast (drop_bit 4 (push_bit 6 (push_bit 6 buf OR b64_sextet t 18) OR b64_sextet t 12) AND 0xFF) = a"
    "ucast (drop_bit 2 (push_bit 6 (push_bit 6 (push_bit 6 buf OR b64_sextet t 18) OR b64_sextet t 12) OR b64_sextet t 6) AND 0xFF) = b"
    "ucast ((push_bit 6 (push_bit 6 (push_bit 6 (push_bit 6 buf OR b64_sextet t 18) OR b64_sextet t 12) OR b64_sextet t 6) OR (t AND 0x3F)) AND 0xFF) = c"
proof -
  have m: "(0x3F :: u32) = mask 6" "(0xFF :: u32) = mask 8" by (simp_all add: mask_numeral)
  have *: "n = 0 \<or> n = 1 \<or> n = 2 \<or> n = 3 \<or> n = 4 \<or> n = 5 \<or> n = 6 \<or> n = 7" if "n < LENGTH(8)" for n :: nat using that by auto
  show "ucast (drop_bit 4 (push_bit 6 (push_bit 6 buf OR b64_sextet t 18) OR b64_sextet t 12) AND 0xFF) = a"
    unfolding m t_def by (rule bit_word_eqI, drule *) (elim disjE, simp_all add: bit_simps byte_bit)
  show "ucast (drop_bit 2 (push_bit 6 (push_bit 6 (push_bit 6 buf OR b64_sextet t 18) OR b64_sextet t 12) OR b64_sextet t 6) AND 0xFF) = b"
    unfolding m t_def by (rule bit_word_eqI, drule *) (elim disjE, simp_all add: bit_simps byte_bit)
  show "ucast ((push_bit 6 (push_bit 6 (push_bit 6 (push_bit 6 buf OR b64_sextet t 18) OR b64_sextet t 12) OR b64_sextet t 6) OR (t AND 0x3F)) AND 0xFF) = c"
    unfolding m t_def by (rule bit_word_eqI, drule *) (elim disjE, simp_all add: bit_simps byte_bit)
qed

lemma b64_quad_decode:
  "\<exists>buf'. b64_loop buf 0 (b64_quad (a # b # c # data) @ rest) = a # b # c # b64_loop buf' 0 rest"
  "b64_loop buf 0 (b64_quad [a, b] @ rest) = [a, b]"
  "b64_loop buf 0 (b64_quad [a] @ rest) = [a]"
  using b64_triple [of buf a b c] b64_triple [of buf a b 0] b64_triple [of buf a 0 0]
  by (simp_all add: b64_quad_def Let_def b64_sextet_step del: b64_loop.simps(2)) (auto simp: b64_loop.simps(2))

lemma b64_encode_cases:
  "base64_encode [] = []" "base64_encode [a] = b64_quad [a]" "base64_encode [a, b] = b64_quad [a, b]"
  "base64_encode (a # b # c # data) = b64_quad (a # b # c # data) @ base64_encode data"
  by (simp_all add: base64_encode.simps)

fun triples_induct :: "'a list \<Rightarrow> bool" where
  "triples_induct (a # b # c # data) = triples_induct data"
| "triples_induct [a, b] = True"
| "triples_induct [a] = True"
| "triples_induct [] = True"

lemma b64_loop_encode: "b64_loop buf 0 (base64_encode data) = data"
proof (induction data arbitrary: buf rule: triples_induct.induct)
  case (1 a b c data)
  then show ?case using b64_quad_decode(1) [of buf a b c data "base64_encode data"] by (auto simp: b64_encode_cases)
next
  case (2 a b)
  then show ?case using b64_quad_decode(2) [of buf a b "[]"] by (simp add: b64_encode_cases)
next
  case (3 a)
  then show ?case using b64_quad_decode(3) [of buf a "[]"] by (simp add: b64_encode_cases)
qed (simp add: b64_encode_cases)

lemma b64_loop_filter: "b64_loop buf n (filter (\<lambda>c. c = 0x3D \<or> 0 \<le> dtable ! unat c) s) = b64_loop buf n s"
  by (induction buf n s rule: b64_loop.induct) (auto simp: Let_def)

lemma length_base64_encode: "length (base64_encode data) = 4 * ((length data + 2) div 3)"
proof (induction data rule: triples_induct.induct)
  case (1 a b c data)
  have "(length data + 2 + 3) div 3 = Suc ((length data + 2) div 3)" by simp
  with 1 show ?case by (simp add: b64_encode_cases b64_quad_def Let_def add.commute)
qed (simp_all add: b64_encode_cases b64_quad_def Let_def)

lemma base64_alphabet: "set (base64_encode data) \<subseteq> {c. c = 0x3D \<or> 0 \<le> dtable ! unat c}"
proof -
  have "set (b64_quad d) \<subseteq> {c. c = 0x3D \<or> 0 \<le> dtable ! unat c}" for d
    using b64_char [OF sextet_less] by (auto simp: b64_quad_def Let_def)
  then show ?thesis by (induction data rule: base64_encode.induct) (subst base64_encode.simps, auto)
qed

section \<open>The cyclic redundancy check\<close>

lemma crc_shift_bit: "crc_shift x = drop_bit 1 x XOR (if bit x 0 then 0xEDB88320 else 0)"
  by (auto simp: crc_shift_def bit_0 and_one_eq odd_iff_mod_2_eq_one)

lemma crc_shift_xor: "crc_shift (x XOR y) = crc_shift x XOR crc_shift y"
  unfolding crc_shift_bit by (rule bit_word_eqI) (auto simp: bit_simps)

lemma crc_shift_zero: "crc_shift x = 0 \<Longrightarrow> x = 0"
proof -
  assume a: "crc_shift x = 0"
  have "bit (crc_shift x) 31 = bit x 0"
    unfolding crc_shift_bit using bit_imp_le_length [of x 32] by (auto simp: bit_simps)
  with a have b: "\<not> bit x 0" by simp
  with a have d: "drop_bit 1 x = 0" by (simp add: crc_shift_bit)
  show "x = 0"
  proof (rule bit_word_eqI)
    fix n assume "n < LENGTH(32)"
    have "bit (drop_bit 1 x) m = bit x (Suc m)" for m by (simp add: bit_drop_bit_eq)
    with b d show "bit x n = bit 0 n" by (cases n) simp_all
  qed
qed

lemma crc_shift_inj: "crc_shift x = crc_shift y \<longleftrightarrow> x = y"
  using crc_shift_zero [of "x XOR y"] by (auto simp: crc_shift_xor xor_zero)

lemma crc_steps_inj: "(crc_shift ^^ n) x = (crc_shift ^^ n) y \<longleftrightarrow> x = y"
  by (induction n) (auto simp: crc_shift_inj)

lemma crc_steps_xor: "(crc_shift ^^ n) (x XOR y) = (crc_shift ^^ n) x XOR (crc_shift ^^ n) y"
  by (induction n) (auto simp: crc_shift_xor)

lemma crc_fold_inj: "fold crc_byte data x = fold crc_byte data y \<longleftrightarrow> x = y"
proof (induction data arbitrary: x y)
  case (Cons b data)
  then show ?case by (simp add: crc_byte_def crc_steps_inj xor_cancel)
qed simp

text \<open>Shifting zeros through the register moves its upper bits down.\<close>

lemma crc_shift_push: "\<not> bit y 31 \<Longrightarrow> crc_shift (push_bit 1 y) = y"
proof -
  assume a: "\<not> bit y 31"
  have b: "\<not> bit (push_bit 1 y) 0" by (simp only: bit_push_bit_iff) simp
  have "drop_bit 1 (push_bit 1 y) = y"
  proof (rule bit_word_eqI)
    fix n assume "n < LENGTH(32)"
    then show "bit (drop_bit 1 (push_bit 1 y)) n = bit y n"
      using a by (cases "n = 31") (simp_all only: bit_drop_bit_eq comp_apply bit_push_bit_iff, simp_all)
  qed
  with b show ?thesis unfolding crc_shift_bit by simp
qed

lemma crc_steps_push: "(\<And>i. bit x i \<Longrightarrow> i + n < 32) \<Longrightarrow> (crc_shift ^^ n) (push_bit n x) = x"
proof (induction n)
  case (Suc n)
  have "\<not> bit (push_bit n x) 31" using Suc.prems [of "31 - n"] by (auto simp: bit_push_bit_iff)
  then have "crc_shift (push_bit (Suc n) x) = push_bit n x" using crc_shift_push [OF \<open>\<not> bit (push_bit n x) 31\<close>] by (simp only: push_bit_push_bit plus_1_eq_Suc)
  moreover have "(crc_shift ^^ n) (push_bit n x) = x" using Suc.prems by (intro Suc.IH) fastforce
  ultimately show ?case by (simp only: funpow_Suc_right comp_apply)
qed simp

fun le_word :: "bytes \<Rightarrow> u32" where
  "le_word [] = 0"
| "le_word (b # bs) = ucast b XOR push_bit 8 (le_word bs)"

lemma le_word_bits: "bit (le_word bs) i \<Longrightarrow> i < 8 * length bs"
proof (induction bs arbitrary: i)
  case (Cons b bs)
  then consider "bit b i" | "8 \<le> i" "bit (le_word bs) (i - 8)" by (auto simp: bit_simps)
  then show ?case
  proof cases
    case 1 then show ?thesis using byte_bit [of i b] by (auto simp: not_le [symmetric])
  next
    case 2 then show ?thesis using Cons.IH [of "i - 8"] by simp
  qed
qed simp

lemma crc_fold_le_word: "length bs \<le> 4 \<Longrightarrow> fold crc_byte bs s = (crc_shift ^^ (8 * length bs)) (s XOR le_word bs)"
proof (induction bs arbitrary: s)
  case (Cons b bs)
  have "(crc_shift ^^ 8) (push_bit 8 (le_word bs)) = le_word bs"
    using le_word_bits [of bs] Cons.prems by (intro crc_steps_push) fastforce
  then have "crc_byte b s XOR le_word bs = (crc_shift ^^ 8) (s XOR le_word (b # bs))"
    by (simp add: crc_byte_def crc_steps_xor ac_simps)
  then have "fold crc_byte (b # bs) s = (crc_shift ^^ (8 * length bs)) ((crc_shift ^^ 8) (s XOR le_word (b # bs)))"
    using Cons by simp
  also have "\<dots> = (crc_shift ^^ (8 * length bs + 8)) (s XOR le_word (b # bs))" by (simp only: funpow_add comp_apply)
  finally show ?case by (simp add: add.commute)
qed simp

lemma le_word_inj: "length u = length v \<Longrightarrow> length u \<le> 4 \<Longrightarrow> le_word u = le_word v \<Longrightarrow> u = v"
proof (induction u v rule: list_induct2)
  case (Cons x u y v)
  have bits: "bit (le_word (b # bs)) i = (if i < 8 then bit b i else bit (le_word bs) (i - 8))" if "i < 32" for b bs i
    using that bit_imp_le_length [of b i] by (auto simp: bit_simps)
  have "bit x i = bit y i" if "i < 8" for i using bits [of i x u] bits [of i y v] that Cons.prems by simp
  then have "x = y" by (intro bit_word_eqI) simp
  moreover have "bit (le_word u) i = bit (le_word v) i" for i
  proof (cases "i < 24")
    case True
    then show ?thesis using bits [of "i + 8" x u] bits [of "i + 8" y v] Cons.prems by simp
  next
    case False
    then show ?thesis using le_word_bits [of u i] le_word_bits [of v i] Cons.hyps Cons.prems by auto
  qed
  then have "le_word u = le_word v" by (intro bit_word_eqI) simp
  ultimately show ?case using Cons by simp
qed simp

lemma crc_detects_burst:
  assumes "length u = length v" "length u \<le> 4" "u \<noteq> v"
  shows "crc32 (p @ u @ q) \<noteq> crc32 (p @ v @ q)"
proof
  assume "crc32 (p @ u @ q) = crc32 (p @ v @ q)"
  then have "fold crc_byte u (fold crc_byte p 0xFFFFFFFF) = fold crc_byte v (fold crc_byte p 0xFFFFFFFF)"
    unfolding crc32_def by (simp add: crc_fold_inj xor_cancel)
  then have "le_word u = le_word v" using assms by (simp add: crc_fold_le_word crc_steps_inj xor_cancel)
  with le_word_inj assms show False by blast
qed

lemma fold_or_zero: "fold (\<lambda>(x, y) diff. diff OR (x XOR y)) ps d = 0 \<longleftrightarrow> d = 0 \<and> (\<forall>(x, y) \<in> set ps. x = y)" for d :: u8
proof (induction ps arbitrary: d)
  case (Cons p ps)
  then show ?case by (cases p) (auto simp: or_eq_0_iff xor_zero)
qed simp

section \<open>Properties\<close>

text \<open>C25. Hexadecimal text: decoding gives back the encoded bytes, decoding succeeds with bytes \<open>y\<close> exactly when the text
  is the encoding of \<open>y\<close> up to the case of its digits, and the two errors are reported exactly for texts of odd
  length and for other texts with a character that is not a digit.\<close>

theorem hex_codec:
  "hex_decode (bytes_to_hex x) = Inr x
   \<and> (hex_decode s = Inr y \<longleftrightarrow> bytes_to_hex y = map hex_lower s)
   \<and> (hex_decode s = Inl InvalidHexLength \<longleftrightarrow> odd (length s))
   \<and> (hex_decode s = Inl InvalidHexCharacter \<longleftrightarrow> even (length s) \<and> list_ex (\<lambda>c. hex_char_to_val c < 0) s)"
proof -
  have enc: "hex_decode (bytes_to_hex x) = Inr x" for x by (simp add: hex_decode_def hex_loop_encode)
  have lower: "hex_decode (map hex_lower s) = hex_decode s" by (simp add: hex_decode_def hex_loop_lower)
  have "bytes_to_hex y = map hex_lower s \<Longrightarrow> hex_decode s = Inr y" using lower enc by metis
  moreover have "hex_decode s = Inr y \<Longrightarrow> bytes_to_hex y = map hex_lower s"
    by (auto simp: hex_decode_def even_iff_mod_2_eq_zero intro: hex_loop_decode split: if_splits)
  ultimately show ?thesis using enc hex_loop_error [of s]
    by (auto simp: hex_decode_def list_ex_iff even_iff_mod_2_eq_zero split: if_splits)
qed

text \<open>C26. Base64: the text has four characters for every three bytes begun, and decoding it gives back the bytes, also
  when characters outside of the alphabet, such as line breaks, were inserted anywhere.\<close>

theorem base64_roundtrip:
  assumes "filter (\<lambda>c. c = 0x3D \<or> 0 \<le> dtable ! unat c) s = base64_encode x"
  shows "base64_decode s = x \<and> base64_decode (base64_encode x) = x \<and> length (base64_encode x) = 4 * ((length x + 2) div 3)"
proof -
  have "base64_decode s = b64_loop 0 0 (base64_encode x)" unfolding base64_decode_def assms [symmetric] b64_loop_filter ..
  then show ?thesis by (simp add: base64_decode_def b64_loop_encode length_base64_encode)
qed

theorem base64_roundtrip_witness: "base64_decode (base64_encode [0x4A, 0x61, 0x63, 0x69] @ [0x0A, 0x0D]) = [0x4A, 0x61, 0x63, 0x69]"
proof -
  let ?x = "[0x4A, 0x61, 0x63, 0x69] :: bytes"
  have "filter (\<lambda>c. c = 0x3D \<or> 0 \<le> dtable ! unat c) (base64_encode ?x) = base64_encode ?x"
    using base64_alphabet [of ?x] by (auto simp: filter_id_conv)
  moreover have "filter (\<lambda>c :: u8. c = 0x3D \<or> 0 \<le> dtable ! unat c) [0x0A, 0x0D] = []" by code_simp
  ultimately have "filter (\<lambda>c. c = 0x3D \<or> 0 \<le> dtable ! unat c) (base64_encode ?x @ [0x0A, 0x0D]) = base64_encode ?x"
    by (simp only: filter_append append_Nil2)
  from base64_roundtrip [OF this] show ?thesis by blast
qed

text \<open>C27. CRC-32 detects every corruption of a message confined to four consecutive bytes.\<close>

theorem crc32_detects_bursts:
  assumes "length u = length v" "length u \<le> 4" "u \<noteq> v"
  shows "crc32 (p @ u @ q) \<noteq> crc32 (p @ v @ q)"
  using assms by (rule crc_detects_burst)

theorem crc32_detects_bursts_witness: "crc32 [1, 2, 3, 4, 5, 6] \<noteq> crc32 [1, 3, 2, 4, 4, 6]"
  using crc32_detects_bursts [of "[2, 3, 4, 5]" "[3, 2, 4, 4]" "[1]" "[6]"] by simp

text \<open>The comparison in constant time decides equality.\<close>

lemma timing_safe_equal_iff: "timing_safe_equal a b \<longleftrightarrow> a = b"
proof -
  have "(\<forall>(x, y) \<in> set (zip a b). x = y) \<longleftrightarrow> a = b" if "length a = length b"
    using that by (induction a b rule: list_induct2) auto
  then show ?thesis by (auto simp: timing_safe_equal_def fold_or_zero)
qed

text \<open>FNV-1a hashes to 64 bits but is returned as a double, which cannot hold them: already the hash of the empty string
  is rounded.\<close>

lemma fnv1a_rounded: "uint (fnv1a []) = 0xCBF29CE484222325" "dbl_int (u64_to_double (fnv1a [])) = Some 0xCBF29CE484222000"
proof -
  let ?a = "0xCBF29CE484222325 :: nat"
  show "uint (fnv1a []) = 0xCBF29CE484222325" by (simp add: fnv1a_def)
  have a: "unat (fnv1a []) = ?a" by (simp add: fnv1a_def)
  have b: "bit_length ?a = 64" using bit_length_unique [of 63 ?a] by simp
  have "u64_to_double (fnv1a []) = mk_dbl False 1086 (?a div 2 ^ 11 - 2 ^ 52)"
    unfolding u64_to_double_def a Let_def b by simp
  then show "dbl_int (u64_to_double (fnv1a [])) = Some 0xCBF29CE484222000"
    using dbl_fields [of 1086 "?a div 2 ^ 11 - 2 ^ 52" False] by (simp add: dbl_int_def Let_def)
qed

end
