(* ===== verification/HashLib.thy ===== *)
theory HashLib
  imports Digest HashCodec
begin

text \<open>
  The \<open>hash\<close> and \<open>crypto\<close> libraries of \<^verbatim>\<open>VM/src/lhashlib.cpp\<close> as scripts see them: arguments and results of the entry
  points, HMAC over the digests and the ChaCha20 stream cipher. HMAC is proved to be that of RFC 2104, the
  cipher to be its own inverse, and every entry point to return a value of its documented size.
\<close>

section \<open>Arguments and results\<close>

datatype hash_arg = AString bytes | ABuffer bytes | AOther

datatype hash_result = RString bytes | RNumber u64 | RBool bool

definition get_hash_data :: "hash_arg list \<Rightarrow> nat \<Rightarrow> hash_error + bytes" where
  "get_hash_data args idx =
     (if 1 \<le> idx \<and> idx \<le> length args
      then case args ! (idx - 1) of AString s \<Rightarrow> Inr s | ABuffer s \<Rightarrow> Inr s | AOther \<Rightarrow> Inl (TypeError idx)
      else Inl (TypeError idx))"

text \<open>Entry points with one and with two data arguments, read in this order.\<close>

definition with_data :: "(bytes \<Rightarrow> hash_error + hash_result) \<Rightarrow> hash_arg list \<Rightarrow> hash_error + hash_result" where
  "with_data f args = (case get_hash_data args 1 of Inl e \<Rightarrow> Inl e | Inr data \<Rightarrow> f data)"

definition with_data2 :: "(bytes \<Rightarrow> bytes \<Rightarrow> hash_error + hash_result) \<Rightarrow> hash_arg list \<Rightarrow> hash_error + hash_result" where
  "with_data2 f args =
     (case get_hash_data args 1 of Inl e \<Rightarrow> Inl e
      | Inr a \<Rightarrow> (case get_hash_data args 2 of Inl e \<Rightarrow> Inl e | Inr b \<Rightarrow> f a b))"

text \<open>
  A local array of \<open>sz\<close> bytes after a function has written \<open>out\<close> to its start, and \<open>lua_pushlstring\<close> of \<open>n\<close> bytes of it.
  A write past the end of the array, or a read of bytes that were not written, is the error \<open>OutOfBounds\<close>.
\<close>

definition local_array :: "nat \<Rightarrow> bytes \<Rightarrow> hash_error + bytes" where
  "local_array sz out = (if length out \<le> sz then Inr out else Inl OutOfBounds)"

definition lua_pushlstring :: "bytes \<Rightarrow> nat \<Rightarrow> hash_error + hash_result" where
  "lua_pushlstring s n = (if n \<le> length s then Inr (RString (take n s)) else Inl OutOfBounds)"

text \<open>\<open>bytes_to_hex(bytes, len, hex)\<close> on an array \<open>hex\<close> of \<open>sz\<close> characters.\<close>

definition hex_array :: "bytes \<Rightarrow> nat \<Rightarrow> nat \<Rightarrow> hash_error + bytes" where
  "hex_array bytes len sz =
     (if len \<le> length bytes then local_array sz (bytes_to_hex (take len bytes)) else Inl OutOfBounds)"

text \<open>The two endings of the entry points: the digest itself, and its hexadecimal text.\<close>

definition push_digest :: "nat \<Rightarrow> bytes \<Rightarrow> nat \<Rightarrow> hash_error + hash_result" where
  "push_digest sz out n = (case local_array sz out of Inl e \<Rightarrow> Inl e | Inr digest \<Rightarrow> lua_pushlstring digest n)"

definition push_hex :: "nat \<Rightarrow> bytes \<Rightarrow> nat \<Rightarrow> nat \<Rightarrow> nat \<Rightarrow> hash_error + hash_result" where
  "push_hex sz out len hexsize n =
     (case local_array sz out of Inl e \<Rightarrow> Inl e
      | Inr digest \<Rightarrow> (case hex_array digest len hexsize of Inl e \<Rightarrow> Inl e | Inr hex \<Rightarrow> lua_pushlstring hex n))"

section \<open>Checksums, digests and encodings\<close>

definition hash_crc32 :: "hash_arg list \<Rightarrow> hash_error + hash_result" where
  "hash_crc32 = with_data (\<lambda>data. Inr (RNumber (cast_num (uint (crc32 data)))))"

definition hash_fnv1a :: "hash_arg list \<Rightarrow> hash_error + hash_result" where
  "hash_fnv1a = with_data (\<lambda>data. Inr (RNumber (u64_to_double (fnv1a data))))"

definition hash_md5 :: "bytes \<Rightarrow> hash_arg list \<Rightarrow> hash_error + hash_result" where
  "hash_md5 buffer0 = with_data (\<lambda>data. push_digest 16 (compute_md5 buffer0 data) 16)"

definition hash_md5hex :: "bytes \<Rightarrow> hash_arg list \<Rightarrow> hash_error + hash_result" where
  "hash_md5hex buffer0 = with_data (\<lambda>data. push_hex 16 (compute_md5 buffer0 data) 16 32 32)"

definition hash_sha1 :: "bytes \<Rightarrow> hash_arg list \<Rightarrow> hash_error + hash_result" where
  "hash_sha1 buffer0 = with_data (\<lambda>data. push_digest 20 (compute_sha1 buffer0 data) 20)"

definition hash_sha1hex :: "bytes \<Rightarrow> hash_arg list \<Rightarrow> hash_error + hash_result" where
  "hash_sha1hex buffer0 = with_data (\<lambda>data. push_hex 20 (compute_sha1 buffer0 data) 20 40 40)"

definition hash_sha224 :: "bytes \<Rightarrow> hash_arg list \<Rightarrow> hash_error + hash_result" where
  "hash_sha224 buffer0 = with_data (\<lambda>data. push_digest 28 (compute_sha224 buffer0 data) 28)"

definition hash_sha224hex :: "bytes \<Rightarrow> hash_arg list \<Rightarrow> hash_error + hash_result" where
  "hash_sha224hex buffer0 = with_data (\<lambda>data. push_hex 28 (compute_sha224 buffer0 data) 28 56 56)"

definition hash_sha256 :: "bytes \<Rightarrow> hash_arg list \<Rightarrow> hash_error + hash_result" where
  "hash_sha256 buffer0 = with_data (\<lambda>data. push_digest 32 (compute_sha256 buffer0 data) 32)"

definition hash_sha256hex :: "bytes \<Rightarrow> hash_arg list \<Rightarrow> hash_error + hash_result" where
  "hash_sha256hex buffer0 = with_data (\<lambda>data. push_hex 32 (compute_sha256 buffer0 data) 32 64 64)"

definition hash_sha384 :: "bytes \<Rightarrow> hash_arg list \<Rightarrow> hash_error + hash_result" where
  "hash_sha384 buffer0 = with_data (\<lambda>data. push_digest 48 (compute_sha384 buffer0 data) 48)"

definition hash_sha384hex :: "bytes \<Rightarrow> hash_arg list \<Rightarrow> hash_error + hash_result" where
  "hash_sha384hex buffer0 = with_data (\<lambda>data. push_hex 48 (compute_sha384 buffer0 data) 48 96 96)"

definition hash_sha512 :: "bytes \<Rightarrow> hash_arg list \<Rightarrow> hash_error + hash_result" where
  "hash_sha512 buffer0 = with_data (\<lambda>data. push_digest 64 (compute_sha512 buffer0 data) 64)"

definition hash_sha512hex :: "bytes \<Rightarrow> hash_arg list \<Rightarrow> hash_error + hash_result" where
  "hash_sha512hex buffer0 = with_data (\<lambda>data. push_hex 64 (compute_sha512 buffer0 data) 64 128 128)"

definition hash_base64_encode :: "hash_arg list \<Rightarrow> hash_error + hash_result" where
  "hash_base64_encode = with_data (\<lambda>data. Inr (RString (base64_encode data)))"

definition hash_base64_decode :: "hash_arg list \<Rightarrow> hash_error + hash_result" where
  "hash_base64_decode = with_data (\<lambda>data. Inr (RString (base64_decode data)))"

definition hash_hex_encode :: "hash_arg list \<Rightarrow> hash_error + hash_result" where
  "hash_hex_encode = with_data (\<lambda>data. Inr (RString (bytes_to_hex data)))"

definition hash_hex_decode :: "hash_arg list \<Rightarrow> hash_error + hash_result" where
  "hash_hex_decode = with_data (\<lambda>data. map_sum id RString (hex_decode data))"

definition hash_timing_safe_equal :: "hash_arg list \<Rightarrow> hash_error + hash_result" where
  "hash_timing_safe_equal = with_data2 (\<lambda>a b. Inr (RBool (timing_safe_equal a b)))"

section \<open>HMAC\<close>

text \<open>\<open>hash_fn i\<close> is the digest as the \<open>i\<close>-th call computes it, on a stack buffer with some content of its own.\<close>

definition compute_hmac :: "bytes \<Rightarrow> bytes \<Rightarrow> (nat \<Rightarrow> bytes \<Rightarrow> bytes) \<Rightarrow> nat \<Rightarrow> bytes" where
  "compute_hmac key data hash_fn hash_len =
     (let k_pad = replicate 64 0;
          k_pad = (if length key > 64 then blit k_pad 0 (hash_fn 0 key) else blit k_pad 0 key);
          ipad = map (\<lambda>i. k_pad ! i XOR 0x36) [0..<64];
          opad = map (\<lambda>i. k_pad ! i XOR 0x5C) [0..<64];
          inner = [] @ ipad @ data;
          inner_hash = blit (replicate hash_len 0) 0 (hash_fn 1 inner);
          outer = [] @ opad @ take hash_len inner_hash
      in hash_fn 2 outer)"

definition compute_hmac_sha512 :: "(nat \<Rightarrow> bytes) \<Rightarrow> bytes \<Rightarrow> bytes \<Rightarrow> bytes" where
  "compute_hmac_sha512 bufs key data =
     (let k_pad = replicate 128 0;
          k_pad = (if length key > 128 then blit k_pad 0 (compute_sha512 (bufs 0) key) else blit k_pad 0 key);
          ipad = map (\<lambda>i. k_pad ! i XOR 0x36) [0..<128];
          opad = map (\<lambda>i. k_pad ! i XOR 0x5C) [0..<128];
          inner = [] @ ipad @ data;
          inner_hash = compute_sha512 (bufs 1) inner;
          outer = [] @ opad @ take 64 inner_hash
      in compute_sha512 (bufs 2) outer)"

definition hash_hmac_sha256 :: "(nat \<Rightarrow> bytes) \<Rightarrow> hash_arg list \<Rightarrow> hash_error + hash_result" where
  "hash_hmac_sha256 bufs = with_data2 (\<lambda>key data. push_digest 32 (compute_hmac key data (\<lambda>i. compute_sha256 (bufs i)) 32) 32)"

definition hash_hmac_sha256hex :: "(nat \<Rightarrow> bytes) \<Rightarrow> hash_arg list \<Rightarrow> hash_error + hash_result" where
  "hash_hmac_sha256hex bufs = with_data2 (\<lambda>key data. push_hex 32 (compute_hmac key data (\<lambda>i. compute_sha256 (bufs i)) 32) 32 64 64)"

definition hash_hmac_sha1 :: "(nat \<Rightarrow> bytes) \<Rightarrow> hash_arg list \<Rightarrow> hash_error + hash_result" where
  "hash_hmac_sha1 bufs = with_data2 (\<lambda>key data. push_digest 20 (compute_hmac key data (\<lambda>i. compute_sha1 (bufs i)) 20) 20)"

definition hash_hmac_sha1hex :: "(nat \<Rightarrow> bytes) \<Rightarrow> hash_arg list \<Rightarrow> hash_error + hash_result" where
  "hash_hmac_sha1hex bufs = with_data2 (\<lambda>key data. push_hex 20 (compute_hmac key data (\<lambda>i. compute_sha1 (bufs i)) 20) 20 40 40)"

definition hash_hmac_md5 :: "(nat \<Rightarrow> bytes) \<Rightarrow> hash_arg list \<Rightarrow> hash_error + hash_result" where
  "hash_hmac_md5 bufs = with_data2 (\<lambda>key data. push_digest 16 (compute_hmac key data (\<lambda>i. compute_md5 (bufs i)) 16) 16)"

definition hash_hmac_md5hex :: "(nat \<Rightarrow> bytes) \<Rightarrow> hash_arg list \<Rightarrow> hash_error + hash_result" where
  "hash_hmac_md5hex bufs = with_data2 (\<lambda>key data. push_hex 16 (compute_hmac key data (\<lambda>i. compute_md5 (bufs i)) 16) 16 32 32)"

definition hash_hmac_sha512 :: "(nat \<Rightarrow> bytes) \<Rightarrow> hash_arg list \<Rightarrow> hash_error + hash_result" where
  "hash_hmac_sha512 bufs = with_data2 (\<lambda>key data. push_digest 64 (compute_hmac_sha512 bufs key data) 64)"

definition hash_hmac_sha512hex :: "(nat \<Rightarrow> bytes) \<Rightarrow> hash_arg list \<Rightarrow> hash_error + hash_result" where
  "hash_hmac_sha512hex bufs = with_data2 (\<lambda>key data. push_hex 64 (compute_hmac_sha512 bufs key data) 64 128 128)"

section \<open>ChaCha20\<close>

definition CHACHA20_QUARTERROUND :: "nat \<Rightarrow> nat \<Rightarrow> nat \<Rightarrow> nat \<Rightarrow> u32 list \<Rightarrow> u32 list" where
  "CHACHA20_QUARTERROUND a b c d w =
     (let w = w[a := w ! a + w ! b]; w = w[d := w ! d XOR w ! a]; w = w[d := ROTL32 (w ! d) 16];
          w = w[c := w ! c + w ! d]; w = w[b := w ! b XOR w ! c]; w = w[b := ROTL32 (w ! b) 12];
          w = w[a := w ! a + w ! b]; w = w[d := w ! d XOR w ! a]; w = w[d := ROTL32 (w ! d) 8];
          w = w[c := w ! c + w ! d]; w = w[b := w ! b XOR w ! c]; w = w[b := ROTL32 (w ! b) 7]
      in w)"

definition chacha20_rounds :: "u32 list \<Rightarrow> u32 list" where
  "chacha20_rounds w =
     (let w = CHACHA20_QUARTERROUND 0 4 8 12 w;
          w = CHACHA20_QUARTERROUND 1 5 9 13 w;
          w = CHACHA20_QUARTERROUND 2 6 10 14 w;
          w = CHACHA20_QUARTERROUND 3 7 11 15 w;
          w = CHACHA20_QUARTERROUND 0 5 10 15 w;
          w = CHACHA20_QUARTERROUND 1 6 11 12 w;
          w = CHACHA20_QUARTERROUND 2 7 8 13 w
      in CHACHA20_QUARTERROUND 3 4 9 14 w)"

definition chacha20_block :: "u32 list \<Rightarrow> u32 list \<Rightarrow> u32 \<Rightarrow> bytes" where
  "chacha20_block key nonce counter =
     (let state = [0x61707865, 0x3320646E, 0x79622D32, 0x6B206574,
                   key ! 0, key ! 1, key ! 2, key ! 3, key ! 4, key ! 5, key ! 6, key ! 7,
                   counter, nonce ! 0, nonce ! 1, nonce ! 2];
          working = (chacha20_rounds ^^ 10) state
      in concat (map (\<lambda>i. bytes_le32 (working ! i + state ! i)) [0..<16]))"

function chacha20_loop :: "u32 list \<Rightarrow> u32 list \<Rightarrow> bytes \<Rightarrow> u32 \<Rightarrow> nat \<Rightarrow> bytes \<Rightarrow> bytes" where
  "chacha20_loop key nonce plain counter offset result =
     (if offset < length plain
      then let block = chacha20_block key nonce counter;
               chunk = (if length plain - offset < 64 then length plain - offset else 64);
               result = fold (\<lambda>i r. r[offset + i := plain ! (offset + i) XOR block ! i]) [0..<chunk] result
           in chacha20_loop key nonce plain (counter + 1) (offset + chunk) result
      else result)"
  by pat_completeness auto

termination chacha20_loop
  by (relation "measure (\<lambda>(key, nonce, plain, counter, offset, result). length plain - offset)") auto

declare chacha20_loop.simps [simp del]

definition crypto_chacha20 :: "hash_arg list \<Rightarrow> int option \<Rightarrow> hash_error + hash_result" where
  "crypto_chacha20 args arg4 =
     (case get_hash_data args 1 of Inl e \<Rightarrow> Inl e | Inr keyData \<Rightarrow>
     (case get_hash_data args 2 of Inl e \<Rightarrow> Inl e | Inr nonceData \<Rightarrow>
     (case get_hash_data args 3 of Inl e \<Rightarrow> Inl e | Inr plainData \<Rightarrow>
        (let counter = (case arg4 of None \<Rightarrow> 1 | Some n \<Rightarrow> of_int n)
         in if length keyData \<noteq> 32 then Inl (ArgError 1)
           else if length nonceData \<noteq> 12 then Inl (ArgError 2)
           else Inr (RString (chacha20_loop (map (le32 keyData) [0..<8]) (map (le32 nonceData) [0..<3]) plainData
                               counter 0 (replicate (length plainData) 0)))))))"

section \<open>Random bytes\<close>

text \<open>
  The POSIX branch. The device is a parameter: \<open>None\<close> when it cannot be opened, otherwise what the successive calls of
  \<open>read\<close> deliver, cut to the size asked for; an empty answer is the end of the file or an error.
\<close>

fun random_loop :: "nat \<Rightarrow> bytes list \<Rightarrow> bytes \<Rightarrow> nat \<Rightarrow> bytes" where
  "random_loop count [] buf readBytes = buf"
| "random_loop count (r # reads) buf readBytes =
     (if readBytes < count
      then let res = take (count - readBytes) r
           in if res = [] then buf else random_loop count reads (blit buf readBytes res) (readBytes + length res)
      else buf)"

definition hash_random_bytes :: "bytes list option \<Rightarrow> int \<Rightarrow> hash_error + hash_result" where
  "hash_random_bytes dev count =
     (if \<not> (count > 0 \<and> count \<le> 1048576) then Inl (ArgError 1)
      else let buf = replicate (nat count) 0
           in Inr (RString (case dev of None \<Rightarrow> buf | Some reads \<Rightarrow> random_loop (nat count) reads buf 0)))"

section \<open>HMAC as RFC 2104 describes it\<close>

definition rfc2104 :: "(bytes \<Rightarrow> bytes) \<Rightarrow> nat \<Rightarrow> bytes \<Rightarrow> bytes \<Rightarrow> bytes" where
  "rfc2104 H B key data =
     (let k = (if length key > B then H key else key); K0 = k @ replicate (B - length k) 0
      in H (map (\<lambda>b. b XOR 0x5C) K0 @ H (map (\<lambda>b. b XOR 0x36) K0 @ data)))"

text \<open>
  What HMAC needs of a digest: computed on a buffer of one block with any content it is a function of the data, with a
  result that fits into a block.
\<close>

locale hmac_digest =
  fixes digest :: "bytes \<Rightarrow> bytes \<Rightarrow> bytes"
    and H :: "bytes \<Rightarrow> bytes"
    and B L limit :: nat
  assumes agree: "length buffer0 = B \<Longrightarrow> length data < limit \<Longrightarrow> digest buffer0 data = H data"
    and length_H: "length (H data) = L"
    and fits: "L \<le> B" "B + L < limit"
begin

lemma key_block:
  assumes "length k \<le> B"
  shows "map (\<lambda>i. blit (replicate B 0) 0 k ! i XOR c) [0..<B] = map (\<lambda>b. b XOR c) (k @ replicate (B - length k) 0)"
proof -
  have e: "blit (replicate B 0) 0 k = k @ replicate (B - length k) 0" by (simp add: blit_def)
  have "length (k @ replicate (B - length k) 0) = B" using assms by simp
  then show ?thesis unfolding e by (intro nth_equalityI) (simp_all only: length_map length_upt nth_map nth_upt, simp_all)
qed

lemma hmac:
  assumes "\<And>i. length (bufs i) = B" "length key < limit" "B + length data < limit"
  defines "kp \<equiv> blit (replicate B 0) 0 (if length key > B then digest (bufs 0) key else key)"
  shows "digest (bufs 2) (map (\<lambda>i. kp ! i XOR 0x5C) [0..<B] @ digest (bufs 1) (map (\<lambda>i. kp ! i XOR 0x36) [0..<B] @ data)) = rfc2104 H B key data"
proof -
  define k where "k = (if length key > B then H key else key)"
  have kp: "kp = blit (replicate B 0) 0 k" unfolding kp_def k_def using agree [OF assms(1,2), of 0] by simp
  have k: "length k \<le> B" unfolding k_def using length_H fits by simp
  define K0 where "K0 = k @ replicate (B - length k) 0"
  have K0: "length K0 = B" unfolding K0_def using k by simp
  have "digest (bufs 1) (map (\<lambda>b. b XOR 0x36) K0 @ data) = H (map (\<lambda>b. b XOR 0x36) K0 @ data)"
    using assms(3) K0 by (intro agree assms(1)) simp
  moreover have "digest (bufs 2) (map (\<lambda>b. b XOR 0x5C) K0 @ H x) = H (map (\<lambda>b. b XOR 0x5C) K0 @ H x)" for x
    using fits K0 length_H by (intro agree assms(1)) simp
  ultimately show ?thesis unfolding kp key_block [OF k] K0_def [symmetric] rfc2104_def Let_def k_def [symmetric] by simp
qed

end

abbreviation "md5_std \<equiv> std_digest md5_compress bytes_le32 4 64 56 bits_le md5_init"
abbreviation "sha1_std \<equiv> std_digest sha1_compress bytes_be32 5 64 56 (bits_be 8) sha1_init"
abbreviation "sha256_std \<equiv> std_digest sha256_compress bytes_be32 8 64 56 (bits_be 8) sha256_init"
abbreviation "sha224_std \<equiv> std_digest sha256_compress bytes_be32 7 64 56 (bits_be 8) sha224_init"
abbreviation "sha384_std \<equiv> std_digest sha512_compress bytes_be64 6 128 112 (bits_be 16) sha384_init"
abbreviation "sha512_std \<equiv> std_digest sha512_compress bytes_be64 8 128 112 (bits_be 16) sha512_init"

lemma length_std:
  "length (md5_std data) = 16" "length (sha1_std data) = 20" "length (sha256_std data) = 32" "length (sha512_std data) = 64"
  by (simp_all add: std_digest_def length_words length_foldl_state [of _ 4] length_foldl_state [of _ 5] length_foldl_state [of _ 8]
      length_transforms md5_init_def sha1_init_def sha256_init_def sha512_init_def flip: transforms_eq)

lemma digest_agree:
  "length b = 64 \<Longrightarrow> length data < 2 ^ 64 \<Longrightarrow> compute_md5 b data = md5_std data"
  "length b = 64 \<Longrightarrow> length data < 2 ^ 64 \<Longrightarrow> compute_sha1 b data = sha1_std data"
  "length b = 64 \<Longrightarrow> length data < 2 ^ 64 \<Longrightarrow> compute_sha256 b data = sha256_std data"
  "length c = 128 \<Longrightarrow> length data < 2 ^ 64 \<Longrightarrow> compute_sha512 c data = sha512_std data"
  using digests_std [of data b "replicate 128 0"] digests_std [of data "replicate 64 0" c] by simp_all

interpretation md5_mac: hmac_digest compute_md5 md5_std 64 16 "2 ^ 64"
  by unfold_locales (simp_all only: digest_agree length_std, simp_all)

interpretation sha1_mac: hmac_digest compute_sha1 sha1_std 64 20 "2 ^ 64"
  by unfold_locales (simp_all only: digest_agree length_std, simp_all)

interpretation sha256_mac: hmac_digest compute_sha256 sha256_std 64 32 "2 ^ 64"
  by unfold_locales (simp_all only: digest_agree length_std, simp_all)

interpretation sha512_mac: hmac_digest compute_sha512 sha512_std 128 64 "2 ^ 64"
  by unfold_locales (simp_all only: digest_agree length_std, simp_all)

lemma compute_hmac_eq:
  assumes "\<And>i x. length (h i x) = L"
  shows "compute_hmac key data h L =
    (let kp = blit (replicate 64 0) 0 (if length key > 64 then h 0 key else key)
     in h 2 (map (\<lambda>i. kp ! i XOR 0x5C) [0..<64] @ h 1 (map (\<lambda>i. kp ! i XOR 0x36) [0..<64] @ data)))"
  using assms by (simp add: compute_hmac_def Let_def blit_def [of "replicate L 0"] del: upt_Suc)

section \<open>The stream cipher\<close>

definition keystream :: "u32 list \<Rightarrow> u32 list \<Rightarrow> u32 \<Rightarrow> nat \<Rightarrow> u8" where
  "keystream key nonce counter i = chacha20_block key nonce (counter + of_nat (i div 64)) ! (i mod 64)"

lemma chacha20_loop_done: "length plain \<le> offset \<Longrightarrow> chacha20_loop key nonce plain counter offset result = result"
  by (subst chacha20_loop.simps) simp

lemma chacha20_loop_eq:
  "length result = length plain \<Longrightarrow>
   chacha20_loop key nonce plain (c + of_nat n) (64 * n) result
     = take (64 * n) result @ map (\<lambda>i. plain ! i XOR keystream key nonce c i) [64 * n..<length plain]"
proof (induction "length plain - 64 * n" arbitrary: n result rule: less_induct)
  case less
  show ?case
  proof (cases "64 * n < length plain")
    case True
    define k where "k = min 64 (length plain - 64 * n)"
    have k: "k = (if length plain - 64 * n < 64 then length plain - 64 * n else 64)" by (simp add: k_def)
    define r where "r = take (64 * n) result @ map (\<lambda>i. plain ! i XOR keystream key nonce c i) [64 * n..<64 * n + k] @ drop (64 * n + k) result"
    have "map (\<lambda>i. plain ! (64 * n + i) XOR chacha20_block key nonce (c + of_nat n) ! i) [0..<k]
        = map (\<lambda>i. plain ! i XOR keystream key nonce c i) [64 * n..<64 * n + k]"
      by (rule nth_equalityI) (auto simp: keystream_def k_def)
    then have f: "fold (\<lambda>i r. r[64 * n + i := plain ! (64 * n + i) XOR chacha20_block key nonce (c + of_nat n) ! i]) [0..<k] result = r"
      unfolding r_def using less.prems True by (subst fold_put) (auto simp: k_def)
    have step: "chacha20_loop key nonce plain (c + of_nat n) (64 * n) result = chacha20_loop key nonce plain (c + of_nat n + 1) (64 * n + k) r"
      using True f by (subst chacha20_loop.simps) (simp add: Let_def flip: k)
    have lr: "length r = length plain" unfolding r_def using less.prems True by (simp add: k_def)
    show ?thesis
    proof (cases "length plain - 64 * n < 64")
      case True
      then have "64 * n + k = length plain" unfolding k using \<open>64 * n < length plain\<close> by simp
      then show ?thesis unfolding step using less.prems by (simp add: chacha20_loop_done r_def)
    next
      case False
      then have k64: "64 * n + k = 64 * Suc n" "64 * Suc n \<le> length plain" unfolding k by auto
      have "chacha20_loop key nonce plain (c + of_nat (Suc n)) (64 * Suc n) r
          = take (64 * Suc n) r @ map (\<lambda>i. plain ! i XOR keystream key nonce c i) [64 * Suc n..<length plain]"
        using True by (intro less.hyps lr) simp
      moreover have "take (64 * Suc n) r = take (64 * n) result @ map (\<lambda>i. plain ! i XOR keystream key nonce c i) [64 * n..<64 * Suc n]"
        unfolding r_def k64(1) using less.prems k64(2) by simp
      moreover have "[64 * n..<length plain] = [64 * n..<64 * Suc n] @ [64 * Suc n..<length plain]"
        using k64(2) upt_add_eq_append [of "64 * n" "64 * Suc n" "length plain - 64 * Suc n"] by simp
      ultimately show ?thesis unfolding step k64(1) by (simp add: ac_simps)
    qed
  next
    case False
    then show ?thesis using less.prems by (simp add: chacha20_loop_done)
  qed
qed

definition chacha20_xor :: "u32 list \<Rightarrow> u32 list \<Rightarrow> u32 \<Rightarrow> bytes \<Rightarrow> bytes" where
  "chacha20_xor key nonce c plain = map (\<lambda>i. plain ! i XOR keystream key nonce c i) [0..<length plain]"

lemma chacha20_start: "chacha20_loop key nonce plain c 0 (replicate (length plain) 0) = chacha20_xor key nonce c plain"
  using chacha20_loop_eq [of "replicate (length plain) 0" plain key nonce c 0] by (simp add: chacha20_xor_def)

lemma chacha20_xor_twice: "chacha20_xor key nonce c (chacha20_xor key nonce c plain) = plain"
  by (rule nth_equalityI) (simp_all add: chacha20_xor_def xor.assoc)

text \<open>
  A successful call of \<open>randomBytes\<close> returns the number of bytes asked for, but not every byte comes from the device: when
  the device cannot be opened or its reads end early, the rest of the string is zeros and no error is raised.
\<close>

lemma length_random_loop: "length buf = count \<Longrightarrow> readBytes \<le> count \<Longrightarrow> length (random_loop count reads buf readBytes) = count"
  by (induction count reads buf readBytes rule: random_loop.induct) (auto simp: Let_def min_def)

lemma random_bytes_zero:
  assumes "0 < count" "count \<le> 1048576"
  shows "hash_random_bytes None count = Inr (RString (replicate (nat count) 0))"
    and "length r \<le> nat count \<Longrightarrow> hash_random_bytes (Some [r]) count = Inr (RString (r @ replicate (nat count - length r) 0))"
    and "\<exists>s. hash_random_bytes dev count = Inr (RString s) \<and> length s = nat count"
  using assms by (auto simp: hash_random_bytes_def Let_def blit_def length_random_loop split: option.splits)

section \<open>Entry points\<close>

lemma hmac_rfc2104:
  assumes "\<And>i. length (b64 i) = 64" "\<And>i. length (b128 i) = 128" "length key < 2 ^ 64" "128 + length data < 2 ^ 64"
  shows "compute_hmac key data (\<lambda>i. compute_md5 (b64 i)) 16 = rfc2104 md5_std 64 key data
    \<and> compute_hmac key data (\<lambda>i. compute_sha1 (b64 i)) 20 = rfc2104 sha1_std 64 key data
    \<and> compute_hmac key data (\<lambda>i. compute_sha256 (b64 i)) 32 = rfc2104 sha256_std 64 key data
    \<and> compute_hmac_sha512 b128 key data = rfc2104 sha512_std 128 key data"
proof (intro conjI)
  have d: "64 + length data < 2 ^ 64" using assms(4) by simp
  show "compute_hmac key data (\<lambda>i. compute_md5 (b64 i)) 16 = rfc2104 md5_std 64 key data"
    using md5_mac.hmac [OF assms(1,3) d] by (simp only: compute_hmac_eq length_digests Let_def)
  show "compute_hmac key data (\<lambda>i. compute_sha1 (b64 i)) 20 = rfc2104 sha1_std 64 key data"
    using sha1_mac.hmac [OF assms(1,3) d] by (simp only: compute_hmac_eq length_digests Let_def)
  show "compute_hmac key data (\<lambda>i. compute_sha256 (b64 i)) 32 = rfc2104 sha256_std 64 key data"
    using sha256_mac.hmac [OF assms(1,3) d] by (simp only: compute_hmac_eq length_digests Let_def)
  show "compute_hmac_sha512 b128 key data = rfc2104 sha512_std 128 key data"
    using sha512_mac.hmac [of b128 key data] assms(2-4) unfolding compute_hmac_sha512_def Let_def
    by (cases "128 < length key") (simp_all del: upt_Suc)
qed

lemma push_exact:
  "length out = sz \<Longrightarrow> n = sz \<Longrightarrow> push_digest sz out n = Inr (RString out)"
  "length out = sz \<Longrightarrow> len = sz \<Longrightarrow> hexsize = 2 * sz \<Longrightarrow> n = 2 * sz \<Longrightarrow>
     push_hex sz out len hexsize n = Inr (RString (bytes_to_hex out))"
  by (simp_all add: push_digest_def push_hex_def local_array_def hex_array_def lua_pushlstring_def)

lemmas digest_entries = hash_md5_def hash_md5hex_def hash_sha1_def hash_sha1hex_def hash_sha224_def hash_sha224hex_def
  hash_sha256_def hash_sha256hex_def hash_sha384_def hash_sha384hex_def hash_sha512_def hash_sha512hex_def

lemmas hmac_entries = hash_hmac_md5_def hash_hmac_md5hex_def hash_hmac_sha1_def hash_hmac_sha1hex_def
  hash_hmac_sha256_def hash_hmac_sha256hex_def hash_hmac_sha512_def hash_hmac_sha512hex_def

lemma length_rfc2104: "(\<And>x. length (H x) = n) \<Longrightarrow> length (rfc2104 H B key data) = n"
  by (simp add: rfc2104_def Let_def)

lemma with_data_cases:
  "arg \<in> {AString s, ABuffer s} \<Longrightarrow> with_data f (arg # rest) = f s"
  "with_data f (AOther # rest) = Inl (TypeError 1)" "with_data f [] = Inl (TypeError 1)"
  by (auto simp: with_data_def get_hash_data_def)

lemma with_data2_cases:
  "arg \<in> {AString s, ABuffer s} \<Longrightarrow> arg2 \<in> {AString t, ABuffer t} \<Longrightarrow> with_data2 f (arg # arg2 # rest) = f s t"
  "arg \<in> {AString s, ABuffer s} \<Longrightarrow> with_data2 f (arg # AOther # rest) = Inl (TypeError 2)"
  "arg \<in> {AString s, ABuffer s} \<Longrightarrow> with_data2 f [arg] = Inl (TypeError 2)"
  "with_data2 f (AOther # rest) = Inl (TypeError 1)" "with_data2 f [] = Inl (TypeError 1)"
  by (auto simp: with_data2_def get_hash_data_def)

section \<open>Properties\<close>

text \<open>C28. The HMAC functions compute the code RFC 2104 defines from the digest of its standard, for keys shorter and longer
  than a block, whatever the stack buffers of the three digest calls hold.\<close>

theorem hmac_meets_rfc2104:
  assumes "\<And>i. length (b64 i) = 64" "\<And>i. length (b128 i) = 128" "length key < 2 ^ 64" "128 + length data < 2 ^ 64"
  shows "compute_hmac key data (\<lambda>i. compute_md5 (b64 i)) 16 = rfc2104 md5_std 64 key data
    \<and> compute_hmac key data (\<lambda>i. compute_sha1 (b64 i)) 20 = rfc2104 sha1_std 64 key data
    \<and> compute_hmac key data (\<lambda>i. compute_sha256 (b64 i)) 32 = rfc2104 sha256_std 64 key data
    \<and> compute_hmac_sha512 b128 key data = rfc2104 sha512_std 128 key data"
  by (rule hmac_rfc2104 [OF assms])

theorem hmac_meets_rfc2104_witness:
  "compute_hmac (replicate 100 1) [2, 3] (\<lambda>i. compute_sha256 (replicate 64 (of_nat i))) 32 = rfc2104 sha256_std 64 (replicate 100 1) [2, 3]"
  using hmac_meets_rfc2104 [of "\<lambda>i. replicate 64 (of_nat i)" "\<lambda>i. replicate 128 0" "replicate 100 1" "[2, 3]"] by simp

text \<open>C29. ChaCha20 with a 32-byte key and a 12-byte nonce exclusive-ors byte \<open>i\<close> with byte \<open>i mod 64\<close> of the block at
  \<open>counter + i div 64\<close>, counting modulo \<open>2\<^sup>3\<^sup>2\<close>; encrypting twice gives the text back. Keys and nonces of other lengths
  are rejected.\<close>

theorem chacha20_correct:
  "crypto_chacha20 [AString key, AString nonce, AString plain] arg4 =
     (if length key \<noteq> 32 then Inl (ArgError 1) else if length nonce \<noteq> 12 then Inl (ArgError 2)
      else Inr (RString (map (\<lambda>i. plain ! i XOR keystream (map (le32 key) [0..<8]) (map (le32 nonce) [0..<3])
              (case arg4 of None \<Rightarrow> 1 | Some n \<Rightarrow> of_int n) i) [0..<length plain])))
   \<and> (length key = 32 \<longrightarrow> length nonce = 12 \<longrightarrow> (\<exists>c. crypto_chacha20 [AString key, AString nonce, AString plain] arg4 = Inr (RString c)
        \<and> crypto_chacha20 [AString key, AString nonce, AString c] arg4 = Inr (RString plain)))"
  by (simp add: crypto_chacha20_def get_hash_data_def chacha20_start Let_def chacha20_xor_twice del: upt_Suc)
    (simp add: chacha20_xor_def)

theorem chacha20_correct_witness:
  "\<exists>c. crypto_chacha20 [AString (replicate 32 5), AString (replicate 12 6), AString [1, 2, 3]] (Some (- 1)) = Inr (RString c)
     \<and> crypto_chacha20 [AString (replicate 32 5), AString (replicate 12 6), AString c] (Some (- 1)) = Inr (RString [1, 2, 3])"
  by (rule chacha20_correct [of "replicate 32 5" "replicate 12 6" "[1, 2, 3]" "Some (- 1)", THEN conjunct2, rule_format]) simp_all

text \<open>C30. The entry points for digests: for a string or a buffer as first argument the plain one returns the digest of
  its standard and the other its hexadecimal text, of the digest's size and twice that, with no access outside the local
  arrays; any other or a missing first argument is a type error. The HMAC entry points do the same with the code of RFC
  2104 over their two arguments, the second one checked after the first.\<close>

theorem digest_entry_points:
  assumes "(raw, hex, std, n) \<in> set [(hash_md5 b64, hash_md5hex b64, md5_std, 16), (hash_sha1 b64, hash_sha1hex b64, sha1_std, 20),
      (hash_sha224 b64, hash_sha224hex b64, sha224_std, 28), (hash_sha256 b64, hash_sha256hex b64, sha256_std, 32),
      (hash_sha384 b128, hash_sha384hex b128, sha384_std, 48), (hash_sha512 b128, hash_sha512hex b128, sha512_std, 64)]"
    and "(mac, machex, H, B) \<in> set [(hash_hmac_md5 c64, hash_hmac_md5hex c64, md5_std, 64), (hash_hmac_sha1 c64, hash_hmac_sha1hex c64, sha1_std, 64),
      (hash_hmac_sha256 c64, hash_hmac_sha256hex c64, sha256_std, 64), (hash_hmac_sha512 c128, hash_hmac_sha512hex c128, sha512_std, 128)]"
    and "length b64 = 64" "length b128 = 128" "\<And>i. length (c64 i) = 64" "\<And>i. length (c128 i) = 128"
    and "arg \<in> {AString s, ABuffer s}" "arg2 \<in> {AString t, ABuffer t}" "length s < 2 ^ 64" "128 + length t < 2 ^ 64"
  shows "length (std s) = n \<and> raw (arg # rest) = Inr (RString (std s)) \<and> hex (arg # rest) = Inr (RString (bytes_to_hex (std s)))
    \<and> (\<forall>f \<in> {raw, hex}. f (AOther # rest) = Inl (TypeError 1) \<and> f [] = Inl (TypeError 1))
    \<and> mac (arg # arg2 # rest) = Inr (RString (rfc2104 H B s t)) \<and> machex (arg # arg2 # rest) = Inr (RString (bytes_to_hex (rfc2104 H B s t)))
    \<and> (\<forall>f \<in> {mac, machex}. f (AOther # rest) = Inl (TypeError 1) \<and> f [] = Inl (TypeError 1)
         \<and> f (arg # AOther # rest) = Inl (TypeError 2) \<and> f [arg] = Inl (TypeError 2))"
proof -
  note std = digests_std [OF assms(9,3,4)] and len = length_digests [of b64 s] length_digests [of b128 s]
  have digest: "length (std s) = n \<and> raw (arg # rest) = Inr (RString (std s)) \<and> hex (arg # rest) = Inr (RString (bytes_to_hex (std s)))"
    using assms(1) std len by (auto simp: digest_entries with_data_cases(1) [OF assms(7)] push_exact)
  have wrong: "\<forall>f \<in> {raw, hex}. f (AOther # rest) = Inl (TypeError 1) \<and> f [] = Inl (TypeError 1)"
    using assms(1) by (auto simp: digest_entries with_data_cases)
  have hmac: "mac (arg # arg2 # rest) = Inr (RString (rfc2104 H B s t)) \<and> machex (arg # arg2 # rest) = Inr (RString (bytes_to_hex (rfc2104 H B s t)))"
    using assms(2) hmac_rfc2104 [of c64 c128, OF assms(5,6,9,10)] length_rfc2104 [OF length_std(1)] length_rfc2104 [OF length_std(2)]
      length_rfc2104 [OF length_std(3)] length_rfc2104 [OF length_std(4)]
    by (auto simp: hmac_entries with_data2_cases(1) [OF assms(7,8)] push_exact)
  have "\<forall>f \<in> {mac, machex}. f (AOther # rest) = Inl (TypeError 1) \<and> f [] = Inl (TypeError 1)
         \<and> f (arg # AOther # rest) = Inl (TypeError 2) \<and> f [arg] = Inl (TypeError 2)"
    using assms(2) by (auto simp: hmac_entries with_data2_cases with_data2_cases(2,3) [OF assms(7)])
  with digest wrong hmac show ?thesis by blast
qed

theorem digest_entry_points_witness:
  "hash_sha1 (replicate 64 0) [ABuffer [1]] = Inr (RString (sha1_std [1])) \<and> hash_sha1hex (replicate 64 0) [AOther] = Inl (TypeError 1)
    \<and> hash_hmac_md5 (\<lambda>i. replicate 64 0) [ABuffer [1], AString [2]] = Inr (RString (rfc2104 md5_std 64 [1] [2]))
    \<and> hash_hmac_md5hex (\<lambda>i. replicate 64 0) [ABuffer [1]] = Inl (TypeError 2)"
  using digest_entry_points [of "hash_sha1 (replicate 64 0)" "hash_sha1hex (replicate 64 0)" sha1_std 20 "replicate 64 0" "replicate 128 0"
      "hash_hmac_md5 (\<lambda>i. replicate 64 0)" "hash_hmac_md5hex (\<lambda>i. replicate 64 0)" md5_std 64 "\<lambda>i. replicate 64 0" "\<lambda>i. replicate 128 0"
      "ABuffer [1]" "[1]" "AString [2]" "[2]" "[]"] by (simp del: upt_Suc)

end
