(* ===== verification/Utf8.thy ===== *)
theory Utf8
  imports Prelude
begin

text \<open>
  The \<open>utf8\<close> library of \<^verbatim>\<open>VM/src/lutf8lib.cpp\<close>. A script string is its bytes followed by the terminating zero the VM
  keeps after them; reading beyond the zero is an error of the model, so that the safety of the scanning loops
  is a theorem. The decoder is proved to accept exactly the encodings of the Unicode scalar values.
\<close>

section \<open>Strings\<close>

text \<open>
  The errors the library raises, reading beyond the terminator (\<open>OutOfBounds\<close>) and a signed overflow, which C++ leaves
  undefined (\<open>Undefined\<close>). \<open>StackOverflow\<close> is the error of \<open>luaL_checkstack\<close>; growing the Lua stack up to the limit
  is taken to succeed.
\<close>

datatype utf8_error = OutOfBounds | BadArgument nat | InvalidCode | SliceTooLong | StackOverflow | ContinuationByte | Undefined

definition char_at :: "bytes \<Rightarrow> nat \<Rightarrow> utf8_error + u8" where
  "char_at s i = (if i < length s then Inr (s ! i) else if i = length s then Inr 0 else Inl OutOfBounds)"

definition iscont :: "u8 \<Rightarrow> bool" where
  "iscont b \<longleftrightarrow> b AND 0xC0 = 0x80"

definition u_posrelat :: "int \<Rightarrow> nat \<Rightarrow> int" where
  "u_posrelat pos len = (if pos \<ge> 0 then pos else if - pos > int len then 0 else int len + pos + 1)"

section \<open>Decoding\<close>

definition limits :: "u32 list" where
  "limits = [0xFF, 0x7F, 0x7FF, 0xFFFF]"

function utf8_continue :: "bytes \<Rightarrow> nat \<Rightarrow> u32 \<Rightarrow> u32 \<Rightarrow> nat \<Rightarrow> utf8_error + (u32 \<times> u32 \<times> nat) option" where
  "utf8_continue s pos c res count =
     (if c AND 0x40 \<noteq> 0
      then case char_at s (pos + count + 1) of
          Inl e \<Rightarrow> Inl e
        | Inr cc \<Rightarrow> if \<not> iscont cc then Inr None
                  else utf8_continue s pos (push_bit 1 c) (push_bit 6 res OR ucast (cc AND 0x3F)) (count + 1)
      else Inr (Some (c, res, count)))"
  by pat_completeness auto

termination utf8_continue
  by (relation "measure (\<lambda>(s, pos, c, res, count). Suc (length s) - (pos + count))") (auto simp: char_at_def split: if_splits)

declare utf8_continue.simps [simp del]

definition utf8_decode :: "bytes \<Rightarrow> nat \<Rightarrow> utf8_error + (u32 \<times> nat) option" where
  "utf8_decode s pos =
     (case char_at s pos of
        Inl e \<Rightarrow> Inl e
      | Inr b \<Rightarrow>
          let c = ucast b :: u32
          in if c < 0x80 then Inr (Some (c, pos + 1))
             else case utf8_continue s pos c 0 0 of
                 Inl e \<Rightarrow> Inl e
               | Inr None \<Rightarrow> Inr None
               | Inr (Some (c, res, count)) \<Rightarrow>
                   let res = res OR push_bit (count * 5) (c AND 0x7F)
                   in if count > 3 \<or> res > 0x10FFFF \<or> res \<le> limits ! count then Inr None
                      else if res - 0xD800 < 0x800 then Inr None
                      else Inr (Some (res, pos + count + 1)))"

section \<open>Encoding\<close>

function utf8esc_loop :: "u32 \<Rightarrow> u32 \<Rightarrow> bytes \<Rightarrow> bytes" where
  "utf8esc_loop x mfb buff =
     (let buff = ucast (0x80 OR (x AND 0x3F)) # buff; x' = drop_bit 6 x; mfb = drop_bit 1 mfb
      in if x' > mfb then utf8esc_loop x' mfb buff else ucast (push_bit 1 (NOT mfb) OR x') # buff)"
  by pat_completeness auto

lemma unat_shift: "unat (drop_bit n x) = unat x div 2 ^ n" for x :: u32
  unfolding unat_drop_bit_eq by (rule drop_bit_eq_div)

termination utf8esc_loop
proof (relation "measure (\<lambda>(x, mfb, buff). unat x)", goal_cases)
  case (2 x mfb buff a b c)
  then have "0 < unat b" by (auto simp: word_less_nat_alt)
  moreover have "unat b = unat x div 64" using 2(2) unat_shift [of 6 x] by simp
  ultimately show ?case using 2(2) by (simp add: div_less_dividend)
qed simp

declare utf8esc_loop.simps [simp del]

definition luaO_utf8esc :: "u32 \<Rightarrow> bytes" where
  "luaO_utf8esc x = (if x < 0x80 then [ucast x] else utf8esc_loop x 0x3F [])"

definition buffutfchar :: "nat \<Rightarrow> int \<Rightarrow> utf8_error + bytes" where
  "buffutfchar arg code = (if 0 \<le> code \<and> code \<le> 0x10FFFF then Inr (luaO_utf8esc (of_int code)) else Inl (BadArgument arg))"

fun utfchar_from :: "nat \<Rightarrow> int list \<Rightarrow> utf8_error + bytes" where
  "utfchar_from i [] = Inr []"
| "utfchar_from i (code # codes) =
     (case buffutfchar i code of
        Inl e \<Rightarrow> Inl e
      | Inr b \<Rightarrow> (case utfchar_from (i + 1) codes of Inl e \<Rightarrow> Inl e | Inr bs \<Rightarrow> Inr (b @ bs)))"

definition utfchar :: "int list \<Rightarrow> utf8_error + bytes" where
  "utfchar codes = (case codes of [code] \<Rightarrow> buffutfchar 1 code | _ \<Rightarrow> utfchar_from 1 codes)"

section \<open>Length and code points\<close>

datatype utf8_len = Length nat | InvalidAt int

lemma utf8_decode_next: "utf8_decode s pos = Inr (Some (code, next)) \<Longrightarrow> pos < next"
  by (auto simp: utf8_decode_def Let_def split: sum.splits option.splits if_splits prod.splits)

function utflen_loop :: "bytes \<Rightarrow> nat \<Rightarrow> int \<Rightarrow> nat \<Rightarrow> utf8_error + utf8_len" where
  "utflen_loop s posi posj n =
     (if int posi \<le> posj
      then case utf8_decode s posi of
          Inl e \<Rightarrow> Inl e
        | Inr None \<Rightarrow> Inr (InvalidAt (int posi + 1))
        | Inr (Some (code, s1)) \<Rightarrow> utflen_loop s s1 posj (n + 1)
      else Inr (Length n))"
  by pat_completeness auto


termination utflen_loop
  by (relation "measure (\<lambda>(s, posi, posj, n). nat (posj + 1 - int posi))") (auto dest!: utf8_decode_next)

declare utflen_loop.simps [simp del]

definition utflen :: "bytes \<Rightarrow> int option \<Rightarrow> int option \<Rightarrow> utf8_error + utf8_len" where
  "utflen s arg2 arg3 =
     (let len = length s;
          posi = u_posrelat (case arg2 of None \<Rightarrow> 1 | Some i \<Rightarrow> i) len;
          posj = u_posrelat (case arg3 of None \<Rightarrow> - 1 | Some j \<Rightarrow> j) len
      in if \<not> (1 \<le> posi \<and> posi - 1 \<le> int len) then Inl (BadArgument 2)
         else if \<not> posj - 1 < int len then Inl (BadArgument 3)
         else utflen_loop s (nat (posi - 1)) (posj - 1) 0)"

function codepoint_loop :: "bytes \<Rightarrow> nat \<Rightarrow> nat \<Rightarrow> utf8_error + u32 list" where
  "codepoint_loop s p se =
     (if p < se
      then case utf8_decode s p of
          Inl e \<Rightarrow> Inl e
        | Inr None \<Rightarrow> Inl InvalidCode
        | Inr (Some (code, next)) \<Rightarrow> (case codepoint_loop s next se of Inl e \<Rightarrow> Inl e | Inr codes \<Rightarrow> Inr (code # codes))
      else Inr [])"
  by pat_completeness auto

termination codepoint_loop
  by (relation "measure (\<lambda>(s, p, se). se - p)") (auto dest!: utf8_decode_next)

declare codepoint_loop.simps [simp del]

text \<open>
  \<open>luaL_checkstack\<close>: \<open>used\<close> is the number of slots the running function uses (\<open>L->top - L->base\<close>), for \<open>codepoint\<close> the
  number of its arguments.
\<close>

definition LUAI_MAXCSTACK :: int where
  "LUAI_MAXCSTACK = 8000"

definition luaL_checkstack :: "nat \<Rightarrow> int \<Rightarrow> utf8_error + unit" where
  "luaL_checkstack used space = (if space > LUAI_MAXCSTACK \<or> int used + space > LUAI_MAXCSTACK then Inl StackOverflow else Inr ())"

definition codepoint :: "nat \<Rightarrow> bytes \<Rightarrow> int option \<Rightarrow> int option \<Rightarrow> utf8_error + u32 list" where
  "codepoint used s arg2 arg3 =
     (let len = length s;
          posi = u_posrelat (case arg2 of None \<Rightarrow> 1 | Some i \<Rightarrow> i) len;
          pose = u_posrelat (case arg3 of None \<Rightarrow> posi | Some j \<Rightarrow> j) len
      in if \<not> posi \<ge> 1 then Inl (BadArgument 2)
         else if \<not> pose \<le> int len then Inl (BadArgument 3)
         else if posi > pose then Inr []
         else if pose - posi \<ge> 2 ^ 31 - 1 then Inl SliceTooLong
         else case luaL_checkstack used (pose - posi + 1) of
             Inl e \<Rightarrow> Inl e
           | Inr _ \<Rightarrow> codepoint_loop s (nat (posi - 1)) (nat pose))"

section \<open>Offsets\<close>

text \<open>The scanning loops: backwards over continuation bytes, and forwards until the byte is not one.\<close>

fun back_over :: "bytes \<Rightarrow> nat \<Rightarrow> utf8_error + nat" where
  "back_over s 0 = Inr 0"
| "back_over s (Suc posi) =
     (case char_at s (Suc posi) of Inl e \<Rightarrow> Inl e | Inr b \<Rightarrow> if iscont b then back_over s posi else Inr (Suc posi))"

function skip_over :: "bytes \<Rightarrow> nat \<Rightarrow> utf8_error + nat" where
  "skip_over s posi =
     (case char_at s posi of Inl e \<Rightarrow> Inl e | Inr b \<Rightarrow> if iscont b then skip_over s (posi + 1) else Inr posi)"
  by pat_completeness auto

termination skip_over
  by (relation "measure (\<lambda>(s, posi). Suc (length s) - posi)") (auto simp: char_at_def split: if_splits)

declare skip_over.simps [simp del]

fun move_back :: "bytes \<Rightarrow> nat \<Rightarrow> nat \<Rightarrow> utf8_error + nat \<times> nat" where
  "move_back s 0 posi = Inr (0, posi)"
| "move_back s (Suc n) posi =
     (if posi > 0 then case back_over s (posi - 1) of Inl e \<Rightarrow> Inl e | Inr posi \<Rightarrow> move_back s n posi
      else Inr (Suc n, posi))"

fun move_forward :: "bytes \<Rightarrow> nat \<Rightarrow> nat \<Rightarrow> utf8_error + nat \<times> nat" where
  "move_forward s 0 posi = Inr (0, posi)"
| "move_forward s (Suc n) posi =
     (if posi < length s then case skip_over s (posi + 1) of Inl e \<Rightarrow> Inl e | Inr posi \<Rightarrow> move_forward s n posi
      else Inr (Suc n, posi))"

definition byteoffset :: "bytes \<Rightarrow> int \<Rightarrow> int option \<Rightarrow> utf8_error + int option" where
  "byteoffset s n arg3 =
     (let len = length s;
          posi = u_posrelat (case arg3 of None \<Rightarrow> (if n \<ge> 0 then 1 else int len + 1) | Some i \<Rightarrow> i) len
      in if \<not> (1 \<le> posi \<and> posi - 1 \<le> int len) then Inl (BadArgument 3)
         else let posi = nat (posi - 1)
              in if n = 0 then map_sum id (\<lambda>p. Some (int p + 1)) (back_over s posi)
                 else case char_at s posi of
                     Inl e \<Rightarrow> Inl e
                   | Inr b \<Rightarrow>
                       if iscont b then Inl ContinuationByte
                       else map_sum id (\<lambda>(n, p). if n = 0 then Some (int p + 1) else None)
                              (if n < 0 then move_back s (nat (- n)) posi else move_forward s (nat (n - 1)) posi))"

section \<open>Iteration\<close>

definition iter_start :: "bytes \<Rightarrow> int \<Rightarrow> utf8_error + nat" where
  "iter_start s i =
     (let n = i - 1
      in if n < - (2 ^ 31) then Inl Undefined
         else if n < 0 then Inr 0 else if n < int (length s) then skip_over s (nat n + 1) else Inr (nat n))"

definition iter_aux :: "bytes \<Rightarrow> int \<Rightarrow> utf8_error + (nat \<times> u32) option" where
  "iter_aux s i =
     (case iter_start s i of
        Inl e \<Rightarrow> Inl e
      | Inr n \<Rightarrow>
          (if n \<ge> length s then Inr None
           else case utf8_decode s n of
               Inl e \<Rightarrow> Inl e
             | Inr None \<Rightarrow> Inl InvalidCode
             | Inr (Some (code, next)) \<Rightarrow>
                 (case char_at s next of Inl e \<Rightarrow> Inl e | Inr b \<Rightarrow> if iscont b then Inl InvalidCode else Inr (Some (n + 1, code)))))"

text \<open>The loop over \<open>utf8.codes\<close> in a script: the iterator is called with the position it returned last, at first with 0.\<close>

fun codes_loop :: "nat \<Rightarrow> bytes \<Rightarrow> int \<Rightarrow> utf8_error + (nat \<times> u32) list option" where
  "codes_loop 0 s i = Inr None"
| "codes_loop (Suc fuel) s i =
     (case iter_aux s i of
        Inl e \<Rightarrow> Inl e
      | Inr None \<Rightarrow> Inr (Some [])
      | Inr (Some (p, code)) \<Rightarrow> (case codes_loop fuel s (int p) of Inl e \<Rightarrow> Inl e | Inr r \<Rightarrow> Inr (map_option ((#) (p, code)) r)))"

section \<open>The encoding form\<close>

text \<open>Unicode scalar values and their encodings (RFC 3629).\<close>

definition is_scalar :: "u32 \<Rightarrow> bool" where
  "is_scalar x \<longleftrightarrow> x \<le> 0x10FFFF \<and> \<not> (0xD800 \<le> x \<and> x \<le> 0xDFFF)"

definition utf8_bytes :: "u32 \<Rightarrow> bytes" where
  "utf8_bytes x =
     (if x < 0x80 then [ucast x]
      else if x < 0x800 then [ucast (0xC0 OR drop_bit 6 x), ucast (0x80 OR (x AND 0x3F))]
      else if x < 0x10000 then [ucast (0xE0 OR drop_bit 12 x), ucast (0x80 OR (drop_bit 6 x AND 0x3F)), ucast (0x80 OR (x AND 0x3F))]
      else [ucast (0xF0 OR drop_bit 18 x), ucast (0x80 OR (drop_bit 12 x AND 0x3F)),
            ucast (0x80 OR (drop_bit 6 x AND 0x3F)), ucast (0x80 OR (x AND 0x3F))])"

text \<open>Words as their bits: comparisons with powers of two and the masks of the code.\<close>

lemma less_exp_bits: "x < 2 ^ n \<longleftrightarrow> (\<forall>i \<ge> n. \<not> bit x i)" if "n < LENGTH('a)" for x :: "'a::len word"
proof -
  have "(2 :: nat) ^ n < 2 ^ LENGTH('a)" using that by simp
  then have "unat (2 ^ n :: 'a word) = 2 ^ n" using unat_of_nat [of "2 ^ n", where 'a = 'a] by (simp only: of_nat_power of_nat_numeral mod_less)
  then have u: "x < 2 ^ n \<longleftrightarrow> unat x < 2 ^ n" by (simp only: word_less_nat_alt)
  show ?thesis unfolding u
  proof (intro iffI allI impI notI)
    fix i assume a: "unat x < 2 ^ n" "n \<le> i" "bit x i"
    have "unat x < 2 ^ i" using a(1,2) by (meson less_le_trans one_le_numeral power_increasing)
    then have "\<not> bit (unat x) i" by (simp add: bit_iff_odd)
    with a(3) show False by (simp add: bit_unat)
  next
    assume a: "\<forall>i \<ge> n. \<not> bit x i"
    have "take_bit n x = x" by (rule bit_word_eqI) (simp only: bit_take_bit_iff, meson a not_less)
    then have "unat x = take_bit n (unat x)" by (metis unsigned_take_bit_eq)
    then show "unat x < 2 ^ n" by (metis take_bit_nat_less_exp)
  qed
qed

lemma bits_ge: "x < 2 ^ n \<Longrightarrow> n \<le> i \<Longrightarrow> n < LENGTH('a) \<Longrightarrow> \<not> bit x i" for x :: "'a::len word"
  by (simp add: less_exp_bits)

lemma byte_bits_ge: "8 \<le> i \<Longrightarrow> \<not> bit (b :: u8) i"
  using bit_imp_le_length [of b i] by auto

lemma masks: "(0x3F :: u32) = mask 6" "(0x7F :: u32) = mask 7" "(0x3F :: u8) = mask 6"
  by (simp_all add: mask_numeral)

lemma eight: "n < LENGTH(8) \<Longrightarrow> n = 0 \<or> n = 1 \<or> n = 2 \<or> n = 3 \<or> n = 4 \<or> n = 5 \<or> n = 6 \<or> n = (7 :: nat)"
  by auto

lemma iscont_bits: "iscont b \<longleftrightarrow> bit b 7 \<and> \<not> bit b 6"
proof
  assume "iscont b"
  then have "bit (b AND 0xC0) n = bit (0x80 :: u8) n" for n unfolding iscont_def by simp
  from this [of 7] this [of 6] show "bit b 7 \<and> \<not> bit b 6" by (simp add: bit_and_iff)
next
  assume a: "bit b 7 \<and> \<not> bit b 6"
  show "iscont b" unfolding iscont_def
    by (rule bit_word_eqI, drule eight) (use a in \<open>elim disjE, simp_all add: bit_and_iff\<close>)
qed

lemma and_40: "c AND 0x40 \<noteq> 0 \<longleftrightarrow> bit c 6" for c :: u32
proof -
  have e: "(0x40 :: u32) = 2 ^ 6" by simp
  have b: "bit (c AND 2 ^ 6) n \<longleftrightarrow> n = 6 \<and> bit c 6" for n by (simp only: bit_and_iff bit_exp_iff) auto
  show ?thesis unfolding e
  proof
    assume "c AND 2 ^ 6 \<noteq> 0"
    then obtain n where "bit (c AND 2 ^ 6) n" by (metis bit_0_eq bit_word_eqI bot_apply bot_bool_def)
    then show "bit c 6" unfolding b ..
  next
    assume "bit c 6"
    then have "bit (c AND 2 ^ 6) 6" unfolding b by simp
    then show "c AND 2 ^ 6 \<noteq> 0" by (metis bit_0_eq bot_apply bot_bool_def)
  qed
qed

section \<open>Decoding is exact\<close>

text \<open>The byte at an offset, and the loop over continuation bytes step by step.\<close>

lemma char_at_less: "i < length s \<Longrightarrow> char_at s i = Inr (s ! i)"
  by (simp add: char_at_def)

lemma char_at_cont: "char_at s i = Inr b \<Longrightarrow> iscont b \<Longrightarrow> i < length s"
  by (auto simp: char_at_def iscont_def split: if_splits)

lemma continue_done: "\<not> bit c 6 \<Longrightarrow> utf8_continue s pos c res count = Inr (Some (c, res, count))"
  by (subst utf8_continue.simps) (use and_40 [of c] in auto)

lemma continue_step: "bit c 6 \<Longrightarrow> pos + count + 1 < length s \<Longrightarrow> iscont (s ! (pos + count + 1)) \<Longrightarrow>
    utf8_continue s pos c res count =
    utf8_continue s pos (push_bit 1 c) (push_bit 6 res OR ucast (s ! (pos + count + 1) AND 0x3F)) (count + 1)"
  by (subst utf8_continue.simps) (use and_40 [of c] in \<open>simp add: char_at_less\<close>)

lemma continue_stop: "bit c 6 \<Longrightarrow> pos + count + 1 \<le> length s \<Longrightarrow> \<not> (pos + count + 1 < length s \<and> iscont (s ! (pos + count + 1))) \<Longrightarrow>
    utf8_continue s pos c res count = Inr None"
  by (subst utf8_continue.simps) (use and_40 [of c] in \<open>auto simp: char_at_def iscont_def\<close>)

lemma continue_safe:
  "pos + count < length s \<Longrightarrow> (case utf8_continue s pos c res count of
     Inl e \<Rightarrow> False | Inr None \<Rightarrow> True | Inr (Some (c', res', count')) \<Rightarrow> count \<le> count' \<and> pos + count' < length s)"
proof (induction s pos c res count rule: utf8_continue.induct)
  case (1 s pos c res count)
  let ?i = "pos + count + 1"
  consider "\<not> bit c 6" | "bit c 6" "\<not> (?i < length s \<and> iscont (s ! ?i))" | "bit c 6" "?i < length s" "iscont (s ! ?i)" by blast
  then show ?case
  proof cases
    case 1 then show ?thesis using "1.prems" by (simp add: continue_done)
  next
    case 2 then show ?thesis using "1.prems" by (simp add: continue_stop)
  next
    case 3
    have "case utf8_continue s pos (push_bit 1 c) (push_bit 6 res OR ucast (s ! ?i AND 0x3F)) (count + 1) of
       Inl e \<Rightarrow> False | Inr None \<Rightarrow> True | Inr (Some (c', res', count')) \<Rightarrow> count + 1 \<le> count' \<and> pos + count' < length s"
      using 3 and_40 [of c] by (intro "1.IH" [of "s ! ?i"]) (auto simp: char_at_less)
    then show ?thesis unfolding continue_step [OF 3] by (auto split: sum.splits option.splits)
  qed
qed

text \<open>The value assembled from a lead byte and its continuation bytes.\<close>

definition assemble :: "u8 \<Rightarrow> u8 list \<Rightarrow> u32" where
  "assemble b cs = foldl (\<lambda>res cc. push_bit 6 res OR ucast (cc AND 0x3F)) 0 cs OR push_bit (length cs * 5) (push_bit (length cs) (ucast b) AND 0x7F)"

lemma continue_n:
  assumes "pos + count + length cs < length s" "\<forall>j < length cs. bit c (6 - j) \<and> iscont (cs ! j) \<and> s ! (pos + count + 1 + j) = cs ! j" "length cs \<le> 6"
  shows "utf8_continue s pos c res count
    = utf8_continue s pos (push_bit (length cs) c) (foldl (\<lambda>res cc. push_bit 6 res OR ucast (cc AND 0x3F)) res cs) (count + length cs)"
  using assms
proof (induction cs arbitrary: c res count)
  case (Cons b cs)
  have h: "bit c 6" "iscont b" "s ! (pos + count + 1) = b" using Cons.prems(2) [rule_format, of 0] by auto
  have "bit (push_bit 1 c) (6 - j) \<and> iscont (cs ! j) \<and> s ! (pos + (count + 1) + 1 + j) = cs ! j" if "j < length cs" for j
  proof -
    have j: "j \<le> 5" using Cons.prems(3) that by simp
    have "bit (push_bit 1 c) (6 - j) \<longleftrightarrow> bit c (6 - Suc j)" by (simp only: bit_push_bit_iff) (use j in auto)
    then show ?thesis using Cons.prems(2) [rule_format, of "Suc j"] that by (simp only:) simp
  qed
  then have "utf8_continue s pos (push_bit 1 c) (push_bit 6 res OR ucast (b AND 0x3F)) (count + 1) =
    utf8_continue s pos (push_bit (length cs) (push_bit 1 c))
      (foldl (\<lambda>res cc. push_bit 6 res OR ucast (cc AND 0x3F)) (push_bit 6 res OR ucast (b AND 0x3F)) cs) (count + 1 + length cs)"
    using Cons.prems by (intro Cons.IH) auto
  then show ?case using continue_step [of c pos count s res] h Cons.prems(1) by (simp add: push_bit_push_bit)
qed simp

text \<open>Lead bytes and the values they start, bit by bit.\<close>

lemma bit_of_byte: "bit (ucast (b :: u8) :: u32) n \<longleftrightarrow> bit b n"
  using byte_bits_ge [of n b] by (cases "n < 8") (auto simp: bit_ucast_iff)

lemma bit_to_byte: "n < 8 \<Longrightarrow> bit (ucast (w :: u32) :: u8) n \<longleftrightarrow> bit w n"
  by (simp add: bit_ucast_iff)

lemma assemble_simps:
  "assemble b [c1] = ucast (c1 AND mask 6) OR push_bit (1 * 5) (push_bit 1 (ucast b) AND mask 7)"
  "assemble b [c1, c2] = (push_bit 6 (ucast (c1 AND mask 6)) OR ucast (c2 AND mask 6)) OR push_bit (2 * 5) (push_bit 2 (ucast b) AND mask 7)"
  "assemble b [c1, c2, c3] = (push_bit 6 (push_bit 6 (ucast (c1 AND mask 6)) OR ucast (c2 AND mask 6)) OR ucast (c3 AND mask 6))
     OR push_bit (3 * 5) (push_bit 3 (ucast b) AND mask 7)"
proof -
  have l: "length [c1] = 1" "length [c1, c2] = 2" "length [c1, c2, c3] = 3" by simp_all
  show "assemble b [c1] = ucast (c1 AND mask 6) OR push_bit (1 * 5) (push_bit 1 (ucast b) AND mask 7)"
    unfolding assemble_def masks l by (simp only: foldl_Cons foldl_Nil push_bit_of_0 or.left_neutral)
  show "assemble b [c1, c2] = (push_bit 6 (ucast (c1 AND mask 6)) OR ucast (c2 AND mask 6)) OR push_bit (2 * 5) (push_bit 2 (ucast b) AND mask 7)"
    unfolding assemble_def masks l by (simp only: foldl_Cons foldl_Nil push_bit_of_0 or.left_neutral)
  show "assemble b [c1, c2, c3] = (push_bit 6 (push_bit 6 (ucast (c1 AND mask 6)) OR ucast (c2 AND mask 6)) OR ucast (c3 AND mask 6))
     OR push_bit (3 * 5) (push_bit 3 (ucast b) AND mask 7)"
    unfolding assemble_def masks l by (simp only: foldl_Cons foldl_Nil push_bit_of_0 or.left_neutral)
qed

lemma bit_assemble:
  "bit (assemble b [c1]) n \<longleftrightarrow> n < 6 \<and> bit c1 n \<or> 6 \<le> n \<and> n < 12 \<and> bit b (n - 6)"
  "bit (assemble b [c1, c2]) n \<longleftrightarrow> n < 6 \<and> bit c2 n \<or> 6 \<le> n \<and> n < 12 \<and> bit c1 (n - 6) \<or> 12 \<le> n \<and> n < 17 \<and> bit b (n - 12)"
  "bit (assemble b [c1, c2, c3]) n \<longleftrightarrow> n < 6 \<and> bit c3 n \<or> 6 \<le> n \<and> n < 12 \<and> bit c2 (n - 6) \<or> 12 \<le> n \<and> n < 18 \<and> bit c1 (n - 12)
     \<or> 18 \<le> n \<and> n < 22 \<and> bit b (n - 18)"
proof -
  show "bit (assemble b [c1]) n \<longleftrightarrow> n < 6 \<and> bit c1 n \<or> 6 \<le> n \<and> n < 12 \<and> bit b (n - 6)"
    unfolding assemble_simps by (simp only: bit_or_iff bit_and_iff bit_mask_iff bit_push_bit_iff bit_of_byte) auto
  show "bit (assemble b [c1, c2]) n \<longleftrightarrow> n < 6 \<and> bit c2 n \<or> 6 \<le> n \<and> n < 12 \<and> bit c1 (n - 6) \<or> 12 \<le> n \<and> n < 17 \<and> bit b (n - 12)"
    unfolding assemble_simps by (simp only: bit_or_iff bit_and_iff bit_mask_iff bit_push_bit_iff bit_of_byte) (cases "n < 6"; cases "n < 12"; cases "n < 17"; auto)
  show "bit (assemble b [c1, c2, c3]) n \<longleftrightarrow> n < 6 \<and> bit c3 n \<or> 6 \<le> n \<and> n < 12 \<and> bit c2 (n - 6) \<or> 12 \<le> n \<and> n < 18 \<and> bit c1 (n - 12)
     \<or> 18 \<le> n \<and> n < 22 \<and> bit b (n - 18)"
    unfolding assemble_simps by (simp only: bit_or_iff bit_and_iff bit_mask_iff bit_push_bit_iff bit_of_byte) (cases "n < 6"; cases "n < 12"; cases "n < 18"; cases "n < 22"; auto)
qed

lemma bit_lead: "n < 8 \<Longrightarrow> bit (ucast (m OR drop_bit k x) :: u8) n \<longleftrightarrow> bit m n \<or> bit x (k + n)" for x :: u32
  by (simp only: bit_to_byte bit_or_iff bit_drop_bit_eq comp_apply)

lemma bit_tail: "n < 8 \<Longrightarrow> bit (ucast (0x80 OR (drop_bit k x AND 0x3F)) :: u8) n \<longleftrightarrow> n = 7 \<or> n < 6 \<and> bit x (k + n)" for x :: u32
proof -
  assume n: "n < 8"
  have e: "(0x80 :: u32) = 2 ^ 7" by simp
  show ?thesis unfolding masks e using n by (simp only: bit_to_byte bit_or_iff bit_and_iff bit_drop_bit_eq comp_apply bit_mask_iff bit_exp_iff) auto
qed

lemma bit_tail0: "n < 8 \<Longrightarrow> bit (ucast (0x80 OR (x AND 0x3F)) :: u8) n \<longleftrightarrow> n = 7 \<or> n < 6 \<and> bit x n" for x :: u32
  using bit_tail [of n 0 x] by (simp only: drop_bit_0 id_apply add_0)

lemma byte_eqI: "(\<And>n. n < 8 \<Longrightarrow> bit a n = bit b n) \<Longrightarrow> a = (b :: u8)"
  by (rule bit_word_eqI) simp

lemma lead_consts:
  "n < 8 \<Longrightarrow> bit (0xC0 :: u32) n \<longleftrightarrow> 6 \<le> n"
  "n < 8 \<Longrightarrow> bit (0xE0 :: u32) n \<longleftrightarrow> 5 \<le> n"
  "n < 8 \<Longrightarrow> bit (0xF0 :: u32) n \<longleftrightarrow> 4 \<le> n"
  using eight [of n] by auto

lemma lead_eqI:
  fixes x :: u32
  assumes "\<And>n. n < 8 \<Longrightarrow> bit m n \<longleftrightarrow> k \<le> n" "\<And>n. k \<le> n \<Longrightarrow> n < 8 \<Longrightarrow> bit b n"
    "\<And>n. n < k \<Longrightarrow> bit b n = bit x (j + n)" "k \<le> 8"
  shows "ucast (m OR drop_bit j x) = (b :: u8)"
proof (rule byte_eqI)
  fix n :: nat assume n: "n < 8"
  show "bit (ucast (m OR drop_bit j x) :: u8) n = bit b n"
    unfolding bit_lead [OF n] assms(1) [OF n] using assms(2,3) n by (cases "k \<le> n") auto
qed

lemma tail_eqI: "iscont c \<Longrightarrow> (\<And>n. n < 6 \<Longrightarrow> bit c n = bit x (j + n)) \<Longrightarrow> ucast (0x80 OR (drop_bit j x AND 0x3F)) = c" for x :: u32
proof (rule byte_eqI)
  fix n :: nat
  assume n: "n < 8" and c: "iscont c" and b: "\<And>n. n < 6 \<Longrightarrow> bit c n = bit x (j + n)"
  consider "n < 6" | "n = 6" | "n = 7" using n by linarith
  then show "bit (ucast (0x80 OR (drop_bit j x AND 0x3F)) :: u8) n = bit c n"
    unfolding bit_tail [OF n] using b [of n] c [unfolded iscont_bits] by cases auto
qed

lemma tail0_eqI: "iscont c \<Longrightarrow> (\<And>n. n < 6 \<Longrightarrow> bit c n = bit x n) \<Longrightarrow> ucast (0x80 OR (x AND 0x3F)) = c" for x :: u32
  using tail_eqI [of c x 0] by (simp only: drop_bit_0 id_apply add_0)

text \<open>From bytes to the value and back.\<close>

lemma lead_bits:
  "bit b 7 \<Longrightarrow> bit b 6 \<Longrightarrow> 6 \<le> n \<Longrightarrow> n < 8 \<Longrightarrow> bit (b :: u8) n"
  "bit b 7 \<Longrightarrow> bit b 6 \<Longrightarrow> bit b 5 \<Longrightarrow> 5 \<le> n \<Longrightarrow> n < 8 \<Longrightarrow> bit (b :: u8) n"
  "bit b 7 \<Longrightarrow> bit b 6 \<Longrightarrow> bit b 5 \<Longrightarrow> bit b 4 \<Longrightarrow> 4 \<le> n \<Longrightarrow> n < 8 \<Longrightarrow> bit (b :: u8) n"
proof -
  have "n = 6 \<or> n = 7" if "6 \<le> n" "n < 8" using that by linarith
  then show "bit b 7 \<Longrightarrow> bit b 6 \<Longrightarrow> 6 \<le> n \<Longrightarrow> n < 8 \<Longrightarrow> bit b n" by auto
  have "n = 5 \<or> n = 6 \<or> n = 7" if "5 \<le> n" "n < 8" using that by linarith
  then show "bit b 7 \<Longrightarrow> bit b 6 \<Longrightarrow> bit b 5 \<Longrightarrow> 5 \<le> n \<Longrightarrow> n < 8 \<Longrightarrow> bit b n" by auto
  have "n = 4 \<or> n = 5 \<or> n = 6 \<or> n = 7" if "4 \<le> n" "n < 8" using that by linarith
  then show "bit b 7 \<Longrightarrow> bit b 6 \<Longrightarrow> bit b 5 \<Longrightarrow> bit b 4 \<Longrightarrow> 4 \<le> n \<Longrightarrow> n < 8 \<Longrightarrow> bit b n" by auto
qed

lemma encode_assemble1:
  assumes b: "bit b 7" "bit b 6" "\<not> bit b 5" and c: "iscont c1"
  defines "x \<equiv> assemble b [c1]"
  shows "x < 2 ^ 11" "ucast (0xC0 OR drop_bit 6 x) = b" "ucast (0x80 OR (x AND 0x3F)) = c1"
proof -
  have x: "bit x n \<longleftrightarrow> n < 6 \<and> bit c1 n \<or> 6 \<le> n \<and> n < 12 \<and> bit b (n - 6)" for n unfolding x_def by (rule bit_assemble)
  have "\<not> bit x n" if "11 \<le> n" for n
  proof (cases "n = 11")
    case True then show ?thesis using b(3) by (simp add: x)
  next
    case False then show ?thesis using that by (simp add: x)
  qed
  then show "x < 2 ^ 11" by (subst less_exp_bits) auto
  show "ucast (0xC0 OR drop_bit 6 x) = b"
  proof (rule lead_eqI [where k = 6])
    show "bit (0xC0 :: u32) n \<longleftrightarrow> 6 \<le> n" if "n < 8" for n using that by (rule lead_consts(1))
    show "bit b n" if "6 \<le> n" "n < 8" for n using b(1,2) that by (rule lead_bits(1))
    show "bit b n = bit x (6 + n)" if "n < 6" for n using that by (simp add: x)
  qed simp
  show "ucast (0x80 OR (x AND 0x3F)) = c1"
    by (rule tail0_eqI [OF c]) (simp add: x)
qed

lemma encode_assemble2:
  assumes b: "bit b 7" "bit b 6" "bit b 5" "\<not> bit b 4" and c: "iscont c1" "iscont c2"
  defines "x \<equiv> assemble b [c1, c2]"
  shows "x < 2 ^ 16" "ucast (0xE0 OR drop_bit 12 x) = b" "ucast (0x80 OR (drop_bit 6 x AND 0x3F)) = c1" "ucast (0x80 OR (x AND 0x3F)) = c2"
proof -
  note x = bit_assemble(2) [of b c1 c2, folded x_def]
  have "\<not> bit x n" if "16 \<le> n" for n
    using that b(4) by (cases "n = 16") (simp_all add: x)
  then show "x < 2 ^ 16" by (subst less_exp_bits) auto
  show "ucast (0xE0 OR drop_bit 12 x) = b"
  proof (rule lead_eqI [where k = 5])
    show "bit (0xE0 :: u32) n \<longleftrightarrow> 5 \<le> n" if "n < 8" for n using that by (rule lead_consts(2))
    show "bit b n" if "5 \<le> n" "n < 8" for n using b(1-3) that by (rule lead_bits(2))
    show "bit b n = bit x (12 + n)" if "n < 5" for n using that by (simp add: x)
  qed simp
  show "ucast (0x80 OR (drop_bit 6 x AND 0x3F)) = c1" by (rule tail_eqI [OF c(1)]) (simp add: x)
  show "ucast (0x80 OR (x AND 0x3F)) = c2" by (rule tail0_eqI [OF c(2)]) (simp add: x)
qed

lemma encode_assemble3:
  assumes b: "bit b 7" "bit b 6" "bit b 5" "bit b 4" "\<not> bit b 3" and c: "iscont c1" "iscont c2" "iscont c3"
  defines "x \<equiv> assemble b [c1, c2, c3]"
  shows "ucast (0xF0 OR drop_bit 18 x) = b" "ucast (0x80 OR (drop_bit 12 x AND 0x3F)) = c1"
    "ucast (0x80 OR (drop_bit 6 x AND 0x3F)) = c2" "ucast (0x80 OR (x AND 0x3F)) = c3"
proof -
  note x = bit_assemble(3) [of b c1 c2 c3, folded x_def]
  show "ucast (0xF0 OR drop_bit 18 x) = b"
  proof (rule lead_eqI [where k = 4])
    show "bit (0xF0 :: u32) n \<longleftrightarrow> 4 \<le> n" if "n < 8" for n using that by (rule lead_consts(3))
    show "bit b n" if "4 \<le> n" "n < 8" for n using b(1-4) that by (rule lead_bits(3))
    show "bit b n = bit x (18 + n)" if "n < 4" for n using that by (simp add: x)
  qed simp
  show "ucast (0x80 OR (drop_bit 12 x AND 0x3F)) = c1" by (rule tail_eqI [OF c(1)]) (simp add: x)
  show "ucast (0x80 OR (drop_bit 6 x AND 0x3F)) = c2" by (rule tail_eqI [OF c(2)]) (simp add: x)
  show "ucast (0x80 OR (x AND 0x3F)) = c3" by (rule tail0_eqI [OF c(3)]) (simp add: x)
qed

lemma iscont_tail: "iscont (ucast (0x80 OR (drop_bit k x AND 0x3F)))" for x :: u32
  unfolding iscont_bits using bit_tail [of 7 k x] bit_tail [of 6 k x] by simp

lemma iscont_tail0: "iscont (ucast (0x80 OR (x AND 0x3F)))" for x :: u32
  unfolding iscont_bits using bit_tail0 [of 7 x] bit_tail0 [of 6 x] by simp

lemma assemble_encode1:
  assumes "x < 2 ^ 11"
  defines "b \<equiv> ucast (0xC0 OR drop_bit 6 x) :: u8" and "c1 \<equiv> ucast (0x80 OR (x AND 0x3F)) :: u8"
  shows "bit b 7" "bit b 6" "\<not> bit b 5" "iscont c1" "assemble b [c1] = x"
proof -
  have hi: "\<not> bit x n" if "11 \<le> n" for n using bits_ge [OF assms(1) that] by simp
  have B: "bit b n \<longleftrightarrow> 6 \<le> n \<or> bit x (6 + n)" if "n < 8" for n
    unfolding b_def using that by (simp only: bit_lead lead_consts)
  show "bit b 7" "bit b 6" "\<not> bit b 5" using B [of 7] B [of 6] B [of 5] hi [of 11] by simp_all
  show "iscont c1" unfolding c1_def by (rule iscont_tail0)
  have C: "bit c1 n \<longleftrightarrow> bit x n" if "n < 6" for n
    unfolding c1_def using that bit_tail0 [of n x] by simp
  have "bit (assemble b [c1]) n = bit x n" for n
    unfolding bit_assemble using B [of "n - 6"] C [of n] hi [of n] by (cases "n < 6"; cases "n < 11"; cases "n = 11") auto
  then show "assemble b [c1] = x" by (rule bit_word_eqI)
qed

lemma assemble_encode2:
  assumes "x < 2 ^ 16"
  defines "b \<equiv> ucast (0xE0 OR drop_bit 12 x) :: u8" and "c1 \<equiv> ucast (0x80 OR (drop_bit 6 x AND 0x3F)) :: u8"
    and "c2 \<equiv> ucast (0x80 OR (x AND 0x3F)) :: u8"
  shows "bit b 7" "bit b 6" "bit b 5" "\<not> bit b 4" "iscont c1" "iscont c2" "assemble b [c1, c2] = x"
proof -
  have hi: "\<not> bit x n" if "16 \<le> n" for n using bits_ge [OF assms(1) that] by simp
  have B: "bit b n \<longleftrightarrow> 5 \<le> n \<or> bit x (12 + n)" if "n < 8" for n
    unfolding b_def using that by (simp only: bit_lead lead_consts)
  show "bit b 7" "bit b 6" "bit b 5" "\<not> bit b 4" using B [of 7] B [of 6] B [of 5] B [of 4] hi [of 16] by simp_all
  show "iscont c1" "iscont c2" unfolding c1_def c2_def by (rule iscont_tail iscont_tail0)+
  have C: "bit c1 n \<longleftrightarrow> bit x (6 + n)" "bit c2 n \<longleftrightarrow> bit x n" if "n < 6" for n
    unfolding c1_def c2_def using that bit_tail0 [of n x] bit_tail [of n 6 x] by simp_all
  have "bit (assemble b [c1, c2]) n = bit x n" for n
    unfolding bit_assemble using B [of "n - 12"] C(1) [of "n - 6"] C(2) [of n] hi [of n]
    by (cases "n < 6"; cases "n < 12"; cases "n < 16"; cases "n = 16") auto
  then show "assemble b [c1, c2] = x" by (rule bit_word_eqI)
qed

lemma assemble_encode3:
  assumes "x < 2 ^ 21"
  defines "b \<equiv> ucast (0xF0 OR drop_bit 18 x) :: u8" and "c1 \<equiv> ucast (0x80 OR (drop_bit 12 x AND 0x3F)) :: u8"
    and "c2 \<equiv> ucast (0x80 OR (drop_bit 6 x AND 0x3F)) :: u8" and "c3 \<equiv> ucast (0x80 OR (x AND 0x3F)) :: u8"
  shows "bit b 7" "bit b 6" "bit b 5" "bit b 4" "\<not> bit b 3" "iscont c1" "iscont c2" "iscont c3" "assemble b [c1, c2, c3] = x"
proof -
  have hi: "\<not> bit x n" if "21 \<le> n" for n using bits_ge [OF assms(1) that] by simp
  have B: "bit b n \<longleftrightarrow> 4 \<le> n \<or> bit x (18 + n)" if "n < 8" for n
    unfolding b_def using that by (simp only: bit_lead lead_consts)
  show "bit b 7" "bit b 6" "bit b 5" "bit b 4" "\<not> bit b 3" using B [of 7] B [of 6] B [of 5] B [of 4] B [of 3] hi [of 21] by simp_all
  show "iscont c1" "iscont c2" "iscont c3" unfolding c1_def c2_def c3_def by (rule iscont_tail iscont_tail0)+
  have C: "bit c1 n \<longleftrightarrow> bit x (12 + n)" "bit c2 n \<longleftrightarrow> bit x (6 + n)" "bit c3 n \<longleftrightarrow> bit x n" if "n < 6" for n
    unfolding c1_def c2_def c3_def using that bit_tail0 [of n x] bit_tail [of n 6 x] bit_tail [of n 12 x] by simp_all
  have "bit (assemble b [c1, c2, c3]) n = bit x n" for n
    unfolding bit_assemble using B [of "n - 18"] C(1) [of "n - 12"] C(2) [of "n - 6"] C(3) [of n] hi [of n]
    by (cases "n < 6"; cases "n < 12"; cases "n < 18"; cases "n < 21"; cases "n = 21") auto
  then show "assemble b [c1, c2, c3] = x" by (rule bit_word_eqI)
qed

text \<open>Decoding by the number \<open>m\<close> of ones that follow the topmost bit of the lead byte.\<close>

definition tail_ok :: "nat \<Rightarrow> bytes \<Rightarrow> bool" where
  "tail_ok m cs \<longleftrightarrow> length cs = m \<and> list_all iscont cs"

lemma continue_lead:
  assumes "p < length s" "m \<le> 6" "\<And>i. i < m \<Longrightarrow> bit c (6 - i)"
  defines "cs \<equiv> take m (drop (p + 1) s)"
  shows "utf8_continue s p c 0 0 =
    (if tail_ok m cs then utf8_continue s p (push_bit m c) (foldl (\<lambda>res cc. push_bit 6 res OR ucast (cc AND 0x3F)) 0 cs) m else Inr None)"
proof (cases "tail_ok m cs")
  case True
  then have l: "length cs = m" "\<And>j. j < m \<Longrightarrow> iscont (cs ! j)" by (auto simp: tail_ok_def list_all_length)
  then have "p + m < length s" unfolding cs_def using assms(1) by (simp add: min_def split: if_splits)
  with True show ?thesis using continue_n [of p 0 cs s c 0] l assms(2,3) by (simp add: cs_def)
next
  case False
  define ds where "ds = takeWhile iscont cs"
  have ds: "ds = take (length ds) cs" unfolding ds_def by (rule takeWhile_eq_take)
  have le: "length ds \<le> length cs" unfolding ds_def by (rule length_takeWhile_le)
  have j: "length ds < m"
  proof (rule ccontr)
    assume "\<not> length ds < m"
    then have "length ds = m" "length cs = m" using le by (auto simp: cs_def)
    then have "cs = ds" using ds by simp
    then have "list_all iscont cs" unfolding ds_def by (metis list_all_iff set_takeWhileD)
    with False \<open>length cs = m\<close> show False by (simp add: tail_ok_def)
  qed
  have c: "iscont (ds ! i)" if "i < length ds" for i using that unfolding ds_def by (metis nth_mem set_takeWhileD)
  have nth: "s ! (p + 1 + i) = ds ! i" if "i < length ds" for i
  proof -
    have "ds ! i = cs ! i" using that unfolding ds_def by (rule takeWhile_nth)
    also have "\<dots> = s ! (p + 1 + i)" using that le j by (simp add: cs_def)
    finally show ?thesis ..
  qed
  have len: "p + length ds < length s" using assms(1) le by (auto simp: cs_def)
  have "utf8_continue s p c 0 0 = utf8_continue s p (push_bit (length ds) c) (foldl (\<lambda>res cc. push_bit 6 res OR ucast (cc AND 0x3F)) 0 ds) (length ds)"
    using continue_n [of p 0 ds s c 0] c nth len j assms(2,3) by simp
  also have "\<dots> = Inr None"
  proof (rule continue_stop)
    show "bit (push_bit (length ds) c) 6" using assms(2,3) j by (simp add: bit_push_bit_iff)
    show "p + length ds + 1 \<le> length s" using len by simp
    show "\<not> (p + length ds + 1 < length s \<and> iscont (s ! (p + length ds + 1)))"
    proof
      assume a: "p + length ds + 1 < length s \<and> iscont (s ! (p + length ds + 1))"
      then have "length ds < length cs" using j by (auto simp: cs_def)
      then have "\<not> iscont (cs ! length ds)" unfolding ds_def by (rule nth_length_takeWhile)
      moreover have "cs ! length ds = s ! (p + length ds + 1)" using j a by (simp add: cs_def)
      ultimately show False using a by simp
    qed
  qed
  finally show ?thesis using False by simp
qed

lemma lead_ge: "bit b 7 \<longleftrightarrow> \<not> (ucast b :: u32) < 0x80" for b :: u8
proof -
  have e: "(0x80 :: u32) = 2 ^ 7" by simp
  have "(ucast b :: u32) < 2 ^ 7 \<longleftrightarrow> (\<forall>i \<ge> 7. \<not> bit b i)" by (subst less_exp_bits) (simp_all add: bit_of_byte)
  also have "\<dots> \<longleftrightarrow> \<not> bit b 7"
  proof (intro iffI allI impI)
    fix i :: nat assume "\<not> bit b 7" "7 \<le> i"
    then show "\<not> bit b i" using byte_bits_ge [of i b] by (cases "i = 7") auto
  qed simp
  finally show ?thesis unfolding e by simp
qed

lemma decode_ascii: "p < length s \<Longrightarrow> \<not> bit (s ! p) 7 \<Longrightarrow> utf8_decode s p = Inr (Some (ucast (s ! p), p + 1))"
  using lead_ge [of "s ! p"] by (simp add: utf8_decode_def char_at_less)

definition value_ok :: "nat \<Rightarrow> u32 \<Rightarrow> bool" where
  "value_ok m x \<longleftrightarrow> \<not> x > 0x10FFFF \<and> \<not> x \<le> limits ! m \<and> \<not> x - 0xD800 < 0x800"

lemma decode_class:
  assumes "p < length s" "bit (s ! p) 7" "\<And>i. i < m \<Longrightarrow> bit (s ! p) (6 - i)" "\<not> bit (s ! p) (6 - m)" "m \<le> 3"
  defines "cs \<equiv> take m (drop (p + 1) s)"
  shows "utf8_decode s p = Inr (if tail_ok m cs \<and> value_ok m (assemble (s ! p) cs) then Some (assemble (s ! p) cs, p + m + 1) else None)"
proof -
  let ?c = "ucast (s ! p) :: u32"
  have c: "utf8_continue s p ?c 0 0 = (if tail_ok m cs then Inr (Some (push_bit m ?c, foldl (\<lambda>res cc. push_bit 6 res OR ucast (cc AND 0x3F)) 0 cs, m)) else Inr None)"
  proof -
    have "\<not> bit (push_bit m ?c) 6" using assms(4,5) by (simp add: bit_push_bit_iff bit_of_byte)
    then show ?thesis using continue_lead [of p s m ?c] assms(1,3,5) by (simp add: cs_def continue_done bit_of_byte)
  qed
  show ?thesis
  proof (cases "tail_ok m cs")
    case True
    then have l: "length cs = m" by (simp add: tail_ok_def)
    show ?thesis using c True lead_ge [of "s ! p"] assms(1,2,5)
      by (simp add: utf8_decode_def char_at_less Let_def assemble_def l value_ok_def)
  next
    case False
    then show ?thesis using c lead_ge [of "s ! p"] assms(1,2) by (simp add: utf8_decode_def char_at_less Let_def)
  qed
qed

lemma decode_long:
  assumes "p < length s" "bit (s ! p) 7" "bit (s ! p) 6" "bit (s ! p) 5" "bit (s ! p) 4" "bit (s ! p) 3"
  shows "utf8_decode s p = Inr None"
proof -
  let ?c = "ucast (s ! p) :: u32"
  let ?cs = "take 4 (drop (p + 1) s)"
  have i: "i = 0 \<or> i = 1 \<or> i = 2 \<or> i = 3" if "i < 4" for i :: nat using that by linarith
  have "bit ?c (6 - i)" if "i < 4" for i using i [OF that] assms(3-6) by (auto simp: bit_of_byte)
  then have "utf8_continue s p ?c 0 0 = (if tail_ok 4 ?cs then utf8_continue s p (push_bit 4 ?c) (foldl (\<lambda>res cc. push_bit 6 res OR ucast (cc AND 0x3F)) 0 ?cs) 4 else Inr None)"
    by (intro continue_lead assms(1)) simp_all
  moreover have "p + 4 < length s" if "tail_ok 4 ?cs" using that assms(1) by (auto simp: tail_ok_def min_def split: if_splits)
  ultimately show ?thesis
    using continue_safe [of p 4 s "push_bit 4 ?c" "foldl (\<lambda>res cc. push_bit 6 res OR ucast (cc AND 0x3F)) 0 ?cs"] lead_ge [of "s ! p"] assms(1,2)
    by (auto simp: utf8_decode_def char_at_less Let_def split: sum.splits option.splits if_splits prod.splits)
qed

text \<open>Which values the checks accept.\<close>

lemma surrogate_test: "x - 0xD800 < 0x800 \<longleftrightarrow> 0xD800 \<le> x \<and> x \<le> 0xDFFF" for x :: u32
proof (cases "0xD800 \<le> x")
  case True
  then have "unat (x - 0xD800) = unat x - 0xD800" by (simp add: unat_sub)
  moreover have "0xD800 \<le> unat x" using True by (simp add: word_le_nat_alt)
  ultimately show ?thesis using True by (auto simp: word_less_nat_alt word_le_nat_alt)
next
  case False
  then have u: "unat x < 0xD800" by (simp add: word_le_nat_alt)
  then have "unat (x - 0xD800) = unat x + (2 ^ 32 - 0xD800)"
    by (simp add: unat_sub_if' word_le_nat_alt)
  then show ?thesis using False by (auto simp: word_less_nat_alt)
qed

lemma value_ok_iff:
  "value_ok 1 x \<longleftrightarrow> is_scalar x \<and> 0x80 \<le> x" "value_ok 2 x \<longleftrightarrow> is_scalar x \<and> 0x800 \<le> x" "value_ok 3 x \<longleftrightarrow> is_scalar x \<and> 0x10000 \<le> x"
  unfolding value_ok_def surrogate_test is_scalar_def limits_def
  by (auto simp: word_le_nat_alt word_less_nat_alt)

lemma not_value_ok_0: "x < 0x100 \<Longrightarrow> \<not> value_ok 0 x"
  by (auto simp: value_ok_def limits_def word_le_nat_alt word_less_nat_alt)

lemma utf8_bytes_cases:
  "x < 0x80 \<Longrightarrow> utf8_bytes x = [ucast x]"
  "0x80 \<le> x \<Longrightarrow> x < 0x800 \<Longrightarrow> utf8_bytes x = [ucast (0xC0 OR drop_bit 6 x), ucast (0x80 OR (x AND 0x3F))]"
  "0x800 \<le> x \<Longrightarrow> x < 0x10000 \<Longrightarrow> utf8_bytes x = [ucast (0xE0 OR drop_bit 12 x), ucast (0x80 OR (drop_bit 6 x AND 0x3F)), ucast (0x80 OR (x AND 0x3F))]"
  "0x10000 \<le> x \<Longrightarrow> utf8_bytes x = [ucast (0xF0 OR drop_bit 18 x), ucast (0x80 OR (drop_bit 12 x AND 0x3F)),
      ucast (0x80 OR (drop_bit 6 x AND 0x3F)), ucast (0x80 OR (x AND 0x3F))]"
  unfolding utf8_bytes_def by (auto simp: word_le_nat_alt word_less_nat_alt)

lemma take_drop_bytes:
  "p < length s \<Longrightarrow> take (Suc n) (drop p s) = s ! p # take n (drop (p + 1) s)"
  by (simp add: Cons_nth_drop_Suc [symmetric])

lemma tail_ok_cases:
  "tail_ok 1 cs \<Longrightarrow> \<exists>c1. cs = [c1] \<and> iscont c1"
  "tail_ok 2 cs \<Longrightarrow> \<exists>c1 c2. cs = [c1, c2] \<and> iscont c1 \<and> iscont c2"
  "tail_ok 3 cs \<Longrightarrow> \<exists>c1 c2 c3. cs = [c1, c2, c3] \<and> iscont c1 \<and> iscont c2 \<and> iscont c3"
  by (auto simp: tail_ok_def length_Suc_conv numeral_eq_Suc)

lemma lead_classes:
  "\<not> bit b 7 \<or> bit b 7 \<and> (\<not> bit b 6 \<or> bit b 6 \<and> (\<not> bit b 5 \<or> bit b 5 \<and> (\<not> bit b 4 \<or> bit b 4 \<and> (\<not> bit b 3 \<or> bit b 3))))" for b :: u8
  by blast

lemma ones_below:
  "bit b 6 \<Longrightarrow> i < 1 \<Longrightarrow> bit b (6 - i)"
  "bit b 6 \<Longrightarrow> bit b 5 \<Longrightarrow> i < 2 \<Longrightarrow> bit b (6 - i)"
  "bit b 6 \<Longrightarrow> bit b 5 \<Longrightarrow> bit b 4 \<Longrightarrow> i < 3 \<Longrightarrow> bit b (6 - i)" for b :: u8
  by (auto simp: less_Suc_eq numeral_eq_Suc)

lemma decode_classes:
  assumes "p < length s"
  defines "b \<equiv> s ! p"
  shows "bit b 7 \<Longrightarrow> bit b 6 \<Longrightarrow> \<not> bit b 5 \<Longrightarrow> utf8_decode s p = (let cs = take 1 (drop (p + 1) s) in
      Inr (if tail_ok 1 cs \<and> value_ok 1 (assemble b cs) then Some (assemble b cs, p + 1 + 1) else None))"
    "bit b 7 \<Longrightarrow> bit b 6 \<Longrightarrow> bit b 5 \<Longrightarrow> \<not> bit b 4 \<Longrightarrow> utf8_decode s p = (let cs = take 2 (drop (p + 1) s) in
      Inr (if tail_ok 2 cs \<and> value_ok 2 (assemble b cs) then Some (assemble b cs, p + 2 + 1) else None))"
    "bit b 7 \<Longrightarrow> bit b 6 \<Longrightarrow> bit b 5 \<Longrightarrow> bit b 4 \<Longrightarrow> \<not> bit b 3 \<Longrightarrow> utf8_decode s p = (let cs = take 3 (drop (p + 1) s) in
      Inr (if tail_ok 3 cs \<and> value_ok 3 (assemble b cs) then Some (assemble b cs, p + 3 + 1) else None))"
    "bit b 7 \<Longrightarrow> \<not> bit b 6 \<Longrightarrow> utf8_decode s p = Inr None"
proof -
  note cl = decode_class [OF assms(1), folded b_def]
  show "bit b 7 \<Longrightarrow> bit b 6 \<Longrightarrow> \<not> bit b 5 \<Longrightarrow> utf8_decode s p = (let cs = take 1 (drop (p + 1) s) in
      Inr (if tail_ok 1 cs \<and> value_ok 1 (assemble b cs) then Some (assemble b cs, p + 1 + 1) else None))"
    unfolding Let_def by (rule cl) (use ones_below(1) in auto)
  show "bit b 7 \<Longrightarrow> bit b 6 \<Longrightarrow> bit b 5 \<Longrightarrow> \<not> bit b 4 \<Longrightarrow> utf8_decode s p = (let cs = take 2 (drop (p + 1) s) in
      Inr (if tail_ok 2 cs \<and> value_ok 2 (assemble b cs) then Some (assemble b cs, p + 2 + 1) else None))"
    unfolding Let_def by (rule cl) (use ones_below(2) in auto)
  show "bit b 7 \<Longrightarrow> bit b 6 \<Longrightarrow> bit b 5 \<Longrightarrow> bit b 4 \<Longrightarrow> \<not> bit b 3 \<Longrightarrow> utf8_decode s p = (let cs = take 3 (drop (p + 1) s) in
      Inr (if tail_ok 3 cs \<and> value_ok 3 (assemble b cs) then Some (assemble b cs, p + 3 + 1) else None))"
    unfolding Let_def by (rule cl) (use ones_below(3) in auto)
  show "utf8_decode s p = Inr None" if "bit b 7" "\<not> bit b 6"
  proof -
    have "assemble b [] < 2 ^ 8" by (subst less_exp_bits) (auto simp: assemble_def masks bit_and_iff bit_mask_iff)
    then have "\<not> value_ok 0 (assemble b [])" by (intro not_value_ok_0) simp
    then show ?thesis using cl [of 0] that by simp
  qed
qed

lemma less_exps: "x < 0x80 \<longleftrightarrow> x < 2 ^ 7" "x < 0x800 \<longleftrightarrow> x < 2 ^ 11" "x < 0x10000 \<longleftrightarrow> x < 2 ^ 16" for x :: u32
  by simp_all

lemma ascii_scalar: "\<not> bit b 7 \<Longrightarrow> (ucast b :: u32) < 0x80 \<and> is_scalar (ucast b) \<and> utf8_bytes (ucast b) = [b]" for b :: u8
proof -
  assume "\<not> bit b 7"
  then have l: "(ucast b :: u32) < 0x80" using lead_ge [of b] by simp
  moreover have "is_scalar (ucast b)" using l by (auto simp: is_scalar_def word_le_nat_alt word_less_nat_alt)
  moreover have "ucast (ucast b :: u32) = b" by (rule byte_eqI) (simp add: bit_to_byte bit_of_byte)
  ultimately show ?thesis by (simp add: utf8_bytes_cases(1))
qed

lemma decode_sound:
  assumes p: "p < length s" and d: "utf8_decode s p = Inr (Some (x, q))"
  shows "is_scalar x \<and> q = p + length (utf8_bytes x) \<and> take (length (utf8_bytes x)) (drop p s) = utf8_bytes x"
proof -
  define b where "b = s ! p"
  consider (a) "\<not> bit b 7" | (z) "bit b 7" "\<not> bit b 6" | (two) "bit b 7" "bit b 6" "\<not> bit b 5" | (three) "bit b 7" "bit b 6" "bit b 5" "\<not> bit b 4"
    | (four) "bit b 7" "bit b 6" "bit b 5" "bit b 4" "\<not> bit b 3" | (l) "bit b 7" "bit b 6" "bit b 5" "bit b 4" "bit b 3" by blast
  then show ?thesis
  proof cases
    case a
    then have "x = ucast b" "q = p + 1" using d decode_ascii [OF p] by (auto simp: b_def)
    with ascii_scalar [OF a] show ?thesis using take_drop_bytes [OF p, of 0] by (simp add: b_def)
  next
    case z then show ?thesis using d decode_classes(4) [OF p] by (simp add: b_def)
  next
    case l then show ?thesis using d decode_long [OF p] by (simp add: b_def)
  next
    case two
    let ?cs = "take 1 (drop (p + 1) s)"
    have h: "tail_ok 1 ?cs" "value_ok 1 (assemble b ?cs)" "x = assemble b ?cs" "q = p + 1 + 1"
      using d decode_classes(1) [OF p] two unfolding b_def Let_def by (auto split: if_splits)
    then obtain c1 where c: "?cs = [c1]" "iscont c1" using tail_ok_cases(1) by blast
    note e = encode_assemble1 [OF two c(2)]
    have "utf8_bytes x = [b, c1]" using h e utf8_bytes_cases(2) [of x] unfolding c(1) value_ok_iff less_exps by simp
    then show ?thesis using h [unfolded value_ok_iff] take_drop_bytes [OF p, of 1] c(1) by (simp add: b_def)
  next
    case three
    let ?cs = "take 2 (drop (p + 1) s)"
    have h: "tail_ok 2 ?cs" "value_ok 2 (assemble b ?cs)" "x = assemble b ?cs" "q = p + 2 + 1"
      using d decode_classes(2) [OF p] three unfolding b_def Let_def by (auto split: if_splits)
    then obtain c1 c2 where c: "?cs = [c1, c2]" "iscont c1" "iscont c2" using tail_ok_cases(2) by blast
    note e = encode_assemble2 [OF three c(2,3)]
    have "utf8_bytes x = [b, c1, c2]" using h e utf8_bytes_cases(3) [of x] unfolding c(1) value_ok_iff less_exps by simp
    then show ?thesis using h [unfolded value_ok_iff] take_drop_bytes [OF p, of 2] c(1) by (simp add: b_def eval_nat_numeral)
  next
    case four
    let ?cs = "take 3 (drop (p + 1) s)"
    have h: "tail_ok 3 ?cs" "value_ok 3 (assemble b ?cs)" "x = assemble b ?cs" "q = p + 3 + 1"
      using d decode_classes(3) [OF p] four unfolding b_def Let_def by (auto split: if_splits)
    then obtain c1 c2 c3 where c: "?cs = [c1, c2, c3]" "iscont c1" "iscont c2" "iscont c3" using tail_ok_cases(3) by blast
    note e = encode_assemble3 [OF four c(2-4)]
    have "utf8_bytes x = [b, c1, c2, c3]" using h e utf8_bytes_cases(4) [of x] unfolding c(1) value_ok_iff by simp
    then show ?thesis using h [unfolded value_ok_iff] take_drop_bytes [OF p, of 3] c(1) by (simp add: b_def eval_nat_numeral)
  qed
qed

lemma decode_complete:
  assumes p: "p < length s" and x: "is_scalar x" and t: "take (length (utf8_bytes x)) (drop p s) = utf8_bytes x"
  shows "utf8_decode s p = Inr (Some (x, p + length (utf8_bytes x)))"
proof -
  consider (a) "x < 0x80" | (two) "0x80 \<le> x" "x < 2 ^ 11" | (three) "0x800 \<le> x" "x < 2 ^ 16" | (four) "0x10000 \<le> x" "x < 2 ^ 21"
    using x unfolding is_scalar_def by (simp add: word_le_nat_alt word_less_nat_alt) linarith
  then show ?thesis
  proof cases
    case a
    have "\<not> bit x 7" using bits_ge [of x 7 7] a by simp
    then have "\<not> bit (ucast x :: u8) 7" by (simp add: bit_to_byte)
    moreover have "s ! p = ucast x" using t take_drop_bytes [OF p, of 0] unfolding utf8_bytes_cases(1) [OF a] by simp
    moreover have "(ucast (ucast x :: u8) :: u32) = x"
    proof (rule bit_word_eqI)
      fix n assume "n < LENGTH(32)"
      show "bit (ucast (ucast x :: u8) :: u32) n = bit x n"
        using bits_ge [of x 7 n] byte_bits_ge [of n "ucast x"] a by (cases "n < 8") (simp_all add: bit_of_byte bit_to_byte)
    qed
    ultimately show ?thesis using decode_ascii [OF p] by (simp add: utf8_bytes_cases(1) [OF a])
  next
    case two
    note u = utf8_bytes_cases(2) [OF two(1), unfolded less_exps, OF two(2)]
    note e = assemble_encode1 [OF two(2)]
    have b: "s ! p = ucast (0xC0 OR drop_bit 6 x)" "take 1 (drop (p + 1) s) = [ucast (0x80 OR (x AND 0x3F))]"
      using t take_drop_bytes [OF p, of 1] unfolding u by simp_all
    show ?thesis using decode_classes(1) [OF p] e x two(1) unfolding b Let_def u by (simp add: tail_ok_def value_ok_iff value_ok_iff(1) [unfolded One_nat_def])
  next
    case three
    note u = utf8_bytes_cases(3) [OF three(1), unfolded less_exps, OF three(2)]
    note e = assemble_encode2 [OF three(2)]
    have b: "s ! p = ucast (0xE0 OR drop_bit 12 x)" "take 2 (drop (p + 1) s) = [ucast (0x80 OR (drop_bit 6 x AND 0x3F)), ucast (0x80 OR (x AND 0x3F))]"
      using t take_drop_bytes [OF p, of 2] unfolding u by (simp_all add: eval_nat_numeral)
    show ?thesis using decode_classes(2) [OF p] e x three(1) unfolding b Let_def u by (simp add: tail_ok_def value_ok_iff value_ok_iff(1) [unfolded One_nat_def])
  next
    case four
    note u = utf8_bytes_cases(4) [OF four(1)]
    note e = assemble_encode3 [OF four(2)]
    have b: "s ! p = ucast (0xF0 OR drop_bit 18 x)" "take 3 (drop (p + 1) s) =
        [ucast (0x80 OR (drop_bit 12 x AND 0x3F)), ucast (0x80 OR (drop_bit 6 x AND 0x3F)), ucast (0x80 OR (x AND 0x3F))]"
      using t take_drop_bytes [OF p, of 3] unfolding u by (simp_all add: eval_nat_numeral)
    show ?thesis using decode_classes(3) [OF p] e x four(1) unfolding b Let_def u by (simp add: tail_ok_def value_ok_iff value_ok_iff(1) [unfolded One_nat_def])
  qed
qed

lemma decode_total: "p < length s \<Longrightarrow> \<exists>r. utf8_decode s p = Inr r"
  using decode_ascii [of p s] decode_classes [of p s] decode_long [of p s] unfolding Let_def by blast

section \<open>Encoding\<close>

lemma first_byte:
  "ucast (push_bit 1 (NOT 0x1F) OR y) = (ucast (0xC0 OR y) :: u8)"
  "ucast (push_bit 1 (NOT 0xF) OR y) = (ucast (0xE0 OR y) :: u8)"
  "ucast (push_bit 1 (NOT 0x7) OR y) = (ucast (0xF0 OR y) :: u8)" for y :: u32
proof -
  have c: "bit (push_bit 1 (NOT 0x1F) :: u32) n = bit (0xC0 :: u32) n" "bit (push_bit 1 (NOT 0xF) :: u32) n = bit (0xE0 :: u32) n"
    "bit (push_bit 1 (NOT 0x7) :: u32) n = bit (0xF0 :: u32) n" if "n < 8" for n
    using eight [of n] that by auto
  show "ucast (push_bit 1 (NOT 0x1F) OR y) = (ucast (0xC0 OR y) :: u8)" "ucast (push_bit 1 (NOT 0xF) OR y) = (ucast (0xE0 OR y) :: u8)"
    "ucast (push_bit 1 (NOT 0x7) OR y) = (ucast (0xF0 OR y) :: u8)"
    by (rule byte_eqI, simp only: bit_to_byte bit_or_iff c)+
qed

lemma shift_limits:
  "drop_bit 6 x > 0x1F \<longleftrightarrow> 0x800 \<le> x" "drop_bit 12 x > 0xF \<longleftrightarrow> 0x10000 \<le> x" "x \<le> 0x10FFFF \<Longrightarrow> \<not> drop_bit 18 x > 0x7" for x :: u32
proof -
  have "drop_bit 6 x > 0x1F \<longleftrightarrow> 0x1F < unat x div 64" unfolding word_less_nat_alt unat_shift by simp
  also have "\<dots> \<longleftrightarrow> 0x800 \<le> unat x" by (simp add: less_eq_div_iff_mult_less_eq flip: Suc_le_eq)
  finally show "drop_bit 6 x > 0x1F \<longleftrightarrow> 0x800 \<le> x" by (simp add: word_le_nat_alt)
  have "drop_bit 12 x > 0xF \<longleftrightarrow> 0xF < unat x div 4096" unfolding word_less_nat_alt unat_shift by simp
  also have "\<dots> \<longleftrightarrow> 0x10000 \<le> unat x" by (simp add: less_eq_div_iff_mult_less_eq flip: Suc_le_eq)
  finally show "drop_bit 12 x > 0xF \<longleftrightarrow> 0x10000 \<le> x" by (simp add: word_le_nat_alt)
  have "drop_bit 18 x > 0x7 \<longleftrightarrow> 0x7 < unat x div 262144" unfolding word_less_nat_alt unat_shift by simp
  also have "\<dots> \<longleftrightarrow> 0x200000 \<le> unat x" by (simp add: less_eq_div_iff_mult_less_eq flip: Suc_le_eq)
  finally show "x \<le> 0x10FFFF \<Longrightarrow> \<not> drop_bit 18 x > 0x7" by (auto simp: word_le_nat_alt)
qed

lemma utf8esc_step:
  "utf8esc_loop x mfb buff = (if drop_bit 6 x > drop_bit 1 mfb then utf8esc_loop (drop_bit 6 x) (drop_bit 1 mfb) (ucast (0x80 OR (x AND 0x3F)) # buff)
     else ucast (push_bit 1 (NOT (drop_bit 1 mfb)) OR drop_bit 6 x) # ucast (0x80 OR (x AND 0x3F)) # buff)"
  by (subst utf8esc_loop.simps) (simp only: Let_def)

lemma mfb_steps: "drop_bit 1 (0x3F :: u32) = 0x1F" "drop_bit 1 (0x1F :: u32) = 0xF" "drop_bit 1 (0xF :: u32) = 0x7"
  by simp_all

lemma luaO_utf8esc_bytes:
  assumes "x \<le> 0x10FFFF"
  shows "luaO_utf8esc x = utf8_bytes x"
proof -
  have d: "drop_bit 6 (drop_bit 6 x) = drop_bit 12 x" "drop_bit 6 (drop_bit 12 x) = drop_bit 18 x" by (simp_all only: drop_bit_drop_bit) simp_all
  consider (a) "x < 0x80" | (two) "0x80 \<le> x" "x < 0x800" | (three) "0x800 \<le> x" "x < 0x10000" | (four) "0x10000 \<le> x" "0x800 \<le> x"
    by (simp add: word_le_nat_alt word_less_nat_alt) linarith
  then show ?thesis
  proof cases
    case a then show ?thesis by (simp add: luaO_utf8esc_def utf8_bytes_cases)
  next
    case two
    then have "\<not> 0x800 \<le> x" "\<not> x < 0x80" by auto
    then show ?thesis unfolding luaO_utf8esc_def utf8_bytes_cases(2) [OF two]
      by (simp only: utf8esc_step [of x] mfb_steps shift_limits first_byte if_False)
  next
    case three
    then have "\<not> 0x10000 \<le> x" "\<not> x < 0x80" by (auto simp: word_le_nat_alt word_less_nat_alt)
    then show ?thesis using three(1) unfolding luaO_utf8esc_def utf8_bytes_cases(3) [OF three]
      by (simp only: utf8esc_step [of x] utf8esc_step [of "drop_bit 6 x"] mfb_steps shift_limits first_byte d if_False if_True)
  next
    case four
    then have "\<not> x < 0x80" by (auto simp: word_le_nat_alt word_less_nat_alt)
    then show ?thesis using four shift_limits(3) [OF assms] unfolding luaO_utf8esc_def utf8_bytes_cases(4) [OF four(1)]
      by (simp only: utf8esc_step [of x] utf8esc_step [of "drop_bit 6 x"] utf8esc_step [of "drop_bit 12 x"] mfb_steps shift_limits(1,2) first_byte d if_False if_True)
  qed
qed

definition utf8_string :: "u32 list \<Rightarrow> bytes" where
  "utf8_string xs = concat (map utf8_bytes xs)"

lemma utf8_string_simps [simp]: "utf8_string [] = []" "utf8_string (x # xs) = utf8_bytes x @ utf8_string xs"
  by (simp_all add: utf8_string_def)

definition codes_ok :: "int list \<Rightarrow> bool" where
  "codes_ok codes \<longleftrightarrow> list_all (\<lambda>c. 0 \<le> c \<and> c \<le> 0x10FFFF) codes"

lemma buffutfchar_ok: "0 \<le> c \<Longrightarrow> c \<le> 0x10FFFF \<Longrightarrow> buffutfchar i c = Inr (utf8_bytes (of_int c))"
proof -
  assume a: "0 \<le> c" "c \<le> 0x10FFFF"
  then have "uint (of_int c :: u32) = c" by (simp add: uint_word_of_int take_bit_int_eq_self)
  then have "(of_int c :: u32) \<le> 0x10FFFF" using a by (simp add: word_le_def)
  then show ?thesis using a by (simp add: buffutfchar_def luaO_utf8esc_bytes)
qed

lemma utfchar_from_ok: "codes_ok codes \<Longrightarrow> utfchar_from i codes = Inr (utf8_string (map of_int codes))"
  by (induction codes arbitrary: i) (auto simp: codes_ok_def buffutfchar_ok)

lemma utfchar_ok: "codes_ok codes \<Longrightarrow> utfchar codes = Inr (utf8_string (map of_int codes))"
  by (auto simp: utfchar_def utfchar_from_ok buffutfchar_ok codes_ok_def split: list.split)

section \<open>Well-formed strings\<close>

lemma utf8_bytes_ne [simp]: "utf8_bytes x \<noteq> []"
  by (simp add: utf8_bytes_def)

lemma utf8_bytes_pos [simp]: "0 < length (utf8_bytes x)"
  by simp

lemma decode_at:
  assumes "is_scalar x"
  shows "utf8_decode (pre @ utf8_bytes x @ post) (length pre) = Inr (Some (x, length pre + length (utf8_bytes x)))"
  using assms by (intro decode_complete) (auto simp: length_greater_0_conv)

lemma codepoint_loop_string:
  "list_all is_scalar xs \<Longrightarrow> codepoint_loop (pre @ utf8_string xs @ post) (length pre) (length pre + length (utf8_string xs)) = Inr xs"
proof (induction xs arbitrary: pre)
  case Nil
  show ?case by (subst codepoint_loop.simps) simp
next
  case (Cons x xs)
  from Cons.IH [of "pre @ utf8_bytes x"] Cons.prems
  have "codepoint_loop (pre @ utf8_string (x # xs) @ post) (length pre + length (utf8_bytes x)) (length pre + length (utf8_string (x # xs))) = Inr xs"
    by (simp add: add.assoc)
  then show ?case using decode_at [of x pre "utf8_string xs @ post"] Cons.prems by (subst codepoint_loop.simps) simp
qed

lemma utflen_loop_string:
  "list_all is_scalar xs \<Longrightarrow> utflen_loop (pre @ utf8_string xs) (length pre) (int (length pre + length (utf8_string xs)) - 1) n = Inr (Length (n + length xs))"
proof (induction xs arbitrary: pre n)
  case Nil
  show ?case by (subst utflen_loop.simps) simp
next
  case (Cons x xs)
  from Cons.IH [of "pre @ utf8_bytes x" "n + 1"] Cons.prems
  have "utflen_loop (pre @ utf8_string (x # xs)) (length pre + length (utf8_bytes x)) (int (length pre + length (utf8_string (x # xs))) - 1) (n + 1)
      = Inr (Length (n + length (x # xs)))"
    by (simp add: add.assoc)
  moreover have "int (length pre) \<le> int (length pre + length (utf8_string (x # xs))) - 1"
    using utf8_bytes_pos [of x] unfolding utf8_string_simps length_append by linarith
  ultimately show ?case using decode_at [of x pre "utf8_string xs"] Cons.prems by (subst utflen_loop.simps) simp
qed

text \<open>What the length loop finds: a decomposition into characters up to the end, or up to a position where none can be decoded.\<close>

lemma utflen_loop_sound:
  assumes "p \<le> length s"
  shows "\<exists>xs rest. drop p s = utf8_string xs @ rest \<and> list_all is_scalar xs \<and>
    (utflen_loop s p (int (length s) - 1) n = Inr (Length (n + length xs)) \<and> rest = [] \<or>
     utflen_loop s p (int (length s) - 1) n = Inr (InvalidAt (int (p + length (utf8_string xs)) + 1)) \<and> rest \<noteq> [] \<and>
     utf8_decode s (p + length (utf8_string xs)) = Inr None)"
  using assms
proof (induction "length s - p" arbitrary: p n rule: less_induct)
  case less
  show ?case
  proof (cases "p < length s")
    case False
    then have "p = length s" using less.prems by simp
    then show ?thesis by (intro exI [of _ "[]"] exI [of _ "[]"]) (subst utflen_loop.simps, simp)
  next
    case True
    obtain r where r: "utf8_decode s p = Inr r" using decode_total [OF True] by blast
    show ?thesis
    proof (cases r)
      case None
      then show ?thesis using True r
        by (intro exI [of _ "[]"] exI [of _ "drop p s"]) (subst utflen_loop.simps, simp)
    next
      case (Some a)
      then obtain x q where xq: "utf8_decode s p = Inr (Some (x, q))" using r by (cases a) auto
      note snd = decode_sound [OF True xq]
      have d: "drop p s = utf8_bytes x @ drop q s" using snd by (metis append_take_drop_id drop_drop add.commute)
      have q: "q \<le> length s" using snd d by (metis diff_is_0_eq drop_eq_Nil length_append length_drop le_add_diff_inverse less_imp_le True le_add1 add_le_cancel_left)
      have lt: "length s - q < length s - p" using True utf8_decode_next [OF xq] by simp
      obtain xs rest where ih: "drop q s = utf8_string xs @ rest" "list_all is_scalar xs"
        "utflen_loop s q (int (length s) - 1) (n + 1) = Inr (Length (n + 1 + length xs)) \<and> rest = [] \<or>
         utflen_loop s q (int (length s) - 1) (n + 1) = Inr (InvalidAt (int (q + length (utf8_string xs)) + 1)) \<and> rest \<noteq> [] \<and>
         utf8_decode s (q + length (utf8_string xs)) = Inr None"
        using less.hyps [OF lt q, of "n + 1"] by blast
      have st: "utflen_loop s p (int (length s) - 1) n = utflen_loop s q (int (length s) - 1) (n + 1)"
        using True xq by (subst utflen_loop.simps) simp
      show ?thesis using ih d snd st by (intro exI [of _ "x # xs"] exI [of _ rest]) (auto simp: add.assoc)
    qed
  qed
qed

section \<open>Scanning over characters\<close>

lemma utf8_bytes_shape: "is_scalar x \<Longrightarrow> \<exists>b cs. utf8_bytes x = b # cs \<and> \<not> iscont b \<and> list_all iscont cs"
proof -
  assume "is_scalar x"
  then consider (a) "x < 0x80" | (two) "0x80 \<le> x" "x < 2 ^ 11" | (three) "0x800 \<le> x" "x < 2 ^ 16" | (four) "0x10000 \<le> x" "x < 2 ^ 21"
    unfolding is_scalar_def by (simp add: word_le_nat_alt word_less_nat_alt) linarith
  then show ?thesis
  proof cases
    case a
    have "\<not> bit (ucast x :: u8) 7" using bits_ge [of x 7 7] a by (simp add: bit_to_byte)
    then show ?thesis using utf8_bytes_cases(1) [OF a] by (simp add: iscont_bits)
  next
    case two then show ?thesis using utf8_bytes_cases(2) [OF two(1), unfolded less_exps, OF two(2)] assemble_encode1 [OF two(2)]
      by (simp add: iscont_bits)
  next
    case three then show ?thesis using utf8_bytes_cases(3) [OF three(1), unfolded less_exps, OF three(2)] assemble_encode2 [OF three(2)]
      by (simp add: iscont_bits)
  next
    case four then show ?thesis using utf8_bytes_cases(4) [OF four(1)] assemble_encode3 [OF four(2)] by (simp add: iscont_bits)
  qed
qed

lemma char_at_append: "char_at (pre @ post) (length pre) = Inr (case post of [] \<Rightarrow> 0 | b # _ \<Rightarrow> b)"
  by (cases post) (auto simp: char_at_def nth_append)

lemma iscont_zero [simp]: "\<not> iscont 0"
  by (simp add: iscont_def)

lemma string_head: "list_all is_scalar xs \<Longrightarrow> \<not> iscont (case utf8_string xs of [] \<Rightarrow> 0 | b # _ \<Rightarrow> b)"
proof (cases xs)
  case (Cons x ys)
  moreover assume "list_all is_scalar xs"
  ultimately show ?thesis using utf8_bytes_shape [of x] by auto
qed simp

lemma skip_over_run:
  "list_all iscont cs \<Longrightarrow> \<not> iscont (case post of [] \<Rightarrow> 0 | b # _ \<Rightarrow> b) \<Longrightarrow> skip_over (pre @ cs @ post) (length pre) = Inr (length pre + length cs)"
proof (induction cs arbitrary: pre)
  case Nil
  then show ?case using char_at_append [of pre post] by (subst skip_over.simps) simp
next
  case (Cons c cs)
  from Cons.IH [of "pre @ [c]"] Cons.prems have "skip_over (pre @ c # cs @ post) (length pre + 1) = Inr (length pre + length (c # cs))" by simp
  then show ?case using char_at_append [of pre "c # cs @ post"] Cons.prems by (subst skip_over.simps) simp
qed

lemma skip_char:
  assumes "is_scalar x" "list_all is_scalar xs"
  shows "skip_over (pre @ utf8_bytes x @ utf8_string xs) (length pre + 1) = Inr (length pre + length (utf8_bytes x))"
proof -
  obtain b cs where bc: "utf8_bytes x = b # cs" "list_all iscont cs" using utf8_bytes_shape [OF assms(1)] by blast
  show ?thesis using skip_over_run [OF bc(2) string_head [OF assms(2)], of "pre @ [b]"] by (simp add: bc(1))
qed

lemma back_over_run:
  "list_all iscont cs \<Longrightarrow> \<not> iscont b \<Longrightarrow> n \<le> length cs \<Longrightarrow> back_over (pre @ b # cs @ post) (length pre + n) = Inr (length pre)"
proof (induction n)
  case 0
  show ?case
  proof (cases "length pre")
    case (Suc m)
    then show ?thesis using char_at_append [of pre "b # cs @ post"] 0 by simp
  qed simp
next
  case (Suc n)
  have "char_at (pre @ b # cs @ post) (length pre + Suc n) = Inr (cs ! n)"
    using Suc.prems by (simp add: char_at_def nth_append)
  moreover have "iscont (cs ! n)" using Suc.prems by (simp add: list_all_length)
  ultimately show ?case using Suc by simp
qed

lemma back_char:
  assumes "is_scalar x"
  shows "back_over (pre @ utf8_bytes x @ post) (length pre + length (utf8_bytes x) - 1) = Inr (length pre)"
proof -
  obtain b cs where bc: "utf8_bytes x = b # cs" "\<not> iscont b" "list_all iscont cs" using utf8_bytes_shape [OF assms(1)] by blast
  show ?thesis using back_over_run [OF bc(3,2), of "length cs" pre post] by (simp add: bc(1))
qed

text \<open>Iteration.\<close>

fun char_starts :: "nat \<Rightarrow> u32 list \<Rightarrow> (nat \<times> u32) list" where
  "char_starts p [] = []"
| "char_starts p (x # xs) = (p, x) # char_starts (p + length (utf8_bytes x)) xs"

lemma iter_aux_at:
  assumes "list_all is_scalar xs" "iter_start (pre @ utf8_string xs) i = Inr (length pre)"
  shows "iter_aux (pre @ utf8_string xs) i = Inr (case xs of [] \<Rightarrow> None | x # _ \<Rightarrow> Some (length pre + 1, x))"
proof (cases xs)
  case Nil
  then show ?thesis using assms(2) by (simp add: iter_aux_def)
next
  case (Cons x ys)
  have "char_at (pre @ utf8_bytes x @ utf8_string ys) (length pre + length (utf8_bytes x)) = Inr (case utf8_string ys of [] \<Rightarrow> 0 | b # _ \<Rightarrow> b)"
    using char_at_append [of "pre @ utf8_bytes x" "utf8_string ys"] by simp
  moreover have "\<not> iscont (case utf8_string ys of [] \<Rightarrow> 0 | b # _ \<Rightarrow> b)" using assms(1) Cons by (intro string_head) simp
  ultimately show ?thesis using assms Cons decode_at [of x pre "utf8_string ys"]
    by (simp add: iter_aux_def)
qed

lemma codes_loop_at:
  "list_all is_scalar xs \<Longrightarrow> iter_start (pre @ utf8_string xs) i = Inr (length pre) \<Longrightarrow> length xs < fuel \<Longrightarrow>
   codes_loop fuel (pre @ utf8_string xs) i = Inr (Some (char_starts (length pre + 1) xs))"
proof (induction xs arbitrary: pre i fuel)
  case Nil
  then show ?case using iter_aux_at [of "[]" pre i] by (cases fuel) simp_all
next
  case (Cons x xs)
  then obtain f where f: "fuel = Suc f" "length xs < f" by (cases fuel) auto
  have "int (length pre) < int (length (pre @ utf8_string (x # xs)))"
    using utf8_bytes_pos [of x] unfolding utf8_string_simps length_append by linarith
  then have "iter_start ((pre @ utf8_bytes x) @ utf8_string xs) (int (length pre + 1)) = Inr (length (pre @ utf8_bytes x))"
    using skip_char [of x xs pre] Cons.prems(1) unfolding iter_start_def by simp
  from Cons.IH [OF _ this f(2)] Cons.prems(1)
  have "codes_loop f (pre @ utf8_string (x # xs)) (int (length pre + 1)) = Inr (Some (char_starts (length pre + length (utf8_bytes x) + 1) xs))"
    by simp
  then show ?case using iter_aux_at [OF Cons.prems(1,2)] f(1) by simp
qed

text \<open>Offsets of characters.\<close>

lemma move_forward_at:
  "list_all is_scalar xs \<Longrightarrow> move_forward (pre @ utf8_string xs) n (length pre) =
     Inr (n - length xs, length pre + length (utf8_string (take n xs)))"
proof (induction xs arbitrary: pre n)
  case Nil
  then show ?case by (cases n) simp_all
next
  case (Cons x xs)
  show ?case
  proof (cases n)
    case (Suc m)
    have "move_forward (pre @ utf8_string (x # xs)) m (length pre + length (utf8_bytes x)) =
        Inr (m - length xs, length pre + length (utf8_bytes x) + length (utf8_string (take m xs)))"
      using Cons.IH [of "pre @ utf8_bytes x" m] Cons.prems by simp
    then show ?thesis using skip_char [of x xs pre] Cons.prems Suc by simp
  qed simp
qed

lemma move_back_at:
  "list_all is_scalar xs \<Longrightarrow> move_back (utf8_string xs @ post) n (length (utf8_string xs)) =
     Inr (n - length xs, length (utf8_string (take (length xs - n) xs)))"
proof (induction xs arbitrary: n post rule: rev_induct)
  case Nil
  then show ?case by (cases n) simp_all
next
  case (snoc x xs)
  have cat: "utf8_string (xs @ [x]) = utf8_string xs @ utf8_bytes x" by (simp add: utf8_string_def)
  show ?case
  proof (cases n)
    case (Suc m)
    have "move_back (utf8_string xs @ utf8_bytes x @ post) m (length (utf8_string xs)) =
        Inr (m - length xs, length (utf8_string (take (length xs - m) xs)))"
      using snoc.IH [of "utf8_bytes x @ post" m] snoc.prems by simp
    then show ?thesis using back_char [of x "utf8_string xs" post] snoc.prems Suc by (simp add: cat)
  qed (simp add: cat)
qed

section \<open>Bounds\<close>

lemma skip_over_safe: "p \<le> length s \<Longrightarrow> \<exists>q. skip_over s p = Inr q \<and> p \<le> q \<and> q \<le> length s"
proof (induction s p rule: skip_over.induct)
  case (1 s p)
  show ?case
  proof (cases "p < length s \<and> iscont (s ! p)")
    case True
    then have "\<exists>q. skip_over s (p + 1) = Inr q \<and> p + 1 \<le> q \<and> q \<le> length s"
      using "1.IH" [of "s ! p"] by (simp add: char_at_less)
    then show ?thesis using True by (subst skip_over.simps) (auto simp: char_at_less)
  next
    case False
    then show ?thesis using "1.prems" by (subst skip_over.simps) (auto simp: char_at_def)
  qed
qed

lemma back_over_safe: "p \<le> length s \<Longrightarrow> \<exists>q. back_over s p = Inr q \<and> q \<le> p"
  by (induction s p rule: back_over.induct) (auto simp: char_at_def le_Suc_eq)

lemma move_forward_safe: "p \<le> length s \<Longrightarrow> \<exists>r. move_forward s n p = Inr r"
proof (induction n arbitrary: p)
  case (Suc n)
  show ?case
  proof (cases "p < length s")
    case True
    then have "p + 1 \<le> length s" by simp
    then obtain q where "skip_over s (p + 1) = Inr q" "q \<le> length s" using skip_over_safe by blast
    with Suc.IH [of q] True show ?thesis by simp
  qed simp
qed simp

lemma move_back_safe: "p \<le> length s \<Longrightarrow> \<exists>r. move_back s n p = Inr r"
proof (induction n arbitrary: p)
  case (Suc n)
  show ?case
  proof (cases "p > 0")
    case True
    have "p - 1 \<le> length s" using Suc.prems by simp
    then obtain q where q: "back_over s (p - 1) = Inr q" "q \<le> p - 1" using back_over_safe by blast
    with Suc.IH [of q] Suc.prems True show ?thesis by simp
  qed simp
qed simp

lemma decode_bound: "p < length s \<Longrightarrow> utf8_decode s p = Inr (Some (x, q)) \<Longrightarrow> q \<le> length s"
proof -
  assume p: "p < length s" and d: "utf8_decode s p = Inr (Some (x, q))"
  from decode_sound [OF p d] have q: "q = p + length (utf8_bytes x)" and t: "take (length (utf8_bytes x)) (drop p s) = utf8_bytes x" by auto
  from arg_cong [OF t, of length] have "length (utf8_bytes x) \<le> length s - p" by simp
  then show ?thesis using q p by simp
qed

lemma utflen_loop_safe: "posj < int (length s) \<Longrightarrow> \<exists>r. utflen_loop s p posj n = Inr r"
proof (induction s p posj n rule: utflen_loop.induct)
  case (1 s p posj n)
  show ?case
  proof (cases "int p \<le> posj")
    case True
    then have p: "p < length s" using "1.prems" by simp
    obtain r where r: "utf8_decode s p = Inr r" using decode_total [OF p] by blast
    show ?thesis using "1.IH" [OF True] "1.prems" True r
      by (subst utflen_loop.simps) (auto split: option.splits prod.splits)
  qed (subst utflen_loop.simps, simp)
qed

lemma codepoint_loop_safe: "se \<le> length s \<Longrightarrow> codepoint_loop s p se \<noteq> Inl OutOfBounds"
proof (induction s p se rule: codepoint_loop.induct)
  case (1 s p se)
  show ?case
  proof (cases "p < se")
    case True
    then have p: "p < length s" using "1.prems" by simp
    obtain r where r: "utf8_decode s p = Inr r" using decode_total [OF p] by blast
    have "codepoint_loop s q se \<noteq> Inl OutOfBounds" if "r = Some (x, q)" for x q
      using that r "1.prems" by (intro "1.IH" [OF True, of r "(x, q)" x q]) auto
    then show ?thesis using True r by (subst codepoint_loop.simps) (auto split: option.splits sum.splits)
  qed (subst codepoint_loop.simps, simp)
qed

lemma iter_aux_overflow: "i - 1 < - (2 ^ 31) \<Longrightarrow> iter_aux s i = Inl Undefined"
  by (simp add: iter_aux_def iter_start_def)

lemma iter_aux_safe: "iter_aux s i \<noteq> Inl OutOfBounds \<and> (iter_aux s i = Inl Undefined \<longleftrightarrow> i - 1 < - (2 ^ 31))"
proof (cases "i - 1 < - (2 ^ 31)")
  case True
  then show ?thesis by (simp add: iter_aux_overflow)
next
  case False
  have "\<exists>n. iter_start s i = Inr n"
  proof (cases "0 \<le> i - 1 \<and> i - 1 < int (length s)")
    case True
    then have "nat (i - 1) + 1 \<le> length s" by linarith
    then obtain q where "skip_over s (nat (i - 1) + 1) = Inr q" using skip_over_safe by blast
    then show ?thesis using True unfolding iter_start_def Let_def by simp
  qed (use False in \<open>auto simp: iter_start_def Let_def\<close>)
  then obtain n where n: "iter_start s i = Inr n" ..
  have "iter_aux s i \<noteq> Inl OutOfBounds \<and> iter_aux s i \<noteq> Inl Undefined"
  proof (cases "n < length s")
    case True
    obtain r where r: "utf8_decode s n = Inr r" using decode_total [OF True] by blast
    show ?thesis
    proof (cases r)
      case (Some a)
      then obtain x q where a: "utf8_decode s n = Inr (Some (x, q))" using r by (cases a) auto
      then have "q \<le> length s" by (rule decode_bound [OF True])
      then show ?thesis using n a True by (simp add: iter_aux_def char_at_def)
    qed (use n r True in \<open>simp add: iter_aux_def\<close>)
  qed (use n in \<open>simp add: iter_aux_def\<close>)
  then show ?thesis using False by simp
qed

lemma u_posrelat_le: "u_posrelat i len \<le> max i (int len)"
  by (auto simp: u_posrelat_def)

lemma byteoffset_safe: "byteoffset s n i \<noteq> Inl OutOfBounds"
proof -
  define posi where "posi = u_posrelat (case i of None \<Rightarrow> (if n \<ge> 0 then 1 else int (length s) + 1) | Some i \<Rightarrow> i) (length s)"
  show ?thesis
  proof (cases "1 \<le> posi \<and> posi - 1 \<le> int (length s)")
    case True
    define p where "p = nat (posi - 1)"
    have p: "p \<le> length s" using True unfolding p_def by linarith
    obtain a b c d where r: "back_over s p = Inr a" "move_back s (nat (- n)) p = Inr b" "move_forward s (nat (n - 1)) p = Inr c" "char_at s p = Inr d"
      using back_over_safe [OF p] move_back_safe [OF p] move_forward_safe [OF p] p unfolding char_at_def by (metis le_neq_implies_less)
    have "byteoffset s n i = (if n = 0 then map_sum id (\<lambda>p. Some (int p + 1)) (back_over s p)
        else if iscont d then Inl ContinuationByte
        else map_sum id (\<lambda>(n, p). if n = 0 then Some (int p + 1) else None) (if n < 0 then move_back s (nat (- n)) p else move_forward s (nat (n - 1)) p))"
      using True r(4) unfolding byteoffset_def Let_def posi_def [symmetric] p_def [symmetric] by simp
    then show ?thesis unfolding r by simp
  next
    case False
    then show ?thesis unfolding byteoffset_def Let_def posi_def [symmetric] by simp
  qed
qed

lemma utflen_all: "utflen s None None = utflen_loop s 0 (int (length s) - 1) 0"
  by (cases s) (simp_all add: utflen_def u_posrelat_def)

lemma utflen_string: "list_all is_scalar xs \<Longrightarrow> utflen (utf8_string xs) None None = Inr (Length (length xs))"
  using utflen_loop_string [of xs "[]" 0] by (simp add: utflen_all)

lemma decode_stuck:
  assumes "\<nexists>x tl. is_scalar x \<and> rest = utf8_bytes x @ tl" "rest \<noteq> []"
  shows "utf8_decode (pre @ rest) (length pre) = Inr None"
proof -
  have p: "length pre < length (pre @ rest)" using assms(2) by simp
  obtain r where r: "utf8_decode (pre @ rest) (length pre) = Inr r" using decode_total [OF p] by blast
  have "r = None"
  proof (rule ccontr)
    assume "r \<noteq> None"
    then obtain x q where "utf8_decode (pre @ rest) (length pre) = Inr (Some (x, q))" using r by auto
    from decode_sound [OF p this] have "is_scalar x" "take (length (utf8_bytes x)) rest = utf8_bytes x" by auto
    then show False using assms(1) append_take_drop_id [of "length (utf8_bytes x)" rest] by metis
  qed
  with r show ?thesis by simp
qed

lemma utflen_loop_stuck:
  assumes "\<nexists>x tl. is_scalar x \<and> rest = utf8_bytes x @ tl" "rest \<noteq> []"
  shows "list_all is_scalar xs \<Longrightarrow> utflen_loop (pre @ utf8_string xs @ rest) (length pre) (int (length (pre @ utf8_string xs @ rest)) - 1) n
    = Inr (InvalidAt (int (length pre + length (utf8_string xs)) + 1))"
proof (induction xs arbitrary: pre n)
  case Nil
  have "int (length pre) \<le> int (length (pre @ rest)) - 1" using assms(2) by (cases rest) auto
  then show ?case using decode_stuck [OF assms, of pre] by (subst utflen_loop.simps) simp
next
  case (Cons x xs)
  have "int (length pre) \<le> int (length (pre @ utf8_string (x # xs) @ rest)) - 1"
    using utf8_bytes_pos [of x] unfolding utf8_string_simps length_append by linarith
  moreover have "utflen_loop (pre @ utf8_string (x # xs) @ rest) (length pre + length (utf8_bytes x)) (int (length (pre @ utf8_string (x # xs) @ rest)) - 1) (n + 1)
      = Inr (InvalidAt (int (length pre + length (utf8_string (x # xs))) + 1))"
    using Cons.IH [of "pre @ utf8_bytes x" "n + 1"] Cons.prems by (simp add: add.assoc)
  ultimately show ?case using decode_at [of x pre "utf8_string xs @ rest"] Cons.prems by (subst utflen_loop.simps) simp
qed

section \<open>Properties\<close>

text \<open>C31. Inside of a string the decoder reads no byte beyond the terminator, and it returns a code point exactly when the bytes at the
  position are the shortest encoding of a Unicode scalar value: overlong forms, surrogates, values above 0x10FFFF,
  truncated sequences and stray continuation bytes are all rejected.\<close>

theorem utf8_decode_exact:
  assumes "p < length s"
  shows "(utf8_decode s p = Inr (Some (x, q)) \<longleftrightarrow>
      is_scalar x \<and> q = p + length (utf8_bytes x) \<and> take (length (utf8_bytes x)) (drop p s) = utf8_bytes x)
    \<and> (\<exists>r. utf8_decode s p = Inr r)"
  using decode_sound [OF assms] decode_complete [OF assms] decode_total [OF assms] by blast

theorem utf8_decode_exact_witness: "utf8_decode [0xC0, 0x80] 0 \<noteq> Inr (Some (0, 2)) \<and> (\<exists>r. utf8_decode [0xC0, 0x80] 0 = Inr r)"
  using utf8_decode_exact [of 0 "[0xC0, 0x80]" 0 2] by (simp add: utf8_bytes_def)

text \<open>C32. \<open>utf8.char\<close> encodes every list of codes up to 0x10FFFF; for scalar values \<open>utf8.len\<close> of the result is their number, and
  \<open>utf8.codepoint\<close> over the whole string gives the codes back, unless the slots for one result per byte and for the arguments
  (\<open>used\<close>) exceed \<open>LUAI_MAXCSTACK\<close>: then, and only then, it fails with a stack overflow.\<close>

theorem utf8_char_roundtrip:
  assumes "codes_ok codes" "4 * length codes < 2 ^ 31"
  shows "\<exists>s. utfchar codes = Inr s \<and> s = utf8_string (map of_int codes) \<and>
    (list_all is_scalar (map of_int codes) \<longrightarrow>
       codepoint used s (Some 1) (Some (- 1)) =
         (if codes \<noteq> [] \<and> used + length s > 8000 then Inl StackOverflow else Inr (map of_int codes)) \<and>
       utflen s None None = Inr (Length (length codes)))"
proof -
  let ?xs = "map of_int codes :: u32 list"
  have "length (utf8_bytes x) \<le> 4" for x by (simp add: utf8_bytes_def)
  then have "length (utf8_string xs) \<le> 4 * length xs" for xs
    by (induction xs) (simp_all, metis add_le_mono)
  then have small: "int (length (utf8_string ?xs)) < 2 ^ 31" using assms(2) by (metis (mono_tags, lifting) length_map le_less_trans of_nat_less_iff of_nat_numeral of_nat_power)
  have "codepoint used (utf8_string ?xs) (Some 1) (Some (- 1)) =
      (if codes \<noteq> [] \<and> used + length (utf8_string ?xs) > 8000 then Inl StackOverflow else Inr ?xs)" if "list_all is_scalar ?xs"
  proof (cases "utf8_string ?xs = []")
    case True
    then have "codes = []" by (cases codes) auto
    then show ?thesis by (simp add: codepoint_def u_posrelat_def)
  next
    case False
    then have p: "u_posrelat (- 1) (length (utf8_string ?xs)) = int (length (utf8_string ?xs))" by (simp add: u_posrelat_def Suc_le_eq)
    have c: "codes \<noteq> []" using False by auto
    have "luaL_checkstack used (int (length (utf8_string ?xs)) - 1 + 1) =
        (if used + length (utf8_string ?xs) > 8000 then Inl StackOverflow else Inr ())"
      by (auto simp: luaL_checkstack_def LUAI_MAXCSTACK_def)
    with False small p c show ?thesis using codepoint_loop_string [OF that, of "[]" "[]"]
      by (simp add: codepoint_def u_posrelat_def [of 1] Suc_le_eq)
  qed
  moreover have "utflen (utf8_string ?xs) None None = Inr (Length (length codes))" if "list_all is_scalar ?xs"
    using utflen_string [OF that] by simp
  ultimately show ?thesis using utfchar_ok [OF assms(1)] by blast
qed

theorem utf8_char_roundtrip_witness:
  "\<exists>s. utfchar [0x24, 0x20AC, 0x10348] = Inr s \<and> utflen s None None = Inr (Length 3) \<and>
     codepoint 3 s (Some 1) (Some (- 1)) = Inr [0x24, 0x20AC, 0x10348]"
proof -
  have "codes_ok [0x24, 0x20AC, 0x10348]" "list_all is_scalar (map of_int [0x24, 0x20AC, 0x10348])" by (simp_all add: codes_ok_def is_scalar_def)
  moreover have "length (utf8_string (map of_int [0x24, 0x20AC, 0x10348])) = 8" by (simp add: utf8_bytes_def)
  ultimately show ?thesis using utf8_char_roundtrip [of "[0x24, 0x20AC, 0x10348]" 3] by auto
qed

text \<open>C33. \<open>utf8.len\<close> validates: it returns a length exactly for well-formed strings, and otherwise the position of the first byte at which
  the well-formed prefix cannot be continued.\<close>

theorem utflen_validates:
  "(utflen s None None = Inr (Length n) \<longleftrightarrow> (\<exists>xs. list_all is_scalar xs \<and> s = utf8_string xs \<and> n = length xs))
   \<and> (utflen s None None = Inr (InvalidAt p) \<longleftrightarrow>
       (\<exists>xs rest. list_all is_scalar xs \<and> s = utf8_string xs @ rest \<and> p = int (length (utf8_string xs)) + 1 \<and> rest \<noteq> [] \<and>
          (\<nexists>x tl. is_scalar x \<and> rest = utf8_bytes x @ tl)))"
proof -
  obtain xs rest where xr: "s = utf8_string xs @ rest" "list_all is_scalar xs"
    "utflen s None None = Inr (Length (length xs)) \<and> rest = [] \<or>
     utflen s None None = Inr (InvalidAt (int (length (utf8_string xs)) + 1)) \<and> rest \<noteq> [] \<and> utf8_decode s (length (utf8_string xs)) = Inr None"
    using utflen_loop_sound [of 0 s 0, unfolded drop_0 id_apply add_0, OF le0] unfolding utflen_all by blast
  have no: "\<nexists>x tl. is_scalar x \<and> rest = utf8_bytes x @ tl" if "utf8_decode s (length (utf8_string xs)) = Inr None"
    using decode_at that xr(1) by fastforce
  show ?thesis
  proof (intro conjI iffI)
    assume "utflen s None None = Inr (Length n)"
    then have "n = length xs" "rest = []" using xr(3) by auto
    then show "\<exists>xs. list_all is_scalar xs \<and> s = utf8_string xs \<and> n = length xs" using xr(1,2) by auto
  next
    assume "utflen s None None = Inr (InvalidAt p)"
    then have "p = int (length (utf8_string xs)) + 1" "rest \<noteq> []" "utf8_decode s (length (utf8_string xs)) = Inr None" using xr(3) by auto
    then show "\<exists>xs rest. list_all is_scalar xs \<and> s = utf8_string xs @ rest \<and> p = int (length (utf8_string xs)) + 1 \<and> rest \<noteq> [] \<and>
        (\<nexists>x tl. is_scalar x \<and> rest = utf8_bytes x @ tl)" using xr(1,2) no by blast
  next
    assume "\<exists>xs rest. list_all is_scalar xs \<and> s = utf8_string xs @ rest \<and> p = int (length (utf8_string xs)) + 1 \<and> rest \<noteq> [] \<and>
        (\<nexists>x tl. is_scalar x \<and> rest = utf8_bytes x @ tl)"
    then obtain ys r where y: "list_all is_scalar ys" "s = utf8_string ys @ r" "p = int (length (utf8_string ys)) + 1" "r \<noteq> []"
      "\<nexists>x tl. is_scalar x \<and> r = utf8_bytes x @ tl" by blast
    then show "utflen s None None = Inr (InvalidAt p)" using utflen_loop_stuck [OF y(5,4,1), of "[]" 0] by (simp add: utflen_all)
  qed (auto simp: utflen_string)
qed

text \<open>C34. On well-formed strings \<open>utf8.codes\<close> visits every character once, in order, at the position of its first byte, and
  \<open>utf8.offset\<close> finds the first byte of the \<open>n\<close>-th character from the start or from the end, or no position.\<close>

theorem utf8_positions:
  assumes "list_all is_scalar xs"
  shows "(length xs < fuel \<longrightarrow> codes_loop fuel (utf8_string xs) 0 = Inr (Some (char_starts 1 xs)))
    \<and> byteoffset (utf8_string xs) n None =
      Inr (if n = 0 then Some 1
           else if n > 0 then (if nat (n - 1) \<le> length xs then Some (int (length (utf8_string (take (nat (n - 1)) xs))) + 1) else None)
           else (if nat (- n) \<le> length xs then Some (int (length (utf8_string (take (length xs - nat (- n)) xs))) + 1) else None))"
proof (rule conjI)
  show "length xs < fuel \<longrightarrow> codes_loop fuel (utf8_string xs) 0 = Inr (Some (char_starts 1 xs))"
    using codes_loop_at [OF assms, of "[]" 0 fuel] by (simp add: iter_start_def)
  have h: "char_at (utf8_string xs) 0 = Inr (case utf8_string xs of [] \<Rightarrow> 0 | b # _ \<Rightarrow> b)" using char_at_append [of "[]" "utf8_string xs"] by simp
  have e: "char_at (utf8_string xs) (length (utf8_string xs)) = Inr 0" by (simp add: char_at_def)
  consider "n = 0" | "n > 0" | "n < 0" by linarith
  then show "byteoffset (utf8_string xs) n None =
      Inr (if n = 0 then Some 1
           else if n > 0 then (if nat (n - 1) \<le> length xs then Some (int (length (utf8_string (take (nat (n - 1)) xs))) + 1) else None)
           else (if nat (- n) \<le> length xs then Some (int (length (utf8_string (take (length xs - nat (- n)) xs))) + 1) else None))"
  proof cases
    case 1 then show ?thesis by (simp add: byteoffset_def u_posrelat_def)
  next
    case 2 then show ?thesis using h string_head [OF assms] move_forward_at [OF assms, of "[]" "nat (n - 1)"]
      by (simp add: byteoffset_def u_posrelat_def Let_def)
  next
    case 3 then show ?thesis using e move_back_at [OF assms, of "[]" "nat (- n)"]
      by (simp add: byteoffset_def u_posrelat_def Let_def)
  qed
qed

theorem utf8_positions_witness: "codes_loop 3 (utf8_string [0x24, 0x20AC]) 0 = Inr (Some (char_starts 1 [0x24, 0x20AC]))"
  using utf8_positions [of "[0x24, 0x20AC]" 3 0] by (simp add: is_scalar_def)

text \<open>C35. No function of the library reads beyond the terminator of its string, whatever the string and the positions given; the
  iterator's \<open>int\<close> arithmetic overflows exactly when it is called with the smallest \<open>int\<close> (or less) as position.\<close>

theorem utf8_in_bounds:
  "utflen s i j \<noteq> Inl OutOfBounds \<and> codepoint used s i j \<noteq> Inl OutOfBounds \<and> byteoffset s n i \<noteq> Inl OutOfBounds \<and> iter_aux s k \<noteq> Inl OutOfBounds
   \<and> (iter_aux s k = Inl Undefined \<longleftrightarrow> k \<le> - (2 ^ 31))"
proof (intro conjI)
  show "utflen s i j \<noteq> Inl OutOfBounds"
    unfolding utflen_def Let_def using utflen_loop_safe [of _ s _ 0] by (metis Inl_Inr_False sum.inject(1) utf8_error.distinct(1))
  show "codepoint used s i j \<noteq> Inl OutOfBounds"
    unfolding codepoint_def Let_def luaL_checkstack_def using codepoint_loop_safe [of _ s] by (auto dest: sym)
  show "iter_aux s k = Inl Undefined \<longleftrightarrow> k \<le> - (2 ^ 31)" using iter_aux_safe [of s k] by auto
qed (rule byteoffset_safe, rule iter_aux_safe [THEN conjunct1])

end
