(* ===== verification/LibArgs.thy ===== *)
theory LibArgs
  imports HashCodec
begin

text \<open>
  Values as the libraries of the virtual machine receive them, the argument checks of \<^verbatim>\<open>VM/src/laux.cpp\<close> with the conversions
  below them (\<^verbatim>\<open>lapi.cpp\<close>, \<^verbatim>\<open>lobject.cpp\<close>, \<^verbatim>\<open>lnumutils.h\<close>), and the protocol of fast calls: \<^verbatim>\<open>VM/src/lbuiltins.cpp\<close> holds a second
  implementation of many library functions, which either answers or leaves the call to the library.
\<close>

section \<open>Values and errors\<close>

text \<open>A buffer is its address; other heap objects are of no interest to these libraries.\<close>

datatype lua_value = LNil | LBoolean bool | LNumber u64 | LInteger u64 | LString bytes | LBuffer nat | LOther

text \<open>\<open>Undefined\<close> stands for an operation without a defined result in C++: an integer overflow, a conversion out of range.\<close>

datatype lib_error =
    TypeErr nat | ArgErr nat | DivisionByZero | IntegerOverflow | NonExistentBits | BufferBounds | BitCountRange
  | StringLengthOverflow | Undefined

definition seq :: "'e + 'a \<Rightarrow> ('a \<Rightarrow> 'e + 'b) \<Rightarrow> 'e + 'b" where
  "seq x f = (case x of Inl e \<Rightarrow> Inl e | Inr v \<Rightarrow> f v)"

lemma seq_simps [simp]: "seq (Inl e) f = Inl e" "seq (Inr v) f = f v"
  by (simp_all add: seq_def)

lemma seq_eq_Inr: "seq x f = Inr b \<longleftrightarrow> (\<exists>a. x = Inr a \<and> f a = Inr b)"
  by (cases x) auto

lemma seq_eq_Inl: "seq x f = Inl e \<longleftrightarrow> x = Inl e \<or> (\<exists>a. x = Inr a \<and> f a = Inl e)"
  by (cases x) auto

text \<open>Results of \<open>int\<close> and \<open>int64_t\<close> arithmetic, defined only in range.\<close>

definition cint :: "int \<Rightarrow> lib_error + int" where
  "cint x = (if - (2 ^ 31) \<le> x \<and> x < 2 ^ 31 then Inr x else Inl Undefined)"

definition cint64 :: "int \<Rightarrow> lib_error + int" where
  "cint64 x = (if - (2 ^ 63) \<le> x \<and> x < 2 ^ 63 then Inr x else Inl Undefined)"

section \<open>Conversions\<close>

text \<open>The value of a finite double, truncated towards zero.\<close>

definition dbl_trunc :: "u64 \<Rightarrow> int option" where
  "dbl_trunc x =
     (let e = dbl_exp x; f = 2 ^ 52 + dbl_man x; sgn = (if dbl_neg x then - 1 else 1)
      in if e = 2047 then None
         else if e < 1023 then Some 0
         else if e \<le> 1075 then Some (sgn * int (f div 2 ^ (1075 - e)))
         else Some (sgn * int (f * 2 ^ (e - 1075))))"

definition luai_num2int :: "u64 \<Rightarrow> lib_error + int" where
  "luai_num2int d = (case dbl_trunc d of Some i \<Rightarrow> cint i | None \<Rightarrow> Inl Undefined)"

definition luai_num2unsigned :: "u64 \<Rightarrow> lib_error + u32" where
  "luai_num2unsigned d = (case dbl_trunc d of Some i \<Rightarrow> map_sum id of_int (cint64 i) | None \<Rightarrow> Inl Undefined)"

text \<open>
  Numbers written in strings. \<open>strtod\<close> and \<open>strtoul\<close> (with base 16) are the C library's: the value, and how many characters of
  the string they used, which is none when there is no number.
\<close>

record c_library =
  c_strtod :: "bytes \<Rightarrow> u64 \<times> nat"
  c_strtoul16 :: "bytes \<Rightarrow> u64 \<times> nat"

definition is_space :: "u8 \<Rightarrow> bool" where
  "is_space c \<longleftrightarrow> c = 32 \<or> 9 \<le> c \<and> c \<le> 13"

definition luaO_str2d :: "c_library \<Rightarrow> bytes \<Rightarrow> u64 option" where
  "luaO_str2d C str =
     (let s = takeWhile (\<lambda>c. c \<noteq> 0) str; (result, n) = c_strtod C s
      in if n = 0 then None
         else let (result, n) =
                (if n < length s \<and> (s ! n = 0x78 \<or> s ! n = 0x58) then map_prod u64_to_double id (c_strtoul16 C s) else (result, n))
              in if list_all is_space (drop n s) then Some result else None)"

definition luaV_tonumber :: "c_library \<Rightarrow> lua_value \<Rightarrow> u64 option" where
  "luaV_tonumber C v = (case v of LNumber d \<Rightarrow> Some d | LString s \<Rightarrow> luaO_str2d C s | _ \<Rightarrow> None)"

section \<open>Argument checks\<close>

text \<open>The \<open>i\<close>-th argument, counted from one; arguments beyond the last are none.\<close>

definition arg :: "lua_value list \<Rightarrow> nat \<Rightarrow> lua_value option" where
  "arg args i = (if 1 \<le> i \<and> i \<le> length args then Some (args ! (i - 1)) else None)"

definition luaL_checknumber :: "c_library \<Rightarrow> lua_value list \<Rightarrow> nat \<Rightarrow> lib_error + u64" where
  "luaL_checknumber C args i =
     (case Option.bind (arg args i) (luaV_tonumber C) of Some d \<Rightarrow> Inr d | None \<Rightarrow> Inl (TypeErr i))"

definition luaL_checkinteger :: "c_library \<Rightarrow> lua_value list \<Rightarrow> nat \<Rightarrow> lib_error + int" where
  "luaL_checkinteger C args i =
     (case Option.bind (arg args i) (luaV_tonumber C) of Some d \<Rightarrow> luai_num2int d | None \<Rightarrow> Inl (TypeErr i))"

definition luaL_checkunsigned :: "c_library \<Rightarrow> lua_value list \<Rightarrow> nat \<Rightarrow> lib_error + u32" where
  "luaL_checkunsigned C args i =
     (case Option.bind (arg args i) (luaV_tonumber C) of Some d \<Rightarrow> luai_num2unsigned d | None \<Rightarrow> Inl (TypeErr i))"

definition luaL_checkinteger64 :: "lua_value list \<Rightarrow> nat \<Rightarrow> lib_error + u64" where
  "luaL_checkinteger64 args i = (case arg args i of Some (LInteger x) \<Rightarrow> Inr x | _ \<Rightarrow> Inl (TypeErr i))"

definition luaL_opt :: "lua_value list \<Rightarrow> nat \<Rightarrow> 'a \<Rightarrow> lib_error + 'a \<Rightarrow> lib_error + 'a" where
  "luaL_opt args i d checked = (if arg args i = None \<or> arg args i = Some LNil then Inr d else checked)"

definition luaL_optinteger :: "c_library \<Rightarrow> lua_value list \<Rightarrow> nat \<Rightarrow> int \<Rightarrow> lib_error + int" where
  "luaL_optinteger C args i d = luaL_opt args i d (luaL_checkinteger C args i)"

definition luaL_optinteger64 :: "lua_value list \<Rightarrow> nat \<Rightarrow> u64 \<Rightarrow> lib_error + u64" where
  "luaL_optinteger64 args i d = luaL_opt args i d (luaL_checkinteger64 args i)"

text \<open>A loop over arguments that combines their checked values.\<close>

fun fold_args :: "('a \<Rightarrow> 'a \<Rightarrow> 'a) \<Rightarrow> (nat \<Rightarrow> lib_error + 'a) \<Rightarrow> nat list \<Rightarrow> 'a \<Rightarrow> lib_error + 'a" where
  "fold_args f check [] r = Inr r"
| "fold_args f check (i # is) r = seq (check i) (\<lambda>x. fold_args f check is (f r x))"

text \<open>Results: \<open>lua_pushunsigned\<close> and \<open>setnvalue\<close> of an \<open>unsigned\<close> or an \<open>int\<close> push the number.\<close>

definition push_unsigned :: "u32 \<Rightarrow> lua_value" where
  "push_unsigned u = LNumber (cast_num (uint u))"

section \<open>Fast calls\<close>

text \<open>
  A fast function returns no answer (\<open>-1\<close> in the code) or its results; the interpreter calls the library function in the
  first case. \<open>nresults\<close> is the number of results the call site wants, \<open>-1\<close> for all.
\<close>

definition fastcall :: "(int \<Rightarrow> 'i \<Rightarrow> lib_error + 'o option) \<Rightarrow> ('i \<Rightarrow> lib_error + 'o) \<Rightarrow> int \<Rightarrow> 'i \<Rightarrow> lib_error + 'o" where
  "fastcall fast lib nresults i =
     (case fast nresults i of Inl e \<Rightarrow> Inl e | Inr None \<Rightarrow> lib i | Inr (Some v) \<Rightarrow> Inr v)"

text \<open>The contract: where the fast function answers, it answers as the library function does, and it raises no errors.\<close>

locale fast_function =
  fixes fast :: "int \<Rightarrow> 'i \<Rightarrow> lib_error + 'o option"
    and lib :: "'i \<Rightarrow> lib_error + 'o"
  assumes answers: "fast nresults i = Inr (Some v) \<Longrightarrow> lib i = Inr v"
    and no_errors: "fast nresults i = Inl e \<Longrightarrow> e = Undefined"
begin

lemma fastcall_agrees: "fastcall fast lib nresults i = lib i \<or> fastcall fast lib nresults i = Inl Undefined"
  using answers no_errors by (auto simp: fastcall_def split: sum.split option.split)

lemma fastcall_eq: "fast nresults i \<noteq> Inl Undefined \<Longrightarrow> fastcall fast lib nresults i = lib i"
  using answers no_errors by (auto simp: fastcall_def split: sum.split option.split)

end

text \<open>Fast functions without undefined operations answer for the library in every case.\<close>

locale exact_fast_function =
  fixes fast :: "int \<Rightarrow> 'i \<Rightarrow> lib_error + 'o option"
    and lib :: "'i \<Rightarrow> lib_error + 'o"
  assumes exact_answers: "fast nresults i = Inr (Some v) \<Longrightarrow> lib i = Inr v"
    and never_fails: "fast nresults i \<noteq> Inl e"

sublocale exact_fast_function \<subseteq> fast_function fast lib
  by unfold_locales (auto simp: never_fails intro: exact_answers)

context exact_fast_function
begin

lemma fastcall_exact: "fastcall fast lib nresults i = lib i"
  by (rule fastcall_eq) (rule never_fails)

end

text \<open>The tests at the head of the fast functions: how many arguments there are, and of which types.\<close>

definition number_arg :: "lua_value list \<Rightarrow> nat \<Rightarrow> u64 option" where
  "number_arg args i = (case arg args i of Some (LNumber d) \<Rightarrow> Some d | _ \<Rightarrow> None)"

definition integer_arg :: "lua_value list \<Rightarrow> nat \<Rightarrow> u64 option" where
  "integer_arg args i = (case arg args i of Some (LInteger x) \<Rightarrow> Some x | _ \<Rightarrow> None)"

definition fast1 :: "(lua_value list \<Rightarrow> nat \<Rightarrow> 'a option) \<Rightarrow> ('a \<Rightarrow> lib_error + 'o option) \<Rightarrow> int \<Rightarrow> lua_value list \<Rightarrow> lib_error + 'o option" where
  "fast1 get f nresults args =
     (if nresults \<le> 1 then case get args 1 of Some a \<Rightarrow> f a | None \<Rightarrow> Inr None else Inr None)"

definition fast2 ::
  "(lua_value list \<Rightarrow> nat \<Rightarrow> 'a option) \<Rightarrow> ('a \<Rightarrow> 'a \<Rightarrow> lib_error + 'o option) \<Rightarrow> int \<Rightarrow> lua_value list \<Rightarrow> lib_error + 'o option" where
  "fast2 get f nresults args =
     (if nresults \<le> 1 then case (get args 1, get args 2) of (Some a, Some b) \<Rightarrow> f a b | _ \<Rightarrow> Inr None else Inr None)"

definition fast3 ::
  "(lua_value list \<Rightarrow> nat \<Rightarrow> 'a option) \<Rightarrow> ('a \<Rightarrow> 'a \<Rightarrow> 'a \<Rightarrow> lib_error + 'o option) \<Rightarrow> int \<Rightarrow> lua_value list \<Rightarrow> lib_error + 'o option" where
  "fast3 get f nresults args =
     (if nresults \<le> 1 then case (get args 1, get args 2, get args 3) of (Some a, Some b, Some c) \<Rightarrow> f a b c | _ \<Rightarrow> Inr None else Inr None)"

text \<open>Their loops over further arguments give up at the first argument of another type.\<close>

fun fast_fold :: "('a \<Rightarrow> 'a \<Rightarrow> 'a) \<Rightarrow> (nat \<Rightarrow> (lib_error + 'a) option) \<Rightarrow> nat list \<Rightarrow> 'a \<Rightarrow> lib_error + 'a option" where
  "fast_fold f get [] r = Inr (Some r)"
| "fast_fold f get (i # is) r = (case get i of None \<Rightarrow> Inr None | Some c \<Rightarrow> seq c (\<lambda>x. fast_fold f get is (f r x)))"

lemma fast_guards:
  "fast1 get f nresults args = Inr (Some v) \<longleftrightarrow> nresults \<le> 1 \<and> (\<exists>a. get args 1 = Some a \<and> f a = Inr (Some v))"
  "fast2 get g nresults args = Inr (Some v) \<longleftrightarrow> nresults \<le> 1 \<and> (\<exists>a b. get args 1 = Some a \<and> get args 2 = Some b \<and> g a b = Inr (Some v))"
  "fast3 get h nresults args = Inr (Some v) \<longleftrightarrow>
     nresults \<le> 1 \<and> (\<exists>a b c. get args 1 = Some a \<and> get args 2 = Some b \<and> get args 3 = Some c \<and> h a b c = Inr (Some v))"
  "fast1 get f nresults args = Inl e \<longleftrightarrow> nresults \<le> 1 \<and> (\<exists>a. get args 1 = Some a \<and> f a = Inl e)"
  "fast2 get g nresults args = Inl e \<longleftrightarrow> nresults \<le> 1 \<and> (\<exists>a b. get args 1 = Some a \<and> get args 2 = Some b \<and> g a b = Inl e)"
  "fast3 get h nresults args = Inl e \<longleftrightarrow>
     nresults \<le> 1 \<and> (\<exists>a b c. get args 1 = Some a \<and> get args 2 = Some b \<and> get args 3 = Some c \<and> h a b c = Inl e)"
  by (auto simp: fast1_def fast2_def fast3_def split: option.splits)

lemma fast_fold_answers:
  assumes "fast_fold f get is r = Inr (Some v)" "\<And>i c. i \<in> set is \<Longrightarrow> get i = Some c \<Longrightarrow> check i = c"
  shows "fold_args f check is r = Inr v"
  using assms
proof (induction "is" arbitrary: r)
  case (Cons i "is")
  then obtain c where c: "get i = Some c" "check i = c" "seq c (\<lambda>x. fast_fold f get is (f r x)) = Inr (Some v)"
    by (auto split: option.splits)
  then show ?case using Cons by (auto simp: seq_eq_Inr)
qed simp

lemma fast_fold_errors:
  "fast_fold f get is r = Inl e \<Longrightarrow> (\<And>i c e. get i = Some c \<Longrightarrow> c = Inl e \<Longrightarrow> e = Undefined) \<Longrightarrow> e = Undefined"
  by (induction "is" arbitrary: r) (auto simp: seq_eq_Inl split: option.splits)

lemma number_arg_length: "number_arg args i = Some d \<Longrightarrow> 1 \<le> i \<and> i \<le> length args"
  by (auto simp: number_arg_def arg_def split: if_splits)

lemma integer_arg_length: "integer_arg args i = Some x \<Longrightarrow> 1 \<le> i \<and> i \<le> length args"
  by (auto simp: integer_arg_def arg_def split: if_splits)

lemma number_arg_checks:
  assumes "number_arg args i = Some d"
  shows "luaL_checknumber C args i = Inr d" "luaL_checkinteger C args i = luai_num2int d" "luaL_checkunsigned C args i = luai_num2unsigned d"
    "luaL_opt args i x c = c"
  using assms by (auto simp: number_arg_def luaL_checknumber_def luaL_checkinteger_def luaL_checkunsigned_def luaV_tonumber_def luaL_opt_def
      split: option.splits lua_value.splits)

lemma integer_arg_checks:
  assumes "integer_arg args i = Some x"
  shows "luaL_checkinteger64 args i = Inr x" "luaL_opt args i y c = c"
  using assms by (auto simp: integer_arg_def luaL_checkinteger64_def luaL_opt_def split: option.splits lua_value.splits)

lemma conversion_errors: "luai_num2int d = Inl e \<Longrightarrow> e = Undefined" "luai_num2unsigned d = Inl e \<Longrightarrow> e = Undefined"
  "cint x = Inl e \<Longrightarrow> e = Undefined"
  by (auto simp: luai_num2int_def luai_num2unsigned_def cint_def cint64_def split: option.splits if_splits)

end
