(* ===== verification/BitLib.thy ===== *)
theory BitLib
  imports LibArgs
begin

text \<open>
  The \<open>bit32\<close> library of \<^verbatim>\<open>VM/src/lbitlib.cpp\<close> and its fast functions in \<^verbatim>\<open>VM/src/lbuiltins.cpp\<close>. A C \<open>int\<close> is an integer whose
  arithmetic is undefined out of range; an \<open>unsigned\<close> is a word of 32 bits. The fast functions are proved to agree with the
  library, and the library functions to have their arithmetic meaning. The mask of \<open>b_replace\<close> is an \<open>int\<close> there, \<open>-1\<close> for a
  field of 32 bits, and is shifted left by zero: that shift is undefined before C++20 and has the value used here from then on
  (and in the compilers the build supports), so it is not marked undefined.
\<close>

unbundle bit_operations_syntax

section \<open>The library\<close>

abbreviation ALLONES :: u32 where
  "ALLONES \<equiv> NOT 0"

definition mask_n :: "nat \<Rightarrow> u32" where
  "mask_n n = NOT (push_bit (n - 1) (push_bit 1 ALLONES))"

definition pushed :: "lib_error + u32 \<Rightarrow> lib_error + lua_value" where
  "pushed r = map_sum id push_unsigned r"

definition andaux :: "c_library \<Rightarrow> lua_value list \<Rightarrow> lib_error + u32" where
  "andaux C args = fold_args (AND) (luaL_checkunsigned C args) [1..<length args + 1] ALLONES"

definition b_and :: "c_library \<Rightarrow> lua_value list \<Rightarrow> lib_error + lua_value" where
  "b_and C args = pushed (andaux C args)"

definition b_test :: "c_library \<Rightarrow> lua_value list \<Rightarrow> lib_error + lua_value" where
  "b_test C args = map_sum id (\<lambda>r. LBoolean (r \<noteq> 0)) (andaux C args)"

definition b_or :: "c_library \<Rightarrow> lua_value list \<Rightarrow> lib_error + lua_value" where
  "b_or C args = pushed (fold_args (OR) (luaL_checkunsigned C args) [1..<length args + 1] 0)"

definition b_xor :: "c_library \<Rightarrow> lua_value list \<Rightarrow> lib_error + lua_value" where
  "b_xor C args = pushed (fold_args (XOR) (luaL_checkunsigned C args) [1..<length args + 1] 0)"

definition b_not :: "c_library \<Rightarrow> lua_value list \<Rightarrow> lib_error + lua_value" where
  "b_not C args = pushed (map_sum id (NOT) (luaL_checkunsigned C args 1))"

definition b_shift :: "u32 \<Rightarrow> int \<Rightarrow> lib_error + u32" where
  "b_shift r i =
     (if i < 0 then seq (cint (- i)) (\<lambda>i. Inr (if i \<ge> 32 then 0 else drop_bit (nat i) r))
      else Inr (if i \<ge> 32 then 0 else push_bit (nat i) r))"

definition b_lshift :: "c_library \<Rightarrow> lua_value list \<Rightarrow> lib_error + lua_value" where
  "b_lshift C args = pushed (seq (luaL_checkunsigned C args 1) (\<lambda>r. seq (luaL_checkinteger C args 2) (b_shift r)))"

definition b_rshift :: "c_library \<Rightarrow> lua_value list \<Rightarrow> lib_error + lua_value" where
  "b_rshift C args =
     pushed (seq (luaL_checkunsigned C args 1) (\<lambda>r. seq (luaL_checkinteger C args 2) (\<lambda>i. seq (cint (- i)) (b_shift r))))"

definition arshift :: "u32 \<Rightarrow> int \<Rightarrow> lib_error + u32" where
  "arshift r i =
     (if i < 0 \<or> r AND push_bit 31 1 = 0 then seq (cint (- i)) (b_shift r)
      else Inr (if i \<ge> 32 then ALLONES else drop_bit (nat i) r OR NOT (drop_bit (nat i) ALLONES)))"

definition b_arshift :: "c_library \<Rightarrow> lua_value list \<Rightarrow> lib_error + lua_value" where
  "b_arshift C args = pushed (seq (luaL_checkunsigned C args 1) (\<lambda>r. seq (luaL_checkinteger C args 2) (arshift r)))"

definition rotate32 :: "u32 \<Rightarrow> int \<Rightarrow> u32" where
  "rotate32 r i = (let i = nat (i AND 31) in if i \<noteq> 0 then push_bit i r OR drop_bit (32 - i) r else r)"

definition b_rot :: "c_library \<Rightarrow> lua_value list \<Rightarrow> int \<Rightarrow> lib_error + lua_value" where
  "b_rot C args i = pushed (seq (luaL_checkunsigned C args 1) (\<lambda>r. Inr (rotate32 r i)))"

definition b_lrot :: "c_library \<Rightarrow> lua_value list \<Rightarrow> lib_error + lua_value" where
  "b_lrot C args = seq (luaL_checkinteger C args 2) (b_rot C args)"

definition b_rrot :: "c_library \<Rightarrow> lua_value list \<Rightarrow> lib_error + lua_value" where
  "b_rrot C args = seq (luaL_checkinteger C args 2) (\<lambda>i. seq (cint (- i)) (b_rot C args))"

definition fieldargs :: "c_library \<Rightarrow> lua_value list \<Rightarrow> nat \<Rightarrow> lib_error + int \<times> int" where
  "fieldargs C args farg =
     seq (luaL_checkinteger C args farg) (\<lambda>f.
     seq (luaL_optinteger C args (farg + 1) 1) (\<lambda>w.
       if \<not> 0 \<le> f then Inl (ArgErr farg)
       else if \<not> 0 < w then Inl (ArgErr (farg + 1))
       else seq (cint (f + w)) (\<lambda>s. if s > 32 then Inl NonExistentBits else Inr (f, w))))"

definition b_extract :: "c_library \<Rightarrow> lua_value list \<Rightarrow> lib_error + lua_value" where
  "b_extract C args =
     pushed (seq (luaL_checkunsigned C args 1) (\<lambda>r.
       seq (fieldargs C args 2) (\<lambda>(f, w). Inr (drop_bit (nat f) r AND mask_n (nat w)))))"

definition b_replace :: "c_library \<Rightarrow> lua_value list \<Rightarrow> lib_error + lua_value" where
  "b_replace C args =
     pushed (seq (luaL_checkunsigned C args 1) (\<lambda>r.
       seq (luaL_checkunsigned C args 2) (\<lambda>v.
       seq (fieldargs C args 3) (\<lambda>(f, w).
         let m = mask_n (nat w); v = v AND m in Inr (r AND NOT (push_bit (nat f) m) OR push_bit (nat f) v)))))"

definition countlz :: "u32 \<Rightarrow> nat" where
  "countlz v = (case find (\<lambda>i. v AND push_bit (31 - i) 1 \<noteq> 0) [0..<32] of Some i \<Rightarrow> i | None \<Rightarrow> 32)"

definition b_countlz :: "c_library \<Rightarrow> lua_value list \<Rightarrow> lib_error + lua_value" where
  "b_countlz C args = pushed (map_sum id (\<lambda>v. of_nat (countlz v)) (luaL_checkunsigned C args 1))"

definition countrz :: "u32 \<Rightarrow> nat" where
  "countrz v = (case find (\<lambda>i. v AND push_bit i 1 \<noteq> 0) [0..<32] of Some i \<Rightarrow> i | None \<Rightarrow> 32)"

definition b_countrz :: "c_library \<Rightarrow> lua_value list \<Rightarrow> lib_error + lua_value" where
  "b_countrz C args = pushed (map_sum id (\<lambda>v. of_nat (countrz v)) (luaL_checkunsigned C args 1))"

definition byteswap :: "u32 \<Rightarrow> u32" where
  "byteswap n = push_bit 24 n OR (push_bit 8 n AND 0xFF0000) OR (drop_bit 8 n AND 0xFF00) OR drop_bit 24 n"

definition b_swap :: "c_library \<Rightarrow> lua_value list \<Rightarrow> lib_error + lua_value" where
  "b_swap C args = pushed (map_sum id byteswap (luaL_checkunsigned C args 1))"

section \<open>Fast functions\<close>

definition answer :: "lib_error + u32 \<Rightarrow> lib_error + lua_value option" where
  "answer r = map_sum id (\<lambda>u. Some (push_unsigned u)) r"

definition unsigned_arg :: "lua_value list \<Rightarrow> nat \<Rightarrow> (lib_error + u32) option" where
  "unsigned_arg args i = map_option luai_num2unsigned (number_arg args i)"

text \<open>The fast functions of two or more operands, and those of a number and a shift.\<close>

definition fast_bits :: "(u32 \<Rightarrow> u32 \<Rightarrow> u32) \<Rightarrow> (u32 \<Rightarrow> lua_value) \<Rightarrow> int \<Rightarrow> lua_value list \<Rightarrow> lib_error + lua_value option" where
  "fast_bits f res nresults args =
     fast2 number_arg (\<lambda>a1 a2.
       seq (luai_num2unsigned a1) (\<lambda>u1. seq (luai_num2unsigned a2) (\<lambda>u2.
         map_sum id (map_option res) (fast_fold f (unsigned_arg args) [3..<length args + 1] (f u1 u2))))) nresults args"

definition fast_shift :: "(u32 \<Rightarrow> int \<Rightarrow> lib_error + lua_value option) \<Rightarrow> int \<Rightarrow> lua_value list \<Rightarrow> lib_error + lua_value option" where
  "fast_shift f nresults args =
     fast2 number_arg (\<lambda>a1 a2. seq (luai_num2unsigned a1) (\<lambda>u. seq (luai_num2int a2) (f u))) nresults args"

definition fast_unary :: "(u32 \<Rightarrow> u32) \<Rightarrow> int \<Rightarrow> lua_value list \<Rightarrow> lib_error + lua_value option" where
  "fast_unary f nresults args = fast1 number_arg (\<lambda>a1. answer (map_sum id f (luai_num2unsigned a1))) nresults args"

definition luauF_band :: "int \<Rightarrow> lua_value list \<Rightarrow> lib_error + lua_value option" where
  "luauF_band = fast_bits (AND) push_unsigned"

definition luauF_bor :: "int \<Rightarrow> lua_value list \<Rightarrow> lib_error + lua_value option" where
  "luauF_bor = fast_bits (OR) push_unsigned"

definition luauF_bxor :: "int \<Rightarrow> lua_value list \<Rightarrow> lib_error + lua_value option" where
  "luauF_bxor = fast_bits (XOR) push_unsigned"

definition luauF_btest :: "int \<Rightarrow> lua_value list \<Rightarrow> lib_error + lua_value option" where
  "luauF_btest = fast_bits (AND) (\<lambda>r. LBoolean (r \<noteq> 0))"

definition luauF_bnot :: "int \<Rightarrow> lua_value list \<Rightarrow> lib_error + lua_value option" where
  "luauF_bnot = fast_unary (NOT)"

text \<open>\<open>unsigned(s) < 32\<close> holds for the shifts from 0 to 31; \<open>int32_t(u) >> s\<close> copies the sign bit.\<close>

definition luauF_arshift :: "int \<Rightarrow> lua_value list \<Rightarrow> lib_error + lua_value option" where
  "luauF_arshift = fast_shift (\<lambda>u s. if 0 \<le> s \<and> s < 32 then answer (Inr (signed_drop_bit (nat s) u)) else Inr None)"

definition luauF_lshift :: "int \<Rightarrow> lua_value list \<Rightarrow> lib_error + lua_value option" where
  "luauF_lshift = fast_shift (\<lambda>u s. if 0 \<le> s \<and> s < 32 then answer (Inr (push_bit (nat s) u)) else Inr None)"

definition luauF_rshift :: "int \<Rightarrow> lua_value list \<Rightarrow> lib_error + lua_value option" where
  "luauF_rshift = fast_shift (\<lambda>u s. if 0 \<le> s \<and> s < 32 then answer (Inr (drop_bit (nat s) u)) else Inr None)"

definition luauF_lrotate :: "int \<Rightarrow> lua_value list \<Rightarrow> lib_error + lua_value option" where
  "luauF_lrotate = fast_shift (\<lambda>u s. seq (cint (32 - s)) (\<lambda>t. answer (Inr (push_bit (nat (s AND 31)) u OR drop_bit (nat (t AND 31)) u))))"

definition luauF_rrotate :: "int \<Rightarrow> lua_value list \<Rightarrow> lib_error + lua_value option" where
  "luauF_rrotate = fast_shift (\<lambda>u s. seq (cint (32 - s)) (\<lambda>t. answer (Inr (drop_bit (nat (s AND 31)) u OR push_bit (nat (t AND 31)) u))))"

definition fast_mask :: "nat \<Rightarrow> u32" where
  "fast_mask k = NOT (push_bit k 0xFFFFFFFE)"

definition luauF_extract :: "int \<Rightarrow> lua_value list \<Rightarrow> lib_error + lua_value option" where
  "luauF_extract nresults args =
     fast2 number_arg (\<lambda>a1 a2.
       seq (luai_num2unsigned a1) (\<lambda>n. seq (luai_num2int a2) (\<lambda>f.
         if length args = 2 then if 0 \<le> f \<and> f < 32 then answer (Inr (drop_bit (nat f) n AND 1)) else Inr None
         else case number_arg args 3 of
             None \<Rightarrow> Inr None
           | Some a3 \<Rightarrow> seq (luai_num2int a3) (\<lambda>w.
               if f \<ge> 0 \<and> w > 0
               then seq (cint (f + w)) (\<lambda>s.
                 if s \<le> 32 then answer (Inr (drop_bit (nat f) n AND fast_mask (nat w - 1))) else Inr None)
               else Inr None)))) nresults args"

text \<open>The compiler passes the field and width of \<open>extractk\<close> as one constant \<open>f + 32 (w - 1)\<close>.\<close>

definition luauF_extractk :: "int \<Rightarrow> lua_value list \<Rightarrow> lib_error + lua_value option" where
  "luauF_extractk nresults args =
     fast2 number_arg (\<lambda>a1 a2.
       seq (luai_num2unsigned a1) (\<lambda>n. seq (luai_num2int a2) (\<lambda>fw.
         answer (Inr (drop_bit (nat (fw AND 31)) n AND fast_mask (nat (drop_bit 5 fw))))))) nresults args"

definition luauF_replace :: "int \<Rightarrow> lua_value list \<Rightarrow> lib_error + lua_value option" where
  "luauF_replace nresults args =
     fast3 number_arg (\<lambda>a1 a2 a3.
       seq (luai_num2unsigned a1) (\<lambda>n. seq (luai_num2unsigned a2) (\<lambda>v. seq (luai_num2int a3) (\<lambda>f.
         let put = (\<lambda>m. n AND NOT (push_bit (nat f) m) OR push_bit (nat f) (v AND m))
         in if length args = 3 then if 0 \<le> f \<and> f < 32 then answer (Inr (put 1)) else Inr None
            else case number_arg args 4 of
                None \<Rightarrow> Inr None
              | Some a4 \<Rightarrow> seq (luai_num2int a4) (\<lambda>w.
                  if f \<ge> 0 \<and> w > 0
                  then seq (cint (f + w)) (\<lambda>s. if s \<le> 32 then answer (Inr (put (fast_mask (nat w - 1)))) else Inr None)
                  else Inr None))))) nresults args"

text \<open>\<open>__builtin_clz\<close> and \<open>__builtin_ctz\<close> count leading and trailing zeros of a number other than zero.\<close>

fun trailing_zeros :: "nat \<Rightarrow> nat" where
  "trailing_zeros n = (if n = 0 \<or> odd n then 0 else Suc (trailing_zeros (n div 2)))"

declare trailing_zeros.simps [simp del]

definition luauF_countlz :: "int \<Rightarrow> lua_value list \<Rightarrow> lib_error + lua_value option" where
  "luauF_countlz = fast_unary (\<lambda>n. if n = 0 then 32 else of_nat (32 - bit_length (unat n)))"

definition luauF_countrz :: "int \<Rightarrow> lua_value list \<Rightarrow> lib_error + lua_value option" where
  "luauF_countrz = fast_unary (\<lambda>n. if n = 0 then 32 else of_nat (trailing_zeros (unat n)))"

definition luauF_byteswap :: "int \<Rightarrow> lua_value list \<Rightarrow> lib_error + lua_value option" where
  "luauF_byteswap = fast_unary byteswap"

section \<open>The fast functions agree with the library\<close>

lemma map_sum_eq_Inr: "map_sum id g x = Inr v \<longleftrightarrow> (\<exists>a. x = Inr a \<and> g a = v)"
  by (cases x) auto

lemma map_sum_eq_Inl: "map_sum id g x = Inl e \<longleftrightarrow> x = Inl e"
  by (cases x) auto

lemma answer_eq: "answer r = Inr (Some v) \<longleftrightarrow> pushed r = Inr v" "answer r = Inl e \<longleftrightarrow> r = Inl e"
  by (cases r; simp add: answer_def pushed_def)+

lemma pushed_Inr: "pushed r = Inr v \<longleftrightarrow> (\<exists>u. r = Inr u \<and> push_unsigned u = v)"
  by (simp add: pushed_def map_sum_eq_Inr)

lemmas fast_simps = fast_guards answer_eq pushed_Inr map_sum_eq_Inr map_sum_eq_Inl seq_eq_Inr seq_eq_Inl conversion_errors

lemma unsigned_arg_check: "unsigned_arg args i = Some c \<Longrightarrow> luaL_checkunsigned C args i = c"
  by (auto simp: unsigned_arg_def number_arg_checks)

lemma unsigned_arg_error: "unsigned_arg args i = Some (Inl e) \<Longrightarrow> e = Undefined"
  by (auto simp: unsigned_arg_def conversion_errors)

lemma fast_bits_answers:
  assumes "fast_bits f res nresults args = Inr (Some v)" "\<And>u. f z u = u"
  shows "map_sum id res (fold_args f (luaL_checkunsigned C args) [1..<length args + 1] z) = Inr v"
proof -
  from assms(1) obtain a1 a2 u1 u2 r where a: "number_arg args 1 = Some a1" "number_arg args 2 = Some a2"
    "luai_num2unsigned a1 = Inr u1" "luai_num2unsigned a2 = Inr u2"
    "fast_fold f (unsigned_arg args) [3..<length args + 1] (f u1 u2) = Inr (Some r)" "res r = v"
    by (auto simp: fast_bits_def fast_simps)
  have "2 \<le> length args" using number_arg_length [OF a(2)] by simp
  then have "[1..<length args + 1] = 1 # 2 # [3..<length args + 1]" by (simp add: upt_conv_Cons numeral_eq_Suc)
  moreover have "fold_args f (luaL_checkunsigned C args) [3..<length args + 1] (f u1 u2) = Inr r"
    using a(5) by (rule fast_fold_answers) (rule unsigned_arg_check)
  ultimately show ?thesis using a assms(2) by (simp add: number_arg_checks)
qed

lemma fast_bits_errors: "fast_bits f res nresults args = Inl e \<Longrightarrow> e = Undefined"
  unfolding fast_bits_def fast_simps by (auto dest: conversion_errors elim!: fast_fold_errors intro: unsigned_arg_error)

lemma luai_num2int_range: "luai_num2int d = Inr s \<Longrightarrow> - (2 ^ 31) \<le> s \<and> s < 2 ^ 31"
  by (auto simp: luai_num2int_def cint_def split: option.splits if_splits)

lemma fast_shift_answers:
  "fast_shift f nresults args = Inr (Some v) \<Longrightarrow>
   \<exists>u s. luaL_checkunsigned C args 1 = Inr u \<and> luaL_checkinteger C args 2 = Inr s \<and> - (2 ^ 31) \<le> s \<and> s < 2 ^ 31 \<and> f u s = Inr (Some v)"
  unfolding fast_shift_def fast_simps using luai_num2int_range by (fastforce simp: number_arg_checks)

lemma fast_shift_errors: "fast_shift f nresults args = Inl e \<Longrightarrow> (\<And>u s e. f u s = Inl e \<Longrightarrow> e = Undefined) \<Longrightarrow> e = Undefined"
  by (auto simp: fast_shift_def fast_simps dest: conversion_errors)

lemma fast_unary_answers: "fast_unary f nresults args = Inr (Some v) \<Longrightarrow> pushed (map_sum id f (luaL_checkunsigned C args 1)) = Inr v"
  by (auto simp: fast_unary_def fast_simps number_arg_checks)

lemma fast_unary_errors: "fast_unary f nresults args = Inl e \<Longrightarrow> e = Undefined"
  by (auto simp: fast_unary_def fast_simps dest: conversion_errors)

interpretation band: fast_function luauF_band "b_and C"
  by unfold_locales (auto simp: luauF_band_def b_and_def andaux_def pushed_def dest: fast_bits_answers [where z = ALLONES] fast_bits_errors)

interpretation btest: fast_function luauF_btest "b_test C"
  by unfold_locales (auto simp: luauF_btest_def b_test_def andaux_def dest: fast_bits_answers [where z = ALLONES] fast_bits_errors)

interpretation bor: fast_function luauF_bor "b_or C"
  by unfold_locales (auto simp: luauF_bor_def b_or_def pushed_def dest: fast_bits_answers [where z = 0] fast_bits_errors)

interpretation bxor: fast_function luauF_bxor "b_xor C"
  by unfold_locales (auto simp: luauF_bxor_def b_xor_def pushed_def dest: fast_bits_answers [where z = 0] fast_bits_errors)

interpretation bnot: fast_function luauF_bnot "b_not C"
  by unfold_locales (auto simp: luauF_bnot_def b_not_def dest: fast_unary_answers fast_unary_errors)

interpretation byteswap: fast_function luauF_byteswap "b_swap C"
  by unfold_locales (auto simp: luauF_byteswap_def b_swap_def dest: fast_unary_answers fast_unary_errors)

lemma shift_mod_32: "nat (s AND 31) = nat (s mod 32)" for s :: int
proof -
  have "s AND 31 = take_bit 5 s" by (simp add: take_bit_eq_mask mask_eq_exp_minus_1)
  then show ?thesis by (simp add: take_bit_eq_mod)
qed

lemma sign_bit: "r AND push_bit 31 1 = 0 \<longleftrightarrow> \<not> bit r 31" for r :: u32
  using and_exp_eq_0_iff_not_bit [of r 31] by (simp only: push_bit_of_1)

lemma arshift_signed:
  assumes "0 \<le> s" "s < 32"
  shows "arshift u s = Inr (signed_drop_bit (nat s) u)"
proof (cases "bit u 31")
  case True
  have "drop_bit (nat s) u OR NOT (drop_bit (nat s) ALLONES) = signed_drop_bit (nat s) u"
    using True assms by (intro bit_word_eqI) (auto simp: bit_simps min_def)
  then show ?thesis using True assms by (simp only: arshift_def sign_bit) simp
next
  case False
  have "drop_bit (nat s) u = signed_drop_bit (nat s) u"
    using False assms by (intro bit_word_eqI) (auto simp: bit_simps min_def not_le dest: bit_imp_le_length)
  then show ?thesis using False assms by (simp only: arshift_def sign_bit) (auto simp: b_shift_def cint_def)
qed

lemma rotations:
  "push_bit (nat (s AND 31)) u OR drop_bit (nat ((32 - s) AND 31)) u = rotate32 u s"
  "drop_bit (nat (s AND 31)) u OR push_bit (nat ((32 - s) AND 31)) u = rotate32 u (- s)"
proof -
  have m: "(32 - s) mod 32 = (if s mod 32 = 0 then 0 else 32 - s mod 32)" "(- s) mod 32 = (if s mod 32 = 0 then 0 else 32 - s mod 32)"
    by (simp_all add: zmod_zminus1_eq_if mod_diff_left_eq [symmetric] mod_diff_right_eq [symmetric])
  have "0 \<le> s mod 32" "s mod 32 < 32" by simp_all
  then show "push_bit (nat (s AND 31)) u OR drop_bit (nat ((32 - s) AND 31)) u = rotate32 u s"
    "drop_bit (nat (s AND 31)) u OR push_bit (nat ((32 - s) AND 31)) u = rotate32 u (- s)"
    unfolding rotate32_def shift_mod_32 m by (auto simp: Let_def nat_diff_distrib or.commute)
qed

interpretation arshift: fast_function luauF_arshift "b_arshift C"
proof
  fix nresults args v assume "luauF_arshift nresults args = Inr (Some v)"
  then show "b_arshift C args = Inr v" unfolding luauF_arshift_def b_arshift_def
    by (auto dest!: fast_shift_answers [where C = C] simp: arshift_signed answer_eq split: if_splits)
qed (auto simp: luauF_arshift_def answer_eq dest!: fast_shift_errors split: if_splits)

interpretation lshift: fast_function luauF_lshift "b_lshift C"
proof
  fix nresults args v assume "luauF_lshift nresults args = Inr (Some v)"
  then show "b_lshift C args = Inr v" unfolding luauF_lshift_def b_lshift_def
    by (auto dest!: fast_shift_answers [where C = C] simp: b_shift_def answer_eq split: if_splits)
qed (auto simp: luauF_lshift_def answer_eq dest!: fast_shift_errors split: if_splits)

interpretation rshift: fast_function luauF_rshift "b_rshift C"
proof
  fix nresults args v assume "luauF_rshift nresults args = Inr (Some v)"
  then show "b_rshift C args = Inr v" unfolding luauF_rshift_def b_rshift_def
    by (auto dest!: fast_shift_answers [where C = C] simp: b_shift_def cint_def answer_eq split: if_splits)
qed (auto simp: luauF_rshift_def answer_eq dest!: fast_shift_errors split: if_splits)

interpretation lrotate: fast_function luauF_lrotate "b_lrot C"
proof
  fix nresults args v assume "luauF_lrotate nresults args = Inr (Some v)"
  then show "b_lrot C args = Inr v" unfolding luauF_lrotate_def b_lrot_def b_rot_def
    by (auto dest!: fast_shift_answers [where C = C] simp: seq_eq_Inr cint_def answer_eq rotations split: if_splits)
qed (auto simp: luauF_lrotate_def answer_eq seq_eq_Inl dest!: fast_shift_errors dest: conversion_errors)

interpretation rrotate: fast_function luauF_rrotate "b_rrot C"
proof
  fix nresults args v assume "luauF_rrotate nresults args = Inr (Some v)"
  then show "b_rrot C args = Inr v" unfolding luauF_rrotate_def b_rrot_def b_rot_def
    by (auto dest!: fast_shift_answers [where C = C] simp: seq_eq_Inr cint_def answer_eq rotations split: if_splits)
qed (auto simp: luauF_rrotate_def answer_eq seq_eq_Inl dest!: fast_shift_errors dest: conversion_errors)

lemma mask_n_eq: "1 \<le> n \<Longrightarrow> mask_n n = mask n"
  unfolding mask_n_def by (rule bit_word_eqI) (auto simp: bit_simps)

lemma fast_mask_eq: "fast_mask k = mask (Suc k)"
proof -
  have "0xFFFFFFFE = push_bit 1 ALLONES" by (simp add: not_eq_complement)
  then have "fast_mask k = NOT (push_bit k (push_bit 1 ALLONES))" unfolding fast_mask_def by (simp only:)
  also have "\<dots> = mask (Suc k)" by (rule bit_word_eqI) (auto simp: bit_simps)
  finally show ?thesis .
qed

lemma luai_num2int_cases: "luai_num2int d = Inr w \<Longrightarrow> cint w = Inr w"
  using luai_num2int_range by (simp add: cint_def)

lemma optinteger_number: "number_arg args i = Some d \<Longrightarrow> luaL_optinteger C args i x = luai_num2int d"
  by (simp add: luaL_optinteger_def number_arg_checks)

lemma optinteger_absent: "length args < i \<Longrightarrow> luaL_optinteger C args i x = Inr x"
  by (simp add: luaL_optinteger_def luaL_opt_def arg_def)

text \<open>The field of a fast function, with an explicit width and without one, is that of \<open>fieldargs\<close>.\<close>

lemma fieldargs_explicit:
  assumes "number_arg args i = Some a" "luai_num2int a = Inr f" "number_arg args (i + 1) = Some b" "luai_num2int b = Inr w"
    "0 \<le> f" "0 < w" "cint (f + w) = Inr s" "s \<le> 32"
  shows "fieldargs C args i = Inr (f, w)"
  using assms by (simp add: fieldargs_def number_arg_checks optinteger_number)

lemma fieldargs_default:
  assumes "number_arg args i = Some a" "luai_num2int a = Inr f" "length args = i" "0 \<le> f" "f < 32"
  shows "fieldargs C args i = Inr (f, 1)"
  using assms by (simp add: fieldargs_def number_arg_checks optinteger_absent cint_def)

interpretation field_extract: fast_function luauF_extract "b_extract C"
proof
  fix nresults args v assume "luauF_extract nresults args = Inr (Some v)"
  then obtain a1 a2 n f where a: "number_arg args 1 = Some a1" "number_arg args 2 = Some a2" "luai_num2unsigned a1 = Inr n" "luai_num2int a2 = Inr f"
    and r: "(if length args = 2 then if 0 \<le> f \<and> f < 32 then answer (Inr (drop_bit (nat f) n AND 1)) else Inr None
         else case number_arg args 3 of
             None \<Rightarrow> Inr None
           | Some a3 \<Rightarrow> seq (luai_num2int a3) (\<lambda>w.
               if f \<ge> 0 \<and> w > 0
               then seq (cint (f + w)) (\<lambda>s.
                 if s \<le> 32 then answer (Inr (drop_bit (nat f) n AND fast_mask (nat w - 1))) else Inr None)
               else Inr None)) = Inr (Some v)"
    unfolding luauF_extract_def fast_simps by (auto simp: seq_eq_Inr)
  show "b_extract C args = Inr v"
  proof (cases "length args = 2")
    case True
    with r have "0 \<le> f" "f < 32" "v = push_unsigned (drop_bit (nat f) n AND 1)" by (auto simp: answer_eq pushed_Inr split: if_splits)
    then show ?thesis using fieldargs_default [OF a(2,4) True] a by (simp add: b_extract_def number_arg_checks pushed_def mask_n_eq)
  next
    case False
    with r obtain a3 w s where w: "number_arg args (2 + 1) = Some a3" "luai_num2int a3 = Inr w" "0 \<le> f" "0 < w" "cint (f + w) = Inr s" "s \<le> 32"
      "v = push_unsigned (drop_bit (nat f) n AND fast_mask (nat w - 1))"
      by (auto simp: answer_eq pushed_Inr seq_eq_Inr split: if_splits option.splits)
    moreover have "fast_mask (nat w - 1) = mask_n (nat w)" using w(4) by (simp add: fast_mask_eq mask_n_eq)
    ultimately show ?thesis using fieldargs_explicit [OF a(2,4) w(1-6)] a by (simp add: b_extract_def number_arg_checks pushed_def)
  qed
qed (auto simp: luauF_extract_def fast_simps dest: conversion_errors split: if_splits option.splits)

interpretation field_replace: fast_function luauF_replace "b_replace C"
proof
  fix nresults args v assume r: "luauF_replace nresults args = Inr (Some v)"
  let ?put = "\<lambda>n v f m. n AND NOT (push_bit (nat f) m) OR push_bit (nat f) (v AND m)"
  from r obtain a1 a2 a3 n x f where a: "number_arg args 1 = Some a1" "number_arg args 2 = Some a2" "number_arg args 3 = Some a3"
    "luai_num2unsigned a1 = Inr n" "luai_num2unsigned a2 = Inr x" "luai_num2int a3 = Inr f"
    and r: "(if length args = 3 then if 0 \<le> f \<and> f < 32 then answer (Inr (?put n x f 1)) else Inr None
            else case number_arg args 4 of
                None \<Rightarrow> Inr None
              | Some a4 \<Rightarrow> seq (luai_num2int a4) (\<lambda>w.
                  if f \<ge> 0 \<and> w > 0
                  then seq (cint (f + w)) (\<lambda>s. if s \<le> 32 then answer (Inr (?put n x f (fast_mask (nat w - 1)))) else Inr None)
                  else Inr None)) = Inr (Some v)"
    unfolding luauF_replace_def fast_simps Let_def by (auto simp: seq_eq_Inr)
  show "b_replace C args = Inr v"
  proof (cases "length args = 3")
    case True
    with r have "0 \<le> f" "f < 32" "v = push_unsigned (?put n x f 1)" by (auto simp: answer_eq pushed_Inr split: if_splits)
    then show ?thesis using fieldargs_default [OF a(3,6) True] a by (simp add: b_replace_def number_arg_checks pushed_def mask_n_eq Let_def)
  next
    case False
    with r obtain a4 w s where w: "number_arg args (3 + 1) = Some a4" "luai_num2int a4 = Inr w" "0 \<le> f" "0 < w" "cint (f + w) = Inr s" "s \<le> 32"
      "v = push_unsigned (?put n x f (fast_mask (nat w - 1)))"
      by (auto simp: answer_eq pushed_Inr seq_eq_Inr split: if_splits option.splits)
    moreover have "fast_mask (nat w - 1) = mask_n (nat w)" using w(4) by (simp add: fast_mask_eq mask_n_eq)
    ultimately show ?thesis using fieldargs_explicit [OF a(3,6) w(1-6)] a by (simp add: b_replace_def number_arg_checks pushed_def Let_def)
  qed
qed (auto simp: luauF_replace_def fast_simps Let_def dest: conversion_errors split: if_splits option.splits)

lemma find_first:
  assumes "P i" "i < n" "\<And>j. j < i \<Longrightarrow> \<not> P j"
  shows "find P [0..<n] = Some i"
  unfolding find_Some_iff using assms by (intro exI [of _ i]) simp

lemma find_nothing: "find (\<lambda>i. False) xs = None"
  by (induction xs) auto

lemma and_bit_nonzero: "v AND push_bit k 1 \<noteq> 0 \<longleftrightarrow> bit v k" for v :: "'a::len word"
  using and_exp_eq_0_iff_not_bit [of v k] by (simp only: push_bit_of_1) blast

lemma bit_nat_div: "bit v k \<longleftrightarrow> odd (unat v div 2 ^ k)" for v :: "'a::len word"
  by (simp only: bit_unat [symmetric] bit_iff_odd)

lemma top_bit:
  assumes "v \<noteq> 0"
  shows "bit v (bit_length (unat v) - 1)" "bit_length (unat v) - 1 < j \<Longrightarrow> \<not> bit v j" "0 < bit_length (unat v)"
proof -
  have v: "0 < unat v" using assms by (simp add: unat_gt_0)
  note b = bit_length_bounds(1) [of "unat v"] bit_length_bounds(2) [OF v]
  show pos: "0 < bit_length (unat v)" using b(1) v by (cases "bit_length (unat v)") auto
  have "unat v < 2 * 2 ^ (bit_length (unat v) - 1)" using b(1) pos by (metis power_eq_if not_gr0)
  then have "unat v div 2 ^ (bit_length (unat v) - 1) = 1" using b(2) by (intro div_nat_eqI) simp_all
  then show "bit v (bit_length (unat v) - 1)" by (simp add: bit_nat_div)
  assume "bit_length (unat v) - 1 < j"
  then have "(2 :: nat) ^ bit_length (unat v) \<le> 2 ^ j" using pos by (intro power_increasing) auto
  then have "unat v div 2 ^ j = 0" using b(1) by (intro div_less) linarith
  then show "\<not> bit v j" by (simp add: bit_nat_div)
qed

lemma trailing_zeros_bits: "0 < n \<Longrightarrow> odd (n div 2 ^ trailing_zeros n)" "j < trailing_zeros n \<Longrightarrow> even (n div 2 ^ j)"
proof (induction n arbitrary: j rule: trailing_zeros.induct)
  case (1 n)
  { case 1 then show ?case using "1.IH"(1) by (subst trailing_zeros.simps) (auto simp: div_mult2_eq) }
  { case 2 then show ?case using "1.IH"(2) by (cases j) (auto simp: div_mult2_eq trailing_zeros.simps [of n] split: if_splits) }
qed

lemma countlz_eq: "countlz v = (if v = 0 then 32 else 32 - bit_length (unat v))"
proof (cases "v = 0")
  case True then show ?thesis by (simp add: countlz_def find_nothing)
next
  case False
  let ?k = "bit_length (unat v)"
  note t = top_bit [OF False]
  have k: "?k \<le> 32" using bit_imp_le_length [OF t(1)] t(3) by simp
  have "find (\<lambda>i. bit v (31 - i)) [0..<32] = Some (32 - ?k)"
  proof (rule find_first)
    have "31 - (32 - ?k) = ?k - 1" using k by simp
    then show "bit v (31 - (32 - ?k))" using t(1) by simp
  qed (use t(2,3) k in auto)
  then show ?thesis using False by (simp only: countlz_def and_bit_nonzero) simp
qed

lemma countrz_eq: "countrz v = (if v = 0 then 32 else trailing_zeros (unat v))"
proof (cases "v = 0")
  case True then show ?thesis by (simp add: countrz_def find_nothing)
next
  case False
  then have v: "0 < unat v" by (simp add: unat_gt_0)
  have b: "bit v (trailing_zeros (unat v))" using trailing_zeros_bits(1) [OF v] by (simp add: bit_nat_div)
  have "find (bit v) [0..<32] = Some (trailing_zeros (unat v))"
    using bit_imp_le_length [OF b] b by (intro find_first) (auto simp: bit_nat_div trailing_zeros_bits(2))
  then show ?thesis using False by (simp only: countrz_def and_bit_nonzero) simp
qed

interpretation countlz: fast_function luauF_countlz "b_countlz C"
proof
  fix nresults args v assume "luauF_countlz nresults args = Inr (Some v)"
  moreover have "(\<lambda>v. of_nat (countlz v) :: u32) = (\<lambda>n. if n = 0 then 32 else of_nat (32 - bit_length (unat n)))" by (auto simp: countlz_eq)
  ultimately show "b_countlz C args = Inr v" unfolding luauF_countlz_def b_countlz_def by (simp only: fast_unary_answers)
qed (auto simp: luauF_countlz_def dest: fast_unary_errors)

interpretation countrz: fast_function luauF_countrz "b_countrz C"
proof
  fix nresults args v assume "luauF_countrz nresults args = Inr (Some v)"
  moreover have "(\<lambda>v. of_nat (countrz v) :: u32) = (\<lambda>n. if n = 0 then 32 else of_nat (trailing_zeros (unat n)))" by (auto simp: countrz_eq)
  ultimately show "b_countrz C args = Inr v" unfolding luauF_countrz_def b_countrz_def by (simp only: fast_unary_answers)
qed (auto simp: luauF_countrz_def dest: fast_unary_errors)

section \<open>Meaning of the functions\<close>

text \<open>A small integer as a script value.\<close>

definition num :: "int \<Rightarrow> lua_value" where
  "num i = LNumber (cast_num i)"

lemma dbl_int_trunc: "dbl_int x = Some i \<Longrightarrow> dbl_trunc x = Some i"
  by (auto simp: dbl_int_def dbl_trunc_def Let_def split: if_splits)

lemma num_checks:
  assumes "abs i < 2 ^ 32"
  shows "luai_num2unsigned (cast_num i) = Inr (of_int i)" "luai_num2int (cast_num i) = cint i"
  using dbl_int_trunc [OF dbl_int_cast_num [OF assms]] assms by (auto simp: luai_num2unsigned_def luai_num2int_def cint64_def)

lemma unsigned_num: "luai_num2unsigned (cast_num (uint u)) = Inr u" for u :: u32
  using num_checks(1) [of "uint u"] uint_lt2p [of u] by simp

lemma check_args:
  "luaL_checkunsigned C (push_unsigned u # rest) 1 = Inr u"
  "luaL_checkunsigned C (x # push_unsigned u # rest) 2 = Inr u"
  "abs i < 2 ^ 32 \<Longrightarrow> luaL_checkinteger C (x # num i # rest) 2 = cint i"
  "abs i < 2 ^ 32 \<Longrightarrow> luaL_checkinteger C (x # y # num i # rest) 3 = cint i"
  "abs i < 2 ^ 32 \<Longrightarrow> luaL_optinteger C (x # y # num i # rest) 3 d = cint i"
  "abs i < 2 ^ 32 \<Longrightarrow> luaL_optinteger C (x # y # z # num i # rest) 4 d = cint i"
  by (simp_all add: luaL_checkunsigned_def luaL_checkinteger_def luaL_optinteger_def luaL_opt_def arg_def push_unsigned_def num_def luaV_tonumber_def
      unsigned_num num_checks)

lemma b_shift_meaning:
  assumes "- (2 ^ 31) < i" "i < 2 ^ 31"
  shows "b_shift r i = Inr (of_int (if 0 \<le> i then uint r * 2 ^ nat i else uint r div 2 ^ nat (- i)))"
proof -
  have big: "uint r div 2 ^ nat (- i) = 0" if "i \<le> - 32"
  proof (rule div_pos_pos_trivial)
    have "(2 :: int) ^ 32 \<le> 2 ^ nat (- i)" using that by (intro power_increasing) auto
    then show "uint r < 2 ^ nat (- i)" using uint_lt2p [of r] by simp
  qed simp
  have over: "of_int (uint r * 2 ^ nat i) = (0 :: u32)" if "32 \<le> i"
  proof -
    have z: "(2 :: u32) ^ nat i = 0" using that by (intro exp_eq_zero_iff [THEN iffD2]) simp
    show ?thesis by (simp only: of_int_mult of_int_power of_int_numeral z mult_zero_right)
  qed
  have "drop_bit n r = of_int (uint r div 2 ^ n)" for n
  proof -
    have "take_bit 32 (uint r) = uint r" using uint_lt2p [of r] by (intro take_bit_int_eq_self) simp_all
    then have "uint (drop_bit n r) = uint r div 2 ^ n" unfolding unsigned_drop_bit_eq by (simp add: drop_bit_eq_div)
    then show ?thesis by (metis word_of_int_uint)
  qed
  moreover have "push_bit n r = of_int (uint r * 2 ^ n)" for n by (simp add: push_bit_eq_mult)
  ultimately show ?thesis using assms big over by (auto simp: b_shift_def cint_def)
qed

lemma sign_sint: "bit r 31 \<longleftrightarrow> sint r < 0" for r :: u32
  using bit_last_iff [of r] by simp

lemma arshift_meaning:
  assumes "- (2 ^ 31) < i" "i < 2 ^ 31"
  shows "arshift r i = (if 0 \<le> i then Inr (of_int (sint r div 2 ^ nat i)) else b_shift r (- i))"
proof -
  consider "i < 0" | "0 \<le> i" "i < 32" | "32 \<le> i" "bit r 31" | "32 \<le> i" "\<not> bit r 31" by linarith
  then show ?thesis
  proof cases
    case 1 then show ?thesis using assms by (simp add: arshift_def cint_def)
  next
    case 2
    have "signed_drop_bit (nat i) r = of_int (sint r div 2 ^ nat i)"
      unfolding drop_bit_eq_div [symmetric] sint_signed_drop_bit_eq [symmetric] by simp
    then show ?thesis using 2 by (simp add: arshift_signed)
  next
    case 3
    have p: "(2 :: int) ^ 31 \<le> 2 ^ nat i" using 3(1) by (intro power_increasing) auto
    have "sint r div 2 ^ nat i = - 1"
    proof (rule int_div_pos_eq)
      show "sint r = 2 ^ nat i * - 1 + (sint r + 2 ^ nat i)" by simp
      show "0 \<le> sint r + 2 ^ nat i" using p sint_greater_eq [of r] by simp
      show "sint r + 2 ^ nat i < 2 ^ nat i" using 3(2) by (simp add: sign_sint)
    qed
    moreover have "arshift r i = Inr ALLONES" using 3 by (simp only: arshift_def sign_bit) simp
    ultimately show ?thesis using 3(1) by simp
  next
    case 4
    have p: "(2 :: int) ^ 31 \<le> 2 ^ nat i" using 4(1) by (intro power_increasing) auto
    have "sint r div 2 ^ nat i = 0" using 4(2) p sint_less [of r] by (intro div_pos_pos_trivial) (auto simp: sign_sint)
    moreover have "arshift r i = b_shift r (- i)" using 4 assms by (simp only: arshift_def sign_bit) (simp add: cint_def)
    ultimately show ?thesis using 4(1) assms by (simp add: b_shift_def cint_def)
  qed
qed

lemma rotate32_meaning: "rotate32 r i = word_rotl (nat (i mod 32)) r"
proof -
  define k where "k = nat (i mod 32)"
  have k: "k < 32" unfolding k_def by (simp add: nat_less_iff)
  have "push_bit k r OR drop_bit (32 - k) r = word_rotl k r" if "k \<noteq> 0"
  proof (rule bit_word_eqI)
    fix n assume n: "n < LENGTH(32)"
    have len: "LENGTH(32) = 32" by simp
    note n = n [unfolded len]
    have rot: "bit (word_rotl k r) n = bit r ((n + (32 - k)) mod 32)"
      unfolding bit_word_rotl_iff len using n k by (simp only: mod_less simp_thms)
    have "(n + (32 - k)) mod 32 = (if n < k then n + (32 - k) else n - k)" using n k that by (auto simp: mod_if)
    then show "bit (push_bit k r OR drop_bit (32 - k) r) n = bit (word_rotl k r) n"
      unfolding rot using n k by (cases "n < k") (auto simp: bit_or_iff bit_push_bit_iff bit_drop_bit_eq add.commute dest: bit_imp_le_length)
  qed
  moreover have "word_rotl 0 r = r"
  proof (rule bit_word_eqI)
    fix n assume "n < LENGTH(32)"
    then show "bit (word_rotl 0 r) n = bit r n" unfolding bit_word_rotl_iff by (simp only: mod_0 diff_zero mod_add_self2 mod_less simp_thms)
  qed
  ultimately show ?thesis by (auto simp: rotate32_def shift_mod_32 Let_def k_def)
qed

lemma fieldargs_num:
  assumes "0 \<le> f" "0 < w" "f + w \<le> 32"
  shows "fieldargs C [x, num f, num w] 2 = Inr (f, w)" "fieldargs C [x, y, num f, num w] 3 = Inr (f, w)"
  using assms by (simp_all add: fieldargs_def check_args cint_def)

lemma extract_num:
  assumes "0 \<le> f" "0 < w" "f + w \<le> 32"
  shows "b_extract C [push_unsigned r, num f, num w] = Inr (push_unsigned (drop_bit (nat f) r AND mask (nat w)))"
  using assms by (simp add: b_extract_def pushed_def check_args [simplified] fieldargs_num mask_n_eq)

lemma replace_num:
  assumes "0 \<le> f" "0 < w" "f + w \<le> 32"
  shows "b_replace C [push_unsigned r, push_unsigned v, num f, num w] =
    Inr (push_unsigned (r AND NOT (push_bit (nat f) (mask (nat w))) OR push_bit (nat f) (v AND mask (nat w))))"
  using assms by (simp add: b_replace_def pushed_def check_args [simplified] fieldargs_num mask_n_eq Let_def)

lemma field_put_get:
  fixes r v :: u32
  assumes "f + w \<le> 32"
  shows "drop_bit f (r AND NOT (push_bit f (mask w)) OR push_bit f (v AND mask w)) AND mask w = v AND mask w"
  using assms by (intro bit_word_eqI) (auto simp: bit_simps)

text \<open>Swapping bytes: bit \<open>i\<close> of byte \<open>b\<close> moves to byte \<open>3 - b\<close>.\<close>

lemma bit_byteswap:
  assumes "i < 32"
  shows "bit (byteswap n) i \<longleftrightarrow> bit n (8 * (3 - i div 8) + i mod 8)"
proof -
  have m: "(0xFF0000 :: u32) = push_bit 16 (mask 8)" "(0xFF00 :: u32) = push_bit 8 (mask 8)"
    by (simp_all add: mask_eq_exp_minus_1 push_bit_eq_mult)
  define j where "j = i mod 8"
  have j: "j < 8" by (simp add: j_def)
  have i: "i = 8 * (i div 8) + j" by (simp add: j_def)
  have "i div 8 < 4" using assms by simp
  then consider "i div 8 = 0" | "i div 8 = 1" | "i div 8 = 2" | "i div 8 = 3" by linarith
  moreover have "\<not> bit n (32 + j)" "\<not> bit n (40 + j)" "\<not> bit n (48 + j)" by (auto dest: bit_imp_le_length)
  ultimately have "bit (byteswap n) (8 * (i div 8) + j) \<longleftrightarrow> bit n (8 * (3 - i div 8) + j)"
    unfolding byteswap_def m bit_or_iff bit_and_iff bit_push_bit_iff bit_drop_bit_eq bit_mask_iff o_apply
    by cases (use j in simp_all)
  then show ?thesis using i j_def by metis
qed

lemma byteswap_involutive: "byteswap (byteswap n) = n"
  by (rule bit_word_eqI) (simp add: bit_byteswap)

lemma rotate32_right: "rotate32 r (- i) = word_rotr (nat (i mod 32)) r"
proof -
  define m where "m = nat (i mod 32)"
  have m: "m < 32" "i mod 32 = int m" by (simp_all add: m_def nat_less_iff)
  have n: "nat ((- i) mod 32) = (if m = 0 then 0 else 32 - m)" using m by (auto simp: zmod_zminus1_eq_if nat_diff_distrib)
  have "word_rotl (if m = 0 then 0 else 32 - m) r = word_rotr m r"
  proof (rule bit_word_eqI)
    fix k assume k: "k < LENGTH(32)"
    have len: "LENGTH(32) = 32" by simp
    have "32 - (if m = 0 then 0 else 32 - m) mod 32 = (if m = 0 then 32 else m)" using m by auto
    moreover have "(k + (if m = 0 then 32 else m)) mod 32 = (k + m) mod 32" by simp
    ultimately show "bit (word_rotl (if m = 0 then 0 else 32 - m) r) k = bit (word_rotr m r) k"
      unfolding bit_word_rotl_iff bit_word_rotr_iff len by (simp only:)
  qed
  then show ?thesis by (simp only: rotate32_meaning n m_def [symmetric])
qed

lemma shift_args:
  assumes "- (2 ^ 31) \<le> i" "i < 2 ^ 31"
  shows "b_lshift C [push_unsigned r, num i] = pushed (b_shift r i)"
    "b_rshift C [push_unsigned r, num i] = pushed (seq (cint (- i)) (b_shift r))"
    "b_arshift C [push_unsigned r, num i] = pushed (arshift r i)"
    "b_lrot C [push_unsigned r, num i] = Inr (push_unsigned (rotate32 r i))"
    "i \<noteq> - (2 ^ 31) \<Longrightarrow> b_rrot C [push_unsigned r, num i] = Inr (push_unsigned (rotate32 r (- i)))"
proof -
  have i: "luaL_checkinteger C [push_unsigned r, num i] 2 = Inr i" using assms check_args(3) [of i C "push_unsigned r" "[]"] by (simp add: cint_def)
  note r = check_args(1) [of C r "[num i]"]
  show "b_lshift C [push_unsigned r, num i] = pushed (b_shift r i)"
    "b_rshift C [push_unsigned r, num i] = pushed (seq (cint (- i)) (b_shift r))"
    "b_arshift C [push_unsigned r, num i] = pushed (arshift r i)"
    "b_lrot C [push_unsigned r, num i] = Inr (push_unsigned (rotate32 r i))"
    unfolding b_lshift_def b_rshift_def b_arshift_def b_lrot_def b_rot_def i r by (simp_all add: pushed_def)
  show "b_rrot C [push_unsigned r, num i] = Inr (push_unsigned (rotate32 r (- i)))" if "i \<noteq> - (2 ^ 31)"
    unfolding b_rrot_def b_rot_def i r using assms that by (simp add: pushed_def cint_def)
qed

text \<open>\<open>extractk\<close> is \<open>extract\<close> with its field and width packed by the compiler.\<close>

lemma extractk_num:
  assumes "0 \<le> f" "0 < w" "f + w \<le> 32" "nresults \<le> 1"
  shows "luauF_extractk nresults [push_unsigned r, num (f + 32 * (w - 1))] = map_sum id Some (b_extract C [push_unsigned r, num f, num w])"
proof -
  define v where "v = w - 1"
  have "(f + 32 * v) mod 32 = f" "(f + 32 * v) div 32 = v" using assms by simp_all
  moreover define x where "x = f + 32 * (w - 1)"
  ultimately have fw: "x mod 32 = f" "drop_bit 5 x = w - 1" by (simp_all only: x_def v_def drop_bit_eq_div) simp
  have "luai_num2int (cast_num x) = Inr x" using assms by (simp add: num_checks cint_def x_def)
  then show ?thesis unfolding extract_num [OF assms(1-3)] x_def [symmetric] using assms
    by (simp add: luauF_extractk_def fast2_def number_arg_def arg_def push_unsigned_def num_def unsigned_num answer_def fast_mask_eq shift_mod_32 fw Suc_nat_eq_nat_zadd1)
qed

text \<open>
  Where the integer arithmetic of the code overflows: the end of a field at \<open>INT_MAX\<close> in \<open>fieldargs\<close>, also on the fast path, and the
  complement of a rotation by \<open>INT_MIN\<close> on the fast path only.
\<close>

lemma extract_overflow:
  "b_extract C [push_unsigned r, num (2 ^ 31 - 1), num 1] = Inl Undefined"
  "luauF_extract 1 [push_unsigned r, num (2 ^ 31 - 1), num 1] = Inl Undefined"
  "luauF_lrotate 1 [push_unsigned r, num (- (2 ^ 31))] = Inl Undefined"
proof -
  show "b_extract C [push_unsigned r, num (2 ^ 31 - 1), num 1] = Inl Undefined"
    using check_args(1) [of C r "[num (2 ^ 31 - 1), num 1]"] check_args(3) [of "2 ^ 31 - 1" C "push_unsigned r" "[num 1]"]
      check_args(5) [of 1 C "push_unsigned r" "num (2 ^ 31 - 1)" "[]" 1]
    by (simp add: b_extract_def fieldargs_def pushed_def cint_def)
  show "luauF_extract 1 [push_unsigned r, num (2 ^ 31 - 1), num 1] = Inl Undefined"
    by (simp add: luauF_extract_def fast2_def number_arg_def arg_def push_unsigned_def num_def unsigned_num num_checks cint_def)
  show "luauF_lrotate 1 [push_unsigned r, num (- (2 ^ 31))] = Inl Undefined"
    by (simp add: luauF_lrotate_def fast_shift_def fast2_def number_arg_def arg_def push_unsigned_def num_def unsigned_num num_checks cint_def)
qed

section \<open>Properties\<close>

text \<open>C36. Every fast function of \<open>bit32\<close> agrees with its library function: a fast call has the library's result, whatever the arguments
  and the number of results wanted, or its conversions and integer arithmetic were undefined.\<close>

theorem bit32_fast_calls:
  assumes "(fast, lib) \<in> set [(luauF_band, b_and C), (luauF_bor, b_or C), (luauF_bxor, b_xor C), (luauF_btest, b_test C), (luauF_bnot, b_not C),
    (luauF_lshift, b_lshift C), (luauF_rshift, b_rshift C), (luauF_arshift, b_arshift C), (luauF_lrotate, b_lrot C), (luauF_rrotate, b_rrot C),
    (luauF_extract, b_extract C), (luauF_replace, b_replace C), (luauF_countlz, b_countlz C), (luauF_countrz, b_countrz C),
    (luauF_byteswap, b_swap C)]"
  shows "fastcall fast lib nresults args = (if fast nresults args = Inl Undefined then Inl Undefined else lib args)"
proof -
  have "fast_function fast lib"
    using assms by (auto intro: band.fast_function_axioms bor.fast_function_axioms bxor.fast_function_axioms btest.fast_function_axioms
        bnot.fast_function_axioms lshift.fast_function_axioms rshift.fast_function_axioms arshift.fast_function_axioms
        lrotate.fast_function_axioms rrotate.fast_function_axioms field_extract.fast_function_axioms field_replace.fast_function_axioms
        countlz.fast_function_axioms countrz.fast_function_axioms byteswap.fast_function_axioms)
  from fast_function.fastcall_eq [OF this] show ?thesis by (auto simp: fastcall_def)
qed

theorem bit32_fast_calls_witness:
  "fastcall luauF_lshift (b_lshift \<lparr>c_strtod = (\<lambda>s. (0, 0)), c_strtoul16 = (\<lambda>s. (0, 0))\<rparr>) 1 [num 5, num 3] = Inr (num 40)"
proof -
  let ?C = "\<lparr>c_strtod = (\<lambda>s. (0, 0)), c_strtoul16 = (\<lambda>s. (0, 0))\<rparr> :: c_library"
  have "luauF_lshift 1 [num 5, num 3] \<noteq> Inl Undefined"
    by (simp add: luauF_lshift_def fast_shift_def fast2_def number_arg_def arg_def num_def num_checks cint_def answer_def)
  moreover have "b_lshift ?C [num 5, num 3] = Inr (num 40)"
    using check_args(1) [of ?C 5 "[num 3]"] check_args(3) [of 3 ?C "num 5" "[]"]
    by (simp add: b_lshift_def b_shift_def pushed_def push_unsigned_def num_def cint_def)
  ultimately show ?thesis using bit32_fast_calls [of luauF_lshift "b_lshift ?C" ?C 1 "[num 5, num 3]"] by simp
qed

text \<open>C37. Shifts and rotations by any \<open>int\<close> mean multiplication, division rounding down (of the unsigned or, for the arithmetic shift,
  the signed value) and rotation modulo 32. The one shift that is undefined is by \<open>-2\<^sup>3\<^sup>1\<close>, whose negation overflows.\<close>

theorem bit32_shifts:
  assumes "- (2 ^ 31) \<le> i" "i < 2 ^ 31"
  shows "b_lshift C [push_unsigned r, num i] =
      (if i = - (2 ^ 31) then Inl Undefined
       else Inr (push_unsigned (of_int (if 0 \<le> i then uint r * 2 ^ nat i else uint r div 2 ^ nat (- i)))))
    \<and> b_rshift C [push_unsigned r, num i] = (if i = - (2 ^ 31) then Inl Undefined else b_lshift C [push_unsigned r, num (- i)])
    \<and> b_arshift C [push_unsigned r, num i] =
      (if i = - (2 ^ 31) then Inl Undefined else if 0 \<le> i then Inr (push_unsigned (of_int (sint r div 2 ^ nat i)))
       else b_lshift C [push_unsigned r, num (- i)])
    \<and> b_lrot C [push_unsigned r, num i] = Inr (push_unsigned (word_rotl (nat (i mod 32)) r))
    \<and> (i \<noteq> - (2 ^ 31) \<longrightarrow> b_rrot C [push_unsigned r, num i] = Inr (push_unsigned (word_rotr (nat (i mod 32)) r)))"
proof (cases "i = - (2 ^ 31)")
  case True
  then show ?thesis using shift_args [OF assms]
    by (simp add: b_shift_def arshift_def cint_def pushed_def rotate32_meaning)
next
  case False
  then have i: "- (2 ^ 31) < i" "i < 2 ^ 31" "- (2 ^ 31) < - i" "- i < 2 ^ 31" using assms by auto
  have neg: "b_lshift C [push_unsigned r, num (- i)] = pushed (b_shift r (- i))" using i by (intro shift_args(1)) auto
  have c: "cint (- i) = Inr (- i)" using i by (simp add: cint_def)
  show ?thesis
    unfolding shift_args(1-4) [OF assms] neg c arshift_meaning [OF i(1,2)] b_shift_meaning [OF i(1,2)] using False shift_args(5) [OF assms]
    by (simp add: pushed_def rotate32_right) (simp add: rotate32_meaning)
qed

theorem bit32_shifts_witness:
  "b_arshift \<lparr>c_strtod = (\<lambda>s. (0, 0)), c_strtoul16 = (\<lambda>s. (0, 0))\<rparr> [push_unsigned 0xFFFFFFF9, num 1] = Inr (push_unsigned (- 4))"
  using bit32_shifts [where i = 1 and C = "\<lparr>c_strtod = (\<lambda>s. (0, 0)), c_strtoul16 = (\<lambda>s. (0, 0))\<rparr>" and r = "0xFFFFFFF9"] by simp

text \<open>Fields of \<open>w\<close> bits at \<open>f\<close>: \<open>extract\<close> reads them, \<open>replace\<close> writes them and nothing else, and what was written is read back.
  Counting zeros and swapping bytes have their usual meaning.\<close>

theorem bit32_fields:
  assumes "0 \<le> f" "0 < w" "f + w \<le> 32"
  shows "b_extract C [push_unsigned r, num f, num w] = Inr (push_unsigned (of_int (uint r div 2 ^ nat f mod 2 ^ nat w)))
    \<and> (\<exists>x. b_replace C [push_unsigned r, push_unsigned v, num f, num w] = Inr (push_unsigned x)
         \<and> (\<forall>k. bit x k \<longleftrightarrow> (if nat f \<le> k \<and> k < nat (f + w) then bit v (k - nat f) else bit r k))
         \<and> b_extract C [push_unsigned x, num f, num w] = Inr (push_unsigned (of_int (uint v mod 2 ^ nat w))))"
proof -
  have get: "drop_bit (nat f) r AND mask (nat w) = of_int (uint r div 2 ^ nat f mod 2 ^ nat w)" for r :: u32
  proof -
    have "take_bit 32 (uint r) = uint r" using uint_lt2p [of r] by (intro take_bit_int_eq_self) simp_all
    then have "uint (drop_bit (nat f) r) = uint r div 2 ^ nat f" unfolding unsigned_drop_bit_eq by (simp add: drop_bit_eq_div)
    then have "uint (take_bit (nat w) (drop_bit (nat f) r)) = uint r div 2 ^ nat f mod 2 ^ nat w"
      unfolding unsigned_take_bit_eq by (simp only: take_bit_eq_mod)
    then show ?thesis unfolding take_bit_eq_mask [symmetric] by (metis word_of_int_uint)
  qed
  have low: "v AND mask (nat w) = of_int (uint v mod 2 ^ nat w)"
    unfolding take_bit_eq_mask [symmetric] by (metis take_bit_eq_mod unsigned_take_bit_eq word_of_int_uint)
  let ?x = "r AND NOT (push_bit (nat f) (mask (nat w))) OR push_bit (nat f) (v AND mask (nat w))"
  have "bit ?x k \<longleftrightarrow> (if nat f \<le> k \<and> k < nat (f + w) then bit v (k - nat f) else bit r k)" for k
    using assms by (auto simp: bit_simps nat_add_distrib dest: bit_imp_le_length)
  moreover have "drop_bit (nat f) ?x AND mask (nat w) = v AND mask (nat w)" using assms by (intro field_put_get) simp
  ultimately show ?thesis unfolding extract_num [OF assms] replace_num [OF assms] using get [of r] low by metis
qed

theorem bit32_fields_witness:
  "b_extract \<lparr>c_strtod = (\<lambda>s. (0, 0)), c_strtoul16 = (\<lambda>s. (0, 0))\<rparr> [push_unsigned 0xABCD, num 4, num 8] = Inr (push_unsigned 0xBC)"
  using bit32_fields [where f = 4 and w = 8 and C = "\<lparr>c_strtod = (\<lambda>s. (0, 0)), c_strtoul16 = (\<lambda>s. (0, 0))\<rparr>" and r = "0xABCD"] by simp

end
