(* ===== verification/IntLib.thy ===== *)
theory IntLib
  imports BitLib "HOL-Library.Signed_Division"
begin

text \<open>
  The \<open>integer\<close> library of \<^verbatim>\<open>VM/src/lintlib.cpp\<close> and its fast functions in \<^verbatim>\<open>VM/src/lbuiltins.cpp\<close>. An \<open>int64_t\<close> is a word of 64 bits, read
  by \<open>sint\<close> where the code computes with signs; \<open>sdiv\<close> and \<open>smod\<close> are the division of C++, which truncates.
\<close>

section \<open>The library\<close>

abbreviation LLONG_MIN :: u64 where
  "LLONG_MIN \<equiv> 0x8000000000000000"

abbreviation LLONG_MAX :: u64 where
  "LLONG_MAX \<equiv> 0x7FFFFFFFFFFFFFFF"

abbreviation ULLONG_MAX :: u64 where
  "ULLONG_MAX \<equiv> NOT 0"

text \<open>Operands of the bitwise functions: integers, or doubles that are integers in the range of \<open>int64_t\<close>.\<close>

definition checkbitoperand :: "lua_value list \<Rightarrow> nat \<Rightarrow> lib_error + u64" where
  "checkbitoperand args index =
     (case arg args index of
        Some (LInteger x) \<Rightarrow> Inr x
      | Some (LNumber d) \<Rightarrow>
          (case dbl_int d of
             Some i \<Rightarrow> if - (2 ^ 63) \<le> i \<and> i < 2 ^ 63 then Inr (of_int i) else Inl (ArgErr index)
           | None \<Rightarrow> Inl (ArgErr index))
      | _ \<Rightarrow> Inl (ArgErr index))"

text \<open>Conversion to a double rounds to nearest.\<close>

definition i64_to_double :: "u64 \<Rightarrow> u64" where
  "i64_to_double x = (if sint x < 0 then u64_to_double (- x) OR push_bit 63 1 else u64_to_double x)"

text \<open>The bounds are compared as doubles; near them every double is an integer, so the truncated value decides.\<close>

definition create :: "u64 \<Rightarrow> lua_value" where
  "create x =
     (case dbl_trunc x of
        Some l \<Rightarrow> if - (2 ^ 63) \<le> l \<and> l < 2 ^ 63 \<and> luai_numeq (i64_to_double (of_int l)) x then LInteger (of_int l) else LNil
      | None \<Rightarrow> LNil)"

definition int64_create :: "c_library \<Rightarrow> lua_value list \<Rightarrow> lib_error + lua_value" where
  "int64_create C args = map_sum id create (luaL_checknumber C args 1)"

definition int1 :: "(u64 \<Rightarrow> lib_error + lua_value) \<Rightarrow> lua_value list \<Rightarrow> lib_error + lua_value" where
  "int1 f args = seq (luaL_checkinteger64 args 1) f"

definition int2 :: "(u64 \<Rightarrow> u64 \<Rightarrow> lib_error + lua_value) \<Rightarrow> lua_value list \<Rightarrow> lib_error + lua_value" where
  "int2 f args = seq (luaL_checkinteger64 args 1) (\<lambda>x. seq (luaL_checkinteger64 args 2) (f x))"

definition int64_tonumber :: "lua_value list \<Rightarrow> lib_error + lua_value" where
  "int64_tonumber = int1 (\<lambda>x. Inr (LNumber (i64_to_double x)))"

definition int64_neg :: "lua_value list \<Rightarrow> lib_error + lua_value" where
  "int64_neg = int1 (\<lambda>x. Inr (LInteger (NOT x + 1)))"

definition int64_add :: "lua_value list \<Rightarrow> lib_error + lua_value" where
  "int64_add = int2 (\<lambda>x y. Inr (LInteger (x + y)))"

definition int64_sub :: "lua_value list \<Rightarrow> lib_error + lua_value" where
  "int64_sub = int2 (\<lambda>x y. Inr (LInteger (x - y)))"

definition int64_mul :: "lua_value list \<Rightarrow> lib_error + lua_value" where
  "int64_mul = int2 (\<lambda>x y. Inr (LInteger (x * y)))"

definition int64_div :: "lua_value list \<Rightarrow> lib_error + lua_value" where
  "int64_div = int2 (\<lambda>a b.
     if b = 0 then Inl DivisionByZero
     else if a = LLONG_MIN \<and> b = - 1 then Inl IntegerOverflow
     else Inr (LInteger (of_int (sint a sdiv sint b))))"

definition int64_idiv :: "lua_value list \<Rightarrow> lib_error + lua_value" where
  "int64_idiv = int2 (\<lambda>a b.
     if b = 0 then Inl DivisionByZero
     else if a = LLONG_MIN \<and> b = - 1 then Inl IntegerOverflow
     else let result = sint a sdiv sint b
          in Inr (LInteger (of_int (if result < 0 \<and> sint a smod sint b \<noteq> 0 then result - 1 else result))))"

definition int64_rem :: "lua_value list \<Rightarrow> lib_error + lua_value" where
  "int64_rem = int2 (\<lambda>a b.
     if b = 0 then Inl DivisionByZero
     else if a = LLONG_MIN \<and> b = - 1 then Inr (LInteger 0)
     else Inr (LInteger (of_int (sint a smod sint b))))"

definition int64_mod :: "lua_value list \<Rightarrow> lib_error + lua_value" where
  "int64_mod = int2 (\<lambda>a b.
     if b = 0 then Inl DivisionByZero
     else let remainder =
            (if a \<noteq> LLONG_MIN \<or> b \<noteq> - 1
             then let remainder = sint a smod sint b
                  in if remainder \<noteq> 0 \<and> (sint a < 0) \<noteq> (sint b < 0) then remainder + sint b else remainder
             else 0)
          in Inr (LInteger (of_int remainder)))"

definition int64_udiv :: "lua_value list \<Rightarrow> lib_error + lua_value" where
  "int64_udiv = int2 (\<lambda>a b. if b = 0 then Inl DivisionByZero else Inr (LInteger (a div b)))"

definition int64_urem :: "lua_value list \<Rightarrow> lib_error + lua_value" where
  "int64_urem = int2 (\<lambda>a b. if b = 0 then Inl DivisionByZero else Inr (LInteger (a mod b)))"

definition int64_min :: "lua_value list \<Rightarrow> lib_error + lua_value" where
  "int64_min args =
     seq (luaL_checkinteger64 args 1) (\<lambda>tmin.
       map_sum id LInteger (fold_args (\<lambda>tmin x. if sint x < sint tmin then x else tmin) (luaL_checkinteger64 args) [2..<length args + 1] tmin))"

definition int64_max :: "lua_value list \<Rightarrow> lib_error + lua_value" where
  "int64_max args =
     seq (luaL_checkinteger64 args 1) (\<lambda>tmax.
       map_sum id LInteger (fold_args (\<lambda>tmax x. if sint x > sint tmax then x else tmax) (luaL_checkinteger64 args) [2..<length args + 1] tmax))"

definition int64_band :: "lua_value list \<Rightarrow> lib_error + lua_value" where
  "int64_band args = map_sum id LInteger (fold_args (AND) (checkbitoperand args) [1..<length args + 1] ULLONG_MAX)"

definition int64_bor :: "lua_value list \<Rightarrow> lib_error + lua_value" where
  "int64_bor args = map_sum id LInteger (fold_args (OR) (checkbitoperand args) [1..<length args + 1] 0)"

definition int64_bxor :: "lua_value list \<Rightarrow> lib_error + lua_value" where
  "int64_bxor args = map_sum id LInteger (fold_args (XOR) (checkbitoperand args) [1..<length args + 1] 0)"

definition int64_bnot :: "lua_value list \<Rightarrow> lib_error + lua_value" where
  "int64_bnot args = map_sum id (\<lambda>a. LInteger (NOT a)) (checkbitoperand args 1)"

definition int64_lt :: "lua_value list \<Rightarrow> lib_error + lua_value" where
  "int64_lt = int2 (\<lambda>a b. Inr (LBoolean (sint a < sint b)))"

definition int64_le :: "lua_value list \<Rightarrow> lib_error + lua_value" where
  "int64_le = int2 (\<lambda>a b. Inr (LBoolean (sint a \<le> sint b)))"

definition int64_gt :: "lua_value list \<Rightarrow> lib_error + lua_value" where
  "int64_gt = int2 (\<lambda>a b. Inr (LBoolean (sint a > sint b)))"

definition int64_ge :: "lua_value list \<Rightarrow> lib_error + lua_value" where
  "int64_ge = int2 (\<lambda>a b. Inr (LBoolean (sint a \<ge> sint b)))"

definition int64_ult :: "lua_value list \<Rightarrow> lib_error + lua_value" where
  "int64_ult = int2 (\<lambda>a b. Inr (LBoolean (a < b)))"

definition int64_ule :: "lua_value list \<Rightarrow> lib_error + lua_value" where
  "int64_ule = int2 (\<lambda>a b. Inr (LBoolean (a \<le> b)))"

definition int64_ugt :: "lua_value list \<Rightarrow> lib_error + lua_value" where
  "int64_ugt = int2 (\<lambda>a b. Inr (LBoolean (a > b)))"

definition int64_uge :: "lua_value list \<Rightarrow> lib_error + lua_value" where
  "int64_uge = int2 (\<lambda>a b. Inr (LBoolean (a \<ge> b)))"

definition bits2 :: "(u64 \<Rightarrow> u64 \<Rightarrow> u64) \<Rightarrow> lua_value list \<Rightarrow> lib_error + lua_value" where
  "bits2 f args = seq (checkbitoperand args 1) (\<lambda>n. seq (checkbitoperand args 2) (\<lambda>i. Inr (LInteger (f n i))))"

definition lshift64 :: "u64 \<Rightarrow> u64 \<Rightarrow> u64" where
  "lshift64 n i =
     (if sint i \<ge> - 63 \<and> sint i \<le> 63
      then if sint i < 0 then drop_bit (nat (- sint i)) n else push_bit (nat (sint i)) n else 0)"

definition int64_lshift :: "lua_value list \<Rightarrow> lib_error + lua_value" where
  "int64_lshift = bits2 lshift64"

definition rshift64 :: "u64 \<Rightarrow> u64 \<Rightarrow> u64" where
  "rshift64 n i =
     (if sint i \<ge> - 63 \<and> sint i \<le> 63
      then if sint i < 0 then push_bit (nat (- sint i)) n else drop_bit (nat (sint i)) n else 0)"

definition int64_rshift :: "lua_value list \<Rightarrow> lib_error + lua_value" where
  "int64_rshift = bits2 rshift64"

definition arshift64 :: "u64 \<Rightarrow> u64 \<Rightarrow> u64" where
  "arshift64 n i =
     (if sint i \<ge> - 63 \<and> sint i \<le> 63
      then if sint i < 0 then push_bit (nat (- sint i)) n else signed_drop_bit (nat (sint i)) n
      else if sint i < - 63 then 0 else if sint n < 0 then - 1 else 0)"

definition int64_arshift :: "lua_value list \<Rightarrow> lib_error + lua_value" where
  "int64_arshift = int2 (\<lambda>n i. Inr (LInteger (arshift64 n i)))"

definition lrotate64 :: "u64 \<Rightarrow> u64 \<Rightarrow> u64" where
  "lrotate64 n i = (let s = unat (i mod 64) in if s \<noteq> 0 then push_bit s n OR drop_bit (64 - s) n else n)"

definition int64_lrotate :: "lua_value list \<Rightarrow> lib_error + lua_value" where
  "int64_lrotate = int2 (\<lambda>n i. Inr (LInteger (lrotate64 n i)))"

definition rrotate64 :: "u64 \<Rightarrow> u64 \<Rightarrow> u64" where
  "rrotate64 n i = (let s = unat (i mod 64) in if s \<noteq> 0 then drop_bit s n OR push_bit (64 - s) n else n)"

definition int64_rrotate :: "lua_value list \<Rightarrow> lib_error + lua_value" where
  "int64_rrotate = int2 (\<lambda>n i. Inr (LInteger (rrotate64 n i)))"

definition mask64 :: "nat \<Rightarrow> u64" where
  "mask64 w = drop_bit (64 - w) 0xFFFFFFFFFFFFFFFF"

definition field64 :: "nat \<Rightarrow> u64 \<Rightarrow> u64 \<Rightarrow> (nat \<Rightarrow> nat \<Rightarrow> u64) \<Rightarrow> lib_error + lua_value" where
  "field64 farg f w res =
     (if \<not> (0 \<le> sint f \<and> sint f \<le> 63) then Inl (ArgErr farg)
      else if \<not> 0 < sint w then Inl (ArgErr (farg + 1))
      else seq (cint64 (sint f + sint w)) (\<lambda>s.
        if s > 64 then Inl NonExistentBits else Inr (LInteger (res (nat (sint f)) (nat (sint w))))))"

definition int64_extract :: "lua_value list \<Rightarrow> lib_error + lua_value" where
  "int64_extract args =
     seq (luaL_checkinteger64 args 1) (\<lambda>n. seq (luaL_checkinteger64 args 2) (\<lambda>f. seq (luaL_optinteger64 args 3 1) (\<lambda>w.
       field64 2 f w (\<lambda>f w. drop_bit f n AND mask64 w))))"

definition int64_replace :: "lua_value list \<Rightarrow> lib_error + lua_value" where
  "int64_replace args =
     seq (luaL_checkinteger64 args 1) (\<lambda>n. seq (luaL_checkinteger64 args 2) (\<lambda>r.
     seq (luaL_checkinteger64 args 3) (\<lambda>f. seq (luaL_optinteger64 args 4 1) (\<lambda>w.
       field64 3 f w (\<lambda>f w.
         let baseMask = mask64 w; replacement = push_bit f (r AND baseMask);
             mask = 0xFFFFFFFFFFFFFFFF XOR push_bit f baseMask
         in n AND mask OR replacement)))))"

definition int64_clamp :: "lua_value list \<Rightarrow> lib_error + lua_value" where
  "int64_clamp args =
     seq (luaL_checkinteger64 args 1) (\<lambda>a. seq (luaL_checkinteger64 args 2) (\<lambda>mi. seq (luaL_checkinteger64 args 3) (\<lambda>mx.
       if \<not> sint mi \<le> sint mx then Inl (ArgErr 3)
       else Inr (LInteger (if sint a < sint mi then mi else if sint a > sint mx then mx else a)))))"

definition int64_btest :: "lua_value list \<Rightarrow> lib_error + lua_value" where
  "int64_btest args = map_sum id (\<lambda>r. LBoolean (r \<noteq> 0)) (fold_args (AND) (luaL_checkinteger64 args) [1..<length args + 1] ULLONG_MAX)"

definition countrz64 :: "u64 \<Rightarrow> nat" where
  "countrz64 n = (if n = 0 then 64 else trailing_zeros (unat n))"

definition int64_countrz :: "lua_value list \<Rightarrow> lib_error + lua_value" where
  "int64_countrz = int1 (\<lambda>n. Inr (LInteger (of_nat (countrz64 n))))"

definition countlz64 :: "u64 \<Rightarrow> nat" where
  "countlz64 n = (if n = 0 then 64 else 64 - bit_length (unat n))"

definition int64_countlz :: "lua_value list \<Rightarrow> lib_error + lua_value" where
  "int64_countlz = int1 (\<lambda>n. Inr (LInteger (of_nat (countlz64 n))))"

definition bswap64 :: "u64 \<Rightarrow> u64" where
  "bswap64 a =
     drop_bit 56 a OR drop_bit 40 (a AND 0xFF000000000000) OR drop_bit 24 (a AND 0xFF0000000000) OR drop_bit 8 (a AND 0xFF00000000)
     OR push_bit 8 (a AND 0xFF000000) OR push_bit 24 (a AND 0xFF0000) OR push_bit 40 (a AND 0xFF00) OR push_bit 56 (a AND 0xFF)"

definition int64_bswap :: "lua_value list \<Rightarrow> lib_error + lua_value" where
  "int64_bswap = int1 (\<lambda>a. Inr (LInteger (bswap64 a)))"

section \<open>Fast functions\<close>

definition getbitoperand :: "lua_value list \<Rightarrow> nat \<Rightarrow> u64 option" where
  "getbitoperand args i =
     (case arg args i of
        Some (LInteger x) \<Rightarrow> Some x
      | Some (LNumber d) \<Rightarrow>
          (case dbl_int d of Some i \<Rightarrow> if - (2 ^ 63) \<le> i \<and> i < 2 ^ 63 then Some (of_int i) else None | None \<Rightarrow> None)
      | _ \<Rightarrow> None)"

definition reply :: "lua_value \<Rightarrow> lib_error + lua_value option" where
  "reply v = Inr (Some v)"

definition luauF_integercreate :: "int \<Rightarrow> lua_value list \<Rightarrow> lib_error + lua_value option" where
  "luauF_integercreate = fast1 number_arg (\<lambda>a1.
     case dbl_trunc a1 of
       Some x \<Rightarrow>
         if - (2 ^ 63) \<le> x \<and> x < 2 ^ 63 \<and> luai_numeq (i64_to_double (of_int x)) a1 then reply (LInteger (of_int x)) else reply LNil
     | None \<Rightarrow> reply LNil)"

definition luauF_integertonumber :: "int \<Rightarrow> lua_value list \<Rightarrow> lib_error + lua_value option" where
  "luauF_integertonumber = fast1 integer_arg (\<lambda>a. reply (LNumber (i64_to_double a)))"

definition luauF_integeradd :: "int \<Rightarrow> lua_value list \<Rightarrow> lib_error + lua_value option" where
  "luauF_integeradd = fast2 integer_arg (\<lambda>a b. reply (LInteger (a + b)))"

definition luauF_integersub :: "int \<Rightarrow> lua_value list \<Rightarrow> lib_error + lua_value option" where
  "luauF_integersub = fast2 integer_arg (\<lambda>a b. reply (LInteger (a - b)))"

definition luauF_integermul :: "int \<Rightarrow> lua_value list \<Rightarrow> lib_error + lua_value option" where
  "luauF_integermul = fast2 integer_arg (\<lambda>a b. reply (LInteger (a * b)))"

definition luauF_integerneg :: "int \<Rightarrow> lua_value list \<Rightarrow> lib_error + lua_value option" where
  "luauF_integerneg = fast1 integer_arg (\<lambda>a. reply (LInteger (NOT a + 1)))"

definition luauF_integerdiv :: "int \<Rightarrow> lua_value list \<Rightarrow> lib_error + lua_value option" where
  "luauF_integerdiv = fast2 integer_arg (\<lambda>a b. if b = 0 \<or> a = LLONG_MIN \<and> b = - 1 then Inr None else reply (LInteger (of_int (sint a sdiv sint b))))"

definition luauF_integerudiv :: "int \<Rightarrow> lua_value list \<Rightarrow> lib_error + lua_value option" where
  "luauF_integerudiv = fast2 integer_arg (\<lambda>a b. if b = 0 then Inr None else reply (LInteger (a div b)))"

definition luauF_integerurem :: "int \<Rightarrow> lua_value list \<Rightarrow> lib_error + lua_value option" where
  "luauF_integerurem = fast2 integer_arg (\<lambda>a b. if b = 0 then Inr None else reply (LInteger (a mod b)))"

definition luauF_integerrem :: "int \<Rightarrow> lua_value list \<Rightarrow> lib_error + lua_value option" where
  "luauF_integerrem = fast2 integer_arg (\<lambda>a b. 
     if b = 0 then Inr None
     else reply (LInteger (if a = LLONG_MIN \<and> b = - 1 then 0 else of_int (sint a smod sint b))))"

definition luauF_integermod :: "int \<Rightarrow> lua_value list \<Rightarrow> lib_error + lua_value option" where
  "luauF_integermod = fast2 integer_arg (\<lambda>a b. 
     if b = 0 then Inr None
     else if a = LLONG_MIN \<and> b = - 1 then reply (LInteger 0)
     else let remainder = sint a smod sint b
          in reply (LInteger (of_int (if remainder \<noteq> 0 \<and> (sint a < 0) \<noteq> (sint b < 0) then remainder + sint b else remainder))))"

definition luauF_integeridiv :: "int \<Rightarrow> lua_value list \<Rightarrow> lib_error + lua_value option" where
  "luauF_integeridiv = fast2 integer_arg (\<lambda>a b. 
     if b = 0 then Inr None
     else if a = LLONG_MIN \<and> b = - 1 then Inr None
     else let result = sint a sdiv sint b
          in if result < 0 \<and> sint a smod sint b \<noteq> 0 then reply (LInteger (of_int (result - 1))) else reply (LInteger (of_int result)))"

definition luauF_integerband :: "int \<Rightarrow> lua_value list \<Rightarrow> lib_error + lua_value option" where
  "luauF_integerband nresults args =
     fast1 getbitoperand (\<lambda>r. map_sum id (map_option LInteger)
       (fast_fold (AND) (\<lambda>i. map_option Inr (getbitoperand args i)) [2..<length args + 1] r)) nresults args"

definition luauF_integerbor :: "int \<Rightarrow> lua_value list \<Rightarrow> lib_error + lua_value option" where
  "luauF_integerbor nresults args =
     fast1 getbitoperand (\<lambda>r. map_sum id (map_option LInteger)
       (fast_fold (OR) (\<lambda>i. map_option Inr (getbitoperand args i)) [2..<length args + 1] r)) nresults args"

definition luauF_integerbxor :: "int \<Rightarrow> lua_value list \<Rightarrow> lib_error + lua_value option" where
  "luauF_integerbxor nresults args =
     fast1 getbitoperand (\<lambda>r. map_sum id (map_option LInteger)
       (fast_fold (XOR) (\<lambda>i. map_option Inr (getbitoperand args i)) [2..<length args + 1] r)) nresults args"

definition luauF_integerbnot :: "int \<Rightarrow> lua_value list \<Rightarrow> lib_error + lua_value option" where
  "luauF_integerbnot = fast1 getbitoperand (\<lambda>a. reply (LInteger (NOT a)))"

definition luauF_integerbswap :: "int \<Rightarrow> lua_value list \<Rightarrow> lib_error + lua_value option" where
  "luauF_integerbswap = fast1 integer_arg (\<lambda>a. reply (LInteger
     (drop_bit 56 a OR drop_bit 40 (a AND 0xFF000000000000) OR drop_bit 24 (a AND 0xFF0000000000) OR drop_bit 8 (a AND 0xFF00000000)
      OR push_bit 8 (a AND 0xFF000000) OR push_bit 24 (a AND 0xFF0000) OR push_bit 40 (a AND 0xFF00) OR push_bit 56 (a AND 0xFF))))"

definition luauF_integerbtest :: "int \<Rightarrow> lua_value list \<Rightarrow> lib_error + lua_value option" where
  "luauF_integerbtest nresults args =
     fast1 integer_arg (\<lambda>r. map_sum id (map_option (\<lambda>r. LBoolean (r \<noteq> 0)))
       (fast_fold (AND) (\<lambda>i. map_option Inr (integer_arg args i)) [2..<length args + 1] r)) nresults args"

definition luauF_integerlt :: "int \<Rightarrow> lua_value list \<Rightarrow> lib_error + lua_value option" where
  "luauF_integerlt = fast2 integer_arg (\<lambda>a b. reply (LBoolean (sint a < sint b)))"

definition luauF_integerle :: "int \<Rightarrow> lua_value list \<Rightarrow> lib_error + lua_value option" where
  "luauF_integerle = fast2 integer_arg (\<lambda>a b. reply (LBoolean (sint a \<le> sint b)))"

definition luauF_integergt :: "int \<Rightarrow> lua_value list \<Rightarrow> lib_error + lua_value option" where
  "luauF_integergt = fast2 integer_arg (\<lambda>a b. reply (LBoolean (sint a > sint b)))"

definition luauF_integerge :: "int \<Rightarrow> lua_value list \<Rightarrow> lib_error + lua_value option" where
  "luauF_integerge = fast2 integer_arg (\<lambda>a b. reply (LBoolean (sint a \<ge> sint b)))"

definition luauF_integerult :: "int \<Rightarrow> lua_value list \<Rightarrow> lib_error + lua_value option" where
  "luauF_integerult = fast2 integer_arg (\<lambda>a b. reply (LBoolean (a < b)))"

definition luauF_integerule :: "int \<Rightarrow> lua_value list \<Rightarrow> lib_error + lua_value option" where
  "luauF_integerule = fast2 integer_arg (\<lambda>a b. reply (LBoolean (a \<le> b)))"

definition luauF_integerugt :: "int \<Rightarrow> lua_value list \<Rightarrow> lib_error + lua_value option" where
  "luauF_integerugt = fast2 integer_arg (\<lambda>a b. reply (LBoolean (a > b)))"

definition luauF_integeruge :: "int \<Rightarrow> lua_value list \<Rightarrow> lib_error + lua_value option" where
  "luauF_integeruge = fast2 integer_arg (\<lambda>a b. reply (LBoolean (a \<ge> b)))"

definition luauF_integercountlz :: "int \<Rightarrow> lua_value list \<Rightarrow> lib_error + lua_value option" where
  "luauF_integercountlz = fast1 integer_arg (\<lambda>n. reply (LInteger (of_nat (if n = 0 then 64 else 64 - bit_length (unat n)))))"

definition luauF_integercountrz :: "int \<Rightarrow> lua_value list \<Rightarrow> lib_error + lua_value option" where
  "luauF_integercountrz = fast1 integer_arg (\<lambda>n. reply (LInteger (of_nat (if n = 0 then 64 else trailing_zeros (unat n)))))"

definition luauF_integerextract :: "int \<Rightarrow> lua_value list \<Rightarrow> lib_error + lua_value option" where
  "luauF_integerextract nresults args =
     (if length args \<ge> 3 \<and> integer_arg args 3 = None then Inr None
      else fast2 integer_arg (\<lambda>n f.
        let w = (if length args \<ge> 3 then the (integer_arg args 3) else 1)
        in if sint f < 0 \<or> sint f > 63 \<or> sint w < 1 \<or> sint w > 64 \<or> sint f + sint w > 64 then Inr None
           else reply (LInteger (drop_bit (nat (sint f)) n AND drop_bit (64 - nat (sint w)) 0xFFFFFFFFFFFFFFFF))) nresults args)"

definition luauF_integerclamp :: "int \<Rightarrow> lua_value list \<Rightarrow> lib_error + lua_value option" where
  "luauF_integerclamp = fast3 integer_arg (\<lambda>a rmin rmax.
     if sint rmin > sint rmax then Inr None
     else reply (LInteger (if sint a < sint rmin then rmin else if sint a > sint rmax then rmax else a)))"

definition luauF_integerlrotate :: "int \<Rightarrow> lua_value list \<Rightarrow> lib_error + lua_value option" where
  "luauF_integerlrotate = fast2 integer_arg (\<lambda>n i.
     let s = unat (i mod 64) in reply (LInteger (if s \<noteq> 0 then push_bit s n OR drop_bit (64 - s) n else n)))"

definition luauF_integerrrotate :: "int \<Rightarrow> lua_value list \<Rightarrow> lib_error + lua_value option" where
  "luauF_integerrrotate = fast2 integer_arg (\<lambda>n i.
     let s = unat (i mod 64) in reply (LInteger (if s \<noteq> 0 then drop_bit s n OR push_bit (64 - s) n else n)))"

definition luauF_integerlshift :: "int \<Rightarrow> lua_value list \<Rightarrow> lib_error + lua_value option" where
  "luauF_integerlshift = fast2 getbitoperand (\<lambda>n i. reply (LInteger
     (if sint i \<ge> - 63 \<and> sint i \<le> 63
      then if sint i < 0 then drop_bit (nat (- sint i)) n else push_bit (nat (sint i)) n else 0)))"

definition luauF_integerrshift :: "int \<Rightarrow> lua_value list \<Rightarrow> lib_error + lua_value option" where
  "luauF_integerrshift = fast2 getbitoperand (\<lambda>n i. reply (LInteger
     (if sint i \<ge> - 63 \<and> sint i \<le> 63
      then if sint i < 0 then push_bit (nat (- sint i)) n else drop_bit (nat (sint i)) n else 0)))"

definition luauF_integerarshift :: "int \<Rightarrow> lua_value list \<Rightarrow> lib_error + lua_value option" where
  "luauF_integerarshift = fast2 integer_arg (\<lambda>n i.
     if sint i \<ge> - 63 \<and> sint i \<le> 63
     then reply (LInteger (if sint i < 0 then push_bit (nat (- sint i)) n else signed_drop_bit (nat (sint i)) n))
     else if sint i < - 63 then reply (LInteger 0) else reply (LInteger (if sint n < 0 then - 1 else 0)))"

definition luauF_integermin :: "int \<Rightarrow> lua_value list \<Rightarrow> lib_error + lua_value option" where
  "luauF_integermin nresults args =
     fast2 integer_arg (\<lambda>a1 a2. map_sum id (map_option LInteger)
       (fast_fold (\<lambda>r a. if sint a < sint r then a else r) (\<lambda>i. map_option Inr (integer_arg args i)) [3..<length args + 1]
         (if sint a2 < sint a1 then a2 else a1))) nresults args"

definition luauF_integermax :: "int \<Rightarrow> lua_value list \<Rightarrow> lib_error + lua_value option" where
  "luauF_integermax nresults args =
     fast2 integer_arg (\<lambda>a1 a2. map_sum id (map_option LInteger)
       (fast_fold (\<lambda>r a. if sint a > sint r then a else r) (\<lambda>i. map_option Inr (integer_arg args i)) [3..<length args + 1]
         (if sint a2 < sint a1 then a1 else a2))) nresults args"

section \<open>The fast functions agree with the library\<close>

lemma sint_inj: "sint x = sint y \<longleftrightarrow> x = y" for x y :: "'a::len word"
proof
  assume "sint x = sint y"
  then have "word_of_int (sint x) = (word_of_int (sint y) :: 'a word)" by (rule arg_cong)
  then show "x = y" by simp
qed simp

lemma reply_eq [simp]: "reply v = Inr (Some w) \<longleftrightarrow> v = w" "reply v \<noteq> Inl e" "Inl e \<noteq> reply v"
  by (simp_all add: reply_def)

lemma checkbitoperand_eq: "checkbitoperand args i = (case getbitoperand args i of Some x \<Rightarrow> Inr x | None \<Rightarrow> Inl (ArgErr i))"
  by (simp add: checkbitoperand_def getbitoperand_def split: option.split lua_value.split)

lemma getbitoperand_length: "getbitoperand args i = Some x \<Longrightarrow> 1 \<le> i \<and> i \<le> length args"
  by (auto simp: getbitoperand_def arg_def split: if_splits)

lemma fast1_integer:
  assumes "\<And>a v. g a = Inr (Some v) \<Longrightarrow> h a = Inr v" "\<And>a e. g a \<noteq> Inl e"
  shows "exact_fast_function (fast1 integer_arg g) (int1 h)"
  by unfold_locales (use assms in \<open>auto simp: fast_guards int1_def integer_arg_checks\<close>)

lemma fast2_integer:
  assumes "\<And>a b v. g a b = Inr (Some v) \<Longrightarrow> h a b = Inr v" "\<And>a b e. g a b \<noteq> Inl e"
  shows "exact_fast_function (fast2 integer_arg g) (int2 h)"
  by unfold_locales (use assms in \<open>auto simp: fast_guards int2_def integer_arg_checks\<close>)

lemma fast2_bits: "exact_fast_function (fast2 getbitoperand (\<lambda>n i. reply (LInteger (f n i)))) (bits2 f)"
  by unfold_locales (auto simp: fast_guards bits2_def checkbitoperand_eq)

text \<open>The loops over further arguments.\<close>

lemma fast_fold_get_errors: "fast_fold f (\<lambda>i. map_option Inr (get i)) is r \<noteq> Inl e"
  by (induction "is" arbitrary: r) (auto split: option.splits)

lemma fast1_fold:
  assumes "\<And>i x. get args i = Some x \<Longrightarrow> check i = Inr x \<and> 1 \<le> i \<and> i \<le> length args" "\<And>u. f z u = u"
    "fast1 get (\<lambda>r. map_sum id (map_option res) (fast_fold f (\<lambda>i. map_option Inr (get args i)) [2..<length args + 1] r)) nresults args = Inr (Some v)"
  shows "map_sum id res (fold_args f check [1..<length args + 1] z) = Inr v"
proof -
  from assms(3) obtain a r where a: "get args 1 = Some a" "fast_fold f (\<lambda>i. map_option Inr (get args i)) [2..<length args + 1] a = Inr (Some r)" "v = res r"
    unfolding fast_guards map_sum_eq_Inr by (auto simp: map_sum_eq_Inr)
  have "[1..<length args + 1] = 1 # [2..<length args + 1]" using assms(1) [OF a(1)] by (simp add: upt_conv_Cons numeral_eq_Suc)
  moreover have "fold_args f check [2..<length args + 1] a = Inr r" using a(2) by (rule fast_fold_answers) (use assms(1) in auto)
  ultimately show ?thesis using assms(1) [OF a(1)] assms(2) a(3) by simp
qed

lemma fast2_fold:
  assumes "\<And>u w. f u w = g u w"
    "fast2 integer_arg (\<lambda>a b. map_sum id (map_option res) (fast_fold f (\<lambda>i. map_option Inr (integer_arg args i)) [3..<length args + 1] (g a b))) nresults args
      = Inr (Some v)"
  shows "seq (luaL_checkinteger64 args 1) (\<lambda>x. map_sum id res (fold_args f (luaL_checkinteger64 args) [2..<length args + 1] x)) = Inr v"
proof -
  from assms(2) obtain a b r where a: "integer_arg args 1 = Some a" "integer_arg args 2 = Some b" "v = res r"
    "fast_fold f (\<lambda>i. map_option Inr (integer_arg args i)) [3..<length args + 1] (g a b) = Inr (Some r)"
    unfolding fast_guards by (auto simp: map_sum_eq_Inr)
  have "[2..<length args + 1] = 2 # [3..<length args + 1]" using integer_arg_length [OF a(2)] by (simp add: upt_conv_Cons numeral_eq_Suc)
  moreover have "fold_args f (luaL_checkinteger64 args) [3..<length args + 1] (g a b) = Inr r"
    using a(4) by (rule fast_fold_answers) (auto simp: integer_arg_checks)
  ultimately show ?thesis using a assms(1) by (simp add: integer_arg_checks)
qed

interpretation integer_create: exact_fast_function luauF_integercreate "int64_create C"
  by unfold_locales (auto simp: luauF_integercreate_def int64_create_def create_def fast_guards number_arg_checks split: option.splits if_splits)

interpretation integer_tonumber: exact_fast_function luauF_integertonumber int64_tonumber
  unfolding luauF_integertonumber_def int64_tonumber_def by (rule fast1_integer) simp_all

interpretation integer_neg: exact_fast_function luauF_integerneg int64_neg
  unfolding luauF_integerneg_def int64_neg_def by (rule fast1_integer) simp_all

interpretation integer_bswap: exact_fast_function luauF_integerbswap int64_bswap
  unfolding luauF_integerbswap_def int64_bswap_def by (rule fast1_integer) (simp_all add: bswap64_def)

interpretation integer_countlz: exact_fast_function luauF_integercountlz int64_countlz
  unfolding luauF_integercountlz_def int64_countlz_def by (rule fast1_integer) (simp_all add: countlz64_def)

interpretation integer_countrz: exact_fast_function luauF_integercountrz int64_countrz
  unfolding luauF_integercountrz_def int64_countrz_def by (rule fast1_integer) (simp_all add: countrz64_def)

interpretation integer_add: exact_fast_function luauF_integeradd int64_add
  unfolding luauF_integeradd_def int64_add_def by (rule fast2_integer) (auto simp: Let_def split: if_splits)

interpretation integer_sub: exact_fast_function luauF_integersub int64_sub
  unfolding luauF_integersub_def int64_sub_def by (rule fast2_integer) (auto simp: Let_def split: if_splits)

interpretation integer_mul: exact_fast_function luauF_integermul int64_mul
  unfolding luauF_integermul_def int64_mul_def by (rule fast2_integer) (auto simp: Let_def split: if_splits)

interpretation integer_div: exact_fast_function luauF_integerdiv int64_div
  unfolding luauF_integerdiv_def int64_div_def by (rule fast2_integer) (auto simp: Let_def split: if_splits)

interpretation integer_udiv: exact_fast_function luauF_integerudiv int64_udiv
  unfolding luauF_integerudiv_def int64_udiv_def by (rule fast2_integer) (auto simp: Let_def split: if_splits)

interpretation integer_urem: exact_fast_function luauF_integerurem int64_urem
  unfolding luauF_integerurem_def int64_urem_def by (rule fast2_integer) (auto simp: Let_def split: if_splits)

interpretation integer_rem: exact_fast_function luauF_integerrem int64_rem
  unfolding luauF_integerrem_def int64_rem_def by (rule fast2_integer) (auto simp: Let_def split: if_splits)

interpretation integer_mod: exact_fast_function luauF_integermod int64_mod
  unfolding luauF_integermod_def int64_mod_def by (rule fast2_integer) (auto simp: Let_def split: if_splits)

interpretation integer_idiv: exact_fast_function luauF_integeridiv int64_idiv
  unfolding luauF_integeridiv_def int64_idiv_def by (rule fast2_integer) (auto simp: Let_def split: if_splits)

interpretation integer_lt: exact_fast_function luauF_integerlt int64_lt
  unfolding luauF_integerlt_def int64_lt_def by (rule fast2_integer) (auto simp: Let_def split: if_splits)

interpretation integer_le: exact_fast_function luauF_integerle int64_le
  unfolding luauF_integerle_def int64_le_def by (rule fast2_integer) (auto simp: Let_def split: if_splits)

interpretation integer_gt: exact_fast_function luauF_integergt int64_gt
  unfolding luauF_integergt_def int64_gt_def by (rule fast2_integer) (auto simp: Let_def split: if_splits)

interpretation integer_ge: exact_fast_function luauF_integerge int64_ge
  unfolding luauF_integerge_def int64_ge_def by (rule fast2_integer) (auto simp: Let_def split: if_splits)

interpretation integer_ult: exact_fast_function luauF_integerult int64_ult
  unfolding luauF_integerult_def int64_ult_def by (rule fast2_integer) (auto simp: Let_def split: if_splits)

interpretation integer_ule: exact_fast_function luauF_integerule int64_ule
  unfolding luauF_integerule_def int64_ule_def by (rule fast2_integer) (auto simp: Let_def split: if_splits)

interpretation integer_ugt: exact_fast_function luauF_integerugt int64_ugt
  unfolding luauF_integerugt_def int64_ugt_def by (rule fast2_integer) (auto simp: Let_def split: if_splits)

interpretation integer_uge: exact_fast_function luauF_integeruge int64_uge
  unfolding luauF_integeruge_def int64_uge_def by (rule fast2_integer) (auto simp: Let_def split: if_splits)

interpretation integer_lrotate: exact_fast_function luauF_integerlrotate int64_lrotate
  unfolding luauF_integerlrotate_def int64_lrotate_def by (rule fast2_integer) (auto simp: lrotate64_def Let_def split: if_splits)

interpretation integer_rrotate: exact_fast_function luauF_integerrrotate int64_rrotate
  unfolding luauF_integerrrotate_def int64_rrotate_def by (rule fast2_integer) (auto simp: rrotate64_def Let_def split: if_splits)

interpretation integer_arshift: exact_fast_function luauF_integerarshift int64_arshift
  unfolding luauF_integerarshift_def int64_arshift_def by (rule fast2_integer) (auto simp: arshift64_def Let_def split: if_splits)

interpretation integer_lshift: exact_fast_function luauF_integerlshift int64_lshift
  unfolding luauF_integerlshift_def int64_lshift_def lshift64_def [abs_def] by (rule fast2_bits)

interpretation integer_rshift: exact_fast_function luauF_integerrshift int64_rshift
  unfolding luauF_integerrshift_def int64_rshift_def rshift64_def [abs_def] by (rule fast2_bits)

interpretation integer_band: exact_fast_function luauF_integerband int64_band
proof
  fix nresults args v assume "luauF_integerband nresults args = Inr (Some v)"
  then show "int64_band args = Inr v" unfolding luauF_integerband_def int64_band_def
    by (rule fast1_fold [rotated 2]) (auto simp: checkbitoperand_eq dest: getbitoperand_length)
qed (auto simp: luauF_integerband_def fast_guards map_sum_eq_Inl fast_fold_get_errors)

interpretation integer_bor: exact_fast_function luauF_integerbor int64_bor
proof
  fix nresults args v assume "luauF_integerbor nresults args = Inr (Some v)"
  then show "int64_bor args = Inr v" unfolding luauF_integerbor_def int64_bor_def
    by (rule fast1_fold [rotated 2]) (auto simp: checkbitoperand_eq dest: getbitoperand_length)
qed (auto simp: luauF_integerbor_def fast_guards map_sum_eq_Inl fast_fold_get_errors)

interpretation integer_bxor: exact_fast_function luauF_integerbxor int64_bxor
proof
  fix nresults args v assume "luauF_integerbxor nresults args = Inr (Some v)"
  then show "int64_bxor args = Inr v" unfolding luauF_integerbxor_def int64_bxor_def
    by (rule fast1_fold [rotated 2]) (auto simp: checkbitoperand_eq dest: getbitoperand_length)
qed (auto simp: luauF_integerbxor_def fast_guards map_sum_eq_Inl fast_fold_get_errors)

interpretation integer_bnot: exact_fast_function luauF_integerbnot int64_bnot
  by unfold_locales (auto simp: luauF_integerbnot_def int64_bnot_def fast_guards checkbitoperand_eq)

interpretation integer_btest: exact_fast_function luauF_integerbtest int64_btest
proof
  fix nresults args v assume "luauF_integerbtest nresults args = Inr (Some v)"
  then show "int64_btest args = Inr v" unfolding luauF_integerbtest_def int64_btest_def
    by (rule fast1_fold [rotated 2]) (auto simp: integer_arg_checks dest: integer_arg_length)
qed (auto simp: luauF_integerbtest_def fast_guards map_sum_eq_Inl fast_fold_get_errors)

interpretation integer_min: exact_fast_function luauF_integermin int64_min
proof
  fix nresults args v assume "luauF_integermin nresults args = Inr (Some v)"
  then show "int64_min args = Inr v" unfolding luauF_integermin_def int64_min_def by (rule fast2_fold [rotated]) simp
qed (auto simp: luauF_integermin_def fast_guards map_sum_eq_Inl fast_fold_get_errors)

interpretation integer_max: exact_fast_function luauF_integermax int64_max
proof
  fix nresults args v assume "luauF_integermax nresults args = Inr (Some v)"
  then show "int64_max args = Inr v" unfolding luauF_integermax_def int64_max_def
    by (rule fast2_fold [rotated]) (use sint_inj [where 'a = 64] in \<open>auto simp: not_less order_antisym_conv\<close>)
qed (auto simp: luauF_integermax_def fast_guards map_sum_eq_Inl fast_fold_get_errors)

interpretation integer_clamp: exact_fast_function luauF_integerclamp int64_clamp
  by unfold_locales (auto simp: luauF_integerclamp_def int64_clamp_def fast_guards integer_arg_checks split: if_splits)

interpretation integer_extract: exact_fast_function luauF_integerextract int64_extract
proof
  fix nresults args v assume a: "luauF_integerextract nresults args = Inr (Some v)"
  let ?w = "if length args \<ge> 3 then the (integer_arg args 3) else 1"
  from a obtain n f where n: "integer_arg args 1 = Some n" "integer_arg args 2 = Some f" "length args \<ge> 3 \<Longrightarrow> integer_arg args 3 \<noteq> None"
    "0 \<le> sint f" "sint f \<le> 63" "0 < sint ?w" "sint ?w \<le> 64" "sint f + sint ?w \<le> 64"
    "v = LInteger (drop_bit (nat (sint f)) n AND mask64 (nat (sint ?w)))"
    unfolding luauF_integerextract_def fast_guards Let_def mask64_def by (auto simp: fast_guards split: if_splits)
  have "luaL_optinteger64 args 3 1 = Inr ?w"
  proof (cases "length args \<ge> 3")
    case True then show ?thesis using n(3) by (auto simp: luaL_optinteger64_def integer_arg_checks)
  next
    case False then show ?thesis by (simp add: luaL_optinteger64_def luaL_opt_def arg_def)
  qed
  then show "int64_extract args = Inr v" using n
    by (simp add: int64_extract_def integer_arg_checks field64_def cint64_def)
qed (auto simp: luauF_integerextract_def fast_guards Let_def split: if_splits)

section \<open>Division\<close>

lemma sint_range: "- (2 ^ 63) \<le> sint x" "sint x < 2 ^ 63" for x :: u64
  using sint_greater_eq [of x] sint_less [of x] by simp_all

lemma sint_of_int: "- (2 ^ 63) \<le> i \<Longrightarrow> i < 2 ^ 63 \<Longrightarrow> sint (of_int i :: u64) = i"
  by (simp add: sint_sbintrunc' signed_take_bit_int_eq_self)

lemma sint_eq_0: "sint x = 0 \<longleftrightarrow> x = 0" for x :: "'a::len word"
  using sint_inj [of x 0] by simp

lemma sint_special: "sint LLONG_MIN = - (2 ^ 63)" "sint (- 1 :: u64) = - 1"
  by simp_all

text \<open>Quotients fit unless the smallest number is divided by \<open>-1\<close>.\<close>

lemma sdiv_range:
  fixes a b :: u64
  assumes "b \<noteq> 0" "\<not> (a = LLONG_MIN \<and> b = - 1)"
  shows "- (2 ^ 63) \<le> sint a sdiv sint b" "sint a sdiv sint b < 2 ^ 63" "- (2 ^ 63) \<le> sint a smod sint b" "sint a smod sint b < 2 ^ 63"
proof -
  have q: "- \<bar>sint a\<bar> \<le> sint a sdiv sint b" "sint a sdiv sint b \<le> \<bar>sint a\<bar>" using sdiv_int_range [of "sint a" "sint b"] by simp_all
  have "sint a sdiv sint b \<noteq> 2 ^ 63"
  proof
    assume e: "sint a sdiv sint b = 2 ^ 63"
    then have "sint a = - (2 ^ 63)" using q sint_range [of a] by linarith
    moreover from this have "sint b = - 1" using int_sdiv_negated_is_minus1 [of "sint a" "sint b"] e by simp
    ultimately show False using assms(2) sint_inj [of a LLONG_MIN] sint_inj [of b "- 1"] sint_special by simp
  qed
  then show "- (2 ^ 63) \<le> sint a sdiv sint b" "sint a sdiv sint b < 2 ^ 63" using q sint_range [of a] by linarith+
  show "- (2 ^ 63) \<le> sint a smod sint b" "sint a smod sint b < 2 ^ 63"
    using smod_int_range [of "sint b" "sint a"] assms(1) sint_range [of b] by (auto simp: sint_eq_0)
qed

text \<open>The entry points on two integers.\<close>

lemma int2_integers: "int2 f [LInteger a, LInteger b] = f a b"
  by (simp add: int2_def luaL_checkinteger64_def arg_def)

text \<open>The remainder adjusted to the sign of the divisor is the floored one, and the floored quotient is one less than the truncated
  one where the division is not exact and the signs differ.\<close>

lemma floored:
  fixes a b :: int
  assumes "b \<noteq> 0"
  shows "a mod b = (if a smod b \<noteq> 0 \<and> (a < 0) \<noteq> (b < 0) then a smod b + b else a smod b)"
    "a div b = (if a smod b \<noteq> 0 \<and> (a < 0) \<noteq> (b < 0) then a sdiv b - 1 else a sdiv b)"
proof -
  have "a smod b = 0 \<longleftrightarrow> b dvd a"
    by (auto simp: signed_modulo_int_def sgn_eq_0_iff mod_eq_0_iff_dvd)
  then have "sgn a \<noteq> sgn b \<and> \<not> b dvd a \<longleftrightarrow> a smod b \<noteq> 0 \<and> (a < 0) \<noteq> (b < 0)"
    using assms by (auto simp: sgn_if split: if_splits)
  then show "a mod b = (if a smod b \<noteq> 0 \<and> (a < 0) \<noteq> (b < 0) then a smod b + b else a smod b)"
    "a div b = (if a smod b \<noteq> 0 \<and> (a < 0) \<noteq> (b < 0) then a sdiv b - 1 else a sdiv b)"
    using assms by (simp_all add: modulo_int_eq_signed_modulo_int divide_int_eq_signed_divide_int)
qed


lemmas integer_contracts = integer_create.exact_fast_function_axioms integer_tonumber.exact_fast_function_axioms integer_neg.exact_fast_function_axioms
        integer_bswap.exact_fast_function_axioms integer_countlz.exact_fast_function_axioms integer_countrz.exact_fast_function_axioms
        integer_add.exact_fast_function_axioms integer_sub.exact_fast_function_axioms integer_mul.exact_fast_function_axioms
        integer_div.exact_fast_function_axioms integer_udiv.exact_fast_function_axioms integer_urem.exact_fast_function_axioms
        integer_rem.exact_fast_function_axioms integer_mod.exact_fast_function_axioms integer_idiv.exact_fast_function_axioms
        integer_lt.exact_fast_function_axioms integer_le.exact_fast_function_axioms integer_gt.exact_fast_function_axioms
        integer_ge.exact_fast_function_axioms integer_ult.exact_fast_function_axioms integer_ule.exact_fast_function_axioms
        integer_ugt.exact_fast_function_axioms integer_uge.exact_fast_function_axioms integer_lrotate.exact_fast_function_axioms
        integer_rrotate.exact_fast_function_axioms integer_arshift.exact_fast_function_axioms integer_lshift.exact_fast_function_axioms
        integer_rshift.exact_fast_function_axioms integer_band.exact_fast_function_axioms integer_bor.exact_fast_function_axioms
        integer_bxor.exact_fast_function_axioms integer_bnot.exact_fast_function_axioms integer_btest.exact_fast_function_axioms
        integer_min.exact_fast_function_axioms integer_max.exact_fast_function_axioms integer_clamp.exact_fast_function_axioms
        integer_extract.exact_fast_function_axioms

text \<open>Truncation to zero, and the sign of other quotients.\<close>

lemma sdiv_zero_iff: "b \<noteq> 0 \<Longrightarrow> a sdiv b = 0 \<longleftrightarrow> \<bar>a\<bar> < \<bar>b\<bar>" for a b :: int
  by (auto simp: signed_divide_int_def sgn_eq_0_iff zdiv_eq_0_iff)

lemma sdiv_negative_iff: "b \<noteq> 0 \<Longrightarrow> a sdiv b < 0 \<longleftrightarrow> \<bar>b\<bar> \<le> \<bar>a\<bar> \<and> (a < 0) \<noteq> (b < 0)" for a b :: int
proof -
  assume b: "b \<noteq> 0"
  show ?thesis
  proof (cases "a sdiv b = 0")
    case True then show ?thesis using sdiv_zero_iff [OF b, of a] by auto
  next
    case False
    then have "sgn (a sdiv b) = sgn (a * b)" "\<bar>b\<bar> \<le> \<bar>a\<bar>" using sdiv_zero_iff [OF b, of a] by (auto intro: sgn_sdiv_eq_sgn_mult)
    moreover have "a \<noteq> 0" using False by auto
    ultimately show ?thesis using b by (auto simp: sgn_if mult_less_0_iff zero_less_mult_iff split: if_splits)
  qed
qed

section \<open>Wrap-around, fields and bytes\<close>

definition wrap64 :: "int \<Rightarrow> int" where
  "wrap64 i = (i + 2 ^ 63) mod 2 ^ 64 - 2 ^ 63"

lemma sint_wrap: "sint (of_int i :: u64) = wrap64 i"
  by (simp add: wrap64_def sint_sbintrunc' signed_take_bit_eq_take_bit_shift take_bit_eq_mod)

lemma integer_arithmetic:
  "\<exists>x. int64_add [LInteger a, LInteger b] = Inr (LInteger x) \<and> sint x = wrap64 (sint a + sint b)"
  "\<exists>x. int64_sub [LInteger a, LInteger b] = Inr (LInteger x) \<and> sint x = wrap64 (sint a - sint b)"
  "\<exists>x. int64_mul [LInteger a, LInteger b] = Inr (LInteger x) \<and> sint x = wrap64 (sint a * sint b)"
  by (auto simp: int64_add_def int64_sub_def int64_mul_def int2_integers sint_wrap [symmetric])

text \<open>The end of a field is computed in \<open>int64_t\<close> before it is compared, which overflows for the largest widths.\<close>

lemma extract64_overflow: "int64_extract [LInteger n, LInteger 1, LInteger LLONG_MAX] = Inl Undefined"
  by (simp add: int64_extract_def luaL_checkinteger64_def luaL_optinteger64_def luaL_opt_def arg_def field64_def cint64_def)

lemma bit_bswap64:
  assumes "i < 64"
  shows "bit (bswap64 n) i \<longleftrightarrow> bit n (8 * (7 - i div 8) + i mod 8)"
proof -
  have m: "(0xFF000000000000 :: u64) = push_bit 48 (mask 8)" "(0xFF0000000000 :: u64) = push_bit 40 (mask 8)" "(0xFF00000000 :: u64) = push_bit 32 (mask 8)"
    "(0xFF000000 :: u64) = push_bit 24 (mask 8)" "(0xFF0000 :: u64) = push_bit 16 (mask 8)" "(0xFF00 :: u64) = push_bit 8 (mask 8)" "(0xFF :: u64) = mask 8"
    by (simp_all add: mask_eq_exp_minus_1 push_bit_eq_mult)
  define j where "j = i mod 8"
  have j: "j < 8" and i: "i = 8 * (i div 8) + j" by (simp_all add: j_def)
  have "i div 8 < 8" using assms by simp
  then consider "i div 8 = 0" | "i div 8 = 1" | "i div 8 = 2" | "i div 8 = 3" | "i div 8 = 4" | "i div 8 = 5" | "i div 8 = 6" | "i div 8 = 7" by linarith
  moreover have "\<not> bit n (64 + k)" for k by (auto dest: bit_imp_le_length)
  then have "\<not> bit n (64 + j)" "\<not> bit n (72 + j)" "\<not> bit n (80 + j)" "\<not> bit n (88 + j)" "\<not> bit n (96 + j)" "\<not> bit n (104 + j)" "\<not> bit n (112 + j)"
    by (auto dest: bit_imp_le_length)
  ultimately have "bit (bswap64 n) (8 * (i div 8) + j) \<longleftrightarrow> bit n (8 * (7 - i div 8) + j)"
    unfolding bswap64_def m bit_or_iff bit_and_iff bit_push_bit_iff bit_drop_bit_eq bit_mask_iff o_apply
    by cases (use j in simp_all)
  then show ?thesis using i j_def by metis
qed

lemma bswap64_involutive: "bswap64 (bswap64 n) = n"
  by (rule bit_word_eqI) (simp add: bit_bswap64)

section \<open>Properties\<close>

text \<open>C38. Every fast function of the \<open>integer\<close> library has the result of its library function: a fast call is the library call.\<close>

theorem integer_fast_calls:
  assumes "(fast, lib) \<in> set [(luauF_integercreate, int64_create C), (luauF_integertonumber, int64_tonumber), (luauF_integerneg, int64_neg),
    (luauF_integeradd, int64_add), (luauF_integersub, int64_sub), (luauF_integermul, int64_mul), (luauF_integerdiv, int64_div),
    (luauF_integeridiv, int64_idiv), (luauF_integerrem, int64_rem), (luauF_integermod, int64_mod), (luauF_integerudiv, int64_udiv),
    (luauF_integerurem, int64_urem), (luauF_integermin, int64_min), (luauF_integermax, int64_max), (luauF_integerclamp, int64_clamp),
    (luauF_integerband, int64_band), (luauF_integerbor, int64_bor), (luauF_integerbxor, int64_bxor), (luauF_integerbnot, int64_bnot),
    (luauF_integerbtest, int64_btest), (luauF_integerlshift, int64_lshift), (luauF_integerrshift, int64_rshift),
    (luauF_integerarshift, int64_arshift), (luauF_integerlrotate, int64_lrotate), (luauF_integerrrotate, int64_rrotate),
    (luauF_integerextract, int64_extract), (luauF_integercountlz, int64_countlz), (luauF_integercountrz, int64_countrz),
    (luauF_integerbswap, int64_bswap), (luauF_integerlt, int64_lt), (luauF_integerle, int64_le), (luauF_integergt, int64_gt),
    (luauF_integerge, int64_ge), (luauF_integerult, int64_ult), (luauF_integerule, int64_ule), (luauF_integerugt, int64_ugt),
    (luauF_integeruge, int64_uge)]"
  shows "fastcall fast lib nresults args = lib args"
proof (rule exact_fast_function.fastcall_exact)
  show "exact_fast_function fast lib"
    using assms unfolding list.set insert_iff empty_iff prod.inject
    by (elim disjE conjE) (simp_all only: integer_contracts)
qed

theorem integer_fast_calls_witness: "fastcall luauF_integermin int64_min 1 [LInteger 3, LInteger (- 4)] = Inr (LInteger (- 4))"
  using integer_fast_calls [of luauF_integermin int64_min "\<lparr>c_strtod = (\<lambda>s. (0, 0)), c_strtoul16 = (\<lambda>s. (0, 0))\<rparr>" 1 "[LInteger 3, LInteger (- 4)]"]
  by (simp add: int64_min_def luaL_checkinteger64_def arg_def numeral_eq_Suc)

text \<open>C39. Division: the quotient and the remainder of \<open>div\<close> and \<open>rem\<close> are the truncated ones, \<open>mod\<close> is the floored remainder, and the
  errors are a zero divisor and, for \<open>div\<close>, the one quotient that does not fit.\<close>

theorem integer_division:
  "if b = 0 then (\<forall>op \<in> set [int64_div, int64_rem, int64_mod, int64_idiv]. op [LInteger a, LInteger b] = Inl DivisionByZero)
   else \<exists>r m. int64_rem [LInteger a, LInteger b] = Inr (LInteger r) \<and> int64_mod [LInteger a, LInteger b] = Inr (LInteger m)
     \<and> \<bar>sint r\<bar> < \<bar>sint b\<bar> \<and> (sint r = 0 \<or> sgn (sint r) = sgn (sint a)) \<and> sint m = sint a mod sint b
     \<and> (if a = LLONG_MIN \<and> b = - 1 then int64_div [LInteger a, LInteger b] = Inl IntegerOverflow
        else \<exists>q. int64_div [LInteger a, LInteger b] = Inr (LInteger q) \<and> sint a = sint q * sint b + sint r)"
proof (cases "b = 0")
  case False
  then have b: "sint b \<noteq> 0" by (simp add: sint_eq_0)
  have r1: "\<bar>sint a smod sint b\<bar> < \<bar>sint b\<bar>" using smod_int_range [OF b, of "sint a"] by auto
  have "0 \<le> \<bar>sint a\<bar> mod \<bar>sint b\<bar>" using b by simp
  then have r2: "sint a smod sint b = 0 \<or> sgn (sint a smod sint b) = sgn (sint a)"
    by (cases "\<bar>sint a\<bar> mod \<bar>sint b\<bar> = 0") (auto simp: signed_modulo_int_def sgn_mult)
  note r = r1 r2
  have m: "\<bar>sint a mod sint b\<bar> < \<bar>sint b\<bar>" using b by (simp add: abs_mod_less)
  have fit: "sint (of_int i :: u64) = i" if "\<bar>i\<bar> < \<bar>sint b\<bar>" for i using that sint_range [of b] by (intro sint_of_int) linarith+
  show ?thesis
  proof (cases "a = LLONG_MIN \<and> b = - 1")
    case True
    then show ?thesis by (auto simp: int64_rem_def int64_mod_def int64_div_def int2_integers)
  next
    case ok: False
    note q = sdiv_range [OF False ok]
    have "sint (of_int (sint a sdiv sint b) :: u64) = sint a sdiv sint b" using q by (intro sint_of_int)
    moreover have "int64_rem [LInteger a, LInteger b] = Inr (LInteger (of_int (sint a smod sint b)))"
      unfolding int64_rem_def int2_integers by (simp only: False ok if_False)
    moreover have "int64_mod [LInteger a, LInteger b] = Inr (LInteger (of_int (sint a mod sint b)))"
      unfolding int64_mod_def int2_integers Let_def floored(1) [OF b, symmetric] using False ok by simp
    moreover have "int64_div [LInteger a, LInteger b] = Inr (LInteger (of_int (sint a sdiv sint b)))"
      unfolding int64_div_def int2_integers by (simp only: False ok if_False)
    moreover have "sint a = sint a sdiv sint b * sint b + sint a smod sint b" by (simp only: sdiv_mult_smod_eq)
    ultimately show ?thesis unfolding if_not_P [OF False] if_not_P [OF ok] using r fit [OF r(1)] fit [OF m]
      by (intro exI conjI) (assumption | simp only:)+
  qed
qed (simp add: int64_div_def int64_rem_def int64_mod_def int64_idiv_def int2_integers)

theorem integer_division_witness:
  "\<exists>r m. int64_rem [LInteger (- 7), LInteger 3] = Inr (LInteger r) \<and> int64_mod [LInteger (- 7), LInteger 3] = Inr (LInteger m) \<and> sint m = 2"
  using integer_division [of 3 "- 7"] by auto

text \<open>\<open>idiv\<close>, documented as floored division, returns the floor of the quotient except where that floor is \<open>-1\<close> and the
  truncated quotient is zero: then it returns zero, as for \<open>-1\<close> divided by \<open>2\<close>.\<close>

lemma integer_idiv_floor:
  assumes "b \<noteq> 0" "\<not> (a = LLONG_MIN \<and> b = - 1)"
  shows "\<exists>q. int64_idiv [LInteger a, LInteger b] = Inr (LInteger q)
    \<and> sint q = (if \<bar>sint a\<bar> < \<bar>sint b\<bar> then 0 else sint a div sint b)
    \<and> (sint q = sint a div sint b \<longleftrightarrow> \<not> (sint a \<noteq> 0 \<and> \<bar>sint a\<bar> < \<bar>sint b\<bar> \<and> (sint a < 0) \<noteq> (sint b < 0)))"
proof -
  let ?a = "sint a" and ?b = "sint b"
  have b: "?b \<noteq> 0" using assms(1) by (simp add: sint_eq_0)
  note floor = floored(2) [OF b, of ?a] and neg = sdiv_negative_iff [OF b, of ?a] and zero = sdiv_zero_iff [OF b, of ?a]
  let ?q = "if ?a sdiv ?b < 0 \<and> ?a smod ?b \<noteq> 0 then ?a sdiv ?b - 1 else ?a sdiv ?b"
  have q: "?q = (if \<bar>?a\<bar> < \<bar>?b\<bar> then 0 else ?a div ?b)" using floor neg zero by auto
  have small: "?a smod ?b = ?a" if "\<bar>?a\<bar> < \<bar>?b\<bar>" using that zero sdiv_mult_smod_eq [of ?a ?b] by simp
  have "?a smod ?b = 0" if e: "?a sdiv ?b = - (2 ^ 63)"
  proof -
    have "?a = - (2 ^ 63)" using e sdiv_int_range [of ?a ?b] sint_range [of a] by auto
    with e have "?b = 1" using int_sdiv_same_is_1 [of ?a ?b] by simp
    then show ?thesis by (simp add: signed_modulo_int_def)
  qed
  then have "- (2 ^ 63) \<le> ?q" "?q < 2 ^ 63"
    using sdiv_range [OF assms] by (cases "?a sdiv ?b = - (2 ^ 63)"; auto)+
  then have "sint (of_int ?q :: u64) = ?q" by (rule sint_of_int)
  moreover have "?q = ?a div ?b \<longleftrightarrow> \<not> (?a \<noteq> 0 \<and> \<bar>?a\<bar> < \<bar>?b\<bar> \<and> (?a < 0) \<noteq> (?b < 0))" unfolding q using floor small zero by auto
  ultimately show ?thesis using assms q by (auto simp: int64_idiv_def int2_integers Let_def)
qed

end
