(* ===== verification/Spec2Isabelle.thy ===== *)
theory Spec2Isabelle
  imports VecDeque DenseHash Interning BytecodeRoundtrip Jumps LuaTableNext TableSortLaws TableLib Vfs HashLib Utf8 IntLib
begin

text \<open>
  A verification library for Jaci/Luau: the containers of its support library, the bytecode that the
  compiler hands to the virtual machine, the tables of the virtual machine with their library, its hash, crypto,
  UTF-8, \<open>bit32\<close> and \<open>integer\<close> libraries, and the compressed buffers of the command line tools. Paths are relative to \<^verbatim>\<open>src/\<close>.

  \<^bold>\<open>The program and how its parts interact.\<close> A source file is parsed (\<^verbatim>\<open>Ast\<close>), checked (\<^verbatim>\<open>Analysis\<close>) and compiled
  (\<^verbatim>\<open>Compiler\<close>). The compiler drives a \<open>BytecodeBuilder\<close> (\<^verbatim>\<open>Bytecode\<close>), which interns constants, patches jumps and serializes
  a module to bytes; the loader (\<^verbatim>\<open>VM/src/lvmload.cpp\<close>) reads the bytes back into prototypes that the interpreter runs.
  All of them use the containers of \<^verbatim>\<open>Common\<close>. The running program lives in tables (\<^verbatim>\<open>VM/src/ltable.cpp\<close>), which the table
  library (\<^verbatim>\<open>VM/src/ltablib.cpp\<close>) exposes; scripts reach digests, ciphers and encodings through \<open>hash\<close> and \<open>crypto\<close>
  (\<^verbatim>\<open>VM/src/lhashlib.cpp\<close>) and characters through \<open>utf8\<close> (\<^verbatim>\<open>VM/src/lutf8lib.cpp\<close>).
  For \<open>bit32\<close> and \<open>integer\<close> (\<^verbatim>\<open>lbitlib.cpp\<close>, \<^verbatim>\<open>lintlib.cpp\<close>) the interpreter first tries a fast function (\<^verbatim>\<open>lbuiltins.cpp\<close>) and calls the library only
  if that gives no answer. The language server and the bundles of the command line tools keep
  texts in compressed buffers (\<^verbatim>\<open>CLI/src/VfsCompress.cpp\<close>).

  \<^bold>\<open>Prelude.\<close> Names of the machine types, block writes (\<open>memcpy\<close>), ring arithmetic, sequences of operations (\<open>run_ops\<close>) and
  the contract \<open>data_refinement\<close> between a component and its specification: every operation that returns keeps the
  invariant and answers as specified, every failure is the specification's own or a lack of resources.

  \<^bold>\<open>Containers\<close> (\<^verbatim>\<open>Common/include/Luau/VecDeque.h\<close>, \<^verbatim>\<open>DenseHash2.h\<close>).
  \<open>VecDeque\<close>: the ring buffer, its fields as a record, the buffer a list of optional elements where an absent one is raw
  memory. Every sequence of operations is the same sequence on a list with a capacity, with the same outputs and the same
  failures: an allocation fails exactly when the capacity asked for exceeds \<open>max_size\<close>, for elements of at least three bytes. \<open>BitSet\<close>: the words of the occupancy set and its iterator, which enumerates exactly the
  set bits. \<open>Probing\<close>: linear probing with backward-shift deletion, independent of storage. \<open>DenseHash\<close>: \<open>DenseHashTable2\<close> with
  growth, erasure, iteration, copies; sets and maps on top of it behave as mathematical sets and finite maps for up to
  \<open>2 ^ 61\<close> operations, with every probe loop ending. Hash and equality are parameters.

  \<^bold>\<open>Bytecode\<close> (\<^verbatim>\<open>Bytecode/src/BytecodeBuilder.cpp\<close>, \<^verbatim>\<open>Common/src/BytecodeWire.cpp\<close>, \<^verbatim>\<open>VM/src/lvmload.cpp\<close>).
  \<open>Wire\<close>: little-endian and variable-length integers, writers and readers; a reader works on the bytes from its offset
  on. \<open>Instruction\<close>: the packed instruction words, import ids and the string hash that builder and virtual machine compute
  with a loop each, both compared with one description. \<open>LineInfo\<close>: line tables, encoded with a span chosen by the builder and decoded by the loader. \<open>BytecodeBuilder\<close>:
  the builder's state as a record, its constant tables and caches, serialization. \<open>Interning\<close>: what the index stands for that
  adding a constant of any kind returns. \<open>Numbers\<close>: doubles as bit patterns, and their rounding to \<open>float\<close>.
  \<open>BytecodeLoader\<close>: the loader of the default build, where a vector is three floats, with its error returns; a read outside of the blob, which the code leaves to its caller to
  rule out, is \<open>None\<close>. \<open>BytecodeRoundtrip\<close>: the composition, every module built from well-formed builder states is accepted
  and loads to prototypes that represent those states. \<open>Jumps\<close>: jump folding and the expansion of long jumps, a
  simulation of the control flow before by the control flow after for code away from the edge of the short jumps, and two inputs on which offsets leave their fields.

  \<^bold>\<open>Tables\<close> (\<^verbatim>\<open>VM/src/ltable.cpp\<close>, with \<^verbatim>\<open>lobject.cpp\<close>, \<^verbatim>\<open>lnumutils.h\<close>, \<^verbatim>\<open>lgc.cpp\<close>).
  \<open>LuaTable\<close> translates the whole of \<^verbatim>\<open>ltable.cpp\<close>: the array part, the node array with its chains of relative links, the shared
  field for the free pointer and the length hint, hashes of every key type, insertion with Brent's variation, rehashing,
  resizing, traversal and length. \<open>LuaTableNodes\<close> (chains), \<open>LuaTablePlace\<close> (placing a key), \<open>LuaTableMap\<close> (the pairs of a table),
  \<open>LuaTableResize\<close>, \<open>LuaTableRehash\<close> (the counting that chooses sizes) and \<open>LuaTableOps\<close> (the assignments, through the interface
  \<open>keyed_store\<close>, interpreted for every accessor) carry the proofs. \<open>LuaTableLaws\<close> defines the tables that the operations can
  build (\<open>vm_table\<close>, an inductive predicate) and states that they keep the documented invariants, answer like finite maps
  on keys up to raw equality, return from every assignment with documented errors only, and give a border as length.
  \<open>LuaTableDead\<close>: dead keys, which the collector leaves in the nodes; a key is found before any dead key with its address, in
  every table that the VM builds while addresses are used again and the hashes at them change (\<open>gc_table\<close>). \<open>LuaTableNext\<close>:
  traversal of such a table reaches its end and visits every pair once.

  \<^bold>\<open>Table library\<close> (\<^verbatim>\<open>VM/src/ltablib.cpp\<close>, \<^verbatim>\<open>lvmutils.cpp\<close>).
  \<open>TableSort\<close> is \<open>table.sort\<close> with an arbitrary order predicate, a call into the program that may raise, lie and change the table.
  Its interface \<open>sort_invariant\<close> (what a comparison and a swap keep) proves once that every routine keeps an invariant, and is
  interpreted for any predicate (memory safety), for predicates that leave the table alone (permutation, also after an
  error) and, as a sublocale of \<open>sort_order\<close>, for strict weak orders. \<open>TableSortOrder\<close> shows that the sort returns and sorts
  then, both the quicksort and the heap sort it falls back to. \<open>TableSortLaws\<close> has the default order on values, the
  interpretations of \<open>sort_order\<close> for numbers and for strings, and the properties on tables. \<open>TableLib\<close>: move, insert, remove,
  pack, unpack, find; a table used as a sequence refines a list.

  \<^bold>\<open>Compressed buffers\<close> (\<^verbatim>\<open>CLI/src/VfsCompress.cpp\<close>). \<open>Vfs\<close>: the encoder, the decoder, the file buffer and the line table; the
  round trip on texts whose literal runs are shorter than 255 bytes, its failure on longer ones, positions in a text.

  \<^bold>\<open>Hash and crypto libraries\<close> (\<^verbatim>\<open>VM/src/lhashlib.cpp\<close>). \<open>Digest\<close> translates MD5, SHA-1 and the SHA-2 functions statement by
  statement, with the uninitialised stack buffer as a parameter, beside the descriptions of RFC 1321 and FIPS 180-4
  (padding, blocks, compression); the two agree on every message of less than \<open>2 ^ 64\<close> bytes, and the SHA-2 constants are checked to be
  the roots of primes they are derived from. The contract \<open>block_hash\<close> of the buffering loop is proved once and interpreted for
  every block size and length field. \<open>HashCodec\<close>: hexadecimal and Base64 codecs with round trips and errors, CRC-32 with the bursts it
  detects, FNV-1a, which loses bits in its result. \<open>HashLib\<close>: the entry points with their argument errors and the explicit sizes of
  their arrays and results (an access outside of a local array would be the error \<open>OutOfBounds\<close>), HMAC as RFC 2104
  defines it, ChaCha20 as an exclusive-or with its key stream, random bytes from a device that may fail.

  \<^bold>\<open>UTF-8 library\<close> (\<^verbatim>\<open>VM/src/lutf8lib.cpp\<close>). \<open>Utf8\<close>: decoding, encoding, validation, offsets and iteration on strings with a
  terminating zero. The decoder accepts exactly the shortest encodings of scalar values, \<open>len\<close> validates, positions are those
  of the characters, and no function reads beyond the terminator. \<open>codepoint\<close> has the stack limit of \<open>luaL_checkstack\<close>, with the slots
  in use as an argument; the position of the iterator that overflows an \<open>int\<close> is an undefined result.

  \<^bold>\<open>Bit and integer libraries\<close> (\<^verbatim>\<open>VM/src/lbitlib.cpp\<close>, \<^verbatim>\<open>lintlib.cpp\<close>, \<^verbatim>\<open>lbuiltins.cpp\<close>). \<open>LibArgs\<close>: values, argument checks (\<^verbatim>\<open>laux.cpp\<close>), conversions,
  and fast calls with their contract, the locale \<open>fast_function\<close> and its strict form \<open>exact_fast_function\<close>. \<open>BitLib\<close> and \<open>IntLib\<close>: every
  function of the libraries beside its fast function, both translated, the contract interpreted for each pair, so that a fast
  call has the library's result; the arithmetic meaning of shifts, rotations, fields and divisions. Operations without a
  defined result in C++ are the error \<open>Undefined\<close>, which makes the inputs visible on which the code overflows. \<open>integer.idiv\<close> is shown to
  differ from floored division exactly where the truncated quotient is zero and the signs differ.

  \<^bold>\<open>Bounds and fuel.\<close> Loops are structural recursion or functions with a measure, with these exceptions. A walk along the
  chain of a table's nodes has as much fuel as there are nodes, which is enough because chains of the built tables do not
  repeat a node; running out is the result \<open>NoReturn\<close>, which is excluded by the invariant. The mutual recursion of
  \<open>newkey\<close>, \<open>rehash\<close> and \<open>resize\<close> has depth 2: after one rehash there is room for the key. The loop of \<open>adjustasize\<close> has fuel for all
  slots and three more steps. Traversal has one step per slot and one for the end. \<open>table.find\<close> has one step per pair and one
  more, since so many consecutive keys are not all present. A script's loop over \<open>utf8.codes\<close> has one step per character and one
  for the end. \<open>\<le> 33554430\<close> pairs is the bound below which no table overflow
  occurs: \<open>MAXSIZE\<close> is \<open>2 ^ 26\<close>, and a rehash at most doubles the pairs. Fixed-width arithmetic is on words where it can wrap
  and on integers where the code's own limits exclude that, as each theory says.

  \<^bold>\<open>What is not modelled.\<close> Of the modelled files: debug output and validation of the builder, memory management and write
  barriers of tables, the argument checks of the library calls, the sparse path of \<open>table.move\<close> (behind a flag that is off by
  default), \<open>concat\<close>, \<open>foreach\<close>, \<open>maxn\<close>, \<open>freeze\<close>; the Windows branch of \<open>randomBytes\<close>;
  \<open>integer.fromstring\<close>, and the compiler-specific variants of counting zeros and rotating. A shift of \<open>utf8_decode\<close> by 35 bits (a lead byte
  \<open>0xFF\<close> and seven continuation bytes) is undefined in C++ and, its operand being zero, zero in the model; the sequence is
  rejected for its length whatever the value. The mask of \<open>b_replace\<close> for the width 32 is a shift of \<open>-1\<close> by zero, undefined before
  C++20 and \<open>-1\<close> in the model. Growing the Lua stack below its limit does not fail. The builds with vectors of four components
  or of doubles are left out. Of the program: parser and type checker (\<^verbatim>\<open>Ast\<close>, \<^verbatim>\<open>Analysis\<close>), the compiler's code
  generation (\<^verbatim>\<open>Compiler\<close>), the native code generator (\<^verbatim>\<open>CodeGen\<close>), the interpreter loop, garbage collector, API and the other
  libraries of the virtual machine, \<^verbatim>\<open>Config\<close>, \<^verbatim>\<open>Require\<close>, \<^verbatim>\<open>Inliner\<close>, the bytecode graph, and the command line tools
  other than the buffers. Next in order: the buffer and JSON libraries, the lexer, the sparse move.
\<close>

end
